(* ===== verification/Dristy_Prelude.thy ===== *)
theory Dristy_Prelude
  imports Main "HOL-Library.Word"
begin

unbundle bit_operations_syntax

text \<open>
  Shared vocabulary of the development: the machine types of the firmware, the pointer and
  length arguments of the C functions, byte buffers that are written in place, the lemma
  collections, and two generic interfaces (an error detecting byte register and a field codec)
  that several components provide.
\<close>

section \<open>Machine types\<close>

type_synonym u8 = "8 word"
type_synonym u16 = "16 word"
type_synonym u32 = "32 word"
type_synonym u64 = "64 word"

named_theorems buf_simps \<open>rewriting of byte buffers written in place\<close>
named_theorems codec_simps \<open>layout facts of the wire formats\<close>
named_theorems inv_intros \<open>operations keep their component's invariant\<close>
named_theorems len_simps \<open>lengths of buffers and tables that operations keep\<close>

section \<open>Pointer and length arguments\<close>

text \<open>
  A C function that takes a pointer and a length checks \<open>length && !data\<close>. \<open>Null n\<close> is a NULL
  pointer passed with length \<open>n\<close>; \<open>Ptr xs\<close> points at the elements \<open>xs\<close>, passed with their number.
\<close>

datatype 'a cptr = Null nat | Ptr "'a list"

fun plen :: "'a cptr \<Rightarrow> nat" where
  "plen (Null n) = n"
| "plen (Ptr xs) = length xs"

fun pdata :: "'a cptr \<Rightarrow> 'a list" where
  "pdata (Null n) = []"
| "pdata (Ptr xs) = xs"

fun is_null :: "'a cptr \<Rightarrow> bool" where
  "is_null (Null n) = True"
| "is_null (Ptr xs) = False"

lemma is_null_pdata [simp]: "\<not> is_null p \<Longrightarrow> length (pdata p) = plen p"
  by (cases p) auto

section \<open>Byte buffers written in place\<close>

text \<open>\<open>mem_write off xs buf\<close> is \<open>memcpy(buf + off, xs, n)\<close> with \<open>n\<close> the length of \<open>xs\<close>.\<close>

definition mem_write :: "nat \<Rightarrow> 'a list \<Rightarrow> 'a list \<Rightarrow> 'a list" where
  "mem_write off xs buf = take off buf @ xs @ drop (off + length xs) buf"

definition slice :: "nat \<Rightarrow> nat \<Rightarrow> 'a list \<Rightarrow> 'a list" where
  "slice off n buf = take n (drop off buf)"

lemma length_mem_write [simp, len_simps]:
  "off + length xs \<le> length buf \<Longrightarrow> length (mem_write off xs buf) = length buf"
  by (simp add: mem_write_def)

lemma length_slice [simp]: "off + n \<le> length buf \<Longrightarrow> length (slice off n buf) = n"
  by (simp add: slice_def)

lemma nth_mem_write:
  assumes "off + length xs \<le> length buf" and "i < length buf"
  shows "mem_write off xs buf ! i =
    (if off \<le> i \<and> i < off + length xs then xs ! (i - off) else buf ! i)"
  using assms by (auto simp: mem_write_def nth_append)

lemma slice_mem_write_same [buf_simps]:
  "off + length xs \<le> length buf \<Longrightarrow> n = length xs \<Longrightarrow> slice off n (mem_write off xs buf) = xs"
  by (simp add: slice_def mem_write_def)

lemma slice_mem_write_before [buf_simps]:
  assumes "off + n \<le> off'" and "off' + length xs \<le> length buf"
  shows "slice off n (mem_write off' xs buf) = slice off n buf"
  using assms by (intro nth_equalityI) (auto simp: slice_def nth_mem_write)

lemma slice_mem_write_after [buf_simps]:
  assumes "off' + length xs \<le> off" and "off' + length xs \<le> length buf"
  shows "slice off n (mem_write off' xs buf) = slice off n buf"
  using assms by (intro nth_equalityI) (auto simp: slice_def nth_mem_write)

lemma take_mem_write_end [buf_simps]:
  "off + length xs \<le> length buf \<Longrightarrow> n = off + length xs \<Longrightarrow>
    take n (mem_write off xs buf) = take off buf @ xs"
  by (simp add: mem_write_def)

lemma take_mem_write_before [buf_simps]:
  "n \<le> off \<Longrightarrow> off + length xs \<le> length buf \<Longrightarrow> take n (mem_write off xs buf) = take n buf"
  by (simp add: mem_write_def)

lemma mem_write_Nil [simp]: "off \<le> length buf \<Longrightarrow> mem_write off [] buf = buf"
  by (simp add: mem_write_def)

lemma mem_write_single: "off < length buf \<Longrightarrow> mem_write off [x] buf = buf[off := x]"
  by (simp add: mem_write_def upd_conv_take_nth_drop)

lemma list_update_as_mem_write:
  "off < length buf \<Longrightarrow> buf[off := x] = mem_write off [x] buf"
  by (simp add: mem_write_single)

lemma mem_write_append:
  assumes "off + length xs + length ys \<le> length buf"
  shows "mem_write (off + length xs) ys (mem_write off xs buf) = mem_write off (xs @ ys) buf"
  using assms by (simp add: mem_write_def ac_simps)

lemma mem_write_append_at:
  "n = off + length xs \<Longrightarrow> n + length ys \<le> length buf \<Longrightarrow>
    mem_write n ys (mem_write off xs buf) = mem_write off (xs @ ys) buf"
  by (simp add: mem_write_append)

lemma slice_take [buf_simps]: "off + n \<le> m \<Longrightarrow> slice off n (take m buf) = slice off n buf"
  by (simp add: slice_def take_drop min_def)

lemma slice_append_left [buf_simps]:
  "off + n \<le> length xs \<Longrightarrow> slice off n (xs @ ys) = slice off n xs"
  by (simp add: slice_def)

lemma slice_append_right [buf_simps]:
  "length xs \<le> off \<Longrightarrow> slice off n (xs @ ys) = slice (off - length xs) n ys"
  by (simp add: slice_def)

lemma slice_zero_length [simp]: "slice off 0 xs = []"
  by (simp add: slice_def)

lemma slice_0 [simp]: "slice 0 n xs = take n xs"
  by (simp add: slice_def)

lemma mem_write_update [buf_simps]:
  "off \<le> i \<Longrightarrow> i < off + length xs \<Longrightarrow> off + length xs \<le> length buf \<Longrightarrow>
    mem_write off xs (buf[i := x]) = mem_write off xs buf"
  by (simp add: mem_write_def take_update_cancel drop_update_cancel)

lemma list_update_block:
  assumes "slice (off + 1) (length xs) buf = xs" and "off + 1 + length xs \<le> length buf"
  shows "buf[off := x] = mem_write off (x # xs) buf"
proof (rule nth_equalityI)
  fix i assume i: "i < length (buf[off := x])"
  have "buf ! (off + 1 + k) = xs ! k" if "k < length xs" for k
    using assms that by (metis nth_drop nth_take slice_def le_add1 order_trans add_leD1)
  from this [of "i - (off + 1)"] show "buf[off := x] ! i = mem_write off (x # xs) buf ! i"
    using i assms(2) by (auto simp: nth_mem_write nth_Cons' nth_list_update)
qed (use assms in simp)

lemma slice_snoc_update:
  "slice off (length xs) buf = xs \<Longrightarrow> off + length xs < length buf \<Longrightarrow> n = off + length xs \<Longrightarrow>
    slice off (length xs + 1) (buf[n := x]) = xs @ [x]"
  by (simp add: slice_def take_Suc_conv_app_nth drop_update_swap)

lemma slice_eq_nth:
  "off + n \<le> length buf \<Longrightarrow> slice off n buf = map (\<lambda>i. buf ! (off + i)) [0..<n]"
  by (intro nth_equalityI) (auto simp: slice_def)

section \<open>Words\<close>

lemma unat_ucast_u8_lt [simp]: "unat (ucast (b :: u8) :: u32) = unat b"
  by (simp add: unsigned_ucast_eq take_bit_nat_eq_self less_le_trans [OF unsigned_less])

lemma ucast_u8_inj [simp]: "(ucast b :: u32) = ucast (b' :: u8) \<longleftrightarrow> b = b'"
  by (metis unat_ucast_u8_lt word_unat_eq_iff)

lemma unat_of_nat_lt: "n < 2 ^ LENGTH('a) \<Longrightarrow> unat (of_nat n :: 'a::len word) = n"
  by (simp add: unat_of_nat take_bit_nat_eq_self)

lemma xor_right_cancel [simp]: "(a XOR c = b XOR c) \<longleftrightarrow> (a :: 'a::len word) = b"
  by (metis xor.assoc xor.right_neutral xor_self_eq)

lemma xor_left_cancel [simp]: "(c XOR a = c XOR b) \<longleftrightarrow> (a :: 'a::len word) = b"
  by (metis xor.commute xor_right_cancel)

lemma xor_eq_0_iff [simp]: "a XOR b = 0 \<longleftrightarrow> a = (b :: 'a::len word)"
  by (metis xor_right_cancel xor_self_eq)

lemma take_bit_self_bound: "take_bit m x = x \<Longrightarrow> m \<le> k \<Longrightarrow> \<not> bit (x :: 'a::len word) k"
  by (metis bit_take_bit_iff not_le)

lemma take_bit_selfI: "(\<And>k. m \<le> k \<Longrightarrow> \<not> bit x k) \<Longrightarrow> take_bit m x = (x :: 'a::len word)"
  by (rule bit_word_eqI) (auto simp: bit_take_bit_iff not_less [symmetric] intro: ccontr)

lemma word_split_u16: "(ucast (ucast v :: u8) :: u16) OR push_bit 8 (ucast (ucast (drop_bit 8 v) :: u8)) = (v :: u16)"
  by (rule bit_word_eqI) (auto simp: bit_simps)

lemma word_split_u32:
  "(ucast (ucast v :: u8) :: u32) OR push_bit 8 (ucast (ucast (drop_bit 8 v) :: u8)) OR
    push_bit 16 (ucast (ucast (drop_bit 16 v) :: u8)) OR
    push_bit 24 (ucast (ucast (drop_bit 24 v) :: u8)) = (v :: u32)"
proof (rule bit_word_eqI)
  fix n assume "n < LENGTH(32)"
  then consider "n < 8" | "8 \<le> n" "n < 16" | "16 \<le> n" "n < 24" | "24 \<le> n" "n < 32"
    by fastforce
  then show "bit ((ucast (ucast v :: u8) :: u32) OR push_bit 8 (ucast (ucast (drop_bit 8 v) :: u8)) OR
    push_bit 16 (ucast (ucast (drop_bit 16 v) :: u8)) OR
    push_bit 24 (ucast (ucast (drop_bit 24 v) :: u8))) n = bit v n"
    by cases (auto simp: bit_simps)
qed

lemma take_bit_of_lt: "unat x < 2 ^ m \<Longrightarrow> take_bit m x = (x :: 'a::len word)"
  by (simp add: word_unat_eq_iff unsigned_take_bit_eq take_bit_nat_eq_self)

lemma not_bit_of_lt: "unat x < 2 ^ m \<Longrightarrow> m \<le> k \<Longrightarrow> \<not> bit (x :: 'a::len word) k"
  by (rule take_bit_self_bound [OF take_bit_of_lt])

lemma word8_bits_eqI:
  "(\<And>n. n \<in> {0,1,2,3,4,5,6,7} \<Longrightarrow> bit a n = bit b n) \<Longrightarrow> a = (b :: u8)"
  by (rule bit_word_eqI) (simp add: less_Suc_eq numeral_eq_Suc)

lemma word32_bits_eqI:
  "(\<And>n. n \<in> {0,1,2,3,4,5,6,7,8,9,10,11,12,13,14,15,16,17,18,19,20,21,22,23,24,25,26,27,28,29,30,31} \<Longrightarrow> bit a n = bit b n) \<Longrightarrow> a = (b :: u32)"
  by (rule bit_word_eqI) (simp add: less_Suc_eq numeral_eq_Suc)

lemma u32_not_max_iff: "(w :: u32) \<noteq> - 1 \<longleftrightarrow> unat w + 1 < 2 ^ 32"
proof -
  have "w = - 1 \<longleftrightarrow> unat w = 2 ^ 32 - 1" by (simp add: word_unat_eq_iff unsigned_minus_1_eq_mask mask_eq_exp_minus_1)
  then show ?thesis using unsigned_less [of w, where ?'a = nat] by auto
qed

lemma u32_unat_succ: "(w :: u32) \<noteq> - 1 \<Longrightarrow> unat (w + 1) = unat w + 1"
  unfolding u32_not_max_iff by (simp add: unat_word_ariths)

lemma u32_succ_mono: "(w :: u32) \<noteq> - 1 \<Longrightarrow> w < w + 1"
  using u32_unat_succ [of w] by (simp add: word_less_nat_alt)

lemma u32_succ_nz: "(w :: u32) \<noteq> - 1 \<Longrightarrow> w + 1 \<noteq> 0"
  using u32_unat_succ [of w] by auto

section \<open>Tables\<close>

text \<open>An update at one index relates the entries before and after by any reflexive relation that the new entry satisfies.\<close>

lemma nth_update_rel: "R (xs ! i) x \<Longrightarrow> R (xs ! j) (xs ! j) \<Longrightarrow> R (xs ! j) (xs[i := x] ! j)"
  by (cases "i < length xs"; cases "i = j") (simp_all add: list_update_beyond)

lemma filter_length_update:
  "i < length xs \<Longrightarrow> length (filter P (xs[i := x])) + (if P (xs ! i) then 1 else 0) =
    length (filter P xs) + (if P x then 1 else (0 :: nat))"
proof (induction xs arbitrary: i)
  case (Cons a xs)
  then show ?case by (cases i) (auto split: if_splits)
qed simp

end
