(* ===== verification/Hk_String.thy ===== *)
theory Hk_String
  imports Dristy_Prelude
begin

text \<open>
  \<open>firmware/src/core/hk_string.c\<close>: case-insensitive comparison, UTF-16 to UTF-8 conversion into a
  bounded buffer, and the glyph iterator the terminal and the file browser draw text with. A C
  string is the list of its bytes before the terminator, \<open>None\<close> the NULL pointer; a pointer that is
  advanced is the remaining suffix. \<open>char_at\<close> reads the terminator behind the last byte.
\<close>

type_synonym cstr = "u8 list option"

definition char_at :: "u8 list \<Rightarrow> nat \<Rightarrow> u8" where
  "char_at str i = (if i < length str then str ! i else 0)"

section \<open>Definitions\<close>

text \<open>\<open>utf8_encode\<close> returns the bytes it stores at \<open>output\<close>; none of them is its return value 0.\<close>

definition utf8_encode :: "u32 \<Rightarrow> nat \<Rightarrow> u8 list" where
  "utf8_encode codepoint capacity =
     (if codepoint \<le> 0x7F then
        (if capacity < 1 then [] else [ucast codepoint])
      else if codepoint \<le> 0x7FF then
        (if capacity < 2 then []
         else [ucast (0xC0 OR drop_bit 6 codepoint),
               ucast (0x80 OR (codepoint AND 0x3F))])
      else if codepoint \<le> 0xFFFF then
        (if capacity < 3 then []
         else [ucast (0xE0 OR drop_bit 12 codepoint),
               ucast (0x80 OR (drop_bit 6 codepoint AND 0x3F)),
               ucast (0x80 OR (codepoint AND 0x3F))])
      else if codepoint \<le> 0x10FFFF then
        (if capacity < 4 then []
         else [ucast (0xF0 OR drop_bit 18 codepoint),
               ucast (0x80 OR (drop_bit 12 codepoint AND 0x3F)),
               ucast (0x80 OR (drop_bit 6 codepoint AND 0x3F)),
               ucast (0x80 OR (codepoint AND 0x3F))])
      else [])"

definition ascii_lower :: "u8 \<Rightarrow> u8" where
  "ascii_lower c = (if c \<ge> 0x41 \<and> c \<le> 0x5A then c + 0x20 else c)"

fun str_eq_ci :: "u8 list \<Rightarrow> u8 list \<Rightarrow> bool" where
  "str_eq_ci (a # as) (b # bs) =
     (if ascii_lower a \<noteq> ascii_lower b then False else str_eq_ci as bs)"
| "str_eq_ci [] [] = True"
| "str_eq_ci [] (b # bs) = False"
| "str_eq_ci (a # as) [] = False"

text \<open>The loop of \<open>utf16_to_utf8\<close>: the units not read yet, the bytes used, the outbuf buffer.\<close>

definition is_high :: "u16 \<Rightarrow> bool" where
  "is_high u = (u \<ge> 0xD800 \<and> u \<le> 0xDBFF)"

definition is_low :: "u16 \<Rightarrow> bool" where
  "is_low u = (u \<ge> 0xDC00 \<and> u \<le> 0xDFFF)"

definition utf16_unit :: "u16 \<Rightarrow> u16 list \<Rightarrow> u32 \<times> u16 list" where
  "utf16_unit u rest =
     (if is_high u \<and> rest \<noteq> [] \<and> is_low (hd rest) then
        (0x10000 + push_bit 10 (ucast u - 0xD800) + (ucast (hd rest) - 0xDC00), tl rest)
      else if u \<ge> 0xD800 \<and> u \<le> 0xDFFF then (0x3F, rest)
      else (ucast u, rest))"

lemma utf16_unit_shrinks [termination_simp]:
  "length (snd (utf16_unit u rest)) < Suc (length rest)"
  by (auto simp: utf16_unit_def)

function utf16_loop :: "u16 list \<Rightarrow> nat \<Rightarrow> u8 list \<Rightarrow> nat \<times> u8 list" where
  "utf16_loop [] used outbuf = (used, outbuf)"
| "utf16_loop (u # us) used outbuf =
     (if u = 0 \<or> u = 0xFFFF then (used, outbuf)
      else let cp = fst (utf16_unit u us);
               rest = snd (utf16_unit u us);
               encoded = utf8_encode cp (length outbuf - used - 1)
           in if encoded = [] then (used, outbuf)
              else utf16_loop rest (used + length encoded) (mem_write used encoded outbuf))"
  by pat_completeness auto
termination by (relation "measure (\<lambda>(us, _, _). length us)") (auto simp: termination_simp)

definition utf16_to_utf8 :: "u16 cptr \<Rightarrow> u8 cptr \<Rightarrow> nat \<times> u8 list" where
  "utf16_to_utf8 input outbuf =
     (if is_null outbuf \<or> plen outbuf = 0 then (0, pdata outbuf)
      else let (used, buf) = utf16_loop (pdata input) 0 (pdata outbuf)
           in (used, buf[used := 0]))"

text \<open>\<open>utf8_next\<close> returns the code point and the advanced cursor.\<close>

function utf8_cont :: "u8 list \<Rightarrow> nat \<Rightarrow> nat \<Rightarrow> u32 \<Rightarrow> u32 option" where
  "utf8_cont str i needed codepoint =
     (if i \<le> needed then
        (if char_at str i = 0 \<or> char_at str i AND 0xC0 \<noteq> 0x80 then None
         else utf8_cont str (i + 1) needed
                (push_bit 6 codepoint OR ucast (char_at str i AND 0x3F)))
      else Some codepoint)"
  by pat_completeness auto
termination by (relation "measure (\<lambda>(_, i, needed, _). needed + 1 - i)") auto

definition utf8_step :: "u8 list \<Rightarrow> u32 \<times> nat" where
  "utf8_step str =
     (if char_at str 0 < 0x80 then (ucast (char_at str 0), 1)
      else let lead = (if char_at str 0 AND 0xE0 = 0xC0 then Some (char_at str 0 AND 0x1F, 1)
                       else if char_at str 0 AND 0xF0 = 0xE0 then Some (char_at str 0 AND 0x0F, 2)
                       else if char_at str 0 AND 0xF8 = 0xF0 then Some (char_at str 0 AND 0x07, 3)
                       else None)
           in case lead of
                None \<Rightarrow> (0x3F, 1)
              | Some (bits, needed) \<Rightarrow>
                  (case utf8_cont str 1 needed (ucast bits) of
                     None \<Rightarrow> (0x3F, 1)
                   | Some codepoint \<Rightarrow> (codepoint, needed + 1)))"

definition utf8_next :: "cstr \<Rightarrow> u32 \<times> cstr" where
  "utf8_next cursor =
     (case cursor of
        None \<Rightarrow> (0, None)
      | Some str \<Rightarrow>
          if str = [] then (0, Some str)
          else (fst (utf8_step str), Some (drop (snd (utf8_step str)) str)))"

declare utf8_cont.simps [simp del]

text \<open>The iterator advances by at least one byte and never past the terminator.\<close>

lemma utf8_cont_bound:
  "utf8_cont str i needed cp = Some c \<Longrightarrow> i \<le> needed + 1 \<Longrightarrow> i \<le> length str \<Longrightarrow> needed < length str"
proof (induction str i needed cp rule: utf8_cont.induct)
  case (1 str i needed cp)
  show ?case
  proof (cases "i \<le> needed")
    case True
    have "utf8_cont str i needed cp = (if char_at str i = 0 \<or> char_at str i AND 0xC0 \<noteq> 0x80 then None
         else utf8_cont str (i + 1) needed (push_bit 6 cp OR ucast (char_at str i AND 0x3F)))"
      using True by (subst utf8_cont.simps) (simp only: if_True)
    with "1.prems"(1) have *: "\<not> (char_at str i = 0 \<or> char_at str i AND 0xC0 \<noteq> 0x80)"
      "utf8_cont str (i + 1) needed (push_bit 6 cp OR ucast (char_at str i AND 0x3F)) = Some c"
      by (auto simp only: option.distinct split: if_splits)
    then have "i < length str" by (auto simp: char_at_def split: if_splits)
    with * True show ?thesis by (intro "1.IH") auto
  next
    case False
    with "1.prems"(2,3) show ?thesis by linarith
  qed
qed

lemma utf8_step_bound:
  "str \<noteq> [] \<Longrightarrow> 1 \<le> snd (utf8_step str) \<and> snd (utf8_step str) \<le> length str"
  by (auto simp: utf8_step_def Let_def Suc_le_eq dest: utf8_cont_bound
      split: option.splits if_splits)

lemma utf8_step_shrinks [termination_simp]:
  "str \<noteq> [] \<Longrightarrow> length str - snd (utf8_step str) < length str"
  using utf8_step_bound [of str] by auto

function utf8_count_loop :: "u8 list \<Rightarrow> nat \<Rightarrow> nat" where
  "utf8_count_loop str count =
     (if str = [] then count
      else utf8_count_loop (the (snd (utf8_next (Some str)))) (count + 1))"
  by pat_completeness auto
termination
  by (relation "measure (\<lambda>(str, _). length str)") (auto simp: utf8_next_def termination_simp)

definition utf8_glyph_count :: "cstr \<Rightarrow> nat" where
  "utf8_glyph_count str = (case str of None \<Rightarrow> 0 | Some t \<Rightarrow> utf8_count_loop t 0)"

text \<open>The loop of \<open>utf8_copy_glyphs\<close>: text left, bytes used, glyphs copied, outbuf buffer.\<close>

function utf8_copy_loop :: "u8 list \<Rightarrow> nat \<Rightarrow> nat \<Rightarrow> nat \<Rightarrow> u8 list \<Rightarrow> nat \<times> u8 list" where
  "utf8_copy_loop str used glyphs max_glyphs outbuf =
     (if str \<noteq> [] \<and> glyphs < max_glyphs then
        let nxt = the (snd (utf8_next (Some str)));
            bytes = length str - length nxt
        in if used + bytes \<ge> length outbuf then (used, outbuf)
           else utf8_copy_loop nxt (used + bytes) (glyphs + 1) max_glyphs
                  (mem_write used (take bytes str) outbuf)
      else (used, outbuf))"
  by pat_completeness auto
termination
  by (relation "measure (\<lambda>(str, _). length str)") (auto simp: utf8_next_def termination_simp)

definition utf8_copy_glyphs :: "u8 cptr \<Rightarrow> cstr \<Rightarrow> nat \<Rightarrow> nat \<times> u8 list" where
  "utf8_copy_glyphs outbuf str max_glyphs =
     (if is_null outbuf \<or> plen outbuf = 0 then (0, pdata outbuf)
      else let (used, buf) = (case str of None \<Rightarrow> (0, pdata outbuf)
                              | Some t \<Rightarrow> utf8_copy_loop t 0 0 max_glyphs (pdata outbuf))
           in (used, buf[used := 0]))"

declare utf8_count_loop.simps [simp del] utf8_copy_loop.simps [simp del]

section \<open>Glyphs\<close>

text \<open>The glyphs of a text: the byte groups the iterator steps over.\<close>

function glyphs :: "u8 list \<Rightarrow> u8 list list" where
  "glyphs str = (if str = [] then []
     else take (snd (utf8_step str)) str # glyphs (drop (snd (utf8_step str)) str))"
  by pat_completeness auto
termination by (relation "measure length") (auto simp: termination_simp)

declare glyphs.simps [simp del]

lemma glyphs_Nil [simp]: "glyphs [] = []"
  by (simp add: glyphs.simps)

lemma concat_glyphs: "concat (glyphs str) = str"
  by (induction str rule: glyphs.induct) (subst glyphs.simps, auto)

lemma utf8_count_loop_glyphs: "utf8_count_loop str n = n + length (glyphs str)"
proof (induction str n rule: utf8_count_loop.induct)
  case (1 str count)
  then show ?case
    by (subst utf8_count_loop.simps, subst glyphs.simps) (auto simp: utf8_next_def)
qed

lemma utf8_glyph_count_glyphs: "utf8_glyph_count (Some str) = length (glyphs str)"
  by (simp add: utf8_glyph_count_def utf8_count_loop_glyphs)

text \<open>How many whole glyphs fit: at most \<open>m\<close>, and fewer bytes than the room that is left.\<close>

fun fitting :: "nat \<Rightarrow> nat \<Rightarrow> u8 list list \<Rightarrow> nat" where
  "fitting room m (g # gs) = (if m > 0 \<and> length g < room then Suc (fitting (room - length g) (m - 1) gs) else 0)"
| "fitting room m [] = 0"

lemma fitting_le: "fitting room m gs \<le> m" "fitting room m gs \<le> length gs"
  by (induction room m gs rule: fitting.induct) auto

lemma fitting_room: "0 < room \<Longrightarrow> length (concat (take (fitting room m gs) gs)) < room"
  by (induction room m gs rule: fitting.induct) auto

lemma utf8_copy_loop_glyphs:
  assumes "used < length outbuf" and "g \<le> m"
  shows "utf8_copy_loop str used g m outbuf =
    (let copied = concat (take (fitting (length outbuf - used) (m - g) (glyphs str)) (glyphs str))
     in (used + length copied, mem_write used copied outbuf))"
  using assms
proof (induction str used g m outbuf rule: utf8_copy_loop.induct)
  case (1 str used g m outbuf)
  show ?case
  proof (cases "str \<noteq> [] \<and> g < m")
    case False
    then have "str = [] \<or> m - g = 0" by auto
    moreover have "fitting r 0 gs = 0" for r gs by (cases gs) auto
    ultimately show ?thesis using False "1.prems"
      by (auto simp: utf8_copy_loop.simps [of str])
  next
    case True
    let ?n = "snd (utf8_step str)"
    have n: "1 \<le> ?n" "?n \<le> length str" using utf8_step_bound True by auto
    have nxt: "the (snd (utf8_next (Some str))) = drop ?n str"
      using True by (simp add: utf8_next_def)
    have bytes: "length str - length (drop ?n str) = ?n" using n by simp
    have gl: "glyphs str = take ?n str # glyphs (drop ?n str)"
      using True by (simp add: glyphs.simps [of str])
    show ?thesis
    proof (cases "length outbuf \<le> used + ?n")
      case full: True
      then show ?thesis
        using True n "1.prems" by (subst utf8_copy_loop.simps) (simp add: gl nxt bytes)
    next
      case False
      have "utf8_copy_loop str used g m outbuf =
          utf8_copy_loop (drop ?n str) (used + ?n) (g + 1) m (mem_write used (take ?n str) outbuf)"
        using True False by (subst utf8_copy_loop.simps) (simp only: nxt bytes Let_def, simp)
      also have "\<dots> = (let copied = concat (take (fitting (length outbuf - (used + ?n)) (m - (g + 1))
            (glyphs (drop ?n str))) (glyphs (drop ?n str)))
          in (used + ?n + length copied, mem_write (used + ?n) copied (mem_write used (take ?n str) outbuf)))"
        using True False n "1.IH" by (simp add: nxt)
      also have "\<dots> = (let copied = concat (take (fitting (length outbuf - used) (m - g) (glyphs str)) (glyphs str))
          in (used + length copied, mem_write used copied outbuf))"
        using True False n mem_write_append [of used "take ?n str" _ outbuf]
          fitting_room [of "length outbuf - (used + ?n)" "m - Suc g" "glyphs (drop ?n str)"]
        by (simp add: gl Let_def)
      finally show ?thesis .
    qed
  qed
qed


section \<open>Case-insensitive comparison\<close>

lemma str_eq_ci_map: "str_eq_ci a b \<longleftrightarrow> map ascii_lower a = map ascii_lower b"
  by (induction a b rule: str_eq_ci.induct) auto

section \<open>Encoding and decoding of one code point\<close>

lemma not_ascii_of_bit7: "bit b 7 \<Longrightarrow> \<not> (b :: u8) < 0x80"
  using not_bit_of_lt [of b 7 7] by (auto simp: word_less_nat_alt)

lemma cont_byte:
  fixes c :: u32
  defines "b \<equiv> ucast (0x80 OR (c AND 0x3F)) :: u8"
  shows "b AND 0xC0 = 0x80" "b \<noteq> 0" "ucast (b AND 0x3F) = c AND 0x3F"
proof -
  show 1: "b AND 0xC0 = 0x80" unfolding b_def by (rule word8_bits_eqI) (auto simp: bit_simps)
  show "b \<noteq> 0" using 1 by auto
  show "ucast (b AND 0x3F) = c AND 0x3F" 
    unfolding b_def by (rule word32_bits_eqI) (auto simp: bit_simps)
qed

lemma lead_byte2:
  fixes c :: u32
  assumes "unat c < 2 ^ 11"
  defines "b \<equiv> ucast (0xC0 OR drop_bit 6 c) :: u8"
  shows "bit b 7" "b AND 0xE0 = 0xC0" "ucast (b AND 0x1F) = drop_bit 6 c"
proof -
  note hi = not_bit_of_lt [OF assms(1)]
  show "bit b 7" unfolding b_def by (simp add: bit_simps)
  show "b AND 0xE0 = 0xC0" unfolding b_def by (rule word8_bits_eqI) (auto simp: bit_simps hi)
  show "ucast (b AND 0x1F) = drop_bit 6 c"
    unfolding b_def by (rule word32_bits_eqI) (auto simp: bit_simps hi)
qed

lemma lead_byte3:
  fixes c :: u32
  assumes "unat c < 2 ^ 16"
  defines "b \<equiv> ucast (0xE0 OR drop_bit 12 c) :: u8"
  shows "bit b 7" "b AND 0xE0 = 0xE0" "b AND 0xF0 = 0xE0" "ucast (b AND 0x0F) = drop_bit 12 c"
proof -
  note hi = not_bit_of_lt [OF assms(1)]
  show "bit b 7" unfolding b_def by (simp add: bit_simps)
  show "b AND 0xE0 = 0xE0" "b AND 0xF0 = 0xE0"
    unfolding b_def by (rule word8_bits_eqI, auto simp: bit_simps hi)+
  show "ucast (b AND 0x0F) = drop_bit 12 c"
    unfolding b_def by (rule word32_bits_eqI) (auto simp: bit_simps hi)
qed

lemma lead_byte4:
  fixes c :: u32
  assumes "unat c < 2 ^ 21"
  defines "b \<equiv> ucast (0xF0 OR drop_bit 18 c) :: u8"
  shows "bit b 7" "b AND 0xE0 = 0xE0" "b AND 0xF0 = 0xF0" "b AND 0xF8 = 0xF0"
    "ucast (b AND 0x07) = drop_bit 18 c"
proof -
  note hi = not_bit_of_lt [OF assms(1)]
  show "bit b 7" unfolding b_def by (simp add: bit_simps)
  show "b AND 0xE0 = 0xE0" "b AND 0xF0 = 0xF0" "b AND 0xF8 = 0xF0"
    unfolding b_def by (rule word8_bits_eqI, auto simp: bit_simps hi)+
  show "ucast (b AND 0x07) = drop_bit 18 c"
    unfolding b_def by (rule word32_bits_eqI) (auto simp: bit_simps hi)
qed

lemma push6: "push_bit 6 (drop_bit (n + 6) c) OR (drop_bit n c AND 0x3F) = drop_bit n (c :: u32)"
proof -
  have m: "(0x3F :: u32) = mask 6" by (simp add: mask_eq_exp_minus_1)
  show ?thesis unfolding m
    by (rule bit_word_eqI) (auto simp: bit_simps not_le dest: bit_imp_le_length)
qed

text \<open>The iterator reads back the code point that \<open>utf8_encode\<close> stored.\<close>

lemma utf8_step_encode:
  assumes "utf8_encode cp cap \<noteq> []"
  shows "utf8_step (utf8_encode cp cap @ rest) = (cp, length (utf8_encode cp cap))"
proof -
  note defs = utf8_encode_def utf8_step_def char_at_def
  have push: "push_bit 6 (drop_bit 6 cp) OR (cp AND 0x3F) = cp"
    "push_bit 6 (drop_bit 12 cp) OR (drop_bit 6 cp AND 0x3F) = drop_bit 6 cp"
    "push_bit 6 (drop_bit 18 cp) OR (drop_bit 12 cp AND 0x3F) = drop_bit 12 cp"
    using push6 [of 0 cp] push6 [of 6 cp] push6 [of 12 cp] by simp_all
  consider (one) "cp \<le> 0x7F" | (two) "\<not> cp \<le> 0x7F" "cp \<le> 0x7FF" | (three) "\<not> cp \<le> 0x7FF" "cp \<le> 0xFFFF"
    | (four) "\<not> cp \<le> 0xFFFF" "cp \<le> 0x10FFFF"
    using assms by (auto simp: utf8_encode_def split: if_splits)
  then show ?thesis
  proof cases
    case one
    then have c: "unat cp < 2 ^ 7" by (simp add: word_le_nat_alt)
    have "(ucast cp :: u8) < 0x80"
      using c by (simp add: word_less_nat_alt unsigned_ucast_eq take_bit_nat_eq_self)
    moreover have "ucast (ucast cp :: u8) = cp"
      using not_bit_of_lt [OF c] by (intro word32_bits_eqI) (auto simp: bit_simps)
    ultimately show ?thesis using one assms by (auto simp: defs)
  next
    case two
    have "unat cp < 2 ^ 11" using two by (simp add: word_le_nat_alt)
    note lead = lead_byte2 [OF this] and cont = cont_byte [of cp]
    have enc: "utf8_encode cp cap = [ucast (0xC0 OR drop_bit 6 cp), ucast (0x80 OR (cp AND 0x3F))]"
      using two assms by (auto simp: utf8_encode_def)
    show ?thesis unfolding enc using two not_ascii_of_bit7 [OF lead(1)]
      by (simp add: utf8_step_def char_at_def utf8_cont.simps lead(2-) cont push)
  next
    case three
    have "\<not> cp \<le> 0x7F" using three by (simp add: word_le_nat_alt)
    have "unat cp < 2 ^ 16" using three by (simp add: word_le_nat_alt)
    note lead = lead_byte3 [OF this] and cont = cont_byte
    have enc: "utf8_encode cp cap = [ucast (0xE0 OR drop_bit 12 cp),
        ucast (0x80 OR (drop_bit 6 cp AND 0x3F)), ucast (0x80 OR (cp AND 0x3F))]"
      using three \<open>\<not> cp \<le> 0x7F\<close> assms by (auto simp: utf8_encode_def)
    show ?thesis unfolding enc using not_ascii_of_bit7 [OF lead(1)]
      by (simp add: utf8_step_def char_at_def utf8_cont.simps lead(2-) cont push)
  next
    case four
    have c: "\<not> cp \<le> 0x7F" "\<not> cp \<le> 0x7FF" using four by (simp_all add: word_le_nat_alt)
    have "unat cp < 2 ^ 21" using four by (simp add: word_le_nat_alt)
    note lead = lead_byte4 [OF this] and cont = cont_byte
    have enc: "utf8_encode cp cap = [ucast (0xF0 OR drop_bit 18 cp),
        ucast (0x80 OR (drop_bit 12 cp AND 0x3F)),
        ucast (0x80 OR (drop_bit 6 cp AND 0x3F)), ucast (0x80 OR (cp AND 0x3F))]"
      using four c assms by (auto simp: utf8_encode_def)
    show ?thesis unfolding enc using not_ascii_of_bit7 [OF lead(1)]
      by (simp add: utf8_step_def char_at_def utf8_cont.simps lead(2-) cont push)
  qed
qed


section \<open>UTF-16 conversion\<close>

text \<open>Abstractly: the code points of a unit string, and the code points an UTF-8 text reads as.\<close>

function codepoints :: "u16 list \<Rightarrow> u32 list" where
  "codepoints [] = []"
| "codepoints (u # us) = (if u = 0 \<or> u = 0xFFFF then []
     else fst (utf16_unit u us) # codepoints (snd (utf16_unit u us)))"
  by pat_completeness auto
termination by (relation "measure length") (auto simp: termination_simp)

function utf8_decode :: "u8 list \<Rightarrow> u32 list" where
  "utf8_decode str = (if str = [] then []
     else fst (utf8_step str) # utf8_decode (drop (snd (utf8_step str)) str))"
  by pat_completeness auto
termination by (relation "measure length") (auto simp: termination_simp)

declare utf8_decode.simps [simp del]

definition utf8 :: "u32 \<Rightarrow> u8 list" where
  "utf8 cp = utf8_encode cp 4"

lemma utf8_encode_utf8: "utf8_encode cp cap = (if length (utf8 cp) \<le> cap then utf8 cp else [])"
  by (auto simp: utf8_def utf8_encode_def)

lemma utf8_decode_Nil [simp]: "utf8_decode [] = []"
  by (simp add: utf8_decode.simps)

lemma utf8_decode_Cons:
  assumes "utf8 cp \<noteq> []"
  shows "utf8_decode (utf8 cp @ rest) = cp # utf8_decode rest"
  using utf8_step_encode [of cp 4 rest] assms
  by (subst utf8_decode.simps) (simp add: utf8_def)

lemma utf8_decode_concat:
  "\<forall>cp \<in> set cps. utf8 cp \<noteq> [] \<Longrightarrow> utf8_decode (concat (map utf8 cps)) = cps"
  by (induction cps) (auto simp: utf8_decode_Cons)

lemma utf16_unit_range: "fst (utf16_unit u us) \<le> 0x10FFFF"
proof (cases "is_high u \<and> us \<noteq> [] \<and> is_low (hd us)")
  case True
  then have "unat u \<ge> 0xD800" "unat u \<le> 0xDBFF" "unat (hd us) \<ge> 0xDC00" "unat (hd us) \<le> 0xDFFF"
    by (simp_all add: is_high_def is_low_def word_le_nat_alt)
  then have a: "unat (ucast u - 0xD800 :: u32) \<le> 0x3FF" "unat (ucast (hd us) - 0xDC00 :: u32) \<le> 0x3FF"
    by (simp_all add: unat_sub word_le_nat_alt unsigned_ucast_eq take_bit_nat_eq_self)
  have "unat (0x10000 + push_bit 10 x + y :: u32) \<le> 0x10FFFF" if "unat x \<le> 0x3FF" "unat y \<le> 0x3FF" for x y :: u32
    using that by (simp add: push_bit_eq_mult unat_word_ariths)
  from this [OF a] have "unat (0x10000 + push_bit 10 (ucast u - 0xD800) + (ucast (hd us) - 0xDC00) :: u32) \<le> 0x10FFFF" .
  then show ?thesis using True by (simp add: utf16_unit_def word_le_nat_alt)
next
  case False
  have "(ucast u :: u32) \<le> 0xFFFF"
    using unsigned_less [of u, where 'a = nat] by (simp add: word_le_nat_alt unsigned_ucast_eq take_bit_nat_eq_self)
  then have "(ucast u :: u32) \<le> 0x10FFFF" by (simp add: word_le_nat_alt)
  then show ?thesis using False by (auto simp: utf16_unit_def)
qed

lemma utf8_nonempty: "cp \<le> 0x10FFFF \<Longrightarrow> utf8 cp \<noteq> []"
  by (simp add: utf8_def utf8_encode_def)

lemma codepoints_encodable: "cp \<in> set (codepoints us) \<Longrightarrow> utf8 cp \<noteq> []"
  by (induction us rule: codepoints.induct) (auto simp: utf8_nonempty utf16_unit_range split: if_splits)

text \<open>The longest prefix of code points whose encoding leaves room for the terminator.\<close>

fun encoded_fit :: "nat \<Rightarrow> u32 list \<Rightarrow> nat" where
  "encoded_fit room [] = 0"
| "encoded_fit room (cp # cps) =
     (if length (utf8 cp) < room then Suc (encoded_fit (room - length (utf8 cp)) cps) else 0)"

lemma encoded_fit_le: "encoded_fit room cps \<le> length cps"
  by (induction room cps rule: encoded_fit.induct) auto

lemma encoded_fit_room: "0 < room \<Longrightarrow> length (concat (map utf8 (take (encoded_fit room cps) cps))) < room"
  by (induction room cps rule: encoded_fit.induct) auto

lemma encoded_fit_max: "0 < room \<Longrightarrow> encoded_fit room cps < length cps \<Longrightarrow>
    room \<le> length (concat (map utf8 (take (Suc (encoded_fit room cps)) cps)))"
  by (induction room cps rule: encoded_fit.induct) (auto split: if_splits)

lemma utf16_loop_codepoints:
  assumes "used < length out"
  shows "utf16_loop us used out =
    (let text' = concat (map utf8 (take (encoded_fit (length out - used) (codepoints us)) (codepoints us)))
     in (used + length text', mem_write used text' out))"
  using assms
proof (induction us used out rule: utf16_loop.induct)
  case (2 u us used out)
  let ?cp = "fst (utf16_unit u us)" and ?rest = "snd (utf16_unit u us)"
  have ne: "utf8 ?cp \<noteq> []" by (simp add: utf8_nonempty utf16_unit_range)
  show ?case
  proof (cases "u = 0 \<or> u = 0xFFFF \<or> length out - used \<le> length (utf8 ?cp)")
    case True
    then show ?thesis using "2.prems" ne by (auto simp: utf8_encode_utf8 Let_def)
  next
    case False
    then have enc: "utf8_encode ?cp (length out - used - 1) = utf8 ?cp"
      by (auto simp: utf8_encode_utf8)
    let ?r = "length out - (used + length (utf8 ?cp))"
    define tl where "tl = concat (map utf8 (take (encoded_fit ?r (codepoints ?rest)) (codepoints ?rest)))"
    have "used + length (utf8 ?cp) < length out" using False by auto
    moreover from this have "length tl < ?r" unfolding tl_def by (intro encoded_fit_room) simp
    ultimately have room: "used + length (utf8 ?cp) + length tl \<le> length out" by simp
    have "utf16_loop (u # us) used out = utf16_loop ?rest (used + length (utf8 ?cp)) (mem_write used (utf8 ?cp) out)"
      using False enc ne by (simp add: Let_def)
    also have "\<dots> = (used + length (utf8 ?cp) + length tl,
            mem_write (used + length (utf8 ?cp)) tl (mem_write used (utf8 ?cp) out))"
      using False enc ne by (subst "2.IH") (auto simp: tl_def Let_def)
    also have "\<dots> = (used + length (utf8 ?cp @ tl), mem_write used (utf8 ?cp @ tl) out)"
      using room by (simp add: mem_write_append)
    finally have eq: "utf16_loop (u # us) used out = \<dots>" .
    have "utf8 ?cp @ tl = concat (map utf8 (take (encoded_fit (length out - used) (codepoints (u # us))) (codepoints (u # us))))"
      using False by (auto simp: tl_def)
    then show ?thesis by (simp only: eq Let_def)
  qed
qed auto

text \<open>C17. The UTF-16 name conversion writes a NUL-terminated prefix of whole code points, the longest one that
  fits, which the glyph iterator reads back as the very same code points.\<close>

theorem utf16_to_utf8_prefix:
  fixes input :: "u16 list"
  assumes "out \<noteq> []" and "utf16_to_utf8 (Ptr input) (Ptr out) = (n, buf)"
  defines "cps \<equiv> codepoints input"
  shows "length buf = length out \<and> n < length out \<and> buf ! n = 0 \<and>
    (\<exists>k \<le> length cps. utf8_decode (take n buf) = take k cps \<and> take n buf = concat (map utf8 (take k cps)) \<and>
       (k < length cps \<longrightarrow> length out \<le> n + length (utf8 (cps ! k))))"
proof -
  let ?k = "encoded_fit (length out) cps"
  let ?t = "concat (map utf8 (take ?k cps))"
  have room: "length ?t < length out" using assms(1) encoded_fit_room by auto
  have res: "n = length ?t" "buf = (mem_write 0 ?t out)[n := 0]"
    using assms utf16_loop_codepoints [of 0 out input]
    by (auto simp: utf16_to_utf8_def Let_def split: prod.splits)
  have take_n: "take n buf = ?t" using room by (simp add: res mem_write_def)
  have "\<forall>cp \<in> set (take ?k cps). utf8 cp \<noteq> []"
    using codepoints_encodable [of _ input] unfolding cps_def by (auto dest: in_set_takeD)
  then have dec: "utf8_decode (take n buf) = take ?k cps" by (simp add: take_n utf8_decode_concat)
  have max: "?k < length cps \<longrightarrow> length out \<le> n + length (utf8 (cps ! ?k))"
    using encoded_fit_max [of "length out" cps] assms(1) by (auto simp: res(1) take_Suc_conv_app_nth)
  show ?thesis
    using room dec max take_n encoded_fit_le [of "length out" cps] by (auto simp: res)
qed

text \<open>Copying a text into a bounded buffer keeps whole glyphs: a NUL-terminated prefix of at most the
  asked number, and a shorter one only when the next glyph and the terminator do not fit.\<close>

theorem utf8_copy_glyphs_prefix:
  assumes "out \<noteq> []" and "utf8_copy_glyphs (Ptr out) (Some str) m = (n, buf)"
  shows "length buf = length out \<and> n < length out \<and> buf ! n = 0 \<and>
    (\<exists>k \<le> m. take n buf = concat (take k (glyphs str)) \<and>
      (k < m \<and> k < utf8_glyph_count (Some str) \<longrightarrow> length out \<le> n + length (glyphs str ! k)))"
proof -
  let ?k = "fitting (length out) m (glyphs str)"
  let ?t = "concat (take ?k (glyphs str))"
  have room: "length ?t < length out" using assms(1) fitting_room by auto
  have res: "n = length ?t" "buf = (mem_write 0 ?t out)[n := 0]"
    using assms utf8_copy_loop_glyphs [of 0 out 0 m str]
    by (auto simp: utf8_copy_glyphs_def Let_def split: prod.splits)
  have take_n: "take n buf = ?t" using room by (simp add: res mem_write_def)
  have "0 < room \<Longrightarrow> fitting room l gs < l \<Longrightarrow> fitting room l gs < length gs \<Longrightarrow>
      room \<le> length (concat (take (fitting room l gs) gs)) + length (gs ! fitting room l gs)" for room l gs
    by (induction room l gs rule: fitting.induct)
      (auto split: if_splits simp: le_diff_conv ac_simps)
  then have max: "?k < m \<and> ?k < length (glyphs str) \<longrightarrow> length out \<le> n + length (glyphs str ! ?k)"
    using assms(1) by (auto simp: res(1))
  show ?thesis
    using room max take_n fitting_le(1) by (auto simp: res utf8_glyph_count_glyphs)
qed

lemma utf16_to_utf8_prefix_witness:
  "utf16_to_utf8 (Ptr [0x41, 0xD83D, 0xDE00, 0]) (Ptr [9, 9, 9, 9, 9, 9, 9]) =
     (5, [0x41, 0xF0, 0x9F, 0x98, 0x80, 0, 9]) \<and>
   (\<exists>k. utf8_decode (take 5 [0x41, 0xF0, 0x9F, 0x98, 0x80, 0, 9]) = take k (codepoints [0x41, 0xD83D, 0xDE00, 0]))"
proof -
  have run: "utf16_to_utf8 (Ptr [0x41, 0xD83D, 0xDE00, 0]) (Ptr [9, 9, 9, 9, 9, 9, 9]) =
     (5, [0x41, 0xF0, 0x9F, 0x98, 0x80, 0, 9])" by code_simp
  show ?thesis using utf16_to_utf8_prefix [OF _ run] run by blast
qed

lemma utf8_copy_glyphs_prefix_witness:
  "utf8_copy_glyphs (Ptr [9, 9, 9, 9]) (Some [0x41, 0xC3, 0xA9, 0x42]) 5 = (3, [0x41, 0xC3, 0xA9, 0]) \<and>
   (\<exists>k \<le> 5. take 3 [0x41, 0xC3, 0xA9, 0] = concat (take k (glyphs [0x41, 0xC3, 0xA9, 0x42])))"
proof -
  have run: "utf8_copy_glyphs (Ptr [9, 9, 9, 9]) (Some [0x41, 0xC3, 0xA9, 0x42]) 5 = (3, [0x41, 0xC3, 0xA9, 0])"
    by code_simp
  show ?thesis using utf8_copy_glyphs_prefix [OF _ run] run by blast
qed

end
