(* ===== verification/Hmpy_Cobs.thy ===== *)
theory Hmpy_Cobs
  imports Dristy_Prelude
begin

text \<open>
  \<open>firmware/src/services/hmpy_codec.c\<close>, the COBS layer: the status codes of the codec, the encoder
  and the decoder as they write their output buffer in place, and the functional encoding both are
  refined to. Capacities are passed apart from the buffer, because the frame encoder lends the COBS
  encoder one byte less than its own buffer holds; \<open>output_length\<close> is \<open>None\<close> for a NULL pointer.
\<close>

section \<open>Status codes\<close>

datatype hmpy_codec_status =
    HMPY_CODEC_OK
  | HMPY_CODEC_INCOMPLETE
  | HMPY_CODEC_FRAME_READY
  | HMPY_CODEC_ERROR_ARGUMENT
  | HMPY_CODEC_ERROR_OUTPUT_TOO_SMALL
  | HMPY_CODEC_ERROR_COBS_MALFORMED
  | HMPY_CODEC_ERROR_ENCODED_TOO_LARGE
  | HMPY_CODEC_ERROR_FRAME_TOO_SHORT
  | HMPY_CODEC_ERROR_BAD_MAGIC
  | HMPY_CODEC_ERROR_UNSUPPORTED_VERSION
  | HMPY_CODEC_ERROR_UNKNOWN_TYPE
  | HMPY_CODEC_ERROR_RESERVED_FLAGS
  | HMPY_CODEC_ERROR_INVALID_ENVELOPE
  | HMPY_CODEC_ERROR_PAYLOAD_TOO_LARGE
  | HMPY_CODEC_ERROR_LENGTH_MISMATCH
  | HMPY_CODEC_ERROR_CRC_MISMATCH

section \<open>The code\<close>

text \<open>The loop of the encoder; the input bytes not read yet come first.\<close>

fun cobs_encode_loop ::
  "u8 list \<Rightarrow> nat \<Rightarrow> nat \<Rightarrow> u8 \<Rightarrow> nat \<Rightarrow> u8 list \<Rightarrow> hmpy_codec_status \<times> nat \<times> u8 list" where
  "cobs_encode_loop [] write_index code_index code capacity out =
     (HMPY_CODEC_OK, write_index, out[code_index := code])"
| "cobs_encode_loop (value # input) write_index code_index code capacity out =
     (if value = 0 then
        let out = out[code_index := code] in
        if write_index \<ge> capacity then (HMPY_CODEC_ERROR_OUTPUT_TOO_SMALL, 0, out)
        else cobs_encode_loop input (write_index + 1) write_index 1 capacity out
      else if write_index \<ge> capacity then (HMPY_CODEC_ERROR_OUTPUT_TOO_SMALL, 0, out)
      else
        let out = out[write_index := value]; code = code + 1 in
        if code = 0xFF then
          let out = out[code_index := code] in
          if write_index + 1 \<ge> capacity then (HMPY_CODEC_ERROR_OUTPUT_TOO_SMALL, 0, out)
          else cobs_encode_loop input (write_index + 2) (write_index + 1) 1 capacity out
        else cobs_encode_loop input (write_index + 1) code_index code capacity out)"

definition hmpy_cobs_encode ::
  "u8 cptr \<Rightarrow> u8 cptr \<Rightarrow> nat \<Rightarrow> nat option \<Rightarrow> hmpy_codec_status \<times> u8 list \<times> nat option" where
  "hmpy_cobs_encode input outp capacity output_length =
     (if is_null outp \<or> output_length = None \<or> (plen input \<noteq> 0 \<and> is_null input) then
        (HMPY_CODEC_ERROR_ARGUMENT, pdata outp, output_length)
      else if capacity = 0 then (HMPY_CODEC_ERROR_OUTPUT_TOO_SMALL, pdata outp, Some 0)
      else let (status, n, out) = cobs_encode_loop (pdata input) 1 0 1 capacity (pdata outp)
           in (status, out, Some n))"

text \<open>The loop of the decoder; it reads the suffix of the input that is left.\<close>

function cobs_decode_loop ::
  "u8 list \<Rightarrow> nat \<Rightarrow> nat \<Rightarrow> u8 list \<Rightarrow> hmpy_codec_status \<times> nat \<times> u8 list" where
  "cobs_decode_loop [] write_index capacity out = (HMPY_CODEC_OK, write_index, out)"
| "cobs_decode_loop (code # input) write_index capacity out =
     (let copy_length = unat code - 1 in
      if code = 0 then (HMPY_CODEC_ERROR_COBS_MALFORMED, 0, out)
      else if copy_length > length input then (HMPY_CODEC_ERROR_COBS_MALFORMED, 0, out)
      else if copy_length > capacity - write_index then (HMPY_CODEC_ERROR_OUTPUT_TOO_SMALL, 0, out)
      else
        let out = (if copy_length \<noteq> 0 then mem_write write_index (take copy_length input) out else out);
            input = drop copy_length input;
            write_index = write_index + copy_length in
        if code \<noteq> 0xFF \<and> input \<noteq> [] then
          if write_index \<ge> capacity then (HMPY_CODEC_ERROR_OUTPUT_TOO_SMALL, 0, out)
          else cobs_decode_loop input (write_index + 1) capacity (out[write_index := 0])
        else cobs_decode_loop input write_index capacity out)"
  by pat_completeness auto
termination by (relation "measure (\<lambda>(input, _). length input)") auto

definition hmpy_cobs_decode ::
  "u8 cptr \<Rightarrow> u8 cptr \<Rightarrow> nat \<Rightarrow> nat option \<Rightarrow> hmpy_codec_status \<times> u8 list \<times> nat option" where
  "hmpy_cobs_decode input outp capacity output_length =
     (if is_null input \<or> is_null outp \<or> output_length = None then
        (HMPY_CODEC_ERROR_ARGUMENT, pdata outp, output_length)
      else if plen input = 0 then (HMPY_CODEC_ERROR_COBS_MALFORMED, pdata outp, Some 0)
      else if 0 \<in> set (pdata input) then (HMPY_CODEC_ERROR_COBS_MALFORMED, pdata outp, Some 0)
      else let (status, n, out) = cobs_decode_loop (pdata input) 0 capacity (pdata outp)
           in (status, out, Some n))"

section \<open>The functional encoding\<close>

text \<open>\<open>cobs acc xs\<close> encodes \<open>xs\<close> while the block \<open>acc\<close> (fewer than 254 nonzero bytes) is open.\<close>

fun cobs :: "u8 list \<Rightarrow> u8 list \<Rightarrow> u8 list" where
  "cobs acc [] = of_nat (length acc + 1) # acc"
| "cobs acc (x # xs) =
     (if x = 0 then of_nat (length acc + 1) # acc @ cobs [] xs
      else if length acc = 253 then 0xFF # acc @ x # cobs [] xs
      else cobs (acc @ [x]) xs)"

function uncobs :: "u8 list \<Rightarrow> u8 list option" where
  "uncobs [] = Some []"
| "uncobs (c # xs) =
     (if c = 0 \<or> length xs < unat c - 1 then None
      else case uncobs (drop (unat c - 1) xs) of
             None \<Rightarrow> None
           | Some ys \<Rightarrow>
               Some (take (unat c - 1) xs @
                 (if c \<noteq> 0xFF \<and> drop (unat c - 1) xs \<noteq> [] then 0 # ys else ys)))"
  by pat_completeness auto
termination by (relation "measure length") auto

lemma cobs_nonempty [simp]: "cobs acc xs \<noteq> []"
  by (induction acc xs rule: cobs.induct) auto

lemma length_cobs:
  "length acc \<le> 253 \<Longrightarrow>
    length (cobs acc xs) \<le> length acc + length xs + 1 + (length acc + length xs) div 254"
proof (induction acc xs rule: cobs.induct)
  case (2 acc x xs)
  show ?case
  proof (cases "x = 0")
    case True
    then show ?thesis using "2.IH"(1)
      div_le_mono [of "length xs" "length acc + Suc (length xs)" 254] by simp
  next
    case False
    show ?thesis
    proof (cases "length acc = 253")
      case full: True
      have "(254 + length xs) div 254 = Suc (length xs div 254)" by simp
      then show ?thesis using "2.IH"(2) False full by simp
    next
      case nf: False
      then show ?thesis using "2.IH"(3) False "2.prems" by simp
    qed
  qed
qed simp

lemma unat_block_code: "n \<le> 254 \<Longrightarrow> unat (of_nat (n + 1) :: u8) = n + 1"
  by (rule unat_of_nat_lt) simp

lemma block_code_nonzero: "n \<le> 254 \<Longrightarrow> (of_nat (n + 1) :: u8) \<noteq> 0"
  using unat_block_code [of n] by auto

lemma block_code_short: "n \<le> 253 \<Longrightarrow> (of_nat (n + 1) :: u8) \<noteq> 0xFF"
proof
  assume "n \<le> 253" "(of_nat (n + 1) :: u8) = 0xFF"
  then have "n + 1 = unat (0xFF :: u8)" using unat_block_code [of n] by simp
  with \<open>n \<le> 253\<close> show False by simp
qed

lemma cobs_no_zero: "length acc \<le> 253 \<Longrightarrow> 0 \<notin> set acc \<Longrightarrow> 0 \<notin> set (cobs acc xs)"
proof (induction acc xs rule: cobs.induct)
  case (1 acc)
  then show ?case using block_code_nonzero [of "length acc"] by auto
next
  case (2 acc x xs)
  then show ?case using block_code_nonzero [of "length acc"] by auto
qed

lemma uncobs_cobs: "length acc \<le> 253 \<Longrightarrow> uncobs (cobs acc xs) = Some (acc @ xs)"
proof (induction acc xs rule: cobs.induct)
  case (1 acc)
  then show ?case using block_code_nonzero [of "length acc"] unat_block_code [of "length acc"] by auto
next
  case (2 acc x xs)
  show ?case
  proof (cases "x = 0 \<or> length acc = 253")
    case True
    then show ?thesis
      using 2 block_code_nonzero [of "length acc"] unat_block_code [of "length acc"]
        block_code_short [of "length acc"] by auto
  next
    case False
    then show ?thesis using 2 by simp
  qed
qed

section \<open>Refinement of the encoder\<close>

lemma length_cobs_ge: "length acc + length xs + 1 \<le> length (cobs acc xs)"
  by (induction acc xs rule: cobs.induct) auto

lemma cobs_encode_loop_frame:
  "cobs_encode_loop xs wi ci code cap out = (st, n, out') \<Longrightarrow> ci < cap \<Longrightarrow>
    length out' = length out \<and> drop cap out' = drop cap out"
  by (induction xs wi ci code cap out rule: cobs_encode_loop.induct)
    (auto simp: Let_def split: if_splits)

lemma cobs_encode_loop_cobs:
  assumes "length acc \<le> 253" and "wi = ci + 1 + length acc" and "wi \<le> cap" and "cap \<le> length out"
    and "slice (ci + 1) (length acc) out = acc"
  shows "if ci + length (cobs acc xs) \<le> cap
    then cobs_encode_loop xs wi ci (of_nat (length acc + 1)) cap out =
      (HMPY_CODEC_OK, ci + length (cobs acc xs), mem_write ci (cobs acc xs) out)
    else fst (cobs_encode_loop xs wi ci (of_nat (length acc + 1)) cap out) = HMPY_CODEC_ERROR_OUTPUT_TOO_SMALL \<and>
      fst (snd (cobs_encode_loop xs wi ci (of_nat (length acc + 1)) cap out)) = 0"
  using assms
proof (induction acc xs arbitrary: wi ci out rule: cobs.induct)
  case (1 acc)
  then show ?case by (simp add: list_update_block)
next
  case (2 acc x xs)
  note set_code = list_update_block [OF "2.prems"(5)]
  show ?case
  proof (cases "x = 0")
    case zero: True
    show ?thesis
    proof (cases "wi < cap")
      case False
      then show ?thesis using zero "2.prems" length_cobs_ge [of "[]" xs] by (simp add: Let_def)
    next
      case True
      have "mem_write wi (cobs [] xs) (out[ci := of_nat (length acc + 1)]) =
          mem_write ci (cobs acc (x # xs)) out" if "wi + length (cobs [] xs) \<le> cap"
        using that zero "2.prems" mem_write_append [of ci "of_nat (length acc + 1) # acc" "cobs [] xs" out]
        by (simp add: set_code)
      then show ?thesis
        using "2.IH"(1) [OF zero, of "wi + 1" wi "out[ci := of_nat (length acc + 1)]"] zero True "2.prems"
        by (auto simp: Let_def ac_simps split: if_splits)
    qed
  next
    case nonzero: False
    have short: "cobs_encode_loop (x # xs) wi ci (of_nat (length acc + 1)) cap out =
        (HMPY_CODEC_ERROR_OUTPUT_TOO_SMALL, 0, out)" if "\<not> wi < cap"
      using that nonzero by simp
    have block: "slice (ci + 1) (length (acc @ [x])) (out[wi := x]) = acc @ [x]" if "wi < cap"
      using that "2.prems" slice_snoc_update [of "ci + 1" acc out wi x] by simp
    have code: "(of_nat (length acc + 1) + 1 :: u8) = of_nat (length (acc @ [x]) + 1)" by simp
    show ?thesis
    proof (cases "length acc = 253")
      case full: True
      have code_full: "(of_nat (length acc + 1) + 1 :: u8) = 0xFF" by (simp add: full)
      let ?out = "out[wi := x, ci := 0xFF]"
      have out: "?out = mem_write ci (0xFF # acc @ [x]) out" if "wi < cap"
        using that "2.prems" full list_update_block [OF block, of "0xFF"]
          mem_write_update [of ci wi "0xFF # acc @ [x]" out x] by (simp add: add.commute)
      have "mem_write (wi + 1) (cobs [] xs) ?out = mem_write ci (cobs acc (x # xs)) out"
        if room: "wi + 1 + length (cobs [] xs) \<le> cap"
      proof -
        have "wi < cap" using room by simp
        show ?thesis unfolding out [OF \<open>wi < cap\<close>]
          using room nonzero full "2.prems" mem_write_append [of ci "0xFF # acc @ [x]" "cobs [] xs" out]
          by (simp add: ac_simps)
      qed
      then show ?thesis
        using "2.IH"(2) [OF nonzero full, of "wi + 2" "wi + 1" ?out] nonzero full short "2.prems"
          length_cobs_ge [of "[]" xs] code_full
        by (cases "wi + 1 < cap") (auto simp: Let_def ac_simps)
    next
      case nf: False
      then have "length (acc @ [x]) \<le> 253" using "2.prems"(1) by simp
      then have nfull: "(of_nat (length acc + 1) + 1 :: u8) \<noteq> 0xFF"
        unfolding code by (rule block_code_short)
      have "mem_write ci (cobs (acc @ [x]) xs) (out[wi := x]) = mem_write ci (cobs (acc @ [x]) xs) out"
        if "ci + length (cobs (acc @ [x]) xs) \<le> cap"
        using that "2.prems" length_cobs_ge [of "acc @ [x]" xs] by (intro mem_write_update) auto
      then show ?thesis
        using "2.IH"(3) [OF nonzero nf, of "wi + 1" ci "out[wi := x]"] nonzero nf short nfull block "2.prems"
          length_cobs_ge [of "acc @ [x]" xs]
        by (cases "wi < cap") (auto simp: Let_def ac_simps)
    qed
  qed
qed

section \<open>Refinement of the decoder\<close>

lemma cobs_decode_loop_frame:
  "cobs_decode_loop xs wi cap out = (st, n, out') \<Longrightarrow> wi \<le> cap \<Longrightarrow> cap \<le> length out \<Longrightarrow>
    length out' = length out \<and> drop cap out' = drop cap out \<and>
    (st = HMPY_CODEC_OK \<longrightarrow> wi \<le> n \<and> n \<le> cap)"
proof (induction xs wi cap out rule: cobs_decode_loop.induct)
  case (2 code input wi cap out)
  let ?n = "unat code - 1" and ?tail = "drop (unat code - 1) input"
  let ?out = "if ?n \<noteq> 0 then mem_write wi (take ?n input) out else out"
  show ?case
  proof (cases "code = 0 \<or> ?n > length input \<or> ?n > cap - wi")
    case True
    then show ?thesis using "2.prems" by (auto simp: Let_def split: if_splits)
  next
    case False
    then have ok: "code \<noteq> 0" "?n \<le> length input" "wi + ?n \<le> cap" "\<not> cap - wi < ?n" using "2.prems"(2) by auto
    then have keep: "length ?out = length out" "drop cap ?out = drop cap out"
      using "2.prems"(2,3) by (auto simp: mem_write_def drop_take)
    show ?thesis
    proof (cases "code \<noteq> 0xFF \<and> ?tail \<noteq> []")
      case True
      then have "if wi + ?n \<ge> cap then st = HMPY_CODEC_ERROR_OUTPUT_TOO_SMALL \<and> out' = ?out
         else cobs_decode_loop ?tail (wi + ?n + 1) cap (?out[wi + ?n := 0]) = (st, n, out')"
        using ok "2.prems"(1) by (auto simp: Let_def split: if_splits)
      then show ?thesis
        using "2.IH"(1) [OF _ _ _ _ _ _ _ True, of ?n ?out "wi + ?n"] ok keep "2.prems"(2,3) True
        by (cases "unat code") (auto split: if_splits)
    next
      case nsep: False
      then have "cobs_decode_loop ?tail (wi + ?n) cap ?out = (st, n, out')"
        using ok "2.prems"(1,2) by (auto simp: Let_def split: if_splits)
      then show ?thesis
        using "2.IH"(2) [OF _ _ _ _ _ _ _ nsep, of ?n ?out "wi + ?n"] ok keep "2.prems"(2,3) nsep by auto
    qed
  qed
qed auto

lemma cobs_decode_loop_uncobs:
  assumes "uncobs xs = Some ys" and "wi \<le> cap" and "cap \<le> length out"
  shows "if wi + length ys \<le> cap
    then cobs_decode_loop xs wi cap out = (HMPY_CODEC_OK, wi + length ys, mem_write wi ys out)
    else fst (cobs_decode_loop xs wi cap out) = HMPY_CODEC_ERROR_OUTPUT_TOO_SMALL \<and>
      fst (snd (cobs_decode_loop xs wi cap out)) = 0"
  using assms
proof (induction xs wi cap out arbitrary: ys rule: cobs_decode_loop.induct)
  case (1 wi cap out)
  then show ?case by simp
next
  case (2 code input wi cap out)
  let ?n = "unat code - 1" and ?tail = "drop (unat code - 1) input"
  let ?blk = "take ?n input"
  from "2.prems"(1) have code: "code \<noteq> 0" and room: "?n \<le> length input"
    by (auto split: if_splits)
  from "2.prems"(1) code room obtain zs where zs: "uncobs ?tail = Some zs"
    and ys: "ys = ?blk @ (if code \<noteq> 0xFF \<and> ?tail \<noteq> [] then 0 # zs else zs)"
    by (auto split: option.splits)
  let ?out = "if ?n \<noteq> 0 then mem_write wi ?blk out else out"
  show ?case
  proof (cases "?n \<le> cap - wi")
    case False
    then have "\<not> wi + length ys \<le> cap" using room by (simp add: ys)
    then show ?thesis using False code room by (simp add: Let_def)
  next
    case fits: True
    have out: "?out = mem_write wi ?blk out" using "2.prems"(2,3) by auto
    note fits' = fits "2.prems"(2,3) room
    show ?thesis
    proof (cases "code \<noteq> 0xFF \<and> ?tail \<noteq> []")
      case True
      have run: "cobs_decode_loop (code # input) wi cap out =
        (if wi + ?n \<ge> cap then (HMPY_CODEC_ERROR_OUTPUT_TOO_SMALL, 0, ?out)
         else cobs_decode_loop ?tail (wi + ?n + 1) cap (?out[wi + ?n := 0]))"
        using code room fits True by (simp add: Let_def)
      have wr: "?out[wi + ?n := 0] = mem_write wi (?blk @ [0]) out" if "wi + ?n < cap"
        using that fits' mem_write_append [of wi ?blk "[0]" out]
        unfolding out by (subst mem_write_single [symmetric]) (auto simp: min_absorb2)
      have wr': "mem_write (wi + ?n + 1) zs (mem_write wi (?blk @ [0]) out) = mem_write wi ys out"
        if "wi + ?n + 1 + length zs \<le> cap"
        using that fits' True mem_write_append [of wi "?blk @ [0]" zs out] by (simp add: ys)
      show ?thesis
      proof (cases "wi + ?n < cap")
        case False
        then show ?thesis unfolding run using True room by (simp add: ys)
      next
        case less: True
        have len: "length ys = ?n + 1 + length zs" using True room by (simp add: ys)
        have "if wi + ?n + 1 + length zs \<le> cap
          then cobs_decode_loop ?tail (wi + ?n + 1) cap (?out[wi + ?n := 0]) =
            (HMPY_CODEC_OK, wi + ?n + 1 + length zs, mem_write (wi + ?n + 1) zs (?out[wi + ?n := 0]))
          else fst (cobs_decode_loop ?tail (wi + ?n + 1) cap (?out[wi + ?n := 0])) = HMPY_CODEC_ERROR_OUTPUT_TOO_SMALL \<and>
            fst (snd (cobs_decode_loop ?tail (wi + ?n + 1) cap (?out[wi + ?n := 0]))) = 0"
          using less fits' True code zs by (intro "2.IH"(1)) auto
        then show ?thesis
          unfolding run wr [OF less] using less wr' len by (auto split: if_splits)
      qed
    next
      case False
      have run: "cobs_decode_loop (code # input) wi cap out = cobs_decode_loop ?tail (wi + ?n) cap ?out"
        using code room fits False by (auto simp: Let_def)
      have len: "length ys = ?n + length zs" using False room by (auto simp: ys)
      have wr: "mem_write (wi + ?n) zs (mem_write wi ?blk out) = mem_write wi ys out"
        if "wi + ?n + length zs \<le> cap"
        using that fits' False mem_write_append [of wi ?blk zs out] by (auto simp: ys)
      have "if wi + ?n + length zs \<le> cap
        then cobs_decode_loop ?tail (wi + ?n) cap ?out =
          (HMPY_CODEC_OK, wi + ?n + length zs, mem_write (wi + ?n) zs ?out)
        else fst (cobs_decode_loop ?tail (wi + ?n) cap ?out) = HMPY_CODEC_ERROR_OUTPUT_TOO_SMALL \<and>
          fst (snd (cobs_decode_loop ?tail (wi + ?n) cap ?out)) = 0"
        using fits' False code zs by (intro "2.IH"(2)) auto
      then show ?thesis unfolding run out using wr len by (auto split: if_splits)
    qed
  qed
qed

lemma cobs_decode_loop_OK:
  "fst (cobs_decode_loop xs wi cap out) = HMPY_CODEC_OK \<Longrightarrow> \<exists>ys. uncobs xs = Some ys"
proof (induction xs wi cap out rule: cobs_decode_loop.induct)
  case (2 code input wi cap out)
  let ?n = "unat code - 1" and ?tail = "drop (unat code - 1) input"
  let ?out = "if ?n \<noteq> 0 then mem_write wi (take ?n input) out else out"
  have ok: "code \<noteq> 0" "?n \<le> length input" "\<not> cap - wi < ?n"
    using "2.prems" by (auto simp: Let_def split: if_splits)
  have "\<exists>ys. uncobs ?tail = Some ys"
  proof (cases "code \<noteq> 0xFF \<and> ?tail \<noteq> []")
    case True
    with "2.prems" ok have "\<not> cap \<le> wi + ?n"
      "fst (cobs_decode_loop ?tail (wi + ?n + 1) cap (?out[wi + ?n := 0])) = HMPY_CODEC_OK"
      by (auto simp: Let_def split: if_splits)
    with True ok show ?thesis by (intro "2.IH"(1)) auto
  next
    case False
    with "2.prems" ok have "fst (cobs_decode_loop ?tail (wi + ?n) cap ?out) = HMPY_CODEC_OK"
      by (auto simp: Let_def split: if_splits)
    with False ok show ?thesis by (intro "2.IH"(2)) auto
  qed
  with ok show ?case by auto
qed simp

lemma cobs_decode_loop_error:
  "cobs_decode_loop xs wi cap out = (st, n, out') \<Longrightarrow> st \<noteq> HMPY_CODEC_OK \<Longrightarrow> n = 0"
proof (induction xs wi cap out rule: cobs_decode_loop.induct)
  case (2 code input wi cap out)
  let ?n = "unat code - 1" and ?tail = "drop (unat code - 1) input"
  let ?out = "if ?n \<noteq> 0 then mem_write wi (take ?n input) out else out"
  show ?case
  proof (cases "code \<noteq> 0 \<and> \<not> ?n > length input \<and> \<not> ?n > cap - wi")
    case False
    then show ?thesis using "2.prems"(1) by (auto simp: Let_def split: if_splits)
  next
    case ok: True
    show ?thesis
    proof (cases "code \<noteq> 0xFF \<and> ?tail \<noteq> []")
      case True
      then have "cap \<le> wi + ?n \<and> n = 0 \<or> \<not> cap \<le> wi + ?n \<and>
          cobs_decode_loop ?tail (wi + ?n + 1) cap (?out[wi + ?n := 0]) = (st, n, out')"
        using ok "2.prems"(1) by (auto simp: Let_def split: if_splits)
      then show ?thesis using "2.IH"(1) ok True "2.prems"(2) by blast
    next
      case False
      then have "cobs_decode_loop ?tail (wi + ?n) cap ?out = (st, n, out')"
        using ok "2.prems"(1) by (auto simp: Let_def split: if_splits)
      then show ?thesis using "2.IH"(2) ok False "2.prems"(2) by blast
    qed
  qed
qed simp

lemma hmpy_cobs_encode_eq:
  assumes "length (cobs [] input) \<le> cap" and "cap \<le> length out"
  shows "hmpy_cobs_encode (Ptr input) (Ptr out) cap (Some l) =
    (HMPY_CODEC_OK, mem_write 0 (cobs [] input) out, Some (length (cobs [] input)))"
proof -
  have "cap \<noteq> 0" using assms(1) length_cobs_ge [of "[]" input] by simp
  then show ?thesis
    using cobs_encode_loop_cobs [of "[]" 1 0 cap out input] assms
    by (simp add: hmpy_cobs_encode_def Suc_le_eq split: if_splits)
qed

lemma hmpy_cobs_encode_too_small:
  assumes "cap < length (cobs [] input)" and "cap \<le> length out"
    and "hmpy_cobs_encode (Ptr input) (Ptr out) cap (Some l) = (st, buf, n)"
  shows "st = HMPY_CODEC_ERROR_OUTPUT_TOO_SMALL \<and> n = Some 0"
  using cobs_encode_loop_cobs [of "[]" 1 0 cap out input] assms
  by (auto simp: hmpy_cobs_encode_def Suc_le_eq split: if_splits prod.splits)

lemma hmpy_cobs_decode_eq:
  assumes "uncobs input = Some ys" and "input \<noteq> []" and "0 \<notin> set input"
    and "length ys \<le> cap" and "cap \<le> length out"
  shows "hmpy_cobs_decode (Ptr input) (Ptr out) cap (Some l) =
    (HMPY_CODEC_OK, mem_write 0 ys out, Some (length ys))"
  using cobs_decode_loop_uncobs [OF assms(1), of 0 cap out] assms(2-)
  by (simp add: hmpy_cobs_decode_def)

lemma hmpy_cobs_decode_OK:
  assumes "hmpy_cobs_decode (Ptr input) (Ptr out) cap (Some l) = (HMPY_CODEC_OK, buf, n)"
    and "cap \<le> length out"
  shows "\<exists>ys. uncobs input = Some ys \<and> 0 \<notin> set input \<and> input \<noteq> [] \<and> length ys \<le> cap \<and>
    n = Some (length ys) \<and> buf = mem_write 0 ys out"
proof -
  from assms(1) have ne: "input \<noteq> []" "0 \<notin> set input"
    and run: "fst (cobs_decode_loop input 0 cap out) = HMPY_CODEC_OK"
    by (auto simp: hmpy_cobs_decode_def split: if_splits prod.splits)
  then obtain ys where ys: "uncobs input = Some ys" using cobs_decode_loop_OK by blast
  with run assms(2) have "length ys \<le> cap"
    using cobs_decode_loop_uncobs [OF ys, of 0 cap out] by (auto split: if_splits)
  with ys ne assms show ?thesis by (auto simp: hmpy_cobs_decode_eq)
qed

lemma hmpy_cobs_decode_frame:
  assumes "cap \<le> length out"
    and "hmpy_cobs_decode (Ptr input) (Ptr out) cap (Some l) = (st, buf, len)"
  shows "length buf = length out \<and> drop cap buf = drop cap out \<and>
    (\<exists>n \<le> cap. len = Some n \<and> (st \<noteq> HMPY_CODEC_OK \<longrightarrow> n = 0))"
proof (cases "input = [] \<or> 0 \<in> set input")
  case True
  then show ?thesis using assms(2) by (auto simp: hmpy_cobs_decode_def split: if_splits)
next
  case False
  obtain st' n buf' where run: "cobs_decode_loop input 0 cap out = (st', n, buf')"
    by (metis prod_cases3)
  with False assms(2) have "st' = st" "len = Some n" "buf' = buf"
    by (simp_all add: hmpy_cobs_decode_def)
  then show ?thesis
    using cobs_decode_loop_frame [OF run] cobs_decode_loop_error [OF run] assms(1)
    by (cases "st = HMPY_CODEC_OK") simp_all
qed

lemma cobs_decode_loop_status:
  "fst (cobs_decode_loop xs wi cap out) \<in>
    {HMPY_CODEC_OK, HMPY_CODEC_ERROR_COBS_MALFORMED, HMPY_CODEC_ERROR_OUTPUT_TOO_SMALL}"
proof (induction xs wi cap out rule: cobs_decode_loop.induct)
  case (2 code input wi cap out)
  let ?n = "unat code - 1" and ?tail = "drop (unat code - 1) input"
  let ?out = "if ?n \<noteq> 0 then mem_write wi (take ?n input) out else out"
  show ?case
  proof (cases "code \<noteq> 0 \<and> \<not> ?n > length input \<and> \<not> ?n > cap - wi")
    case ok: True
    have "fst (cobs_decode_loop ?tail (wi + ?n + 1) cap (?out[wi + ?n := 0])) \<in>
        {HMPY_CODEC_OK, HMPY_CODEC_ERROR_COBS_MALFORMED, HMPY_CODEC_ERROR_OUTPUT_TOO_SMALL}"
      if "code \<noteq> 0xFF \<and> ?tail \<noteq> []" "\<not> cap \<le> wi + ?n"
      using ok that by (intro "2.IH"(1)) auto
    moreover have "fst (cobs_decode_loop ?tail (wi + ?n) cap ?out) \<in>
        {HMPY_CODEC_OK, HMPY_CODEC_ERROR_COBS_MALFORMED, HMPY_CODEC_ERROR_OUTPUT_TOO_SMALL}"
      if "\<not> (code \<noteq> 0xFF \<and> ?tail \<noteq> [])"
      using ok that by (intro "2.IH"(2)) auto
    ultimately show ?thesis
      using ok by (cases "code = 0xFF") (auto simp: Let_def split: if_splits)
  qed (auto simp: Let_def)
qed simp

lemma hmpy_cobs_decode_status:
  "fst (hmpy_cobs_decode (Ptr input) (Ptr out) cap (Some l)) \<in>
    {HMPY_CODEC_OK, HMPY_CODEC_ERROR_COBS_MALFORMED, HMPY_CODEC_ERROR_OUTPUT_TOO_SMALL}"
  using cobs_decode_loop_status [of input 0 cap out]
  by (auto simp: hmpy_cobs_decode_def split: prod.splits)

text \<open>The COBS encoding of any input contains no delimiter, is at most one byte per 254 longer
  than the input plus one, and the decoder returns exactly the input from it.\<close>

theorem hmpy_cobs_roundtrip:
  assumes "length input + length input div 254 + 1 \<le> cap" and "cap \<le> length out"
    and "length input \<le> cap'" and "cap' \<le> length out'"
  shows "\<exists>enc n dec. hmpy_cobs_encode (Ptr input) (Ptr out) cap (Some l) = (HMPY_CODEC_OK, enc, Some n) \<and>
    n \<le> length input + length input div 254 + 1 \<and> 0 \<notin> set (take n enc) \<and> drop n enc = drop n out \<and>
    hmpy_cobs_decode (Ptr (take n enc)) (Ptr out') cap' (Some l') = (HMPY_CODEC_OK, dec, Some (length input)) \<and>
    take (length input) dec = input"
proof -
  have len: "length (cobs [] input) \<le> length input + length input div 254 + 1"
    using length_cobs [of "[]" input] by simp
  then have "hmpy_cobs_encode (Ptr input) (Ptr out) cap (Some l) =
      (HMPY_CODEC_OK, mem_write 0 (cobs [] input) out, Some (length (cobs [] input)))"
    using assms by (intro hmpy_cobs_encode_eq) auto
  moreover have "hmpy_cobs_decode (Ptr (cobs [] input)) (Ptr out') cap' (Some l') =
      (HMPY_CODEC_OK, mem_write 0 input out', Some (length input))"
    using assms cobs_no_zero [of "[]" input] uncobs_cobs [of "[]" input]
    by (intro hmpy_cobs_decode_eq) auto
  ultimately show ?thesis
    using len cobs_no_zero [of "[]" input] by (auto simp: mem_write_def)
qed

lemma hmpy_cobs_roundtrip_witness:
  "\<exists>enc n dec. hmpy_cobs_encode (Ptr [1, 0, 2]) (Ptr (replicate 5 7)) 4 (Some 0) = (HMPY_CODEC_OK, enc, Some n) \<and>
    0 \<notin> set (take n enc) \<and>
    hmpy_cobs_decode (Ptr (take n enc)) (Ptr [9, 9, 9]) 3 (Some 0) = (HMPY_CODEC_OK, dec, Some 3) \<and>
    take 3 dec = [1, 0, 2]"
proof -
  let ?x = "[1, 0, 2] :: u8 list" and ?out = "replicate 5 (7 :: u8)" and ?buf = "[9, 9, 9] :: u8 list"
  have n: "length ?x = 3" by simp
  have p: "length ?x + length ?x div 254 + 1 \<le> 4" "4 \<le> length ?out" "length ?x \<le> 3" "3 \<le> length ?buf"
    by simp_all
  from hmpy_cobs_roundtrip [OF p, of 0 0] show ?thesis unfolding n by blast
qed

text \<open>On arbitrary input the decoder touches nothing at or beyond the capacity it is given, reports a
  length within it, zero on every error, and succeeds exactly on the delimiter-free, well-formed
  encodings whose decoding fits.\<close>

theorem hmpy_cobs_decode_safe:
  assumes "cap \<le> length out"
    and "hmpy_cobs_decode (Ptr input) (Ptr out) cap (Some l) = (st, buf, len)"
  shows "length buf = length out \<and> drop cap buf = drop cap out \<and>
    (\<exists>n \<le> cap. len = Some n \<and> (st \<noteq> HMPY_CODEC_OK \<longrightarrow> n = 0)) \<and>
    (st = HMPY_CODEC_OK \<longleftrightarrow> input \<noteq> [] \<and> 0 \<notin> set input \<and> (\<exists>ys. uncobs input = Some ys \<and> length ys \<le> cap))"
proof -
  note hmpy_cobs_decode_frame [OF assms]
  moreover have "st = HMPY_CODEC_OK \<longleftrightarrow>
      input \<noteq> [] \<and> 0 \<notin> set input \<and> (\<exists>ys. uncobs input = Some ys \<and> length ys \<le> cap)"
  proof
    assume "st = HMPY_CODEC_OK"
    with assms show "input \<noteq> [] \<and> 0 \<notin> set input \<and> (\<exists>ys. uncobs input = Some ys \<and> length ys \<le> cap)"
      using hmpy_cobs_decode_OK [of input out cap l buf len] by blast
  next
    assume "input \<noteq> [] \<and> 0 \<notin> set input \<and> (\<exists>ys. uncobs input = Some ys \<and> length ys \<le> cap)"
    then show "st = HMPY_CODEC_OK" using assms by (auto simp: hmpy_cobs_decode_eq)
  qed
  ultimately show ?thesis by blast
qed

lemma hmpy_cobs_decode_safe_witness:
  "hmpy_cobs_decode (Ptr [3, 1, 2, 2]) (Ptr [8, 8, 8, 8]) 3 (Some 0) =
     (HMPY_CODEC_ERROR_COBS_MALFORMED, [1, 2, 0, 8], Some 0) \<and>
   drop 3 [1, 2, 0, 8 :: u8] = drop 3 [8, 8, 8, 8]"
proof -
  have run: "hmpy_cobs_decode (Ptr [3, 1, 2, 2]) (Ptr [8, 8, 8, 8]) 3 (Some 0) =
     (HMPY_CODEC_ERROR_COBS_MALFORMED, [1, 2, 0, 8], Some 0)"
    by (simp add: hmpy_cobs_decode_def mem_write_def)
  show ?thesis using hmpy_cobs_decode_safe [OF _ run] run by simp
qed

end
