(* ===== verification/Hk_Binary.thy ===== *)
theory Hk_Binary
  imports Dristy_Prelude
begin

text \<open>
  \<open>firmware/src/core/hk_binary.c\<close>: little and big endian field access, \<open>clamp_u8\<close> and the CRC-32
  that the settings store and the user file system share. The theory also states two interfaces:
  \<open>field_codec\<close> (a fixed width field stored in a byte buffer) and \<open>byte_register\<close> (a checksum
  register fed byte by byte that separates single substitutions).
\<close>

section \<open>Interfaces\<close>

text \<open>A fixed width field written into and read back from a buffer.\<close>

locale field_codec =
  fixes get :: "u8 list \<Rightarrow> nat \<Rightarrow> 'v"
    and put :: "u8 list \<Rightarrow> nat \<Rightarrow> 'v \<Rightarrow> u8 list"
    and bytes :: "'v \<Rightarrow> u8 list"
    and width :: nat
  assumes length_bytes: "length (bytes v) = width"
    and put_bytes: "off + width \<le> length buf \<Longrightarrow> put buf off v = mem_write off (bytes v) buf"
    and get_slice: "off + width \<le> length buf \<Longrightarrow> slice off width buf = bytes v \<Longrightarrow> get buf off = v"
    and bytes_get: "off + width \<le> length buf \<Longrightarrow> bytes (get buf off) = slice off width buf"
begin

lemma length_put: "off + width \<le> length buf \<Longrightarrow> length (put buf off v) = length buf"
  by (simp add: put_bytes length_bytes)

lemma get_put: "off + width \<le> length buf \<Longrightarrow> get (put buf off v) off = v"
  by (rule get_slice) (simp_all add: put_bytes length_bytes slice_mem_write_same)

lemma get_put_other:
  assumes "off + width \<le> length buf" and "off' + width \<le> length buf"
    and "off + width \<le> off' \<or> off' + width \<le> off"
  shows "get (put buf off v) off' = get buf off'"
proof (rule get_slice)
  show "off' + width \<le> length (put buf off v)"
    using assms by (simp add: length_put)
  show "slice off' width (put buf off v) = bytes (get buf off')"
    using assms by (auto simp: put_bytes bytes_get length_bytes slice_mem_write_before
        slice_mem_write_after)
qed

lemma get_bytes_append: "get (xs @ bytes v @ ys) (length xs) = v"
  by (rule get_slice) (auto simp: length_bytes slice_def)

lemma get_cong:
  assumes "off + width \<le> length buf" and "off' + width \<le> length buf'"
    and "slice off width buf = slice off' width buf'"
  shows "get buf off = get buf' off'"
  using assms by (intro get_slice) (simp_all add: bytes_get)

lemma bytes_inj: "bytes v = bytes w \<Longrightarrow> v = w"
proof -
  assume eq: "bytes v = bytes w"
  have "get (bytes v) 0 = v" using get_bytes_append [of "[]" v "[]"] by simp
  moreover have "get (bytes w) 0 = w" using get_bytes_append [of "[]" w "[]"] by simp
  ultimately show "v = w" unfolding eq by (rule trans [OF sym])
qed

end

text \<open>A checksum register: both the byte and the old register value can be recovered.\<close>

locale byte_register =
  fixes step :: "'s \<Rightarrow> u8 \<Rightarrow> 's"
  assumes step_inj_state: "step s b = step s' b \<Longrightarrow> s = s'"
    and step_inj_byte: "step s b = step s b' \<Longrightarrow> b = b'"
begin

lemma feed_inj_state: "foldl step s xs = foldl step s' xs \<Longrightarrow> s = s'"
  by (induction xs arbitrary: s s') (auto dest: step_inj_state)

lemma feed_substitution:
  assumes "i < length xs" and "b \<noteq> xs ! i"
  shows "foldl step s (xs[i := b]) \<noteq> foldl step s xs"
proof
  assume eq: "foldl step s (xs[i := b]) = foldl step s xs"
  let ?s = "foldl step s (take i xs)"
  have "foldl step (step ?s b) (drop (Suc i) xs) = foldl step (step ?s (xs ! i)) (drop (Suc i) xs)"
    using eq assms(1) by (metis foldl_Cons foldl_append id_take_nth_drop upd_conv_take_nth_drop)
  then have "step ?s b = step ?s (xs ! i)" by (rule feed_inj_state)
  then show False using assms(2) by (auto dest: step_inj_byte)
qed

end

section \<open>Field access\<close>

definition clamp_u8 :: "u8 \<Rightarrow> u8 \<Rightarrow> u8 \<Rightarrow> u8" where
  "clamp_u8 value min_value max_value =
     (if value < min_value then min_value
      else if value > max_value then max_value
      else value)"

definition rd16 :: "u8 list \<Rightarrow> nat \<Rightarrow> u16" where
  "rd16 p off = ucast (p ! off) OR push_bit 8 (ucast (p ! (off + 1)))"

definition rd32 :: "u8 list \<Rightarrow> nat \<Rightarrow> u32" where
  "rd32 p off = ucast (p ! off) OR push_bit 8 (ucast (p ! (off + 1))) OR
     push_bit 16 (ucast (p ! (off + 2))) OR push_bit 24 (ucast (p ! (off + 3)))"

definition rd32be :: "u8 list \<Rightarrow> nat \<Rightarrow> u32" where
  "rd32be p off = push_bit 24 (ucast (p ! off)) OR push_bit 16 (ucast (p ! (off + 1))) OR
     push_bit 8 (ucast (p ! (off + 2))) OR ucast (p ! (off + 3))"

definition wr16 :: "u8 list \<Rightarrow> nat \<Rightarrow> u16 \<Rightarrow> u8 list" where
  "wr16 p off value = p[off := ucast value, off + 1 := ucast (drop_bit 8 value)]"

definition wr32 :: "u8 list \<Rightarrow> nat \<Rightarrow> u32 \<Rightarrow> u8 list" where
  "wr32 p off value = p[off := ucast value, off + 1 := ucast (drop_bit 8 value),
     off + 2 := ucast (drop_bit 16 value), off + 3 := ucast (drop_bit 24 value)]"

text \<open>The bytes of a field, in the order they are stored.\<close>

definition le16 :: "u16 \<Rightarrow> u8 list" where
  "le16 v = [ucast v, ucast (drop_bit 8 v)]"

definition le32 :: "u32 \<Rightarrow> u8 list" where
  "le32 v = [ucast v, ucast (drop_bit 8 v), ucast (drop_bit 16 v), ucast (drop_bit 24 v)]"

lemma length_le16 [simp]: "length (le16 v) = 2"
  by (simp add: le16_def)

lemma length_le32 [simp]: "length (le32 v) = 4"
  by (simp add: le32_def)

lemma bit_u8_beyond: "8 \<le> n \<Longrightarrow> \<not> bit (a :: u8) n"
  by (auto dest: bit_imp_le_length)

lemma byte_pair_u16: fixes a b :: u8 shows
  "(ucast ((ucast a :: u16) OR push_bit 8 (ucast b)) :: u8) = a"
  "(ucast (drop_bit 8 ((ucast a :: u16) OR push_bit 8 (ucast b))) :: u8) = b"
  by (auto intro!: bit_word_eqI simp: bit_simps bit_u8_beyond)

lemma byte_quad_u32: fixes a b c d :: u8 defines "w \<equiv> (ucast a :: u32) OR push_bit 8 (ucast b) OR
    push_bit 16 (ucast c) OR push_bit 24 (ucast d)"
  shows "ucast w = a" "ucast (drop_bit 8 w) = b" "ucast (drop_bit 16 w) = c" "ucast (drop_bit 24 w) = d"
  unfolding w_def by (auto intro!: bit_word_eqI simp: bit_simps bit_u8_beyond)

lemma slice_2: "off + 2 \<le> length buf \<Longrightarrow> slice off 2 buf = [buf ! off, buf ! (off + 1)]"
  by (simp add: slice_eq_nth upt_rec)

lemma slice_4: "off + 4 \<le> length buf \<Longrightarrow>
    slice off 4 buf = [buf ! off, buf ! (off + 1), buf ! (off + 2), buf ! (off + 3)]"
  by (simp add: slice_eq_nth upt_rec numeral_3_eq_3)

lemma wr16_mem_write: "off + 2 \<le> length buf \<Longrightarrow> wr16 buf off v = mem_write off (le16 v) buf"
  by (intro nth_equalityI) (auto simp: wr16_def le16_def nth_mem_write nth_list_update nth_Cons' )

lemma wr32_mem_write: "off + 4 \<le> length buf \<Longrightarrow> wr32 buf off v = mem_write off (le32 v) buf"
  by (intro nth_equalityI) (auto simp: wr32_def le32_def nth_mem_write nth_list_update nth_Cons')

interpretation f16: field_codec rd16 wr16 le16 2
proof
  show "length (le16 v) = 2" for v by simp
  show "off + 2 \<le> length buf \<Longrightarrow> wr16 buf off v = mem_write off (le16 v) buf" for off buf v
    by (rule wr16_mem_write)
  show "off + 2 \<le> length buf \<Longrightarrow> slice off 2 buf = le16 v \<Longrightarrow> rd16 buf off = v" for off buf v
    by (simp add: rd16_def slice_2 le16_def word_split_u16)
  show "off + 2 \<le> length buf \<Longrightarrow> le16 (rd16 buf off) = slice off 2 buf" for off buf
    by (simp only: rd16_def slice_2 le16_def byte_pair_u16)
qed

interpretation f32: field_codec rd32 wr32 le32 4
proof
  show "length (le32 v) = 4" for v by simp
  show "off + 4 \<le> length buf \<Longrightarrow> wr32 buf off v = mem_write off (le32 v) buf" for off buf v
    by (rule wr32_mem_write)
  show "off + 4 \<le> length buf \<Longrightarrow> slice off 4 buf = le32 v \<Longrightarrow> rd32 buf off = v" for off buf v
    by (simp add: rd32_def slice_4 le32_def word_split_u32)
  show "off + 4 \<le> length buf \<Longrightarrow> le32 (rd32 buf off) = slice off 4 buf" for off buf
    by (simp only: rd32_def slice_4 le32_def byte_quad_u32)
qed

lemmas [codec_simps] = f16.get_put f32.get_put f16.get_put_other f32.get_put_other
lemmas [len_simps] = f16.length_put f32.length_put

text \<open>Reading big endian is reading the reversed four bytes little endian.\<close>

lemma rd32be_rev: "off + 4 \<le> length p \<Longrightarrow> rd32be p off = rd32 (rev (slice off 4 p)) 0"
  by (simp add: rd32be_def rd32_def slice_4 ac_simps)

section \<open>CRC-32\<close>

definition crc32_bit :: "u32 \<Rightarrow> u32" where
  "crc32_bit crc = drop_bit 1 crc XOR (0xEDB88320 AND (0 - (crc AND 1)))"

definition crc32_byte :: "u32 \<Rightarrow> u8 \<Rightarrow> u32" where
  "crc32_byte crc b = (crc32_bit ^^ 8) (crc XOR ucast b)"

definition crc32_update :: "u32 \<Rightarrow> u8 list \<Rightarrow> u32" where
  "crc32_update crc data = NOT (foldl crc32_byte (NOT crc) data)"

text \<open>The mask form \<open>POLY & (0 - (crc & 1))\<close> is a conditional on the lowest bit.\<close>

lemma crc32_bit_cond:
  "crc32_bit crc = (if bit crc 0 then drop_bit 1 crc XOR 0xEDB88320 else drop_bit 1 crc)"
proof (cases "bit crc 0")
  case True
  then have "crc AND 1 = 1" by (simp add: and_one_eq odd_iff_mod_2_eq_one [symmetric] bit_0)
  then show ?thesis using True by (simp add: crc32_bit_def)
next
  case False
  then have "crc AND 1 = 0" by (simp add: and_one_eq even_iff_mod_2_eq_zero [symmetric] bit_0)
  then show ?thesis using False by (simp add: crc32_bit_def)
qed


lemma crc32_bit_msb: "bit (crc32_bit crc) 31 \<longleftrightarrow> bit crc 0"
  by (auto simp: crc32_bit_cond bit_simps dest: bit_imp_le_length)

lemma crc32_bit_inj: "crc32_bit a = crc32_bit b \<Longrightarrow> a = b"
proof -
  assume eq: "crc32_bit a = crc32_bit b"
  then have low: "bit a 0 \<longleftrightarrow> bit b 0" by (metis crc32_bit_msb)
  with eq have "drop_bit 1 a = drop_bit 1 b"
    by (auto simp: crc32_bit_cond split: if_splits)
  then have high: "bit a (Suc n) \<longleftrightarrow> bit b (Suc n)" for n
    by (metis bit_drop_bit_eq plus_1_eq_Suc comp_apply)
  show "a = b"
  proof (rule bit_word_eqI)
    fix n show "bit a n \<longleftrightarrow> bit b n" using low high by (cases n) auto
  qed
qed

lemma crc32_bit_xor: "crc32_bit (a XOR b) = crc32_bit a XOR crc32_bit b"
  by (simp add: crc32_bit_cond bit_simps drop_bit_xor ac_simps xor_self_eq [symmetric])

lemma crc32_bit_push: "\<not> bit x 31 \<Longrightarrow> crc32_bit (push_bit 1 x) = x"
proof -
  assume top: "\<not> bit x 31"
  have "drop_bit 1 (push_bit 1 x) = x"
  proof (rule bit_word_eqI)
    fix n assume n: "n < LENGTH(32)"
    have "bit (drop_bit 1 (push_bit 1 x)) n \<longleftrightarrow> n + 1 < 32 \<and> bit x n"
      by (auto simp only: bit_drop_bit_eq comp_apply bit_push_bit_iff)
        (auto dest: bit_imp_le_length)
    then show "bit (drop_bit 1 (push_bit 1 x)) n \<longleftrightarrow> bit x n"
      using top n by (cases "n = 31") auto
  qed
  moreover have "\<not> bit (push_bit 1 x) 0" by (simp only: bit_push_bit_iff) simp
  ultimately show ?thesis by (simp only: crc32_bit_cond if_False)
qed

text \<open>\<open>crc32_shift\<close> is the table step of the byte-wise algorithm: eight bit steps.\<close>

definition crc32_shift :: "u32 \<Rightarrow> u32" where
  "crc32_shift crc = (crc32_bit ^^ 8) crc"

lemma crc32_byte_shift: "crc32_byte crc b = crc32_shift (crc XOR ucast b)"
  by (simp add: crc32_byte_def crc32_shift_def)

lemma crc32_bits_inj: "(crc32_bit ^^ n) a = (crc32_bit ^^ n) b \<Longrightarrow> a = b"
  by (induction n) (auto dest: crc32_bit_inj)

lemma crc32_bits_xor: "(crc32_bit ^^ n) (a XOR b) = (crc32_bit ^^ n) a XOR (crc32_bit ^^ n) b"
  by (induction n) (auto simp: crc32_bit_xor)

lemma crc32_bits_push: "n \<le> 32 \<Longrightarrow> take_bit (32 - n) x = x \<Longrightarrow> (crc32_bit ^^ n) (push_bit n x) = x"
proof (induction n arbitrary: x)
  case (Suc n)
  have small: "\<not> bit x k" if "32 - Suc n \<le> k" for k
    using Suc.prems(2) that by (rule take_bit_self_bound)
  have "\<not> bit (push_bit n x) 31"
    using small [of "31 - n"] Suc.prems(1) by (simp add: bit_push_bit_iff)
  then have step: "crc32_bit (push_bit 1 (push_bit n x)) = push_bit n x"
    by (rule crc32_bit_push)
  have "(crc32_bit ^^ Suc n) (push_bit (Suc n) x) = (crc32_bit ^^ n) (crc32_bit (push_bit 1 (push_bit n x)))"
    by (simp only: funpow_Suc_right comp_apply push_bit_push_bit plus_1_eq_Suc)
  also have "\<dots> = (crc32_bit ^^ n) (push_bit n x)" by (simp only: step)
  also have "\<dots> = x"
    using Suc.prems(1) small by (intro Suc.IH take_bit_selfI) auto
  finally show ?case .
qed simp

interpretation crc32r: byte_register crc32_byte
proof
  show "crc32_byte s b = crc32_byte s' b \<Longrightarrow> s = s'" for s s' b
    by (auto simp: crc32_byte_def simp del: funpow.simps dest: crc32_bits_inj)
  show "crc32_byte s b = crc32_byte s b' \<Longrightarrow> b = b'" for s b b'
  proof -
    assume "crc32_byte s b = crc32_byte s b'"
    then have "s XOR ucast b = s XOR ucast b'"
      unfolding crc32_byte_def by (rule crc32_bits_inj)
    then show "b = b'" by simp
  qed
qed


subsection \<open>Bursts of at most four bytes\<close>

text \<open>
  The register is linear, so the difference of two runs is the run on the byte differences from
  register 0; up to four bytes of difference are packed into one word before any shift loses them.
\<close>

primrec pack :: "u8 list \<Rightarrow> u32" where
  "pack [] = 0"
| "pack (e # es) = ucast e XOR push_bit 8 (pack es)"

lemma take_bit_pack: "take_bit (8 * length es) (pack es) = pack es"
proof (induction es)
  case (Cons e es)
  show ?case
  proof (rule take_bit_selfI)
    fix k assume k: "8 * length (e # es) \<le> k"
    then have "\<not> bit (pack es) (k - 8)"
      using Cons.IH by (intro take_bit_self_bound) auto
    then show "\<not> bit (pack (e # es)) k"
      using k by (auto simp: bit_simps bit_u8_beyond)
  qed
qed simp

lemma crc32_shift_xor: "crc32_shift (a XOR b) = crc32_shift a XOR crc32_shift b"
  unfolding crc32_shift_def by (rule crc32_bits_xor)

lemma crc32_shift_inj: "crc32_shift a = crc32_shift b \<Longrightarrow> a = b"
  unfolding crc32_shift_def by (rule crc32_bits_inj)

lemma crc32_shift_0 [simp]: "crc32_shift 0 = 0"
  using crc32_shift_xor [of 0 0] by simp

lemma crc32_shift_push: "length es \<le> 3 \<Longrightarrow> crc32_shift (push_bit 8 (pack es)) = pack es"
  unfolding crc32_shift_def
  using take_bit_self_bound [OF take_bit_pack, of es] by (intro crc32_bits_push take_bit_selfI) auto

lemma crc32_feed_pack:
  "length es \<le> 4 \<Longrightarrow> foldl crc32_byte d es = (crc32_shift ^^ length es) (d XOR pack es)"
proof (induction es arbitrary: d)
  case (Cons e es)
  then have "foldl crc32_byte (crc32_byte d e) es =
      (crc32_shift ^^ length es) (crc32_byte d e XOR pack es)" by simp
  then have "foldl crc32_byte d (e # es) =
      (crc32_shift ^^ length es) (crc32_shift (d XOR ucast e) XOR pack es)"
    by (simp only: crc32_byte_shift foldl_Cons)
  also have "crc32_shift (d XOR ucast e) XOR pack es = crc32_shift (d XOR pack (e # es))"
    using Cons.prems by (simp add: crc32_shift_xor crc32_shift_push ac_simps)
  finally show ?case by (simp only: funpow_Suc_right comp_apply list.size(4) add_Suc_right add_0_right One_nat_def)
qed simp

lemma crc32_feed_xor:
  "length xs = length ys \<Longrightarrow>
    foldl crc32_byte (s XOR t) (map2 (XOR) xs ys) = foldl crc32_byte s xs XOR foldl crc32_byte t ys"
proof (induction xs ys arbitrary: s t rule: list_induct2)
  case (Cons x xs y ys)
  have "crc32_byte (s XOR t) (x XOR y) = crc32_byte s x XOR crc32_byte t y"
    by (simp add: crc32_byte_shift crc32_shift_xor [symmetric] unsigned_xor_eq ac_simps)
  then show ?case using Cons.IH by simp
qed simp

lemma crc32_shifts_0: "(crc32_shift ^^ n) a = 0 \<Longrightarrow> a = 0"
proof (induction n)
  case (Suc n)
  then have "crc32_shift ((crc32_shift ^^ n) a) = crc32_shift 0" by simp
  then have "(crc32_shift ^^ n) a = 0" by (rule crc32_shift_inj)
  then show ?case by (rule Suc.IH)
qed simp

lemma pack_0: "length es \<le> 4 \<Longrightarrow> pack es = 0 \<Longrightarrow> \<forall>e \<in> set es. e = 0"
proof (induction es)
  case (Cons e es)
  have "ucast e = push_bit 8 (pack es)" using Cons.prems(2) by simp
  then have eq: "bit (ucast e :: u32) k \<longleftrightarrow> bit (push_bit 8 (pack es)) k" for k by simp
  have e0: "e = 0"
  proof (rule bit_word_eqI)
    fix n assume "n < LENGTH(8)"
    then show "bit e n \<longleftrightarrow> bit 0 n" using eq [of n] by (auto simp: bit_simps)
  qed
  have "pack es = crc32_shift (push_bit 8 (pack es))"
    using Cons.prems(1) by (simp add: crc32_shift_push)
  also have "push_bit 8 (pack es) = 0" using Cons.prems(2) e0 by simp
  finally have "pack es = 0" by simp
  then show ?case using Cons e0 by simp
qed simp

theorem crc32_feed_burst:
  assumes "length w = length w'" and "length w \<le> 4" and "w \<noteq> w'"
  shows "foldl crc32_byte s (p @ w @ q) \<noteq> foldl crc32_byte s (p @ w' @ q)"
proof
  assume "foldl crc32_byte s (p @ w @ q) = foldl crc32_byte s (p @ w' @ q)"
  then have "foldl crc32_byte (foldl crc32_byte s p) w = foldl crc32_byte (foldl crc32_byte s p) w'"
    by (auto dest: crc32r.feed_inj_state)
  then have "foldl crc32_byte 0 (map2 (XOR) w w') = 0"
    using crc32_feed_xor [OF assms(1), of "foldl crc32_byte s p" "foldl crc32_byte s p"] by simp
  then have "pack (map2 (XOR) w w') = 0"
    using assms(1,2) by (simp add: crc32_feed_pack crc32_shifts_0)
  then have "\<forall>e \<in> set (map2 (XOR) w w'). e = 0" using assms(1,2) by (intro pack_0) auto
  then have "w = w'"
    using assms(1) by (auto simp: list_eq_iff_nth_eq set_conv_nth)
  then show False using assms(3) by contradiction
qed

text \<open>Feeding a complemented register back in, low byte first, leaves a constant: the residue.\<close>

lemma xor_eq_or_disjoint: "a AND b = 0 \<Longrightarrow> a XOR b = a OR (b :: 'a::len word)"
  by (auto simp: bit_eq_iff bit_simps)

lemma or_disjoint_push: "(\<And>k. m \<le> k \<Longrightarrow> \<not> bit a k) \<Longrightarrow> a AND push_bit m b = (0 :: 'a::len word)"
  by (simp add: bit_eq_iff bit_simps)

lemma pack_le32: "pack (le32 v) = v"
proof -
  let ?b = "\<lambda>n. ucast (ucast (drop_bit n v) :: u8) :: u32"
  have byte: "ucast (x :: u8) XOR push_bit 8 (y :: u32) = ucast x OR push_bit 8 y" for x y
    by (intro xor_eq_or_disjoint or_disjoint_push) (simp add: bit_simps bit_u8_beyond)
  have "pack (le32 v) = ?b 0 OR push_bit 8 (?b 8 OR push_bit 8 (?b 16 OR push_bit 8 (?b 24)))"
    by (simp only: le32_def pack.simps byte push_bit_of_0 xor.right_neutral drop_bit_0 id_apply)
  also have "\<dots> = v"
    using word_split_u32 [of v] by (simp add: push_bit_or or.assoc)
  finally show ?thesis .
qed

definition crc32_residue :: u32 where
  "crc32_residue = (crc32_shift ^^ 4) (NOT 0)"

lemma crc32_shifts_inj: "(crc32_shift ^^ n) a = (crc32_shift ^^ n) b \<longleftrightarrow> a = b"
  by (induction n) (auto dest: crc32_shift_inj)

lemma xor_eq_all_ones: "a XOR b = NOT 0 \<longleftrightarrow> b = NOT (a :: 'a::len word)"
  by (auto simp: bit_eq_iff bit_simps)

lemma crc32_residue_iff:
  "foldl crc32_byte s (data @ le32 v) = crc32_residue \<longleftrightarrow> v = NOT (foldl crc32_byte s data)"
proof -
  let ?r = "foldl crc32_byte s data"
  have "foldl crc32_byte s (data @ le32 v) = (crc32_shift ^^ 4) (?r XOR v)"
    by (simp only: foldl_append crc32_feed_pack length_le32 pack_le32 order_refl)
  then show ?thesis
    by (simp only: crc32_residue_def crc32_shifts_inj xor_eq_all_ones)
qed

end
