(* ===== verification/Hmpy_Frame.thy ===== *)
theory Hmpy_Frame
  imports Hmpy_Cobs Hk_Binary
begin

text \<open>
  \<open>firmware/src/services/hmpy_codec.c\<close> and \<open>.h\<close>, the frame layer: envelope validation, the frame
  encoder with its raw buffer built field by field, and the two decoders. A frame is a sixteen byte
  header, a payload of at most 1024 bytes and a CRC-32, COBS encoded and followed by a zero byte.
  The payload pointer of a decoded frame is the payload's bytes at that moment.
\<close>

section \<open>Constants and the frame record\<close>

definition HMPY_PROTOCOL_VERSION :: u8 where "HMPY_PROTOCOL_VERSION = 1"
definition HMPY_HEADER_SIZE :: nat where "HMPY_HEADER_SIZE = 16"
definition HMPY_CRC_SIZE :: nat where "HMPY_CRC_SIZE = 4"
definition HMPY_RAW_OVERHEAD :: nat where "HMPY_RAW_OVERHEAD = HMPY_HEADER_SIZE + HMPY_CRC_SIZE"
definition HMPY_MAX_PAYLOAD_SIZE :: nat where "HMPY_MAX_PAYLOAD_SIZE = 1024"
definition HMPY_MAX_RAW_FRAME :: nat where
  "HMPY_MAX_RAW_FRAME = HMPY_RAW_OVERHEAD + HMPY_MAX_PAYLOAD_SIZE"
definition HMPY_MAX_ENCODED_PACKET :: nat where
  "HMPY_MAX_ENCODED_PACKET = HMPY_MAX_RAW_FRAME + (HMPY_MAX_RAW_FRAME div 254) + 1"
definition HMPY_MAX_WIRE_FRAME :: nat where
  "HMPY_MAX_WIRE_FRAME = HMPY_MAX_ENCODED_PACKET + 1"

lemmas hmpy_sizes = HMPY_HEADER_SIZE_def HMPY_CRC_SIZE_def HMPY_RAW_OVERHEAD_def
  HMPY_MAX_PAYLOAD_SIZE_def HMPY_MAX_RAW_FRAME_def HMPY_MAX_ENCODED_PACKET_def HMPY_MAX_WIRE_FRAME_def

text \<open>The message types, requests first, then the events the device sends on its own.\<close>

definition hmpy_request_types :: "u8 list" where
  "hmpy_request_types =
     [0x01, 0x02, 0x03, 0x04, 0x10, 0x11, 0x12, 0x13, 0x20, 0x21, 0x22, 0x30, 0x31, 0x32, 0x40, 0x41]"

definition HMPY_MSG_STDOUT :: u8 where "HMPY_MSG_STDOUT = 0x80"
definition HMPY_MSG_DROPPED :: u8 where "HMPY_MSG_DROPPED = 0x84"

definition hmpy_event_types :: "u8 list" where
  "hmpy_event_types = [HMPY_MSG_STDOUT, 0x81, 0x82, 0x83, HMPY_MSG_DROPPED]"

definition HMPY_FLAG_RESPONSE :: u16 where "HMPY_FLAG_RESPONSE = 0x0001"
definition HMPY_FLAG_ERROR :: u16 where "HMPY_FLAG_ERROR = 0x0002"
definition HMPY_FLAG_MORE :: u16 where "HMPY_FLAG_MORE = 0x0004"
definition HMPY_FLAG_MASK :: u16 where
  "HMPY_FLAG_MASK = HMPY_FLAG_RESPONSE OR HMPY_FLAG_ERROR OR HMPY_FLAG_MORE"

record hmpy_frame =
  frame_type :: u8
  frame_flags :: u16
  frame_request_id :: u32
  frame_payload_length :: u32
  frame_payload :: "u8 list"

section \<open>Helpers\<close>

definition hmpy_read_u16 :: "u8 list \<Rightarrow> nat \<Rightarrow> u16" where
  "hmpy_read_u16 data off = ucast (data ! off) OR push_bit 8 (ucast (data ! (off + 1)))"

definition hmpy_read_u32 :: "u8 list \<Rightarrow> nat \<Rightarrow> u32" where
  "hmpy_read_u32 data off = ucast (data ! off) OR push_bit 8 (ucast (data ! (off + 1))) OR
     push_bit 16 (ucast (data ! (off + 2))) OR push_bit 24 (ucast (data ! (off + 3)))"

definition hmpy_write_u16 :: "u8 list \<Rightarrow> nat \<Rightarrow> u16 \<Rightarrow> u8 list" where
  "hmpy_write_u16 data off value = data[off := ucast value, off + 1 := ucast (drop_bit 8 value)]"

definition hmpy_write_u32 :: "u8 list \<Rightarrow> nat \<Rightarrow> u32 \<Rightarrow> u8 list" where
  "hmpy_write_u32 data off value = data[off := ucast value, off + 1 := ucast (drop_bit 8 value),
     off + 2 := ucast (drop_bit 16 value), off + 3 := ucast (drop_bit 24 value)]"

lemma hmpy_fields [simp]:
  "hmpy_read_u16 = rd16" "hmpy_read_u32 = rd32" "hmpy_write_u16 = wr16" "hmpy_write_u32 = wr32"
  by (intro ext, simp add: hmpy_read_u16_def rd16_def hmpy_read_u32_def rd32_def
      hmpy_write_u16_def wr16_def hmpy_write_u32_def wr32_def)+

definition hmpy_type_is_known :: "u8 \<Rightarrow> bool" where
  "hmpy_type_is_known type = (type \<in> set (hmpy_request_types @ hmpy_event_types))"

definition hmpy_type_is_event :: "u8 \<Rightarrow> bool" where
  "hmpy_type_is_event type = (type \<ge> HMPY_MSG_STDOUT \<and> type \<le> HMPY_MSG_DROPPED)"

definition hmpy_validate_envelope :: "u8 \<Rightarrow> u16 \<Rightarrow> u32 \<Rightarrow> hmpy_codec_status" where
  "hmpy_validate_envelope type flags request_id =
     (if \<not> hmpy_type_is_known type then HMPY_CODEC_ERROR_UNKNOWN_TYPE
      else if flags AND NOT HMPY_FLAG_MASK \<noteq> 0 then HMPY_CODEC_ERROR_RESERVED_FLAGS
      else if hmpy_type_is_event type then
        (if flags \<noteq> 0 \<or> request_id \<noteq> 0 then HMPY_CODEC_ERROR_INVALID_ENVELOPE
         else HMPY_CODEC_OK)
      else if request_id = 0 then HMPY_CODEC_ERROR_INVALID_ENVELOPE
      else if flags AND HMPY_FLAG_ERROR \<noteq> 0 \<and> flags AND HMPY_FLAG_RESPONSE = 0 then
        HMPY_CODEC_ERROR_INVALID_ENVELOPE
      else if flags AND HMPY_FLAG_MORE \<noteq> 0 \<and> flags AND HMPY_FLAG_RESPONSE = 0 then
        HMPY_CODEC_ERROR_INVALID_ENVELOPE
      else HMPY_CODEC_OK)"

definition hmpy_crc32 :: "u8 cptr \<Rightarrow> u32" where
  "hmpy_crc32 data = (if plen data \<noteq> 0 \<and> is_null data then 0
     else NOT (foldl crc32_byte 0xFFFFFFFF (pdata data)))"

definition hmpy_codec_status_name :: "hmpy_codec_status \<Rightarrow> string" where
  "hmpy_codec_status_name status = (case status of
       HMPY_CODEC_OK \<Rightarrow> ''ok''
     | HMPY_CODEC_INCOMPLETE \<Rightarrow> ''incomplete''
     | HMPY_CODEC_FRAME_READY \<Rightarrow> ''frame-ready''
     | HMPY_CODEC_ERROR_ARGUMENT \<Rightarrow> ''invalid-argument''
     | HMPY_CODEC_ERROR_OUTPUT_TOO_SMALL \<Rightarrow> ''output-too-small''
     | HMPY_CODEC_ERROR_COBS_MALFORMED \<Rightarrow> ''malformed-cobs''
     | HMPY_CODEC_ERROR_ENCODED_TOO_LARGE \<Rightarrow> ''encoded-too-large''
     | HMPY_CODEC_ERROR_FRAME_TOO_SHORT \<Rightarrow> ''frame-too-short''
     | HMPY_CODEC_ERROR_BAD_MAGIC \<Rightarrow> ''bad-magic''
     | HMPY_CODEC_ERROR_UNSUPPORTED_VERSION \<Rightarrow> ''unsupported-version''
     | HMPY_CODEC_ERROR_UNKNOWN_TYPE \<Rightarrow> ''unknown-type''
     | HMPY_CODEC_ERROR_RESERVED_FLAGS \<Rightarrow> ''reserved-flags''
     | HMPY_CODEC_ERROR_INVALID_ENVELOPE \<Rightarrow> ''invalid-envelope''
     | HMPY_CODEC_ERROR_PAYLOAD_TOO_LARGE \<Rightarrow> ''payload-too-large''
     | HMPY_CODEC_ERROR_LENGTH_MISMATCH \<Rightarrow> ''length-mismatch''
     | HMPY_CODEC_ERROR_CRC_MISMATCH \<Rightarrow> ''crc-mismatch'')"

section \<open>Encoder\<close>

text \<open>
  The raw frame on the stack. Its initial contents are indeterminate in C and written here as zeros;
  \<open>hmpy_build_raw_frame\<close> below shows that every byte that is read has been written before.
\<close>

definition hmpy_build_raw :: "u8 \<Rightarrow> u16 \<Rightarrow> u32 \<Rightarrow> u8 list \<Rightarrow> u8 list \<times> nat" where
  "hmpy_build_raw type flags request_id payload =
     (let raw = replicate HMPY_MAX_RAW_FRAME 0;
          raw = raw[0 := 0x48, 1 := 0x4D, 2 := 0x50, 3 := 0x59];
          raw = raw[4 := HMPY_PROTOCOL_VERSION, 5 := type];
          raw = hmpy_write_u16 raw 6 flags;
          raw = hmpy_write_u32 raw 8 request_id;
          raw = hmpy_write_u32 raw 12 (of_nat (length payload));
          raw = (if payload \<noteq> [] then mem_write HMPY_HEADER_SIZE payload raw else raw);
          raw_length = HMPY_HEADER_SIZE + length payload;
          crc = hmpy_crc32 (Ptr (take raw_length raw));
          raw = hmpy_write_u32 raw raw_length crc
      in (raw, raw_length + HMPY_CRC_SIZE))"

definition hmpy_frame_encode ::
  "u8 \<Rightarrow> u16 \<Rightarrow> u32 \<Rightarrow> u8 cptr \<Rightarrow> u8 cptr \<Rightarrow> nat option \<Rightarrow>
     hmpy_codec_status \<times> u8 list \<times> nat option" where
  "hmpy_frame_encode type flags request_id payload outp output_length =
     (if is_null outp \<or> output_length = None \<or> (plen payload \<noteq> 0 \<and> is_null payload) then
        (HMPY_CODEC_ERROR_ARGUMENT, pdata outp, output_length)
      else if plen payload > HMPY_MAX_PAYLOAD_SIZE then
        (HMPY_CODEC_ERROR_PAYLOAD_TOO_LARGE, pdata outp, Some 0)
      else if hmpy_validate_envelope type flags request_id \<noteq> HMPY_CODEC_OK then
        (hmpy_validate_envelope type flags request_id, pdata outp, Some 0)
      else if plen outp = 0 then (HMPY_CODEC_ERROR_OUTPUT_TOO_SMALL, pdata outp, Some 0)
      else
        let (raw, raw_length) = hmpy_build_raw type flags request_id (pdata payload);
            (status, out, encoded_length) =
              hmpy_cobs_encode (Ptr (take raw_length raw)) outp (plen outp - 1) (Some 0);
            encoded_length = the encoded_length
        in if status \<noteq> HMPY_CODEC_OK then (status, out, Some 0)
           else if encoded_length \<ge> plen outp then
             (HMPY_CODEC_ERROR_OUTPUT_TOO_SMALL, out, Some 0)
           else (HMPY_CODEC_OK, out[encoded_length := 0], Some (encoded_length + 1)))"

section \<open>Decoders\<close>

text \<open>The frame argument is \<open>None\<close> for a NULL pointer; it is written only on success.\<close>

definition hmpy_frame_decode_raw ::
  "u8 cptr \<Rightarrow> hmpy_frame option \<Rightarrow> hmpy_codec_status \<times> hmpy_frame option" where
  "hmpy_frame_decode_raw rawp frame =
     (let raw = pdata rawp in
      if is_null rawp \<or> frame = None then (HMPY_CODEC_ERROR_ARGUMENT, frame)
      else if plen rawp < HMPY_RAW_OVERHEAD then (HMPY_CODEC_ERROR_FRAME_TOO_SHORT, frame)
      else if raw ! 0 \<noteq> 0x48 \<or> raw ! 1 \<noteq> 0x4D \<or> raw ! 2 \<noteq> 0x50 \<or> raw ! 3 \<noteq> 0x59 then
        (HMPY_CODEC_ERROR_BAD_MAGIC, frame)
      else if raw ! 4 \<noteq> HMPY_PROTOCOL_VERSION then (HMPY_CODEC_ERROR_UNSUPPORTED_VERSION, frame)
      else
        let payload_length = hmpy_read_u32 raw 12 in
        if payload_length > of_nat HMPY_MAX_PAYLOAD_SIZE then (HMPY_CODEC_ERROR_PAYLOAD_TOO_LARGE, frame)
        else if plen rawp \<noteq> HMPY_RAW_OVERHEAD + unat payload_length then
          (HMPY_CODEC_ERROR_LENGTH_MISMATCH, frame)
        else
          let status = hmpy_validate_envelope (raw ! 5) (hmpy_read_u16 raw 6) (hmpy_read_u32 raw 8) in
          if status \<noteq> HMPY_CODEC_OK then (status, frame)
          else
            let crc_offset = HMPY_HEADER_SIZE + unat payload_length in
            if hmpy_read_u32 raw crc_offset \<noteq> hmpy_crc32 (Ptr (take crc_offset raw)) then
              (HMPY_CODEC_ERROR_CRC_MISMATCH, frame)
            else
              (HMPY_CODEC_OK, Some \<lparr>frame_type = raw ! 5, frame_flags = hmpy_read_u16 raw 6,
                 frame_request_id = hmpy_read_u32 raw 8, frame_payload_length = payload_length,
                 frame_payload = slice HMPY_HEADER_SIZE (unat payload_length) raw\<rparr>))"

definition hmpy_frame_decode_packet ::
  "u8 cptr \<Rightarrow> u8 cptr \<Rightarrow> hmpy_frame option \<Rightarrow> hmpy_codec_status \<times> u8 list \<times> hmpy_frame option" where
  "hmpy_frame_decode_packet packet rawp frame =
     (if is_null packet \<or> is_null rawp \<or> frame = None then
        (HMPY_CODEC_ERROR_ARGUMENT, pdata rawp, frame)
      else if plen packet > HMPY_MAX_ENCODED_PACKET then
        (HMPY_CODEC_ERROR_ENCODED_TOO_LARGE, pdata rawp, frame)
      else
        let (status, raw, raw_length) = hmpy_cobs_decode packet rawp (plen rawp) (Some 0);
            raw_length = the raw_length
        in if status = HMPY_CODEC_ERROR_OUTPUT_TOO_SMALL \<and> plen rawp \<ge> HMPY_MAX_RAW_FRAME then
             (HMPY_CODEC_ERROR_ENCODED_TOO_LARGE, raw, frame)
           else if status \<noteq> HMPY_CODEC_OK then (status, raw, frame)
           else if raw_length > HMPY_MAX_RAW_FRAME then (HMPY_CODEC_ERROR_ENCODED_TOO_LARGE, raw, frame)
           else let (status, frame) = hmpy_frame_decode_raw (Ptr (take raw_length raw)) frame
                in (status, raw, frame))"

section \<open>The frame format\<close>

definition hmpy_header :: "u8 \<Rightarrow> u16 \<Rightarrow> u32 \<Rightarrow> nat \<Rightarrow> u8 list" where
  "hmpy_header t f r n = [0x48, 0x4D, 0x50, 0x59, HMPY_PROTOCOL_VERSION, t] @ le16 f @ le32 r @ le32 (of_nat n)"

definition hmpy_raw :: "u8 \<Rightarrow> u16 \<Rightarrow> u32 \<Rightarrow> u8 list \<Rightarrow> u8 list" where
  "hmpy_raw t f r p = (let body = hmpy_header t f r (length p) @ p
     in body @ le32 (crc32_update 0 body))"

lemma hmpy_crc32_update: "hmpy_crc32 (Ptr data) = crc32_update 0 data"
proof -
  have "(0xFFFFFFFF :: u32) = NOT 0" by (simp add: word_eq_iff_unsigned)
  then show ?thesis by (simp only: hmpy_crc32_def crc32_update_def is_null.simps pdata.simps
        simp_thms if_False)
qed

lemma length_hmpy_header [simp]: "length (hmpy_header t f r n) = 16"
  by (simp add: hmpy_header_def)

lemma length_hmpy_raw [simp]: "length (hmpy_raw t f r p) = 20 + length p"
  by (simp add: hmpy_raw_def Let_def)

lemma take_wr16: "off + 2 \<le> length buf \<Longrightarrow> n = off + 2 \<Longrightarrow> take n (wr16 buf off v) = take off buf @ le16 v"
  by (simp add: wr16_mem_write take_mem_write_end)

lemma take_wr32: "off + 4 \<le> length buf \<Longrightarrow> n = off + 4 \<Longrightarrow> take n (wr32 buf off v) = take off buf @ le32 v"
  by (simp add: wr32_mem_write take_mem_write_end)

lemma hmpy_build_raw_frame:
  assumes "length p \<le> 1024"
  shows "snd (hmpy_build_raw t f r p) = 20 + length p"
    "take (20 + length p) (fst (hmpy_build_raw t f r p)) = hmpy_raw t f r p"
proof -
  define r0 where "r0 = (replicate 1044 (0::u8))[0 := 0x48, 1 := 0x4D, 2 := 0x50, 3 := 0x59,
    4 := HMPY_PROTOCOL_VERSION, 5 := t]"
  define r1 where "r1 = wr16 r0 6 f"
  define r2 where "r2 = wr32 r1 8 r"
  define r3 where "r3 = wr32 r2 12 (of_nat (length p))"
  define r4 where "r4 = (if p \<noteq> [] then mem_write 16 p r3 else r3)"
  have len: "length r0 = 1044" "length r1 = 1044" "length r2 = 1044" "length r3 = 1044"
    by (simp_all add: r0_def r1_def r2_def r3_def wr16_def wr32_def)
  have t0: "take 6 r0 = [0x48, 0x4D, 0x50, 0x59, HMPY_PROTOCOL_VERSION, t]"
    by (simp add: r0_def numeral_eq_Suc)
  have "take 8 r1 = take 6 r0 @ le16 f" unfolding r1_def by (rule take_wr16) (simp_all add: len)
  moreover have "take 12 r2 = take 8 r1 @ le32 r" unfolding r2_def by (rule take_wr32) (simp_all add: len)
  moreover have "take 16 r3 = take 12 r2 @ le32 (of_nat (length p))"
    unfolding r3_def by (rule take_wr32) (simp_all add: len)
  ultimately have t3: "take 16 r3 = hmpy_header t f r (length p)"
    by (simp add: t0 hmpy_header_def)
  have r4: "r4 = mem_write 16 p r3" "length r4 = 1044"
    using assms by (auto simp: r4_def len)
  have t4: "take (16 + length p) r4 = hmpy_header t f r (length p) @ p"
    using assms by (simp add: r4(1) take_mem_write_end len t3)
  let ?crc = "crc32_update 0 (take (16 + length p) r4)"
  have build: "hmpy_build_raw t f r p = (wr32 r4 (16 + length p) ?crc, 20 + length p)"
    unfolding r4_def r3_def r2_def r1_def r0_def
    by (simp add: hmpy_build_raw_def Let_def hmpy_sizes hmpy_crc32_update)
  show "snd (hmpy_build_raw t f r p) = 20 + length p" by (simp add: build)
  have "take (20 + length p) (wr32 r4 (16 + length p) ?crc) = take (16 + length p) r4 @ le32 ?crc"
    using assms by (intro take_wr32) (simp_all add: r4(2))
  then show "take (20 + length p) (fst (hmpy_build_raw t f r p)) = hmpy_raw t f r p"
    by (simp add: build t4 hmpy_raw_def Let_def)
qed

lemma rd16_at: "length xs = n \<Longrightarrow> rd16 (xs @ le16 v @ ys) n = v"
  using f16.get_bytes_append [of xs v ys] by simp

lemma rd32_at: "length xs = n \<Longrightarrow> rd32 (xs @ le32 v @ ys) n = v"
  using f32.get_bytes_append [of xs v ys] by simp

lemma hmpy_raw_fields:
  fixes t :: u8 and f :: u16 and r :: u32 and p :: "u8 list"
  defines "raw \<equiv> hmpy_raw t f r p"
  shows "raw ! 0 = 0x48" "raw ! 1 = 0x4D" "raw ! 2 = 0x50" "raw ! 3 = 0x59"
    "raw ! 4 = HMPY_PROTOCOL_VERSION" "raw ! 5 = t"
    "rd16 raw 6 = f" "rd32 raw 8 = r" "rd32 raw 12 = of_nat (length p)"
    "slice 16 (length p) raw = p"
    "take (16 + length p) raw = hmpy_header t f r (length p) @ p"
    "rd32 raw (16 + length p) = crc32_update 0 (hmpy_header t f r (length p) @ p)"
proof -
  let ?tail = "p @ le32 (crc32_update 0 (hmpy_header t f r (length p) @ p))"
  let ?magic = "[0x48, 0x4D, 0x50, 0x59, HMPY_PROTOCOL_VERSION, t]"
  have raw: "raw = ?magic @ le16 f @ le32 r @ le32 (of_nat (length p)) @ ?tail"
    by (simp add: raw_def hmpy_raw_def hmpy_header_def Let_def)
  show "raw ! 0 = 0x48" "raw ! 1 = 0x4D" "raw ! 2 = 0x50" "raw ! 3 = 0x59"
    "raw ! 4 = HMPY_PROTOCOL_VERSION" "raw ! 5 = t" by (simp_all add: raw)
  show "rd16 raw 6 = f" unfolding raw by (rule rd16_at) simp
  show "rd32 raw 8 = r"
    using rd32_at [of "?magic @ le16 f" 8 r] by (simp only: raw append_assoc) simp
  show "rd32 raw 12 = of_nat (length p)"
    using rd32_at [of "?magic @ le16 f @ le32 r" 12 "of_nat (length p)"]
    by (simp only: raw append_assoc) simp
  have raw': "raw = hmpy_header t f r (length p) @ ?tail"
    by (simp add: raw_def hmpy_raw_def Let_def)
  show "slice 16 (length p) raw = p" "take (16 + length p) raw = hmpy_header t f r (length p) @ p"
    by (simp_all add: raw' slice_append_right slice_append_left)
  show "rd32 raw (16 + length p) = crc32_update 0 (hmpy_header t f r (length p) @ p)"
    using rd32_at [of "hmpy_header t f r (length p) @ p" "16 + length p"
        "crc32_update 0 (hmpy_header t f r (length p) @ p)" "[]"] by (simp add: raw')
qed

text \<open>The frame a decoder hands out for valid fields.\<close>

definition mk_frame :: "u8 \<Rightarrow> u16 \<Rightarrow> u32 \<Rightarrow> u8 list \<Rightarrow> hmpy_frame" where
  "mk_frame t f r p = \<lparr>frame_type = t, frame_flags = f, frame_request_id = r,
     frame_payload_length = of_nat (length p), frame_payload = p\<rparr>"

definition hmpy_valid :: "u8 \<Rightarrow> u16 \<Rightarrow> u32 \<Rightarrow> u8 list \<Rightarrow> bool" where
  "hmpy_valid t f r p = (hmpy_validate_envelope t f r = HMPY_CODEC_OK \<and> length p \<le> HMPY_MAX_PAYLOAD_SIZE)"

lemma unat_payload_length: "length p \<le> 1024 \<Longrightarrow> unat (of_nat (length p) :: u32) = length p"
  by (rule unat_of_nat_lt) simp

lemma hmpy_frame_decode_raw_valid:
  assumes "hmpy_valid t f r p"
  shows "hmpy_frame_decode_raw (Ptr (hmpy_raw t f r p)) (Some fr) = (HMPY_CODEC_OK, Some (mk_frame t f r p))"
proof -
  from assms have v: "hmpy_validate_envelope t f r = HMPY_CODEC_OK" and l: "length p \<le> 1024"
    by (simp_all add: hmpy_valid_def hmpy_sizes)
  have "(of_nat (length p) :: u32) \<le> 1024" using l by (simp add: word_le_nat_alt unat_payload_length)
  then show ?thesis
    by (simp add: hmpy_frame_decode_raw_def hmpy_sizes Let_def v hmpy_crc32_update hmpy_raw_fields
        hmpy_raw_fields(2) [unfolded One_nat_def]
        unat_payload_length [OF l] mk_frame_def not_less)
qed

lemma split_at_6: "6 \<le> length xs \<Longrightarrow> take 6 xs = [xs!0, xs!1, xs!2, xs!3, xs!4, xs!5]"
  by (rule nth_equalityI) (auto simp: less_Suc_eq numeral_eq_Suc)

lemma hmpy_frame_decode_raw_OK:
  assumes "hmpy_frame_decode_raw (Ptr raw) (Some fr) = (HMPY_CODEC_OK, fr')"
  shows "\<exists>t f r p. hmpy_valid t f r p \<and> raw = hmpy_raw t f r p \<and> fr' = Some (mk_frame t f r p)"
proof -
  let ?n = "unat (rd32 raw 12)" and ?t = "raw ! 5" and ?f = "rd16 raw 6" and ?r = "rd32 raw 8"
  let ?p = "slice 16 ?n raw"
  note d = assms [unfolded hmpy_frame_decode_raw_def Let_def, simplified]
  from d have magic: "raw ! 0 = 0x48" "raw ! 1 = 0x4D" "raw ! 2 = 0x50" "raw ! 3 = 0x59"
      "raw ! 4 = HMPY_PROTOCOL_VERSION"
    and n: "rd32 raw 12 \<le> 1024" and len: "length raw = 20 + ?n"
    and v: "hmpy_validate_envelope ?t ?f ?r = HMPY_CODEC_OK"
    and crc: "rd32 raw (16 + ?n) = crc32_update 0 (take (16 + ?n) raw)"
    by (auto simp: hmpy_sizes hmpy_crc32_update not_less split: if_splits)
  have pl: "length ?p = ?n" using len by simp
  have "raw = take 6 raw @ slice 6 2 raw @ slice 8 4 raw @ slice 12 4 raw @ ?p @ slice (16 + ?n) 4 raw"
    using len by (intro nth_equalityI) (auto simp: slice_def nth_append min_def)
  then have raw: "raw = hmpy_header ?t ?f ?r (length ?p) @ ?p @ slice (16 + ?n) 4 raw"
    using len split_at_6 [of raw] magic
    by (simp add: hmpy_header_def f16.bytes_get f32.bytes_get pl)
  have tk: "take (16 + ?n) raw = hmpy_header ?t ?f ?r (length ?p) @ ?p"
    by (subst raw) (simp add: pl)
  have "slice (16 + ?n) 4 raw = le32 (rd32 raw (16 + ?n))" using len by (simp add: f32.bytes_get)
  with raw tk crc have "raw = hmpy_raw ?t ?f ?r ?p" by (simp add: hmpy_raw_def Let_def)
  moreover have val: "hmpy_valid ?t ?f ?r ?p"
    using v n pl by (simp add: hmpy_valid_def hmpy_sizes word_le_nat_alt)
  moreover have "fr' = Some (mk_frame ?t ?f ?r ?p)"
    using assms hmpy_frame_decode_raw_valid [OF val, of fr] calculation(1) by simp
  ultimately show ?thesis by blast
qed

section \<open>Packets\<close>

definition hmpy_wire :: "u8 \<Rightarrow> u16 \<Rightarrow> u32 \<Rightarrow> u8 list \<Rightarrow> u8 list" where
  "hmpy_wire t f r p = cobs [] (hmpy_raw t f r p)"

lemma hmpy_wire_no_zero: "0 \<notin> set (hmpy_wire t f r p)"
  unfolding hmpy_wire_def by (rule cobs_no_zero) simp_all

lemma length_hmpy_wire:
  assumes "hmpy_valid t f r p"
  shows "length (hmpy_wire t f r p) \<le> HMPY_MAX_ENCODED_PACKET"
proof -
  have l: "length p \<le> 1024" using assms by (simp add: hmpy_valid_def hmpy_sizes)
  have "length (hmpy_wire t f r p) \<le> (20 + length p) + 1 + (20 + length p) div 254"
    unfolding hmpy_wire_def using length_cobs [of "[]" "hmpy_raw t f r p"] by simp
  also have "\<dots> \<le> 1044 + 1 + 1044 div 254" using l by (intro add_mono div_le_mono) simp_all
  finally show ?thesis by (simp add: hmpy_sizes)
qed

lemma hmpy_frame_encode_eq:
  assumes "hmpy_valid t f r p" and "length (hmpy_wire t f r p) < length out"
  shows "hmpy_frame_encode t f r (Ptr p) (Ptr out) (Some l) =
    (HMPY_CODEC_OK, mem_write 0 (hmpy_wire t f r p @ [0]) out, Some (length (hmpy_wire t f r p) + 1))"
proof -
  from assms(1) have v: "hmpy_validate_envelope t f r = HMPY_CODEC_OK" and p: "length p \<le> 1024"
    by (simp_all add: hmpy_valid_def hmpy_sizes)
  obtain raw where build: "hmpy_build_raw t f r p = (raw, 20 + length p)"
    and raw: "take (20 + length p) raw = hmpy_raw t f r p"
    using hmpy_build_raw_frame [OF p, of t f r] by (metis prod.collapse)
  have enc: "hmpy_cobs_encode (Ptr (hmpy_raw t f r p)) (Ptr out) (length out - 1) (Some 0) =
      (HMPY_CODEC_OK, mem_write 0 (hmpy_wire t f r p) out, Some (length (hmpy_wire t f r p)))"
    unfolding hmpy_wire_def using assms(2) by (intro hmpy_cobs_encode_eq) (auto simp: hmpy_wire_def)
  have "(mem_write 0 (hmpy_wire t f r p) out)[length (hmpy_wire t f r p) := 0] =
      mem_write 0 (hmpy_wire t f r p @ [0]) out"
    using assms(2) mem_write_append [of 0 "hmpy_wire t f r p" "[0]" out]
    by (simp add: mem_write_single [symmetric])
  moreover have "length out \<noteq> 0" "\<not> length p > 1024" using assms(2) p by auto
  ultimately show ?thesis
    using assms(2) by (simp add: hmpy_frame_encode_def hmpy_sizes v build raw enc [unfolded One_nat_def])
qed

lemma hmpy_frame_decode_packet_wire:
  assumes "hmpy_valid t f r p" and "HMPY_MAX_RAW_FRAME \<le> length buf"
  shows "hmpy_frame_decode_packet (Ptr (hmpy_wire t f r p)) (Ptr buf) (Some fr) =
    (HMPY_CODEC_OK, mem_write 0 (hmpy_raw t f r p) buf, Some (mk_frame t f r p))"
proof -
  have p: "length p \<le> 1024" using assms(1) by (simp add: hmpy_valid_def hmpy_sizes)
  have "hmpy_cobs_decode (Ptr (hmpy_wire t f r p)) (Ptr buf) (length buf) (Some 0) =
      (HMPY_CODEC_OK, mem_write 0 (hmpy_raw t f r p) buf, Some (length (hmpy_raw t f r p)))"
    using assms(2) p hmpy_wire_no_zero uncobs_cobs [of "[]" "hmpy_raw t f r p"]
    by (intro hmpy_cobs_decode_eq) (auto simp: hmpy_wire_def hmpy_sizes)
  moreover have "take (20 + length p) (mem_write 0 (hmpy_raw t f r p) buf) = hmpy_raw t f r p"
    by (simp add: mem_write_def)
  moreover have "\<not> length (hmpy_wire t f r p) > HMPY_MAX_ENCODED_PACKET"
    using length_hmpy_wire [OF assms(1)] by simp
  ultimately show ?thesis
    using p hmpy_frame_decode_raw_valid [OF assms(1)]
    by (simp add: hmpy_frame_decode_packet_def hmpy_sizes)
qed

text \<open>C18. Every valid frame that is encoded into a buffer of the advertised wire size becomes one
  delimiter-terminated packet with no delimiter inside, and decoding that packet returns the
  type, flags, request id and payload that were encoded.\<close>

theorem hmpy_frame_roundtrip:
  assumes "hmpy_validate_envelope t f r = HMPY_CODEC_OK" and "length p \<le> HMPY_MAX_PAYLOAD_SIZE"
    and "length out = HMPY_MAX_WIRE_FRAME" and "length raw = HMPY_MAX_RAW_FRAME"
  shows "\<exists>wire n raw'. hmpy_frame_encode t f r (Ptr p) (Ptr out) (Some l) = (HMPY_CODEC_OK, wire, Some (n + 1)) \<and>
    n + 1 \<le> HMPY_MAX_WIRE_FRAME \<and> wire ! n = 0 \<and> 0 \<notin> set (take n wire) \<and>
    hmpy_frame_decode_packet (Ptr (take n wire)) (Ptr raw) (Some fr) = (HMPY_CODEC_OK, raw', Some (mk_frame t f r p))"
proof -
  have v: "hmpy_valid t f r p" using assms by (simp add: hmpy_valid_def)
  let ?w = "hmpy_wire t f r p"
  have len: "length ?w < length out"
    using length_hmpy_wire [OF v] assms(3) by (simp add: HMPY_MAX_WIRE_FRAME_def)
  have "mem_write 0 (?w @ [0]) out ! length ?w = 0" "take (length ?w) (mem_write 0 (?w @ [0]) out) = ?w"
    using len by (simp_all add: mem_write_def nth_append)
  moreover have "HMPY_MAX_RAW_FRAME \<le> length raw" using assms(4) by simp
  ultimately show ?thesis
    using hmpy_frame_encode_eq [OF v len, of l] hmpy_frame_decode_packet_wire [OF v, of raw fr]
      hmpy_wire_no_zero [of t f r p] len assms(3) by auto
qed

lemma hmpy_frame_roundtrip_witness:
  "\<exists>wire n raw'. hmpy_frame_encode 0x40 0 7 (Ptr [0, 5]) (Ptr (replicate HMPY_MAX_WIRE_FRAME 0)) (Some 0) =
      (HMPY_CODEC_OK, wire, Some (n + 1)) \<and>
    hmpy_frame_decode_packet (Ptr (take n wire)) (Ptr (replicate HMPY_MAX_RAW_FRAME 0)) (Some (mk_frame 0 0 0 [])) =
      (HMPY_CODEC_OK, raw', Some (mk_frame 0x40 0 7 [0, 5]))"
proof -
  have v: "hmpy_validate_envelope 0x40 0 7 = HMPY_CODEC_OK" by code_simp
  have p: "length ([0, 5] :: u8 list) \<le> HMPY_MAX_PAYLOAD_SIZE" by (simp add: hmpy_sizes)
  show ?thesis
    using hmpy_frame_roundtrip [OF v p length_replicate length_replicate, of 0 0 0 "mk_frame 0 0 0 []"]
    by blast
qed

text \<open>C8. The raw decoder accepts exactly the byte strings that the encoder builds for valid fields, and
  hands out those fields; everything else is an error and leaves the caller's frame untouched.\<close>

theorem hmpy_frame_decode_raw_exact:
  "(fst (hmpy_frame_decode_raw (Ptr raw) (Some fr)) = HMPY_CODEC_OK \<longleftrightarrow>
     (\<exists>t f r p. hmpy_valid t f r p \<and> raw = take (snd (hmpy_build_raw t f r p)) (fst (hmpy_build_raw t f r p)))) \<and>
   (\<forall>t f r p. hmpy_valid t f r p \<longrightarrow> raw = hmpy_raw t f r p \<longrightarrow>
     hmpy_frame_decode_raw (Ptr raw) (Some fr) = (HMPY_CODEC_OK, Some (mk_frame t f r p))) \<and>
   (fst (hmpy_frame_decode_raw (Ptr raw) (Some fr)) \<noteq> HMPY_CODEC_OK \<longrightarrow>
     snd (hmpy_frame_decode_raw (Ptr raw) (Some fr)) = Some fr)"
proof (intro conjI)
  have build: "hmpy_valid t f r p \<Longrightarrow>
      take (snd (hmpy_build_raw t f r p)) (fst (hmpy_build_raw t f r p)) = hmpy_raw t f r p" for t f r p
    by (simp add: hmpy_build_raw_frame hmpy_valid_def hmpy_sizes)
  show "fst (hmpy_frame_decode_raw (Ptr raw) (Some fr)) = HMPY_CODEC_OK \<longleftrightarrow>
     (\<exists>t f r p. hmpy_valid t f r p \<and> raw = take (snd (hmpy_build_raw t f r p)) (fst (hmpy_build_raw t f r p)))"
  proof
    assume "fst (hmpy_frame_decode_raw (Ptr raw) (Some fr)) = HMPY_CODEC_OK"
    then obtain fr' where "hmpy_frame_decode_raw (Ptr raw) (Some fr) = (HMPY_CODEC_OK, fr')"
      by (metis prod.collapse)
    from hmpy_frame_decode_raw_OK [OF this]
    show "\<exists>t f r p. hmpy_valid t f r p \<and> raw = take (snd (hmpy_build_raw t f r p)) (fst (hmpy_build_raw t f r p))"
      by (metis build)
  next
    assume "\<exists>t f r p. hmpy_valid t f r p \<and> raw = take (snd (hmpy_build_raw t f r p)) (fst (hmpy_build_raw t f r p))"
    then show "fst (hmpy_frame_decode_raw (Ptr raw) (Some fr)) = HMPY_CODEC_OK"
      by (metis build fst_conv hmpy_frame_decode_raw_valid)
  qed
  show "\<forall>t f r p. hmpy_valid t f r p \<longrightarrow> raw = hmpy_raw t f r p \<longrightarrow>
     hmpy_frame_decode_raw (Ptr raw) (Some fr) = (HMPY_CODEC_OK, Some (mk_frame t f r p))"
    by (simp add: hmpy_frame_decode_raw_valid)
  show "fst (hmpy_frame_decode_raw (Ptr raw) (Some fr)) \<noteq> HMPY_CODEC_OK \<longrightarrow>
     snd (hmpy_frame_decode_raw (Ptr raw) (Some fr)) = Some fr"
    by (auto simp: hmpy_frame_decode_raw_def Let_def)
qed

lemma hmpy_frame_decode_raw_exact_witness:
  "hmpy_frame_decode_raw (Ptr (hmpy_raw 0x40 0 7 [1])) (Some (mk_frame 0 0 0 [])) =
     (HMPY_CODEC_OK, Some (mk_frame 0x40 0 7 [1]))"
proof -
  have "hmpy_validate_envelope 0x40 0 7 = HMPY_CODEC_OK" by code_simp
  then have "hmpy_valid 0x40 0 7 [1]" by (simp add: hmpy_valid_def hmpy_sizes)
  then show ?thesis
    using hmpy_frame_decode_raw_exact [of "hmpy_raw 0x40 0 7 [1]" "mk_frame 0 0 0 []"] by blast
qed

text \<open>C19. The CRC detects every burst: corrupting up to four consecutive bytes of a frame, anywhere from the
  magic to the CRC field itself, never yields a frame the decoder accepts.\<close>

theorem hmpy_frame_burst_detected:
  assumes "fst (hmpy_frame_decode_raw (Ptr (a @ w @ b)) (Some fr)) = HMPY_CODEC_OK"
    and "length w' = length w" and "length w \<le> 4" and "w' \<noteq> w"
  shows "fst (hmpy_frame_decode_raw (Ptr (a @ w' @ b)) (Some fr)) \<noteq> HMPY_CODEC_OK"
proof
  have residue: "foldl crc32_byte (NOT 0) raw = crc32_residue"
    if "fst (hmpy_frame_decode_raw (Ptr raw) (Some fr)) = HMPY_CODEC_OK" for raw
  proof -
    from that obtain t f r p where "raw = hmpy_raw t f r p"
      using hmpy_frame_decode_raw_OK [of raw fr] by (metis prod.collapse)
    then show ?thesis by (simp only: hmpy_raw_def Let_def crc32_residue_iff crc32_update_def)
  qed
  assume "fst (hmpy_frame_decode_raw (Ptr (a @ w' @ b)) (Some fr)) = HMPY_CODEC_OK"
  from residue [OF this] residue [OF assms(1)]
  show False using crc32_feed_burst [of w w' "NOT 0" a b] assms by auto
qed

lemma hmpy_frame_burst_detected_witness:
  "fst (hmpy_frame_decode_raw (Ptr (0x58 # tl (hmpy_raw 0x40 0 7 []))) (Some (mk_frame 0 0 0 []))) \<noteq> HMPY_CODEC_OK"
proof -
  have "hmpy_validate_envelope 0x40 0 7 = HMPY_CODEC_OK" by code_simp
  then have "fst (hmpy_frame_decode_raw (Ptr (hmpy_raw 0x40 0 7 [])) (Some (mk_frame 0 0 0 []))) = HMPY_CODEC_OK"
    by (simp add: hmpy_frame_decode_raw_valid hmpy_valid_def)
  moreover have "hmpy_raw 0x40 0 7 [] = [] @ [0x48] @ tl (hmpy_raw 0x40 0 7 [])"
    by (simp add: hmpy_raw_def hmpy_header_def Let_def)
  ultimately show ?thesis
    using hmpy_frame_burst_detected [of "[]" "[0x48]" "tl (hmpy_raw 0x40 0 7 [])" _ "[0x58]"] by simp
qed

end
