(* ===== verification/Hmpy_Stream.thy ===== *)
theory Hmpy_Stream
  imports Hmpy_Frame
begin

text \<open>
  \<open>firmware/src/services/hmpy_codec.c\<close>, the stream decoder: a fixed buffer that collects the bytes
  between delimiters, a discarding state for packets that are too long, error statistics. The theory
  states delimiter framing as an interface (\<open>packet_framing\<close>), proves resynchronisation in it once,
  interprets it on the HMPY packet codec, and shows that the decoder simulates the abstract framing.
\<close>

section \<open>The decoder\<close>

record hmpy_stream_decoder =
  dec_encoded :: "u8 list"
  dec_raw :: "u8 list"
  dec_encoded_length :: nat
  dec_error_count :: u32
  dec_last_error :: hmpy_codec_status
  dec_discarding :: bool

definition hmpy_stream_decoder_init :: "hmpy_stream_decoder option \<Rightarrow> hmpy_stream_decoder option" where
  "hmpy_stream_decoder_init decoder =
     (case decoder of None \<Rightarrow> None
      | Some d \<Rightarrow> Some \<lparr>dec_encoded = replicate HMPY_MAX_ENCODED_PACKET 0,
          dec_raw = replicate HMPY_MAX_RAW_FRAME 0, dec_encoded_length = 0, dec_error_count = 0,
          dec_last_error = HMPY_CODEC_OK, dec_discarding = False\<rparr>)"

definition hmpy_stream_decoder_reset :: "hmpy_stream_decoder option \<Rightarrow> hmpy_stream_decoder option" where
  "hmpy_stream_decoder_reset decoder =
     (case decoder of None \<Rightarrow> None
      | Some d \<Rightarrow> Some (d\<lparr>dec_encoded_length := 0, dec_last_error := HMPY_CODEC_OK,
          dec_discarding := False\<rparr>))"

definition hmpy_stream_error ::
  "hmpy_stream_decoder \<Rightarrow> hmpy_codec_status \<Rightarrow> hmpy_codec_status \<times> hmpy_stream_decoder" where
  "hmpy_stream_error decoder status =
     (status, decoder\<lparr>dec_last_error := status, dec_error_count := dec_error_count decoder + 1\<rparr>)"

text \<open>The body of \<open>hmpy_stream_decoder_feed\<close>, for a decoder and a frame that are not NULL.\<close>

definition stream_feed ::
  "hmpy_stream_decoder \<Rightarrow> u8 \<Rightarrow> hmpy_frame \<Rightarrow> hmpy_codec_status \<times> hmpy_stream_decoder \<times> hmpy_frame" where
  "stream_feed decoder byte frame =
     (if byte \<noteq> 0 then
        (if dec_discarding decoder then (HMPY_CODEC_INCOMPLETE, decoder, frame)
         else if dec_encoded_length decoder \<ge> HMPY_MAX_ENCODED_PACKET then
           (HMPY_CODEC_INCOMPLETE, decoder\<lparr>dec_encoded_length := 0, dec_discarding := True\<rparr>, frame)
         else
           (HMPY_CODEC_INCOMPLETE,
            decoder\<lparr>dec_encoded := (dec_encoded decoder)[dec_encoded_length decoder := byte],
                    dec_encoded_length := dec_encoded_length decoder + 1\<rparr>, frame))
      else if dec_discarding decoder then
        let decoder = decoder\<lparr>dec_discarding := False, dec_encoded_length := 0\<rparr>;
            (status, decoder) = hmpy_stream_error decoder HMPY_CODEC_ERROR_ENCODED_TOO_LARGE
        in (status, decoder, frame)
      else if dec_encoded_length decoder = 0 then (HMPY_CODEC_INCOMPLETE, decoder, frame)
      else
        let (status, raw, frame') = hmpy_frame_decode_packet
              (Ptr (take (dec_encoded_length decoder) (dec_encoded decoder)))
              (Ptr (dec_raw decoder)) (Some frame);
            frame' = the frame';
            decoder = decoder\<lparr>dec_raw := raw, dec_encoded_length := 0\<rparr>
        in if status \<noteq> HMPY_CODEC_OK then
             let (status, decoder) = hmpy_stream_error decoder status in (status, decoder, frame')
           else (HMPY_CODEC_FRAME_READY, decoder\<lparr>dec_last_error := HMPY_CODEC_OK\<rparr>, frame'))"

definition hmpy_stream_decoder_feed ::
  "hmpy_stream_decoder option \<Rightarrow> u8 \<Rightarrow> hmpy_frame option \<Rightarrow>
     hmpy_codec_status \<times> hmpy_stream_decoder option \<times> hmpy_frame option" where
  "hmpy_stream_decoder_feed decoder byte frame =
     (case (decoder, frame) of
        (Some d, Some f) \<Rightarrow>
          let (status, d, f) = stream_feed d byte f in (status, Some d, Some f)
      | _ \<Rightarrow> (HMPY_CODEC_ERROR_ARGUMENT, decoder, frame))"

text \<open>Feeding a whole receive buffer, collecting the frames that were reported ready.\<close>

fun stream_feed_all ::
  "hmpy_stream_decoder \<Rightarrow> hmpy_frame \<Rightarrow> u8 list \<Rightarrow> hmpy_stream_decoder \<times> hmpy_frame list" where
  "stream_feed_all decoder frame [] = (decoder, [])"
| "stream_feed_all decoder frame (byte # bytes) =
     (let (status, decoder, frame) = stream_feed decoder byte frame;
          (decoder, frames) = stream_feed_all decoder frame bytes
      in (decoder, if status = HMPY_CODEC_FRAME_READY then frame # frames else frames))"

section \<open>Delimiter framing\<close>

text \<open>The abstract receiver: the packet collected so far, \<open>None\<close> while it discards one that is too long.\<close>

datatype 'm frame_event = Quiet | Delivered 'm | Rejected

definition deframe ::
  "nat \<Rightarrow> (u8 list \<Rightarrow> 'm option) \<Rightarrow> u8 list option \<Rightarrow> u8 \<Rightarrow> u8 list option \<times> 'm frame_event" where
  "deframe max_packet decode st b =
     (if b \<noteq> 0 then
        (case st of None \<Rightarrow> (None, Quiet)
         | Some xs \<Rightarrow> (if length xs \<ge> max_packet then None else Some (xs @ [b]), Quiet))
      else (Some [], case st of None \<Rightarrow> Rejected
         | Some xs \<Rightarrow> if xs = [] then Quiet
             else case decode xs of None \<Rightarrow> Rejected | Some m \<Rightarrow> Delivered m))"

fun deframe_all ::
  "nat \<Rightarrow> (u8 list \<Rightarrow> 'm option) \<Rightarrow> u8 list option \<Rightarrow> u8 list \<Rightarrow> u8 list option \<times> 'm list" where
  "deframe_all max_packet decode st [] = (st, [])"
| "deframe_all max_packet decode st (b # bs) =
     (let (st, ev) = deframe max_packet decode st b;
          (st, ms) = deframe_all max_packet decode st bs
      in (st, case ev of Delivered m \<Rightarrow> m # ms | _ \<Rightarrow> ms))"

lemma deframe_all_append:
  "deframe_all n dec st (xs @ ys) =
    (let (st, ms) = deframe_all n dec st xs; (st', ms') = deframe_all n dec st ys in (st', ms @ ms'))"
  by (induction xs arbitrary: st) (auto simp: Let_def split: prod.splits frame_event.splits)

lemma deframe_all_delimiter: "fst (deframe_all n dec st (xs @ [0])) = Some []"
  by (simp add: deframe_all_append deframe_def Let_def split: prod.splits)

lemma deframe_all_collect:
  "0 \<notin> set xs \<Longrightarrow> length acc + length xs \<le> n \<Longrightarrow> deframe_all n dec (Some acc) xs = (Some (acc @ xs), [])"
  by (induction xs arbitrary: acc) (auto simp: deframe_def Let_def)

locale packet_framing =
  fixes max_packet :: nat
    and decode :: "u8 list \<Rightarrow> 'm option"
    and wire :: "'m \<Rightarrow> u8 list"
    and valid :: "'m \<Rightarrow> bool"
  assumes wire_no_delimiter: "valid m \<Longrightarrow> 0 \<notin> set (wire m)"
    and wire_nonempty: "valid m \<Longrightarrow> wire m \<noteq> []"
    and wire_bounded: "valid m \<Longrightarrow> length (wire m) \<le> max_packet"
    and decode_wire: "valid m \<Longrightarrow> decode (wire m) = Some m"
begin

lemma deframe_packet: "valid m \<Longrightarrow> deframe_all max_packet decode (Some []) (wire m @ [0]) = (Some [], [m])"
  by (simp add: deframe_all_append deframe_all_collect wire_no_delimiter wire_bounded wire_nonempty
      decode_wire deframe_def)

lemma deframe_stream:
  "\<forall>m \<in> set ms. valid m \<Longrightarrow>
    deframe_all max_packet decode (Some []) (concat (map (\<lambda>m. wire m @ [0]) ms)) = (Some [], ms)"
proof (induction ms)
  case (Cons m ms)
  then show ?case
    using deframe_packet [of m] by (simp only: list.map concat.simps deframe_all_append) simp
qed simp

lemma deframe_resync:
  assumes "\<forall>m \<in> set ms. valid m"
  shows "\<exists>ms0. deframe_all max_packet decode st (noise @ [0]) = (Some [], ms0) \<and>
    deframe_all max_packet decode st (noise @ [0] @ concat (map (\<lambda>m. wire m @ [0]) ms)) = (Some [], ms0 @ ms)"
proof -
  obtain ms0 where ms0: "deframe_all max_packet decode st (noise @ [0]) = (Some [], ms0)"
    using deframe_all_delimiter [of max_packet decode st noise] by (metis prod.collapse)
  have "deframe_all max_packet decode st ((noise @ [0]) @ concat (map (\<lambda>m. wire m @ [0]) ms)) = (Some [], ms0 @ ms)"
    by (simp only: deframe_all_append [of _ _ _ "noise @ [0]"] ms0 Let_def prod.case deframe_stream [OF assms])
  then show ?thesis using ms0 by simp
qed

end

section \<open>The HMPY packets are such a framing\<close>

definition no_frame :: hmpy_frame where
  "no_frame = mk_frame 0 0 0 []"

definition hmpy_unpack :: "u8 list \<Rightarrow> hmpy_frame option" where
  "hmpy_unpack xs = (case uncobs xs of None \<Rightarrow> None
     | Some raw \<Rightarrow>
         (case hmpy_frame_decode_raw (Ptr raw) (Some no_frame) of
            (status, frame) \<Rightarrow> if status = HMPY_CODEC_OK then frame else None))"

definition valid_frame :: "hmpy_frame \<Rightarrow> bool" where
  "valid_frame m = (hmpy_valid (frame_type m) (frame_flags m) (frame_request_id m) (frame_payload m) \<and>
     frame_payload_length m = of_nat (length (frame_payload m)))"

definition frame_wire :: "hmpy_frame \<Rightarrow> u8 list" where
  "frame_wire m = hmpy_wire (frame_type m) (frame_flags m) (frame_request_id m) (frame_payload m)"

lemma valid_frame_mk: "valid_frame m \<longleftrightarrow> (\<exists>t f r p. hmpy_valid t f r p \<and> m = mk_frame t f r p)"
proof
  assume v: "valid_frame m"
  show "\<exists>t f r p. hmpy_valid t f r p \<and> m = mk_frame t f r p"
    using v by (intro exI [of _ "frame_type m"] exI [of _ "frame_flags m"] exI [of _ "frame_request_id m"]
        exI [of _ "frame_payload m"]) (auto simp: valid_frame_def mk_frame_def)
qed (auto simp: valid_frame_def mk_frame_def)

lemma hmpy_unpack_frame: "hmpy_valid t f r p \<Longrightarrow> hmpy_unpack (hmpy_wire t f r p) = Some (mk_frame t f r p)"
  using uncobs_cobs [of "[]" "hmpy_raw t f r p"]
  by (simp add: hmpy_unpack_def hmpy_wire_def hmpy_frame_decode_raw_valid)

lemma hmpy_unpack_Some:
  assumes "hmpy_unpack xs = Some m"
  shows "\<exists>t f r p. hmpy_valid t f r p \<and> uncobs xs = Some (hmpy_raw t f r p) \<and> m = mk_frame t f r p"
proof -
  from assms obtain raw where raw: "uncobs xs = Some raw"
    and "hmpy_frame_decode_raw (Ptr raw) (Some no_frame) = (HMPY_CODEC_OK, Some m)"
    by (auto simp: hmpy_unpack_def split: option.splits prod.splits if_splits)
  from hmpy_frame_decode_raw_OK [OF this(2)] raw show ?thesis by auto
qed

interpretation hmpyf: packet_framing HMPY_MAX_ENCODED_PACKET hmpy_unpack frame_wire valid_frame
proof
  show "valid_frame m \<Longrightarrow> 0 \<notin> set (frame_wire m)" for m
    by (simp add: frame_wire_def hmpy_wire_no_zero)
  show "valid_frame m \<Longrightarrow> frame_wire m \<noteq> []" for m
    by (simp add: frame_wire_def hmpy_wire_def)
  show "valid_frame m \<Longrightarrow> length (frame_wire m) \<le> HMPY_MAX_ENCODED_PACKET" for m
    unfolding frame_wire_def by (rule length_hmpy_wire) (simp add: valid_frame_def)
  show "valid_frame m \<Longrightarrow> hmpy_unpack (frame_wire m) = Some m" for m
    by (auto simp: valid_frame_mk frame_wire_def mk_frame_def hmpy_unpack_frame)
qed

text \<open>The packet decoder computes \<open>hmpy_unpack\<close>, whatever the buffer and the frame held before.\<close>

lemma hmpy_frame_decode_packet_unpack:
  assumes "0 \<notin> set xs" and "xs \<noteq> []" and "length xs \<le> HMPY_MAX_ENCODED_PACKET"
    and len: "length buf = HMPY_MAX_RAW_FRAME"
    and run: "hmpy_frame_decode_packet (Ptr xs) (Ptr buf) (Some fr) = (st, buf', fr')"
  shows "length buf' = HMPY_MAX_RAW_FRAME \<and> st \<noteq> HMPY_CODEC_INCOMPLETE \<and> st \<noteq> HMPY_CODEC_FRAME_READY \<and>
    (case hmpy_unpack xs of None \<Rightarrow> st \<noteq> HMPY_CODEC_OK \<and> fr' = Some fr
     | Some m \<Rightarrow> st = HMPY_CODEC_OK \<and> fr' = Some m)"
proof -
  obtain s b n where dec: "hmpy_cobs_decode (Ptr xs) (Ptr buf) (length buf) (Some 0) = (s, b, n)"
    by (metis prod_cases3)
  have s: "s \<in> {HMPY_CODEC_OK, HMPY_CODEC_ERROR_COBS_MALFORMED, HMPY_CODEC_ERROR_OUTPUT_TOO_SMALL}"
    using hmpy_cobs_decode_status [of xs buf "length buf" 0] dec by simp
  have b: "length b = HMPY_MAX_RAW_FRAME" using hmpy_cobs_decode_frame [OF _ dec] len by simp
  have pk: "(if s = HMPY_CODEC_ERROR_OUTPUT_TOO_SMALL then (HMPY_CODEC_ERROR_ENCODED_TOO_LARGE, b, Some fr)
      else if s \<noteq> HMPY_CODEC_OK then (s, b, Some fr)
      else if the n > HMPY_MAX_RAW_FRAME then (HMPY_CODEC_ERROR_ENCODED_TOO_LARGE, b, Some fr)
      else let (st, f) = hmpy_frame_decode_raw (Ptr (take (the n) b)) (Some fr) in (st, b, f)) = (st, buf', fr')"
    using run dec assms(3) len by (simp add: hmpy_frame_decode_packet_def not_less Let_def)
  show ?thesis
  proof (cases "s = HMPY_CODEC_OK")
    case False
    then have "hmpy_unpack xs = None"
    proof (rule_tac ccontr)
      assume "hmpy_unpack xs \<noteq> None"
      then obtain m where "hmpy_unpack xs = Some m" by blast
      from hmpy_unpack_Some [OF this] obtain t f r p
        where v: "hmpy_valid t f r p" and u: "uncobs xs = Some (hmpy_raw t f r p)" by blast
      then have "length (hmpy_raw t f r p) \<le> length buf"
        using len by (simp add: hmpy_valid_def hmpy_sizes)
      from hmpy_cobs_decode_eq [OF u assms(2,1) this order_refl, of 0] dec False show False by simp
    qed
    then show ?thesis using pk False s b by (auto split: if_splits)
  next
    case True
    from hmpy_cobs_decode_OK [OF dec [unfolded True] order_refl] obtain ys
      where ys: "uncobs xs = Some ys" "length ys \<le> length buf" "n = Some (length ys)" "b = mem_write 0 ys buf"
      by blast
    have tk: "take (length ys) b = ys" using ys by (simp add: mem_write_def)
    obtain s2 f2 where raw: "hmpy_frame_decode_raw (Ptr ys) (Some fr) = (s2, f2)" by (metis prod.collapse)
    have st: "st = s2" "buf' = b" "fr' = f2"
      using pk True ys(2,3) tk len raw by (simp_all add: not_less)
    have nf: "hmpy_frame_decode_raw (Ptr ys) (Some no_frame) = (s2, if s2 = HMPY_CODEC_OK then f2 else Some no_frame)"
      using raw by (auto simp: hmpy_frame_decode_raw_def Let_def split: if_splits)
    have env: "hmpy_validate_envelope t f r \<noteq> HMPY_CODEC_INCOMPLETE"
      "hmpy_validate_envelope t f r \<noteq> HMPY_CODEC_FRAME_READY" for t f r
      by (simp_all add: hmpy_validate_envelope_def)
    have s2: "s2 \<noteq> HMPY_CODEC_INCOMPLETE" "s2 \<noteq> HMPY_CODEC_FRAME_READY" "s2 \<noteq> HMPY_CODEC_OK \<longrightarrow> f2 = Some fr"
      using raw env by (auto simp: hmpy_frame_decode_raw_def Let_def split: if_splits)
    have "s2 = HMPY_CODEC_OK \<Longrightarrow> \<exists>m. f2 = Some m"
      using hmpy_frame_decode_raw_OK [of ys fr f2] raw by auto
    then show ?thesis using s2 b nf by (auto simp: st hmpy_unpack_def ys(1))
  qed
qed

section \<open>The decoder simulates the framing\<close>

definition stream_wf :: "hmpy_stream_decoder \<Rightarrow> bool" where
  "stream_wf d = (length (dec_encoded d) = HMPY_MAX_ENCODED_PACKET \<and> length (dec_raw d) = HMPY_MAX_RAW_FRAME \<and>
     dec_encoded_length d \<le> HMPY_MAX_ENCODED_PACKET \<and>
     0 \<notin> set (take (dec_encoded_length d) (dec_encoded d)))"

definition stream_abs :: "hmpy_stream_decoder \<Rightarrow> u8 list option" where
  "stream_abs d = (if dec_discarding d then None else Some (take (dec_encoded_length d) (dec_encoded d)))"

text \<open>What a status means: nothing yet, a frame, or an error that is counted.\<close>

definition feed_event ::
  "hmpy_stream_decoder \<Rightarrow> hmpy_codec_status \<Rightarrow> hmpy_stream_decoder \<Rightarrow> hmpy_frame \<Rightarrow> hmpy_frame frame_event" where
  "feed_event d status d' frame =
     (if status = HMPY_CODEC_INCOMPLETE then Quiet
      else if status = HMPY_CODEC_FRAME_READY then Delivered frame else Rejected)"

lemma stream_feed_simulates:
  assumes "stream_wf d" and "stream_feed d byte fr = (status, d', fr')"
  shows "stream_wf d' \<and>
    deframe HMPY_MAX_ENCODED_PACKET hmpy_unpack (stream_abs d) byte = (stream_abs d', feed_event d status d' fr') \<and>
    dec_error_count d' = dec_error_count d + (if feed_event d status d' fr' = Rejected then 1 else 0) \<and>
    (status \<noteq> HMPY_CODEC_FRAME_READY \<longrightarrow> fr' = fr)"
proof (cases "byte \<noteq> 0")
  case True
  have len: "length (dec_encoded d) = HMPY_MAX_ENCODED_PACKET" using assms(1) by (simp add: stream_wf_def)
  have app: "take (Suc k) ((dec_encoded d)[k := byte]) = take k (dec_encoded d) @ [byte]"
    if "k < HMPY_MAX_ENCODED_PACKET" for k
    using that len by (simp add: take_Suc_conv_app_nth)
  show ?thesis
    using assms True len
    by (auto simp: stream_feed_def stream_wf_def stream_abs_def deframe_def feed_event_def app not_le
        split: if_splits)
next
  case zero: False
  show ?thesis
  proof (cases "dec_discarding d \<or> dec_encoded_length d = 0")
    case True
    then show ?thesis
      using assms zero
      by (auto simp: stream_feed_def stream_wf_def stream_abs_def deframe_def feed_event_def
          hmpy_stream_error_def split: if_splits)
  next
    case False
    let ?xs = "take (dec_encoded_length d) (dec_encoded d)"
    have xs: "0 \<notin> set ?xs" "?xs \<noteq> []" "length ?xs \<le> HMPY_MAX_ENCODED_PACKET"
      "length (dec_raw d) = HMPY_MAX_RAW_FRAME"
      using assms(1) False by (auto simp: stream_wf_def simp flip: length_greater_0_conv)
    obtain st buf' f' where dec: "hmpy_frame_decode_packet (Ptr ?xs) (Ptr (dec_raw d)) (Some fr) = (st, buf', f')"
      by (metis prod_cases3)
    note spec = hmpy_frame_decode_packet_unpack [OF xs(1-4) dec]
    have run: "stream_feed d byte fr = (if st \<noteq> HMPY_CODEC_OK
        then (st, d\<lparr>dec_raw := buf', dec_encoded_length := 0, dec_last_error := st,
            dec_error_count := dec_error_count d + 1\<rparr>, the f')
        else (HMPY_CODEC_FRAME_READY, d\<lparr>dec_raw := buf', dec_encoded_length := 0,
            dec_last_error := HMPY_CODEC_OK\<rparr>, the f'))"
      using zero False dec by (simp add: stream_feed_def hmpy_stream_error_def)
    show ?thesis
      using assms(2) spec zero False assms(1) xs(2) unfolding run
      by (cases "hmpy_unpack ?xs")
        (auto simp: stream_wf_def stream_abs_def deframe_def feed_event_def split: if_splits)
  qed
qed

lemma stream_feed_all_deframe:
  "stream_wf d \<Longrightarrow> stream_feed_all d fr bytes = (d', frames) \<Longrightarrow>
    stream_wf d' \<and> deframe_all HMPY_MAX_ENCODED_PACKET hmpy_unpack (stream_abs d) bytes = (stream_abs d', frames)"
proof (induction bytes arbitrary: d fr d' frames)
  case (Cons b bytes)
  obtain st d1 fr1 where f: "stream_feed d b fr = (st, d1, fr1)" by (metis prod_cases3)
  obtain d2 fs where r: "stream_feed_all d1 fr1 bytes = (d2, fs)" by (metis prod.collapse)
  from stream_feed_simulates [OF Cons.prems(1) f] Cons.IH [OF _ r] Cons.prems(2) f r
  show ?case by (auto simp: feed_event_def Let_def split: if_splits)
qed simp

section \<open>Properties\<close>

text \<open>C20. Each fed byte is one step of the abstract delimiter framing: the decoder's buffer stays in bounds and
  free of delimiters, it reports ready exactly when the framing delivers a frame, with that frame, and it
  counts exactly the rejected packets; nothing else touches the caller's frame. Of the error statuses it says only that they are errors.\<close>

theorem stream_decoder_refines_framing:
  assumes "stream_wf d"
    and "hmpy_stream_decoder_feed (Some d) byte (Some fr) = (status, Some d', Some fr')"
  shows "stream_wf d' \<and>
    (\<exists>ev. deframe HMPY_MAX_ENCODED_PACKET hmpy_unpack (stream_abs d) byte = (stream_abs d', ev) \<and>
      (status = HMPY_CODEC_FRAME_READY \<longleftrightarrow> ev = Delivered fr') \<and>
      (status = HMPY_CODEC_INCOMPLETE \<longleftrightarrow> ev = Quiet) \<and>
      dec_error_count d' = dec_error_count d + (if ev = Rejected then 1 else 0)) \<and>
    (status \<noteq> HMPY_CODEC_FRAME_READY \<longrightarrow> fr' = fr)"
proof -
  have f: "stream_feed d byte fr = (status, d', fr')"
    using assms(2) by (simp add: hmpy_stream_decoder_feed_def split: prod.splits)
  from stream_feed_simulates [OF assms(1) f] show ?thesis
    by (auto simp: feed_event_def split: if_splits)
qed

lemma stream_decoder_refines_framing_witness:
  "\<exists>d status d'. hmpy_stream_decoder_feed (Some d) 7 (Some no_frame) = (status, Some d', Some no_frame) \<and>
    stream_wf d' \<and> status = HMPY_CODEC_INCOMPLETE"
proof -
  let ?d = "\<lparr>dec_encoded = replicate HMPY_MAX_ENCODED_PACKET 0, dec_raw = replicate HMPY_MAX_RAW_FRAME 0,
    dec_encoded_length = 0, dec_error_count = 0, dec_last_error = HMPY_CODEC_OK, dec_discarding = False\<rparr>"
  have wf: "stream_wf ?d" by (simp add: stream_wf_def)
  have run: "hmpy_stream_decoder_feed (Some ?d) 7 (Some no_frame) =
      (HMPY_CODEC_INCOMPLETE, Some (?d\<lparr>dec_encoded := (replicate HMPY_MAX_ENCODED_PACKET 0)[0 := 7],
        dec_encoded_length := 1\<rparr>), Some no_frame)"
    by (simp add: hmpy_stream_decoder_feed_def stream_feed_def hmpy_sizes)
  from stream_decoder_refines_framing [OF wf run] run show ?thesis by blast
qed

text \<open>C6. Resynchronisation: from any state, after arbitrary noise and one delimiter, the decoder delivers every
  frame of an encoded sequence, in order, with nothing lost or invented among them.\<close>

theorem stream_decoder_resynchronises:
  assumes "stream_wf d" and "\<forall>m \<in> set ms. valid_frame m"
  shows "\<exists>d' before. stream_feed_all d fr (noise @ [0] @ concat (map (\<lambda>m. frame_wire m @ [0]) ms)) =
      (d', before @ ms) \<and> snd (stream_feed_all d fr (noise @ [0])) = before \<and>
    stream_wf d' \<and> stream_abs d' = Some []"
proof -
  let ?all = "noise @ [0] @ concat (map (\<lambda>m. frame_wire m @ [0]) ms)"
  obtain d1 f1 where r1: "stream_feed_all d fr ?all = (d1, f1)" by (metis prod.collapse)
  obtain d2 f2 where r2: "stream_feed_all d fr (noise @ [0]) = (d2, f2)" by (metis prod.collapse)
  from hmpyf.deframe_resync [OF assms(2), of "stream_abs d" noise]
    stream_feed_all_deframe [OF assms(1) r1] stream_feed_all_deframe [OF assms(1) r2]
  have "f1 = f2 @ ms" "stream_wf d1" "stream_abs d1 = Some []" by auto
  then show ?thesis using r1 r2 by auto
qed

lemma stream_decoder_resynchronises_witness:
  "\<exists>d d' before. stream_feed_all d no_frame ([1, 2] @ [0] @ frame_wire (mk_frame 0x40 0 7 [0]) @ [0]) =
      (d', before @ [mk_frame 0x40 0 7 [0]])"
proof -
  let ?d = "\<lparr>dec_encoded = replicate HMPY_MAX_ENCODED_PACKET 0, dec_raw = replicate HMPY_MAX_RAW_FRAME 0,
    dec_encoded_length = 0, dec_error_count = 0, dec_last_error = HMPY_CODEC_OK, dec_discarding = False\<rparr>"
  have wf: "stream_wf ?d" by (simp add: stream_wf_def)
  have "hmpy_validate_envelope 0x40 0 7 = HMPY_CODEC_OK" by code_simp
  then have "\<forall>m \<in> set [mk_frame 0x40 0 7 [0]]. valid_frame m"
    by (auto simp: valid_frame_def mk_frame_def hmpy_valid_def hmpy_sizes)
  from stream_decoder_resynchronises [OF wf this, of no_frame "[1, 2]"]
  show ?thesis by (simp only: list.map concat.simps append_Nil2 append_assoc) blast
qed

end
