(* ===== verification/Ext_Link.thy ===== *)
theory Ext_Link
  imports Hk_Binary
begin

text \<open>
  \<open>firmware/src/services/external_link_protocol.c\<close>: the HK link frames (\<open>'H' 'K'\<close>, version, type,
  sequence, length, payload, CRC-16) that the camera exchanges with a host controller, and the
  byte-wise stream parser. A frame is at most 170 bytes. The parser's buffer is a list that is
  updated in place; a decoded payload pointer is the payload's bytes.
\<close>

section \<open>The code\<close>

definition HK_LINK_PROTOCOL_VERSION :: u8 where "HK_LINK_PROTOCOL_VERSION = 1"
definition HK_LINK_MAX_PAYLOAD :: nat where "HK_LINK_MAX_PAYLOAD = 160"
definition HK_LINK_FRAME_OVERHEAD :: nat where "HK_LINK_FRAME_OVERHEAD = 10"
definition HK_LINK_MAX_FRAME :: nat where
  "HK_LINK_MAX_FRAME = HK_LINK_MAX_PAYLOAD + HK_LINK_FRAME_OVERHEAD"

lemmas link_sizes = HK_LINK_MAX_PAYLOAD_def HK_LINK_FRAME_OVERHEAD_def HK_LINK_MAX_FRAME_def

record hk_link_message =
  link_type :: u8
  link_sequence :: u16
  link_payload_length :: u16
  link_payload :: "u8 list"

record hk_link_stream_parser =
  parser_data :: "u8 list"
  parser_length :: nat

definition link_read_u16 :: "u8 list \<Rightarrow> nat \<Rightarrow> u16" where
  "link_read_u16 data off = ucast (data ! off) OR push_bit 8 (ucast (data ! (off + 1)))"

definition link_write_u16 :: "u8 list \<Rightarrow> nat \<Rightarrow> u16 \<Rightarrow> u8 list" where
  "link_write_u16 data off value = data[off := ucast value, off + 1 := ucast (drop_bit 8 value)]"

definition crc16_bit :: "u16 \<Rightarrow> u16" where
  "crc16_bit crc = (if crc AND 0x8000 \<noteq> 0 then push_bit 1 crc XOR 0x1021 else push_bit 1 crc)"

definition crc16_byte :: "u16 \<Rightarrow> u8 \<Rightarrow> u16" where
  "crc16_byte crc b = (crc16_bit ^^ 8) (crc XOR push_bit 8 (ucast b))"

definition hk_link_crc16 :: "u8 list \<Rightarrow> u16" where
  "hk_link_crc16 data = foldl crc16_byte 0xFFFF data"

definition hk_link_frame_encode :: "u8 \<Rightarrow> u16 \<Rightarrow> u8 cptr \<Rightarrow> u8 cptr \<Rightarrow> nat \<times> u8 list" where
  "hk_link_frame_encode type sequence payload outp =
     (let len = plen payload + HK_LINK_FRAME_OVERHEAD in
      if is_null outp \<or> plen payload > HK_LINK_MAX_PAYLOAD \<or> plen outp < len \<or>
         (plen payload \<noteq> 0 \<and> is_null payload) then (0, pdata outp)
      else
        let out = pdata outp;
            out = out[0 := 0x48, 1 := 0x4B, 2 := HK_LINK_PROTOCOL_VERSION, 3 := type];
            out = link_write_u16 out 4 sequence;
            out = link_write_u16 out 6 (of_nat (plen payload));
            out = (if plen payload \<noteq> 0 then mem_write 8 (pdata payload) out else out);
            crc = hk_link_crc16 (slice 2 (plen payload + 6) out);
            out = link_write_u16 out (8 + plen payload) crc
        in (len, out))"

definition hk_link_frame_decode :: "u8 cptr \<Rightarrow> hk_link_message option \<Rightarrow> bool \<times> hk_link_message option" where
  "hk_link_frame_decode framep message =
     (let frame = pdata framep; len = plen framep in
      if is_null framep \<or> message = None \<or> len < HK_LINK_FRAME_OVERHEAD \<or>
         frame ! 0 \<noteq> 0x48 \<or> frame ! 1 \<noteq> 0x4B \<or> frame ! 2 \<noteq> HK_LINK_PROTOCOL_VERSION then (False, message)
      else
        let payload_length = link_read_u16 frame 6 in
        if unat payload_length > HK_LINK_MAX_PAYLOAD \<or> len \<noteq> unat payload_length + HK_LINK_FRAME_OVERHEAD then
          (False, message)
        else if link_read_u16 frame (8 + unat payload_length) \<noteq>
                hk_link_crc16 (slice 2 (unat payload_length + 6) frame) then (False, message)
        else (True, Some \<lparr>link_type = frame ! 3, link_sequence = link_read_u16 frame 4,
                link_payload_length = payload_length, link_payload = slice 8 (unat payload_length) frame\<rparr>))"

definition hk_link_stream_reset :: "hk_link_stream_parser option \<Rightarrow> hk_link_stream_parser option" where
  "hk_link_stream_reset parser = map_option (\<lambda>p. p\<lparr>parser_length := 0\<rparr>) parser"

text \<open>The body of \<open>hk_link_stream_feed\<close>, for a parser and a message that are not NULL.\<close>

definition link_feed ::
  "hk_link_stream_parser \<Rightarrow> u8 \<Rightarrow> hk_link_message \<Rightarrow> bool \<times> hk_link_stream_parser \<times> hk_link_message" where
  "link_feed parser byte message =
     (if parser_length parser = 0 \<and> byte \<noteq> 0x48 then (False, parser, message)
      else if parser_length parser = 1 \<and> byte \<noteq> 0x4B then
        (False, parser\<lparr>parser_data := (parser_data parser)[0 := byte],
                       parser_length := (if byte = 0x48 then 1 else 0)\<rparr>, message)
      else
        let parser = (if parser_length parser \<ge> HK_LINK_MAX_FRAME then parser\<lparr>parser_length := 0\<rparr> else parser);
            parser = parser\<lparr>parser_data := (parser_data parser)[parser_length parser := byte],
                            parser_length := parser_length parser + 1\<rparr>
        in if parser_length parser < 8 then (False, parser, message)
           else
             let expected = link_read_u16 (parser_data parser) 6 + of_nat HK_LINK_FRAME_OVERHEAD in
             if unat expected > HK_LINK_MAX_FRAME then (False, parser\<lparr>parser_length := 0\<rparr>, message)
             else if parser_length parser < unat expected then (False, parser, message)
             else
               let (ok, message') = (if parser_length parser = unat expected
                      then hk_link_frame_decode (Ptr (take (unat expected) (parser_data parser))) (Some message)
                      else (False, Some message))
               in (ok, parser\<lparr>parser_length := 0\<rparr>, the message'))"

definition hk_link_stream_feed ::
  "hk_link_stream_parser option \<Rightarrow> u8 \<Rightarrow> hk_link_message option \<Rightarrow>
     bool \<times> hk_link_stream_parser option \<times> hk_link_message option" where
  "hk_link_stream_feed parser byte message =
     (case (parser, message) of
        (Some p, Some m) \<Rightarrow> let (r, p, m) = link_feed p byte m in (r, Some p, Some m)
      | _ \<Rightarrow> (False, parser, message))"

lemma link_fields [simp]: "link_read_u16 = rd16" "link_write_u16 = wr16"
  by (intro ext, simp add: link_read_u16_def rd16_def link_write_u16_def wr16_def)+

section \<open>CRC-16 is a byte register\<close>

lemma crc16_bit_cond: "crc16_bit crc = (if bit crc 15 then push_bit 1 crc XOR 0x1021 else push_bit 1 crc)"
proof -
  have "crc AND 0x8000 \<noteq> 0 \<longleftrightarrow> bit crc 15"
    using and_exp_eq_0_iff_not_bit [of crc 15] by simp
  then show ?thesis by (simp add: crc16_bit_def)
qed

lemma crc16_bit_inj: "crc16_bit a = crc16_bit b \<Longrightarrow> a = b"
proof -
  assume eq: "crc16_bit a = crc16_bit b"
  have low: "bit (crc16_bit c) 0 \<longleftrightarrow> bit c 15" for c
    by (simp add: crc16_bit_cond bit_xor_iff bit_push_bit_iff del: push_bit_Suc)
  with eq have top: "bit a 15 \<longleftrightarrow> bit b 15" by metis
  with eq have sh: "push_bit 1 a = push_bit 1 b" by (auto simp: crc16_bit_cond split: if_splits)
  show "a = b"
  proof (rule bit_word_eqI)
    fix n assume n: "n < LENGTH(16)"
    show "bit a n = bit b n"
    proof (cases "n = 15")
      case False
      then have "bit (push_bit 1 c) (Suc n) = bit c n" for c :: u16
        using n by (simp only: bit_push_bit_iff) simp
      then show ?thesis using sh by metis
    qed (use top in simp)
  qed
qed

lemma crc16_bits_inj: "(crc16_bit ^^ n) a = (crc16_bit ^^ n) b \<Longrightarrow> a = b"
  by (induction n) (auto dest: crc16_bit_inj)

interpretation crc16r: byte_register crc16_byte
proof
  show "crc16_byte s b = crc16_byte s' b \<Longrightarrow> s = s'" for s s' b
    unfolding crc16_byte_def by (drule crc16_bits_inj) simp
  show "crc16_byte s b = crc16_byte s b' \<Longrightarrow> b = b'" for s b b'
  proof -
    assume "crc16_byte s b = crc16_byte s b'"
    then have "push_bit 8 (ucast b) = (push_bit 8 (ucast b') :: u16)"
      unfolding crc16_byte_def by (drule_tac crc16_bits_inj) simp
    then have eq: "bit (push_bit 8 (ucast b) :: u16) k = bit (push_bit 8 (ucast b') :: u16) k" for k by simp
    show "b = b'"
    proof (rule bit_word_eqI)
      fix n assume "n < LENGTH(8)"
      then show "bit b n = bit b' n" using eq [of "n + 8"] by (auto simp: bit_simps)
    qed
  qed
qed

section \<open>The frame format\<close>

definition link_body :: "u8 \<Rightarrow> u16 \<Rightarrow> u8 list \<Rightarrow> u8 list" where
  "link_body t s p = [HK_LINK_PROTOCOL_VERSION, t] @ le16 s @ le16 (of_nat (length p)) @ p"

definition link_frame :: "u8 \<Rightarrow> u16 \<Rightarrow> u8 list \<Rightarrow> u8 list" where
  "link_frame t s p = [0x48, 0x4B] @ link_body t s p @ le16 (hk_link_crc16 (link_body t s p))"

definition mk_message :: "u8 \<Rightarrow> u16 \<Rightarrow> u8 list \<Rightarrow> hk_link_message" where
  "mk_message t s p = \<lparr>link_type = t, link_sequence = s, link_payload_length = of_nat (length p), link_payload = p\<rparr>"

lemma length_link_body [simp]: "length (link_body t s p) = 6 + length p"
  by (simp add: link_body_def)

lemma length_link_frame [simp]: "length (link_frame t s p) = 10 + length p"
  by (simp add: link_frame_def)

lemma unat_link_length: "length p \<le> 160 \<Longrightarrow> unat (of_nat (length p) :: u16) = length p"
  by (rule unat_of_nat_lt) simp

lemma rd16_at': "length xs = n \<Longrightarrow> rd16 (xs @ le16 v @ ys) n = v"
  using f16.get_bytes_append [of xs v ys] by simp

lemma link_frame_fields:
  fixes t :: u8 and s :: u16 and p :: "u8 list"
  defines "frame \<equiv> link_frame t s p"
  shows "frame ! 0 = 0x48" "frame ! 1 = 0x4B" "frame ! 2 = HK_LINK_PROTOCOL_VERSION" "frame ! 3 = t"
    "rd16 frame 4 = s" "rd16 frame 6 = of_nat (length p)" "slice 8 (length p) frame = p"
    "slice 2 (length p + 6) frame = link_body t s p"
    "rd16 frame (8 + length p) = hk_link_crc16 (link_body t s p)"
proof -
  let ?crc = "le16 (hk_link_crc16 (link_body t s p))"
  have f: "frame = [0x48, 0x4B, HK_LINK_PROTOCOL_VERSION, t] @ le16 s @ le16 (of_nat (length p)) @ p @ ?crc"
    by (simp add: frame_def link_frame_def link_body_def)
  show "frame ! 0 = 0x48" "frame ! 1 = 0x4B" "frame ! 2 = HK_LINK_PROTOCOL_VERSION" "frame ! 3 = t"
    by (simp_all add: f)
  show "rd16 frame 4 = s" unfolding f by (rule rd16_at') simp
  show "rd16 frame 6 = of_nat (length p)"
    using rd16_at' [of "[0x48, 0x4B, HK_LINK_PROTOCOL_VERSION, t] @ le16 s" 6 "of_nat (length p)"]
    by (simp only: f append_assoc) simp
  have "frame = ([0x48, 0x4B, HK_LINK_PROTOCOL_VERSION, t] @ le16 s @ le16 (of_nat (length p))) @ p @ ?crc"
    by (simp add: f)
  then show "slice 8 (length p) frame = p"
    by (simp only: slice_append_right length_append length_le16 list.size) (simp add: slice_def)
  show "slice 2 (length p + 6) frame = link_body t s p"
    by (simp add: frame_def link_frame_def slice_append_right slice_append_left slice_def)
  show "rd16 frame (8 + length p) = hk_link_crc16 (link_body t s p)"
    using rd16_at' [of "[0x48, 0x4B] @ link_body t s p" "8 + length p" _ "[]"]
    by (simp add: frame_def link_frame_def)
qed

lemma link_decode_frame:
  "length p \<le> HK_LINK_MAX_PAYLOAD \<Longrightarrow>
    hk_link_frame_decode (Ptr (link_frame t s p)) (Some m) = (True, Some (mk_message t s p))"
  by (simp add: hk_link_frame_decode_def link_sizes Let_def link_frame_fields
      link_frame_fields(2) [unfolded One_nat_def] unat_link_length mk_message_def)

lemma link_decode_True:
  assumes "hk_link_frame_decode (Ptr frame) (Some m) = (True, m')"
  shows "\<exists>t s p. length p \<le> HK_LINK_MAX_PAYLOAD \<and> frame = link_frame t s p \<and> m' = Some (mk_message t s p)"
proof -
  let ?n = "unat (rd16 frame 6)" and ?t = "frame ! 3" and ?s = "rd16 frame 4"
  let ?p = "slice 8 ?n frame"
  from assms have hd: "frame ! 0 = 0x48" "frame ! 1 = 0x4B" "frame ! 2 = HK_LINK_PROTOCOL_VERSION"
    and n: "?n \<le> 160" and len: "length frame = 10 + ?n"
    and crc: "rd16 frame (8 + ?n) = hk_link_crc16 (slice 2 (?n + 6) frame)"
    by (auto simp: hk_link_frame_decode_def link_sizes Let_def not_less split: if_splits)
  have pl: "length ?p = ?n" using len by simp
  have t4: "take 4 frame = [0x48, 0x4B, HK_LINK_PROTOCOL_VERSION, ?t]"
    using hd len by (intro nth_equalityI) (auto simp: less_Suc_eq numeral_eq_Suc)
  have "frame = take 4 frame @ slice 4 2 frame @ slice 6 2 frame @ ?p @ slice (8 + ?n) 2 frame"
    using len by (intro nth_equalityI) (auto simp: slice_def nth_append min_def)
  then have fr: "frame = [0x48, 0x4B] @ link_body ?t ?s ?p @ le16 (rd16 frame (8 + ?n))"
    using len by (simp add: t4 link_body_def f16.bytes_get pl)
  have "slice 2 (?n + 6) frame = link_body ?t ?s ?p"
    using arg_cong [OF fr, of "slice 2 (?n + 6)"] len by (simp add: pl slice_def)
  with fr crc have "frame = link_frame ?t ?s ?p" by (simp add: link_frame_def)
  moreover from this assms n have "m' = Some (mk_message ?t ?s ?p)"
    using link_decode_frame [of ?p ?t ?s m] pl by (simp add: link_sizes)
  moreover have "length ?p \<le> HK_LINK_MAX_PAYLOAD" using n pl by (simp add: link_sizes)
  ultimately show ?thesis by blast
qed

lemma link_encode_frame:
  assumes "length p \<le> HK_LINK_MAX_PAYLOAD" and "length p + HK_LINK_FRAME_OVERHEAD \<le> length out"
  shows "hk_link_frame_encode t s (Ptr p) (Ptr out) = (10 + length p, mem_write 0 (link_frame t s p) out)"
proof -
  have l: "length p \<le> 160" "length p + 10 \<le> length out" using assms by (simp_all add: link_sizes)
  define o0 where "o0 = out[0 := 0x48, 1 := 0x4B, 2 := HK_LINK_PROTOCOL_VERSION, 3 := t]"
  have o0: "o0 = mem_write 0 [0x48, 0x4B, HK_LINK_PROTOCOL_VERSION, t] out"
    using l by (intro nth_equalityI) (auto simp: o0_def nth_mem_write nth_list_update nth_Cons')
  have o1: "wr16 (wr16 o0 4 s) 6 (of_nat (length p)) = mem_write 0
      ([0x48, 0x4B, HK_LINK_PROTOCOL_VERSION, t] @ le16 s @ le16 (of_nat (length p))) out"
    using l by (simp add: o0 wr16_mem_write mem_write_append_at)
  define o2 where "o2 = (if length p \<noteq> 0 then mem_write 8 p (wr16 (wr16 o0 4 s) 6 (of_nat (length p)))
    else wr16 (wr16 o0 4 s) 6 (of_nat (length p)))"
  have o2: "o2 = mem_write 0 ([0x48, 0x4B] @ link_body t s p) out"
    using l o1 by (cases "p = []") (simp_all add: o2_def o1 link_body_def mem_write_append_at)
  have body: "slice 2 (length p + 6) o2 = link_body t s p"
    by (simp add: o2 mem_write_def slice_def)
  have o3: "wr16 o2 (8 + length p) (hk_link_crc16 (link_body t s p)) = mem_write 0 (link_frame t s p) out"
    using l mem_write_append [of 0 "[0x48, 0x4B] @ link_body t s p" "le16 (hk_link_crc16 (link_body t s p))" out]
    by (simp add: o2 wr16_mem_write link_frame_def)
  have "hk_link_frame_encode t s (Ptr p) (Ptr out) =
      (length p + 10, wr16 o2 (8 + length p) (hk_link_crc16 (slice 2 (length p + 6) o2)))"
    using l unfolding o2_def o0_def by (simp add: hk_link_frame_encode_def link_sizes Let_def)
  then show ?thesis by (simp add: body o3)
qed

section \<open>The stream parser\<close>

definition parser_wf :: "hk_link_stream_parser \<Rightarrow> bool" where
  "parser_wf p = (length (parser_data p) = HK_LINK_MAX_FRAME \<and> parser_length p < HK_LINK_MAX_FRAME)"

text \<open>What the parser has kept, and that it stems from the bytes fed last.\<close>

definition parser_kept :: "hk_link_stream_parser \<Rightarrow> u8 list" where
  "parser_kept p = take (parser_length p) (parser_data p)"

definition ends_with :: "u8 list \<Rightarrow> u8 list \<Rightarrow> bool" where
  "ends_with history xs = (\<exists>pre. history = pre @ xs)"

lemma ends_with_Nil [simp]: "ends_with h []" by (simp add: ends_with_def)
lemma ends_with_single [simp]: "ends_with (h @ [b]) [b]" by (auto simp: ends_with_def)
lemma ends_with_snoc: "ends_with h xs \<Longrightarrow> ends_with (h @ [b]) (xs @ [b])" by (auto simp: ends_with_def)

lemma link_feed_step:
  assumes wf: "parser_wf p" and run: "link_feed p b m = (r, p', m')"
  shows "parser_wf p' \<and> (parser_kept p' = [] \<or> parser_kept p' = [b] \<or> parser_kept p' = parser_kept p @ [b]) \<and>
    (r \<longrightarrow> parser_length p' = 0 \<and> (\<exists>t s pl. length pl \<le> HK_LINK_MAX_PAYLOAD \<and>
       parser_kept p @ [b] = link_frame t s pl \<and> m' = mk_message t s pl)) \<and> (\<not> r \<longrightarrow> m' = m)"
proof (cases "parser_length p = 0 \<and> b \<noteq> 0x48 \<or> parser_length p = 1 \<and> b \<noteq> 0x4B")
  case True
  have "take (Suc 0) ((parser_data p)[0 := b]) = [b]"
    using wf by (cases "parser_data p") (auto simp: parser_wf_def link_sizes)
  then show ?thesis
    using True wf run by (auto simp: link_feed_def parser_wf_def parser_kept_def link_sizes split: if_splits)
next
  case False
  let ?k = "parser_length p" and ?d = "(parser_data p)[parser_length p := b]"
  let ?e = "unat (rd16 ?d 6 + 10)"
  let ?q = "p\<lparr>parser_data := ?d, parser_length := ?k + 1\<rparr>"
  have k: "?k < 170" "length (parser_data p) = 170" using wf by (auto simp: parser_wf_def link_sizes)
  have kept: "take (Suc ?k) ?d = parser_kept p @ [b]" using k by (simp add: parser_kept_def take_Suc_conv_app_nth)
  have dec: "hk_link_frame_decode (Ptr fr) (Some m) = (True, x) \<Longrightarrow> x = Some (the x)" for fr x
    using link_decode_True by fastforce
  have err: "hk_link_frame_decode (Ptr fr) (Some m) = (False, x) \<Longrightarrow> x = Some m" for fr x
    by (auto simp: hk_link_frame_decode_def Let_def split: if_splits)
  have "link_feed p b m =
    (if Suc ?k < 8 then (False, ?q, m)
     else if ?e > 170 then (False, ?q\<lparr>parser_length := 0\<rparr>, m)
     else if Suc ?k < ?e then (False, ?q, m)
     else if Suc ?k = ?e then
       (fst (hk_link_frame_decode (Ptr (take (Suc ?k) ?d)) (Some m)), ?q\<lparr>parser_length := 0\<rparr>,
        the (snd (hk_link_frame_decode (Ptr (take (Suc ?k) ?d)) (Some m))))
     else (False, ?q\<lparr>parser_length := 0\<rparr>, m))"
    using False k by (auto simp: link_feed_def link_sizes Let_def split: prod.splits)
  then consider
      (wait) "r = False" "p' = ?q" "m' = m" "Suc ?k < 170"
    | (drop) "r = False" "p' = ?q\<lparr>parser_length := 0\<rparr>" "m' = m"
    | (decide) "r = fst (hk_link_frame_decode (Ptr (take (Suc ?k) ?d)) (Some m))" "p' = ?q\<lparr>parser_length := 0\<rparr>"
        "m' = the (snd (hk_link_frame_decode (Ptr (take (Suc ?k) ?d)) (Some m)))"
    using run by (auto split: if_splits)
  then show ?thesis
  proof cases
    case wait
    then show ?thesis using k kept by (auto simp: parser_wf_def parser_kept_def link_sizes)
  next
    case drop
    then show ?thesis using k by (auto simp: parser_wf_def parser_kept_def link_sizes)
  next
    case decide
    define x where "x = snd (hk_link_frame_decode (Ptr (parser_kept p @ [b])) (Some m))"
    have x: "hk_link_frame_decode (Ptr (parser_kept p @ [b])) (Some m) = (r, x)" "m' = the x"
      using decide unfolding kept x_def by simp_all
    show ?thesis
      using decide(2) k x err [of "parser_kept p @ [b]" x] link_decode_True [of "parser_kept p @ [b]" m x]
      by (cases r) (auto simp: parser_wf_def parser_kept_def link_sizes, blast)
  qed
qed

text \<open>Feeding a byte sequence, collecting the messages that were reported.\<close>

fun link_feed_all ::
  "hk_link_stream_parser \<Rightarrow> hk_link_message \<Rightarrow> u8 list \<Rightarrow> hk_link_stream_parser \<times> hk_link_message list" where
  "link_feed_all p m [] = (p, [])"
| "link_feed_all p m (b # bs) =
     (let (r, p, m) = link_feed p b m; (p, ms) = link_feed_all p m bs
      in (p, if r then m # ms else ms))"

lemma link_feed_all_append:
  "link_feed_all p m xs = (p1, ms1) \<Longrightarrow>
    \<exists>m'. link_feed_all p m (xs @ ys) = (let (p2, ms2) = link_feed_all p1 m' ys in (p2, ms1 @ ms2))"
proof (induction xs arbitrary: p m ms1)
  case Nil
  then show ?case by (auto simp: Let_def intro!: exI [of _ m])
next
  case (Cons b xs)
  obtain r p' m' where f: "link_feed p b m = (r, p', m')" by (metis prod_cases3)
  obtain p'' ms where g: "link_feed_all p' m' xs = (p'', ms)" by (metis prod.collapse)
  from Cons.IH [of p' m' ms] g Cons.prems f obtain k where
    "link_feed_all p' m' (xs @ ys) = (let (p2, ms2) = link_feed_all p1 k ys in (p2, ms @ ms2))" by auto
  then show ?case using f g Cons.prems by (intro exI [of _ k]) (auto simp: Let_def split: prod.splits)
qed

text \<open>Every reported message is a complete frame that was just received.\<close>

lemma link_feed_all_wf:
  assumes "parser_wf p" and "ends_with h (parser_kept p)" and "link_feed_all p m bs = (p', ms)"
  shows "parser_wf p' \<and> ends_with (h @ bs) (parser_kept p')"
  using assms
proof (induction bs arbitrary: p m h ms)
  case (Cons b bs)
  obtain r p1 m1 where f: "link_feed p b m = (r, p1, m1)" by (metis prod_cases3)
  obtain ms1 where g: "link_feed_all p1 m1 bs = (p', ms1)"
    using Cons.prems(3) f by (auto split: prod.splits)
  from link_feed_step [OF Cons.prems(1) f] have s: "parser_wf p1"
    "parser_kept p1 = [] \<or> parser_kept p1 = [b] \<or> parser_kept p1 = parser_kept p @ [b]" by blast+
  then have "ends_with (h @ [b]) (parser_kept p1)" using ends_with_snoc [OF Cons.prems(2)] by auto
  from Cons.IH [OF s(1) this g] show ?case by simp
qed simp

text \<open>From an idle parser a whole frame is collected and reported.\<close>

lemma link_feed_collect:
  assumes wf: "parser_wf p" and kept: "parser_kept p = take k (link_frame t s pl)" "parser_length p = k"
    and pl: "length pl \<le> HK_LINK_MAX_PAYLOAD" and k: "k < length (link_frame t s pl)"
  shows "\<exists>r p' m'. link_feed p (link_frame t s pl ! k) m = (r, p', m') \<and> parser_wf p' \<and>
    (if k + 1 < length (link_frame t s pl)
     then \<not> r \<and> m' = m \<and> parser_length p' = k + 1 \<and> parser_kept p' = take (k + 1) (link_frame t s pl)
     else r \<and> m' = mk_message t s pl \<and> parser_length p' = 0)"
proof -
  let ?f = "link_frame t s pl"
  define b where "b = ?f ! k"
  let ?d = "(parser_data p)[k := b]"
  have n: "length pl \<le> 160" "k < 10 + length pl" using pl k by (simp_all add: link_sizes)
  have len: "length (parser_data p) = 170" "k < 170" using wf kept(2) by (auto simp: parser_wf_def link_sizes)
  have d: "take (Suc k) ?d = take (Suc k) ?f"
    using kept len n by (simp add: parser_kept_def take_Suc_conv_app_nth b_def)
  have start: "\<not> (k = 0 \<and> b \<noteq> 0x48)" "\<not> (k = Suc 0 \<and> b \<noteq> 0x4B)"
    using link_frame_fields(1,2) [of t s pl] by (metis b_def, metis b_def One_nat_def)
  have e: "unat (rd16 ?d 6 + 10) = 10 + length pl" if "\<not> Suc k < 8"
  proof -
    have "rd16 ?d 6 = rd16 ?f 6"
    proof (rule f16.get_cong)
      have "slice 6 2 (take (Suc k) ?d) = slice 6 2 (take (Suc k) ?f)" by (simp only: d)
      then show "slice 6 2 ?d = slice 6 2 ?f" using that by (simp add: slice_take)
    qed (use len n in simp_all)
    also have "\<dots> = of_nat (length pl)" by (rule link_frame_fields)
    finally show ?thesis using n by (simp add: unat_word_ariths unat_link_length)
  qed
  have run: "link_feed p b m =
    (if Suc k < 10 + length pl then (False, p\<lparr>parser_data := ?d, parser_length := Suc k\<rparr>, m)
     else (True, p\<lparr>parser_data := ?d, parser_length := 0\<rparr>, mk_message t s pl))"
  proof (cases "Suc k < 8")
    case True
    then show ?thesis using start len n kept(2) by (auto simp: link_feed_def link_sizes Let_def)
  next
    case False
    then have fin: "Suc k = 10 + length pl \<Longrightarrow> hk_link_frame_decode (Ptr (take (Suc k) ?d)) (Some m) =
        (True, Some (mk_message t s pl))"
      unfolding d using link_decode_frame [OF pl, of t s m] by simp
    show ?thesis
    proof (cases "Suc k < 10 + length pl")
      case True
      then show ?thesis using start len n kept(2) False e
        by (simp add: link_feed_def link_sizes Let_def)
    next
      case last: False
      then have "Suc k = 10 + length pl" using n by simp
      then show ?thesis using start len n kept(2) False e fin
        by (simp add: link_feed_def link_sizes Let_def)
    qed
  qed
  show ?thesis
    unfolding b_def [symmetric] run using len n d by (auto simp: parser_wf_def parser_kept_def link_sizes)
qed

lemma link_feed_all_frame:
  assumes "parser_wf p" and "parser_length p = 0" and "length pl \<le> HK_LINK_MAX_PAYLOAD"
  shows "\<exists>p'. link_feed_all p m (link_frame t s pl) = (p', [mk_message t s pl]) \<and>
    parser_wf p' \<and> parser_length p' = 0"
proof -
  let ?f = "link_frame t s pl"
  have "\<exists>p'. link_feed_all p m (drop k ?f) = (p', [mk_message t s pl]) \<and> parser_wf p' \<and> parser_length p' = 0"
    if "k < length ?f" "parser_wf p" "parser_kept p = take k ?f" "parser_length p = k" for k p
    using that
  proof (induction "length ?f - k" arbitrary: k p)
    case (Suc n)
    from link_feed_collect [OF Suc.prems(2,3,4) assms(3) Suc.prems(1), of m] obtain r p' m' where
      f: "link_feed p (?f ! k) m = (r, p', m')" "parser_wf p'"
      "if k + 1 < length ?f then \<not> r \<and> m' = m \<and> parser_length p' = k + 1 \<and> parser_kept p' = take (k + 1) ?f
       else r \<and> m' = mk_message t s pl \<and> parser_length p' = 0" by blast
    have dr: "drop k ?f = ?f ! k # drop (k + 1) ?f" using Suc.prems(1) by (simp add: Cons_nth_drop_Suc)
    show ?case
    proof (cases "k + 1 < length ?f")
      case True
      with f have "\<exists>p''. link_feed_all p' m (drop (k + 1) ?f) = (p'', [mk_message t s pl]) \<and> parser_wf p'' \<and> parser_length p'' = 0"
        using Suc.hyps(2) by (intro Suc.hyps(1)) auto
      then show ?thesis using f True unfolding dr by (auto simp: Let_def)
    next
      case False
      then show ?thesis using f unfolding dr by (auto simp: Let_def)
    qed
  qed simp
  from this [of 0 p] show ?thesis using assms by (simp add: parser_kept_def)
qed

section \<open>Properties\<close>

text \<open>A link frame that is encoded into a large enough buffer is decoded back to its type, sequence number
  and payload, and replacing any single byte of it, header, length field and checksum included, is detected.\<close>

theorem hk_link_roundtrip_and_detection:
  assumes "length payload \<le> HK_LINK_MAX_PAYLOAD" and "length payload + HK_LINK_FRAME_OVERHEAD \<le> length out"
    and "i < length payload + HK_LINK_FRAME_OVERHEAD"
    and "hk_link_frame_encode type sequence (Ptr payload) (Ptr out) = (n, buf)" and "b \<noteq> buf ! i"
  shows "n = length payload + HK_LINK_FRAME_OVERHEAD \<and> drop n buf = drop n out \<and>
    hk_link_frame_decode (Ptr (take n buf)) (Some m) = (True, Some (mk_message type sequence payload)) \<and>
    hk_link_frame_decode (Ptr ((take n buf)[i := b])) (Some m) = (False, Some m)"
proof -
  let ?f = "link_frame type sequence payload" and ?k = "length payload"
  have buf: "n = length ?f" "buf = mem_write 0 ?f out"
    using link_encode_frame [OF assms(1,2)] assms(4) by simp_all
  have tk: "take n buf = ?f" by (simp add: buf mem_write_def)
  have i: "i < length ?f" using assms(3) by (simp add: link_sizes)
  have b: "b \<noteq> ?f ! i" using assms(5) i buf(1) tk by (metis nth_take)
  let ?g = "?f[i := b]"
  have "fst (hk_link_frame_decode (Ptr ?g) (Some m)) \<noteq> True"
  proof
    assume "fst (hk_link_frame_decode (Ptr ?g) (Some m)) = True"
    then obtain m' where "hk_link_frame_decode (Ptr ?g) (Some m) = (True, m')" by (metis prod.collapse)
    from link_decode_True [OF this] obtain t s p where g: "length p \<le> HK_LINK_MAX_PAYLOAD" "?g = link_frame t s p"
      by blast
    have len: "length p = ?k" using arg_cong [OF g(2), of length] by simp
    let ?B = "link_body type sequence payload" and ?B' = "link_body t s p"
    let ?C = "le16 (hk_link_crc16 ?B)" and ?C' = "le16 (hk_link_crc16 ?B')"
    have eq: "([0x48, 0x4B] @ ?B @ ?C)[i := b] = [0x48, 0x4B] @ ?B' @ ?C'"
      using g(2) by (simp only: link_frame_def)
    consider (magic) "i < 2" | (body) "2 \<le> i" "i < 8 + ?k" | (crc) "8 + ?k \<le> i" "i < 10 + ?k"
      using i by fastforce
    then show False
    proof cases
      case magic
      have "?g ! i = b" using i by simp
      moreover have "link_frame t s p ! i = ?f ! i"
        using magic by (auto simp: less_2_cases_iff link_frame_fields link_frame_fields(2) [unfolded One_nat_def])
      ultimately show False using b g(2) by simp
    next
      case body
      have "[0x48, 0x4B] @ (?B[i - 2 := b]) @ ?C = [0x48, 0x4B] @ ?B' @ ?C'"
        using eq body by (simp add: list_update_append numeral_2_eq_2 split: nat.splits)
      then have "?B[i - 2 := b] = ?B'" "?C = ?C'" using len by simp_all
      then have "hk_link_crc16 (?B[i - 2 := b]) = hk_link_crc16 ?B" by (auto dest: f16.bytes_inj)
      moreover have "?B ! (i - 2) = ?f ! i"
        using body by (auto simp: link_frame_def nth_append nth_Cons' numeral_2_eq_2)
      ultimately show False
        using crc16r.feed_substitution [of "i - 2" ?B b "0xFFFF"] b body by (simp add: hk_link_crc16_def)
    next
      case crc
      have upd: "([0x48, 0x4B] @ ?B @ ?C)[i := b] = [0x48, 0x4B] @ ?B @ ?C[i - (8 + ?k) := b]"
        using crc by (simp add: list_update_append numeral_2_eq_2 split: nat.splits)
      have "?B = ?B' \<and> ?C[i - (8 + ?k) := b] = ?C'" 
        using eq unfolding upd by (metis append_eq_append_conv len length_link_body same_append_eq)
      then have "?C[i - (8 + ?k) := b] = ?C" by metis
      moreover have "i - (8 + ?k) < length ?C" using crc by simp
      ultimately have "?C ! (i - (8 + ?k)) = b" by (metis nth_list_update_eq)
      moreover have "?f ! i = ?C ! (i - (8 + ?k))"
        using crc nth_append [of "[0x48, 0x4B] @ ?B" ?C i] by (simp add: link_frame_def)
      ultimately show False using b by simp
    qed
  qed
  then have "hk_link_frame_decode (Ptr ?g) (Some m) = (False, Some m)"
    by (auto simp: hk_link_frame_decode_def Let_def split: if_splits)
  then show ?thesis
    using link_decode_frame [OF assms(1)] by (simp add: tk) (simp add: buf mem_write_def link_sizes)
qed

lemma hk_link_roundtrip_and_detection_witness:
  "\<exists>n buf. hk_link_frame_encode 3 7 (Ptr [1, 2]) (Ptr (replicate 12 0)) = (n, buf) \<and>
    hk_link_frame_decode (Ptr (take n buf)) (Some (mk_message 0 0 [])) = (True, Some (mk_message 3 7 [1, 2])) \<and>
    hk_link_frame_decode (Ptr ((take n buf)[8 := 0x55])) (Some (mk_message 0 0 [])) = (False, Some (mk_message 0 0 []))"
proof -
  have enc: "hk_link_frame_encode 3 7 (Ptr [1, 2]) (Ptr (replicate 12 0)) =
      (12, mem_write 0 (link_frame 3 7 [1, 2]) (replicate 12 0))"
    using link_encode_frame [of "[1, 2]" "replicate 12 0" 3 7] by (simp add: link_sizes)
  have ne: "0x55 \<noteq> mem_write 0 (link_frame 3 7 [1, 2]) (replicate 12 0) ! 8"
    by (simp add: mem_write_def link_frame_def link_body_def le16_def)
  have "length ([1, 2] :: u8 list) \<le> HK_LINK_MAX_PAYLOAD"
    "length ([1, 2] :: u8 list) + HK_LINK_FRAME_OVERHEAD \<le> length (replicate 12 (0 :: u8))"
    "8 < length ([1, 2] :: u8 list) + HK_LINK_FRAME_OVERHEAD" by (simp_all add: link_sizes)
  from hk_link_roundtrip_and_detection [OF this enc ne, of "mk_message 0 0 []"] enc show ?thesis by blast
qed

text \<open>C15. Whatever bytes arrive, the parser's length stays below its buffer size, and a message is reported only
  when the bytes received last are exactly the frame of that message; after any history a parser that is
  idle then delivers every frame of a back-to-back sequence, in order.\<close>

theorem hk_link_stream_sound_and_complete:
  assumes "parser_wf p" and "parser_length p = 0"
    and "link_feed_all p m0 history = (p1, ms)"
    and "hk_link_stream_feed (Some p1) b (Some m1) = (r, Some p2, Some m2)"
  shows "parser_wf p1 \<and> parser_wf p2 \<and>
    (r \<longrightarrow> parser_length p2 = 0 \<and> (\<exists>t s pl pre. length pl \<le> HK_LINK_MAX_PAYLOAD \<and> m2 = mk_message t s pl \<and>
       history @ [b] = pre @ link_frame t s pl)) \<and>
    (\<not> r \<longrightarrow> m2 = m1) \<and>
    (parser_length p1 = 0 \<longrightarrow>
      (\<forall>fs. (\<forall>(t, s, pl) \<in> set fs. length pl \<le> HK_LINK_MAX_PAYLOAD) \<longrightarrow>
         snd (link_feed_all p1 m1 (concat (map (\<lambda>(t, s, pl). link_frame t s pl) fs))) =
         map (\<lambda>(t, s, pl). mk_message t s pl) fs))"
proof -
  have "ends_with [] (parser_kept p)" using assms(2) by (simp add: parser_kept_def)
  from link_feed_all_wf [OF assms(1) this assms(3)]
  have wf1: "parser_wf p1" and hist: "ends_with history (parser_kept p1)" by simp_all
  have f: "link_feed p1 b m1 = (r, p2, m2)"
    using assms(4) by (simp add: hk_link_stream_feed_def split: prod.splits)
  from link_feed_step [OF wf1 f] hist have sound: "parser_wf p2"
    "r \<longrightarrow> parser_length p2 = 0 \<and> (\<exists>t s pl pre. length pl \<le> HK_LINK_MAX_PAYLOAD \<and> m2 = mk_message t s pl \<and>
       history @ [b] = pre @ link_frame t s pl)" "\<not> r \<longrightarrow> m2 = m1"
    using ends_with_snoc [OF hist, of b] unfolding ends_with_def by metis+
  have "parser_wf q \<Longrightarrow> parser_length q = 0 \<Longrightarrow> \<forall>(t, s, pl) \<in> set fs. length pl \<le> HK_LINK_MAX_PAYLOAD \<Longrightarrow>
      snd (link_feed_all q m (concat (map (\<lambda>(t, s, pl). link_frame t s pl) fs))) = map (\<lambda>(t, s, pl). mk_message t s pl) fs"
    for q m fs
  proof (induction fs arbitrary: q m)
    case (Cons x fs)
    obtain t s pl where x: "x = (t, s, pl)" by (metis prod_cases3)
    from link_feed_all_frame [OF Cons.prems(1,2), of pl m t s] Cons.prems(3) x obtain q'
      where q': "link_feed_all q m (link_frame t s pl) = (q', [mk_message t s pl])" "parser_wf q'" "parser_length q' = 0"
      by auto
    from link_feed_all_append [OF q'(1)] obtain k where
      "link_feed_all q m (link_frame t s pl @ concat (map (\<lambda>(t, s, pl). link_frame t s pl) fs)) =
        (let (p2, ms2) = link_feed_all q' k (concat (map (\<lambda>(t, s, pl). link_frame t s pl) fs)) in (p2, [mk_message t s pl] @ ms2))"
      by blast
    then show ?case using Cons.IH [OF q'(2,3), of k] Cons.prems(3) x by (auto split: prod.splits)
  qed simp
  with sound wf1 show ?thesis by blast
qed

lemma hk_link_stream_sound_and_complete_witness:
  "\<exists>p p2 m2. link_feed p 0x00 (mk_message 0 0 []) = (False, p2, m2) \<and> parser_wf p2 \<and>
    snd (link_feed_all p (mk_message 0 0 []) (link_frame 3 1 [] @ link_frame 1 2 [5])) = [mk_message 3 1 [], mk_message 1 2 [5]]"
proof -
  let ?p = "\<lparr>parser_data = replicate HK_LINK_MAX_FRAME 0, parser_length = 0\<rparr>" and ?m = "mk_message 0 0 []"
  have wf: "parser_wf ?p" by (simp add: parser_wf_def link_sizes)
  have f: "hk_link_stream_feed (Some ?p) 0 (Some ?m) = (False, Some ?p, Some ?m)" "link_feed ?p 0 ?m = (False, ?p, ?m)"
    by (simp_all add: hk_link_stream_feed_def link_feed_def)
  have l: "parser_length ?p = 0" "link_feed_all ?p ?m [] = (?p, [])" by simp_all
  from hk_link_stream_sound_and_complete [OF wf l f(1)]
  have all: "\<forall>fs. (\<forall>(t, s, pl) \<in> set fs. length pl \<le> HK_LINK_MAX_PAYLOAD) \<longrightarrow>
         snd (link_feed_all ?p ?m (concat (map (\<lambda>(t, s, pl). link_frame t s pl) fs))) =
         map (\<lambda>(t, s, pl). mk_message t s pl) fs" by simp
  have "\<forall>(t, s, pl) \<in> set [(3, 1, []), (1, 2, [5])]. length pl \<le> HK_LINK_MAX_PAYLOAD" by (simp add: link_sizes)
  from mp [OF spec [OF all] this]
  have "snd (link_feed_all ?p ?m (link_frame 3 1 [] @ link_frame 1 2 [5])) = [mk_message 3 1 [], mk_message 1 2 [5]]"
    by simp
  with f(2) wf show ?thesis by blast
qed

end
