(* ===== verification/Uart_Bridge.thy ===== *)
theory Uart_Bridge
  imports Hk_Binary
begin

text \<open>
  \<open>firmware/src/dristy/dristy_uart_bridge.c\<close>: the byte-wise splitter that shares the external UART
  between the Dristy link protocol (\<open>0x55 0xAA\<close>, address, length, command, data, sum) and the HK
  link frames. The static variables are the record \<open>bridge\<close>. The two command handlers
  (\<open>dristy_protocol_handle\<close>, \<open>dristy_legacy_compat_handle\<close>) are arguments: they get the command and
  its data and return the response command and data, or \<open>None\<close> for a result \<open>\<le> 0\<close>. The registered
  baud rate callback is the flag \<open>g_set_baud\<close> and its call the value it is called with.
\<close>

section \<open>The code\<close>

definition DLP_SYNC0 :: u8 where "DLP_SYNC0 = 0x55"
definition DLP_SYNC1 :: u8 where "DLP_SYNC1 = 0xAA"
definition DLP_ADDR :: u8 where "DLP_ADDR = 0x11"
definition DLP_RX_MAX :: nat where "DLP_RX_MAX = 260"
definition DLP_CMD_CTRL_STREAM_ON :: u8 where "DLP_CMD_CTRL_STREAM_ON = 0x60"
definition DLP_CMD_CTRL_STREAM_OFF :: u8 where "DLP_CMD_CTRL_STREAM_OFF = 0x61"
definition DLP_CMD_SET_BAUD :: u8 where "DLP_CMD_SET_BAUD = 0x66"

lemmas dlp_bytes = DLP_SYNC0_def DLP_SYNC1_def DLP_ADDR_def DLP_RX_MAX_def

datatype bridge_state = BRIDGE_IDLE | BRIDGE_DLP_SYNC1 | BRIDGE_DLP_BODY | BRIDGE_HK_PASS

record bridge =
  g_state :: bridge_state
  g_dlp_rx :: "u8 list"
  g_dlp_len :: nat
  g_ctrl_stream :: u8
  g_set_baud :: bool
  g_last_frame :: u32

record bridge_out =
  o_ret :: bool
  o_out :: "u8 list"
  o_len :: nat
  o_route_hk :: bool
  o_baud :: "u32 option"

type_synonym dlp_handler = "u8 \<Rightarrow> u8 list \<Rightarrow> (u8 \<times> u8 list) option"

text \<open>The sum \<open>out[from] + ... + out[to - 1]\<close> modulo 256.\<close>

definition byte_sum :: "u8 list \<Rightarrow> u8" where
  "byte_sum xs = foldl (+) 0 xs"

definition encode_dlp_response :: "u8 \<Rightarrow> u8 list \<Rightarrow> u8 list \<Rightarrow> nat \<times> u8 list" where
  "encode_dlp_response resp_cmd payload out =
     (if length out < 6 + length payload then (0, out)
      else
        let out = out[0 := DLP_SYNC0, 1 := DLP_SYNC1, 2 := DLP_ADDR, 3 := of_nat (length payload), 4 := resp_cmd];
            out = (if payload \<noteq> [] then mem_write 5 payload out else out);
            total = 5 + length payload;
            sum = byte_sum (slice 2 (total - 2) out);
            out = out[total := sum]
        in (total + 1, out))"

definition dispatch_dlp_command ::
  "dlp_handler \<Rightarrow> dlp_handler \<Rightarrow> u8 \<Rightarrow> u8 list \<Rightarrow> u8 list \<Rightarrow> bool \<times> u8 list \<times> nat" where
  "dispatch_dlp_command protocol legacy cmd data out =
     (let response =
        (if cmd \<ge> 0x40 \<and> cmd \<le> 0x7F then protocol cmd data
         else if cmd \<ge> 0x20 \<and> cmd \<le> 0x3E then legacy cmd data
         else None)
      in case response of
           None \<Rightarrow> (False, out, 0)
         | Some (resp_cmd, resp) \<Rightarrow>
             let (out_len, out) = encode_dlp_response resp_cmd resp out in (out_len > 0, out, out_len))"

definition reset_dlp :: "bridge \<Rightarrow> bridge" where
  "reset_dlp s = s\<lparr>g_dlp_len := 0, g_state := BRIDGE_IDLE\<rparr>"

definition dristy_uart_bridge_init :: "bridge \<Rightarrow> bridge" where
  "dristy_uart_bridge_init s =
     s\<lparr>g_state := BRIDGE_IDLE, g_dlp_len := 0, g_ctrl_stream := 0, g_set_baud := False\<rparr>"

definition dristy_uart_bridge_set_uart_baud_fn :: "bool \<Rightarrow> bridge \<Rightarrow> bridge" where
  "dristy_uart_bridge_set_uart_baud_fn fn s = s\<lparr>g_set_baud := fn\<rparr>"

definition dristy_uart_bridge_ctrl_stream_active :: "bridge \<Rightarrow> u8" where
  "dristy_uart_bridge_ctrl_stream_active s = g_ctrl_stream s"

definition dristy_uart_bridge_set_ctrl_stream :: "u8 \<Rightarrow> bridge \<Rightarrow> bridge" where
  "dristy_uart_bridge_set_ctrl_stream enabled s = s\<lparr>g_ctrl_stream := (if enabled \<noteq> 0 then 1 else 0)\<rparr>"

definition push_dlp :: "u8 \<Rightarrow> bridge \<Rightarrow> bridge" where
  "push_dlp byte s = s\<lparr>g_dlp_rx := (g_dlp_rx s)[g_dlp_len s := byte], g_dlp_len := g_dlp_len s + 1\<rparr>"

definition quiet :: "u8 list \<Rightarrow> bool \<Rightarrow> bridge_out" where
  "quiet out hk = \<lparr>o_ret = False, o_out = out, o_len = 0, o_route_hk = hk, o_baud = None\<rparr>"

text \<open>A complete body: checksum, the commands the bridge handles itself, dispatch.\<close>

definition bridge_complete ::
  "dlp_handler \<Rightarrow> dlp_handler \<Rightarrow> u8 list \<Rightarrow> bridge \<Rightarrow> bridge_out \<times> bridge" where
  "bridge_complete protocol legacy out s =
     (let rx = g_dlp_rx s; data_len = unat (rx ! 3); cmd = rx ! 4; payload = slice 5 data_len rx;
          sum = byte_sum (slice 2 (3 + data_len) rx)
      in if sum \<noteq> rx ! (5 + data_len) then (quiet out False, reset_dlp s)
         else
           let (s, baud) =
             (if cmd = DLP_CMD_CTRL_STREAM_ON then
                (s\<lparr>g_ctrl_stream := (if data_len \<ge> 1 then payload ! 0 else 1)\<rparr>, None)
              else if cmd = DLP_CMD_CTRL_STREAM_OFF then (s\<lparr>g_ctrl_stream := 0\<rparr>, None)
              else if cmd = DLP_CMD_SET_BAUD \<and> data_len \<ge> 4 \<and> g_set_baud s then (s, Some (rd32 payload 0))
              else (s, None));
             s = reset_dlp s;
             (ret, out, out_len) = dispatch_dlp_command protocol legacy cmd payload out
           in (\<lparr>o_ret = ret, o_out = out, o_len = out_len, o_route_hk = False, o_baud = baud\<rparr>, s))"

definition dristy_uart_bridge_feed ::
  "dlp_handler \<Rightarrow> dlp_handler \<Rightarrow> u8 \<Rightarrow> u8 list \<Rightarrow> bridge \<Rightarrow> bridge_out \<times> bridge" where
  "dristy_uart_bridge_feed protocol legacy byte out s =
     (case g_state s of
        BRIDGE_HK_PASS \<Rightarrow>
          if byte = DLP_SYNC0 then
            (quiet out False, push_dlp byte (s\<lparr>g_state := BRIDGE_DLP_SYNC1, g_dlp_len := 0\<rparr>))
          else (quiet out True, s)
      | BRIDGE_IDLE \<Rightarrow>
          if byte = DLP_SYNC0 then
            (quiet out False, push_dlp byte (s\<lparr>g_state := BRIDGE_DLP_SYNC1, g_dlp_len := 0\<rparr>))
          else if byte = 0x48 then (quiet out True, s\<lparr>g_state := BRIDGE_HK_PASS\<rparr>)
          else (quiet out False, s)
      | BRIDGE_DLP_SYNC1 \<Rightarrow>
          let s = push_dlp byte s in
          if byte \<noteq> DLP_SYNC1 then
            (if byte = DLP_SYNC0 then
               (quiet out False, s\<lparr>g_dlp_len := 1, g_dlp_rx := (g_dlp_rx s)[0 := DLP_SYNC0]\<rparr>)
             else (quiet out False, reset_dlp s))
          else (quiet out False, s\<lparr>g_state := BRIDGE_DLP_BODY\<rparr>)
      | BRIDGE_DLP_BODY \<Rightarrow>
          if g_dlp_len s \<ge> DLP_RX_MAX then (quiet out False, reset_dlp s)
          else
            let s = push_dlp byte s in
            if g_dlp_len s < 5 then (quiet out False, s)
            else if g_dlp_len s < 5 + unat (g_dlp_rx s ! 3) + 1 then (quiet out False, s)
            else bridge_complete protocol legacy out s)"

definition dristy_uart_bridge_process_debug_byte ::
  "dlp_handler \<Rightarrow> dlp_handler \<Rightarrow> u8 \<Rightarrow> u8 list \<Rightarrow> bridge \<Rightarrow> bool \<times> bridge_out \<times> bridge" where
  "dristy_uart_bridge_process_debug_byte protocol legacy byte out s =
     (let (res, s) = dristy_uart_bridge_feed protocol legacy byte out s in
      if o_ret res then (True, res, s)
      else if g_state s \<noteq> BRIDGE_IDLE \<and> g_state s \<noteq> BRIDGE_HK_PASS then (True, res, s)
      else (False, res, s))"

text \<open>The frame number is what \<open>dristy_result_bus_frame_number\<close> returns; the push itself is not implemented.\<close>

definition dristy_uart_bridge_tick :: "u32 \<Rightarrow> bridge \<Rightarrow> bridge" where
  "dristy_uart_bridge_tick fn s =
     (if g_ctrl_stream s = 0 then s
      else if fn = 0 \<or> fn = g_last_frame s then s
      else s\<lparr>g_last_frame := fn\<rparr>)"

section \<open>Frames\<close>

definition dlp_frame :: "u8 \<Rightarrow> u8 \<Rightarrow> u8 list \<Rightarrow> u8 list" where
  "dlp_frame addr cmd data = (let body = addr # of_nat (length data) # cmd # data
     in DLP_SYNC0 # DLP_SYNC1 # body @ [byte_sum body])"

definition bridge_wf :: "bridge \<Rightarrow> bool" where
  "bridge_wf s = (length (g_dlp_rx s) = DLP_RX_MAX \<and> g_dlp_len s \<le> DLP_RX_MAX \<and>
     (g_state s = BRIDGE_DLP_SYNC1 \<longrightarrow> g_dlp_len s = 1) \<and> (g_state s = BRIDGE_DLP_BODY \<longrightarrow> 2 \<le> g_dlp_len s))"

fun bridge_feed_all ::
  "dlp_handler \<Rightarrow> dlp_handler \<Rightarrow> u8 list \<Rightarrow> bridge \<Rightarrow> u8 list \<Rightarrow> bridge_out list \<times> bridge" where
  "bridge_feed_all protocol legacy out s [] = ([], s)"
| "bridge_feed_all protocol legacy out s (b # bs) =
     (let (res, s) = dristy_uart_bridge_feed protocol legacy b out s;
          (results, s) = bridge_feed_all protocol legacy out s bs
      in (res # results, s))"

lemma length_dlp_frame [simp]: "length (dlp_frame addr cmd data) = 6 + length data"
  by (simp add: dlp_frame_def Let_def)

lemma encode_dlp_response_frame:
  assumes "6 + length payload \<le> length out"
  shows "encode_dlp_response cmd payload out =
    (6 + length payload, mem_write 0 (dlp_frame DLP_ADDR cmd payload) out)"
proof -
  let ?hd = "[DLP_SYNC0, DLP_SYNC1, DLP_ADDR, of_nat (length payload), cmd]"
  have o1: "out[0 := DLP_SYNC0, 1 := DLP_SYNC1, 2 := DLP_ADDR, 3 := of_nat (length payload), 4 := cmd] =
      mem_write 0 ?hd out"
    using assms by (intro nth_equalityI) (auto simp: nth_mem_write nth_list_update nth_Cons')
  define o2 where "o2 = (if payload \<noteq> [] then mem_write 5 payload (mem_write 0 ?hd out) else mem_write 0 ?hd out)"
  have o2: "o2 = mem_write 0 (?hd @ payload) out"
    using assms by (cases "payload = []") (simp_all add: o2_def mem_write_append_at)
  have sl: "slice 2 (3 + length payload) o2 = [DLP_ADDR, of_nat (length payload), cmd] @ payload"
    by (simp add: o2 mem_write_def slice_def numeral_3_eq_3)
  have "o2[5 + length payload := x] = mem_write 0 (?hd @ payload @ [x]) out" for x
    using assms mem_write_append_at [of "5 + length payload" 0 "?hd @ payload" "[x]" out]
    by (simp add: o2 mem_write_single [symmetric])
  then show ?thesis
    using assms sl unfolding encode_dlp_response_def Let_def o1 o2_def [symmetric]
    by (simp add: dlp_frame_def Let_def)
qed

lemma bridge_feed_wf [inv_intros]:
  assumes "bridge_wf s" and "dristy_uart_bridge_feed protocol legacy b out s = (res, s')"
  shows "bridge_wf s'"
  using assms
  by (auto simp: dristy_uart_bridge_feed_def bridge_complete_def bridge_wf_def push_dlp_def reset_dlp_def
      Let_def dlp_bytes split: bridge_state.splits if_splits prod.splits)

text \<open>What a completed frame does besides dispatching its command.\<close>

definition ctrl_after :: "u8 \<Rightarrow> u8 list \<Rightarrow> u8 \<Rightarrow> u8" where
  "ctrl_after cmd data old =
     (if cmd = DLP_CMD_CTRL_STREAM_ON then (if data = [] then 1 else data ! 0)
      else if cmd = DLP_CMD_CTRL_STREAM_OFF then 0 else old)"

definition frame_result :: "dlp_handler \<Rightarrow> dlp_handler \<Rightarrow> u8 \<Rightarrow> u8 list \<Rightarrow> u8 list \<Rightarrow> bridge \<Rightarrow> bridge_out" where
  "frame_result protocol legacy cmd data out s =
     (let (ret, out', n) = dispatch_dlp_command protocol legacy cmd data out
      in \<lparr>o_ret = ret, o_out = out', o_len = n, o_route_hk = False,
          o_baud = (if cmd = DLP_CMD_SET_BAUD \<and> 4 \<le> length data \<and> g_set_baud s then Some (rd32 data 0) else None)\<rparr>)"

lemma dlp_frame_nth:
  "dlp_frame addr cmd data ! 3 = of_nat (length data)" "dlp_frame addr cmd data ! 4 = cmd"
  "dlp_frame addr cmd data ! (5 + length data) = byte_sum (addr # of_nat (length data) # cmd # data)"
  "slice 2 (3 + length data) (dlp_frame addr cmd data) = addr # of_nat (length data) # cmd # data"
  "slice 5 (length data) (dlp_frame addr cmd data) = data"
  by (simp_all add: dlp_frame_def Let_def nth_append slice_def numeral_3_eq_3)

lemma unat_dlp_length: "length d \<le> 255 \<Longrightarrow> unat (of_nat (length d) :: u8) = length d"
  by (rule unat_of_nat_lt) simp

lemma bridge_complete_frame:
  assumes data: "length data \<le> 254" and rx: "take (6 + length data) (g_dlp_rx s) = dlp_frame addr cmd data"
  shows "bridge_complete protocol legacy out s =
    (frame_result protocol legacy cmd data out s,
     s\<lparr>g_ctrl_stream := ctrl_after cmd data (g_ctrl_stream s), g_dlp_len := 0, g_state := BRIDGE_IDLE\<rparr>)"
proof -
  let ?rx = "g_dlp_rx s" and ?f = "dlp_frame addr cmd data" and ?n = "length data"
  have nth: "?rx ! i = ?f ! i" if "i < 6 + ?n" for i using that rx by (metis nth_take)
  have sl: "slice a b ?rx = slice a b ?f" if "a + b \<le> 6 + ?n" for a b
    using that slice_take [of a b "6 + ?n" ?rx] rx by simp
  have n3: "unat (?rx ! 3) = ?n" using nth [of 3] data by (simp add: dlp_frame_nth unat_dlp_length)
  have n4: "?rx ! 4 = cmd" using nth [of 4] by (simp add: dlp_frame_nth)
  have cs: "?rx ! (5 + ?n) = byte_sum (addr # of_nat ?n # cmd # data)" using nth [of "5 + ?n"] by (simp add: dlp_frame_nth)
  have bd: "slice 2 (3 + ?n) ?rx = addr # of_nat ?n # cmd # data" using sl [of 2 "3 + ?n"] by (simp add: dlp_frame_nth)
  have pl: "slice 5 ?n ?rx = data" using sl [of 5 ?n] by (simp add: dlp_frame_nth)
  have d1: "Suc 0 \<le> ?n \<longleftrightarrow> data \<noteq> []" by (cases data) auto
  show ?thesis
    unfolding bridge_complete_def Let_def n3 n4 cs bd pl
    by (auto simp: frame_result_def ctrl_after_def reset_dlp_def Let_def d1
        DLP_CMD_CTRL_STREAM_ON_def DLP_CMD_CTRL_STREAM_OFF_def DLP_CMD_SET_BAUD_def split: prod.splits)
qed

lemma bridge_body_step:
  assumes wf: "bridge_wf s" and st: "g_state s = BRIDGE_DLP_BODY" and k: "g_dlp_len s = k" "2 \<le> k" "k < 6 + length data" "k < 260"
    and data: "length data \<le> 255" and rx: "take k (g_dlp_rx s) = take k (dlp_frame addr cmd data)"
  defines "s' \<equiv> push_dlp (dlp_frame addr cmd data ! k) s"
  shows "take (k + 1) (g_dlp_rx s') = take (k + 1) (dlp_frame addr cmd data)"
    "dristy_uart_bridge_feed protocol legacy (dlp_frame addr cmd data ! k) out s =
      (if k + 1 < 6 + length data then (quiet out False, s') else bridge_complete protocol legacy out s')"
proof -
  let ?f = "dlp_frame addr cmd data"
  have len: "length (g_dlp_rx s) = 260" "k < 260" using wf k data by (auto simp: bridge_wf_def dlp_bytes)
  show tk: "take (k + 1) (g_dlp_rx s') = take (k + 1) ?f"
    using len k rx by (simp add: s'_def push_dlp_def take_Suc_conv_app_nth)
  have l: "g_dlp_len s' = k + 1" by (simp add: s'_def push_dlp_def k)
  have n3: "unat (g_dlp_rx s' ! 3) = length data" if "4 \<le> k"
  proof -
    have "g_dlp_rx s' ! 3 = ?f ! 3" using arg_cong [OF tk, of "\<lambda>l. l ! 3"] that by simp
    then show ?thesis using data by (simp add: dlp_frame_nth unat_dlp_length)
  qed
  show "dristy_uart_bridge_feed protocol legacy (?f ! k) out s =
      (if k + 1 < 6 + length data then (quiet out False, s') else bridge_complete protocol legacy out s')"
    using st k len n3 l by (auto simp: dristy_uart_bridge_feed_def Let_def dlp_bytes s'_def [symmetric])
qed

lemma bridge_body_frame:
  assumes "bridge_wf s" and "g_state s = BRIDGE_DLP_BODY" and "g_dlp_len s = k" and "2 \<le> k" and "k < 6 + length data"
    and "length data \<le> 254" and "take k (g_dlp_rx s) = take k (dlp_frame addr cmd data)"
  shows "\<exists>s'. bridge_feed_all protocol legacy out s (drop k (dlp_frame addr cmd data)) =
      (replicate (5 + length data - k) (quiet out False) @ [frame_result protocol legacy cmd data out s], s') \<and>
    g_state s' = BRIDGE_IDLE \<and> g_dlp_len s' = 0 \<and> g_ctrl_stream s' = ctrl_after cmd data (g_ctrl_stream s)"
  using assms
proof (induction "6 + length data - k" arbitrary: k s)
  case (Suc n)
  let ?f = "dlp_frame addr cmd data" and ?s = "push_dlp (dlp_frame addr cmd data ! k) s"
  have kd: "k < 260" "length data \<le> 255" using Suc.prems(5,6) by simp_all
  note step = bridge_body_step [OF Suc.prems(1-5) kd Suc.prems(7)]
  have dr: "drop k ?f = ?f ! k # drop (k + 1) ?f" using Suc.prems(5) by (simp add: Cons_nth_drop_Suc)
  have same: "frame_result protocol legacy cmd data out ?s = frame_result protocol legacy cmd data out s"
    "g_ctrl_stream ?s = g_ctrl_stream s" "g_state ?s = BRIDGE_DLP_BODY" "g_dlp_len ?s = k + 1"
    using Suc.prems(2,3) by (simp_all add: frame_result_def push_dlp_def)
  show ?case
  proof (cases "k + 1 < 6 + length data")
    case True
    then have f: "dristy_uart_bridge_feed protocol legacy (?f ! k) out s = (quiet out False, ?s)" using step by simp
    have "\<exists>s'. bridge_feed_all protocol legacy out ?s (drop (k + 1) ?f) =
        (replicate (5 + length data - (k + 1)) (quiet out False) @ [frame_result protocol legacy cmd data out ?s], s') \<and>
      g_state s' = BRIDGE_IDLE \<and> g_dlp_len s' = 0 \<and> g_ctrl_stream s' = ctrl_after cmd data (g_ctrl_stream ?s)"
    proof (rule Suc.hyps(1))
      show "bridge_wf ?s" by (rule bridge_feed_wf [OF Suc.prems(1) f])
    qed (use Suc.hyps(2) Suc.prems True same step in simp_all)
    moreover have "5 + length data - k = Suc (5 + length data - (k + 1))" using True by simp
    ultimately show ?thesis using f unfolding dr same(1,2) by (auto simp: Let_def)
  next
    case False
    then have k: "k + 1 = 6 + length data" using Suc.prems(5) by simp
    then have rx: "take (6 + length data) (g_dlp_rx ?s) = ?f" using step(1) by simp
    have "dristy_uart_bridge_feed protocol legacy (?f ! k) out s = bridge_complete protocol legacy out ?s"
      using False step(2) by simp
    then show ?thesis
      using bridge_complete_frame [OF Suc.prems(6) rx] k unfolding dr same(1,2) by (simp add: same)
  qed
qed simp

lemma bridge_start_frame:
  assumes wf: "bridge_wf s" and st: "g_state s = BRIDGE_IDLE \<or> g_state s = BRIDGE_HK_PASS"
  defines "s2 \<equiv> s\<lparr>g_dlp_rx := (g_dlp_rx s)[0 := DLP_SYNC0, 1 := DLP_SYNC1], g_dlp_len := 2, g_state := BRIDGE_DLP_BODY\<rparr>"
  shows "bridge_feed_all protocol legacy out s (DLP_SYNC0 # DLP_SYNC1 # xs) =
    (let (rs, s') = bridge_feed_all protocol legacy out s2 xs in (quiet out False # quiet out False # rs, s'))"
    "bridge_wf s2" "take 2 (g_dlp_rx s2) = [DLP_SYNC0, DLP_SYNC1]"
proof -
  have len: "length (g_dlp_rx s) = 260" using wf by (simp add: bridge_wf_def dlp_bytes)
  have f1: "dristy_uart_bridge_feed protocol legacy DLP_SYNC0 out s =
      (quiet out False, s\<lparr>g_state := BRIDGE_DLP_SYNC1, g_dlp_rx := (g_dlp_rx s)[0 := DLP_SYNC0], g_dlp_len := 1\<rparr>)"
    using st by (auto simp: dristy_uart_bridge_feed_def push_dlp_def)
  have f2: "dristy_uart_bridge_feed protocol legacy DLP_SYNC1 out
      (s\<lparr>g_state := BRIDGE_DLP_SYNC1, g_dlp_rx := (g_dlp_rx s)[0 := DLP_SYNC0], g_dlp_len := 1\<rparr>) = (quiet out False, s2)"
    by (simp add: dristy_uart_bridge_feed_def push_dlp_def s2_def)
  show "bridge_feed_all protocol legacy out s (DLP_SYNC0 # DLP_SYNC1 # xs) =
    (let (rs, s') = bridge_feed_all protocol legacy out s2 xs in (quiet out False # quiet out False # rs, s'))"
    by (simp only: bridge_feed_all.simps f1 f2 Let_def prod.case split: prod.splits) simp
  show "bridge_wf s2" using wf by (auto simp: bridge_wf_def s2_def dlp_bytes)
  show "take 2 (g_dlp_rx s2) = [DLP_SYNC0, DLP_SYNC1]"
    using len by (intro nth_equalityI) (auto simp: s2_def less_2_cases_iff)
qed

section \<open>Properties\<close>

text \<open>C14. From an idle bridge a Dristy frame with up to 254 data bytes is consumed silently byte by byte and its
  command dispatched exactly once, with exactly its data, on the last byte; no byte of it reaches the HK
  parser and the bridge is idle again. Its own response encoder produces such frames.\<close>

theorem bridge_dispatches_frame:
  assumes "bridge_wf s" and "g_state s = BRIDGE_IDLE" and "length data \<le> 254"
  shows "\<exists>s'. bridge_feed_all protocol legacy out s (dlp_frame addr cmd data) =
      (replicate (5 + length data) (quiet out False) @ [frame_result protocol legacy cmd data out s], s') \<and>
    bridge_wf s' \<and> g_state s' = BRIDGE_IDLE \<and> g_ctrl_stream s' = ctrl_after cmd data (g_ctrl_stream s) \<and>
    (6 + length data \<le> length buf \<longrightarrow>
      encode_dlp_response cmd data buf = (6 + length data, mem_write 0 (dlp_frame DLP_ADDR cmd data) buf))"
proof -
  let ?f = "dlp_frame addr cmd data"
  define s2 where "s2 = s\<lparr>g_dlp_rx := (g_dlp_rx s)[0 := DLP_SYNC0, 1 := DLP_SYNC1], g_dlp_len := 2, g_state := BRIDGE_DLP_BODY\<rparr>"
  note start = bridge_start_frame [OF assms(1), folded s2_def]
  have f: "?f = DLP_SYNC0 # DLP_SYNC1 # drop 2 ?f" by (simp add: dlp_frame_def Let_def)
  have "\<exists>s'. bridge_feed_all protocol legacy out s2 (drop 2 ?f) =
      (replicate (5 + length data - 2) (quiet out False) @ [frame_result protocol legacy cmd data out s2], s') \<and>
    g_state s' = BRIDGE_IDLE \<and> g_dlp_len s' = 0 \<and> g_ctrl_stream s' = ctrl_after cmd data (g_ctrl_stream s2)"
  proof (rule bridge_body_frame)
    show "bridge_wf s2" "take 2 (g_dlp_rx s2) = take 2 ?f"
      using start assms(2) by (simp_all add: dlp_frame_def Let_def)
  qed (use assms in \<open>simp_all add: s2_def\<close>)
  then obtain s' where s': "bridge_feed_all protocol legacy out s2 (drop 2 ?f) =
      (replicate (3 + length data) (quiet out False) @ [frame_result protocol legacy cmd data out s2], s')"
    "g_state s' = BRIDGE_IDLE" "g_dlp_len s' = 0" "g_ctrl_stream s' = ctrl_after cmd data (g_ctrl_stream s2)" by auto
  have wf': "bridge_feed_all protocol legacy out q bs = (rs, q') \<Longrightarrow> bridge_wf q \<Longrightarrow> bridge_wf q'" for q bs rs q'
    by (induction bs arbitrary: q rs) (auto simp: Let_def split: prod.splits dest: bridge_feed_wf)
  have "bridge_feed_all protocol legacy out s ?f =
      (quiet out False # quiet out False # replicate (3 + length data) (quiet out False) @
        [frame_result protocol legacy cmd data out s2], s')"
    using start(1) [of protocol legacy out "drop 2 ?f"] assms(2) s'(1) f by simp
  moreover have "frame_result protocol legacy cmd data out s2 = frame_result protocol legacy cmd data out s"
    "g_ctrl_stream s2 = g_ctrl_stream s" by (simp_all add: s2_def frame_result_def)
  moreover have "replicate (5 + length data) (quiet out False) =
      quiet out False # quiet out False # replicate (3 + length data) (quiet out False)"
    by (simp flip: replicate_Suc add: eval_nat_numeral)
  ultimately show ?thesis
    using s' wf' [OF s'(1) start(2)] assms(2) encode_dlp_response_frame [of data buf cmd] by auto
qed

lemma bridge_dispatches_frame_witness:
  "\<exists>s s'. bridge_feed_all (\<lambda>c d. Some (c, d)) (\<lambda>c d. None) [] s (dlp_frame 0x11 0x41 [7]) =
      (replicate 6 (quiet [] False) @ [frame_result (\<lambda>c d. Some (c, d)) (\<lambda>c d. None) 0x41 [7] [] s], s') \<and>
    g_state s' = BRIDGE_IDLE"
proof -
  let ?s = "\<lparr>g_state = BRIDGE_IDLE, g_dlp_rx = replicate DLP_RX_MAX 0, g_dlp_len = 0, g_ctrl_stream = 0,
    g_set_baud = False, g_last_frame = 0\<rparr>"
  have "bridge_wf ?s" "g_state ?s = BRIDGE_IDLE" "length ([7] :: u8 list) \<le> 254" by (simp_all add: bridge_wf_def)
  from bridge_dispatches_frame [OF this, of "\<lambda>c d. Some (c, d)" "\<lambda>c d. None" "[]" "0x11" "0x41" "[]"]
  show ?thesis by auto
qed

text \<open>C21. The receive buffer has 260 bytes, one less than the longest frame the protocol allows: a frame with 255
  data bytes is never dispatched, whatever the handlers are; the bridge swallows it and answers nothing.\<close>

theorem bridge_drops_longest_frame:
  assumes "bridge_wf s" and "g_state s = BRIDGE_IDLE" and "length data = 255"
  shows "\<exists>s'. bridge_feed_all protocol legacy out s (dlp_frame addr cmd data) = (replicate 261 (quiet out False), s') \<and>
    g_state s' = BRIDGE_IDLE \<and> g_ctrl_stream s' = g_ctrl_stream s"
proof -
  let ?f = "dlp_frame addr cmd data"
  have body: "\<exists>s'. bridge_feed_all protocol legacy out s (drop k ?f) = (replicate (261 - k) (quiet out False), s') \<and>
      g_state s' = BRIDGE_IDLE \<and> g_ctrl_stream s' = g_ctrl_stream s"
    if "bridge_wf s" "g_state s = BRIDGE_DLP_BODY" "g_dlp_len s = k" "2 \<le> k" "k \<le> 260" "take k (g_dlp_rx s) = take k ?f" for k s
    using that
  proof (induction "261 - k" arbitrary: k s)
    case (Suc n)
    have dr: "drop k ?f = ?f ! k # drop (k + 1) ?f" using Suc.prems(5) assms(3) by (simp add: Cons_nth_drop_Suc)
    show ?case
    proof (cases "k = 260")
      case True
      have "dristy_uart_bridge_feed protocol legacy (?f ! k) out s = (quiet out False, reset_dlp s)"
        using Suc.prems(2,3) True by (simp add: dristy_uart_bridge_feed_def dlp_bytes)
      then show ?thesis using True assms(3) unfolding dr by (simp add: reset_dlp_def)
    next
      case False
      then have k: "k < 6 + length data" "k < 260" "length data \<le> 255" using Suc.prems(5) assms(3) by simp_all
      let ?s = "push_dlp (?f ! k) s"
      note step = bridge_body_step [OF Suc.prems(1-4) k Suc.prems(6)]
      have f: "dristy_uart_bridge_feed protocol legacy (?f ! k) out s = (quiet out False, ?s)"
        using step(2) k assms(3) by simp
      have "\<exists>s'. bridge_feed_all protocol legacy out ?s (drop (k + 1) ?f) = (replicate (261 - (k + 1)) (quiet out False), s') \<and>
          g_state s' = BRIDGE_IDLE \<and> g_ctrl_stream s' = g_ctrl_stream ?s"
      proof (rule Suc.hyps(1))
        show "bridge_wf ?s" by (rule bridge_feed_wf [OF Suc.prems(1) f])
      qed (use Suc.hyps(2) Suc.prems k step(1) in \<open>simp_all add: push_dlp_def\<close>)
      moreover have "261 - k = Suc (261 - (k + 1))" using k by simp
      ultimately show ?thesis using f unfolding dr by (auto simp: Let_def push_dlp_def)
    qed
  qed simp
  define s2 where "s2 = s\<lparr>g_dlp_rx := (g_dlp_rx s)[0 := DLP_SYNC0, 1 := DLP_SYNC1], g_dlp_len := 2, g_state := BRIDGE_DLP_BODY\<rparr>"
  note start = bridge_start_frame [OF assms(1), folded s2_def]
  have "\<exists>s'. bridge_feed_all protocol legacy out s2 (drop 2 ?f) = (replicate (261 - 2) (quiet out False), s') \<and>
      g_state s' = BRIDGE_IDLE \<and> g_ctrl_stream s' = g_ctrl_stream s2"
    using start assms(2) by (intro body) (simp_all add: s2_def dlp_frame_def Let_def)
  moreover have "?f = DLP_SYNC0 # DLP_SYNC1 # drop 2 ?f" by (simp add: dlp_frame_def Let_def)
  moreover have "replicate 261 (quiet out False) = quiet out False # quiet out False # replicate (261 - 2) (quiet out False)"
    by (simp flip: replicate_Suc)
  ultimately show ?thesis
    using start(1) [of protocol legacy out "drop 2 ?f"] assms(2) by (auto simp: s2_def)
qed

lemma bridge_drops_longest_frame_witness:
  "\<exists>s s'. bridge_feed_all (\<lambda>c d. Some (c, d)) (\<lambda>c d. None) [] s (dlp_frame 0x11 0x41 (replicate 255 0)) =
      (replicate 261 (quiet [] False), s') \<and> g_state s' = BRIDGE_IDLE"
proof -
  let ?s = "\<lparr>g_state = BRIDGE_IDLE, g_dlp_rx = replicate DLP_RX_MAX 0, g_dlp_len = 0, g_ctrl_stream = 0,
    g_set_baud = False, g_last_frame = 0\<rparr>"
  have "bridge_wf ?s" "g_state ?s = BRIDGE_IDLE" "length (replicate 255 (0 :: u8)) = 255" by (simp_all add: bridge_wf_def)
  from bridge_drops_longest_frame [OF this, of "\<lambda>c d. Some (c, d)" "\<lambda>c d. None" "[]" "0x11" "0x41"]
  show ?thesis by blast
qed

text \<open>Once the letter H has switched the bridge to pass-through, bytes reach the HK parser until the first
  0x55; that byte and the next one are withheld, so an HK frame that contains 0x55 never arrives whole.\<close>

theorem bridge_pass_through_stops_at_sync:
  assumes "bridge_wf s" and "g_state s = BRIDGE_HK_PASS" and "DLP_SYNC0 \<notin> set xs"
    and "c \<noteq> DLP_SYNC0" and "c \<noteq> DLP_SYNC1"
  shows "bridge_feed_all protocol legacy out s xs = (replicate (length xs) (quiet out True), s) \<and>
    (\<exists>s'. bridge_feed_all protocol legacy out s (xs @ [DLP_SYNC0, c]) =
       (replicate (length xs) (quiet out True) @ [quiet out False, quiet out False], s') \<and> g_state s' = BRIDGE_IDLE)"
proof
  show "bridge_feed_all protocol legacy out s xs = (replicate (length xs) (quiet out True), s)"
    using assms(2,3) by (induction xs) (auto simp: dristy_uart_bridge_feed_def)
  show "\<exists>s'. bridge_feed_all protocol legacy out s (xs @ [DLP_SYNC0, c]) =
       (replicate (length xs) (quiet out True) @ [quiet out False, quiet out False], s') \<and> g_state s' = BRIDGE_IDLE"
    using assms(2-5) by (induction xs) (auto simp: dristy_uart_bridge_feed_def push_dlp_def reset_dlp_def Let_def)
qed

lemma bridge_pass_through_stops_at_sync_witness:
  "\<exists>s s'. bridge_feed_all (\<lambda>c d. None) (\<lambda>c d. None) [] s ([0x4B, 1] @ [DLP_SYNC0, 7]) =
       (replicate 2 (quiet [] True) @ [quiet [] False, quiet [] False], s') \<and> g_state s' = BRIDGE_IDLE"
proof -
  let ?s = "\<lparr>g_state = BRIDGE_HK_PASS, g_dlp_rx = replicate DLP_RX_MAX 0, g_dlp_len = 0, g_ctrl_stream = 0,
    g_set_baud = False, g_last_frame = 0\<rparr>"
  have "bridge_wf ?s" "g_state ?s = BRIDGE_HK_PASS" "DLP_SYNC0 \<notin> set [0x4B, 1]" "7 \<noteq> DLP_SYNC0" "7 \<noteq> DLP_SYNC1"
    by (simp_all add: bridge_wf_def dlp_bytes)
  from bridge_pass_through_stops_at_sync [OF this, of "\<lambda>c d. None" "\<lambda>c d. None" "[]"]
  show ?thesis by (auto simp: numeral_2_eq_2)
qed

end
