(* ===== verification/Boot_Flash.thy ===== *)
theory Boot_Flash
  imports Dristy_Prelude
begin

text \<open>
  \<open>firmware/src/drivers/boot_flash.c\<close>: the SPI NOR flash driver. The chip is hardware and a parameter
  of the model: \<open>spi_hw\<close> gives, for every history of bus transactions, the bytes it answers to the last
  one and the time \<open>hal_time_us\<close> returns, so a statement about all \<open>hw\<close> holds for every chip, broken ones
  included. The driver's state is its information block and the history it has produced; its
  operations run under a lock on core 0 and are atomic here. A history may also contain power cycles,
  which no operation produces. The interface \<open>nor_chip\<close> states the
  documented behaviour of a NOR flash for the lemmas about what is stored.
\<close>

section \<open>The bus and the driver state\<close>

datatype spi_event =
    Spi_Send "u8 list" "u8 list"
  | Spi_Receive "u8 list" nat
  | Read_Clock
  | Power_Cycle

record spi_hw =
  hw_reply :: "spi_event list \<Rightarrow> nat \<Rightarrow> u8"
  hw_clock :: "spi_event list \<Rightarrow> u64"

datatype boot_flash_result =
    BOOT_FLASH_OK
  | BOOT_FLASH_ERROR_INVALID_ARGUMENT
  | BOOT_FLASH_ERROR_NOT_INITIALIZED
  | BOOT_FLASH_ERROR_WRONG_CORE
  | BOOT_FLASH_ERROR_UNSUPPORTED_DEVICE
  | BOOT_FLASH_ERROR_OUT_OF_BOUNDS
  | BOOT_FLASH_ERROR_ALIGNMENT
  | BOOT_FLASH_ERROR_TIMEOUT
  | BOOT_FLASH_ERROR_WRITE_ENABLE
  | BOOT_FLASH_ERROR_FAULTED

record boot_flash_info =
  bf_jedec_id :: "u8 list"
  bf_capacity :: u32
  bf_initialized :: bool
  bf_faulted :: bool

record flash_world =
  boot_info :: boot_flash_info
  spi_trace :: "spi_event list"

definition BOOT_FLASH_CMD_READ :: u8 where "BOOT_FLASH_CMD_READ = 0x03"
definition BOOT_FLASH_CMD_READ_ID :: u8 where "BOOT_FLASH_CMD_READ_ID = 0x9F"
definition BOOT_FLASH_CMD_READ_STATUS :: u8 where "BOOT_FLASH_CMD_READ_STATUS = 0x05"
definition BOOT_FLASH_CMD_WRITE_ENABLE :: u8 where "BOOT_FLASH_CMD_WRITE_ENABLE = 0x06"
definition BOOT_FLASH_CMD_SECTOR_ERASE :: u8 where "BOOT_FLASH_CMD_SECTOR_ERASE = 0x20"
definition BOOT_FLASH_CMD_PAGE_PROGRAM :: u8 where "BOOT_FLASH_CMD_PAGE_PROGRAM = 0x02"
definition BOOT_FLASH_STATUS_BUSY :: u8 where "BOOT_FLASH_STATUS_BUSY = 0x01"
definition BOOT_FLASH_STATUS_WEL :: u8 where "BOOT_FLASH_STATUS_WEL = 0x02"
definition BOOT_FLASH_PROGRAM_TIMEOUT_US :: u32 where "BOOT_FLASH_PROGRAM_TIMEOUT_US = 500000"
definition BOOT_FLASH_ERASE_TIMEOUT_US :: u32 where "BOOT_FLASH_ERASE_TIMEOUT_US = 3000000"
definition BOOT_FLASH_INIT_TIMEOUT_US :: u32 where "BOOT_FLASH_INIT_TIMEOUT_US = 3000000"
definition BOOT_FLASH_POLL_FAILSAFE :: nat where "BOOT_FLASH_POLL_FAILSAFE = 5000000"

text \<open>From the generated flash layout of the sen0305 board.\<close>

definition HK_FLASH_MIN_CAPACITY :: u32 where "HK_FLASH_MIN_CAPACITY = 0x00800000"
definition HK_FLASH_MAX_CAPACITY :: u32 where "HK_FLASH_MAX_CAPACITY = 0x01000000"
definition HK_FLASH_ERASE_SIZE :: nat where "HK_FLASH_ERASE_SIZE = 0x1000"
definition HK_FLASH_PROGRAM_SIZE :: nat where "HK_FLASH_PROGRAM_SIZE = 0x100"

section \<open>Bus primitives\<close>

definition emit :: "spi_event \<Rightarrow> flash_world \<Rightarrow> flash_world" where
  "emit e w = w\<lparr>spi_trace := spi_trace w @ [e]\<rparr>"

definition spi_send :: "u8 list \<Rightarrow> u8 list \<Rightarrow> flash_world \<Rightarrow> flash_world" where
  "spi_send cmd data w = emit (Spi_Send cmd data) w"

definition spi_receive :: "spi_hw \<Rightarrow> u8 list \<Rightarrow> nat \<Rightarrow> flash_world \<Rightarrow> u8 list \<times> flash_world" where
  "spi_receive hw cmd n w = (let w = emit (Spi_Receive cmd n) w
     in (map (hw_reply hw (spi_trace w)) [0..<n], w))"

definition hal_time_us :: "spi_hw \<Rightarrow> flash_world \<Rightarrow> u64 \<times> flash_world" where
  "hal_time_us hw w = (let w = emit Read_Clock w in (hw_clock hw (spi_trace w), w))"

definition addr_cmd :: "u8 \<Rightarrow> u32 \<Rightarrow> u8 list" where
  "addr_cmd op addr = [op, ucast (drop_bit 16 addr), ucast (drop_bit 8 addr), ucast addr]"

section \<open>The driver\<close>

definition boot_flash_cmd :: "u8 list \<Rightarrow> flash_world \<Rightarrow> flash_world" where
  "boot_flash_cmd cmd w = spi_send cmd [] w"

definition boot_flash_read_status_unlocked :: "spi_hw \<Rightarrow> flash_world \<Rightarrow> u8 \<times> flash_world" where
  "boot_flash_read_status_unlocked hw w =
     (let (bytes, w) = spi_receive hw [BOOT_FLASH_CMD_READ_STATUS] 1 w in (bytes ! 0, w))"

definition boot_flash_mark_fault ::
  "boot_flash_result \<Rightarrow> flash_world \<Rightarrow> boot_flash_result \<times> flash_world" where
  "boot_flash_mark_fault result w = (result, w\<lparr>boot_info := (boot_info w)\<lparr>bf_faulted := True\<rparr>\<rparr>)"

text \<open>The poll loop; it ends because the failsafe bounds the number of polls.\<close>

function wait_ready_loop ::
  "spi_hw \<Rightarrow> u32 \<Rightarrow> u64 \<Rightarrow> nat \<Rightarrow> flash_world \<Rightarrow> boot_flash_result \<times> flash_world" where
  "wait_ready_loop hw timeout_us started polls w =
     (let (status, w) = boot_flash_read_status_unlocked hw w in
      if status AND BOOT_FLASH_STATUS_BUSY = 0 then (BOOT_FLASH_OK, w)
      else
        let (now, w) = hal_time_us hw w in
        if now - started \<ge> ucast timeout_us \<or> polls + 1 \<ge> BOOT_FLASH_POLL_FAILSAFE then
          boot_flash_mark_fault BOOT_FLASH_ERROR_TIMEOUT w
        else wait_ready_loop hw timeout_us started (polls + 1) w)"
  by pat_completeness auto
termination
  by (relation "measure (\<lambda>(hw, t, s, polls, w). BOOT_FLASH_POLL_FAILSAFE - polls)") auto

declare wait_ready_loop.simps [simp del]

definition boot_flash_wait_ready_unlocked ::
  "spi_hw \<Rightarrow> u32 \<Rightarrow> flash_world \<Rightarrow> boot_flash_result \<times> flash_world" where
  "boot_flash_wait_ready_unlocked hw timeout_us w =
     (let (started, w) = hal_time_us hw w in wait_ready_loop hw timeout_us started 0 w)"

definition boot_flash_validate_unlocked ::
  "u32 \<Rightarrow> 'a cptr \<Rightarrow> nat \<Rightarrow> flash_world \<Rightarrow> boot_flash_result" where
  "boot_flash_validate_unlocked addr data len w =
     (if \<not> bf_initialized (boot_info w) then BOOT_FLASH_ERROR_NOT_INITIALIZED
      else if bf_faulted (boot_info w) then BOOT_FLASH_ERROR_FAULTED
      else if len \<noteq> 0 \<and> is_null data then BOOT_FLASH_ERROR_INVALID_ARGUMENT
      else if addr > bf_capacity (boot_info w) \<or> len > unat (bf_capacity (boot_info w) - addr) then
        BOOT_FLASH_ERROR_OUT_OF_BOUNDS
      else BOOT_FLASH_OK)"

definition boot_flash_write_enable_unlocked ::
  "spi_hw \<Rightarrow> flash_world \<Rightarrow> boot_flash_result \<times> flash_world" where
  "boot_flash_write_enable_unlocked hw w =
     (let w = boot_flash_cmd [BOOT_FLASH_CMD_WRITE_ENABLE] w;
          (status, w) = boot_flash_read_status_unlocked hw w
      in if status AND BOOT_FLASH_STATUS_WEL = 0 then boot_flash_mark_fault BOOT_FLASH_ERROR_WRITE_ENABLE w
         else (BOOT_FLASH_OK, w))"

definition boot_flash_finish_write_unlocked ::
  "spi_hw \<Rightarrow> u32 \<Rightarrow> flash_world \<Rightarrow> boot_flash_result \<times> flash_world" where
  "boot_flash_finish_write_unlocked hw timeout_us w =
     (let (result, w) = boot_flash_wait_ready_unlocked hw timeout_us w in
      if result \<noteq> BOOT_FLASH_OK then (result, w)
      else
        let (status, w) = boot_flash_read_status_unlocked hw w in
        if status AND BOOT_FLASH_STATUS_WEL \<noteq> 0 then boot_flash_mark_fault BOOT_FLASH_ERROR_WRITE_ENABLE w
        else (BOOT_FLASH_OK, w))"

definition boot_flash_page_program_unlocked ::
  "spi_hw \<Rightarrow> u32 \<Rightarrow> u8 list \<Rightarrow> flash_world \<Rightarrow> boot_flash_result \<times> flash_world" where
  "boot_flash_page_program_unlocked hw addr data w =
     (let (result, w) = boot_flash_write_enable_unlocked hw w in
      if result \<noteq> BOOT_FLASH_OK then (result, w)
      else
        let w = spi_send (addr_cmd BOOT_FLASH_CMD_PAGE_PROGRAM addr) data w
        in boot_flash_finish_write_unlocked hw BOOT_FLASH_PROGRAM_TIMEOUT_US w)"

definition boot_flash_init :: "spi_hw \<Rightarrow> bool \<Rightarrow> u32 \<Rightarrow> flash_world \<Rightarrow> boot_flash_result \<times> flash_world" where
  "boot_flash_init hw core0 hz w =
     (if \<not> core0 then (BOOT_FLASH_ERROR_WRONG_CORE, w)
      else if hz = 0 then (BOOT_FLASH_ERROR_INVALID_ARGUMENT, w)
      else
        let w = w\<lparr>boot_info := \<lparr>bf_jedec_id = [0, 0, 0], bf_capacity = 0, bf_initialized = False, bf_faulted = False\<rparr>\<rparr>;
            (jedec, w) = spi_receive hw [BOOT_FLASH_CMD_READ_ID] 3 w;
            w = w\<lparr>boot_info := (boot_info w)\<lparr>bf_jedec_id := jedec\<rparr>\<rparr>;
            capacity_log2 = unat (jedec ! 2)
        in if jedec ! 0 = 0 \<or> jedec ! 0 = 0xFF \<or> capacity_log2 \<ge> 32 then (BOOT_FLASH_ERROR_UNSUPPORTED_DEVICE, w)
           else
             let capacity = push_bit capacity_log2 1;
                 w = w\<lparr>boot_info := (boot_info w)\<lparr>bf_capacity := capacity\<rparr>\<rparr>
             in if capacity < HK_FLASH_MIN_CAPACITY \<or> capacity > HK_FLASH_MAX_CAPACITY then
                  (BOOT_FLASH_ERROR_UNSUPPORTED_DEVICE, w\<lparr>boot_info := (boot_info w)\<lparr>bf_capacity := 0\<rparr>\<rparr>)
                else
                  let (result, w) = boot_flash_wait_ready_unlocked hw BOOT_FLASH_INIT_TIMEOUT_US w
                  in (result, if result = BOOT_FLASH_OK
                              then w\<lparr>boot_info := (boot_info w)\<lparr>bf_initialized := True\<rparr>\<rparr> else w))"

definition boot_flash_read_id :: "bool \<Rightarrow> u8 cptr \<Rightarrow> flash_world \<Rightarrow> boot_flash_result \<times> u8 list" where
  "boot_flash_read_id core0 idbuf w =
     (if \<not> core0 then (BOOT_FLASH_ERROR_WRONG_CORE, pdata idbuf)
      else if is_null idbuf then (BOOT_FLASH_ERROR_INVALID_ARGUMENT, pdata idbuf)
      else
        let result = boot_flash_validate_unlocked 0 idbuf 3 w
        in (result, if result = BOOT_FLASH_OK then mem_write 0 (bf_jedec_id (boot_info w)) (pdata idbuf) else pdata idbuf))"

definition boot_flash_read ::
  "spi_hw \<Rightarrow> bool \<Rightarrow> u32 \<Rightarrow> u8 cptr \<Rightarrow> flash_world \<Rightarrow> boot_flash_result \<times> u8 list \<times> flash_world" where
  "boot_flash_read hw core0 addr data w =
     (if \<not> core0 then (BOOT_FLASH_ERROR_WRONG_CORE, pdata data, w)
      else
        let result = boot_flash_validate_unlocked addr data (plen data) w
        in if result = BOOT_FLASH_OK \<and> plen data \<noteq> 0 then
             let (bytes, w) = spi_receive hw (addr_cmd BOOT_FLASH_CMD_READ addr) (plen data) w
             in (result, bytes, w)
           else (result, pdata data, w))"

definition boot_flash_sector_erase ::
  "spi_hw \<Rightarrow> bool \<Rightarrow> u32 \<Rightarrow> flash_world \<Rightarrow> boot_flash_result \<times> flash_world" where
  "boot_flash_sector_erase hw core0 addr w =
     (let cmd = addr_cmd BOOT_FLASH_CMD_SECTOR_ERASE addr in
      if \<not> core0 then (BOOT_FLASH_ERROR_WRONG_CORE, w)
      else if unat addr mod HK_FLASH_ERASE_SIZE \<noteq> 0 then (BOOT_FLASH_ERROR_ALIGNMENT, w)
      else
        let result = boot_flash_validate_unlocked addr (Ptr cmd) HK_FLASH_ERASE_SIZE w;
            (result, w) = (if result = BOOT_FLASH_OK then boot_flash_write_enable_unlocked hw w else (result, w))
        in if result = BOOT_FLASH_OK then
             let w = boot_flash_cmd cmd w
             in boot_flash_finish_write_unlocked hw BOOT_FLASH_ERASE_TIMEOUT_US w
           else (result, w))"

definition boot_flash_page_program ::
  "spi_hw \<Rightarrow> bool \<Rightarrow> u32 \<Rightarrow> u8 cptr \<Rightarrow> flash_world \<Rightarrow> boot_flash_result \<times> flash_world" where
  "boot_flash_page_program hw core0 addr data w =
     (let page_remaining = HK_FLASH_PROGRAM_SIZE - unat addr mod HK_FLASH_PROGRAM_SIZE in
      if \<not> core0 then (BOOT_FLASH_ERROR_WRONG_CORE, w)
      else if plen data > page_remaining then (BOOT_FLASH_ERROR_ALIGNMENT, w)
      else
        let result = boot_flash_validate_unlocked addr data (plen data) w
        in if result = BOOT_FLASH_OK \<and> plen data \<noteq> 0 then
             boot_flash_page_program_unlocked hw addr (pdata data) w
           else (result, w))"

text \<open>The loop of \<open>boot_flash_program\<close>: every round programs the rest of the current page.\<close>

definition page_chunk :: "u32 \<Rightarrow> nat \<Rightarrow> nat" where
  "page_chunk addr len = min (HK_FLASH_PROGRAM_SIZE - unat addr mod HK_FLASH_PROGRAM_SIZE) len"

lemma page_chunk_pos: "len \<noteq> 0 \<Longrightarrow> page_chunk addr len \<noteq> 0"
  by (simp add: page_chunk_def HK_FLASH_PROGRAM_SIZE_def min_def)

lemma page_chunk_shrinks: "data \<noteq> [] \<Longrightarrow> length data - page_chunk addr (length data) < length data"
  using page_chunk_pos [of "length data" addr] by simp

lemma page_chunk_le: "page_chunk addr len \<le> len"
  by (simp add: page_chunk_def)

function program_loop ::
  "spi_hw \<Rightarrow> u32 \<Rightarrow> u8 list \<Rightarrow> flash_world \<Rightarrow> boot_flash_result \<times> flash_world" where
  "program_loop hw addr data w =
     (if data = [] then (BOOT_FLASH_OK, w)
      else
        let chunk = page_chunk addr (length data);
            (result, w) = boot_flash_page_program_unlocked hw addr (take chunk data) w
        in if result \<noteq> BOOT_FLASH_OK then (result, w)
           else program_loop hw (addr + of_nat chunk) (drop chunk data) w)"
  by pat_completeness auto
termination
  by (relation "measure (\<lambda>(hw, addr, data, w). length data)") (auto simp: page_chunk_shrinks)

declare program_loop.simps [simp del]

definition boot_flash_program ::
  "spi_hw \<Rightarrow> bool \<Rightarrow> u32 \<Rightarrow> u8 cptr \<Rightarrow> flash_world \<Rightarrow> boot_flash_result \<times> flash_world" where
  "boot_flash_program hw core0 addr data w =
     (if \<not> core0 then (BOOT_FLASH_ERROR_WRONG_CORE, w)
      else
        let result = boot_flash_validate_unlocked addr data (plen data) w
        in if result = BOOT_FLASH_OK then program_loop hw addr (pdata data) w else (result, w))"

definition boot_flash_get_info :: "flash_world \<Rightarrow> boot_flash_info" where
  "boot_flash_get_info w = boot_info w"

definition boot_flash_result_name :: "boot_flash_result \<Rightarrow> string" where
  "boot_flash_result_name result = (case result of
       BOOT_FLASH_OK \<Rightarrow> ''ok''
     | BOOT_FLASH_ERROR_INVALID_ARGUMENT \<Rightarrow> ''invalid-argument''
     | BOOT_FLASH_ERROR_NOT_INITIALIZED \<Rightarrow> ''not-initialized''
     | BOOT_FLASH_ERROR_WRONG_CORE \<Rightarrow> ''wrong-core''
     | BOOT_FLASH_ERROR_UNSUPPORTED_DEVICE \<Rightarrow> ''unsupported-device''
     | BOOT_FLASH_ERROR_OUT_OF_BOUNDS \<Rightarrow> ''out-of-bounds''
     | BOOT_FLASH_ERROR_ALIGNMENT \<Rightarrow> ''alignment''
     | BOOT_FLASH_ERROR_TIMEOUT \<Rightarrow> ''timeout''
     | BOOT_FLASH_ERROR_WRITE_ENABLE \<Rightarrow> ''write-enable''
     | BOOT_FLASH_ERROR_FAULTED \<Rightarrow> ''faulted'')"

section \<open>What the driver puts on the bus\<close>

definition emits :: "(spi_event \<Rightarrow> bool) \<Rightarrow> flash_world \<Rightarrow> flash_world \<Rightarrow> bool" where
  "emits P w w' = (\<exists>evs. spi_trace w' = spi_trace w @ evs \<and> (\<forall>e \<in> set evs. P e))"

lemma emits_refl [simp]: "emits P w w"
  by (simp add: emits_def)

lemma emits_trans: "emits P w w' \<Longrightarrow> emits P w' w'' \<Longrightarrow> emits P w w''"
  by (auto simp: emits_def)

lemma emits_mono: "emits P w w' \<Longrightarrow> (\<And>e. P e \<Longrightarrow> Q e) \<Longrightarrow> emits Q w w'"
  by (auto simp: emits_def)

lemma emits_emit: "P e \<Longrightarrow> emits P w (emit e w)"
  by (simp add: emits_def emit_def)

lemma emits_info [simp]: "emits P w (w'\<lparr>boot_info := i\<rparr>) = emits P w w'" "emits P (w\<lparr>boot_info := i\<rparr>) w' = emits P w w'"
  by (simp_all add: emits_def)

text \<open>The addresses an event erases or programs.\<close>

definition cmd_addr :: "u8 list \<Rightarrow> nat" where
  "cmd_addr cmd = unat (cmd ! 1) * 65536 + unat (cmd ! 2) * 256 + unat (cmd ! 3)"

fun touched :: "spi_event \<Rightarrow> nat set" where
  "touched (Spi_Send cmd data) =
     (if hd cmd = BOOT_FLASH_CMD_SECTOR_ERASE then {cmd_addr cmd ..< cmd_addr cmd + HK_FLASH_ERASE_SIZE}
      else if hd cmd = BOOT_FLASH_CMD_PAGE_PROGRAM then {cmd_addr cmd ..< cmd_addr cmd + length data}
      else {})"
| "touched (Spi_Receive cmd n) = {}"
| "touched Read_Clock = {}"
| "touched Power_Cycle = {}"

text \<open>A page program stays in its 256 byte page.\<close>

fun page_safe :: "spi_event \<Rightarrow> bool" where
  "page_safe (Spi_Send cmd data) =
     (hd cmd = BOOT_FLASH_CMD_PAGE_PROGRAM \<longrightarrow>
       cmd_addr cmd mod HK_FLASH_PROGRAM_SIZE + length data \<le> HK_FLASH_PROGRAM_SIZE)"
| "page_safe (Spi_Receive cmd n) = True"
| "page_safe Read_Clock = True"
| "page_safe Power_Cycle = True"

definition within :: "nat \<Rightarrow> nat \<Rightarrow> spi_event \<Rightarrow> bool" where
  "within addr len e = (touched e \<subseteq> {addr ..< addr + len} \<and> page_safe e)"

definition harmless :: "spi_event \<Rightarrow> bool" where
  "harmless e = (touched e = {} \<and> page_safe e)"

lemma harmless_within: "harmless e \<Longrightarrow> within a n e"
  by (simp add: harmless_def within_def)

lemma harmless_polls [simp]: "harmless (Spi_Receive cmd n)" "harmless Read_Clock" "harmless Power_Cycle"
  "harmless (Spi_Send [BOOT_FLASH_CMD_WRITE_ENABLE] [])"
  by (simp_all add: harmless_def BOOT_FLASH_CMD_WRITE_ENABLE_def BOOT_FLASH_CMD_SECTOR_ERASE_def
      BOOT_FLASH_CMD_PAGE_PROGRAM_def)

lemma emits_within_mono: "emits (within a n) w w' \<Longrightarrow> b \<le> a \<Longrightarrow> a + n \<le> b + m \<Longrightarrow> emits (within b m) w w'"
  by (erule emits_mono) (fastforce simp: within_def)

lemma emits_harmless_within: "emits harmless w w' \<Longrightarrow> emits (within a n) w w'"
  by (erule emits_mono) (rule harmless_within)

lemma cmd_addr_addr_cmd:
  assumes "unat addr < 2 ^ 24"
  shows "cmd_addr (addr_cmd op addr) = unat addr"
proof -
  have "unat (ucast (drop_bit 16 addr) :: u8) = unat addr div 65536 mod 256"
    "unat (ucast (drop_bit 8 addr) :: u8) = unat addr div 256 mod 256"
    "unat (ucast addr :: u8) = unat addr mod 256"
    by (simp_all add: unsigned_ucast_eq take_bit_eq_mod drop_bit_eq_div unat_div_distrib)
  moreover have "unat addr div 65536 = unat addr div 256 div 256" by (simp add: div_mult2_eq [symmetric])
  moreover have "unat addr = (unat addr div 256 div 256) * 65536 + (unat addr div 256 mod 256) * 256 + unat addr mod 256"
    using div_mult_mod_eq [of "unat addr" 256] div_mult_mod_eq [of "unat addr div 256" 256] by linarith
  ultimately show ?thesis using assms by (simp add: cmd_addr_def addr_cmd_def)
qed

lemma spi_receive_emits: "spi_receive hw cmd n w = (bytes, w') \<Longrightarrow> emits harmless w w' \<and> boot_info w' = boot_info w \<and> length bytes = n"
  by (auto simp: spi_receive_def Let_def emit_def emits_def)

lemma read_status_emits: "boot_flash_read_status_unlocked hw w = (st, w') \<Longrightarrow> emits harmless w w' \<and> boot_info w' = boot_info w"
  by (auto simp: boot_flash_read_status_unlocked_def spi_receive_def Let_def emit_def emits_def)

lemma time_emits: "hal_time_us hw w = (t, w') \<Longrightarrow> emits harmless w w' \<and> boot_info w' = boot_info w"
  by (auto simp: hal_time_us_def Let_def emit_def emits_def)

text \<open>Everything but the two write commands is harmless, and only the fault flag may change.\<close>

definition only_fault :: "flash_world \<Rightarrow> flash_world \<Rightarrow> bool" where
  "only_fault w w' = (boot_info w' = boot_info w \<or> boot_info w' = (boot_info w)\<lparr>bf_faulted := True\<rparr>)"

lemma only_fault_refl [simp]: "only_fault w w"
  by (simp add: only_fault_def)

lemma only_fault_trans: "only_fault w w' \<Longrightarrow> only_fault w' w'' \<Longrightarrow> only_fault w w''"
  by (auto simp: only_fault_def)

lemma mark_fault_facts [simp]: "emits P w (snd (boot_flash_mark_fault r w))" "only_fault w (snd (boot_flash_mark_fault r w))"
  "spi_trace (snd (boot_flash_mark_fault r w)) = spi_trace w" "fst (boot_flash_mark_fault r w) = r"
  by (simp_all add: boot_flash_mark_fault_def only_fault_def)

lemma wait_ready_loop_emits:
  "wait_ready_loop hw t s p w = (r, w') \<Longrightarrow> emits harmless w w' \<and> only_fault w w' \<and> r \<in> {BOOT_FLASH_OK, BOOT_FLASH_ERROR_TIMEOUT}
    \<and> (r = BOOT_FLASH_OK \<longrightarrow> boot_info w' = boot_info w)"
proof (induction hw t s p w rule: wait_ready_loop.induct)
  case (1 hw t s p w)
  obtain st w1 where s1: "boot_flash_read_status_unlocked hw w = (st, w1)" by (metis prod.collapse)
  obtain now w2 where s2: "hal_time_us hw w1 = (now, w2)" by (metis prod.collapse)
  note e1 = read_status_emits [OF s1] and e2 = time_emits [OF s2]
  have e12: "emits harmless w w2" "boot_info w2 = boot_info w" using e1 e2 by (auto intro: emits_trans)
  show ?case
  proof (cases "st AND BOOT_FLASH_STATUS_BUSY = 0 \<or> now - s \<ge> ucast t \<or> p + 1 \<ge> BOOT_FLASH_POLL_FAILSAFE")
    case True
    then show ?thesis using "1.prems" s1 s2 e1 e12
      by (auto simp: wait_ready_loop.simps [of hw t s p w] boot_flash_mark_fault_def only_fault_def split: if_splits)
  next
    case False
    then have rec: "wait_ready_loop hw t s (p + 1) w2 = (r, w')"
      using "1.prems" s1 s2 by (simp add: wait_ready_loop.simps [of hw t s p w])
    from "1.IH" [OF s1 [symmetric] refl _ s2 [symmetric] refl _ rec] False
    have "emits harmless w2 w' \<and> only_fault w2 w' \<and> r \<in> {BOOT_FLASH_OK, BOOT_FLASH_ERROR_TIMEOUT} \<and>
      (r = BOOT_FLASH_OK \<longrightarrow> boot_info w' = boot_info w2)" by auto
    then show ?thesis using e12 by (auto intro: emits_trans simp: only_fault_def)
  qed
qed

lemma wait_ready_emits:
  assumes "boot_flash_wait_ready_unlocked hw t w = (r, w')"
  shows "emits harmless w w' \<and> only_fault w w' \<and> (r = BOOT_FLASH_OK \<longrightarrow> boot_info w' = boot_info w)"
proof -
  obtain t0 w1 where s: "hal_time_us hw w = (t0, w1)" by (metis prod.collapse)
  from assms s have "wait_ready_loop hw t t0 0 w1 = (r, w')" by (simp add: boot_flash_wait_ready_unlocked_def)
  from wait_ready_loop_emits [OF this] time_emits [OF s] show ?thesis
    by (auto intro: emits_trans simp: only_fault_def)
qed

lemma write_enable_emits:
  assumes "boot_flash_write_enable_unlocked hw w = (r, w')"
  shows "emits harmless w w' \<and> only_fault w w' \<and> (r = BOOT_FLASH_OK \<longrightarrow> boot_info w' = boot_info w)"
proof -
  let ?w1 = "emit (Spi_Send [BOOT_FLASH_CMD_WRITE_ENABLE] []) w"
  obtain st w2 where s: "boot_flash_read_status_unlocked hw ?w1 = (st, w2)" by (metis prod.collapse)
  have "emits harmless w ?w1" by (rule emits_emit) simp
  with read_status_emits [OF s] have "emits harmless w w2" "boot_info w2 = boot_info w"
    by (auto intro: emits_trans simp: emit_def)
  then show ?thesis using assms s
    by (auto simp: boot_flash_write_enable_unlocked_def boot_flash_cmd_def spi_send_def
        boot_flash_mark_fault_def only_fault_def split: if_splits)
qed

lemma finish_write_emits:
  assumes "boot_flash_finish_write_unlocked hw t w = (r, w')"
  shows "emits harmless w w' \<and> only_fault w w' \<and> (r = BOOT_FLASH_OK \<longrightarrow> boot_info w' = boot_info w)"
proof -
  obtain r1 w1 where s1: "boot_flash_wait_ready_unlocked hw t w = (r1, w1)" by (metis prod.collapse)
  obtain st w2 where s2: "boot_flash_read_status_unlocked hw w1 = (st, w2)" by (metis prod.collapse)
  note e1 = wait_ready_emits [OF s1] and e2 = read_status_emits [OF s2]
  from e1 e2 have "emits harmless w w2" by (auto intro: emits_trans)
  then show ?thesis using assms s1 s2 e1 e2
    by (auto simp: boot_flash_finish_write_unlocked_def boot_flash_mark_fault_def only_fault_def split: if_splits)
qed

text \<open>The invariant of the driver: an initialised chip has one of the supported capacities.\<close>

definition boot_wf :: "flash_world \<Rightarrow> bool" where
  "boot_wf w = (bf_initialized (boot_info w) \<longrightarrow>
     HK_FLASH_MIN_CAPACITY \<le> bf_capacity (boot_info w) \<and> bf_capacity (boot_info w) \<le> HK_FLASH_MAX_CAPACITY)"

lemma only_fault_wf: "only_fault w w' \<Longrightarrow> boot_wf w \<Longrightarrow> boot_wf w'"
  by (auto simp: only_fault_def boot_wf_def)

lemma validate_OK:
  assumes "boot_flash_validate_unlocked addr data len w = BOOT_FLASH_OK" and "boot_wf w"
  shows "unat addr + len \<le> unat (bf_capacity (boot_info w)) \<and> unat addr + len \<le> 2 ^ 24 \<and>
    (len \<noteq> 0 \<longrightarrow> unat addr < 2 ^ 24)"
proof -
  let ?c = "bf_capacity (boot_info w)"
  from assms have a: "addr \<le> ?c" "len \<le> unat (?c - addr)" "?c \<le> HK_FLASH_MAX_CAPACITY"
    by (auto simp: boot_flash_validate_unlocked_def boot_wf_def not_less split: if_splits)
  then have "unat addr + len \<le> unat ?c" by (simp add: unat_sub word_le_nat_alt)
  moreover have "unat ?c \<le> 2 ^ 24" using a(3) by (simp add: HK_FLASH_MAX_CAPACITY_def word_le_nat_alt)
  ultimately show ?thesis by simp
qed

lemma page_program_unlocked_emits:
  assumes run: "boot_flash_page_program_unlocked hw addr data w = (r, w')"
    and addr: "unat addr < 2 ^ 24" and page: "unat addr mod 256 + length data \<le> 256"
  shows "emits (within (unat addr) (length data)) w w' \<and> only_fault w w' \<and> (r = BOOT_FLASH_OK \<longrightarrow> boot_info w' = boot_info w)"
proof -
  obtain r1 w1 where s1: "boot_flash_write_enable_unlocked hw w = (r1, w1)" by (metis prod.collapse)
  note e1 = write_enable_emits [OF s1]
  let ?e = "Spi_Send (addr_cmd BOOT_FLASH_CMD_PAGE_PROGRAM addr) data"
  let ?w2 = "emit ?e w1"
  obtain r3 w3 where s3: "boot_flash_finish_write_unlocked hw BOOT_FLASH_PROGRAM_TIMEOUT_US ?w2 = (r3, w3)"
    by (metis prod.collapse)
  note e3 = finish_write_emits [OF s3]
  have ca: "cmd_addr (addr_cmd BOOT_FLASH_CMD_PAGE_PROGRAM addr) = unat addr" by (rule cmd_addr_addr_cmd [OF addr])
  have hd: "hd (addr_cmd BOOT_FLASH_CMD_PAGE_PROGRAM addr) = BOOT_FLASH_CMD_PAGE_PROGRAM" by (simp add: addr_cmd_def)
  have "within (unat addr) (length data) ?e"
    using page by (simp add: within_def ca hd HK_FLASH_PROGRAM_SIZE_def)
      (simp add: BOOT_FLASH_CMD_PAGE_PROGRAM_def BOOT_FLASH_CMD_SECTOR_ERASE_def)
  then have "emits (within (unat addr) (length data)) w1 ?w2" by (rule emits_emit)
  then have "emits (within (unat addr) (length data)) w w3"
    using e1 e3 emits_harmless_within by (meson emits_trans)
  then show ?thesis
    using run s1 s3 e1 e3 emits_harmless_within [of w w1]
    by (auto simp: boot_flash_page_program_unlocked_def spi_send_def only_fault_def emit_def split: if_splits)
qed

lemma program_loop_emits:
  "program_loop hw addr data w = (r, w') \<Longrightarrow> unat addr + length data \<le> 2 ^ 24 \<Longrightarrow>
    emits (within (unat addr) (length data)) w w' \<and> only_fault w w' \<and> (r = BOOT_FLASH_OK \<longrightarrow> boot_info w' = boot_info w)"
proof (induction hw addr data w rule: program_loop.induct)
  case (1 hw addr data w)
  show ?case
  proof (cases "data = []")
    case True
    then show ?thesis using "1.prems" program_loop.simps [of hw addr "[]" w] by simp
  next
    case False
    let ?n = "page_chunk addr (length data)"
    obtain r1 w1 where s: "boot_flash_page_program_unlocked hw addr (take ?n data) w = (r1, w1)" by (metis prod.collapse)
    have n: "?n \<le> length data" "?n \<noteq> 0" using page_chunk_le page_chunk_pos False by simp_all
    have ad: "unat addr < 2 ^ 24" using "1.prems"(2) False by (cases data) auto
    have pg: "unat addr mod 256 + length (take ?n data) \<le> 256"
      using mod_less_divisor [of 256 "unat addr"] by (auto simp: page_chunk_def HK_FLASH_PROGRAM_SIZE_def min_def)
    note e1 = page_program_unlocked_emits [OF s ad pg]
    have e1': "emits (within (unat addr) (length data)) w w1"
      using e1 n by (auto elim!: emits_within_mono)
    show ?thesis
    proof (cases "r1 = BOOT_FLASH_OK")
      case err: False
      then show ?thesis using "1.prems"(1) False s e1 e1' by (simp add: program_loop.simps [of hw addr data] Let_def)
    next
      case True
      have next_addr: "unat (addr + of_nat ?n) = unat addr + ?n"
        using "1.prems"(2) n(1) by (simp add: unat_word_ariths unat_of_nat_lt)
      have rec: "program_loop hw (addr + of_nat ?n) (drop ?n data) w1 = (r, w')"
        using "1.prems"(1) False s True by (simp add: program_loop.simps [of hw addr data] Let_def)
      have "emits (within (unat addr + ?n) (length data - ?n)) w1 w' \<and> only_fault w1 w' \<and>
          (r = BOOT_FLASH_OK \<longrightarrow> boot_info w' = boot_info w1)"
        using "1.IH" [OF False refl s [symmetric] refl _ rec] True "1.prems"(2) n by (simp add: next_addr)
      then show ?thesis using e1 e1' n True
        by (auto intro: emits_trans elim!: emits_within_mono simp: only_fault_def)
    qed
  qed
qed

text \<open>The operations: what they touch, and that they keep the invariant, for every chip.\<close>

lemma boot_flash_read_emits:
  assumes "boot_flash_read hw core0 addr data w = (r, bytes, w')"
  shows "emits harmless w w' \<and> boot_info w' = boot_info w \<and> length bytes = length (pdata data)"
proof -
  have len: "boot_flash_validate_unlocked addr data (plen data) w = BOOT_FLASH_OK \<Longrightarrow> plen data = length (pdata data)"
    by (cases data) (auto simp: boot_flash_validate_unlocked_def split: if_splits)
  obtain bs w1 where s: "spi_receive hw (addr_cmd BOOT_FLASH_CMD_READ addr) (plen data) w = (bs, w1)" by (metis prod.collapse)
  from assms s spi_receive_emits [OF s] len show ?thesis
    by (auto simp: boot_flash_read_def Let_def split: if_splits)
qed

lemma boot_flash_sector_erase_emits:
  assumes run: "boot_flash_sector_erase hw core0 addr w = (r, w')" and wf: "boot_wf w"
  shows "emits (within (unat addr) HK_FLASH_ERASE_SIZE) w w' \<and> only_fault w w' \<and>
    (r = BOOT_FLASH_OK \<longrightarrow> boot_info w' = boot_info w)"
proof (cases "core0 \<and> unat addr mod HK_FLASH_ERASE_SIZE = 0 \<and>
    boot_flash_validate_unlocked addr (Ptr (addr_cmd BOOT_FLASH_CMD_SECTOR_ERASE addr)) HK_FLASH_ERASE_SIZE w = BOOT_FLASH_OK")
  case False
  then show ?thesis using run by (auto simp: boot_flash_sector_erase_def Let_def split: if_splits)
next
  case True
  let ?e = "Spi_Send (addr_cmd BOOT_FLASH_CMD_SECTOR_ERASE addr) []"
  obtain r1 w1 where s1: "boot_flash_write_enable_unlocked hw w = (r1, w1)" by (metis prod.collapse)
  note e1 = write_enable_emits [OF s1]
  obtain r3 w3 where s3: "boot_flash_finish_write_unlocked hw BOOT_FLASH_ERASE_TIMEOUT_US (emit ?e w1) = (r3, w3)"
    by (metis prod.collapse)
  note e3 = finish_write_emits [OF s3]
  have ad: "unat addr < 2 ^ 24"
    using validate_OK [OF conjunct2 [OF conjunct2 [OF True]] wf] by (simp add: HK_FLASH_ERASE_SIZE_def)
  have "within (unat addr) HK_FLASH_ERASE_SIZE ?e"
    by (simp add: within_def cmd_addr_addr_cmd [OF ad])
      (simp add: addr_cmd_def BOOT_FLASH_CMD_SECTOR_ERASE_def BOOT_FLASH_CMD_PAGE_PROGRAM_def)
  then have "emits (within (unat addr) HK_FLASH_ERASE_SIZE) w1 (emit ?e w1)" by (rule emits_emit)
  then have e: "emits (within (unat addr) HK_FLASH_ERASE_SIZE) w w3"
    using e1 e3 emits_harmless_within by (meson emits_trans)
  have "boot_flash_sector_erase hw core0 addr w = (if r1 = BOOT_FLASH_OK then (r3, w3) else (r1, w1))"
    using True s1 s3 by (simp add: boot_flash_sector_erase_def boot_flash_cmd_def spi_send_def)
  then show ?thesis using run e e1 e3 emits_harmless_within [of w w1]
    by (auto simp: only_fault_def emit_def split: if_splits)
qed

lemma boot_flash_program_emits:
  assumes run: "boot_flash_program hw core0 addr data w = (r, w')" and wf: "boot_wf w"
  shows "emits (within (unat addr) (plen data)) w w' \<and> only_fault w w' \<and>
    (r = BOOT_FLASH_OK \<longrightarrow> boot_info w' = boot_info w)"
proof (cases "core0 \<and> boot_flash_validate_unlocked addr data (plen data) w = BOOT_FLASH_OK")
  case False
  then show ?thesis using run by (auto simp: boot_flash_program_def Let_def split: if_splits)
next
  case True
  then have len: "plen data = length (pdata data)"
    by (cases data) (auto simp: boot_flash_validate_unlocked_def split: if_splits)
  have rec: "program_loop hw addr (pdata data) w = (r, w')"
    using run True by (simp add: boot_flash_program_def)
  have "unat addr + length (pdata data) \<le> 2 ^ 24"
    using validate_OK [of addr data "plen data" w] True wf len by simp
  from program_loop_emits [OF rec this] show ?thesis by (simp add: len)
qed

lemma boot_flash_page_program_emits:
  assumes run: "boot_flash_page_program hw core0 addr data w = (r, w')" and wf: "boot_wf w"
  shows "emits (within (unat addr) (plen data)) w w' \<and> only_fault w w'"
proof (cases "core0 \<and> plen data \<le> HK_FLASH_PROGRAM_SIZE - unat addr mod HK_FLASH_PROGRAM_SIZE \<and> plen data \<noteq> 0 \<and>
    boot_flash_validate_unlocked addr data (plen data) w = BOOT_FLASH_OK")
  case False
  then show ?thesis using run by (auto simp: boot_flash_page_program_def Let_def split: if_splits)
next
  case True
  then have len: "plen data = length (pdata data)"
    by (cases data) (auto simp: boot_flash_validate_unlocked_def split: if_splits)
  have rec: "boot_flash_page_program_unlocked hw addr (pdata data) w = (r, w')"
    using run True by (simp add: boot_flash_page_program_def Let_def)
  have "unat addr < 2 ^ 24" using validate_OK [of addr data "plen data" w] True wf by simp
  moreover have "unat addr mod 256 + length (pdata data) \<le> 256"
    using True mod_less_divisor [of 256 "unat addr"] by (auto simp: HK_FLASH_PROGRAM_SIZE_def len)
  ultimately show ?thesis using page_program_unlocked_emits [OF rec] by (simp add: len)
qed

lemma boot_flash_init_wf:
  assumes "boot_flash_init hw core0 hz w = (r, w')" and "boot_wf w"
  shows "boot_wf w' \<and> emits harmless w w'"
proof (cases "core0 \<and> hz \<noteq> 0")
  case False
  then show ?thesis using assms by (auto simp: boot_flash_init_def split: if_splits)
next
  case True
  let ?w0 = "w\<lparr>boot_info := \<lparr>bf_jedec_id = [0, 0, 0], bf_capacity = 0, bf_initialized = False, bf_faulted = False\<rparr>\<rparr>"
  obtain jedec w1 where s1: "spi_receive hw [BOOT_FLASH_CMD_READ_ID] 3 ?w0 = (jedec, w1)" by (metis prod.collapse)
  note e1 = spi_receive_emits [OF s1]
  let ?cap = "push_bit (unat (jedec ! 2)) 1 :: u32"
  let ?w2 = "w1\<lparr>boot_info := (boot_info w1)\<lparr>bf_jedec_id := jedec, bf_capacity := ?cap\<rparr>\<rparr>"
  obtain r3 w3 where s3: "boot_flash_wait_ready_unlocked hw BOOT_FLASH_INIT_TIMEOUT_US ?w2 = (r3, w3)" by (metis prod.collapse)
  note e3 = wait_ready_emits [OF s3]
  have e: "emits harmless w w1" "emits harmless w w3" using e1 e3 by (auto intro: emits_trans)
  show ?thesis
    using assms True s1 s3 e e1 e3
    by (auto simp: boot_flash_init_def Let_def boot_wf_def only_fault_def not_less split: if_splits)
qed

section \<open>A NOR flash chip\<close>

definition status_read :: spi_event where
  "status_read = Spi_Receive [BOOT_FLASH_CMD_READ_STATUS] 1"

text \<open>The last transaction read the status and found the write enable latch set.\<close>

definition enabled :: "spi_hw \<Rightarrow> spi_event list \<Rightarrow> bool" where
  "enabled hw tr = (tr \<noteq> [] \<and> last tr = status_read \<and> hw_reply hw tr 0 AND BOOT_FLASH_STATUS_WEL \<noteq> 0)"

text \<open>Every erase and program command of the history was followed by a status without the busy bit.\<close>

definition settled :: "spi_hw \<Rightarrow> spi_event list \<Rightarrow> bool" where
  "settled hw tr = (\<forall>a e b. tr = a @ e # b \<longrightarrow> touched e \<noteq> {} \<longrightarrow>
     (\<exists>b1 b2. b = b1 @ status_read # b2 \<and> hw_reply hw (a @ e # b1 @ [status_read]) 0 AND BOOT_FLASH_STATUS_BUSY = 0))"

text \<open>The polls after a write command ended with busy clear and then the latch clear: it was accepted.\<close>

definition completed :: "spi_hw \<Rightarrow> spi_event list \<Rightarrow> spi_event list \<Rightarrow> bool" where
  "completed hw tr polls = (set polls \<subseteq> {status_read, Read_Clock} \<and>
     (\<exists>p1 p2. polls = p1 @ status_read # p2 @ [status_read] \<and>
        hw_reply hw (tr @ p1 @ [status_read]) 0 AND BOOT_FLASH_STATUS_BUSY = 0 \<and>
        hw_reply hw (tr @ polls) 0 AND BOOT_FLASH_STATUS_WEL = 0))"

text \<open>
  An erase or a program takes its time. The bytes it touches are unsettled from the command until a status
  answers that the chip is not busy, or until the power is cycled, which may cut the operation off
  anywhere. \<open>pending\<close> runs through the history from its end.
\<close>

definition ends_write :: "spi_hw \<Rightarrow> spi_event list \<Rightarrow> bool" where
  "ends_write hw tr = (last tr = Power_Cycle \<or> last tr = status_read \<and> hw_reply hw tr 0 AND BOOT_FLASH_STATUS_BUSY = 0)"

fun pending :: "spi_hw \<Rightarrow> spi_event list \<Rightarrow> nat set" where
  "pending hw [] = {}"
| "pending hw (e # past) = touched e \<union> (if ends_write hw (rev (e # past)) then {} else pending hw past)"

definition unsettled :: "spi_hw \<Rightarrow> spi_event list \<Rightarrow> nat set" where
  "unsettled hw tr = pending hw (rev tr)"

lemma unsettled_Nil [simp]: "unsettled hw [] = {}"
  by (simp add: unsettled_def)

lemma unsettled_snoc: "unsettled hw (tr @ [e]) = touched e \<union> (if ends_write hw (tr @ [e]) then {} else unsettled hw tr)"
  by (simp add: unsettled_def)

lemma unsettled_power_cycle [simp]: "unsettled hw (tr @ [Power_Cycle]) = {}"
  by (simp add: unsettled_snoc ends_write_def)

lemma unsettled_outside: "\<forall>e \<in> set evs. a \<notin> touched e \<Longrightarrow> a \<notin> unsettled hw tr \<Longrightarrow> a \<notin> unsettled hw (tr @ evs)"
proof (induction evs rule: rev_induct)
  case (snoc e evs)
  then show ?case using unsettled_snoc [of hw "tr @ evs" e] by (auto split: if_splits)
qed simp

lemma unsettled_cause:
  "a \<in> unsettled hw tr \<Longrightarrow> \<exists>x e y. tr = x @ e # y \<and> a \<in> touched e \<and>
    (\<forall>y1 f y2. y = y1 @ f # y2 \<longrightarrow> \<not> ends_write hw (x @ e # y1 @ [f]))"
proof (induction tr rule: rev_induct)
  case (snoc g tr)
  show ?case
  proof (cases "a \<in> touched g")
    case True
    then show ?thesis by (intro exI [of _ tr] exI [of _ g] exI [of _ "[]"]) simp
  next
    case False
    with snoc.prems have u: "a \<in> unsettled hw tr" "\<not> ends_write hw (tr @ [g])" by (auto simp: unsettled_snoc split: if_splits)
    from snoc.IH [OF u(1)] obtain x e y where xy: "tr = x @ e # y" "a \<in> touched e"
      "\<forall>y1 f y2. y = y1 @ f # y2 \<longrightarrow> \<not> ends_write hw (x @ e # y1 @ [f])" by blast
    have "\<not> ends_write hw (x @ e # y1 @ [f])" if "y @ [g] = y1 @ f # y2" for y1 f y2
    proof (cases y2 rule: rev_cases)
      case Nil
      then show ?thesis using that u(2) xy(1) by simp
    next
      case (snoc y3 h)
      then have "y = y1 @ f # y3" using that by simp
      then show ?thesis using xy(3) by blast
    qed
    then show ?thesis using xy(1,2) by (intro exI [of _ x] exI [of _ e] exI [of _ "y @ [g]"]) simp
  qed
qed simp

lemma settled_unsettled: "settled hw tr \<Longrightarrow> unsettled hw tr = {}"
proof (rule ccontr)
  assume st: "settled hw tr" and "unsettled hw tr \<noteq> {}"
  then obtain a where "a \<in> unsettled hw tr" by auto
  from unsettled_cause [OF this] obtain x e y where xy: "tr = x @ e # y" "a \<in> touched e"
    "\<forall>y1 f y2. y = y1 @ f # y2 \<longrightarrow> \<not> ends_write hw (x @ e # y1 @ [f])" by blast
  then have "touched e \<noteq> {}" by auto
  from st [unfolded settled_def, rule_format, OF xy(1) this] obtain b1 b2 where
    "y = b1 @ status_read # b2" "hw_reply hw (x @ e # b1 @ [status_read]) 0 AND BOOT_FLASH_STATUS_BUSY = 0" by blast
  moreover have "\<not> ends_write hw (x @ e # b1 @ [status_read])" using xy(3) calculation(1) by simp
  ultimately show False by (simp add: ends_write_def)
qed

text \<open>
  What the data sheet promises. \<open>mem tr a\<close> is the byte at \<open>a\<close> after the history \<open>tr\<close>. A byte that is neither
  touched nor unsettled keeps its value, through power cycles too; nothing is said of an unsettled byte,
  so a power cycle in the middle of an erase or a program may leave anything in its range, which then stays
  until the next command that touches it. A settled chip answers a read with its bytes; an erase or a program that a
  settled and enabled chip was given, that the polls after it have seen complete and that has consumed the latch, has had its effect.
\<close>

locale nor_chip =
  fixes hw :: spi_hw
    and mem :: "spi_event list \<Rightarrow> nat \<Rightarrow> u8"
  assumes mem_untouched: "a \<notin> touched e \<Longrightarrow> a \<notin> unsettled hw tr \<Longrightarrow> mem (tr @ [e]) a = mem tr a"
    and mem_read: "settled hw tr \<Longrightarrow> unat addr + n \<le> 2 ^ 24 \<Longrightarrow> i < n \<Longrightarrow>
      hw_reply hw (tr @ [Spi_Receive (addr_cmd BOOT_FLASH_CMD_READ addr) n]) i = mem tr (unat addr + i)"
    and mem_erased: "settled hw tr \<Longrightarrow> enabled hw tr \<Longrightarrow> e = Spi_Send (addr_cmd BOOT_FLASH_CMD_SECTOR_ERASE addr) [] \<Longrightarrow>
      completed hw (tr @ [e]) polls \<Longrightarrow> a \<in> touched e \<Longrightarrow> mem (tr @ [e] @ polls) a = 0xFF"
    and mem_programmed: "settled hw tr \<Longrightarrow> enabled hw tr \<Longrightarrow> e = Spi_Send (addr_cmd BOOT_FLASH_CMD_PAGE_PROGRAM addr) data \<Longrightarrow>
      page_safe e \<Longrightarrow> unat addr < 2 ^ 24 \<Longrightarrow> completed hw (tr @ [e]) polls \<Longrightarrow> i < length data \<Longrightarrow>
      mem (tr @ [e] @ polls) (unat addr + i) = mem tr (unat addr + i) AND data ! i"
begin

lemma mem_outside: "\<forall>e \<in> set evs. a \<notin> touched e \<Longrightarrow> a \<notin> unsettled hw tr \<Longrightarrow> mem (tr @ evs) a = mem tr a"
proof (induction evs rule: rev_induct)
  case (snoc e evs)
  then show ?case using mem_untouched [of a e "tr @ evs"] unsettled_outside [of evs a hw tr] by simp
qed simp

lemma mem_emits:
  assumes "emits P w w'" and "\<And>e. P e \<Longrightarrow> a \<notin> touched e" and "a \<notin> unsettled hw (spi_trace w)"
  shows "mem (spi_trace w') a = mem (spi_trace w) a"
  using assms by (auto simp: emits_def intro!: mem_outside)

lemma mem_within:
  "emits (within b n) w w' \<Longrightarrow> a \<notin> {b ..< b + n} \<Longrightarrow> a \<notin> unsettled hw (spi_trace w) \<Longrightarrow>
    mem (spi_trace w') a = mem (spi_trace w) a"
  by (erule mem_emits) (auto simp: within_def)

end

lemma unsettled_emits:
  assumes "emits P w w'" and "\<And>e. P e \<Longrightarrow> a \<notin> touched e" and "a \<notin> unsettled hw (spi_trace w)"
  shows "a \<notin> unsettled hw (spi_trace w')"
proof -
  from assms(1) obtain evs where evs: "spi_trace w' = spi_trace w @ evs" "\<forall>e \<in> set evs. P e" by (auto simp: emits_def)
  have "a \<notin> unsettled hw (spi_trace w @ evs)" using evs(2) assms(2,3) by (intro unsettled_outside) auto
  then show ?thesis by (simp add: evs(1))
qed

text \<open>A driver that is usable is settled, so that what it reads is what the chip stores.\<close>

definition boot_ready :: "spi_hw \<Rightarrow> flash_world \<Rightarrow> bool" where
  "boot_ready hw w = (boot_wf w \<and>
     (bf_initialized (boot_info w) \<and> \<not> bf_faulted (boot_info w) \<longrightarrow> settled hw (spi_trace w)))"

lemma settled_harmless:
  assumes "settled hw tr" and "\<forall>e \<in> set evs. harmless e"
  shows "settled hw (tr @ evs)"
  unfolding settled_def
proof (intro allI impI)
  fix a e b assume eq: "tr @ evs = a @ e # b" and te: "touched e \<noteq> {}"
  have "e \<notin> set evs" using assms(2) te by (auto simp: harmless_def)
  with eq obtain b' where b': "tr = a @ e # b'" "b = b' @ evs"
    by (auto simp: append_eq_append_conv2 append_eq_Cons_conv)
  from assms(1) [unfolded settled_def, rule_format, OF b'(1) te] obtain b1 b2 where "b' = b1 @ status_read # b2"
    "hw_reply hw (a @ e # b1 @ [status_read]) 0 AND BOOT_FLASH_STATUS_BUSY = 0" by blast
  then show "\<exists>b1 b2. b = b1 @ status_read # b2 \<and> hw_reply hw (a @ e # b1 @ [status_read]) 0 AND BOOT_FLASH_STATUS_BUSY = 0"
    using b'(2) by auto
qed

lemma settled_completed:
  assumes "settled hw tr" and "completed hw (tr @ [e]) polls"
  shows "settled hw (tr @ [e] @ polls)"
  unfolding settled_def
proof (intro allI impI)
  fix a f b assume eq: "tr @ [e] @ polls = a @ f # b" and te: "touched f \<noteq> {}"
  have "harmless status_read" by (simp add: status_read_def)
  with assms(2) have nf: "f \<notin> set polls" using te by (auto simp: completed_def harmless_def)
  consider (old) b' where "tr = a @ f # b'" "b = b' @ [e] @ polls" | (this) "a = tr" "f = e" "b = polls"
    using eq nf by (auto simp: append_eq_append_conv2 append_eq_Cons_conv Cons_eq_append_conv)
  then show "\<exists>b1 b2. b = b1 @ status_read # b2 \<and> hw_reply hw (a @ f # b1 @ [status_read]) 0 AND BOOT_FLASH_STATUS_BUSY = 0"
  proof cases
    case old
    from assms(1) [unfolded settled_def, rule_format, OF old(1) te] obtain b1 b2 where "b' = b1 @ status_read # b2"
      "hw_reply hw (a @ f # b1 @ [status_read]) 0 AND BOOT_FLASH_STATUS_BUSY = 0" by blast
    then show ?thesis using old(2) by auto
  next
    case this
    then show ?thesis using assms(2) by (auto simp: completed_def)
  qed
qed

lemma completed_harmless: "completed hw tr polls \<Longrightarrow> p \<in> set polls \<Longrightarrow> harmless p"
  by (auto simp: completed_def status_read_def)

subsection \<open>What a successful operation leaves on the bus\<close>

lemma read_status_eq: "boot_flash_read_status_unlocked hw w =
  (hw_reply hw (spi_trace w @ [status_read]) 0, w\<lparr>spi_trace := spi_trace w @ [status_read]\<rparr>)"
  by (simp add: boot_flash_read_status_unlocked_def spi_receive_def emit_def status_read_def)

lemma harmless_status_read [simp]: "harmless status_read"
  by (simp add: status_read_def)

lemma wait_ready_loop_OK:
  "wait_ready_loop hw t s p w = (BOOT_FLASH_OK, w') \<Longrightarrow>
    \<exists>evs. spi_trace w' = spi_trace w @ evs @ [status_read] \<and> set evs \<subseteq> {status_read, Read_Clock} \<and>
      hw_reply hw (spi_trace w') 0 AND BOOT_FLASH_STATUS_BUSY = 0"
proof (induction hw t s p w rule: wait_ready_loop.induct)
  case (1 hw t s p w)
  let ?w1 = "w\<lparr>spi_trace := spi_trace w @ [status_read]\<rparr>"
  obtain now w2 where s2: "hal_time_us hw ?w1 = (now, w2)" by (metis prod.collapse)
  have w2: "spi_trace w2 = spi_trace w @ [status_read, Read_Clock]" using s2 by (auto simp: hal_time_us_def emit_def Let_def)
  show ?case
  proof (cases "hw_reply hw (spi_trace w @ [status_read]) 0 AND BOOT_FLASH_STATUS_BUSY = 0")
    case True
    then show ?thesis using "1.prems" by (auto simp: wait_ready_loop.simps [of hw t s p w] read_status_eq)
  next
    case False
    then have rec: "wait_ready_loop hw t s (p + 1) w2 = (BOOT_FLASH_OK, w')"
      and nt: "\<not> (now - s \<ge> ucast t \<or> p + 1 \<ge> BOOT_FLASH_POLL_FAILSAFE)"
      using "1.prems" s2 by (auto simp: wait_ready_loop.simps [of hw t s p w] read_status_eq boot_flash_mark_fault_def split: if_splits)
    have "\<exists>evs. spi_trace w' = spi_trace w2 @ evs @ [status_read] \<and> set evs \<subseteq> {status_read, Read_Clock} \<and>
        hw_reply hw (spi_trace w') 0 AND BOOT_FLASH_STATUS_BUSY = 0"
      by (rule "1.IH" [OF read_status_eq [symmetric] refl False s2 [symmetric] refl nt rec])
    then obtain evs where "spi_trace w' = spi_trace w2 @ evs @ [status_read]" "set evs \<subseteq> {status_read, Read_Clock}"
      "hw_reply hw (spi_trace w') 0 AND BOOT_FLASH_STATUS_BUSY = 0" by blast
    then show ?thesis using w2 by (intro exI [of _ "[status_read, Read_Clock] @ evs"]) auto
  qed
qed

lemma wait_ready_OK:
  assumes "boot_flash_wait_ready_unlocked hw t w = (BOOT_FLASH_OK, w')"
  shows "\<exists>evs. spi_trace w' = spi_trace w @ evs @ [status_read] \<and> set evs \<subseteq> {status_read, Read_Clock} \<and>
    hw_reply hw (spi_trace w') 0 AND BOOT_FLASH_STATUS_BUSY = 0"
proof -
  obtain t0 w1 where s: "hal_time_us hw w = (t0, w1)" by (metis prod.collapse)
  have w1: "spi_trace w1 = spi_trace w @ [Read_Clock]" using s by (auto simp: hal_time_us_def emit_def Let_def)
  from assms s have "wait_ready_loop hw t t0 0 w1 = (BOOT_FLASH_OK, w')" by (simp add: boot_flash_wait_ready_unlocked_def)
  from wait_ready_loop_OK [OF this] obtain evs where "spi_trace w' = spi_trace w1 @ evs @ [status_read]"
    "set evs \<subseteq> {status_read, Read_Clock}" "hw_reply hw (spi_trace w') 0 AND BOOT_FLASH_STATUS_BUSY = 0" by blast
  then show ?thesis using w1 by (intro exI [of _ "Read_Clock # evs"]) auto
qed

lemma finish_write_OK:
  assumes "boot_flash_finish_write_unlocked hw t w = (BOOT_FLASH_OK, w')"
  shows "\<exists>polls. spi_trace w' = spi_trace w @ polls \<and> completed hw (spi_trace w) polls"
proof -
  obtain r1 w1 where s1: "boot_flash_wait_ready_unlocked hw t w = (r1, w1)" by (metis prod.collapse)
  from assms s1 have r1: "r1 = BOOT_FLASH_OK" and w': "w' = w1\<lparr>spi_trace := spi_trace w1 @ [status_read]\<rparr>"
    and wel: "hw_reply hw (spi_trace w1 @ [status_read]) 0 AND BOOT_FLASH_STATUS_WEL = 0"
    by (auto simp: boot_flash_finish_write_unlocked_def read_status_eq boot_flash_mark_fault_def split: if_splits)
  from wait_ready_OK [OF s1 [unfolded r1]] obtain evs where evs: "spi_trace w1 = spi_trace w @ evs @ [status_read]"
    "set evs \<subseteq> {status_read, Read_Clock}" "hw_reply hw (spi_trace w1) 0 AND BOOT_FLASH_STATUS_BUSY = 0" by blast
  let ?polls = "evs @ status_read # [] @ [status_read]"
  have "completed hw (spi_trace w) ?polls"
    unfolding completed_def using evs wel
    by (intro conjI exI [of _ evs] exI [of "\<lambda>p2. _ @ _ # _ @ _ = _ @ _ # p2 @ _ \<and> _" "[]"]) auto
  moreover have "spi_trace w' = spi_trace w @ ?polls" using w' evs by simp
  ultimately show ?thesis by blast
qed

lemma write_enable_OK:
  assumes "boot_flash_write_enable_unlocked hw w = (BOOT_FLASH_OK, w')"
  shows "enabled hw (spi_trace w') \<and> (\<exists>evs. spi_trace w' = spi_trace w @ evs \<and> (\<forall>e \<in> set evs. harmless e))"
  using assms
  by (auto simp: boot_flash_write_enable_unlocked_def boot_flash_cmd_def spi_send_def emit_def read_status_eq
      enabled_def boot_flash_mark_fault_def Let_def split: if_splits)

lemma settled_write_enable: "boot_flash_write_enable_unlocked hw w = (r, w') \<Longrightarrow> settled hw (spi_trace w) \<Longrightarrow> settled hw (spi_trace w')"
  using write_enable_emits [of hw w r w'] by (auto simp: emits_def intro: settled_harmless)

lemma page_program_unlocked_OK:
  assumes run: "boot_flash_page_program_unlocked hw addr data w = (BOOT_FLASH_OK, w')"
  shows "\<exists>pre polls. spi_trace w' = spi_trace w @ pre @ [Spi_Send (addr_cmd BOOT_FLASH_CMD_PAGE_PROGRAM addr) data] @ polls \<and>
    (\<forall>e \<in> set pre. harmless e) \<and> enabled hw (spi_trace w @ pre) \<and>
    completed hw (spi_trace w @ pre @ [Spi_Send (addr_cmd BOOT_FLASH_CMD_PAGE_PROGRAM addr) data]) polls"
proof -
  obtain r1 w1 where s1: "boot_flash_write_enable_unlocked hw w = (r1, w1)" by (metis prod.collapse)
  from run s1 have r1: "r1 = BOOT_FLASH_OK" and fin: "boot_flash_finish_write_unlocked hw BOOT_FLASH_PROGRAM_TIMEOUT_US
      (emit (Spi_Send (addr_cmd BOOT_FLASH_CMD_PAGE_PROGRAM addr) data) w1) = (BOOT_FLASH_OK, w')"
    by (auto simp: boot_flash_page_program_unlocked_def spi_send_def split: if_splits)
  from write_enable_OK [OF s1 [unfolded r1]] obtain pre where pre: "spi_trace w1 = spi_trace w @ pre"
    "\<forall>e \<in> set pre. harmless e" "enabled hw (spi_trace w @ pre)" by auto
  from finish_write_OK [OF fin] pre show ?thesis
    by - (rule exI [of _ pre], auto simp: emit_def)
qed

lemma sector_erase_OK:
  assumes run: "boot_flash_sector_erase hw core0 addr w = (BOOT_FLASH_OK, w')"
  shows "\<exists>pre polls. spi_trace w' = spi_trace w @ pre @ [Spi_Send (addr_cmd BOOT_FLASH_CMD_SECTOR_ERASE addr) []] @ polls \<and>
    (\<forall>e \<in> set pre. harmless e) \<and> enabled hw (spi_trace w @ pre) \<and>
    completed hw (spi_trace w @ pre @ [Spi_Send (addr_cmd BOOT_FLASH_CMD_SECTOR_ERASE addr) []]) polls \<and>
    boot_flash_validate_unlocked addr (Ptr (addr_cmd BOOT_FLASH_CMD_SECTOR_ERASE addr)) HK_FLASH_ERASE_SIZE w = BOOT_FLASH_OK"
proof -
  have v: "boot_flash_validate_unlocked addr (Ptr (addr_cmd BOOT_FLASH_CMD_SECTOR_ERASE addr)) HK_FLASH_ERASE_SIZE w = BOOT_FLASH_OK"
    and c: "core0" "unat addr mod HK_FLASH_ERASE_SIZE = 0"
    using run by (auto simp: boot_flash_sector_erase_def Let_def split: if_splits)
  obtain r1 w1 where s1: "boot_flash_write_enable_unlocked hw w = (r1, w1)" by (metis prod.collapse)
  from run s1 v c have r1: "r1 = BOOT_FLASH_OK" and fin: "boot_flash_finish_write_unlocked hw BOOT_FLASH_ERASE_TIMEOUT_US
      (emit (Spi_Send (addr_cmd BOOT_FLASH_CMD_SECTOR_ERASE addr) []) w1) = (BOOT_FLASH_OK, w')"
    by (auto simp: boot_flash_sector_erase_def spi_send_def boot_flash_cmd_def split: if_splits)
  from write_enable_OK [OF s1 [unfolded r1]] obtain pre where pre: "spi_trace w1 = spi_trace w @ pre"
    "\<forall>e \<in> set pre. harmless e" "enabled hw (spi_trace w @ pre)" by auto
  from finish_write_OK [OF fin] pre v show ?thesis
    by - (rule exI [of _ pre], auto simp: emit_def)
qed

text \<open>An operation that fails on the bus sets the fault flag; one that succeeds leaves the chip settled.\<close>

lemma wait_ready_loop_fault: "wait_ready_loop hw t s p w = (r, w') \<Longrightarrow> r \<noteq> BOOT_FLASH_OK \<Longrightarrow> bf_faulted (boot_info w')"
proof (induction hw t s p w rule: wait_ready_loop.induct)
  case (1 hw t s p w)
  obtain now w2 where s2: "hal_time_us hw (w\<lparr>spi_trace := spi_trace w @ [status_read]\<rparr>) = (now, w2)" by (metis prod.collapse)
  show ?case
  proof (cases "hw_reply hw (spi_trace w @ [status_read]) 0 AND BOOT_FLASH_STATUS_BUSY = 0 \<or>
      now - s \<ge> ucast t \<or> p + 1 \<ge> BOOT_FLASH_POLL_FAILSAFE")
    case True
    then show ?thesis using "1.prems" s2
      by (auto simp: wait_ready_loop.simps [of hw t s p w] read_status_eq boot_flash_mark_fault_def split: if_splits)
  next
    case False
    then have "wait_ready_loop hw t s (p + 1) w2 = (r, w')"
      using "1.prems"(1) s2 by (auto simp: wait_ready_loop.simps [of hw t s p w] read_status_eq)
    with "1.IH" [OF read_status_eq [symmetric] refl _ s2 [symmetric] refl _ this "1.prems"(2)] False show ?thesis by blast
  qed
qed

lemma finish_write_fault:
  assumes "boot_flash_finish_write_unlocked hw t w = (r, w')" and "r \<noteq> BOOT_FLASH_OK"
  shows "bf_faulted (boot_info w')"
proof -
  obtain t0 w1 where s: "hal_time_us hw w = (t0, w1)" by (metis prod.collapse)
  obtain r2 w2 where l: "wait_ready_loop hw t t0 0 w1 = (r2, w2)" by (metis prod.collapse)
  show ?thesis using assms s l wait_ready_loop_fault [OF l]
    by (auto simp: boot_flash_finish_write_unlocked_def boot_flash_wait_ready_unlocked_def read_status_eq
        boot_flash_mark_fault_def Let_def split: if_splits)
qed

lemma write_enable_fault:
  "boot_flash_write_enable_unlocked hw w = (r, w') \<Longrightarrow> r \<noteq> BOOT_FLASH_OK \<Longrightarrow> bf_faulted (boot_info w')"
  by (auto simp: boot_flash_write_enable_unlocked_def read_status_eq boot_flash_mark_fault_def Let_def split: if_splits)

lemma page_program_unlocked_settled:
  assumes run: "boot_flash_page_program_unlocked hw addr data w = (r, w')" and st: "settled hw (spi_trace w)"
  shows "if r = BOOT_FLASH_OK then settled hw (spi_trace w') else bf_faulted (boot_info w')"
proof (cases "r = BOOT_FLASH_OK")
  case True
  from page_program_unlocked_OK [OF run [unfolded True]] obtain pre polls where tr:
    "spi_trace w' = spi_trace w @ pre @ [Spi_Send (addr_cmd BOOT_FLASH_CMD_PAGE_PROGRAM addr) data] @ polls"
    "\<forall>e \<in> set pre. harmless e"
    "completed hw ((spi_trace w @ pre) @ [Spi_Send (addr_cmd BOOT_FLASH_CMD_PAGE_PROGRAM addr) data]) polls" by auto
  have "settled hw (spi_trace w @ pre)" by (rule settled_harmless [OF st tr(2)])
  from settled_completed [OF this tr(3)] tr(1) True show ?thesis by simp
next
  case False
  then show ?thesis using run finish_write_fault write_enable_fault
    by (fastforce simp: boot_flash_page_program_unlocked_def split: prod.splits if_splits)
qed

lemma program_loop_settled:
  "program_loop hw addr data w = (r, w') \<Longrightarrow> settled hw (spi_trace w) \<Longrightarrow>
    if r = BOOT_FLASH_OK then settled hw (spi_trace w') else bf_faulted (boot_info w')"
proof (induction hw addr data w rule: program_loop.induct)
  case (1 hw addr data w)
  show ?case
  proof (cases "data = []")
    case True
    then show ?thesis using "1.prems" program_loop.simps [of hw addr "[]" w] by simp
  next
    case False
    let ?n = "page_chunk addr (length data)"
    obtain r1 w1 where s: "boot_flash_page_program_unlocked hw addr (take ?n data) w = (r1, w1)" by (metis prod.collapse)
    note p1 = page_program_unlocked_settled [OF s "1.prems"(2)]
    show ?thesis
    proof (cases "r1 = BOOT_FLASH_OK")
      case err: False
      then show ?thesis using "1.prems"(1) False s p1 by (simp add: program_loop.simps [of hw addr data] Let_def)
    next
      case True
      have rec: "program_loop hw (addr + of_nat ?n) (drop ?n data) w1 = (r, w')"
        using "1.prems"(1) False s True by (simp add: program_loop.simps [of hw addr data] Let_def)
      show ?thesis using "1.IH" [OF False refl s [symmetric] refl _ rec] True p1 by simp
    qed
  qed
qed

text \<open>Readiness is kept by every operation.\<close>

lemma boot_ready_read: "boot_flash_read hw core0 addr data w = (r, bytes, w') \<Longrightarrow> boot_ready hw w \<Longrightarrow> boot_ready hw w'"
  using boot_flash_read_emits [of hw core0 addr data w r bytes w']
  by (auto simp: boot_ready_def boot_wf_def emits_def intro: settled_harmless)

lemma boot_flash_program_ready:
  assumes run: "boot_flash_program hw core0 addr data w = (r, w')" and rd: "boot_ready hw w"
  shows "boot_ready hw w' \<and> (r = BOOT_FLASH_OK \<longrightarrow> settled hw (spi_trace w'))"
proof (cases "core0 \<and> boot_flash_validate_unlocked addr data (plen data) w = BOOT_FLASH_OK")
  case False
  then show ?thesis using run rd by (auto simp: boot_flash_program_def Let_def split: if_splits)
next
  case True
  then have l: "program_loop hw addr (pdata data) w = (r, w')" and "settled hw (spi_trace w)"
    using run rd by (auto simp: boot_flash_program_def boot_ready_def boot_flash_validate_unlocked_def Let_def split: if_splits)
  from program_loop_settled [OF this] show ?thesis
    using boot_flash_program_emits [OF run] rd only_fault_wf [of w w']
    by (auto simp: boot_ready_def split: if_splits)
qed

lemma boot_flash_sector_erase_ready:
  assumes run: "boot_flash_sector_erase hw core0 addr w = (r, w')" and rd: "boot_ready hw w"
  shows "boot_ready hw w' \<and> (r = BOOT_FLASH_OK \<longrightarrow> settled hw (spi_trace w'))"
proof (cases "r = BOOT_FLASH_OK")
  case True
  from sector_erase_OK [OF run [unfolded True]] obtain pre polls where tr:
    "spi_trace w' = spi_trace w @ pre @ [Spi_Send (addr_cmd BOOT_FLASH_CMD_SECTOR_ERASE addr) []] @ polls"
    "\<forall>e \<in> set pre. harmless e"
    "completed hw ((spi_trace w @ pre) @ [Spi_Send (addr_cmd BOOT_FLASH_CMD_SECTOR_ERASE addr) []]) polls"
    "boot_flash_validate_unlocked addr (Ptr (addr_cmd BOOT_FLASH_CMD_SECTOR_ERASE addr)) HK_FLASH_ERASE_SIZE w = BOOT_FLASH_OK"
    by auto
  from tr(4) rd have "settled hw (spi_trace w)"
    by (auto simp: boot_ready_def boot_flash_validate_unlocked_def split: if_splits)
  then have "settled hw (spi_trace w @ pre)" by (rule settled_harmless [OF _ tr(2)])
  from settled_completed [OF this tr(3)] tr(1) have "settled hw (spi_trace w')" by simp
  then show ?thesis using boot_flash_sector_erase_emits [OF run] rd only_fault_wf [of w w'] by (auto simp: boot_ready_def)
next
  case False
  obtain r1 w1 where s1: "boot_flash_write_enable_unlocked hw w = (r1, w1)" by (metis prod.collapse)
  obtain r3 w3 where s3: "boot_flash_finish_write_unlocked hw BOOT_FLASH_ERASE_TIMEOUT_US
      (boot_flash_cmd (addr_cmd BOOT_FLASH_CMD_SECTOR_ERASE addr) w1) = (r3, w3)" by (metis prod.collapse)
  have "w' = w \<or> bf_faulted (boot_info w')"
    using run False s1 s3 write_enable_fault [OF s1] finish_write_fault [OF s3]
    by (auto simp: boot_flash_sector_erase_def Let_def split: if_splits)
  then show ?thesis using boot_flash_sector_erase_emits [OF run] rd only_fault_wf [of w w'] False by (auto simp: boot_ready_def)
qed

lemma settled_by_poll:
  assumes "\<forall>e \<in> set evs. harmless e" and "hw_reply hw (tr @ evs @ [status_read]) 0 AND BOOT_FLASH_STATUS_BUSY = 0"
  shows "settled hw (tr @ evs @ [status_read])"
  unfolding settled_def
proof (intro allI impI)
  fix a e b assume eq: "tr @ evs @ [status_read] = a @ e # b" and te: "touched e \<noteq> {}"
  have ne: "e \<notin> set evs" "e \<noteq> status_read" using assms(1) te harmless_status_read by (auto simp: harmless_def)
  then have "b \<noteq> []" using eq by (auto simp flip: append_assoc)
  then obtain b1 l where b: "b = b1 @ [l]" by (metis rev_exhaust)
  with eq have "l = status_read" by (simp flip: append_assoc append_Cons)
  then have "tr @ evs @ [status_read] = a @ e # b1 @ [status_read]" using eq b by simp
  then have "hw_reply hw (a @ e # b1 @ [status_read]) 0 AND BOOT_FLASH_STATUS_BUSY = 0" using assms(2) by argo
  then show "\<exists>b1 b2. b = b1 @ status_read # b2 \<and> hw_reply hw (a @ e # b1 @ [status_read]) 0 AND BOOT_FLASH_STATUS_BUSY = 0"
    using b \<open>l = status_read\<close> by blast
qed

lemma boot_flash_init_ready:
  assumes run: "boot_flash_init hw core0 hz w = (r, w')" and rd: "boot_ready hw w"
  shows "boot_ready hw w'"
proof (cases "bf_initialized (boot_info w') \<and> core0 \<and> hz \<noteq> 0")
  case False
  then have "w' = w \<or> \<not> bf_initialized (boot_info w')" using run by (auto simp: boot_flash_init_def split: if_splits)
  then show ?thesis using boot_flash_init_wf [OF run] rd by (auto simp: boot_ready_def)
next
  case True
  let ?w0 = "w\<lparr>boot_info := \<lparr>bf_jedec_id = [0, 0, 0], bf_capacity = 0, bf_initialized = False, bf_faulted = False\<rparr>\<rparr>"
  obtain jedec w1 where s1: "spi_receive hw [BOOT_FLASH_CMD_READ_ID] 3 ?w0 = (jedec, w1)" by (metis prod.collapse)
  let ?cap = "push_bit (unat (jedec ! 2)) 1 :: u32"
  let ?w2 = "w1\<lparr>boot_info := (boot_info w1)\<lparr>bf_jedec_id := jedec, bf_capacity := ?cap\<rparr>\<rparr>"
  obtain r3 w3 where s3: "boot_flash_wait_ready_unlocked hw BOOT_FLASH_INIT_TIMEOUT_US ?w2 = (r3, w3)" by (metis prod.collapse)
  have i1: "\<not> bf_initialized (boot_info w1)" using spi_receive_emits [OF s1] by simp
  have i3: "\<not> bf_initialized (boot_info w3)" using wait_ready_emits [OF s3] i1 by (auto simp: only_fault_def)
  have r3: "r3 = BOOT_FLASH_OK" and w': "spi_trace w' = spi_trace w3"
    using run True s1 s3 i1 i3 by (auto simp: boot_flash_init_def Let_def split: if_splits)
  from wait_ready_OK [OF s3 [unfolded r3]] obtain evs where e: "spi_trace w3 = spi_trace w1 @ evs @ [status_read]"
    "set evs \<subseteq> {status_read, Read_Clock}" "hw_reply hw (spi_trace w3) 0 AND BOOT_FLASH_STATUS_BUSY = 0" by auto
  obtain e1 where e1: "spi_trace w1 = spi_trace w @ e1" "\<forall>e \<in> set e1. harmless e"
    using spi_receive_emits [OF s1] by (auto simp: emits_def)
  have "settled hw (spi_trace w @ (e1 @ evs) @ [status_read])"
    using e e1 harmless_polls(2) harmless_status_read by (intro settled_by_poll) auto
  then show ?thesis using boot_flash_init_wf [OF run] rd e e1 w' by (simp add: boot_ready_def)
qed

context nor_chip
begin

lemma read_stored:
  assumes "boot_flash_read hw core0 addr data w = (BOOT_FLASH_OK, bytes, w')" and rd: "boot_ready hw w"
  shows "bytes = map (\<lambda>i. mem (spi_trace w) (unat addr + i)) [0..<length (pdata data)]"
proof -
  have v: "boot_flash_validate_unlocked addr data (plen data) w = BOOT_FLASH_OK"
    using assms(1) by (auto simp: boot_flash_read_def Let_def split: if_splits)
  then have len: "plen data = length (pdata data)"
    by (cases data) (auto simp: boot_flash_validate_unlocked_def split: if_splits)
  have st: "settled hw (spi_trace w)" using v rd
    by (auto simp: boot_ready_def boot_flash_validate_unlocked_def split: if_splits)
  have b: "unat addr + plen data \<le> 2 ^ 24" using validate_OK [OF v] rd by (simp add: boot_ready_def)
  show ?thesis
    using assms(1) v mem_read [OF st b] len
    by (auto simp: boot_flash_read_def Let_def spi_receive_def emit_def split: if_splits)
qed

lemma erase_stored:
  assumes run: "boot_flash_sector_erase hw core0 addr w = (BOOT_FLASH_OK, w')" and rd: "boot_ready hw w"
    and a: "unat addr \<le> a" "a < unat addr + HK_FLASH_ERASE_SIZE"
  shows "mem (spi_trace w') a = 0xFF"
proof -
  let ?e = "Spi_Send (addr_cmd BOOT_FLASH_CMD_SECTOR_ERASE addr) []"
  from sector_erase_OK [OF run] obtain pre polls where tr:
    "spi_trace w' = (spi_trace w @ pre) @ [?e] @ polls" "enabled hw (spi_trace w @ pre)"
    "completed hw ((spi_trace w @ pre) @ [?e]) polls"
    "boot_flash_validate_unlocked addr (Ptr (addr_cmd BOOT_FLASH_CMD_SECTOR_ERASE addr)) HK_FLASH_ERASE_SIZE w = BOOT_FLASH_OK"
    "\<forall>e \<in> set pre. harmless e" by auto
  have "unat addr < 2 ^ 24" using validate_OK [OF tr(4)] rd by (simp add: boot_ready_def HK_FLASH_ERASE_SIZE_def)
  then have "a \<in> touched ?e" using a by (simp add: cmd_addr_addr_cmd) (simp add: addr_cmd_def)
  moreover have "settled hw (spi_trace w @ pre)"
    using tr(4,5) rd by (intro settled_harmless) (auto simp: boot_ready_def boot_flash_validate_unlocked_def split: if_splits)
  ultimately show ?thesis using mem_erased [OF _ tr(2) refl tr(3)] by (simp add: tr(1))
qed

lemma program_loop_stored:
  "program_loop hw addr data w = (BOOT_FLASH_OK, w') \<Longrightarrow> settled hw (spi_trace w) \<Longrightarrow>
    unat addr + length data \<le> 2 ^ 24 \<Longrightarrow> i < length data \<Longrightarrow>
    mem (spi_trace w') (unat addr + i) = mem (spi_trace w) (unat addr + i) AND data ! i"
proof (induction "length data" arbitrary: addr data w i rule: less_induct)
  case less
  let ?n = "page_chunk addr (length data)"
  let ?e = "Spi_Send (addr_cmd BOOT_FLASH_CMD_PAGE_PROGRAM addr) (take ?n data)"
  have ne: "data \<noteq> []" using less.prems(4) by auto
  have n: "?n \<le> length data" "?n \<noteq> 0" using page_chunk_le page_chunk_pos ne by simp_all
  have ad: "unat addr < 2 ^ 24" using less.prems(3,4) by simp
  have pg: "unat addr mod 256 + length (take ?n data) \<le> 256"
    using mod_less_divisor [of 256 "unat addr"] by (auto simp: page_chunk_def HK_FLASH_PROGRAM_SIZE_def min_def)
  obtain r1 w1 where s: "boot_flash_page_program_unlocked hw addr (take ?n data) w = (r1, w1)" by (metis prod.collapse)
  have r1: "r1 = BOOT_FLASH_OK" and rec: "program_loop hw (addr + of_nat ?n) (drop ?n data) w1 = (BOOT_FLASH_OK, w')"
    using less.prems(1) ne s by (auto simp: program_loop.simps [of hw addr data] Let_def split: if_splits)
  have na: "unat (addr + of_nat ?n) = unat addr + ?n"
    using less.prems(3) n(1) by (simp add: unat_word_ariths unat_of_nat_lt)
  have b: "unat (addr + of_nat ?n) + length (drop ?n data) \<le> 2 ^ 24" using less.prems(3) n by (simp add: na)
  have st1: "settled hw (spi_trace w1)" using page_program_unlocked_settled [OF s less.prems(2)] r1 by simp
  have keep1: "mem (spi_trace w1) a = mem (spi_trace w) a" if "a \<notin> {unat addr ..< unat addr + ?n}" for a
    using page_program_unlocked_emits [OF s ad pg] that n settled_unsettled [OF less.prems(2)] by (intro mem_within [of "unat addr" ?n]) simp_all
  have keep2: "mem (spi_trace w') a = mem (spi_trace w1) a" if "a < unat addr + ?n" for a
    using program_loop_emits [OF rec b] that settled_unsettled [OF st1] by (intro mem_within [of "unat addr + ?n"]) (auto simp: na)
  show ?case
  proof (cases "i < ?n")
    case True
    from page_program_unlocked_OK [OF s [unfolded r1]] obtain pre polls where tr:
      "spi_trace w1 = (spi_trace w @ pre) @ [?e] @ polls" "\<forall>e \<in> set pre. harmless e"
      "enabled hw (spi_trace w @ pre)" "completed hw ((spi_trace w @ pre) @ [?e]) polls" by auto
    have "page_safe ?e" using pg by (simp add: cmd_addr_addr_cmd [OF ad] HK_FLASH_PROGRAM_SIZE_def)
    from mem_programmed [OF settled_harmless [OF less.prems(2) tr(2)] tr(3) refl this ad tr(4), of i] True n
    have "mem (spi_trace w1) (unat addr + i) = mem (spi_trace w @ pre) (unat addr + i) AND data ! i"
      by (simp add: tr(1))
    moreover have "mem (spi_trace w @ pre) (unat addr + i) = mem (spi_trace w) (unat addr + i)"
      using tr(2) settled_unsettled [OF less.prems(2)] by (intro mem_outside) (auto simp: harmless_def)
    ultimately show ?thesis using keep2 True by simp
  next
    case False
    have "mem (spi_trace w') (unat (addr + of_nat ?n) + (i - ?n)) =
        mem (spi_trace w1) (unat (addr + of_nat ?n) + (i - ?n)) AND drop ?n data ! (i - ?n)"
      using less.prems(4) False n b by (intro less.hyps [OF _ rec st1]) auto
    then show ?thesis using False n less.prems(4) keep1 by (simp add: na)
  qed
qed

lemma program_stored:
  assumes run: "boot_flash_program hw core0 addr data w = (BOOT_FLASH_OK, w')" and rd: "boot_ready hw w"
    and i: "i < length (pdata data)"
  shows "mem (spi_trace w') (unat addr + i) = mem (spi_trace w) (unat addr + i) AND pdata data ! i"
proof -
  have v: "boot_flash_validate_unlocked addr data (plen data) w = BOOT_FLASH_OK"
    and l: "program_loop hw addr (pdata data) w = (BOOT_FLASH_OK, w')"
    using run by (auto simp: boot_flash_program_def Let_def split: if_splits)
  then have "plen data = length (pdata data)"
    by (cases data) (auto simp: boot_flash_validate_unlocked_def split: if_splits)
  then have "unat addr + length (pdata data) \<le> 2 ^ 24" using validate_OK [OF v] rd by (simp add: boot_ready_def)
  moreover have "settled hw (spi_trace w)" using v rd by (auto simp: boot_ready_def boot_flash_validate_unlocked_def split: if_splits)
  ultimately show ?thesis using program_loop_stored [OF l _ _ i] by simp
qed

end

subsection \<open>A reference chip\<close>

text \<open>
  A chip that works on a command until the next status poll, which finds it complete. The latch is set by
  write enable and consumed by the next erase or program command, which is ignored without it and while the chip works. While the chip works,
  the range it works on reads as zeros; what a power cycle finds unfinished stays like that. It shows
  that the interface can be met, torn writes included, and lets witnesses run the driver.
\<close>

record ref_chip_state =
  rc_mem :: "nat \<Rightarrow> u8"
  rc_wel :: bool
  rc_work :: "(nat \<Rightarrow> u8) option"

definition ref_begin :: "nat \<Rightarrow> nat \<Rightarrow> (nat \<Rightarrow> u8) \<Rightarrow> ref_chip_state \<Rightarrow> ref_chip_state" where
  "ref_begin a n m c = \<lparr>rc_mem = (\<lambda>x. if a \<le> x \<and> x < a + n then 0 else rc_mem c x), rc_wel = False,
     rc_work = Some (\<lambda>x. if a \<le> x \<and> x < a + n then m x else rc_mem c x)\<rparr>"

definition ref_finish :: "ref_chip_state \<Rightarrow> ref_chip_state" where
  "ref_finish c = (case rc_work c of None \<Rightarrow> c | Some m \<Rightarrow> c\<lparr>rc_mem := m, rc_work := None\<rparr>)"

fun ref_step :: "spi_event \<Rightarrow> ref_chip_state \<Rightarrow> ref_chip_state" where
  "ref_step (Spi_Send cmd data) c =
     (if hd cmd = BOOT_FLASH_CMD_WRITE_ENABLE then c\<lparr>rc_wel := True\<rparr>
      else if rc_work c \<noteq> None \<or> \<not> rc_wel c then c
      else if hd cmd = BOOT_FLASH_CMD_SECTOR_ERASE then ref_begin (cmd_addr cmd) HK_FLASH_ERASE_SIZE (\<lambda>a. 0xFF) c
      else if hd cmd = BOOT_FLASH_CMD_PAGE_PROGRAM then
        ref_begin (cmd_addr cmd) (length data) (\<lambda>a. rc_mem c a AND data ! (a - cmd_addr cmd)) c
      else c)"
| "ref_step (Spi_Receive cmd n) c = (if hd cmd = BOOT_FLASH_CMD_READ_STATUS \<and> n = 1 then ref_finish c else c)"
| "ref_step Read_Clock c = c"
| "ref_step Power_Cycle c = c\<lparr>rc_wel := False, rc_work := None\<rparr>"

definition ref_state :: "spi_event list \<Rightarrow> ref_chip_state" where
  "ref_state tr = fold ref_step tr \<lparr>rc_mem = (\<lambda>a. 0xFF), rc_wel = False, rc_work = None\<rparr>"

definition ref_mem :: "spi_event list \<Rightarrow> nat \<Rightarrow> u8" where
  "ref_mem tr = rc_mem (ref_state tr)"

definition ref_reply :: "spi_event list \<Rightarrow> nat \<Rightarrow> u8" where
  "ref_reply tr i = (case last tr of
       Spi_Receive cmd n \<Rightarrow>
         if hd cmd = BOOT_FLASH_CMD_READ then ref_mem (butlast tr) (cmd_addr cmd + i)
         else if hd cmd = BOOT_FLASH_CMD_READ_STATUS then (if rc_wel (ref_state (butlast tr)) then BOOT_FLASH_STATUS_WEL else 0)
         else if i = 0 then 0xEF else if i = 1 then 0x40 else 0x18
     | _ \<Rightarrow> 0)"

definition ref_chip :: spi_hw where
  "ref_chip = \<lparr>hw_reply = ref_reply, hw_clock = (\<lambda>tr. 0)\<rparr>"

lemmas flash_cmds = BOOT_FLASH_CMD_WRITE_ENABLE_def BOOT_FLASH_CMD_SECTOR_ERASE_def
  BOOT_FLASH_CMD_PAGE_PROGRAM_def BOOT_FLASH_CMD_READ_def BOOT_FLASH_CMD_READ_STATUS_def BOOT_FLASH_CMD_READ_ID_def

lemma ref_state_snoc: "ref_state (tr @ [e]) = ref_step e (ref_state tr)"
  by (simp add: ref_state_def)

lemma hd_addr_cmd [simp]: "hd (addr_cmd op addr) = op"
  by (simp add: addr_cmd_def)

lemma ref_status: "hw_reply ref_chip (tr @ [status_read]) 0 = (if rc_wel (ref_state tr) then BOOT_FLASH_STATUS_WEL else 0)"
  by (simp add: ref_chip_def ref_reply_def status_read_def BOOT_FLASH_CMD_READ_STATUS_def BOOT_FLASH_CMD_READ_def)

lemma ref_ends_write: "ends_write ref_chip (tr @ [e]) \<longleftrightarrow> e = Power_Cycle \<or> e = status_read"
  using ref_status [of tr] by (auto simp: ends_write_def BOOT_FLASH_STATUS_WEL_def BOOT_FLASH_STATUS_BUSY_def)

lemma ref_finish_facts [simp]: "rc_wel (ref_finish c) = rc_wel c" "rc_work (ref_finish c) = None"
  "rc_work c = None \<Longrightarrow> ref_finish c = c"
  by (simp_all add: ref_finish_def split: option.splits)

lemma ref_status_state: "ref_state (tr @ [status_read]) = ref_finish (ref_state tr)"
  by (simp add: ref_state_snoc status_read_def)

text \<open>What the chip works on is unsettled.\<close>

lemma ref_work_unsettled: "rc_work (ref_state tr) = Some m \<Longrightarrow> m a \<noteq> ref_mem tr a \<Longrightarrow> a \<in> unsettled ref_chip tr"
proof (induction tr arbitrary: m rule: rev_induct)
  case Nil
  then show ?case by (simp add: ref_state_def)
next
  case (snoc e tr)
  let ?c = "ref_state tr"
  show ?case
  proof (cases "ends_write ref_chip (tr @ [e])")
    case True
    then have "rc_work (ref_state (tr @ [e])) = None" by (auto simp: ref_ends_write ref_status_state) (simp add: ref_state_snoc)
    then show ?thesis using snoc.prems(1) by simp
  next
    case False
    have "a \<in> touched e \<or> rc_work ?c = Some m \<and> ref_mem (tr @ [e]) a = ref_mem tr a"
    proof (cases e)
      case (Spi_Send cmd data)
      then show ?thesis using snoc.prems
        by (auto simp: ref_mem_def ref_state_snoc ref_begin_def split: if_splits)
    next
      case (Spi_Receive cmd n)
      then show ?thesis using snoc.prems by (auto simp: ref_mem_def ref_state_snoc split: if_splits)
    qed (use snoc.prems in \<open>auto simp: ref_mem_def ref_state_snoc\<close>)
    then show ?thesis using snoc.IH [of m] snoc.prems(2) False by (auto simp: unsettled_snoc)
  qed
qed

lemma ref_mem_untouched:
  assumes "a \<notin> touched e" and u: "a \<notin> unsettled ref_chip tr"
  shows "ref_mem (tr @ [e]) a = ref_mem tr a"
proof (cases e)
  case (Spi_Receive cmd n)
  then show ?thesis using ref_work_unsettled [of tr _ a] u
    by (auto simp: ref_mem_def ref_state_snoc ref_finish_def split: option.splits if_splits)
qed (use assms(1) in \<open>auto simp: ref_mem_def ref_state_snoc ref_begin_def split: if_splits\<close>)

lemma ref_enabled: "enabled ref_chip tr \<Longrightarrow> rc_wel (ref_state tr) \<and> rc_work (ref_state tr) = None"
proof -
  assume en: "enabled ref_chip tr"
  then have "tr \<noteq> []" "last tr = status_read" by (simp_all add: enabled_def)
  then obtain u where tr: "tr = u @ [status_read]" by (metis append_butlast_last_id)
  have "rc_wel (ref_state u)" using en ref_status [of u] by (auto simp: enabled_def tr split: if_splits)
  then show ?thesis by (simp add: tr ref_status_state)
qed

lemma ref_polls:
  assumes "set polls \<subseteq> {status_read, Read_Clock}"
  shows "ref_state (tr @ polls) = (if status_read \<in> set polls then ref_finish (ref_state tr) else ref_state tr)"
  using assms
proof (induction polls rule: rev_induct)
  case (snoc p polls)
  have "ref_state ((tr @ polls) @ [p]) = (if p = status_read then ref_finish (ref_state (tr @ polls)) else ref_state (tr @ polls))"
    using snoc.prems ref_status_state [of "tr @ polls"] ref_state_snoc [of "tr @ polls" Read_Clock] by auto
  then show ?case using snoc by auto
qed simp

lemma ref_completed_mem:
  assumes "completed ref_chip tr polls" and "rc_work (ref_state tr) = Some m"
  shows "ref_mem (tr @ polls) = m"
proof -
  have "ref_state (tr @ polls) = ref_finish (ref_state tr)" using assms(1) ref_polls [of polls tr] by (auto simp: completed_def)
  then show ?thesis using assms(2) by (simp add: ref_mem_def ref_finish_def)
qed

lemma ref_begins:
  assumes "enabled ref_chip tr"
  shows "ref_state (tr @ [Spi_Send (addr_cmd BOOT_FLASH_CMD_SECTOR_ERASE addr) []]) =
      ref_begin (cmd_addr (addr_cmd BOOT_FLASH_CMD_SECTOR_ERASE addr)) HK_FLASH_ERASE_SIZE (\<lambda>a. 0xFF) (ref_state tr)"
    "ref_state (tr @ [Spi_Send (addr_cmd BOOT_FLASH_CMD_PAGE_PROGRAM addr) data]) =
      ref_begin (cmd_addr (addr_cmd BOOT_FLASH_CMD_PAGE_PROGRAM addr)) (length data)
        (\<lambda>a. ref_mem tr a AND data ! (a - cmd_addr (addr_cmd BOOT_FLASH_CMD_PAGE_PROGRAM addr))) (ref_state tr)"
  using ref_enabled [OF assms] by (simp_all add: ref_state_snoc ref_mem_def) (simp_all add: flash_cmds)

interpretation ref: nor_chip ref_chip ref_mem
proof
  fix tr e a addr n i polls data
  show "a \<notin> touched e \<Longrightarrow> a \<notin> unsettled ref_chip tr \<Longrightarrow> ref_mem (tr @ [e]) a = ref_mem tr a" by (rule ref_mem_untouched)
  show "hw_reply ref_chip (tr @ [Spi_Receive (addr_cmd BOOT_FLASH_CMD_READ addr) n]) i = ref_mem tr (unat addr + i)"
    if "settled ref_chip tr" "unat addr + n \<le> 2 ^ 24" "i < n"
    using that cmd_addr_addr_cmd [of addr BOOT_FLASH_CMD_READ]
    by (simp add: ref_chip_def ref_reply_def)
  show "ref_mem (tr @ [e] @ polls) a = 0xFF"
    if "enabled ref_chip tr" "e = Spi_Send (addr_cmd BOOT_FLASH_CMD_SECTOR_ERASE addr) []"
      "completed ref_chip (tr @ [e]) polls" "a \<in> touched e"
    using ref_completed_mem [OF that(3)] that(4) by (simp add: that(2) ref_begins(1) [OF that(1)] ref_begin_def)
  show "ref_mem (tr @ [e] @ polls) (unat addr + i) = ref_mem tr (unat addr + i) AND data ! i"
    if "enabled ref_chip tr" "e = Spi_Send (addr_cmd BOOT_FLASH_CMD_PAGE_PROGRAM addr) data" "page_safe e"
      "unat addr < 2 ^ 24" "completed ref_chip (tr @ [e]) polls" "i < length data"
    using ref_completed_mem [OF that(5)] that(6)
    by (simp add: that(2) ref_begins(2) [OF that(1)] ref_begin_def cmd_addr_addr_cmd [OF that(4)])
qed

text \<open>Power lost while it erases leaves zeros.\<close>

lemma ref_torn_erase:
  assumes "enabled ref_chip tr" and "a \<in> touched (Spi_Send (addr_cmd BOOT_FLASH_CMD_SECTOR_ERASE addr) [])"
  shows "ref_mem (tr @ [Spi_Send (addr_cmd BOOT_FLASH_CMD_SECTOR_ERASE addr) []] @ [Power_Cycle]) a = 0"
  using assms(2) ref_state_snoc [of "tr @ [Spi_Send (addr_cmd BOOT_FLASH_CMD_SECTOR_ERASE addr) []]" Power_Cycle]
  by (simp add: ref_mem_def ref_begins(1) [OF assms(1)] ref_begin_def)

text \<open>The driver on this chip, symbolically: every operation succeeds after a fixed exchange.\<close>

lemma ref_read_state [simp]: "rc_wel (ref_state (tr @ [status_read])) = rc_wel (ref_state tr)"
  "rc_work (ref_state (tr @ [status_read])) = None" "ref_state (tr @ [Read_Clock]) = ref_state tr"
  by (simp_all add: ref_status_state) (simp add: ref_state_snoc)

lemma ref_enable_cmd: "rc_wel (ref_state (tr @ [Spi_Send [BOOT_FLASH_CMD_WRITE_ENABLE] []]))"
  "enabled ref_chip (tr @ [Spi_Send [BOOT_FLASH_CMD_WRITE_ENABLE] [], status_read])"
  using ref_status [of "tr @ [Spi_Send [BOOT_FLASH_CMD_WRITE_ENABLE] []]"]
  by (simp_all add: ref_state_snoc enabled_def BOOT_FLASH_STATUS_WEL_def)

lemma ref_write_cmds:
  "enabled ref_chip tr \<Longrightarrow> \<not> rc_wel (ref_state (tr @ [Spi_Send (addr_cmd BOOT_FLASH_CMD_SECTOR_ERASE a) []]))"
  "enabled ref_chip tr \<Longrightarrow> \<not> rc_wel (ref_state (tr @ [Spi_Send (addr_cmd BOOT_FLASH_CMD_PAGE_PROGRAM a) xs]))"
  by (simp_all add: ref_begins ref_begin_def)

abbreviation after_events :: "spi_event list \<Rightarrow> flash_world \<Rightarrow> flash_world" where
  "after_events evs w \<equiv> w\<lparr>spi_trace := spi_trace w @ evs\<rparr>"

lemma ref_wait_ready: "boot_flash_wait_ready_unlocked ref_chip t w = (BOOT_FLASH_OK, after_events [Read_Clock, status_read] w)"
proof -
  have "hw_reply ref_chip (spi_trace w @ [Read_Clock, status_read]) 0 AND BOOT_FLASH_STATUS_BUSY = 0"
    using ref_status [of "spi_trace w @ [Read_Clock]"] by (simp add: BOOT_FLASH_STATUS_WEL_def BOOT_FLASH_STATUS_BUSY_def)
  then show ?thesis
    by (simp add: boot_flash_wait_ready_unlocked_def hal_time_us_def emit_def Let_def wait_ready_loop.simps read_status_eq)
qed

lemma ref_write_enable: "boot_flash_write_enable_unlocked ref_chip w =
    (BOOT_FLASH_OK, after_events [Spi_Send [BOOT_FLASH_CMD_WRITE_ENABLE] [], status_read] w)"
  using ref_status [of "spi_trace w @ [Spi_Send [BOOT_FLASH_CMD_WRITE_ENABLE] []]"]
  by (simp add: boot_flash_write_enable_unlocked_def boot_flash_cmd_def spi_send_def emit_def read_status_eq ref_enable_cmd(1)
      BOOT_FLASH_STATUS_WEL_def)

lemma ref_finish_write: "\<not> rc_wel (ref_state (spi_trace w)) \<Longrightarrow> boot_flash_finish_write_unlocked ref_chip t w =
    (BOOT_FLASH_OK, after_events [Read_Clock, status_read, status_read] w)"
  using ref_status [of "(spi_trace w @ [Read_Clock]) @ [status_read]"]
    ref_read_state(1) [of "spi_trace w @ [Read_Clock]"]
  by (simp add: boot_flash_finish_write_unlocked_def ref_wait_ready read_status_eq del: ref_read_state(1)) 

lemma ref_sector_erase:
  assumes "boot_flash_validate_unlocked addr (Ptr (addr_cmd BOOT_FLASH_CMD_SECTOR_ERASE addr)) HK_FLASH_ERASE_SIZE w = BOOT_FLASH_OK"
    and "unat addr mod HK_FLASH_ERASE_SIZE = 0"
  shows "boot_flash_sector_erase ref_chip True addr w = (BOOT_FLASH_OK,
    after_events [Spi_Send [BOOT_FLASH_CMD_WRITE_ENABLE] [], status_read,
      Spi_Send (addr_cmd BOOT_FLASH_CMD_SECTOR_ERASE addr) [], Read_Clock, status_read, status_read] w)"
  using assms ref_write_cmds(1) [OF ref_enable_cmd(2) [of "spi_trace w"], of addr]
  by (simp add: boot_flash_sector_erase_def ref_write_enable boot_flash_cmd_def spi_send_def emit_def ref_finish_write Let_def)

lemma ref_program_one_page:
  assumes "boot_flash_validate_unlocked addr (Ptr data) (length data) w = BOOT_FLASH_OK" and "data \<noteq> []"
    and "unat addr mod HK_FLASH_PROGRAM_SIZE + length data \<le> HK_FLASH_PROGRAM_SIZE"
  shows "boot_flash_program ref_chip True addr (Ptr data) w = (BOOT_FLASH_OK,
    after_events [Spi_Send [BOOT_FLASH_CMD_WRITE_ENABLE] [], status_read,
      Spi_Send (addr_cmd BOOT_FLASH_CMD_PAGE_PROGRAM addr) data, Read_Clock, status_read, status_read] w)"
proof -
  have c: "page_chunk addr (length data) = length data" using assms(3) by (simp add: page_chunk_def)
  show ?thesis
    using assms(1,2) ref_write_cmds(2) [OF ref_enable_cmd(2) [of "spi_trace w"], of addr data]
    by (simp add: boot_flash_program_def program_loop.simps c boot_flash_page_program_unlocked_def ref_write_enable
        spi_send_def emit_def ref_finish_write Let_def)
qed

lemma ref_init:
  assumes "hz \<noteq> 0"
  shows "boot_flash_init ref_chip True hz w = (BOOT_FLASH_OK,
    \<lparr>boot_info = \<lparr>bf_jedec_id = [0xEF, 0x40, 0x18], bf_capacity = 0x1000000, bf_initialized = True, bf_faulted = False\<rparr>,
     spi_trace = spi_trace w @ [Spi_Receive [BOOT_FLASH_CMD_READ_ID] 3, Read_Clock, status_read]\<rparr>)"
proof -
  have "map (hw_reply ref_chip (tr @ [Spi_Receive [BOOT_FLASH_CMD_READ_ID] 3])) [0..<3] = [0xEF, 0x40, 0x18]" for tr
    by (simp add: upt_rec ref_chip_def ref_reply_def flash_cmds)
  then show ?thesis using assms
    by (simp add: boot_flash_init_def spi_receive_def emit_def Let_def ref_wait_ready
        HK_FLASH_MIN_CAPACITY_def HK_FLASH_MAX_CAPACITY_def)
qed
section \<open>Properties\<close>

text \<open>C22. For every chip, however it answers, waiting for the busy bit ends after at most five million polls,
  with success exactly when a poll found it clear, and with the fault flag set otherwise; nothing but status
  polls and clock reads appears on the bus.\<close>

theorem boot_flash_wait_terminates:
  shows "\<exists>evs r w'. boot_flash_wait_ready_unlocked hw timeout w = (r, w') \<and> spi_trace w' = spi_trace w @ evs \<and>
    length evs \<le> 2 * BOOT_FLASH_POLL_FAILSAFE + 1 \<and> set evs \<subseteq> {status_read, Read_Clock} \<and>
    (r = BOOT_FLASH_OK \<and> boot_info w' = boot_info w \<and> last evs = status_read \<and>
       hw_reply hw (spi_trace w') 0 AND BOOT_FLASH_STATUS_BUSY = 0 \<or>
     r = BOOT_FLASH_ERROR_TIMEOUT \<and> boot_info w' = (boot_info w)\<lparr>bf_faulted := True\<rparr>)"
proof -
  have loop: "\<exists>evs. spi_trace w' = spi_trace w @ evs \<and> length evs \<le> 2 * (BOOT_FLASH_POLL_FAILSAFE - p) \<and>
      set evs \<subseteq> {status_read, Read_Clock} \<and>
      (r = BOOT_FLASH_OK \<and> boot_info w' = boot_info w \<and> evs \<noteq> [] \<and> last evs = status_read \<and>
         hw_reply hw (spi_trace w') 0 AND BOOT_FLASH_STATUS_BUSY = 0 \<or>
       r = BOOT_FLASH_ERROR_TIMEOUT \<and> boot_info w' = (boot_info w)\<lparr>bf_faulted := True\<rparr>)"
    if "wait_ready_loop hw t s p w = (r, w')" "p < BOOT_FLASH_POLL_FAILSAFE" for t s p w r w'
    using that
  proof (induction hw t s p w rule: wait_ready_loop.induct)
    case (1 hw t s p w)
    let ?w1 = "w\<lparr>spi_trace := spi_trace w @ [status_read]\<rparr>"
    obtain now w2 where s2: "hal_time_us hw ?w1 = (now, w2)" by (metis prod.collapse)
    have w2: "w2 = w\<lparr>spi_trace := spi_trace w @ [status_read, Read_Clock]\<rparr>"
      using s2 by (auto simp: hal_time_us_def emit_def Let_def)
    show ?case
    proof (cases "hw_reply hw (spi_trace w @ [status_read]) 0 AND BOOT_FLASH_STATUS_BUSY = 0 \<or>
        now - s \<ge> ucast t \<or> p + 1 \<ge> BOOT_FLASH_POLL_FAILSAFE")
      case True
      then show ?thesis using "1.prems" s2 w2
        by (auto simp: wait_ready_loop.simps [of hw t s p w] read_status_eq boot_flash_mark_fault_def split: if_splits)
    next
      case False
      then have rec: "wait_ready_loop hw t s (p + 1) w2 = (r, w')"
        using "1.prems"(1) s2 by (auto simp: wait_ready_loop.simps [of hw t s p w] read_status_eq)
      have "p + 1 < BOOT_FLASH_POLL_FAILSAFE" using False by simp
      with "1.IH" [OF read_status_eq [symmetric] refl _ s2 [symmetric] refl _ rec] False obtain evs where
        "spi_trace w' = spi_trace w2 @ evs" "length evs \<le> 2 * (BOOT_FLASH_POLL_FAILSAFE - (p + 1))"
        "set evs \<subseteq> {status_read, Read_Clock}"
        "r = BOOT_FLASH_OK \<and> boot_info w' = boot_info w2 \<and> evs \<noteq> [] \<and> last evs = status_read \<and>
           hw_reply hw (spi_trace w') 0 AND BOOT_FLASH_STATUS_BUSY = 0 \<or>
         r = BOOT_FLASH_ERROR_TIMEOUT \<and> boot_info w' = (boot_info w2)\<lparr>bf_faulted := True\<rparr>" by blast
      then show ?thesis using w2 False by (intro exI [of _ "[status_read, Read_Clock] @ evs"]) auto
    qed
  qed
  obtain t0 w1 where s: "hal_time_us hw w = (t0, w1)" by (metis prod.collapse)
  have w1: "w1 = w\<lparr>spi_trace := spi_trace w @ [Read_Clock]\<rparr>" using s by (auto simp: hal_time_us_def emit_def Let_def)
  obtain r w' where l: "wait_ready_loop hw timeout t0 0 w1 = (r, w')" by (metis prod.collapse)
  have "boot_flash_wait_ready_unlocked hw timeout w = (r, w')" using s l by (simp add: boot_flash_wait_ready_unlocked_def)
  moreover from loop [OF l] obtain evs where e: "spi_trace w' = spi_trace w1 @ evs" "length evs \<le> 2 * BOOT_FLASH_POLL_FAILSAFE"
    "set evs \<subseteq> {status_read, Read_Clock}"
    "r = BOOT_FLASH_OK \<and> boot_info w' = boot_info w1 \<and> evs \<noteq> [] \<and> last evs = status_read \<and>
       hw_reply hw (spi_trace w') 0 AND BOOT_FLASH_STATUS_BUSY = 0 \<or>
     r = BOOT_FLASH_ERROR_TIMEOUT \<and> boot_info w' = (boot_info w1)\<lparr>bf_faulted := True\<rparr>"
    by (auto simp: BOOT_FLASH_POLL_FAILSAFE_def)
  ultimately show ?thesis using w1 by (intro exI [of _ "Read_Clock # evs"] exI [of _ r] exI [of _ w']) auto
qed

end
