(* ===== verification/Internal_Flash.thy ===== *)
theory Internal_Flash
  imports Boot_Flash
begin

text \<open>
  \<open>firmware/src/storage/internal_flash.c\<close>: the partition table of the boot flash and the checked access
  to it. Partition ids are numbers, as the enum argument may be out of range. The theory states the
  interface \<open>flash_device\<close> that the settings store is a client of, and shows that every NOR chip behind
  the driver provides it (a sublocale).
\<close>

section \<open>The code\<close>

datatype internal_flash_result =
    INTERNAL_FLASH_OK
  | INTERNAL_FLASH_ERROR_INVALID_ARGUMENT
  | INTERNAL_FLASH_ERROR_NOT_INITIALIZED
  | INTERNAL_FLASH_ERROR_WRONG_CORE
  | INTERNAL_FLASH_ERROR_UNSUPPORTED_DEVICE
  | INTERNAL_FLASH_ERROR_PARTITION_UNAVAILABLE
  | INTERNAL_FLASH_ERROR_OUT_OF_BOUNDS
  | INTERNAL_FLASH_ERROR_ALIGNMENT
  | INTERNAL_FLASH_ERROR_READ_ONLY
  | INTERNAL_FLASH_ERROR_TIMEOUT
  | INTERNAL_FLASH_ERROR_WRITE_ENABLE
  | INTERNAL_FLASH_ERROR_FAULTED

definition INTERNAL_FLASH_PARTITION_FIRMWARE :: nat where "INTERNAL_FLASH_PARTITION_FIRMWARE = 0"
definition INTERNAL_FLASH_PARTITION_SETTINGS_0 :: nat where "INTERNAL_FLASH_PARTITION_SETTINGS_0 = 1"
definition INTERNAL_FLASH_PARTITION_SETTINGS_1 :: nat where "INTERNAL_FLASH_PARTITION_SETTINGS_1 = 2"
definition INTERNAL_FLASH_PARTITION_LEGACY_RESERVED :: nat where "INTERNAL_FLASH_PARTITION_LEGACY_RESERVED = 3"
definition INTERNAL_FLASH_PARTITION_USERFS :: nat where "INTERNAL_FLASH_PARTITION_USERFS = 4"

record internal_flash_partition_t =
  pt_name :: string
  pt_offset :: u32
  pt_size :: u32
  pt_required_capacity :: u32
  pt_runtime_writable :: bool

record internal_flash_partition_info_t =
  pi_name :: string
  pi_offset :: u32
  pi_size :: u32
  pi_required_capacity :: u32
  pi_erase_size :: nat
  pi_program_size :: nat
  pi_runtime_writable :: bool
  pi_available :: bool

record internal_flash_info =
  if_jedec_id :: "u8 list"
  if_capacity :: u32
  if_initialized :: bool
  if_faulted :: bool

record internal_world =
  iw_flash :: flash_world
  iw_info :: internal_flash_info

text \<open>The table with the offsets and sizes of the generated layout of the sen0305 board.\<close>

definition g_partitions :: "internal_flash_partition_t list" where
  "g_partitions =
     [\<lparr>pt_name = ''firmware'', pt_offset = 0x00000000, pt_size = 0x007FE000,
       pt_required_capacity = 0x00800000, pt_runtime_writable = False\<rparr>,
      \<lparr>pt_name = ''settings_0'', pt_offset = 0x007FE000, pt_size = 0x00001000,
       pt_required_capacity = 0x00800000, pt_runtime_writable = True\<rparr>,
      \<lparr>pt_name = ''settings_1'', pt_offset = 0x007FF000, pt_size = 0x00001000,
       pt_required_capacity = 0x00800000, pt_runtime_writable = True\<rparr>,
      \<lparr>pt_name = ''legacy_reserved'', pt_offset = 0x00800000, pt_size = 0x00470000,
       pt_required_capacity = 0x01000000, pt_runtime_writable = False\<rparr>,
      \<lparr>pt_name = ''userfs'', pt_offset = 0x00C70000, pt_size = 0x00390000,
       pt_required_capacity = 0x01000000, pt_runtime_writable = True\<rparr>]"

definition internal_flash_partition :: "nat \<Rightarrow> internal_flash_partition_t option" where
  "internal_flash_partition pid = (if pid \<ge> length g_partitions then None else Some (g_partitions ! pid))"

definition internal_flash_from_boot :: "boot_flash_result \<Rightarrow> internal_flash_result" where
  "internal_flash_from_boot result = (case result of
       BOOT_FLASH_OK \<Rightarrow> INTERNAL_FLASH_OK
     | BOOT_FLASH_ERROR_INVALID_ARGUMENT \<Rightarrow> INTERNAL_FLASH_ERROR_INVALID_ARGUMENT
     | BOOT_FLASH_ERROR_NOT_INITIALIZED \<Rightarrow> INTERNAL_FLASH_ERROR_NOT_INITIALIZED
     | BOOT_FLASH_ERROR_WRONG_CORE \<Rightarrow> INTERNAL_FLASH_ERROR_WRONG_CORE
     | BOOT_FLASH_ERROR_UNSUPPORTED_DEVICE \<Rightarrow> INTERNAL_FLASH_ERROR_UNSUPPORTED_DEVICE
     | BOOT_FLASH_ERROR_OUT_OF_BOUNDS \<Rightarrow> INTERNAL_FLASH_ERROR_OUT_OF_BOUNDS
     | BOOT_FLASH_ERROR_ALIGNMENT \<Rightarrow> INTERNAL_FLASH_ERROR_ALIGNMENT
     | BOOT_FLASH_ERROR_TIMEOUT \<Rightarrow> INTERNAL_FLASH_ERROR_TIMEOUT
     | BOOT_FLASH_ERROR_WRITE_ENABLE \<Rightarrow> INTERNAL_FLASH_ERROR_WRITE_ENABLE
     | BOOT_FLASH_ERROR_FAULTED \<Rightarrow> INTERNAL_FLASH_ERROR_FAULTED)"

definition internal_flash_refresh_info :: "internal_world \<Rightarrow> internal_world" where
  "internal_flash_refresh_info w =
     (let info = boot_flash_get_info (iw_flash w)
      in w\<lparr>iw_info := \<lparr>if_jedec_id = bf_jedec_id info, if_capacity = bf_capacity info,
            if_initialized = bf_initialized info, if_faulted = bf_faulted info\<rparr>\<rparr>)"

definition internal_flash_range_valid :: "u32 \<Rightarrow> u32 \<Rightarrow> nat \<Rightarrow> bool" where
  "internal_flash_range_valid partition_size offset len =
     (offset \<le> partition_size \<and> len \<le> unat (partition_size - offset))"

definition internal_flash_validate ::
  "nat \<Rightarrow> u32 \<Rightarrow> nat \<Rightarrow> bool \<Rightarrow> internal_world \<Rightarrow>
     internal_flash_result \<times> internal_flash_partition_t option \<times> internal_world" where
  "internal_flash_validate pid offset len require_writable w =
     (let selected = internal_flash_partition pid;
          w = internal_flash_refresh_info w
      in if \<not> if_initialized (iw_info w) then (INTERNAL_FLASH_ERROR_NOT_INITIALIZED, None, w)
         else if if_faulted (iw_info w) then (INTERNAL_FLASH_ERROR_FAULTED, None, w)
         else case selected of
                None \<Rightarrow> (INTERNAL_FLASH_ERROR_INVALID_ARGUMENT, None, w)
              | Some p \<Rightarrow>
                  if pt_required_capacity p > if_capacity (iw_info w) then
                    (INTERNAL_FLASH_ERROR_PARTITION_UNAVAILABLE, None, w)
                  else if \<not> internal_flash_range_valid (pt_size p) offset len then
                    (INTERNAL_FLASH_ERROR_OUT_OF_BOUNDS, None, w)
                  else if require_writable \<and> \<not> pt_runtime_writable p then
                    (INTERNAL_FLASH_ERROR_READ_ONLY, None, w)
                  else (INTERNAL_FLASH_OK, Some p, w))"

definition internal_flash_init ::
  "spi_hw \<Rightarrow> bool \<Rightarrow> u32 \<Rightarrow> internal_world \<Rightarrow> internal_flash_result \<times> internal_world" where
  "internal_flash_init hw core0 hz w =
     (let (result, f) = boot_flash_init hw core0 hz (iw_flash w)
      in (internal_flash_from_boot result, internal_flash_refresh_info (w\<lparr>iw_flash := f\<rparr>)))"

definition internal_flash_get_info :: "internal_world \<Rightarrow> internal_flash_info \<times> internal_world" where
  "internal_flash_get_info w = (let w = internal_flash_refresh_info w in (iw_info w, w))"

definition internal_flash_partition_info ::
  "nat \<Rightarrow> internal_world \<Rightarrow> internal_flash_result \<times> internal_flash_partition_info_t option \<times> internal_world" where
  "internal_flash_partition_info pid w =
     (case internal_flash_partition pid of
        None \<Rightarrow> (INTERNAL_FLASH_ERROR_INVALID_ARGUMENT, None, w)
      | Some p \<Rightarrow>
          let w = internal_flash_refresh_info w; i = iw_info w
          in (if if_initialized i then INTERNAL_FLASH_OK else INTERNAL_FLASH_ERROR_NOT_INITIALIZED,
              Some \<lparr>pi_name = pt_name p, pi_offset = pt_offset p, pi_size = pt_size p,
                pi_required_capacity = pt_required_capacity p, pi_erase_size = HK_FLASH_ERASE_SIZE,
                pi_program_size = HK_FLASH_PROGRAM_SIZE, pi_runtime_writable = pt_runtime_writable p,
                pi_available = (if_initialized i \<and> \<not> if_faulted i \<and> pt_required_capacity p \<le> if_capacity i)\<rparr>, w))"

definition internal_flash_read ::
  "spi_hw \<Rightarrow> bool \<Rightarrow> nat \<Rightarrow> u32 \<Rightarrow> u8 cptr \<Rightarrow> internal_world \<Rightarrow>
     internal_flash_result \<times> u8 list \<times> internal_world" where
  "internal_flash_read hw core0 pid offset data w =
     (case internal_flash_validate pid offset (plen data) False w of
        (result, part, w) \<Rightarrow>
          if result \<noteq> INTERNAL_FLASH_OK then (result, pdata data, w)
          else if plen data \<noteq> 0 \<and> is_null data then (INTERNAL_FLASH_ERROR_INVALID_ARGUMENT, pdata data, w)
          else let (r, bytes, f) = boot_flash_read hw core0 (pt_offset (the part) + offset) data (iw_flash w)
               in (internal_flash_from_boot r, bytes, w\<lparr>iw_flash := f\<rparr>))"

function erase_loop ::
  "spi_hw \<Rightarrow> bool \<Rightarrow> u32 \<Rightarrow> u32 \<Rightarrow> nat \<Rightarrow> internal_world \<Rightarrow> internal_flash_result \<times> internal_world" where
  "erase_loop hw core0 base offset len w =
     (if len = 0 then (INTERNAL_FLASH_OK, w)
      else
        let (r, f) = boot_flash_sector_erase hw core0 (base + offset) (iw_flash w);
            w = w\<lparr>iw_flash := f\<rparr>; result = internal_flash_from_boot r
        in if result \<noteq> INTERNAL_FLASH_OK then (result, w)
           else erase_loop hw core0 base (offset + of_nat HK_FLASH_ERASE_SIZE) (len - HK_FLASH_ERASE_SIZE) w)"
  by pat_completeness auto
termination
  by (relation "measure (\<lambda>(hw, c, b, off, len, w). len)") (auto simp: HK_FLASH_ERASE_SIZE_def)

declare erase_loop.simps [simp del]

definition internal_flash_erase ::
  "spi_hw \<Rightarrow> bool \<Rightarrow> nat \<Rightarrow> u32 \<Rightarrow> nat \<Rightarrow> internal_world \<Rightarrow> internal_flash_result \<times> internal_world" where
  "internal_flash_erase hw core0 pid offset len w =
     (case internal_flash_validate pid offset len True w of
        (result, part, w) \<Rightarrow>
          if result \<noteq> INTERNAL_FLASH_OK then (result, w)
          else if unat offset mod HK_FLASH_ERASE_SIZE \<noteq> 0 \<or> len mod HK_FLASH_ERASE_SIZE \<noteq> 0 then
            (INTERNAL_FLASH_ERROR_ALIGNMENT, w)
          else erase_loop hw core0 (pt_offset (the part)) offset len w)"

definition internal_flash_program ::
  "spi_hw \<Rightarrow> bool \<Rightarrow> nat \<Rightarrow> u32 \<Rightarrow> u8 cptr \<Rightarrow> internal_world \<Rightarrow> internal_flash_result \<times> internal_world" where
  "internal_flash_program hw core0 pid offset data w =
     (case internal_flash_validate pid offset (plen data) True w of
        (result, part, w) \<Rightarrow>
          if result \<noteq> INTERNAL_FLASH_OK then (result, w)
          else if plen data \<noteq> 0 \<and> is_null data then (INTERNAL_FLASH_ERROR_INVALID_ARGUMENT, w)
          else let (r, f) = boot_flash_program hw core0 (pt_offset (the part) + offset) data (iw_flash w)
               in (internal_flash_from_boot r, w\<lparr>iw_flash := f\<rparr>))"

definition internal_flash_result_name :: "internal_flash_result \<Rightarrow> string" where
  "internal_flash_result_name result = (case result of
       INTERNAL_FLASH_OK \<Rightarrow> ''ok''
     | INTERNAL_FLASH_ERROR_INVALID_ARGUMENT \<Rightarrow> ''invalid-argument''
     | INTERNAL_FLASH_ERROR_NOT_INITIALIZED \<Rightarrow> ''not-initialized''
     | INTERNAL_FLASH_ERROR_WRONG_CORE \<Rightarrow> ''wrong-core''
     | INTERNAL_FLASH_ERROR_UNSUPPORTED_DEVICE \<Rightarrow> ''unsupported-device''
     | INTERNAL_FLASH_ERROR_PARTITION_UNAVAILABLE \<Rightarrow> ''partition-unavailable''
     | INTERNAL_FLASH_ERROR_OUT_OF_BOUNDS \<Rightarrow> ''out-of-bounds''
     | INTERNAL_FLASH_ERROR_ALIGNMENT \<Rightarrow> ''alignment''
     | INTERNAL_FLASH_ERROR_READ_ONLY \<Rightarrow> ''read-only''
     | INTERNAL_FLASH_ERROR_TIMEOUT \<Rightarrow> ''timeout''
     | INTERNAL_FLASH_ERROR_WRITE_ENABLE \<Rightarrow> ''write-enable''
     | INTERNAL_FLASH_ERROR_FAULTED \<Rightarrow> ''faulted'')"

section \<open>What an operation touches\<close>

lemma partition_cases:
  assumes "internal_flash_partition pid = Some p"
  obtains "pid = 0" "p = g_partitions ! 0" | "pid = 1" "p = g_partitions ! 1" | "pid = 2" "p = g_partitions ! 2"
    | "pid = 3" "p = g_partitions ! 3" | "pid = 4" "p = g_partitions ! 4"
proof -
  have "pid < 5" "p = g_partitions ! pid" using assms by (auto simp: internal_flash_partition_def g_partitions_def split: if_splits)
  then show ?thesis using that by (auto simp: less_Suc_eq numeral_eq_Suc)
qed

definition part_base :: "nat \<Rightarrow> nat" where
  "part_base pid = (case internal_flash_partition pid of None \<Rightarrow> 0 | Some p \<Rightarrow> unat (pt_offset p))"

definition part_size :: "nat \<Rightarrow> nat" where
  "part_size pid = (case internal_flash_partition pid of None \<Rightarrow> 0 | Some p \<Rightarrow> unat (pt_size p))"

definition part_writable :: "nat \<Rightarrow> bool" where
  "part_writable pid = (case internal_flash_partition pid of None \<Rightarrow> False | Some p \<Rightarrow> pt_runtime_writable p)"

lemma partitions_disjoint:
  "p \<noteq> q \<Longrightarrow> i < part_size p \<Longrightarrow> j < part_size q \<Longrightarrow> part_base p + i \<noteq> part_base q + j"
proof -
  assume "p \<noteq> q" "i < part_size p" "j < part_size q"
  moreover have "r < 5" if "k < part_size r" for k r
    using that by (auto simp: part_size_def internal_flash_partition_def g_partitions_def split: if_splits)
  ultimately have "p \<in> {0,1,2,3,4}" "q \<in> {0,1,2,3,4}" by force+
  then show ?thesis using \<open>p \<noteq> q\<close> \<open>i < part_size p\<close> \<open>j < part_size q\<close>
    by (auto simp: part_size_def part_base_def internal_flash_partition_def g_partitions_def)
qed

lemma validate_selected:
  assumes "internal_flash_validate pid offset len wr w = (r, part, w')"
  shows "iw_flash w' = iw_flash w \<and> (r = INTERNAL_FLASH_OK \<longrightarrow> (\<exists>p. part = Some p \<and> internal_flash_partition pid = Some p \<and>
    pt_offset p = of_nat (part_base pid) \<and> unat (pt_offset p + offset) = part_base pid + unat offset \<and>
    unat offset + len \<le> part_size pid \<and> part_base pid + part_size pid \<le> 2 ^ 24 \<and> (wr \<longrightarrow> part_writable pid)))"
proof -
  have sel: "internal_flash_partition pid = Some p \<Longrightarrow> internal_flash_range_valid (pt_size p) offset len \<Longrightarrow>
      pt_offset p = of_nat (part_base pid) \<and> unat (pt_offset p + offset) = part_base pid + unat offset \<and>
      unat offset + len \<le> part_size pid \<and> part_base pid + part_size pid \<le> 2 ^ 24" for p
  proof -
    assume p: "internal_flash_partition pid = Some p" and v: "internal_flash_range_valid (pt_size p) offset len"
    then have a: "unat offset + len \<le> unat (pt_size p)"
      by (auto simp: internal_flash_range_valid_def unat_sub word_le_nat_alt)
    have b: "unat (pt_offset p) + unat (pt_size p) \<le> 2 ^ 24"
      using p by (cases rule: partition_cases) (simp_all add: g_partitions_def)
    then have "unat (pt_offset p + offset) = unat (pt_offset p) + unat offset"
      using a by (simp add: unat_word_ariths)
    then show ?thesis using a b by (simp add: part_base_def part_size_def p)
  qed
  show ?thesis using assms sel
    by (auto simp: internal_flash_validate_def internal_flash_refresh_info_def Let_def part_writable_def
        split: if_splits option.splits)
qed

lemma erase_loop_emits:
  "erase_loop hw core0 base offset len w = (r, w') \<Longrightarrow> boot_wf (iw_flash w) \<Longrightarrow> len mod HK_FLASH_ERASE_SIZE = 0 \<Longrightarrow>
    unat base + unat offset + len \<le> 2 ^ 24 \<Longrightarrow>
    emits (within (unat base + unat offset) len) (iw_flash w) (iw_flash w') \<and> boot_wf (iw_flash w')"
proof (induction hw core0 base offset len w rule: erase_loop.induct)
  case (1 hw core0 base offset len w)
  show ?case
  proof (cases "len = 0")
    case True
    then show ?thesis using "1.prems" by (simp add: erase_loop.simps [of hw core0 base offset 0])
  next
    case False
    obtain r1 f where s: "boot_flash_sector_erase hw core0 (base + offset) (iw_flash w) = (r1, f)" by (metis prod.collapse)
    have len: "HK_FLASH_ERASE_SIZE \<le> len" using False "1.prems"(3)
      by (metis HK_FLASH_ERASE_SIZE_def mod_less not_less)
    have ad: "unat (base + offset) = unat base + unat offset" using "1.prems"(4) by (simp add: unat_word_ariths)
    note e1 = boot_flash_sector_erase_emits [OF s "1.prems"(2), unfolded ad]
    have wf1: "boot_wf f" using e1 only_fault_wf "1.prems"(2) by blast
    have e1': "emits (within (unat base + unat offset) len) (iw_flash w) f"
      using e1 len by (auto elim!: emits_within_mono)
    show ?thesis
    proof (cases "internal_flash_from_boot r1 = INTERNAL_FLASH_OK")
      case err: False
      then have "w' = w\<lparr>iw_flash := f\<rparr>"
        using "1.prems"(1) False s by (auto simp: erase_loop.simps [of hw core0 base offset len])
      then show ?thesis using e1' wf1 by simp
    next
      case True
      let ?w1 = "w\<lparr>iw_flash := f\<rparr>"
      have rec: "erase_loop hw core0 base (offset + of_nat HK_FLASH_ERASE_SIZE) (len - HK_FLASH_ERASE_SIZE) ?w1 = (r, w')"
        using "1.prems"(1) False s True by (simp add: erase_loop.simps [of hw core0 base offset len])
      have oo: "unat (offset + of_nat HK_FLASH_ERASE_SIZE) = unat offset + HK_FLASH_ERASE_SIZE"
        using "1.prems"(4) len by (simp add: HK_FLASH_ERASE_SIZE_def unat_word_ariths)
      have "emits (within (unat base + unat (offset + of_nat HK_FLASH_ERASE_SIZE)) (len - HK_FLASH_ERASE_SIZE)) (iw_flash ?w1) (iw_flash w') \<and>
          boot_wf (iw_flash w')"
        using True wf1 "1.prems"(3,4) len oo by (intro "1.IH" [OF False refl s [symmetric] refl refl _ rec]) (simp_all add: le_mod_geq)
      then have "emits (within (unat base + unat offset) len) f (iw_flash w')" "boot_wf (iw_flash w')"
        using len by (auto elim!: emits_within_mono simp: oo)
      then show ?thesis using e1' by (auto intro: emits_trans)
    qed
  qed
qed

lemma internal_flash_read_emits:
  assumes "internal_flash_read hw core0 pid offset data w = (r, bytes, w')" and "boot_wf (iw_flash w)"
  shows "emits harmless (iw_flash w) (iw_flash w') \<and> boot_wf (iw_flash w') \<and>
    boot_info (iw_flash w') = boot_info (iw_flash w) \<and> length bytes = length (pdata data)"
proof -
  obtain r0 part w0 where v: "internal_flash_validate pid offset (plen data) False w = (r0, part, w0)" by (metis prod_cases3)
  have w0: "iw_flash w0 = iw_flash w" using validate_selected [OF v] by simp
  obtain r1 bs f where s: "boot_flash_read hw core0 (pt_offset (the part) + offset) data (iw_flash w0) = (r1, bs, f)" by (metis prod_cases3)
  from boot_flash_read_emits [OF s] w0 assms v s show ?thesis
    by (auto simp: internal_flash_read_def boot_wf_def split: if_splits)
qed

lemma internal_flash_erase_emits:
  assumes "internal_flash_erase hw core0 pid offset len w = (r, w')" and wf: "boot_wf (iw_flash w)"
  shows "boot_wf (iw_flash w') \<and> (emits harmless (iw_flash w) (iw_flash w') \<or> part_writable pid \<and>
    unat offset + len \<le> part_size pid \<and>
    emits (within (part_base pid + unat offset) len) (iw_flash w) (iw_flash w'))"
proof -
  obtain r0 part w0 where v: "internal_flash_validate pid offset len True w = (r0, part, w0)" by (metis prod_cases3)
  have w0: "iw_flash w0 = iw_flash w" using validate_selected [OF v] by simp
  show ?thesis
  proof (cases "r0 = INTERNAL_FLASH_OK \<and> unat offset mod HK_FLASH_ERASE_SIZE = 0 \<and> len mod HK_FLASH_ERASE_SIZE = 0")
    case False
    then show ?thesis using assms v w0 by (auto simp: internal_flash_erase_def split: if_splits)
  next
    case True
    with validate_selected [OF v] obtain p where p: "part = Some p" "pt_offset p = of_nat (part_base pid)"
      "unat offset + len \<le> part_size pid" "part_base pid + part_size pid \<le> 2 ^ 24" "part_writable pid" by blast
    have base: "unat (pt_offset p) = part_base pid" using p(2,4) by (simp add: unat_of_nat_lt)
    have "erase_loop hw core0 (pt_offset p) offset len w0 = (r, w')"
      using assms(1) v True p(1) by (simp add: internal_flash_erase_def)
    from erase_loop_emits [OF this] wf w0 True p base show ?thesis by simp
  qed
qed

lemma internal_flash_program_emits:
  assumes "internal_flash_program hw core0 pid offset data w = (r, w')" and wf: "boot_wf (iw_flash w)"
  shows "boot_wf (iw_flash w') \<and> (emits harmless (iw_flash w) (iw_flash w') \<or> part_writable pid \<and>
    unat offset + plen data \<le> part_size pid \<and>
    emits (within (part_base pid + unat offset) (plen data)) (iw_flash w) (iw_flash w'))"
proof -
  obtain r0 part w0 where v: "internal_flash_validate pid offset (plen data) True w = (r0, part, w0)" by (metis prod_cases3)
  have w0: "iw_flash w0 = iw_flash w" using validate_selected [OF v] by simp
  show ?thesis
  proof (cases "r0 = INTERNAL_FLASH_OK \<and> \<not> (plen data \<noteq> 0 \<and> is_null data)")
    case False
    then show ?thesis using assms v w0 by (auto simp: internal_flash_program_def split: if_splits)
  next
    case True
    with validate_selected [OF v] obtain p where p: "part = Some p" "unat (pt_offset p + offset) = part_base pid + unat offset"
      "unat offset + plen data \<le> part_size pid" "part_writable pid" by blast
    obtain r1 f where s: "boot_flash_program hw core0 (pt_offset p + offset) data (iw_flash w0) = (r1, f)" by (metis prod.collapse)
    from boot_flash_program_emits [OF s] wf w0 only_fault_wf [of "iw_flash w0" f] p
    have "emits (within (part_base pid + unat offset) (plen data)) (iw_flash w) f" "boot_wf f" by auto
    moreover have "w' = w0\<lparr>iw_flash := f\<rparr>" using assms(1) v True p(1) s by (auto simp: internal_flash_program_def split: if_splits)
    ultimately show ?thesis using p by simp
  qed
qed

section \<open>Histories of the partition API\<close>

definition power_on :: internal_world where
  "power_on = \<lparr>iw_flash = \<lparr>boot_info = \<lparr>bf_jedec_id = [0, 0, 0], bf_capacity = 0, bf_initialized = False, bf_faulted = False\<rparr>,
     spi_trace = []\<rparr>,
     iw_info = \<lparr>if_jedec_id = [0, 0, 0], if_capacity = 0, if_initialized = False, if_faulted = False\<rparr>\<rparr>"

text \<open>After a power cycle the driver starts again on a chip that has the history so far.\<close>

definition reboot :: "spi_event list \<Rightarrow> internal_world" where
  "reboot tr = power_on\<lparr>iw_flash := (iw_flash power_on)\<lparr>spi_trace := tr @ [Power_Cycle]\<rparr>\<rparr>"

text \<open>Any caller on any core, with any arguments, and power cycles between calls.\<close>

inductive internal_flash_step :: "spi_hw \<Rightarrow> internal_world \<Rightarrow> internal_world \<Rightarrow> bool" for hw where
  step_power: "internal_flash_step hw w (reboot (spi_trace (iw_flash w)))"
| step_init: "internal_flash_init hw core0 hz w = (r, w') \<Longrightarrow> internal_flash_step hw w w'"
| step_info: "internal_flash_get_info w = (info, w') \<Longrightarrow> internal_flash_step hw w w'"
| step_partition_info: "internal_flash_partition_info pid w = (r, pinfo, w') \<Longrightarrow> internal_flash_step hw w w'"
| step_read: "internal_flash_read hw core0 pid offset data w = (r, bytes, w') \<Longrightarrow> internal_flash_step hw w w'"
| step_erase: "internal_flash_erase hw core0 pid offset len w = (r, w') \<Longrightarrow> internal_flash_step hw w w'"
| step_program: "internal_flash_program hw core0 pid offset data w = (r, w') \<Longrightarrow> internal_flash_step hw w w'"

definition runtime_writable :: "nat \<Rightarrow> bool" where
  "runtime_writable a = (0x7FE000 \<le> a \<and> a < 0x800000 \<or> 0xC70000 \<le> a \<and> a < 0x1000000)"

definition confined :: "spi_event \<Rightarrow> bool" where
  "confined e = ((\<forall>a \<in> touched e. runtime_writable a) \<and> page_safe e)"

lemma confined_harmless: "harmless e \<Longrightarrow> confined e"
  by (simp add: confined_def harmless_def)

lemma confined_partition:
  assumes "part_writable pid" and "off + len \<le> part_size pid" and "within (part_base pid + off) len e"
  shows "confined e"
proof -
  have "runtime_writable a" if "part_base pid + off \<le> a" "a < part_base pid + off + len" for a
    using assms(1,2) that
    by (cases "internal_flash_partition pid")
      (auto simp: part_writable_def part_base_def part_size_def runtime_writable_def g_partitions_def elim!: partition_cases)
  then show ?thesis using assms(3) by (fastforce simp: confined_def within_def)
qed

lemma refresh_flash [simp]: "iw_flash (internal_flash_refresh_info w) = iw_flash w"
  by (simp add: internal_flash_refresh_info_def Let_def)

lemma internal_flash_init_emits:
  assumes "internal_flash_init hw core0 hz w = (r, w')" and "boot_wf (iw_flash w)"
  shows "boot_wf (iw_flash w') \<and> emits harmless (iw_flash w) (iw_flash w')"
proof -
  obtain r0 f where s: "boot_flash_init hw core0 hz (iw_flash w) = (r0, f)" by (metis prod.collapse)
  then have "iw_flash w' = f" using assms(1) by (auto simp: internal_flash_init_def)
  then show ?thesis using boot_flash_init_wf [OF s assms(2)] by simp
qed

lemma step_emits_confined:
  assumes "internal_flash_step hw w w'" and wf: "boot_wf (iw_flash w)"
  shows "boot_wf (iw_flash w') \<and> emits confined (iw_flash w) (iw_flash w')"
  using assms(1)
proof (cases rule: internal_flash_step.cases)
  case step_power
  then show ?thesis using confined_harmless by (auto simp: reboot_def power_on_def boot_wf_def emits_def)
next
  case (step_init core0 hz r)
  then show ?thesis using internal_flash_init_emits [OF _ wf] emits_mono confined_harmless by metis
next
  case (step_info info)
  then show ?thesis using wf by (auto simp: internal_flash_get_info_def Let_def)
next
  case (step_partition_info pid r pinfo)
  then show ?thesis using wf by (auto simp: internal_flash_partition_info_def Let_def split: option.splits)
next
  case (step_read core0 pid offset data r bytes)
  then show ?thesis using internal_flash_read_emits [OF _ wf] emits_mono confined_harmless by metis
next
  case (step_erase core0 pid offset len r)
  from internal_flash_erase_emits [OF step_erase wf] show ?thesis
    using emits_mono confined_harmless confined_partition by metis
next
  case (step_program core0 pid offset data r)
  from internal_flash_program_emits [OF step_program wf] show ?thesis
    using emits_mono confined_harmless confined_partition by metis
qed

section \<open>The interface of the settings store\<close>

lemma u8_and_FF [simp]: "0xFF AND x = (x :: u8)"
proof -
  have "(0xFF :: u8) = - 1" by simp
  then show ?thesis by (metis and.left_neutral)
qed

text \<open>The operations a client of the partition API calls, on a state \<open>'s\<close>.\<close>

record 's flash_ops =
  fo_init :: "u32 \<Rightarrow> 's \<Rightarrow> internal_flash_result \<times> 's"
  fo_get_info :: "'s \<Rightarrow> internal_flash_info \<times> 's"
  fo_read :: "nat \<Rightarrow> u32 \<Rightarrow> u8 cptr \<Rightarrow> 's \<Rightarrow> internal_flash_result \<times> u8 list \<times> 's"
  fo_erase :: "nat \<Rightarrow> u32 \<Rightarrow> nat \<Rightarrow> 's \<Rightarrow> internal_flash_result \<times> 's"
  fo_program :: "nat \<Rightarrow> u32 \<Rightarrow> u8 cptr \<Rightarrow> 's \<Rightarrow> internal_flash_result \<times> 's"

definition internal_flash_ops :: "spi_hw \<Rightarrow> bool \<Rightarrow> internal_world flash_ops" where
  "internal_flash_ops hw core0 =
     \<lparr>fo_init = internal_flash_init hw core0, fo_get_info = internal_flash_get_info,
      fo_read = internal_flash_read hw core0, fo_erase = internal_flash_erase hw core0,
      fo_program = internal_flash_program hw core0\<rparr>"

text \<open>
  What a client relies on: \<open>contents s p i\<close> is the stored byte \<open>i\<close> of partition \<open>p\<close>, or \<open>None\<close> while an erase or a program that
  was not seen to end may still change it. Defined bytes stay as they are through every operation that is not given
  their addresses, whatever it reports; reading returns them; erasing and programming have their effect when they report success.
\<close>

definition keeps :: "(nat \<Rightarrow> nat \<Rightarrow> u8 option) \<Rightarrow> (nat \<Rightarrow> nat \<Rightarrow> u8 option) \<Rightarrow> bool" where
  "keeps c c' = (\<forall>p i b. c p i = Some b \<longrightarrow> c' p i = Some b)"

lemma flash_keeps_refl [simp]: "keeps c c"
  by (simp add: keeps_def)

lemma flash_keeps_trans: "keeps c c' \<Longrightarrow> keeps c' c'' \<Longrightarrow> keeps c c''"
  by (simp add: keeps_def)

lemma keepsD: "keeps c c' \<Longrightarrow> c p i = Some b \<Longrightarrow> c' p i = Some b"
  by (simp add: keeps_def)

locale flash_device =
  fixes ops :: "'s flash_ops"
    and ready :: "'s \<Rightarrow> bool"
    and contents :: "'s \<Rightarrow> nat \<Rightarrow> nat \<Rightarrow> u8 option"
    and psize :: "nat \<Rightarrow> nat"
  assumes init_keeps: "fo_init ops hz s = (r, s') \<Longrightarrow> ready s \<Longrightarrow> ready s' \<and> keeps (contents s) (contents s')"
    and info_keeps: "fo_get_info ops s = (inform, s') \<Longrightarrow> ready s \<Longrightarrow> ready s' \<and> keeps (contents s) (contents s')"
    and read_keeps: "fo_read ops p off d s = (r, bs, s') \<Longrightarrow> ready s \<Longrightarrow> ready s' \<and> keeps (contents s) (contents s')"
    and read_ok: "fo_read ops p off d s = (INTERNAL_FLASH_OK, bs, s') \<Longrightarrow> ready s \<Longrightarrow>
      map Some bs = map (\<lambda>i. contents s p (unat off + i)) [0..<plen d]"
    and erase_ready: "fo_erase ops p off len s = (r, s') \<Longrightarrow> ready s \<Longrightarrow> ready s'"
    and erase_other: "fo_erase ops p off len s = (r, s') \<Longrightarrow> ready s \<Longrightarrow> i < psize q \<Longrightarrow>
      q \<noteq> p \<or> i < unat off \<or> unat off + len \<le> i \<Longrightarrow> contents s q i = Some b \<Longrightarrow> contents s' q i = Some b"
    and erase_ok: "fo_erase ops p off len s = (INTERNAL_FLASH_OK, s') \<Longrightarrow> ready s \<Longrightarrow> i < len \<Longrightarrow>
      contents s' p (unat off + i) = Some 0xFF"
    and program_ready: "fo_program ops p off d s = (r, s') \<Longrightarrow> ready s \<Longrightarrow> ready s'"
    and program_other: "fo_program ops p off d s = (r, s') \<Longrightarrow> ready s \<Longrightarrow> i < psize q \<Longrightarrow>
      q \<noteq> p \<or> i < unat off \<or> unat off + plen d \<le> i \<Longrightarrow> contents s q i = Some b \<Longrightarrow> contents s' q i = Some b"
    and program_ok: "fo_program ops p off d s = (INTERNAL_FLASH_OK, s') \<Longrightarrow> ready s \<Longrightarrow> i < plen d \<Longrightarrow>
      contents s p (unat off + i) = Some b \<Longrightarrow> contents s' p (unat off + i) = Some (b AND pdata d ! i)"
begin

text \<open>Erasing and then programming a range stores exactly the programmed bytes.\<close>

lemma erase_program_stored:
  assumes "fo_erase ops p off len s = (INTERNAL_FLASH_OK, s1)" and "fo_program ops p off d s1 = (INTERNAL_FLASH_OK, s2)"
    and "ready s" and "plen d \<le> len" and "i < plen d"
  shows "contents s2 p (unat off + i) = Some (pdata d ! i)"
  using program_ok [OF assms(2) erase_ready [OF assms(1,3)] assms(5)] erase_ok [OF assms(1,3), of i] assms(4,5) by simp

lemma erase_other_partition:
  "fo_erase ops p off len s = (r, s') \<Longrightarrow> ready s \<Longrightarrow> q \<noteq> p \<Longrightarrow> i < psize q \<Longrightarrow> contents s q i = Some b \<Longrightarrow> contents s' q i = Some b"
  using erase_other by blast

lemma program_other_partition:
  "fo_program ops p off d s = (r, s') \<Longrightarrow> ready s \<Longrightarrow> q \<noteq> p \<Longrightarrow> i < psize q \<Longrightarrow> contents s q i = Some b \<Longrightarrow> contents s' q i = Some b"
  using program_other by blast

end

text \<open>The bytes of the partitions on a chip: a byte is defined when the chip is not working on it.\<close>

definition flash_contents :: "spi_hw \<Rightarrow> (spi_event list \<Rightarrow> nat \<Rightarrow> u8) \<Rightarrow> internal_world \<Rightarrow> nat \<Rightarrow> nat \<Rightarrow> u8 option" where
  "flash_contents hw mem w p i =
     (if part_base p + i \<in> unsettled hw (spi_trace (iw_flash w)) then None else Some (mem (spi_trace (iw_flash w)) (part_base p + i)))"

text \<open>Every NOR chip behind the driver provides this interface.\<close>

lemma from_boot_OK [simp]: "internal_flash_from_boot r = INTERNAL_FLASH_OK \<longleftrightarrow> r = BOOT_FLASH_OK"
  by (cases r) (simp_all add: internal_flash_from_boot_def)

lemma erase_loop_ready:
  "erase_loop hw core0 base offset len w = (r, w') \<Longrightarrow> boot_ready hw (iw_flash w) \<Longrightarrow> boot_ready hw (iw_flash w')"
proof (induction hw core0 base offset len w rule: erase_loop.induct)
  case (1 hw core0 base offset len w)
  obtain r1 f where s: "boot_flash_sector_erase hw core0 (base + offset) (iw_flash w) = (r1, f)" by (metis prod.collapse)
  have rd: "boot_ready hw (iw_flash (w\<lparr>iw_flash := f\<rparr>))" using boot_flash_sector_erase_ready [OF s "1.prems"(2)] by simp
  show ?case
  proof (cases "len \<noteq> 0 \<and> r1 = BOOT_FLASH_OK")
    case True
    then have rec: "erase_loop hw core0 base (offset + of_nat HK_FLASH_ERASE_SIZE) (len - HK_FLASH_ERASE_SIZE) (w\<lparr>iw_flash := f\<rparr>) = (r, w')"
      using "1.prems"(1) s by (simp add: erase_loop.simps [of hw core0 base offset len])
    show ?thesis using True by (intro "1.IH" [OF _ refl s [symmetric] refl refl _ rec rd]) simp_all
  next
    case False
    then show ?thesis using "1.prems" s rd by (auto simp: erase_loop.simps [of hw core0 base offset len] split: if_splits)
  qed
qed

lemma internal_flash_read_ready:
  assumes run: "internal_flash_read hw core0 pid off d w = (r, bs, w')" and rd: "boot_ready hw (iw_flash w)"
  shows "boot_ready hw (iw_flash w') \<and> emits harmless (iw_flash w) (iw_flash w')"
proof -
  from rd have "boot_wf (iw_flash w)" by (simp add: boot_ready_def)
  from internal_flash_read_emits [OF run this] rd show ?thesis
    by (auto simp: boot_ready_def emits_def intro: settled_harmless)
qed

lemma internal_flash_erase_ready:
  assumes run: "internal_flash_erase hw core0 pid off len w = (r, w')" and rd: "boot_ready hw (iw_flash w)"
  shows "boot_ready hw (iw_flash w')"
proof -
  obtain r0 part w0 where v: "internal_flash_validate pid off len True w = (r0, part, w0)" by (metis prod_cases3)
  show ?thesis using run v rd validate_selected [OF v] erase_loop_ready [of hw core0 _ off len w0 r w']
    by (auto simp: internal_flash_erase_def split: if_splits)
qed

lemma internal_flash_program_ready:
  assumes run: "internal_flash_program hw core0 pid off d w = (r, w')" and rd: "boot_ready hw (iw_flash w)"
  shows "boot_ready hw (iw_flash w')"
proof -
  obtain r0 part w0 where v: "internal_flash_validate pid off (plen d) True w = (r0, part, w0)" by (metis prod_cases3)
  obtain r1 f where s: "boot_flash_program hw core0 (pt_offset (the part) + off) d (iw_flash w0) = (r1, f)" by (metis prod.collapse)
  show ?thesis using run v rd validate_selected [OF v] boot_flash_program_ready [OF s] s
    by (auto simp: internal_flash_program_def split: if_splits)
qed

lemma internal_flash_init_ready:
  assumes run: "internal_flash_init hw core0 hz w = (r, w')" and rd: "boot_ready hw (iw_flash w)"
  shows "boot_ready hw (iw_flash w')"
proof -
  obtain r0 f where s: "boot_flash_init hw core0 hz (iw_flash w) = (r0, f)" by (metis prod.collapse)
  then have "iw_flash w' = f" using run by (auto simp: internal_flash_init_def)
  then show ?thesis using boot_flash_init_ready [OF s rd] by simp
qed

text \<open>An operation that succeeds leaves a settled chip, or was given one.\<close>

lemma internal_flash_read_settled:
  assumes run: "internal_flash_read hw core0 pid off d w = (INTERNAL_FLASH_OK, bs, w')" and rd: "boot_ready hw (iw_flash w)"
  shows "settled hw (spi_trace (iw_flash w))"
proof -
  obtain r0 part w0 where v: "internal_flash_validate pid off (plen d) False w = (r0, part, w0)" by (metis prod_cases3)
  note vs = validate_selected [OF v]
  obtain r1 b f where s: "boot_flash_read hw core0 (pt_offset (the part) + off) d (iw_flash w0) = (r1, b, f)" by (metis prod_cases3)
  have "r1 = BOOT_FLASH_OK" using run v s by (auto simp: internal_flash_read_def split: if_splits)
  then have "boot_flash_validate_unlocked (pt_offset (the part) + off) d (plen d) (iw_flash w0) = BOOT_FLASH_OK"
    using s by (auto simp: boot_flash_read_def Let_def split: if_splits)
  then show ?thesis using rd vs by (auto simp: boot_ready_def boot_flash_validate_unlocked_def split: if_splits)
qed

lemma erase_loop_settled:
  "erase_loop hw core0 base offset len w = (INTERNAL_FLASH_OK, w') \<Longrightarrow> boot_ready hw (iw_flash w) \<Longrightarrow>
    len \<noteq> 0 \<or> settled hw (spi_trace (iw_flash w)) \<Longrightarrow> settled hw (spi_trace (iw_flash w'))"
proof (induction hw core0 base offset len w rule: erase_loop.induct)
  case (1 hw core0 base offset len w)
  obtain r1 f where s: "boot_flash_sector_erase hw core0 (base + offset) (iw_flash w) = (r1, f)" by (metis prod.collapse)
  note rd = boot_flash_sector_erase_ready [OF s "1.prems"(2)]
  show ?case
  proof (cases "len = 0")
    case True
    then show ?thesis using "1.prems" by (simp add: erase_loop.simps [of hw core0 base offset 0])
  next
    case False
    then have r1: "r1 = BOOT_FLASH_OK"
      and rec: "erase_loop hw core0 base (offset + of_nat HK_FLASH_ERASE_SIZE) (len - HK_FLASH_ERASE_SIZE) (w\<lparr>iw_flash := f\<rparr>) = (INTERNAL_FLASH_OK, w')"
      using "1.prems"(1) s by (auto simp: erase_loop.simps [of hw core0 base offset len] Let_def split: if_splits)
    show ?thesis using False r1 rd by (intro "1.IH" [OF _ refl s [symmetric] refl refl _ rec]) simp_all
  qed
qed

lemma internal_flash_erase_settled:
  assumes run: "internal_flash_erase hw core0 pid off len w = (INTERNAL_FLASH_OK, w')" and rd: "boot_ready hw (iw_flash w)"
    and "len \<noteq> 0"
  shows "settled hw (spi_trace (iw_flash w'))"
proof -
  obtain r0 part w0 where v: "internal_flash_validate pid off len True w = (r0, part, w0)" by (metis prod_cases3)
  show ?thesis using run v rd assms(3) validate_selected [OF v] erase_loop_settled [of hw core0 _ off len w0 w']
    by (auto simp: internal_flash_erase_def split: if_splits)
qed

lemma internal_flash_program_settled:
  assumes run: "internal_flash_program hw core0 pid off d w = (INTERNAL_FLASH_OK, w')" and rd: "boot_ready hw (iw_flash w)"
  shows "settled hw (spi_trace (iw_flash w'))"
proof -
  obtain r0 part w0 where v: "internal_flash_validate pid off (plen d) True w = (r0, part, w0)" by (metis prod_cases3)
  obtain r1 f where s: "boot_flash_program hw core0 (pt_offset (the part) + off) d (iw_flash w0) = (r1, f)" by (metis prod.collapse)
  show ?thesis using run v rd validate_selected [OF v] boot_flash_program_ready [OF s] s
    by (auto simp: internal_flash_program_def split: if_splits)
qed

context nor_chip
begin

lemma erase_loop_stored:
  "erase_loop hw core0 base offset len w = (INTERNAL_FLASH_OK, w') \<Longrightarrow> boot_ready hw (iw_flash w) \<Longrightarrow>
    len mod HK_FLASH_ERASE_SIZE = 0 \<Longrightarrow> unat base + unat offset + len \<le> 2 ^ 24 \<Longrightarrow>
    i < len \<Longrightarrow> mem (spi_trace (iw_flash w')) (unat base + unat offset + i) = 0xFF"
proof (induction len arbitrary: offset w i rule: less_induct)
  case (less len)
  obtain r1 f where s: "boot_flash_sector_erase hw core0 (base + offset) (iw_flash w) = (r1, f)" by (metis prod.collapse)
  let ?w1 = "w\<lparr>iw_flash := f\<rparr>"
  have r1: "r1 = BOOT_FLASH_OK"
    and rec: "erase_loop hw core0 base (offset + of_nat HK_FLASH_ERASE_SIZE) (len - HK_FLASH_ERASE_SIZE) ?w1 = (INTERNAL_FLASH_OK, w')"
    using less.prems(1,5) s by (auto simp: erase_loop.simps [of hw core0 base offset len] Let_def split: if_splits)
  have len: "HK_FLASH_ERASE_SIZE \<le> len" using less.prems(3,5) by (metis gr_implies_not0 mod_less not_less)
  have ad: "unat (base + offset) = unat base + unat offset" using less.prems(4,5) by (simp add: unat_word_ariths)
  have oo: "unat (offset + of_nat HK_FLASH_ERASE_SIZE) = unat offset + HK_FLASH_ERASE_SIZE"
    using less.prems(4) len by (simp add: HK_FLASH_ERASE_SIZE_def unat_word_ariths)
  have rd: "boot_ready hw (iw_flash ?w1)" using boot_flash_sector_erase_ready [OF s less.prems(2)] by simp
  have m: "(len - HK_FLASH_ERASE_SIZE) mod HK_FLASH_ERASE_SIZE = 0" using less.prems(3) len by (simp add: le_mod_geq)
  have b: "unat base + unat (offset + of_nat HK_FLASH_ERASE_SIZE) + (len - HK_FLASH_ERASE_SIZE) \<le> 2 ^ 24"
    using less.prems(4) len by (simp add: oo)
  show ?case
  proof (cases "i < HK_FLASH_ERASE_SIZE")
    case True
    have "mem (spi_trace f) (unat base + unat offset + i) = 0xFF"
      using erase_stored [OF s [unfolded r1] less.prems(2), of "unat base + unat offset + i"] True ad by simp
    moreover have "emits (within (unat base + unat (offset + of_nat HK_FLASH_ERASE_SIZE)) (len - HK_FLASH_ERASE_SIZE)) (iw_flash ?w1) (iw_flash w')"
      using erase_loop_emits [OF rec _ m b] rd by (simp add: boot_ready_def)
    moreover have "unsettled hw (spi_trace f) = {}"
      using boot_flash_sector_erase_ready [OF s less.prems(2)] r1 by (simp add: settled_unsettled)
    ultimately show ?thesis using mem_within True oo by auto
  next
    case False
    have "mem (spi_trace (iw_flash w')) (unat base + unat (offset + of_nat HK_FLASH_ERASE_SIZE) + (i - HK_FLASH_ERASE_SIZE)) = 0xFF"
      using less.prems(5) False len by (intro less.IH [OF _ rec rd m b]) (auto simp: HK_FLASH_ERASE_SIZE_def)
    then show ?thesis using False oo by (simp add: add.assoc)
  qed
qed

lemma contents_emits:
  assumes "emits P (iw_flash w) (iw_flash w')" and "\<And>e. P e \<Longrightarrow> part_base q + i \<notin> touched e"
    and "flash_contents hw mem w q i = Some b"
  shows "flash_contents hw mem w' q i = Some b"
  using mem_emits [OF assms(1,2)] unsettled_emits [OF assms(1,2), of hw] assms(3)
  by (simp add: flash_contents_def split: if_splits)

lemma contents_harmless: "emits harmless (iw_flash w) (iw_flash w') \<Longrightarrow> keeps (flash_contents hw mem w) (flash_contents hw mem w')"
  unfolding keeps_def using contents_emits [of harmless w w'] by (auto simp: harmless_def)

lemma contents_outside:
  assumes "i < part_size q" and "q \<noteq> p \<or> i < unat off \<or> unat off + len \<le> i"
    and "unat off + len \<le> part_size p" and "emits (within (part_base p + unat off) len) (iw_flash w) (iw_flash w')"
    and "flash_contents hw mem w q i = Some b"
  shows "flash_contents hw mem w' q i = Some b"
proof (rule contents_emits [OF assms(4) _ assms(5)])
  fix e assume e: "within (part_base p + unat off) len e"
  show "part_base q + i \<notin> touched e"
  proof
    assume "part_base q + i \<in> touched e"
    then have r: "part_base q + i \<in> {part_base p + unat off ..< part_base p + unat off + len}" using e by (auto simp: within_def)
    then have "part_base q + i = part_base p + (part_base q + i - part_base p)" "part_base q + i - part_base p < part_size p"
      using assms(3) by auto
    with partitions_disjoint [OF _ assms(1)] have "q = p" by metis
    then show False using r assms(2) by auto
  qed
qed

lemma contents_settled: "settled hw (spi_trace (iw_flash w)) \<Longrightarrow>
  flash_contents hw mem w p i = Some (mem (spi_trace (iw_flash w)) (part_base p + i))"
  by (simp add: flash_contents_def settled_unsettled)

lemma internal_flash_read_stored:
  assumes run: "internal_flash_read hw core0 pid off d w = (INTERNAL_FLASH_OK, bs, w')" and rd: "boot_ready hw (iw_flash w)"
  shows "bs = map (\<lambda>i. mem (spi_trace (iw_flash w)) (part_base pid + unat off + i)) [0..<plen d]"
proof -
  obtain r0 part w0 where v: "internal_flash_validate pid off (plen d) False w = (r0, part, w0)" by (metis prod_cases3)
  note vs = validate_selected [OF v]
  have r0: "r0 = INTERNAL_FLASH_OK" and nn: "\<not> (plen d \<noteq> 0 \<and> is_null d)"
    using run v by (auto simp: internal_flash_read_def split: if_splits)
  with vs obtain p where p: "part = Some p" "unat (pt_offset p + off) = part_base pid + unat off" by blast
  obtain r1 b f where s: "boot_flash_read hw core0 (pt_offset p + off) d (iw_flash w0) = (r1, b, f)" by (metis prod_cases3)
  have e: "r1 = BOOT_FLASH_OK" "bs = b" using run v r0 nn p(1) s by (auto simp: internal_flash_read_def)
  have "length (pdata d) = plen d" using nn by (cases d) auto
  then show ?thesis using read_stored [OF s [unfolded e(1)]] rd vs p(2) e(2) by simp
qed

lemma internal_flash_erase_stored:
  assumes run: "internal_flash_erase hw core0 pid off len w = (INTERNAL_FLASH_OK, w')" and rd: "boot_ready hw (iw_flash w)"
    and i: "i < len"
  shows "mem (spi_trace (iw_flash w')) (part_base pid + unat off + i) = 0xFF"
proof -
  obtain r0 part w0 where v: "internal_flash_validate pid off len True w = (r0, part, w0)" by (metis prod_cases3)
  note vs = validate_selected [OF v]
  have r0: "r0 = INTERNAL_FLASH_OK" and al: "len mod HK_FLASH_ERASE_SIZE = 0"
    using run v by (auto simp: internal_flash_erase_def split: if_splits)
  with vs obtain p where p: "part = Some p" "pt_offset p = of_nat (part_base pid)" "unat off + len \<le> part_size pid"
    "part_base pid + part_size pid \<le> 2 ^ 24" by blast
  have base: "unat (pt_offset p) = part_base pid" using p(2,4) by (simp add: unat_of_nat_lt)
  have "erase_loop hw core0 (pt_offset p) off len w0 = (INTERNAL_FLASH_OK, w')"
    using run v r0 p(1) by (auto simp: internal_flash_erase_def split: if_splits)
  from erase_loop_stored [OF this _ al _ i] rd vs p base show ?thesis by simp
qed

lemma internal_flash_program_stored:
  assumes run: "internal_flash_program hw core0 pid off d w = (INTERNAL_FLASH_OK, w')" and rd: "boot_ready hw (iw_flash w)"
    and i: "i < plen d"
  shows "mem (spi_trace (iw_flash w')) (part_base pid + unat off + i) =
    mem (spi_trace (iw_flash w)) (part_base pid + unat off + i) AND pdata d ! i"
proof -
  obtain r0 part w0 where v: "internal_flash_validate pid off (plen d) True w = (r0, part, w0)" by (metis prod_cases3)
  note vs = validate_selected [OF v]
  have r0: "r0 = INTERNAL_FLASH_OK" and nn: "\<not> is_null d"
    using run v i by (auto simp: internal_flash_program_def split: if_splits)
  with vs obtain p where p: "part = Some p" "unat (pt_offset p + off) = part_base pid + unat off" by blast
  obtain r1 f where s: "boot_flash_program hw core0 (pt_offset p + off) d (iw_flash w0) = (r1, f)" by (metis prod.collapse)
  have e: "r1 = BOOT_FLASH_OK" "w' = w0\<lparr>iw_flash := f\<rparr>" using run v r0 nn p(1) s by (auto simp: internal_flash_program_def)
  show ?thesis using program_stored [OF s [unfolded e]] rd vs p(2) e(2) i nn by simp
qed

lemma internal_flash_device:
  "flash_device (internal_flash_ops hw True) (\<lambda>w. boot_ready hw (iw_flash w)) (flash_contents hw mem) part_size"
proof
  fix w w' :: internal_world and r hz
  assume "fo_init (internal_flash_ops hw True) hz w = (r, w')" and rd: "boot_ready hw (iw_flash w)"
  then have run: "internal_flash_init hw True hz w = (r, w')" by (simp add: internal_flash_ops_def)
  show "boot_ready hw (iw_flash w') \<and> keeps (flash_contents hw mem w) (flash_contents hw mem w')"
    using internal_flash_init_ready [OF run rd] internal_flash_init_emits [OF run] rd
    by (intro conjI contents_harmless) (simp_all add: boot_ready_def)
next
  fix w w' :: internal_world and i
  assume "fo_get_info (internal_flash_ops hw True) w = (i, w')" and rd: "boot_ready hw (iw_flash w)"
  then show "boot_ready hw (iw_flash w') \<and> keeps (flash_contents hw mem w) (flash_contents hw mem w')"
    by (auto simp: internal_flash_ops_def internal_flash_get_info_def Let_def flash_contents_def keeps_def)
next
  fix w w' :: internal_world and r p off d bs
  assume "fo_read (internal_flash_ops hw True) p off d w = (r, bs, w')" and rd: "boot_ready hw (iw_flash w)"
  then have "boot_ready hw (iw_flash w') \<and> emits harmless (iw_flash w) (iw_flash w')"
    by (intro internal_flash_read_ready) (simp add: internal_flash_ops_def)
  then show "boot_ready hw (iw_flash w') \<and> keeps (flash_contents hw mem w) (flash_contents hw mem w')"
    by (auto intro: contents_harmless)
next
  fix w w' :: internal_world and p off d bs
  assume "fo_read (internal_flash_ops hw True) p off d w = (INTERNAL_FLASH_OK, bs, w')" and rd: "boot_ready hw (iw_flash w)"
  then have run: "internal_flash_read hw True p off d w = (INTERNAL_FLASH_OK, bs, w')" by (simp add: internal_flash_ops_def)
  show "map Some bs = map (\<lambda>i. flash_contents hw mem w p (unat off + i)) [0..<plen d]"
    using internal_flash_read_stored [OF run rd] contents_settled [OF internal_flash_read_settled [OF run rd]]
    by (simp add: add.assoc o_def)
next
  fix w w' :: internal_world and r p off len
  assume "fo_erase (internal_flash_ops hw True) p off len w = (r, w')" and rd: "boot_ready hw (iw_flash w)"
  then have run: "internal_flash_erase hw True p off len w = (r, w')" by (simp add: internal_flash_ops_def)
  show "boot_ready hw (iw_flash w')" by (rule internal_flash_erase_ready [OF run rd])
  show "flash_contents hw mem w' q i = Some b"
    if "i < part_size q" "q \<noteq> p \<or> i < unat off \<or> unat off + len \<le> i" "flash_contents hw mem w q i = Some b" for q i b
    using internal_flash_erase_emits [OF run] rd contents_outside [OF that(1,2)] that(3) contents_harmless keepsD
    by (fastforce simp: boot_ready_def)
next
  fix w w' :: internal_world and p off len i
  assume "fo_erase (internal_flash_ops hw True) p off len w = (INTERNAL_FLASH_OK, w')" and rd: "boot_ready hw (iw_flash w)" and i: "i < len"
  then have run: "internal_flash_erase hw True p off len w = (INTERNAL_FLASH_OK, w')" by (simp add: internal_flash_ops_def)
  have "settled hw (spi_trace (iw_flash w'))" using internal_flash_erase_settled [OF run rd] i by simp
  then show "flash_contents hw mem w' p (unat off + i) = Some 0xFF"
    using internal_flash_erase_stored [OF run rd i] by (simp add: contents_settled add.assoc)
next
  fix w w' :: internal_world and r p off d
  assume "fo_program (internal_flash_ops hw True) p off d w = (r, w')" and rd: "boot_ready hw (iw_flash w)"
  then have run: "internal_flash_program hw True p off d w = (r, w')" by (simp add: internal_flash_ops_def)
  show "boot_ready hw (iw_flash w')" by (rule internal_flash_program_ready [OF run rd])
  show "flash_contents hw mem w' q i = Some b"
    if "i < part_size q" "q \<noteq> p \<or> i < unat off \<or> unat off + plen d \<le> i" "flash_contents hw mem w q i = Some b" for q i b
    using internal_flash_program_emits [OF run] rd contents_outside [OF that(1,2)] that(3) contents_harmless keepsD
    by (fastforce simp: boot_ready_def)
next
  fix w w' :: internal_world and p off d i b
  assume "fo_program (internal_flash_ops hw True) p off d w = (INTERNAL_FLASH_OK, w')" and rd: "boot_ready hw (iw_flash w)"
    and i: "i < plen d" and b: "flash_contents hw mem w p (unat off + i) = Some b"
  then have run: "internal_flash_program hw True p off d w = (INTERNAL_FLASH_OK, w')" by (simp add: internal_flash_ops_def)
  have "settled hw (spi_trace (iw_flash w'))" by (rule internal_flash_program_settled [OF run rd])
  then show "flash_contents hw mem w' p (unat off + i) = Some (b AND pdata d ! i)"
    using internal_flash_program_stored [OF run rd i] b
    by (simp add: contents_settled) (simp add: flash_contents_def add.assoc split: if_splits)
qed

end

sublocale nor_chip \<subseteq> device: flash_device "internal_flash_ops hw True" "\<lambda>w. boot_ready hw (iw_flash w)"
  "flash_contents hw mem" part_size
  by (rule internal_flash_device)

interpretation ref_device: flash_device "internal_flash_ops ref_chip True" "\<lambda>w. boot_ready ref_chip (iw_flash w)"
  "flash_contents ref_chip ref_mem" part_size
  by (rule ref.internal_flash_device)

text \<open>The API on the reference chip.\<close>

lemma ref_internal_init:
  assumes "hz \<noteq> 0"
  shows "internal_flash_init ref_chip True hz w = (INTERNAL_FLASH_OK,
    \<lparr>iw_flash = snd (boot_flash_init ref_chip True hz (iw_flash w)),
     iw_info = \<lparr>if_jedec_id = [0xEF, 0x40, 0x18], if_capacity = 0x1000000, if_initialized = True, if_faulted = False\<rparr>\<rparr>)"
  using assms by (simp add: internal_flash_init_def ref_init internal_flash_refresh_info_def boot_flash_get_info_def)

definition ref_usable :: "internal_world \<Rightarrow> bool" where
  "ref_usable w = (bf_initialized (boot_info (iw_flash w)) \<and> \<not> bf_faulted (boot_info (iw_flash w)) \<and>
     bf_capacity (boot_info (iw_flash w)) = 0x1000000)"

lemma ref_init_usable: "hz \<noteq> 0 \<Longrightarrow> \<exists>w'. internal_flash_init ref_chip True hz w = (INTERNAL_FLASH_OK, w') \<and> ref_usable w'"
  by (simp add: ref_internal_init ref_init ref_usable_def)

lemma touched_sector_erase:
  assumes "unat addr < 2 ^ 24"
  shows "touched (Spi_Send (addr_cmd BOOT_FLASH_CMD_SECTOR_ERASE addr) []) = {unat addr ..< unat addr + HK_FLASH_ERASE_SIZE}"
proof -
  have "hd (addr_cmd BOOT_FLASH_CMD_SECTOR_ERASE addr) = BOOT_FLASH_CMD_SECTOR_ERASE" by (simp add: addr_cmd_def)
  then show ?thesis by (simp only: touched.simps if_True cmd_addr_addr_cmd [OF assms] simp_thms)
qed

lemma ref_validate:
  assumes "ref_usable w" and "pid = 1 \<or> pid = 2" and "len \<le> 0x1000"
  shows "internal_flash_validate pid 0 len wr w = (INTERNAL_FLASH_OK, Some (g_partitions ! pid), internal_flash_refresh_info w)"
  using assms by (auto simp: ref_usable_def internal_flash_validate_def internal_flash_partition_def g_partitions_def
      internal_flash_refresh_info_def boot_flash_get_info_def internal_flash_range_valid_def Let_def)

lemma ref_erase_trace:
  assumes "ref_usable w" and "pid = 1 \<or> pid = 2"
  shows "\<exists>w' before. internal_flash_erase ref_chip True pid 0 0x1000 w = (INTERNAL_FLASH_OK, w') \<and> ref_usable w' \<and>
    spi_trace (iw_flash w') = spi_trace (iw_flash w) @ before @
      [Spi_Send (addr_cmd BOOT_FLASH_CMD_SECTOR_ERASE (pt_offset (g_partitions ! pid))) []] @ [Read_Clock, status_read, status_read] \<and>
    enabled ref_chip (spi_trace (iw_flash w) @ before)"
proof -
  let ?a = "pt_offset (g_partitions ! pid)"
  have v: "boot_flash_validate_unlocked ?a (Ptr (addr_cmd BOOT_FLASH_CMD_SECTOR_ERASE ?a)) HK_FLASH_ERASE_SIZE (iw_flash w) = BOOT_FLASH_OK"
    and a: "unat ?a mod HK_FLASH_ERASE_SIZE = 0"
    using assms by (auto simp: boot_flash_validate_unlocked_def ref_usable_def g_partitions_def HK_FLASH_ERASE_SIZE_def)
  have nz: "(0x1000 :: nat) \<noteq> 0" by simp
  have "erase_loop ref_chip True ?a 0 0x1000 w0 = (INTERNAL_FLASH_OK, w0\<lparr>iw_flash := snd (boot_flash_sector_erase ref_chip True ?a (iw_flash w0))\<rparr>)"
    if "iw_flash w0 = iw_flash w" for w0
    by (subst erase_loop.simps) (simp add: that ref_sector_erase [OF v a] Let_def erase_loop.simps [of _ _ _ _ 0] HK_FLASH_ERASE_SIZE_def)
  then have l: "internal_flash_erase ref_chip True pid 0 0x1000 w = (INTERNAL_FLASH_OK,
      (internal_flash_refresh_info w)\<lparr>iw_flash := snd (boot_flash_sector_erase ref_chip True ?a (iw_flash w))\<rparr>)"
    using ref_validate [OF assms, of "0x1000" True] by (simp add: internal_flash_erase_def HK_FLASH_ERASE_SIZE_def)
  show ?thesis
    using assms ref_enable_cmd(2) [of "spi_trace (iw_flash w)"]
    by - (rule exI, rule exI [of _ "[Spi_Send [BOOT_FLASH_CMD_WRITE_ENABLE] [], status_read]"], rule conjI, rule l,
      simp add: ref_sector_erase [OF v a] ref_usable_def)
qed

lemma ref_erase:
  assumes "ref_usable w" and "pid = 1 \<or> pid = 2"
  shows "\<exists>w'. internal_flash_erase ref_chip True pid 0 0x1000 w = (INTERNAL_FLASH_OK, w') \<and> ref_usable w' \<and>
    Spi_Send (addr_cmd BOOT_FLASH_CMD_SECTOR_ERASE (pt_offset (g_partitions ! pid))) [] \<in> set (spi_trace (iw_flash w'))"
  using ref_erase_trace [OF assms] by fastforce

lemma ref_program:
  assumes "ref_usable w" and "pid = 1 \<or> pid = 2" and "data \<noteq> []" and "length data \<le> 256"
  shows "\<exists>w'. internal_flash_program ref_chip True pid 0 (Ptr data) w = (INTERNAL_FLASH_OK, w') \<and> ref_usable w'"
proof -
  let ?a = "pt_offset (g_partitions ! pid)"
  have "boot_flash_validate_unlocked ?a (Ptr data) (length data) (iw_flash w) = BOOT_FLASH_OK"
    "unat ?a mod HK_FLASH_PROGRAM_SIZE + length data \<le> HK_FLASH_PROGRAM_SIZE"
    using assms by (auto simp: boot_flash_validate_unlocked_def ref_usable_def g_partitions_def HK_FLASH_PROGRAM_SIZE_def)
  from ref_program_one_page [OF this(1) assms(3) this(2)] show ?thesis
    using assms ref_validate [OF assms(1,2), of "length data" True]
    by (simp add: internal_flash_program_def ref_usable_def from_boot_OK)
qed

lemma ref_read:
  assumes "ref_usable w" and "pid = 1 \<or> pid = 2" and "length buf \<le> 0x1000"
  shows "\<exists>bs w'. internal_flash_read ref_chip True pid 0 (Ptr buf) w = (INTERNAL_FLASH_OK, bs, w') \<and> ref_usable w'"
proof -
  let ?a = "pt_offset (g_partitions ! pid)"
  have "boot_flash_validate_unlocked ?a (Ptr buf) (length buf) (iw_flash w) = BOOT_FLASH_OK"
    using assms by (auto simp: boot_flash_validate_unlocked_def ref_usable_def g_partitions_def)
  then show ?thesis using assms ref_validate [OF assms(1,2), of "length buf" False]
    by (auto simp: internal_flash_read_def ref_usable_def boot_flash_read_def spi_receive_def emit_def Let_def)
qed

section \<open>Properties\<close>

text \<open>C2. Whatever the chip answers and whoever calls the partition API with whatever arguments, from power on
  and through power cycles no erase or program command ever reaches an address outside the two settings sectors and the user file
  system, and every page program stays within its page.\<close>

theorem internal_flash_confined:
  assumes "(internal_flash_step hw)\<^sup>*\<^sup>* power_on w" and "e \<in> set (spi_trace (iw_flash w))"
  shows "(\<forall>a \<in> touched e. 0x7FE000 \<le> a \<and> a < 0x800000 \<or> 0xC70000 \<le> a \<and> a < 0x1000000) \<and> page_safe e"
proof -
  from assms(1) have "boot_wf (iw_flash w) \<and> emits confined (iw_flash power_on) (iw_flash w)"
  proof (induction rule: rtranclp_induct)
    case base
    show ?case by (simp add: power_on_def boot_wf_def)
  next
    case (step w w')
    then show ?case using step_emits_confined [OF step.hyps(2)] emits_trans by blast
  qed
  then have "confined e" using assms(2) by (auto simp: emits_def power_on_def)
  then show ?thesis by (auto simp: confined_def runtime_writable_def)
qed

theorem internal_flash_confined_witness:
  "\<exists>(w :: internal_world) e. e \<in> set (spi_trace (iw_flash w)) \<and> 0x7FE000 \<in> touched e \<and>
     (\<forall>a \<in> touched e. 0x7FE000 \<le> a \<and> a < 0x800000 \<or> 0xC70000 \<le> a \<and> a < 0x1000000) \<and> page_safe e"
proof -
  let ?e = "Spi_Send (addr_cmd BOOT_FLASH_CMD_SECTOR_ERASE 0x7FE000) []"
  obtain w1 where w1: "internal_flash_init ref_chip True 1 power_on = (INTERNAL_FLASH_OK, w1)" "ref_usable w1"
    using ref_init_usable [of 1 power_on] by auto
  obtain w2 where w2: "internal_flash_erase ref_chip True 1 0 0x1000 w1 = (INTERNAL_FLASH_OK, w2)"
    and e: "?e \<in> set (spi_trace (iw_flash w2))"
    using ref_erase [OF w1(2), of 1] by (auto simp: g_partitions_def)
  have r: "(internal_flash_step ref_chip)\<^sup>*\<^sup>* power_on w2"
    using step_init [OF w1(1)] step_erase [OF w2] by (rule converse_rtranclp_into_rtranclp [OF _ r_into_rtranclp])
  show ?thesis
  proof (rule exI [of _ w2], rule exI [of _ ?e], intro conjI)
    show "?e \<in> set (spi_trace (iw_flash w2))" by (rule e)
    show "0x7FE000 \<in> touched ?e" by (subst touched_sector_erase) (simp_all add: HK_FLASH_ERASE_SIZE_def)
    show "\<forall>a \<in> touched ?e. 0x7FE000 \<le> a \<and> a < 0x800000 \<or> 0xC70000 \<le> a \<and> a < 0x1000000"
      by (rule internal_flash_confined [OF r e, THEN conjunct1])
    show "page_safe ?e" by (rule internal_flash_confined [OF r e, THEN conjunct2])
  qed
qed

end
