(* ===== verification/Settings_Store.thy ===== *)
theory Settings_Store
  imports Internal_Flash Hk_Binary
begin

text \<open>
  \<open>firmware/src/storage/settings_store.c\<close>: the settings kept in two flash sectors that are written in
  turn. A slot is the union of four record versions, read from the bytes of the sector; the store's
  three static variables are explicit state. The operations take the flash operations they call as
  an argument, and their correctness is proved for every flash that meets \<open>flash_device\<close>.
\<close>

section \<open>Configuration\<close>

definition SETTINGS_MAGIC :: u32 where "SETTINGS_MAGIC = 0x484B5331"
definition SETTINGS_STORAGE_VERSION :: u16 where "SETTINGS_STORAGE_VERSION = 4"
definition SETTINGS_STORAGE_V3_VERSION :: u16 where "SETTINGS_STORAGE_V3_VERSION = 3"
definition SETTINGS_STORAGE_V2_VERSION :: u16 where "SETTINGS_STORAGE_V2_VERSION = 2"
definition SETTINGS_STORAGE_LEGACY_VERSION :: u16 where "SETTINGS_STORAGE_LEGACY_VERSION = 1"
definition SETTINGS_AUTOSTART_V3_COUNT :: u8 where "SETTINGS_AUTOSTART_V3_COUNT = 9"
definition SETTINGS_APP_DATA_V2_SIZE :: nat where "SETTINGS_APP_DATA_V2_SIZE = 80"
definition SETTINGS_APP_DATA_SIZE :: nat where "SETTINGS_APP_DATA_SIZE = 88"
definition SETTINGS_FLASH_SLOT_SIZE :: nat where "SETTINGS_FLASH_SLOT_SIZE = 0x1000"

lemmas settings_config = SETTINGS_MAGIC_def SETTINGS_STORAGE_VERSION_def SETTINGS_STORAGE_V3_VERSION_def
  SETTINGS_STORAGE_V2_VERSION_def SETTINGS_STORAGE_LEGACY_VERSION_def SETTINGS_APP_DATA_V2_SIZE_def
  SETTINGS_APP_DATA_SIZE_def

section \<open>Payloads\<close>

text \<open>The sixteen bytes of the first version; the later versions extend it.\<close>

record settings_payload_v1 =
  led_enabled :: u8
  led_brightness :: u8
  rgb_enabled :: u8
  rgb_brightness :: u8
  screen_brightness :: u8
  camera_review_after_shot :: u8
  auto_sleep_minutes :: u8
  camera_format_rgb_red :: u8
  camera_size_rgb_green :: u8
  camera_schema_mark :: u8
  rgb_red_light_mode :: u8
  rgb_green :: u8
  rgb_blue :: u8
  rgb_schema_mark :: u8
  fps_rgb_blue :: u8
  qr_rate_fps_mark :: u8

record settings_payload_v2 = settings_payload_v1 +
  app_data_v2 :: "u8 list"

record settings_payload_v3 = settings_payload_v2 +
  autostart_id_v3 :: u8

record settings_payload = settings_payload_v1 +
  app_data :: "u8 list"
  autostart_id :: u8

text \<open>The four record structures have the same header and differ in the payload.\<close>

record 'p settings_rec =
  sr_magic :: u32
  sr_version :: u16
  sr_payload_size :: u16
  sr_sequence :: u32
  sr_payload :: 'p
  sr_crc32 :: u32

type_synonym settings_record_v1 = "settings_payload_v1 settings_rec"
type_synonym settings_record_v2 = "settings_payload_v2 settings_rec"
type_synonym settings_record_v3 = "settings_payload_v3 settings_rec"
type_synonym settings_record = "settings_payload settings_rec"

section \<open>Their bytes in memory\<close>

definition v1_bytes :: "'a settings_payload_v1_scheme \<Rightarrow> u8 list" where
  "v1_bytes p = [led_enabled p, led_brightness p, rgb_enabled p, rgb_brightness p, screen_brightness p,
     camera_review_after_shot p, auto_sleep_minutes p, camera_format_rgb_red p, camera_size_rgb_green p,
     camera_schema_mark p, rgb_red_light_mode p, rgb_green p, rgb_blue p, rgb_schema_mark p, fps_rgb_blue p,
     qr_rate_fps_mark p]"

definition v1_of_bytes :: "u8 list \<Rightarrow> settings_payload_v1" where
  "v1_of_bytes b = \<lparr>led_enabled = b ! 0, led_brightness = b ! 1, rgb_enabled = b ! 2, rgb_brightness = b ! 3,
     screen_brightness = b ! 4, camera_review_after_shot = b ! 5, auto_sleep_minutes = b ! 6,
     camera_format_rgb_red = b ! 7, camera_size_rgb_green = b ! 8, camera_schema_mark = b ! 9,
     rgb_red_light_mode = b ! 10, rgb_green = b ! 11, rgb_blue = b ! 12, rgb_schema_mark = b ! 13,
     fps_rgb_blue = b ! 14, qr_rate_fps_mark = b ! 15\<rparr>"

definition v2_of_bytes :: "u8 list \<Rightarrow> settings_payload_v2" where
  "v2_of_bytes b = settings_payload_v1.extend (v1_of_bytes b)
     (settings_payload_v2.fields (slice 16 SETTINGS_APP_DATA_V2_SIZE b))"

definition v3_of_bytes :: "u8 list \<Rightarrow> settings_payload_v3" where
  "v3_of_bytes b = settings_payload_v2.extend (v2_of_bytes b) (settings_payload_v3.fields (b ! 96))"

definition payload_of_bytes :: "u8 list \<Rightarrow> settings_payload" where
  "payload_of_bytes b = settings_payload_v1.extend (v1_of_bytes b)
     (settings_payload.fields (slice 16 SETTINGS_APP_DATA_SIZE b) (b ! 104))"

definition v2_bytes :: "'a settings_payload_v2_scheme \<Rightarrow> u8 list" where
  "v2_bytes p = v1_bytes p @ app_data_v2 p"

definition v3_bytes :: "settings_payload_v3 \<Rightarrow> u8 list" where
  "v3_bytes p = v2_bytes p @ [autostart_id_v3 p]"

definition payload_bytes :: "settings_payload \<Rightarrow> u8 list" where
  "payload_bytes p = v1_bytes p @ app_data p @ [autostart_id p]"

text \<open>The 124 bytes of a current record, its three padding bytes holding the fill of \<open>memset\<close>.\<close>

definition record_bytes :: "settings_record \<Rightarrow> u8 list" where
  "record_bytes r = le32 (sr_magic r) @ le16 (sr_version r) @ le16 (sr_payload_size r) @ le32 (sr_sequence r) @
     payload_bytes (sr_payload r) @ replicate 3 0xFF @ le32 (sr_crc32 r)"

text \<open>The union \<open>settings_slot_t\<close>: its bytes, and the four structures they are read as.\<close>

type_synonym settings_slot = "u8 list"

definition slot_size :: nat where "slot_size = 124"

definition slot_as :: "(u8 list \<Rightarrow> 'p) \<Rightarrow> nat \<Rightarrow> nat \<Rightarrow> settings_slot \<Rightarrow> 'p settings_rec" where
  "slot_as get n crc_off b = \<lparr>sr_magic = rd32 b 0, sr_version = rd16 b 4, sr_payload_size = rd16 b 6,
     sr_sequence = rd32 b 8, sr_payload = get (slice 12 n b), sr_crc32 = rd32 b crc_off\<rparr>"

definition slot_current :: "settings_slot \<Rightarrow> settings_record" where
  "slot_current = slot_as payload_of_bytes 105 120"

definition slot_v3 :: "settings_slot \<Rightarrow> settings_record_v3" where
  "slot_v3 = slot_as v3_of_bytes 97 112"

definition slot_v2 :: "settings_slot \<Rightarrow> settings_record_v2" where
  "slot_v2 = slot_as v2_of_bytes 96 108"

definition slot_legacy :: "settings_slot \<Rightarrow> settings_record_v1" where
  "slot_legacy = slot_as v1_of_bytes 16 28"

section \<open>The code\<close>

definition flash_slot_partition :: "u8 \<Rightarrow> nat" where
  "flash_slot_partition slot =
     (if slot \<noteq> 0 then INTERNAL_FLASH_PARTITION_SETTINGS_1 else INTERNAL_FLASH_PARTITION_SETTINGS_0)"

definition settings_record_crc :: "settings_record \<Rightarrow> u32" where
  "settings_record_crc r =
     (let crc = crc32_update 0 (le32 (sr_magic r));
          crc = crc32_update crc (le16 (sr_version r));
          crc = crc32_update crc (le16 (sr_payload_size r));
          crc = crc32_update crc (le32 (sr_sequence r))
      in crc32_update crc (payload_bytes (sr_payload r)))"

definition settings_record_valid :: "settings_record \<Rightarrow> bool" where
  "settings_record_valid r =
     (if sr_magic r \<noteq> SETTINGS_MAGIC then False
      else if sr_version r \<noteq> SETTINGS_STORAGE_VERSION then False
      else if sr_payload_size r \<noteq> 105 then False
      else sr_crc32 r = settings_record_crc r)"

definition settings_record_v1_crc :: "settings_record_v1 \<Rightarrow> u32" where
  "settings_record_v1_crc r =
     (let crc = crc32_update 0 (le32 (sr_magic r));
          crc = crc32_update crc (le16 (sr_version r));
          crc = crc32_update crc (le16 (sr_payload_size r));
          crc = crc32_update crc (le32 (sr_sequence r))
      in crc32_update crc (v1_bytes (sr_payload r)))"

definition settings_record_v1_valid :: "settings_record_v1 \<Rightarrow> bool" where
  "settings_record_v1_valid r =
     (sr_magic r = SETTINGS_MAGIC \<and> sr_version r = SETTINGS_STORAGE_LEGACY_VERSION \<and>
      sr_payload_size r = 16 \<and> sr_crc32 r = settings_record_v1_crc r)"

definition settings_record_v2_crc :: "settings_record_v2 \<Rightarrow> u32" where
  "settings_record_v2_crc r =
     (let crc = crc32_update 0 (le32 (sr_magic r));
          crc = crc32_update crc (le16 (sr_version r));
          crc = crc32_update crc (le16 (sr_payload_size r));
          crc = crc32_update crc (le32 (sr_sequence r))
      in crc32_update crc (v2_bytes (sr_payload r)))"

definition settings_record_v2_valid :: "settings_record_v2 \<Rightarrow> bool" where
  "settings_record_v2_valid r =
     (sr_magic r = SETTINGS_MAGIC \<and> sr_version r = SETTINGS_STORAGE_V2_VERSION \<and>
      sr_payload_size r = 96 \<and> sr_crc32 r = settings_record_v2_crc r)"

definition settings_record_v3_crc :: "settings_record_v3 \<Rightarrow> u32" where
  "settings_record_v3_crc r =
     (let crc = crc32_update 0 (le32 (sr_magic r));
          crc = crc32_update crc (le16 (sr_version r));
          crc = crc32_update crc (le16 (sr_payload_size r));
          crc = crc32_update crc (le32 (sr_sequence r))
      in crc32_update crc (v3_bytes (sr_payload r)))"

definition settings_record_v3_valid :: "settings_record_v3 \<Rightarrow> bool" where
  "settings_record_v3_valid r =
     (sr_magic r = SETTINGS_MAGIC \<and> sr_version r = SETTINGS_STORAGE_V3_VERSION \<and>
      sr_payload_size r = 97 \<and> sr_crc32 r = settings_record_v3_crc r)"

definition settings_slot_valid :: "settings_slot \<Rightarrow> bool" where
  "settings_slot_valid b =
     (if sr_version (slot_current b) = SETTINGS_STORAGE_VERSION then settings_record_valid (slot_current b)
      else if sr_version (slot_v3 b) = SETTINGS_STORAGE_V3_VERSION then settings_record_v3_valid (slot_v3 b)
      else if sr_version (slot_v2 b) = SETTINGS_STORAGE_V2_VERSION then settings_record_v2_valid (slot_v2 b)
      else settings_record_v1_valid (slot_legacy b))"

definition settings_slot_sequence :: "settings_slot \<Rightarrow> u32" where
  "settings_slot_sequence b =
     (if sr_version (slot_current b) = SETTINGS_STORAGE_VERSION then sr_sequence (slot_current b)
      else if sr_version (slot_v3 b) = SETTINGS_STORAGE_V3_VERSION then sr_sequence (slot_v3 b)
      else if sr_version (slot_v2 b) = SETTINGS_STORAGE_V2_VERSION then sr_sequence (slot_v2 b)
      else sr_sequence (slot_legacy b))"

definition payload_zero :: settings_payload where
  "payload_zero = payload_of_bytes (replicate 105 0)"

text \<open>\<open>memcpy(payload, src, sizeof(settings_payload_v1_t))\<close>: the sixteen leading bytes.\<close>

definition copy_v1 :: "'a settings_payload_v1_scheme \<Rightarrow> settings_payload \<Rightarrow> settings_payload" where
  "copy_v1 src p = settings_payload_v1.extend (settings_payload_v1.truncate src)
     (settings_payload.fields (app_data p) (autostart_id p))"

definition settings_slot_payload :: "settings_slot \<Rightarrow> settings_payload" where
  "settings_slot_payload b =
     (let p = payload_zero
      in if sr_version (slot_current b) = SETTINGS_STORAGE_VERSION then sr_payload (slot_current b)
         else if sr_version (slot_v3 b) = SETTINGS_STORAGE_V3_VERSION then
           let q = sr_payload (slot_v3 b); p = copy_v1 q p
           in p\<lparr>app_data := mem_write 0 (app_data_v2 q) (app_data p),
                autostart_id := if autostart_id_v3 q < SETTINGS_AUTOSTART_V3_COUNT then autostart_id_v3 q else 0\<rparr>
         else if sr_version (slot_v2 b) = SETTINGS_STORAGE_V2_VERSION then
           let q = sr_payload (slot_v2 b); p = copy_v1 q p
           in p\<lparr>app_data := mem_write 0 (app_data_v2 q) (app_data p)\<rparr>
         else copy_v1 (sr_payload (slot_legacy b)) p)"

text \<open>The three static variables.\<close>

record settings_store =
  ss_ok :: bool
  ss_slot :: u8
  ss_sequence :: u32

record settings_store_load =
  has_payload :: bool
  load_payload :: settings_payload

definition settings_select :: "settings_slot \<Rightarrow> settings_slot \<Rightarrow> u8" where
  "settings_select b0 b1 =
     (let valid0 = settings_slot_valid b0; valid1 = settings_slot_valid b1
      in if valid0 \<and> valid1 then (if settings_slot_sequence b1 > settings_slot_sequence b0 then 1 else 0)
         else if valid0 then 0
         else if valid1 then 1
         else 0xFF)"

text \<open>\<open>want\<close> tells whether the caller passed a result structure.\<close>

definition settings_store_init ::
  "'s flash_ops \<Rightarrow> bool \<Rightarrow> settings_store \<Rightarrow> 's \<Rightarrow> settings_store_load option \<times> settings_store \<times> 's" where
  "settings_store_init ops want st s =
     (let result = (if want then Some \<lparr>has_payload = False, load_payload = payload_zero\<rparr> else None);
          st = \<lparr>ss_ok = False, ss_slot = 0xFF, ss_sequence = 0\<rparr>;
          (flash_result, s) = fo_init ops 10000000 s;
          (flash_info, s) = fo_get_info ops s
      in if flash_result \<noteq> INTERNAL_FLASH_OK then (result, st, s)
         else
           let (flash_result, slot0, s) = fo_read ops INTERNAL_FLASH_PARTITION_SETTINGS_0 0 (Ptr (replicate slot_size 0)) s;
               (flash_result, slot1, s) =
                 (if flash_result = INTERNAL_FLASH_OK
                  then fo_read ops INTERNAL_FLASH_PARTITION_SETTINGS_1 0 (Ptr (replicate slot_size 0)) s
                  else (flash_result, replicate slot_size 0, s))
           in if flash_result \<noteq> INTERNAL_FLASH_OK then (result, st, s)
              else
                let selected = settings_select slot0 slot1; st = st\<lparr>ss_ok := True\<rparr>
                in if selected \<noteq> 0xFF then
                     let b = (if selected = 0 then slot0 else slot1)
                     in (if want then Some \<lparr>has_payload = True, load_payload = settings_slot_payload b\<rparr> else None,
                         st\<lparr>ss_sequence := settings_slot_sequence b, ss_slot := selected\<rparr>, s)
                   else (result, st, s))"

definition settings_store_enabled :: "settings_store \<Rightarrow> bool" where
  "settings_store_enabled st = ss_ok st"

definition save_record :: "u32 \<Rightarrow> settings_payload \<Rightarrow> settings_record" where
  "save_record seq payload =
     (let r = \<lparr>sr_magic = SETTINGS_MAGIC, sr_version = SETTINGS_STORAGE_VERSION, sr_payload_size = 105,
               sr_sequence = seq + 1, sr_payload = payload, sr_crc32 = 0xFFFFFFFF\<rparr>
      in r\<lparr>sr_crc32 := settings_record_crc r\<rparr>)"

definition save_target :: "u8 \<Rightarrow> u8" where
  "save_target slot = (let target = (if slot = 0 then 1 else 0) in if slot = 0xFF then 0 else target)"

definition settings_store_save ::
  "'s flash_ops \<Rightarrow> settings_payload option \<Rightarrow> settings_store \<Rightarrow> 's \<Rightarrow> bool \<times> settings_store \<times> 's" where
  "settings_store_save ops payload st s =
     (if \<not> ss_ok st \<or> payload = None then (False, st, s)
      else
        let r = save_record (ss_sequence st) (the payload);
            target = save_target (ss_slot st);
            p = flash_slot_partition target;
            (flash_result, s) = fo_erase ops p 0 SETTINGS_FLASH_SLOT_SIZE s;
            (flash_result, s) = (if flash_result = INTERNAL_FLASH_OK
                                 then fo_program ops p 0 (Ptr (record_bytes r)) s else (flash_result, s));
            (flash_result, verify, s) =
              (if flash_result = INTERNAL_FLASH_OK then fo_read ops p 0 (Ptr (replicate slot_size 0)) s
               else (flash_result, replicate slot_size 0, s))
        in if flash_result \<noteq> INTERNAL_FLASH_OK then (False, st, s)
           else if settings_record_valid (slot_current verify) \<and> sr_sequence (slot_current verify) = sr_sequence r then
             (True, st\<lparr>ss_sequence := sr_sequence r, ss_slot := target\<rparr>, s)
           else (False, st, s))"

section \<open>Bytes and structures\<close>

lemma length_v1_bytes [simp]: "length (v1_bytes p) = 16"
  by (simp add: v1_bytes_def)

lemma length_payload_bytes [simp]: "length (app_data p) = SETTINGS_APP_DATA_SIZE \<Longrightarrow> length (payload_bytes p) = 105"
  by (simp add: payload_bytes_def SETTINGS_APP_DATA_SIZE_def)

lemma v1_bytes_extend [simp]: "v1_bytes (settings_payload_v1.extend p x) = v1_bytes p"
  "v1_bytes (settings_payload_v1.truncate q) = v1_bytes q"
  by (simp_all add: v1_bytes_def settings_payload_v1.defs)

lemma list_of_length_16: "length b = 16 \<Longrightarrow>
  b = [b ! 0, b ! 1, b ! 2, b ! 3, b ! 4, b ! 5, b ! 6, b ! 7, b ! 8, b ! 9, b ! 10, b ! 11, b ! 12, b ! 13, b ! 14, b ! 15]"
  by (rule nth_equalityI) (auto simp: less_Suc_eq numeral_eq_Suc)

lemma v1_bytes_of_bytes: "16 \<le> length b \<Longrightarrow> v1_bytes (v1_of_bytes b) = take 16 b"
  using list_of_length_16 [of "take 16 b"] by (simp add: v1_bytes_def v1_of_bytes_def)

lemma payload_of_payload_bytes:
  "length (app_data p) = SETTINGS_APP_DATA_SIZE \<Longrightarrow> payload_of_bytes (payload_bytes p @ zs) = p"
  by (simp add: payload_of_bytes_def payload_bytes_def v1_of_bytes_def v1_bytes_def settings_payload_v1.defs
      settings_payload.defs slice_def nth_append SETTINGS_APP_DATA_SIZE_def)

lemma payload_bytes_of_bytes: "length b = 105 \<Longrightarrow> payload_bytes (payload_of_bytes b) = b"
proof -
  assume l: "length b = 105"
  have "payload_bytes (payload_of_bytes b) = take 16 b @ slice 16 88 b @ [b ! 104]"
    using v1_bytes_of_bytes [of b] l
    by (simp add: payload_bytes_def payload_of_bytes_def SETTINGS_APP_DATA_SIZE_def)
      (simp add: settings_payload_v1.defs settings_payload.defs)
  also have "\<dots> = b" using l by (intro nth_equalityI) (auto simp: nth_append slice_def nth_Cons' intro: arg_cong [of _ _ "(!) b"])
  finally show ?thesis .
qed

lemma slot_current_record_bytes:
  assumes "length (app_data (sr_payload r)) = SETTINGS_APP_DATA_SIZE"
  shows "slot_current (record_bytes r) = r" "length (record_bytes r) = slot_size"
proof -
  let ?p = "payload_bytes (sr_payload r)"
  have l: "length ?p = 105" using assms by simp
  have "rd32 (record_bytes r) 0 = sr_magic r" using f32.get_bytes_append [of "[]" "sr_magic r"] by (simp add: record_bytes_def)
  moreover have "rd16 (record_bytes r) 4 = sr_version r"
    using f16.get_bytes_append [of "le32 (sr_magic r)" "sr_version r"] by (simp add: record_bytes_def)
  moreover have "rd16 (record_bytes r) 6 = sr_payload_size r"
    using f16.get_bytes_append [of "le32 (sr_magic r) @ le16 (sr_version r)" "sr_payload_size r"] by (simp add: record_bytes_def)
  moreover have "rd32 (record_bytes r) 8 = sr_sequence r"
    using f32.get_bytes_append [of "le32 (sr_magic r) @ le16 (sr_version r) @ le16 (sr_payload_size r)" "sr_sequence r"]
    by (simp add: record_bytes_def)
  moreover have "rd32 (record_bytes r) 120 = sr_crc32 r"
    using f32.get_bytes_append [of "le32 (sr_magic r) @ le16 (sr_version r) @ le16 (sr_payload_size r) @
      le32 (sr_sequence r) @ ?p @ replicate 3 0xFF" "sr_crc32 r" "[]"] l by (simp add: record_bytes_def del: replicate.simps)
  moreover have "slice 12 105 (record_bytes r) = ?p" using l by (simp add: record_bytes_def slice_def)
  ultimately show "slot_current (record_bytes r) = r"
    using payload_of_payload_bytes [OF assms, of "[]"] by (simp add: slot_current_def slot_as_def)
  show "length (record_bytes r) = slot_size" using l by (simp add: record_bytes_def slot_size_def)
qed

lemma settings_record_crc_ignores_crc [simp]: "settings_record_crc (r\<lparr>sr_crc32 := c\<rparr>) = settings_record_crc r"
  by (simp add: settings_record_crc_def)

lemma save_record_fields [simp]: "sr_magic (save_record q p) = SETTINGS_MAGIC" "sr_version (save_record q p) = SETTINGS_STORAGE_VERSION"
  "sr_payload_size (save_record q p) = 105" "sr_sequence (save_record q p) = q + 1" "sr_payload (save_record q p) = p"
  by (simp_all add: save_record_def Let_def)

lemma save_record_valid [simp]: "settings_record_valid (save_record q p)"
  by (simp add: settings_record_valid_def save_record_def settings_record_crc_def Let_def)

text \<open>A stored record is valid and gives back its sequence and payload, whichever bytes follow.\<close>

lemma stored_record:
  assumes "length (app_data p) = SETTINGS_APP_DATA_SIZE"
  shows "settings_slot_valid (record_bytes (save_record q p))"
    "settings_slot_sequence (record_bytes (save_record q p)) = q + 1"
    "settings_slot_payload (record_bytes (save_record q p)) = p"
  using assms
  by (simp_all add: settings_slot_valid_def settings_slot_sequence_def settings_slot_payload_def slot_current_record_bytes Let_def)

lemma select_cases: "settings_select b0 b1 \<in> {0, 1, 0xFF}"
  by (simp add: settings_select_def Let_def)

lemma select_none: "settings_select b0 b1 = 0xFF \<longleftrightarrow> \<not> settings_slot_valid b0 \<and> \<not> settings_slot_valid b1"
  by (simp add: settings_select_def Let_def)

lemma select_0: "settings_select b0 b1 = 0 \<longleftrightarrow> settings_slot_valid b0 \<and>
    (settings_slot_valid b1 \<longrightarrow> settings_slot_sequence b1 \<le> settings_slot_sequence b0)"
  by (auto simp: settings_select_def Let_def)

lemma select_1: "settings_select b0 b1 = 1 \<longleftrightarrow> settings_slot_valid b1 \<and>
    (settings_slot_valid b0 \<longrightarrow> settings_slot_sequence b0 < settings_slot_sequence b1)"
  by (auto simp: settings_select_def Let_def)

section \<open>What the store keeps on the flash\<close>

text \<open>
  \<open>c p i\<close> is byte \<open>i\<close> of partition \<open>p\<close>, when it is defined. The image of a slot are its bytes, when all of them are.
\<close>

definition slot_image :: "(nat \<Rightarrow> nat \<Rightarrow> u8 option) \<Rightarrow> u8 \<Rightarrow> settings_slot option" where
  "slot_image c k = those (map (c (flash_slot_partition k)) [0..<slot_size])"

lemma those_Some: "those xs = Some ys \<longleftrightarrow> xs = map Some ys"
  by (induction xs arbitrary: ys) (auto split: option.splits simp: Cons_eq_map_conv)

lemma slot_image_Some: "slot_image c k = Some b \<longleftrightarrow> map (c (flash_slot_partition k)) [0..<slot_size] = map Some b"
  by (simp add: slot_image_def those_Some)

lemma slot_image_length: "slot_image c k = Some b \<Longrightarrow> length b = slot_size"
  by (auto simp: slot_image_Some dest: arg_cong [of _ _ length])

lemma slot_image_byte: "slot_image c k = Some b \<Longrightarrow> i < slot_size \<Longrightarrow> c (flash_slot_partition k) i = Some (b ! i)"
  using slot_image_length [of c k b] by (auto simp: slot_image_Some dest: arg_cong [of _ _ "\<lambda>xs. xs ! i"])

lemma slot_imageI:
  assumes "length b = slot_size" and "\<And>i. i < slot_size \<Longrightarrow> c (flash_slot_partition k) i = Some (b ! i)"
  shows "slot_image c k = Some b"
  unfolding slot_image_Some using assms by (intro nth_equalityI) simp_all

lemma slot_image_mono:
  assumes "slot_image c k = Some b"
    and "\<And>i x. i < slot_size \<Longrightarrow> c (flash_slot_partition k) i = Some x \<Longrightarrow> c' (flash_slot_partition k) i = Some x"
  shows "slot_image c' k = Some b"
  using slot_image_length [OF assms(1)] slot_image_byte [OF assms(1)] assms(2) by (intro slot_imageI) auto

lemma slot_image_keeps: "keeps c c' \<Longrightarrow> slot_image c k = Some b \<Longrightarrow> slot_image c' k = Some b"
  by (erule slot_image_mono) (rule keepsD)

text \<open>The payload a boot finds in the two slots.\<close>

definition loads_from :: "settings_slot \<Rightarrow> settings_slot \<Rightarrow> settings_payload option" where
  "loads_from b0 b1 = (let k = settings_select b0 b1
     in if k = 0xFF then None else Some (settings_slot_payload (if k = 0 then b0 else b1)))"

definition load_result :: "settings_store_load \<Rightarrow> settings_payload option" where
  "load_result ld = (if has_payload ld then Some (load_payload ld) else None)"

text \<open>The invariant: the store's variables name a valid record, or no record has been written yet.\<close>

definition anchored :: "(nat \<Rightarrow> nat \<Rightarrow> u8 option) \<Rightarrow> settings_store \<Rightarrow> bool" where
  "anchored c st =
     (if ss_slot st = 0xFF then ss_sequence st = 0 \<and> (\<exists>b. slot_image c 1 = Some b \<and> \<not> settings_slot_valid b)
      else (ss_slot st = 0 \<or> ss_slot st = 1) \<and> (\<exists>b. slot_image c (ss_slot st) = Some b \<and> settings_slot_valid b \<and>
        settings_slot_sequence b = ss_sequence st))"

definition kept :: "(nat \<Rightarrow> nat \<Rightarrow> u8 option) \<Rightarrow> settings_store \<Rightarrow> settings_payload option" where
  "kept c st = (if ss_slot st = 0xFF then None else map_option settings_slot_payload (slot_image c (ss_slot st)))"

text \<open>The slot the next save writes, and when a boot would prefer its contents.\<close>

definition spare_image :: "(nat \<Rightarrow> nat \<Rightarrow> u8 option) \<Rightarrow> settings_store \<Rightarrow> settings_slot option" where
  "spare_image c st = slot_image c (save_target (ss_slot st))"

definition outranks :: "settings_store \<Rightarrow> settings_slot \<Rightarrow> bool" where
  "outranks st b = (settings_slot_valid b \<and>
     (if ss_slot st = 0 then ss_sequence st < settings_slot_sequence b else ss_sequence st \<le> settings_slot_sequence b))"

lemma save_target_simps [simp]: "save_target 0 = 1" "save_target 1 = 0" "save_target 0xFF = 0"
  by (simp_all add: save_target_def)

lemma anchored_slot: "anchored c st \<Longrightarrow> ss_slot st \<in> {0, 1, 0xFF}"
  by (auto simp: anchored_def split: if_splits)

lemma spare_slot: "anchored c st \<Longrightarrow> save_target (ss_slot st) \<in> {0, 1}"
  by (auto simp: anchored_def split: if_splits)

lemma anchored_other:
  assumes "anchored c st"
    and "\<And>k b. k \<in> {0, 1} \<Longrightarrow> k \<noteq> save_target (ss_slot st) \<Longrightarrow> slot_image c k = Some b \<Longrightarrow> slot_image c' k = Some b"
  shows "anchored c' st \<and> kept c' st = kept c st"
  using assms(1) assms(2) [of 0] assms(2) [of 1] by (auto simp: anchored_def kept_def split: if_splits)

lemma loads_anchored:
  assumes "anchored c st" and "slot_image c 0 = Some b0" and "slot_image c 1 = Some b1" and "spare_image c st = Some t"
  shows "loads_from b0 b1 = (if outranks st t then Some (settings_slot_payload t) else kept c st)"
  using assms by (auto simp: anchored_def kept_def loads_from_def spare_image_def outranks_def settings_select_def Let_def split: if_splits)

lemma next_sequence_greater:
  fixes q :: u32
  assumes "q \<noteq> 0xFFFFFFFF"
  shows "q < q + 1"
proof -
  from assms have "unat q \<noteq> unat (0xFFFFFFFF :: u32)" by (simp only: word_unat_eq_iff not_False_eq_True)
  moreover have "unat q < 2 ^ LENGTH(32)" by (rule unsigned_less)
  ultimately have "unat q < 4294967295" by simp
  then show ?thesis by (simp add: word_less_nat_alt unat_word_ariths)
qed

lemma record_outranks:
  assumes "length (app_data x) = SETTINGS_APP_DATA_SIZE" and "ss_sequence st \<noteq> 0xFFFFFFFF"
  shows "outranks st (record_bytes (save_record (ss_sequence st) x))"
  using stored_record [OF assms(1), of "ss_sequence st"] next_sequence_greater [OF assms(2)] by (simp add: outranks_def less_imp_le)

text \<open>The older payloads, byte by byte.\<close>

lemma copy_v1_simps [simp]: "v1_bytes (copy_v1 q p) = v1_bytes q" "app_data (copy_v1 q p) = app_data p"
  "autostart_id (copy_v1 q p) = autostart_id p"
  by (simp_all add: copy_v1_def v1_bytes_def settings_payload_v1.defs settings_payload.defs)

lemma v2_v3_of_bytes [simp]: "v1_bytes (v2_of_bytes b) = v1_bytes (v1_of_bytes b)" "app_data_v2 (v2_of_bytes b) = slice 16 80 b"
  "v1_bytes (v3_of_bytes b) = v1_bytes (v1_of_bytes b)" "app_data_v2 (v3_of_bytes b) = slice 16 80 b" "autostart_id_v3 (v3_of_bytes b) = b ! 96"
  by (simp_all add: v2_of_bytes_def v3_of_bytes_def v1_bytes_def settings_payload_v1.defs settings_payload_v2.defs
      settings_payload_v3.defs SETTINGS_APP_DATA_V2_SIZE_def)

lemma payload_zero_simps [simp]: "app_data payload_zero = replicate 88 0" "autostart_id payload_zero = 0"
  by (simp_all add: payload_zero_def payload_of_bytes_def settings_payload_v1.defs settings_payload.defs slice_def
      SETTINGS_APP_DATA_SIZE_def del: replicate.simps)

lemma v1_bytes_slice: "12 + n \<le> length b \<Longrightarrow> 16 \<le> n \<Longrightarrow> v1_bytes (v1_of_bytes (slice 12 n b)) = slice 12 16 b"
  by (simp add: v1_bytes_of_bytes) (simp add: slice_def min_def)

lemma slice_slice: "off + m \<le> n \<Longrightarrow> slice off m (slice base n b) = slice (base + off) m b"
  by (simp add: slice_def take_drop add.commute)

lemma v1_bytes_update [simp]: "v1_bytes (p\<lparr>app_data := x\<rparr>) = v1_bytes p" "v1_bytes (p\<lparr>autostart_id := y\<rparr>) = v1_bytes p"
  by (simp_all add: v1_bytes_def)

section \<open>The operations on any flash\<close>

locale settings_flash = flash_device +
  assumes slots_fit: "slot_size \<le> psize (flash_slot_partition k)"
begin

lemma read_slot:
  assumes "fo_read ops (flash_slot_partition k) 0 (Ptr (replicate slot_size x)) s = (INTERNAL_FLASH_OK, b, s')" and "ready s"
  shows "slot_image (contents s) k = Some b"
  using read_ok [OF assms] by (simp add: slot_image_Some)

lemma init_spec:
  assumes run: "settings_store_init ops want st0 s = (ld, st, s')" and rd: "ready s"
  shows "ready s' \<and> keeps (contents s) (contents s')"
    and "ss_ok st \<Longrightarrow> \<exists>b0 b1. slot_image (contents s') 0 = Some b0 \<and> slot_image (contents s') 1 = Some b1 \<and>
      anchored (contents s') st \<and> kept (contents s') st = loads_from b0 b1 \<and>
      (\<forall>t. spare_image (contents s') st = Some t \<longrightarrow> \<not> outranks st t) \<and>
      (want \<longrightarrow> ld \<noteq> None) \<and> (\<forall>l. ld = Some l \<longrightarrow> load_result l = loads_from b0 b1)"
proof -
  obtain r1 s1 where s1: "fo_init ops 10000000 s = (r1, s1)" by (metis prod.collapse)
  obtain inf2 s2 where s2: "fo_get_info ops s1 = (inf2, s2)" by (metis prod.collapse)
  obtain r3 b0 s3 where s3: "fo_read ops INTERNAL_FLASH_PARTITION_SETTINGS_0 0 (Ptr (replicate slot_size 0)) s2 = (r3, b0, s3)"
    by (metis prod_cases3)
  obtain r4 b1 s4 where s4: "fo_read ops INTERNAL_FLASH_PARTITION_SETTINGS_1 0 (Ptr (replicate slot_size 0)) s3 = (r4, b1, s4)"
    by (metis prod_cases3)
  have c1: "ready s1" "keeps (contents s) (contents s1)" using init_keeps [OF s1 rd] by simp_all
  have c2: "ready s2" "keeps (contents s1) (contents s2)" using info_keeps [OF s2 c1(1)] by simp_all
  have c3: "ready s3" "keeps (contents s2) (contents s3)" using read_keeps [OF s3 c2(1)] by simp_all
  have c4: "ready s4" "keeps (contents s3) (contents s4)" using read_keeps [OF s4 c3(1)] by simp_all
  have k: "keeps (contents s) (contents s2)" "keeps (contents s) (contents s3)" "keeps (contents s) (contents s4)"
    using c1(2) c2(2) c3(2) c4(2) flash_keeps_trans by blast+
  show "ready s' \<and> keeps (contents s) (contents s')"
    using run s1 s2 s3 s4 c1 c2 c3 c4 k by (auto simp: settings_store_init_def Let_def split: if_splits)
  show "\<exists>b0 b1. slot_image (contents s') 0 = Some b0 \<and> slot_image (contents s') 1 = Some b1 \<and>
      anchored (contents s') st \<and> kept (contents s') st = loads_from b0 b1 \<and>
      (\<forall>t. spare_image (contents s') st = Some t \<longrightarrow> \<not> outranks st t) \<and>
      (want \<longrightarrow> ld \<noteq> None) \<and> (\<forall>l. ld = Some l \<longrightarrow> load_result l = loads_from b0 b1)" if "ss_ok st"
  proof -
    have ok: "r1 = INTERNAL_FLASH_OK" "r3 = INTERNAL_FLASH_OK" "r4 = INTERNAL_FLASH_OK" and s': "s' = s4"
      using run s1 s2 s3 s4 that by (auto simp: settings_store_init_def Let_def split: if_splits)
    have i0: "slot_image (contents s3) 0 = Some b0"
      using read_slot [of 0 0 s2 b0 s3] s3 ok c2 slot_image_keeps [OF c3(2)] by (simp add: flash_slot_partition_def)
    have i1: "slot_image (contents s3) 1 = Some b1" using read_slot [of 1 0 s3 b1 s4] s4 ok c3 by (simp add: flash_slot_partition_def)
    note i = slot_image_keeps [OF c4(2) i0] slot_image_keeps [OF c4(2) i1]
    have st: "st = \<lparr>ss_ok = True, ss_slot = settings_select b0 b1, ss_sequence = (if settings_select b0 b1 = 0xFF then 0
        else settings_slot_sequence (if settings_select b0 b1 = 0 then b0 else b1))\<rparr>"
      "want \<longrightarrow> ld \<noteq> None" "\<forall>l. ld = Some l \<longrightarrow> load_result l = loads_from b0 b1"
      using run s1 s2 s3 s4 ok by (auto simp: settings_store_init_def Let_def load_result_def loads_from_def split: if_splits)
    have "anchored (contents s4) st \<and> kept (contents s4) st = loads_from b0 b1 \<and>
        (\<forall>t. spare_image (contents s4) st = Some t \<longrightarrow> \<not> outranks st t)"
      using i unfolding st(1)
      by (auto simp: anchored_def kept_def loads_from_def spare_image_def outranks_def settings_select_def Let_def)
    then show ?thesis using i st(2,3) s' by blast
  qed
qed

text \<open>A save succeeds when its three flash operations do: the verification never rejects what a flash
  that keeps its promises has stored.\<close>

lemma save_good:
  assumes ok: "ss_ok st" and len: "length (app_data p) = SETTINGS_APP_DATA_SIZE" and rd: "ready s"
  defines "target \<equiv> save_target (ss_slot st)" and "b \<equiv> record_bytes (save_record (ss_sequence st) p)"
  assumes s1: "fo_erase ops (flash_slot_partition target) 0 SETTINGS_FLASH_SLOT_SIZE s = (INTERNAL_FLASH_OK, s1)"
    and s2: "fo_program ops (flash_slot_partition target) 0 (Ptr b) s1 = (INTERNAL_FLASH_OK, s2)"
    and s3: "fo_read ops (flash_slot_partition target) 0 (Ptr (replicate slot_size 0)) s2 = (INTERNAL_FLASH_OK, v, s3)"
  shows "settings_store_save ops (Some p) st s =
      (True, st\<lparr>ss_sequence := ss_sequence st + 1, ss_slot := target\<rparr>, s3) \<and> slot_image (contents s2) target = Some b"
proof -
  have rl: "length b = slot_size" using slot_current_record_bytes [of "save_record (ss_sequence st) p"] len by (simp add: b_def)
  have "contents s2 (flash_slot_partition target) i = Some (b ! i)" if "i < slot_size" for i
    using erase_program_stored [OF s1 s2 rd, of i] that rl by (simp add: SETTINGS_FLASH_SLOT_SIZE_def slot_size_def)
  then have stored: "slot_image (contents s2) target = Some b" using rl by (intro slot_imageI)
  have "ready s2" using program_ready [OF s2] erase_ready [OF s1 rd] by simp
  then have "v = b" using read_slot [OF s3] stored by simp
  then show ?thesis using ok s1 s2 s3 len stored
    by (auto simp: settings_store_save_def Let_def target_def b_def slot_current_record_bytes)
qed

lemma save_spec:
  assumes run: "settings_store_save ops (Some p) st s = (ok, st', s')" and rd: "ready s"
    and len: "length (app_data p) = SETTINGS_APP_DATA_SIZE"
  defines "target \<equiv> save_target (ss_slot st)"
  shows "ready s'"
    and "q \<noteq> flash_slot_partition target \<Longrightarrow> i < psize q \<Longrightarrow> contents s q i = Some x \<Longrightarrow> contents s' q i = Some x"
    and "if ok then ss_ok st \<and> st' = st\<lparr>ss_sequence := ss_sequence st + 1, ss_slot := target\<rparr> \<and>
        slot_image (contents s') target = Some (record_bytes (save_record (ss_sequence st) p))
     else st' = st"
proof -
  let ?r = "record_bytes (save_record (ss_sequence st) p)"
  let ?p = "flash_slot_partition target"
  obtain r1 s1 where s1: "fo_erase ops ?p 0 SETTINGS_FLASH_SLOT_SIZE s = (r1, s1)" by (metis prod.collapse)
  obtain r2 s2 where s2: "fo_program ops ?p 0 (Ptr ?r) s1 = (r2, s2)" by (metis prod.collapse)
  obtain r3 v s3 where s3: "fo_read ops ?p 0 (Ptr (replicate slot_size 0)) s2 = (r3, v, s3)" by (metis prod_cases3)
  have c1: "ready s1" by (rule erase_ready [OF s1 rd])
  have c2: "ready s2" by (rule program_ready [OF s2 c1])
  have c3: "ready s3" "keeps (contents s2) (contents s3)" using read_keeps [OF s3 c2] by simp_all
  have s': "s' = s \<or> s' = s1 \<or> s' = s2 \<or> s' = s3"
    using run s1 s2 s3 by (auto simp: settings_store_save_def Let_def target_def split: if_splits)
  then show "ready s'" using rd c1 c2 c3(1) by auto
  show "contents s' q i = Some x" if "q \<noteq> ?p" "i < psize q" "contents s q i = Some x"
  proof -
    have k1: "contents s1 q i = Some x" by (rule erase_other_partition [OF s1 rd that])
    have k2: "contents s2 q i = Some x" by (rule program_other_partition [OF s2 c1 that(1,2) k1])
    show ?thesis using s' that(3) k1 k2 keepsD [OF c3(2) k2] by auto
  qed
  show "if ok then ss_ok st \<and> st' = st\<lparr>ss_sequence := ss_sequence st + 1, ss_slot := target\<rparr> \<and>
        slot_image (contents s') target = Some ?r
     else st' = st"
  proof (cases "ss_ok st \<and> r1 = INTERNAL_FLASH_OK \<and> r2 = INTERNAL_FLASH_OK \<and> r3 = INTERNAL_FLASH_OK")
    case False
    then have "\<not> ok \<and> st' = st"
      using run s1 s2 s3 by (auto simp: settings_store_save_def Let_def target_def split: if_splits)
    then show ?thesis by simp
  next
    case good: True
    with save_good [of st p s s1 s2 v s3] len rd s1 s2 s3
    have "settings_store_save ops (Some p) st s = (True, st\<lparr>ss_sequence := ss_sequence st + 1, ss_slot := target\<rparr>, s3)"
      "slot_image (contents s2) target = Some ?r" by (auto simp: target_def)
    then show ?thesis using run good slot_image_keeps [OF c3(2)] by auto
  qed
qed

lemma slots_kept:
  assumes "slot_image c k = Some b"
    and "\<And>i x. i < psize (flash_slot_partition k) \<Longrightarrow> c (flash_slot_partition k) i = Some x \<Longrightarrow> c' (flash_slot_partition k) i = Some x"
  shows "slot_image c' k = Some b"
  using slots_fit [of k] assms(2) by (intro slot_image_mono [OF assms(1)]) simp

lemma slot_partition_inj: "k \<in> {0, 1} \<Longrightarrow> j \<in> {0, 1} \<Longrightarrow> flash_slot_partition k = flash_slot_partition j \<Longrightarrow> k = j"
  by (auto simp: flash_slot_partition_def INTERNAL_FLASH_PARTITION_SETTINGS_0_def INTERNAL_FLASH_PARTITION_SETTINGS_1_def
      split: if_splits)

lemma other_slot_kept:
  assumes "k \<in> {0, 1}" and "t \<in> {0, 1}" and "k \<noteq> t" and "slot_image c k = Some b"
    and "\<And>q i x. q \<noteq> flash_slot_partition t \<Longrightarrow> i < psize q \<Longrightarrow> c q i = Some x \<Longrightarrow> c' q i = Some x"
  shows "slot_image c' k = Some b"
  using assms(5) [of "flash_slot_partition k"] slot_partition_inj [OF assms(1,2)] assms(3) by (intro slots_kept [OF assms(4)]) auto

end

section \<open>The operations on the firmware's flash\<close>

lemma slot_part: "part_size (flash_slot_partition k) = 0x1000" "part_writable (flash_slot_partition k)"
  "flash_slot_partition k \<in> {1, 2}"
  by (simp_all add: flash_slot_partition_def INTERNAL_FLASH_PARTITION_SETTINGS_0_def
      INTERNAL_FLASH_PARTITION_SETTINGS_1_def part_size_def part_writable_def internal_flash_partition_def g_partitions_def)

sublocale nor_chip \<subseteq> store: settings_flash "internal_flash_ops hw True" "\<lambda>w. boot_ready hw (iw_flash w)"
  "flash_contents hw mem" part_size
proof (intro settings_flash.intro settings_flash_axioms.intro)
  show "flash_device (internal_flash_ops hw True) (\<lambda>w. boot_ready hw (iw_flash w)) (flash_contents hw mem) part_size"
    by (rule internal_flash_device)
  show "slot_size \<le> part_size (flash_slot_partition k)" for k by (simp add: slot_part slot_size_def)
qed

interpretation ref_store: settings_flash "internal_flash_ops ref_chip True" "\<lambda>w. boot_ready ref_chip (iw_flash w)"
  "flash_contents ref_chip ref_mem" part_size
  by (rule ref.store.settings_flash_axioms)

text \<open>A save touches only the sector of the slot that is not in use.\<close>

lemma save_emits:
  assumes run: "settings_store_save (internal_flash_ops hw True) p st w = (ok, st', w')" and wf: "boot_wf (iw_flash w)"
  defines "t \<equiv> flash_slot_partition (save_target (ss_slot st))"
  shows "emits (within (part_base t) (part_size t)) (iw_flash w) (iw_flash w')"
proof (cases "ss_ok st \<and> p \<noteq> None")
  case False
  then show ?thesis using run by (auto simp: settings_store_save_def)
next
  case True
  let ?r = "record_bytes (save_record (ss_sequence st) (the p))"
  obtain r1 w1 where s1: "internal_flash_erase hw True t 0 SETTINGS_FLASH_SLOT_SIZE w = (r1, w1)" by (metis prod.collapse)
  obtain r2 w2 where s2: "internal_flash_program hw True t 0 (Ptr ?r) w1 = (r2, w2)" by (metis prod.collapse)
  obtain r3 v w3 where s3: "internal_flash_read hw True t 0 (Ptr (replicate slot_size 0)) w2 = (r3, v, w3)" by (metis prod_cases3)
  have e1: "boot_wf (iw_flash w1)" "emits (within (part_base t) (part_size t)) (iw_flash w) (iw_flash w1)"
    using internal_flash_erase_emits [OF s1 wf] by (auto intro: emits_harmless_within elim!: emits_within_mono)
  have e2: "boot_wf (iw_flash w2)" "emits (within (part_base t) (part_size t)) (iw_flash w1) (iw_flash w2)"
    using internal_flash_program_emits [OF s2 e1(1)] by (auto intro: emits_harmless_within elim!: emits_within_mono)
  have e3: "emits (within (part_base t) (part_size t)) (iw_flash w2) (iw_flash w3)"
    using internal_flash_read_emits [OF s3 e2(1)] by (auto intro: emits_harmless_within)
  have "w' = w1 \<or> w' = w2 \<or> w' = w3"
    using run True s1 s2 s3 by (auto simp: settings_store_save_def internal_flash_ops_def t_def Let_def split: if_splits)
  then show ?thesis using e1 e2 e3 by (auto intro: emits_trans)
qed

lemma reboot_ready: "boot_ready hw (iw_flash (reboot tr))" "boot_wf (iw_flash (reboot tr))"
  by (simp_all add: reboot_def power_on_def boot_ready_def boot_wf_def)

section \<open>Runs of the store\<close>

text \<open>What other code does with the flash: it may initialise the driver and read any partition, and it uses the partitions that
  are not the settings'.\<close>

inductive flash_use :: "spi_hw \<Rightarrow> internal_world \<Rightarrow> internal_world \<Rightarrow> bool" for hw w w' where
  use_init: "internal_flash_init hw True hz w = (r, w') \<Longrightarrow> flash_use hw w w'"
| use_info: "internal_flash_get_info w = (i, w') \<Longrightarrow> flash_use hw w w'"
| use_read: "internal_flash_read hw True pid off d w = (r, bs, w') \<Longrightarrow> flash_use hw w w'"
| use_erase: "pid \<notin> {1, 2} \<Longrightarrow> internal_flash_erase hw True pid off len w = (r, w') \<Longrightarrow> flash_use hw w w'"
| use_program: "pid \<notin> {1, 2} \<Longrightarrow> internal_flash_program hw True pid off d w = (r, w') \<Longrightarrow> flash_use hw w w'"

text \<open>
  \<open>settings_run hw mem c old qs st w\<close>: the store has reached its variables \<open>st\<close> and the flash state \<open>w\<close> since the
  last boot, on a flash with any history. \<open>c\<close> is the payload last loaded or saved with success, \<open>old\<close> what the
  other slot held then, and \<open>qs\<close> are the payloads whose save has failed since.
  Other code may use the flash in between. The sequence counter is assumed not to wrap.
\<close>

inductive settings_run :: "spi_hw \<Rightarrow> (spi_event list \<Rightarrow> nat \<Rightarrow> u8) \<Rightarrow> settings_payload option \<Rightarrow> settings_slot option \<Rightarrow>
  settings_payload set \<Rightarrow> settings_store \<Rightarrow> internal_world \<Rightarrow> bool" for hw mem where
  run_boot: "settings_store_init (internal_flash_ops hw True) True st0 (reboot tr) = (Some ld, st, w) \<Longrightarrow> ss_ok st \<Longrightarrow>
    settings_run hw mem (load_result ld) (spare_image (flash_contents hw mem w) st) {} st w"
| run_saved: "settings_run hw mem c old qs st w \<Longrightarrow>
    settings_store_save (internal_flash_ops hw True) (Some p) st w = (True, st', w') \<Longrightarrow>
    length (app_data p) = SETTINGS_APP_DATA_SIZE \<Longrightarrow> ss_sequence st \<noteq> 0xFFFFFFFF \<Longrightarrow>
    settings_run hw mem (Some p) (spare_image (flash_contents hw mem w') st') {} st' w'"
| run_failed: "settings_run hw mem c old qs st w \<Longrightarrow>
    settings_store_save (internal_flash_ops hw True) (Some p) st w = (False, st', w') \<Longrightarrow>
    length (app_data p) = SETTINGS_APP_DATA_SIZE \<Longrightarrow> settings_run hw mem c old (insert p qs) st' w'"
| run_use: "settings_run hw mem c old qs st w \<Longrightarrow> flash_use hw w w' \<Longrightarrow> settings_run hw mem c old qs st w'"

text \<open>
  \<open>settings_later hw w w'\<close>: what may happen until the next save. Other code uses the flash, the store is initialised
  again, the power is lost at any point, in the middle of an operation too.
\<close>

inductive settings_later :: "spi_hw \<Rightarrow> internal_world \<Rightarrow> internal_world \<Rightarrow> bool" for hw w where
  later_refl: "settings_later hw w w"
| later_use: "settings_later hw w w1 \<Longrightarrow> flash_use hw w1 w2 \<Longrightarrow> settings_later hw w w2"
| later_init: "settings_later hw w w1 \<Longrightarrow> settings_store_init (internal_flash_ops hw True) want st0 w1 = (ld, st, w2) \<Longrightarrow>
    settings_later hw w w2"
| later_power: "settings_later hw w w1 \<Longrightarrow> settings_later hw w (reboot (spi_trace (iw_flash w1)))"
| later_cut: "settings_later hw w w1 \<Longrightarrow> flash_use hw w1 w2 \<Longrightarrow>
    spi_trace (iw_flash w2) = spi_trace (iw_flash w1) @ before @ lost \<Longrightarrow>
    settings_later hw w (reboot (spi_trace (iw_flash w1) @ before))"

text \<open>Other code leaves the two sectors alone.\<close>

definition spares :: "nat set \<Rightarrow> spi_event \<Rightarrow> bool" where
  "spares qs e = (\<forall>q \<in> qs. \<forall>i < part_size q. part_base q + i \<notin> touched e)"

lemma spares_harmless: "harmless e \<Longrightarrow> spares qs e"
  by (simp add: spares_def harmless_def)

lemma spares_within:
  assumes "within (part_base p + off) n e" and "p \<notin> qs" and "off + n \<le> part_size p"
  shows "spares qs e"
  unfolding spares_def
proof (intro ballI allI impI notI)
  fix q i assume q: "q \<in> qs" "i < part_size q" and "part_base q + i \<in> touched e"
  then have "part_base q + i \<in> {part_base p + off ..< part_base p + off + n}" using assms(1) by (auto simp: within_def)
  then have "part_base q + i = part_base p + (part_base q + i - part_base p)" "part_base q + i - part_base p < part_size p"
    using assms(3) by auto
  with partitions_disjoint [OF _ q(2)] have "q = p" by metis
  then show False using q(1) assms(2) by simp
qed

lemma flash_use_emits:
  assumes "flash_use hw w w'" and wf: "boot_wf (iw_flash w)"
  shows "emits (spares {1, 2}) (iw_flash w) (iw_flash w')"
  using assms(1)
proof cases
  case (use_init hz r)
  then show ?thesis using internal_flash_init_emits [OF _ wf] emits_mono spares_harmless by metis
next
  case (use_info i)
  then show ?thesis by (auto simp: internal_flash_get_info_def Let_def)
next
  case (use_read pid off d r bs)
  then show ?thesis using internal_flash_read_emits [OF _ wf] emits_mono spares_harmless by metis
next
  case (use_erase pid off len r)
  then show ?thesis using internal_flash_erase_emits [OF use_erase(2) wf] spares_within [of pid "unat off" len _ "{1, 2}"]
    by (auto elim!: emits_mono intro: spares_harmless)
next
  case (use_program pid off d r)
  then show ?thesis using internal_flash_program_emits [OF use_program(2) wf] spares_within [of pid "unat off" "plen d" _ "{1, 2}"]
    by (auto elim!: emits_mono intro: spares_harmless)
qed

lemma flash_use_ready: "flash_use hw w w' \<Longrightarrow> boot_ready hw (iw_flash w) \<Longrightarrow> boot_ready hw (iw_flash w')"
  by (erule flash_use.cases)
    (auto simp: internal_flash_get_info_def Let_def intro: internal_flash_init_ready internal_flash_erase_ready internal_flash_program_ready
      dest: internal_flash_read_ready)

lemma save_target_other: "\<exists>k \<in> {0, 1}. k \<noteq> save_target (ss_slot st)"
  by (rule bexI [of _ "if save_target (ss_slot st) = 0 then 1 else 0"]) simp_all

context nor_chip
begin

text \<open>An image stays through events that spare its sector, and through a power cycle after them.\<close>

lemma image_emits:
  assumes "emits (spares qs) (iw_flash w) (iw_flash w')" and "flash_slot_partition k \<in> qs"
    and "slot_image (flash_contents hw mem w) k = Some b"
  shows "slot_image (flash_contents hw mem w') k = Some b"
  using assms(2)
  by (intro store.slots_kept [OF assms(3)] contents_emits [OF assms(1)]) (auto simp: spares_def)

lemma image_reboot:
  assumes "slot_image (flash_contents hw mem w) k = Some b" and "\<forall>e \<in> set evs. spares qs e" and "flash_slot_partition k \<in> qs"
  shows "slot_image (flash_contents hw mem (reboot (spi_trace (iw_flash w) @ evs))) k = Some b"
proof (rule image_emits [OF _ assms(3,1)])
  show "emits (spares qs) (iw_flash w) (iw_flash (reboot (spi_trace (iw_flash w) @ evs)))"
    using assms(2) spares_harmless [of Power_Cycle] by (auto simp: emits_def reboot_def power_on_def)
qed

lemma image_some: "settled hw (spi_trace (iw_flash w)) \<Longrightarrow> \<exists>b. slot_image (flash_contents hw mem w) k = Some b"
  by (rule exI, rule slot_imageI [of "map (\<lambda>i. mem (spi_trace (iw_flash w)) (part_base (flash_slot_partition k) + i)) [0..<slot_size]"])
    (simp_all add: contents_settled)

lemma settings_later_keeps:
  "settings_later hw w w' \<Longrightarrow> boot_ready hw (iw_flash w) \<Longrightarrow>
    boot_ready hw (iw_flash w') \<and>
    (\<forall>k b. slot_image (flash_contents hw mem w) k = Some b \<longrightarrow> slot_image (flash_contents hw mem w') k = Some b)"
proof (induction rule: settings_later.induct)
  case (later_use w1 w2)
  then have "boot_wf (iw_flash w1)" by (simp add: boot_ready_def)
  note image_emits [OF flash_use_emits [OF later_use.hyps(2) this] slot_part(3)]
  then show ?case using later_use flash_use_ready [OF later_use.hyps(2)] by blast
next
  case (later_init w1 want st0 ld st w2)
  then show ?case using store.init_spec(1) [OF later_init.hyps(2)] by (auto intro: slot_image_keeps)
next
  case (later_power w1)
  have "slot_image (flash_contents hw mem (reboot (spi_trace (iw_flash w1)))) k = Some b"
    if "slot_image (flash_contents hw mem w1) k = Some b" for k b
    using image_reboot [OF that, of "[]" "{1, 2}"] slot_part(3) by simp
  then show ?case using later_power reboot_ready(1) by blast
next
  case (later_cut w1 w2 before lost)
  then have "boot_wf (iw_flash w1)" by (simp add: boot_ready_def)
  from flash_use_emits [OF later_cut.hyps(2) this] later_cut.hyps(3) have "\<forall>e \<in> set before. spares {1, 2} e"
    by (auto simp: emits_def)
  from image_reboot [OF _ this slot_part(3)] later_cut show ?case by (auto intro: reboot_ready)
qed simp

lemma settings_run_inv:
  "settings_run hw mem c old qs st w \<Longrightarrow> boot_ready hw (iw_flash w) \<and> ss_ok st \<and>
    anchored (flash_contents hw mem w) st \<and> kept (flash_contents hw mem w) st = c \<and>
    (\<forall>b. old = Some b \<longrightarrow> \<not> outranks st b) \<and> (\<forall>x \<in> qs. length (app_data x) = SETTINGS_APP_DATA_SIZE)"
proof (induction rule: settings_run.induct)
  case (run_boot st0 tr ld st w)
  from store.init_spec [OF run_boot(1) reboot_ready(1)] run_boot(2) show ?case by auto
next
  case (run_saved c old qs st w p st' w')
  let ?t = "save_target (ss_slot st)"
  note sp = store.save_spec [OF run_saved.hyps(2) _ run_saved.hyps(3)]
  have t: "?t \<in> {0, 1}" using run_saved.IH spare_slot by blast
  have st': "st' = st\<lparr>ss_sequence := ss_sequence st + 1, ss_slot := ?t\<rparr>" "boot_ready hw (iw_flash w')" "ss_ok st"
    "slot_image (flash_contents hw mem w') ?t = Some (record_bytes (save_record (ss_sequence st) p))"
    using sp(1,3) run_saved.IH by auto
  have other: "slot_image (flash_contents hw mem w') k = Some b"
    if "slot_image (flash_contents hw mem w) k = Some b" "k \<in> {0, 1}" "k \<noteq> ?t" for k b
    using store.other_slot_kept [OF that(2) t that(3,1)] sp(2) run_saved.IH by blast
  have "anchored (flash_contents hw mem w') st'" "kept (flash_contents hw mem w') st' = Some p"
    using t st' stored_record [OF run_saved.hyps(3), of "ss_sequence st"] by (auto simp: anchored_def kept_def)
  moreover have "\<not> outranks st' b" if "spare_image (flash_contents hw mem w') st' = Some b" for b
    using run_saved.IH that other [of 0] other [of 1] next_sequence_greater [OF run_saved.hyps(4)]
    by (auto simp: anchored_def st'(1) spare_image_def outranks_def split: if_splits)
  ultimately show ?case using st' by simp
next
  case (run_failed c old qs st w p st' w')
  note sp = store.save_spec [OF run_failed.hyps(2) _ run_failed.hyps(3)]
  have t: "save_target (ss_slot st) \<in> {0, 1}" using run_failed.IH spare_slot by blast
  have "slot_image (flash_contents hw mem w') k = Some b"
    if "k \<in> {0, 1}" "k \<noteq> save_target (ss_slot st)" "slot_image (flash_contents hw mem w) k = Some b" for k b
    using store.other_slot_kept [OF that(1) t that(2,3)] sp(2) run_failed.IH by blast
  from anchored_other [OF _ this] sp(1,3) run_failed.IH run_failed.hyps(3) show ?case by auto
next
  case (run_use c old qs st w w')
  have "settings_later hw w w'" by (rule later_use [OF later_refl run_use.hyps(2)])
  from settings_later_keeps [OF this] run_use.IH anchored_other [of "flash_contents hw mem w" st "flash_contents hw mem w'"]
  show ?case by auto
qed

text \<open>After a save that succeeds and one that is cut short.\<close>

lemma later_boot:
  assumes "settings_later hw w w1" and rd: "boot_ready hw (iw_flash w)"
    and anc: "anchored (flash_contents hw mem w) st" and t: "spare_image (flash_contents hw mem w) st = Some t"
    and boot: "settings_store_init (internal_flash_ops hw True) want st0 w1 = (Some ld, st'', w'')" and "ss_ok st''"
  shows "load_result ld = (if outranks st t then Some (settings_slot_payload t) else kept (flash_contents hw mem w) st)"
proof -
  note keep = settings_later_keeps [OF assms(1) rd]
  note sp = store.init_spec [OF boot conjunct1 [OF keep]]
  have img: "slot_image (flash_contents hw mem w'') k = Some b" if "slot_image (flash_contents hw mem w) k = Some b" for k b
    using keep that slot_image_keeps sp(1) by blast
  obtain b0 b1 where b: "slot_image (flash_contents hw mem w'') 0 = Some b0" "slot_image (flash_contents hw mem w'') 1 = Some b1"
    "load_result ld = loads_from b0 b1" using sp(2) assms(6) by blast
  have "anchored (flash_contents hw mem w'') st \<and> kept (flash_contents hw mem w'') st = kept (flash_contents hw mem w) st"
    by (rule anchored_other [OF anc img])
  moreover have "spare_image (flash_contents hw mem w'') st = Some t" using img t by (simp add: spare_image_def)
  ultimately show ?thesis using loads_anchored [of "flash_contents hw mem w''" st b0 b1 t] b by simp
qed

lemma saved_boot:
  assumes "settings_run hw mem c old qs st w"
    and save: "settings_store_save (internal_flash_ops hw True) (Some p) st w = (True, st', w')"
    and len: "length (app_data p) = SETTINGS_APP_DATA_SIZE" and q: "ss_sequence st \<noteq> 0xFFFFFFFF"
    and later: "settings_later hw w' w1"
    and boot: "settings_store_init (internal_flash_ops hw True) True st0 w1 = (ld, st'', w'')" and ok: "ss_ok st''"
  shows "ld \<noteq> None \<and> load_result (the ld) = Some p"
proof -
  note inv = settings_run_inv [OF assms(1)]
  note inv' = settings_run_inv [OF run_saved [OF assms(1) save len q]]
  let ?t = "save_target (ss_slot st)"
  note sp = store.save_spec [OF save _ len]
  have t: "?t \<in> {0, 1}" using inv spare_slot by blast
  have "slot_image (flash_contents hw mem w') k = Some b"
    if "k \<in> {0, 1}" "k \<noteq> ?t" "slot_image (flash_contents hw mem w) k = Some b" for k b
    using store.other_slot_kept [OF that(1) t that(2,3)] sp(2) inv by blast
  then have a: "anchored (flash_contents hw mem w') st" using anchored_other inv by blast
  have i: "spare_image (flash_contents hw mem w') st = Some (record_bytes (save_record (ss_sequence st) p))"
    using sp(3) inv by (simp add: spare_image_def)
  obtain l where l: "ld = Some l"
    using store.init_spec [OF boot conjunct1 [OF settings_later_keeps [OF later conjunct1 [OF inv']]]] ok by blast
  show ?thesis
    using later_boot [OF later conjunct1 [OF inv'] a i boot [unfolded l] ok] record_outranks [OF len q] stored_record(3) [OF len] l by simp
qed

lemma torn_boot:
  assumes "settings_run hw mem c old qs st w"
    and save: "settings_store_save (internal_flash_ops hw True) (Some q) st w = (ok, st', w')"
    and len: "length (app_data q) = SETTINGS_APP_DATA_SIZE"
    and tr: "spi_trace (iw_flash w') = spi_trace (iw_flash w) @ before @ lost"
    and t: "spare_image (flash_contents hw mem (reboot (spi_trace (iw_flash w) @ before))) st = Some t"
    and genuine: "settings_slot_valid t \<Longrightarrow>
      Some t = old \<or> t \<in> (\<lambda>x. record_bytes (save_record (ss_sequence st) x)) ` insert q qs"
    and later: "settings_later hw (reboot (spi_trace (iw_flash w) @ before)) w1"
    and boot: "settings_store_init (internal_flash_ops hw True) True st0 w1 = (Some ld, st'', w'')" and ok: "ss_ok st''"
  shows "load_result ld = c \<or>
    (\<exists>x \<in> insert q qs. t = record_bytes (save_record (ss_sequence st) x) \<and> load_result ld = Some x)"
proof -
  note inv = settings_run_inv [OF assms(1)]
  let ?t = "save_target (ss_slot st)"
  let ?c = "flash_contents hw mem (reboot (spi_trace (iw_flash w) @ before))"
  have ts: "?t \<in> {0, 1}" using inv spare_slot by blast
  let ?q = "{flash_slot_partition k |k. k \<in> {0, 1} \<and> k \<noteq> ?t}"
  have ev: "\<forall>e \<in> set before. spares ?q e"
  proof
    fix e assume "e \<in> set before"
    then have e: "within (part_base (flash_slot_partition ?t) + 0) (part_size (flash_slot_partition ?t)) e"
      using save_emits [OF save] inv tr by (auto simp: emits_def boot_ready_def)
    show "spares ?q e" using store.slot_partition_inj [of 0 1] ts by (intro spares_within [OF e]) auto
  qed
  have img: "slot_image ?c k = Some b"
    if "k \<in> {0, 1}" "k \<noteq> ?t" "slot_image (flash_contents hw mem w) k = Some b" for k b
    using that by (intro image_reboot [OF that(3) ev]) blast
  have a: "anchored ?c st" "kept ?c st = c" using anchored_other [OF _ img] inv by blast+
  have l: "load_result ld = (if outranks st t then Some (settings_slot_payload t) else c)"
    using later_boot [OF later reboot_ready(1) a(1) t boot ok] a(2) by simp
  show ?thesis
  proof (cases "outranks st t")
    case True
    then have "settings_slot_valid t" "Some t \<noteq> old" using inv by (auto simp: outranks_def)
    with genuine obtain x where x: "x \<in> insert q qs" "t = record_bytes (save_record (ss_sequence st) x)" by blast
    then have "length (app_data x) = SETTINGS_APP_DATA_SIZE" using inv len by auto
    then show ?thesis using l True x stored_record(3) by auto
  next
    case False
    then show ?thesis using l by simp
  qed
qed

end

text \<open>The store on the reference chip.\<close>

lemma slot_partition_cases: "flash_slot_partition k = 1 \<or> flash_slot_partition k = 2"
  using slot_part(3) [of k] by simp

lemma ref_save:
  assumes u: "ref_usable w" and ok: "ss_ok st" and len: "length (app_data p) = SETTINGS_APP_DATA_SIZE"
    and rd: "boot_ready ref_chip (iw_flash w)"
  shows "\<exists>w'. settings_store_save (internal_flash_ops ref_chip True) (Some p) st w =
    (True, st\<lparr>ss_sequence := ss_sequence st + 1, ss_slot := save_target (ss_slot st)\<rparr>, w') \<and> ref_usable w'"
proof -
  let ?p = "flash_slot_partition (save_target (ss_slot st))"
  let ?b = "record_bytes (save_record (ss_sequence st) p)"
  have b: "?b \<noteq> []" "length ?b \<le> 256" using slot_current_record_bytes(2) [of "save_record (ss_sequence st) p"] len
    by (auto simp: slot_size_def)
  note pc = slot_partition_cases [of "save_target (ss_slot st)"]
  obtain w1 where w1: "internal_flash_erase ref_chip True ?p 0 0x1000 w = (INTERNAL_FLASH_OK, w1)" "ref_usable w1"
    using ref_erase [OF u pc] by auto
  obtain w2 where w2: "internal_flash_program ref_chip True ?p 0 (Ptr ?b) w1 = (INTERNAL_FLASH_OK, w2)" "ref_usable w2"
    using ref_program [OF w1(2) pc b] by auto
  obtain v w3 where w3: "internal_flash_read ref_chip True ?p 0 (Ptr (replicate slot_size 0)) w2 = (INTERNAL_FLASH_OK, v, w3)" "ref_usable w3"
    using ref_read [OF w2(2) pc, of "replicate slot_size 0"] by (auto simp: slot_size_def)
  show ?thesis using ref.store.save_good [OF ok len rd, of w1 w2 v w3] w1 w2 w3
    by (auto simp: internal_flash_ops_def SETTINGS_FLASH_SLOT_SIZE_def)
qed

lemma ref_boot: "\<exists>ld st w. settings_store_init (internal_flash_ops ref_chip True) True st0 (reboot tr) = (Some ld, st, w) \<and>
  ss_ok st \<and> ref_usable w"
proof -
  obtain w1 where w1: "internal_flash_init ref_chip True 10000000 (reboot tr) = (INTERNAL_FLASH_OK, w1)" "ref_usable w1"
    using ref_init_usable [of 10000000 "reboot tr"] by auto
  let ?w1 = "internal_flash_refresh_info w1"
  have u1: "ref_usable ?w1" using w1(2) by (simp add: ref_usable_def)
  obtain b0 w2 where w2: "internal_flash_read ref_chip True 1 0 (Ptr (replicate slot_size 0)) ?w1 = (INTERNAL_FLASH_OK, b0, w2)" "ref_usable w2"
    using ref_read [OF u1, of 1 "replicate slot_size 0"] by (auto simp: slot_size_def)
  obtain b1 w3 where w3: "internal_flash_read ref_chip True 2 0 (Ptr (replicate slot_size 0)) w2 = (INTERNAL_FLASH_OK, b1, w3)" "ref_usable w3"
    using ref_read [OF w2(2), of 2 "replicate slot_size 0"] by (auto simp: slot_size_def)
  show ?thesis using w1 w2 w3
    by (auto simp: settings_store_init_def internal_flash_ops_def internal_flash_get_info_def Let_def
        INTERNAL_FLASH_PARTITION_SETTINGS_0_def INTERNAL_FLASH_PARTITION_SETTINGS_1_def)
qed

lemma length_payload_zero: "length (app_data payload_zero) = SETTINGS_APP_DATA_SIZE"
  by (simp add: payload_zero_def payload_of_bytes_def settings_payload_v1.defs settings_payload.defs slice_def SETTINGS_APP_DATA_SIZE_def)

lemma erased_slot_invalid: "\<not> settings_slot_valid (replicate slot_size 0xFF)"
  by (simp add: settings_slot_valid_def settings_record_v1_valid_def slot_current_def slot_v3_def slot_v2_def slot_legacy_def
      slot_as_def settings_config rd16_def rd32_def slot_size_def del: replicate.simps)

lemma zero_slot_invalid: "\<not> settings_slot_valid (replicate slot_size 0)"
  by (simp add: settings_slot_valid_def settings_record_v1_valid_def slot_current_def slot_v3_def slot_v2_def slot_legacy_def
      slot_as_def settings_config rd16_def rd32_def slot_size_def del: replicate.simps)

lemma ref_fresh_boot:
  "\<exists>ld st w. settings_store_init (internal_flash_ops ref_chip True) True st0 (reboot []) = (Some ld, st, w) \<and>
     ss_ok st \<and> ref_usable w \<and> ss_sequence st = 0 \<and> \<not> has_payload ld"
proof -
  obtain ld st w where b: "settings_store_init (internal_flash_ops ref_chip True) True st0 (reboot [])
      = (Some ld, st, w)" "ss_ok st" "ref_usable w" using ref_boot by blast
  note sp = ref.store.init_spec [OF b(1) reboot_ready(1)]
  have "unsettled ref_chip [Power_Cycle] = {}" using unsettled_power_cycle [of ref_chip "[]"] by simp
  then have e: "slot_image (flash_contents ref_chip ref_mem (reboot [])) k = Some (replicate slot_size 0xFF)" for k
    by (intro slot_imageI) (simp_all add: flash_contents_def reboot_def power_on_def ref_mem_def ref_state_def del: replicate.simps)
  have "slot_image (flash_contents ref_chip ref_mem w) k = Some (replicate slot_size 0xFF)" for k
    using slot_image_keeps [OF conjunct2 [OF sp(1)] e] .
  then have n: "kept (flash_contents ref_chip ref_mem w) st = None" "load_result ld = None" "anchored (flash_contents ref_chip ref_mem w) st"
    using sp(2) b(2) by (auto simp: loads_from_def settings_select_def erased_slot_invalid simp del: replicate.simps)
  then have "\<not> has_payload ld" "ss_slot st = 0xFF" by (auto simp: load_result_def kept_def anchored_def split: if_splits)
  then show ?thesis using b n(3) by (auto simp: anchored_def)
qed

lemma ref_fresh: "\<exists>old st w. settings_run ref_chip ref_mem None old {} st w \<and> ref_usable w \<and> ss_sequence st = 0"
proof -
  obtain ld st w where b: "settings_store_init (internal_flash_ops ref_chip True) True \<lparr>ss_ok = False, ss_slot = 0xFF, ss_sequence = 0\<rparr> (reboot [])
      = (Some ld, st, w)" "ss_ok st" "ref_usable w" "ss_sequence st = 0" "\<not> has_payload ld" using ref_fresh_boot by blast
  then show ?thesis using run_boot [OF b(1,2), of ref_mem] by (auto simp: load_result_def)
qed

lemma ref_saved_once: "\<exists>old st w. settings_run ref_chip ref_mem (Some payload_zero) old {} st w \<and> ref_usable w \<and> ss_sequence st = 1"
proof -
  obtain old st w where f: "settings_run ref_chip ref_mem None old {} st w" "ref_usable w" "ss_sequence st = 0" using ref_fresh by blast
  note inv = ref.settings_run_inv [OF f(1)]
  obtain w' where w': "settings_store_save (internal_flash_ops ref_chip True) (Some payload_zero) st w =
    (True, st\<lparr>ss_sequence := ss_sequence st + 1, ss_slot := save_target (ss_slot st)\<rparr>, w')" "ref_usable w'"
    using ref_save [OF f(2) _ length_payload_zero, of st] inv by blast
  let ?st = "st\<lparr>ss_sequence := ss_sequence st + 1, ss_slot := save_target (ss_slot st)\<rparr>"
  have "\<exists>old. settings_run ref_chip ref_mem (Some payload_zero) old {} ?st w'"
    using run_saved [OF f(1) w'(1) length_payload_zero] f(3) by auto
  moreover have "ss_sequence ?st = 1" using f(3) by simp
  ultimately show ?thesis using w'(2) by blast
qed

text \<open>A save on the reference chip that the power loss catches while the sector is being erased.\<close>

lemma ref_save_torn:
  assumes u: "ref_usable w" and ok: "ss_ok st" and slot: "save_target (ss_slot st) \<in> {0, 1}"
    and save: "settings_store_save (internal_flash_ops ref_chip True) (Some p) st w = (True, st', w')"
    and wf: "boot_wf (iw_flash w)"
  shows "\<exists>before lost. spi_trace (iw_flash w') = spi_trace (iw_flash w) @ before @ lost \<and>
    spare_image (flash_contents ref_chip ref_mem (reboot (spi_trace (iw_flash w) @ before))) st = Some (replicate slot_size 0)"
proof -
  let ?p = "flash_slot_partition (save_target (ss_slot st))"
  let ?a = "pt_offset (g_partitions ! ?p)"
  let ?e = "Spi_Send (addr_cmd BOOT_FLASH_CMD_SECTOR_ERASE ?a) []"
  obtain w1 before where s1: "internal_flash_erase ref_chip True ?p 0 0x1000 w = (INTERNAL_FLASH_OK, w1)"
    and e: "spi_trace (iw_flash w1) = spi_trace (iw_flash w) @ before @ [?e] @ [Read_Clock, status_read, status_read]"
    "enabled ref_chip (spi_trace (iw_flash w) @ before)"
    using ref_erase_trace [OF u slot_partition_cases [of "save_target (ss_slot st)"]] by blast
  obtain r2 w2 where s2: "internal_flash_program ref_chip True ?p 0 (Ptr (record_bytes (save_record (ss_sequence st) p))) w1 = (r2, w2)"
    by (metis prod.collapse)
  obtain r3 v w3 where s3: "internal_flash_read ref_chip True ?p 0 (Ptr (replicate slot_size 0)) w2 = (r3, v, w3)" by (metis prod_cases3)
  have w': "w' = w1 \<or> w' = w2 \<or> w' = w3"
    using save ok s1 s2 s3 by (auto simp: settings_store_save_def internal_flash_ops_def SETTINGS_FLASH_SLOT_SIZE_def Let_def split: if_splits)
  have wf1: "boot_wf (iw_flash w1)" using internal_flash_erase_emits [OF s1 wf] by simp
  note e2 = internal_flash_program_emits [OF s2 wf1]
  have "\<exists>lost. spi_trace (iw_flash w') = spi_trace (iw_flash w1) @ lost"
    using w' e2 internal_flash_read_emits [OF s3] by (auto simp: emits_def)
  then obtain lost where tr: "spi_trace (iw_flash w') = spi_trace (iw_flash w) @ (before @ [?e]) @ [Read_Clock, status_read, status_read] @ lost"
    using e(1) by auto
  let ?w = "reboot (spi_trace (iw_flash w) @ before @ [?e])"
  have ad: "unat ?a = part_base ?p" "part_base ?p < 2 ^ 24"
    using slot_partition_cases [of "save_target (ss_slot st)"] by (auto simp: part_base_def g_partitions_def internal_flash_partition_def)
  have ca: "cmd_addr (addr_cmd BOOT_FLASH_CMD_SECTOR_ERASE ?a) = part_base ?p" using cmd_addr_addr_cmd [of ?a] ad by simp
  have "flash_contents ref_chip ref_mem ?w ?p i = Some 0" if "i < slot_size" for i
    using ref_torn_erase [OF e(2), of "part_base ?p + i" ?a] that unsettled_power_cycle [of ref_chip "spi_trace (iw_flash w) @ before @ [?e]"]
    by (simp add: flash_contents_def reboot_def power_on_def ca slot_size_def HK_FLASH_ERASE_SIZE_def)
  then have "slot_image (flash_contents ref_chip ref_mem ?w) (save_target (ss_slot st)) = Some (replicate slot_size 0)"
    by (intro slot_imageI) simp_all
  then show ?thesis using tr unfolding spare_image_def by blast
qed

section \<open>Properties\<close>

text \<open>C10. Once a save has reported success, every later initialisation of the store that can read the flash loads exactly the
  saved payload, until the next save: on any NOR flash, after any run of loads, saves, failed saves and other flash traffic,
  and after any later traffic of other code on the flash, earlier boots and losses of power at any point included. The condition is
  that the sequence number of the store was not 0xFFFFFFFF before the save, and that it has not wrapped since the boot.\<close>

theorem settings_save_durable:
  assumes "nor_chip hw mem" and "settings_run hw mem c old qs st w"
    and "settings_store_save (internal_flash_ops hw True) (Some p) st w = (True, st', w')"
    and "length (app_data p) = SETTINGS_APP_DATA_SIZE" and "ss_sequence st \<noteq> 0xFFFFFFFF"
    and "settings_later hw w' w1"
    and "settings_store_init (internal_flash_ops hw True) True st0 w1 = (ld, st'', w'')" and "ss_ok st''"
  shows "ld \<noteq> None \<and> load_result (the ld) = Some p"
  by (rule nor_chip.saved_boot [OF assms])

theorem settings_save_durable_witness:
  "\<exists>old st w st' w' ld st'' w''. settings_run ref_chip ref_mem (Some payload_zero) old {} st w \<and>
     settings_store_save (internal_flash_ops ref_chip True) (Some (payload_zero\<lparr>led_enabled := 1\<rparr>)) st w = (True, st', w') \<and>
     settings_store_init (internal_flash_ops ref_chip True) True st' (reboot (spi_trace (iw_flash w'))) = (Some ld, st'', w'') \<and>
     load_result ld = Some (payload_zero\<lparr>led_enabled := 1\<rparr>)"
proof -
  let ?p = "payload_zero\<lparr>led_enabled := 1\<rparr>"
  have len: "length (app_data ?p) = SETTINGS_APP_DATA_SIZE" using length_payload_zero by simp
  obtain old st w where f: "settings_run ref_chip ref_mem (Some payload_zero) old {} st w" "ref_usable w" "ss_sequence st = 1"
    using ref_saved_once by blast
  then have q: "ss_sequence st \<noteq> 0xFFFFFFFF" by simp
  note inv = ref.settings_run_inv [OF f(1)]
  obtain st' w' where s: "settings_store_save (internal_flash_ops ref_chip True) (Some ?p) st w = (True, st', w')"
    using ref_save [OF f(2) _ len, of st] inv by blast
  obtain ld st'' w'' where b: "settings_store_init (internal_flash_ops ref_chip True) True st' (reboot (spi_trace (iw_flash w'))) = (Some ld, st'', w'')"
    "ss_ok st''" using ref_boot by blast
  from settings_save_durable [OF ref.nor_chip_axioms f(1) s len q later_power [OF later_refl] b]
  have "load_result ld = Some ?p" by simp
  then show ?thesis using f(1) s b(1) by blast
qed

text \<open>C1. A save that power loss cuts short at any point, in the middle of the erase or of the program command too, loses nothing:
  every later initialisation of the store that can read the flash, until the next save and whatever other code and further losses of
  power come between, loads the payload kept before, or the payload being saved when its record is complete in the slot (or one whose
  save had failed since the last success, likewise). The torn slot may hold anything. What remains to chance is assumed away: a damaged image, which
  is neither what the slot held when the store was last loaded or saved nor the complete record of one of these saves, does not pass the
  validity check with its 32 bit CRC. The sequence number has not wrapped since the boot.\<close>

theorem settings_power_loss:
  assumes "nor_chip hw mem" and "settings_run hw mem c old qs st w"
    and "settings_store_save (internal_flash_ops hw True) (Some q) st w = (ok, st', w')"
    and "length (app_data q) = SETTINGS_APP_DATA_SIZE"
    and "spi_trace (iw_flash w') = spi_trace (iw_flash w) @ before @ lost"
    and "spare_image (flash_contents hw mem (reboot (spi_trace (iw_flash w) @ before))) st = Some t"
    and "settings_slot_valid t \<Longrightarrow> Some t = old \<or> t \<in> (\<lambda>x. record_bytes (save_record (ss_sequence st) x)) ` insert q qs"
    and "settings_later hw (reboot (spi_trace (iw_flash w) @ before)) w1"
    and "settings_store_init (internal_flash_ops hw True) True st0 w1 = (Some ld, st'', w'')" and "ss_ok st''"
  shows "load_result ld = c \<or>
    (\<exists>x \<in> insert q qs. t = record_bytes (save_record (ss_sequence st) x) \<and> load_result ld = Some x)"
  by (rule nor_chip.torn_boot [OF assms])

theorem settings_power_loss_witness:
  "\<exists>old st w st' w' before lost ld st'' w''. settings_run ref_chip ref_mem (Some payload_zero) old {} st w \<and>
     settings_store_save (internal_flash_ops ref_chip True) (Some (payload_zero\<lparr>led_enabled := 1\<rparr>)) st w = (True, st', w') \<and>
     spi_trace (iw_flash w') = spi_trace (iw_flash w) @ before @ lost \<and>
     spare_image (flash_contents ref_chip ref_mem (reboot (spi_trace (iw_flash w) @ before))) st = Some (replicate slot_size 0) \<and>
     settings_store_init (internal_flash_ops ref_chip True) True st' (reboot (spi_trace (iw_flash w) @ before)) = (Some ld, st'', w'') \<and>
     load_result ld = Some payload_zero"
proof -
  let ?p = "payload_zero\<lparr>led_enabled := 1\<rparr>"
  have len: "length (app_data ?p) = SETTINGS_APP_DATA_SIZE" using length_payload_zero by simp
  obtain old st w where f: "settings_run ref_chip ref_mem (Some payload_zero) old {} st w" "ref_usable w"
    using ref_saved_once by blast
  note inv = ref.settings_run_inv [OF f(1)]
  have wf: "boot_wf (iw_flash w)" and sl: "save_target (ss_slot st) \<in> {0, 1}" using inv spare_slot by (auto simp: boot_ready_def)
  obtain st' w' where s: "settings_store_save (internal_flash_ops ref_chip True) (Some ?p) st w = (True, st', w')"
    using ref_save [OF f(2) _ len, of st] inv by blast
  obtain before lost where tr: "spi_trace (iw_flash w') = spi_trace (iw_flash w) @ before @ lost"
    "spare_image (flash_contents ref_chip ref_mem (reboot (spi_trace (iw_flash w) @ before))) st = Some (replicate slot_size 0)"
    using ref_save_torn [OF f(2) _ sl s wf] inv by blast
  obtain ld st'' w'' where b: "settings_store_init (internal_flash_ops ref_chip True) True st' (reboot (spi_trace (iw_flash w) @ before)) = (Some ld, st'', w'')"
    "ss_ok st''" using ref_boot by blast
  have n: "replicate slot_size 0 \<noteq> record_bytes (save_record (ss_sequence st) x)" if "length (app_data x) = SETTINGS_APP_DATA_SIZE" for x
    using stored_record(1) [OF that] zero_slot_invalid by metis
  from settings_power_loss [OF ref.nor_chip_axioms f(1) s len tr _ later_refl b] zero_slot_invalid n [OF len]
  have "load_result ld = Some payload_zero" by auto
  then show ?thesis using f(1) s tr b(1) by blast
qed

text \<open>C23. A slot written by any of the four firmware generations is read with its fields in place: the sixteen
  leading bytes, the application data of its version followed by zeros, and the autostart choice, which a third
  version record keeps only when it is one of the nine that version knew.\<close>

theorem settings_slot_payload_migrates:
  assumes "length b = slot_size"
  shows "payload_bytes (settings_slot_payload b) =
    (if rd16 b 4 = SETTINGS_STORAGE_VERSION then slice 12 105 b
     else if rd16 b 4 = SETTINGS_STORAGE_V3_VERSION then
       slice 12 16 b @ slice 28 80 b @ replicate 8 0 @ [if b ! 108 < SETTINGS_AUTOSTART_V3_COUNT then b ! 108 else 0]
     else if rd16 b 4 = SETTINGS_STORAGE_V2_VERSION then slice 12 16 b @ slice 28 80 b @ replicate 9 0
     else slice 12 16 b @ replicate 89 0)"
 proof -
  have n: "slice 12 97 b ! 96 = b ! 108" using assms by (simp add: slice_def slot_size_def)
  have z: "mem_write 0 (slice 28 80 b) (replicate 88 0) = slice 28 80 b @ replicate 8 0"
    using assms by (simp add: mem_write_def slot_size_def drop_replicate del: replicate.simps)
  have rs: "replicate n x @ [x] = replicate (Suc n) x" for n and x :: u8 by (simp add: replicate_append_same)
  have 9: "replicate 8 x @ [x] = replicate 9 x" "replicate 88 x @ [x] = replicate 89 x" for x :: u8
    using rs [of 8 x] rs [of 88 x] by (simp_all del: replicate.simps)
  have 105: "payload_bytes (payload_of_bytes (slice 12 105 b)) = slice 12 105 b"
    using assms by (intro payload_bytes_of_bytes) (simp add: slot_size_def)
  show ?thesis
    using assms z n 105
    by (simp add: settings_slot_payload_def slot_current_def slot_v3_def slot_v2_def slot_legacy_def slot_as_def Let_def
        payload_bytes_def v1_bytes_slice slot_size_def slice_slice 9 del: replicate.simps)
qed

theorem settings_slot_payload_migrates_witness:
  "payload_bytes (settings_slot_payload (replicate 4 0 @ [3, 0] @ replicate 118 7)) = replicate 96 7 @ replicate 8 0 @ [7]"
proof -
  let ?b = "replicate 4 0 @ [3, 0] @ replicate 118 7 :: u8 list"
  have v: "rd16 ?b 4 = 3" by (simp add: rd16_def nth_append del: replicate.simps)
  have s: "slice 12 16 ?b = replicate 16 7" "slice 28 80 ?b = replicate 80 7" "?b ! 108 = 7"
    by (simp_all add: slice_def nth_append nth_Cons' drop_Cons' del: replicate.simps)
  have "replicate 16 7 @ replicate 80 7 @ zs = replicate 96 7 @ zs" for zs :: "u8 list"
    by (simp add: replicate_add [symmetric] del: replicate.simps flip: append_assoc)
  then show ?thesis using settings_slot_payload_migrates [of ?b, unfolded v s]
    by (simp add: settings_config slot_size_def SETTINGS_AUTOSTART_V3_COUNT_def del: replicate.simps)
qed

end
