(* ===== verification/Dristy_Config.thy ===== *)
theory Dristy_Config
  imports Settings_Store
begin

text \<open>
  \<open>firmware/src/dristy/dristy_config.c\<close>: the vision configuration, kept as one packed structure with a
  CRC in a flash sector of its own. The theory shows that a saved configuration comes back, and what
  the sector it is saved to holds according to the partition table.
\<close>

section \<open>The structure and its bytes\<close>

definition DRISTY_CONFIG_MAGIC :: u32 where "DRISTY_CONFIG_MAGIC = 0x44525354"
definition DRISTY_CONFIG_VERSION :: u16 where "DRISTY_CONFIG_VERSION = 1"
definition DRISTY_CONFIG_FLASH_ADDR :: u32 where "DRISTY_CONFIG_FLASH_ADDR = 0x0F0000"

record size_ref =
  class_id :: u8
  width_mm :: u16
  height_mm :: u16

record dristy_config_data =
  dc_magic :: u32
  dc_version :: u16
  dc_size :: u16
  dc_mode :: u8
  dc_confidence_pct :: u8
  dc_nms_pct :: u8
  dc_cam_preset :: u8
  dc_brightness :: u8
  dc_contrast :: u8
  dc_saturation :: u8
  dc_sharpness :: u8
  dc_hmirror :: u8
  dc_vflip :: u8
  dc_target_track_id :: u16
  dc_target_class :: u8
  dc_aruco_dict :: u8
  dc_aruco_size_mm_x10 :: u16
  dc_motion_diff_thresh :: u8
  dc_motion_area_thresh_x10 :: u16
  dc_uart_baud :: u32
  dc_led_mode :: u8
  dc_led_brightness :: u8
  dc_focal_length_px_x10 :: u16
  dc_num_size_refs :: u8
  dc_size_refs :: "size_ref list"
  dc_reserved :: "u8 list"
  dc_crc32 :: u32

definition config_size :: nat where "config_size = 152"

definition size_ref_bytes :: "size_ref \<Rightarrow> u8 list" where
  "size_ref_bytes r = [class_id r] @ le16 (width_mm r) @ le16 (height_mm r)"

definition config_head :: "dristy_config_data \<Rightarrow> u8 list" where
  "config_head c = le32 (dc_magic c) @ le16 (dc_version c) @ le16 (dc_size c) @
     [dc_mode c, dc_confidence_pct c, dc_nms_pct c, dc_cam_preset c, dc_brightness c, dc_contrast c, dc_saturation c,
      dc_sharpness c, dc_hmirror c, dc_vflip c] @ le16 (dc_target_track_id c) @ [dc_target_class c, dc_aruco_dict c] @
     le16 (dc_aruco_size_mm_x10 c) @ [dc_motion_diff_thresh c] @ le16 (dc_motion_area_thresh_x10 c) @
     le32 (dc_uart_baud c) @ [dc_led_mode c, dc_led_brightness c] @ le16 (dc_focal_length_px_x10 c) @ [dc_num_size_refs c]"

text \<open>Everything but the CRC, and the whole structure.\<close>

definition config_body :: "dristy_config_data \<Rightarrow> u8 list" where
  "config_body c = config_head c @ concat (map size_ref_bytes (dc_size_refs c)) @ dc_reserved c"

definition config_bytes :: "dristy_config_data \<Rightarrow> u8 list" where
  "config_bytes c = config_body c @ le32 (dc_crc32 c)"

definition config_of_bytes :: "u8 list \<Rightarrow> dristy_config_data" where
  "config_of_bytes b =
     \<lparr>dc_magic = rd32 b 0, dc_version = rd16 b 4, dc_size = rd16 b 6, dc_mode = b ! 8, dc_confidence_pct = b ! 9,
      dc_nms_pct = b ! 10, dc_cam_preset = b ! 11, dc_brightness = b ! 12, dc_contrast = b ! 13, dc_saturation = b ! 14,
      dc_sharpness = b ! 15, dc_hmirror = b ! 16, dc_vflip = b ! 17, dc_target_track_id = rd16 b 18, dc_target_class = b ! 20,
      dc_aruco_dict = b ! 21, dc_aruco_size_mm_x10 = rd16 b 22, dc_motion_diff_thresh = b ! 24,
      dc_motion_area_thresh_x10 = rd16 b 25, dc_uart_baud = rd32 b 27, dc_led_mode = b ! 31, dc_led_brightness = b ! 32,
      dc_focal_length_px_x10 = rd16 b 33, dc_num_size_refs = b ! 35,
      dc_size_refs = map (\<lambda>i. \<lparr>class_id = b ! (36 + 5 * i), width_mm = rd16 b (37 + 5 * i), height_mm = rd16 b (39 + 5 * i)\<rparr>) [0..<16],
      dc_reserved = slice 116 32 b, dc_crc32 = rd32 b 148\<rparr>"

definition config_shape :: "dristy_config_data \<Rightarrow> bool" where
  "config_shape c = (length (dc_size_refs c) = 16 \<and> length (dc_reserved c) = 32)"

section \<open>The code\<close>

definition crc32_calc_bit :: "u32 \<Rightarrow> u32" where
  "crc32_calc_bit crc = (if crc AND 1 \<noteq> 0 then drop_bit 1 crc XOR 0xEDB88320 else drop_bit 1 crc)"

definition crc32_calc :: "u8 list \<Rightarrow> u32" where
  "crc32_calc data = NOT (foldl (\<lambda>crc b. (crc32_calc_bit ^^ 8) (crc XOR ucast b)) 0xFFFFFFFF data)"

definition set_defaults :: dristy_config_data where
  "set_defaults =
     \<lparr>dc_magic = DRISTY_CONFIG_MAGIC, dc_version = DRISTY_CONFIG_VERSION, dc_size = of_nat config_size,
      dc_mode = 0x20, dc_confidence_pct = 30, dc_nms_pct = 30, dc_cam_preset = 0, dc_brightness = 0, dc_contrast = 0,
      dc_saturation = 0, dc_sharpness = 0, dc_hmirror = 0, dc_vflip = 0, dc_target_track_id = 0, dc_target_class = 0xFF,
      dc_aruco_dict = 0, dc_aruco_size_mm_x10 = 1000, dc_motion_diff_thresh = 25, dc_motion_area_thresh_x10 = 20,
      dc_uart_baud = 115200, dc_led_mode = 1, dc_led_brightness = 50, dc_focal_length_px_x10 = 2300, dc_num_size_refs = 0,
      dc_size_refs = replicate 16 \<lparr>class_id = 0, width_mm = 0, height_mm = 0\<rparr>, dc_reserved = replicate 32 0, dc_crc32 = 0\<rparr>"

text \<open>The result of the flash read is not looked at: \<open>buf\<close> is what the stack buffer holds before.\<close>

definition dristy_config_init ::
  "spi_hw \<Rightarrow> bool \<Rightarrow> u8 list \<Rightarrow> flash_world \<Rightarrow> dristy_config_data \<times> flash_world" where
  "dristy_config_init hw core0 buf w =
     (let (ignored, buf, w) = boot_flash_read hw core0 DRISTY_CONFIG_FLASH_ADDR (Ptr buf) w;
          loaded = config_of_bytes buf
      in if dc_magic loaded = DRISTY_CONFIG_MAGIC \<and> dc_version loaded = DRISTY_CONFIG_VERSION \<and>
            dc_size loaded = of_nat config_size
         then
           let expected_crc = crc32_calc (take (config_size - 4) buf)
           in if dc_crc32 loaded = expected_crc then (loaded, w) else (set_defaults, w)
         else (set_defaults, w))"

definition dristy_config_get :: "dristy_config_data \<Rightarrow> dristy_config_data" where
  "dristy_config_get cfg = cfg"

definition dristy_config_save ::
  "spi_hw \<Rightarrow> bool \<Rightarrow> dristy_config_data \<Rightarrow> flash_world \<Rightarrow> bool \<times> dristy_config_data \<times> flash_world" where
  "dristy_config_save hw core0 cfg w =
     (let cfg = cfg\<lparr>dc_crc32 := crc32_calc (config_body cfg)\<rparr>;
          (r, w) = boot_flash_sector_erase hw core0 DRISTY_CONFIG_FLASH_ADDR w
      in if r \<noteq> BOOT_FLASH_OK then (False, cfg, w)
         else
           let (r, w) = boot_flash_program hw core0 DRISTY_CONFIG_FLASH_ADDR (Ptr (config_bytes cfg)) w
           in if r \<noteq> BOOT_FLASH_OK then (False, cfg, w) else (True, cfg, w))"

definition dristy_config_reset :: "dristy_config_data \<Rightarrow> dristy_config_data" where
  "dristy_config_reset cfg = set_defaults"

definition dristy_config_set_mode :: "u32 \<Rightarrow> dristy_config_data \<Rightarrow> dristy_config_data" where
  "dristy_config_set_mode mode cfg = cfg\<lparr>dc_mode := ucast mode\<rparr>"

definition dristy_config_set_confidence :: "u8 \<Rightarrow> dristy_config_data \<Rightarrow> dristy_config_data" where
  "dristy_config_set_confidence pct cfg = cfg\<lparr>dc_confidence_pct := (if pct > 100 then 100 else pct)\<rparr>"

definition dristy_config_set_nms :: "u8 \<Rightarrow> dristy_config_data \<Rightarrow> dristy_config_data" where
  "dristy_config_set_nms pct cfg = cfg\<lparr>dc_nms_pct := (if pct > 100 then 100 else pct)\<rparr>"

definition dristy_config_set_uart_baud :: "u32 \<Rightarrow> dristy_config_data \<Rightarrow> dristy_config_data" where
  "dristy_config_set_uart_baud baud cfg = cfg\<lparr>dc_uart_baud := baud\<rparr>"

definition dristy_config_set_led :: "u8 \<Rightarrow> u8 \<Rightarrow> dristy_config_data \<Rightarrow> dristy_config_data" where
  "dristy_config_set_led mode brightness cfg =
     cfg\<lparr>dc_led_mode := mode, dc_led_brightness := (if brightness > 100 then 100 else brightness)\<rparr>"

text \<open>What \<open>dristy_config_apply\<close> calls in the pipeline and the camera control, in order.\<close>

datatype apply_call =
    Pipeline_set_mode u8
  | Pipeline_set_confidence u8
  | Pipeline_set_nms u8
  | Camera_set_preset u8
  | Camera_set_brightness u8
  | Camera_set_contrast u8
  | Camera_set_saturation u8
  | Camera_set_sharpness u8
  | Camera_set_mirror_flip u8 u8
  | Camera_apply
  | Pipeline_set_target_track u16
  | Pipeline_set_target_class u8

definition dristy_config_apply :: "dristy_config_data \<Rightarrow> apply_call list" where
  "dristy_config_apply cfg =
     [Pipeline_set_mode (dc_mode cfg), Pipeline_set_confidence (dc_confidence_pct cfg), Pipeline_set_nms (dc_nms_pct cfg),
      Camera_set_preset (dc_cam_preset cfg), Camera_set_brightness (dc_brightness cfg), Camera_set_contrast (dc_contrast cfg),
      Camera_set_saturation (dc_saturation cfg), Camera_set_sharpness (dc_sharpness cfg),
      Camera_set_mirror_flip (dc_hmirror cfg) (dc_vflip cfg), Camera_apply,
      Pipeline_set_target_track (dc_target_track_id cfg), Pipeline_set_target_class (dc_target_class cfg)]"

section \<open>Layout\<close>

lemma crc32_calc_eq: "crc32_calc data = crc32_update 0 data"
proof -
  have "crc32_calc_bit = crc32_bit" by (rule ext) (simp add: crc32_calc_bit_def crc32_bit_cond and_one_eq bit_0 even_iff_mod_2_eq_zero)
  moreover have "(0xFFFFFFFF :: u32) = NOT 0" by simp
  ultimately show ?thesis unfolding crc32_calc_def crc32_update_def crc32_byte_def [abs_def] by metis
qed

lemma rd_le [simp]: "ucast (ucast v :: u8) OR push_bit 8 (ucast (ucast (drop_bit 8 v) :: u8)) = (v :: u16)"
  "ucast (ucast x :: u8) OR push_bit 8 (ucast (ucast (drop_bit 8 x) :: u8)) OR
    push_bit 16 (ucast (ucast (drop_bit 16 x) :: u8)) OR push_bit 24 (ucast (ucast (drop_bit 24 x) :: u8)) = (x :: u32)"
  using f16.get_bytes_append [of "[]" v "[]"] f32.get_bytes_append [of "[]" x "[]"]
  by (simp_all add: rd16_def rd32_def le16_def le32_def)

lemma nth_concat_blocks:
  "\<forall>x \<in> set xs. length (f x) = n \<Longrightarrow> i < length xs \<Longrightarrow> j < n \<Longrightarrow> concat (map f xs) ! (n * i + j) = f (xs ! i) ! j"
proof (induction xs arbitrary: i)
  case (Cons x xs)
  then show ?case by (cases i) (auto simp: nth_append algebra_simps)
qed simp

lemma length_concat_blocks: "\<forall>x \<in> set xs. length (f x) = n \<Longrightarrow> length (concat (map f xs)) = n * length xs"
  by (induction xs) auto

lemma length_size_ref_bytes [simp]: "length (size_ref_bytes r) = 5"
  by (simp add: size_ref_bytes_def)

lemma length_config_head [simp]: "length (config_head c) = 36"
  by (simp add: config_head_def)

lemma length_config_body [simp]: "config_shape c \<Longrightarrow> length (config_body c) = 148"
  by (simp add: config_body_def config_shape_def length_concat_blocks [where n = 5])

lemma config_byte:
  assumes "config_shape c"
  shows "i < 36 \<Longrightarrow> config_bytes c ! i = config_head c ! i"
    "k < 16 \<Longrightarrow> j < 5 \<Longrightarrow> config_bytes c ! (36 + (5 * k + j)) = size_ref_bytes (dc_size_refs c ! k) ! j"
    "slice 116 32 (config_bytes c) = dc_reserved c" "rd32 (config_bytes c) 148 = dc_crc32 c"
proof -
  have len: "length (dc_size_refs c) = 16" "length (dc_reserved c) = 32"
    and lc: "length (concat (map size_ref_bytes (dc_size_refs c))) = 80"
    using assms by (simp_all add: config_shape_def length_concat_blocks [where n = 5])
  show "config_bytes c ! i = config_head c ! i" if "i < 36"
    using that by (simp add: config_bytes_def config_body_def nth_append)
  show "config_bytes c ! (36 + (5 * k + j)) = size_ref_bytes (dc_size_refs c ! k) ! j" if "k < 16" "j < 5"
    using that len lc nth_concat_blocks [of "dc_size_refs c" size_ref_bytes 5 k j]
    by (simp add: config_bytes_def config_body_def nth_append)
  show "slice 116 32 (config_bytes c) = dc_reserved c" using len lc by (simp add: config_bytes_def config_body_def slice_def)
  show "rd32 (config_bytes c) 148 = dc_crc32 c"
    using f32.get_bytes_append [of "config_body c" "dc_crc32 c" "[]"] assms by (simp add: config_bytes_def)
qed

lemma config_of_config_bytes:
  assumes "config_shape c"
  shows "config_of_bytes (config_bytes c) = c"
proof -
  note cb = config_byte [OF assms]
  have refs: "map (\<lambda>i. \<lparr>class_id = config_bytes c ! (36 + 5 * i), width_mm = rd16 (config_bytes c) (37 + 5 * i),
      height_mm = rd16 (config_bytes c) (39 + 5 * i)\<rparr>) [0..<16] = dc_size_refs c"
  proof (rule nth_equalityI)
    show "length (map (\<lambda>i. \<lparr>class_id = config_bytes c ! (36 + 5 * i), width_mm = rd16 (config_bytes c) (37 + 5 * i),
      height_mm = rd16 (config_bytes c) (39 + 5 * i)\<rparr>) [0..<16]) = length (dc_size_refs c)" using assms by (simp add: config_shape_def)
    fix i assume "i < length (map (\<lambda>i. \<lparr>class_id = config_bytes c ! (36 + 5 * i), width_mm = rd16 (config_bytes c) (37 + 5 * i),
      height_mm = rd16 (config_bytes c) (39 + 5 * i)\<rparr>) [0..<16])"
    then have i: "i < 16" by simp
    show "map (\<lambda>i. \<lparr>class_id = config_bytes c ! (36 + 5 * i), width_mm = rd16 (config_bytes c) (37 + 5 * i),
      height_mm = rd16 (config_bytes c) (39 + 5 * i)\<rparr>) [0..<16] ! i = dc_size_refs c ! i"
      using i cb(2) [OF i, of 0] cb(2) [OF i, of 1] cb(2) [OF i, of 2] cb(2) [OF i, of 3] cb(2) [OF i, of 4]
      by (simp add: rd16_def size_ref_bytes_def le16_def add.assoc [symmetric])
  qed
  show ?thesis
    unfolding config_of_bytes_def refs
    by (simp add: cb(3,4) rd16_def rd32_def cb(1)) (simp add: config_head_def le16_def le32_def cb(4) [unfolded rd32_def, simplified])
qed

section \<open>Saving and loading\<close>

lemma save_steps:
  assumes "dristy_config_save hw core0 cfg w = (True, cfg', w')"
  shows "cfg' = cfg\<lparr>dc_crc32 := crc32_calc (config_body cfg)\<rparr> \<and>
    (\<exists>w1. boot_flash_sector_erase hw core0 DRISTY_CONFIG_FLASH_ADDR w = (BOOT_FLASH_OK, w1) \<and>
      boot_flash_program hw core0 DRISTY_CONFIG_FLASH_ADDR (Ptr (config_bytes cfg')) w1 = (BOOT_FLASH_OK, w'))"
  using assms by (auto simp: dristy_config_save_def Let_def split: if_splits prod.splits)

context nor_chip
begin

lemma config_saved:
  assumes save: "dristy_config_save hw True cfg w = (True, cfg', w')" and rd: "boot_ready hw w" and sh: "config_shape cfg"
    and i: "i < config_size"
  shows "mem (spi_trace w') (0x0F0000 + i) = config_bytes cfg' ! i" "settled hw (spi_trace w')"
proof -
  from save_steps [OF save] obtain w1 where c: "cfg' = cfg\<lparr>dc_crc32 := crc32_calc (config_body cfg)\<rparr>"
    and e: "boot_flash_sector_erase hw True DRISTY_CONFIG_FLASH_ADDR w = (BOOT_FLASH_OK, w1)"
    and p: "boot_flash_program hw True DRISTY_CONFIG_FLASH_ADDR (Ptr (config_bytes cfg')) w1 = (BOOT_FLASH_OK, w')" by blast
  have l: "length (config_bytes cfg') = config_size" using sh c
    by (simp add: config_bytes_def config_size_def config_shape_def)
  have a: "unat DRISTY_CONFIG_FLASH_ADDR = 0x0F0000" by (simp add: DRISTY_CONFIG_FLASH_ADDR_def)
  have rd1: "boot_ready hw w1" using boot_flash_sector_erase_ready [OF e rd] by simp
  have "mem (spi_trace w1) (0x0F0000 + i) = 0xFF"
    using erase_stored [OF e rd, of "0x0F0000 + i"] i by (simp add: a config_size_def HK_FLASH_ERASE_SIZE_def)
  then show "mem (spi_trace w') (0x0F0000 + i) = config_bytes cfg' ! i" using program_stored [OF p rd1, of i] i l by (simp add: a)
  show "settled hw (spi_trace w')" using boot_flash_program_ready [OF p rd1] by simp
qed

lemma config_loaded:
  assumes stored: "\<And>i. i < config_size \<Longrightarrow> mem (spi_trace w) (0x0F0000 + i) = config_bytes c ! i"
    and rd: "boot_ready hw w" and buf: "length buf = config_size"
    and ok: "boot_flash_validate_unlocked DRISTY_CONFIG_FLASH_ADDR (Ptr buf) config_size w = BOOT_FLASH_OK"
    and sh: "config_shape c" and hd: "dc_magic c = DRISTY_CONFIG_MAGIC" "dc_version c = DRISTY_CONFIG_VERSION"
      "dc_size c = of_nat config_size" "dc_crc32 c = crc32_calc (config_body c)"
  shows "fst (dristy_config_init hw True buf w) = c"
proof -
  have a: "unat DRISTY_CONFIG_FLASH_ADDR = 0x0F0000" by (simp add: DRISTY_CONFIG_FLASH_ADDR_def)
  have l: "length (config_bytes c) = config_size" using sh by (simp add: config_bytes_def config_size_def)
  obtain r b w1 where r: "boot_flash_read hw True DRISTY_CONFIG_FLASH_ADDR (Ptr buf) w = (r, b, w1)" by (metis prod_cases3)
  then have rok: "r = BOOT_FLASH_OK" using ok buf by (auto simp: boot_flash_read_def Let_def split: if_splits prod.splits)
  have "b = config_bytes c"
    using read_stored [OF r [unfolded rok] rd] stored buf l a by (intro nth_equalityI) simp_all
  moreover have "take (config_size - 4) (config_bytes c) = config_body c" using sh by (simp add: config_bytes_def config_size_def)
  ultimately show ?thesis using r hd by (simp add: dristy_config_init_def config_of_config_bytes [OF sh])
qed

end

lemma config_shape_defaults: "config_shape set_defaults"
  by (simp add: config_shape_def set_defaults_def)

lemma ref_config_save:
  "\<exists>w cfg' w'. boot_ready ref_chip w \<and> boot_ready ref_chip w' \<and> dristy_config_save ref_chip True set_defaults w = (True, cfg', w') \<and>
     boot_flash_validate_unlocked DRISTY_CONFIG_FLASH_ADDR (Ptr (replicate config_size (0 :: u8))) config_size w' = BOOT_FLASH_OK"
proof -
  let ?cfg = "set_defaults\<lparr>dc_crc32 := crc32_calc (config_body set_defaults)\<rparr>"
  let ?b = "config_bytes ?cfg"
  obtain w where i: "boot_flash_init ref_chip True 1 (iw_flash (reboot [])) = (BOOT_FLASH_OK, w)"
    and u: "bf_initialized (boot_info w)" "\<not> bf_faulted (boot_info w)" "bf_capacity (boot_info w) = 0x1000000"
    using ref_init [of 1 "iw_flash (reboot [])"] by auto
  have rd: "boot_ready ref_chip w" by (rule boot_flash_init_ready [OF i reboot_ready(1)])
  have a: "unat DRISTY_CONFIG_FLASH_ADDR = 0x0F0000" by (simp add: DRISTY_CONFIG_FLASH_ADDR_def)
  have sh: "config_shape ?cfg" using config_shape_defaults by (simp add: config_shape_def)
  have l: "length ?b = config_size" using sh by (simp add: config_bytes_def config_size_def)
  have v: "boot_flash_validate_unlocked DRISTY_CONFIG_FLASH_ADDR (Ptr xs) n w1 = BOOT_FLASH_OK"
    if "n \<le> 0x1000" "boot_info w1 = boot_info w" for xs :: "u8 list" and n w1
    using u that by (simp add: boot_flash_validate_unlocked_def DRISTY_CONFIG_FLASH_ADDR_def)
  obtain w1 where e: "boot_flash_sector_erase ref_chip True DRISTY_CONFIG_FLASH_ADDR w = (BOOT_FLASH_OK, w1)" "boot_info w1 = boot_info w"
    using ref_sector_erase [OF v] by (auto simp: a HK_FLASH_ERASE_SIZE_def)
  have ne: "?b \<noteq> []" "length ?b \<le> 0x1000" using l by (auto simp: config_size_def)
  obtain w2 where p: "boot_flash_program ref_chip True DRISTY_CONFIG_FLASH_ADDR (Ptr ?b) w1 = (BOOT_FLASH_OK, w2)" "boot_info w2 = boot_info w1"
    using ref_program_one_page [OF v [OF ne(2) e(2)] ne(1)] l by (auto simp: a HK_FLASH_PROGRAM_SIZE_def config_size_def)
  have "boot_ready ref_chip w2"
    using boot_flash_program_ready [OF p(1)] boot_flash_sector_erase_ready [OF e(1) rd] by simp
  moreover have "dristy_config_save ref_chip True set_defaults w = (True, ?cfg, w2)"
    using e(1) p(1) by (simp add: dristy_config_save_def Let_def)
  moreover have "boot_flash_validate_unlocked DRISTY_CONFIG_FLASH_ADDR (Ptr (replicate config_size (0 :: u8))) config_size w2 = BOOT_FLASH_OK"
    by (rule v) (simp_all add: config_size_def e(2) p(2))
  ultimately show ?thesis using rd by blast
qed

section \<open>Properties\<close>

text \<open>On any NOR flash a saved configuration comes back: when the save has reported success, a later
  initialisation that can read the flash, in the same or a later boot and after any traffic that leaves the
  sector alone, yields the saved configuration with its CRC.\<close>

theorem dristy_config_durable:
  assumes "nor_chip hw mem" and "boot_ready hw w" and "config_shape cfg"
    and "dc_magic cfg = DRISTY_CONFIG_MAGIC" and "dc_version cfg = DRISTY_CONFIG_VERSION" and "dc_size cfg = of_nat config_size"
    and "dristy_config_save hw True cfg w = (True, cfg', w')"
    and "spi_trace w2 = spi_trace w' @ evs" and "\<forall>e \<in> set evs. touched e \<inter> {0x0F0000 ..< 0x0F1000} = {}"
    and "boot_ready hw w2" and "length buf = config_size"
    and "boot_flash_validate_unlocked DRISTY_CONFIG_FLASH_ADDR (Ptr buf) config_size w2 = BOOT_FLASH_OK"
  shows "fst (dristy_config_init hw True buf w2) = cfg' \<and> cfg' = cfg\<lparr>dc_crc32 := crc32_calc (config_body cfg)\<rparr>"
proof -
  have c: "cfg' = cfg\<lparr>dc_crc32 := crc32_calc (config_body cfg)\<rparr>" using save_steps [OF assms(7)] by simp
  have body: "config_body cfg' = config_body cfg" by (simp add: c config_body_def config_head_def)
  have "mem (spi_trace w2) (0x0F0000 + i) = config_bytes cfg' ! i" if "i < config_size" for i
  proof -
    have "\<forall>e \<in> set evs. 0x0F0000 + i \<notin> touched e" using assms(9) that by (fastforce simp: config_size_def)
    then show ?thesis using nor_chip.mem_outside [OF assms(1), of evs "0x0F0000 + i" "spi_trace w'"]
        nor_chip.config_saved [OF assms(1,7,2,3) that] assms(8) by (simp add: settled_unsettled)
  qed
  from nor_chip.config_loaded [OF assms(1) this assms(10-12)] show ?thesis
    using assms(3-6) c body by (simp add: config_shape_def)
qed

theorem dristy_config_durable_witness:
  "\<exists>w cfg' w' . dristy_config_save ref_chip True set_defaults w = (True, cfg', w') \<and>
     fst (dristy_config_init ref_chip True (replicate config_size 0) w') = cfg' \<and>
     cfg' = set_defaults\<lparr>dc_crc32 := crc32_calc (config_body set_defaults)\<rparr>"
proof -
  obtain w cfg' w' where w: "boot_ready ref_chip w" "boot_ready ref_chip w'"
    "dristy_config_save ref_chip True set_defaults w = (True, cfg', w')"
    "boot_flash_validate_unlocked DRISTY_CONFIG_FLASH_ADDR (Ptr (replicate config_size (0 :: u8))) config_size w' = BOOT_FLASH_OK"
    using ref_config_save by blast
  have d: "dc_magic set_defaults = DRISTY_CONFIG_MAGIC" "dc_version set_defaults = DRISTY_CONFIG_VERSION"
    "dc_size set_defaults = of_nat config_size" by (simp_all add: set_defaults_def)
  have t: "spi_trace w' = spi_trace w' @ []" "\<forall>e \<in> set []. touched e \<inter> {0x0F0000 ..< 0x0F1000} = {}" by simp_all
  from dristy_config_durable [OF ref.nor_chip_axioms w(1) config_shape_defaults d w(3) t w(2) length_replicate w(4)] w(3)
  show ?thesis by blast
qed

text \<open>The sector the configuration is saved to belongs to the firmware partition, which the partition table
  declares not writable at run time: every save that reports success has erased four kilobytes in the middle of
  that partition.\<close>

theorem dristy_config_save_erases_firmware:
  assumes "dristy_config_save hw core0 cfg w = (True, cfg', w')" and "boot_wf w"
  shows "\<exists>evs e. spi_trace w' = spi_trace w @ evs \<and> e \<in> set evs \<and> touched e = {0x0F0000 ..< 0x0F1000} \<and>
    touched e \<subseteq> {part_base INTERNAL_FLASH_PARTITION_FIRMWARE ..<
      part_base INTERNAL_FLASH_PARTITION_FIRMWARE + part_size INTERNAL_FLASH_PARTITION_FIRMWARE} \<and>
    \<not> part_writable INTERNAL_FLASH_PARTITION_FIRMWARE"
proof -
  from save_steps [OF assms(1)] obtain w1
    where e: "boot_flash_sector_erase hw core0 DRISTY_CONFIG_FLASH_ADDR w = (BOOT_FLASH_OK, w1)"
    and p: "boot_flash_program hw core0 DRISTY_CONFIG_FLASH_ADDR (Ptr (config_bytes cfg')) w1 = (BOOT_FLASH_OK, w')" by blast
  let ?e = "Spi_Send (addr_cmd BOOT_FLASH_CMD_SECTOR_ERASE DRISTY_CONFIG_FLASH_ADDR) []"
  from sector_erase_OK [OF e] obtain evs where "spi_trace w1 = spi_trace w @ evs" "?e \<in> set evs" by auto
  moreover have "boot_wf w1" using boot_flash_sector_erase_emits [OF e assms(2)] only_fault_wf assms(2) by blast
  from boot_flash_program_emits [OF p this] obtain evs2 where "spi_trace w' = spi_trace w1 @ evs2" by (auto simp: emits_def)
  moreover have "touched ?e = {0x0F0000 ..< 0x0F1000}"
    by (subst touched_sector_erase) (simp_all add: DRISTY_CONFIG_FLASH_ADDR_def HK_FLASH_ERASE_SIZE_def)
  moreover have "part_base INTERNAL_FLASH_PARTITION_FIRMWARE = 0" "part_size INTERNAL_FLASH_PARTITION_FIRMWARE = 0x7FE000"
    "\<not> part_writable INTERNAL_FLASH_PARTITION_FIRMWARE"
    by (simp_all add: part_base_def part_size_def part_writable_def internal_flash_partition_def g_partitions_def
        INTERNAL_FLASH_PARTITION_FIRMWARE_def)
  ultimately show ?thesis by - (rule exI [of _ "evs @ evs2"], rule exI [of _ ?e], simp)
qed

theorem dristy_config_save_erases_firmware_witness:
  "\<exists>w cfg' w'. dristy_config_save ref_chip True set_defaults w = (True, cfg', w') \<and>
     (\<exists>evs e. spi_trace w' = spi_trace w @ evs \<and> e \<in> set evs \<and> touched e = {0x0F0000 ..< 0x0F1000} \<and>
       touched e \<subseteq> {part_base INTERNAL_FLASH_PARTITION_FIRMWARE ..<
         part_base INTERNAL_FLASH_PARTITION_FIRMWARE + part_size INTERNAL_FLASH_PARTITION_FIRMWARE} \<and>
       \<not> part_writable INTERNAL_FLASH_PARTITION_FIRMWARE)"
proof -
  obtain w cfg' w' where w: "boot_ready ref_chip w" "dristy_config_save ref_chip True set_defaults w = (True, cfg', w')"
    using ref_config_save by blast
  then have "boot_wf w" by (simp add: boot_ready_def)
  from dristy_config_save_erases_firmware [OF w(2) this] w(2) show ?thesis by blast
qed

end
