(* ===== verification/Core1_Executor.thy ===== *)
theory Core1_Executor
  imports Dristy_Prelude
begin

text \<open>
  \<open>firmware/src/services/core1_executor.c\<close>: jobs handed from core 0 to core 1 through a mailbox of volatile
  words. The two cores run at the same time, so the program is a step relation in which every access to
  the mailbox is one step of one core; the barriers of the code and the uncached alias make these
  accesses sequentially consistent. Core 0 runs one call at a time (the executor has a single client
  loop), core 1 runs the loop of the executor. Starting the core and the clock are the environment's.
  The lists \<open>g_submitted\<close> and \<open>g_executed\<close> are history variables the code does not have.
\<close>

section \<open>The mailbox\<close>

type_synonym ('j, 'c) job_entry = "'j \<times> 'c"

record ('j, 'c) core1_executor_control =
  started :: bool
  online :: bool
  start_failed :: bool
  request_ticket :: u32
  complete_ticket :: u32
  job_fn :: "'j option"
  job_context :: "'c option"

definition control_zero :: "('j, 'c) core1_executor_control" where
  "control_zero = \<lparr>started = False, online = False, start_failed = False, request_ticket = 0, complete_ticket = 0,
     job_fn = None, job_context = None\<rparr>"

section \<open>The functions that only read the mailbox\<close>

definition core1_executor_idle :: "('j, 'c) core1_executor_control \<Rightarrow> bool" where
  "core1_executor_idle c = (online c \<and> request_ticket c = complete_ticket c)"

text \<open>The ticket after \<open>t\<close>; zero is skipped because it means failure.\<close>

definition next_ticket :: "u32 \<Rightarrow> u32" where
  "next_ticket t = (let ticket = t + 1 in if ticket = 0 then 1 else ticket)"

definition core1_executor_complete :: "u32 \<Rightarrow> ('j, 'c) core1_executor_control \<Rightarrow> bool" where
  "core1_executor_complete ticket c =
     (if ticket = 0 then False else 0 \<le> sint (complete_ticket c - ticket))"

text \<open>
  The wait loop: \<open>views\<close> are the mailboxes and clock values its rounds see. The deadline is the first clock
  value plus the timeout. The list ends where the observation ends, \<open>None\<close> is a loop that is still running.
\<close>

fun wait_rounds :: "u32 \<Rightarrow> u64 \<Rightarrow> (('j, 'c) core1_executor_control \<times> u64) list \<Rightarrow> bool option" where
  "wait_rounds ticket deadline [] = None"
| "wait_rounds ticket deadline ((c, now) # views) =
     (if core1_executor_complete ticket c then Some True
      else if now \<ge> deadline then Some False
      else wait_rounds ticket deadline views)"

definition core1_executor_wait ::
  "u32 \<Rightarrow> u64 \<Rightarrow> u64 \<Rightarrow> (('j, 'c) core1_executor_control \<times> u64) list \<Rightarrow> bool option" where
  "core1_executor_wait ticket timeout_us now views =
     (if ticket = 0 then Some False else wait_rounds ticket (now + timeout_us) views)"

section \<open>The two cores\<close>

text \<open>
  Where core 0 is inside a call. The argument \<open>k\<close> of the \<open>Init\<close> positions is the job that is being submitted,
  or \<open>None\<close> for a plain call of \<open>core1_executor_init\<close>.
\<close>

datatype ('j, 'c) core0_pc =
    P0_Main
  | P0_Init "('j \<times> 'c) option"
  | P0_Failed "('j \<times> 'c) option"
  | P0_Started "('j \<times> 'c) option"
  | P0_Start "('j \<times> 'c) option"
  | P0_Wait "('j \<times> 'c) option"
  | P0_Timeout "('j \<times> 'c) option"
  | P0_Result "('j \<times> 'c) option"
  | P0_Idle_Online "'j \<times> 'c"
  | P0_Idle_Request "'j \<times> 'c"
  | P0_Idle_Complete "'j \<times> 'c" u32
  | P0_Ticket "'j \<times> 'c"
  | P0_Job "'j \<times> 'c" u32
  | P0_Context "'j \<times> 'c" u32
  | P0_Request "'j \<times> 'c" u32

text \<open>Where core 1 is: not started, at the entry of the loop function, or in a round of its loop.\<close>

datatype ('j, 'c) core1_pc =
    P1_Off
  | P1_Entry
  | P1_Read
  | P1_Compare u32
  | P1_Job u32
  | P1_Context u32 "'j option"
  | P1_Run u32 "'j option" "'c option"
  | P1_Complete u32

datatype call_result = Init_returned bool | Submit_returned u32

record ('j, 'c) exec_state =
  ctl :: "('j, 'c) core1_executor_control"
  pc0 :: "('j, 'c) core0_pc"
  pc1 :: "('j, 'c) core1_pc"
  returned :: "call_result option"
  g_submitted :: "('j \<times> 'c) list"
  g_executed :: "('j \<times> 'c) list"

definition exec_start :: "('j, 'c) exec_state" where
  "exec_start = \<lparr>ctl = control_zero, pc0 = P0_Main, pc1 = P1_Off, returned = None, g_submitted = [], g_executed = []\<rparr>"

text \<open>What a call of \<open>core1_executor_init\<close> that ends with \<open>ok\<close> leads to.\<close>

fun init_ends :: "('j \<times> 'c) option \<Rightarrow> bool \<Rightarrow> ('j, 'c) exec_state \<Rightarrow> ('j, 'c) exec_state" where
  "init_ends None ok s = s\<lparr>pc0 := P0_Main, returned := Some (Init_returned ok)\<rparr>"
| "init_ends (Some e) ok s =
     (if ok then s\<lparr>pc0 := P0_Idle_Online e\<rparr> else s\<lparr>pc0 := P0_Main, returned := Some (Submit_returned 0)\<rparr>)"

text \<open>Core 0. The mailbox initialisation of the first call has the effect of the zeroed storage of \<open>exec_start\<close>.\<close>

inductive core0_step :: "('j, 'c) exec_state \<Rightarrow> ('j, 'c) exec_state \<Rightarrow> bool" where
  call_init: "pc0 s = P0_Main \<Longrightarrow> core0_step s (s\<lparr>pc0 := P0_Init None\<rparr>)"
| call_submit: "pc0 s = P0_Main \<Longrightarrow> core0_step s (s\<lparr>pc0 := P0_Init (Some (j, c))\<rparr>)"
| call_submit_null: "pc0 s = P0_Main \<Longrightarrow> core0_step s (s\<lparr>returned := Some (Submit_returned 0)\<rparr>)"
| init_online: "pc0 s = P0_Init k \<Longrightarrow>
    core0_step s (if online (ctl s) then init_ends k True s else s\<lparr>pc0 := P0_Failed k\<rparr>)"
| init_failed: "pc0 s = P0_Failed k \<Longrightarrow>
    core0_step s (if start_failed (ctl s) then init_ends k False s else s\<lparr>pc0 := P0_Started k\<rparr>)"
| init_started: "pc0 s = P0_Started k \<Longrightarrow>
    core0_step s (if started (ctl s) then s\<lparr>pc0 := P0_Wait k\<rparr>
      else s\<lparr>ctl := (ctl s)\<lparr>started := True\<rparr>, pc0 := P0_Start k\<rparr>)"
| start_ok: "pc0 s = P0_Start k \<Longrightarrow> core0_step s (s\<lparr>pc0 := P0_Wait k, pc1 := P1_Entry\<rparr>)"
| start_error: "pc0 s = P0_Start k \<Longrightarrow> core0_step s (init_ends k False (s\<lparr>ctl := (ctl s)\<lparr>start_failed := True\<rparr>\<rparr>))"
| wait_online: "pc0 s = P0_Wait k \<Longrightarrow> online (ctl s) \<Longrightarrow> core0_step s (s\<lparr>pc0 := P0_Timeout k\<rparr>)"
| wait_sleep: "pc0 s = P0_Wait k \<Longrightarrow> \<not> online (ctl s) \<Longrightarrow> core0_step s s"
| wait_deadline: "pc0 s = P0_Wait k \<Longrightarrow> \<not> online (ctl s) \<Longrightarrow> core0_step s (s\<lparr>pc0 := P0_Timeout k\<rparr>)"
| init_timeout: "pc0 s = P0_Timeout k \<Longrightarrow>
    core0_step s (if online (ctl s) then s\<lparr>pc0 := P0_Result k\<rparr>
      else s\<lparr>ctl := (ctl s)\<lparr>start_failed := True\<rparr>, pc0 := P0_Result k\<rparr>)"
| init_result: "pc0 s = P0_Result k \<Longrightarrow> core0_step s (init_ends k (online (ctl s)) s)"
| idle_online: "pc0 s = P0_Idle_Online e \<Longrightarrow>
    core0_step s (if online (ctl s) then s\<lparr>pc0 := P0_Idle_Request e\<rparr>
      else s\<lparr>pc0 := P0_Main, returned := Some (Submit_returned 0)\<rparr>)"
| idle_request: "pc0 s = P0_Idle_Request e \<Longrightarrow> core0_step s (s\<lparr>pc0 := P0_Idle_Complete e (request_ticket (ctl s))\<rparr>)"
| idle_complete: "pc0 s = P0_Idle_Complete e r \<Longrightarrow>
    core0_step s (if r = complete_ticket (ctl s) then s\<lparr>pc0 := P0_Ticket e\<rparr>
      else s\<lparr>pc0 := P0_Main, returned := Some (Submit_returned 0)\<rparr>)"
| submit_ticket: "pc0 s = P0_Ticket e \<Longrightarrow> core0_step s (s\<lparr>pc0 := P0_Job e (next_ticket (request_ticket (ctl s)))\<rparr>)"
| submit_job: "pc0 s = P0_Job (j, c) t \<Longrightarrow>
    core0_step s (s\<lparr>ctl := (ctl s)\<lparr>job_fn := Some j\<rparr>, pc0 := P0_Context (j, c) t\<rparr>)"
| submit_context: "pc0 s = P0_Context (j, c) t \<Longrightarrow>
    core0_step s (s\<lparr>ctl := (ctl s)\<lparr>job_context := Some c\<rparr>, pc0 := P0_Request (j, c) t\<rparr>)"
| submit_request: "pc0 s = P0_Request e t \<Longrightarrow>
    core0_step s (s\<lparr>ctl := (ctl s)\<lparr>request_ticket := t\<rparr>, g_submitted := g_submitted s @ [e], pc0 := P0_Main,
      returned := Some (Submit_returned t)\<rparr>)"

text \<open>Core 1, the loop function. A job that is NULL is skipped.\<close>

inductive core1_step :: "('j, 'c) exec_state \<Rightarrow> ('j, 'c) exec_state \<Rightarrow> bool" where
  entry: "pc1 s = P1_Entry \<Longrightarrow> core1_step s (s\<lparr>ctl := (ctl s)\<lparr>online := True\<rparr>, pc1 := P1_Read\<rparr>)"
| read_request: "pc1 s = P1_Read \<Longrightarrow> core1_step s (s\<lparr>pc1 := P1_Compare (request_ticket (ctl s))\<rparr>)"
| compare: "pc1 s = P1_Compare t \<Longrightarrow>
    core1_step s (if t \<noteq> complete_ticket (ctl s) then s\<lparr>pc1 := P1_Job t\<rparr> else s\<lparr>pc1 := P1_Read\<rparr>)"
| read_job: "pc1 s = P1_Job t \<Longrightarrow> core1_step s (s\<lparr>pc1 := P1_Context t (job_fn (ctl s))\<rparr>)"
| read_context: "pc1 s = P1_Context t f \<Longrightarrow> core1_step s (s\<lparr>pc1 := P1_Run t f (job_context (ctl s))\<rparr>)"
| run_null: "pc1 s = P1_Run t None c \<Longrightarrow> core1_step s (s\<lparr>pc1 := P1_Complete t\<rparr>)"
| run_job: "pc1 s = P1_Run t (Some f) (Some c) \<Longrightarrow>
    core1_step s (s\<lparr>pc1 := P1_Complete t, g_executed := g_executed s @ [(f, c)]\<rparr>)"
| complete: "pc1 s = P1_Complete t \<Longrightarrow>
    core1_step s (s\<lparr>ctl := (ctl s)\<lparr>complete_ticket := t\<rparr>, pc1 := P1_Read\<rparr>)"

definition exec_step :: "('j, 'c) exec_state \<Rightarrow> ('j, 'c) exec_state \<Rightarrow> bool" where
  "exec_step s s' = (core0_step s s' \<or> core1_step s s')"

abbreviation reachable :: "('j, 'c) exec_state \<Rightarrow> bool" where
  "reachable s \<equiv> exec_step\<^sup>*\<^sup>* exec_start s"

section \<open>Tickets\<close>

text \<open>The ticket of the \<open>n\<close>th job, counted from one.\<close>

primrec ticket_of :: "nat \<Rightarrow> u32" where
  "ticket_of 0 = 0"
| "ticket_of (Suc n) = next_ticket (ticket_of n)"

lemma next_ticket_ne [simp]: "next_ticket t \<noteq> t"
  by (auto simp: next_ticket_def Let_def add_eq_0_iff dest: arg_cong [of _ _ unat])

lemma next_ticket_nz [simp]: "next_ticket t \<noteq> 0"
  by (simp add: next_ticket_def Let_def)

lemma ticket_of_nz: "n \<noteq> 0 \<Longrightarrow> ticket_of n \<noteq> 0"
  by (cases n) simp_all

text \<open>Tickets count in turns of \<open>2 ^ 32 - 1\<close>.\<close>

lemma unat_next_ticket: "unat (next_ticket t) = (if unat t = 2 ^ 32 - 1 then 1 else unat t + 1)"
proof (cases "t + 1 = 0")
  case True
  then have "t = 0xFFFFFFFF" by (simp add: add_eq_0_iff2)
  then have "unat t = 2 ^ 32 - 1" by simp
  then show ?thesis using True by (simp add: next_ticket_def Let_def)
next
  case False
  then have "unat (t + 1) = unat t + 1" by (metis Suc_eq_plus1 add.commute unatSuc)
  moreover have "unat (t + 1) < 2 ^ LENGTH(32)" by (rule unsigned_less)
  ultimately show ?thesis using False by (simp add: next_ticket_def Let_def)
qed

lemma unat_ticket_of: "unat (ticket_of (Suc n)) = n mod (2 ^ 32 - 1) + 1"
proof (induction n)
  case 0
  show ?case by (simp add: unat_next_ticket)
next
  case (Suc n)
  show ?case unfolding ticket_of.simps(2) [of "Suc n"] unat_next_ticket [of "ticket_of (Suc n)"] Suc
    by (simp add: mod_Suc)
qed

lemma word_diff_int: "x - y = word_of_int (int (unat x) - int (unat y))"
  by simp

lemma ticket_diff:
  assumes "n \<noteq> 0" and "d < 2 ^ 31 - 1"
  shows "ticket_of (n + d) - ticket_of n = word_of_int (int d) \<or> ticket_of (n + d) - ticket_of n = word_of_int (int d + 1)"
proof -
  obtain n' where n: "n = Suc n'" using assms(1) by (cases n) auto
  let ?M = "2 ^ 32 - 1 :: nat"
  have "(n' + d) mod ?M = n' mod ?M + d \<or> (n' + d) mod ?M + ?M = n' mod ?M + d"
  proof (cases "n' mod ?M + d < ?M")
    case True
    then show ?thesis by (metis mod_add_left_eq mod_less)
  next
    case False
    have "n' mod ?M < ?M" by simp
    then have "(n' mod ?M + d) mod ?M = n' mod ?M + d - ?M" using False assms(2) by (subst mod_if, subst mod_less) simp_all
    then show ?thesis using False by (simp add: mod_add_left_eq)
  qed
  then have "int (unat (ticket_of (n + d))) - int (unat (ticket_of n)) = int d \<or>
      int (unat (ticket_of (n + d))) - int (unat (ticket_of n)) = int d - (2 ^ 32 - 1)"
    using unat_ticket_of [of n'] unat_ticket_of [of "n' + d"] by (auto simp: n)
  moreover have "word_of_int (int d - (2 ^ 32 - 1)) = (word_of_int (int d + 1) :: u32)"
    by simp
  ultimately show ?thesis using word_diff_int [of "ticket_of (n + d)" "ticket_of n"] by metis
qed

lemma sint_small: "0 \<le> k \<Longrightarrow> k < 2 ^ 31 \<Longrightarrow> sint (word_of_int k :: u32) = k"
  by (simp add: sint_sbintrunc' signed_take_bit_int_eq_self)

text \<open>A ticket is complete for the code exactly when as many jobs have been completed.\<close>

lemma complete_iff:
  assumes "n \<noteq> 0" and "n \<le> m + 1" and "m - n < 2 ^ 31 - 1" and "complete_ticket c = ticket_of m"
  shows "core1_executor_complete (ticket_of n) c \<longleftrightarrow> n \<le> m"
proof (cases "n \<le> m")
  case True
  then have "ticket_of m - ticket_of n = word_of_int (int (m - n)) \<or> ticket_of m - ticket_of n = word_of_int (int (m - n) + 1)"
    using ticket_diff [OF assms(1,3)] by simp
  then have "0 \<le> sint (ticket_of m - ticket_of n)"
    using assms(3) sint_small [of "int (m - n)"] sint_small [of "int (m - n) + 1"] by auto
  then show ?thesis using True assms(4) ticket_of_nz [OF assms(1)] by (simp add: core1_executor_complete_def)
next
  case False
  then have n: "n = m + 1" using assms(2) by simp
  have "ticket_of m - ticket_of n = - 1 \<or> ticket_of m - ticket_of n = - 2"
    by (auto simp: n next_ticket_def Let_def add.commute)
  then have "sint (ticket_of m - ticket_of n) < 0" by auto
  then show ?thesis using False assms(4) ticket_of_nz [OF assms(1)] by (simp add: core1_executor_complete_def)
qed

section \<open>The invariant\<close>

text \<open>The number of jobs core 1 has reported complete: one less than executed between the run and the report.\<close>

fun finishing :: "('j, 'c) core1_pc \<Rightarrow> bool" where
  "finishing (P1_Complete t) = True"
| "finishing _ = False"

fun working :: "('j, 'c) core1_pc \<Rightarrow> bool" where
  "working (P1_Job t) = True"
| "working (P1_Context t f) = True"
| "working (P1_Run t f c) = True"
| "working _ = False"

fun writing :: "('j, 'c) core0_pc \<Rightarrow> bool" where
  "writing (P0_Ticket e) = True"
| "writing (P0_Job e t) = True"
| "writing (P0_Context e t) = True"
| "writing (P0_Request e t) = True"
| "writing _ = False"

definition done_count :: "('j, 'c) exec_state \<Rightarrow> nat" where
  "done_count s = length (g_executed s) - (if finishing (pc1 s) then 1 else 0)"

definition pending :: "('j, 'c) exec_state \<Rightarrow> bool" where
  "pending s = (length (g_submitted s) = Suc (done_count s))"

definition mailbox_filled :: "('j, 'c) exec_state \<Rightarrow> bool" where
  "mailbox_filled s = (job_fn (ctl s) = Some (fst (last (g_submitted s))) \<and>
     job_context (ctl s) = Some (snd (last (g_submitted s))))"

definition core1_ok :: "('j, 'c) exec_state \<Rightarrow> bool" where
  "core1_ok s =
     ((pc1 s = P1_Off \<or> pc1 s = P1_Entry \<longrightarrow> \<not> online (ctl s) \<and> g_submitted s = []) \<and>
      (pc1 s \<noteq> P1_Off \<longrightarrow> started (ctl s)) \<and>
      (pc1 s \<noteq> P1_Off \<and> pc1 s \<noteq> P1_Entry \<longrightarrow> online (ctl s)) \<and>
      (\<forall>t. pc1 s = P1_Compare t \<longrightarrow> t = complete_ticket (ctl s) \<or> pending s \<and> t = request_ticket (ctl s)) \<and>
      (working (pc1 s) \<longrightarrow> pending s) \<and>
      (\<forall>t. pc1 s = P1_Job t \<longrightarrow> t = request_ticket (ctl s)) \<and>
      (\<forall>t f. pc1 s = P1_Context t f \<longrightarrow> t = request_ticket (ctl s) \<and> f = job_fn (ctl s)) \<and>
      (\<forall>t f c. pc1 s = P1_Run t f c \<longrightarrow> t = request_ticket (ctl s) \<and> f = job_fn (ctl s) \<and> c = job_context (ctl s)) \<and>
      (\<forall>t. pc1 s = P1_Complete t \<longrightarrow> g_executed s \<noteq> [] \<and> pending s \<and> t = request_ticket (ctl s)))"

definition core0_ok :: "('j, 'c) exec_state \<Rightarrow> bool" where
  "core0_ok s =
     ((\<forall>k. pc0 s = P0_Start k \<longrightarrow> started (ctl s) \<and> pc1 s = P1_Off) \<and>
      (writing (pc0 s) \<longrightarrow> online (ctl s) \<and> \<not> pending s) \<and>
      (\<forall>e. pc0 s = P0_Idle_Request e \<longrightarrow> online (ctl s)) \<and>
      (\<forall>e r. pc0 s = P0_Idle_Complete e r \<longrightarrow> online (ctl s) \<and> r = request_ticket (ctl s)) \<and>
      (\<forall>e t. pc0 s = P0_Job e t \<longrightarrow> t = next_ticket (request_ticket (ctl s))) \<and>
      (\<forall>e t. pc0 s = P0_Context e t \<longrightarrow> t = next_ticket (request_ticket (ctl s)) \<and> job_fn (ctl s) = Some (fst e)) \<and>
      (\<forall>e t. pc0 s = P0_Request e t \<longrightarrow> t = next_ticket (request_ticket (ctl s)) \<and>
         job_fn (ctl s) = Some (fst e) \<and> job_context (ctl s) = Some (snd e)))"

definition exec_inv :: "('j, 'c) exec_state \<Rightarrow> bool" where
  "exec_inv s = (core0_ok s \<and> core1_ok s \<and>
     take (length (g_executed s)) (g_submitted s) = g_executed s \<and>
     request_ticket (ctl s) = ticket_of (length (g_submitted s)) \<and>
     complete_ticket (ctl s) = ticket_of (done_count s) \<and>
     (pending s \<or> length (g_submitted s) = done_count s) \<and>
     (pending s \<longrightarrow> mailbox_filled s))"

lemmas exec_inv_defs = exec_inv_def core0_ok_def core1_ok_def pending_def mailbox_filled_def done_count_def

text \<open>Moving core 0 does not affect what core 1 relies on.\<close>

lemma core0_frame [simp]:
  "done_count (s\<lparr>pc0 := x\<rparr>) = done_count s" "done_count (s\<lparr>returned := r\<rparr>) = done_count s" "done_count (s\<lparr>ctl := c\<rparr>) = done_count s"
  "done_count (s\<lparr>g_submitted := l\<rparr>) = done_count s"
  "pending (s\<lparr>pc0 := x\<rparr>) = pending s" "pending (s\<lparr>returned := r\<rparr>) = pending s" "pending (s\<lparr>ctl := c\<rparr>) = pending s"
  "mailbox_filled (s\<lparr>pc0 := x\<rparr>) = mailbox_filled s" "mailbox_filled (s\<lparr>returned := r\<rparr>) = mailbox_filled s"
  "core1_ok (s\<lparr>pc0 := x\<rparr>) = core1_ok s" "core1_ok (s\<lparr>returned := r\<rparr>) = core1_ok s"
  "core0_ok (s\<lparr>returned := r\<rparr>) = core0_ok s"
  by (simp_all add: core1_ok_def core0_ok_def pending_def mailbox_filled_def done_count_def)

lemma exec_inv_pc0: "exec_inv s \<Longrightarrow> core0_ok (s\<lparr>pc0 := x\<rparr>) \<Longrightarrow> exec_inv (s\<lparr>pc0 := x\<rparr>)"
  by (simp add: exec_inv_def)

lemma exec_inv_returned: "exec_inv s \<Longrightarrow> exec_inv (s\<lparr>returned := r\<rparr>)"
  by (simp add: exec_inv_def)

lemma core0_ok_main: "core0_ok (s\<lparr>pc0 := P0_Main\<rparr>)" "core0_ok (s\<lparr>pc0 := P0_Init k\<rparr>)" "core0_ok (s\<lparr>pc0 := P0_Failed k\<rparr>)"
  "core0_ok (s\<lparr>pc0 := P0_Started k\<rparr>)" "core0_ok (s\<lparr>pc0 := P0_Wait k\<rparr>)" "core0_ok (s\<lparr>pc0 := P0_Timeout k\<rparr>)"
  "core0_ok (s\<lparr>pc0 := P0_Result k\<rparr>)" "core0_ok (s\<lparr>pc0 := P0_Idle_Online e\<rparr>)"
  by (simp_all add: core0_ok_def)

lemma exec_inv_init_ends: "exec_inv s \<Longrightarrow> exec_inv (init_ends k ok s)"
  by (cases k; cases ok) (auto intro!: exec_inv_pc0 exec_inv_returned core0_ok_main)

text \<open>Writes of \<open>started\<close> and \<open>start_failed\<close>.\<close>

lemma flags_frame [simp]:
  "core1_ok (s\<lparr>ctl := (ctl s)\<lparr>start_failed := b\<rparr>\<rparr>) = core1_ok s" "core0_ok (s\<lparr>ctl := (ctl s)\<lparr>start_failed := b\<rparr>\<rparr>) = core0_ok s"
  "mailbox_filled (s\<lparr>ctl := (ctl s)\<lparr>start_failed := b\<rparr>\<rparr>) = mailbox_filled s"
  "mailbox_filled (s\<lparr>ctl := (ctl s)\<lparr>started := b\<rparr>\<rparr>) = mailbox_filled s"
  by (simp_all add: core1_ok_def core0_ok_def mailbox_filled_def)

lemma started_frame: "core1_ok s \<Longrightarrow> core1_ok (s\<lparr>ctl := (ctl s)\<lparr>started := True\<rparr>\<rparr>)"
  "core0_ok s \<Longrightarrow> core0_ok (s\<lparr>ctl := (ctl s)\<lparr>started := True\<rparr>\<rparr>)"
  by (simp_all add: core1_ok_def core0_ok_def)

lemma exec_inv_flags: "exec_inv s \<Longrightarrow> exec_inv (s\<lparr>ctl := (ctl s)\<lparr>start_failed := b\<rparr>\<rparr>)"
  "exec_inv s \<Longrightarrow> exec_inv (s\<lparr>ctl := (ctl s)\<lparr>started := True\<rparr>\<rparr>)"
  by (simp_all add: exec_inv_def started_frame)

lemma exec_inv_start: "exec_inv exec_start"
  by (simp add: exec_inv_defs exec_start_def control_zero_def)

lemma exec_invD:
  assumes "exec_inv s"
  shows "core0_ok s" "core1_ok s" "take (length (g_executed s)) (g_submitted s) = g_executed s"
    "request_ticket (ctl s) = ticket_of (length (g_submitted s))" "complete_ticket (ctl s) = ticket_of (done_count s)"
    "pending s \<or> length (g_submitted s) = done_count s" "pending s \<Longrightarrow> mailbox_filled s"
  using assms by (simp_all only: exec_inv_def)

lemma same_ticket_not_pending:
  assumes "exec_inv s" and "request_ticket (ctl s) = complete_ticket (ctl s)"
  shows "\<not> pending s"
proof
  assume "pending s"
  then have "request_ticket (ctl s) = next_ticket (complete_ticket (ctl s))"
    unfolding exec_invD(4,5) [OF assms(1)] pending_def by (simp only: ticket_of.simps)
  then show False using assms(2) next_ticket_ne [of "complete_ticket (ctl s)"] by argo
qed

lemma finishing_cases: "finishing p \<Longrightarrow> \<exists>t. p = P1_Complete t"
  by (cases p) simp_all

lemma not_pending_not_working: "exec_inv s \<Longrightarrow> \<not> pending s \<Longrightarrow> \<not> working (pc1 s) \<and> \<not> finishing (pc1 s)"
  using exec_invD(2) [of s] finishing_cases [of "pc1 s"] unfolding core1_ok_def by blast

text \<open>While no job is pending core 1 looks at neither the job nor its context.\<close>

lemma core1_ok_writes:
  assumes "core1_ok s" and "\<not> working (pc1 s)"
  shows "core1_ok (s\<lparr>ctl := (ctl s)\<lparr>job_fn := f\<rparr>\<rparr>)" "core1_ok (s\<lparr>ctl := (ctl s)\<lparr>job_context := c\<rparr>\<rparr>)"
  using assms by (cases "pc1 s"; simp add: core1_ok_def)+

lemma core1_ok_request:
  assumes "core1_ok s" and "\<not> working (pc1 s)" and "\<not> finishing (pc1 s)" and "online (ctl s)" and "\<not> pending s"
  shows "core1_ok (s\<lparr>ctl := (ctl s)\<lparr>request_ticket := t\<rparr>, g_submitted := l\<rparr>)"
  using assms by (cases "pc1 s") (simp_all add: core1_ok_def)

text \<open>Core 1 moves without writing the mailbox except at its entry and when it reports completion.\<close>

lemma core1_frame:
  "\<not> finishing (pc1 s) \<Longrightarrow> \<not> finishing p \<Longrightarrow> done_count (s\<lparr>pc1 := p\<rparr>) = done_count s"
  "\<not> finishing (pc1 s) \<Longrightarrow> \<not> finishing p \<Longrightarrow> pending (s\<lparr>pc1 := p\<rparr>) = pending s"
  "mailbox_filled (s\<lparr>pc1 := p\<rparr>) = mailbox_filled s"
  by (simp_all add: done_count_def pending_def mailbox_filled_def)

lemma exec_inv_move1:
  assumes "exec_inv s" and "\<not> finishing (pc1 s)" and "\<not> finishing p" and "core0_ok (s\<lparr>pc1 := p\<rparr>)" and "core1_ok (s\<lparr>pc1 := p\<rparr>)"
  shows "exec_inv (s\<lparr>pc1 := p\<rparr>)"
  using assms by (simp add: exec_inv_def core1_frame)

lemma exec_inv_core0: "core0_step s s' \<Longrightarrow> exec_inv s \<Longrightarrow> exec_inv s'"
proof (induction rule: core0_step.induct)
  case (call_init s)
  then show ?case by (intro exec_inv_pc0 core0_ok_main)
next
  case (call_submit s j c)
  then show ?case by (intro exec_inv_pc0 core0_ok_main)
next
  case (call_submit_null s)
  then show ?case by (intro exec_inv_returned)
next
  case (init_online s k)
  then show ?case by (simp add: exec_inv_init_ends exec_inv_pc0 core0_ok_main)
next
  case (init_failed s k)
  then show ?case by (simp add: exec_inv_init_ends exec_inv_pc0 core0_ok_main)
next
  case (init_started s k)
  show ?case
  proof (cases "started (ctl s)")
    case True
    then show ?thesis using init_started.prems by (simp add: exec_inv_pc0 core0_ok_main)
  next
    case False
    let ?s = "s\<lparr>ctl := (ctl s)\<lparr>started := True\<rparr>\<rparr>"
    have "pc1 s = P1_Off" using False init_started.prems by (auto simp: exec_inv_def core1_ok_def)
    then have "exec_inv (?s\<lparr>pc0 := P0_Start k\<rparr>)"
      using exec_inv_flags(2) [OF init_started.prems] by (intro exec_inv_pc0) (simp_all add: core0_ok_def)
    then show ?thesis using False by simp
  qed
next
  case (start_ok s k)
  note inv = exec_invD [OF start_ok.prems]
  have off: "pc1 s = P1_Off" "started (ctl s)" using inv(1) start_ok.hyps by (simp_all add: core0_ok_def)
  let ?s = "s\<lparr>pc0 := P0_Wait k\<rparr>"
  have s: "exec_inv ?s" by (intro exec_inv_pc0 core0_ok_main start_ok.prems)
  have c0: "core0_ok (?s\<lparr>pc1 := P1_Entry\<rparr>)" by (simp add: core0_ok_def)
  have c1: "core1_ok (?s\<lparr>pc1 := P1_Entry\<rparr>)" using off inv(2) by (simp add: core1_ok_def)
  have nf: "\<not> finishing (pc1 ?s)" "\<not> finishing P1_Entry" using off(1) by simp_all
  show ?case by (rule exec_inv_move1 [OF s nf c0 c1])
next
  case (start_error s k)
  then show ?case by (intro exec_inv_init_ends exec_inv_flags)
next
  case (wait_online s k)
  then show ?case by (intro exec_inv_pc0 core0_ok_main)
next
  case (wait_sleep s k)
  then show ?case by simp
next
  case (wait_deadline s k)
  then show ?case by (intro exec_inv_pc0 core0_ok_main)
next
  case (init_timeout s k)
  show ?case
  proof (cases "online (ctl s)")
    case True
    then show ?thesis using init_timeout.prems by (simp add: exec_inv_pc0 core0_ok_main)
  next
    case False
    have "exec_inv (s\<lparr>ctl := (ctl s)\<lparr>start_failed := True\<rparr>\<rparr>\<lparr>pc0 := P0_Result k\<rparr>)"
      by (intro exec_inv_pc0 exec_inv_flags core0_ok_main init_timeout.prems)
    then show ?thesis using False by simp
  qed
next
  case (init_result s k)
  then show ?case by (intro exec_inv_init_ends)
next
  case (idle_online s e)
  then have "exec_inv (s\<lparr>pc0 := P0_Main\<rparr>\<lparr>returned := Some (Submit_returned 0)\<rparr>)"
    by (intro exec_inv_pc0 exec_inv_returned core0_ok_main)
  with idle_online show ?case by (auto intro!: exec_inv_pc0 simp: core0_ok_def)
next
  case (idle_request s e)
  then have "online (ctl s)" by (simp add: exec_inv_def core0_ok_def)
  with idle_request show ?case by (intro exec_inv_pc0) (simp_all add: core0_ok_def)
next
  case (idle_complete s e r)
  then have "exec_inv (s\<lparr>pc0 := P0_Main\<rparr>\<lparr>returned := Some (Submit_returned 0)\<rparr>)"
    by (intro exec_inv_pc0 exec_inv_returned core0_ok_main)
  moreover have "exec_inv (s\<lparr>pc0 := P0_Ticket e\<rparr>)" if "r = complete_ticket (ctl s)"
  proof -
    have "online (ctl s)" "request_ticket (ctl s) = complete_ticket (ctl s)"
      using idle_complete that by (auto simp: exec_inv_def core0_ok_def)
    moreover from this have "\<not> pending s" using same_ticket_not_pending [OF idle_complete.prems] by simp
    ultimately show ?thesis using idle_complete.prems by (intro exec_inv_pc0) (simp_all add: core0_ok_def)
  qed
  ultimately show ?case by simp
next
  case (submit_ticket s e)
  then have "online (ctl s)" "\<not> pending s" by (auto simp: exec_inv_def core0_ok_def)
  with submit_ticket show ?case by (intro exec_inv_pc0) (simp_all add: core0_ok_def)
next
  case (submit_job s j c t)
  note inv = exec_invD [OF submit_job.prems]
  have np: "\<not> pending s" "online (ctl s)" "t = next_ticket (request_ticket (ctl s))"
    using inv(1) submit_job.hyps by (simp_all add: core0_ok_def)
  let ?s = "s\<lparr>ctl := (ctl s)\<lparr>job_fn := Some j\<rparr>\<rparr>"
  have "core1_ok (?s\<lparr>pc0 := P0_Context (j, c) t\<rparr>)"
    using core1_ok_writes(1) [OF inv(2)] not_pending_not_working [OF submit_job.prems np(1)] unfolding core0_frame by blast
  moreover have "core0_ok (?s\<lparr>pc0 := P0_Context (j, c) t\<rparr>)" using np by (simp add: core0_ok_def)
  ultimately have "exec_inv (?s\<lparr>pc0 := P0_Context (j, c) t\<rparr>)" using inv(3-6) np(1) by (simp add: exec_inv_def)
  then show ?case by simp
next
  case (submit_context s j c t)
  note inv = exec_invD [OF submit_context.prems]
  have np: "\<not> pending s" "online (ctl s)" "t = next_ticket (request_ticket (ctl s))" "job_fn (ctl s) = Some j"
    using inv(1) submit_context.hyps by (simp_all add: core0_ok_def)
  let ?s = "s\<lparr>ctl := (ctl s)\<lparr>job_context := Some c\<rparr>\<rparr>"
  have "core1_ok (?s\<lparr>pc0 := P0_Request (j, c) t\<rparr>)"
    using core1_ok_writes(2) [OF inv(2)] not_pending_not_working [OF submit_context.prems np(1)] unfolding core0_frame by blast
  moreover have "core0_ok (?s\<lparr>pc0 := P0_Request (j, c) t\<rparr>)" using np by (simp add: core0_ok_def)
  ultimately have "exec_inv (?s\<lparr>pc0 := P0_Request (j, c) t\<rparr>)" using inv(3-6) np(1) by (simp add: exec_inv_def)
  then show ?case by simp
next
  case (submit_request s e t)
  note inv = exec_invD [OF submit_request.prems]
  have np: "\<not> pending s" "online (ctl s)" "t = next_ticket (request_ticket (ctl s))" "job_fn (ctl s) = Some (fst e)"
    "job_context (ctl s) = Some (snd e)" using inv(1) submit_request.hyps by (simp_all add: core0_ok_def)
  note nw = not_pending_not_working [OF submit_request.prems np(1)]
  have len: "length (g_submitted s) = length (g_executed s)" "done_count s = length (g_executed s)"
    using inv(6) np(1) nw by (simp_all add: done_count_def)
  let ?s = "s\<lparr>ctl := (ctl s)\<lparr>request_ticket := t\<rparr>, g_submitted := g_submitted s @ [e]\<rparr>"
  have "core1_ok ?s" using core1_ok_request [OF inv(2)] nw np by blast
  then have c1: "core1_ok (?s\<lparr>pc0 := P0_Main\<rparr>)" unfolding core0_frame .
  have "exec_inv (?s\<lparr>pc0 := P0_Main\<rparr>)" unfolding exec_inv_def
    using c1 core0_ok_main(1) [of ?s] inv(3-5) np(3-5) len nw
    by (simp add: pending_def mailbox_filled_def done_count_def)
  from exec_inv_returned [OF this, of "Some (Submit_returned t)"] show ?case by simp
qed

lemma core0_ok_pc1: "core0_ok s \<Longrightarrow> pc1 s \<noteq> P1_Off \<Longrightarrow> pending (s\<lparr>pc1 := p\<rparr>) = pending s \<Longrightarrow> core0_ok (s\<lparr>pc1 := p\<rparr>)"
  by (simp add: core0_ok_def)

lemma exec_inv_pc1:
  assumes "exec_inv s" and "pc1 s \<noteq> P1_Off" and "\<not> finishing (pc1 s)" and "\<not> finishing p" and "core1_ok (s\<lparr>pc1 := p\<rparr>)"
  shows "exec_inv (s\<lparr>pc1 := p\<rparr>)"
  using assms core0_ok_pc1 [of s p] exec_invD(1) [of s] by (intro exec_inv_move1) (simp_all add: core1_frame)

lemma exec_inv_core1: "core1_step s s' \<Longrightarrow> exec_inv s \<Longrightarrow> exec_inv s'"
proof (induction rule: core1_step.induct)
  case (entry s)
  note inv = exec_invD [OF entry.prems]
  have st: "\<not> online (ctl s)" "g_submitted s = []" "started (ctl s)" using inv(2) entry.hyps by (simp_all add: core1_ok_def)
  then have ex: "g_executed s = []" using inv(3) by simp
  have "core0_ok (s\<lparr>ctl := (ctl s)\<lparr>online := True\<rparr>, pc1 := P1_Read\<rparr>)"
    using inv(1) st(1) entry.hyps by (simp add: core0_ok_def)
  then show ?case using inv(4,5) st ex entry.hyps
    by (simp add: exec_inv_def core1_ok_def pending_def mailbox_filled_def done_count_def)
next
  case (read_request s)
  note inv = exec_invD [OF read_request.prems]
  have "pending s \<or> request_ticket (ctl s) = complete_ticket (ctl s)" using inv(4-6) by auto
  then have "core1_ok (s\<lparr>pc1 := P1_Compare (request_ticket (ctl s))\<rparr>)"
    using inv(2) read_request.hyps by (auto simp: core1_ok_def core1_frame)
  then show ?case using read_request by (intro exec_inv_pc1) simp_all
next
  case (compare s t)
  note inv = exec_invD [OF compare.prems]
  have t: "t = complete_ticket (ctl s) \<or> pending s \<and> t = request_ticket (ctl s)" using inv(2) compare.hyps by (simp add: core1_ok_def)
  have "core1_ok (s\<lparr>pc1 := P1_Job t\<rparr>)" if "t \<noteq> complete_ticket (ctl s)"
    using inv(2) compare.hyps t that by (simp add: core1_ok_def core1_frame)
  moreover have "core1_ok (s\<lparr>pc1 := P1_Read\<rparr>)" using inv(2) compare.hyps by (simp add: core1_ok_def)
  ultimately show ?case using compare exec_inv_pc1 [OF compare.prems, of "P1_Job t"] exec_inv_pc1 [OF compare.prems, of P1_Read] by simp
next
  case (read_job s t)
  have "core1_ok (s\<lparr>pc1 := P1_Context t (job_fn (ctl s))\<rparr>)"
    using exec_invD(2) [OF read_job.prems] read_job.hyps by (simp add: core1_ok_def core1_frame)
  then show ?case using read_job by (intro exec_inv_pc1) simp_all
next
  case (read_context s t f)
  have "core1_ok (s\<lparr>pc1 := P1_Run t f (job_context (ctl s))\<rparr>)"
    using exec_invD(2) [OF read_context.prems] read_context.hyps by (simp add: core1_ok_def core1_frame)
  then show ?case using read_context by (intro exec_inv_pc1) simp_all
next
  case (run_null s t c)
  note inv = exec_invD [OF run_null.prems]
  have "mailbox_filled s" using inv(2,7) run_null.hyps by (simp add: core1_ok_def)
  then show ?case using inv(2) run_null.hyps by (simp add: core1_ok_def mailbox_filled_def)
next
  case (run_job s t f c)
  note inv = exec_invD [OF run_job.prems]
  have st: "pending s" "t = request_ticket (ctl s)" "job_fn (ctl s) = Some f" "job_context (ctl s) = Some c" "online (ctl s)" "started (ctl s)"
    using inv(2) run_job.hyps by (simp_all add: core1_ok_def)
  have l: "(f, c) = last (g_submitted s)" using inv(7) st by (simp add: mailbox_filled_def prod_eq_iff)
  have n: "length (g_submitted s) = Suc (length (g_executed s))" using st(1) run_job.hyps by (simp add: pending_def done_count_def)
  then have "g_submitted s = g_executed s @ [(f, c)]"
    using inv(3) l by (metis append_butlast_last_id butlast_conv_take diff_Suc_1 list.size(3) nat.distinct(1))
  moreover have "pending (s\<lparr>pc1 := P1_Complete t, g_executed := g_executed s @ [(f, c)]\<rparr>)" using n by (simp add: pending_def done_count_def)
  moreover have "core0_ok (s\<lparr>pc1 := P1_Complete t, g_executed := g_executed s @ [(f, c)]\<rparr>)"
    using inv(1) run_job.hyps calculation(2) st(1) by (simp add: core0_ok_def)
  ultimately show ?case using inv(4,5,7) st run_job.hyps
    by (simp add: exec_inv_def core1_ok_def mailbox_filled_def done_count_def)
next
  case (complete s t)
  note inv = exec_invD [OF complete.prems]
  have st: "pending s" "t = request_ticket (ctl s)" "g_executed s \<noteq> []" "online (ctl s)" "started (ctl s)"
    using inv(2) complete.hyps by (simp_all add: core1_ok_def)
  have n: "length (g_submitted s) = length (g_executed s)" using st complete.hyps by (simp add: pending_def done_count_def)
  have "\<not> writing (pc0 s)" using inv(1) st(1) by (simp add: core0_ok_def)
  then have "core0_ok (s\<lparr>ctl := (ctl s)\<lparr>complete_ticket := t\<rparr>, pc1 := P1_Read\<rparr>)"
    using inv(1) complete.hyps by (simp add: core0_ok_def)
  then show ?case using inv(3,4) n st complete.hyps
    by (simp add: exec_inv_def core1_ok_def mailbox_filled_def done_count_def pending_def)
qed

lemma exec_inv_reachable: "reachable s \<Longrightarrow> exec_inv s"
  by (induction rule: rtranclp_induct) (auto simp: exec_inv_start exec_step_def intro: exec_inv_core0 exec_inv_core1)

section \<open>Core 1 finishes\<close>

text \<open>How many steps of core 1 are left until it reports the pending job.\<close>

fun rounds_left :: "u32 \<Rightarrow> ('j, 'c) core1_pc \<Rightarrow> nat" where
  "rounds_left done (P1_Compare t) = (if t = done then 7 else 5)"
| "rounds_left done P1_Read = 6"
| "rounds_left done (P1_Job t) = 4"
| "rounds_left done (P1_Context t f) = 3"
| "rounds_left done (P1_Run t f c) = 2"
| "rounds_left done (P1_Complete t) = 1"
| "rounds_left done _ = 0"

lemma core1_progress:
  assumes inv: "exec_inv s" and p: "pending s"
  shows "\<exists>s'. core1_step s s' \<and> g_submitted s' = g_submitted s \<and> (pending s' \<longrightarrow>
    rounds_left (complete_ticket (ctl s')) (pc1 s') < rounds_left (complete_ticket (ctl s)) (pc1 s))"
proof -
  note d = exec_invD [OF inv]
  have mb: "job_fn (ctl s) \<noteq> None" "job_context (ctl s) \<noteq> None" using d(7) [OF p] by (simp_all add: mailbox_filled_def)
  have rq: "request_ticket (ctl s) \<noteq> complete_ticket (ctl s)" using same_ticket_not_pending [OF inv] p by blast
  have ne: "g_submitted s \<noteq> []" using p by (auto simp: pending_def)
  show ?thesis
  proof (cases "pc1 s")
    case P1_Read
    then show ?thesis using read_request [of s] rq by (intro exI conjI) (assumption, simp_all)
  next
    case (P1_Compare t)
    then show ?thesis using compare [of s t] by (intro exI conjI) (assumption, simp_all)
  next
    case (P1_Job t)
    then show ?thesis using read_job [of s t] by (intro exI conjI) (assumption, simp_all)
  next
    case (P1_Context t f)
    then show ?thesis using read_context [of s t f] by (intro exI conjI) (assumption, simp_all)
  next
    case (P1_Run t f c)
    then obtain j x where "f = Some j" "c = Some x" using d(2) mb by (auto simp: core1_ok_def)
    with P1_Run have run: "pc1 s = P1_Run t (Some j) (Some x)" by simp
    then show ?thesis using run_job [OF run] by (intro exI conjI) (assumption, simp_all)
  next
    case (P1_Complete t)
    have "\<not> pending (s\<lparr>ctl := (ctl s)\<lparr>complete_ticket := t\<rparr>, pc1 := P1_Read\<rparr>)"
      using p P1_Complete d(2) by (simp add: pending_def done_count_def core1_ok_def)
    then show ?thesis using complete [OF P1_Complete] by (intro exI conjI) (assumption, simp_all)
  qed (use d(2) ne in \<open>simp_all add: core1_ok_def\<close>)
qed

lemma core1_finishes:
  "exec_inv s \<Longrightarrow> \<exists>s'. core1_step\<^sup>*\<^sup>* s s' \<and> exec_inv s' \<and> g_submitted s' = g_submitted s \<and> \<not> pending s'"
proof (induction "rounds_left (complete_ticket (ctl s)) (pc1 s)" arbitrary: s rule: less_induct)
  case less
  show ?case
  proof (cases "pending s")
    case True
    from core1_progress [OF less.prems True] obtain s1 where s1: "core1_step s s1" "g_submitted s1 = g_submitted s"
      "pending s1 \<longrightarrow> rounds_left (complete_ticket (ctl s1)) (pc1 s1) < rounds_left (complete_ticket (ctl s)) (pc1 s)" by blast
    have inv: "exec_inv s1" by (rule exec_inv_core1 [OF s1(1) less.prems])
    show ?thesis
    proof (cases "pending s1")
      case True
      with less.hyps [OF _ inv] s1 obtain s' where "core1_step\<^sup>*\<^sup>* s1 s'" "exec_inv s'" "g_submitted s' = g_submitted s1" "\<not> pending s'"
        by blast
      then show ?thesis using s1 by (metis converse_rtranclp_into_rtranclp)
    qed (use s1 inv in blast)
  qed (use less.prems in blast)
qed

text \<open>A concrete run: the first submission starts core 1 and hands over a job.\<close>

definition exec_at ::
  "('j, 'c) core1_executor_control \<Rightarrow> ('j, 'c) core0_pc \<Rightarrow> ('j, 'c) core1_pc \<Rightarrow> ('j, 'c) exec_state" where
  "exec_at c p0 p1 = \<lparr>ctl = c, pc0 = p0, pc1 = p1, returned = None, g_submitted = [], g_executed = []\<rparr>"

lemma reach0: "exec_step\<^sup>*\<^sup>* a b \<Longrightarrow> core0_step b c \<Longrightarrow> exec_step\<^sup>*\<^sup>* a c"
  by (auto simp: exec_step_def intro: rtranclp.rtrancl_into_rtrancl)

lemma reach1: "exec_step\<^sup>*\<^sup>* a b \<Longrightarrow> core1_step b c \<Longrightarrow> exec_step\<^sup>*\<^sup>* a c"
  by (auto simp: exec_step_def intro: rtranclp.rtrancl_into_rtrancl)

lemma submission_reachable:
  "\<exists>s :: (nat, nat) exec_state. exec_step\<^sup>*\<^sup>* exec_start s \<and> g_submitted s = [(3, 4)] \<and> g_executed s = [] \<and>
     returned s = Some (Submit_returned 1) \<and> pc1 s = P1_Read"
proof -
  let ?e = "(3, 4) :: nat \<times> nat" and ?k = "Some (3, 4) :: (nat \<times> nat) option"
  let ?z = "control_zero :: (nat, nat) core1_executor_control"
  let ?c1 = "?z\<lparr>started := True\<rparr>" let ?c2 = "?c1\<lparr>online := True\<rparr>"
  let ?c3 = "?c2\<lparr>job_fn := Some 3\<rparr>" let ?c4 = "?c3\<lparr>job_context := Some 4\<rparr>"
  let ?at = "exec_at :: (nat, nat) core1_executor_control \<Rightarrow> _"
  have 1: "core0_step exec_start (?at ?z (P0_Init ?k) P1_Off)"
    using call_submit [of exec_start 3 4] by (simp add: exec_start_def exec_at_def)
  have 2: "core0_step (?at ?z (P0_Init ?k) P1_Off) (?at ?z (P0_Failed ?k) P1_Off)"
    using init_online [of "?at ?z (P0_Init ?k) P1_Off" ?k] by (simp add: exec_at_def control_zero_def)
  have 3: "core0_step (?at ?z (P0_Failed ?k) P1_Off) (?at ?z (P0_Started ?k) P1_Off)"
    using init_failed [of "?at ?z (P0_Failed ?k) P1_Off" ?k] by (simp add: exec_at_def control_zero_def)
  have 4: "core0_step (?at ?z (P0_Started ?k) P1_Off) (?at ?c1 (P0_Start ?k) P1_Off)"
    using init_started [of "?at ?z (P0_Started ?k) P1_Off" ?k] by (simp add: exec_at_def control_zero_def)
  have 5: "core0_step (?at ?c1 (P0_Start ?k) P1_Off) (?at ?c1 (P0_Wait ?k) P1_Entry)"
    using start_ok [of "?at ?c1 (P0_Start ?k) P1_Off" ?k] by (simp add: exec_at_def)
  have 6: "core1_step (?at ?c1 (P0_Wait ?k) P1_Entry) (?at ?c2 (P0_Wait ?k) P1_Read)"
    using entry [of "?at ?c1 (P0_Wait ?k) P1_Entry"] by (simp add: exec_at_def)
  have 7: "core0_step (?at ?c2 (P0_Wait ?k) P1_Read) (?at ?c2 (P0_Timeout ?k) P1_Read)"
    using wait_online [of "?at ?c2 (P0_Wait ?k) P1_Read" ?k] by (simp add: exec_at_def)
  have 8: "core0_step (?at ?c2 (P0_Timeout ?k) P1_Read) (?at ?c2 (P0_Result ?k) P1_Read)"
    using init_timeout [of "?at ?c2 (P0_Timeout ?k) P1_Read" ?k] by (simp add: exec_at_def)
  have 9: "core0_step (?at ?c2 (P0_Result ?k) P1_Read) (?at ?c2 (P0_Idle_Online ?e) P1_Read)"
    using init_result [of "?at ?c2 (P0_Result ?k) P1_Read" ?k] by (simp add: exec_at_def)
  have 10: "core0_step (?at ?c2 (P0_Idle_Online ?e) P1_Read) (?at ?c2 (P0_Idle_Request ?e) P1_Read)"
    using idle_online [of "?at ?c2 (P0_Idle_Online ?e) P1_Read" ?e] by (simp add: exec_at_def)
  have 11: "core0_step (?at ?c2 (P0_Idle_Request ?e) P1_Read) (?at ?c2 (P0_Idle_Complete ?e 0) P1_Read)"
    using idle_request [of "?at ?c2 (P0_Idle_Request ?e) P1_Read" ?e] by (simp add: exec_at_def control_zero_def)
  have 12: "core0_step (?at ?c2 (P0_Idle_Complete ?e 0) P1_Read) (?at ?c2 (P0_Ticket ?e) P1_Read)"
    using idle_complete [of "?at ?c2 (P0_Idle_Complete ?e 0) P1_Read" ?e 0] by (simp add: exec_at_def control_zero_def)
  have 13: "core0_step (?at ?c2 (P0_Ticket ?e) P1_Read) (?at ?c2 (P0_Job ?e 1) P1_Read)"
    using submit_ticket [of "?at ?c2 (P0_Ticket ?e) P1_Read" ?e] by (simp add: exec_at_def control_zero_def next_ticket_def)
  have 14: "core0_step (?at ?c2 (P0_Job ?e 1) P1_Read) (?at ?c3 (P0_Context ?e 1) P1_Read)"
    using submit_job [of "?at ?c2 (P0_Job ?e 1) P1_Read" 3 4 1] by (simp add: exec_at_def)
  have 15: "core0_step (?at ?c3 (P0_Context ?e 1) P1_Read) (?at ?c4 (P0_Request ?e 1) P1_Read)"
    using submit_context [of "?at ?c3 (P0_Context ?e 1) P1_Read" 3 4 1] by (simp add: exec_at_def)
  obtain s where 16: "core0_step (?at ?c4 (P0_Request ?e 1) P1_Read) s" "g_submitted s = [?e]" "g_executed s = []"
    "returned s = Some (Submit_returned 1)" "pc1 s = P1_Read"
    using submit_request [of "?at ?c4 (P0_Request ?e 1) P1_Read" ?e 1] by (auto simp: exec_at_def)
  have a: "exec_step\<^sup>*\<^sup>* exec_start (?at ?c1 (P0_Wait ?k) P1_Entry)"
    by (rule reach0 [OF reach0 [OF reach0 [OF reach0 [OF reach0 [OF rtranclp.rtrancl_refl 1] 2] 3] 4] 5])
  have b: "exec_step\<^sup>*\<^sup>* exec_start (?at ?c2 (P0_Idle_Complete ?e 0) P1_Read)"
    by (rule reach0 [OF reach0 [OF reach0 [OF reach0 [OF reach0 [OF reach1 [OF a 6] 7] 8] 9] 10] 11])
  have "exec_step\<^sup>*\<^sup>* exec_start s"
    by (rule reach0 [OF reach0 [OF reach0 [OF reach0 [OF reach0 [OF b 12] 13] 14] 15] 16(1)])
  then show ?thesis using 16 by blast
qed

section \<open>Properties\<close>

text \<open>C4. Whatever the two cores interleave, core 1 executes exactly the submitted jobs, each with the context it
  was submitted with, in the order of submission and each at most once: what it has executed is a prefix of
  what was submitted that lacks at most the last job, and no job is submitted while another is pending.\<close>

theorem core1_executes_submitted_jobs:
  assumes "exec_step\<^sup>*\<^sup>* exec_start s"
  shows "g_executed s = take (length (g_executed s)) (g_submitted s) \<and>
    length (g_submitted s) \<le> Suc (length (g_executed s)) \<and>
    (core1_executor_idle (ctl s) \<longrightarrow> g_executed s = g_submitted s)"
proof -
  note inv = exec_invD [OF exec_inv_reachable [OF assms]]
  have le: "length (g_submitted s) \<le> Suc (length (g_executed s))" using inv(6) by (auto simp: pending_def done_count_def)
  have "g_executed s = g_submitted s" if "core1_executor_idle (ctl s)"
  proof -
    have "\<not> pending s" using same_ticket_not_pending [OF exec_inv_reachable [OF assms]] that
      by (simp add: core1_executor_idle_def)
    then have "length (g_submitted s) = length (g_executed s)"
      using inv(6) not_pending_not_working [OF exec_inv_reachable [OF assms]] by (simp add: done_count_def)
    then show ?thesis using inv(3) by simp
  qed
  then show ?thesis using inv(3) le by simp
qed

theorem core1_executes_submitted_jobs_witness:
  "\<exists>s :: (nat, nat) exec_state. g_submitted s = [(3, 4)] \<and> g_executed s = [] \<and> \<not> core1_executor_idle (ctl s) \<and>
     g_executed s = take (length (g_executed s)) (g_submitted s) \<and> length (g_submitted s) \<le> Suc (length (g_executed s))"
proof -
  obtain s :: "(nat, nat) exec_state" where s: "exec_step\<^sup>*\<^sup>* exec_start s" "g_submitted s = [(3, 4)]" "g_executed s = []"
    using submission_reachable by blast
  from core1_executes_submitted_jobs [OF s(1)] s show ?thesis by auto
qed

text \<open>The ticket of a submission answers for its own job: for each of the last \<open>2 ^ 31 - 2\<close> submissions
  \<open>core1_executor_complete\<close> says yes only when that job has been executed, and it says no only while core 1
  has not reported it, also across the wrap of the 32 bit tickets and when later jobs have been submitted.\<close>

theorem core1_complete_is_own_job:
  assumes "exec_step\<^sup>*\<^sup>* exec_start s" and "0 < n" and "n \<le> length (g_submitted s)" and "length (g_submitted s) - n < 2 ^ 31 - 1"
  shows "(core1_executor_complete (ticket_of n) (ctl s) \<longrightarrow> n \<le> length (g_executed s)) \<and>
    (n < length (g_executed s) \<or> n \<le> length (g_executed s) \<and> pc1 s = P1_Read \<longrightarrow>
      core1_executor_complete (ticket_of n) (ctl s))"
proof -
  note inv = exec_invD [OF exec_inv_reachable [OF assms(1)]]
  have le: "length (g_submitted s) \<le> Suc (done_count s)" using inv(6) by (auto simp: pending_def)
  have le2: "done_count s \<le> length (g_submitted s)" using inv(6) by (auto simp: pending_def)
  have "core1_executor_complete (ticket_of n) (ctl s) \<longleftrightarrow> n \<le> done_count s"
    using assms(2-4) le le2 inv(5) by (intro complete_iff) simp_all
  moreover have "done_count s \<le> length (g_executed s)" "length (g_executed s) - 1 \<le> done_count s" by (simp_all add: done_count_def)
  moreover have "pc1 s = P1_Read \<longrightarrow> done_count s = length (g_executed s)" by (simp add: done_count_def)
  ultimately show ?thesis by auto
qed

theorem core1_complete_is_own_job_witness:
  "\<exists>s :: (nat, nat) exec_state. g_submitted s = [(3, 4)] \<and> g_executed s = [] \<and> \<not> core1_executor_complete (ticket_of 1) (ctl s)"
proof -
  obtain s :: "(nat, nat) exec_state" where s: "exec_step\<^sup>*\<^sup>* exec_start s" "g_submitted s = [(3, 4)]" "g_executed s = []"
    using submission_reachable by blast
  have "\<not> core1_executor_complete (ticket_of 1) (ctl s)"
    using core1_complete_is_own_job [OF s(1), of 1] s(2,3) by auto
  with s show ?thesis by blast
qed

text \<open>C24. A submitted job is executed and reported: from every reachable state core 1 alone comes, in finitely many
  steps of its own, to a state where every submitted job has been executed and the executor is idle again.\<close>

theorem core1_reports_every_job:
  assumes "exec_step\<^sup>*\<^sup>* exec_start s" and "g_submitted s \<noteq> []"
  shows "\<exists>s'. core1_step\<^sup>*\<^sup>* s s' \<and> g_submitted s' = g_submitted s \<and> g_executed s' = g_submitted s \<and> core1_executor_idle (ctl s')"
proof -
  from core1_finishes [OF exec_inv_reachable [OF assms(1)]] obtain s' where s': "core1_step\<^sup>*\<^sup>* s s'" "exec_inv s'"
    "g_submitted s' = g_submitted s" "\<not> pending s'" by blast
  note d = exec_invD [OF s'(2)] and nw = not_pending_not_working [OF s'(2,4)]
  have n: "length (g_submitted s') = length (g_executed s')" using d(6) s'(4) nw by (simp add: done_count_def)
  have "online (ctl s')" using d(2) s'(3) assms(2) by (auto simp: core1_ok_def)
  then have "core1_executor_idle (ctl s')" using d(4,5) n nw by (simp add: core1_executor_idle_def done_count_def)
  then show ?thesis using s' d(3) n by auto
qed

theorem core1_reports_every_job_witness:
  "\<exists>s s' :: (nat, nat) exec_state. core1_step\<^sup>*\<^sup>* s s' \<and> g_executed s = [] \<and> g_executed s' = [(3, 4)] \<and> core1_executor_idle (ctl s')"
proof -
  obtain s :: "(nat, nat) exec_state" where s: "exec_step\<^sup>*\<^sup>* exec_start s" "g_submitted s = [(3, 4)]" "g_executed s = []"
    using submission_reachable by blast
  then have "g_submitted s \<noteq> []" by simp
  from core1_reports_every_job [OF s(1) this] s show ?thesis by auto
qed

end
