(* ===== verification/Frame_Pool.thy ===== *)
theory Frame_Pool
  imports Dristy_Prelude
begin

text \<open>
  The frame pool, \<open>services/frame_pool.c\<close> with \<open>services/frame_workspace.h\<close>: two static camera
  frame slots that are reserved as a whole by the camera, or lent one at a time as a scratch workspace under a
  token that carries a generation. All calls come from the main loop, so the operations are functions on the
  three static variables; the contents of the slots are not touched by any of them.

  The abstract specification is an owner (nobody, the camera or the borrower of one token) and the number of
  tokens issued; every operation refines it. The second property is about time: a token that was released is
  never accepted again.
\<close>

section \<open>The static variables and the tokens\<close>

definition CAMERA_MAX_FRAME_PIXELS :: nat where "CAMERA_MAX_FRAME_PIXELS = 640 * 480"
definition FRAME_POOL_CAMERA_SLOT_COUNT :: u8 where "FRAME_POOL_CAMERA_SLOT_COUNT = 2"

text \<open>\<open>sizeof(g_camera_slots[0])\<close>, in bytes of the 16 bit pixels.\<close>

definition frame_pool_camera_frame_bytes :: u32 where
  "frame_pool_camera_frame_bytes = of_nat (2 * CAMERA_MAX_FRAME_PIXELS)"

text \<open>The value of a data pointer: NULL, the start of a camera slot, or any other address.\<close>

datatype slot_ptr = Null_ptr | Camera_slot u8 | Foreign_ptr nat

record frame_workspace_borrow_t =
  fw_data :: slot_ptr
  fw_size :: u32
  fw_generation :: u32

definition FRAME_WORKSPACE_BORROW_NONE :: frame_workspace_borrow_t where
  "FRAME_WORKSPACE_BORROW_NONE = \<lparr>fw_data = Null_ptr, fw_size = 0, fw_generation = 0\<rparr>"

record frame_pool_state =
  workspace_generation :: u32
  workspace_active_generation :: u32
  camera_reserved :: bool

definition frame_pool_power_on :: frame_pool_state where
  "frame_pool_power_on = \<lparr>workspace_generation = 0, workspace_active_generation = 0, camera_reserved = False\<rparr>"

section \<open>Operations\<close>

definition frame_pool_camera_reserve :: "frame_pool_state \<Rightarrow> bool \<times> frame_pool_state" where
  "frame_pool_camera_reserve s =
     (if camera_reserved s \<or> workspace_active_generation s \<noteq> 0 then (False, s)
      else (True, s\<lparr>camera_reserved := True\<rparr>))"

definition frame_pool_camera_release :: "frame_pool_state \<Rightarrow> frame_pool_state" where
  "frame_pool_camera_release s = s\<lparr>camera_reserved := False\<rparr>"

definition frame_pool_camera_slot :: "u8 \<Rightarrow> frame_pool_state \<Rightarrow> slot_ptr" where
  "frame_pool_camera_slot index s =
     (if \<not> camera_reserved s \<or> FRAME_POOL_CAMERA_SLOT_COUNT \<le> index then Null_ptr else Camera_slot index)"

text \<open>The token argument is an in-out pointer: \<open>None\<close> is a NULL pointer, and the result carries the token after
  the call.\<close>

definition frame_workspace_borrow ::
  "u32 \<Rightarrow> frame_workspace_borrow_t option \<Rightarrow> frame_pool_state \<Rightarrow> bool \<times> frame_workspace_borrow_t option \<times> frame_pool_state" where
  "frame_workspace_borrow minimum_size borrow s =
     (if borrow = None \<or> minimum_size = 0 \<or> frame_pool_camera_frame_bytes < minimum_size \<or> camera_reserved s \<or>
         workspace_active_generation s \<noteq> 0 \<or> workspace_generation s = - 1
      then (False, borrow, s)
      else let generation = workspace_generation s + 1 in
        (True, Some \<lparr>fw_data = Camera_slot 0, fw_size = frame_pool_camera_frame_bytes, fw_generation = generation\<rparr>,
         s\<lparr>workspace_generation := generation, workspace_active_generation := generation\<rparr>))"

definition frame_workspace_release ::
  "frame_workspace_borrow_t option \<Rightarrow> frame_pool_state \<Rightarrow> bool \<times> frame_workspace_borrow_t option \<times> frame_pool_state" where
  "frame_workspace_release borrow s = (case borrow of None \<Rightarrow> (False, None, s)
     | Some b \<Rightarrow>
       let valid = fw_generation b \<noteq> 0 \<and> fw_generation b = workspace_active_generation s \<and> fw_data b = Camera_slot 0 in
         (valid, Some FRAME_WORKSPACE_BORROW_NONE, if valid then s\<lparr>workspace_active_generation := 0\<rparr> else s))"

section \<open>Runs of calls\<close>

text \<open>Clients may copy and forge tokens, so a release may come with any token at all. The camera
  releases only what it has reserved, which is how \<open>camera_stream.c\<close> calls it; the model does not need it.\<close>

datatype frame_pool_call =
  Camera_reserve | Camera_release | Borrow u32 "frame_workspace_borrow_t option" | Release "frame_workspace_borrow_t option"

fun do_call :: "frame_pool_call \<Rightarrow> frame_pool_state \<Rightarrow> frame_pool_state" where
  "do_call Camera_reserve s = snd (frame_pool_camera_reserve s)"
| "do_call Camera_release s = frame_pool_camera_release s"
| "do_call (Borrow n b) s = snd (snd (frame_workspace_borrow n b s))"
| "do_call (Release b) s = snd (snd (frame_workspace_release b s))"

definition frame_pool_run :: "frame_pool_call list \<Rightarrow> frame_pool_state \<Rightarrow> frame_pool_state" where
  "frame_pool_run cs s = fold do_call cs s"

section \<open>The invariant\<close>

definition frame_pool_inv :: "frame_pool_state \<Rightarrow> bool" where
  "frame_pool_inv s \<longleftrightarrow> workspace_active_generation s \<in> {0, workspace_generation s} \<and>
     (camera_reserved s \<longrightarrow> workspace_active_generation s = 0)"

lemmas frame_pool_defs = frame_pool_camera_reserve_def frame_pool_camera_release_def frame_workspace_borrow_def
  frame_workspace_release_def Let_def

lemma do_call_inv [inv_intros]: "frame_pool_inv s \<Longrightarrow> frame_pool_inv (do_call c s)"
  by (cases c) (auto simp: frame_pool_defs frame_pool_inv_def split: option.splits)

lemma frame_pool_run_inv [inv_intros]: "frame_pool_inv s \<Longrightarrow> frame_pool_inv (frame_pool_run cs s)"
  unfolding frame_pool_run_def by (induction cs arbitrary: s) (auto intro: inv_intros)

lemma frame_pool_power_on_inv [inv_intros]: "frame_pool_inv frame_pool_power_on"
  by (simp add: frame_pool_inv_def frame_pool_power_on_def)

text \<open>Generations only grow, and a generation that is not the active one can only become active by being new.\<close>

definition token_dead :: "u32 \<Rightarrow> frame_pool_state \<Rightarrow> bool" where
  "token_dead g s \<longleftrightarrow> g \<le> workspace_generation s \<and> (g = 0 \<or> workspace_active_generation s \<noteq> g)"

lemma token_dead_call: "token_dead g s \<Longrightarrow> token_dead g (do_call c s)"
  using u32_succ_mono [of "workspace_generation s"]
  by (cases c) (auto simp: frame_pool_defs token_dead_def split: option.splits)

lemma token_dead_run: "token_dead g s \<Longrightarrow> token_dead g (frame_pool_run cs s)"
  unfolding frame_pool_run_def by (induction cs arbitrary: s) (auto intro: token_dead_call)

lemma token_dead_release:
  "token_dead (fw_generation b) s \<Longrightarrow> frame_workspace_release (Some b) s = (False, Some FRAME_WORKSPACE_BORROW_NONE, s)"
  by (auto simp: frame_workspace_release_def token_dead_def)

section \<open>The abstract pool\<close>

datatype pool_owner = Nobody | The_camera | Borrower nat

type_synonym abstract_pool = "pool_owner \<times> nat"

fun owner_of :: "frame_pool_state \<Rightarrow> abstract_pool" where
  "owner_of s = (if camera_reserved s then The_camera
     else if workspace_active_generation s \<noteq> 0 then Borrower (unat (workspace_active_generation s)) else Nobody,
     unat (workspace_generation s))"

text \<open>What a call promises: the camera and the borrowers get the slots only from nobody, a borrow issues
  the next number while there is one, and a release gives the slots back only with the number of the owner.\<close>

fun abstract_call :: "frame_pool_call \<Rightarrow> abstract_pool \<Rightarrow> abstract_pool" where
  "abstract_call Camera_reserve (own, n) = (if own = Nobody then The_camera else own, n)"
| "abstract_call Camera_release (own, n) = (if own = The_camera then Nobody else own, n)"
| "abstract_call (Borrow want b) (own, n) =
     (if own = Nobody \<and> b \<noteq> None \<and> want \<in> {1..614400} \<and> n + 1 < 2 ^ 32 then (Borrower (n + 1), n + 1) else (own, n))"
| "abstract_call (Release b) (own, n) =
     (case b of Some t \<Rightarrow> (if own = Borrower (unat (fw_generation t)) \<and> fw_data t = Camera_slot 0 then Nobody else own, n)
      | None \<Rightarrow> (own, n))"

lemma size_in_range: "want \<in> {1..614400} \<longleftrightarrow> want \<noteq> 0 \<and> \<not> frame_pool_camera_frame_bytes < (want :: u32)"
  by (auto simp: frame_pool_camera_frame_bytes_def CAMERA_MAX_FRAME_PIXELS_def word_le_nat_alt word_less_nat_alt unat_gt_0
      Suc_le_eq not_less)

lemma abstract_call_eq: "frame_pool_inv s \<Longrightarrow> owner_of (do_call c s) = abstract_call c (owner_of s)"
proof (cases c)
  case Camera_reserve
  then show ?thesis by (simp add: frame_pool_camera_reserve_def)
next
  case Camera_release
  moreover assume "frame_pool_inv s"
  ultimately show ?thesis by (auto simp: frame_pool_camera_release_def frame_pool_inv_def)
next
  case (Borrow want b)
  have g: "want = 0 \<or> frame_pool_camera_frame_bytes < want \<longleftrightarrow> want \<notin> {1..614400}" using size_in_range by blast
  have "(b = None \<or> want = 0 \<or> frame_pool_camera_frame_bytes < want \<or> camera_reserved s \<or>
         workspace_active_generation s \<noteq> 0 \<or> workspace_generation s = - 1) \<longleftrightarrow>
    \<not> (fst (owner_of s) = Nobody \<and> b \<noteq> None \<and> want \<in> {1..614400} \<and> snd (owner_of s) + 1 < 2 ^ 32)"
    unfolding disj_assoc [symmetric, of "want = 0"] g using u32_not_max_iff [of "workspace_generation s"] by auto
  then show ?thesis unfolding Borrow
    using u32_unat_succ [of "workspace_generation s"] u32_succ_nz [of "workspace_generation s"]
    by (cases "fst (owner_of s) = Nobody \<and> b \<noteq> None \<and> want \<in> {1..614400} \<and> snd (owner_of s) + 1 < 2 ^ 32")
       (auto simp: frame_workspace_borrow_def Let_def simp del: atLeastAtMost_iff split: if_splits)
next
  case (Release b)
  moreover assume "frame_pool_inv s"
  ultimately show ?thesis
    by (auto simp: frame_workspace_release_def frame_pool_inv_def Let_def word_unat_eq_iff split: option.splits)
qed

section \<open>Properties\<close>

text \<open>C25. The pool implements the abstract pool, which has one owner at a time: after any calls from power-on,
  with any tokens, copied or forged, the state that the code is in stands for the state that the abstract calls
  reach, so the camera slots and a workspace are never owned together, a workspace is lent to one token at a
  time, and a number is issued at most once.\<close>

theorem frame_pool_refines:
  "owner_of (frame_pool_run cs frame_pool_power_on) = fold abstract_call cs (Nobody, 0)"
proof (induction cs rule: rev_induct)
  case (snoc c cs)
  then show ?case
    using abstract_call_eq [OF frame_pool_run_inv [OF frame_pool_power_on_inv], of c cs]
    by (simp add: frame_pool_run_def del: owner_of.simps)
qed (simp add: frame_pool_run_def frame_pool_power_on_def)

text \<open>C16. A stale token is refused for ever: once a successful release has been made with a token, or with any copy of
  it, then after any further calls, later borrows and camera reservations among them, a release with that token
  answers no and changes nothing.\<close>

theorem frame_workspace_stale_token:
  assumes "s = frame_pool_run cs frame_pool_power_on" and "frame_workspace_release (Some b) s = (True, b', s')"
  shows "frame_workspace_release (Some b) (frame_pool_run cs' s') =
    (False, Some FRAME_WORKSPACE_BORROW_NONE, frame_pool_run cs' s')"
proof -
  have "frame_pool_inv s" using assms(1) by (auto intro: inv_intros)
  then have "token_dead (fw_generation b) s'"
    using assms(2) by (auto simp: frame_workspace_release_def token_dead_def frame_pool_inv_def Let_def)
  then show ?thesis by (intro token_dead_release token_dead_run)
qed

theorem frame_workspace_stale_token_witness:
  "\<exists>b b' s s' s''. frame_workspace_release (Some b) s = (True, b', s') \<and>
     frame_workspace_borrow 8 (Some b) s' = (True, Some (b\<lparr>fw_generation := 2\<rparr>), s'') \<and>
     frame_workspace_release (Some b) s'' = (False, Some FRAME_WORKSPACE_BORROW_NONE, s'')"
proof -
  let ?b = "\<lparr>fw_data = Camera_slot 0, fw_size = 614400, fw_generation = 1\<rparr>"
  let ?s = "frame_pool_run [Borrow 8 (Some FRAME_WORKSPACE_BORROW_NONE)] frame_pool_power_on"
  let ?s' = "\<lparr>workspace_generation = 1, workspace_active_generation = 0, camera_reserved = False\<rparr>"
  let ?s'' = "\<lparr>workspace_generation = 2, workspace_active_generation = 2, camera_reserved = False\<rparr>"
  note e = frame_pool_run_def frame_pool_defs frame_pool_power_on_def frame_pool_camera_frame_bytes_def CAMERA_MAX_FRAME_PIXELS_def
  have 1: "frame_workspace_release (Some ?b) ?s = (True, Some FRAME_WORKSPACE_BORROW_NONE, ?s')" by (simp add: e)
  have 2: "frame_workspace_borrow 8 (Some ?b) ?s' = (True, Some (?b\<lparr>fw_generation := 2\<rparr>), ?s'')" by (simp add: e)
  have 3: "frame_pool_run [Borrow 8 (Some ?b)] ?s' = ?s''" using 2 by (simp add: frame_pool_run_def)
  have "frame_workspace_release (Some ?b) ?s'' = (False, Some FRAME_WORKSPACE_BORROW_NONE, ?s'')"
    using frame_workspace_stale_token [OF refl 1, of "[Borrow 8 (Some ?b)]"] unfolding 3 .
  with 1 2 show ?thesis by blast
qed

end
