(* ===== verification/Capability_Core.thy ===== *)
theory Capability_Core
  imports Dristy_Prelude
begin

text \<open>
  The capability core, \<open>capabilities/capability_core.c\<close> with \<open>capability_provider.h\<close> and the public headers
  \<open>include/dristy/capability/common.h\<close>, \<open>owner.h\<close> and \<open>inventory.h\<close>: owners (applications) open with a list of
  grants, acquire leases on the capabilities of a fixed inventory of providers, validate and release them, and
  are closed with all their leases. Handles are pairs of a slot and a generation.

  The core is passed as a state. A NULL core is answered like a core that is not initialised, which the model
  has. The provider callbacks are C functions outside this file: they are parameters, functions of the
  provider's context and of a state \<open>'w\<close> of their own, which they may change; the core itself is not reachable
  from their arguments. The grant and inventory arrays are passed by reference and constant; the model holds
  their contents.
\<close>

section \<open>Results, versions and handles\<close>

type_synonym hk_result_t = int

definition HK_OK :: hk_result_t where [simp]: "HK_OK = 0"
definition HK_ERR_INVALID_ARGUMENT :: hk_result_t where [simp]: "HK_ERR_INVALID_ARGUMENT = - 1"
definition HK_ERR_CAPABILITY_ABSENT :: hk_result_t where [simp]: "HK_ERR_CAPABILITY_ABSENT = - 2"
definition HK_ERR_VERSION_INCOMPATIBLE :: hk_result_t where [simp]: "HK_ERR_VERSION_INCOMPATIBLE = - 3"
definition HK_ERR_FEATURE_UNAVAILABLE :: hk_result_t where [simp]: "HK_ERR_FEATURE_UNAVAILABLE = - 4"
definition HK_ERR_NOT_DECLARED :: hk_result_t where [simp]: "HK_ERR_NOT_DECLARED = - 5"
definition HK_ERR_BUSY :: hk_result_t where [simp]: "HK_ERR_BUSY = - 6"
definition HK_ERR_WRONG_OWNER :: hk_result_t where [simp]: "HK_ERR_WRONG_OWNER = - 7"
definition HK_ERR_STALE_HANDLE :: hk_result_t where [simp]: "HK_ERR_STALE_HANDLE = - 8"
definition HK_ERR_WRONG_CONTEXT :: hk_result_t where [simp]: "HK_ERR_WRONG_CONTEXT = - 9"
definition HK_ERR_INVALID_STATE :: hk_result_t where [simp]: "HK_ERR_INVALID_STATE = - 10"
definition HK_ERR_LIMIT :: hk_result_t where [simp]: "HK_ERR_LIMIT = - 14"
definition HK_ERR_INTERNAL :: hk_result_t where [simp]: "HK_ERR_INTERNAL = - 16"

datatype hk_version_t = Hk_version (v_major: u16) (v_minor: u16) (v_patch: u16) (v_reserved: u16)

record hk_owner_t =
  o_slot :: u32
  o_generation :: u32

record hk_lease_t =
  l_slot :: u32
  l_generation :: u32
  l_owner :: hk_owner_t
  l_capability_id :: u32

type_synonym hk_deadline_t = u64

record hk_capability_request_t =
  rq_struct_size :: u16
  rq_struct_version :: u16
  rq_id :: u32
  rq_minimum :: hk_version_t
  rq_maximum_exclusive :: hk_version_t
  rq_required_features :: u64
  rq_instance :: u16
  rq_reserved :: u16

definition HK_CAPABILITY_REQUEST_VERSION :: u16 where "HK_CAPABILITY_REQUEST_VERSION = 1"
definition sizeof_request :: u16 where "sizeof_request = 40"

definition HK_OWNER_NONE :: hk_owner_t where "HK_OWNER_NONE = \<lparr>o_slot = 0, o_generation = 0\<rparr>"
definition HK_LEASE_NONE :: hk_lease_t where
  "HK_LEASE_NONE = \<lparr>l_slot = 0, l_generation = 0, l_owner = HK_OWNER_NONE, l_capability_id = 0\<rparr>"

definition hk_owner_is_zero :: "hk_owner_t \<Rightarrow> bool" where
  "hk_owner_is_zero ow \<longleftrightarrow> o_slot ow = 0 \<and> o_generation ow = 0"

definition hk_lease_is_zero :: "hk_lease_t \<Rightarrow> bool" where
  "hk_lease_is_zero l \<longleftrightarrow> l_slot l = 0 \<and> l_generation l = 0 \<and> hk_owner_is_zero (l_owner l) \<and> l_capability_id l = 0"

section \<open>The inventory and the providers\<close>

record hk_capability_limit_t =
  lim_struct_size :: u16
  lim_struct_version :: u16
  lim_key :: u32
  lim_value :: u64

record hk_capability_info_t =
  in_struct_size :: u16
  in_struct_version :: u16
  in_id :: u32
  in_version :: hk_version_t
  in_features :: u64
  in_flags :: u32
  in_instance :: u16
  in_affinity_core :: u16
  in_limits :: "hk_capability_limit_t list option"
  in_limit_count :: u16
  in_reserved :: u16

definition HK_CAPABILITY_INFO_VERSION :: u16 where "HK_CAPABILITY_INFO_VERSION = 1"
definition HK_CAPABILITY_LIMIT_VERSION :: u16 where "HK_CAPABILITY_LIMIT_VERSION = 1"
definition HK_CAPABILITY_CORE_ANY :: u16 where "HK_CAPABILITY_CORE_ANY = - 1"
definition HK_CAPABILITY_FLAG_SHARED :: u32 where "HK_CAPABILITY_FLAG_SHARED = push_bit 0 1"
definition HK_CAPABILITY_FLAG_EXCLUSIVE :: u32 where "HK_CAPABILITY_FLAG_EXCLUSIVE = push_bit 1 1"
definition sizeof_info :: u16 where "sizeof_info = 48"
definition sizeof_limit :: u16 where "sizeof_limit = 16"

record ('c, 'w) hk_capability_provider_t =
  pr_context :: 'c
  pr_acquire :: "('c \<Rightarrow> hk_owner_t \<Rightarrow> 'w \<Rightarrow> hk_result_t \<times> 'w) option"
  pr_cleanup_lease :: "('c \<Rightarrow> hk_lease_t \<Rightarrow> hk_deadline_t \<Rightarrow> 'w \<Rightarrow> hk_result_t \<times> 'w) option"
  pr_cleanup :: "('c \<Rightarrow> hk_owner_t \<Rightarrow> hk_deadline_t \<Rightarrow> 'w \<Rightarrow> hk_result_t \<times> 'w) option"
  pr_cleanup_dispatch :: "('c \<Rightarrow> hk_owner_t \<Rightarrow> u16 \<Rightarrow> hk_deadline_t \<Rightarrow> 'w \<Rightarrow> hk_result_t \<times> 'w) option"
  pr_recover :: "('c \<Rightarrow> hk_deadline_t \<Rightarrow> 'w \<Rightarrow> hk_result_t \<times> 'w) option"
  pr_max_leases :: u16
  pr_reserved :: u16

definition HK_CAPABILITY_MAX_OWNERS :: nat where "HK_CAPABILITY_MAX_OWNERS = 16"
definition HK_CAPABILITY_MAX_LEASES :: nat where "HK_CAPABILITY_MAX_LEASES = 32"
definition HK_CAPABILITY_MAX_PROVIDERS :: nat where "HK_CAPABILITY_MAX_PROVIDERS = 16"
definition HK_CAPABILITY_MAX_GRANTS_PER_OWNER :: u16 where "HK_CAPABILITY_MAX_GRANTS_PER_OWNER = 16"

section \<open>The state of the core\<close>

record hk_capability_owner_slot_t =
  os_grants :: "hk_capability_request_t list"
  os_grant_count :: u16
  os_generation :: u32
  os_active :: bool
  os_retired :: bool

record hk_capability_lease_slot_t =
  ls_owner :: hk_owner_t
  ls_capability_id :: u32
  ls_generation :: u32
  ls_provider_index :: u16
  ls_active :: bool
  ls_retired :: bool

record hk_capability_provider_state_t =
  ps_active_leases :: u16
  ps_quarantined :: bool

record ('c, 'w) hk_capability_core_t =
  inventory :: "hk_capability_info_t list"
  providers :: "('c, 'w) hk_capability_provider_t option list"
  provider_count :: u16
  initialized :: bool
  owners :: "hk_capability_owner_slot_t list"
  leases :: "hk_capability_lease_slot_t list"
  provider_state :: "hk_capability_provider_state_t list"

text \<open>The core after \<open>memset(core, 0, sizeof(*core))\<close>.\<close>

definition core_zero :: "('c, 'w) hk_capability_core_t" where
  "core_zero = \<lparr>inventory = [], providers = [], provider_count = 0, initialized = False,
     owners = replicate HK_CAPABILITY_MAX_OWNERS
       \<lparr>os_grants = [], os_grant_count = 0, os_generation = 0, os_active = False, os_retired = False\<rparr>,
     leases = replicate HK_CAPABILITY_MAX_LEASES
       \<lparr>ls_owner = HK_OWNER_NONE, ls_capability_id = 0, ls_generation = 0, ls_provider_index = 0,
        ls_active = False, ls_retired = False\<rparr>,
     provider_state = replicate HK_CAPABILITY_MAX_PROVIDERS \<lparr>ps_active_leases = 0, ps_quarantined = False\<rparr>\<rparr>"

definition provider_at :: "('c, 'w) hk_capability_core_t \<Rightarrow> nat \<Rightarrow> ('c, 'w) hk_capability_provider_t" where
  "provider_at c i = the (providers c ! i)"

section \<open>Comparisons and checks\<close>

definition version_compare :: "hk_version_t \<Rightarrow> hk_version_t \<Rightarrow> int" where
  "version_compare l r =
     (if v_major l \<noteq> v_major r then (if v_major l < v_major r then - 1 else 1)
      else if v_minor l \<noteq> v_minor r then (if v_minor l < v_minor r then - 1 else 1)
      else if v_patch l \<noteq> v_patch r then (if v_patch l < v_patch r then - 1 else 1)
      else 0)"

definition version_is_valid :: "hk_version_t \<Rightarrow> bool" where
  "version_is_valid v \<longleftrightarrow> v_reserved v = 0"

definition deadline_is_valid :: "hk_deadline_t \<Rightarrow> bool" where
  "deadline_is_valid d \<longleftrightarrow> d \<noteq> - 1"

definition owner_equal :: "hk_owner_t \<Rightarrow> hk_owner_t \<Rightarrow> bool" where
  "owner_equal l r \<longleftrightarrow> o_slot l = o_slot r \<and> o_generation l = o_generation r"

text \<open>On success the slot that the C function returns through its pointer is the one that the handle names.\<close>

definition validate_owner :: "('c, 'w) hk_capability_core_t \<Rightarrow> hk_owner_t \<Rightarrow> hk_result_t" where
  "validate_owner c ow =
     (if \<not> initialized c then HK_ERR_INVALID_STATE
      else if HK_CAPABILITY_MAX_OWNERS \<le> unat (o_slot ow) \<or> o_generation ow = 0 then HK_ERR_STALE_HANDLE
      else let candidate = owners c ! unat (o_slot ow) in
        if \<not> os_active candidate \<or> os_generation candidate \<noteq> o_generation ow then HK_ERR_STALE_HANDLE else HK_OK)"

definition provider_compare :: "hk_capability_info_t \<Rightarrow> u32 \<Rightarrow> u16 \<Rightarrow> int" where
  "provider_compare info cap inst =
     (if in_id info \<noteq> cap then (if in_id info < cap then - 1 else 1)
      else if in_instance info \<noteq> inst then (if in_instance info < inst then - 1 else 1)
      else 0)"

text \<open>The loop of \<open>find_provider\<close> over the entries from \<open>index\<close> on; it stops at the first entry that is too large.\<close>

fun find_provider_from :: "nat \<Rightarrow> hk_capability_info_t list \<Rightarrow> u32 \<Rightarrow> u16 \<Rightarrow> int" where
  "find_provider_from index [] cap inst = - 1"
| "find_provider_from index (info # rest) cap inst =
     (let comparison = provider_compare info cap inst in
        if comparison = 0 then int index
        else if comparison > 0 then - 1
        else find_provider_from (index + 1) rest cap inst)"

definition find_provider :: "('c, 'w) hk_capability_core_t \<Rightarrow> u32 \<Rightarrow> u16 \<Rightarrow> int" where
  "find_provider c cap inst = find_provider_from 0 (take (unat (provider_count c)) (inventory c)) cap inst"

definition affinity_matches :: "hk_capability_info_t \<Rightarrow> u16 \<Rightarrow> bool" where
  "affinity_matches info current_core \<longleftrightarrow>
     in_affinity_core info = HK_CAPABILITY_CORE_ANY \<or> in_affinity_core info = current_core"

definition grant_allows :: "hk_capability_owner_slot_t \<Rightarrow> hk_capability_request_t \<Rightarrow> bool" where
  "grant_allows ow request = list_ex (\<lambda>grant.
     rq_id grant = rq_id request \<and> rq_instance grant = rq_instance request \<and>
     \<not> version_compare (rq_minimum request) (rq_minimum grant) < 0 \<and>
     \<not> 0 < version_compare (rq_maximum_exclusive request) (rq_maximum_exclusive grant) \<and>
     rq_required_features request AND NOT (rq_required_features grant) = 0)
     (take (unat (os_grant_count ow)) (os_grants ow))"

fun validate_request :: "hk_capability_request_t option \<Rightarrow> hk_result_t" where
  "validate_request None = HK_ERR_INVALID_ARGUMENT"
| "validate_request (Some rq) =
     (if rq_struct_size rq < sizeof_request \<or> rq_struct_version rq \<noteq> HK_CAPABILITY_REQUEST_VERSION \<or>
         rq_id rq = 0 \<or> rq_reserved rq \<noteq> 0 \<or> \<not> version_is_valid (rq_minimum rq) \<or>
         \<not> version_is_valid (rq_maximum_exclusive rq) \<or>
         0 \<le> version_compare (rq_minimum rq) (rq_maximum_exclusive rq)
      then HK_ERR_INVALID_ARGUMENT else HK_OK)"

section \<open>Retiring slots\<close>

definition retire_or_advance_owner :: "hk_capability_owner_slot_t \<Rightarrow> hk_capability_owner_slot_t" where
  "retire_or_advance_owner slot =
     (let s = slot\<lparr>os_active := False, os_grants := [], os_grant_count := 0\<rparr> in
        if os_generation s = - 1 then s\<lparr>os_retired := True\<rparr> else s\<lparr>os_generation := os_generation s + 1\<rparr>)"

definition retire_or_advance_lease :: "hk_capability_lease_slot_t \<Rightarrow> hk_capability_lease_slot_t" where
  "retire_or_advance_lease slot =
     (let s = slot\<lparr>ls_active := False, ls_owner := HK_OWNER_NONE, ls_capability_id := 0, ls_provider_index := 0\<rparr> in
        if ls_generation s = - 1 then s\<lparr>ls_retired := True\<rparr> else s\<lparr>ls_generation := ls_generation s + 1\<rparr>)"

text \<open>The end of both cleanup functions: the lease is uncounted and its slot retired, and a provider whose callback
  failed is quarantined.\<close>

definition quarantine :: "nat \<Rightarrow> ('c, 'w) hk_capability_core_t \<Rightarrow> ('c, 'w) hk_capability_core_t" where
  "quarantine p c = c\<lparr>provider_state := (provider_state c)[p := (provider_state c ! p)\<lparr>ps_quarantined := True\<rparr>]\<rparr>"

definition uncount :: "nat \<Rightarrow> ('c, 'w) hk_capability_core_t \<Rightarrow> ('c, 'w) hk_capability_core_t" where
  "uncount p c = (let ps = provider_state c ! p in
     if 0 < ps_active_leases ps
     then c\<lparr>provider_state := (provider_state c)[p := ps\<lparr>ps_active_leases := ps_active_leases ps - 1\<rparr>]\<rparr> else c)"

definition drop_lease :: "nat \<Rightarrow> hk_result_t \<Rightarrow> ('c, 'w) hk_capability_core_t \<Rightarrow> hk_result_t \<times> ('c, 'w) hk_capability_core_t" where
  "drop_lease i result c =
     (let p = unat (ls_provider_index (leases c ! i));
          c1 = uncount p c;
          c2 = c1\<lparr>leases := (leases c1)[i := retire_or_advance_lease (leases c1 ! i)]\<rparr>
      in if result \<noteq> HK_OK then (HK_ERR_INTERNAL, quarantine p c2) else (HK_OK, c2))"

definition cleanup_lease ::
  "('c, 'w) hk_capability_core_t \<Rightarrow> nat \<Rightarrow> hk_deadline_t \<Rightarrow> 'w \<Rightarrow> hk_result_t \<times> ('c, 'w) hk_capability_core_t \<times> 'w" where
  "cleanup_lease c i deadline w =
     (let slot = leases c ! i;
          pr = provider_at c (unat (ls_provider_index slot));
          lease = \<lparr>l_slot = of_nat i, l_generation = ls_generation slot, l_owner = ls_owner slot,
                   l_capability_id = ls_capability_id slot\<rparr>;
          (result, w') = (case pr_cleanup_lease pr of
              Some f \<Rightarrow> f (pr_context pr) lease deadline w
            | None \<Rightarrow> (case pr_cleanup pr of
                Some f \<Rightarrow> f (pr_context pr) (ls_owner slot) deadline w
              | None \<Rightarrow> (HK_OK, w)));
          (r, c') = drop_lease i result c
      in (r, c', w'))"

text \<open>\<open>the (pr_cleanup_dispatch pr)\<close> is a call through the pointer, which \<open>hk_capability_core_init\<close> has checked.\<close>

definition cleanup_lease_for_owner_close ::
  "('c, 'w) hk_capability_core_t \<Rightarrow> nat \<Rightarrow> u16 \<Rightarrow> hk_deadline_t \<Rightarrow> 'w \<Rightarrow> hk_result_t \<times> ('c, 'w) hk_capability_core_t \<times> 'w" where
  "cleanup_lease_for_owner_close c i current_core deadline w =
     (let slot = leases c ! i;
          p = unat (ls_provider_index slot);
          info = inventory c ! p;
          pr = provider_at c p;
          (result, w') = (case pr_cleanup pr of
              Some f \<Rightarrow>
                (if affinity_matches info current_core then f (pr_context pr) (ls_owner slot) deadline w
                 else the (pr_cleanup_dispatch pr) (pr_context pr) (ls_owner slot) (in_affinity_core info) deadline w)
            | None \<Rightarrow> (HK_OK, w));
          (r, c') = drop_lease i result c
      in (r, c', w'))"

section \<open>Public operations\<close>

definition limits_ok :: "hk_capability_info_t \<Rightarrow> bool" where
  "limits_ok info = list_all (\<lambda>k. let l = the (in_limits info) ! k in
     \<not> (lim_struct_size l < sizeof_limit \<or> lim_struct_version l \<noteq> HK_CAPABILITY_LIMIT_VERSION \<or> lim_key l = 0 \<or>
        0 < k \<and> lim_key l \<le> lim_key (the (in_limits info) ! (k - 1)))) [0..<unat (in_limit_count info)]"

definition entry_ok ::
  "hk_capability_info_t list \<Rightarrow> ('c, 'w) hk_capability_provider_t option list \<Rightarrow> nat \<Rightarrow> bool" where
  "entry_ok infos prs index =
     (let info = infos ! index;
          sharing = in_flags info AND (HK_CAPABILITY_FLAG_SHARED OR HK_CAPABILITY_FLAG_EXCLUSIVE)
      in \<not> (in_struct_size info < sizeof_info \<or> in_struct_version info \<noteq> HK_CAPABILITY_INFO_VERSION \<or>
            in_id info = 0 \<or> in_reserved info \<noteq> 0 \<or> \<not> version_is_valid (in_version info) \<or>
            0 < in_limit_count info \<and> in_limits info = None \<or>
            sharing \<noteq> HK_CAPABILITY_FLAG_SHARED \<and> sharing \<noteq> HK_CAPABILITY_FLAG_EXCLUSIVE \<or>
            prs ! index = None \<or>
            pr_max_leases (the (prs ! index)) = 0 \<or>
            in_affinity_core info \<noteq> HK_CAPABILITY_CORE_ANY \<and> pr_cleanup (the (prs ! index)) \<noteq> None \<and>
              pr_cleanup_dispatch (the (prs ! index)) = None \<or>
            pr_reserved (the (prs ! index)) \<noteq> 0 \<or>
            0 < index \<and> 0 \<le> provider_compare (infos ! (index - 1)) (in_id info) (in_instance info)) \<and>
         limits_ok info)"

text \<open>The arrays are \<open>None\<close> for NULL and have at least \<open>count\<close> elements otherwise; a NULL array with no elements is
  kept as the empty one.\<close>

definition hk_capability_core_init ::
  "hk_capability_info_t list option \<Rightarrow> ('c, 'w) hk_capability_provider_t option list option \<Rightarrow> u16 \<Rightarrow>
   ('c, 'w) hk_capability_core_t \<Rightarrow> hk_result_t \<times> ('c, 'w) hk_capability_core_t" where
  "hk_capability_core_init infos prs count c =
     (if of_nat HK_CAPABILITY_MAX_PROVIDERS < count \<or> 0 < count \<and> (infos = None \<or> prs = None)
      then (HK_ERR_INVALID_ARGUMENT, c)
      else if list_all (entry_ok (the infos) (the prs)) [0..<unat count]
      then (HK_OK, core_zero\<lparr>inventory := (case infos of None \<Rightarrow> [] | Some xs \<Rightarrow> xs),
              providers := (case prs of None \<Rightarrow> [] | Some xs \<Rightarrow> xs), provider_count := count, initialized := True\<rparr>)
      else (HK_ERR_INVALID_ARGUMENT, core_zero))"

definition hk_capability_core_owner_open ::
  "hk_capability_request_t list option \<Rightarrow> u16 \<Rightarrow> hk_owner_t option \<Rightarrow> ('c, 'w) hk_capability_core_t \<Rightarrow>
   hk_result_t \<times> hk_owner_t option \<times> ('c, 'w) hk_capability_core_t" where
  "hk_capability_core_owner_open grants grant_count ow c =
     (if \<not> initialized c \<or> ow = None \<or> HK_CAPABILITY_MAX_GRANTS_PER_OWNER < grant_count \<or> 0 < grant_count \<and> grants = None
      then (HK_ERR_INVALID_ARGUMENT, ow, c)
      else if list_ex (\<lambda>k. validate_request (Some (the grants ! k)) \<noteq> HK_OK) [0..<unat grant_count]
      then (HK_ERR_INVALID_ARGUMENT, Some HK_OWNER_NONE, c)
      else case find (\<lambda>i. \<not> (os_active (owners c ! i) \<or> os_retired (owners c ! i))) [0..<HK_CAPABILITY_MAX_OWNERS] of
        None \<Rightarrow> (HK_ERR_LIMIT, Some HK_OWNER_NONE, c)
      | Some i \<Rightarrow>
          let slot = owners c ! i;
              g = (if os_generation slot = 0 then 1 else os_generation slot)
          in (HK_OK, Some \<lparr>o_slot = of_nat i, o_generation = g\<rparr>,
              c\<lparr>owners := (owners c)[i := slot\<lparr>os_generation := g, os_grants := (case grants of None \<Rightarrow> [] | Some gs \<Rightarrow> gs),
                  os_grant_count := grant_count, os_active := True\<rparr>]\<rparr>))"

fun close_leases ::
  "nat list \<Rightarrow> hk_owner_t \<Rightarrow> u16 \<Rightarrow> hk_deadline_t \<Rightarrow> hk_result_t \<Rightarrow> ('c, 'w) hk_capability_core_t \<Rightarrow> 'w \<Rightarrow>
   hk_result_t \<times> ('c, 'w) hk_capability_core_t \<times> 'w" where
  "close_leases [] ow current_core deadline res c w = (res, c, w)"
| "close_leases (i # is) ow current_core deadline res c w =
     (if \<not> ls_active (leases c ! i) \<or> \<not> owner_equal (ls_owner (leases c ! i)) ow
      then close_leases is ow current_core deadline res c w
      else let (r, c', w') = cleanup_lease_for_owner_close c i current_core deadline w
        in close_leases is ow current_core deadline (if r \<noteq> HK_OK then HK_ERR_INTERNAL else res) c' w')"

definition hk_capability_core_owner_close ::
  "hk_owner_t \<Rightarrow> u16 \<Rightarrow> hk_deadline_t \<Rightarrow> ('c, 'w) hk_capability_core_t \<Rightarrow> 'w \<Rightarrow>
   hk_result_t \<times> ('c, 'w) hk_capability_core_t \<times> 'w" where
  "hk_capability_core_owner_close ow current_core deadline c w =
     (if \<not> deadline_is_valid deadline then (HK_ERR_INVALID_ARGUMENT, c, w)
      else if validate_owner c ow \<noteq> HK_OK then (validate_owner c ow, c, w)
      else let (res, c', w') = close_leases [0..<HK_CAPABILITY_MAX_LEASES] ow current_core deadline HK_OK c w;
               i = unat (o_slot ow)
        in (res, c'\<lparr>owners := (owners c')[i := retire_or_advance_owner (owners c' ! i)]\<rparr>, w'))"

text \<open>The checks of \<open>hk_capability_core_acquire\<close> up to the choice of the slot: the first error, or the provider
  and the lease slot.\<close>

definition acquire_target ::
  "hk_owner_t \<Rightarrow> hk_capability_request_t \<Rightarrow> u16 \<Rightarrow> ('c, 'w) hk_capability_core_t \<Rightarrow> hk_result_t + (nat \<times> nat)" where
  "acquire_target ow rq current_core c =
     (let found = find_provider c (rq_id rq) (rq_instance rq); p = nat found; info = inventory c ! p;
          ps = provider_state c ! p
      in if found < 0 then Inl HK_ERR_CAPABILITY_ABSENT
      else if \<not> affinity_matches info current_core then Inl HK_ERR_WRONG_CONTEXT
      else if version_compare (in_version info) (rq_minimum rq) < 0 \<or>
              0 \<le> version_compare (in_version info) (rq_maximum_exclusive rq) then Inl HK_ERR_VERSION_INCOMPATIBLE
      else if rq_required_features rq AND NOT (in_features info) \<noteq> 0 then Inl HK_ERR_FEATURE_UNAVAILABLE
      else if \<not> grant_allows (owners c ! unat (o_slot ow)) rq then Inl HK_ERR_NOT_DECLARED
      else if ps_quarantined ps then Inl HK_ERR_INVALID_STATE
      else if in_flags info AND HK_CAPABILITY_FLAG_EXCLUSIVE \<noteq> 0 \<and> 0 < ps_active_leases ps then Inl HK_ERR_BUSY
      else if pr_max_leases (provider_at c p) \<le> ps_active_leases ps then Inl HK_ERR_BUSY
      else case find (\<lambda>i. \<not> ls_active (leases c ! i) \<and> \<not> ls_retired (leases c ! i)) [0..<HK_CAPABILITY_MAX_LEASES] of
        None \<Rightarrow> Inl HK_ERR_LIMIT | Some i \<Rightarrow> Inr (p, i))"

definition add_lease ::
  "nat \<Rightarrow> nat \<Rightarrow> hk_owner_t \<Rightarrow> u32 \<Rightarrow> ('c, 'w) hk_capability_core_t \<Rightarrow> ('c, 'w) hk_capability_core_t" where
  "add_lease p i ow cap c =
     (let slot = leases c ! i;
          g = (if ls_generation slot = 0 then 1 else ls_generation slot);
          ps = provider_state c ! p
      in c\<lparr>leases := (leases c)[i := slot\<lparr>ls_generation := g, ls_owner := ow, ls_capability_id := cap,
             ls_provider_index := of_nat p, ls_active := True\<rparr>],
           provider_state := (provider_state c)[p := ps\<lparr>ps_active_leases := ps_active_leases ps + 1\<rparr>]\<rparr>)"

definition hk_capability_core_acquire ::
  "hk_owner_t \<Rightarrow> hk_capability_request_t option \<Rightarrow> u32 \<Rightarrow> u16 \<Rightarrow> hk_lease_t option \<Rightarrow> ('c, 'w) hk_capability_core_t \<Rightarrow> 'w \<Rightarrow>
   hk_result_t \<times> hk_lease_t option \<times> ('c, 'w) hk_capability_core_t \<times> 'w" where
  "hk_capability_core_acquire ow request expected_type current_core lease c w =
     (if lease = None then (HK_ERR_INVALID_ARGUMENT, None, c, w)
      else if validate_request request \<noteq> HK_OK \<or> expected_type = 0 \<or> expected_type \<noteq> rq_id (the request)
      then (HK_ERR_INVALID_ARGUMENT, Some HK_LEASE_NONE, c, w)
      else if validate_owner c ow \<noteq> HK_OK then (validate_owner c ow, Some HK_LEASE_NONE, c, w)
      else case acquire_target ow (the request) current_core c of
        Inl e \<Rightarrow> (e, Some HK_LEASE_NONE, c, w)
      | Inr (p, i) \<Rightarrow>
          let pr = provider_at c p;
              (result, w') = (case pr_acquire pr of None \<Rightarrow> (HK_OK, w) | Some f \<Rightarrow> f (pr_context pr) ow w)
          in if result \<noteq> HK_OK then (result, Some HK_LEASE_NONE, c, w')
             else let c' = add_lease p i ow (rq_id (the request)) c
               in (HK_OK, Some \<lparr>l_slot = of_nat i, l_generation = ls_generation (leases c' ! i), l_owner = ow,
                     l_capability_id = rq_id (the request)\<rparr>, c', w'))"

text \<open>On success the context that the C function returns through its pointer is the second component.\<close>

definition validate_lease ::
  "hk_owner_t \<Rightarrow> hk_lease_t option \<Rightarrow> u32 \<Rightarrow> u16 \<Rightarrow> bool \<Rightarrow> ('c, 'w) hk_capability_core_t \<Rightarrow> hk_result_t \<times> 'c option" where
  "validate_lease ow lease expected_type current_core allow_quarantined c =
     (if validate_owner c ow \<noteq> HK_OK then (validate_owner c ow, None)
      else case lease of None \<Rightarrow> (HK_ERR_STALE_HANDLE, None)
      | Some l \<Rightarrow>
        let slot = leases c ! unat (l_slot l); p = unat (ls_provider_index slot) in
        if hk_lease_is_zero l \<or> expected_type = 0 then (HK_ERR_STALE_HANDLE, None)
        else if \<not> owner_equal (l_owner l) ow then (HK_ERR_WRONG_OWNER, None)
        else if l_capability_id l \<noteq> expected_type then (HK_ERR_INVALID_ARGUMENT, None)
        else if HK_CAPABILITY_MAX_LEASES \<le> unat (l_slot l) \<or> l_generation l = 0 then (HK_ERR_STALE_HANDLE, None)
        else if \<not> ls_active slot \<or> ls_generation slot \<noteq> l_generation l \<or> \<not> owner_equal (ls_owner slot) ow \<or>
                ls_capability_id slot \<noteq> l_capability_id l then (HK_ERR_STALE_HANDLE, None)
        else if \<not> affinity_matches (inventory c ! p) current_core then (HK_ERR_WRONG_CONTEXT, None)
        else if \<not> allow_quarantined \<and> ps_quarantined (provider_state c ! p) then (HK_ERR_INVALID_STATE, None)
        else (HK_OK, Some (pr_context (provider_at c p))))"

definition hk_capability_core_validate_lease ::
  "hk_owner_t \<Rightarrow> hk_lease_t option \<Rightarrow> u32 \<Rightarrow> u16 \<Rightarrow> ('c, 'w) hk_capability_core_t \<Rightarrow> hk_result_t \<times> 'c option" where
  "hk_capability_core_validate_lease ow lease expected_type current_core c =
     validate_lease ow lease expected_type current_core False c"

definition hk_capability_core_quarantine_lease ::
  "hk_owner_t \<Rightarrow> hk_lease_t option \<Rightarrow> u32 \<Rightarrow> u16 \<Rightarrow> ('c, 'w) hk_capability_core_t \<Rightarrow>
   hk_result_t \<times> ('c, 'w) hk_capability_core_t" where
  "hk_capability_core_quarantine_lease ow lease expected_type current_core c =
     (let result = fst (validate_lease ow lease expected_type current_core True c) in
        if result \<noteq> HK_OK then (result, c)
        else (HK_OK, quarantine (unat (ls_provider_index (leases c ! unat (l_slot (the lease))))) c))"

definition hk_capability_core_release ::
  "hk_owner_t \<Rightarrow> u32 \<Rightarrow> u16 \<Rightarrow> hk_deadline_t \<Rightarrow> hk_lease_t option \<Rightarrow> ('c, 'w) hk_capability_core_t \<Rightarrow> 'w \<Rightarrow>
   hk_result_t \<times> hk_lease_t option \<times> ('c, 'w) hk_capability_core_t \<times> 'w" where
  "hk_capability_core_release ow expected_type current_core deadline lease c w =
     (if lease = None \<or> \<not> deadline_is_valid deadline then (HK_ERR_INVALID_ARGUMENT, lease, c, w)
      else if hk_lease_is_zero (the lease) then (HK_OK, lease, c, w)
      else let result = fst (validate_lease ow lease expected_type current_core True c) in
        if result \<noteq> HK_OK then (result, lease, c, w)
        else let (r, c', w') = cleanup_lease c (unat (l_slot (the lease))) deadline w
          in (r, Some HK_LEASE_NONE, c', w'))"

definition hk_capability_core_recover ::
  "u32 \<Rightarrow> u16 \<Rightarrow> u16 \<Rightarrow> hk_deadline_t \<Rightarrow> ('c, 'w) hk_capability_core_t \<Rightarrow> 'w \<Rightarrow>
   hk_result_t \<times> ('c, 'w) hk_capability_core_t \<times> 'w" where
  "hk_capability_core_recover cap inst current_core deadline c w =
     (if \<not> initialized c \<or> cap = 0 \<or> \<not> deadline_is_valid deadline then (HK_ERR_INVALID_ARGUMENT, c, w)
      else let found = find_provider c cap inst; p = nat found; ps = provider_state c ! p in
        if found < 0 then (HK_ERR_CAPABILITY_ABSENT, c, w)
        else if \<not> affinity_matches (inventory c ! p) current_core then (HK_ERR_WRONG_CONTEXT, c, w)
        else if \<not> ps_quarantined ps then (HK_OK, c, w)
        else if 0 < ps_active_leases ps then (HK_ERR_BUSY, c, w)
        else case pr_recover (provider_at c p) of
          None \<Rightarrow> (HK_ERR_INVALID_STATE, c, w)
        | Some f \<Rightarrow>
            let (result, w') = f (pr_context (provider_at c p)) deadline w
            in (result,
                if result = HK_OK
                then c\<lparr>provider_state := (provider_state c)[p := (provider_state c ! p)\<lparr>ps_quarantined := False\<rparr>]\<rparr>
                else c, w'))"

definition hk_capability_core_inventory ::
  "('c, 'w) hk_capability_core_t \<Rightarrow> hk_capability_info_t list option \<times> u16" where
  "hk_capability_core_inventory c =
     (if initialized c then (Some (inventory c), provider_count c) else (None, 0))"

section \<open>Orders\<close>

text \<open>The comparison of versions is that of a linear order, with the reserved field last; valid versions have none.\<close>

instantiation hk_version_t :: linorder
begin

definition less_eq_hk_version_t :: "hk_version_t \<Rightarrow> hk_version_t \<Rightarrow> bool" where
  "less_eq_hk_version_t l r \<longleftrightarrow> v_major l < v_major r \<or> v_major l = v_major r \<and> (v_minor l < v_minor r \<or> v_minor l = v_minor r \<and>
     (v_patch l < v_patch r \<or> v_patch l = v_patch r \<and> v_reserved l \<le> v_reserved r))"

definition less_hk_version_t :: "hk_version_t \<Rightarrow> hk_version_t \<Rightarrow> bool" where
  "less_hk_version_t l r \<longleftrightarrow> l \<le> r \<and> \<not> r \<le> (l :: hk_version_t)"

instance
  by standard (auto simp: less_eq_hk_version_t_def less_hk_version_t_def hk_version_t.expand)

end

lemma version_compare_less:
  "version_is_valid l \<Longrightarrow> version_is_valid r \<Longrightarrow> version_compare l r < 0 \<longleftrightarrow> l < r"
  by (auto simp: version_compare_def version_is_valid_def less_eq_hk_version_t_def less_hk_version_t_def)

lemma version_compare_greater:
  "version_is_valid l \<Longrightarrow> version_is_valid r \<Longrightarrow> 0 < version_compare l r \<longleftrightarrow> r < l"
  by (auto simp: version_compare_def version_is_valid_def less_eq_hk_version_t_def less_hk_version_t_def)

lemma provider_compare_zero [simp]: "provider_compare info cap inst = 0 \<longleftrightarrow> in_id info = cap \<and> in_instance info = inst"
  by (simp add: provider_compare_def)

lemma provider_compare_self [simp]: "provider_compare info (in_id info) (in_instance info) = 0"
  by simp

lemma provider_compare_trans:
  "provider_compare a (in_id b) (in_instance b) < 0 \<Longrightarrow> provider_compare b cap inst < 0 \<Longrightarrow> provider_compare a cap inst < 0"
  by (auto simp: provider_compare_def split: if_splits)

lemma provider_compare_sym:
  "0 < provider_compare a (in_id b) (in_instance b) \<longleftrightarrow> provider_compare b (in_id a) (in_instance a) < 0"
  by (auto simp: provider_compare_def)

section \<open>The lookup of a provider\<close>

lemma find_provider_from_hit:
  "find_provider_from k xs cap inst \<ge> 0 \<Longrightarrow>
    \<exists>j < length xs. find_provider_from k xs cap inst = int (k + j) \<and> in_id (xs ! j) = cap \<and> in_instance (xs ! j) = inst"
proof (induction k xs cap inst rule: find_provider_from.induct)
  case (2 k info rest cap inst)
  consider "provider_compare info cap inst = 0" | "provider_compare info cap inst < 0" | "provider_compare info cap inst > 0"
    by linarith
  then show ?case
  proof cases
    case 2
    with "2.prems" have "0 \<le> find_provider_from (k + 1) rest cap inst" by (auto simp: Let_def split: if_splits)
    have "\<exists>j<length rest. find_provider_from (k + 1) rest cap inst = int (k + 1 + j) \<and> in_id (rest ! j) = cap \<and>
        in_instance (rest ! j) = inst"
      by (rule "2.IH" [OF refl _ _ \<open>0 \<le> find_provider_from (k + 1) rest cap inst\<close>]) (use 2 in auto)
    then obtain j where "j < length rest" "find_provider_from (k + 1) rest cap inst = int (k + 1 + j)"
      "in_id (rest ! j) = cap" "in_instance (rest ! j) = inst" by blast
    then show ?thesis using 2 by (intro exI [of _ "Suc j"]) (auto simp: Let_def simp del: provider_compare_zero)
  qed (use "2.prems" in \<open>auto simp: Let_def split: if_splits\<close>)
qed simp

definition sorted_entries :: "hk_capability_info_t list \<Rightarrow> bool" where
  "sorted_entries xs \<longleftrightarrow> sorted_wrt (\<lambda>a b. provider_compare a (in_id b) (in_instance b) < 0) xs"

lemma find_provider_from_miss:
  assumes "sorted_entries xs" and "find_provider_from k xs cap inst < 0" and "e \<in> set xs"
  shows "\<not> (in_id e = cap \<and> in_instance e = inst)"
  using assms
proof (induction k xs cap inst rule: find_provider_from.induct)
  case (2 k info rest cap inst)
  have below: "provider_compare info (in_id b) (in_instance b) < 0" if "b \<in> set rest" for b
    using "2.prems"(1) that by (simp add: sorted_entries_def)
  show ?case
  proof (cases "0 < provider_compare info cap inst")
    case True
    show ?thesis
    proof
      assume e: "in_id e = cap \<and> in_instance e = inst"
      with True have "e \<in> set rest" using "2.prems"(3) by auto
      from below [OF this] e True show False by simp
    qed
  next
    case False
    have nz: "provider_compare info cap inst \<noteq> 0" using "2.prems"(2) by (auto simp: Let_def)
    have *: "provider_compare info cap inst < 0" using False nz by linarith
    have **: "find_provider_from (k + 1) rest cap inst < 0" using "2.prems"(2) False nz by (simp add: Let_def del: provider_compare_zero)
    show ?thesis
    proof (cases "e = info")
      case True then show ?thesis using nz by simp
    next
      case f: False
      then have "e \<in> set rest" using "2.prems"(3) by simp
      moreover have "sorted_entries rest" using "2.prems"(1) by (simp add: sorted_entries_def)
      ultimately show ?thesis using "2.IH" [OF refl nz _ _ **] False by simp
    qed
  qed
qed simp

lemma sorted_entries_adjacent:
  assumes "\<And>i. 0 < i \<Longrightarrow> i < length xs \<Longrightarrow> provider_compare (xs ! (i - 1)) (in_id (xs ! i)) (in_instance (xs ! i)) < 0"
  shows "sorted_entries xs"
proof -
  have "transp (\<lambda>a b. provider_compare a (in_id b) (in_instance b) < 0)"
    by (rule transpI) (rule provider_compare_trans)
  from sorted_wrt_iff_nth_Suc_transp [OF this, of xs] assms [of "Suc i" for i] show ?thesis by (simp add: sorted_entries_def)
qed

section \<open>The invariant\<close>

definition lease_count :: "nat \<Rightarrow> ('c, 'w) hk_capability_core_t \<Rightarrow> nat" where
  "lease_count p c = length (filter (\<lambda>l. ls_active l \<and> unat (ls_provider_index l) = p) (leases c))"

text \<open>What \<open>hk_capability_core_init\<close> establishes and no operation changes.\<close>

definition cap_static :: "('c, 'w) hk_capability_core_t \<Rightarrow> bool" where
  "cap_static c \<longleftrightarrow> initialized c \<and> unat (provider_count c) \<le> 16 \<and>
     list_all (entry_ok (inventory c) (providers c)) [0..<unat (provider_count c)] \<and>
     unat (provider_count c) \<le> length (inventory c) \<and>
     length (owners c) = 16 \<and> length (leases c) = 32 \<and> length (provider_state c) = 16"

definition lease_wf :: "('c, 'w) hk_capability_core_t \<Rightarrow> hk_capability_lease_slot_t \<Rightarrow> bool" where
  "lease_wf c l \<longleftrightarrow> (ls_active l \<longrightarrow> \<not> ls_retired l \<and> ls_generation l \<noteq> 0 \<and>
     unat (ls_provider_index l) < unat (provider_count c) \<and>
     ls_capability_id l = in_id (inventory c ! unat (ls_provider_index l)) \<and>
     validate_owner c (ls_owner l) = HK_OK)"

definition counts_ok :: "('c, 'w) hk_capability_core_t \<Rightarrow> bool" where
  "counts_ok c \<longleftrightarrow> (\<forall>p < 16. unat (ps_active_leases (provider_state c ! p)) = lease_count p c)"

definition exclusive :: "hk_capability_info_t \<Rightarrow> bool" where
  "exclusive info \<longleftrightarrow> in_flags info AND HK_CAPABILITY_FLAG_EXCLUSIVE \<noteq> 0"

definition sharing_ok :: "('c, 'w) hk_capability_core_t \<Rightarrow> bool" where
  "sharing_ok c \<longleftrightarrow> (\<forall>p < unat (provider_count c). lease_count p c \<le> unat (pr_max_leases (provider_at c p)) \<and>
     (exclusive (inventory c ! p) \<longrightarrow> lease_count p c \<le> 1))"

definition cap_inv :: "('c, 'w) hk_capability_core_t \<Rightarrow> bool" where
  "cap_inv c \<longleftrightarrow> cap_static c \<and> (\<forall>l \<in> set (leases c). lease_wf c l) \<and> counts_ok c \<and> sharing_ok c"

lemma cap_invD:
  assumes "cap_inv c"
  shows "initialized c" "unat (provider_count c) \<le> 16" "length (owners c) = 16" "length (leases c) = 32"
    "length (provider_state c) = 16" "\<And>i. i < unat (provider_count c) \<Longrightarrow> entry_ok (inventory c) (providers c) i"
    "\<And>i. i < 32 \<Longrightarrow> lease_wf c (leases c ! i)" "counts_ok c" "sharing_ok c" "cap_static c"
  using assms by (auto simp: cap_inv_def cap_static_def list_all_iff)

text \<open>Changes of the provider states that keep the counters.\<close>

definition same_counters :: "hk_capability_provider_state_t list \<Rightarrow> hk_capability_provider_state_t list \<Rightarrow> bool" where
  "same_counters xs ys \<longleftrightarrow> map ps_active_leases xs = map ps_active_leases ys"

lemma same_counters_quarantined: "same_counters (xs[p := (xs ! p)\<lparr>ps_quarantined := b\<rparr>]) xs"
  by (cases "p < length xs") (auto simp: same_counters_def map_update intro: nth_equalityI list_update_same_conv [THEN iffD2])

lemma validate_owner_provider_state [simp]: "validate_owner (c\<lparr>provider_state := ps\<rparr>) ow = validate_owner c ow"
  "validate_owner (c\<lparr>leases := ls\<rparr>) ow = validate_owner c ow"
  by (simp_all add: validate_owner_def)

lemma lease_count_frame [simp]: "lease_count p (c\<lparr>provider_state := ps\<rparr>) = lease_count p c"
  "lease_count p (c\<lparr>owners := os\<rparr>) = lease_count p c"
  by (simp_all add: lease_count_def)

lemma provider_at_frame [simp]: "provider_at (c\<lparr>provider_state := ps\<rparr>) p = provider_at c p"
  "provider_at (c\<lparr>leases := ls\<rparr>) p = provider_at c p" "provider_at (c\<lparr>owners := os\<rparr>) p = provider_at c p"
  by (simp_all add: provider_at_def)

lemma lease_wf_frame [simp]: "lease_wf (c\<lparr>provider_state := ps\<rparr>) l = lease_wf c l" "lease_wf (c\<lparr>leases := ls\<rparr>) l = lease_wf c l"
  by (simp_all add: lease_wf_def)

lemma cap_inv_same_counters:
  assumes "cap_inv c" and "same_counters ps (provider_state c)"
  shows "cap_inv (c\<lparr>provider_state := ps\<rparr>)"
proof -
  have l: "length ps = length (provider_state c)" using arg_cong [OF assms(2) [unfolded same_counters_def], of length] by simp
  have "ps_active_leases (ps ! p) = ps_active_leases (provider_state c ! p)" if "p < 16" for p
    using that l cap_invD(5) [OF assms(1)] arg_cong [OF assms(2) [unfolded same_counters_def], of "\<lambda>xs. xs ! p"] by simp
  then show ?thesis using assms(1) l by (simp add: cap_inv_def cap_static_def counts_ok_def sharing_ok_def)
qed

lemma cap_inv_quarantine [inv_intros]: "cap_inv c \<Longrightarrow> cap_inv (quarantine p c)"
  unfolding quarantine_def by (rule cap_inv_same_counters) (auto intro: same_counters_quarantined)

text \<open>A lease slot and the counter of one provider change together.\<close>

lemma lease_count_update:
  "i < length (leases c) \<Longrightarrow> lease_count p (c\<lparr>leases := (leases c)[i := l]\<rparr>) +
     (if ls_active (leases c ! i) \<and> unat (ls_provider_index (leases c ! i)) = p then 1 else 0) =
   lease_count p c + (if ls_active l \<and> unat (ls_provider_index l) = p then 1 else 0)"
  unfolding lease_count_def using filter_length_update [of i "leases c" "\<lambda>l. ls_active l \<and> unat (ls_provider_index l) = p" l] by simp

lemma retired_slot [simp]: "\<not> ls_active (retire_or_advance_lease l)" "\<not> os_active (retire_or_advance_owner s)"
  by (simp_all add: retire_or_advance_lease_def retire_or_advance_owner_def Let_def)

lemma cap_inv_update:
  assumes "cap_inv c" and "lease_wf c l" and "length ps = 16" and "i < 32"
    and "\<And>p. p < 16 \<Longrightarrow> unat (ps_active_leases (ps ! p)) = lease_count p (c\<lparr>leases := (leases c)[i := l]\<rparr>)"
    and "sharing_ok (c\<lparr>leases := (leases c)[i := l]\<rparr>)"
  shows "cap_inv (c\<lparr>leases := (leases c)[i := l], provider_state := ps\<rparr>)"
proof -
  have "\<forall>l' \<in> set ((leases c)[i := l]). lease_wf c l'"
    using assms(1,2) set_update_subset_insert [of "leases c" i l] by (auto simp: cap_inv_def)
  moreover have "cap_static (c\<lparr>leases := (leases c)[i := l], provider_state := ps\<rparr>)"
    using cap_invD(10) [OF assms(1)] assms(3) by (simp add: cap_static_def)
  ultimately show ?thesis using assms(5,6) by (simp add: cap_inv_def counts_ok_def sharing_ok_def)
qed

lemma lease_wf_inactive [simp]: "\<not> ls_active l \<Longrightarrow> lease_wf c l"
  by (simp add: lease_wf_def)

lemma active_leaseD:
  assumes "cap_inv c" and "i < 32" and "ls_active (leases c ! i)"
  shows "unat (ls_provider_index (leases c ! i)) < unat (provider_count c)" "unat (ls_provider_index (leases c ! i)) < 16"
    "0 < lease_count (unat (ls_provider_index (leases c ! i))) c" "\<not> ls_retired (leases c ! i)" "ls_generation (leases c ! i) \<noteq> 0"
    "ls_capability_id (leases c ! i) = in_id (inventory c ! unat (ls_provider_index (leases c ! i)))"
    "validate_owner c (ls_owner (leases c ! i)) = HK_OK"
proof -
  note d = cap_invD(7) [OF assms(1,2)] cap_invD(2,4) [OF assms(1)]
  show p: "unat (ls_provider_index (leases c ! i)) < unat (provider_count c)" "\<not> ls_retired (leases c ! i)" "ls_generation (leases c ! i) \<noteq> 0"
    "ls_capability_id (leases c ! i) = in_id (inventory c ! unat (ls_provider_index (leases c ! i)))"
    "validate_owner c (ls_owner (leases c ! i)) = HK_OK"
    using d(1) assms(3) by (simp_all add: lease_wf_def)
  then show "unat (ls_provider_index (leases c ! i)) < 16" using d by simp
  have "leases c ! i \<in> set (filter (\<lambda>l. ls_active l \<and> unat (ls_provider_index l) = unat (ls_provider_index (leases c ! i))) (leases c))"
    using assms d by simp
  then show "0 < lease_count (unat (ls_provider_index (leases c ! i))) c" unfolding lease_count_def by (metis length_pos_if_in_set)
qed

lemma lease_count_drop:
  assumes "i < length (leases c)" and "ls_active (leases c ! i)" and "\<not> ls_active l"
  shows "lease_count p (c\<lparr>leases := (leases c)[i := l]\<rparr>) =
    lease_count p c - (if unat (ls_provider_index (leases c ! i)) = p then 1 else 0)"
  using lease_count_update [OF assms(1), of p l] assms(2,3) by (auto split: if_splits)

lemma lease_count_drop_le:
  assumes "i < length (leases c)" and "\<not> ls_active l"
  shows "lease_count p (c\<lparr>leases := (leases c)[i := l]\<rparr>) \<le> lease_count p c"
  using lease_count_update [OF assms(1), of p l] assms(2) by simp

lemma unat_dec: "0 < (w :: 'a::len word) \<Longrightarrow> unat (w - 1) = unat w - 1"
  by (simp add: unat_minus_one unat_gt_0 word_gt_0)

text \<open>What dropping a lease leaves: the slot is retired, the counter of its provider is one less, and the
  provider is quarantined when its callback failed.\<close>

lemma drop_lease_eq:
  assumes "cap_inv c" and "i < 32" and "ls_active (leases c ! i)"
  shows "leases (snd (drop_lease i r c)) = (leases c)[i := retire_or_advance_lease (leases c ! i)]"
    "owners (snd (drop_lease i r c)) = owners c" "inventory (snd (drop_lease i r c)) = inventory c"
    "providers (snd (drop_lease i r c)) = providers c" "provider_count (snd (drop_lease i r c)) = provider_count c"
    "initialized (snd (drop_lease i r c)) = initialized c"
    "fst (drop_lease i r c) = (if r = HK_OK then HK_OK else HK_ERR_INTERNAL)"
  by (simp_all add: drop_lease_def Let_def quarantine_def uncount_def)

lemma record_order: "(c :: ('c, 'w) hk_capability_core_t)\<lparr>provider_state := ps, leases := ls\<rparr> = c\<lparr>leases := ls, provider_state := ps\<rparr>"
  by simp

lemma cap_inv_drop [inv_intros]:
  assumes "cap_inv c" and "i < 32" and "ls_active (leases c ! i)"
  shows "cap_inv (snd (drop_lease i r c))"
proof -
  let ?p = "unat (ls_provider_index (leases c ! i))"
  let ?l = "retire_or_advance_lease (leases c ! i)"
  let ?ps = "(provider_state c)[?p := (provider_state c ! ?p)\<lparr>ps_active_leases := ps_active_leases (provider_state c ! ?p) - 1\<rparr>]"
  note d = cap_invD [OF assms(1)] and a = active_leaseD [OF assms]
  have pos: "0 < ps_active_leases (provider_state c ! ?p)"
    using a(2,3) d(8) by (metis counts_ok_def unat_gt_0 word_gt_0)
  have len: "i < length (leases c)" using d(4) assms(2) by simp
  note drop = lease_count_drop [OF len assms(3), of ?l, simplified]
  have "cap_inv (c\<lparr>leases := (leases c)[i := ?l], provider_state := ?ps\<rparr>)"
  proof (rule cap_inv_update [OF assms(1) _ _ assms(2)])
    show "unat (ps_active_leases (?ps ! p)) = lease_count p (c\<lparr>leases := (leases c)[i := ?l]\<rparr>)" if "p < 16" for p
      using that d(5,8) unat_dec [OF pos] a(2) by (auto simp: drop counts_ok_def nth_list_update)
    show "sharing_ok (c\<lparr>leases := (leases c)[i := ?l]\<rparr>)"
      using d(9) lease_count_drop_le [OF len, of ?l, simplified] by (fastforce simp: sharing_ok_def intro: le_trans)
  qed (use d(5) in simp_all)
  then have "cap_inv ((uncount ?p c)\<lparr>leases := (leases (uncount ?p c))[i := retire_or_advance_lease (leases (uncount ?p c) ! i)]\<rparr>)"
    using pos by (simp add: uncount_def Let_def record_order)
  then show ?thesis by (simp add: drop_lease_def Let_def cap_inv_quarantine)
qed

lemma cap_inv_add [inv_intros]:
  assumes "cap_inv c" and "i < 32" and "\<not> ls_active (leases c ! i)" and "\<not> ls_retired (leases c ! i)"
    and "p < unat (provider_count c)" and "validate_owner c ow = HK_OK"
    and "exclusive (inventory c ! p) \<Longrightarrow> ps_active_leases (provider_state c ! p) = 0"
    and "ps_active_leases (provider_state c ! p) < pr_max_leases (provider_at c p)"
  shows "cap_inv (add_lease p i ow (in_id (inventory c ! p)) c)"
proof -
  let ?g = "if ls_generation (leases c ! i) = 0 then 1 else ls_generation (leases c ! i)"
  let ?l = "(leases c ! i)\<lparr>ls_generation := ?g, ls_owner := ow, ls_capability_id := in_id (inventory c ! p),
    ls_provider_index := of_nat p, ls_active := True\<rparr>"
  let ?ps = "(provider_state c)[p := (provider_state c ! p)\<lparr>ps_active_leases := ps_active_leases (provider_state c ! p) + 1\<rparr>]"
  note d = cap_invD [OF assms(1)]
  have p: "p < 16" "unat (of_nat p :: u16) = p" using assms(5) d(2) by (simp_all add: unat_of_nat_lt)
  have len: "i < length (leases c)" using d(4) assms(2) by simp
  have add: "lease_count q (c\<lparr>leases := (leases c)[i := ?l]\<rparr>) = lease_count q c + (if p = q then 1 else 0)" for q
    using lease_count_update [OF len, of q ?l] assms(3) p by simp
  have n: "unat (ps_active_leases (provider_state c ! p)) = lease_count p c" using d(8) p by (simp add: counts_ok_def)
  have le: "lease_count p c < unat (pr_max_leases (provider_at c p))" using assms(8) n by (simp add: word_less_nat_alt)
  then have "lease_count p c + 1 < 2 ^ 16" using unsigned_less [of "pr_max_leases (provider_at c p)", where ?'a = nat] by simp
  then have inc: "unat (ps_active_leases (provider_state c ! p) + 1) = lease_count p c + 1"
    using n by (simp add: unat_word_ariths)
  have "cap_inv (c\<lparr>leases := (leases c)[i := ?l], provider_state := ?ps\<rparr>)"
  proof (rule cap_inv_update [OF assms(1) _ _ assms(2)])
    show "unat (ps_active_leases (?ps ! q)) = lease_count q (c\<lparr>leases := (leases c)[i := ?l]\<rparr>)" if "q < 16" for q
      using that d(5,8) inc p unfolding add by (auto simp: counts_ok_def nth_list_update)
    show "sharing_ok (c\<lparr>leases := (leases c)[i := ?l]\<rparr>)"
      using d(9) le assms(7) n unfolding sharing_ok_def add by auto
    show "lease_wf c ?l" using assms(4-6) p by (simp add: lease_wf_def)
  qed (use d(5) in simp)
  then show ?thesis by (simp add: add_lease_def Let_def)
qed

section \<open>The operations keep the invariant\<close>

lemma cap_sorted: "cap_inv c \<Longrightarrow> sorted_entries (take (unat (provider_count c)) (inventory c))"
proof (rule sorted_entries_adjacent)
  fix i assume "cap_inv c" and i: "0 < i" "i < length (take (unat (provider_count c)) (inventory c))"
  then have "entry_ok (inventory c) (providers c) i" by (simp add: cap_invD(6))
  then show "provider_compare (take (unat (provider_count c)) (inventory c) ! (i - 1))
      (in_id (take (unat (provider_count c)) (inventory c) ! i)) (in_instance (take (unat (provider_count c)) (inventory c) ! i)) < 0"
    using i less_imp_diff_less [of i "unat (provider_count c)" 1] by (simp add: entry_ok_def Let_def)
qed

lemma find_provider_hit:
  assumes "\<not> find_provider c cap inst < 0"
  shows "nat (find_provider c cap inst) < unat (provider_count c)" "in_id (inventory c ! nat (find_provider c cap inst)) = cap"
    "in_instance (inventory c ! nat (find_provider c cap inst)) = inst"
proof -
  from assms have "find_provider c cap inst \<ge> 0" by simp
  from find_provider_from_hit [OF this [unfolded find_provider_def]] obtain j where "j < length (take (unat (provider_count c)) (inventory c))"
    "find_provider c cap inst = int j" "in_id (take (unat (provider_count c)) (inventory c) ! j) = cap"
    "in_instance (take (unat (provider_count c)) (inventory c) ! j) = inst"
    unfolding find_provider_def by auto
  then show "nat (find_provider c cap inst) < unat (provider_count c)" "in_id (inventory c ! nat (find_provider c cap inst)) = cap"
    "in_instance (inventory c ! nat (find_provider c cap inst)) = inst" by simp_all
qed

lemma find_upt_Some: "find P [0..<n] = Some i \<Longrightarrow> i < n \<and> P i \<and> (\<forall>j<i. \<not> P j)"
  by (auto simp: find_Some_iff)

lemma acquire_targetD:
  assumes "acquire_target ow rq cc c = Inr (p, i)"
  shows "p = nat (find_provider c (rq_id rq) (rq_instance rq))" "\<not> find_provider c (rq_id rq) (rq_instance rq) < 0"
    "affinity_matches (inventory c ! p) cc"
    "\<not> version_compare (in_version (inventory c ! p)) (rq_minimum rq) < 0"
    "version_compare (in_version (inventory c ! p)) (rq_maximum_exclusive rq) < 0"
    "rq_required_features rq AND NOT (in_features (inventory c ! p)) = 0" "grant_allows (owners c ! unat (o_slot ow)) rq"
    "\<not> ps_quarantined (provider_state c ! p)"
    "exclusive (inventory c ! p) \<Longrightarrow> ps_active_leases (provider_state c ! p) = 0"
    "ps_active_leases (provider_state c ! p) < pr_max_leases (provider_at c p)"
    "i < 32" "\<not> ls_active (leases c ! i)" "\<not> ls_retired (leases c ! i)"
  using assms
  by (auto simp: acquire_target_def Let_def exclusive_def not_le not_less word_gt_0 HK_CAPABILITY_MAX_LEASES_def
      dest: find_upt_Some split: if_splits option.splits)

lemma acquire_target_provider:
  assumes "acquire_target ow rq cc c = Inr (p, i)"
  shows "p < unat (provider_count c)" "in_id (inventory c ! p) = rq_id rq" "in_instance (inventory c ! p) = rq_instance rq"
  using acquire_targetD(1) [OF assms] find_provider_hit [OF acquire_targetD(2) [OF assms]] by simp_all

lemma cap_inv_init:
  assumes "hk_capability_core_init infos prs count c = (HK_OK, c')" and "\<forall>xs. infos = Some xs \<longrightarrow> unat count \<le> length xs"
  shows "cap_inv c'"
proof -
  have c: "\<not> of_nat HK_CAPABILITY_MAX_PROVIDERS < count" "0 < count \<longrightarrow> infos \<noteq> None \<and> prs \<noteq> None"
    "list_all (entry_ok (the infos) (the prs)) [0..<unat count]"
    and c': "c' = core_zero\<lparr>inventory := (case infos of None \<Rightarrow> [] | Some xs \<Rightarrow> xs),
              providers := (case prs of None \<Rightarrow> [] | Some xs \<Rightarrow> xs), provider_count := count, initialized := True\<rparr>"
    using assms(1) by (auto simp: hk_capability_core_init_def split: if_splits)
  have n: "unat count \<le> 16" using c(1) by (simp add: HK_CAPABILITY_MAX_PROVIDERS_def word_less_nat_alt)
  have "list_all (entry_ok (inventory c') (providers c')) [0..<unat count]"
    using c by (cases "count = 0") (auto simp: c' word_gt_0)
  moreover have "unat count \<le> length (inventory c')"
    using c(2) assms(2) by (cases "count = 0") (auto simp: c' word_gt_0)
  ultimately show ?thesis using n
    by (simp add: c' cap_inv_def cap_static_def core_zero_def counts_ok_def sharing_ok_def lease_count_def
        HK_CAPABILITY_MAX_OWNERS_def HK_CAPABILITY_MAX_LEASES_def HK_CAPABILITY_MAX_PROVIDERS_def)
qed

text \<open>Opening and closing an owner change one owner slot.\<close>

lemma cap_inv_owner:
  assumes "cap_inv c" and "\<And>l. l \<in> set (leases c) \<Longrightarrow> ls_active l \<Longrightarrow> unat (o_slot (ls_owner l)) \<noteq> i"
  shows "cap_inv (c\<lparr>owners := (owners c)[i := s]\<rparr>)"
proof -
  have "validate_owner (c\<lparr>owners := (owners c)[i := s]\<rparr>) (ls_owner l) = validate_owner c (ls_owner l)"
    if "l \<in> set (leases c)" "ls_active l" for l
    using assms(2) [OF that] by (simp add: validate_owner_def)
  then show ?thesis using assms(1)
    by (auto simp: cap_inv_def cap_static_def counts_ok_def sharing_ok_def lease_wf_def)
qed

lemma validate_owner_okD:
  assumes "validate_owner c ow = HK_OK"
  shows "initialized c" "unat (o_slot ow) < 16" "o_generation ow \<noteq> 0" "os_active (owners c ! unat (o_slot ow))"
    "os_generation (owners c ! unat (o_slot ow)) = o_generation ow"
  using assms by (auto simp: validate_owner_def Let_def HK_CAPABILITY_MAX_OWNERS_def split: if_splits)

lemma cap_inv_open [inv_intros]:
  assumes "cap_inv c"
  shows "cap_inv (snd (snd (hk_capability_core_owner_open grants n ow c)))"
proof -
  have "cap_inv (c\<lparr>owners := (owners c)[i := s]\<rparr>)" if "\<not> os_active (owners c ! i)" for i s
  proof (rule cap_inv_owner [OF assms])
    fix l assume "l \<in> set (leases c)" "ls_active l"
    with assms have "validate_owner c (ls_owner l) = HK_OK" by (simp add: cap_inv_def lease_wf_def)
    from validate_owner_okD(4) [OF this] that show "unat (o_slot (ls_owner l)) \<noteq> i" by auto
  qed
  then show ?thesis using assms
    by (auto simp: hk_capability_core_owner_open_def Let_def dest: find_upt_Some split: option.split)
qed

lemma cap_inv_acquire [inv_intros]:
  assumes "cap_inv c"
  shows "cap_inv (fst (snd (snd (hk_capability_core_acquire ow rq ty cc lease c w))))"
proof -
  have "cap_inv (add_lease p i ow (rq_id (the rq)) c)" if "validate_owner c ow = HK_OK" "acquire_target ow (the rq) cc c = Inr (p, i)" for p i
    using cap_inv_add [OF assms acquire_targetD(11,12,13) [OF that(2)] acquire_target_provider(1) [OF that(2)] that(1)
        acquire_targetD(9,10) [OF that(2)]] acquire_target_provider(2) [OF that(2)] by simp
  then show ?thesis using assms
    by (simp add: hk_capability_core_acquire_def Let_def split: sum.split prod.split)
qed

text \<open>Dropping a lease, by either cleanup function.\<close>

definition same_tables :: "('c, 'w) hk_capability_core_t \<Rightarrow> ('c, 'w) hk_capability_core_t \<Rightarrow> bool" where
  "same_tables c c' \<longleftrightarrow> inventory c' = inventory c \<and> providers c' = providers c \<and> provider_count c' = provider_count c \<and>
     initialized c' = initialized c \<and> owners c' = owners c"

lemma same_tables_refl [simp]: "same_tables c c"
  by (simp add: same_tables_def)

lemma same_tables_trans: "same_tables a b \<Longrightarrow> same_tables b c \<Longrightarrow> same_tables a c"
  by (simp add: same_tables_def)

lemma drop_lease_spec:
  assumes "cap_inv c" and "i < 32" and "ls_active (leases c ! i)"
  shows "cap_inv (snd (drop_lease i r c))" "same_tables c (snd (drop_lease i r c))"
    "leases (snd (drop_lease i r c)) = (leases c)[i := retire_or_advance_lease (leases c ! i)]"
    "fst (drop_lease i r c) \<in> {HK_OK, HK_ERR_INTERNAL}"
  using cap_inv_drop [OF assms] drop_lease_eq [OF assms, of r] by (simp_all add: same_tables_def)

lemma cleanup_lease_drop:
  "\<exists>r. fst (cleanup_lease c i d w) = fst (drop_lease i r c) \<and> fst (snd (cleanup_lease c i d w)) = snd (drop_lease i r c)"
  by (simp add: cleanup_lease_def Let_def split_beta) blast

lemma cleanup_close_drop:
  "\<exists>r. fst (cleanup_lease_for_owner_close c i cc d w) = fst (drop_lease i r c) \<and>
    fst (snd (cleanup_lease_for_owner_close c i cc d w)) = snd (drop_lease i r c)"
  by (simp add: cleanup_lease_for_owner_close_def Let_def split_beta) blast

text \<open>The lease table after the loop of \<open>hk_capability_core_owner_close\<close>: exactly the leases of the owner are retired.\<close>

definition closed_leases ::
  "nat set \<Rightarrow> hk_owner_t \<Rightarrow> hk_capability_lease_slot_t list \<Rightarrow> hk_capability_lease_slot_t list \<Rightarrow> bool" where
  "closed_leases is ow ls ls' \<longleftrightarrow> length ls' = length ls \<and> (\<forall>j < length ls. ls' ! j =
     (if j \<in> is \<and> ls_active (ls ! j) \<and> owner_equal (ls_owner (ls ! j)) ow then retire_or_advance_lease (ls ! j) else ls ! j))"

lemma closed_leases_step:
  assumes "i < length ls" and "ls_active (ls ! i)" and "owner_equal (ls_owner (ls ! i)) ow"
    and "closed_leases is ow (ls[i := retire_or_advance_lease (ls ! i)]) ls'"
  shows "closed_leases (insert i is) ow ls ls'"
  using assms by (auto simp: closed_leases_def nth_list_update)

lemma closed_leases_skip:
  assumes "\<not> ls_active (ls ! i) \<or> \<not> owner_equal (ls_owner (ls ! i)) ow" and "closed_leases is ow ls ls'"
  shows "closed_leases (insert i is) ow ls ls'"
  using assms by (auto simp: closed_leases_def)

lemma close_leases_spec:
  assumes "cap_inv c" and "\<forall>i \<in> set is. i < 32" and "close_leases is ow cc d res c w = (res', c', w')"
  shows "cap_inv c' \<and> same_tables c c' \<and> closed_leases (set is) ow (leases c) (leases c') \<and> res' \<in> {res, HK_ERR_INTERNAL}"
  using assms
proof (induction "is" ow cc d res c w rule: close_leases.induct)
  case (1 ow cc d res c w)
  then show ?case by (simp add: closed_leases_def)
next
  case (2 i "is" ow cc d res c w)
  note inv = "2.prems"(1)
  have i: "i < 32" "i < length (leases c)" using "2.prems"(2) cap_invD(4) [OF inv] by simp_all
  show ?case
  proof (cases "\<not> ls_active (leases c ! i) \<or> \<not> owner_equal (ls_owner (leases c ! i)) ow")
    case True
    have "close_leases is ow cc d res c w = (res', c', w')" using "2.prems"(3) True by simp
    from "2.IH"(1) [OF True inv _ this] "2.prems"(2) closed_leases_skip [OF True] show ?thesis by simp
  next
    case False
    obtain r c1 w1 where e: "cleanup_lease_for_owner_close c i cc d w = (r, c1, w1)" by (cases "cleanup_lease_for_owner_close c i cc d w")
    obtain q where q: "r = fst (drop_lease i q c)" "c1 = snd (drop_lease i q c)" using cleanup_close_drop [of c i cc d w] e by auto
    have a: "ls_active (leases c ! i)" using False by simp
    note drop = drop_lease_spec [OF inv i(1) a, of q, folded q]
    have rest: "close_leases is ow cc d (if r \<noteq> HK_OK then HK_ERR_INTERNAL else res) c1 w1 = (res', c', w')"
      using "2.prems"(3) False e by simp
    have sub: "\<forall>k \<in> set is. k < 32" using "2.prems"(2) by simp
    have "cap_inv c' \<and> same_tables c1 c' \<and> closed_leases (set is) ow (leases c1) (leases c') \<and>
        res' \<in> {if r \<noteq> HK_OK then HK_ERR_INTERNAL else res, HK_ERR_INTERNAL}"
      by (rule "2.IH"(2) [OF False e [symmetric] refl refl drop(1) sub rest])
    then show ?thesis using same_tables_trans [OF drop(2)] closed_leases_step [OF i(2) a] False drop(3)
      by (auto split: if_splits)
  qed
qed

lemma owner_equal_iff [simp]: "owner_equal a b \<longleftrightarrow> a = b"
  by (cases a; cases b) (simp add: owner_equal_def)

lemma validate_owner_unique:
  assumes "validate_owner c a = HK_OK" and "validate_owner c b = HK_OK" and "unat (o_slot a) = unat (o_slot b)"
  shows "a = b"
  using validate_owner_okD(5) [OF assms(1)] validate_owner_okD(5) [OF assms(2)] assms(3)
  by (cases a; cases b) (simp add: word_unat_eq_iff)

lemma same_tables_validate: "same_tables c c' \<Longrightarrow> validate_owner c' ow = validate_owner c ow"
  by (simp add: same_tables_def validate_owner_def)

lemma owner_close_eq:
  assumes "cap_inv c" and "deadline_is_valid d" and "validate_owner c ow = HK_OK"
    and "hk_capability_core_owner_close ow cc d c w = (res, c', w')"
  shows "\<exists>c1. cap_inv c1 \<and> same_tables c c1 \<and> closed_leases {0..<32} ow (leases c) (leases c1) \<and> res \<in> {HK_OK, HK_ERR_INTERNAL} \<and>
    c' = c1\<lparr>owners := (owners c)[unat (o_slot ow) := retire_or_advance_owner (owners c ! unat (o_slot ow))]\<rparr>"
proof -
  obtain r c1 w1 where e: "close_leases [0..<HK_CAPABILITY_MAX_LEASES] ow cc d HK_OK c w = (r, c1, w1)"
    by (cases "close_leases [0..<HK_CAPABILITY_MAX_LEASES] ow cc d HK_OK c w")
  have s: "cap_inv c1 \<and> same_tables c c1 \<and> closed_leases (set [0..<HK_CAPABILITY_MAX_LEASES]) ow (leases c) (leases c1) \<and> r \<in> {HK_OK, HK_ERR_INTERNAL}"
    by (rule close_leases_spec [OF assms(1) _ e]) (simp add: HK_CAPABILITY_MAX_LEASES_def)
  moreover have "res = r" "c' = c1\<lparr>owners := (owners c1)[unat (o_slot ow) := retire_or_advance_owner (owners c1 ! unat (o_slot ow))]\<rparr>"
    using assms(2-4) e by (simp_all add: hk_capability_core_owner_close_def Let_def)
  moreover have "owners c1 = owners c" using s by (simp add: same_tables_def)
  ultimately show ?thesis by (auto simp: HK_CAPABILITY_MAX_LEASES_def)
qed

lemma cap_inv_close [inv_intros]:
  assumes "cap_inv c"
  shows "cap_inv (fst (snd (hk_capability_core_owner_close ow cc d c w)))"
proof (cases "deadline_is_valid d \<and> validate_owner c ow = HK_OK")
  case True
  obtain res c' w' where e: "hk_capability_core_owner_close ow cc d c w = (res, c', w')" by (cases "hk_capability_core_owner_close ow cc d c w")
  from owner_close_eq [OF assms _ _ e] True obtain c1 where c1: "cap_inv c1" "same_tables c c1"
    "closed_leases {0..<32} ow (leases c) (leases c1)"
    "c' = c1\<lparr>owners := (owners c)[unat (o_slot ow) := retire_or_advance_owner (owners c ! unat (o_slot ow))]\<rparr>" by blast
  have "cap_inv (c1\<lparr>owners := (owners c1)[unat (o_slot ow) := retire_or_advance_owner (owners c ! unat (o_slot ow))]\<rparr>)"
  proof (rule cap_inv_owner [OF c1(1)])
    fix l assume l: "l \<in> set (leases c1)" "ls_active l"
    then obtain j where j: "j < 32" "l = leases c1 ! j" using cap_invD(4) [OF c1(1)] by (auto simp: in_set_conv_nth)
    have "l \<noteq> retire_or_advance_lease (leases c ! j)" using l(2) by auto
    then have same: "leases c1 ! j = leases c ! j" "ls_owner l \<noteq> ow"
      using c1(3) j l(2) cap_invD(4) [OF assms] by (auto simp: closed_leases_def split: if_splits)
    have "validate_owner c (ls_owner l) = HK_OK" using active_leaseD(7) [OF assms j(1)] l(2) j(2) same(1) by simp
    from validate_owner_unique [OF this, of ow] True same(2)
    show "unat (o_slot (ls_owner l)) \<noteq> unat (o_slot ow)" by auto
  qed
  moreover have "owners c1 = owners c" using c1(2) by (simp add: same_tables_def)
  ultimately show ?thesis using c1(4) e by simp
qed (use assms in \<open>auto simp: hk_capability_core_owner_close_def\<close>)

lemma validate_leaseD:
  assumes "fst (validate_lease ow lease ty cc q c) = HK_OK"
  shows "\<exists>l. lease = Some l \<and> validate_owner c ow = HK_OK \<and> l_owner l = ow \<and> l_capability_id l = ty \<and> unat (l_slot l) < 32 \<and>
    l_generation l \<noteq> 0 \<and> ls_active (leases c ! unat (l_slot l)) \<and> ls_generation (leases c ! unat (l_slot l)) = l_generation l \<and>
    ls_owner (leases c ! unat (l_slot l)) = ow \<and> ls_capability_id (leases c ! unat (l_slot l)) = ty \<and> ty \<noteq> 0"
  using assms by (auto simp: validate_lease_def Let_def HK_CAPABILITY_MAX_LEASES_def split: if_splits option.splits)

lemma cap_inv_quarantine_lease [inv_intros]:
  "cap_inv c \<Longrightarrow> cap_inv (snd (hk_capability_core_quarantine_lease ow lease ty cc c))"
  by (simp add: hk_capability_core_quarantine_lease_def Let_def cap_inv_quarantine)

text \<open>A release either changes nothing or drops the slot that the handle names.\<close>

lemma release_cases:
  "fst (snd (snd (hk_capability_core_release ow ty cc d lease c w))) = c \<or>
   (\<exists>l r. lease = Some l \<and> fst (validate_lease ow lease ty cc True c) = HK_OK \<and>
      fst (snd (snd (hk_capability_core_release ow ty cc d lease c w))) = snd (drop_lease (unat (l_slot l)) r c))"
proof (cases "lease = None \<or> \<not> deadline_is_valid d \<or> hk_lease_is_zero (the lease) \<or> fst (validate_lease ow lease ty cc True c) \<noteq> HK_OK")
  case False
  obtain r where "fst (snd (cleanup_lease c (unat (l_slot (the lease))) d w)) = snd (drop_lease (unat (l_slot (the lease))) r c)"
    using cleanup_lease_drop by metis
  then show ?thesis using False by (auto simp: hk_capability_core_release_def Let_def split: prod.split)
qed (auto simp: hk_capability_core_release_def)

lemma cap_inv_release [inv_intros]:
  assumes "cap_inv c"
  shows "cap_inv (fst (snd (snd (hk_capability_core_release ow ty cc d lease c w))))"
  using release_cases [of ow ty cc d lease c w] assms
  by (metis cap_inv_drop option.inject validate_leaseD)

lemma cap_inv_recover [inv_intros]:
  "cap_inv c \<Longrightarrow> cap_inv (fst (snd (hk_capability_core_recover cap inst cc d c w)))"
  by (auto simp: hk_capability_core_recover_def Let_def split: option.split prod.split
      intro!: cap_inv_same_counters same_counters_quarantined)

section \<open>Runs of calls\<close>

datatype cap_call =
  Owner_open "hk_capability_request_t list option" u16
| Owner_close hk_owner_t u16 hk_deadline_t
| Acquire hk_owner_t "hk_capability_request_t option" u32 u16
| Release hk_owner_t u32 u16 hk_deadline_t "hk_lease_t option"
| Quarantine_lease hk_owner_t "hk_lease_t option" u32 u16
| Recover u32 u16 u16 hk_deadline_t

fun cap_step :: "cap_call \<Rightarrow> ('c, 'w) hk_capability_core_t \<times> 'w \<Rightarrow> ('c, 'w) hk_capability_core_t \<times> 'w" where
  "cap_step (Owner_open grants n) (c, w) = (snd (snd (hk_capability_core_owner_open grants n (Some HK_OWNER_NONE) c)), w)"
| "cap_step (Owner_close ow cc d) (c, w) = snd (hk_capability_core_owner_close ow cc d c w)"
| "cap_step (Acquire ow rq ty cc) (c, w) = snd (snd (hk_capability_core_acquire ow rq ty cc (Some HK_LEASE_NONE) c w))"
| "cap_step (Release ow ty cc d l) (c, w) = snd (snd (hk_capability_core_release ow ty cc d l c w))"
| "cap_step (Quarantine_lease ow l ty cc) (c, w) = (snd (hk_capability_core_quarantine_lease ow l ty cc c), w)"
| "cap_step (Recover cap inst cc d) (c, w) = snd (hk_capability_core_recover cap inst cc d c w)"

definition cap_run :: "cap_call list \<Rightarrow> ('c, 'w) hk_capability_core_t \<times> 'w \<Rightarrow> ('c, 'w) hk_capability_core_t \<times> 'w" where
  "cap_run calls s = fold cap_step calls s"

lemma cap_run_simps [simp]: "cap_run [] s = s" "cap_run (x # xs) s = cap_run xs (cap_step x s)"
  by (simp_all add: cap_run_def)

lemma cap_inv_step: "cap_inv (fst s) \<Longrightarrow> cap_inv (fst (cap_step x s))"
  by (cases "(x, s)" rule: cap_step.cases) (auto intro: inv_intros)

lemma cap_inv_run: "cap_inv (fst s) \<Longrightarrow> cap_inv (fst (cap_run xs s))"
  by (induction xs arbitrary: s) (simp_all add: cap_inv_step)

section \<open>The life of a slot\<close>

text \<open>A call leaves a slot alone, retires it while it is active, or activates it while it is neither active
  nor retired, at its own generation.\<close>

definition lease_slot_step :: "hk_capability_lease_slot_t \<Rightarrow> hk_capability_lease_slot_t \<Rightarrow> bool" where
  "lease_slot_step s s' \<longleftrightarrow> s' = s \<or> ls_active s \<and> s' = retire_or_advance_lease s \<or>
     \<not> ls_active s \<and> \<not> ls_retired s \<and> ls_generation s' = (if ls_generation s = 0 then 1 else ls_generation s)"

definition owner_slot_step :: "hk_capability_owner_slot_t \<Rightarrow> hk_capability_owner_slot_t \<Rightarrow> bool" where
  "owner_slot_step s s' \<longleftrightarrow> s' = s \<or> os_active s \<and> s' = retire_or_advance_owner s \<or>
     \<not> os_active s \<and> \<not> os_retired s \<and> os_generation s' = (if os_generation s = 0 then 1 else os_generation s)"

definition slots_step :: "('c, 'w) hk_capability_core_t \<Rightarrow> ('c, 'w) hk_capability_core_t \<Rightarrow> bool" where
  "slots_step c c' \<longleftrightarrow> (\<forall>i < 32. lease_slot_step (leases c ! i) (leases c' ! i)) \<and>
     (\<forall>i < 16. owner_slot_step (owners c ! i) (owners c' ! i))"

lemma slot_step_refl [simp]: "lease_slot_step s s" "owner_slot_step t t"
  by (simp_all add: lease_slot_step_def owner_slot_step_def)

lemma slots_step_refl [simp]: "slots_step c c"
  by (simp add: slots_step_def)

lemma slots_step_same: "leases c' = leases c \<Longrightarrow> owners c' = owners c \<Longrightarrow> slots_step c c'"
  by (simp add: slots_step_def)

lemma slots_step_lease:
  assumes "leases c' = (leases c)[i := s]" and "owners c' = owners c" and "lease_slot_step (leases c ! i) s"
  shows "slots_step c c'"
proof -
  have "lease_slot_step (leases c ! j) ((leases c)[i := s] ! j)" for j
    using assms(3) by (simp add: nth_update_rel [of lease_slot_step])
  then show ?thesis by (simp add: slots_step_def assms(1,2))
qed

lemma slots_step_owner:
  assumes "leases c' = leases c" and "owners c' = (owners c)[i := s]" and "owner_slot_step (owners c ! i) s"
  shows "slots_step c c'"
proof -
  have "owner_slot_step (owners c ! j) ((owners c)[i := s] ! j)" for j
    using assms(3) by (simp add: nth_update_rel [of owner_slot_step])
  then show ?thesis by (simp add: slots_step_def assms(1,2))
qed

lemma slots_step_open: "slots_step c (snd (snd (hk_capability_core_owner_open grants n ow c)))"
  by (auto simp: hk_capability_core_owner_open_def Let_def owner_slot_step_def dest!: find_upt_Some split: option.split
      intro!: slots_step_owner)

lemma slots_step_acquire: "slots_step c (fst (snd (snd (hk_capability_core_acquire ow rq ty cc lease c w))))"
proof -
  have "slots_step c (add_lease p i ow cap c)" if "acquire_target ow (the rq) cc c = Inr (p, i)" for p i cap
    using acquire_targetD(12,13) [OF that]
    by (intro slots_step_lease [of _ _ i]) (auto simp: add_lease_def Let_def lease_slot_step_def)
  then show ?thesis
    by (simp add: hk_capability_core_acquire_def Let_def split: sum.split prod.split)
qed

lemma slots_step_drop: "cap_inv c \<Longrightarrow> i < 32 \<Longrightarrow> ls_active (leases c ! i) \<Longrightarrow> slots_step c (snd (drop_lease i r c))"
  using drop_lease_eq(1,2) [of c i r] by (auto intro!: slots_step_lease simp: lease_slot_step_def)

lemma slots_step_release: "cap_inv c \<Longrightarrow> slots_step c (fst (snd (snd (hk_capability_core_release ow ty cc d lease c w))))"
  using release_cases [of ow ty cc d lease c w] by (metis option.inject slots_step_drop slots_step_refl validate_leaseD)

lemma slots_step_close:
  assumes "cap_inv c"
  shows "slots_step c (fst (snd (hk_capability_core_owner_close ow cc d c w)))"
proof (cases "deadline_is_valid d \<and> validate_owner c ow = HK_OK")
  case True
  obtain res c' w' where e: "hk_capability_core_owner_close ow cc d c w = (res, c', w')" by (cases "hk_capability_core_owner_close ow cc d c w")
  from owner_close_eq [OF assms _ _ e] True obtain c1 where c1: "closed_leases {0..<32} ow (leases c) (leases c1)"
    "c' = c1\<lparr>owners := (owners c)[unat (o_slot ow) := retire_or_advance_owner (owners c ! unat (o_slot ow))]\<rparr>" by blast
  have "lease_slot_step (leases c ! i) (leases c' ! i)" if "i < 32" for i
    using c1 that cap_invD(4) [OF assms] by (auto simp: closed_leases_def lease_slot_step_def)
  moreover have "owner_slot_step (owners c ! i) (owners c' ! i)" if "i < 16" for i
  proof -
    have "owner_slot_step (owners c ! unat (o_slot ow)) (retire_or_advance_owner (owners c ! unat (o_slot ow)))"
      using validate_owner_okD(4) [of c ow] True by (simp add: owner_slot_step_def)
    from nth_update_rel [of owner_slot_step, OF this, of i] show ?thesis by (simp add: c1(2))
  qed
  ultimately show ?thesis using e by (simp add: slots_step_def)
qed (auto simp: hk_capability_core_owner_close_def)

lemma slots_step_step: "cap_inv (fst s) \<Longrightarrow> slots_step (fst s) (fst (cap_step x s))"
proof (cases "(x, s)" rule: cap_step.cases)
  case (6 cap inst cc d c w)
  then show ?thesis
    by (auto simp: hk_capability_core_recover_def Let_def intro: slots_step_same split: option.split prod.split)
qed (auto intro: slots_step_open slots_step_close slots_step_acquire slots_step_release slots_step_same
     simp: hk_capability_core_quarantine_lease_def Let_def quarantine_def)

text \<open>A generation that is behind its slot, or that a retired slot ended with, is dead.\<close>

definition lease_dead :: "u32 \<Rightarrow> hk_capability_lease_slot_t \<Rightarrow> bool" where
  "lease_dead g s \<longleftrightarrow> g < ls_generation s \<or> g = ls_generation s \<and> ls_retired s \<and> \<not> ls_active s"

definition owner_dead :: "u32 \<Rightarrow> hk_capability_owner_slot_t \<Rightarrow> bool" where
  "owner_dead g s \<longleftrightarrow> g < os_generation s \<or> g = os_generation s \<and> os_retired s \<and> \<not> os_active s"

lemma lease_dead_step: "lease_slot_step s s' \<Longrightarrow> lease_dead g s \<Longrightarrow> lease_dead g s'"
  using u32_succ_mono [of "ls_generation s"]
  by (auto simp: lease_slot_step_def lease_dead_def retire_or_advance_lease_def Let_def split: if_splits)

lemma owner_dead_step: "owner_slot_step s s' \<Longrightarrow> owner_dead g s \<Longrightarrow> owner_dead g s'"
  using u32_succ_mono [of "os_generation s"]
  by (auto simp: owner_slot_step_def owner_dead_def retire_or_advance_owner_def Let_def split: if_splits)

lemma retire_dead: "lease_dead (ls_generation l) (retire_or_advance_lease l)" "owner_dead (os_generation s) (retire_or_advance_owner s)"
  using u32_succ_mono [of "ls_generation l"] u32_succ_mono [of "os_generation s"]
  by (cases "ls_generation l = - 1"; cases "os_generation s = - 1";
      simp add: lease_dead_def owner_dead_def retire_or_advance_lease_def retire_or_advance_owner_def Let_def)+

lemma lease_active_step: "lease_slot_step s s' \<Longrightarrow> ls_active s \<Longrightarrow> s' = s \<or> lease_dead (ls_generation s) s'"
  unfolding lease_slot_step_def using retire_dead(1) by metis

lemma owner_active_step: "owner_slot_step s s' \<Longrightarrow> os_active s \<Longrightarrow> s' = s \<or> owner_dead (os_generation s) s'"
  unfolding owner_slot_step_def using retire_dead(2) by metis

text \<open>The same over runs, for the slots that handles name.\<close>

lemma slots_run_step:
  assumes "cap_inv (fst s)"
  shows "i < 32 \<Longrightarrow> lease_slot_step (leases (fst (cap_run xs s)) ! i) (leases (fst (cap_run (xs @ [x]) s)) ! i)"
    and "k < 16 \<Longrightarrow> owner_slot_step (owners (fst (cap_run xs s)) ! k) (owners (fst (cap_run (xs @ [x]) s)) ! k)"
  using slots_step_step [OF cap_inv_run [OF assms, of xs], of x] by (simp_all add: cap_run_def slots_step_def)

lemma dead_run:
  assumes "cap_inv (fst s)"
  shows "i < 32 \<Longrightarrow> lease_dead g (leases (fst s) ! i) \<Longrightarrow> lease_dead g (leases (fst (cap_run xs s)) ! i)"
    and "k < 16 \<Longrightarrow> owner_dead g (owners (fst s) ! k) \<Longrightarrow> owner_dead g (owners (fst (cap_run xs s)) ! k)"
  by (induction xs rule: rev_induct)
     (simp_all add: lease_dead_step [OF slots_run_step(1) [OF assms]] owner_dead_step [OF slots_run_step(2) [OF assms]])

lemma lease_active_run:
  assumes "cap_inv (fst s)" and "i < 32" and "ls_active (leases (fst s) ! i)"
  shows "leases (fst (cap_run xs s)) ! i = leases (fst s) ! i \<or>
    lease_dead (ls_generation (leases (fst s) ! i)) (leases (fst (cap_run xs s)) ! i)"
proof (induction xs rule: rev_induct)
  case (snoc x xs)
  note step = slots_run_step(1) [OF assms(1,2), of xs x]
  from snoc.IH show ?case
  proof
    assume "leases (fst (cap_run xs s)) ! i = leases (fst s) ! i"
    with lease_active_step [OF step] assms(3) show ?thesis by simp
  next
    assume "lease_dead (ls_generation (leases (fst s) ! i)) (leases (fst (cap_run xs s)) ! i)"
    from lease_dead_step [OF step this] show ?thesis ..
  qed
qed simp

lemma owner_active_run:
  assumes "cap_inv (fst s)" and "i < 16" and "os_active (owners (fst s) ! i)"
  shows "owners (fst (cap_run xs s)) ! i = owners (fst s) ! i \<or>
    owner_dead (os_generation (owners (fst s) ! i)) (owners (fst (cap_run xs s)) ! i)"
proof (induction xs rule: rev_induct)
  case (snoc x xs)
  note step = slots_run_step(2) [OF assms(1,2), of xs x]
  from snoc.IH show ?case
  proof
    assume "owners (fst (cap_run xs s)) ! i = owners (fst s) ! i"
    with owner_active_step [OF step] assms(3) show ?thesis by simp
  next
    assume "owner_dead (os_generation (owners (fst s) ! i)) (owners (fst (cap_run xs s)) ! i)"
    from owner_dead_step [OF step this] show ?thesis ..
  qed
qed simp

text \<open>A lease handle that was valid and whose owner or slot is dead is answered as stale.\<close>

definition handle_shape :: "hk_owner_t \<Rightarrow> hk_lease_t \<Rightarrow> u32 \<Rightarrow> bool" where
  "handle_shape ow l ty \<longleftrightarrow> l_owner l = ow \<and> l_capability_id l = ty \<and> ty \<noteq> 0 \<and> unat (l_slot l) < 32 \<and> l_generation l \<noteq> 0 \<and>
     unat (o_slot ow) < 16 \<and> o_generation ow \<noteq> 0"

definition handle_dead :: "hk_owner_t \<Rightarrow> hk_lease_t \<Rightarrow> ('c, 'w) hk_capability_core_t \<Rightarrow> bool" where
  "handle_dead ow l c \<longleftrightarrow> lease_dead (l_generation l) (leases c ! unat (l_slot l)) \<or>
     owner_dead (o_generation ow) (owners c ! unat (o_slot ow))"

lemma handle_dead_stale:
  assumes "handle_shape ow l ty" and "handle_dead ow l c" and "cap_inv c"
  shows "fst (validate_lease ow (Some l) ty cc q c) = HK_ERR_STALE_HANDLE"
proof (cases "validate_owner c ow = HK_OK")
  case True
  have "\<not> owner_dead (o_generation ow) (owners c ! unat (o_slot ow))"
    using validate_owner_okD(4,5) [OF True] by (auto simp: owner_dead_def)
  then have "lease_dead (l_generation l) (leases c ! unat (l_slot l))" using assms(2) by (simp add: handle_dead_def)
  then have "\<not> (ls_active (leases c ! unat (l_slot l)) \<and> ls_generation (leases c ! unat (l_slot l)) = l_generation l)"
    by (auto simp: lease_dead_def)
  then show ?thesis using assms(1) True
    by (auto simp: validate_lease_def Let_def handle_shape_def HK_CAPABILITY_MAX_LEASES_def hk_lease_is_zero_def)
next
  case False
  then have "validate_owner c ow = HK_ERR_STALE_HANDLE"
    using cap_invD(1) [OF assms(3)] by (simp add: validate_owner_def Let_def split: if_splits)
  then show ?thesis by (simp add: validate_lease_def)
qed

lemma handle_dead_run:
  "cap_inv (fst s) \<Longrightarrow> handle_shape ow l ty \<Longrightarrow> handle_dead ow l (fst s) \<Longrightarrow> handle_dead ow l (fst (cap_run xs s))"
  unfolding handle_dead_def handle_shape_def using dead_run by blast

lemma valid_handle_shape:
  assumes "fst (validate_lease ow (Some l) ty cc q c) = HK_OK"
  shows "handle_shape ow l ty"
  using validate_leaseD [OF assms] validate_owner_okD(2,3) [of c ow] by (auto simp: handle_shape_def)

text \<open>A handle that was valid is dead as soon as it is answered as stale.\<close>

lemma valid_stale_dead:
  assumes "cap_inv (fst s)" and "fst (validate_lease ow (Some l) ty cc q (fst s)) = HK_OK"
    and "fst (validate_lease ow (Some l) ty cc q (fst (cap_run xs s))) = HK_ERR_STALE_HANDLE"
  shows "handle_dead ow l (fst (cap_run xs s))"
proof (rule ccontr)
  let ?c' = "fst (cap_run xs s)"
  assume nd: "\<not> handle_dead ow l ?c'"
  note shape = valid_handle_shape [OF assms(2)]
  from validate_leaseD [OF assms(2)] have v: "validate_owner (fst s) ow = HK_OK" "unat (l_slot l) < 32"
    "ls_active (leases (fst s) ! unat (l_slot l))" "ls_generation (leases (fst s) ! unat (l_slot l)) = l_generation l"
    "ls_owner (leases (fst s) ! unat (l_slot l)) = ow" "ls_capability_id (leases (fst s) ! unat (l_slot l)) = ty" by auto
  have same_l: "leases ?c' ! unat (l_slot l) = leases (fst s) ! unat (l_slot l)"
    using lease_active_run [OF assms(1) v(2,3), of xs] nd v(4) by (auto simp: handle_dead_def)
  note o = validate_owner_okD [OF v(1)]
  have same_o: "owners ?c' ! unat (o_slot ow) = owners (fst s) ! unat (o_slot ow)"
    using owner_active_run [OF assms(1) o(2,4), of xs] nd o(5) by (auto simp: handle_dead_def)
  have "validate_owner ?c' ow = HK_OK"
    using o same_o cap_invD(1) [OF cap_inv_run [OF assms(1)]] by (simp add: validate_owner_def Let_def HK_CAPABILITY_MAX_OWNERS_def)
  then have "fst (validate_lease ow (Some l) ty cc q ?c') \<noteq> HK_ERR_STALE_HANDLE"
    using shape v same_l
    by (auto simp: validate_lease_def Let_def handle_shape_def HK_CAPABILITY_MAX_LEASES_def hk_lease_is_zero_def)
  with assms(3) show False by simp
qed

section \<open>The tables are constant\<close>

definition same_inventory :: "('c, 'w) hk_capability_core_t \<Rightarrow> ('c, 'w) hk_capability_core_t \<Rightarrow> bool" where
  "same_inventory c c' \<longleftrightarrow> inventory c' = inventory c \<and> providers c' = providers c \<and> provider_count c' = provider_count c"

lemma same_inventory_drop: "same_inventory c (snd (drop_lease i r c))"
  by (simp add: same_inventory_def drop_lease_def Let_def quarantine_def uncount_def)

lemma same_inventory_close: "close_leases is ow cc d res c w = (res', c', w') \<Longrightarrow> same_inventory c c'"
proof (induction "is" ow cc d res c w rule: close_leases.induct)
  case (2 i "is" ow cc d res c w)
  show ?case
  proof (cases "\<not> ls_active (leases c ! i) \<or> \<not> owner_equal (ls_owner (leases c ! i)) ow")
    case True then show ?thesis using "2.IH"(1) "2.prems" by simp
  next
    case False
    obtain r c1 w1 where e: "cleanup_lease_for_owner_close c i cc d w = (r, c1, w1)" by (cases "cleanup_lease_for_owner_close c i cc d w")
    have "same_inventory c c1" using cleanup_close_drop [of c i cc d w] e same_inventory_drop by auto
    moreover have "same_inventory c1 c'" using "2.IH"(2) [OF False e [symmetric] refl refl] "2.prems" False e by simp
    ultimately show ?thesis by (simp add: same_inventory_def)
  qed
qed (simp add: same_inventory_def)

lemma same_inventory_release: "same_inventory c (fst (snd (snd (hk_capability_core_release ow ty cc d lease c w))))"
  using release_cases [of ow ty cc d lease c w]
proof
  assume "fst (snd (snd (hk_capability_core_release ow ty cc d lease c w))) = c"
  then show ?thesis by (simp add: same_inventory_def)
next
  assume "\<exists>l r. lease = Some l \<and> fst (validate_lease ow lease ty cc True c) = HK_OK \<and>
    fst (snd (snd (hk_capability_core_release ow ty cc d lease c w))) = snd (drop_lease (unat (l_slot l)) r c)"
  then show ?thesis by (elim exE conjE) (simp only: same_inventory_drop)
qed

lemma same_inventory_refl [simp]: "same_inventory c c"
  by (simp add: same_inventory_def)

lemma same_inventory_update [simp]: "same_inventory c (add_lease p i ow cap c)" "same_inventory c (quarantine p c)"
  "same_inventory c (c\<lparr>owners := os\<rparr>)" "same_inventory c (c\<lparr>provider_state := ps\<rparr>)"
  "same_inventory c (c'\<lparr>owners := os\<rparr>) = same_inventory c c'"
  by (simp_all add: same_inventory_def add_lease_def Let_def quarantine_def)

lemma same_inventory_open: "same_inventory c (snd (snd (hk_capability_core_owner_open grants n ow c)))"
  by (simp add: hk_capability_core_owner_open_def Let_def split: option.split)

lemma same_inventory_acquire: "same_inventory c (fst (snd (snd (hk_capability_core_acquire ow rq ty cc l c w))))"
  by (simp add: hk_capability_core_acquire_def Let_def split: sum.split prod.split)

lemma same_inventory_owner_close: "same_inventory c (fst (snd (hk_capability_core_owner_close ow cc d c w)))"
  using same_inventory_close [of "[0..<HK_CAPABILITY_MAX_LEASES]" ow cc d HK_OK c w]
  by (simp add: hk_capability_core_owner_close_def Let_def split: prod.split)

lemma same_inventory_recover: "same_inventory c (fst (snd (hk_capability_core_recover cap inst cc d c w)))"
  by (simp add: hk_capability_core_recover_def Let_def split: option.split prod.split)

lemma same_inventory_quarantine: "same_inventory c (snd (hk_capability_core_quarantine_lease ow l ty cc c))"
  by (simp add: hk_capability_core_quarantine_lease_def Let_def)

lemma same_inventory_step: "same_inventory (fst s) (fst (cap_step x s))"
  by (cases "(x, s)" rule: cap_step.cases)
     (simp_all add: same_inventory_open same_inventory_owner_close same_inventory_acquire same_inventory_release
       same_inventory_recover same_inventory_quarantine)

lemma same_inventory_run: "same_inventory (fst s) (fst (cap_run xs s))"
proof (induction xs rule: rev_induct)
  case (snoc x xs)
  then show ?case using same_inventory_step [of "cap_run xs s" x] by (simp add: cap_run_def same_inventory_def)
qed (simp add: same_inventory_def)

lemma sorted_entries_unique:
  assumes "sorted_entries xs" and "i < length xs" and "j < length xs" and "in_id (xs ! i) = in_id (xs ! j)"
    and "in_instance (xs ! i) = in_instance (xs ! j)"
  shows "i = j"
proof (rule ccontr)
  have lt: "provider_compare (xs ! a) (in_id (xs ! b)) (in_instance (xs ! b)) < 0" if "a < b" "b < length xs" for a b
    using assms(1) that by (simp add: sorted_entries_def sorted_wrt_iff_nth_less)
  assume "i \<noteq> j"
  then consider "i < j" | "j < i" by linarith
  then show False
    by cases (use lt [of i j] lt [of j i] assms(2-5) in \<open>simp_all add: provider_compare_def\<close>)
qed

text \<open>The lookup with its early stop finds an entry exactly when the inventory has it.\<close>

lemma find_provider_iff:
  assumes "cap_inv c" and "p < unat (provider_count c)"
  shows "find_provider c cap inst = int p \<longleftrightarrow> in_id (inventory c ! p) = cap \<and> in_instance (inventory c ! p) = inst"
proof
  assume "find_provider c cap inst = int p"
  then show "in_id (inventory c ! p) = cap \<and> in_instance (inventory c ! p) = inst" using find_provider_hit [of c cap inst] by simp
next
  let ?xs = "take (unat (provider_count c)) (inventory c)"
  have len: "p < length ?xs" "length ?xs = unat (provider_count c)"
    using assms cap_invD(10) [OF assms(1)] by (simp_all add: cap_static_def)
  have nth: "?xs ! q = inventory c ! q" if "q < unat (provider_count c)" for q using that by simp
  assume p: "in_id (inventory c ! p) = cap \<and> in_instance (inventory c ! p) = inst"
  then have h: "\<not> find_provider c cap inst < 0"
    using find_provider_from_miss [OF cap_sorted [OF assms(1)], of 0 cap inst "?xs ! p"] len nth [OF assms(2)]
    unfolding find_provider_def by (metis nth_mem)
  note h' = find_provider_hit [OF h]
  have "nat (find_provider c cap inst) = p"
    by (rule sorted_entries_unique [OF cap_sorted [OF assms(1)]])
       (use h' p len assms(2) nth [OF assms(2)] nth [OF h'(1)] in simp_all)
  then show "find_provider c cap inst = int p" using h by simp
qed

section \<open>Quarantine\<close>

abbreviation quarantined :: "nat \<Rightarrow> ('c, 'w) hk_capability_core_t \<Rightarrow> bool" where
  "quarantined p c \<equiv> ps_quarantined (provider_state c ! p)"

lemma quarantined_update: "ps_quarantined (xs ! p) \<Longrightarrow> (q = p \<Longrightarrow> ps_quarantined x) \<Longrightarrow> ps_quarantined (xs[q := x] ! p)"
  by (cases "q < length xs"; cases "q = p") (simp_all add: list_update_beyond)

lemma quarantined_drop: "quarantined p c \<Longrightarrow> quarantined p (snd (drop_lease i r c))"
  by (simp add: drop_lease_def Let_def quarantine_def uncount_def quarantined_update)

lemma quarantined_close: "close_leases is ow cc d res c w = (res', c', w') \<Longrightarrow> quarantined p c \<Longrightarrow> quarantined p c'"
proof (induction "is" ow cc d res c w rule: close_leases.induct)
  case (2 i "is" ow cc d res c w)
  show ?case
  proof (cases "\<not> ls_active (leases c ! i) \<or> \<not> owner_equal (ls_owner (leases c ! i)) ow")
    case True then show ?thesis using "2.IH"(1) "2.prems" by simp
  next
    case False
    obtain r c1 w1 where e: "cleanup_lease_for_owner_close c i cc d w = (r, c1, w1)" by (cases "cleanup_lease_for_owner_close c i cc d w")
    have "quarantined p c1" using cleanup_close_drop [of c i cc d w] e quarantined_drop "2.prems"(2) by auto
    then show ?thesis using "2.IH"(2) [OF False e [symmetric] refl refl] "2.prems" False e by simp
  qed
qed simp

text \<open>Only a recovery of the provider itself ends its quarantine.\<close>

lemma quarantined_step:
  assumes "quarantined p (fst s)" and "\<And>cc d. x \<noteq> Recover (in_id (inventory (fst s) ! p)) (in_instance (inventory (fst s) ! p)) cc d"
  shows "quarantined p (fst (cap_step x s))"
proof (cases "(x, s)" rule: cap_step.cases)
  case (1 grants n c w)
  then show ?thesis using assms(1)
    by (auto simp: hk_capability_core_owner_open_def Let_def split: option.split)
next
  case (2 ow cc d c w)
  then show ?thesis using assms(1) quarantined_close [of "[0..<HK_CAPABILITY_MAX_LEASES]" ow cc d HK_OK c w]
    by (auto simp: hk_capability_core_owner_close_def Let_def split: prod.split)
next
  case (3 ow rq ty cc c w)
  then show ?thesis using assms(1)
    by (auto simp: hk_capability_core_acquire_def Let_def add_lease_def intro!: quarantined_update split: sum.split prod.split)
next
  case (4 ow ty cc d l c w)
  then show ?thesis using assms(1) release_cases [of ow ty cc d l c w] quarantined_drop by (metis cap_step.simps(4) fst_conv snd_conv)
next
  case (5 ow l ty cc c w)
  then show ?thesis using assms(1)
    by (simp add: hk_capability_core_quarantine_lease_def Let_def quarantine_def quarantined_update)
next
  case (6 cap inst cc d c w)
  have "nat (find_provider c cap inst) \<noteq> p" if "\<not> find_provider c cap inst < 0"
    using find_provider_hit(2,3) [OF that] assms(2) [of cc d] 6 by auto
  then show ?thesis using 6 assms(1)
    by (auto simp: hk_capability_core_recover_def Let_def intro!: quarantined_update split: option.split prod.split)
qed

lemma quarantined_run:
  assumes "quarantined p (fst s)"
    and "\<And>cc d. Recover (in_id (inventory (fst s) ! p)) (in_instance (inventory (fst s) ! p)) cc d \<notin> set xs"
  shows "quarantined p (fst (cap_run xs s))"
  using assms(2)
proof (induction xs rule: rev_induct)
  case (snoc x xs)
  have "quarantined p (fst (cap_run xs s))" using snoc by simp
  moreover have "inventory (fst (cap_run xs s)) = inventory (fst s)" using same_inventory_run [of s xs] by (simp add: same_inventory_def)
  ultimately have "quarantined p (fst (cap_step x (cap_run xs s)))" using snoc.prems by (intro quarantined_step) auto
  then show ?case by (simp add: cap_run_def)
qed (use assms(1) in simp)

section \<open>Validation after other calls\<close>

lemma quarantined_add: "quarantined p (add_lease q i ow cap c) = quarantined p c"
  by (cases "q < length (provider_state c)"; cases "q = p") (simp_all add: add_lease_def Let_def list_update_beyond)

lemma validate_owner_add: "validate_owner (add_lease p i ow cap c) ow' = validate_owner c ow'"
  by (simp add: validate_owner_def add_lease_def Let_def)

lemma validate_lease_cong:
  assumes "validate_owner c' ow = validate_owner c ow" and "leases c' ! unat (l_slot l) = leases c ! unat (l_slot l)"
    and "same_inventory c c'"
    and "quarantined (unat (ls_provider_index (leases c ! unat (l_slot l)))) c' = quarantined (unat (ls_provider_index (leases c ! unat (l_slot l)))) c"
  shows "validate_lease ow (Some l) ty cc q c' = validate_lease ow (Some l) ty cc q c"
  using assms by (simp add: validate_lease_def Let_def same_inventory_def provider_at_def)

text \<open>A new lease leaves the valid leases valid.\<close>

lemma validate_lease_add:
  assumes "fst (validate_lease ow2 (Some l2) ty2 cc2 q c) = HK_OK" and "\<not> ls_active (leases c ! i)"
  shows "validate_lease ow2 (Some l2) ty2 cc2 q (add_lease p i ow cap c) = validate_lease ow2 (Some l2) ty2 cc2 q c"
proof -
  from validate_leaseD [OF assms(1)] assms(2) have "i \<noteq> unat (l_slot l2)" by auto
  then show ?thesis
    by (intro validate_lease_cong) (simp_all add: validate_owner_add quarantined_add, simp add: add_lease_def Let_def)
qed

lemma validate_lease_new:
  assumes "cap_inv c" and "validate_owner c ow = HK_OK" and "i < 32" and "p < unat (provider_count c)" and "cap \<noteq> 0"
    and "affinity_matches (inventory c ! p) cc" and "\<not> quarantined p c"
  shows "validate_lease ow (Some \<lparr>l_slot = of_nat i, l_generation = ls_generation (leases (add_lease p i ow cap c) ! i), l_owner = ow,
      l_capability_id = cap\<rparr>) cap cc q (add_lease p i ow cap c) = (HK_OK, Some (pr_context (provider_at c p)))"
proof -
  have u: "unat (of_nat i :: u32) = i" "unat (of_nat p :: u16) = p"
    using assms(3,4) cap_invD(2) [OF assms(1)] by (simp_all add: unat_of_nat_lt)
  have l: "leases (add_lease p i ow cap c) ! i = (leases c ! i)\<lparr>ls_generation := (if ls_generation (leases c ! i) = 0 then 1 else
     ls_generation (leases c ! i)), ls_owner := ow, ls_capability_id := cap, ls_provider_index := of_nat p, ls_active := True\<rparr>"
    using assms(3) cap_invD(4) [OF assms(1)] by (simp add: add_lease_def Let_def)
  have t: "inventory (add_lease p i ow cap c) = inventory c" "provider_at (add_lease p i ow cap c) p = provider_at c p"
    by (simp_all add: add_lease_def Let_def)
  show ?thesis
    using assms(2,3,5-7)
    by (simp add: validate_lease_def Let_def validate_owner_add u l t quarantined_add hk_lease_is_zero_def HK_CAPABILITY_MAX_LEASES_def)
qed

lemma acquire_cases:
  assumes "hk_capability_core_acquire ow (Some rq) ty cc (Some l0) c w = (r, l', c', w')"
  shows "(r \<noteq> HK_OK \<and> c' = c \<and> l' = Some HK_LEASE_NONE) \<or>
    (\<exists>p i. r = HK_OK \<and> acquire_target ow rq cc c = Inr (p, i) \<and> validate_request (Some rq) = HK_OK \<and> ty \<noteq> 0 \<and> ty = rq_id rq \<and>
       validate_owner c ow = HK_OK \<and> c' = add_lease p i ow ty c \<and>
       l' = Some \<lparr>l_slot = of_nat i, l_generation = ls_generation (leases c' ! i), l_owner = ow, l_capability_id = ty\<rparr>)"
proof (cases "validate_request (Some rq) \<noteq> HK_OK \<or> ty = 0 \<or> ty \<noteq> rq_id rq \<or> validate_owner c ow \<noteq> HK_OK")
  case True
  then show ?thesis using assms by (auto simp: hk_capability_core_acquire_def simp del: validate_request.simps split: if_splits)
next
  case False
  have ne: "e \<noteq> HK_OK" if "acquire_target ow rq cc c = Inl e" for e
    using that by (auto simp: acquire_target_def Let_def split: if_splits option.splits)
  show ?thesis
  proof (cases "acquire_target ow rq cc c")
    case (Inl e)
    then show ?thesis using assms False ne [OF Inl] by (simp add: hk_capability_core_acquire_def del: validate_request.simps)
  next
    case (Inr pi)
    then show ?thesis using assms False
      by (cases pi) (auto simp: hk_capability_core_acquire_def Let_def simp del: validate_request.simps split: prod.splits if_splits)
  qed
qed

lemma validate_requestD:
  assumes "validate_request (Some rq) = HK_OK"
  shows "version_is_valid (rq_minimum rq)" "version_is_valid (rq_maximum_exclusive rq)"
  using assms by (auto split: if_splits)

lemma drop_lease_quarantines:
  assumes "fst (drop_lease i r c) = HK_ERR_INTERNAL" and "unat (ls_provider_index (leases c ! i)) < length (provider_state c)"
  shows "quarantined (unat (ls_provider_index (leases c ! i))) (snd (drop_lease i r c))"
  using assms by (auto simp: drop_lease_def Let_def quarantine_def uncount_def split: if_splits)

lemma validate_lease_errors:
  "fst (validate_lease ow lease ty cc q c) \<noteq> HK_ERR_INTERNAL"
  by (auto simp: validate_lease_def validate_owner_def Let_def split: option.splits)

text \<open>A release that answers with an internal error has quarantined the provider of its lease.\<close>

lemma release_internal:
  assumes "cap_inv c" and "hk_capability_core_release ow ty cc d (Some l) c w = (HK_ERR_INTERNAL, l', c', w')"
  shows "quarantined (unat (ls_provider_index (leases c ! unat (l_slot l)))) c'"
    and "unat (ls_provider_index (leases c ! unat (l_slot l))) < unat (provider_count c)"
proof -
  have v: "fst (validate_lease ow (Some l) ty cc True c) = HK_OK"
    and e: "fst (cleanup_lease c (unat (l_slot l)) d w) = HK_ERR_INTERNAL" "fst (snd (cleanup_lease c (unat (l_slot l)) d w)) = c'"
    using assms(2) validate_lease_errors [of ow "Some l" ty cc True c]
    by (auto simp: hk_capability_core_release_def Let_def split: if_splits prod.splits)
  obtain r where "fst (drop_lease (unat (l_slot l)) r c) = HK_ERR_INTERNAL" "snd (drop_lease (unat (l_slot l)) r c) = c'"
    using cleanup_lease_drop [of c "unat (l_slot l)" d w] e by auto
  note a = active_leaseD(1,2) [OF assms(1), of "unat (l_slot l)"] and drop = drop_lease_quarantines [OF this(1)] this(2)
  show "quarantined (unat (ls_provider_index (leases c ! unat (l_slot l)))) c'"
    "unat (ls_provider_index (leases c ! unat (l_slot l))) < unat (provider_count c)"
    using validate_leaseD [OF v] a drop cap_invD(5) [OF assms(1)] by auto
qed

lemma acquire_quarantined:
  assumes "cap_inv c" and "p < unat (provider_count c)" and "quarantined p c"
    and "rq_id rq = in_id (inventory c ! p)" and "rq_instance rq = in_instance (inventory c ! p)"
  shows "fst (hk_capability_core_acquire ow (Some rq) ty cc (Some l0) c w) \<noteq> HK_OK"
proof
  assume ok: "fst (hk_capability_core_acquire ow (Some rq) ty cc (Some l0) c w) = HK_OK"
  obtain r l' c' w' where e: "hk_capability_core_acquire ow (Some rq) ty cc (Some l0) c w = (r, l', c', w')"
    by (cases "hk_capability_core_acquire ow (Some rq) ty cc (Some l0) c w")
  from acquire_cases [OF e] ok e obtain q i where t: "acquire_target ow rq cc c = Inr (q, i)" by auto
  have "find_provider c (rq_id rq) (rq_instance rq) = int p" using find_provider_iff [OF assms(1,2)] assms(4,5) by simp
  with acquire_targetD(1,8) [OF t] assms(3) show False by simp
qed

lemma validate_quarantined:
  "quarantined (unat (ls_provider_index (leases c ! unat (l_slot l)))) c \<Longrightarrow>
    fst (hk_capability_core_validate_lease ow (Some l) ty cc c) \<noteq> HK_OK"
  by (auto simp: hk_capability_core_validate_lease_def validate_lease_def Let_def)

section \<open>A small inventory\<close>

text \<open>One exclusive capability whose provider answers a cleanup with \<open>r\<close>, for the examples.\<close>

definition sample_info :: hk_capability_info_t where
  "sample_info = \<lparr>in_struct_size = 48, in_struct_version = 1, in_id = 5, in_version = Hk_version 1 2 0 0, in_features = 3,
     in_flags = 2, in_instance = 0, in_affinity_core = - 1, in_limits = None, in_limit_count = 0, in_reserved = 0\<rparr>"

definition sample_provider :: "hk_result_t \<Rightarrow> (unit, nat) hk_capability_provider_t" where
  "sample_provider r = \<lparr>pr_context = (), pr_acquire = None, pr_cleanup_lease = Some (\<lambda>_ _ _ w. (r, w + 1)), pr_cleanup = None,
     pr_cleanup_dispatch = None, pr_recover = None, pr_max_leases = 4, pr_reserved = 0\<rparr>"

definition sample_request :: hk_capability_request_t where
  "sample_request = \<lparr>rq_struct_size = 40, rq_struct_version = 1, rq_id = 5, rq_minimum = Hk_version 1 0 0 0,
     rq_maximum_exclusive = Hk_version 2 0 0 0, rq_required_features = 1, rq_instance = 0, rq_reserved = 0\<rparr>"

abbreviation sample_owner :: hk_owner_t where "sample_owner \<equiv> \<lparr>o_slot = 0, o_generation = 1\<rparr>"

abbreviation sample_lease :: hk_lease_t where
  "sample_lease \<equiv> \<lparr>l_slot = 0, l_generation = 1, l_owner = sample_owner, l_capability_id = 5\<rparr>"

definition sample_core :: "hk_result_t \<Rightarrow> (unit, nat) hk_capability_core_t" where
  "sample_core r = snd (hk_capability_core_init (Some [sample_info]) (Some [Some (sample_provider r)]) 1 core_zero)"

definition sample_calls :: "cap_call list" where
  "sample_calls = [Owner_open (Some [sample_request]) 1, Acquire sample_owner (Some sample_request) 5 0]"

definition sample_leased :: "hk_result_t \<Rightarrow> (unit, nat) hk_capability_core_t \<times> nat" where
  "sample_leased r = cap_run sample_calls (sample_core r, 0)"

lemma sample_init:
  "hk_capability_core_init (Some [sample_info]) (Some [Some (sample_provider r)]) 1 core_zero = (HK_OK, sample_core r)"
  by (simp add: sample_core_def hk_capability_core_init_def entry_ok_def limits_ok_def sample_info_def sample_provider_def Let_def
      HK_CAPABILITY_MAX_PROVIDERS_def sizeof_info_def HK_CAPABILITY_INFO_VERSION_def version_is_valid_def
      HK_CAPABILITY_FLAG_SHARED_def HK_CAPABILITY_FLAG_EXCLUSIVE_def HK_CAPABILITY_CORE_ANY_def)

section \<open>Properties\<close>

text \<open>C7. The lease accounting of the core is exact: after any calls on an initialised core, with any handles and
  whatever the provider callbacks answer, the counter of each provider is the number of its active leases, it is
  at most the provider's limit and at most one for an exclusive capability, and every active lease belongs to an
  open owner and names the capability of its provider.\<close>

theorem capability_accounting:
  assumes "hk_capability_core_init infos prs n c0 = (HK_OK, c1)" and "\<forall>xs. infos = Some xs \<longrightarrow> unat n \<le> length xs"
    and "c = fst (cap_run calls (c1, w))"
  shows "(\<forall>p < unat n. unat (ps_active_leases (provider_state c ! p)) = lease_count p c \<and>
      lease_count p c \<le> unat (pr_max_leases (provider_at c p)) \<and> (exclusive (inventory c ! p) \<longrightarrow> lease_count p c \<le> 1)) \<and>
    (\<forall>i < 32. ls_active (leases c ! i) \<longrightarrow> unat (ls_provider_index (leases c ! i)) < unat n \<and>
      ls_capability_id (leases c ! i) = in_id (inventory c ! unat (ls_provider_index (leases c ! i))) \<and>
      validate_owner c (ls_owner (leases c ! i)) = HK_OK)"
proof -
  have inv1: "cap_inv c1" by (rule cap_inv_init [OF assms(1,2)])
  then have inv: "cap_inv c" using cap_inv_run [of "(c1, w)" calls] assms(3) by simp
  have "provider_count c1 = n" using assms(1) by (auto simp: hk_capability_core_init_def split: if_splits)
  then have n: "provider_count c = n" using same_inventory_run [of "(c1, w)" calls] assms(3) by (simp add: same_inventory_def)
  note d = cap_invD [OF inv] and a = active_leaseD [OF inv]
  show ?thesis using d(2,8,9) a(1,6,7) n by (auto simp: counts_ok_def sharing_ok_def)
qed

theorem capability_accounting_witness:
  "\<exists>c. c = fst (sample_leased 0) \<and> exclusive (inventory c ! 0) \<and> unat (ps_active_leases (provider_state c ! 0)) = lease_count 0 c \<and>
    lease_count 0 c = 1 \<and> validate_owner c (ls_owner (leases c ! 0)) = HK_OK"
proof -
  have e: "exclusive (inventory (fst (sample_leased 0)) ! 0)" "lease_count 0 (fst (sample_leased 0)) = 1"
    "ls_active (leases (fst (sample_leased 0)) ! 0)" by code_simp+
  show ?thesis
    using capability_accounting [OF sample_init _ refl, where calls = sample_calls and w = 0] e by (simp add: sample_leased_def)
qed

text \<open>C3. A handle that has become stale stays stale: once a lease handle was valid and is answered as stale,
  because it was released or its owner was closed, every later validation and release with it is answered as
  stale and changes nothing, although its slots are used again for other leases and owners.\<close>

theorem stale_handle_forever:
  assumes "hk_capability_core_init infos prs n c0 = (HK_OK, c1)" and "\<forall>xs. infos = Some xs \<longrightarrow> unat n \<le> length xs"
    and "fst (validate_lease ow (Some l) ty cc True (fst (cap_run calls1 (c1, w)))) = HK_OK"
    and "fst (validate_lease ow (Some l) ty cc True (fst (cap_run (calls1 @ calls2) (c1, w)))) = HK_ERR_STALE_HANDLE"
    and "cap_run (calls1 @ calls2 @ calls3) (c1, w) = (c3, w3)" and "deadline_is_valid d"
  shows "hk_capability_core_validate_lease ow (Some l) ty cc' c3 = (HK_ERR_STALE_HANDLE, None) \<and>
    hk_capability_core_release ow ty cc' d (Some l) c3 w3 = (HK_ERR_STALE_HANDLE, Some l, c3, w3)"
proof -
  let ?s = "cap_run calls1 (c1, w)"
  have run: "cap_run (xs @ ys) s = cap_run ys (cap_run xs s)" for xs ys s by (simp add: cap_run_def)
  have inv: "cap_inv (fst ?s)" "cap_inv c3"
    using cap_inv_run [of "(c1, w)"] cap_inv_init [OF assms(1,2)] assms(5) by (metis fst_conv)+
  have "handle_dead ow l (fst (cap_run calls2 ?s))" using valid_stale_dead [OF inv(1) assms(3)] assms(4) by (simp add: run)
  then have "handle_dead ow l (fst (cap_run (calls2 @ calls3) ?s))"
    using handle_dead_run [OF cap_inv_run [OF inv(1), of calls2] valid_handle_shape [OF assms(3)]] by (simp add: run)
  then have dead: "handle_dead ow l c3" using assms(5) by (simp add: run)
  have stale: "fst (validate_lease ow (Some l) ty cc' q c3) = HK_ERR_STALE_HANDLE" for q
    by (rule handle_dead_stale [OF valid_handle_shape [OF assms(3)] dead inv(2)])
  have "snd (validate_lease ow (Some l) ty cc' False c3) = None"
    using stale [of False] by (auto simp: validate_lease_def Let_def split: if_splits)
  moreover have "\<not> hk_lease_is_zero l" using valid_handle_shape [OF assms(3)] by (auto simp: handle_shape_def hk_lease_is_zero_def)
  ultimately show ?thesis using stale [of False] stale [of True] assms(6)
    by (simp add: hk_capability_core_validate_lease_def hk_capability_core_release_def Let_def prod_eq_iff)
qed

theorem stale_handle_forever_witness:
  "\<exists>c3 w3. cap_run (sample_calls @ [Release sample_owner 5 0 9 (Some sample_lease), Acquire sample_owner (Some sample_request) 5 0])
      (sample_core 0, 0) = (c3, w3) \<and> ls_active (leases c3 ! 0) \<and> ls_generation (leases c3 ! 0) = 2 \<and>
    hk_capability_core_validate_lease sample_owner (Some sample_lease) 5 0 c3 = (HK_ERR_STALE_HANDLE, None) \<and>
    hk_capability_core_release sample_owner 5 0 9 (Some sample_lease) c3 w3 = (HK_ERR_STALE_HANDLE, Some sample_lease, c3, w3)"
proof -
  let ?r = "[Release sample_owner 5 0 9 (Some sample_lease)]" and ?a = "[Acquire sample_owner (Some sample_request) 5 0]"
  obtain c3 w3 where r: "cap_run (sample_calls @ ?r @ ?a) (sample_core 0, 0) = (c3, w3)"
    by (cases "cap_run (sample_calls @ ?r @ ?a) (sample_core 0, 0)")
  have 1: "fst (validate_lease sample_owner (Some sample_lease) 5 0 True (fst (cap_run sample_calls (sample_core 0, 0)))) = HK_OK"
    by code_simp
  have 2: "fst (validate_lease sample_owner (Some sample_lease) 5 0 True (fst (cap_run (sample_calls @ ?r) (sample_core 0, 0)))) =
    HK_ERR_STALE_HANDLE" by code_simp
  have "ls_active (leases (fst (cap_run (sample_calls @ ?r @ ?a) (sample_core 0, 0))) ! 0)"
    "ls_generation (leases (fst (cap_run (sample_calls @ ?r @ ?a) (sample_core 0, 0))) ! 0) = 2" by code_simp+
  moreover have "deadline_is_valid 9" by (simp add: deadline_is_valid_def)
  ultimately show ?thesis using stale_handle_forever [OF sample_init _ 1 2 r, where d = 9 and cc' = 0] r by simp
qed

text \<open>What \<open>hk_capability_core_acquire\<close> promises: an error leaves the core as it was and the handle zero; success
  gives a handle that validates to the context of the provider of the requested capability and instance, whose
  version lies in the requested range and which has the requested features, and every handle that was valid before
  is valid still, for the same provider.\<close>

theorem acquire_grants_lease:
  assumes "hk_capability_core_init infos prs n c0 = (HK_OK, c1)" and "\<forall>xs. infos = Some xs \<longrightarrow> unat n \<le> length xs"
    and "c = fst (cap_run calls (c1, w0))" and "hk_capability_core_acquire ow (Some rq) ty cc (Some l0) c w = (r, l', c', w')"
  shows "(r \<noteq> HK_OK \<longrightarrow> c' = c \<and> l' = Some HK_LEASE_NONE) \<and>
    (r = HK_OK \<longrightarrow> (\<exists>p < unat n. in_id (inventory c ! p) = ty \<and> in_instance (inventory c ! p) = rq_instance rq \<and>
        rq_minimum rq \<le> in_version (inventory c ! p) \<and> in_version (inventory c ! p) < rq_maximum_exclusive rq \<and>
        rq_required_features rq AND NOT (in_features (inventory c ! p)) = 0 \<and>
        hk_capability_core_validate_lease ow l' ty cc c' = (HK_OK, Some (pr_context (provider_at c p))))) \<and>
    (\<forall>ow2 l2 ty2 cc2. fst (hk_capability_core_validate_lease ow2 (Some l2) ty2 cc2 c) = HK_OK \<longrightarrow>
        hk_capability_core_validate_lease ow2 (Some l2) ty2 cc2 c' = hk_capability_core_validate_lease ow2 (Some l2) ty2 cc2 c)"
  using acquire_cases [OF assms(4)]
proof (elim disjE exE conjE)
  fix p i
  assume a: "r = HK_OK" "acquire_target ow rq cc c = Inr (p, i)" "validate_request (Some rq) = HK_OK" "ty \<noteq> 0" "ty = rq_id rq"
    "validate_owner c ow = HK_OK" "c' = add_lease p i ow ty c"
    "l' = Some \<lparr>l_slot = of_nat i, l_generation = ls_generation (leases c' ! i), l_owner = ow, l_capability_id = ty\<rparr>"
  have inv: "cap_inv c" using cap_inv_run [of "(c1, w0)" calls] cap_inv_init [OF assms(1,2)] assms(3) by simp
  have "provider_count c1 = n" using assms(1) by (auto simp: hk_capability_core_init_def split: if_splits)
  then have n: "provider_count c = n" using same_inventory_run [of "(c1, w0)" calls] assms(3) by (simp add: same_inventory_def)
  note t = acquire_targetD [OF a(2)] and p = acquire_target_provider [OF a(2)]
  have v: "version_is_valid (in_version (inventory c ! p))" using cap_invD(6) [OF inv p(1)] by (simp add: entry_ok_def Let_def)
  have "rq_minimum rq \<le> in_version (inventory c ! p)" "in_version (inventory c ! p) < rq_maximum_exclusive rq"
    using t(4,5) version_compare_less [OF v] validate_requestD [OF a(3)] by (simp_all add: not_less)
  moreover have "hk_capability_core_validate_lease ow l' ty cc c' = (HK_OK, Some (pr_context (provider_at c p)))"
    using validate_lease_new [OF inv a(6) t(11) p(1) a(4) t(3,8)] by (simp add: hk_capability_core_validate_lease_def a(7,8))
  ultimately show ?thesis using a(1,5,7) p t(6) n validate_lease_add [OF _ t(12)]
    by (auto simp: hk_capability_core_validate_lease_def)
qed simp

theorem acquire_grants_lease_witness:
  "\<exists>c' w'. hk_capability_core_acquire sample_owner (Some sample_request) 5 0 (Some HK_LEASE_NONE)
      (fst (cap_run [Owner_open (Some [sample_request]) 1] (sample_core 0, 0))) 0 = (HK_OK, Some sample_lease, c', w') \<and>
    hk_capability_core_validate_lease sample_owner (Some sample_lease) 5 0 c' = (HK_OK, Some ())"
proof -
  let ?c = "fst (cap_run [Owner_open (Some [sample_request]) 1] (sample_core 0, 0 :: nat))"
  obtain r l' c' w' where e: "hk_capability_core_acquire sample_owner (Some sample_request) 5 0 (Some HK_LEASE_NONE) ?c 0 = (r, l', c', w')"
    by (cases "hk_capability_core_acquire sample_owner (Some sample_request) 5 0 (Some HK_LEASE_NONE) ?c 0")
  have "fst (hk_capability_core_acquire sample_owner (Some sample_request) 5 0 (Some HK_LEASE_NONE) ?c 0) = 0"
    "fst (snd (hk_capability_core_acquire sample_owner (Some sample_request) 5 0 (Some HK_LEASE_NONE) ?c 0)) = Some sample_lease"
    by code_simp+
  with e have "r = HK_OK" "l' = Some sample_lease" by simp_all
  then show ?thesis using acquire_grants_lease [OF sample_init _ refl e] e by auto
qed

text \<open>C26. Closing an owner gives back all it held and nothing else: the owner's handle and all its leases are dead,
  whatever the cleanup callbacks answer, the counters lose exactly its leases, and every lease of another owner
  still names its slot.\<close>

theorem owner_close_releases_all:
  assumes "hk_capability_core_init infos prs n c0 = (HK_OK, c1)" and "\<forall>xs. infos = Some xs \<longrightarrow> unat n \<le> length xs"
    and "c = fst (cap_run calls (c1, w0))" and "validate_owner c ow = HK_OK" and "deadline_is_valid d"
    and "hk_capability_core_owner_close ow cc d c w = (res, c', w')"
  shows "res \<in> {HK_OK, HK_ERR_INTERNAL} \<and> validate_owner c' ow = HK_ERR_STALE_HANDLE \<and>
    (\<forall>i < 32. \<not> (ls_active (leases c' ! i) \<and> ls_owner (leases c' ! i) = ow)) \<and>
    (\<forall>i < 32. ls_active (leases c ! i) \<and> ls_owner (leases c ! i) \<noteq> ow \<longrightarrow> leases c' ! i = leases c ! i) \<and>
    (\<forall>ow2. ow2 \<noteq> ow \<and> validate_owner c ow2 = HK_OK \<longrightarrow> validate_owner c' ow2 = HK_OK) \<and>
    (\<forall>p < unat n. unat (ps_active_leases (provider_state c' ! p)) =
       length (filter (\<lambda>l. ls_active l \<and> unat (ls_provider_index l) = p \<and> ls_owner l \<noteq> ow) (leases c)))"
proof -
  have inv: "cap_inv c" using cap_inv_run [of "(c1, w0)" calls] cap_inv_init [OF assms(1,2)] assms(3) by simp
  have inv': "cap_inv c'" using cap_inv_close [OF inv, of ow cc d w] assms(6) by simp
  have "provider_count c1 = n" using assms(1) by (auto simp: hk_capability_core_init_def split: if_splits)
  then have n: "provider_count c = n" using same_inventory_run [of "(c1, w0)" calls] assms(3) by (simp add: same_inventory_def)
  from owner_close_eq [OF inv assms(5,4,6)] obtain c2 where c2: "res \<in> {HK_OK, HK_ERR_INTERNAL}" "same_tables c c2"
    "closed_leases {0..<32} ow (leases c) (leases c2)"
    "c' = c2\<lparr>owners := (owners c)[unat (o_slot ow) := retire_or_advance_owner (owners c ! unat (o_slot ow))]\<rparr>" by blast
  note o = validate_owner_okD [OF assms(4)] and len = cap_invD(3,4) [OF inv]
  have ls: "leases c' ! i = (if ls_active (leases c ! i) \<and> ls_owner (leases c ! i) = ow
      then retire_or_advance_lease (leases c ! i) else leases c ! i)" if "i < 32" for i
    using c2(3,4) that len by (simp add: closed_leases_def)
  have 1: "validate_owner c' ow = HK_ERR_STALE_HANDLE"
    using o len cap_invD(1) [OF inv'] c2(4) by (simp add: validate_owner_def Let_def HK_CAPABILITY_MAX_OWNERS_def)
  have 2: "validate_owner c' ow2 = HK_OK" if "ow2 \<noteq> ow" "validate_owner c ow2 = HK_OK" for ow2
  proof -
    have "unat (o_slot ow2) \<noteq> unat (o_slot ow)" using validate_owner_unique [OF that(2) assms(4)] that(1) by auto
    then show ?thesis using validate_owner_okD [OF that(2)] cap_invD(1) [OF inv'] c2(4)
      by (simp add: validate_owner_def Let_def HK_CAPABILITY_MAX_OWNERS_def)
  qed
  have 3: "unat (ps_active_leases (provider_state c' ! p)) =
      length (filter (\<lambda>l. ls_active l \<and> unat (ls_provider_index l) = p \<and> ls_owner l \<noteq> ow) (leases c))" if "p < unat n" for p
  proof -
    have eq: "ls_active (leases c' ! i) \<and> unat (ls_provider_index (leases c' ! i)) = p \<longleftrightarrow>
        ls_active (leases c ! i) \<and> unat (ls_provider_index (leases c ! i)) = p \<and> ls_owner (leases c ! i) \<noteq> ow" if "i < 32" for i
      using ls [OF that] by auto
    have "unat (ps_active_leases (provider_state c' ! p)) = lease_count p c'"
      using cap_invD(8) [OF inv'] that n cap_invD(2) [OF inv] by (simp add: counts_ok_def)
    also have "\<dots> = length (filter (\<lambda>l. ls_active l \<and> unat (ls_provider_index l) = p \<and> ls_owner l \<noteq> ow) (leases c))"
      using eq len(2) cap_invD(4) [OF inv'] unfolding lease_count_def length_filter_conv_card by (metis (mono_tags, lifting))
    finally show ?thesis .
  qed
  have 4: "\<forall>i < 32. \<not> (ls_active (leases c' ! i) \<and> ls_owner (leases c' ! i) = ow)" using ls by simp
  show ?thesis using c2(1) 1 2 3 4 ls by auto
qed

theorem owner_close_releases_all_witness:
  "\<exists>res c' w'. hk_capability_core_owner_close sample_owner 0 9 (fst (sample_leased 0)) 0 = (res, c', w') \<and>
    ls_active (leases (fst (sample_leased 0)) ! 0) \<and> validate_owner c' sample_owner = HK_ERR_STALE_HANDLE \<and>
    \<not> (ls_active (leases c' ! 0) \<and> ls_owner (leases c' ! 0) = sample_owner)"
proof -
  obtain res c' w' where e: "hk_capability_core_owner_close sample_owner 0 9 (fst (cap_run sample_calls (sample_core 0, 0))) 0 = (res, c', w')"
    by (cases "hk_capability_core_owner_close sample_owner 0 9 (fst (cap_run sample_calls (sample_core 0, 0))) 0")
  have 1: "validate_owner (fst (cap_run sample_calls (sample_core 0, 0))) sample_owner = HK_OK"
    "ls_active (leases (fst (cap_run sample_calls (sample_core 0, 0))) ! 0)" by code_simp+
  have "deadline_is_valid 9" by (simp add: deadline_is_valid_def)
  from owner_close_releases_all [OF sample_init _ refl 1(1) this e] 1(2) e show ?thesis
    by (auto simp: sample_leased_def)
qed

text \<open>A provider that fails to clean up is out of service: once a release has answered with the internal error,
  then after any further calls without a recovery of that provider no acquire of its capability succeeds and no
  handle of its leases validates.\<close>

theorem failed_cleanup_quarantines:
  assumes "hk_capability_core_init infos prs n c0 = (HK_OK, c1)" and "\<forall>xs. infos = Some xs \<longrightarrow> unat n \<le> length xs"
    and "c = fst (cap_run calls (c1, w0))" and "hk_capability_core_release ow ty cc d (Some l) c w = (HK_ERR_INTERNAL, l', c', w')"
    and "info = inventory c ! unat (ls_provider_index (leases c ! unat (l_slot l)))"
    and "\<forall>cc d. Recover (in_id info) (in_instance info) cc d \<notin> set calls'" and "c'' = fst (cap_run calls' (c', w'))"
  shows "(\<forall>ow2 rq ty2 cc2 l0 w2. rq_id rq = in_id info \<and> rq_instance rq = in_instance info \<longrightarrow>
      fst (hk_capability_core_acquire ow2 (Some rq) ty2 cc2 (Some l0) c'' w2) \<noteq> HK_OK) \<and>
    (\<forall>ow2 l2 ty2 cc2. ls_provider_index (leases c'' ! unat (l_slot l2)) = ls_provider_index (leases c ! unat (l_slot l)) \<longrightarrow>
      fst (hk_capability_core_validate_lease ow2 (Some l2) ty2 cc2 c'') \<noteq> HK_OK)"
proof -
  let ?p = "unat (ls_provider_index (leases c ! unat (l_slot l)))"
  have inv: "cap_inv c" using cap_inv_run [of "(c1, w0)" calls] cap_inv_init [OF assms(1,2)] assms(3) by simp
  have inv': "cap_inv c'" using cap_inv_release [OF inv, of ow ty cc d "Some l" w] assms(4) by simp
  then have inv'': "cap_inv c''" using cap_inv_run [of "(c', w')" calls'] assms(7) by simp
  have same: "same_inventory c c'" using same_inventory_release [of c ow ty cc d "Some l" w] assms(4) by simp
  moreover have "same_inventory c' c''" using same_inventory_run [of "(c', w')" calls'] assms(7) by simp
  ultimately have tables: "inventory c'' = inventory c" "inventory c' = inventory c" "provider_count c'' = provider_count c"
    by (simp_all add: same_inventory_def)
  note q = release_internal [OF inv assms(4)]
  have "quarantined ?p c''"
    using quarantined_run [where p = ?p and s = "(c', w')" and xs = calls'] q(1) assms(5-7) tables(2) by simp
  then show ?thesis
    using acquire_quarantined [OF inv'', where p = ?p] validate_quarantined [where c = c''] q(2) tables(1,3) assms(5) by simp
qed

theorem failed_cleanup_quarantines_witness:
  "\<exists>l' c' w'. hk_capability_core_release sample_owner 5 0 9 (Some sample_lease) (fst (sample_leased (- 15))) 0 =
      (HK_ERR_INTERNAL, l', c', w') \<and>
    fst (hk_capability_core_acquire sample_owner (Some sample_request) 5 0 (Some HK_LEASE_NONE) c' w') \<noteq> HK_OK"
proof -
  let ?c = "fst (cap_run sample_calls (sample_core (- 15), 0 :: nat))"
  have "fst (hk_capability_core_release sample_owner 5 0 9 (Some sample_lease) ?c 0) = HK_ERR_INTERNAL"
    "in_id (inventory ?c ! unat (ls_provider_index (leases ?c ! unat (l_slot sample_lease)))) = rq_id sample_request"
    "in_instance (inventory ?c ! unat (ls_provider_index (leases ?c ! unat (l_slot sample_lease)))) = rq_instance sample_request"
    by code_simp+
  moreover obtain l' c' w' where "hk_capability_core_release sample_owner 5 0 9 (Some sample_lease) ?c 0 =
      (fst (hk_capability_core_release sample_owner 5 0 9 (Some sample_lease) ?c 0), l', c', w')"
    by (cases "hk_capability_core_release sample_owner 5 0 9 (Some sample_lease) ?c 0") auto
  ultimately show ?thesis
    using failed_cleanup_quarantines [OF sample_init _ refl _ refl, where calls' = "[]" and calls = sample_calls and ?w0.0 = 0 and w = 0
        and ow = sample_owner and ty = 5 and cc = 0 and d = 9 and l = sample_lease] unfolding sample_leased_def by fastforce
qed

end
