(* ===== verification/Input_State.thy ===== *)
theory Input_State
  imports Capability_Core
begin

text \<open>
  The button input of the capability layer, \<open>capabilities/input_state.c\<close> with \<open>include/dristy/capability/input.h\<close>:
  samples of the button lines are debounced into a stable state, every change of it becomes an event in a ring
  of eight, and each lease reads the events through a cursor of its own that reports what it lost.

  The state is a record; a NULL state pointer is answered with the error of a NULL lease and is left out. The
  properties use the log of all events and the list of all accepted samples, which the code does not keep.
\<close>

section \<open>State\<close>

definition HK_PENDING :: hk_result_t where [simp]: "HK_PENDING = 1"
definition HK_ERR_OVERFLOW :: hk_result_t where [simp]: "HK_ERR_OVERFLOW = - 13"

definition HK_INPUT_CURSOR_CAPACITY :: nat where "HK_INPUT_CURSOR_CAPACITY = 32"
definition HK_INPUT_BUTTON_ALL :: u32 where "HK_INPUT_BUTTON_ALL = 0x01 OR 0x02 OR 0x04 OR 0x08"
definition HK_INPUT_SAMPLE_INTERVAL_US :: u64 where "HK_INPUT_SAMPLE_INTERVAL_US = 10000"
definition HK_INPUT_DEBOUNCE_INTERVAL_US :: u64 where "HK_INPUT_DEBOUNCE_INTERVAL_US = 20000"
definition HK_INPUT_EVENT_CAPACITY :: u64 where "HK_INPUT_EVENT_CAPACITY = 8"

record hk_input_event_t =
  ev_sequence :: u64
  ev_timestamp_us :: u64
  ev_state :: u32
  ev_changed :: u32
  ev_pressed :: u32
  ev_released :: u32
  ev_dropped :: u32

record hk_input_cursor_t =
  cu_generation :: u32
  cu_next_sequence :: u64
  cu_active :: bool

record hk_input_state_t =
  is_events :: "hk_input_event_t list"
  is_cursors :: "hk_input_cursor_t list"
  is_sequence :: u64
  is_next_sample_us :: u64
  is_candidate_since_us :: u64
  is_stable_state :: u32
  is_candidate_state :: u32
  is_initialized :: bool

definition event_zero :: hk_input_event_t where
  "event_zero = \<lparr>ev_sequence = 0, ev_timestamp_us = 0, ev_state = 0, ev_changed = 0, ev_pressed = 0, ev_released = 0, ev_dropped = 0\<rparr>"

definition cursor_zero :: hk_input_cursor_t where
  "cursor_zero = \<lparr>cu_generation = 0, cu_next_sequence = 0, cu_active = False\<rparr>"

definition hk_input_state_reset :: hk_input_state_t where
  "hk_input_state_reset = \<lparr>is_events = replicate (unat HK_INPUT_EVENT_CAPACITY) event_zero,
     is_cursors = replicate HK_INPUT_CURSOR_CAPACITY cursor_zero, is_sequence = 0, is_next_sample_us = 0,
     is_candidate_since_us = 0, is_stable_state = 0, is_candidate_state = 0, is_initialized = False\<rparr>"

section \<open>Operations\<close>

fun validate_lease_slot :: "hk_lease_t option \<Rightarrow> hk_result_t" where
  "validate_lease_slot None = HK_ERR_INVALID_ARGUMENT"
| "validate_lease_slot (Some l) =
     (if HK_INPUT_CURSOR_CAPACITY \<le> unat (l_slot l) \<or> l_generation l = 0 then HK_ERR_INVALID_ARGUMENT else HK_OK)"

text \<open>The slot of the ring that the event with the given sequence number has.\<close>

definition event_slot :: "u64 \<Rightarrow> nat" where
  "event_slot sequence = unat ((sequence - 1) mod HK_INPUT_EVENT_CAPACITY)"

definition hk_input_state_sample :: "u64 \<Rightarrow> u32 \<Rightarrow> hk_input_state_t \<Rightarrow> hk_result_t \<times> hk_input_state_t" where
  "hk_input_state_sample t raw s =
     (if t = - 1 \<or> raw AND NOT HK_INPUT_BUTTON_ALL \<noteq> 0 then (HK_ERR_INVALID_ARGUMENT, s)
      else if \<not> is_initialized s then
        (HK_OK, s\<lparr>is_stable_state := raw, is_candidate_state := raw, is_candidate_since_us := t,
           is_next_sample_us := t + HK_INPUT_SAMPLE_INTERVAL_US, is_initialized := True\<rparr>)
      else if t < is_candidate_since_us s then (HK_ERR_INTERNAL, s)
      else if t < is_next_sample_us s then (HK_PENDING, s)
      else if - 1 - HK_INPUT_SAMPLE_INTERVAL_US < t then (HK_ERR_LIMIT, s)
      else let s1 = s\<lparr>is_next_sample_us := t + HK_INPUT_SAMPLE_INTERVAL_US\<rparr> in
        if raw \<noteq> is_candidate_state s1 then (HK_OK, s1\<lparr>is_candidate_state := raw, is_candidate_since_us := t\<rparr>)
        else if raw = is_stable_state s1 \<or> t - is_candidate_since_us s1 < HK_INPUT_DEBOUNCE_INTERVAL_US then (HK_OK, s1)
        else if is_sequence s1 = - 1 then (HK_ERR_LIMIT, s1)
        else let changed = raw XOR is_stable_state s1; sequence = is_sequence s1 + 1 in
          (HK_OK, s1\<lparr>is_stable_state := raw, is_sequence := sequence,
             is_events := (is_events s1)[event_slot sequence :=
               \<lparr>ev_sequence = sequence, ev_timestamp_us = t, ev_state = raw, ev_changed = changed,
                ev_pressed = changed AND raw, ev_released = changed AND NOT raw AND HK_INPUT_BUTTON_ALL, ev_dropped = 0\<rparr>]\<rparr>))"

definition hk_input_state_open_cursor :: "hk_lease_t option \<Rightarrow> hk_input_state_t \<Rightarrow> hk_result_t \<times> hk_input_state_t" where
  "hk_input_state_open_cursor lease s =
     (if validate_lease_slot lease \<noteq> HK_OK then (validate_lease_slot lease, s)
      else if is_sequence s = - 1 then (HK_ERR_LIMIT, s)
      else (HK_OK, s\<lparr>is_cursors := (is_cursors s)[unat (l_slot (the lease)) :=
        \<lparr>cu_generation = l_generation (the lease), cu_next_sequence = is_sequence s + 1, cu_active = True\<rparr>]\<rparr>))"

definition hk_input_state_close_cursor :: "hk_lease_t option \<Rightarrow> hk_input_state_t \<Rightarrow> hk_result_t \<times> hk_input_state_t" where
  "hk_input_state_close_cursor lease s =
     (if validate_lease_slot lease \<noteq> HK_OK then (validate_lease_slot lease, s)
      else let i = unat (l_slot (the lease)); cursor = is_cursors s ! i in
        (HK_OK, if cu_active cursor \<and> cu_generation cursor = l_generation (the lease)
           then s\<lparr>is_cursors := (is_cursors s)[i := cursor_zero]\<rparr> else s))"

text \<open>The value pointer is an option; the result carries its contents after the call.\<close>

definition hk_input_state_get :: "u32 option \<Rightarrow> hk_input_state_t \<Rightarrow> hk_result_t \<times> u32 option" where
  "hk_input_state_get v s =
     (if v = None then (HK_ERR_INVALID_ARGUMENT, None)
      else if \<not> is_initialized s then (HK_ERR_INVALID_STATE, v)
      else (HK_OK, Some (is_stable_state s)))"

text \<open>\<open>event\<close> says whether the event pointer is not NULL; the second component is what is stored through it.\<close>

definition hk_input_state_next_event ::
  "hk_lease_t option \<Rightarrow> bool \<Rightarrow> hk_input_state_t \<Rightarrow> hk_result_t \<times> hk_input_event_t option \<times> hk_input_state_t" where
  "hk_input_state_next_event lease event s =
     (if validate_lease_slot lease \<noteq> HK_OK \<or> \<not> event
      then (if validate_lease_slot lease \<noteq> HK_OK then validate_lease_slot lease else HK_ERR_INVALID_ARGUMENT, None, s)
      else let i = unat (l_slot (the lease)); cursor = is_cursors s ! i in
        if \<not> cu_active cursor \<or> cu_generation cursor \<noteq> l_generation (the lease) then (HK_ERR_STALE_HANDLE, Some event_zero, s)
        else if is_sequence s < cu_next_sequence cursor then (HK_PENDING, Some event_zero, s)
        else let oldest = (if HK_INPUT_EVENT_CAPACITY \<le> is_sequence s then is_sequence s - HK_INPUT_EVENT_CAPACITY + 1 else 1) in
          if cu_next_sequence cursor < oldest
          then let dropped = is_sequence s - cu_next_sequence cursor + 1 in
            (HK_ERR_OVERFLOW,
             Some (event_zero\<lparr>ev_sequence := is_sequence s, ev_state := is_stable_state s,
               ev_timestamp_us := (if is_sequence s \<noteq> 0 then ev_timestamp_us (is_events s ! event_slot (is_sequence s)) else 0),
               ev_dropped := (if ucast (- 1 :: u32) < dropped then - 1 else ucast dropped)\<rparr>),
             s\<lparr>is_cursors := (is_cursors s)[i := cursor\<lparr>cu_next_sequence := is_sequence s + 1\<rparr>]\<rparr>)
          else (HK_OK, Some (is_events s ! event_slot (cu_next_sequence cursor)),
             s\<lparr>is_cursors := (is_cursors s)[i := cursor\<lparr>cu_next_sequence := cu_next_sequence cursor + 1\<rparr>]\<rparr>))"

section \<open>Runs, with the log of events and the accepted samples\<close>

datatype input_call = Sample u64 u32 | Open_cursor "hk_lease_t option" | Close_cursor "hk_lease_t option" | Next_event "hk_lease_t option" bool

type_synonym input_world = "hk_input_state_t \<times> hk_input_event_t list \<times> (u64 \<times> u32) list"

fun input_step :: "input_call \<Rightarrow> input_world \<Rightarrow> input_world" where
  "input_step (Sample t raw) (s, evs, acc) =
     (let (r, s') = hk_input_state_sample t raw s in
        (s', if is_sequence s' \<noteq> is_sequence s then evs @ [is_events s' ! event_slot (is_sequence s')] else evs,
         if r = HK_OK then acc @ [(t, raw)] else acc))"
| "input_step (Open_cursor l) (s, evs, acc) = (snd (hk_input_state_open_cursor l s), evs, acc)"
| "input_step (Close_cursor l) (s, evs, acc) = (snd (hk_input_state_close_cursor l s), evs, acc)"
| "input_step (Next_event l e) (s, evs, acc) = (snd (snd (hk_input_state_next_event l e s)), evs, acc)"

definition input_run :: "input_call list \<Rightarrow> input_world \<Rightarrow> input_world" where
  "input_run calls w = fold input_step calls w"

definition input_start :: input_world where
  "input_start = (hk_input_state_reset, [], [])"

section \<open>The ring holds the end of the log\<close>

lemma u64_max: "(w :: u64) \<noteq> - 1 \<longleftrightarrow> unat w + 1 < 2 ^ 64"
proof -
  have "w = - 1 \<longleftrightarrow> unat w = 2 ^ 64 - 1" by (simp add: word_unat_eq_iff unsigned_minus_1_eq_mask mask_eq_exp_minus_1)
  then show ?thesis using unsigned_less [of w, where ?'a = nat] by auto
qed

lemma unat_ucast_max: "unat (ucast (- 1 :: u32) :: u64) = 2 ^ 32 - 1"
  by (simp add: unsigned_ucast_eq unsigned_minus_1_eq_mask take_bit_eq_mod mask_eq_exp_minus_1)

lemma ucast_of_nat_u32: "ucast (of_nat k :: u64) = (of_nat k :: u32)"
  by (simp add: word_unat_eq_iff unsigned_ucast_eq unat_of_nat take_bit_eq_mod mod_mod_cancel)

lemma u64_succ: "(w :: u64) \<noteq> - 1 \<Longrightarrow> unat (w + 1) = unat w + 1"
  unfolding u64_max by (simp add: unat_word_ariths)

lemma event_slot_Suc:
  assumes "unat w = Suc k"
  shows "event_slot w = k mod 8"
proof -
  have "w \<noteq> 0" using assms by auto
  then have "unat (w - 1) = k" using unat_minus_one [of w] assms by simp
  then show ?thesis by (simp add: event_slot_def HK_INPUT_EVENT_CAPACITY_def unat_mod)
qed

lemma event_slot_lt [simp]: "event_slot w < 8"
  by (simp add: event_slot_def HK_INPUT_EVENT_CAPACITY_def unat_mod)

definition ring_ok :: "hk_input_state_t \<Rightarrow> hk_input_event_t list \<Rightarrow> bool" where
  "ring_ok s evs \<longleftrightarrow> length (is_events s) = 8 \<and> length (is_cursors s) = 32 \<and> unat (is_sequence s) = length evs \<and>
     (\<forall>k < length evs. length evs \<le> k + 8 \<longrightarrow> is_events s ! (k mod 8) = evs ! k) \<and>
     (\<forall>i < 32. cu_active (is_cursors s ! i) \<longrightarrow> 0 < unat (cu_next_sequence (is_cursors s ! i)) \<and>
        unat (cu_next_sequence (is_cursors s ! i)) \<le> length evs + 1)"

lemma ring_okD:
  assumes "ring_ok s evs"
  shows "length (is_events s) = 8" "length (is_cursors s) = 32" "unat (is_sequence s) = length evs"
    "\<And>k. k < length evs \<Longrightarrow> length evs \<le> k + 8 \<Longrightarrow> is_events s ! (k mod 8) = evs ! k"
    "\<And>i. i < 32 \<Longrightarrow> cu_active (is_cursors s ! i) \<Longrightarrow> 0 < unat (cu_next_sequence (is_cursors s ! i)) \<and>
        unat (cu_next_sequence (is_cursors s ! i)) \<le> length evs + 1"
  using assms by (auto simp: ring_ok_def)

text \<open>What a sample does to the ring: nothing, or one event at the place of the oldest.\<close>

lemma sample_cases:
  assumes "hk_input_state_sample t raw s = (r, s')"
  shows "is_cursors s' = is_cursors s \<and>
    (is_sequence s' = is_sequence s \<and> is_events s' = is_events s \<or>
     is_sequence s \<noteq> - 1 \<and> is_sequence s' = is_sequence s + 1 \<and> r = HK_OK \<and> is_initialized s \<and> raw = is_candidate_state s \<and>
       raw \<noteq> is_stable_state s \<and> is_candidate_since_us s \<le> t \<and>
       HK_INPUT_DEBOUNCE_INTERVAL_US \<le> t - is_candidate_since_us s \<and> raw AND NOT HK_INPUT_BUTTON_ALL = 0 \<and>
       (\<exists>e. is_events s' = (is_events s)[event_slot (is_sequence s') := e] \<and>
          e = \<lparr>ev_sequence = is_sequence s', ev_timestamp_us = t, ev_state = raw, ev_changed = raw XOR is_stable_state s,
                ev_pressed = (raw XOR is_stable_state s) AND raw,
                ev_released = (raw XOR is_stable_state s) AND NOT raw AND HK_INPUT_BUTTON_ALL, ev_dropped = 0\<rparr>))"
  using assms unfolding hk_input_state_sample_def Let_def
  by (auto simp: not_less split: if_splits)

lemma word_succ_neq [simp]: "(w :: 'a::len word) + 1 \<noteq> w"
  by simp

lemma ring_sample:
  assumes "ring_ok s evs" and "input_step (Sample t raw) (s, evs, acc) = (s', evs', acc')"
  shows "ring_ok s' evs' \<and> (\<exists>xs. evs' = evs @ xs) \<and> is_cursors s' = is_cursors s"
proof -
  note d = ring_okD [OF assms(1)]
  obtain r where r: "hk_input_state_sample t raw s = (r, s')"
    and evs': "evs' = (if is_sequence s' \<noteq> is_sequence s then evs @ [is_events s' ! event_slot (is_sequence s')] else evs)"
    using assms(2) by (auto simp: Let_def split: prod.splits)
  from sample_cases [OF r] consider "is_cursors s' = is_cursors s" "is_sequence s' = is_sequence s" "is_events s' = is_events s"
    | e where "is_cursors s' = is_cursors s" "is_sequence s \<noteq> - 1" "is_sequence s' = is_sequence s + 1"
      "is_events s' = (is_events s)[event_slot (is_sequence s') := e]" by blast
  then show ?thesis
  proof cases
    case 1
    then show ?thesis using assms(1) evs' by (simp add: ring_ok_def)
  next
    case (2 e)
    have slot: "event_slot (is_sequence s') = length evs mod 8" using event_slot_Suc [of "is_sequence s'"] u64_succ [OF 2(2)] 2(3) d(3) by simp
    have ev: "evs' = evs @ [e]" using evs' 2 d(1) slot by simp
    have "is_events s' ! (k mod 8) = evs' ! k" if "k < length evs'" "length evs' \<le> k + 8" for k
    proof (cases "k = length evs")
      case True
      then show ?thesis using 2(4) slot d(1) by (simp add: ev)
    next
      case False
      then have k: "k < length evs" "length evs < k + 8" using that by (simp_all add: ev)
      have "k mod 8 \<noteq> length evs mod 8"
      proof
        assume "k mod 8 = length evs mod 8"
        then have "8 dvd length evs - k" using mod_eq_dvd_iff_nat [of k "length evs" 8] k by simp
        then show False using k by (auto dest: dvd_imp_le)
      qed
      then show ?thesis using d(4) [of k] k 2(4) slot by (simp add: ev nth_append)
    qed
    then show ?thesis using d(1-3) 2 u64_succ [OF 2(2)] by (auto simp: ring_ok_def ev dest: d(5) intro: le_SucI)
  qed
qed

text \<open>Every call keeps the ring, and the log only grows.\<close>

lemma valid_lease_slot: "validate_lease_slot l = HK_OK \<Longrightarrow> \<exists>x. l = Some x \<and> unat (l_slot x) < 32"
  by (cases l) (auto simp: HK_INPUT_CURSOR_CAPACITY_def split: if_splits)

lemma ring_cursor:
  assumes "ring_ok s evs" and "cu_active c \<Longrightarrow> 0 < unat (cu_next_sequence c) \<and> unat (cu_next_sequence c) \<le> length evs + 1"
  shows "ring_ok (s\<lparr>is_cursors := (is_cursors s)[i := c]\<rparr>) evs"
  using assms by (cases "i < 32") (auto simp: ring_ok_def nth_list_update list_update_beyond split: if_splits)

text \<open>What the next event is, in terms of the log.\<close>

lemma next_event_cases:
  assumes "ring_ok s evs" and "is_sequence s \<noteq> - 1" and "validate_lease_slot (Some l) = HK_OK"
    and "c = is_cursors s ! unat (l_slot l)" and "cu_active c" and "cu_generation c = l_generation l"
    and "n = unat (cu_next_sequence c)"
  shows "hk_input_state_next_event (Some l) True s =
    (if length evs < n then (HK_PENDING, Some event_zero, s)
     else if n + 8 \<le> length evs then
       (HK_ERR_OVERFLOW, Some (event_zero\<lparr>ev_sequence := is_sequence s, ev_state := is_stable_state s,
           ev_timestamp_us := ev_timestamp_us (last evs), ev_dropped := of_nat (min (2 ^ 32 - 1) (length evs + 1 - n))\<rparr>),
         s\<lparr>is_cursors := (is_cursors s)[unat (l_slot l) := c\<lparr>cu_next_sequence := of_nat (length evs + 1)\<rparr>]\<rparr>)
     else (HK_OK, Some (evs ! (n - 1)),
         s\<lparr>is_cursors := (is_cursors s)[unat (l_slot l) := c\<lparr>cu_next_sequence := of_nat (n + 1)\<rparr>]\<rparr>))"
proof -
  note d = ring_okD [OF assms(1)]
  have slot: "unat (l_slot l) < 32" using valid_lease_slot [OF assms(3)] by auto
  have n: "0 < n" "n \<le> length evs + 1" using d(5) [OF slot] assms(4-7) by auto
  have cap: "length evs + 1 < 2 ^ 64" using assms(2) d(3) unfolding u64_max by simp
  have seq: "is_sequence s = of_nat (length evs)" using d(3) by (metis of_nat_unat ucast_id)
  have nxt: "cu_next_sequence c = of_nat n" using assms(7) by (metis of_nat_unat ucast_id)
  have unats: "unat (of_nat n :: u64) = n" "unat (of_nat (length evs) :: u64) = length evs"
    using n cap by (simp_all add: unat_of_nat_lt)
  have pend: "is_sequence s < cu_next_sequence c \<longleftrightarrow> length evs < n"
    using d(3) assms(7) by (simp add: word_less_nat_alt)
  show ?thesis
  proof (cases "length evs < n")
    case True
    then show ?thesis using assms(3-6) pend by (simp add: hk_input_state_next_event_def Let_def)
  next
    case False
    have len: "length evs = Suc (length evs - 1)" using False n by simp
    have full: "HK_INPUT_EVENT_CAPACITY \<le> is_sequence s \<longleftrightarrow> 8 \<le> length evs"
      using d(3) by (simp add: HK_INPUT_EVENT_CAPACITY_def word_le_nat_alt)
    have old: "unat (if HK_INPUT_EVENT_CAPACITY \<le> is_sequence s then is_sequence s - HK_INPUT_EVENT_CAPACITY + 1 else 1) =
        (if 8 \<le> length evs then length evs - 8 + 1 else 1)"
    proof (cases "8 \<le> length evs")
      case True
      have "is_sequence s - 8 + 1 = of_nat (length evs - 8 + 1)" using True by (simp add: seq of_nat_diff)
      then have "unat (is_sequence s - 8 + 1) = length evs - 8 + 1" using cap by (simp add: unat_of_nat_lt del: of_nat_add of_nat_Suc)
      then show ?thesis using True full by (simp add: HK_INPUT_EVENT_CAPACITY_def)
    qed (use full in simp)
    have over: "cu_next_sequence c < (if HK_INPUT_EVENT_CAPACITY \<le> is_sequence s then is_sequence s - HK_INPUT_EVENT_CAPACITY + 1 else 1)
        \<longleftrightarrow> n + 8 \<le> length evs"
      unfolding word_less_nat_alt old using assms(7) n False by auto
    show ?thesis
    proof (cases "n + 8 \<le> length evs")
      case True
      have dr: "is_sequence s - cu_next_sequence c + 1 = of_nat (length evs + 1 - n)"
        using n by (simp add: seq nxt of_nat_diff)
      have ud: "unat (is_sequence s - cu_next_sequence c + 1) = length evs + 1 - n"
        unfolding dr using cap by (simp add: unat_of_nat_lt del: of_nat_diff)
      have big: "(ucast (- 1 :: u32) :: u64) < is_sequence s - cu_next_sequence c + 1 \<longleftrightarrow> 2 ^ 32 - 1 < length evs + 1 - n"
        unfolding word_less_nat_alt ud by (simp add: unat_ucast_max)
      have drop: "(if (ucast (- 1 :: u32) :: u64) < is_sequence s - cu_next_sequence c + 1 then - 1 else ucast (is_sequence s - cu_next_sequence c + 1)) =
          (of_nat (min (2 ^ 32 - 1) (length evs + 1 - n)) :: u32)"
        unfolding big unfolding dr by (simp add: min_def ucast_of_nat_u32 del: of_nat_diff)
      have nz: "is_sequence s \<noteq> 0" and ne: "evs \<noteq> []" using d(3) False n by auto
      have slot_last: "is_events s ! event_slot (is_sequence s) = last evs"
        using d(4) [of "length evs - 1"] event_slot_Suc [of "is_sequence s" "length evs - 1"] d(3) len False n
        by (simp add: last_conv_nth [OF ne])
      have sq: "is_sequence s + 1 = of_nat (length evs + 1)" by (simp add: seq)
      show ?thesis
        unfolding hk_input_state_next_event_def Let_def option.sel assms(4) [symmetric] over drop pend sq slot_last
        using assms(3,5,6) False True nz by (simp del: validate_lease_slot.simps of_nat_add of_nat_Suc of_nat_diff)
    next
      case f: False
      have e: "is_events s ! event_slot (cu_next_sequence c) = evs ! (n - 1)"
        using event_slot_Suc [of "cu_next_sequence c" "n - 1"] assms(7) n d(4) [of "n - 1"] False f by simp
      have sq: "cu_next_sequence c + 1 = of_nat (n + 1)" by (simp add: nxt)
      show ?thesis
        unfolding hk_input_state_next_event_def Let_def option.sel assms(4) [symmetric] over pend sq e
        using assms(3,5,6) False f by (simp del: validate_lease_slot.simps of_nat_add of_nat_Suc of_nat_diff)
    qed
  qed
qed

section \<open>What a reader gets\<close>

datatype outcome = Got hk_input_event_t | Lost nat

text \<open>The outcomes of the reads with the handle \<open>(slot, generation)\<close> of \<open>l\<close> along a run.\<close>

definition same_handle :: "hk_lease_t \<Rightarrow> hk_lease_t \<Rightarrow> bool" where
  "same_handle l l' \<longleftrightarrow> l_slot l = l_slot l' \<and> l_generation l = l_generation l'"

definition read_outcome :: "hk_lease_t \<Rightarrow> input_call \<Rightarrow> hk_input_state_t \<Rightarrow> outcome list" where
  "read_outcome l call s = (case call of
     Next_event (Some l') True \<Rightarrow>
       (if same_handle l l' then (case hk_input_state_next_event (Some l') True s of (r, e, _) \<Rightarrow>
          if r = HK_OK then [Got (the e)] else if r = HK_ERR_OVERFLOW then [Lost (unat (ev_dropped (the e)))] else []) else [])
   | _ \<Rightarrow> [])"

fun read_outcomes :: "hk_lease_t \<Rightarrow> input_call list \<Rightarrow> input_world \<Rightarrow> outcome list" where
  "read_outcomes l [] w = []"
| "read_outcomes l (call # calls) w = read_outcome l call (fst w) @ read_outcomes l calls (input_step call w)"

text \<open>An outcome accounts for one event or for a number of lost ones.\<close>

fun accounted :: "outcome \<Rightarrow> hk_input_event_t option list" where
  "accounted (Got e) = [Some e]"
| "accounted (Lost n) = replicate n None"

text \<open>A call that reopens or closes the slot of \<open>l\<close>.\<close>

fun touches :: "hk_lease_t \<Rightarrow> input_call \<Rightarrow> bool" where
  "touches l (Open_cursor (Some l')) = (l_slot l' = l_slot l)"
| "touches l (Close_cursor (Some l')) = (l_slot l' = l_slot l)"
| "touches l call = False"

definition reader_at :: "hk_lease_t \<Rightarrow> nat \<Rightarrow> hk_input_state_t \<Rightarrow> bool" where
  "reader_at l n s \<longleftrightarrow> unat (l_slot l) < 32 \<and> l_generation l \<noteq> 0 \<and> cu_active (is_cursors s ! unat (l_slot l)) \<and>
     cu_generation (is_cursors s ! unat (l_slot l)) = l_generation l \<and> unat (cu_next_sequence (is_cursors s ! unat (l_slot l))) = n"

lemma reader_at_valid: "reader_at l n s \<Longrightarrow> validate_lease_slot (Some l) = HK_OK"
  by (simp add: reader_at_def HK_INPUT_CURSOR_CAPACITY_def)

lemma ring_step:
  assumes "ring_ok s evs" and "is_sequence s \<noteq> - 1" and "input_step call (s, evs, acc) = (s', evs', acc')"
  shows "ring_ok s' evs' \<and> (\<exists>xs. evs' = evs @ xs)"
proof (cases call)
  case (Sample t raw)
  then show ?thesis using ring_sample [OF assms(1)] assms(3) by blast
next
  case (Open_cursor l)
  have "unat (is_sequence s + 1) = length evs + 1" using u64_succ [OF assms(2)] ring_okD(3) [OF assms(1)] by simp
  then show ?thesis using Open_cursor assms
    by (auto simp: hk_input_state_open_cursor_def intro!: ring_cursor split: if_splits)
next
  case (Close_cursor l)
  then show ?thesis using assms
    by (auto simp: hk_input_state_close_cursor_def Let_def cursor_zero_def intro!: ring_cursor split: if_splits)
next
  case (Next_event l e)
  have evs': "evs' = evs" using assms(3) Next_event by simp
  show ?thesis
  proof (cases "validate_lease_slot l = HK_OK \<and> e \<and> cu_active (is_cursors s ! unat (l_slot (the l))) \<and>
      cu_generation (is_cursors s ! unat (l_slot (the l))) = l_generation (the l)")
    case True
    then obtain x where x: "l = Some x" "unat (l_slot x) < 32" using valid_lease_slot by blast
    define c where "c = is_cursors s ! unat (l_slot x)"
    have c: "cu_active c" "cu_generation c = l_generation x" "validate_lease_slot (Some x) = HK_OK" using True x by (simp_all add: c_def)
    have n: "0 < unat (cu_next_sequence c)" "unat (cu_next_sequence c) \<le> length evs + 1"
      using ring_okD(5) [OF assms(1) x(2)] c by (simp_all add: c_def)
    have cap: "length evs + 1 < 2 ^ 64" using assms(2) ring_okD(3) [OF assms(1)] unfolding u64_max by simp
    have ring: "ring_ok (s\<lparr>is_cursors := (is_cursors s)[unat (l_slot x) := c\<lparr>cu_next_sequence := of_nat k\<rparr>]\<rparr>) evs"
      if "0 < k" "k \<le> length evs + 1" for k
      by (rule ring_cursor [OF assms(1)]) (use that cap in \<open>simp add: unat_of_nat_lt\<close>)
    show ?thesis
      using next_event_cases [OF assms(1,2) c(3) c_def c(1,2) refl] assms(1,3) Next_event x(1) True n
      by (auto simp: evs' simp del: of_nat_add of_nat_Suc intro!: ring split: if_splits)
  next
    case False
    then have "s' = s" using assms(3) Next_event by (auto simp: hk_input_state_next_event_def Let_def split: if_splits)
    then show ?thesis using assms(1) evs' by simp
  qed
qed

text \<open>A reader moves only by its own reads, by the number of events they account for.\<close>

lemma reader_step:
  assumes "ring_ok s evs" and "length evs < 2 ^ 32" and "reader_at l n s" and "\<not> touches l call"
    and "input_step call (s, evs, acc) = (s', evs', acc')"
  shows "\<exists>m. reader_at l (n + m) s' \<and> length (concat (map accounted (read_outcome l call s))) = m \<and> n + m \<le> length evs + 1 \<and>
    (\<forall>i < m. \<forall>e. concat (map accounted (read_outcome l call s)) ! i = Some e \<longrightarrow> e = evs ! (n - 1 + i))"
proof -
  note d = ring_okD [OF assms(1)] and v = reader_at_valid [OF assms(3)]
  note r = assms(3) [unfolded reader_at_def]
  have ns: "is_sequence s \<noteq> - 1" unfolding u64_max using d(3) assms(2) by simp
  have n: "0 < n" "n \<le> length evs + 1" using d(5) [of "unat (l_slot l)"] r by auto
  have same: ?thesis if "is_cursors s' ! unat (l_slot l) = is_cursors s ! unat (l_slot l)" "read_outcome l call s = []"
    using that assms(3) n by (intro exI [of _ 0]) (simp add: reader_at_def)
  show ?thesis
  proof (cases call)
    case (Sample t raw)
    then show ?thesis using ring_sample [OF assms(1)] assms(5) by (intro same) (auto simp: read_outcome_def)
  next
    case (Open_cursor l')
    then show ?thesis using assms(4,5)
      by (intro same) (cases l', auto simp: read_outcome_def hk_input_state_open_cursor_def word_unat_eq_iff split: if_splits)
  next
    case (Close_cursor l')
    then show ?thesis using assms(4,5)
      by (intro same) (cases l', auto simp: read_outcome_def hk_input_state_close_cursor_def Let_def word_unat_eq_iff split: if_splits)
  next
    case (Next_event l' e)
    show ?thesis
    proof (cases "\<exists>x. l' = Some x \<and> e \<and> same_handle l x")
      case False
      have o: "read_outcome l call s = []" using False Next_event by (auto simp: read_outcome_def split: option.split bool.split)
      have "is_cursors s' ! unat (l_slot l) = is_cursors s ! unat (l_slot l)"
      proof (cases "s' = s")
        case ne: False
        then obtain x c where x: "l' = Some x" "e" "s' = s\<lparr>is_cursors := (is_cursors s)[unat (l_slot x) := c]\<rparr>"
          "cu_generation (is_cursors s ! unat (l_slot x)) = l_generation x"
          using Next_event assms(5) by (cases l') (auto simp: hk_input_state_next_event_def Let_def split: if_splits)
        with False have "\<not> same_handle l x" by simp
        then have "unat (l_slot x) \<noteq> unat (l_slot l)" using x(4) r by (auto simp: same_handle_def word_unat_eq_iff)
        then show ?thesis using x(3) by simp
      qed simp
      then show ?thesis using o by (rule same)
    next
      case True
      then obtain x where x: "l' = Some x" "e" "l_slot x = l_slot l" "l_generation x = l_generation l" by (auto simp: same_handle_def)
      define c where "c = is_cursors s ! unat (l_slot x)"
      have c: "validate_lease_slot (Some x) = HK_OK" "cu_active c" "cu_generation c = l_generation x" "n = unat (cu_next_sequence c)"
        using v r x by (simp_all add: c_def)
      note next_ev = next_event_cases [OF assms(1) ns c(1) c_def c(2,3,4)]
      have s': "s' = snd (snd (hk_input_state_next_event (Some x) True s))" using assms(5) Next_event x by simp
      have out: "read_outcome l call s = (case hk_input_state_next_event (Some x) True s of (r, e, _) \<Rightarrow>
          if r = HK_OK then [Got (the e)] else if r = HK_ERR_OVERFLOW then [Lost (unat (ev_dropped (the e)))] else [])"
        using Next_event x by (simp add: read_outcome_def same_handle_def)
      have move: "reader_at l k (s\<lparr>is_cursors := (is_cursors s)[unat (l_slot x) := c\<lparr>cu_next_sequence := of_nat k\<rparr>]\<rparr>)" if "k \<le> length evs + 1" for k
        using that r x c d(2) assms(2) by (simp add: reader_at_def unat_of_nat_lt)
      consider "length evs < n" | "n + 8 \<le> length evs" | "n \<le> length evs" "length evs < n + 8" by linarith
      then show ?thesis
      proof cases
        case 1
        then show ?thesis using next_ev s' out by (intro same) simp_all
      next
        case 2
        have drop: "unat (of_nat (min (2 ^ 32 - 1) (length evs + 1 - n)) :: u32) = length evs + 1 - n"
        proof -
          have "min (2 ^ 32 - 1) (length evs + 1 - n) = length evs + 1 - n" using assms(2) n by (intro min_absorb2) simp
          moreover have "length evs + 1 - n < 2 ^ LENGTH(32)" using assms(2) n by simp
          ultimately show ?thesis by (simp only: unat_of_nat_lt)
        qed
        show ?thesis
          using move [of "length evs + 1"] next_ev s' out 2 n drop
          by (intro exI [of _ "length evs + 1 - n"]) (simp del: of_nat_add of_nat_Suc)
      next
        case 3
        then show ?thesis using move [of "n + 1"] next_ev s' out n
          by (intro exI [of _ 1]) (simp del: of_nat_add of_nat_Suc)
      qed
    qed
  qed
qed

lemma reader_run:
  assumes "ring_ok s evs" and "reader_at l n s" and "\<forall>call \<in> set calls. \<not> touches l call"
    and "input_run calls (s, evs, acc) = (s', evs', acc')" and "length evs' < 2 ^ 32"
  shows "(\<exists>xs. evs' = evs @ xs) \<and> ring_ok s' evs' \<and>
    reader_at l (n + length (concat (map accounted (read_outcomes l calls (s, evs, acc))))) s' \<and>
    n + length (concat (map accounted (read_outcomes l calls (s, evs, acc)))) \<le> length evs' + 1 \<and>
    (\<forall>i e. i < length (concat (map accounted (read_outcomes l calls (s, evs, acc)))) \<and>
       concat (map accounted (read_outcomes l calls (s, evs, acc))) ! i = Some e \<longrightarrow> e = evs' ! (n - 1 + i))"
  using assms
proof (induction calls arbitrary: s evs acc n)
  case Nil
  have "0 < n" "n \<le> length evs + 1" using ring_okD(5) [OF Nil(1), of "unat (l_slot l)"] Nil(2) by (auto simp: reader_at_def)
  then show ?case using Nil by (simp add: input_run_def)
next
  case (Cons call calls)
  obtain s1 evs1 acc1 where step: "input_step call (s, evs, acc) = (s1, evs1, acc1)" by (metis prod_cases3)
  have rest: "input_run calls (s1, evs1, acc1) = (s', evs', acc')" using Cons.prems(4) step by (simp add: input_run_def)
  have grow: "length evs \<le> length (fst (snd (input_step c (s, evs, acc))))" for c s evs acc
    by (cases c) (auto simp: Let_def split: prod.split)
  have grows: "length evs \<le> length (fst (snd (input_run cs (s, evs, acc))))" for cs s evs acc
  proof (induction cs arbitrary: s evs acc)
    case (Cons c cs)
    obtain a b d where e: "input_step c (s, evs, acc) = (a, b, d)" by (metis prod_cases3)
    from Cons.IH [of b a d] grow [of evs c s acc] e show ?case by (simp add: input_run_def)
  qed (simp add: input_run_def)
  have "length evs1 < 2 ^ 32" "length evs < 2 ^ 32"
    using grows [of evs1 calls s1 acc1] rest Cons.prems(5) grow [of evs call s acc] step by simp_all
  note small = this
  have ns: "is_sequence s \<noteq> - 1" unfolding u64_max using ring_okD(3) [OF Cons.prems(1)] small(2) by simp
  from ring_step [OF Cons.prems(1) ns step] obtain xs where ring: "ring_ok s1 evs1" and xs: "evs1 = evs @ xs" by blast
  let ?o = "concat (map accounted (read_outcome l call s))"
  from reader_step [OF Cons.prems(1) small(2) Cons.prems(2) _ step] Cons.prems(3)
  have r: "reader_at l (n + length ?o) s1" "n + length ?o \<le> length evs + 1" "\<And>i e. i < length ?o \<Longrightarrow> ?o ! i = Some e \<Longrightarrow> e = evs ! (n - 1 + i)"
    by auto
  let ?p = "concat (map accounted (read_outcomes l calls (s1, evs1, acc1)))"
  have outs: "concat (map accounted (read_outcomes l (call # calls) (s, evs, acc))) = ?o @ ?p" by (simp add: step)
  from Cons.IH [OF ring r(1) _ rest Cons.prems(5)] Cons.prems(3)
  have ih: "\<exists>ys. evs' = evs1 @ ys" "ring_ok s' evs'" "reader_at l (n + length ?o + length ?p) s'" "n + length ?o + length ?p \<le> length evs' + 1"
    "\<And>i e. i < length ?p \<Longrightarrow> ?p ! i = Some e \<Longrightarrow> e = evs' ! (n + length ?o - 1 + i)" by auto
  from ih(1) obtain ys where ys: "evs' = evs @ xs @ ys" using xs by auto
  have n: "0 < n" using ring_okD(5) [OF Cons.prems(1), of "unat (l_slot l)"] Cons.prems(2) by (auto simp: reader_at_def)
  have "e = evs' ! (n - 1 + i)" if "i < length (?o @ ?p)" "(?o @ ?p) ! i = Some e" for i e
  proof (cases "i < length ?o")
    case True
    then have "e = evs ! (n - 1 + i)" "n - 1 + i < length evs" using r(2,3) that n by (simp_all add: nth_append)
    then show ?thesis by (simp add: ys nth_append)
  next
    case False
    then have "?p ! (i - length ?o) = Some e" "i - length ?o < length ?p" using that by (simp_all add: nth_append)
    from ih(5) [OF this(2,1)] n False show ?thesis by simp
  qed
  then show ?case unfolding outs using ih(2-4) ys by (simp add: add.assoc)
qed

section \<open>Debouncing\<close>

definition deb_ok :: "hk_input_state_t \<Rightarrow> (u64 \<times> u32) list \<Rightarrow> bool" where
  "deb_ok s acc \<longleftrightarrow> (is_initialized s \<longrightarrow> (\<exists>i < length acc. acc ! i = (is_candidate_since_us s, is_candidate_state s) \<and>
     (\<forall>j. i \<le> j \<and> j < length acc \<longrightarrow> snd (acc ! j) = is_candidate_state s)))"

lemma deb_frame [simp]:
  "deb_ok (s\<lparr>is_cursors := c\<rparr>) acc = deb_ok s acc" "deb_ok (s\<lparr>is_next_sample_us := x\<rparr>) acc = deb_ok s acc"
  "deb_ok (s\<lparr>is_stable_state := y\<rparr>) acc = deb_ok s acc" "deb_ok (s\<lparr>is_sequence := z\<rparr>) acc = deb_ok s acc"
  "deb_ok (s\<lparr>is_events := es\<rparr>) acc = deb_ok s acc"
  by (simp_all add: deb_ok_def)

lemma deb_new: "is_candidate_since_us s = t \<Longrightarrow> is_candidate_state s = raw \<Longrightarrow> deb_ok s (acc @ [(t, raw)])"
  by (auto simp: deb_ok_def nth_append intro!: exI [of _ "length acc"])

lemma deb_more:
  assumes "deb_ok s acc" and "raw = is_candidate_state s"
  shows "deb_ok s (acc @ [(t, raw)])"
proof -
  have "\<exists>i < length (acc @ [(t, raw)]). (acc @ [(t, raw)]) ! i = (is_candidate_since_us s, is_candidate_state s) \<and>
     (\<forall>j. i \<le> j \<and> j < length (acc @ [(t, raw)]) \<longrightarrow> snd ((acc @ [(t, raw)]) ! j) = is_candidate_state s)" if init: "is_initialized s"
  proof -
    from assms(1) init obtain i where "i < length acc" "acc ! i = (is_candidate_since_us s, is_candidate_state s)"
      "\<forall>j. i \<le> j \<and> j < length acc \<longrightarrow> snd (acc ! j) = is_candidate_state s" by (auto simp: deb_ok_def)
    then show ?thesis using assms(2) by (intro exI [of _ i]) (auto simp: nth_append)
  qed
  then show ?thesis by (simp add: deb_ok_def)
qed

lemma deb_step:
  assumes "deb_ok s acc" and "input_step call (s, evs, acc) = (s', evs', acc')"
  shows "deb_ok s' acc'"
proof (cases call)
  case (Sample t raw)
  obtain r where r: "hk_input_state_sample t raw s = (r, s')" and acc': "acc' = (if r = HK_OK then acc @ [(t, raw)] else acc)"
    using assms(2) Sample by (auto simp: Let_def split: prod.splits)
  show ?thesis using r deb_more [OF assms(1), of raw t] assms(1) unfolding acc' hk_input_state_sample_def Let_def
    by (auto intro: deb_new split: if_splits)
next
  case (Open_cursor l)
  then show ?thesis using assms by (auto simp: hk_input_state_open_cursor_def split: if_splits)
next
  case (Close_cursor l)
  then show ?thesis using assms by (auto simp: hk_input_state_close_cursor_def Let_def split: if_splits)
next
  case (Next_event l e)
  then show ?thesis using assms by (auto simp: hk_input_state_next_event_def Let_def split: if_splits)
qed

lemma deb_run: "deb_ok (fst (input_run calls input_start)) (snd (snd (input_run calls input_start)))"
proof (induction calls rule: rev_induct)
  case (snoc call calls)
  obtain s evs acc where w: "input_run calls input_start = (s, evs, acc)" by (metis prod_cases3)
  obtain s' evs' acc' where st: "input_step call (s, evs, acc) = (s', evs', acc')" by (metis prod_cases3)
  from deb_step [OF _ st] snoc w st show ?case by (simp add: input_run_def)
qed (simp add: input_run_def input_start_def deb_ok_def hk_input_state_reset_def)

lemma ring_start: "ring_ok hk_input_state_reset []"
  by (simp add: ring_ok_def hk_input_state_reset_def HK_INPUT_EVENT_CAPACITY_def HK_INPUT_CURSOR_CAPACITY_def cursor_zero_def)

lemma ring_run:
  assumes "input_run calls input_start = (s, evs, acc)" and "length evs < 2 ^ 32"
  shows "ring_ok s evs"
  using assms
proof (induction calls arbitrary: s evs acc rule: rev_induct)
  case (snoc call calls)
  obtain s1 evs1 acc1 where w: "input_run calls input_start = (s1, evs1, acc1)" by (metis prod_cases3)
  have st: "input_step call (s1, evs1, acc1) = (s, evs, acc)" using snoc.prems(1) w by (simp add: input_run_def)
  have "length evs1 \<le> length evs" using st by (cases call) (auto simp: Let_def split: prod.splits if_splits)
  then have small: "length evs1 < 2 ^ 32" using snoc.prems(2) by simp
  have ring: "ring_ok s1 evs1" by (rule snoc.IH [OF w small])
  have "is_sequence s1 \<noteq> - 1" unfolding u64_max using ring_okD(3) [OF ring] small by simp
  from ring_step [OF ring this st] show ?case by blast
qed (simp add: input_run_def input_start_def ring_start)

definition buttons_ok :: "hk_input_state_t \<Rightarrow> bool" where
  "buttons_ok s \<longleftrightarrow> length (is_events s) = 8 \<and> is_stable_state s AND NOT HK_INPUT_BUTTON_ALL = 0"

lemma buttons_step:
  assumes "buttons_ok s" and "input_step call (s, evs, acc) = (s', evs', acc')"
  shows "buttons_ok s'"
proof (cases call)
  case (Sample t raw)
  then have "snd (hk_input_state_sample t raw s) = s'" using assms(2) by (auto simp: Let_def split: prod.splits)
  then show ?thesis using assms(1)
    by (auto simp: hk_input_state_sample_def Let_def buttons_ok_def split: if_splits)
next
  case (Open_cursor l)
  then show ?thesis using assms by (auto simp: hk_input_state_open_cursor_def buttons_ok_def split: if_splits)
next
  case (Close_cursor l)
  then show ?thesis using assms by (auto simp: hk_input_state_close_cursor_def Let_def buttons_ok_def split: if_splits)
next
  case (Next_event l e)
  then show ?thesis using assms by (auto simp: hk_input_state_next_event_def Let_def buttons_ok_def split: if_splits)
qed

lemma buttons_run: "buttons_ok (fst (input_run calls input_start))"
proof (induction calls rule: rev_induct)
  case (snoc call calls)
  obtain s evs acc where w: "input_run calls input_start = (s, evs, acc)" by (metis prod_cases3)
  obtain s' evs' acc' where st: "input_step call (s, evs, acc) = (s', evs', acc')" by (metis prod_cases3)
  from buttons_step [OF _ st] snoc w st show ?case by (simp add: input_run_def)
qed (simp add: input_run_def input_start_def buttons_ok_def hk_input_state_reset_def HK_INPUT_EVENT_CAPACITY_def)

text \<open>The bits of an event.\<close>

lemma pressed_released:
  assumes "raw AND NOT all = 0" and "old AND NOT all = (0 :: u32)"
  shows "(raw XOR old) AND raw AND ((raw XOR old) AND NOT raw AND all) = 0"
    "((raw XOR old) AND raw) OR ((raw XOR old) AND NOT raw AND all) = raw XOR old"
proof -
  have b: "bit raw k \<Longrightarrow> bit all k" "bit old k \<Longrightarrow> bit all k" for k
    using arg_cong [OF assms(1), of "\<lambda>w. bit w k"] arg_cong [OF assms(2), of "\<lambda>w. bit w k"]
    by (auto simp: bit_simps dest: bit_imp_le_length)
  show "(raw XOR old) AND raw AND ((raw XOR old) AND NOT raw AND all) = 0"
    by (rule bit_word_eqI) (auto simp: bit_simps)
  show "((raw XOR old) AND raw) OR ((raw XOR old) AND NOT raw AND all) = raw XOR old"
    by (rule bit_word_eqI) (use b in \<open>auto simp: bit_simps\<close>)
qed

section \<open>Properties\<close>

text \<open>C9. Every event is delivered once and in order, or counted as lost: whatever samples and other readers do after
  a cursor was opened, its reads account for the events after the opening one by one, each delivered event being
  the event at its place in the log and each overflow counting exactly the events that it skips; and a read
  answers that nothing is pending exactly when all events are accounted for.\<close>

theorem input_events_accounted:
  assumes "input_run calls0 input_start = (s, evs, acc)" and "hk_input_state_open_cursor (Some l) s = (HK_OK, s1)"
    and "\<forall>call \<in> set calls. \<not> touches l call" and "input_run calls (s1, evs, acc) = (s2, evs2, acc2)" and "length evs2 < 2 ^ 32"
    and "out = concat (map accounted (read_outcomes l calls (s1, evs, acc)))"
  shows "length evs + length out \<le> length evs2 \<and>
    (\<forall>i < length out. \<forall>e. out ! i = Some e \<longrightarrow> e = evs2 ! (length evs + i)) \<and>
    (fst (hk_input_state_next_event (Some l) True s2) = HK_PENDING \<longleftrightarrow> length evs + length out = length evs2)"
proof -
  have "length evs \<le> length (fst (snd (input_run cs (s1, evs, acc))))" for cs
  proof (induction cs rule: rev_induct)
    case (snoc c cs)
    obtain a b d where e: "input_run cs (s1, evs, acc) = (a, b, d)" by (metis prod_cases3)
    have "length b \<le> length (fst (snd (input_step c (a, b, d))))" by (cases c) (auto simp: Let_def split: prod.split)
    then show ?case using snoc e by (simp add: input_run_def)
  qed (simp add: input_run_def)
  from this [of calls] assms(4,5) have small: "length evs < 2 ^ 32" by simp
  have ring: "ring_ok s evs" by (rule ring_run [OF assms(1) small])
  have v: "validate_lease_slot (Some l) = HK_OK" and ns: "is_sequence s \<noteq> - 1"
    and s1: "s1 = s\<lparr>is_cursors := (is_cursors s)[unat (l_slot l) := \<lparr>cu_generation = l_generation l,
      cu_next_sequence = is_sequence s + 1, cu_active = True\<rparr>]\<rparr>"
    using assms(2) by (auto simp: hk_input_state_open_cursor_def simp del: validate_lease_slot.simps split: if_splits)
  have n: "unat (is_sequence s + 1) = length evs + 1" using u64_succ [OF ns] ring_okD(3) [OF ring] by simp
  have ring1: "ring_ok s1 evs" unfolding s1 by (rule ring_cursor [OF ring]) (simp add: n)
  have at1: "reader_at l (length evs + 1) s1"
    using v n ring_okD(2) [OF ring] by (auto simp: reader_at_def s1 HK_INPUT_CURSOR_CAPACITY_def split: if_splits)
  from reader_run [OF ring1 at1 assms(3,4,5)]
  have r: "ring_ok s2 evs2" "reader_at l (length evs + 1 + length out) s2" "length evs + 1 + length out \<le> length evs2 + 1"
    "\<forall>i e. i < length out \<and> out ! i = Some e \<longrightarrow> e = evs2 ! (length evs + i)" unfolding assms(6) [symmetric] by simp_all
  have "is_sequence s2 \<noteq> - 1" unfolding u64_max using ring_okD(3) [OF r(1)] assms(5) by simp
  from next_event_cases [OF r(1) this v refl _ _ refl] r(2)
  have "fst (hk_input_state_next_event (Some l) True s2) = HK_PENDING \<longleftrightarrow> length evs2 < length evs + 1 + length out"
    by (simp add: reader_at_def)
  with r(3,4) show ?thesis by auto
qed

abbreviation sample_press :: "input_call list" where
  "sample_press \<equiv> [Sample 100000 1, Sample 120000 1]"

theorem input_events_accounted_witness:
  "\<exists>s evs acc s1 s2 evs2 acc2 l. input_run [Sample 0 0] input_start = (s, evs, acc) \<and>
    hk_input_state_open_cursor (Some l) s = (HK_OK, s1) \<and> input_run sample_press (s1, evs, acc) = (s2, evs2, acc2) \<and>
    length evs2 = 1 \<and> fst (hk_input_state_next_event (Some l) True s2) \<noteq> HK_PENDING"
proof -
  define l where "l = HK_LEASE_NONE\<lparr>l_slot := 3, l_generation := 7\<rparr>"
  obtain s evs acc where 1: "input_run [Sample 0 0] input_start = (s, evs, acc)" by (metis prod_cases3)
  obtain r s1 where 2: "hk_input_state_open_cursor (Some l) s = (r, s1)" by (metis surj_pair)
  obtain s2 evs2 acc2 where 3: "input_run sample_press (s1, evs, acc) = (s2, evs2, acc2)" by (metis prod_cases3)
  have "fst (hk_input_state_open_cursor (Some (HK_LEASE_NONE\<lparr>l_slot := 3, l_generation := 7\<rparr>)) (fst (input_run [Sample 0 0] input_start))) = 0"
    "length (fst (snd (input_run [Sample 0 0] input_start))) = 0"
    "length (fst (snd (input_run sample_press (snd (hk_input_state_open_cursor (Some (HK_LEASE_NONE\<lparr>l_slot := 3, l_generation := 7\<rparr>))
       (fst (input_run [Sample 0 0] input_start))), fst (snd (input_run [Sample 0 0] input_start)), snd (snd (input_run [Sample 0 0] input_start)))))) = 1"
    by code_simp+
  then have e: "r = HK_OK" "length evs = 0" "length evs2 = 1" using 1 2 3 by (simp_all add: l_def)
  have "read_outcomes l sample_press (s1, evs, acc) = []"
    by (simp add: read_outcome_def del: input_step.simps)
  note none = this
  have "fst (hk_input_state_next_event (Some l) True s2) \<noteq> HK_PENDING"
    using input_events_accounted [OF 1 2 [unfolded e(1)] _ 3 _ refl, unfolded none] e(2,3) by simp
  with 1 2 3 e show ?thesis by blast
qed

text \<open>C27. The buttons are debounced: an event says that the lines were sampled in its state at least 20 ms before and at
  every sample accepted since, and its bits are exactly the change of the reported state, pressed and released
  apart.\<close>

theorem input_debounced:
  assumes "input_run calls input_start = (s, evs, acc)" and "input_step (Sample t raw) (s, evs, acc) = (s', evs', acc')" and "evs' \<noteq> evs"
  shows "\<exists>e i. evs' = evs @ [e] \<and> ev_state e = raw \<and> is_stable_state s' = raw \<and> ev_changed e = raw XOR is_stable_state s \<and> ev_changed e \<noteq> 0 \<and>
    ev_pressed e AND ev_released e = 0 \<and> ev_pressed e OR ev_released e = ev_changed e \<and> ev_pressed e AND raw = ev_pressed e \<and>
    i < length acc \<and> unat (fst (acc ! i)) + 20000 \<le> unat t \<and> (\<forall>j. i \<le> j \<and> j < length acc \<longrightarrow> snd (acc ! j) = raw)"
proof -
  have b: "buttons_ok s" and deb: "deb_ok s acc" using buttons_run [of calls] deb_run [of calls] assms(1) by simp_all
  obtain r where r: "hk_input_state_sample t raw s = (r, s')"
    and evs': "evs' = (if is_sequence s' \<noteq> is_sequence s then evs @ [is_events s' ! event_slot (is_sequence s')] else evs)"
    using assms(2) by (auto simp: Let_def split: prod.splits)
  then have ne: "is_sequence s' \<noteq> is_sequence s" using assms(3) by auto
  with sample_cases [OF r] obtain e where e: "is_initialized s" "raw = is_candidate_state s" "raw \<noteq> is_stable_state s"
    "is_candidate_since_us s \<le> t" "HK_INPUT_DEBOUNCE_INTERVAL_US \<le> t - is_candidate_since_us s" "raw AND NOT HK_INPUT_BUTTON_ALL = 0"
    "is_events s' = (is_events s)[event_slot (is_sequence s') := e]"
    "e = \<lparr>ev_sequence = is_sequence s', ev_timestamp_us = t, ev_state = raw, ev_changed = raw XOR is_stable_state s,
          ev_pressed = (raw XOR is_stable_state s) AND raw,
          ev_released = (raw XOR is_stable_state s) AND NOT raw AND HK_INPUT_BUTTON_ALL, ev_dropped = 0\<rparr>" by blast
  have stable: "is_stable_state s' = raw" using r ne unfolding hk_input_state_sample_def Let_def by (auto split: if_splits)
  have ev: "evs' = evs @ [e]" using evs' ne e(7) b by (simp add: buttons_ok_def)
  from deb e(1,2) obtain i where i: "i < length acc" "acc ! i = (is_candidate_since_us s, raw)"
    "\<forall>j. i \<le> j \<and> j < length acc \<longrightarrow> snd (acc ! j) = raw" by (auto simp: deb_ok_def)
  have "20000 \<le> unat (t - is_candidate_since_us s)" using e(5) by (simp add: HK_INPUT_DEBOUNCE_INTERVAL_US_def word_le_nat_alt)
  then have "unat (fst (acc ! i)) + 20000 \<le> unat t" using i(2) e(4) by (simp add: unat_sub word_le_nat_alt)
  with i ev stable e pressed_released [OF e(6), of "is_stable_state s"] b show ?thesis
    by (intro exI [of _ e] exI [of _ i]) (simp add: buttons_ok_def and.assoc)
qed

theorem input_debounced_witness:
  "\<exists>s evs acc s' evs' acc' e. input_run [Sample 0 0, Sample 100000 1] input_start = (s, evs, acc) \<and>
    input_step (Sample 120000 1) (s, evs, acc) = (s', evs', acc') \<and> evs' = evs @ [e] \<and> ev_state e = 1 \<and> ev_changed e = 1 XOR is_stable_state s"
proof -
  obtain s evs acc where 1: "input_run [Sample 0 0, Sample 100000 1] input_start = (s, evs, acc)" by (metis prod_cases3)
  obtain s' evs' acc' where 2: "input_step (Sample 120000 1) (s, evs, acc) = (s', evs', acc')" by (metis prod_cases3)
  have "length (fst (snd (input_run [Sample 0 0, Sample 100000 1] input_start))) = 0"
    "length (fst (snd (input_step (Sample 120000 1) (input_run [Sample 0 0, Sample 100000 1] input_start)))) = 1" by code_simp+
  then have "evs' \<noteq> evs" using 1 2 by auto
  from input_debounced [OF 1 2 this] 1 2 show ?thesis by blast
qed

end
