(* ===== verification/Terminal_Buffer.thy ===== *)
theory Terminal_Buffer
  imports Dristy_Prelude
begin

text \<open>
  The history of the terminal application, \<open>apps/terminal/terminal_buffer.c\<close>: a ring of 64 lines of at most 192
  characters, wrapped into rows of the display's width, with a viewport that follows the newest row or stays
  scrolled back. The static variables are one record. The counters of the C code are 16 and 32 bit unsigned; the
  model uses naturals, and the invariant bounds them far below the widths (the scroll offset by the 64 * 192 rows
  that the history can have), so that no operation wraps.

  The specification is a history, the list of the lines as strings, and the list of its wrapped rows: writing
  refines the history, and the visible rows are a window of the wrapped rows.
\<close>

section \<open>State\<close>

definition TERMINAL_HISTORY_LINE_COUNT :: nat where "TERMINAL_HISTORY_LINE_COUNT = 64"
definition TERMINAL_HISTORY_LINE_LENGTH :: nat where "TERMINAL_HISTORY_LINE_LENGTH = 192"

record terminal_line_t =
  tl_text :: "u8 list"
  tl_length :: nat

record terminal_state =
  g_lines :: "terminal_line_t list"
  g_head :: nat
  g_count :: nat
  g_columns :: nat
  g_rows :: nat
  g_scroll_offset :: nat
  g_auto_follow :: bool

definition line_zero :: terminal_line_t where
  "line_zero = \<lparr>tl_text = replicate (TERMINAL_HISTORY_LINE_LENGTH + 1) 0, tl_length = 0\<rparr>"

section \<open>Operations\<close>

definition terminal_line_slot :: "nat \<Rightarrow> terminal_state \<Rightarrow> nat" where
  "terminal_line_slot index s = (g_head s + index) mod TERMINAL_HISTORY_LINE_COUNT"

definition terminal_line_at :: "nat \<Rightarrow> terminal_state \<Rightarrow> terminal_line_t" where
  "terminal_line_at index s = g_lines s ! terminal_line_slot index s"

definition terminal_line_rows :: "terminal_line_t \<Rightarrow> nat \<Rightarrow> nat" where
  "terminal_line_rows line columns =
     (if columns = 0 \<or> tl_length line = 0 then 1 else (tl_length line + columns - 1) div columns)"

definition terminal_total_rows_for :: "nat \<Rightarrow> terminal_state \<Rightarrow> nat" where
  "terminal_total_rows_for columns s = (\<Sum>i\<leftarrow>[0..<g_count s]. terminal_line_rows (terminal_line_at i s) columns)"

definition terminal_max_scroll_offset :: "terminal_state \<Rightarrow> nat" where
  "terminal_max_scroll_offset s =
     (let total = terminal_total_rows_for (g_columns s) s in if g_rows s < total then total - g_rows s else 0)"

definition terminal_clamp_viewport :: "terminal_state \<Rightarrow> terminal_state" where
  "terminal_clamp_viewport s =
     (let maximum = terminal_max_scroll_offset s;
          s1 = (if maximum < g_scroll_offset s then s\<lparr>g_scroll_offset := maximum\<rparr> else s)
      in if g_auto_follow s1 then s1\<lparr>g_scroll_offset := 0\<rparr> else s1)"

definition terminal_note_added_rows :: "nat \<Rightarrow> terminal_state \<Rightarrow> terminal_state" where
  "terminal_note_added_rows rows s =
     (if g_auto_follow s then s else s\<lparr>g_scroll_offset := g_scroll_offset s + rows\<rparr>)"

text \<open>The result is the slot of the new line.\<close>

definition terminal_append_line :: "terminal_state \<Rightarrow> nat \<times> terminal_state" where
  "terminal_append_line s =
     (let (slot, s1) = (if g_count s < TERMINAL_HISTORY_LINE_COUNT
        then (terminal_line_slot (g_count s) s, s\<lparr>g_count := g_count s + 1\<rparr>)
        else (let s' = s\<lparr>g_head := (g_head s + 1) mod TERMINAL_HISTORY_LINE_COUNT\<rparr>
              in (terminal_line_slot (g_count s' - 1) s', s')));
        s2 = s1\<lparr>g_lines := (g_lines s1)[slot := line_zero]\<rparr>
      in (slot, terminal_note_added_rows 1 s2))"

text \<open>The end of \<open>terminal_buffer_putc\<close>: a character is stored at the end of the line in the given slot.\<close>

definition store_char :: "u8 \<Rightarrow> nat \<Rightarrow> terminal_state \<Rightarrow> terminal_state" where
  "store_char c slot s =
     (let line = g_lines s ! slot;
          before = terminal_line_rows line (g_columns s);
          line' = \<lparr>tl_text = (tl_text line)[tl_length line := c, tl_length line + 1 := 0], tl_length = tl_length line + 1\<rparr>;
          s1 = s\<lparr>g_lines := (g_lines s)[slot := line']\<rparr>;
          after = terminal_line_rows line' (g_columns s1);
          s2 = (if before < after then terminal_note_added_rows (after - before) s1 else s1)
      in terminal_clamp_viewport s2)"

text \<open>The body of \<open>terminal_buffer_putc\<close> for a character that is not a tab.\<close>

definition putc_plain :: "u8 \<Rightarrow> terminal_state \<Rightarrow> terminal_state" where
  "putc_plain c s =
     (if c = 13 then s
      else if c = 10 then terminal_clamp_viewport (snd (terminal_append_line s))
      else let c' = (if c < 32 \<or> 126 < c then 63 else c);
               slot0 = terminal_line_slot (g_count s - 1) s;
               (slot, s1) = (if TERMINAL_HISTORY_LINE_LENGTH \<le> tl_length (g_lines s ! slot0)
                             then terminal_append_line s else (slot0, s))
           in store_char c' slot s1)"

definition terminal_buffer_putc :: "u8 \<Rightarrow> terminal_state \<Rightarrow> terminal_state" where
  "terminal_buffer_putc c s = (if c = 9 then (putc_plain 32 ^^ 4) s else putc_plain c s)"

definition terminal_buffer_init :: "nat \<Rightarrow> nat \<Rightarrow> terminal_state" where
  "terminal_buffer_init columns rows =
     \<lparr>g_lines = replicate TERMINAL_HISTORY_LINE_COUNT line_zero, g_head = 0, g_count = 1,
      g_columns = (if columns \<noteq> 0 then columns else 1), g_rows = (if rows \<noteq> 0 then rows else 1),
      g_scroll_offset = 0, g_auto_follow = True\<rparr>"

text \<open>The loop that finds the line and the character at the top of the view: from line \<open>i\<close> on, with \<open>remaining\<close>
  rows to go. \<open>None\<close> when the lines end first.\<close>

fun find_anchor :: "nat list \<Rightarrow> nat \<Rightarrow> terminal_state \<Rightarrow> (nat \<times> nat) option" where
  "find_anchor [] remaining s = None"
| "find_anchor (i # is) remaining s =
     (let line_rows = terminal_line_rows (terminal_line_at i s) (g_columns s)
      in if remaining < line_rows then Some (i, remaining * g_columns s) else find_anchor is (remaining - line_rows) s)"

definition terminal_buffer_set_geometry :: "nat \<Rightarrow> nat \<Rightarrow> terminal_state \<Rightarrow> terminal_state" where
  "terminal_buffer_set_geometry columns0 rows0 s =
     (let columns = (if columns0 \<noteq> 0 then columns0 else 1); rows = (if rows0 \<noteq> 0 then rows0 else 1) in
      if columns = g_columns s \<and> rows = g_rows s then s
      else let maximum = terminal_max_scroll_offset s;
               old_top = maximum - (if maximum < g_scroll_offset s then maximum else g_scroll_offset s);
               (anchor_line, anchor_char) = (case find_anchor [0..<g_count s] old_top s of
                   Some a \<Rightarrow> a | None \<Rightarrow> (g_count s - 1, 0));
               s1 = s\<lparr>g_columns := columns, g_rows := rows\<rparr>
           in if g_auto_follow s1 then s1\<lparr>g_scroll_offset := 0\<rparr>
              else let desired = (\<Sum>i\<leftarrow>[0..<anchor_line]. terminal_line_rows (terminal_line_at i s1) columns) + anchor_char div columns;
                       maximum' = terminal_max_scroll_offset s1;
                       desired_top = (if maximum' < desired then maximum' else desired)
                   in s1\<lparr>g_scroll_offset := maximum' - desired_top\<rparr>)"

text \<open>The argument is the C string without its terminating zero; \<open>None\<close> is NULL.\<close>

definition terminal_buffer_write :: "u8 list option \<Rightarrow> terminal_state \<Rightarrow> terminal_state" where
  "terminal_buffer_write str s = (case str of None \<Rightarrow> s | Some cs \<Rightarrow> fold terminal_buffer_putc cs s)"

definition terminal_buffer_scroll_up :: "terminal_state \<Rightarrow> terminal_state" where
  "terminal_buffer_scroll_up s =
     (if g_scroll_offset s < terminal_max_scroll_offset s
      then s\<lparr>g_scroll_offset := g_scroll_offset s + 1, g_auto_follow := False\<rparr> else s)"

definition terminal_buffer_scroll_down :: "terminal_state \<Rightarrow> terminal_state" where
  "terminal_buffer_scroll_down s =
     (let s1 = (if 0 < g_scroll_offset s then s\<lparr>g_scroll_offset := g_scroll_offset s - 1\<rparr> else s)
      in if g_scroll_offset s1 = 0 then s1\<lparr>g_auto_follow := True\<rparr> else s1)"

definition terminal_buffer_follow_latest :: "terminal_state \<Rightarrow> terminal_state" where
  "terminal_buffer_follow_latest s = s\<lparr>g_scroll_offset := 0, g_auto_follow := True\<rparr>"

text \<open>The loop of \<open>terminal_buffer_visible_row\<close>, with the row buffer \<open>buf\<close> of spaces and its zero.\<close>

fun copy_row :: "nat list \<Rightarrow> nat \<Rightarrow> u8 list \<Rightarrow> terminal_state \<Rightarrow> u8 list" where
  "copy_row [] target buf s = buf"
| "copy_row (i # is) target buf s =
     (let line = terminal_line_at i s; line_rows = terminal_line_rows line (g_columns s) in
      if target < line_rows
      then let start = target * g_columns s;
               available = (if start < tl_length line then tl_length line - start else 0);
               copy0 = (if available < g_columns s then available else g_columns s);
               copy = (if length buf - 1 < copy0 then length buf - 1 else copy0)
           in if 0 < copy then mem_write 0 (slice start copy (tl_text line)) buf else buf
      else copy_row is (target - line_rows) buf s)"

text \<open>The caller's buffer of \<open>text_size\<close> bytes after the call; nothing is written to an empty one.\<close>

definition terminal_buffer_visible_row :: "nat \<Rightarrow> nat \<Rightarrow> terminal_state \<Rightarrow> u8 list" where
  "terminal_buffer_visible_row row text_size s =
     (if text_size = 0 then []
      else let maximum = terminal_max_scroll_offset s;
               target = maximum - (if maximum < g_scroll_offset s then maximum else g_scroll_offset s) + row
           in copy_row [0..<g_count s] target (replicate (text_size - 1) 32 @ [0]) s)"

record terminal_buffer_status_t =
  st_total_rows :: nat
  st_scroll_offset :: nat
  st_max_scroll_offset :: nat
  st_visible_rows :: nat
  st_auto_follow :: bool

definition terminal_buffer_status :: "terminal_state \<Rightarrow> terminal_buffer_status_t" where
  "terminal_buffer_status s = \<lparr>st_total_rows = terminal_total_rows_for (g_columns s) s, st_scroll_offset = g_scroll_offset s,
     st_max_scroll_offset = terminal_max_scroll_offset s, st_visible_rows = g_rows s, st_auto_follow = g_auto_follow s\<rparr>"

section \<open>The specification\<close>

text \<open>A history is a non-empty list of lines; it keeps the newest 64.\<close>

type_synonym history = "u8 list list"

definition keep_newest :: "history \<Rightarrow> history" where
  "keep_newest h = drop (length h - 64) h"

definition hist_grow :: "u8 \<Rightarrow> history \<Rightarrow> history" where
  "hist_grow c h =
     (if c = 13 then h
      else if c = 10 then h @ [[]]
      else let c' = (if c \<in> {32..126} then c else 63) in
        if length (last h) < 192 then butlast h @ [last h @ [c']] else h @ [[c']])"

definition hist_char :: "u8 \<Rightarrow> history \<Rightarrow> history" where
  "hist_char c h = keep_newest (hist_grow c h)"

text \<open>A tab counts as four spaces.\<close>

definition expand_tab :: "u8 \<Rightarrow> u8 list" where
  "expand_tab c = (if c = 9 then [32, 32, 32, 32] else [c])"

definition expand_tabs :: "u8 list \<Rightarrow> u8 list" where
  "expand_tabs cs = concat (map expand_tab cs)"

text \<open>The rows of a line and of a history.\<close>

function wrap_line :: "nat \<Rightarrow> u8 list \<Rightarrow> u8 list list" where
  "wrap_line cols line = (if cols = 0 \<or> length line \<le> cols then [line] else take cols line # wrap_line cols (drop cols line))"
  by auto
termination by (relation "measure (\<lambda>(_, line). length line)") auto

declare wrap_line.simps [simp del]

definition wrap_rows :: "nat \<Rightarrow> history \<Rightarrow> u8 list list" where
  "wrap_rows cols h = concat (map (wrap_line cols) h)"

section \<open>Wrapping\<close>

lemma wrap_line_ne [simp]: "wrap_line cols l \<noteq> []"
  using wrap_line.simps [of cols l] by (cases "cols = 0 \<or> length l \<le> cols") (simp_all only: if_True if_False list.distinct not_False_eq_True)

lemma div_past: "0 < c \<Longrightarrow> (k + c) div c = Suc (k div c)" for c k :: nat
  using div_add_self2 [of c k] by simp

lemma length_wrap_line: "0 < cols \<Longrightarrow> length (wrap_line cols l) = (if l = [] then 1 else (length l + cols - 1) div cols)"
proof (induction cols l rule: wrap_line.induct)
  case (1 cols l)
  show ?case
  proof (cases "length l \<le> cols")
    case True
    have "(length l + cols - 1) div cols = 1" if l_ne: "l \<noteq> []"
    proof -
      obtain n where n: "length l = Suc n" using l_ne by (cases "length l") auto
      then have "n < cols" using True by simp
      then show ?thesis using div_past [OF "1.prems", of n] by (simp add: n)
    qed
    moreover have "wrap_line cols l = [l]" using True by (subst wrap_line.simps) simp
    ultimately show ?thesis by simp
  next
    case False
    define m where "m = length l - cols"
    have m: "length l = m + cols" "0 < m" using False by (simp_all add: m_def)
    then have ne: "drop cols l \<noteq> []" "l \<noteq> []" by auto
    have "wrap_line cols l = take cols l # wrap_line cols (drop cols l)"
      using False "1.prems" by (subst wrap_line.simps) simp
    moreover have "length (wrap_line cols (drop cols l)) = (m + cols - 1) div cols"
      using "1.IH" False "1.prems" ne m by simp
    moreover have "(m + cols + cols - 1) div cols = 1 + (m + cols - 1) div cols"
    proof -
      obtain n where "m = Suc n" using m(2) by (cases m) auto
      then show ?thesis using div_past [OF "1.prems", of "n + cols"] by (simp add: ac_simps)
    qed
    ultimately show ?thesis using ne m by simp
  qed
qed

lemma nth_wrap_line: "0 < cols \<Longrightarrow> k < length (wrap_line cols l) \<Longrightarrow> wrap_line cols l ! k = take cols (drop (k * cols) l)"
proof (induction cols l arbitrary: k rule: wrap_line.induct)
  case (1 cols l)
  show ?case
  proof (cases "cols = 0 \<or> length l \<le> cols")
    case True
    then show ?thesis using "1.prems" by (subst wrap_line.simps) (subst (asm) wrap_line.simps, auto)
  next
    case False
    then have eq: "wrap_line cols l = take cols l # wrap_line cols (drop cols l)" by (subst wrap_line.simps) simp
    show ?thesis
    proof (cases k)
      case (Suc j)
      then show ?thesis using "1.IH" [OF False, of j] "1.prems" by (simp add: eq ac_simps)
    qed (simp add: eq)
  qed
qed

text \<open>A row index past a line's rows belongs to the lines after it.\<close>

lemma concat_nth:
  "k < length (concat (x # xs)) \<Longrightarrow> concat (x # xs) ! k = (if k < length x then x ! k else concat xs ! (k - length x))"
  by (simp add: nth_append)

section \<open>The history of a state\<close>

definition line_ok :: "terminal_line_t \<Rightarrow> bool" where
  "line_ok l \<longleftrightarrow> length (tl_text l) = 193 \<and> tl_length l \<le> 192"

definition line_chars :: "terminal_line_t \<Rightarrow> u8 list" where
  "line_chars l = take (tl_length l) (tl_text l)"

definition tb_history :: "terminal_state \<Rightarrow> history" where
  "tb_history s = map (\<lambda>i. line_chars (terminal_line_at i s)) [0..<g_count s]"

definition tb_lines :: "terminal_state \<Rightarrow> bool" where
  "tb_lines s \<longleftrightarrow> length (g_lines s) = 64 \<and> g_head s < 64 \<and> 0 < g_count s \<and> g_count s \<le> 64 \<and> 0 < g_columns s \<and> 0 < g_rows s \<and>
     (\<forall>l \<in> set (g_lines s). line_ok l)"

definition tb_inv :: "terminal_state \<Rightarrow> bool" where
  "tb_inv s \<longleftrightarrow> tb_lines s \<and> g_scroll_offset s \<le> terminal_max_scroll_offset s \<and> (g_auto_follow s \<longrightarrow> g_scroll_offset s = 0)"

lemma tb_linesD:
  assumes "tb_lines s"
  shows "length (g_lines s) = 64" "g_head s < 64" "0 < g_count s" "g_count s \<le> 64" "0 < g_columns s" "0 < g_rows s"
    "\<And>i. i < 64 \<Longrightarrow> line_ok (g_lines s ! i)"
  using assms by (auto simp: tb_lines_def)

lemma slot_lt [simp]: "terminal_line_slot i s < 64"
  by (simp add: terminal_line_slot_def TERMINAL_HISTORY_LINE_COUNT_def)

lemma mod64_inj:
  assumes "i \<le> j" and "j < 64" and "(h + i) mod 64 = (h + j) mod (64 :: nat)"
  shows "i = j"
proof -
  have "64 dvd (h + j) - (h + i)" using mod_eq_dvd_iff_nat [of "h + i" "h + j" 64] assms(1) assms(3) [symmetric] by simp
  then have "64 dvd j - i" by simp
  then have "j - i = 0" using assms(2) by (metis dvd_imp_le less_imp_diff_less not_gr_zero not_le)
  then show ?thesis using assms(1) by simp
qed

lemma slot_inj: "i < 64 \<Longrightarrow> j < 64 \<Longrightarrow> terminal_line_slot i s = terminal_line_slot j s \<longleftrightarrow> i = j"
  unfolding terminal_line_slot_def TERMINAL_HISTORY_LINE_COUNT_def using mod64_inj [of i j] mod64_inj [of j i] by (metis nat_le_linear)

lemma line_at_ok: "tb_lines s \<Longrightarrow> line_ok (terminal_line_at i s)"
  by (simp add: terminal_line_at_def tb_linesD(7))

lemma line_rows_wrap: "line_ok l \<Longrightarrow> 0 < cols \<Longrightarrow> terminal_line_rows l cols = length (wrap_line cols (line_chars l))"
  by (auto simp: length_wrap_line terminal_line_rows_def line_ok_def line_chars_def)

lemma total_rows_wrap:
  assumes "tb_lines s" and "0 < cols"
  shows "terminal_total_rows_for cols s = length (wrap_rows cols (tb_history s))"
proof -
  have "terminal_line_rows (terminal_line_at i s) cols = length (wrap_line cols (line_chars (terminal_line_at i s)))" for i
    by (rule line_rows_wrap [OF line_at_ok [OF assms(1)] assms(2)])
  then show ?thesis by (simp add: terminal_total_rows_for_def wrap_rows_def tb_history_def length_concat comp_def)
qed

lemma length_history [simp]: "length (tb_history s) = g_count s"
  by (simp add: tb_history_def)

lemma nth_history: "i < g_count s \<Longrightarrow> tb_history s ! i = line_chars (terminal_line_at i s)"
  by (simp add: tb_history_def)

text \<open>Appending a line.\<close>

lemma line_zero_ok [simp]: "line_ok line_zero" "line_chars line_zero = []" "tl_length line_zero = 0"
  by (simp_all add: line_ok_def line_zero_def line_chars_def TERMINAL_HISTORY_LINE_LENGTH_def)

lemma note_simps [simp]:
  "g_lines (terminal_note_added_rows n s) = g_lines s" "g_head (terminal_note_added_rows n s) = g_head s"
  "g_count (terminal_note_added_rows n s) = g_count s" "g_columns (terminal_note_added_rows n s) = g_columns s"
  "g_rows (terminal_note_added_rows n s) = g_rows s" "g_auto_follow (terminal_note_added_rows n s) = g_auto_follow s"
  "g_scroll_offset (terminal_note_added_rows n s) = g_scroll_offset s + (if g_auto_follow s then 0 else n)"
  by (simp_all add: terminal_note_added_rows_def)

lemma clamp_simps [simp]:
  "g_lines (terminal_clamp_viewport s) = g_lines s" "g_head (terminal_clamp_viewport s) = g_head s"
  "g_count (terminal_clamp_viewport s) = g_count s" "g_columns (terminal_clamp_viewport s) = g_columns s"
  "g_rows (terminal_clamp_viewport s) = g_rows s" "g_auto_follow (terminal_clamp_viewport s) = g_auto_follow s"
  "g_scroll_offset (terminal_clamp_viewport s) =
     (if g_auto_follow s then 0 else min (g_scroll_offset s) (terminal_max_scroll_offset s))"
  by (auto simp: terminal_clamp_viewport_def Let_def)

text \<open>The lines depend on four fields only.\<close>

lemma history_cong:
  assumes "g_lines s' = g_lines s" and "g_head s' = g_head s" and "g_count s' = g_count s"
  shows "tb_history s' = tb_history s" "terminal_line_at i s' = terminal_line_at i s" "terminal_line_slot i s' = terminal_line_slot i s"
    "terminal_total_rows_for c s' = terminal_total_rows_for c s"
  using assms by (simp_all add: tb_history_def terminal_line_at_def terminal_line_slot_def terminal_total_rows_for_def)

lemma tb_lines_cong:
  "g_lines s' = g_lines s \<Longrightarrow> g_head s' = g_head s \<Longrightarrow> g_count s' = g_count s \<Longrightarrow> g_columns s' = g_columns s \<Longrightarrow>
    g_rows s' = g_rows s \<Longrightarrow> tb_lines s' = tb_lines s"
  by (simp add: tb_lines_def)

lemma max_scroll_cong:
  assumes "g_lines s' = g_lines s" and "g_head s' = g_head s" and "g_count s' = g_count s" and "g_columns s' = g_columns s"
    and "g_rows s' = g_rows s"
  shows "terminal_max_scroll_offset s' = terminal_max_scroll_offset s"
  using assms by (simp add: terminal_max_scroll_offset_def Let_def history_cong(4) [OF assms(1-3)])

lemma clamp_inv: "tb_lines s \<Longrightarrow> tb_inv (terminal_clamp_viewport s)"
  using tb_lines_cong [of "terminal_clamp_viewport s" s] max_scroll_cong [of "terminal_clamp_viewport s" s]
  by (simp add: tb_inv_def)

text \<open>The new line goes to the slot after the newest one; the oldest line is overwritten when the ring is full.\<close>

lemma line_at_update:
  assumes "tb_lines s" and "k < 64" and "i < 64"
  shows "terminal_line_at i (s\<lparr>g_lines := (g_lines s)[terminal_line_slot k s := l]\<rparr>) = (if i = k then l else terminal_line_at i s)"
  using assms slot_inj [of i k s] tb_linesD(1) [OF assms(1)]
  by (auto simp: terminal_line_at_def terminal_line_slot_def [of _ "s\<lparr>g_lines := _\<rparr>"] terminal_line_slot_def [of _ s, symmetric])

lemma append_line_spec:
  assumes "tb_lines s" and "terminal_append_line s = (slot, s')"
  shows "tb_lines s'" "tb_history s' = keep_newest (tb_history s @ [[]])" "slot = terminal_line_slot (g_count s' - 1) s'"
    "g_lines s' ! slot = line_zero" "g_columns s' = g_columns s" "g_rows s' = g_rows s" "g_auto_follow s' = g_auto_follow s"
    "g_scroll_offset s' = g_scroll_offset s + (if g_auto_follow s then 0 else 1)"
proof -
  note d = tb_linesD [OF assms(1)]
  show "g_columns s' = g_columns s" "g_rows s' = g_rows s" "g_auto_follow s' = g_auto_follow s"
    "g_scroll_offset s' = g_scroll_offset s + (if g_auto_follow s then 0 else 1)"
    using assms(2) by (auto simp: terminal_append_line_def Let_def split: if_splits)
  have "tb_lines s' \<and> tb_history s' = keep_newest (tb_history s @ [[]]) \<and> slot = terminal_line_slot (g_count s' - 1) s' \<and>
      g_lines s' ! slot = line_zero"
  proof (cases "g_count s < 64")
    case True
    define t where "t = s\<lparr>g_count := g_count s + 1\<rparr>"
    have t: "tb_lines t" using d True by (auto simp: t_def tb_lines_def in_set_conv_nth)
    have sl: "terminal_line_slot i t = terminal_line_slot i s" for i by (simp add: t_def terminal_line_slot_def)
    define u where "u = t\<lparr>g_lines := (g_lines t)[terminal_line_slot (g_count s) t := line_zero]\<rparr>"
    have s': "s' = terminal_note_added_rows 1 u" "slot = terminal_line_slot (g_count s) t"
      using assms(2) True by (auto simp: terminal_append_line_def Let_def u_def t_def terminal_line_slot_def TERMINAL_HISTORY_LINE_COUNT_def)
    have at: "terminal_line_at i u = (if i = g_count s then line_zero else terminal_line_at i s)" if "i < 64" for i
      using line_at_update [OF t True that, of line_zero] by (simp add: u_def t_def terminal_line_at_def terminal_line_slot_def)
    have "tb_history u = tb_history s @ [[]]"
      by (rule nth_equalityI) (use at True in \<open>auto simp: nth_history nth_append u_def t_def less_Suc_eq\<close>)
    moreover have "tb_history s' = tb_history u" using history_cong(1) [of s' u] by (simp add: s')
    moreover have "tb_lines u" using t d(1) by (auto simp: u_def tb_lines_def dest: set_update_subset_insert [THEN subsetD])
    then have "tb_lines s'" using tb_lines_cong [of s' u] by (simp add: s')
    moreover have "keep_newest (tb_history s @ [[]]) = tb_history s @ [[]]" using True by (simp add: keep_newest_def)
    moreover have "g_count s' = g_count s + 1" by (simp add: s' u_def t_def)
    moreover have "terminal_line_slot i s' = terminal_line_slot i t" for i by (simp add: s' u_def terminal_line_slot_def)
    moreover have "g_lines s' ! slot = line_zero" using d(1) by (simp add: s' u_def t_def)
    ultimately show ?thesis by (simp add: s'(2))
  next
    case False
    then have n: "g_count s = 64" using d(4) by simp
    define t where "t = s\<lparr>g_head := (g_head s + 1) mod 64\<rparr>"
    have t: "tb_lines t" using d by (auto simp: t_def tb_lines_def in_set_conv_nth)
    define u where "u = t\<lparr>g_lines := (g_lines t)[terminal_line_slot 63 t := line_zero]\<rparr>"
    have s': "s' = terminal_note_added_rows 1 u" "slot = terminal_line_slot 63 t"
      using assms(2) n by (auto simp: terminal_append_line_def Let_def u_def t_def terminal_line_slot_def TERMINAL_HISTORY_LINE_COUNT_def)
    have shift: "terminal_line_at i t = terminal_line_at (i + 1) s" for i
      by (simp add: t_def terminal_line_at_def terminal_line_slot_def TERMINAL_HISTORY_LINE_COUNT_def mod_simps ac_simps)
    have at: "terminal_line_at i u = (if i = 63 then line_zero else terminal_line_at (i + 1) s)" if "i < 64" for i
      using line_at_update [OF t _ that, of 63 line_zero] shift [of i] by (simp add: u_def)
    have "tb_history u = drop 1 (tb_history s @ [[]])"
      by (rule nth_equalityI) (use at n in \<open>auto simp: nth_history nth_append u_def t_def less_Suc_eq\<close>)
    moreover have "tb_history s' = tb_history u" using history_cong(1) [of s' u] by (simp add: s')
    moreover have "tb_lines u" using t d(1) by (auto simp: u_def tb_lines_def dest: set_update_subset_insert [THEN subsetD])
    then have "tb_lines s'" using tb_lines_cong [of s' u] by (simp add: s')
    moreover have "keep_newest (tb_history s @ [[]]) = drop 1 (tb_history s @ [[]])" using n by (simp add: keep_newest_def)
    moreover have "g_count s' = 64" by (simp add: s' u_def t_def n)
    moreover have "terminal_line_slot i s' = terminal_line_slot i t" for i by (simp add: s' u_def terminal_line_slot_def)
    moreover have "g_lines s' ! slot = line_zero" using d(1) by (simp add: s' u_def t_def)
    ultimately show ?thesis by (simp add: s'(2))
  qed
  then show "tb_lines s'" "tb_history s' = keep_newest (tb_history s @ [[]])" "slot = terminal_line_slot (g_count s' - 1) s'"
    "g_lines s' ! slot = line_zero" by blast+
qed

section \<open>Writing\<close>

lemma update_last:
  assumes "tb_lines s" and "line_ok l" and "u = s\<lparr>g_lines := (g_lines s)[terminal_line_slot (g_count s - 1) s := l]\<rparr>"
  shows "tb_lines u" "tb_history u = butlast (tb_history s) @ [line_chars l]"
proof -
  note d = tb_linesD [OF assms(1)]
  show "tb_lines u" using assms by (auto simp: tb_lines_def dest: set_update_subset_insert [THEN subsetD])
  have at: "terminal_line_at i u = (if i = g_count s - 1 then l else terminal_line_at i s)" if "i < 64" for i
    using line_at_update [OF assms(1) _ that, of "g_count s - 1" l] d(3,4) by (simp add: assms(3))
  show "tb_history u = butlast (tb_history s) @ [line_chars l]"
    by (rule nth_equalityI) (use at d(3,4) in \<open>auto simp: assms(3) nth_history nth_append nth_butlast\<close>)
qed

lemma last_history:
  assumes "tb_lines s"
  shows "last (tb_history s) = line_chars (g_lines s ! terminal_line_slot (g_count s - 1) s)"
    "length (last (tb_history s)) = tl_length (g_lines s ! terminal_line_slot (g_count s - 1) s)"
proof -
  note d = tb_linesD [OF assms]
  show *: "last (tb_history s) = line_chars (g_lines s ! terminal_line_slot (g_count s - 1) s)"
    using d(3) by (simp add: tb_history_def last_map terminal_line_at_def)
  show "length (last (tb_history s)) = tl_length (g_lines s ! terminal_line_slot (g_count s - 1) s)"
    unfolding * using d(7) [OF slot_lt, of "g_count s - 1" s] by (simp add: line_chars_def line_ok_def)
qed

lemma put_char_line:
  assumes "line_ok line" and "tl_length line < 192"
  shows "line_ok \<lparr>tl_text = (tl_text line)[tl_length line := c, tl_length line + 1 := 0], tl_length = tl_length line + 1\<rparr>"
    "line_chars \<lparr>tl_text = (tl_text line)[tl_length line := c, tl_length line + 1 := 0], tl_length = tl_length line + 1\<rparr> =
       line_chars line @ [c]"
  using assms by (simp_all add: line_ok_def line_chars_def take_Suc_conv_app_nth)

lemma wrap_rows_append [simp]: "wrap_rows cols (h @ [l]) = wrap_rows cols h @ wrap_line cols l" "wrap_rows cols [] = []"
  by (simp_all add: wrap_rows_def)

lemma wrap_rows_split: "h \<noteq> [] \<Longrightarrow> wrap_rows cols h = wrap_rows cols (butlast h) @ wrap_line cols (last h)"
  by (metis append_butlast_last_id wrap_rows_append(1))

lemma keep_newest_id: "length h \<le> 64 \<Longrightarrow> keep_newest h = h"
  by (simp add: keep_newest_def)

lemma keep_newest_snoc: "length h \<le> 64 \<Longrightarrow> butlast (keep_newest (h @ [x])) = drop (length h - 63) h"
  "length h \<le> 64 \<Longrightarrow> keep_newest (h @ [x]) = drop (length h - 63) h @ [x]"
  by (auto simp: keep_newest_def Suc_diff_le)

text \<open>The number of rows that a character adds.\<close>

definition rows_added :: "u8 \<Rightarrow> nat \<Rightarrow> history \<Rightarrow> nat" where
  "rows_added c cols h = length (wrap_rows cols (hist_grow c h)) - length (wrap_rows cols h)"

definition putc_spec :: "u8 \<Rightarrow> terminal_state \<Rightarrow> terminal_state \<Rightarrow> bool" where
  "putc_spec c s s' \<longleftrightarrow> tb_inv s' \<and> tb_history s' = hist_char c (tb_history s) \<and> g_columns s' = g_columns s \<and> g_rows s' = g_rows s \<and>
     g_auto_follow s' = g_auto_follow s \<and>
     (\<not> g_auto_follow s \<longrightarrow> g_scroll_offset s' =
        min (g_scroll_offset s + rows_added c (g_columns s) (tb_history s)) (terminal_max_scroll_offset s'))"

lemma clamp_spec:
  assumes "tb_lines t" and "tb_history t = hist_char c (tb_history s)" and "g_columns t = g_columns s" and "g_rows t = g_rows s"
    and "g_auto_follow t = g_auto_follow s"
    and "\<not> g_auto_follow s \<Longrightarrow> g_scroll_offset t = g_scroll_offset s + rows_added c (g_columns s) (tb_history s)"
  shows "putc_spec c s (terminal_clamp_viewport t)"
proof -
  let ?u = "terminal_clamp_viewport t"
  have "tb_history ?u = tb_history t" by (rule history_cong) simp_all
  moreover have "terminal_max_scroll_offset ?u = terminal_max_scroll_offset t" by (rule max_scroll_cong) simp_all
  ultimately show ?thesis using assms clamp_inv [OF assms(1)] by (simp add: putc_spec_def)
qed

lemma history_ne [simp]: "tb_lines s \<Longrightarrow> tb_history s \<noteq> []"
  using tb_linesD(3) [of s] length_history [of s] by force

lemma putc_printable:
  assumes "tb_inv s" and "c \<noteq> 13" and "c \<noteq> 10"
  shows "putc_spec c s (putc_plain c s)"
proof -
  have lines: "tb_lines s" using assms(1) by (simp add: tb_inv_def)
  note d = tb_linesD [OF lines]
  define c' where "c' = (if c < 32 \<or> 126 < c then 63 else c)"
  have c': "(if c \<in> {32..126} then c else 63) = c'" by (auto simp: c'_def not_less not_le)
  let ?slot0 = "terminal_line_slot (g_count s - 1) s"
  obtain slot s1 where s1: "(slot, s1) = (if 192 \<le> tl_length (g_lines s ! ?slot0) then terminal_append_line s else (?slot0, s))"
    by (metis surj_pair)
  define line where "line = g_lines s1 ! slot"
  define line' where "line' = \<lparr>tl_text = (tl_text line)[tl_length line := c', tl_length line + 1 := 0], tl_length = tl_length line + 1\<rparr>"
  define s2 where "s2 = s1\<lparr>g_lines := (g_lines s1)[slot := line']\<rparr>"
  define s3 where "s3 = (if terminal_line_rows line (g_columns s1) < terminal_line_rows line' (g_columns s2)
    then terminal_note_added_rows (terminal_line_rows line' (g_columns s2) - terminal_line_rows line (g_columns s1)) s2 else s2)"
  have eq: "putc_plain c s = terminal_clamp_viewport s3"
    using assms(2,3) unfolding putc_plain_def Let_def TERMINAL_HISTORY_LINE_LENGTH_def s1 [symmetric]
    by (simp add: store_char_def Let_def c'_def line_def line'_def s2_def s3_def)
  let ?full = "192 \<le> tl_length (g_lines s ! ?slot0)"
  have s1': "tb_lines s1 \<and> slot = terminal_line_slot (g_count s1 - 1) s1 \<and> g_columns s1 = g_columns s \<and> g_rows s1 = g_rows s \<and>
      g_auto_follow s1 = g_auto_follow s \<and> tl_length line < 192 \<and>
      g_scroll_offset s1 = g_scroll_offset s + (if ?full \<and> \<not> g_auto_follow s then 1 else 0) \<and>
      tb_history s1 = (if ?full then keep_newest (tb_history s @ [[]]) else tb_history s)"
    using append_line_spec [OF lines, of slot s1] s1 lines by (auto simp: line_def split: if_splits)
  have ok: "line_ok line" using tb_linesD(7) [of s1] s1' by (simp add: line_def)
  note line'_ok = put_char_line [OF ok, of c', folded line'_def]
  have chars: "line_chars line = last (tb_history s1)" using last_history(1) [of s1] s1' by (simp add: line_def)
  have s2: "tb_lines s2" "tb_history s2 = butlast (tb_history s1) @ [last (tb_history s1) @ [c']]"
    using update_last [of s1 line' s2] s1' line'_ok chars by (simp_all add: s2_def)
  have grow: "hist_grow c (tb_history s) = (if ?full then tb_history s @ [[c']] else butlast (tb_history s) @ [last (tb_history s) @ [c']])"
    using assms(2,3) last_history(2) [OF lines] c' by (simp add: hist_grow_def Let_def)
  have len: "length (tb_history s) \<le> 64" "tb_history s \<noteq> []" using d(3,4) lines by auto
  have hist: "tb_history s2 = hist_char c (tb_history s)"
    using s2(2) s1' len by (auto simp: hist_char_def grow keep_newest_snoc keep_newest_id)
  have rows: "terminal_line_rows line' (g_columns s2) = length (wrap_line (g_columns s) (last (tb_history s1) @ [c']))"
    "terminal_line_rows line (g_columns s1) = length (wrap_line (g_columns s) (last (tb_history s1)))"
    using line_rows_wrap [of line' "g_columns s"] line_rows_wrap [of line "g_columns s"] ok line'_ok s1' chars d(5)
    by (simp_all add: s2_def)
  have w1: "length (wrap_line (g_columns s) []) = 1" "length (wrap_line (g_columns s) [c']) = 1" using d(5) by (simp_all add: length_wrap_line)
  have added: "rows_added c (g_columns s) (tb_history s) = (if ?full then 1 else 0) +
      (terminal_line_rows line' (g_columns s2) - terminal_line_rows line (g_columns s1))"
    unfolding rows_added_def grow rows
    using s1' w1 len wrap_rows_split [of "tb_history s" "g_columns s"] by (auto simp: keep_newest_snoc)
  show ?thesis unfolding eq
  proof (rule clamp_spec)
    show "tb_lines s3" using s2(1) tb_lines_cong [of s3 s2] by (simp add: s3_def)
    show "tb_history s3 = hist_char c (tb_history s)" using hist history_cong(1) [of s3 s2] by (simp add: s3_def)
    show "g_columns s3 = g_columns s" "g_rows s3 = g_rows s" "g_auto_follow s3 = g_auto_follow s"
      using s1' by (simp_all add: s3_def s2_def)
    show "g_scroll_offset s3 = g_scroll_offset s + rows_added c (g_columns s) (tb_history s)" if "\<not> g_auto_follow s"
      using s1' that unfolding added by (simp add: s3_def s2_def)
  qed
qed

lemma putc_plain_spec:
  assumes "tb_inv s"
  shows "putc_spec c s (putc_plain c s)"
proof -
  have lines: "tb_lines s" using assms by (simp add: tb_inv_def)
  note d = tb_linesD [OF lines]
  consider "c = 13" | "c = 10" | "c \<noteq> 13" "c \<noteq> 10" by blast
  then show ?thesis
  proof cases
    case 1
    then show ?thesis using assms d(4)
      by (auto simp: putc_spec_def putc_plain_def hist_char_def hist_grow_def rows_added_def keep_newest_id tb_inv_def)
  next
    case 2
    obtain slot s1 where s1: "terminal_append_line s = (slot, s1)" by (metis surj_pair)
    note a = append_line_spec [OF lines s1]
    have "putc_spec c s (terminal_clamp_viewport s1)"
    proof (rule clamp_spec)
      show "tb_history s1 = hist_char c (tb_history s)" using a(2) 2 by (simp add: hist_char_def hist_grow_def)
      show "g_scroll_offset s1 = g_scroll_offset s + rows_added c (g_columns s) (tb_history s)" if "\<not> g_auto_follow s"
        using a(8) that 2 d(5) by (simp add: rows_added_def hist_grow_def length_wrap_line)
    qed (rule a)+
    then show ?thesis using s1 2 by (simp add: putc_plain_def)
  next
    case 3
    then show ?thesis by (rule putc_printable [OF assms])
  qed
qed

lemma putc_expand: "terminal_buffer_putc c s = fold putc_plain (expand_tab c) s"
  by (simp add: terminal_buffer_putc_def expand_tab_def numeral_eq_Suc)

lemma write_expand: "terminal_buffer_write (Some cs) s = fold putc_plain (expand_tabs cs) s"
  unfolding terminal_buffer_write_def expand_tabs_def
  by (induction cs arbitrary: s) (simp_all add: putc_expand)

lemma fold_putc:
  assumes "tb_inv s"
  shows "tb_inv (fold putc_plain cs s) \<and> tb_history (fold putc_plain cs s) = fold hist_char cs (tb_history s) \<and>
    g_columns (fold putc_plain cs s) = g_columns s \<and> g_rows (fold putc_plain cs s) = g_rows s \<and>
    g_auto_follow (fold putc_plain cs s) = g_auto_follow s"
  using assms
proof (induction cs arbitrary: s)
  case (Cons c cs)
  from Cons.IH [of "putc_plain c s"] putc_plain_spec [OF Cons.prems, of c] show ?case by (simp add: putc_spec_def)
qed simp

section \<open>The other operations\<close>

lemma tb_inv_lines: "tb_inv s \<Longrightarrow> tb_lines s"
  by (simp add: tb_inv_def)

lemma tb_inv_init: "tb_inv (terminal_buffer_init columns rows)" "tb_history (terminal_buffer_init columns rows) = [[]]"
  by (auto simp: tb_inv_def tb_lines_def terminal_buffer_init_def TERMINAL_HISTORY_LINE_COUNT_def tb_history_def
      terminal_line_at_def terminal_line_slot_def)

lemma scroll_frame [simp]:
  "tb_history (s\<lparr>g_scroll_offset := n\<rparr>) = tb_history s" "tb_history (s\<lparr>g_auto_follow := b\<rparr>) = tb_history s"
  "terminal_max_scroll_offset (s\<lparr>g_scroll_offset := n\<rparr>) = terminal_max_scroll_offset s"
  "terminal_max_scroll_offset (s\<lparr>g_auto_follow := b\<rparr>) = terminal_max_scroll_offset s"
  "tb_lines (s\<lparr>g_scroll_offset := n\<rparr>) = tb_lines s" "tb_lines (s\<lparr>g_auto_follow := b\<rparr>) = tb_lines s"
  by ((rule history_cong max_scroll_cong tb_lines_cong; simp)+)

lemma scroll_ops:
  assumes "tb_inv s"
  shows "tb_inv (terminal_buffer_scroll_up s)" "tb_inv (terminal_buffer_scroll_down s)" "tb_inv (terminal_buffer_follow_latest s)"
    "tb_history (terminal_buffer_scroll_up s) = tb_history s" "tb_history (terminal_buffer_scroll_down s) = tb_history s"
    "tb_history (terminal_buffer_follow_latest s) = tb_history s"
  using assms
  by (auto simp: tb_inv_def terminal_buffer_scroll_up_def terminal_buffer_scroll_down_def terminal_buffer_follow_latest_def Let_def)

lemma set_geometry_cases:
  "terminal_buffer_set_geometry columns rows s = s \<or>
   (\<exists>a b off. 0 < a \<and> 0 < b \<and> off \<le> terminal_max_scroll_offset (s\<lparr>g_columns := a, g_rows := b\<rparr>) \<and> (g_auto_follow s \<longrightarrow> off = 0) \<and>
      terminal_buffer_set_geometry columns rows s = s\<lparr>g_columns := a, g_rows := b, g_scroll_offset := off\<rparr>)"
proof -
  define a where "a = (if columns \<noteq> 0 then columns else 1)"
  define b where "b = (if rows \<noteq> 0 then rows else 1)"
  define t where "t = s\<lparr>g_columns := a, g_rows := b\<rparr>"
  define m where "m = terminal_max_scroll_offset t"
  define top where "top = terminal_max_scroll_offset s - (if terminal_max_scroll_offset s < g_scroll_offset s
    then terminal_max_scroll_offset s else g_scroll_offset s)"
  obtain al ac where an: "(case find_anchor [0..<g_count s] top s of Some x \<Rightarrow> x | None \<Rightarrow> (g_count s - 1, 0)) = (al, ac)"
    by (metis surj_pair)
  define d where "d = (\<Sum>i\<leftarrow>[0..<al]. terminal_line_rows (terminal_line_at i t) a) + ac div a"
  define off where "off = (if g_auto_follow s then 0 else m - (if m < d then m else d))"
  have f: "g_auto_follow t = g_auto_follow s" by (simp add: t_def)
  have eq: "terminal_buffer_set_geometry columns rows s =
      (if a = g_columns s \<and> b = g_rows s then s else t\<lparr>g_scroll_offset := off\<rparr>)"
    unfolding terminal_buffer_set_geometry_def Let_def a_def [symmetric] b_def [symmetric] t_def [symmetric] top_def [symmetric] an
      m_def [symmetric] case_prod_conv d_def [symmetric] f off_def by simp
  have ab: "0 < a" "0 < b" by (simp_all add: a_def b_def)
  have off: "off \<le> terminal_max_scroll_offset (s\<lparr>g_columns := a, g_rows := b\<rparr>)" "g_auto_follow s \<longrightarrow> off = 0"
    by (simp_all add: off_def m_def t_def)
  show ?thesis
  proof (cases "a = g_columns s \<and> b = g_rows s")
    case False
    then have "terminal_buffer_set_geometry columns rows s = s\<lparr>g_columns := a, g_rows := b, g_scroll_offset := off\<rparr>"
      by (simp only: eq t_def if_False)
    with ab off show ?thesis by blast
  qed (simp add: eq)
qed

lemma set_geometry_ok:
  assumes "tb_inv s"
  shows "tb_inv (terminal_buffer_set_geometry columns rows s)" "tb_history (terminal_buffer_set_geometry columns rows s) = tb_history s"
proof -
  have h: "tb_history (s\<lparr>g_columns := a, g_rows := b\<rparr>) = tb_history s" for a b by (rule history_cong) simp_all
  have l: "tb_lines (s\<lparr>g_columns := a, g_rows := b\<rparr>)" if "0 < a" "0 < b" for a b
    using assms that by (simp add: tb_inv_def tb_lines_def)
  show "tb_inv (terminal_buffer_set_geometry columns rows s)" "tb_history (terminal_buffer_set_geometry columns rows s) = tb_history s"
    using set_geometry_cases [of columns rows s] assms by (auto simp: tb_inv_def h l)
qed

section \<open>The visible rows\<close>

definition view_top :: "terminal_state \<Rightarrow> nat" where
  "view_top s = terminal_max_scroll_offset s - min (g_scroll_offset s) (terminal_max_scroll_offset s)"

text \<open>A row in a buffer of spaces of the given size.\<close>

definition show_row :: "nat \<Rightarrow> u8 list \<Rightarrow> u8 list" where
  "show_row text_size r = (let r' = take (text_size - 1) r in r' @ replicate (text_size - 1 - length r') 32 @ [0])"

definition row_at :: "nat \<Rightarrow> u8 list list \<Rightarrow> u8 list" where
  "row_at k rows = (if k < length rows then rows ! k else [])"

lemma row_at_append: "row_at k (xs @ ys) = (if k < length xs then xs ! k else row_at (k - length xs) ys)"
  by (auto simp: row_at_def nth_append)

lemma wrap_row_slice:
  assumes "line_ok l" and "0 < cols" and "k < length (wrap_line cols (line_chars l))" and "n \<le> cols"
  shows "take n (wrap_line cols (line_chars l) ! k) = slice (k * cols) (min n (tl_length l - k * cols)) (tl_text l)"
  using assms by (simp add: nth_wrap_line line_chars_def slice_def drop_take min_def ac_simps)

lemma copy_row_eq:
  assumes "tb_lines s" and "buf = replicate m 32 @ [0]"
  shows "copy_row is target buf s =
    show_row (m + 1) (row_at target (wrap_rows (g_columns s) (map (\<lambda>i. line_chars (terminal_line_at i s)) is)))"
  using assms
proof (induction "is" target buf s rule: copy_row.induct)
  case (1 target buf s)
  then show ?case by (simp add: show_row_def row_at_def Let_def)
next
  case (2 i "is" target buf s)
  note ok = line_at_ok [OF "2.prems"(1), of i] and cols = tb_linesD(5) [OF "2.prems"(1)]
  let ?l = "terminal_line_at i s" and ?c = "g_columns s"
  have n: "terminal_line_rows ?l ?c = length (wrap_line ?c (line_chars ?l))" by (rule line_rows_wrap [OF ok cols])
  have rows: "wrap_rows ?c (map (\<lambda>i. line_chars (terminal_line_at i s)) (i # is)) =
      wrap_line ?c (line_chars ?l) @ wrap_rows ?c (map (\<lambda>i. line_chars (terminal_line_at i s)) is)" by (simp add: wrap_rows_def)
  show ?case
  proof (cases "target < terminal_line_rows ?l ?c")
    case False
    then show ?thesis using "2.IH" [OF refl refl False "2.prems"] unfolding rows row_at_append by (simp add: Let_def n)
  next
    case True
    define k where "k = min m (min ?c (tl_length ?l - target * ?c))"
    define x where "x = slice (target * ?c) k (tl_text ?l)"
    have len: "length x = k" using ok by (auto simp: x_def k_def slice_def line_ok_def)
    have "take m (wrap_line ?c (line_chars ?l) ! target) = x"
    proof (cases "m \<le> ?c")
      case le: True
      have "min m (tl_length ?l - target * ?c) = k" using le by (simp add: k_def min_def)
      then show ?thesis using wrap_row_slice [OF ok cols True [unfolded n] le] by (simp add: x_def)
    next
      case False
      have "length (wrap_line ?c (line_chars ?l) ! target) \<le> ?c" using nth_wrap_line [OF cols True [unfolded n]] by simp
      then have "take m (wrap_line ?c (line_chars ?l) ! target) = take ?c (wrap_line ?c (line_chars ?l) ! target)" using False by simp
      moreover have "min ?c (tl_length ?l - target * ?c) = k" using False by (simp add: k_def min_def)
      ultimately show ?thesis using wrap_row_slice [OF ok cols True [unfolded n], of ?c] by (simp add: x_def)
    qed
    then have r: "show_row (m + 1) (row_at target (wrap_rows ?c (map (\<lambda>i. line_chars (terminal_line_at i s)) (i # is)))) =
        x @ replicate (m - k) 32 @ [0]"
      unfolding rows row_at_append using True n len by (simp add: show_row_def Let_def)
    have "copy_row (i # is) target buf s = (if 0 < k then mem_write 0 x buf else buf)"
      using True "2.prems"(2) by (simp add: Let_def x_def k_def min_def)
    also have "\<dots> = x @ replicate (m - k) 32 @ [0]"
      using len "2.prems"(2) by (cases "k = 0") (auto simp: mem_write_def k_def)
    finally show ?thesis using r by simp
  qed
qed

lemma visible_row_eq:
  assumes "tb_inv s" and "0 < n"
  shows "terminal_buffer_visible_row row n s = show_row n (row_at (view_top s + row) (wrap_rows (g_columns s) (tb_history s)))"
proof -
  have "terminal_buffer_visible_row row n s = copy_row [0..<g_count s] (view_top s + row) (replicate (n - 1) 32 @ [0]) s"
    using assms(2) by (simp add: terminal_buffer_visible_row_def Let_def view_top_def min_def)
  also have "\<dots> = show_row n (row_at (view_top s + row) (wrap_rows (g_columns s) (tb_history s)))"
    using copy_row_eq [OF tb_inv_lines [OF assms(1)] refl, of "[0..<g_count s]" "view_top s + row" "n - 1"] assms(2)
    by (simp add: tb_history_def)
  finally show ?thesis .
qed

section \<open>Runs\<close>

datatype terminal_call = Write "u8 list option" | Set_geometry nat nat | Scroll_up | Scroll_down | Follow_latest

fun terminal_step :: "terminal_call \<Rightarrow> terminal_state \<Rightarrow> terminal_state" where
  "terminal_step (Write str) s = terminal_buffer_write str s"
| "terminal_step (Set_geometry columns rows) s = terminal_buffer_set_geometry columns rows s"
| "terminal_step Scroll_up s = terminal_buffer_scroll_up s"
| "terminal_step Scroll_down s = terminal_buffer_scroll_down s"
| "terminal_step Follow_latest s = terminal_buffer_follow_latest s"

fun hist_step :: "terminal_call \<Rightarrow> history \<Rightarrow> history" where
  "hist_step (Write (Some cs)) h = fold hist_char (expand_tabs cs) h"
| "hist_step call h = h"

definition terminal_run :: "terminal_call list \<Rightarrow> nat \<Rightarrow> nat \<Rightarrow> terminal_state" where
  "terminal_run calls columns rows = fold terminal_step calls (terminal_buffer_init columns rows)"

lemma terminal_step_ok:
  assumes "tb_inv s"
  shows "tb_inv (terminal_step call s) \<and> tb_history (terminal_step call s) = hist_step call (tb_history s)"
proof (cases call)
  case (Write str)
  then show ?thesis using fold_putc [OF assms] assms
    by (cases str) (simp_all add: write_expand, simp_all add: terminal_buffer_write_def)
qed (use scroll_ops [OF assms] set_geometry_ok [OF assms] in simp_all)

lemma terminal_run_ok: "tb_inv (terminal_run calls columns rows) \<and> tb_history (terminal_run calls columns rows) = fold hist_step calls [[]]"
  unfolding terminal_run_def
proof (induction calls rule: rev_induct)
  case (snoc call calls)
  then show ?case using terminal_step_ok [of "fold terminal_step calls (terminal_buffer_init columns rows)" call] by simp
qed (simp add: tb_inv_init)

section \<open>The scrolled-back view\<close>

lemma wrap_line_extend:
  assumes "0 < cols" and "k + 1 < length (wrap_line cols l)"
  shows "k < length (wrap_line cols (l @ [c]))" "wrap_line cols (l @ [c]) ! k = wrap_line cols l ! k"
proof -
  have ne: "l \<noteq> []" using assms by (auto simp: length_wrap_line)
  then have n: "length (wrap_line cols l) = (length l + cols - 1) div cols" using assms(1) by (simp add: length_wrap_line)
  have "length (wrap_line cols l) \<le> length (wrap_line cols (l @ [c]))" using assms(1) n by (simp add: length_wrap_line div_le_mono)
  then show k: "k < length (wrap_line cols (l @ [c]))" using assms(2) by simp
  have "(k + 2) * cols \<le> length l + cols - 1"
    using assms n by (metis Suc_leI add_2_eq_Suc' add.commute div_times_less_eq_dividend le_trans mult_le_mono1 plus_1_eq_Suc add_Suc_right Suc_eq_plus1)
  then have "k * cols + cols \<le> length l" using assms(1) by (simp add: algebra_simps)
  then show "wrap_line cols (l @ [c]) ! k = wrap_line cols l ! k"
    using nth_wrap_line [OF assms(1) k] nth_wrap_line [OF assms(1), of k l] assms(2) by simp
qed

text \<open>All rows but the last stay when a character is written.\<close>

lemma rows_stay:
  assumes "0 < cols" and "h \<noteq> []" and "k + 1 < length (wrap_rows cols h)"
  shows "k < length (wrap_rows cols (hist_grow c h)) \<and> wrap_rows cols (hist_grow c h) ! k = wrap_rows cols h ! k"
proof -
  note split = wrap_rows_split [OF assms(2), of cols]
  let ?p = "wrap_rows cols (butlast h)"
  have "k < length (wrap_rows cols (butlast h @ [last h @ [x]])) \<and> wrap_rows cols (butlast h @ [last h @ [x]]) ! k = wrap_rows cols h ! k" for x
  proof (cases "k < length ?p")
    case True
    then show ?thesis by (simp add: split nth_append)
  next
    case False
    then have "k - length ?p + 1 < length (wrap_line cols (last h))" using assms(3) by (simp add: split)
    from wrap_line_extend [OF assms(1) this, of x] False show ?thesis by (auto simp: split nth_append)
  qed
  then show ?thesis using assms(3) by (auto simp: hist_grow_def Let_def nth_append)
qed

lemma rows_grow:
  assumes "0 < cols" and "h \<noteq> []"
  shows "length (wrap_rows cols h) \<le> length (wrap_rows cols (hist_grow c h))"
proof -
  have "length (wrap_line cols (last h)) \<le> length (wrap_line cols (last h @ [x]))" for x
    using assms(1) by (auto simp: length_wrap_line div_le_mono Suc_le_eq div_greater_zero_iff)
  then show ?thesis using wrap_rows_split [OF assms(2), of cols] by (auto simp: hist_grow_def Let_def)
qed

lemma length_hist_grow: "h \<noteq> [] \<Longrightarrow> length h \<le> length (hist_grow c h) \<and> hist_grow c h \<noteq> []"
  by (auto simp: hist_grow_def Let_def)

lemma length_fold_grow: "h \<noteq> [] \<Longrightarrow> length h \<le> length (fold hist_grow cs h)"
proof (induction cs arbitrary: h)
  case (Cons c cs)
  from Cons.IH [of "hist_grow c h"] length_hist_grow [OF Cons.prems, of c] show ?case by simp
qed simp

lemma view_step:
  assumes "tb_inv s" and "\<not> g_auto_follow s" and "0 < g_scroll_offset s" and "length (hist_grow c (tb_history s)) \<le> 64"
    and "s' = putc_plain c s"
  shows "tb_inv s'" "\<not> g_auto_follow s'" "0 < g_scroll_offset s'" "tb_history s' = hist_grow c (tb_history s)" "g_columns s' = g_columns s"
    "g_rows s' = g_rows s" "view_top s' = view_top s"
    "\<And>k. k < g_rows s \<Longrightarrow> row_at (view_top s + k) (wrap_rows (g_columns s) (tb_history s')) =
      row_at (view_top s + k) (wrap_rows (g_columns s) (tb_history s))"
proof -
  note lines = tb_inv_lines [OF assms(1)] and spec = putc_plain_spec [OF assms(1), of c, folded assms(5), unfolded putc_spec_def]
  note d = tb_linesD [OF lines] and ne = history_ne [OF lines]
  let ?h = "tb_history s" and ?g = "hist_grow c (tb_history s)" and ?c = "g_columns s"
  let ?r = "length (wrap_rows ?c ?h)" and ?r' = "length (wrap_rows ?c ?g)"
  show h: "tb_inv s'" "\<not> g_auto_follow s'" "tb_history s' = ?g" "g_columns s' = ?c" "g_rows s' = g_rows s"
    using spec assms(2,4) by (simp_all add: hist_char_def keep_newest_id)
  have tot: "terminal_total_rows_for ?c s = ?r" "terminal_total_rows_for ?c s' = ?r'"
    using total_rows_wrap [OF lines d(5)] total_rows_wrap [OF tb_inv_lines [OF h(1)] d(5)] h(3) by simp_all
  have le: "?r \<le> ?r'" by (rule rows_grow [OF d(5) ne])
  have m: "terminal_max_scroll_offset s = ?r - g_rows s" "terminal_max_scroll_offset s' = ?r' - g_rows s"
    using tot h by (simp_all add: terminal_max_scroll_offset_def Let_def)
  have off: "g_scroll_offset s \<le> ?r - g_rows s" using assms(1) m by (simp add: tb_inv_def)
  have off': "g_scroll_offset s' = g_scroll_offset s + (?r' - ?r)"
    using spec assms(2) m(2) off le assms(3) by (simp add: rows_added_def)
  then show "0 < g_scroll_offset s'" using assms(3) by simp
  show "view_top s' = view_top s" unfolding view_top_def m using off off' le assms(3) by simp
  fix k assume "k < g_rows s"
  then have "view_top s + k + 1 < ?r" unfolding view_top_def m using off assms(3) by simp
  from rows_stay [OF d(5) ne this, of c] this show "row_at (view_top s + k) (wrap_rows ?c (tb_history s')) = row_at (view_top s + k) (wrap_rows ?c ?h)"
    by (simp add: row_at_def h(3))
qed

lemma view_stays:
  assumes "tb_inv s" and "\<not> g_auto_follow s" and "0 < g_scroll_offset s" and "length (fold hist_grow cs (tb_history s)) \<le> 64"
    and "k < g_rows s"
  shows "row_at (view_top (fold putc_plain cs s) + k) (wrap_rows (g_columns s) (tb_history (fold putc_plain cs s))) =
    row_at (view_top s + k) (wrap_rows (g_columns s) (tb_history s))"
  using assms
proof (induction cs arbitrary: s)
  case (Cons c cs)
  have ne: "tb_history s \<noteq> []" using Cons.prems(1) by (simp add: tb_inv_lines)
  have "length (hist_grow c (tb_history s)) \<le> 64"
    using length_fold_grow [of "hist_grow c (tb_history s)" cs] length_hist_grow [OF ne, of c] Cons.prems(4) by simp
  note step = view_step [OF Cons.prems(1-3) this refl]
  have "row_at (view_top (fold putc_plain cs (putc_plain c s)) + k)
      (wrap_rows (g_columns (putc_plain c s)) (tb_history (fold putc_plain cs (putc_plain c s)))) =
    row_at (view_top (putc_plain c s) + k) (wrap_rows (g_columns (putc_plain c s)) (tb_history (putc_plain c s)))"
    by (rule Cons.IH [OF step(1-3)]) (use Cons.prems(4,5) step(4,6) in simp_all)
  then show ?case using step(5,7,8) Cons.prems(5) by simp
qed simp

section \<open>Properties\<close>

text \<open>C28. The ring of lines implements the history: after any calls its lines are those of the specification, in
  which a carriage return is skipped, a newline and the 193rd character of a line start a line, a tab writes four
  spaces, any other control or non-ASCII character becomes a question mark and the newest 64 lines are kept,
  whatever the geometry and the scrolling were; and all counters stay far below the width of their C types.\<close>

theorem terminal_refines_history:
  "tb_history (terminal_run calls columns rows) = fold hist_step calls [[]] \<and>
   g_count (terminal_run calls columns rows) \<le> 64 \<and> g_head (terminal_run calls columns rows) < 64 \<and>
   g_scroll_offset (terminal_run calls columns rows) \<le> terminal_max_scroll_offset (terminal_run calls columns rows) \<and>
   terminal_total_rows_for (g_columns (terminal_run calls columns rows)) (terminal_run calls columns rows) \<le> 64 * 192"
proof -
  let ?s = "terminal_run calls columns rows"
  have inv: "tb_inv ?s" and h: "tb_history ?s = fold hist_step calls [[]]" using terminal_run_ok by blast+
  note d = tb_linesD [OF tb_inv_lines [OF inv]]
  have "terminal_line_rows (terminal_line_at i ?s) (g_columns ?s) \<le> 192" for i
  proof -
    let ?n = "tl_length (terminal_line_at i ?s)" and ?c = "g_columns ?s"
    have n: "?n \<le> 192" using line_at_ok [OF tb_inv_lines [OF inv], of i] by (simp add: line_ok_def)
    have "(?n + ?c - 1) div ?c \<le> ?n" if pos: "0 < ?n"
    proof -
      obtain m where m: "?n = Suc m" using pos by (cases ?n) auto
      have "(m + ?c) div ?c = Suc (m div ?c)" by (rule div_past [OF d(5)])
      then show ?thesis using m div_le_dividend [of m ?c] by simp
    qed
    with n show ?thesis by (auto simp: terminal_line_rows_def)
  qed
  then have "terminal_total_rows_for (g_columns ?s) ?s \<le> (\<Sum>i\<leftarrow>[0..<g_count ?s]. 192)"
    unfolding terminal_total_rows_for_def by (intro sum_list_mono)
  also have "\<dots> = g_count ?s * 192" by (simp add: sum_list_triv)
  finally show ?thesis using h d(2,4) inv by (simp add: tb_inv_def)
qed

text \<open>C29. What is displayed is a window of the wrapped history: row \<open>row\<close> of the view is row \<open>view_top + row\<close> of the
  history cut into rows of the display's width, padded with spaces, cut to the caller's buffer and terminated;
  and a view that follows the output ends with the newest row.\<close>

theorem terminal_shows_wrapped_history:
  assumes "s = terminal_run calls columns rows" and "0 < text_size"
  shows "terminal_buffer_visible_row row text_size s =
      show_row text_size (row_at (view_top s + row) (wrap_rows (g_columns s) (fold hist_step calls [[]]))) \<and>
    length (terminal_buffer_visible_row row text_size s) = text_size \<and>
    (g_auto_follow s \<longrightarrow> view_top s = length (wrap_rows (g_columns s) (fold hist_step calls [[]])) - g_rows s)"
proof -
  have inv: "tb_inv s" and h: "tb_history s = fold hist_step calls [[]]" using terminal_run_ok assms(1) by blast+
  note v = visible_row_eq [OF inv assms(2), of row, unfolded h] and d = tb_linesD [OF tb_inv_lines [OF inv]]
  have "length (show_row text_size r) = text_size" for r using assms(2) by (simp add: show_row_def Let_def)
  moreover have "view_top s = length (wrap_rows (g_columns s) (tb_history s)) - g_rows s" if "g_auto_follow s"
    using that inv total_rows_wrap [OF tb_inv_lines [OF inv] d(5)]
    by (simp add: view_top_def tb_inv_def terminal_max_scroll_offset_def Let_def)
  ultimately show ?thesis using v h by simp
qed

theorem terminal_shows_wrapped_history_witness:
  "terminal_buffer_visible_row 1 4 (terminal_run [Write (Some [97, 98, 99, 100, 10, 101])] 3 2) = [101, 32, 32, 0]"
proof -
  let ?calls = "[Write (Some [97, 98, 99, 100, 10, 101])]" and ?s = "terminal_run [Write (Some [97, 98, 99, 100, 10, 101])] 3 2"
  have h: "fold hist_step ?calls [[]] = [[97, 98, 99, 100], [101]]"
    by (simp add: expand_tabs_def expand_tab_def hist_char_def hist_grow_def keep_newest_def)
  have f: "g_auto_follow ?s" "g_rows ?s = 2" "g_columns ?s = 3" by code_simp+
  note t = terminal_shows_wrapped_history [OF refl, of 4 1 ?calls 3 2, unfolded h]
  have w: "wrap_rows 3 [[97, 98, 99, 100], [101]] = [[97, 98, 99], [100], [101 :: u8]]"
    by (simp add: wrap_rows_def wrap_line.simps)
  have r: "replicate 2 (32 :: u8) = [32, 32]" by (simp add: numeral_2_eq_2)
  show ?thesis using t f by (simp add: w r row_at_def show_row_def)
qed

text \<open>C13. A view that is scrolled back does not move while output arrives: as long as no line falls out of the
  history, every visible row shows the same text after a write as before.\<close>

theorem terminal_scrolled_view_stable:
  assumes "s = terminal_run calls columns rows" and "\<not> g_auto_follow s" and "0 < g_scroll_offset s"
    and "length (fold hist_grow (expand_tabs cs) (fold hist_step calls [[]])) \<le> 64" and "row < g_rows s" and "0 < text_size"
  shows "terminal_buffer_visible_row row text_size (terminal_buffer_write (Some cs) s) = terminal_buffer_visible_row row text_size s"
proof -
  have inv: "tb_inv s" and h: "tb_history s = fold hist_step calls [[]]" using terminal_run_ok assms(1) by blast+
  have inv': "tb_inv (fold putc_plain (expand_tabs cs) s)" "g_columns (fold putc_plain (expand_tabs cs) s) = g_columns s"
    using fold_putc [OF inv] by blast+
  show ?thesis unfolding write_expand visible_row_eq [OF inv assms(6)] visible_row_eq [OF inv'(1) assms(6)] inv'(2)
    using view_stays [OF inv assms(2,3) _ assms(5), of "expand_tabs cs"] assms(4) h by simp
qed

theorem terminal_scrolled_view_stable_witness:
  "terminal_buffer_visible_row 0 3 (terminal_buffer_write (Some [99, 10]) (terminal_run [Write (Some [97, 10, 98]), Scroll_up] 3 1)) =
   terminal_buffer_visible_row 0 3 (terminal_run [Write (Some [97, 10, 98]), Scroll_up] 3 1)"
proof -
  let ?calls = "[Write (Some [97, 10, 98]), Scroll_up]"
  have h: "fold hist_step ?calls [[]] = [[97], [98]]"
    by (simp add: expand_tabs_def expand_tab_def hist_char_def hist_grow_def keep_newest_def)
  have f: "\<not> g_auto_follow (terminal_run ?calls 3 1)" "0 < g_scroll_offset (terminal_run ?calls 3 1)"
    "0 < g_rows (terminal_run ?calls 3 1)" by code_simp+
  have g: "length (fold hist_grow (expand_tabs [99, 10]) (fold hist_step ?calls [[]])) \<le> 64"
    unfolding h by (simp add: expand_tabs_def expand_tab_def hist_grow_def)
  show ?thesis by (rule terminal_scrolled_view_stable [OF refl f(1,2) g f(3)]) simp
qed

end
