(* ===== verification/Fat32_State.thy ===== *)
theory Fat32_State
  imports Hk_Binary
begin

text \<open>
  \<open>storage/fat32_state.c\<close> with \<open>storage/internal/fat32_state_private.h\<close>: the geometry of the mounted volume and the one
  sector buffer that every FAT routine works in. The card below is reached through two calls, \<open>sd_card_read_block\<close>
  and \<open>sd_card_write_block\<close>; they are an argument of the routines here (\<open>sd_ops\<close>), their contract is the locale
  \<open>block_store\<close>, and \<open>Sd_Card\<close> provides it.
\<close>

definition SD_BLOCK_SIZE :: u32 where "SD_BLOCK_SIZE = 512"
definition FAT32_EOC :: u32 where "FAT32_EOC = 0x0FFFFFF8"
definition FAT_ATTR_DIR :: u8 where "FAT_ATTR_DIR = 0x10"
definition FAT_ATTR_ARCHIVE :: u8 where "FAT_ATTR_ARCHIVE = 0x20"

text \<open>What \<open>sd_card.h\<close> offers. A read that fails leaves the destination as it was, so it has no data.\<close>

record 'w sd_ops =
  sd_read :: "u32 \<Rightarrow> 'w \<Rightarrow> u8 list option \<times> 'w"
  sd_write :: "u32 \<Rightarrow> u8 list \<Rightarrow> 'w \<Rightarrow> bool \<times> 'w"

record 'w fat_state =
  g_fat_lba_begin :: u32
  g_fat_fat_begin :: u32
  g_fat_data_begin :: u32
  g_fat_root_cluster :: u32
  g_fat_sectors_per_fat :: u32
  g_fat_total_sectors :: u32
  g_fat_cluster_count :: u32
  g_fat_alloc_hint :: u32
  g_fat_sectors_per_cluster :: u8
  g_fat_count :: u8
  g_sd_sector :: "u8 list"
  f_sd :: 'w

definition fat32_cluster_size :: "'w fat_state \<Rightarrow> u32" where
  "fat32_cluster_size s = ucast (g_fat_sectors_per_cluster s) * SD_BLOCK_SIZE"

definition fat32_set_alloc_hint :: "u32 \<Rightarrow> 'w fat_state \<Rightarrow> 'w fat_state" where
  "fat32_set_alloc_hint cluster s = s\<lparr>g_fat_alloc_hint := cluster\<rparr>"

text \<open>\<open>sd_card_read_block(lba, fat32_sector_scratch())\<close> and \<open>sd_card_write_block(lba, fat32_sector_scratch())\<close>.\<close>

definition scratch_read :: "'w sd_ops \<Rightarrow> u32 \<Rightarrow> 'w fat_state \<Rightarrow> bool \<times> 'w fat_state" where
  "scratch_read ops lba s = (case sd_read ops lba (f_sd s) of
     (None, w) \<Rightarrow> (False, s\<lparr>f_sd := w\<rparr>)
   | (Some data, w) \<Rightarrow> (True, s\<lparr>g_sd_sector := data, f_sd := w\<rparr>))"

definition scratch_write :: "'w sd_ops \<Rightarrow> u32 \<Rightarrow> 'w fat_state \<Rightarrow> bool \<times> 'w fat_state" where
  "scratch_write ops lba s = (case sd_write ops lba (g_sd_sector s) (f_sd s) of (ok, w) \<Rightarrow> (ok, s\<lparr>f_sd := w\<rparr>))"

lemma u32_unat_below: "unat (w :: u32) < 2 ^ 32 - 1 \<Longrightarrow> unat (w + 1) = Suc (unat w)"
  using u32_unat_succ [of w] u32_not_max_iff [of w] by simp

section \<open>The contract of the card\<close>

text \<open>A store of 512 byte blocks. \<open>room\<close> is the number of blocks that can be addressed; a write that fails may
  have spoilt its own block and no other one.\<close>

locale block_store =
  fixes ops :: "'w sd_ops" and usable :: "'w \<Rightarrow> bool" and blk :: "'w \<Rightarrow> nat \<Rightarrow> u8 list" and room :: "'w \<Rightarrow> nat"
  assumes blk_length: "usable w \<Longrightarrow> length (blk w l) = 512"
    and room_le: "usable w \<Longrightarrow> room w \<le> 2 ^ 32"
    and read_keeps: "sd_read ops lba w = (r, w') \<Longrightarrow> usable w \<Longrightarrow> unat lba < room w \<Longrightarrow>
      usable w' \<and> blk w' = blk w \<and> room w' = room w"
    and read_ok: "sd_read ops lba w = (Some data, w') \<Longrightarrow> usable w \<Longrightarrow> unat lba < room w \<Longrightarrow> data = blk w (unat lba)"
    and write_keeps: "sd_write ops lba data w = (ok, w') \<Longrightarrow> usable w \<Longrightarrow> unat lba < room w \<Longrightarrow> length data = 512 \<Longrightarrow>
      usable w' \<and> room w' = room w \<and> (\<forall>l. l \<noteq> unat lba \<longrightarrow> blk w' l = blk w l)"
    and write_ok: "sd_write ops lba data w = (True, w') \<Longrightarrow> usable w \<Longrightarrow> unat lba < room w \<Longrightarrow> length data = 512 \<Longrightarrow>
      blk w' (unat lba) = data"

text \<open>A card on which no read fails, and one on which no write fails.\<close>

definition no_read_fails :: "'w sd_ops \<Rightarrow> ('w \<Rightarrow> bool) \<Rightarrow> ('w \<Rightarrow> nat) \<Rightarrow> bool" where
  "no_read_fails ops usable room \<longleftrightarrow> (\<forall>l w. usable w \<longrightarrow> unat l < room w \<longrightarrow> fst (sd_read ops l w) \<noteq> None)"

definition no_write_fails :: "'w sd_ops \<Rightarrow> ('w \<Rightarrow> bool) \<Rightarrow> ('w \<Rightarrow> nat) \<Rightarrow> bool" where
  "no_write_fails ops usable room \<longleftrightarrow> (\<forall>l d w. usable w \<longrightarrow> unat l < room w \<longrightarrow> length d = 512 \<longrightarrow> fst (sd_write ops l d w))"

section \<open>Geometry\<close>

text \<open>What the geometry has to satisfy so that the clusters \<open>2 .. cluster_count + 1\<close> have an entry in each FAT and a
  place on the card, the FATs and the data area being disjoint.\<close>

definition vol_ok :: "nat \<Rightarrow> 'w fat_state \<Rightarrow> bool" where
  "vol_ok n s \<longleftrightarrow> 0 < g_fat_sectors_per_cluster s \<and> 0 < g_fat_count s \<and>
     unat (g_fat_cluster_count s) + 2 \<le> 128 * unat (g_fat_sectors_per_fat s) \<and>
     unat (g_fat_fat_begin s) + unat (g_fat_count s) * unat (g_fat_sectors_per_fat s) \<le> unat (g_fat_data_begin s) \<and>
     unat (g_fat_data_begin s) + unat (g_fat_cluster_count s) * unat (g_fat_sectors_per_cluster s) \<le> n \<and> n \<le> 2 ^ 32 \<and>
     unat (g_fat_cluster_count s) + 2 \<le> unat FAT32_EOC \<and> length (g_sd_sector s) = 512"

text \<open>The geometry: what every routine but the mount keeps.\<close>

definition geometry :: "'w fat_state \<Rightarrow> u32 list \<times> u8 list" where
  "geometry s = ([g_fat_lba_begin s, g_fat_fat_begin s, g_fat_data_begin s, g_fat_root_cluster s, g_fat_sectors_per_fat s,
     g_fat_total_sectors s, g_fat_cluster_count s], [g_fat_sectors_per_cluster s, g_fat_count s])"

lemma geometry_hint [simp]: "geometry (s\<lparr>g_fat_alloc_hint := h\<rparr>) = geometry s"
  by (simp add: geometry_def)

lemma geometry_sector [simp]: "geometry (s\<lparr>g_sd_sector := d\<rparr>) = geometry s"
  by (simp add: geometry_def)

lemma geometry_sd [simp]: "geometry (s\<lparr>f_sd := w\<rparr>) = geometry s"
  by (simp add: geometry_def)

lemma geometry_set_hint [simp]: "geometry (fat32_set_alloc_hint h s) = geometry s"
  by (simp add: fat32_set_alloc_hint_def)

lemma same_geometry:
  assumes "geometry s' = geometry s"
  shows "g_fat_lba_begin s' = g_fat_lba_begin s" "g_fat_fat_begin s' = g_fat_fat_begin s"
    "g_fat_data_begin s' = g_fat_data_begin s" "g_fat_root_cluster s' = g_fat_root_cluster s"
    "g_fat_sectors_per_fat s' = g_fat_sectors_per_fat s" "g_fat_total_sectors s' = g_fat_total_sectors s"
    "g_fat_cluster_count s' = g_fat_cluster_count s" "g_fat_sectors_per_cluster s' = g_fat_sectors_per_cluster s"
    "g_fat_count s' = g_fat_count s"
  using assms by (simp_all add: geometry_def)

lemma vol_ok_same:
  assumes "vol_ok n s" and "geometry s' = geometry s" and "length (g_sd_sector s') = 512"
  shows "vol_ok n s'"
  using assms(1,3) unfolding vol_ok_def same_geometry [OF assms(2)] by simp

lemma vol_okD:
  assumes "vol_ok n s"
  shows "0 < g_fat_sectors_per_cluster s" "0 < g_fat_count s"
    "unat (g_fat_cluster_count s) + 2 \<le> 128 * unat (g_fat_sectors_per_fat s)"
    "unat (g_fat_fat_begin s) + unat (g_fat_count s) * unat (g_fat_sectors_per_fat s) \<le> unat (g_fat_data_begin s)"
    "unat (g_fat_data_begin s) + unat (g_fat_cluster_count s) * unat (g_fat_sectors_per_cluster s) \<le> n" "n \<le> 2 ^ 32"
    "unat (g_fat_cluster_count s) + 2 \<le> unat FAT32_EOC" "length (g_sd_sector s) = 512"
  using assms by (auto simp: vol_ok_def)

end
