(* ===== verification/Fat32_Alloc.thy ===== *)
theory Fat32_Alloc
  imports Fat32_State
begin

text \<open>
  \<open>storage/fat32_alloc.c\<close>: the entries of the file allocation table, the search for free clusters, chains of
  clusters allocated and freed. Searching and freeing are loops that may not end on a volume whose numbers make no sense
  (a last cluster of \<open>2 ^ 32 - 1\<close>, a card that answers at random), so they are partial: \<open>None\<close> is a call that does
  not return.
\<close>

definition fat_cluster_lba :: "u32 \<Rightarrow> 'w fat_state \<Rightarrow> u32" where
  "fat_cluster_lba cluster s = g_fat_data_begin s + (cluster - 2) * ucast (g_fat_sectors_per_cluster s)"

definition fat_next_cluster :: "'w sd_ops \<Rightarrow> u32 \<Rightarrow> 'w fat_state \<Rightarrow> u32 \<times> 'w fat_state" where
  "fat_next_cluster ops cluster s = (
     let fat_offset = cluster * 4;
         sector = g_fat_fat_begin s + fat_offset div SD_BLOCK_SIZE;
         offset = fat_offset mod SD_BLOCK_SIZE
     in case scratch_read ops sector s of
          (False, s') \<Rightarrow> (FAT32_EOC, s')
        | (True, s') \<Rightarrow> (rd32 (g_sd_sector s') (unat offset) AND 0x0FFFFFFF, s'))"

text \<open>The loop over the copies of the table; \<open>n\<close> copies are left.\<close>

fun write_copies :: "'w sd_ops \<Rightarrow> u32 \<Rightarrow> u32 \<Rightarrow> u32 \<Rightarrow> u32 \<Rightarrow> nat \<Rightarrow> 'w fat_state \<Rightarrow> bool \<times> 'w fat_state" where
  "write_copies ops sector_offset offset value copy 0 s = (True, s)"
| "write_copies ops sector_offset offset value copy (Suc n) s = (
     let sector = g_fat_fat_begin s + copy * g_fat_sectors_per_fat s + sector_offset
     in case scratch_read ops sector s of
          (False, s1) \<Rightarrow> (False, s1)
        | (True, s1) \<Rightarrow>
            let old_value = rd32 (g_sd_sector s1) (unat offset);
                s2 = s1\<lparr>g_sd_sector := wr32 (g_sd_sector s1) (unat offset)
                       ((old_value AND 0xF0000000) OR (value AND 0x0FFFFFFF))\<rparr>
            in case scratch_write ops sector s2 of
                 (False, s3) \<Rightarrow> (False, s3)
               | (True, s3) \<Rightarrow> write_copies ops sector_offset offset value (copy + 1) n s3)"

definition fat_write_entry :: "'w sd_ops \<Rightarrow> u32 \<Rightarrow> u32 \<Rightarrow> 'w fat_state \<Rightarrow> bool \<times> 'w fat_state" where
  "fat_write_entry ops cluster value s = (
     let fat_offset = cluster * 4;
         sector_offset = fat_offset div SD_BLOCK_SIZE;
         offset = fat_offset mod SD_BLOCK_SIZE
     in if cluster < 2 \<or> g_fat_cluster_count s + 2 \<le> cluster then (False, s)
        else write_copies ops sector_offset offset value 0 (unat (g_fat_count s)) s)"

text \<open>One pass of the search, \<open>for(cluster = first; cluster <= last; cluster++)\<close>.\<close>

partial_function (option) find_pass :: "'w sd_ops \<Rightarrow> u32 \<Rightarrow> u32 \<Rightarrow> 'w fat_state \<Rightarrow> (u32 option \<times> 'w fat_state) option" where
  "find_pass ops cluster last_cluster s = (
     if cluster \<le> last_cluster then
       (case fat_next_cluster ops cluster s of (v, s') \<Rightarrow>
          if v = 0 then Some (Some cluster, fat32_set_alloc_hint (cluster + 1) s')
          else find_pass ops (cluster + 1) last_cluster s')
     else Some (None, s))"

definition fat_find_free_cluster :: "'w sd_ops \<Rightarrow> 'w fat_state \<Rightarrow> (u32 option \<times> 'w fat_state) option" where
  "fat_find_free_cluster ops s = (
     let start = (if 2 \<le> g_fat_alloc_hint s then g_fat_alloc_hint s else 2);
         max_cluster = g_fat_cluster_count s + 1
     in case find_pass ops start max_cluster s of
          None \<Rightarrow> None
        | Some (Some c, s1) \<Rightarrow> Some (Some c, s1)
        | Some (None, s1) \<Rightarrow> find_pass ops 2 (start - 1) s1)"

text \<open>The loop of \<open>fat_alloc_chain\<close>; \<open>n\<close> clusters are still to be added. The result is the first cluster, or no
  chain at all.\<close>

fun alloc_loop :: "'w sd_ops \<Rightarrow> nat \<Rightarrow> u32 \<Rightarrow> u32 \<Rightarrow> 'w fat_state \<Rightarrow> (u32 option \<times> 'w fat_state) option" where
  "alloc_loop ops 0 first previous s = Some (Some first, s)"
| "alloc_loop ops (Suc n) first previous s = (case fat_find_free_cluster ops s of
       None \<Rightarrow> None
     | Some (None, s1) \<Rightarrow> Some (None, s1)
     | Some (Some cluster, s1) \<Rightarrow>
         (case fat_write_entry ops cluster FAT32_EOC s1 of
            (False, s2) \<Rightarrow> Some (None, s2)
          | (True, s2) \<Rightarrow>
              (case (if previous \<noteq> 0 then fat_write_entry ops previous cluster s2 else (True, s2)) of
                 (False, s3) \<Rightarrow> Some (None, s3)
               | (True, s3) \<Rightarrow> alloc_loop ops n (if first = 0 then cluster else first) cluster s3)))"

definition fat_alloc_chain :: "'w sd_ops \<Rightarrow> u32 \<Rightarrow> 'w fat_state \<Rightarrow> (u32 option \<times> 'w fat_state) option" where
  "fat_alloc_chain ops count s = (if count = 0 then Some (None, s) else alloc_loop ops (unat count) 0 0 s)"

partial_function (option) free_loop :: "'w sd_ops \<Rightarrow> u32 \<Rightarrow> 'w fat_state \<Rightarrow> (bool \<times> 'w fat_state) option" where
  "free_loop ops cluster s = (
     if 2 \<le> cluster \<and> cluster < FAT32_EOC then
       (case fat_next_cluster ops cluster s of (next, s1) \<Rightarrow>
         (case fat_write_entry ops cluster 0 s1 of (ok, s2) \<Rightarrow>
            if \<not> ok then Some (False, s2)
            else if FAT32_EOC \<le> next \<or> next < 2 then Some (True, s2)
            else free_loop ops next s2))
     else Some (True, s))"

definition fat_free_chain :: "'w sd_ops \<Rightarrow> u32 \<Rightarrow> 'w fat_state \<Rightarrow> (bool \<times> 'w fat_state) option" where
  "fat_free_chain ops first_cluster s = (case free_loop ops first_cluster s of
       None \<Rightarrow> None
     | Some (False, s1) \<Rightarrow> Some (False, s1)
     | Some (True, s1) \<Rightarrow> Some (True,
         if 2 \<le> first_cluster \<and> first_cluster < g_fat_alloc_hint s1 then fat32_set_alloc_hint first_cluster s1 else s1))"

text \<open>\<open>fat_zero_cluster\<close>: the scratch sector holds zeros, \<open>n\<close> sectors are left.\<close>

fun zero_loop :: "'w sd_ops \<Rightarrow> u32 \<Rightarrow> u32 \<Rightarrow> nat \<Rightarrow> 'w fat_state \<Rightarrow> bool \<times> 'w fat_state" where
  "zero_loop ops cluster k 0 s = (True, s)"
| "zero_loop ops cluster k (Suc n) s = (case scratch_write ops (fat_cluster_lba cluster s + k) s of
       (False, s1) \<Rightarrow> (False, s1)
     | (True, s1) \<Rightarrow> zero_loop ops cluster (k + 1) n s1)"

definition fat_zero_cluster :: "'w sd_ops \<Rightarrow> u32 \<Rightarrow> 'w fat_state \<Rightarrow> bool \<times> 'w fat_state" where
  "fat_zero_cluster ops cluster s = zero_loop ops cluster 0 (unat (g_fat_sectors_per_cluster s))
     (s\<lparr>g_sd_sector := replicate (unat SD_BLOCK_SIZE) 0\<rparr>)"

section \<open>The table as a function\<close>

text \<open>The 32 bit word of cluster \<open>k\<close> in copy \<open>c\<close> of the table, \<open>B\<close> being the blocks of the card, and the 28 bits of it
  that link clusters. The code reads copy 0 and writes all of them.\<close>

definition fat_word :: "(nat \<Rightarrow> u8 list) \<Rightarrow> 'w fat_state \<Rightarrow> nat \<Rightarrow> u32 \<Rightarrow> u32" where
  "fat_word B s c k = rd32 (B (unat (g_fat_fat_begin s) + c * unat (g_fat_sectors_per_fat s) + unat k div 128)) (4 * (unat k mod 128))"

definition fat_entry :: "(nat \<Rightarrow> u8 list) \<Rightarrow> 'w fat_state \<Rightarrow> nat \<Rightarrow> u32 \<Rightarrow> u32" where
  "fat_entry B s c k = fat_word B s c k AND 0x0FFFFFFF"

definition is_cluster :: "'w fat_state \<Rightarrow> u32 \<Rightarrow> bool" where
  "is_cluster s k \<longleftrightarrow> 2 \<le> unat k \<and> unat k < unat (g_fat_cluster_count s) + 2"

definition fat_area :: "'w fat_state \<Rightarrow> nat set" where
  "fat_area s = {unat (g_fat_fat_begin s) ..< unat (g_fat_fat_begin s) + unat (g_fat_count s) * unat (g_fat_sectors_per_fat s)}"

definition fat_ready :: "('w \<Rightarrow> bool) \<Rightarrow> ('w \<Rightarrow> nat) \<Rightarrow> 'w fat_state \<Rightarrow> bool" where
  "fat_ready usable room s \<longleftrightarrow> usable (f_sd s) \<and> vol_ok (room (f_sd s)) s"

lemma fat_readyD:
  "fat_ready usable room s \<Longrightarrow> usable (f_sd s)" "fat_ready usable room s \<Longrightarrow> vol_ok (room (f_sd s)) s"
  "fat_ready usable room s \<Longrightarrow> length (g_sd_sector s) = 512"
  by (auto simp: fat_ready_def dest: vol_okD(8))

lemma fat_word_same: "geometry s' = geometry s \<Longrightarrow> fat_word B s' = fat_word B s"
  unfolding fat_word_def by (rule ext)+ (simp only: same_geometry [of s' s])

lemma fat_entry_same: "geometry s' = geometry s \<Longrightarrow> fat_entry B s' = fat_entry B s"
  unfolding fat_entry_def by (simp only: fat_word_same [of s' s])

lemma is_cluster_same: "geometry s' = geometry s \<Longrightarrow> is_cluster s' = is_cluster s"
  unfolding is_cluster_def by (rule ext) (simp only: same_geometry [of s' s])

lemma fat_area_same: "geometry s' = geometry s \<Longrightarrow> fat_area s' = fat_area s"
  unfolding fat_area_def by (simp only: same_geometry [of s' s])

lemma fat_offset_unat:
  fixes k :: u32
  assumes "unat k < 2 ^ 28"
  shows "unat (k * 4 div SD_BLOCK_SIZE) = unat k div 128" and "unat (k * 4 mod SD_BLOCK_SIZE) = 4 * (unat k mod 128)"
proof -
  have "unat (k * 4) = 4 * unat k" using assms by (simp add: unat_word_ariths)
  then show "unat (k * 4 div SD_BLOCK_SIZE) = unat k div 128" "unat (k * 4 mod SD_BLOCK_SIZE) = 4 * (unat k mod 128)"
    using mult_mod_right [of 4 "unat k" 128] by (simp_all add: SD_BLOCK_SIZE_def unat_div unat_mod)
qed

lemma is_cluster_bound: "vol_ok n s \<Longrightarrow> is_cluster s k \<Longrightarrow> unat k < 2 ^ 28 \<and> unat k < unat FAT32_EOC \<and> 2 \<le> k \<and> k < FAT32_EOC"
  using vol_okD(7) [of n s] by (auto simp: is_cluster_def FAT32_EOC_def word_le_nat_alt word_less_nat_alt)

lemma is_cluster_sector: "vol_ok n s \<Longrightarrow> is_cluster s k \<Longrightarrow> unat k div 128 < unat (g_fat_sectors_per_fat s)"
  using vol_okD(3) [of n s] by (auto simp: is_cluster_def)

lemma table_bound: "vol_ok n s \<Longrightarrow> unat (g_fat_fat_begin s) + unat (g_fat_count s) * unat (g_fat_sectors_per_fat s) \<le> n"
  using vol_okD(4,5) [of n s] by simp

lemma copy_sector:
  assumes "vol_ok n s" and "is_cluster s k" and "c < unat (g_fat_count s)"
  shows "c * unat (g_fat_sectors_per_fat s) + unat k div 128 < unat (g_fat_count s) * unat (g_fat_sectors_per_fat s)"
proof -
  have "c * unat (g_fat_sectors_per_fat s) + unat k div 128 < Suc c * unat (g_fat_sectors_per_fat s)"
    using is_cluster_sector [OF assms(1,2)] by simp
  also have "\<dots> \<le> unat (g_fat_count s) * unat (g_fat_sectors_per_fat s)" using assms(3) by (intro mult_le_mono1) simp
  finally show ?thesis .
qed

lemma sector_unat:
  assumes "vol_ok n s" and "is_cluster s k" and "c < unat (g_fat_count s)"
  shows "unat (g_fat_fat_begin s + of_nat c * g_fat_sectors_per_fat s + k * 4 div SD_BLOCK_SIZE) =
    unat (g_fat_fat_begin s) + c * unat (g_fat_sectors_per_fat s) + unat k div 128"
    and "unat (g_fat_fat_begin s) + c * unat (g_fat_sectors_per_fat s) + unat k div 128 < n"
    and "unat (g_fat_fat_begin s) + c * unat (g_fat_sectors_per_fat s) + unat k div 128 \<in> fat_area s"
proof -
  note b = copy_sector [OF assms] and t = table_bound [OF assms(1)] and k = is_cluster_bound [OF assms(1,2)]
  show lt: "unat (g_fat_fat_begin s) + c * unat (g_fat_sectors_per_fat s) + unat k div 128 < n" using b t by simp
  show "unat (g_fat_fat_begin s) + c * unat (g_fat_sectors_per_fat s) + unat k div 128 \<in> fat_area s"
    using b by (simp add: fat_area_def)
  have n: "n \<le> 2 ^ 32" using assms(1) by (rule vol_okD)
  have c: "unat (of_nat c :: u32) = c" using assms(3) unsigned_less [of "g_fat_count s", where ?'a = nat] by (simp add: unat_of_nat)
  have "g_fat_fat_begin s + of_nat c * g_fat_sectors_per_fat s + k * 4 div SD_BLOCK_SIZE =
     of_nat (unat (g_fat_fat_begin s) + c * unat (g_fat_sectors_per_fat s) + unat (k * 4 div SD_BLOCK_SIZE))" by simp
  also have "unat \<dots> = unat (g_fat_fat_begin s) + c * unat (g_fat_sectors_per_fat s) + unat k div 128"
    unfolding fat_offset_unat(1) [OF conjunct1 [OF k]] using lt n by (simp add: unat_of_nat del: of_nat_add of_nat_mult)
  finally show "unat (g_fat_fat_begin s + of_nat c * g_fat_sectors_per_fat s + k * 4 div SD_BLOCK_SIZE) =
    unat (g_fat_fat_begin s) + c * unat (g_fat_sectors_per_fat s) + unat k div 128" .
qed


text \<open>The sectors of a cluster in the data area.\<close>

definition cluster_sector :: "'w fat_state \<Rightarrow> u32 \<Rightarrow> nat \<Rightarrow> nat" where
  "cluster_sector s k i = unat (g_fat_data_begin s) + (unat k - 2) * unat (g_fat_sectors_per_cluster s) + i"

lemma cluster_sector_same:
  assumes "geometry s' = geometry s"
  shows "cluster_sector s' = cluster_sector s"
  unfolding cluster_sector_def by (rule ext)+ (simp only: same_geometry [OF assms])

lemma cluster_sector_bound:
  assumes "vol_ok n s" and "is_cluster s k" and "i < unat (g_fat_sectors_per_cluster s)"
  shows "cluster_sector s k i < n" and "cluster_sector s k i \<notin> fat_area s"
proof -
  have "(unat k - 2) * unat (g_fat_sectors_per_cluster s) + i < Suc (unat k - 2) * unat (g_fat_sectors_per_cluster s)"
    using assms(3) by simp
  also have "\<dots> \<le> unat (g_fat_cluster_count s) * unat (g_fat_sectors_per_cluster s)"
    using assms(2) by (intro mult_le_mono1) (auto simp: is_cluster_def)
  finally show "cluster_sector s k i < n" using vol_okD(5) [OF assms(1)] by (simp add: cluster_sector_def)
  show "cluster_sector s k i \<notin> fat_area s" using vol_okD(4) [OF assms(1)] by (auto simp: cluster_sector_def fat_area_def)
qed

lemma cluster_lba_unat:
  assumes "vol_ok n s" and "is_cluster s k" and "i < unat (g_fat_sectors_per_cluster s)"
  shows "unat (fat_cluster_lba k s + of_nat i) = cluster_sector s k i"
proof -
  have "2 \<le> k" using assms(2) by (simp add: is_cluster_def word_le_nat_alt)
  then have u: "unat (k - 2) = unat k - 2" by (simp add: unat_sub)
  have k: "k - 2 = of_nat (unat k - 2)" unfolding u [symmetric] by simp
  have "fat_cluster_lba k s + of_nat i = of_nat (cluster_sector s k i)"
    by (simp add: fat_cluster_lba_def cluster_sector_def k)
  moreover have "cluster_sector s k i < 2 ^ 32"
    using cluster_sector_bound(1) [OF assms] vol_okD(6) [OF assms(1)] by simp
  ultimately show ?thesis by (simp add: unat_of_nat)
qed

lemma cluster_sector_inj:
  assumes "is_cluster s k" and "is_cluster s j" and "i < unat (g_fat_sectors_per_cluster s)" and "i' < unat (g_fat_sectors_per_cluster s)"
    and "cluster_sector s k i = cluster_sector s j i'"
  shows "k = j" and "i = i'"
proof -
  let ?n = "unat (g_fat_sectors_per_cluster s)"
  have e: "(unat k - 2) * ?n + i = (unat j - 2) * ?n + i'" using assms(5) by (simp add: cluster_sector_def)
  have "((unat k - 2) * ?n + i) div ?n = unat k - 2" "((unat j - 2) * ?n + i') div ?n = unat j - 2"
    using assms(3,4) by (simp_all add: div_mult_self3)
  then have "unat k - 2 = unat j - 2" using e by simp
  then have "unat k = unat j" using assms(1,2) by (simp add: is_cluster_def) arith
  then show "k = j" by (simp add: word_unat_eq_iff)
  then show "i = i'" using e by simp
qed

lemma word_wr32:
  "off + 4 \<le> length b \<Longrightarrow> off' + 4 \<le> length b \<Longrightarrow> off + 4 \<le> off' \<or> off' + 4 \<le> off \<Longrightarrow> rd32 (wr32 b off v) off' = rd32 b off'"
  by (rule f32.get_put_other) auto

text \<open>Writing one word of one sector of the table changes one entry of one copy.\<close>

lemma fat_word_update:
  assumes ok: "vol_ok n s" and k: "is_cluster s k" and j: "is_cluster s j" and c: "c < unat (g_fat_count s)" "c' < unat (g_fat_count s)"
    and l: "l = unat (g_fat_fat_begin s) + c * unat (g_fat_sectors_per_fat s) + unat k div 128" and len: "length (B l) = 512"
    and B': "B' l = wr32 (B l) (4 * (unat k mod 128)) x" "\<And>i. i \<noteq> l \<Longrightarrow> B' i = B i"
  shows "fat_word B' s c' j = (if c' = c \<and> j = k then x else fat_word B s c' j)"
proof -
  let ?p = "unat (g_fat_sectors_per_fat s)" and ?l' = "unat (g_fat_fat_begin s) + c' * unat (g_fat_sectors_per_fat s) + unat j div 128"
  have m: "unat k mod 128 < 128" "unat j mod 128 < 128" by simp_all
  show ?thesis
  proof (cases "?l' = l")
    case False
    then show ?thesis using B'(2) l by (auto simp: fat_word_def)
  next
    case True
    then have e: "c' * ?p + unat j div 128 = c * ?p + unat k div 128" using l by simp
    have "(c' * ?p + unat j div 128) div ?p = c'" "(c * ?p + unat k div 128) div ?p = c"
      using is_cluster_sector [OF ok k] is_cluster_sector [OF ok j] by (simp_all add: div_mult_self3)
    then have cc: "c' = c" using e by simp
    then have d: "unat j div 128 = unat k div 128" using e by simp
    show ?thesis
    proof (cases "j = k")
      case True
      then show ?thesis using cc l B'(1) m len by (simp add: fat_word_def f32.get_put)
    next
      case False
      then have "unat j mod 128 \<noteq> unat k mod 128" using d by (metis div_mult_mod_eq word_unat_eq_iff)
      then have "rd32 (wr32 (B l) (4 * (unat k mod 128)) x) (4 * (unat j mod 128)) = rd32 (B l) (4 * (unat j mod 128))"
        using m len by (intro word_wr32) linarith+
      then show ?thesis using False True B'(1) cc by (simp add: fat_word_def)
    qed
  qed
qed


section \<open>Chains\<close>

text \<open>The table in which the clusters of a list are linked one to the next and the last one ends the chain, and the
  statement that a table has such a chain.\<close>

fun relink :: "u32 list \<Rightarrow> (u32 \<Rightarrow> u32) \<Rightarrow> u32 \<Rightarrow> u32" where
  "relink [] t = t"
| "relink [k] t = t(k := FAT32_EOC)"
| "relink (k # l # ks) t = (relink (l # ks) t)(k := l)"

fun fat_chain :: "(u32 \<Rightarrow> u32) \<Rightarrow> u32 list \<Rightarrow> bool" where
  "fat_chain t [] \<longleftrightarrow> False"
| "fat_chain t [k] \<longleftrightarrow> FAT32_EOC \<le> t k"
| "fat_chain t (k # l # ks) \<longleftrightarrow> t k = l \<and> fat_chain t (l # ks)"

lemma relink_outside: "j \<notin> set ks \<Longrightarrow> relink ks t j = t j"
  by (induction ks t rule: relink.induct) auto

lemma relink_inside: "j \<in> set ks \<Longrightarrow> relink ks t j = relink ks t' j"
  by (induction ks t rule: relink.induct) auto

lemma relink_cong: "(\<And>i. P i \<Longrightarrow> t i = t' i) \<Longrightarrow> P j \<Longrightarrow> relink ks t j = relink ks t' j"
  by (cases "j \<in> set ks") (simp_all add: relink_outside relink_inside [of j ks t t'])

lemma relink_absorb: "k \<in> set ks \<Longrightarrow> relink ks (t(k := v)) = relink ks t"
  by (rule ext) (metis fun_upd_other relink_inside relink_outside)

lemma relink_upd: "k \<notin> set ks \<Longrightarrow> relink ks (t(k := v)) = (relink ks t)(k := v)"
  by (rule ext) (metis fun_upd_apply relink_inside relink_outside)

lemma relink_extend: "p \<noteq> k \<Longrightarrow> p \<notin> set ks \<Longrightarrow> relink (k # ks) (t(k := FAT32_EOC, p := k)) = relink (p # k # ks) t"
  using relink_upd [of p "k # ks" "t(k := FAT32_EOC)" k] relink_absorb [of k "k # ks" t FAT32_EOC] by simp

lemma fat_chain_cong: "(\<And>k. k \<in> set ks \<Longrightarrow> t k = t' k) \<Longrightarrow> fat_chain t ks = fat_chain t' ks"
  by (induction t ks rule: fat_chain.induct) auto

lemma fat_chain_relink: "ks \<noteq> [] \<Longrightarrow> distinct ks \<Longrightarrow> fat_chain (relink ks t) ks"
proof (induction ks t rule: relink.induct)
  case (3 k l ks t)
  have "fat_chain ((relink (l # ks) t)(k := l)) (l # ks) = fat_chain (relink (l # ks) t) (l # ks)"
    using 3(3) by (intro fat_chain_cong) auto
  then show ?case using 3 by (simp del: fun_upd_apply) simp
qed simp_all

text \<open>The search starts at the hint, which never lies further than one past the last cluster.\<close>

definition hint_ok :: "'w fat_state \<Rightarrow> bool" where
  "hint_ok s \<longleftrightarrow> unat (g_fat_alloc_hint s) \<le> unat (g_fat_cluster_count s) + 2"

section \<open>The routines over a block store\<close>

context block_store
begin

abbreviation reliable :: bool where "reliable \<equiv> no_read_fails ops usable room"

text \<open>What every routine keeps: the store stays usable, geometry and capacity are the same.\<close>

definition keeps :: "'w fat_state \<Rightarrow> 'w fat_state \<Rightarrow> bool" where
  "keeps s s' \<longleftrightarrow> fat_ready usable room s' \<and> geometry s' = geometry s \<and> room (f_sd s') = room (f_sd s)"

lemma keeps_refl: "fat_ready usable room s \<Longrightarrow> keeps s s"
  by (simp add: keeps_def)

lemma keeps_trans: "keeps s s' \<Longrightarrow> keeps s' s'' \<Longrightarrow> keeps s s''"
  by (simp add: keeps_def)

lemma keeps_ready: "keeps s s' \<Longrightarrow> fat_ready usable room s'"
  by (simp add: keeps_def)

lemma keeps_geometry: "keeps s s' \<Longrightarrow> geometry s' = geometry s"
  by (simp add: keeps_def)

lemma keeps_sd:
  assumes "fat_ready usable room s" and "usable w" and "room w = room (f_sd s)" and "length d = 512"
  shows "keeps s (s\<lparr>g_sd_sector := d, f_sd := w\<rparr>)"
proof -
  have "vol_ok (room w) (s\<lparr>g_sd_sector := d, f_sd := w\<rparr>)"
    unfolding assms(3) by (rule vol_ok_same [OF fat_readyD(2) [OF assms(1)]]) (simp_all add: assms(4))
  then show ?thesis using assms(2,3) by (simp add: keeps_def fat_ready_def)
qed

lemma keeps_only_sd:
  assumes "fat_ready usable room s" and "usable w" and "room w = room (f_sd s)"
  shows "keeps s (s\<lparr>f_sd := w\<rparr>)"
  using keeps_sd [OF assms fat_readyD(3) [OF assms(1)]] by simp

lemma keeps_hint:
  assumes "keeps s s'"
  shows "keeps s (fat32_set_alloc_hint h s')"
proof -
  have "vol_ok (room (f_sd s')) (s'\<lparr>g_fat_alloc_hint := h\<rparr>)"
    by (rule vol_ok_same [OF fat_readyD(2) [OF keeps_ready [OF assms]]]) (simp_all add: fat_readyD(3) [OF keeps_ready [OF assms]])
  then show ?thesis using assms by (simp add: keeps_def fat_ready_def fat32_set_alloc_hint_def)
qed

lemma scratch_read_spec:
  assumes run: "scratch_read ops lba s = (ok, s')" and rd: "fat_ready usable room s" and l: "unat lba < room (f_sd s)"
  shows "keeps s s' \<and> g_fat_alloc_hint s' = g_fat_alloc_hint s \<and> blk (f_sd s') = blk (f_sd s) \<and>
    (ok \<longrightarrow> g_sd_sector s' = blk (f_sd s) (unat lba))"
proof -
  obtain r w where r: "sd_read ops lba (f_sd s) = (r, w)" by (metis prod.collapse)
  have u: "usable (f_sd s)" "length (g_sd_sector s) = 512" by (fact fat_readyD [OF rd])+
  note k = read_keeps [OF r u(1) l]
  show ?thesis
  proof (cases r)
    case None
    then have "ok = False" "s' = s\<lparr>f_sd := w\<rparr>" using run r by (auto simp: scratch_read_def)
    then show ?thesis using k keeps_only_sd [OF rd, of w] by simp
  next
    case (Some d)
    then have "ok = True" "s' = s\<lparr>g_sd_sector := d, f_sd := w\<rparr>" using run r by (auto simp: scratch_read_def)
    moreover have "d = blk (f_sd s) (unat lba)" using read_ok [OF r [unfolded Some] u(1) l] .
    ultimately show ?thesis using k keeps_sd [OF rd, of w d] blk_length [OF u(1)] by simp
  qed
qed

lemma scratch_write_spec:
  assumes run: "scratch_write ops lba s = (ok, s')" and rd: "fat_ready usable room s" and l: "unat lba < room (f_sd s)"
  shows "keeps s s' \<and> g_fat_alloc_hint s' = g_fat_alloc_hint s \<and> g_sd_sector s' = g_sd_sector s \<and>
    (\<forall>i. i \<noteq> unat lba \<longrightarrow> blk (f_sd s') i = blk (f_sd s) i) \<and> (ok \<longrightarrow> blk (f_sd s') (unat lba) = g_sd_sector s)"
proof -
  obtain r w where r: "sd_write ops lba (g_sd_sector s) (f_sd s) = (r, w)" by (metis prod.collapse)
  have u: "usable (f_sd s)" "length (g_sd_sector s) = 512" by (fact fat_readyD [OF rd])+
  have s': "ok = r" "s' = s\<lparr>f_sd := w\<rparr>" using run r by (auto simp: scratch_write_def)
  note k = write_keeps [OF r u(1) l u(2)]
  show ?thesis using s' k keeps_only_sd [OF rd, of w] r write_ok [of lba "g_sd_sector s" "f_sd s" w] u l by auto
qed

lemma fat_next_cluster_spec:
  assumes run: "fat_next_cluster ops k s = (v, s')" and rd: "fat_ready usable room s" and k: "is_cluster s k"
  shows "keeps s s' \<and> g_fat_alloc_hint s' = g_fat_alloc_hint s \<and> blk (f_sd s') = blk (f_sd s) \<and>
    (v = fat_entry (blk (f_sd s)) s 0 k \<or> v = FAT32_EOC)"
proof -
  have v: "vol_ok (room (f_sd s)) s" using rd by (simp add: fat_ready_def)
  have fc: "0 < unat (g_fat_count s)" using vol_okD(2) [OF v] by (simp add: word_less_nat_alt)
  let ?l = "g_fat_fat_begin s + k * 4 div SD_BLOCK_SIZE"
  note a = sector_unat [OF v k fc, simplified]
  note o = fat_offset_unat(2) [OF conjunct1 [OF is_cluster_bound [OF v k]]]
  obtain ok s1 where r: "scratch_read ops ?l s = (ok, s1)" by (metis prod.collapse)
  have "unat ?l < room (f_sd s)" using a by simp
  note sp = scratch_read_spec [OF r rd this]
  have "s' = s1" "v = (if ok then rd32 (g_sd_sector s1) (unat (k * 4 mod SD_BLOCK_SIZE)) AND 0x0FFFFFFF else FAT32_EOC)"
    using run r by (auto simp: fat_next_cluster_def Let_def split: bool.splits)
  then show ?thesis using sp a o by (auto simp: fat_entry_def fat_word_def)
qed

text \<open>Everything outside the table is as it was; the word of \<open>k\<close> in the copies \<open>c .. c + n - 1\<close> has its link replaced.\<close>

definition linked :: "nat \<Rightarrow> nat \<Rightarrow> u32 \<Rightarrow> u32 \<Rightarrow> 'w fat_state \<Rightarrow> 'w fat_state \<Rightarrow> bool" where
  "linked c n k v s s' \<longleftrightarrow> (\<forall>c' j. c' < unat (g_fat_count s) \<longrightarrow> is_cluster s j \<longrightarrow> fat_word (blk (f_sd s')) s c' j =
     (if c \<le> c' \<and> c' < c + n \<and> j = k then (fat_word (blk (f_sd s)) s c' k AND 0xF0000000) OR (v AND 0x0FFFFFFF)
      else fat_word (blk (f_sd s)) s c' j))"

definition outside_same :: "'w fat_state \<Rightarrow> 'w fat_state \<Rightarrow> bool" where
  "outside_same s s' \<longleftrightarrow> (\<forall>l. l \<notin> fat_area s \<longrightarrow> blk (f_sd s') l = blk (f_sd s) l)"

lemma outside_same_trans: "outside_same s s' \<Longrightarrow> outside_same s' s'' \<Longrightarrow> geometry s' = geometry s \<Longrightarrow> outside_same s s''"
  by (simp add: outside_same_def fat_area_same [of s' s])

lemma write_copy:
  assumes rd: "fat_ready usable room s" and k: "is_cluster s k" and c: "c < unat (g_fat_count s)"
    and lba: "lba = g_fat_fat_begin s + of_nat c * g_fat_sectors_per_fat s + k * 4 div SD_BLOCK_SIZE"
    and r: "scratch_read ops lba s = (True, s1)"
    and s2: "s2 = s1\<lparr>g_sd_sector := wr32 (g_sd_sector s1) (unat (k * 4 mod SD_BLOCK_SIZE))
       ((rd32 (g_sd_sector s1) (unat (k * 4 mod SD_BLOCK_SIZE)) AND 0xF0000000) OR (v AND 0x0FFFFFFF))\<rparr>"
    and w: "scratch_write ops lba s2 = (ok, s3)"
  shows "keeps s s3 \<and> g_fat_alloc_hint s3 = g_fat_alloc_hint s \<and> outside_same s s3 \<and> (ok \<longrightarrow> linked c 1 k v s s3)"
proof -
  note vol = fat_readyD(2) [OF rd]
  note a = sector_unat [OF vol k c, folded lba] and o = fat_offset_unat(2) [OF conjunct1 [OF is_cluster_bound [OF vol k]]]
  let ?x = "(rd32 (blk (f_sd s) (unat lba)) (4 * (unat k mod 128)) AND 0xF0000000) OR (v AND 0x0FFFFFFF)"
  have lt: "unat lba < room (f_sd s)" using a by simp
  note r' = scratch_read_spec [OF r rd lt]
  have len: "length (blk (f_sd s) (unat lba)) = 512" by (rule blk_length [OF fat_readyD(1) [OF rd]])
  have s2': "s2 = s1\<lparr>g_sd_sector := wr32 (blk (f_sd s) (unat lba)) (4 * (unat k mod 128)) ?x\<rparr>" using s2 r' o by simp
  have "length (wr32 (blk (f_sd s) (unat lba)) (4 * (unat k mod 128)) ?x) = 512" using len by (simp add: wr32_def)
  from keeps_sd [OF keeps_ready [OF conjunct1 [OF r']] fat_readyD(1) [OF keeps_ready [OF conjunct1 [OF r']]] refl this]
  have k2: "keeps s s2" using r' s2' by (auto intro: keeps_trans)
  have b2: "blk (f_sd s2) = blk (f_sd s)" "g_fat_alloc_hint s2 = g_fat_alloc_hint s" using s2' r' by simp_all
  have "unat lba < room (f_sd s2)" using lt k2 by (simp add: keeps_def)
  note w' = scratch_write_spec [OF w keeps_ready [OF k2] this]
  have "unat lba \<in> fat_area s" using a by simp
  then have "outside_same s s3" using w' b2 unfolding outside_same_def by metis
  moreover have "linked c 1 k v s s3" if ok
  proof -
    have "blk (f_sd s3) (unat lba) = wr32 (blk (f_sd s) (unat lba)) (4 * (unat k mod 128)) ?x" using w' that s2' by simp
    moreover have "\<And>i. i \<noteq> unat lba \<Longrightarrow> blk (f_sd s3) i = blk (f_sd s) i" using w' b2 by simp
    ultimately have "fat_word (blk (f_sd s3)) s c' j = (if c' = c \<and> j = k then ?x else fat_word (blk (f_sd s)) s c' j)"
      if "c' < unat (g_fat_count s)" and "is_cluster s j" for c' j
      using fat_word_update [where B = "blk (f_sd s)" and l = "unat lba" and B' = "blk (f_sd s3)" and x = ?x, OF vol k that(2) c that(1) a(1) len] by blast
    moreover have "fat_word (blk (f_sd s)) s c k = rd32 (blk (f_sd s) (unat lba)) (4 * (unat k mod 128))" using a by (simp add: fat_word_def)
    ultimately show ?thesis by (auto simp: linked_def)
  qed
  ultimately show ?thesis using w' k2 b2 keeps_trans [of s s2 s3] by simp
qed

lemma linked_same: "geometry s1 = geometry s \<Longrightarrow> linked c n k v s1 s' \<longleftrightarrow> (\<forall>c' j. c' < unat (g_fat_count s) \<longrightarrow> is_cluster s j \<longrightarrow>
    fat_word (blk (f_sd s')) s c' j =
     (if c \<le> c' \<and> c' < c + n \<and> j = k then (fat_word (blk (f_sd s1)) s c' k AND 0xF0000000) OR (v AND 0x0FFFFFFF)
      else fat_word (blk (f_sd s1)) s c' j))"
  by (simp only: linked_def fat_word_same [of s1 s] is_cluster_same [of s1 s] same_geometry(9) [of s1 s])

lemma linked_step: "linked c 1 k v s s1 \<Longrightarrow> linked (Suc c) n k v s1 s2 \<Longrightarrow> geometry s1 = geometry s \<Longrightarrow> is_cluster s k \<Longrightarrow>
    linked c (Suc n) k v s s2"
  unfolding linked_same [of s1 s] by (auto simp: linked_def)

lemma write_copies_spec:
  "write_copies ops (k * 4 div SD_BLOCK_SIZE) (k * 4 mod SD_BLOCK_SIZE) v (of_nat c) n s = (ok, s') \<Longrightarrow> fat_ready usable room s \<Longrightarrow>
    is_cluster s k \<Longrightarrow> c + n \<le> unat (g_fat_count s) \<Longrightarrow>
    keeps s s' \<and> g_fat_alloc_hint s' = g_fat_alloc_hint s \<and> outside_same s s' \<and> (ok \<longrightarrow> linked c n k v s s')"
proof (induction n arbitrary: c s)
  case 0
  then show ?case by (auto simp: keeps_refl outside_same_def linked_def)
next
  case (Suc n)
  let ?lba = "g_fat_fat_begin s + of_nat c * g_fat_sectors_per_fat s + k * 4 div SD_BLOCK_SIZE"
  have c: "c < unat (g_fat_count s)" using Suc.prems(4) by simp
  obtain r s1 where r: "scratch_read ops ?lba s = (r, s1)" by (metis prod.collapse)
  show ?case
  proof (cases r)
    case False
    then have "ok = False" "s' = s1" using Suc.prems(1) r by auto
    moreover have "unat ?lba < room (f_sd s)" using sector_unat [OF fat_readyD(2) [OF Suc.prems(2)] Suc.prems(3) c] by simp
    ultimately show ?thesis using scratch_read_spec [OF r Suc.prems(2)] by (simp add: outside_same_def)
  next
    case True
    define s2 where "s2 = s1\<lparr>g_sd_sector := wr32 (g_sd_sector s1) (unat (k * 4 mod SD_BLOCK_SIZE))
       ((rd32 (g_sd_sector s1) (unat (k * 4 mod SD_BLOCK_SIZE)) AND 0xF0000000) OR (v AND 0x0FFFFFFF))\<rparr>"
    obtain w s3 where w: "scratch_write ops ?lba s2 = (w, s3)" by (metis prod.collapse)
    have r1: "scratch_read ops ?lba s = (True, s1)" using r True by simp
    note one = write_copy [OF Suc.prems(2,3) c refl r1 s2_def w]
    show ?thesis
    proof (cases w)
      case False
      then have "ok = False" "s' = s3" using Suc.prems(1) r1 False w s2_def by (auto simp: Let_def)
      then show ?thesis using one by simp
    next
      case True
      have "write_copies ops (k * 4 div SD_BLOCK_SIZE) (k * 4 mod SD_BLOCK_SIZE) v (of_nat c + 1) n s3 = (ok, s')"
        using Suc.prems(1) r1 w True s2_def by (auto simp: Let_def)
      then have run: "write_copies ops (k * 4 div SD_BLOCK_SIZE) (k * 4 mod SD_BLOCK_SIZE) v (of_nat (Suc c)) n s3 = (ok, s')"
        by (simp add: add.commute)
      have g: "geometry s3 = geometry s" using one by (simp add: keeps_def)
      have "is_cluster s3 k" "Suc c + n \<le> unat (g_fat_count s3)"
        using Suc.prems(3,4) by (simp_all add: is_cluster_same [OF g] same_geometry(9) [OF g])
      from Suc.IH [OF run _ this] one
      have rest: "keeps s3 s'" "g_fat_alloc_hint s' = g_fat_alloc_hint s" "outside_same s3 s'" "ok \<longrightarrow> linked (Suc c) n k v s3 s'"
        by (auto dest: keeps_ready)
      then show ?thesis using one True g Suc.prems(3) keeps_trans outside_same_trans [OF _ rest(3) g] linked_step [of c k v s s3 n s'] by blast
    qed
  qed
qed

abbreviation table :: "'w fat_state \<Rightarrow> nat \<Rightarrow> u32 \<Rightarrow> u32" where
  "table s \<equiv> fat_entry (blk (f_sd s)) s"

text \<open>\<open>entered s s' f\<close>: in every copy the table of \<open>s'\<close> is \<open>f\<close> of the table of \<open>s\<close>, all the rest is kept.\<close>

definition entered :: "'w fat_state \<Rightarrow> 'w fat_state \<Rightarrow> ((u32 \<Rightarrow> u32) \<Rightarrow> u32 \<Rightarrow> u32) \<Rightarrow> bool" where
  "entered s s' f \<longleftrightarrow> (\<forall>c < unat (g_fat_count s). \<forall>j. is_cluster s j \<longrightarrow> table s' c j = f (table s c) j)"

lemma entered_refl:
  assumes "blk (f_sd s') = blk (f_sd s)" and "geometry s' = geometry s"
  shows "entered s s' (\<lambda>t. t)"
  by (simp add: entered_def fat_entry_same [OF assms(2)] assms(1))

lemma entered_trans:
  assumes "entered s s1 f" and "entered s1 s2 g" and g: "geometry s1 = geometry s"
    and "\<And>t t' j. (\<And>i. is_cluster s i \<Longrightarrow> t i = t' i) \<Longrightarrow> is_cluster s j \<Longrightarrow> g t j = g t' j"
  shows "entered s s2 (\<lambda>t. g (f t))"
  unfolding entered_def
proof (intro allI impI)
  fix c j
  assume c: "c < unat (g_fat_count s)" and j: "is_cluster s j"
  have "table s2 c j = g (table s1 c) j"
    using assms(2) c j unfolding entered_def is_cluster_same [OF g] same_geometry(9) [OF g] by blast
  also have "\<dots> = g (f (table s c)) j" using assms(1) c by (intro assms(4) j) (auto simp: entered_def)
  finally show "table s2 c j = g (f (table s c)) j" .
qed

lemma link_masked: "((w AND 0xF0000000) OR (v AND 0x0FFFFFFF)) AND 0x0FFFFFFF = (v AND 0x0FFFFFFF :: u32)"
  by (simp add: bit.conj_disj_distrib2 and.assoc)

lemma linked_entered:
  assumes "linked 0 (unat (g_fat_count s)) k v s s'" and g: "geometry s' = geometry s"
  shows "entered s s' (\<lambda>t. t(k := v AND 0x0FFFFFFF))"
  using assms(1) unfolding entered_def fat_entry_def linked_def fat_word_same [OF g] by (simp add: link_masked)

lemma guard_is_cluster:
  assumes "vol_ok n s"
  shows "(k < 2 \<or> g_fat_cluster_count s + 2 \<le> k) \<longleftrightarrow> \<not> is_cluster s k"
proof -
  have "unat (g_fat_cluster_count s + 2) = unat (g_fat_cluster_count s) + 2"
    using vol_okD(7) [OF assms] by (simp add: FAT32_EOC_def unat_word_ariths)
  then show ?thesis by (auto simp: is_cluster_def word_le_nat_alt word_less_nat_alt not_less not_le)
qed

lemma fat_write_entry_spec:
  assumes run: "fat_write_entry ops k v s = (ok, s')" and rd: "fat_ready usable room s"
  shows "keeps s s' \<and> g_fat_alloc_hint s' = g_fat_alloc_hint s \<and> outside_same s s' \<and>
    (ok \<longrightarrow> is_cluster s k \<and> entered s s' (\<lambda>t. t(k := v AND 0x0FFFFFFF)))"
proof (cases "is_cluster s k")
  case False
  then have "ok = False" "s' = s" using run guard_is_cluster [OF fat_readyD(2) [OF rd], of k]
    by (auto simp: fat_write_entry_def Let_def)
  then show ?thesis using keeps_refl [OF rd] by (simp add: outside_same_def)
next
  case True
  then have "write_copies ops (k * 4 div SD_BLOCK_SIZE) (k * 4 mod SD_BLOCK_SIZE) v (of_nat 0) (unat (g_fat_count s)) s = (ok, s')"
    using run guard_is_cluster [OF fat_readyD(2) [OF rd], of k] by (simp add: fat_write_entry_def Let_def split: if_splits)
  from write_copies_spec [OF this rd True] show ?thesis using True linked_entered [of s k v s'] by (auto simp: keeps_def)
qed

text \<open>A chain of whole clusters is searched for in \<open>[cluster .. last_cluster]\<close>: the loop returns.\<close>

lemma find_pass_spec:
  "fat_ready usable room s \<Longrightarrow> unat l < 2 ^ 32 - 1 \<Longrightarrow> (\<And>k. cluster \<le> k \<Longrightarrow> k \<le> l \<Longrightarrow> is_cluster s k) \<Longrightarrow>
    \<exists>r s'. find_pass ops cluster l s = Some (r, s') \<and> keeps s s' \<and> blk (f_sd s') = blk (f_sd s) \<and>
      (case r of None \<Rightarrow> g_fat_alloc_hint s' = g_fat_alloc_hint s
       | Some k \<Rightarrow> is_cluster s k \<and> table s 0 k = 0 \<and> g_fat_alloc_hint s' = k + 1)"
proof (induction "Suc (unat l) - unat cluster" arbitrary: cluster s)
  case 0
  then have "\<not> cluster \<le> l" by (simp add: word_le_nat_alt)
  then show ?case using keeps_refl [OF 0(2)] by (simp add: find_pass.simps [of ops cluster])
next
  case (Suc n)
  then have le: "cluster \<le> l" by (simp add: word_le_nat_alt)
  have k: "is_cluster s cluster" using Suc.prems(3) le by simp
  obtain v s1 where v: "fat_next_cluster ops cluster s = (v, s1)" by (metis prod.collapse)
  note sp = fat_next_cluster_spec [OF v Suc.prems(1) k]
  show ?case
  proof (cases "v = 0")
    case True
    then have "table s 0 cluster = 0" using sp by (auto simp: FAT32_EOC_def)
    moreover have "find_pass ops cluster l s = Some (Some cluster, fat32_set_alloc_hint (cluster + 1) s1)"
      using v le True by (simp add: find_pass.simps [of ops cluster])
    ultimately show ?thesis using sp k keeps_hint [of s s1 "cluster + 1"] by (auto simp: fat32_set_alloc_hint_def)
  next
    case False
    have su: "unat (cluster + 1) = Suc (unat cluster)"
      using le Suc.prems(2) by (intro u32_unat_below) (simp add: word_le_nat_alt)
    have g: "geometry s1 = geometry s" using sp by (simp add: keeps_def)
    have "find_pass ops cluster l s = find_pass ops (cluster + 1) l s1"
      using v le False by (simp add: find_pass.simps [of ops cluster])
    moreover have "n = Suc (unat l) - unat (cluster + 1)" using Suc.hyps(2) su by simp
    moreover have "is_cluster s1 k" if "cluster + 1 \<le> k" "k \<le> l" for k
      using that su Suc.prems(3) unfolding is_cluster_same [OF g] by (simp add: word_le_nat_alt)
    ultimately obtain r s' where "find_pass ops cluster l s = Some (r, s')" and k': "keeps s1 s'" "blk (f_sd s') = blk (f_sd s1)"
      and r: "case r of None \<Rightarrow> g_fat_alloc_hint s' = g_fat_alloc_hint s1
       | Some k \<Rightarrow> is_cluster s1 k \<and> table s1 0 k = 0 \<and> g_fat_alloc_hint s' = k + 1"
      using Suc.hyps(1) [of "cluster + 1" s1] keeps_ready [OF conjunct1 [OF sp]] Suc.prems(2) by auto
    moreover have "keeps s s'" using sp k'(1) by (blast intro: keeps_trans)
    moreover have "case r of None \<Rightarrow> g_fat_alloc_hint s' = g_fat_alloc_hint s
       | Some k \<Rightarrow> is_cluster s k \<and> table s 0 k = 0 \<and> g_fat_alloc_hint s' = k + 1"
      using r sp unfolding is_cluster_same [OF g] fat_entry_same [OF g] by (simp split: option.splits)
    ultimately show ?thesis using sp by auto
  qed
qed

lemma fat_find_free_cluster_spec:
  assumes rd: "fat_ready usable room s" and h: "hint_ok s"
  shows "\<exists>r s'. fat_find_free_cluster ops s = Some (r, s') \<and> keeps s s' \<and> hint_ok s' \<and> blk (f_sd s') = blk (f_sd s) \<and>
    (\<forall>k. r = Some k \<longrightarrow> is_cluster s k \<and> table s 0 k = 0)"
proof -
  define start where "start = (if 2 \<le> g_fat_alloc_hint s then g_fat_alloc_hint s else 2)"
  let ?max = "g_fat_cluster_count s + 1"
  note vol = fat_readyD(2) [OF rd]
  have mx: "unat ?max = unat (g_fat_cluster_count s) + 1" "unat (g_fat_cluster_count s) + 2 < 2 ^ 31"
    using vol_okD(7) [OF vol] by (simp_all add: FAT32_EOC_def unat_word_ariths)
  have st: "2 \<le> unat start" "unat start \<le> unat (g_fat_cluster_count s) + 2"
    using h by (auto simp: start_def hint_ok_def word_le_nat_alt)
  have st1: "unat (start - 1) = unat start - 1" using unat_minus_one [of start] st(1) by fastforce
  have hk: "hint_ok s'" if "geometry s' = geometry s" "is_cluster s k" "g_fat_alloc_hint s' = k + 1" for s' k
  proof -
    have "unat (k + 1) = Suc (unat k)" using that(2) mx by (intro u32_unat_below) (simp add: is_cluster_def)
    then show ?thesis using that(2) unfolding hint_ok_def same_geometry(7) [OF that(1)] that(3) is_cluster_def by simp
  qed
  have "\<And>k. start \<le> k \<Longrightarrow> k \<le> ?max \<Longrightarrow> is_cluster s k" using st(1) mx(1) by (simp add: is_cluster_def word_le_nat_alt)
  then obtain r1 s1 where p1: "find_pass ops start ?max s = Some (r1, s1)" "keeps s s1" "blk (f_sd s1) = blk (f_sd s)"
    and r1: "case r1 of None \<Rightarrow> g_fat_alloc_hint s1 = g_fat_alloc_hint s
       | Some k \<Rightarrow> is_cluster s k \<and> table s 0 k = 0 \<and> g_fat_alloc_hint s1 = k + 1"
    using find_pass_spec [OF rd, of ?max start] mx by auto
  have g1: "geometry s1 = geometry s" using p1(2) by (rule keeps_geometry)
  show ?thesis
  proof (cases r1)
    case (Some k)
    then have "fat_find_free_cluster ops s = Some (Some k, s1)" using p1(1) by (simp add: fat_find_free_cluster_def Let_def start_def [symmetric])
    then show ?thesis using p1(2,3) r1 Some hk [OF g1, of k] by auto
  next
    case None
    then have h1: "g_fat_alloc_hint s1 = g_fat_alloc_hint s" using r1 by simp
    have "\<And>k. 2 \<le> k \<Longrightarrow> k \<le> start - 1 \<Longrightarrow> is_cluster s1 k"
      using st st1 unfolding is_cluster_same [OF g1] by (simp add: is_cluster_def word_le_nat_alt)
    moreover have "unat (start - 1) < 2 ^ 32 - 1" using st(2) st1 mx(2) by simp
    ultimately obtain r2 s2 where p2: "find_pass ops 2 (start - 1) s1 = Some (r2, s2)" "keeps s1 s2" "blk (f_sd s2) = blk (f_sd s1)"
      and r2: "case r2 of None \<Rightarrow> g_fat_alloc_hint s2 = g_fat_alloc_hint s1
         | Some k \<Rightarrow> is_cluster s1 k \<and> table s1 0 k = 0 \<and> g_fat_alloc_hint s2 = k + 1"
      using find_pass_spec [OF keeps_ready [OF p1(2)], of "start - 1" 2] by blast
    have g2: "geometry s2 = geometry s" using p1(2) p2(2) by (simp add: keeps_def)
    have "fat_find_free_cluster ops s = Some (r2, s2)" using p1(1) p2(1) None by (simp add: fat_find_free_cluster_def Let_def start_def [symmetric])
    moreover have "hint_ok s2"
    proof (cases r2)
      case None
      then show ?thesis using h r2 h1 unfolding hint_ok_def same_geometry(7) [OF g2] by simp
    next
      case (Some k)
      then show ?thesis using hk [OF g2, of k] r2 unfolding is_cluster_same [OF g1] by simp
    qed
    ultimately show ?thesis using keeps_trans [OF p1(2) p2(2)] p1(3) p2(3) r2
      unfolding is_cluster_same [OF g1] fat_entry_same [OF g1] by auto
  qed
qed

lemma entered_upd_trans:
  "entered s s1 f \<Longrightarrow> entered s1 s2 (\<lambda>t. t(k := v)) \<Longrightarrow> geometry s1 = geometry s \<Longrightarrow> entered s s2 (\<lambda>t. (f t)(k := v))"
  by (erule entered_trans [where g = "\<lambda>t. t(k := v)"]) simp_all

lemma entered_relink_trans:
  "entered s s1 f \<Longrightarrow> entered s1 s2 (relink ks) \<Longrightarrow> geometry s1 = geometry s \<Longrightarrow> entered s s2 (\<lambda>t. relink ks (f t))"
  by (erule entered_trans [where g = "relink ks"]) (auto intro: relink_cong)

text \<open>The step of the allocation: one more cluster at the end of the chain.\<close>

lemma alloc_step:
  assumes rd: "fat_ready usable room s" and h: "hint_ok s" and prev: "p \<noteq> 0 \<Longrightarrow> is_cluster s p \<and> table s 0 p = FAT32_EOC"
    and f: "fat_find_free_cluster ops s = Some (Some k, s1)"
    and w1: "fat_write_entry ops k FAT32_EOC s1 = (ok1, s2)"
    and w2: "(if p \<noteq> 0 then fat_write_entry ops p k s2 else (True, s2)) = (ok2, s3)"
  shows "keeps s s2 \<and> outside_same s s2 \<and> hint_ok s2 \<and> keeps s s3 \<and> outside_same s s3 \<and> hint_ok s3 \<and> is_cluster s k \<and> table s 0 k = 0 \<and> p \<noteq> k \<and>
    (ok1 \<longrightarrow> ok2 \<longrightarrow> entered s s3 (\<lambda>t. if p = 0 then t(k := FAT32_EOC) else t(k := FAT32_EOC, p := k)))"
proof -
  from fat_find_free_cluster_spec [OF rd h] f
  have a: "keeps s s1" "hint_ok s1" "blk (f_sd s1) = blk (f_sd s)" "is_cluster s k" "table s 0 k = 0" by auto
  note b = fat_write_entry_spec [OF w1 keeps_ready [OF a(1)]]
  have g1: "geometry s1 = geometry s" and g2: "geometry s2 = geometry s" using a(1) b by (simp_all add: keeps_def)
  have o1: "outside_same s s1" using a(3) by (simp add: outside_same_def)
  have h2: "hint_ok s2" using a(2) b unfolding hint_ok_def same_geometry(7) [OF g1] same_geometry(7) [OF g2] by simp
  have k2: "keeps s s2" using a(1) b by (blast intro: keeps_trans)
  have o2: "outside_same s s2" using o1 b g1 by (blast intro: outside_same_trans)
  have "k \<noteq> 0" using a(4) by (auto simp: is_cluster_def)
  then have pk: "p \<noteq> k" using prev a(5) by (auto simp: FAT32_EOC_def)
  have kb: "k AND 0x0FFFFFFF = k"
  proof -
    have "unat k < 2 ^ 28" using is_cluster_bound [OF fat_readyD(2) [OF rd] a(4)] by simp
    then have "take_bit 28 k = k" by (simp add: word_unat_eq_iff unsigned_take_bit_eq take_bit_nat_eq_self)
    then show ?thesis by (simp add: take_bit_eq_mask mask_eq_exp_minus_1)
  qed
  have e2: "entered s s2 (\<lambda>t. t(k := FAT32_EOC))" if ok1
    using entered_upd_trans [OF entered_refl [OF a(3) g1] _ g1, of s2 k FAT32_EOC] b that by (simp add: FAT32_EOC_def)
  show ?thesis
  proof (cases "p = 0")
    case True
    then have "s3 = s2" using w2 by simp
    then show ?thesis using k2 o2 h2 a(4,5) pk e2 True by simp
  next
    case False
    then have w2': "fat_write_entry ops p k s2 = (ok2, s3)" using w2 by simp
    note c = fat_write_entry_spec [OF w2' keeps_ready [OF k2]]
    have g3: "geometry s3 = geometry s" using c g2 by (simp add: keeps_def)
    have "hint_ok s3" using h2 c unfolding hint_ok_def same_geometry(7) [OF g3] same_geometry(7) [OF g2] by simp
    moreover have "entered s s3 (\<lambda>t. t(k := FAT32_EOC, p := k))" if ok1 ok2
      using entered_upd_trans [OF e2 [OF that(1)] _ g2, of s3 p k] c that(2) kb by simp
    ultimately show ?thesis using k2 o2 h2 a(4,5) pk False c by (auto intro: keeps_trans outside_same_trans [OF _ _ g2])
  qed
qed

lemma alloc_loop_spec:
  "fat_ready usable room s \<Longrightarrow> hint_ok s \<Longrightarrow> (p \<noteq> 0 \<Longrightarrow> is_cluster s p \<and> (\<forall>c < unat (g_fat_count s). table s c p = FAT32_EOC)) \<Longrightarrow> (f = 0 \<longleftrightarrow> p = 0) \<Longrightarrow>
    \<exists>r s'. alloc_loop ops n f p s = Some (r, s') \<and> keeps s s' \<and> outside_same s s' \<and> hint_ok s' \<and>
      (\<forall>x. r = Some x \<longrightarrow> (\<exists>ks. length ks = n \<and> distinct ks \<and> p \<notin> set ks \<and> x = (if f = 0 \<and> ks \<noteq> [] then hd ks else f) \<and>
        (\<forall>k \<in> set ks. is_cluster s k \<and> table s 0 k = 0) \<and> entered s s' (relink (if p = 0 then ks else p # ks))))"
proof (induction n arbitrary: f p s)
  case 0
  have "entered s s (relink (if p = 0 then [] else [p]))" using 0(3) by (auto simp: entered_def)
  then show ?case using 0 keeps_refl by (auto simp: outside_same_def)
next
  case (Suc n)
  obtain r s1 where fr: "fat_find_free_cluster ops s = Some (r, s1)" and
    s1: "keeps s s1" "hint_ok s1" "blk (f_sd s1) = blk (f_sd s)"
    using fat_find_free_cluster_spec [OF Suc.prems(1,2)] by auto
  show ?case
  proof (cases r)
    case None
    then show ?thesis using fr s1 by (simp add: outside_same_def)
  next
    case (Some k)
    obtain ok1 s2 where w1: "fat_write_entry ops k FAT32_EOC s1 = (ok1, s2)" by (metis prod.collapse)
    obtain ok2 s3 where w2: "(if p \<noteq> 0 then fat_write_entry ops p k s2 else (True, s2)) = (ok2, s3)" by (metis prod.collapse)
    have fc: "0 < unat (g_fat_count s)" using vol_okD(2) [OF fat_readyD(2) [OF Suc.prems(1)]] by (simp add: word_less_nat_alt)
    then have p0: "p \<noteq> 0 \<Longrightarrow> is_cluster s p \<and> table s 0 p = FAT32_EOC" using Suc.prems(3) by simp
    note st = alloc_step [OF Suc.prems(1,2) p0 fr [unfolded Some] w1 w2]
    show ?thesis
    proof (cases "ok1 \<and> ok2")
      case False
      then have "alloc_loop ops (Suc n) f p s = Some (None, if ok1 then s3 else s2)"
        using fr Some w1 w2 by (simp split: bool.splits)
      then show ?thesis using st by simp
    next
      case True
      have run: "alloc_loop ops (Suc n) f p s = alloc_loop ops n (if f = 0 then k else f) k s3"
        using fr Some w1 w2 True by simp
      have g3: "geometry s3 = geometry s" using st by (simp add: keeps_def)
      let ?u = "\<lambda>t. if p = 0 then t(k := FAT32_EOC) else t(k := FAT32_EOC, p := k)"
      have e3: "entered s s3 ?u" using st True by simp
      have t3: "table s3 c j = ?u (table s c) j" if "c < unat (g_fat_count s)" "is_cluster s j" for c j
        using e3 that unfolding entered_def by (metis (no_types, lifting))
      have k0: "k \<noteq> 0" using st by (auto simp: is_cluster_def)
      have "table s3 c k = FAT32_EOC" if "c < unat (g_fat_count s)" for c using t3 [OF that, of k] st by auto
      with st have c3: "is_cluster s3 k \<and> (\<forall>c < unat (g_fat_count s3). table s3 c k = FAT32_EOC)"
        unfolding is_cluster_same [OF g3] same_geometry(9) [OF g3] by simp
      define f' where "f' = (if f = 0 then k else f)"
      have f': "f' \<noteq> 0" "(f' = 0) = (k = 0)" using k0 by (simp_all add: f'_def)
      have "fat_ready usable room s3" "hint_ok s3" using st by (blast intro: keeps_ready)+
      from Suc.IH [OF this c3 f'(2)] obtain r' s' where ih: "alloc_loop ops n f' k s3 = Some (r', s')" "keeps s3 s'" "outside_same s3 s'" "hint_ok s'"
        and rs: "\<forall>x. r' = Some x \<longrightarrow> (\<exists>ks. length ks = n \<and> distinct ks \<and> k \<notin> set ks \<and> x = (if f' = 0 \<and> ks \<noteq> [] then hd ks else f') \<and>
          (\<forall>k \<in> set ks. is_cluster s3 k \<and> table s3 0 k = 0) \<and> entered s3 s' (relink (if k = 0 then ks else k # ks)))"
        by blast
      have "\<exists>ks. length ks = Suc n \<and> distinct ks \<and> p \<notin> set ks \<and> x = (if f = 0 \<and> ks \<noteq> [] then hd ks else f) \<and>
        (\<forall>k \<in> set ks. is_cluster s k \<and> table s 0 k = 0) \<and> entered s s' (relink (if p = 0 then ks else p # ks))"
        if "r' = Some x" for x
      proof -
        from rs that obtain ks where ks: "length ks = n" "distinct ks" "k \<notin> set ks" "x = f'"
          "\<forall>k \<in> set ks. is_cluster s k \<and> table s3 0 k = 0" and e: "entered s3 s' (relink (k # ks))"
          using k0 f'(1) unfolding is_cluster_same [OF g3] by auto
        have fr0: "table s 0 j = 0 \<and> j \<noteq> p" if "j \<in> set ks" for j
          using ks(5) that t3 [OF fc, of j] k0 st p0 by (auto simp: is_cluster_def split: if_splits)
        have eq: "relink (k # ks) (?u t) = relink (if p = 0 then k # ks else p # k # ks) t" for t
          using st fr0 relink_extend [of p k ks t] relink_absorb [of k "k # ks" t FAT32_EOC] by auto
        have "entered s s' (relink (if p = 0 then k # ks else p # k # ks))"
          using entered_relink_trans [OF e3 e g3] unfolding eq .
        then show ?thesis using ks fr0 st k0 by (intro exI [of _ "k # ks"]) (auto simp: f'_def)
      qed
      moreover have "keeps s s'" "outside_same s s'" using st ih(2,3) g3 by (blast intro: keeps_trans outside_same_trans)+
      ultimately show ?thesis using run ih(1,4) by (simp add: f'_def)
    qed
  qed
qed

lemma fat_next_cluster_reliable:
  assumes rel: "reliable" and run: "fat_next_cluster ops k s = (v, s')" and rd: "fat_ready usable room s" and k: "is_cluster s k"
  shows "v = table s 0 k"
proof -
  have fc: "0 < unat (g_fat_count s)" using vol_okD(2) [OF fat_readyD(2) [OF rd]] by (simp add: word_less_nat_alt)
  note a = sector_unat [OF fat_readyD(2) [OF rd] k fc, simplified]
  note o = fat_offset_unat(2) [OF conjunct1 [OF is_cluster_bound [OF fat_readyD(2) [OF rd] k]]]
  let ?l = "g_fat_fat_begin s + k * 4 div SD_BLOCK_SIZE"
  have lt: "unat ?l < room (f_sd s)" using a by simp
  then obtain d w where d: "sd_read ops ?l (f_sd s) = (Some d, w)"
    using rel fat_readyD(1) [OF rd] unfolding no_read_fails_def by (metis option.exhaust prod.collapse)
  have "d = blk (f_sd s) (unat ?l)" by (rule read_ok [OF d fat_readyD(1) [OF rd] lt])
  then show ?thesis using run d a o by (simp add: fat_next_cluster_def Let_def scratch_read_def fat_entry_def fat_word_def)
qed

text \<open>Freeing a chain: the entries of an initial part of it become zero, the part being the whole chain when reads do
  not fail. (A failed read looks like the end of the chain to \<open>fat_next_cluster\<close>.)\<close>

definition freed :: "u32 list \<Rightarrow> (u32 \<Rightarrow> u32) \<Rightarrow> u32 \<Rightarrow> u32" where
  "freed ks t j = (if j \<in> set ks then 0 else t j)"

lemma free_loop_spec:
  "fat_ready usable room s \<Longrightarrow> fat_chain (table s 0) (k # ks) \<Longrightarrow> distinct (k # ks) \<Longrightarrow> \<forall>j \<in> set (k # ks). is_cluster s j \<Longrightarrow>
    \<exists>ok s'. free_loop ops k s = Some (ok, s') \<and> keeps s s' \<and> outside_same s s' \<and> g_fat_alloc_hint s' = g_fat_alloc_hint s \<and>
      (ok \<longrightarrow> (\<exists>n \<le> length ks. entered s s' (freed (take (Suc n) (k # ks))) \<and> (reliable \<longrightarrow> n = length ks)))"
proof (induction ks arbitrary: k s)
  case (Nil k s)
  have k: "is_cluster s k" "2 \<le> k \<and> k < FAT32_EOC"
    using Nil.prems(4) is_cluster_bound [OF fat_readyD(2) [OF Nil.prems(1)], of k] by auto
  obtain v s1 where v: "fat_next_cluster ops k s = (v, s1)" by (metis prod.collapse)
  note a = fat_next_cluster_spec [OF v Nil.prems(1) k(1)]
  obtain ok s2 where w: "fat_write_entry ops k 0 s1 = (ok, s2)" by (metis prod.collapse)
  note b = fat_write_entry_spec [OF w keeps_ready [OF conjunct1 [OF a]]]
  have b1: "blk (f_sd s1) = blk (f_sd s)" using a by simp
  have g1: "geometry s1 = geometry s" and vE: "FAT32_EOC \<le> v" using a Nil.prems(2) by (auto simp: keeps_def)
  have run: "free_loop ops k s = Some (ok, s2)" using v w k(2) vE by (simp add: free_loop.simps [of ops k])
  have o: "outside_same s s2" using a b by (auto simp: outside_same_def fat_area_same [OF g1])
  have "entered s s2 (freed [k])" if ok
    using entered_upd_trans [OF entered_refl [OF b1 g1] _ g1, of s2 k 0] b that by (simp add: freed_def [abs_def] fun_upd_def)
  then show ?case using run a b o by (auto intro: keeps_trans)
next
  case (Cons l ks k s)
  have k: "is_cluster s k" "2 \<le> k \<and> k < FAT32_EOC" and l: "2 \<le> l \<and> l < FAT32_EOC"
    using Cons.prems(4) is_cluster_bound [OF fat_readyD(2) [OF Cons.prems(1)]] by auto
  obtain v s1 where v: "fat_next_cluster ops k s = (v, s1)" by (metis prod.collapse)
  note a = fat_next_cluster_spec [OF v Cons.prems(1) k(1)]
  obtain ok s2 where w: "fat_write_entry ops k 0 s1 = (ok, s2)" by (metis prod.collapse)
  note b = fat_write_entry_spec [OF w keeps_ready [OF conjunct1 [OF a]]]
  have g1: "geometry s1 = geometry s" and g2: "geometry s2 = geometry s" using a b by (auto simp: keeps_def)
  have b1: "blk (f_sd s1) = blk (f_sd s)" using a by simp
  have vl: "v = l \<or> v = FAT32_EOC" using a Cons.prems(2) by auto
  have rel: "reliable \<Longrightarrow> v = l" using fat_next_cluster_reliable [OF _ v Cons.prems(1) k(1)] Cons.prems(2) by simp
  have o: "outside_same s s2" using a b by (auto simp: outside_same_def fat_area_same [OF g1])
  have k2: "keeps s s2" using a b by (blast intro: keeps_trans)
  have e: "entered s s2 (\<lambda>t. t(k := 0))" if ok
    using entered_upd_trans [OF entered_refl [OF b1 g1] _ g1, of s2 k 0] b that by simp
  show ?case
  proof (cases "ok \<and> v = l")
    case False
    have "free_loop ops k s = Some (ok, s2)"
      using v w k(2) vl False by (auto simp: free_loop.simps [of ops k])
    moreover have "entered s s2 (freed (take (Suc 0) (k # l # ks)))" if ok
      using e [OF that] by (simp add: freed_def [abs_def] fun_upd_def)
    ultimately show ?thesis using k2 o a b rel False by auto
  next
    case True
    have "\<not> FAT32_EOC \<le> l" "\<not> l < 2" using l by (simp_all add: not_le not_less)
    then have run: "free_loop ops k s = free_loop ops l s2"
      using v w k(2) True by (simp add: free_loop.simps [of ops k])
    have fc: "0 < unat (g_fat_count s)" using vol_okD(2) [OF fat_readyD(2) [OF Cons.prems(1)]] by (simp add: word_less_nat_alt)
    have "table s2 0 j = table s 0 j" if "j \<in> set (l # ks)" for j
    proof -
      have "is_cluster s j" "j \<noteq> k" using Cons.prems(3,4) that by auto
      then show ?thesis using e True fc by (simp add: entered_def)
    qed
    then have "fat_chain (table s2 0) (l # ks)" using Cons.prems(2) fat_chain_cong [of "l # ks" "table s2 0" "table s 0"] by simp
    moreover have "distinct (l # ks)" "\<forall>j \<in> set (l # ks). is_cluster s2 j"
      using Cons.prems(3,4) unfolding is_cluster_same [OF g2] by auto
    ultimately obtain ok' s' where ih: "free_loop ops l s2 = Some (ok', s')" "keeps s2 s'" "outside_same s2 s'"
        "g_fat_alloc_hint s' = g_fat_alloc_hint s2"
      and n: "ok' \<Longrightarrow> \<exists>n \<le> length ks. entered s2 s' (freed (take (Suc n) (l # ks))) \<and> (reliable \<longrightarrow> n = length ks)"
      using Cons.IH [OF keeps_ready [OF k2]] by blast
    have "\<exists>n \<le> length (l # ks). entered s s' (freed (take (Suc n) (k # l # ks))) \<and> (reliable \<longrightarrow> n = length (l # ks))" if ok'
    proof -
      from n [OF that] obtain n where n: "n \<le> length ks" "entered s2 s' (freed (take (Suc n) (l # ks)))" "reliable \<longrightarrow> n = length ks" by blast
      have "entered s s' (\<lambda>t. freed (take (Suc n) (l # ks)) (t(k := 0)))"
        by (rule entered_trans [OF e n(2) g2]) (use True in \<open>auto simp: freed_def\<close>)
      moreover have "(\<lambda>t. freed (take (Suc n) (l # ks)) (t(k := 0))) = freed (take (Suc (Suc n)) (k # l # ks))"
        by (intro ext) (simp add: freed_def)
      ultimately show ?thesis using n by (intro exI [of _ "Suc n"]) simp
    qed
    then show ?thesis using run ih k2 o a b by (auto intro: keeps_trans outside_same_trans [OF _ _ g2])
  qed
qed

lemma fat_free_chain_spec:
  assumes rd: "fat_ready usable room s" and h: "hint_ok s" and ch: "fat_chain (table s 0) (k # ks)"
    and d: "distinct (k # ks)" "\<forall>j \<in> set (k # ks). is_cluster s j"
  shows "\<exists>ok s'. fat_free_chain ops k s = Some (ok, s') \<and> keeps s s' \<and> outside_same s s' \<and> hint_ok s' \<and>
      (ok \<longrightarrow> (\<exists>n \<le> length ks. entered s s' (freed (take (Suc n) (k # ks))) \<and> (reliable \<longrightarrow> n = length ks)))"
proof -
  from free_loop_spec [OF rd ch d] obtain ok s1 where f: "free_loop ops k s = Some (ok, s1)" "keeps s s1" "outside_same s s1"
    "g_fat_alloc_hint s1 = g_fat_alloc_hint s"
    and n: "ok \<Longrightarrow> \<exists>n \<le> length ks. entered s s1 (freed (take (Suc n) (k # ks))) \<and> (reliable \<longrightarrow> n = length ks)" by blast
  define s' where "s' = (if ok \<and> 2 \<le> k \<and> k < g_fat_alloc_hint s1 then fat32_set_alloc_hint k s1 else s1)"
  have "fat_free_chain ops k s = Some (ok, s')" using f(1) by (cases ok) (auto simp: fat_free_chain_def s'_def)
  moreover have "keeps s s'" using f(2) keeps_hint [OF f(2)] by (simp add: s'_def)
  moreover have b: "f_sd s' = f_sd s1" and g: "geometry s' = geometry s1" by (simp_all add: s'_def fat32_set_alloc_hint_def)
  then have "outside_same s s'" "\<And>x. entered s s1 x \<Longrightarrow> entered s s' x"
    using f(3) by (auto simp: outside_same_def entered_def fat_entry_same [OF g])
  moreover have "hint_ok s'"
    using h f(4) d(2) unfolding hint_ok_def same_geometry(7) [OF g] same_geometry(7) [OF keeps_geometry [OF f(2)]]
    by (auto simp: s'_def fat32_set_alloc_hint_def is_cluster_def)
  ultimately show ?thesis using n by blast
qed

lemma fat_alloc_chain_spec:
  assumes rd: "fat_ready usable room s" and h: "hint_ok s"
  shows "\<exists>r s'. fat_alloc_chain ops n s = Some (r, s') \<and> keeps s s' \<and> outside_same s s' \<and> hint_ok s' \<and>
    (\<forall>x. r = Some x \<longrightarrow> (\<exists>ks. length ks = unat n \<and> ks \<noteq> [] \<and> hd ks = x \<and> distinct ks \<and>
        (\<forall>k \<in> set ks. is_cluster s k \<and> table s 0 k = 0) \<and> entered s s' (relink ks)))"
proof (cases "n = 0")
  case True
  then show ?thesis using keeps_refl [OF rd] h by (auto simp: fat_alloc_chain_def outside_same_def)
next
  case False
  then have n: "unat n \<noteq> 0" by (simp add: unat_eq_0)
  show ?thesis using alloc_loop_spec [OF rd h, of 0 0 "unat n"] False n by (fastforce simp: fat_alloc_chain_def)
qed

text \<open>Clearing a cluster: its sectors hold zeros, no other sector changes.\<close>

definition zeroed :: "u32 \<Rightarrow> nat \<Rightarrow> nat \<Rightarrow> bool \<Rightarrow> 'w fat_state \<Rightarrow> 'w fat_state \<Rightarrow> bool" where
  "zeroed k a n ok s s' \<longleftrightarrow> (\<forall>l. l \<notin> cluster_sector s k ` {a ..< a + n} \<longrightarrow> blk (f_sd s') l = blk (f_sd s) l) \<and>
     (ok \<longrightarrow> (\<forall>i \<in> {a ..< a + n}. blk (f_sd s') (cluster_sector s k i) = replicate 512 0))"

lemma zero_loop_spec:
  "zero_loop ops k (of_nat a) n s = (ok, s') \<Longrightarrow> fat_ready usable room s \<Longrightarrow> is_cluster s k \<Longrightarrow>
    a + n \<le> unat (g_fat_sectors_per_cluster s) \<Longrightarrow> g_sd_sector s = replicate 512 0 \<Longrightarrow>
    keeps s s' \<and> g_fat_alloc_hint s' = g_fat_alloc_hint s \<and> zeroed k a n ok s s'"
proof (induction n arbitrary: a s)
  case 0
  then show ?case using keeps_refl by (auto simp: zeroed_def)
next
  case (Suc n)
  obtain w s1 where w: "scratch_write ops (fat_cluster_lba k s + of_nat a) s = (w, s1)" by (metis prod.collapse)
  note vol = fat_readyD(2) [OF Suc.prems(2)]
  have a: "a < unat (g_fat_sectors_per_cluster s)" using Suc.prems(4) by simp
  note l = cluster_lba_unat [OF vol Suc.prems(3) a]
  have "unat (fat_cluster_lba k s + of_nat a) < room (f_sd s)" using cluster_sector_bound(1) [OF vol Suc.prems(3) a] l by simp
  note sp = scratch_write_spec [OF w Suc.prems(2) this, unfolded l]
  show ?case
  proof (cases w)
    case False
    then have "ok = False" "s' = s1" using Suc.prems(1) w by auto
    then show ?thesis using sp by (auto simp: zeroed_def image_iff)
  next
    case True
    have g: "geometry s1 = geometry s" using sp by (simp add: keeps_def)
    have "zero_loop ops k (of_nat (Suc a)) n s1 = (ok, s')" using Suc.prems(1) w True by (simp add: add.commute)
    from Suc.IH [OF this keeps_ready [OF conjunct1 [OF sp]]] sp Suc.prems(3-5)
    have ih: "keeps s1 s'" "g_fat_alloc_hint s' = g_fat_alloc_hint s1" "zeroed k (Suc a) n ok s1 s'"
      by (simp_all add: is_cluster_same [OF g] same_geometry(8) [OF g])
    have ins: "{a ..< a + Suc n} = insert a {Suc a ..< Suc a + n}" by auto
    have nin: "cluster_sector s k a \<notin> cluster_sector s k ` {Suc a ..< Suc a + n}" by (auto simp: cluster_sector_def)
    have "zeroed k a (Suc n) ok s s'" using ih(3) sp True Suc.prems(5) nin
      unfolding zeroed_def ins cluster_sector_same [OF g] by auto
    then show ?thesis using ih sp by (auto intro: keeps_trans)
  qed
qed

lemma fat_zero_cluster_spec:
  assumes run: "fat_zero_cluster ops k s = (ok, s')" and rd: "fat_ready usable room s" and k: "is_cluster s k"
  shows "keeps s s' \<and> g_fat_alloc_hint s' = g_fat_alloc_hint s \<and> zeroed k 0 (unat (g_fat_sectors_per_cluster s)) ok s s'"
proof -
  let ?s = "s\<lparr>g_sd_sector := replicate 512 0\<rparr>"
  have ks: "keeps s ?s" using keeps_sd [OF rd fat_readyD(1) [OF rd] refl, of "replicate 512 0"] by simp
  have g: "geometry ?s = geometry s" by simp
  have "zero_loop ops k (of_nat 0) (unat (g_fat_sectors_per_cluster s)) ?s = (ok, s')"
    using run by (simp add: fat_zero_cluster_def SD_BLOCK_SIZE_def)
  from zero_loop_spec [OF this keeps_ready [OF ks]] k have
    "keeps ?s s'" "g_fat_alloc_hint s' = g_fat_alloc_hint s" "zeroed k 0 (unat (g_fat_sectors_per_cluster s)) ok ?s s'"
    by (simp_all add: is_cluster_same [OF g])
  then show ?thesis using keeps_trans [OF ks] by (simp add: zeroed_def cluster_sector_same [OF g])
qed

end

end
