(* ===== verification/Fat32_File.thy ===== *)
theory Fat32_File
  imports Fat32_Alloc
begin

text \<open>
  \<open>storage/fat32_file.c\<close>: reading a file, at once (\<open>fat_file_read_at\<close>) or as a stream that remembers its position and
  whether its sector still stands in the scratch buffer it shares with every other FAT routine.
\<close>

record fat_file_entry =
  fe_name :: "u8 list"
  fe_attr :: u8
  fe_cluster :: u32
  fe_size :: u32
  fe_modified :: u32
  fe_dir_ordinal :: u32
  fe_lfn_count :: u8

record fat_stream =
  st_entry :: fat_file_entry
  st_cluster :: u32
  st_file_offset :: u32
  st_cluster_offset :: u32
  st_cache_lba :: u32
  st_cache_valid :: bool

definition in_chain :: "u32 \<Rightarrow> bool" where
  "in_chain cluster \<longleftrightarrow> 2 \<le> cluster \<and> cluster < FAT32_EOC"

text \<open>\<open>for(i = 0; i < skip_clusters && ...; i++) cluster = fat_next_cluster(cluster)\<close>\<close>

fun skip_clusters :: "'w sd_ops \<Rightarrow> nat \<Rightarrow> u32 \<Rightarrow> 'w fat_state \<Rightarrow> u32 \<times> 'w fat_state" where
  "skip_clusters ops 0 cluster s = (cluster, s)"
| "skip_clusters ops (Suc n) cluster s = (if in_chain cluster then
     (case fat_next_cluster ops cluster s of (next, s1) \<Rightarrow> skip_clusters ops n next s1) else (cluster, s))"

text \<open>The sectors of one cluster, \<open>n\<close> of them left, \<open>len\<close> bytes wanted: success, the bytes stored and those still wanted.\<close>

fun read_sectors :: "'w sd_ops \<Rightarrow> u32 \<Rightarrow> nat \<Rightarrow> nat \<Rightarrow> nat \<Rightarrow> 'w fat_state \<Rightarrow> bool \<times> u8 list \<times> nat \<times> 'w fat_state" where
  "read_sectors ops lba sector_offset 0 len s = (True, [], len, s)"
| "read_sectors ops lba sector_offset (Suc n) len s = (if len = 0 then (True, [], len, s) else
     case scratch_read ops lba s of
       (False, s1) \<Rightarrow> (False, [], len, s1)
     | (True, s1) \<Rightarrow>
         let chunk = min (unat SD_BLOCK_SIZE - sector_offset) len
         in case read_sectors ops (lba + 1) 0 n (len - chunk) s1 of
              (ok, bytes, rest, s2) \<Rightarrow> (ok, slice sector_offset chunk (g_sd_sector s1) @ bytes, rest, s2))"

partial_function (option) read_chain :: "'w sd_ops \<Rightarrow> u32 \<Rightarrow> u32 \<Rightarrow> nat \<Rightarrow> 'w fat_state \<Rightarrow> (bool \<times> u8 list \<times> 'w fat_state) option" where
  "read_chain ops cluster offset len s = (
     if len \<noteq> 0 \<and> in_chain cluster then
       (case read_sectors ops (fat_cluster_lba cluster s + ucast (ucast (offset div SD_BLOCK_SIZE) :: u8)) (unat (offset mod SD_BLOCK_SIZE))
               (unat (g_fat_sectors_per_cluster s) - unat (ucast (offset div SD_BLOCK_SIZE) :: u8)) len s of (ok, bytes, rest, s1) \<Rightarrow>
          if \<not> ok then Some (False, bytes, s1)
          else (case (if rest \<noteq> 0 then fat_next_cluster ops cluster s1 else (cluster, s1)) of (next, s2) \<Rightarrow>
            Option.bind (read_chain ops next 0 rest s2) (\<lambda>r. Some (fst r, bytes @ fst (snd r), snd (snd r)))))
     else Some (len = 0, [], s))"

text \<open>Success, and the bytes stored from \<open>dst\<close> on.\<close>

definition fat_file_read_at :: "'w sd_ops \<Rightarrow> fat_file_entry \<Rightarrow> u32 \<Rightarrow> u32 \<Rightarrow> 'w fat_state \<Rightarrow> (bool \<times> u8 list \<times> 'w fat_state) option" where
  "fat_file_read_at ops entry offset len s = (
     if fe_size entry \<le> offset then Some (len = 0, [], s)
     else
       let len' = (if fe_size entry < offset + len then fe_size entry - offset else len);
           cluster_size = fat32_cluster_size s
       in case skip_clusters ops (unat (offset div cluster_size)) (fe_cluster entry) s of
            (cluster, s1) \<Rightarrow> read_chain ops cluster (offset mod cluster_size) (unat len') s1)"

definition fat_stream_open :: "'w sd_ops \<Rightarrow> fat_file_entry \<Rightarrow> u32 \<Rightarrow> fat_stream \<Rightarrow> 'w fat_state \<Rightarrow> bool \<times> fat_stream \<times> 'w fat_state" where
  "fat_stream_open ops entry offset stream s = (
     let cluster_size = fat32_cluster_size s
     in if cluster_size = 0 \<or> fe_size entry < offset then (False, stream, s)
        else case skip_clusters ops (unat (offset div cluster_size)) (fe_cluster entry) s of
          (cluster, s1) \<Rightarrow>
            if \<not> in_chain cluster then (offset = fe_size entry, stream, s1)
            else (True, \<lparr>st_entry = entry, st_cluster = cluster, st_file_offset = offset, st_cluster_offset = offset mod cluster_size,
                          st_cache_lba = 0xFFFFFFFF, st_cache_valid = False\<rparr>, s1))"

text \<open>How much one round of \<open>fat_stream_read\<close> copies: to the end of the sector, of the request or of the file.\<close>

definition stream_take :: "fat_stream \<Rightarrow> nat \<Rightarrow> nat" where
  "stream_take st len = min (min (unat SD_BLOCK_SIZE - unat (st_cluster_offset st mod SD_BLOCK_SIZE)) len)
     (unat (fe_size (st_entry st) - st_file_offset st))"

definition stream_fill :: "'w sd_ops \<Rightarrow> u32 \<Rightarrow> fat_stream \<Rightarrow> 'w fat_state \<Rightarrow> bool \<times> fat_stream \<times> 'w fat_state" where
  "stream_fill ops lba st s = (if \<not> st_cache_valid st \<or> st_cache_lba st \<noteq> lba then
      (case scratch_read ops lba s of
         (False, s1) \<Rightarrow> (False, st, s1)
       | (True, s1) \<Rightarrow> (True, st\<lparr>st_cache_lba := lba, st_cache_valid := True\<rparr>, s1))
     else (True, st, s))"

definition stream_advance :: "'w sd_ops \<Rightarrow> nat \<Rightarrow> fat_stream \<Rightarrow> 'w fat_state \<Rightarrow> fat_stream \<times> 'w fat_state" where
  "stream_advance ops n st s = (
     let st1 = st\<lparr>st_file_offset := st_file_offset st + of_nat n, st_cluster_offset := st_cluster_offset st + of_nat n\<rparr>
     in if fat32_cluster_size s \<le> st_cluster_offset st1 then
          (case fat_next_cluster ops (st_cluster st1) s of
             (next, s1) \<Rightarrow> (st1\<lparr>st_cluster := next, st_cluster_offset := 0, st_cache_valid := False\<rparr>, s1))
        else (st1, s))"

lemma stream_take_pos: "0 < len \<Longrightarrow> st_file_offset st < fe_size (st_entry st) \<Longrightarrow> 0 < stream_take st len"
proof -
  assume a: "0 < len" "st_file_offset st < fe_size (st_entry st)"
  have "unat (st_cluster_offset st mod SD_BLOCK_SIZE) < 512" by (simp add: SD_BLOCK_SIZE_def unat_mod)
  moreover have "fe_size (st_entry st) - st_file_offset st \<noteq> 0" using a(2) by auto
  ultimately show ?thesis using a(1) by (simp add: stream_take_def SD_BLOCK_SIZE_def unat_gt_0)
qed

function fat_stream_read :: "'w sd_ops \<Rightarrow> fat_stream \<Rightarrow> nat \<Rightarrow> 'w fat_state \<Rightarrow> bool \<times> u8 list \<times> fat_stream \<times> 'w fat_state" where
  "fat_stream_read ops st len s = (
     if len = 0 then (True, [], st, s)
     else if fe_size (st_entry st) \<le> st_file_offset st \<or> \<not> in_chain (st_cluster st) then (False, [], st, s)
     else
       let lba = fat_cluster_lba (st_cluster st) s + st_cluster_offset st div SD_BLOCK_SIZE;
           n = stream_take st len
       in case stream_fill ops lba st s of
            (False, st1, s1) \<Rightarrow> (False, [], st1, s1)
          | (True, st1, s1) \<Rightarrow>
              (case stream_advance ops n st1 s1 of (st2, s2) \<Rightarrow>
                (case fat_stream_read ops st2 (len - n) s2 of (ok, bytes, st3, s3) \<Rightarrow>
                  (ok, slice (unat (st_cluster_offset st mod SD_BLOCK_SIZE)) n (g_sd_sector s1) @ bytes, st3, s3))))"
  by pat_completeness auto

termination
  by (relation "measure (\<lambda>(ops, st, len, s). len)") (simp_all add: not_le diff_less stream_take_pos)

declare fat_stream_read.simps [simp del]

section \<open>What a file holds\<close>

text \<open>The bytes of a cluster and of a chain of clusters.\<close>

definition cluster_data :: "(nat \<Rightarrow> u8 list) \<Rightarrow> 'w fat_state \<Rightarrow> u32 \<Rightarrow> u8 list" where
  "cluster_data B s k = concat (map (\<lambda>i. B (cluster_sector s k i)) [0..<unat (g_fat_sectors_per_cluster s)])"

definition file_data :: "(nat \<Rightarrow> u8 list) \<Rightarrow> 'w fat_state \<Rightarrow> u32 list \<Rightarrow> u8 list" where
  "file_data B s ks = concat (map (cluster_data B s) ks)"

text \<open>A file: the chain of its clusters in the table \<open>B\<close> holds.\<close>

definition chain_in :: "(nat \<Rightarrow> u8 list) \<Rightarrow> 'w fat_state \<Rightarrow> u32 list \<Rightarrow> bool" where
  "chain_in B s ks \<longleftrightarrow> fat_chain (fat_entry B s 0) ks \<and> (\<forall>k \<in> set ks. is_cluster s k)"

lemma concat_slice: "\<forall>x \<in> set xs. length x = n \<Longrightarrow> i < length xs \<Longrightarrow> j + t \<le> n \<Longrightarrow> slice (i * n + j) t (concat xs) = slice j t (xs ! i)"
proof (induction xs arbitrary: i)
  case (Cons x xs)
  then show ?case
  proof (cases i)
    case 0
    then show ?thesis using Cons.prems by (simp add: slice_def)
  next
    case (Suc i')
    then have "slice (i' * n + j) t (concat xs) = slice j t (xs ! i')" using Cons by simp
    then show ?thesis using Suc Cons.prems(1) by (simp add: slice_def)
  qed
qed simp

lemma length_concat_const: "\<forall>x \<in> set xs. length x = n \<Longrightarrow> length (concat xs) = length xs * n"
  by (induction xs) simp_all

lemma drop_concat: "\<forall>x \<in> set xs. length x = n \<Longrightarrow> i < length xs \<Longrightarrow> drop (i * n) (concat xs) = xs ! i @ concat (drop (Suc i) xs)"
proof (induction xs arbitrary: i)
  case (Cons x xs)
  then show ?case by (cases i) simp_all
qed simp

lemma slice_append_split: "slice o' (n + m) xs = slice o' n xs @ slice (o' + n) m xs"
  unfolding slice_def take_add by (simp add: add.commute)

lemma fat_chain_nth: "fat_chain t ks \<Longrightarrow> i < length ks \<Longrightarrow> if Suc i < length ks then t (ks ! i) = ks ! Suc i else FAT32_EOC \<le> t (ks ! i)"
proof (induction t ks arbitrary: i rule: fat_chain.induct)
  case (3 t k l ks)
  then show ?case by (cases i) (auto split: if_splits)
qed auto

context block_store
begin

abbreviation file_chain :: "'w fat_state \<Rightarrow> u32 list \<Rightarrow> bool" where "file_chain s \<equiv> chain_in (blk (f_sd s)) s"

abbreviation csize :: "'w fat_state \<Rightarrow> nat" where "csize s \<equiv> 512 * unat (g_fat_sectors_per_cluster s)"

lemma cluster_size_unat: "unat (fat32_cluster_size s) = csize s"
proof -
  have "unat (g_fat_sectors_per_cluster s) < 256" using unsigned_less [of "g_fat_sectors_per_cluster s", where ?'a = nat] by simp
  then show ?thesis by (simp add: fat32_cluster_size_def SD_BLOCK_SIZE_def unat_word_ariths unsigned_ucast_eq take_bit_nat_eq_self)
qed

lemma cluster_data_parts: "usable w \<Longrightarrow> \<forall>x \<in> set (map (\<lambda>i. blk w (cluster_sector s k i)) [0..<unat (g_fat_sectors_per_cluster s)]). length x = 512"
  by (auto simp: blk_length)

lemma length_cluster_data: "usable w \<Longrightarrow> length (cluster_data (blk w) s k) = csize s"
  using length_concat_const [OF cluster_data_parts [of w s k]] by (simp add: cluster_data_def)

lemma cluster_slice: "usable w \<Longrightarrow> i < unat (g_fat_sectors_per_cluster s) \<Longrightarrow> j + t \<le> 512 \<Longrightarrow>
    slice (i * 512 + j) t (cluster_data (blk w) s k) = slice j t (blk w (cluster_sector s k i))"
  using concat_slice [OF cluster_data_parts [of w s k], of i j t] by (simp add: cluster_data_def)

lemma file_data_parts: "usable w \<Longrightarrow> \<forall>x \<in> set (map (cluster_data (blk w) s) ks). length x = csize s"
  by (auto simp: length_cluster_data)

lemma length_file_data: "usable w \<Longrightarrow> length (file_data (blk w) s ks) = length ks * csize s"
  using length_concat_const [OF file_data_parts [of w s ks]] by (simp add: file_data_def)

lemma file_slice: "usable w \<Longrightarrow> i < length ks \<Longrightarrow> j + t \<le> csize s \<Longrightarrow>
    slice (i * csize s + j) t (file_data (blk w) s ks) = slice j t (cluster_data (blk w) s (ks ! i))"
  using concat_slice [OF file_data_parts [of w s ks], of i j t] by (simp add: file_data_def)

lemma file_drop: "usable w \<Longrightarrow> i < length ks \<Longrightarrow> drop (i * csize s) (file_data (blk w) s ks) =
    cluster_data (blk w) s (ks ! i) @ file_data (blk w) s (drop (Suc i) ks)"
  using drop_concat [OF file_data_parts [of w s ks], of i] by (simp add: file_data_def drop_map)

lemma cluster_data_same:
  assumes "geometry s' = geometry s"
  shows "cluster_data B s' = cluster_data B s"
  unfolding cluster_data_def by (rule ext) (simp only: cluster_sector_same [OF assms] same_geometry(8) [OF assms])

lemma file_data_same: "geometry s' = geometry s \<Longrightarrow> file_data B s' = file_data B s"
  unfolding file_data_def by (rule ext) (simp only: cluster_data_same [of s' s])

text \<open>A routine that only reads.\<close>

definition looks :: "'w fat_state \<Rightarrow> 'w fat_state \<Rightarrow> bool" where
  "looks s s' \<longleftrightarrow> keeps s s' \<and> blk (f_sd s') = blk (f_sd s) \<and> g_fat_alloc_hint s' = g_fat_alloc_hint s"

lemma looks_refl: "fat_ready usable room s \<Longrightarrow> looks s s"
  by (simp add: looks_def keeps_refl)

lemma looks_trans: "looks s s' \<Longrightarrow> looks s' s'' \<Longrightarrow> looks s s''"
  unfolding looks_def using keeps_trans by metis

lemma looks_ready: "looks s s' \<Longrightarrow> fat_ready usable room s'"
  by (simp add: looks_def keeps_def)

lemma looks_geometry: "looks s s' \<Longrightarrow> geometry s' = geometry s"
  by (simp add: looks_def keeps_def)

lemma looks_table:
  assumes "looks s s'"
  shows "table s' = table s"
  using assms unfolding fat_entry_same [OF looks_geometry [OF assms]] by (simp add: looks_def)

lemma scratch_read_looks:
  assumes "scratch_read ops lba s = (ok, s')" and "fat_ready usable room s" and "unat lba < room (f_sd s)"
  shows "looks s s' \<and> g_fat_alloc_hint s' = g_fat_alloc_hint s \<and> (ok \<longrightarrow> g_sd_sector s' = blk (f_sd s) (unat lba)) \<and> (reliable \<longrightarrow> ok)"
proof -
  have "ok" if "reliable"
  proof -
    have "fst (sd_read ops lba (f_sd s)) \<noteq> None"
      using that fat_readyD(1) [OF assms(2)] assms(3) unfolding no_read_fails_def by blast
    then obtain d w where "sd_read ops lba (f_sd s) = (Some d, w)" by (metis option.exhaust prod.collapse)
    then show ?thesis using assms(1) by (simp add: scratch_read_def)
  qed
  then show ?thesis using scratch_read_spec [OF assms] by (simp add: looks_def)
qed

lemma file_chain_looks:
  assumes "looks s s'"
  shows "file_chain s' ks = file_chain s ks"
  unfolding chain_in_def looks_table [OF assms] is_cluster_same [OF looks_geometry [OF assms]] ..

lemma file_chain_in: "fat_ready usable room s \<Longrightarrow> file_chain s ks \<Longrightarrow> i < length ks \<Longrightarrow> is_cluster s (ks ! i) \<and> in_chain (ks ! i)"
  using is_cluster_bound [of "room (f_sd s)" s "ks ! i"] by (auto simp: chain_in_def in_chain_def fat_ready_def)

text \<open>The cluster a walk has reached after \<open>i\<close> steps: the \<open>i\<close>-th of the chain, or the end, early only if a read failed.\<close>

definition reached :: "u32 list \<Rightarrow> nat \<Rightarrow> u32 \<Rightarrow> bool" where
  "reached ks i c \<longleftrightarrow> i < length ks \<and> c = ks ! i \<or> FAT32_EOC \<le> c \<and> (reliable \<longrightarrow> length ks \<le> i)"

lemma reached_out: "reached ks i c \<Longrightarrow> in_chain c \<Longrightarrow> i < length ks \<and> c = ks ! i"
  by (auto simp: reached_def in_chain_def)

lemma next_reached:
  assumes run: "fat_next_cluster ops (ks ! i) s = (c, s')" and rd: "fat_ready usable room s" and ch: "file_chain s ks" and i: "i < length ks"
  shows "looks s s' \<and> g_fat_alloc_hint s' = g_fat_alloc_hint s \<and> reached ks (Suc i) c"
proof -
  have k: "is_cluster s (ks ! i)" using file_chain_in [OF rd ch i] by simp
  note sp = fat_next_cluster_spec [OF run rd k]
  have t: "if Suc i < length ks then table s 0 (ks ! i) = ks ! Suc i else FAT32_EOC \<le> table s 0 (ks ! i)"
    using ch i by (intro fat_chain_nth) (simp_all add: chain_in_def)
  have "reached ks (Suc i) c"
  proof (cases "c = table s 0 (ks ! i)")
    case True
    then show ?thesis using t by (auto simp: reached_def split: if_splits)
  next
    case False
    then have "\<not> reliable" "c = FAT32_EOC" using fat_next_cluster_reliable [OF _ run rd k] sp by auto
    then show ?thesis by (simp add: reached_def)
  qed
  then show ?thesis using sp by (simp add: looks_def)
qed

lemma skip_reached:
  "skip_clusters ops n c s = (c', s') \<Longrightarrow> fat_ready usable room s \<Longrightarrow> file_chain s ks \<Longrightarrow> reached ks i c \<Longrightarrow>
    looks s s' \<and> g_fat_alloc_hint s' = g_fat_alloc_hint s \<and> reached ks (i + n) c'"
proof (induction n arbitrary: i c s)
  case 0
  then show ?case by (simp add: looks_refl)
next
  case (Suc n)
  show ?case
  proof (cases "in_chain c")
    case False
    then have "c' = c" "s' = s" using Suc.prems(1) by auto
    moreover have "FAT32_EOC \<le> c" using False Suc.prems(4) file_chain_in [OF Suc.prems(2,3)] by (auto simp: reached_def)
    ultimately show ?thesis using Suc.prems(2,4) False file_chain_in [OF Suc.prems(2,3)] by (auto simp: reached_def looks_refl)
  next
    case True
    then have i: "i < length ks" "c = ks ! i" using reached_out [OF Suc.prems(4)] by simp_all
    obtain d s1 where d: "fat_next_cluster ops c s = (d, s1)" by (metis prod.collapse)
    have l: "looks s s1" "g_fat_alloc_hint s1 = g_fat_alloc_hint s" "reached ks (Suc i) d"
      using next_reached [OF d [unfolded i(2)] Suc.prems(2,3) i(1)] by simp_all
    have "skip_clusters ops n d s1 = (c', s')" using Suc.prems(1) True d by simp
    from Suc.IH [OF this looks_ready [OF l(1)] _ l(3)] show ?thesis
      using Suc.prems(3) l(1,2) file_chain_looks [OF l(1)] by (auto intro: looks_trans)
  qed
qed

lemma read_sectors_spec:
  "read_sectors ops (fat_cluster_lba k s0 + of_nat i) so n len s = (ok, bytes, rest, s') \<Longrightarrow> fat_ready usable room s0 \<Longrightarrow> looks s0 s \<Longrightarrow>
    is_cluster s0 k \<Longrightarrow> i + n = unat (g_fat_sectors_per_cluster s0) \<Longrightarrow> so < 512 \<Longrightarrow>
    looks s s' \<and> (reliable \<longrightarrow> ok) \<and>
    (ok \<longrightarrow> bytes = slice (i * 512 + so) (min len (n * 512 - so)) (cluster_data (blk (f_sd s0)) s0 k) \<and> rest = len - min len (n * 512 - so))"
proof (induction n arbitrary: i so len s ok bytes rest s')
  case 0
  then show ?case using looks_refl [OF looks_ready [OF 0(3)]] by auto
next
  case (Suc n)
  show ?case
  proof (cases "len = 0")
    case True
    then show ?thesis using Suc.prems(1) looks_refl [OF looks_ready [OF Suc.prems(3)]] by auto
  next
    case False
    let ?lba = "fat_cluster_lba k s0 + of_nat i" and ?D = "cluster_data (blk (f_sd s0)) s0 k"
    have rd0: "blk (f_sd s) = blk (f_sd s0)" "room (f_sd s) = room (f_sd s0)" using Suc.prems(3) by (simp_all add: looks_def keeps_def)
    have i: "i < unat (g_fat_sectors_per_cluster s0)" using Suc.prems(5) by simp
    note vol = fat_readyD(2) [OF Suc.prems(2)]
    note lba = cluster_lba_unat [OF vol Suc.prems(4) i]
    obtain r s1 where r: "scratch_read ops ?lba s = (r, s1)" by (metis prod.collapse)
    have "unat ?lba < room (f_sd s)" using cluster_sector_bound(1) [OF vol Suc.prems(4) i] lba rd0 by simp
    note l = scratch_read_looks [OF r looks_ready [OF Suc.prems(3)] this, unfolded lba rd0]
    show ?thesis
    proof (cases r)
      case False
      then show ?thesis using Suc.prems(1) r l \<open>len \<noteq> 0\<close> by auto
    next
      case True
      define chunk where "chunk = min (512 - so) len"
      obtain ok2 bytes2 rest2 s2 where rec: "read_sectors ops (?lba + 1) 0 n (len - chunk) s1 = (ok2, bytes2, rest2, s2)" by (metis prod_cases4)
      have res: "ok = ok2" "bytes = slice so chunk (g_sd_sector s1) @ bytes2" "rest = rest2" "s' = s2"
        using Suc.prems(1) r True rec \<open>len \<noteq> 0\<close> by (auto simp: Let_def SD_BLOCK_SIZE_def chunk_def [symmetric])
      have rec2: "read_sectors ops (fat_cluster_lba k s0 + of_nat (Suc i)) 0 n (len - chunk) s1 = (ok2, bytes2, rest2, s2)"
        using rec by (simp add: ac_simps)
      have s1: "looks s0 s1" using looks_trans [OF Suc.prems(3)] l by blast
      have "Suc i + n = unat (g_fat_sectors_per_cluster s0)" using Suc.prems(5) by simp
      from Suc.IH [OF rec2 Suc.prems(2) s1 Suc.prems(4) this] have
        ih: "looks s1 s2" "reliable \<longrightarrow> ok2" "ok2 \<longrightarrow> bytes2 = slice (Suc i * 512) (min (len - chunk) (n * 512)) ?D \<and> rest2 = len - chunk - min (len - chunk) (n * 512)"
        by simp_all
      have c1: "so + chunk \<le> 512" using Suc.prems(6) by (simp add: chunk_def)
      have "slice so chunk (g_sd_sector s1) = slice (i * 512 + so) chunk ?D"
        using cluster_slice [OF fat_readyD(1) [OF Suc.prems(2)] i c1] l True by simp
      moreover have "slice (i * 512 + so) chunk ?D @ slice (Suc i * 512) (min (len - chunk) (n * 512)) ?D =
          slice (i * 512 + so) (min len (Suc n * 512 - so)) ?D"
      proof (cases "len \<le> 512 - so")
        case True
        then have "min len (Suc n * 512 - so) = len" "chunk = len" by (auto simp: chunk_def)
        then show ?thesis by simp
      next
        case False
        then have ch: "chunk = 512 - so" by (simp add: chunk_def)
        then have e1: "min len (Suc n * 512 - so) = chunk + min (len - chunk) (n * 512)" and e2: "i * 512 + so + chunk = Suc i * 512"
          using False Suc.prems(6) by (auto simp: min_def)
        show ?thesis unfolding e1 slice_append_split e2 ..
      qed
      moreover have "len - chunk - min (len - chunk) (n * 512) = len - min len (Suc n * 512 - so)"
        using Suc.prems(6) by (auto simp: chunk_def min_def)
      ultimately have "ok \<longrightarrow> bytes = slice (i * 512 + so) (min len (Suc n * 512 - so)) ?D \<and> rest = len - min len (Suc n * 512 - so)"
        using ih(3) res by metis
      moreover have "looks s s'" using l ih(1) res(4) looks_trans by metis
      ultimately show ?thesis using ih(2) res(1) by blast
    qed
  qed
qed

lemma read_cluster:
  assumes run: "read_sectors ops (fat_cluster_lba k s + ucast (ucast (offset div SD_BLOCK_SIZE) :: u8)) (unat (offset mod SD_BLOCK_SIZE))
      (unat (g_fat_sectors_per_cluster s) - unat (ucast (offset div SD_BLOCK_SIZE) :: u8)) len s = (ok, bytes, rest, s')"
    and rd: "fat_ready usable room s" and k: "is_cluster s k" and o: "unat offset < csize s"
  shows "looks s s' \<and> (reliable \<longrightarrow> ok) \<and>
    (ok \<longrightarrow> bytes = slice (unat offset) (min len (csize s - unat offset)) (cluster_data (blk (f_sd s)) s k) \<and>
      rest = len - min len (csize s - unat offset))"
proof -
  let ?n = "unat (g_fat_sectors_per_cluster s)" and ?i = "unat offset div 512"
  have q: "?i < ?n" using o by (simp add: less_mult_imp_div_less)
  have n: "?n < 256" using unsigned_less [of "g_fat_sectors_per_cluster s", where ?'a = nat] by simp
  have u: "unat (offset div SD_BLOCK_SIZE) = ?i" "unat (offset mod SD_BLOCK_SIZE) = unat offset mod 512"
    by (simp_all add: SD_BLOCK_SIZE_def unat_div unat_mod)
  have b: "unat (ucast (offset div SD_BLOCK_SIZE) :: u8) = ?i" using q n by (simp add: unsigned_ucast_eq u take_bit_nat_eq_self)
  have "ucast (ucast (offset div SD_BLOCK_SIZE) :: u8) = (of_nat ?i :: u32)" by (metis b unat_ucast_u8_lt word_unat_eq_iff unsigned_of_nat unat_of_nat of_nat_unat ucast_id)
  then have run': "read_sectors ops (fat_cluster_lba k s + of_nat ?i) (unat offset mod 512) (?n - ?i) len s = (ok, bytes, rest, s')"
    using run u b by simp
  have e: "?i * 512 + unat offset mod 512 = unat offset" "(?n - ?i) * 512 - unat offset mod 512 = csize s - unat offset"
    using div_mult_mod_eq [of "unat offset" 512] by (simp_all add: diff_mult_distrib)
  have i: "?i + (?n - ?i) = ?n" using q by simp
  show ?thesis using read_sectors_spec [OF run' rd looks_refl [OF rd] k i] unfolding e by simp
qed

lemma read_chain_spec:
  "fat_ready usable room s \<Longrightarrow> file_chain s ks \<Longrightarrow> reached ks i c \<Longrightarrow> unat offset < csize s \<Longrightarrow>
    \<exists>ok bytes s'. read_chain ops c offset len s = Some (ok, bytes, s') \<and> looks s s' \<and>
      (ok \<longrightarrow> bytes = slice (i * csize s + unat offset) len (file_data (blk (f_sd s)) s ks) \<and> length bytes = len) \<and>
      (reliable \<longrightarrow> i * csize s + unat offset + len \<le> length ks * csize s \<longrightarrow> ok)"
proof (induction "length ks - i" arbitrary: i c offset len s)
  case 0
  then have "\<not> in_chain c" using reached_out by fastforce
  then have "read_chain ops c offset len s = Some (len = 0, [], s)" by (simp add: read_chain.simps [of ops c])
  moreover have "length ks * csize s \<le> i * csize s" using 0 by (intro mult_le_mono1) simp
  then have "i * csize s + unat offset + len \<le> length ks * csize s \<longrightarrow> len = 0" by linarith
  ultimately show ?case using looks_refl [OF 0(2)] by auto
next
  case (Suc n)
  let ?D = "file_data (blk (f_sd s)) s ks" and ?C = "cluster_data (blk (f_sd s)) s (ks ! i)" and ?o = "unat offset"
  show ?case
  proof (cases "len \<noteq> 0 \<and> in_chain c")
    case False
    then have r: "read_chain ops c offset len s = Some (len = 0, [], s)" by (simp add: read_chain.simps [of ops c] del: de_Morgan_conj)
    have "len = 0" if "reliable" "i * csize s + ?o + len \<le> length ks * csize s"
    proof (rule ccontr)
      assume "len \<noteq> 0"
      then have nc: "\<not> in_chain c" using False by simp
      then have "length ks \<le> i" using Suc.prems(3) file_chain_in [OF Suc.prems(1,2)] that(1) by (auto simp: reached_def)
      then show False using Suc.hyps(2) by simp
    qed
    then show ?thesis using r looks_refl [OF Suc.prems(1)] by auto
  next
    case True
    then have i: "i < length ks" "c = ks ! i" using reached_out [OF Suc.prems(3)] by simp_all
    have k: "is_cluster s c" using file_chain_in [OF Suc.prems(1,2) i(1)] i(2) by simp
    obtain ok bytes rest s1 where rs: "read_sectors ops (fat_cluster_lba c s + ucast (ucast (offset div SD_BLOCK_SIZE) :: u8))
        (unat (offset mod SD_BLOCK_SIZE)) (unat (g_fat_sectors_per_cluster s) - unat (ucast (offset div SD_BLOCK_SIZE) :: u8)) len s = (ok, bytes, rest, s1)"
      by (metis prod_cases4)
    note a = read_cluster [OF rs Suc.prems(1) k Suc.prems(4)]
    have run: "read_chain ops c offset len s = (if \<not> ok then Some (False, bytes, s1)
        else (case (if rest \<noteq> 0 then fat_next_cluster ops c s1 else (c, s1)) of (next, s2) \<Rightarrow>
          Option.bind (read_chain ops next 0 rest s2) (\<lambda>r. Some (fst r, bytes @ fst (snd r), snd (snd r)))))"
      using True by (subst read_chain.simps) (simp only: rs prod.case if_True simp_thms)
    show ?thesis
    proof (cases ok)
      case False
      then show ?thesis using run a by auto
    next
      case ok: True
      let ?m = "min len (csize s - ?o)"
      have b: "bytes = slice ?o ?m ?C" "rest = len - ?m" "looks s s1" using a ok i(2) by simp_all
      have m: "?o + ?m \<le> csize s" using Suc.prems(4) by simp
      have bs: "bytes = slice (i * csize s + ?o) ?m ?D"
        using file_slice [OF fat_readyD(1) [OF Suc.prems(1)] i(1) m] b(1) by simp
      have lb: "length bytes = ?m" using b(1) m length_cluster_data [OF fat_readyD(1) [OF Suc.prems(1)]] by simp
      show ?thesis
      proof (cases "rest = 0")
        case True
        then have "read_chain ops c offset len s = Some (True, bytes, s1)" using run ok by (simp add: read_chain.simps [of ops c 0 0])
        moreover have "?m = len" using True b(2) by simp
        ultimately show ?thesis using bs lb b(3) by auto
      next
        case False
        obtain d s2 where d: "fat_next_cluster ops c s1 = (d, s2)" by (metis prod.collapse)
        have l: "looks s1 s2" "reached ks (Suc i) d"
          using next_reached [OF d [unfolded i(2)] looks_ready [OF b(3)] _ i(1)] file_chain_looks [OF b(3)] Suc.prems(2) by simp_all
        have l2: "looks s s2" using looks_trans [OF b(3) l(1)] .
        note g = looks_geometry [OF l2]
        have fm: "?m = csize s - ?o" using False b(2) by simp
        have cs: "csize s2 = csize s" by (simp add: same_geometry(8) [OF g])
        have dt: "file_data (blk (f_sd s2)) s2 ks = ?D" using l2 by (simp add: file_data_same [OF g] looks_def)
        have "n = length ks - Suc i" using Suc.hyps(2) by simp
        from Suc.hyps(1) [OF this looks_ready [OF l2] _ l(2), of 0 rest] Suc.prems(2,4) file_chain_looks [OF l2] obtain ok' bytes' s'
          where r: "read_chain ops d 0 rest s2 = Some (ok', bytes', s')" "looks s2 s'"
            "ok' \<longrightarrow> bytes' = slice (Suc i * csize s) rest ?D \<and> length bytes' = rest"
            "reliable \<longrightarrow> Suc i * csize s + rest \<le> length ks * csize s \<longrightarrow> ok'"
          unfolding cs dt by auto
        have e: "i * csize s + ?o + ?m = Suc i * csize s" "len = ?m + rest" using fm m b(2) by simp_all
        have "ok' \<longrightarrow> bytes @ bytes' = slice (i * csize s + ?o) len ?D \<and> length (bytes @ bytes') = len"
        proof
          assume ok'
          then have b': "bytes' = slice (Suc i * csize s) rest ?D" "length bytes' = rest" using r(3) by blast+
          have "slice (i * csize s + ?o) (?m + rest) ?D = bytes @ bytes'" unfolding slice_append_split e(1) b'(1) bs ..
          moreover have "length (bytes @ bytes') = ?m + rest" using lb b'(2) by simp
          ultimately show "bytes @ bytes' = slice (i * csize s + ?o) len ?D \<and> length (bytes @ bytes') = len"
            unfolding e(2) [symmetric] by simp
        qed
        moreover have "reliable \<longrightarrow> i * csize s + ?o + len \<le> length ks * csize s \<longrightarrow> ok'" using r(4) e by simp
        moreover have "read_chain ops c offset len s = Some (ok', bytes @ bytes', s')" using run ok False d r(1) by simp
        ultimately show ?thesis using looks_trans [OF l2 r(2)] by auto
      qed
    qed
  qed
qed

lemma reached_start: "file_chain s ks \<Longrightarrow> reached ks 0 (hd ks)"
  by (cases ks) (auto simp: chain_in_def reached_def hd_conv_nth)

lemma offset_split:
  assumes "fat_ready usable room s"
  shows "unat ((offset :: u32) div fat32_cluster_size s) * csize s + unat (offset mod fat32_cluster_size s) = unat offset"
    and "unat (offset mod fat32_cluster_size s) < csize s" and "0 < csize s"
proof -
  show c: "0 < csize s" using vol_okD(1) [OF fat_readyD(2) [OF assms]] by (simp add: word_less_nat_alt)
  show "unat (offset div fat32_cluster_size s) * csize s + unat (offset mod fat32_cluster_size s) = unat offset"
    unfolding unat_div unat_mod cluster_size_unat by (rule div_mult_mod_eq)
  show "unat (offset mod fat32_cluster_size s) < csize s" using c by (simp add: unat_mod cluster_size_unat)
qed

lemma fat_file_read_at_spec:
  assumes rd: "fat_ready usable room s" and ch: "file_chain s ks" and start: "fe_cluster entry = hd ks"
    and wrap: "unat offset + unat len < 2 ^ 32" and off: "offset < fe_size entry"
  shows "\<exists>ok bytes s'. fat_file_read_at ops entry offset len s = Some (ok, bytes, s') \<and> looks s s' \<and>
    (ok \<longrightarrow> bytes = slice (unat offset) (min (unat len) (unat (fe_size entry) - unat offset)) (file_data (blk (f_sd s)) s ks) \<and>
       length bytes = min (unat len) (unat (fe_size entry) - unat offset)) \<and>
    (reliable \<longrightarrow> unat (fe_size entry) \<le> length ks * csize s \<longrightarrow> ok)"
proof -
  let ?cs = "fat32_cluster_size s"
  define len' where "len' = (if fe_size entry < offset + len then fe_size entry - offset else len)"
  have sum: "unat (offset + len) = unat offset + unat len" using wrap by (simp add: unat_word_ariths)
  have sub: "unat (fe_size entry - offset) = unat (fe_size entry) - unat offset" using off by (simp add: unat_sub)
  have l: "unat len' = min (unat len) (unat (fe_size entry) - unat offset)"
    using sum sub off by (auto simp: len'_def word_less_nat_alt min_def)
  obtain c s1 where c: "skip_clusters ops (unat (offset div ?cs)) (fe_cluster entry) s = (c, s1)" by (metis prod.collapse)
  note sk = skip_reached [OF c rd ch, of 0, unfolded start, OF reached_start [OF ch], simplified]
  then have l1: "looks s s1" and rc: "reached ks (unat (offset div ?cs)) c" by simp_all
  note g = looks_geometry [OF l1]
  have cs: "csize s1 = csize s" by (simp add: same_geometry(8) [OF g])
  have dt: "file_data (blk (f_sd s1)) s1 ks = file_data (blk (f_sd s)) s ks" using l1 by (simp add: file_data_same [OF g] looks_def)
  have "unat (offset mod ?cs) < csize s1" using offset_split(2) [OF rd] cs by simp
  from read_chain_spec [OF looks_ready [OF l1] _ rc this, of "unat len'", unfolded cs dt offset_split(1) [OF rd]] ch file_chain_looks [OF l1]
  obtain ok bytes s' where r: "read_chain ops c (offset mod ?cs) (unat len') s1 = Some (ok, bytes, s')" "looks s1 s'"
    "ok \<longrightarrow> bytes = slice (unat offset) (unat len') (file_data (blk (f_sd s)) s ks) \<and> length bytes = unat len'"
    "reliable \<longrightarrow> unat offset + unat len' \<le> length ks * csize s \<longrightarrow> ok" by auto
  have "fat_file_read_at ops entry offset len s = Some (ok, bytes, s')"
    using off [folded not_le] c r(1) by (simp add: fat_file_read_at_def Let_def len'_def [symmetric])
  moreover have "unat offset + unat len' \<le> unat (fe_size entry)" using off unfolding l by (simp add: word_less_nat_alt)
  ultimately show ?thesis using looks_trans [OF l1 r(2)] r(3,4) unfolding l by auto
qed

text \<open>A stream over the chain \<open>ks\<close>: where it stands, and that a sector it takes for cached is in the scratch buffer.\<close>

definition stream_at :: "'w fat_state \<Rightarrow> u32 list \<Rightarrow> nat \<Rightarrow> fat_stream \<Rightarrow> bool" where
  "stream_at s ks i st \<longleftrightarrow> reached ks i (st_cluster st) \<and> unat (st_cluster_offset st) < csize s \<and>
     unat (st_file_offset st) = i * csize s + unat (st_cluster_offset st) \<and>
     (st_cache_valid st \<longrightarrow> unat (st_cache_lba st) < room (f_sd s) \<and> g_sd_sector s = blk (f_sd s) (unat (st_cache_lba st)))"

lemma stream_fill_spec:
  assumes run: "stream_fill ops lba st s = (ok, st1, s1)" and rd: "fat_ready usable room s" and l: "unat lba < room (f_sd s)"
    and cache: "st_cache_valid st \<longrightarrow> g_sd_sector s = blk (f_sd s) (unat (st_cache_lba st))"
  shows "looks s s1 \<and> (reliable \<longrightarrow> ok) \<and> (if ok then g_sd_sector s1 = blk (f_sd s) (unat lba) \<and> st1 = st\<lparr>st_cache_lba := lba, st_cache_valid := True\<rparr>
    else st1 = st \<and> (st_cache_valid st \<longrightarrow> g_sd_sector s1 = g_sd_sector s))"
proof (cases "\<not> st_cache_valid st \<or> st_cache_lba st \<noteq> lba")
  case True
  obtain r s2 where r: "scratch_read ops lba s = (r, s2)" by (metis prod.collapse)
  note a = scratch_read_looks [OF r rd l]
  have keep: "g_sd_sector s2 = g_sd_sector s" if "\<not> r"
    using r that by (auto simp: scratch_read_def split: prod.splits option.splits)
  show ?thesis using run True r a keep by (cases r) (auto simp: stream_fill_def)
next
  case False
  then have "st1 = st" "s1 = s" "ok" using run by (auto simp: stream_fill_def)
  moreover have "st = st\<lparr>st_cache_lba := lba, st_cache_valid := True\<rparr>" using False by (cases st) simp
  ultimately show ?thesis using False cache looks_refl [OF rd] by simp
qed

lemma stream_advance_spec:
  assumes run: "stream_advance ops n st s = (st', s')" and rd: "fat_ready usable room s" and ch: "file_chain s ks"
    and at: "stream_at s ks i st" and i: "i < length ks" "st_cluster st = ks ! i"
    and n: "unat (st_cluster_offset st) + n \<le> csize s" "unat (st_file_offset st) + n < 2 ^ 32"
  shows "looks s s' \<and> st_entry st' = st_entry st \<and> unat (st_file_offset st') = unat (st_file_offset st) + n \<and> (\<exists>j. stream_at s' ks j st')"
proof -
  let ?st1 = "st\<lparr>st_file_offset := st_file_offset st + of_nat n, st_cluster_offset := st_cluster_offset st + of_nat n\<rparr>"
  have cb: "csize s < 2 ^ 32" using unsigned_less [of "g_fat_sectors_per_cluster s", where ?'a = nat] by simp
  have u: "unat (st_file_offset st + of_nat n) = unat (st_file_offset st) + n"
    "unat (st_cluster_offset st + of_nat n) = unat (st_cluster_offset st) + n"
    using n cb by (simp_all add: unat_word_ariths unat_of_nat)
  have a: "unat (st_file_offset st) = i * csize s + unat (st_cluster_offset st)" "unat (st_cluster_offset st) < csize s"
    "st_cache_valid st \<longrightarrow> unat (st_cache_lba st) < room (f_sd s) \<and> g_sd_sector s = blk (f_sd s) (unat (st_cache_lba st))"
    using at by (simp_all add: stream_at_def)
  show ?thesis
  proof (cases "fat32_cluster_size s \<le> st_cluster_offset ?st1")
    case False
    then have "st' = ?st1" "s' = s" using run by (simp_all add: stream_advance_def Let_def)
    moreover have "unat (st_cluster_offset st) + n < csize s" using False u by (simp add: word_le_nat_alt cluster_size_unat)
    ultimately show ?thesis using looks_refl [OF rd] u a i
      by (auto simp: stream_at_def reached_def intro!: exI [of _ i])
  next
    case True
    then have full: "unat (st_cluster_offset st) + n = csize s" using u n(1) by (simp add: word_le_nat_alt cluster_size_unat)
    obtain d s2 where d: "fat_next_cluster ops (ks ! i) s = (d, s2)" by (metis prod.collapse)
    note nx = next_reached [OF d rd ch i(1)]
    have st': "st' = ?st1\<lparr>st_cluster := d, st_cluster_offset := 0, st_cache_valid := False\<rparr>" "s' = s2"
      using run True d i(2) by (simp_all add: stream_advance_def Let_def)
    have cs: "csize s2 = csize s" by (simp add: same_geometry(8) [OF looks_geometry [OF conjunct1 [OF nx]]])
    have "unat (st_file_offset st') = Suc i * csize s" using st' u a(1) full by simp
    then have "stream_at s2 ks (Suc i) st'" using nx st' a(2) unfolding stream_at_def cs by simp
    then show ?thesis using nx st' u by auto
  qed
qed

lemma within_sector: "Suc j * 512 \<le> c \<Longrightarrow> m + n \<le> 512 \<Longrightarrow> j * 512 + m = co \<Longrightarrow> co + n \<le> (c :: nat)"
  by simp

text \<open>One round of the loop: the bytes copied out of the scratch buffer are the next ones of the file.\<close>

lemma stream_round:
  assumes rd: "fat_ready usable room s" and ch: "file_chain s ks" and at: "stream_at s ks i st"
    and len: "0 < len" and off: "st_file_offset st < fe_size (st_entry st)" and ic: "in_chain (st_cluster st)"
    and lba: "lba = fat_cluster_lba (st_cluster st) s + st_cluster_offset st div SD_BLOCK_SIZE"
    and fill: "stream_fill ops lba st s = (ok, st1, s1)"
  shows "looks s s1 \<and> (reliable \<longrightarrow> ok) \<and> i < length ks \<and> st_cluster st = ks ! i \<and> st_entry st1 = st_entry st \<and> st_cluster st1 = st_cluster st \<and>
    st_file_offset st1 = st_file_offset st \<and> st_cluster_offset st1 = st_cluster_offset st \<and> stream_at s1 ks i st1 \<and>
    unat (st_cluster_offset st) + stream_take st len \<le> csize s \<and>
    (ok \<longrightarrow> slice (unat (st_cluster_offset st mod SD_BLOCK_SIZE)) (stream_take st len) (g_sd_sector s1) =
       slice (unat (st_file_offset st)) (stream_take st len) (file_data (blk (f_sd s)) s ks))"
proof -
  let ?co = "unat (st_cluster_offset st)" and ?n = "stream_take st len"
  have a: "reached ks i (st_cluster st)" "?co < csize s" "unat (st_file_offset st) = i * csize s + ?co"
    "st_cache_valid st \<longrightarrow> unat (st_cache_lba st) < room (f_sd s) \<and> g_sd_sector s = blk (f_sd s) (unat (st_cache_lba st))"
    using at by (simp_all add: stream_at_def)
  have i: "i < length ks" "st_cluster st = ks ! i" using reached_out [OF a(1) ic] by simp_all
  have k: "is_cluster s (ks ! i)" using file_chain_in [OF rd ch i(1)] by simp
  note vol = fat_readyD(2) [OF rd]
  let ?j = "?co div 512"
  have j: "?j < unat (g_fat_sectors_per_cluster s)" using a(2) by (simp add: less_mult_imp_div_less)
  have u: "unat (st_cluster_offset st div SD_BLOCK_SIZE) = ?j" "unat (st_cluster_offset st mod SD_BLOCK_SIZE) = ?co mod 512"
    by (simp_all add: SD_BLOCK_SIZE_def unat_div unat_mod)
  have "lba = fat_cluster_lba (ks ! i) s + of_nat ?j" unfolding lba i(2) u(1) [symmetric] by simp
  then have l: "unat lba = cluster_sector s (ks ! i) ?j" using cluster_lba_unat [OF vol k j] by simp
  then have lt: "unat lba < room (f_sd s)" using cluster_sector_bound(1) [OF vol k j] by simp
  note f = stream_fill_spec [OF fill rd lt, OF impI]
  have f': "looks s s1" "reliable \<longrightarrow> ok" "if ok then g_sd_sector s1 = blk (f_sd s) (unat lba) \<and> st1 = st\<lparr>st_cache_lba := lba, st_cache_valid := True\<rparr>
    else st1 = st \<and> (st_cache_valid st \<longrightarrow> g_sd_sector s1 = g_sd_sector s)" using f a(4) by simp_all
  have same: "st_entry st1 = st_entry st" "st_cluster st1 = st_cluster st" "st_file_offset st1 = st_file_offset st"
    "st_cluster_offset st1 = st_cluster_offset st"
    using f'(3) by (auto split: if_splits)
  have g: "geometry s1 = geometry s" by (rule looks_geometry [OF f'(1)])
  have rb: "room (f_sd s1) = room (f_sd s)" "blk (f_sd s1) = blk (f_sd s)" using f'(1) by (simp_all add: looks_def keeps_def)
  have at1: "stream_at s1 ks i st1"
    unfolding stream_at_def same same_geometry(8) [OF g] rb using a f'(3) lt by (cases ok) auto
  have n: "?co mod 512 + ?n \<le> 512" using u(2) by (simp add: stream_take_def SD_BLOCK_SIZE_def)
  have co: "?j * 512 + ?co mod 512 = ?co" by simp
  have "Suc ?j * 512 \<le> csize s" using j by simp
  then have fit: "?co + ?n \<le> csize s" using within_sector [OF _ n co] by blast
  have "slice (?co mod 512) ?n (g_sd_sector s1) = slice (unat (st_file_offset st)) ?n (file_data (blk (f_sd s)) s ks)" if ok
    using cluster_slice [OF fat_readyD(1) [OF rd] j n, of "ks ! i"] file_slice [OF fat_readyD(1) [OF rd] i(1) fit] a(3) f'(3) that l co by simp
  then show ?thesis using f'(1,2) i same at1 fit u(2) by simp
qed

lemma fat_stream_read_spec:
  "fat_stream_read ops st len s = (ok, bytes, st', s') \<Longrightarrow> fat_ready usable room s \<Longrightarrow> file_chain s ks \<Longrightarrow> stream_at s ks i st \<Longrightarrow>
    st_file_offset st \<le> fe_size (st_entry st) \<Longrightarrow>
    looks s s' \<and> st_entry st' = st_entry st \<and> (\<exists>j. stream_at s' ks j st') \<and>
    unat (st_file_offset st') = unat (st_file_offset st) + length bytes \<and> st_file_offset st' \<le> fe_size (st_entry st) \<and>
    bytes = slice (unat (st_file_offset st)) (length bytes) (file_data (blk (f_sd s)) s ks) \<and> (ok \<longrightarrow> length bytes = len) \<and>
    (reliable \<longrightarrow> unat (st_file_offset st) + len \<le> unat (fe_size (st_entry st)) \<longrightarrow> unat (fe_size (st_entry st)) \<le> length ks * csize s \<longrightarrow> ok)"
proof (induction len arbitrary: st s i ok bytes st' s' rule: less_induct)
  case (less len)
  let ?fo = "unat (st_file_offset st)" and ?D = "file_data (blk (f_sd s)) s ks"
  show ?case
  proof (cases "len = 0 \<or> fe_size (st_entry st) \<le> st_file_offset st \<or> \<not> in_chain (st_cluster st)")
    case True
    then have res: "ok = (len = 0)" "bytes = []" "st' = st" "s' = s"
      using less.prems(1) by (auto simp: fat_stream_read.simps [of ops st] split: if_splits)
    have "len = 0" if rel: "reliable" and fits: "?fo + len \<le> unat (fe_size (st_entry st))" and sz: "unat (fe_size (st_entry st)) \<le> length ks * csize s"
    proof (rule ccontr)
      assume n: "len \<noteq> 0"
      then have "?fo < unat (fe_size (st_entry st))" using fits by simp
      then have nc: "\<not> in_chain (st_cluster st)" using True n by (simp add: word_le_nat_alt)
      then have "length ks \<le> i" using less.prems(4) file_chain_in [OF less.prems(2,3)] rel by (auto simp: stream_at_def reached_def)
      then have "length ks * csize s \<le> i * csize s" by (rule mult_le_mono1)
      moreover have "?fo = i * csize s + unat (st_cluster_offset st)" using less.prems(4) by (simp add: stream_at_def)
      ultimately show False using fits n sz by linarith
    qed
    then show ?thesis using res less.prems(4,5) looks_refl [OF less.prems(2)] by auto
  next
    case False
    then have len: "0 < len" and off: "st_file_offset st < fe_size (st_entry st)" and ic: "in_chain (st_cluster st)" by auto
    let ?lba = "fat_cluster_lba (st_cluster st) s + st_cluster_offset st div SD_BLOCK_SIZE"
    obtain fok st1 s1 where fill: "stream_fill ops ?lba st s = (fok, st1, s1)" by (metis prod_cases3)
    note r = stream_round [OF less.prems(2-4) len off ic refl fill]
    show ?thesis
    proof (cases fok)
      case False
      then have "ok = False" "bytes = []" "st' = st1" "s' = s1"
        using less.prems(1) fill len off [folded not_le] ic by (auto simp: fat_stream_read.simps [of ops st] Let_def)
      then show ?thesis using r less.prems(5) False by auto
    next
      case True
      let ?n = "stream_take st len"
      obtain st2 s2 where adv: "stream_advance ops ?n st1 s1 = (st2, s2)" by (metis prod.collapse)
      obtain ok3 bytes3 st3 s3 where rec: "fat_stream_read ops st2 (len - ?n) s2 = (ok3, bytes3, st3, s3)" by (metis prod_cases4)
      have res: "ok = ok3" "bytes = slice (unat (st_cluster_offset st mod SD_BLOCK_SIZE)) ?n (g_sd_sector s1) @ bytes3" "st' = st3" "s' = s3"
        using less.prems(1) fill adv rec True len off [folded not_le] ic by (auto simp: fat_stream_read.simps [of ops st] Let_def)
      have npos: "0 < ?n" by (rule stream_take_pos [OF len off])
      have nle: "?n \<le> len" "?fo + ?n \<le> unat (fe_size (st_entry st))"
        using off by (simp_all add: stream_take_def unat_sub [OF less_imp_le [OF off]] word_less_nat_alt)
      have l1: "looks s s1" using r by simp
      have g1: "geometry s1 = geometry s" by (rule looks_geometry [OF l1])
      have ch1: "file_chain s1 ks" using file_chain_looks [OF l1] less.prems(3) by simp
      have c1: "csize s1 = csize s" by (simp add: same_geometry(8) [OF g1])
      have small: "?fo + ?n < 2 ^ 32" using nle(2) unsigned_less [of "fe_size (st_entry st)", where ?'a = nat] by simp
      have a: "looks s1 s2 \<and> st_entry st2 = st_entry st1 \<and> unat (st_file_offset st2) = unat (st_file_offset st1) + ?n \<and> (\<exists>j. stream_at s2 ks j st2)"
        by (rule stream_advance_spec [OF adv looks_ready [OF l1] ch1]) (use r small c1 in auto)
      then obtain j where j: "stream_at s2 ks j st2" by blast
      have st2: "st_entry st2 = st_entry st" "unat (st_file_offset st2) = ?fo + ?n" "looks s1 s2" using a r by simp_all
      have l2: "looks s s2" by (rule looks_trans [OF l1 st2(3)])
      have g2: "geometry s2 = geometry s" by (rule looks_geometry [OF l2])
      have D2: "file_data (blk (f_sd s2)) s2 ks = ?D" using l2 by (simp add: file_data_same [OF g2] looks_def)
      have c2: "csize s2 = csize s" by (simp add: same_geometry(8) [OF g2])
      have "st_file_offset st2 \<le> fe_size (st_entry st2)" using st2 nle(2) by (simp add: word_le_nat_alt)
      moreover have "len - ?n < len" using npos len by simp
      ultimately have ih: "looks s2 s3 \<and> st_entry st3 = st_entry st \<and> (\<exists>j. stream_at s3 ks j st3) \<and>
          unat (st_file_offset st3) = ?fo + ?n + length bytes3 \<and> st_file_offset st3 \<le> fe_size (st_entry st) \<and>
          bytes3 = slice (?fo + ?n) (length bytes3) ?D \<and> (ok3 \<longrightarrow> length bytes3 = len - ?n) \<and>
          (reliable \<longrightarrow> ?fo + ?n + (len - ?n) \<le> unat (fe_size (st_entry st)) \<longrightarrow> unat (fe_size (st_entry st)) \<le> length ks * csize s \<longrightarrow> ok3)"
        using less.IH [OF _ rec looks_ready [OF l2] _ j] less.prems(3) file_chain_looks [OF l2] unfolding D2 c2 st2 by simp
      define bs where "bs = slice (unat (st_cluster_offset st mod SD_BLOCK_SIZE)) ?n (g_sd_sector s1)"
      have b: "bs = slice ?fo ?n ?D" using r True by (simp add: bs_def)
      have "?n \<le> 512 - unat (st_cluster_offset st mod SD_BLOCK_SIZE)" by (simp add: stream_take_def SD_BLOCK_SIZE_def)
      moreover have "length (g_sd_sector s1) = 512" by (rule fat_readyD(3) [OF looks_ready [OF l1]])
      moreover have "unat (st_cluster_offset st mod SD_BLOCK_SIZE) < 512" by (simp add: SD_BLOCK_SIZE_def unat_mod)
      ultimately have lb: "length bs = ?n" by (simp add: bs_def)
      have "slice ?fo (?n + length bytes3) ?D = bs @ bytes3" unfolding slice_append_split b using ih by metis
      then have "bytes = slice ?fo (length bytes) ?D" "length bytes = ?n + length bytes3" using res(2) lb by (simp_all add: bs_def [symmetric])
      then show ?thesis using ih res(1,3,4) nle looks_trans [OF l2] by auto
    qed
  qed
qed

lemma fat_stream_open_spec:
  assumes run: "fat_stream_open ops entry offset st0 s = (ok, st, s')" and rd: "fat_ready usable room s" and ch: "file_chain s ks"
    and start: "fe_cluster entry = hd ks" and off: "offset < fe_size entry"
  shows "looks s s' \<and> (ok \<longrightarrow> (\<exists>i. stream_at s' ks i st) \<and> st_entry st = entry \<and> st_file_offset st = offset) \<and>
    (reliable \<longrightarrow> unat (fe_size entry) \<le> length ks * csize s \<longrightarrow> ok)"
proof -
  let ?cs = "fat32_cluster_size s"
  have nz: "?cs \<noteq> 0" using offset_split(3) [OF rd] cluster_size_unat [of s] by (metis less_irrefl unat_0)
  obtain c s1 where c: "skip_clusters ops (unat (offset div ?cs)) (fe_cluster entry) s = (c, s1)" by (metis prod.collapse)
  have sk: "looks s s1" "reached ks (unat (offset div ?cs)) c"
    using skip_reached [OF c rd ch, of 0, unfolded start, OF reached_start [OF ch]] by simp_all
  have res: "(ok, st, s') = (if \<not> in_chain c then (offset = fe_size entry, st0, s1)
      else (True, \<lparr>st_entry = entry, st_cluster = c, st_file_offset = offset, st_cluster_offset = offset mod ?cs,
                    st_cache_lba = 0xFFFFFFFF, st_cache_valid = False\<rparr>, s1))"
    using run [symmetric] c nz less_imp_le [OF off, folded not_less] by (simp add: fat_stream_open_def Let_def)
  show ?thesis
  proof (cases "in_chain c")
    case True
    have g: "csize s1 = csize s" by (simp add: same_geometry(8) [OF looks_geometry [OF sk(1)]])
    have "stream_at s1 ks (unat (offset div ?cs)) st" using res True sk(2) offset_split(1,2) [OF rd, of offset] by (simp add: stream_at_def g)
    then show ?thesis using res True sk(1) by auto
  next
    case False
    have "\<not> unat (fe_size entry) \<le> length ks * csize s" if "reliable"
    proof -
      have "length ks \<le> unat (offset div ?cs)" using sk(2) False that file_chain_in [OF rd ch] by (auto simp: reached_def)
      then have "length ks * csize s \<le> unat (offset div ?cs) * csize s" by (rule mult_le_mono1)
      then have "length ks * csize s \<le> unat offset" using offset_split(1) [OF rd, of offset] by linarith
      moreover have "unat offset < unat (fe_size entry)" using off by (simp add: word_less_nat_alt)
      ultimately show ?thesis by linarith
    qed
    then show ?thesis using res False sk(1) off by auto
  qed
qed

text \<open>Whatever else used the scratch buffer: a stream whose cache flag is cleared stands where it stood.\<close>

lemma stream_at_uncached:
  assumes "stream_at s ks i st" and "geometry s' = geometry s"
  shows "stream_at s' ks i (st\<lparr>st_cache_valid := False\<rparr>)"
  using assms(1) unfolding stream_at_def same_geometry(8) [OF assms(2)] by simp

end

end
