(* ===== verification/File_Scan.thy ===== *)
theory File_Scan
  imports Fat32_File Hk_String
begin

text \<open>
  \<open>storage/file_dir_scan.c\<close>: the entries of a directory read, its long names put together, a directory looked up by
  name, the highest number among the files of a series. This scan, the path look-up of \<open>storage/file_path.c\<close> and the
  file browser walk a directory with the same nested loops, which are one definition here (\<open>dir_walk\<close>), with what is
  done to a sector as an argument; the abstract meaning of a directory is the list of its entries (\<open>dir_entries\<close>).
\<close>

definition FILE_NAME_MAX :: nat where "FILE_NAME_MAX = 96"
definition FILE_LFN_MAX_UNITS :: nat where "FILE_LFN_MAX_UNITS = 96"

text \<open>What a buffer holds as a C string, and \<open>snprintf\<close> of such strings into a buffer of \<open>n\<close> bytes.\<close>

definition c_string :: "u8 list \<Rightarrow> u8 list" where
  "c_string bs = takeWhile (\<lambda>b. b \<noteq> 0) bs"

definition printed :: "nat \<Rightarrow> u8 list \<Rightarrow> u8 list" where
  "printed n str = take (n - 1) str"

definition file_dir_short_name :: "u8 list \<Rightarrow> nat \<Rightarrow> u8 list" where
  "file_dir_short_name raw name_size = (
     let base = takeWhile (\<lambda>b. b \<noteq> 0x20) (take 8 raw);
         ext = takeWhile (\<lambda>b. b \<noteq> 0x20) (take 3 (drop 8 raw))
     in if ext \<noteq> [] \<and> ext ! 0 \<noteq> 0 then printed name_size (c_string base @ [0x2E] @ c_string ext)
        else printed name_size (c_string base))"

definition file_lfn_positions :: "nat list" where
  "file_lfn_positions = [1, 3, 5, 7, 9, 14, 16, 18, 20, 22, 24, 28, 30]"

text \<open>The characters of one long name entry; \<open>n\<close> of them are left.\<close>

fun lfn_copy :: "u8 list \<Rightarrow> nat \<Rightarrow> nat \<Rightarrow> nat \<Rightarrow> u16 list \<Rightarrow> u16 list" where
  "lfn_copy raw offset i 0 lfn = lfn"
| "lfn_copy raw offset i (Suc n) lfn = (
     if offset + i + 1 < length lfn then
       let character = rd16 raw (file_lfn_positions ! i)
       in if character = 0 \<or> character = 0xFFFF then lfn[offset + i := 0]
          else lfn_copy raw offset (i + 1) n (lfn[offset + i := character])
     else lfn)"

definition file_dir_lfn_store :: "u8 list \<Rightarrow> u16 list \<Rightarrow> u16 list" where
  "file_dir_lfn_store raw lfn = (
     let sequence = raw ! 0 AND 0x1F;
         lfn' = (if raw ! 0 AND 0x40 \<noteq> 0 then replicate (length lfn) 0 else lfn)
     in if sequence = 0 then lfn' else lfn_copy raw (unat ((ucast sequence - 1) * 13 :: u16)) 0 13 lfn')"

text \<open>What the scan carries from entry to entry.\<close>

record scan =
  sc_lfn :: "u16 list"
  sc_lfn_count :: u8
  sc_ordinal :: u32

definition scan_start :: scan where
  "scan_start = \<lparr>sc_lfn = replicate FILE_LFN_MAX_UNITS 0, sc_lfn_count = 0, sc_ordinal = 0\<rparr>"

text \<open>The number of the entry that is being looked at is \<open>sc_ordinal\<close>; \<open>skip_entry\<close> forgets a long name begun before it.\<close>

definition skip_entry :: "scan \<Rightarrow> scan" where
  "skip_entry sc = \<lparr>sc_lfn = (sc_lfn sc)[0 := 0], sc_lfn_count = 0, sc_ordinal = sc_ordinal sc + 1\<rparr>"

definition lfn_entry :: "u8 list \<Rightarrow> scan \<Rightarrow> scan" where
  "lfn_entry raw sc = \<lparr>sc_lfn = file_dir_lfn_store raw (sc_lfn sc),
     sc_lfn_count = (if sc_lfn_count sc < 20 then sc_lfn_count sc + 1 else sc_lfn_count sc), sc_ordinal = sc_ordinal sc + 1\<rparr>"

definition entry_name :: "u8 list \<Rightarrow> scan \<Rightarrow> u8 list" where
  "entry_name raw sc = (if sc_lfn sc ! 0 \<noteq> 0 then c_string (snd (utf16_to_utf8 (Ptr (sc_lfn sc)) (Ptr (replicate FILE_NAME_MAX 0))))
     else file_dir_short_name raw FILE_NAME_MAX)"

definition named_entry :: "u8 list \<Rightarrow> scan \<Rightarrow> fat_file_entry" where
  "named_entry raw sc = \<lparr>fe_name = entry_name raw sc, fe_attr = raw ! 11,
     fe_cluster = push_bit 16 (ucast (rd16 raw 20)) OR ucast (rd16 raw 26), fe_size = rd32 raw 28,
     fe_modified = push_bit 16 (ucast (rd16 raw 24)) OR ucast (rd16 raw 22),
     fe_dir_ordinal = sc_ordinal sc, fe_lfn_count = sc_lfn_count sc\<rparr>"

section \<open>The walk over a directory\<close>

text \<open>How the body over a sector, or the walk, came to its end: a read failed, the caller has what it wants, all was seen.\<close>

datatype walk_end = Walk_Failed | Walk_Finished | Walk_Through

fun walk_sectors :: "'w sd_ops \<Rightarrow> (u8 list \<Rightarrow> 'a \<Rightarrow> bool \<times> 'a) \<Rightarrow> u32 \<Rightarrow> nat \<Rightarrow> 'a \<Rightarrow> 'w fat_state \<Rightarrow> walk_end \<times> 'a \<times> 'w fat_state" where
  "walk_sectors ops body lba 0 acc s = (Walk_Through, acc, s)"
| "walk_sectors ops body lba (Suc n) acc s = (case scratch_read ops lba s of
       (False, s1) \<Rightarrow> (Walk_Failed, acc, s1)
     | (True, s1) \<Rightarrow> (case body (g_sd_sector s1) acc of
         (True, acc') \<Rightarrow> (Walk_Finished, acc', s1)
       | (False, acc') \<Rightarrow> walk_sectors ops body (lba + 1) n acc' s1))"

partial_function (option) dir_walk :: "'w sd_ops \<Rightarrow> (u8 list \<Rightarrow> 'a \<Rightarrow> bool \<times> 'a) \<Rightarrow> u32 \<Rightarrow> 'a \<Rightarrow> 'w fat_state \<Rightarrow> (walk_end \<times> 'a \<times> 'w fat_state) option" where
  "dir_walk ops body current acc s = (
     if in_chain current then
       (case walk_sectors ops body (fat_cluster_lba current s) (unat (g_fat_sectors_per_cluster s)) acc s of (r, acc', s1) \<Rightarrow>
          if r \<noteq> Walk_Through then Some (r, acc', s1)
          else (case fat_next_cluster ops current s1 of (next, s2) \<Rightarrow> dir_walk ops body next acc' s2))
     else Some (Walk_Through, acc, s))"

section \<open>\<open>file_dir_scan.c\<close>\<close>

text \<open>The entries of a sector from \<open>offset\<close> on, \<open>n\<close> of them left; the visitor is given every named entry and may end
  the scan. The result says whether the scan is over.\<close>

fun scan_sector :: "(fat_file_entry \<Rightarrow> 'c \<Rightarrow> bool \<times> 'c) \<Rightarrow> nat \<Rightarrow> nat \<Rightarrow> u8 list \<Rightarrow> scan \<times> 'c \<Rightarrow> bool \<times> scan \<times> 'c" where
  "scan_sector visitor offset 0 sector (sc, ctx) = (False, sc, ctx)"
| "scan_sector visitor offset (Suc n) sector (sc, ctx) = (
     let raw = slice offset 32 sector; attr = raw ! 11
     in if raw ! 0 = 0x00 then (True, sc, ctx)
        else if raw ! 0 = 0xE5 then scan_sector visitor (offset + 32) n sector (skip_entry sc, ctx)
        else if attr = 0x0F then scan_sector visitor (offset + 32) n sector (lfn_entry raw sc, ctx)
        else if attr AND 0x08 \<noteq> 0 \<or> raw ! 0 = 0x2E then scan_sector visitor (offset + 32) n sector (skip_entry sc, ctx)
        else (case visitor (named_entry raw sc) ctx of
                (True, ctx') \<Rightarrow> (True, skip_entry sc, ctx')
              | (False, ctx') \<Rightarrow> scan_sector visitor (offset + 32) n sector (skip_entry sc, ctx')))"

definition file_dir_scan :: "'w sd_ops \<Rightarrow> u32 \<Rightarrow> (fat_file_entry \<Rightarrow> 'c \<Rightarrow> bool \<times> 'c) \<Rightarrow> 'c \<Rightarrow> 'w fat_state \<Rightarrow> (bool \<times> 'c \<times> 'w fat_state) option" where
  "file_dir_scan ops directory_cluster visitor context s = (case dir_walk ops (scan_sector visitor 0 16) directory_cluster (scan_start, context) s of
       None \<Rightarrow> None
     | Some (r, (_, ctx), s') \<Rightarrow> Some (r \<noteq> Walk_Failed, ctx, s'))"

definition is_dir :: "fat_file_entry \<Rightarrow> bool" where
  "is_dir entry \<longleftrightarrow> fe_attr entry AND FAT_ATTR_DIR \<noteq> 0"

text \<open>The context is the cluster of the directory found (\<open>found\<close> and \<open>*cluster\<close> in one).\<close>

definition file_dir_find_visitor :: "u8 list \<Rightarrow> u8 list \<Rightarrow> fat_file_entry \<Rightarrow> u32 option \<Rightarrow> bool \<times> u32 option" where
  "file_dir_find_visitor long_name short_name entry context = (
     if \<not> is_dir entry \<or> \<not> str_eq_ci (fe_name entry) long_name \<and> \<not> str_eq_ci (fe_name entry) short_name then (False, context)
     else (True, Some (fe_cluster entry)))"

datatype file_dir_scan_result = FILE_DIR_SCAN_ERROR | FILE_DIR_SCAN_FOUND | FILE_DIR_SCAN_NOT_FOUND

text \<open>The result and \<open>*cluster_out\<close>.\<close>

definition file_dir_find_directory :: "'w sd_ops \<Rightarrow> u32 \<Rightarrow> u8 list \<Rightarrow> u8 list \<Rightarrow> 'w fat_state \<Rightarrow> (file_dir_scan_result \<times> u32 \<times> 'w fat_state) option" where
  "file_dir_find_directory ops parent_cluster long_name short_name s =
     (case file_dir_scan ops parent_cluster (file_dir_find_visitor long_name short_name) None s of
        None \<Rightarrow> None
      | Some (ok, found, s') \<Rightarrow> Some (
          if \<not> ok then FILE_DIR_SCAN_ERROR else if found \<noteq> None then FILE_DIR_SCAN_FOUND else FILE_DIR_SCAN_NOT_FOUND,
          (case found of None \<Rightarrow> 0 | Some cluster \<Rightarrow> cluster), s'))"

text \<open>A parser gives the index of a file name, if it is one.\<close>

definition file_dir_max_visitor :: "(u8 list \<Rightarrow> u32 option) \<Rightarrow> fat_file_entry \<Rightarrow> u32 \<Rightarrow> bool \<times> u32" where
  "file_dir_max_visitor parser entry maximum = (False,
     if \<not> is_dir entry then (case parser (fe_name entry) of Some index \<Rightarrow> if maximum < index then index else maximum | None \<Rightarrow> maximum)
     else maximum)"

definition file_dir_find_max_file_index :: "'w sd_ops \<Rightarrow> u32 \<Rightarrow> (u8 list \<Rightarrow> u32 option) \<Rightarrow> 'w fat_state \<Rightarrow> (u32 option \<times> 'w fat_state) option" where
  "file_dir_find_max_file_index ops dir_cluster parser s = (case file_dir_scan ops dir_cluster (file_dir_max_visitor parser) 0 s of
       None \<Rightarrow> None
     | Some (ok, maximum, s') \<Rightarrow> Some (if ok then Some maximum else None, s'))"

section \<open>A directory as a list of entries\<close>

text \<open>The 32 byte entries of the contents of a directory, what the scan takes from one of them (\<open>None\<close> is the end), and
  the files and directories it lists.\<close>

definition raw_entries :: "u8 list \<Rightarrow> u8 list list" where
  "raw_entries bytes = map (\<lambda>j. slice (32 * j) 32 bytes) [0..<length bytes div 32]"

definition scan_raw :: "u8 list \<Rightarrow> scan \<Rightarrow> (fat_file_entry option \<times> scan) option" where
  "scan_raw raw sc = (
     if raw ! 0 = 0x00 then None
     else if raw ! 0 = 0xE5 then Some (None, skip_entry sc)
     else if raw ! 11 = 0x0F then Some (None, lfn_entry raw sc)
     else if raw ! 11 AND 0x08 \<noteq> 0 \<or> raw ! 0 = 0x2E then Some (None, skip_entry sc)
     else Some (Some (named_entry raw sc), skip_entry sc))"

fun listing :: "scan \<Rightarrow> u8 list list \<Rightarrow> fat_file_entry list" where
  "listing sc [] = []"
| "listing sc (raw # raws) = (case scan_raw raw sc of
       None \<Rightarrow> []
     | Some (None, sc') \<Rightarrow> listing sc' raws
     | Some (Some e, sc') \<Rightarrow> e # listing sc' raws)"

definition dir_entries :: "u8 list \<Rightarrow> fat_file_entry list" where
  "dir_entries bytes = listing scan_start (raw_entries bytes)"

fun visit :: "('e \<Rightarrow> 'c \<Rightarrow> bool \<times> 'c) \<Rightarrow> 'e list \<Rightarrow> 'c \<Rightarrow> bool \<times> 'c" where
  "visit v [] c = (False, c)"
| "visit v (e # es) c = (case v e c of (True, c') \<Rightarrow> (True, c') | (False, c') \<Rightarrow> visit v es c')"

text \<open>The scan of a list of raw entries.\<close>

fun scan_run :: "(fat_file_entry \<Rightarrow> 'c \<Rightarrow> bool \<times> 'c) \<Rightarrow> u8 list list \<Rightarrow> scan \<times> 'c \<Rightarrow> bool \<times> scan \<times> 'c" where
  "scan_run v [] (sc, c) = (False, sc, c)"
| "scan_run v (raw # raws) (sc, c) = (case scan_raw raw sc of
       None \<Rightarrow> (True, sc, c)
     | Some (None, sc') \<Rightarrow> scan_run v raws (sc', c)
     | Some (Some e, sc') \<Rightarrow> (case v e c of (True, c') \<Rightarrow> (True, sc', c') | (False, c') \<Rightarrow> scan_run v raws (sc', c')))"

lemma scan_run_append: "scan_run v (xs @ ys) a = (case scan_run v xs a of (True, b) \<Rightarrow> (True, b) | (False, b) \<Rightarrow> scan_run v ys b)"
proof (induction v xs a rule: scan_run.induct)
  case (2 v raw raws sc c)
  then show ?case by (auto split: option.splits prod.splits bool.splits)
qed simp

lemma scan_run_visit: "snd (snd (scan_run v raws (sc, c))) = snd (visit v (listing sc raws) c)"
proof (induction v raws "(sc, c)" arbitrary: sc c rule: scan_run.induct)
  case (2 v raw raws sc c)
  then show ?case by (auto split: option.splits prod.splits bool.splits)
qed simp

lemma listing_append: "\<exists>zs. listing sc (xs @ ys) = listing sc xs @ zs"
  by (induction sc xs rule: listing.induct) (auto split: option.split prod.split)

lemma printed_length: "length (printed FILE_NAME_MAX str) < FILE_NAME_MAX"
  unfolding printed_def length_take FILE_NAME_MAX_def by arith

lemma entry_name_length: "length (entry_name raw sc) < FILE_NAME_MAX"
proof -
  have "length (c_string ((mem_write 0 t (replicate FILE_NAME_MAX 0))[length t := 0])) < FILE_NAME_MAX" if t: "length t < FILE_NAME_MAX" for t :: "u8 list"
  proof -
    let ?b = "(mem_write 0 t (replicate FILE_NAME_MAX (0 :: u8)))[length t := 0]"
    have l: "length ?b = FILE_NAME_MAX" using t by simp
    have "?b ! length t = 0" using t by simp
    then have "length (takeWhile (\<lambda>b. b \<noteq> 0) ?b) \<le> length t" by (metis (full_types) nth_length_takeWhile nth_mem linorder_not_le set_takeWhileD takeWhile_nth)
    then show ?thesis using t by (simp add: c_string_def)
  qed
  note name = this
  have "length (file_dir_short_name raw FILE_NAME_MAX) < FILE_NAME_MAX" by (simp add: file_dir_short_name_def Let_def printed_length)
  moreover have "0 < length (replicate FILE_NAME_MAX (0 :: u8))" by (simp add: FILE_NAME_MAX_def)
  then have "length (c_string (snd (utf16_to_utf8 (Ptr us) (Ptr (replicate FILE_NAME_MAX 0))))) < FILE_NAME_MAX" for us
    using name encoded_fit_room [of FILE_NAME_MAX "codepoints us"]
    by (simp add: utf16_to_utf8_def utf16_loop_codepoints Let_def)
  ultimately show ?thesis by (simp add: entry_name_def)
qed

lemma scan_sector_step:
  "scan_sector v offset (Suc n) sector (sc, ctx) = (case scan_raw (slice offset 32 sector) sc of
     None \<Rightarrow> (True, sc, ctx)
   | Some (None, sc') \<Rightarrow> scan_sector v (offset + 32) n sector (sc', ctx)
   | Some (Some e, sc') \<Rightarrow> (case v e ctx of (True, c') \<Rightarrow> (True, sc', c') | (False, c') \<Rightarrow> scan_sector v (offset + 32) n sector (sc', c')))"
  unfolding scan_raw_def scan_sector.simps Let_def by (simp only: if_distrib [of "case_option _ _"] option.case prod.case)

declare scan_sector.simps(2) [simp del]

lemma slices_from: "map (\<lambda>j. slice (offset + 32 * j) 32 sector) [0..<Suc n] =
    slice offset 32 sector # map (\<lambda>j. slice (offset + 32 + 32 * j) 32 sector) [0..<n]"
  by (simp only: upt_conv_Cons [OF zero_less_Suc] map_Suc_upt [symmetric] list.map map_map o_def mult_Suc_right add.assoc mult_0_right add_0_right)

lemma scan_sector_run: "scan_sector v offset n sector a = scan_run v (map (\<lambda>j. slice (offset + 32 * j) 32 sector) [0..<n]) a"
proof (induction n arbitrary: offset a)
  case 0
  then show ?case by (cases a) simp
next
  case (Suc n)
  obtain sc ctx where a: "a = (sc, ctx)" by (cases a)
  show ?case unfolding slices_from a scan_sector_step scan_run.simps Suc.IH by (rule refl)
qed

fun consume :: "(u8 list \<Rightarrow> 'a \<Rightarrow> bool \<times> 'a) \<Rightarrow> u8 list list \<Rightarrow> 'a \<Rightarrow> bool \<times> 'a" where
  "consume body [] acc = (False, acc)"
| "consume body (sec # secs) acc = (case body sec acc of (True, a) \<Rightarrow> (True, a) | (False, a) \<Rightarrow> consume body secs a)"

lemma consume_append: "consume body (xs @ ys) a = (case consume body xs a of (True, b) \<Rightarrow> (True, b) | (False, b) \<Rightarrow> consume body ys b)"
  by (induction body xs a rule: consume.induct) (auto split: prod.splits bool.splits)

lemma raw_entries_sector: "length sec = 512 \<Longrightarrow> raw_entries sec = map (\<lambda>j. slice (0 + 32 * j) 32 sec) [0..<16]"
  by (simp add: raw_entries_def)

lemma raw_entries_append:
  assumes "length xs = 32 * n"
  shows "raw_entries (xs @ ys) = raw_entries xs @ raw_entries ys"
proof -
  have l: "length (xs @ ys) div 32 = n + length ys div 32" "length xs div 32 = n" using assms by simp_all
  have a: "map (\<lambda>j. slice (32 * j) 32 (xs @ ys)) [0..<n] = map (\<lambda>j. slice (32 * j) 32 xs) [0..<n]"
    using assms by (intro map_cong refl) (simp add: slice_def)
  have b: "slice (32 * (n + j)) 32 (xs @ ys) = slice (32 * j) 32 ys" for j using assms by (simp add: slice_def)
  have "[0..<n + length ys div 32] = [0..<n] @ map (\<lambda>j. n + j) [0..<length ys div 32]"
    using upt_add_eq_append [OF le0, of n "length ys div 32"] map_add_upt [of n "length ys div 32"] by (simp only: add.commute [of _ n])
  then show ?thesis unfolding raw_entries_def l by (simp only: map_append a map_map o_def b)
qed

lemma raw_entries_concat: "\<forall>sec \<in> set secs. length sec = 512 \<Longrightarrow> raw_entries (concat secs) = concat (map raw_entries secs)"
proof (induction secs)
  case (Cons sec secs)
  then show ?case using raw_entries_append [of sec 16 "concat secs"] by simp
qed (simp add: raw_entries_def)

lemma consume_scan: "\<forall>sec \<in> set secs. length sec = 512 \<Longrightarrow> consume (scan_sector v 0 16) secs a = scan_run v (raw_entries (concat secs)) a"
proof (induction secs arbitrary: a)
  case Nil
  then show ?case by (cases a) (simp add: raw_entries_def)
next
  case (Cons sec secs)
  have "raw_entries (concat (sec # secs)) = raw_entries sec @ raw_entries (concat secs)"
    using Cons.prems raw_entries_append [of sec 16 "concat secs"] by simp
  then show ?case using Cons by (simp add: scan_run_append scan_sector_run raw_entries_sector split: prod.split bool.split)
qed

section \<open>The walk over a block store\<close>

definition dir_sectors :: "(nat \<Rightarrow> u8 list) \<Rightarrow> 'w fat_state \<Rightarrow> u32 list \<Rightarrow> u8 list list" where
  "dir_sectors B s ks = concat (map (\<lambda>k. map (\<lambda>i. B (cluster_sector s k i)) [0..<unat (g_fat_sectors_per_cluster s)]) ks)"

lemma dir_sectors_data: "concat (dir_sectors B s ks) = file_data B s ks"
  by (induction ks) (simp_all add: dir_sectors_def file_data_def cluster_data_def)

lemma dir_sectors_append: "dir_sectors B s (ks @ js) = dir_sectors B s ks @ dir_sectors B s js"
  by (simp add: dir_sectors_def)

context block_store
begin

lemma walk_sectors_spec:
  "walk_sectors ops body (fat_cluster_lba k s0 + of_nat i) n acc s = (r, acc', s') \<Longrightarrow> fat_ready usable room s0 \<Longrightarrow> looks s0 s \<Longrightarrow>
    is_cluster s0 k \<Longrightarrow> i + n = unat (g_fat_sectors_per_cluster s0) \<Longrightarrow>
    looks s s' \<and> (reliable \<longrightarrow> r \<noteq> Walk_Failed) \<and>
    (r \<noteq> Walk_Failed \<longrightarrow> consume body (map (\<lambda>i. blk (f_sd s0) (cluster_sector s0 k i)) [i..<i + n]) acc = (r = Walk_Finished, acc'))"
proof (induction n arbitrary: i acc s)
  case 0
  then show ?case using looks_refl [OF looks_ready [OF 0(3)]] by auto
next
  case (Suc n)
  let ?lba = "fat_cluster_lba k s0 + of_nat i"
  have b0: "blk (f_sd s) = blk (f_sd s0)" "room (f_sd s) = room (f_sd s0)" using Suc.prems(3) by (simp_all add: looks_def keeps_def)
  have i: "i < unat (g_fat_sectors_per_cluster s0)" using Suc.prems(5) by simp
  note vol = fat_readyD(2) [OF Suc.prems(2)]
  note lba = cluster_lba_unat [OF vol Suc.prems(4) i]
  have lt: "unat ?lba < room (f_sd s)" using cluster_sector_bound(1) [OF vol Suc.prems(4) i] lba b0 by simp
  obtain ok s1 where rd: "scratch_read ops ?lba s = (ok, s1)" by (metis prod.collapse)
  note a = scratch_read_looks [OF rd looks_ready [OF Suc.prems(3)] lt, unfolded lba b0]
  have up: "[i..<i + Suc n] = i # [Suc i..<Suc i + n]" by (simp add: upt_conv_Cons)
  show ?case
  proof (cases ok)
    case False
    then show ?thesis using Suc.prems(1) rd a by auto
  next
    case True
    obtain f acc1 where bd: "body (g_sd_sector s1) acc = (f, acc1)" by (metis prod.collapse)
    have sec: "g_sd_sector s1 = blk (f_sd s0) (cluster_sector s0 k i)" using a True by blast
    show ?thesis
    proof (cases f)
      case True
      then show ?thesis using Suc.prems(1) rd \<open>ok\<close> bd a sec unfolding up by auto
    next
      case False
      have run: "walk_sectors ops body (fat_cluster_lba k s0 + of_nat (Suc i)) n acc1 s1 = (r, acc', s')"
        using Suc.prems(1) rd \<open>ok\<close> bd False by (simp add: ac_simps)
      have l1: "looks s0 s1" using looks_trans [OF Suc.prems(3)] a by blast
      have "Suc i + n = unat (g_fat_sectors_per_cluster s0)" using Suc.prems(5) by simp
      from Suc.IH [OF run Suc.prems(2) l1 Suc.prems(4) this] show ?thesis
        using a bd False sec looks_trans unfolding up by auto
    qed
  qed
qed

lemma dir_walk_spec:
  "fat_ready usable room s \<Longrightarrow> file_chain s ks \<Longrightarrow> reached ks i c \<Longrightarrow> i \<le> length ks \<Longrightarrow>
    \<exists>r acc' s'. dir_walk ops body c acc s = Some (r, acc', s') \<and> looks s s' \<and> (reliable \<longrightarrow> r \<noteq> Walk_Failed) \<and>
      (r \<noteq> Walk_Failed \<longrightarrow> (\<exists>n. i \<le> n \<and> n \<le> length ks \<and> (reliable \<longrightarrow> n = length ks) \<and> (i < length ks \<longrightarrow> c = ks ! i \<longrightarrow> i < n) \<and>
         consume body (dir_sectors (blk (f_sd s)) s (drop i (take n ks))) acc = (r = Walk_Finished, acc')))"
proof (induction "length ks - i" arbitrary: i c acc s)
  case 0
  then have i: "i = length ks" by simp
  then have "\<not> in_chain c" using reached_out [OF 0(4)] by auto
  then have "dir_walk ops body c acc s = Some (Walk_Through, acc, s)" by (simp add: dir_walk.simps [of ops body c])
  then show ?case using looks_refl [OF 0(2)] i by (auto simp: dir_sectors_def)
next
  case (Suc n)
  show ?case
  proof (cases "in_chain c")
    case False
    then have run: "dir_walk ops body c acc s = Some (Walk_Through, acc, s)" by (simp add: dir_walk.simps [of ops body c])
    have nk: "\<not> (i < length ks \<and> c = ks ! i)" using False file_chain_in [OF Suc.prems(1,2), of i] by auto
    then have "\<not> reliable" using Suc.prems(3) Suc.hyps(2) by (auto simp: reached_def)
    then show ?thesis using looks_refl [OF Suc.prems(1)] run nk Suc.prems(4) by (auto simp: dir_sectors_def)
  next
    case True
    then have i: "i < length ks" "c = ks ! i" using reached_out [OF Suc.prems(3)] by simp_all
    have k: "is_cluster s c" using file_chain_in [OF Suc.prems(1,2) i(1)] i(2) by simp
    obtain r acc1 s1 where w: "walk_sectors ops body (fat_cluster_lba c s) (unat (g_fat_sectors_per_cluster s)) acc s = (r, acc1, s1)" by (metis prod_cases3)
    have w0: "walk_sectors ops body (fat_cluster_lba c s + of_nat 0) (unat (g_fat_sectors_per_cluster s)) acc s = (r, acc1, s1)" using w by simp
    note a = walk_sectors_spec [OF w0 Suc.prems(1) looks_refl [OF Suc.prems(1)] k, simplified]
    have one: "dir_sectors (blk (f_sd s)) s [c] = map (\<lambda>i. blk (f_sd s) (cluster_sector s c i)) [0..<unat (g_fat_sectors_per_cluster s)]"
      by (simp add: dir_sectors_def)
    have run: "dir_walk ops body c acc s = (if r \<noteq> Walk_Through then Some (r, acc1, s1)
        else (case fat_next_cluster ops c s1 of (next, s2) \<Rightarrow> dir_walk ops body next acc1 s2))"
      using True by (subst dir_walk.simps) (simp only: w prod.case if_True)
    have split: "dir_sectors (blk (f_sd s)) s (drop i (take m ks)) = dir_sectors (blk (f_sd s)) s [c] @ dir_sectors (blk (f_sd s)) s (drop (Suc i) (take m ks))"
      if "i < m" "m \<le> length ks" for m
    proof -
      have "drop i (take m ks) = [c] @ drop (Suc i) (take m ks)" using that i by (simp add: Cons_nth_drop_Suc [symmetric])
      then show ?thesis using dir_sectors_append by metis
    qed
    show ?thesis
    proof (cases "r = Walk_Through")
      case False
      then have "dir_walk ops body c acc s = Some (r, acc1, s1)" using run by simp
      moreover have "consume body (dir_sectors (blk (f_sd s)) s (drop i (take (length ks) ks))) acc = (r = Walk_Finished, acc1)" if "r \<noteq> Walk_Failed"
        using a that False split [OF i(1), of ] unfolding one by (cases r) (simp_all add: consume_append one)
      ultimately show ?thesis using a i by (intro exI [of _ r] exI [of _ acc1] exI [of _ s1]) (auto intro!: exI [of _ "length ks"])
    next
      case thr: True
      obtain d s2 where d: "fat_next_cluster ops c s1 = (d, s2)" by (metis prod.collapse)
      have l1: "looks s s1" using a by simp
      have n: "looks s1 s2" "reached ks (Suc i) d"
        using next_reached [OF d [unfolded i(2)] looks_ready [OF l1] _ i(1)] file_chain_looks [OF l1] Suc.prems(2) by simp_all
      have l2: "looks s s2" by (rule looks_trans [OF l1 n(1)])
      have rec: "dir_walk ops body c acc s = dir_walk ops body d acc1 s2" using run thr d by simp
      have m: "n = length ks - Suc i" "file_chain s2 ks" using Suc.hyps(2) Suc.prems(2) file_chain_looks [OF l2] by simp_all
      have g: "geometry s2 = geometry s" by (rule looks_geometry [OF l2])
      have ds: "dir_sectors (blk (f_sd s2)) s2 = dir_sectors (blk (f_sd s)) s"
        using l2 unfolding dir_sectors_def cluster_sector_same [OF g] same_geometry(8) [OF g] by (simp add: looks_def)
      from Suc.hyps(1) [OF m(1) looks_ready [OF l2] m(2) n(2) Suc_leI [OF i(1)], of acc1, unfolded ds]
      obtain r' acc' s' where ih: "dir_walk ops body d acc1 s2 = Some (r', acc', s')" "looks s2 s'" "reliable \<longrightarrow> r' \<noteq> Walk_Failed"
        and ex: "r' \<noteq> Walk_Failed \<longrightarrow> (\<exists>n. Suc i \<le> n \<and> n \<le> length ks \<and> (reliable \<longrightarrow> n = length ks) \<and>
         consume body (dir_sectors (blk (f_sd s)) s (drop (Suc i) (take n ks))) acc1 = (r' = Walk_Finished, acc'))" by blast
      have "\<exists>n. i \<le> n \<and> n \<le> length ks \<and> (reliable \<longrightarrow> n = length ks) \<and> (i < length ks \<longrightarrow> c = ks ! i \<longrightarrow> i < n) \<and>
         consume body (dir_sectors (blk (f_sd s)) s (drop i (take n ks))) acc = (r' = Walk_Finished, acc')" if "r' \<noteq> Walk_Failed"
      proof -
        from ex that obtain n where n: "Suc i \<le> n" "n \<le> length ks" "reliable \<longrightarrow> n = length ks"
          "consume body (dir_sectors (blk (f_sd s)) s (drop (Suc i) (take n ks))) acc1 = (r' = Walk_Finished, acc')" by blast
        have "consume body (dir_sectors (blk (f_sd s)) s [c]) acc = (False, acc1)" using a thr by (simp add: one)
        then have "consume body (dir_sectors (blk (f_sd s)) s (drop i (take n ks))) acc = (r' = Walk_Finished, acc')"
          using n split [of n] by (simp add: consume_append)
        then show ?thesis using n by (intro exI [of _ n]) auto
      qed
      then show ?thesis using rec ih looks_trans [OF l2 ih(2)] by auto
    qed
  qed
qed

lemma dir_walk_start:
  assumes f: "fat_ready usable room s" and ch: "file_chain s ks"
  shows "\<exists>r acc' s'. dir_walk ops body (hd ks) acc s = Some (r, acc', s') \<and> looks s s' \<and> (reliable \<longrightarrow> r \<noteq> Walk_Failed) \<and>
      (r \<noteq> Walk_Failed \<longrightarrow> (\<exists>n. 0 < n \<and> n \<le> length ks \<and> (reliable \<longrightarrow> n = length ks) \<and>
         consume body (dir_sectors (blk (f_sd s)) s (take n ks)) acc = (r = Walk_Finished, acc')))"
proof -
  have ne: "ks \<noteq> []" using ch by (auto simp: chain_in_def)
  then have "0 < length ks" "hd ks = ks ! 0" by (simp_all add: hd_conv_nth)
  then show ?thesis using dir_walk_spec [OF f ch reached_start [OF ch] le0, of body acc] unfolding drop_0 by blast
qed

lemma dir_sectors_length: "usable w \<Longrightarrow> \<forall>sec \<in> set (dir_sectors (blk w) s ks). length sec = 512"
  by (auto simp: dir_sectors_def blk_length)

text \<open>A walk that scans: what it found in the directory made of the first \<open>n\<close> clusters, which are all of them when no
  read fails.\<close>

lemma scan_walk:
  assumes f: "fat_ready usable room s" and ch: "file_chain s ks" and start: "c = hd ks"
  shows "\<exists>r sc ctx s'. dir_walk ops (scan_sector v 0 16) c (scan_start, x) s = Some (r, (sc, ctx), s') \<and> looks s s' \<and>
    (reliable \<longrightarrow> r \<noteq> Walk_Failed) \<and>
    (r \<noteq> Walk_Failed \<longrightarrow> (\<exists>n. n \<le> length ks \<and> (reliable \<longrightarrow> n = length ks) \<and>
       ctx = snd (visit v (dir_entries (file_data (blk (f_sd s)) s (take n ks))) x)))"
proof -
  have us: "usable (f_sd s)" by (rule fat_readyD(1) [OF f])
  from dir_walk_spec [OF f ch reached_start [OF ch] le0, of "scan_sector v 0 16" "(scan_start, x)"] obtain r a s' where
    w: "dir_walk ops (scan_sector v 0 16) (hd ks) (scan_start, x) s = Some (r, a, s')" "looks s s'" "reliable \<longrightarrow> r \<noteq> Walk_Failed"
    and n: "r \<noteq> Walk_Failed \<longrightarrow> (\<exists>n. n \<le> length ks \<and> (reliable \<longrightarrow> n = length ks) \<and>
         consume (scan_sector v 0 16) (dir_sectors (blk (f_sd s)) s (drop 0 (take n ks))) (scan_start, x) = (r = Walk_Finished, a))" by blast
  obtain sc ctx where a: "a = (sc, ctx)" by (cases a)
  have "ctx = snd (visit v (dir_entries (file_data (blk (f_sd s)) s (take n ks))) x)"
    if "consume (scan_sector v 0 16) (dir_sectors (blk (f_sd s)) s (drop 0 (take n ks))) (scan_start, x) = (r = Walk_Finished, a)" for n
    using that unfolding consume_scan [OF dir_sectors_length [OF us]] dir_sectors_data drop_0 a dir_entries_def scan_run_visit [of v _ scan_start x, symmetric]
    by simp
  then show ?thesis using w n unfolding start a by blast
qed

end

end
