(* ===== verification/Sd_Card.thy ===== *)
theory Sd_Card
  imports Fat32_State
begin

text \<open>
  \<open>storage/sd_card.c\<close> on \<open>drivers/sd_spi.c\<close>: blocks read from and written to an SD card in SPI mode. The card and the bus
  are hardware and an argument (\<open>'c sd_bus\<close>: a byte exchanged, chip select raised or lowered, the clock configured,
  time passing). What the SD specification says of such a card is the locale \<open>sd_device\<close>; that the driver turns it into
  the \<open>block_store\<close> the file system needs is proved below it.
\<close>

section \<open>The bus and the driver's state\<close>

record 'c sd_bus =
  bus_xfer :: "u8 \<Rightarrow> 'c \<Rightarrow> u8 \<times> 'c"
  bus_cs :: "bool \<Rightarrow> 'c \<Rightarrow> 'c"
  bus_config :: "u32 \<Rightarrow> 'c \<Rightarrow> 'c"
  bus_sleep :: "'c \<Rightarrow> 'c"

text \<open>The part of the variables of \<open>fat32_state.c\<close> that describes the card.\<close>

record 'c sd_state =
  g_sd_present :: bool
  g_sd_sdhc :: bool
  g_sd_probe_silent :: bool
  g_fat_mounted :: bool
  g_sd_verify_sector :: "u8 list"
  sd_hw :: 'c

definition sd_spi_cs_high :: "'c sd_bus \<Rightarrow> 'c sd_state \<Rightarrow> 'c sd_state" where
  "sd_spi_cs_high bus s = s\<lparr>sd_hw := bus_cs bus True (sd_hw s)\<rparr>"

definition sd_spi_cs_low :: "'c sd_bus \<Rightarrow> 'c sd_state \<Rightarrow> 'c sd_state" where
  "sd_spi_cs_low bus s = s\<lparr>sd_hw := bus_cs bus False (sd_hw s)\<rparr>"

definition sd_spi_config :: "'c sd_bus \<Rightarrow> u32 \<Rightarrow> 'c sd_state \<Rightarrow> 'c sd_state" where
  "sd_spi_config bus hz s = s\<lparr>sd_hw := bus_config bus hz (sd_hw s)\<rparr>"

definition sd_spi_xfer :: "'c sd_bus \<Rightarrow> u8 \<Rightarrow> 'c sd_state \<Rightarrow> u8 \<times> 'c sd_state" where
  "sd_spi_xfer bus b s = (case bus_xfer bus b (sd_hw s) of (r, c) \<Rightarrow> (r, s\<lparr>sd_hw := c\<rparr>))"

definition sd_spi_board_init :: "'c sd_bus \<Rightarrow> u32 \<Rightarrow> 'c sd_state \<Rightarrow> 'c sd_state" where
  "sd_spi_board_init bus init_hz s = sd_spi_config bus init_hz (sd_spi_cs_high bus s)"

definition fat32_card_reset_state :: "'c sd_state \<Rightarrow> 'c sd_state" where
  "fat32_card_reset_state s = s\<lparr>g_sd_present := False, g_sd_sdhc := False, g_fat_mounted := False\<rparr>"

section \<open>Commands\<close>

definition SD_INIT_CLK_HZ :: u32 where "SD_INIT_CLK_HZ = 400000"
definition SD_RUN_CLK_HZ :: u32 where "SD_RUN_CLK_HZ = 4000000"
definition SD_CMD_TIMEOUT :: nat where "SD_CMD_TIMEOUT = 200"
definition SD_READ_TIMEOUT :: nat where "SD_READ_TIMEOUT = 1200"
definition SD_READY_TIMEOUT :: nat where "SD_READY_TIMEOUT = 5000"
definition SD_WRITE_TIMEOUT :: nat where "SD_WRITE_TIMEOUT = 250000"

definition sd_deselect :: "'c sd_bus \<Rightarrow> 'c sd_state \<Rightarrow> 'c sd_state" where
  "sd_deselect bus s = snd (sd_spi_xfer bus 0xFF (sd_spi_cs_high bus s))"

fun sd_wait_ready :: "'c sd_bus \<Rightarrow> nat \<Rightarrow> 'c sd_state \<Rightarrow> bool \<times> 'c sd_state" where
  "sd_wait_ready bus 0 s = (False, s)"
| "sd_wait_ready bus (Suc timeout) s = (case sd_spi_xfer bus 0xFF s of
     (r, s') \<Rightarrow> if r = 0xFF then (True, s') else sd_wait_ready bus timeout s')"

text \<open>Bytes clocked out, the answers ignored; bytes clocked in.\<close>

fun send_bytes :: "'c sd_bus \<Rightarrow> u8 list \<Rightarrow> 'c sd_state \<Rightarrow> 'c sd_state" where
  "send_bytes bus [] s = s"
| "send_bytes bus (b # bs) s = send_bytes bus bs (snd (sd_spi_xfer bus b s))"

fun recv_bytes :: "'c sd_bus \<Rightarrow> nat \<Rightarrow> 'c sd_state \<Rightarrow> u8 list \<times> 'c sd_state" where
  "recv_bytes bus 0 s = ([], s)"
| "recv_bytes bus (Suc n) s = (case sd_spi_xfer bus 0xFF s of (r, s1) \<Rightarrow>
     case recv_bytes bus n s1 of (rs, s2) \<Rightarrow> (r # rs, s2))"

text \<open>Polling for a byte: until the first one that satisfies \<open>stop\<close>, \<open>n\<close> bytes at most; \<open>r\<close> is the last byte seen.\<close>

fun poll_byte :: "'c sd_bus \<Rightarrow> (u8 \<Rightarrow> bool) \<Rightarrow> nat \<Rightarrow> u8 \<Rightarrow> 'c sd_state \<Rightarrow> u8 \<times> 'c sd_state" where
  "poll_byte bus stop 0 r s = (r, s)"
| "poll_byte bus stop (Suc n) r s = (case sd_spi_xfer bus 0xFF s of
     (r', s') \<Rightarrow> if stop r' then (r', s') else poll_byte bus stop n r' s')"

text \<open>\<open>sd_command\<close>: the response byte, the extra bytes read (none when the card was not ready) and the new state.\<close>

definition sd_command :: "'c sd_bus \<Rightarrow> u8 \<Rightarrow> u32 \<Rightarrow> u8 \<Rightarrow> nat \<Rightarrow> bool \<Rightarrow> 'c sd_state \<Rightarrow> u8 \<times> u8 list option \<times> 'c sd_state" where
  "sd_command bus cmd arg crc extra_len release s = (
     let s1 = snd (sd_spi_xfer bus 0xFF (sd_spi_cs_low bus s))
     in case (if cmd \<noteq> 0 then sd_wait_ready bus SD_READY_TIMEOUT s1 else (True, s1)) of
          (False, s2) \<Rightarrow> (0xFF, None, if release then sd_deselect bus s2 else s2)
        | (True, s2) \<Rightarrow>
            let s3 = send_bytes bus [0x40 OR cmd, ucast (drop_bit 24 arg), ucast (drop_bit 16 arg), ucast (drop_bit 8 arg), ucast arg, crc] s2
            in case poll_byte bus (\<lambda>r. r AND 0x80 = 0) SD_CMD_TIMEOUT 0xFF s3 of
                 (r1, s4) \<Rightarrow> (case recv_bytes bus extra_len s4 of
                   (extra, s5) \<Rightarrow> (r1, Some extra, if release then sd_deselect bus s5 else s5)))"

definition block_address :: "'c sd_state \<Rightarrow> u32 \<Rightarrow> u32" where
  "block_address s lba = (if g_sd_sdhc s then lba else lba * SD_BLOCK_SIZE)"

definition sd_card_read_block :: "'c sd_bus \<Rightarrow> u32 \<Rightarrow> 'c sd_state \<Rightarrow> u8 list option \<times> 'c sd_state" where
  "sd_card_read_block bus lba s = (case sd_command bus 17 (block_address s lba) 0x01 0 False s of
     (r1, _, s1) \<Rightarrow>
       if r1 \<noteq> 0 then (None, sd_deselect bus s1)
       else case poll_byte bus (\<lambda>t. t = 0xFE) SD_READ_TIMEOUT 0xFF s1 of
         (token, s2) \<Rightarrow>
           if token = 0xFE then
             (case recv_bytes bus (unat SD_BLOCK_SIZE) s2 of
                (dst, s3) \<Rightarrow> (Some dst, sd_deselect bus (send_bytes bus [0xFF, 0xFF] s3)))
           else (None, sd_deselect bus s2))"

definition sd_write_block_checked :: "'c sd_bus \<Rightarrow> u32 \<Rightarrow> u8 list \<Rightarrow> bool \<Rightarrow> 'c sd_state \<Rightarrow> bool \<times> 'c sd_state" where
  "sd_write_block_checked bus lba src verify s = (case sd_command bus 24 (block_address s lba) 0x01 0 False s of
     (r1, _, s1) \<Rightarrow>
       if r1 \<noteq> 0 then (False, sd_deselect bus s1)
       else case poll_byte bus (\<lambda>r. r \<noteq> 0xFF) 64 0xFF
                  (send_bytes bus ([0xFF, 0xFE] @ take (unat SD_BLOCK_SIZE) src @ [0xFF, 0xFF]) s1) of
         (response, s2) \<Rightarrow>
           if response AND 0x1F \<noteq> 0x05 then (False, sd_deselect bus s2)
           else case sd_wait_ready bus SD_WRITE_TIMEOUT s2 of
             (False, s3) \<Rightarrow> (False, sd_deselect bus s3)
           | (True, s3) \<Rightarrow>
               if \<not> verify then (True, sd_deselect bus s3)
               else case sd_card_read_block bus lba (sd_deselect bus s3) of
                 (None, s4) \<Rightarrow> (False, s4)
               | (Some data, s4) \<Rightarrow> (take (unat SD_BLOCK_SIZE) src = data, s4\<lparr>g_sd_verify_sector := data\<rparr>))"

definition sd_card_write_block :: "'c sd_bus \<Rightarrow> u32 \<Rightarrow> u8 list \<Rightarrow> 'c sd_state \<Rightarrow> bool \<times> 'c sd_state" where
  "sd_card_write_block bus lba src s = sd_write_block_checked bus lba src True s"

definition sd_card_write_block_fast :: "'c sd_bus \<Rightarrow> u32 \<Rightarrow> u8 list \<Rightarrow> 'c sd_state \<Rightarrow> bool \<times> 'c sd_state" where
  "sd_card_write_block_fast bus lba src s = sd_write_block_checked bus lba src False s"

text \<open>The loop that waits for the card to leave its idle state (ACMD41), \<open>n\<close> attempts left.\<close>

fun leave_idle :: "'c sd_bus \<Rightarrow> bool \<Rightarrow> nat \<Rightarrow> u8 \<Rightarrow> 'c sd_state \<Rightarrow> u8 \<times> 'c sd_state" where
  "leave_idle bus v2_card 0 r1 s = (r1, s)"
| "leave_idle bus v2_card (Suc n) r1 s = (case sd_command bus 55 0 0x01 0 True s of
     (_, _, s1) \<Rightarrow> (case sd_command bus 41 (if v2_card then 0x40000000 else 0) 0x01 0 True s1 of
       (r, _, s2) \<Rightarrow> if r = 0 then (r, s2) else leave_idle bus v2_card n r (s2\<lparr>sd_hw := bus_sleep bus (sd_hw s2)\<rparr>)))"

definition sd_card_init :: "'c sd_bus \<Rightarrow> 'c sd_state \<Rightarrow> bool \<times> 'c sd_state" where
  "sd_card_init bus s = (
     let s0 = send_bytes bus (replicate 12 0xFF) (sd_spi_board_init bus SD_INIT_CLK_HZ (fat32_card_reset_state s))
     in case sd_command bus 0 0 0x95 0 True s0 of
       (r0, _, s1) \<Rightarrow>
         if r0 \<noteq> 0x01 then (False, s1)
         else case sd_command bus 8 0x000001AA 0x87 4 True s1 of
           (r8, r7, s2) \<Rightarrow>
             let v2_card = (r8 = 0x01 \<and> (case r7 of Some e \<Rightarrow> e ! 2 = 0x01 \<and> e ! 3 = 0xAA | None \<Rightarrow> False))
             in case leave_idle bus v2_card 1000 r8 s2 of
               (r41, s3) \<Rightarrow>
                 if r41 \<noteq> 0 then (False, s3)
                 else case sd_command bus 58 0 0x01 4 True s3 of
                   (r58, ocr, s4) \<Rightarrow>
                     let s5 = (if r58 = 0 \<and> (case ocr of Some e \<Rightarrow> e ! 0 AND 0x40 \<noteq> 0 | None \<Rightarrow> False) then s4\<lparr>g_sd_sdhc := True\<rparr> else s4);
                         s6 = (if g_sd_sdhc s5 then s5 else snd (snd (sd_command bus 16 SD_BLOCK_SIZE 0x01 0 True s5)))
                     in (True, (sd_spi_config bus SD_RUN_CLK_HZ s6)\<lparr>g_sd_present := True\<rparr>))"

definition sd_card_ops :: "'c sd_bus \<Rightarrow> 'c sd_state sd_ops" where
  "sd_card_ops bus = \<lparr>sd_read = sd_card_read_block bus, sd_write = sd_card_write_block bus\<rparr>"

section \<open>What the specification says of a card in SPI mode\<close>

text \<open>The phases of a selected card: waiting for a command, in the middle of one, about to answer it, sending extra
  response bytes, about to send and sending a block (with its two CRC bytes), waiting for and receiving a block,
  about to send the data response, programming.\<close>

datatype sd_phase = Sd_Ready | Sd_Frame "u8 list" | Sd_Response u8 u32 | Sd_Extra nat | Sd_Read nat | Sd_Data "u8 list"
  | Sd_Write nat | Sd_Receive nat "u8 list" | Sd_Answer | Sd_Busy

record sd_view =
  ph :: sd_phase
  sel :: bool
  blocks :: "nat \<Rightarrow> u8 list"
  cap :: nat
  hc :: bool

text \<open>High capacity cards count blocks, the others bytes.\<close>

definition block_number :: "sd_view \<Rightarrow> u32 \<Rightarrow> nat" where
  "block_number v arg = (if hc v then unat arg else unat arg div 512)"

definition block_exists :: "sd_view \<Rightarrow> u32 \<Rightarrow> bool" where
  "block_exists v arg \<longleftrightarrow> (hc v \<or> unat arg mod 512 = 0) \<and> block_number v arg < cap v"

text \<open>The commands the driver sends besides reading and writing a block; none of them touches the stored data.\<close>

definition harmless_command :: "u8 \<Rightarrow> bool" where
  "harmless_command cmd \<longleftrightarrow> cmd \<in> {0, 8, 16, 41, 55, 58}"

text \<open>\<open>sd_allows v b r v'\<close>: the selected card in state \<open>v\<close> may answer the byte \<open>b\<close> with \<open>r\<close> and be in \<open>v'\<close> then. A block
  that has been received may have been programmed, spoilt or ignored. In the second half of a transaction the host
  clocks with \<open>0xFF\<close>; a card that is sent something else then, or a command of another kind, may do anything.\<close>

inductive sd_allows :: "sd_view \<Rightarrow> u8 \<Rightarrow> u8 \<Rightarrow> sd_view \<Rightarrow> bool" where
  idle: "ph v = Sd_Ready \<Longrightarrow> b AND 0xC0 \<noteq> 0x40 \<Longrightarrow> sd_allows v b 0xFF v"
| start: "ph v = Sd_Ready \<Longrightarrow> b AND 0xC0 = 0x40 \<Longrightarrow> sd_allows v b r (v\<lparr>ph := Sd_Frame [b]\<rparr>)"
| frame: "ph v = Sd_Frame bs \<Longrightarrow> length bs < 5 \<Longrightarrow> sd_allows v b r (v\<lparr>ph := Sd_Frame (bs @ [b])\<rparr>)"
| complete: "ph v = Sd_Frame [c, a3, a2, a1, a0] \<Longrightarrow> sd_allows v b r (v\<lparr>ph := Sd_Response (c AND 0x3F) (rd32be [a3, a2, a1, a0] 0)\<rparr>)"
| late: "ph v = Sd_Response cmd arg \<Longrightarrow> r AND 0x80 \<noteq> 0 \<Longrightarrow> sd_allows v 0xFF r v"
| refuse: "ph v = Sd_Response cmd arg \<Longrightarrow> r AND 0x80 = 0 \<Longrightarrow> r \<noteq> 0 \<Longrightarrow> cmd = 17 \<or> cmd = 24 \<Longrightarrow> sd_allows v 0xFF r (v\<lparr>ph := Sd_Ready\<rparr>)"
| reading: "ph v = Sd_Response 17 arg \<Longrightarrow> block_exists v arg \<Longrightarrow> sd_allows v 0xFF 0 (v\<lparr>ph := Sd_Read (block_number v arg)\<rparr>)"
| writing: "ph v = Sd_Response 24 arg \<Longrightarrow> block_exists v arg \<Longrightarrow> sd_allows v 0xFF 0 (v\<lparr>ph := Sd_Write (block_number v arg)\<rparr>)"
| other: "ph v = Sd_Response cmd arg \<Longrightarrow> harmless_command cmd \<Longrightarrow> r AND 0x80 = 0 \<Longrightarrow> sd_allows v 0xFF r (v\<lparr>ph := Sd_Extra n\<rparr>)"
| extra: "ph v = Sd_Extra n \<Longrightarrow> sd_allows v 0xFF r (v\<lparr>ph := Sd_Extra m\<rparr>)"
| token_late: "ph v = Sd_Read l \<Longrightarrow> r \<noteq> 0xFE \<Longrightarrow> sd_allows v 0xFF r v"
| token_error: "ph v = Sd_Read l \<Longrightarrow> r \<noteq> 0xFE \<Longrightarrow> sd_allows v 0xFF r (v\<lparr>ph := Sd_Ready\<rparr>)"
| token: "ph v = Sd_Read l \<Longrightarrow> sd_allows v 0xFF 0xFE (v\<lparr>ph := Sd_Data (blocks v l @ [crc1, crc0])\<rparr>)"
| data: "ph v = Sd_Data (d # ds) \<Longrightarrow> sd_allows v 0xFF d (v\<lparr>ph := if ds = [] then Sd_Ready else Sd_Data ds\<rparr>)"
| no_token: "ph v = Sd_Write l \<Longrightarrow> b \<noteq> 0xFE \<Longrightarrow> sd_allows v b r v"
| data_token: "ph v = Sd_Write l \<Longrightarrow> sd_allows v 0xFE r (v\<lparr>ph := Sd_Receive l []\<rparr>)"
| receive: "ph v = Sd_Receive l ds \<Longrightarrow> length ds < 513 \<Longrightarrow> sd_allows v b r (v\<lparr>ph := Sd_Receive l (ds @ [b])\<rparr>)"
| received: "ph v = Sd_Receive l ds \<Longrightarrow> length ds = 513 \<Longrightarrow> length x = 512 \<Longrightarrow>
    sd_allows v b r (v\<lparr>ph := Sd_Answer, blocks := (blocks v)(l := x)\<rparr>)"
| answer_late: "ph v = Sd_Answer \<Longrightarrow> sd_allows v 0xFF 0xFF v"
| answer: "ph v = Sd_Answer \<Longrightarrow> r \<noteq> 0xFF \<Longrightarrow> sd_allows v 0xFF r (v\<lparr>ph := Sd_Busy\<rparr>)"
| busy: "ph v = Sd_Busy \<Longrightarrow> r \<noteq> 0xFF \<Longrightarrow> sd_allows v 0xFF r v"
| finished: "ph v = Sd_Busy \<Longrightarrow> sd_allows v 0xFF r (v\<lparr>ph := Sd_Ready\<rparr>)"
| unspecified_byte: "b \<noteq> 0xFF \<Longrightarrow> \<not> (case ph v of Sd_Ready \<Rightarrow> True | Sd_Frame _ \<Rightarrow> True | Sd_Write _ \<Rightarrow> True | Sd_Receive _ _ \<Rightarrow> True | _ \<Rightarrow> False) \<Longrightarrow>
    sd_allows v b r v'"
| unspecified_command: "ph v = Sd_Response cmd arg \<Longrightarrow> \<not> harmless_command cmd \<Longrightarrow> cmd \<noteq> 17 \<Longrightarrow> cmd \<noteq> 24 \<Longrightarrow> sd_allows v b r v'"

text \<open>Raising chip select ends whatever was going on, except the programming of a block; a card that is not selected
  may finish programming.\<close>

definition released :: "sd_phase \<Rightarrow> sd_phase" where
  "released p = (if p = Sd_Busy \<or> p = Sd_Answer then Sd_Busy else Sd_Ready)"

definition sd_passes :: "sd_view \<Rightarrow> sd_view \<Rightarrow> bool" where
  "sd_passes v v' \<longleftrightarrow> v' = v \<or> ph v = Sd_Busy \<and> v' = v\<lparr>ph := Sd_Ready\<rparr>"

locale sd_device =
  fixes bus :: "'c sd_bus" and view :: "'c \<Rightarrow> sd_view"
  assumes selected: "bus_xfer bus b c = (r, c') \<Longrightarrow> sel (view c) \<Longrightarrow> sd_allows (view c) b r (view c')"
    and deselected: "bus_xfer bus b c = (r, c') \<Longrightarrow> \<not> sel (view c) \<Longrightarrow> sd_passes (view c) (view c')"
    and raised: "view (bus_cs bus True c) = (view c)\<lparr>sel := False, ph := released (ph (view c))\<rparr>"
    and lowered: "view (bus_cs bus False c) = (view c)\<lparr>sel := True\<rparr>"
    and configured: "sd_passes (view c) (view (bus_config bus hz c))"
    and waited: "sd_passes (view c) (view (bus_sleep bus c))"

inductive_simps sd_allows_clocked: "sd_allows v 0xFF r v'"
inductive_cases sd_allowsE: "sd_allows v b r v'"

lemma allows_ready: "sd_allows v 0xFF r v' \<Longrightarrow> ph v = Sd_Ready \<Longrightarrow> r = 0xFF \<and> v' = v"
  by (auto simp: sd_allows_clocked)

lemma allows_busy: "sd_allows v 0xFF r v' \<Longrightarrow> ph v = Sd_Busy \<Longrightarrow> r \<noteq> 0xFF \<and> v' = v \<or> v' = v\<lparr>ph := Sd_Ready\<rparr>"
  by (auto simp: sd_allows_clocked)

lemma allows_start: "sd_allows v b r v' \<Longrightarrow> ph v = Sd_Ready \<Longrightarrow> b AND 0xC0 = 0x40 \<Longrightarrow> v' = v\<lparr>ph := Sd_Frame [b]\<rparr>"
  by (erule sd_allowsE) auto

lemma allows_frame: "sd_allows v b r v' \<Longrightarrow> ph v = Sd_Frame bs \<Longrightarrow> length bs < 5 \<Longrightarrow> v' = v\<lparr>ph := Sd_Frame (bs @ [b])\<rparr>"
  by (erule sd_allowsE) auto

lemma allows_complete: "sd_allows v b r v' \<Longrightarrow> ph v = Sd_Frame [c, a3, a2, a1, a0] \<Longrightarrow>
    v' = v\<lparr>ph := Sd_Response (c AND 0x3F) (rd32be [a3, a2, a1, a0] 0)\<rparr>"
  by (erule sd_allowsE) auto

lemma allows_response_read: "sd_allows v 0xFF r v' \<Longrightarrow> ph v = Sd_Response 17 arg \<Longrightarrow>
    r AND 0x80 \<noteq> 0 \<and> v' = v \<or> r AND 0x80 = 0 \<and> r \<noteq> 0 \<and> v' = v\<lparr>ph := Sd_Ready\<rparr> \<or>
    r = 0 \<and> block_exists v arg \<and> v' = v\<lparr>ph := Sd_Read (block_number v arg)\<rparr>"
  by (auto simp: sd_allows_clocked harmless_command_def)

lemma allows_response_write: "sd_allows v 0xFF r v' \<Longrightarrow> ph v = Sd_Response 24 arg \<Longrightarrow>
    r AND 0x80 \<noteq> 0 \<and> v' = v \<or> r AND 0x80 = 0 \<and> r \<noteq> 0 \<and> v' = v\<lparr>ph := Sd_Ready\<rparr> \<or>
    r = 0 \<and> block_exists v arg \<and> v' = v\<lparr>ph := Sd_Write (block_number v arg)\<rparr>"
  by (auto simp: sd_allows_clocked harmless_command_def)

lemma allows_response_other: "sd_allows v 0xFF r v' \<Longrightarrow> ph v = Sd_Response cmd arg \<Longrightarrow> harmless_command cmd \<Longrightarrow>
    r AND 0x80 \<noteq> 0 \<and> v' = v \<or> r AND 0x80 = 0 \<and> (\<exists>n. v' = v\<lparr>ph := Sd_Extra n\<rparr>)"
  by (auto simp: sd_allows_clocked harmless_command_def)

lemma allows_extra: "sd_allows v 0xFF r v' \<Longrightarrow> ph v = Sd_Extra n \<Longrightarrow> \<exists>m. v' = v\<lparr>ph := Sd_Extra m\<rparr>"
  by (auto simp: sd_allows_clocked)

lemma allows_read: "sd_allows v 0xFF r v' \<Longrightarrow> ph v = Sd_Read l \<Longrightarrow>
    r \<noteq> 0xFE \<and> (v' = v \<or> v' = v\<lparr>ph := Sd_Ready\<rparr>) \<or> r = 0xFE \<and> (\<exists>c1 c0. v' = v\<lparr>ph := Sd_Data (blocks v l @ [c1, c0])\<rparr>)"
  by (auto simp: sd_allows_clocked)

lemma allows_data: "sd_allows v 0xFF r v' \<Longrightarrow> ph v = Sd_Data (d # ds) \<Longrightarrow> r = d \<and> v' = v\<lparr>ph := if ds = [] then Sd_Ready else Sd_Data ds\<rparr>"
  by (auto simp: sd_allows_clocked)

lemma allows_no_token: "sd_allows v 0xFF r v' \<Longrightarrow> ph v = Sd_Write l \<Longrightarrow> v' = v"
  by (auto simp: sd_allows_clocked)

lemma allows_token: "sd_allows v 0xFE r v' \<Longrightarrow> ph v = Sd_Write l \<Longrightarrow> v' = v\<lparr>ph := Sd_Receive l []\<rparr>"
  by (erule sd_allowsE) auto

lemma allows_receive: "sd_allows v b r v' \<Longrightarrow> ph v = Sd_Receive l ds \<Longrightarrow> length ds < 513 \<Longrightarrow> v' = v\<lparr>ph := Sd_Receive l (ds @ [b])\<rparr>"
  by (erule sd_allowsE) auto

lemma allows_received: "sd_allows v b r v' \<Longrightarrow> ph v = Sd_Receive l ds \<Longrightarrow> length ds = 513 \<Longrightarrow>
    \<exists>x. length x = 512 \<and> v' = v\<lparr>ph := Sd_Answer, blocks := (blocks v)(l := x)\<rparr>"
  by (erule sd_allowsE) auto

lemma allows_answer: "sd_allows v 0xFF r v' \<Longrightarrow> ph v = Sd_Answer \<Longrightarrow> r = 0xFF \<and> v' = v \<or> r \<noteq> 0xFF \<and> v' = v\<lparr>ph := Sd_Busy\<rparr>"
  by (auto simp: sd_allows_clocked)

text \<open>The card as the file system sees it: the driver is at rest and addresses the card the way it wants to be addressed.\<close>

definition sd_usable :: "('c \<Rightarrow> sd_view) \<Rightarrow> 'c sd_state \<Rightarrow> bool" where
  "sd_usable view s \<longleftrightarrow> (let v = view (sd_hw s) in \<not> sel v \<and> (ph v = Sd_Ready \<or> ph v = Sd_Busy) \<and> g_sd_sdhc s = hc v \<and>
     cap v \<le> (if hc v then 2 ^ 32 else 2 ^ 23) \<and> (\<forall>l. length (blocks v l) = 512))"

definition sd_blk :: "('c \<Rightarrow> sd_view) \<Rightarrow> 'c sd_state \<Rightarrow> nat \<Rightarrow> u8 list" where
  "sd_blk view s = blocks (view (sd_hw s))"

definition sd_room :: "('c \<Rightarrow> sd_view) \<Rightarrow> 'c sd_state \<Rightarrow> nat" where
  "sd_room view s = cap (view (sd_hw s))"

section \<open>The driver on such a card\<close>

lemma send_bytes_append: "send_bytes bus (xs @ ys) s = send_bytes bus ys (send_bytes bus xs s)"
  by (induction bus xs s rule: send_bytes.induct) simp_all

lemma poll_byte_rule:
  "poll_byte bus stop n r0 s = (r, s') \<Longrightarrow> \<not> stop r0 \<Longrightarrow> I s \<Longrightarrow>
    (\<And>s r s'. I s \<Longrightarrow> sd_spi_xfer bus 0xFF s = (r, s') \<Longrightarrow> if stop r then Q r s' else I s') \<Longrightarrow>
    if stop r then Q r s' else I s'"
proof (induction bus stop n r0 s rule: poll_byte.induct)
  case (2 bus stop n r0 s)
  obtain r1 s1 where x: "sd_spi_xfer bus 0xFF s = (r1, s1)" by (metis prod.collapse)
  show ?case
  proof (cases "stop r1")
    case True
    then show ?thesis using 2(2) x 2(5) [OF 2(4) x] by auto
  next
    case False
    then have "I s1" using 2(5) [OF 2(4) x] by simp
    moreover have "poll_byte bus stop n r1 s1 = (r, s')" using 2(2) x False by simp
    ultimately show ?thesis using 2(1) [OF x [symmetric] False _ False] 2(5) by blast
  qed
qed simp

text \<open>Nothing but the hardware changes.\<close>

definition only_hw :: "'c sd_state \<Rightarrow> 'c sd_state \<Rightarrow> bool" where
  "only_hw s s' \<longleftrightarrow> g_sd_present s' = g_sd_present s \<and> g_sd_sdhc s' = g_sd_sdhc s \<and> g_sd_probe_silent s' = g_sd_probe_silent s \<and>
     g_fat_mounted s' = g_fat_mounted s \<and> g_sd_verify_sector s' = g_sd_verify_sector s"

lemma only_hw_refl [simp]: "only_hw s s"
  by (simp add: only_hw_def)

lemma only_hw_upd [simp]: "only_hw s (s\<lparr>sd_hw := c\<rparr>)"
  by (simp add: only_hw_def)

lemma only_hw_trans: "only_hw s s1 \<Longrightarrow> only_hw s1 s2 \<Longrightarrow> only_hw s s2"
  by (simp add: only_hw_def)

lemma only_hw_sdhc: "only_hw s s' \<Longrightarrow> g_sd_sdhc s' = g_sd_sdhc s"
  by (simp add: only_hw_def)

text \<open>Whatever the card answers: the driver changes its flags in \<open>sd_card_init\<close> only.\<close>

lemma only_hw_xfer: "only_hw s (snd (sd_spi_xfer bus b s))"
  by (simp add: sd_spi_xfer_def split: prod.split)

lemma only_hw_cs: "only_hw s (sd_spi_cs_low bus s)" "only_hw s (sd_spi_cs_high bus s)" "only_hw s (sd_spi_config bus hz s)"
  by (simp_all add: sd_spi_cs_low_def sd_spi_cs_high_def sd_spi_config_def)

lemma only_hw_deselect: "only_hw s (sd_deselect bus s)"
  using only_hw_trans [OF only_hw_cs(2) only_hw_xfer] by (simp add: sd_deselect_def)

lemma only_hw_wait: "only_hw s (snd (sd_wait_ready bus n s))"
proof (induction n arbitrary: s)
  case (Suc n)
  obtain r s1 where x: "sd_spi_xfer bus 0xFF s = (r, s1)" by (metis prod.collapse)
  then have k: "only_hw s s1" using only_hw_xfer [of s bus "0xFF"] by simp
  show ?case using only_hw_trans [OF k Suc.IH] k by (simp add: x)
qed simp

lemma only_hw_send: "only_hw s (send_bytes bus bs s)"
proof (induction bs arbitrary: s)
  case (Cons b bs)
  show ?case using only_hw_trans [OF only_hw_xfer [of s bus b] Cons.IH] by simp
qed simp

lemma only_hw_recv: "only_hw s (snd (recv_bytes bus n s))"
proof (induction n arbitrary: s)
  case (Suc n)
  show ?case using only_hw_xfer [of s bus "0xFF"] only_hw_trans [OF _ Suc.IH] by (simp split: prod.split) (metis snd_conv)
qed simp

lemma only_hw_poll: "only_hw s (snd (poll_byte bus stop n r s))"
proof (induction n arbitrary: r s)
  case (Suc n)
  obtain r s1 where x: "sd_spi_xfer bus 0xFF s = (r, s1)" by (metis prod.collapse)
  then have k: "only_hw s s1" using only_hw_xfer [of s bus "0xFF"] by simp
  show ?case using only_hw_trans [OF k Suc.IH] k by (simp add: x)
qed simp

lemma only_hw_command: "only_hw s (snd (snd (sd_command bus cmd arg crc n release s)))"
proof -
  define s1 where "s1 = snd (sd_spi_xfer bus 0xFF (sd_spi_cs_low bus s))"
  obtain ok s2 where w: "(if cmd \<noteq> 0 then sd_wait_ready bus SD_READY_TIMEOUT s1 else (True, s1)) = (ok, s2)" by (metis prod.collapse)
  obtain r s4 where p: "poll_byte bus (\<lambda>r. r AND 0x80 = 0) SD_CMD_TIMEOUT 0xFF
     (send_bytes bus [0x40 OR cmd, ucast (drop_bit 24 arg), ucast (drop_bit 16 arg), ucast (drop_bit 8 arg), ucast arg, crc] s2) = (r, s4)" by (metis prod.collapse)
  obtain e s5 where x: "recv_bytes bus n s4 = (e, s5)" by (metis prod.collapse)
  have "only_hw s s1" unfolding s1_def by (rule only_hw_trans [OF only_hw_cs(1) only_hw_xfer])
  moreover have "only_hw s1 s2" using w only_hw_wait [of s1 bus SD_READY_TIMEOUT] by (auto split: if_splits)
  moreover have "only_hw s2 s4" using only_hw_trans [OF only_hw_send only_hw_poll] p by (metis snd_conv)
  moreover have "only_hw s4 s5" using only_hw_recv [of s4 bus n] x by simp
  ultimately have k: "only_hw s s2" "only_hw s s5" by (blast intro: only_hw_trans)+
  show ?thesis using k only_hw_trans [OF k(1) only_hw_deselect] only_hw_trans [OF k(2) only_hw_deselect]
    by (simp add: sd_command_def Let_def s1_def [symmetric] w p x del: send_bytes.simps split: bool.split)
qed

lemma only_hw_read: "only_hw s (snd (sd_card_read_block bus lba s))"
proof -
  obtain r1 e s1 where c: "sd_command bus 17 (block_address s lba) 0x01 0 False s = (r1, e, s1)" by (metis prod_cases3)
  obtain t s2 where p: "poll_byte bus (\<lambda>t. t = 0xFE) SD_READ_TIMEOUT 0xFF s1 = (t, s2)" by (metis prod.collapse)
  obtain d s3 where x: "recv_bytes bus (unat SD_BLOCK_SIZE) s2 = (d, s3)" by (metis prod.collapse)
  have k: "only_hw s s1" "only_hw s1 s2" "only_hw s2 (send_bytes bus [0xFF, 0xFF] s3)"
    using only_hw_command [of s bus 17 "block_address s lba" "0x01" 0 False] c only_hw_poll [of s1 bus "\<lambda>t. t = 0xFE" SD_READ_TIMEOUT "0xFF"] p
      only_hw_recv [of s2 bus "unat SD_BLOCK_SIZE"] x only_hw_trans [OF _ only_hw_send] by (simp_all del: send_bytes.simps)
  have "only_hw s s2" "only_hw s (send_bytes bus [0xFF, 0xFF] s3)" using k by (blast intro: only_hw_trans)+
  then show ?thesis using only_hw_trans [OF k(1) only_hw_deselect] only_hw_trans [OF \<open>only_hw s s2\<close> only_hw_deselect]
      only_hw_trans [OF \<open>only_hw s (send_bytes bus [0xFF, 0xFF] s3)\<close> only_hw_deselect]
    by (simp add: sd_card_read_block_def c p x del: send_bytes.simps)
qed

lemma only_hw_leave: "only_hw s (snd (leave_idle bus v2 n r s))"
proof (induction n arbitrary: r s)
  case (Suc n)
  obtain a e s1 where c: "sd_command bus 55 0 0x01 0 True s = (a, e, s1)" by (metis prod_cases3)
  obtain r' e' s2 where d: "sd_command bus 41 (if v2 then 0x40000000 else 0) 0x01 0 True s1 = (r', e', s2)" by (metis prod_cases3)
  have "only_hw s s1" "only_hw s1 s2"
    using only_hw_command [of s bus 55 0 "0x01" 0 True] c only_hw_command [of s1 bus 41 _ "0x01" 0 True] d by (simp, metis snd_conv)
  then have k: "only_hw s s2" by (rule only_hw_trans)
  show ?case using k only_hw_trans [OF only_hw_trans [OF k only_hw_upd] Suc.IH] by (simp add: c d)
qed simp

context sd_device
begin

abbreviation cardv :: "'c sd_state \<Rightarrow> sd_view" where "cardv s \<equiv> view (sd_hw s)"

lemma xfer_only [simp]: "sd_spi_xfer bus b s = (r, s') \<Longrightarrow> only_hw s s'"
  by (auto simp: sd_spi_xfer_def split: prod.splits)

lemma xfer_selected: "sd_spi_xfer bus b s = (r, s') \<Longrightarrow> sel (cardv s) \<Longrightarrow> sd_allows (cardv s) b r (cardv s') \<and> only_hw s s'"
  by (auto simp: sd_spi_xfer_def selected split: prod.splits)

lemma xfer_deselected: "sd_spi_xfer bus b s = (r, s') \<Longrightarrow> \<not> sel (cardv s) \<Longrightarrow> sd_passes (cardv s) (cardv s') \<and> only_hw s s'"
  by (auto simp: sd_spi_xfer_def deselected split: prod.splits)

text \<open>A card at rest is not selected, and at most programming.\<close>

definition rest :: "sd_phase \<Rightarrow> bool" where
  "rest p \<longleftrightarrow> p = Sd_Ready \<or> p = Sd_Busy"

lemma deselect_spec:
  "only_hw s (sd_deselect bus s) \<and> (\<exists>p. cardv (sd_deselect bus s) = (cardv s)\<lparr>sel := False, ph := p\<rparr> \<and> rest p \<and>
    (ph (cardv s) \<noteq> Sd_Busy \<longrightarrow> ph (cardv s) \<noteq> Sd_Answer \<longrightarrow> p = Sd_Ready))"
proof -
  let ?h = "sd_spi_cs_high bus s"
  obtain r s' where x: "sd_spi_xfer bus 0xFF ?h = (r, s')" by (metis prod.collapse)
  have h: "cardv ?h = (cardv s)\<lparr>sel := False, ph := released (ph (cardv s))\<rparr>" "only_hw s ?h" by (simp_all add: sd_spi_cs_high_def raised)
  from xfer_deselected [OF x] h have "sd_passes (cardv ?h) (cardv s')" "only_hw s s'" by (auto intro: only_hw_trans)
  then show ?thesis using h x by (auto simp: sd_deselect_def sd_passes_def released_def rest_def)
qed

lemma wait_ready_spec:
  "sd_wait_ready bus n s = (ok, s') \<Longrightarrow> sel (cardv s) \<Longrightarrow> rest (ph (cardv s)) \<Longrightarrow>
    only_hw s s' \<and> (\<exists>p. cardv s' = (cardv s)\<lparr>ph := p\<rparr> \<and> rest p \<and> (ok \<longrightarrow> p = Sd_Ready))"
proof (induction n arbitrary: s)
  case 0
  then show ?case by (auto intro!: exI [of _ "ph (cardv s)"])
next
  case (Suc n)
  obtain r s1 where x: "sd_spi_xfer bus 0xFF s = (r, s1)" by (metis prod.collapse)
  from xfer_selected [OF x Suc.prems(2)] have a: "sd_allows (cardv s) 0xFF r (cardv s1)" "only_hw s s1" by auto
  have p: "\<exists>p. cardv s1 = (cardv s)\<lparr>ph := p\<rparr> \<and> rest p \<and> (r = 0xFF \<longrightarrow> p = Sd_Ready)"
  proof (cases "ph (cardv s) = Sd_Ready")
    case True
    then show ?thesis using allows_ready [OF a(1)] by (auto simp: rest_def intro!: exI [of _ Sd_Ready])
  next
    case False
    then have b: "ph (cardv s) = Sd_Busy" using Suc.prems(3) by (simp add: rest_def)
    from allows_busy [OF a(1) b] show ?thesis
    proof
      assume "r \<noteq> 0xFF \<and> cardv s1 = cardv s"
      then show ?thesis using b by (intro exI [of _ Sd_Busy]) (simp add: rest_def)
    next
      assume "cardv s1 = (cardv s)\<lparr>ph := Sd_Ready\<rparr>"
      then show ?thesis by (intro exI [of _ Sd_Ready]) (simp add: rest_def)
    qed
  qed
  show ?case
  proof (cases "r = 0xFF")
    case True
    then have "ok = True" "s' = s1" using Suc.prems(1) x by auto
    then show ?thesis using p a(2) True by auto
  next
    case False
    then have "sd_wait_ready bus n s1 = (ok, s')" using Suc.prems(1) x by simp
    moreover obtain p where "cardv s1 = (cardv s)\<lparr>ph := p\<rparr>" "rest p" using p by blast
    ultimately show ?thesis using Suc.IH [of s1] Suc.prems(2) a(2) by (auto intro: only_hw_trans)
  qed
qed

text \<open>The six bytes of a command put a ready card into the state of having to answer it.\<close>

lemma send_one: "sel (cardv s) \<Longrightarrow> sd_allows (cardv s) b (fst (sd_spi_xfer bus b s)) (cardv (snd (sd_spi_xfer bus b s))) \<and>
    only_hw s (snd (sd_spi_xfer bus b s))"
  using xfer_selected [of b s] by (metis prod.collapse)

lemma send_frame_spec:
  assumes "sel (cardv s)" and "ph (cardv s) = Sd_Ready" and "c AND 0xC0 = 0x40"
  shows "cardv (send_bytes bus [c, a3, a2, a1, a0, crc] s) = (cardv s)\<lparr>ph := Sd_Response (c AND 0x3F) (rd32be [a3, a2, a1, a0] 0)\<rparr> \<and>
    only_hw s (send_bytes bus [c, a3, a2, a1, a0, crc] s)"
proof -
  define s1 where "s1 = snd (sd_spi_xfer bus c s)"
  define s2 where "s2 = snd (sd_spi_xfer bus a3 s1)"
  define s3 where "s3 = snd (sd_spi_xfer bus a2 s2)"
  define s4 where "s4 = snd (sd_spi_xfer bus a1 s3)"
  define s5 where "s5 = snd (sd_spi_xfer bus a0 s4)"
  define s6 where "s6 = snd (sd_spi_xfer bus crc s5)"
  have c1: "cardv s1 = (cardv s)\<lparr>ph := Sd_Frame [c]\<rparr>" "only_hw s s1"
    using send_one [OF assms(1), of c] allows_start [OF _ assms(2,3)] by (auto simp: s1_def)
  have c2: "cardv s2 = (cardv s)\<lparr>ph := Sd_Frame [c, a3]\<rparr>" "only_hw s1 s2"
    using send_one [of s1 a3] allows_frame [of "cardv s1" a3 _ "cardv s2" "[c]"] c1 assms(1) by (auto simp: s2_def)
  have c3: "cardv s3 = (cardv s)\<lparr>ph := Sd_Frame [c, a3, a2]\<rparr>" "only_hw s2 s3"
    using send_one [of s2 a2] allows_frame [of "cardv s2" a2 _ "cardv s3" "[c, a3]"] c2 assms(1) by (auto simp: s3_def)
  have c4: "cardv s4 = (cardv s)\<lparr>ph := Sd_Frame [c, a3, a2, a1]\<rparr>" "only_hw s3 s4"
    using send_one [of s3 a1] allows_frame [of "cardv s3" a1 _ "cardv s4" "[c, a3, a2]"] c3 assms(1) by (auto simp: s4_def)
  have c5: "cardv s5 = (cardv s)\<lparr>ph := Sd_Frame [c, a3, a2, a1, a0]\<rparr>" "only_hw s4 s5"
    using send_one [of s4 a0] allows_frame [of "cardv s4" a0 _ "cardv s5" "[c, a3, a2, a1]"] c4 assms(1) by (auto simp: s5_def)
  have c6: "cardv s6 = (cardv s)\<lparr>ph := Sd_Response (c AND 0x3F) (rd32be [a3, a2, a1, a0] 0)\<rparr>" "only_hw s5 s6"
    using send_one [of s5 crc] allows_complete [of "cardv s5" crc _ "cardv s6" c a3 a2 a1 a0] c5 assms(1) by (auto simp: s6_def)
  have "send_bytes bus [c, a3, a2, a1, a0, crc] s = s6" by (simp add: s1_def s2_def s3_def s4_def s5_def s6_def)
  moreover have "only_hw s s6" using c1(2) c2(2) c3(2) c4(2) c5(2) c6(2) by (blast intro: only_hw_trans)
  ultimately show ?thesis using c6(1) by simp
qed

lemma rd32be_split: "rd32be [ucast (drop_bit 24 a), ucast (drop_bit 16 a), ucast (drop_bit 8 a), ucast a] 0 = a"
  using word_split_u32 [of a] by (simp add: rd32be_def ac_simps)

text \<open>A card at rest that is selected and ready, or still programming.\<close>

lemma select_spec:
  assumes "\<not> sel (cardv s)" and "rest (ph (cardv s))"
    and "(if cmd \<noteq> 0 then sd_wait_ready bus n (snd (sd_spi_xfer bus 0xFF (sd_spi_cs_low bus s))) else (True, snd (sd_spi_xfer bus 0xFF (sd_spi_cs_low bus s)))) = (ok, s')"
  shows "only_hw s s' \<and> (\<exists>p. cardv s' = (cardv s)\<lparr>sel := True, ph := p\<rparr> \<and> rest p \<and> (ok \<longrightarrow> cmd \<noteq> 0 \<or> ph (cardv s) = Sd_Ready \<longrightarrow> p = Sd_Ready))"
proof -
  let ?l = "sd_spi_cs_low bus s"
  obtain r s1 where x: "sd_spi_xfer bus 0xFF ?l = (r, s1)" by (metis prod.collapse)
  have l: "cardv ?l = (cardv s)\<lparr>sel := True\<rparr>" "only_hw s ?l" by (simp_all add: sd_spi_cs_low_def lowered)
  have a: "sd_allows (cardv ?l) 0xFF r (cardv s1)" "only_hw s s1" using xfer_selected [OF x] l by (auto intro: only_hw_trans)
  have p: "\<exists>p. cardv s1 = (cardv s)\<lparr>sel := True, ph := p\<rparr> \<and> rest p \<and> (ph (cardv s) = Sd_Ready \<longrightarrow> p = Sd_Ready)"
  proof (cases "ph (cardv s) = Sd_Ready")
    case True
    then show ?thesis using allows_ready [OF a(1)] l by (auto simp: rest_def intro!: exI [of _ Sd_Ready])
  next
    case False
    then have "ph (cardv ?l) = Sd_Busy" using assms(2) l by (simp add: rest_def)
    from allows_busy [OF a(1) this] show ?thesis
    proof
      assume "r \<noteq> 0xFF \<and> cardv s1 = cardv ?l"
      then show ?thesis using False l assms(2) by (intro exI [of _ Sd_Busy]) (auto simp: rest_def)
    next
      assume "cardv s1 = (cardv ?l)\<lparr>ph := Sd_Ready\<rparr>"
      then show ?thesis using l by (intro exI [of _ Sd_Ready]) (simp add: rest_def)
    qed
  qed
  then obtain p where p: "cardv s1 = (cardv s)\<lparr>sel := True, ph := p\<rparr>" "rest p" "ph (cardv s) = Sd_Ready \<longrightarrow> p = Sd_Ready" by blast
  show ?thesis
  proof (cases "cmd = 0")
    case True
    then show ?thesis using assms(3) x p a(2) by auto
  next
    case False
    then have "sd_wait_ready bus n s1 = (ok, s')" using assms(3) x by simp
    from wait_ready_spec [OF this] p show ?thesis using a(2) False by (auto intro: only_hw_trans)
  qed
qed

text \<open>A command up to the point where its answer is polled for.\<close>

lemma command_cases:
  assumes run: "sd_command bus cmd arg crc n release s = (r1, ex, s')" and at_rest: "\<not> sel (cardv s)" "rest (ph (cardv s))"
    and cmd: "(0x40 OR cmd) AND 0xC0 = 0x40" "(0x40 OR cmd) AND 0x3F = cmd" "cmd \<noteq> 0 \<or> ph (cardv s) = Sd_Ready"
  shows "(\<exists>s2 p. r1 = 0xFF \<and> ex = None \<and> s' = (if release then sd_deselect bus s2 else s2) \<and> only_hw s s2 \<and>
            cardv s2 = (cardv s)\<lparr>sel := True, ph := p\<rparr> \<and> rest p) \<or>
    (\<exists>s3 s4. only_hw s s3 \<and> cardv s3 = (cardv s)\<lparr>sel := True, ph := Sd_Response cmd arg\<rparr> \<and>
       poll_byte bus (\<lambda>r. r AND 0x80 = 0) SD_CMD_TIMEOUT 0xFF s3 = (r1, s4) \<and> ex = Some (fst (recv_bytes bus n s4)) \<and>
       s' = (if release then sd_deselect bus (snd (recv_bytes bus n s4)) else snd (recv_bytes bus n s4)))"
proof -
  obtain ok s2 where w: "(if cmd \<noteq> 0 then sd_wait_ready bus SD_READY_TIMEOUT (snd (sd_spi_xfer bus 0xFF (sd_spi_cs_low bus s)))
     else (True, snd (sd_spi_xfer bus 0xFF (sd_spi_cs_low bus s)))) = (ok, s2)" by (metis prod.collapse)
  from select_spec [OF at_rest w] obtain p where p: "only_hw s s2" "cardv s2 = (cardv s)\<lparr>sel := True, ph := p\<rparr>" "rest p" "ok \<longrightarrow> p = Sd_Ready"
    using cmd(3) by blast
  show ?thesis
  proof (cases ok)
    case False
    then have "r1 = 0xFF \<and> ex = None \<and> s' = (if release then sd_deselect bus s2 else s2)"
      using run w by (simp add: sd_command_def Let_def)
    then show ?thesis using p by blast
  next
    case True
    let ?f = "[0x40 OR cmd, ucast (drop_bit 24 arg), ucast (drop_bit 16 arg), ucast (drop_bit 8 arg), ucast arg, crc]"
    let ?s3 = "send_bytes bus ?f s2"
    have "sel (cardv s2)" "ph (cardv s2) = Sd_Ready" using p True by simp_all
    from send_frame_spec [OF this cmd(1)] have f: "cardv ?s3 = (cardv s)\<lparr>sel := True, ph := Sd_Response cmd arg\<rparr>" "only_hw s ?s3"
      using p(1,2) by (auto simp only: cmd(2) rd32be_split intro: only_hw_trans) simp
    obtain r s4 where r: "poll_byte bus (\<lambda>r. r AND 0x80 = 0) SD_CMD_TIMEOUT 0xFF ?s3 = (r, s4)" by (metis prod.collapse)
    obtain e s5 where e: "recv_bytes bus n s4 = (e, s5)" by (metis prod.collapse)
    have "r1 = r \<and> ex = Some e \<and> s' = (if release then sd_deselect bus s5 else s5)"
      using run w True r e by (simp add: sd_command_def Let_def)
    then show ?thesis using f r e by fastforce
  qed
qed

text \<open>Reading and writing a block start alike: the card accepts the command, or it will be at rest once it is deselected.\<close>

lemma block_command:
  assumes run: "sd_command bus cmd arg crc 0 False s = (r1, ex, s')" and at_rest: "\<not> sel (cardv s)" "rest (ph (cardv s))"
    and cmd: "cmd = 17 \<and> next = Sd_Read (block_number (cardv s) arg) \<or> cmd = 24 \<and> next = Sd_Write (block_number (cardv s) arg)"
  shows "only_hw s s' \<and> (\<exists>p. cardv s' = (cardv s)\<lparr>sel := True, ph := p\<rparr> \<and> p \<noteq> Sd_Answer \<and>
    (r1 = 0 \<longrightarrow> p = next \<and> block_exists (cardv s) arg))"
proof -
  have c: "(0x40 OR cmd) AND 0xC0 = 0x40" "(0x40 OR cmd) AND 0x3F = cmd" "cmd \<noteq> 0 \<or> ph (cardv s) = Sd_Ready" using cmd by auto
  from command_cases [OF run at_rest c] show ?thesis
  proof (elim disjE exE conjE)
    fix s2 p
    assume "r1 = 0xFF" "s' = (if False then sd_deselect bus s2 else s2)" "only_hw s s2" "cardv s2 = (cardv s)\<lparr>sel := True, ph := p\<rparr>" "rest p"
    then show ?thesis by (auto simp: rest_def)
  next
    fix s3 s4
    assume a: "only_hw s s3" "cardv s3 = (cardv s)\<lparr>sel := True, ph := Sd_Response cmd arg\<rparr>"
      "poll_byte bus (\<lambda>r. r AND 0x80 = 0) SD_CMD_TIMEOUT 0xFF s3 = (r1, s4)"
      "s' = (if False then sd_deselect bus (snd (recv_bytes bus 0 s4)) else snd (recv_bytes bus 0 s4))"
    let ?I = "\<lambda>t. only_hw s t \<and> cardv t = (cardv s)\<lparr>sel := True, ph := Sd_Response cmd arg\<rparr>"
    let ?Q = "\<lambda>r t. only_hw s t \<and> (r = 0 \<and> block_exists (cardv s) arg \<and> cardv t = (cardv s)\<lparr>sel := True, ph := next\<rparr> \<or>
       r \<noteq> 0 \<and> cardv t = (cardv s)\<lparr>sel := True, ph := Sd_Ready\<rparr>)"
    have "if r1 AND 0x80 = 0 then ?Q r1 s4 else ?I s4"
    proof (rule poll_byte_rule [where I = ?I and stop = "\<lambda>r. r AND 0x80 = 0" and Q = ?Q, OF a(3)])
      fix t r t'
      assume i: "?I t" and x: "sd_spi_xfer bus 0xFF t = (r, t')"
      have al: "sd_allows (cardv t) 0xFF r (cardv t')" "only_hw s t'" using xfer_selected [OF x] i by (auto intro: only_hw_trans)
      have "ph (cardv t) = Sd_Response cmd arg" using i by simp
      then have "r AND 0x80 \<noteq> 0 \<and> cardv t' = cardv t \<or> r AND 0x80 = 0 \<and> r \<noteq> 0 \<and> cardv t' = (cardv t)\<lparr>ph := Sd_Ready\<rparr> \<or>
          r = 0 \<and> block_exists (cardv t) arg \<and> cardv t' = (cardv t)\<lparr>ph := next\<rparr>"
        using cmd allows_response_read [OF al(1)] allows_response_write [OF al(1)] i by (auto simp: block_number_def)
      then show "if r AND 0x80 = 0 then ?Q r t' else ?I t'" using i al(2) by (auto simp: block_exists_def block_number_def)
    qed (use a in simp_all)
    then show ?thesis using a(4) cmd by (auto split: if_splits)
  qed
qed

text \<open>Reading a block.\<close>

lemma recv_data: "ph (cardv s) = Sd_Data ds \<Longrightarrow> sel (cardv s) \<Longrightarrow> n < length ds \<Longrightarrow>
    fst (recv_bytes bus n s) = take n ds \<and> only_hw s (snd (recv_bytes bus n s)) \<and>
    cardv (snd (recv_bytes bus n s)) = (cardv s)\<lparr>ph := Sd_Data (drop n ds)\<rparr>"
proof (induction n arbitrary: s ds)
  case (Suc n)
  obtain d e ds' where ds: "ds = d # e # ds'" using Suc.prems(3) by (cases ds; cases "tl ds") auto
  obtain r s1 where x: "sd_spi_xfer bus 0xFF s = (r, s1)" by (metis prod.collapse)
  have a: "sd_allows (cardv s) 0xFF r (cardv s1)" "only_hw s s1" using xfer_selected [OF x Suc.prems(2)] by auto
  have d: "r = d" "cardv s1 = (cardv s)\<lparr>ph := Sd_Data (e # ds')\<rparr>" using allows_data [OF a(1), of d "e # ds'"] Suc.prems(1) ds by auto
  have "n < length (e # ds')" using Suc.prems(3) ds by simp
  from Suc.IH [of s1 "e # ds'", OF _ _ this] d Suc.prems(2) have
    "fst (recv_bytes bus n s1) = take n (e # ds')" "only_hw s1 (snd (recv_bytes bus n s1))"
    "cardv (snd (recv_bytes bus n s1)) = (cardv s)\<lparr>ph := Sd_Data (drop n (e # ds'))\<rparr>" by simp_all
  moreover from this(2) have "only_hw s (snd (recv_bytes bus n s1))" by (rule only_hw_trans [OF a(2)])
  ultimately show ?case using x d(1) ds by (auto simp: case_prod_beta)
qed simp

lemma send_filler: "ph (cardv s) = Sd_Data [c1, c0] \<Longrightarrow> sel (cardv s) \<Longrightarrow>
    only_hw s (send_bytes bus [0xFF, 0xFF] s) \<and> cardv (send_bytes bus [0xFF, 0xFF] s) = (cardv s)\<lparr>ph := Sd_Ready\<rparr>"
proof -
  assume p: "ph (cardv s) = Sd_Data [c1, c0]" "sel (cardv s)"
  define s1 where "s1 = snd (sd_spi_xfer bus 0xFF s)"
  define s2 where "s2 = snd (sd_spi_xfer bus 0xFF s1)"
  have a: "cardv s1 = (cardv s)\<lparr>ph := Sd_Data [c0]\<rparr>" "only_hw s s1"
    using send_one [OF p(2), of "0xFF"] allows_data [OF _ p(1)] by (auto simp: s1_def)
  have "cardv s2 = (cardv s)\<lparr>ph := Sd_Ready\<rparr>" "only_hw s1 s2"
    using send_one [of s1 "0xFF"] allows_data [of "cardv s1" _ "cardv s2" c0 "[]"] a p(2) by (auto simp: s2_def)
  moreover have "send_bytes bus [0xFF, 0xFF] s = s2" by (simp add: s1_def s2_def)
  ultimately show ?thesis using a(2) by (auto intro: only_hw_trans)
qed

definition settled :: "sd_view \<Rightarrow> sd_view \<Rightarrow> bool" where
  "settled v v' \<longleftrightarrow> (\<exists>p. v' = v\<lparr>sel := False, ph := p\<rparr> \<and> rest p)"

lemma settled_deselect:
  assumes "cardv s1 = (cardv s)\<lparr>sel := True, ph := p\<rparr>" and "only_hw s s1"
  shows "only_hw s (sd_deselect bus s1) \<and> settled (cardv s) (cardv (sd_deselect bus s1))"
  using deselect_spec [of s1] assms by (auto simp: settled_def intro: only_hw_trans)

lemma read_block_spec:
  assumes run: "sd_card_read_block bus lba s = (r, s')" and at_rest: "\<not> sel (cardv s)" "rest (ph (cardv s))"
    and len: "\<And>l. length (blocks (cardv s) l) = 512"
  shows "only_hw s s' \<and> settled (cardv s) (cardv s') \<and>
    (\<forall>d. r = Some d \<longrightarrow> d = blocks (cardv s) (block_number (cardv s) (block_address s lba)))"
proof -
  let ?l = "block_number (cardv s) (block_address s lba)"
  obtain r1 ex s1 where c: "sd_command bus 17 (block_address s lba) 0x01 0 False s = (r1, ex, s1)" by (metis prod_cases3)
  from block_command [OF c at_rest, of "Sd_Read ?l"] obtain p where p: "only_hw s s1" "cardv s1 = (cardv s)\<lparr>sel := True, ph := p\<rparr>"
    "r1 = 0 \<longrightarrow> p = Sd_Read ?l" by auto
  show ?thesis
  proof (cases "r1 = 0")
    case False
    then have "r = None" "s' = sd_deselect bus s1" using run c by (auto simp: sd_card_read_block_def)
    then show ?thesis using settled_deselect [OF p(2,1)] by simp
  next
    case True
    obtain t s2 where t: "poll_byte bus (\<lambda>t. t = 0xFE) SD_READ_TIMEOUT 0xFF s1 = (t, s2)" by (metis prod.collapse)
    let ?I = "\<lambda>x. only_hw s x \<and> (\<exists>q. cardv x = (cardv s)\<lparr>sel := True, ph := q\<rparr> \<and> (q = Sd_Read ?l \<or> q = Sd_Ready))"
    let ?Q = "\<lambda>r x. only_hw s x \<and> (\<exists>c1 c0. cardv x = (cardv s)\<lparr>sel := True, ph := Sd_Data (blocks (cardv s) ?l @ [c1, c0])\<rparr>)"
    have "if t = 0xFE then ?Q t s2 else ?I s2"
    proof (rule poll_byte_rule [where I = ?I and stop = "\<lambda>t. t = 0xFE" and Q = ?Q, OF t])
      fix x r x'
      assume i: "?I x" and e: "sd_spi_xfer bus 0xFF x = (r, x')"
      then obtain q where q: "cardv x = (cardv s)\<lparr>sel := True, ph := q\<rparr>" "q = Sd_Read ?l \<or> q = Sd_Ready" by blast
      have al: "sd_allows (cardv x) 0xFF r (cardv x')" "only_hw s x'" using xfer_selected [OF e] i q by (auto intro: only_hw_trans)
      show "if r = 0xFE then ?Q r x' else ?I x'"
        using q(2)
      proof
        assume "q = Sd_Read ?l"
        then show ?thesis using allows_read [OF al(1), of ?l] q(1) al(2) by auto
      next
        assume "q = Sd_Ready"
        then show ?thesis using allows_ready [OF al(1)] q(1) al(2) by auto
      qed
    qed (use p True in auto)
    then show ?thesis
    proof (cases "t = 0xFE")
      case False
      then have "r = None" "s' = sd_deselect bus s2" using run c True t by (auto simp: sd_card_read_block_def)
      moreover obtain q where "cardv s2 = (cardv s)\<lparr>sel := True, ph := q\<rparr>" "only_hw s s2"
        using \<open>if t = 0xFE then ?Q t s2 else ?I s2\<close> False by auto
      then have "only_hw s (sd_deselect bus s2) \<and> settled (cardv s) (cardv (sd_deselect bus s2))" by (rule settled_deselect)
      ultimately show ?thesis by simp
    next
      case True
      then obtain c1 c0 where d: "only_hw s s2" "cardv s2 = (cardv s)\<lparr>sel := True, ph := Sd_Data (blocks (cardv s) ?l @ [c1, c0])\<rparr>"
        using \<open>if t = 0xFE then ?Q t s2 else ?I s2\<close> by auto
      obtain e s3 where e: "recv_bytes bus 512 s2 = (e, s3)" by (metis prod.collapse)
      have e2: "e = blocks (cardv s) ?l" "only_hw s2 s3" "cardv s3 = (cardv s)\<lparr>sel := True, ph := Sd_Data [c1, c0]\<rparr>"
        using recv_data [of s2 "blocks (cardv s) ?l @ [c1, c0]" 512] d(2) e len by auto
      let ?s4 = "send_bytes bus [0xFF, 0xFF] s3"
      have s4: "only_hw s3 ?s4" "cardv ?s4 = (cardv s)\<lparr>sel := True, ph := Sd_Ready\<rparr>" using send_filler [of s3] e2(3) by simp_all
      have "only_hw s ?s4" by (rule only_hw_trans [OF d(1) only_hw_trans [OF e2(2) s4(1)]])
      from settled_deselect [OF s4(2) this] have "only_hw s (sd_deselect bus ?s4)" "settled (cardv s) (cardv (sd_deselect bus ?s4))" by simp_all
      moreover have "r = Some e" "s' = sd_deselect bus ?s4"
        using run c \<open>r1 = 0\<close> t True e by (simp_all add: sd_card_read_block_def SD_BLOCK_SIZE_def del: send_bytes.simps)
      ultimately show ?thesis using e2(1) by simp
    qed
  qed
qed

text \<open>Writing a block.\<close>

lemma send_receive: "ph (cardv s) = Sd_Receive l ds \<Longrightarrow> sel (cardv s) \<Longrightarrow> length ds + length bs \<le> 513 \<Longrightarrow>
    only_hw s (send_bytes bus bs s) \<and> cardv (send_bytes bus bs s) = (cardv s)\<lparr>ph := Sd_Receive l (ds @ bs)\<rparr>"
proof (induction bs arbitrary: s ds)
  case Nil
  then show ?case by simp
next
  case (Cons b bs)
  define s1 where "s1 = snd (sd_spi_xfer bus b s)"
  have a: "sd_allows (cardv s) b (fst (sd_spi_xfer bus b s)) (cardv s1)" "only_hw s s1"
    using send_one [OF Cons.prems(2), of b] by (simp_all add: s1_def)
  have c: "cardv s1 = (cardv s)\<lparr>ph := Sd_Receive l (ds @ [b])\<rparr>" using allows_receive [OF a(1) Cons.prems(1)] Cons.prems(3) by simp
  from Cons.IH [of s1 "ds @ [b]"] c Cons.prems(2,3) have
    ih: "only_hw s1 (send_bytes bus bs s1)" "cardv (send_bytes bus bs s1) = (cardv s)\<lparr>ph := Sd_Receive l (ds @ b # bs)\<rparr>" by simp_all
  have "send_bytes bus (b # bs) s = send_bytes bus bs s1" by (simp add: s1_def)
  then show ?case using ih(2) only_hw_trans [OF a(2) ih(1)] by simp
qed

definition stored :: "sd_view \<Rightarrow> nat \<Rightarrow> u8 list \<Rightarrow> sd_view \<Rightarrow> sd_phase \<Rightarrow> bool" where
  "stored v l x v' p \<longleftrightarrow> sel v' \<and> ph v' = p \<and> blocks v' = (blocks v)(l := x) \<and> cap v' = cap v \<and> hc v' = hc v \<and> length x = 512"

lemma send_block:
  assumes s: "cardv s1 = (cardv s)\<lparr>sel := True, ph := Sd_Write l\<rparr>" "only_hw s s1" and src: "length src = 512"
  shows "\<exists>x. stored (cardv s) l x (cardv (send_bytes bus ([0xFF, 0xFE] @ src @ [0xFF, 0xFF]) s1)) Sd_Answer \<and>
    only_hw s (send_bytes bus ([0xFF, 0xFE] @ src @ [0xFF, 0xFF]) s1)"
proof -
  define s2 where "s2 = snd (sd_spi_xfer bus 0xFF s1)"
  define s3 where "s3 = snd (sd_spi_xfer bus 0xFE s2)"
  define s4 where "s4 = send_bytes bus (src @ [0xFF]) s3"
  define s5 where "s5 = snd (sd_spi_xfer bus 0xFF s4)"
  have c2: "cardv s2 = cardv s1" "only_hw s1 s2"
    using send_one [of s1 "0xFF"] allows_no_token [of "cardv s1" _ "cardv s2" l] s by (auto simp: s2_def)
  have c3: "cardv s3 = (cardv s)\<lparr>sel := True, ph := Sd_Receive l []\<rparr>" "only_hw s2 s3"
    using send_one [of s2 "0xFE"] allows_token [of "cardv s2" _ "cardv s3" l] c2 s by (auto simp: s3_def)
  have c4: "only_hw s3 s4" "cardv s4 = (cardv s)\<lparr>sel := True, ph := Sd_Receive l (src @ [0xFF])\<rparr>"
    using send_receive [of s3 l "[]" "src @ [0xFF]"] c3 src by (simp_all add: s4_def)
  have c5: "only_hw s4 s5" "sd_allows (cardv s4) 0xFF (fst (sd_spi_xfer bus 0xFF s4)) (cardv s5)"
    using send_one [of s4 "0xFF"] c4(2) by (auto simp: s5_def)
  have "\<exists>x. length x = 512 \<and> cardv s5 = (cardv s4)\<lparr>ph := Sd_Answer, blocks := (blocks (cardv s4))(l := x)\<rparr>"
    using c5(2) c4(2) src by (intro allows_received [of _ "0xFF" _ _ l "src @ [0xFF]"]) simp_all
  then obtain x where x: "stored (cardv s) l x (cardv s5) Sd_Answer" using c4(2) by (auto simp: stored_def)
  have "send_bytes bus ([0xFF, 0xFE] @ src @ [0xFF, 0xFF]) s1 = send_bytes bus [0xFF] (send_bytes bus (src @ [0xFF]) s3)"
    by (simp add: s2_def s3_def send_bytes_append)
  also have "\<dots> = s5" by (simp add: s4_def s5_def)
  finally have e: "send_bytes bus ([0xFF, 0xFE] @ src @ [0xFF, 0xFF]) s1 = s5" .
  have "only_hw s s5" using s(2) c2(2) c3(2) c4(1) c5(1) by (blast intro: only_hw_trans)
  then show ?thesis unfolding e using x by blast
qed

lemma poll_answer:
  assumes run: "poll_byte bus (\<lambda>r. r \<noteq> 0xFF) 64 0xFF s1 = (r, s2)" and s1: "stored (cardv s) l x (cardv s1) Sd_Answer" "only_hw s s1"
  shows "only_hw s s2 \<and> stored (cardv s) l x (cardv s2) (if r = 0xFF then Sd_Answer else Sd_Busy)"
proof -
  let ?I = "\<lambda>t. only_hw s t \<and> stored (cardv s) l x (cardv t) Sd_Answer"
  let ?Q = "\<lambda>r t. only_hw s t \<and> stored (cardv s) l x (cardv t) Sd_Busy"
  have "if r \<noteq> 0xFF then ?Q r s2 else ?I s2"
  proof (rule poll_byte_rule [where I = ?I and stop = "\<lambda>r. r \<noteq> 0xFF" and Q = ?Q, OF run])
    fix t r t'
    assume i: "?I t" and e: "sd_spi_xfer bus 0xFF t = (r, t')"
    have "sel (cardv t)" "ph (cardv t) = Sd_Answer" using i by (simp_all add: stored_def)
    then have al: "sd_allows (cardv t) 0xFF r (cardv t')" "only_hw s t'" using xfer_selected [OF e] i by (auto intro: only_hw_trans)
    from allows_answer [OF al(1) \<open>ph (cardv t) = Sd_Answer\<close>]
    show "if r \<noteq> 0xFF then ?Q r t' else ?I t'" using al(2) i by (elim disjE conjE) (simp_all add: stored_def)
  qed (use s1 in simp_all)
  then show ?thesis by (cases "r = 0xFF") auto
qed

definition put_back :: "sd_view \<Rightarrow> nat \<Rightarrow> u8 list \<Rightarrow> sd_view \<Rightarrow> bool" where
  "put_back v l x v' \<longleftrightarrow> \<not> sel v' \<and> rest (ph v') \<and> blocks v' = (blocks v)(l := x) \<and> cap v' = cap v \<and> hc v' = hc v \<and> length x = 512"

lemma stored_deselect:
  assumes "stored (cardv s) l x (cardv s1) p" and "only_hw s s1"
  shows "only_hw s (sd_deselect bus s1) \<and> put_back (cardv s) l x (cardv (sd_deselect bus s1))"
  using deselect_spec [of s1] assms by (auto simp: put_back_def stored_def intro: only_hw_trans)

lemma settled_put_back: "settled v v' \<Longrightarrow> length (blocks v l) = 512 \<Longrightarrow> put_back v l (blocks v l) v'"
  by (auto simp: settled_def put_back_def)

text \<open>Everything but the verify sector stands as it was.\<close>

definition same_flags :: "'c sd_state \<Rightarrow> 'c sd_state \<Rightarrow> bool" where
  "same_flags s s' \<longleftrightarrow> g_sd_present s' = g_sd_present s \<and> g_sd_sdhc s' = g_sd_sdhc s \<and> g_sd_probe_silent s' = g_sd_probe_silent s \<and>
     g_fat_mounted s' = g_fat_mounted s"

lemma only_hw_flags: "only_hw s s' \<Longrightarrow> same_flags s s'"
  by (simp add: only_hw_def same_flags_def)

lemma write_block_spec:
  assumes run: "sd_write_block_checked bus lba src verify s = (ok, s')" and at_rest: "\<not> sel (cardv s)" "rest (ph (cardv s))"
    and len: "\<And>l. length (blocks (cardv s) l) = 512" and src: "length src = 512"
  shows "same_flags s s' \<and> (\<exists>x. put_back (cardv s) (block_number (cardv s) (block_address s lba)) x (cardv s') \<and> (ok \<longrightarrow> verify \<longrightarrow> x = src))"
proof -
  let ?l = "block_number (cardv s) (block_address s lba)"
  obtain r1 ex s1 where c: "sd_command bus 24 (block_address s lba) 0x01 0 False s = (r1, ex, s1)" by (metis prod_cases3)
  from block_command [OF c at_rest, of "Sd_Write ?l"] obtain p where p: "only_hw s s1" "cardv s1 = (cardv s)\<lparr>sel := True, ph := p\<rparr>"
    "r1 = 0 \<longrightarrow> p = Sd_Write ?l" by auto
  show ?thesis
  proof (cases "r1 = 0")
    case False
    then have "ok = False" "s' = sd_deselect bus s1" using run c by (auto simp: sd_write_block_checked_def)
    then show ?thesis using settled_deselect [OF p(2,1)] settled_put_back [OF _ len] by (auto dest: only_hw_flags)
  next
    case True
    let ?sent = "send_bytes bus ([0xFF, 0xFE] @ src @ [0xFF, 0xFF]) s1"
    have "cardv s1 = (cardv s)\<lparr>sel := True, ph := Sd_Write ?l\<rparr>" using p True by simp
    from send_block [OF this p(1) src] obtain x where x: "stored (cardv s) ?l x (cardv ?sent) Sd_Answer" "only_hw s ?sent" by blast
    obtain r s2 where r: "poll_byte bus (\<lambda>r. r \<noteq> 0xFF) 64 0xFF ?sent = (r, s2)" by (metis prod.collapse)
    note a = poll_answer [OF r x]
    have take: "take (unat SD_BLOCK_SIZE) src = src" using src by (simp add: SD_BLOCK_SIZE_def)
    have run2: "(ok, s') = (if r AND 0x1F \<noteq> 0x05 then (False, sd_deselect bus s2)
           else case sd_wait_ready bus SD_WRITE_TIMEOUT s2 of
             (False, s3) \<Rightarrow> (False, sd_deselect bus s3)
           | (True, s3) \<Rightarrow>
               if \<not> verify then (True, sd_deselect bus s3)
               else case sd_card_read_block bus lba (sd_deselect bus s3) of
                 (None, s4) \<Rightarrow> (False, s4)
               | (Some data, s4) \<Rightarrow> (src = data, s4\<lparr>g_sd_verify_sector := data\<rparr>))"
      using run unfolding sd_write_block_checked_def c prod.case take by (simp add: True r del: send_bytes.simps append.simps)
    show ?thesis
    proof (cases "r AND 0x1F = 0x05")
      case False
      then have "ok = False" "s' = sd_deselect bus s2" using run2 by auto
      then show ?thesis using stored_deselect a by (blast dest: only_hw_flags)
    next
      case True
      then have busy: "stored (cardv s) ?l x (cardv s2) Sd_Busy" using a by (auto split: if_splits)
      obtain w s3 where w: "sd_wait_ready bus SD_WRITE_TIMEOUT s2 = (w, s3)" by (metis prod.collapse)
      have "sel (cardv s2)" "rest (ph (cardv s2))" using busy by (simp_all add: stored_def rest_def)
      note wr = wait_ready_spec [OF w this]
      have "only_hw s s3" using a wr by (blast intro: only_hw_trans)
      moreover obtain q where "stored (cardv s) ?l x (cardv s3) q" using wr busy by (auto simp: stored_def)
      ultimately have q: "only_hw s s3" "stored (cardv s) ?l x (cardv s3) q" by simp_all
      note d = stored_deselect [OF q(2,1)]
      show ?thesis
      proof (cases "w \<and> verify")
        case False
        then have "s' = sd_deselect bus s3" "ok \<longrightarrow> \<not> verify" using run2 True w by (auto split: bool.splits)
        then show ?thesis using d by (auto dest: only_hw_flags)
      next
        case True
        let ?d = "sd_deselect bus s3"
        obtain rd s4 where rd: "sd_card_read_block bus lba ?d = (rd, s4)" by (metis prod.collapse)
        have dv: "\<not> sel (cardv ?d)" "rest (ph (cardv ?d))" "\<And>l. length (blocks (cardv ?d) l) = 512" "length x = 512"
          using d len by (auto simp: put_back_def)
        note r4 = read_block_spec [OF rd dv(1-3)]
        have sd: "block_number (cardv ?d) (block_address ?d lba) = ?l" "blocks (cardv ?d) ?l = x"
          using d by (auto simp: put_back_def block_number_def block_address_def only_hw_def)
        have "put_back (cardv s) ?l x (cardv s4)" using d r4 by (auto simp: put_back_def settled_def)
        moreover have "same_flags s s4" using d r4 by (auto intro: only_hw_flags only_hw_trans)
        moreover have "ok = (rd = Some src)" "same_flags s4 s'" "cardv s' = cardv s4"
          using run2 w True \<open>r AND 0x1F = 0x05\<close> rd by (auto simp: same_flags_def split: option.splits)
        ultimately show ?thesis using r4 sd by (auto simp: same_flags_def)
      qed
    qed
  qed
qed

text \<open>With the addressing of the card in \<open>g_sd_sdhc\<close> a block address stands for its block.\<close>

lemma usable_address:
  assumes "sd_usable view s" and "unat lba < sd_room view s"
  shows "block_number (cardv s) (block_address s lba) = unat lba"
proof (cases "hc (cardv s)")
  case True
  then show ?thesis using assms(1) by (simp add: block_number_def block_address_def sd_usable_def Let_def)
next
  case False
  then have "unat lba < 2 ^ 23" using assms by (simp add: sd_usable_def sd_room_def Let_def)
  then have "unat (lba * SD_BLOCK_SIZE) = unat lba * 512" by (simp add: SD_BLOCK_SIZE_def unat_word_ariths)
  then show ?thesis using assms(1) False by (simp add: block_number_def block_address_def sd_usable_def Let_def)
qed

lemma usable_rest: "sd_usable view s \<Longrightarrow> \<not> sel (cardv s) \<and> rest (ph (cardv s)) \<and> (\<forall>l. length (blocks (cardv s) l) = 512)"
  by (simp add: sd_usable_def rest_def Let_def)

lemma usable_write:
  assumes run: "sd_write_block_checked bus lba src verify s = (ok, s')" and us: "sd_usable view s" and l: "unat lba < sd_room view s"
    and src: "length src = 512"
  shows "sd_usable view s' \<and> sd_room view s' = sd_room view s \<and>
    (\<forall>k. k \<noteq> unat lba \<longrightarrow> sd_blk view s' k = sd_blk view s k) \<and> (ok \<longrightarrow> verify \<longrightarrow> sd_blk view s' (unat lba) = src)"
proof -
  note r = usable_rest [OF us]
  from r have "\<not> sel (cardv s)" "rest (ph (cardv s))" "\<And>l. length (blocks (cardv s) l) = 512" by simp_all
  note w = write_block_spec [OF run this src, unfolded usable_address [OF us l]]
  then obtain x where x: "put_back (cardv s) (unat lba) x (cardv s')" "ok \<longrightarrow> verify \<longrightarrow> x = src" by blast
  have u: "\<not> sel (cardv s')" "ph (cardv s') = Sd_Ready \<or> ph (cardv s') = Sd_Busy" "hc (cardv s') = hc (cardv s)" "cap (cardv s') = cap (cardv s)"
    "blocks (cardv s') = (blocks (cardv s))(unat lba := x)" "length x = 512" "g_sd_sdhc s' = g_sd_sdhc s"
    using x(1) w by (simp_all add: put_back_def rest_def same_flags_def)
  have "\<forall>k. length (blocks (cardv s') k) = 512" using r by (simp add: u(5,6))
  then have "sd_usable view s'" using us u by (simp add: sd_usable_def Let_def)
  then show ?thesis using x(2) u by (simp add: sd_room_def sd_blk_def)
qed

lemma usable_read:
  assumes run: "sd_card_read_block bus lba s = (r, s')" and us: "sd_usable view s" and l: "unat lba < sd_room view s"
  shows "sd_usable view s' \<and> sd_room view s' = sd_room view s \<and> sd_blk view s' = sd_blk view s \<and>
    (\<forall>d. r = Some d \<longrightarrow> d = sd_blk view s (unat lba))"
proof -
  note r = usable_rest [OF us]
  from r have "\<not> sel (cardv s)" "rest (ph (cardv s))" "\<And>l. length (blocks (cardv s) l) = 512" by simp_all
  note w = read_block_spec [OF run this, unfolded usable_address [OF us l]]
  then obtain p where p: "cardv s' = (cardv s)\<lparr>sel := False, ph := p\<rparr>" "rest p" by (auto simp: settled_def)
  have "g_sd_sdhc s' = g_sd_sdhc s" using w by (simp add: only_hw_def)
  then have "sd_usable view s'" using us p by (simp add: sd_usable_def rest_def Let_def)
  then show ?thesis using w p(1) by (simp add: sd_room_def sd_blk_def)
qed

end

sublocale sd_device \<subseteq> store: block_store "sd_card_ops bus" "sd_usable view" "sd_blk view" "sd_room view"
proof
  fix w :: "'c sd_state" and l :: nat
  assume "sd_usable view w"
  then show "length (sd_blk view w l) = 512" "sd_room view w \<le> 2 ^ 32"
    by (auto simp: sd_usable_def sd_blk_def sd_room_def Let_def split: if_splits)
next
  fix lba :: u32 and w w' :: "'c sd_state" and r
  assume "sd_read (sd_card_ops bus) lba w = (r, w')" and us: "sd_usable view w" "unat lba < sd_room view w"
  then have "sd_card_read_block bus lba w = (r, w')" by (simp add: sd_card_ops_def)
  from usable_read [OF this us] show "sd_usable view w' \<and> sd_blk view w' = sd_blk view w \<and> sd_room view w' = sd_room view w" by simp
next
  fix lba :: u32 and w w' :: "'c sd_state" and d
  assume "sd_read (sd_card_ops bus) lba w = (Some d, w')" and us: "sd_usable view w" "unat lba < sd_room view w"
  then have "sd_card_read_block bus lba w = (Some d, w')" by (simp add: sd_card_ops_def)
  from usable_read [OF this us] show "d = sd_blk view w (unat lba)" by simp
next
  fix lba :: u32 and d :: "u8 list" and w w' :: "'c sd_state" and ok
  assume "sd_write (sd_card_ops bus) lba d w = (ok, w')" and us: "sd_usable view w" "unat lba < sd_room view w" "length d = 512"
  then have "sd_write_block_checked bus lba d True w = (ok, w')" by (simp add: sd_card_ops_def sd_card_write_block_def)
  from usable_write [OF this us]
  show "sd_usable view w' \<and> sd_room view w' = sd_room view w \<and> (\<forall>l. l \<noteq> unat lba \<longrightarrow> sd_blk view w' l = sd_blk view w l)" by simp
next
  fix lba :: u32 and d :: "u8 list" and w w' :: "'c sd_state"
  assume "sd_write (sd_card_ops bus) lba d w = (True, w')" and us: "sd_usable view w" "unat lba < sd_room view w" "length d = 512"
  then have "sd_write_block_checked bus lba d True w = (True, w')" by (simp add: sd_card_ops_def sd_card_write_block_def)
  from usable_write [OF this us] show "sd_blk view w' (unat lba) = d" by simp
qed

section \<open>A card that has these laws\<close>

text \<open>An executable card that answers at once, programs what it receives and reports every harmless command as \<open>0x01\<close>
  or, from \<open>ACMD41\<close> on, as done.\<close>

definition ref_phase :: "sd_phase \<Rightarrow> sd_phase" where
  "ref_phase p = (case p of Sd_Frame bs \<Rightarrow> if length bs \<le> 5 then p else Sd_Ready
     | Sd_Data ds \<Rightarrow> if ds = [] then Sd_Ready else p
     | Sd_Receive l ds \<Rightarrow> if length ds \<le> 513 then p else Sd_Ready
     | _ \<Rightarrow> p)"

definition ref_card_view :: "sd_view \<Rightarrow> sd_view" where
  "ref_card_view v = v\<lparr>ph := ref_phase (ph v)\<rparr>"

definition ref_answer :: "u8 \<Rightarrow> sd_view \<Rightarrow> u8 \<times> sd_view" where
  "ref_answer b v = (case ph v of
     Sd_Ready \<Rightarrow> (0xFF, if b AND 0xC0 = 0x40 then v\<lparr>ph := Sd_Frame [b]\<rparr> else v)
   | Sd_Frame bs \<Rightarrow> (0xFF, v\<lparr>ph := if length bs < 5 then Sd_Frame (bs @ [b])
       else Sd_Response (bs ! 0 AND 0x3F) (rd32be [bs ! 1, bs ! 2, bs ! 3, bs ! 4] 0)\<rparr>)
   | Sd_Response cmd arg \<Rightarrow>
       if (cmd = 17 \<or> cmd = 24) \<and> \<not> block_exists v arg then (0x40, v\<lparr>ph := Sd_Ready\<rparr>)
       else if cmd = 17 then (0, v\<lparr>ph := Sd_Read (block_number v arg)\<rparr>)
       else if cmd = 24 then (0, v\<lparr>ph := Sd_Write (block_number v arg)\<rparr>)
       else (if cmd = 0 \<or> cmd = 8 then 1 else 0, v\<lparr>ph := Sd_Extra (if cmd = 58 \<and> hc v then 1 else 0)\<rparr>)
   | Sd_Extra n \<Rightarrow> (if n = 1 then 0x40 else 0, v\<lparr>ph := Sd_Extra 0\<rparr>)
   | Sd_Read l \<Rightarrow> (0xFE, v\<lparr>ph := Sd_Data (blocks v l @ [0, 0])\<rparr>)
   | Sd_Data ds \<Rightarrow> (hd ds, v\<lparr>ph := if tl ds = [] then Sd_Ready else Sd_Data (tl ds)\<rparr>)
   | Sd_Write l \<Rightarrow> (0xFF, if b = 0xFE then v\<lparr>ph := Sd_Receive l []\<rparr> else v)
   | Sd_Receive l ds \<Rightarrow> (0xFF, if length ds < 513 then v\<lparr>ph := Sd_Receive l (ds @ [b])\<rparr>
       else v\<lparr>ph := Sd_Answer, blocks := (blocks v)(l := take 512 ds)\<rparr>)
   | Sd_Answer \<Rightarrow> (0xE5, v\<lparr>ph := Sd_Busy\<rparr>)
   | Sd_Busy \<Rightarrow> (0xFF, v\<lparr>ph := Sd_Ready\<rparr>))"

definition ref_bus :: "sd_view sd_bus" where
  "ref_bus = \<lparr>bus_xfer = \<lambda>b c. if sel c then ref_answer b (ref_card_view c) else (0xFF, c),
     bus_cs = \<lambda>high c. if high then (ref_card_view c)\<lparr>sel := False, ph := released (ph (ref_card_view c))\<rparr> else c\<lparr>sel := True\<rparr>,
     bus_config = \<lambda>hz c. c, bus_sleep = \<lambda>c. c\<rparr>"

lemma ref_phase_idem [simp]: "ref_phase (ref_phase p) = ref_phase p"
  by (simp add: ref_phase_def split: sd_phase.splits)

lemma ref_card_view_idem [simp]: "ref_card_view (ref_card_view v) = ref_card_view v"
  by (simp add: ref_card_view_def)

lemma ref_released [simp]: "ref_phase (released p) = released p"
  by (simp add: released_def ref_phase_def)

definition phase_ok :: "sd_phase \<Rightarrow> bool" where
  "phase_ok p \<longleftrightarrow> ref_phase p = p"

lemma five_bytes: "length bs = 5 \<Longrightarrow> bs = [bs ! 0, bs ! 1, bs ! 2, bs ! 3, bs ! 4]"
  by (intro nth_equalityI) (auto simp: less_Suc_eq numeral_eq_Suc)

lemma ref_answer_ok: "phase_ok (ph v) \<Longrightarrow> phase_ok (ph (snd (ref_answer b v)))"
  by (auto simp: phase_ok_def ref_answer_def ref_phase_def split: sd_phase.splits if_splits)

lemma ref_answer_allowed:
  assumes ok: "phase_ok (ph v)"
  shows "sd_allows v b (fst (ref_answer b v)) (snd (ref_answer b v))"
proof (cases "ph v")
  case Sd_Ready
  then show ?thesis by (auto simp: ref_answer_def intro: sd_allows.intros)
next
  case (Sd_Frame bs)
  show ?thesis
  proof (cases "length bs < 5")
    case True
    then show ?thesis using Sd_Frame by (auto simp: ref_answer_def intro: sd_allows.intros)
  next
    case False
    then have "length bs = 5" using ok Sd_Frame by (auto simp: phase_ok_def ref_phase_def split: if_splits)
    from complete [of v "bs ! 0" "bs ! 1" "bs ! 2" "bs ! 3" "bs ! 4" b "0xFF"] five_bytes [OF this] Sd_Frame
    show ?thesis using False by (simp add: ref_answer_def)
  qed
next
  case (Sd_Response cmd arg)
  show ?thesis
  proof (cases "b = 0xFF")
    case False
    then show ?thesis using Sd_Response by (auto intro: unspecified_byte)
  next
    case True
    consider "cmd = 17" | "cmd = 24" | "cmd \<noteq> 17" "cmd \<noteq> 24" "harmless_command cmd" | "cmd \<noteq> 17" "cmd \<noteq> 24" "\<not> harmless_command cmd" by blast
    then show ?thesis
    proof cases
      case 1
      then show ?thesis using True Sd_Response by (auto simp: ref_answer_def intro: sd_allows.intros)
    next
      case 2
      then show ?thesis using True Sd_Response by (auto simp: ref_answer_def intro: sd_allows.intros)
    next
      case 3
      then show ?thesis using True Sd_Response by (auto simp: ref_answer_def intro: sd_allows.intros)
    next
      case 4
      then show ?thesis using Sd_Response by (auto intro: unspecified_command)
    qed
  qed
next
  case (Sd_Extra n)
  then show ?thesis by (cases "b = 0xFF") (auto simp: ref_answer_def intro: sd_allows.intros)
next
  case (Sd_Read l)
  then show ?thesis by (cases "b = 0xFF") (auto simp: ref_answer_def intro: sd_allows.intros)
next
  case (Sd_Data ds)
  then obtain d ds' where "ds = d # ds'" using ok by (cases ds) (auto simp: phase_ok_def ref_phase_def)
  then show ?thesis using Sd_Data data [of v d ds'] by (cases "b = 0xFF") (auto simp: ref_answer_def intro: unspecified_byte)
next
  case (Sd_Write l)
  then show ?thesis by (cases "b = 0xFE") (auto simp: ref_answer_def intro: sd_allows.intros)
next
  case (Sd_Receive l ds)
  then show ?thesis using ok receive [of v l ds b "0xFF"] received [of v l ds "take 512 ds" b "0xFF"]
    by (auto simp: ref_answer_def phase_ok_def ref_phase_def split: if_splits)
next
  case Sd_Answer
  then show ?thesis by (cases "b = 0xFF") (auto simp: ref_answer_def intro: sd_allows.intros)
next
  case Sd_Busy
  then show ?thesis by (cases "b = 0xFF") (auto simp: ref_answer_def intro: sd_allows.intros)
qed

lemma ref_view_ok: "phase_ok (ph v) \<Longrightarrow> ref_card_view v = v"
  by (simp add: phase_ok_def ref_card_view_def)

interpretation ref_card: sd_device ref_bus ref_card_view
proof
  fix b r c c'
  assume x: "bus_xfer ref_bus b c = (r, c')" and s: "sel (ref_card_view c)"
  have ok: "phase_ok (ph (ref_card_view c))" by (simp add: phase_ok_def ref_card_view_def)
  have "r = fst (ref_answer b (ref_card_view c))" "c' = snd (ref_answer b (ref_card_view c))"
    using x s by (auto simp: ref_bus_def ref_card_view_def)
  then show "sd_allows (ref_card_view c) b r (ref_card_view c')"
    using ref_answer_allowed [OF ok, of b] ref_view_ok [OF ref_answer_ok [OF ok, of b]] by simp
next
  fix b r c c'
  assume "bus_xfer ref_bus b c = (r, c')" and "\<not> sel (ref_card_view c)"
  then show "sd_passes (ref_card_view c) (ref_card_view c')" by (auto simp: ref_bus_def ref_card_view_def sd_passes_def)
qed (simp_all add: ref_bus_def ref_card_view_def sd_passes_def)

text \<open>On this card no read of a block that exists fails.\<close>

lemma ref_xfer:
  "sel (sd_hw s) \<Longrightarrow> phase_ok (ph (sd_hw s)) \<Longrightarrow>
    sd_spi_xfer ref_bus b s = (fst (ref_answer b (sd_hw s)), s\<lparr>sd_hw := snd (ref_answer b (sd_hw s))\<rparr>)"
  by (simp add: sd_spi_xfer_def ref_bus_def ref_view_ok split: prod.split)

lemma ref_select:
  assumes "sd_usable ref_card_view s"
  shows "snd (sd_spi_xfer ref_bus 0xFF (sd_spi_cs_low ref_bus s)) = s\<lparr>sd_hw := (sd_hw s)\<lparr>sel := True, ph := Sd_Ready\<rparr>\<rparr>"
  using assms by (auto simp: sd_usable_def Let_def ref_card_view_def sd_spi_xfer_def sd_spi_cs_low_def ref_bus_def ref_answer_def)

lemma ref_wait: "0 < n \<Longrightarrow> sel (sd_hw s) \<Longrightarrow> ph (sd_hw s) = Sd_Ready \<Longrightarrow> sd_wait_ready ref_bus n s = (True, s)"
  by (cases n) (simp_all add: ref_xfer phase_ok_def ref_phase_def ref_answer_def)

lemma ref_frame: "sel (sd_hw s) \<Longrightarrow> ph (sd_hw s) = Sd_Ready \<Longrightarrow> c AND 0xC0 = 0x40 \<Longrightarrow>
    send_bytes ref_bus [c, a3, a2, a1, a0, crc] s = s\<lparr>sd_hw := (sd_hw s)\<lparr>ph := Sd_Response (c AND 0x3F) (rd32be [a3, a2, a1, a0] 0)\<rparr>\<rparr>"
  by (simp add: ref_xfer phase_ok_def ref_phase_def ref_answer_def)

lemma ref_poll: "0 < n \<Longrightarrow> sel (sd_hw s) \<Longrightarrow> phase_ok (ph (sd_hw s)) \<Longrightarrow> stop (fst (ref_answer 0xFF (sd_hw s))) \<Longrightarrow>
    poll_byte ref_bus stop n r s = (fst (ref_answer 0xFF (sd_hw s)), s\<lparr>sd_hw := snd (ref_answer 0xFF (sd_hw s))\<rparr>)"
  by (cases n) (simp_all add: ref_xfer)

lemma ref_command:
  assumes us: "sd_usable ref_card_view s" and l: "unat lba < sd_room ref_card_view s" and c: "cmd = 17 \<or> cmd = 24"
  shows "\<exists>e. sd_command ref_bus cmd (block_address s lba) 0x01 0 False s =
    (0, e, s\<lparr>sd_hw := (sd_hw s)\<lparr>sel := True, ph := if cmd = 17 then Sd_Read (unat lba) else Sd_Write (unat lba)\<rparr>\<rparr>)"
proof -
  let ?arg = "block_address s lba" and ?v = "(sd_hw s)\<lparr>sel := True, ph := Sd_Ready\<rparr>"
  let ?p = "if cmd = 17 then Sd_Read (unat lba) else Sd_Write (unat lba)"
  have n: "block_number ?v ?arg = unat lba" and cp: "unat lba < cap ?v"
    using ref_card.usable_address [OF us l] l by (simp_all add: block_number_def ref_card_view_def sd_room_def)
  have "hc ?v \<or> unat ?arg mod 512 = 0"
  proof (cases "hc ?v")
    case False
    then have "\<not> g_sd_sdhc s" "unat lba < 2 ^ 23" using us l by (auto simp: sd_usable_def sd_room_def Let_def ref_card_view_def)
    then have "unat ?arg = unat lba * 512" by (simp add: block_address_def SD_BLOCK_SIZE_def unat_word_ariths)
    then show ?thesis by simp
  qed simp
  then have ex: "block_exists (?v\<lparr>ph := p\<rparr>) ?arg" for p using n cp by (simp add: block_exists_def block_number_def)
  have b: "(0x40 OR cmd) AND 0xC0 = 0x40" "(0x40 OR cmd) AND 0x3F = cmd" "cmd \<noteq> 0" using c by auto
  have "fst (sd_command ref_bus cmd ?arg 0x01 0 False s) = 0 \<and>
      snd (snd (sd_command ref_bus cmd ?arg 0x01 0 False s)) = s\<lparr>sd_hw := ?v\<lparr>ph := ?p\<rparr>\<rparr>"
    using ref_frame [of "s\<lparr>sd_hw := ?v\<rparr>" "0x40 OR cmd"] n c b ex
    by (auto simp: sd_command_def Let_def ref_select [OF us] ref_wait SD_READY_TIMEOUT_def ref_card.rd32be_split ref_poll SD_CMD_TIMEOUT_def
      phase_ok_def ref_phase_def ref_answer_def block_number_def simp del: send_bytes.simps)
  then have "sd_command ref_bus cmd ?arg 0x01 0 False s = (0, fst (snd (sd_command ref_bus cmd ?arg 0x01 0 False s)), s\<lparr>sd_hw := ?v\<lparr>ph := ?p\<rparr>\<rparr>)"
    by (metis prod.collapse)
  then show ?thesis by auto
qed

lemma ref_reads:
  assumes us: "sd_usable ref_card_view s" and l: "unat lba < sd_room ref_card_view s"
  shows "fst (sd_card_read_block ref_bus lba s) \<noteq> None"
proof -
  let ?v = "(sd_hw s)\<lparr>sel := True, ph := Sd_Read (unat lba)\<rparr>"
  obtain e where "sd_command ref_bus 17 (block_address s lba) 0x01 0 False s = (0, e, s\<lparr>sd_hw := ?v\<rparr>)"
    using ref_command [OF us l, of 17] by auto
  then show ?thesis
    by (simp add: sd_card_read_block_def ref_poll SD_READ_TIMEOUT_def phase_ok_def ref_phase_def ref_answer_def split: prod.split)
qed

lemma ref_reliable: "no_read_fails (sd_card_ops ref_bus) (sd_usable ref_card_view) (sd_room ref_card_view)"
  unfolding no_read_fails_def using ref_reads by (simp add: sd_card_ops_def)

text \<open>Nor does a write: the block is programmed and reads back.\<close>

lemma ref_send_receive:
  "sel (sd_hw s) \<Longrightarrow> ph (sd_hw s) = Sd_Receive l ds \<Longrightarrow> length ds + length bs \<le> 513 \<Longrightarrow>
    send_bytes ref_bus bs s = s\<lparr>sd_hw := (sd_hw s)\<lparr>ph := Sd_Receive l (ds @ bs)\<rparr>\<rparr>"
proof (induction bs arbitrary: ds s)
  case (Cons b bs)
  have "snd (sd_spi_xfer ref_bus b s) = s\<lparr>sd_hw := (sd_hw s)\<lparr>ph := Sd_Receive l (ds @ [b])\<rparr>\<rparr>"
    using Cons.prems by (simp add: ref_xfer phase_ok_def ref_phase_def ref_answer_def)
  then show ?case using Cons.IH [of "s\<lparr>sd_hw := (sd_hw s)\<lparr>ph := Sd_Receive l (ds @ [b])\<rparr>\<rparr>" "ds @ [b]"] Cons.prems by simp
qed simp

lemma ref_send_block:
  assumes "sel (sd_hw s)" and "ph (sd_hw s) = Sd_Write l" and "length src = 512"
  shows "send_bytes ref_bus ([0xFF, 0xFE] @ src @ [0xFF, 0xFF]) s = s\<lparr>sd_hw := (sd_hw s)\<lparr>ph := Sd_Answer, blocks := (blocks (sd_hw s))(l := src)\<rparr>\<rparr>"
proof -
  let ?r = "s\<lparr>sd_hw := (sd_hw s)\<lparr>ph := Sd_Receive l []\<rparr>\<rparr>" and ?f = "s\<lparr>sd_hw := (sd_hw s)\<lparr>ph := Sd_Receive l (src @ [0xFF])\<rparr>\<rparr>"
  have "send_bytes ref_bus [0xFF, 0xFE] s = ?r" using assms(1,2) by (simp add: ref_xfer phase_ok_def ref_phase_def ref_answer_def)
  moreover have "send_bytes ref_bus (src @ [0xFF]) ?r = ?f" using ref_send_receive [of ?r l "[]" "src @ [0xFF]"] assms by simp
  moreover have "send_bytes ref_bus [0xFF] ?f = s\<lparr>sd_hw := (sd_hw s)\<lparr>ph := Sd_Answer, blocks := (blocks (sd_hw s))(l := src)\<rparr>\<rparr>"
    using assms by (simp add: ref_xfer phase_ok_def ref_phase_def ref_answer_def)
  ultimately have "send_bytes ref_bus ([0xFF, 0xFE] @ (src @ [0xFF]) @ [0xFF]) s = s\<lparr>sd_hw := (sd_hw s)\<lparr>ph := Sd_Answer, blocks := (blocks (sd_hw s))(l := src)\<rparr>\<rparr>"
    unfolding send_bytes_append by (simp only: )
  then show ?thesis by (simp only: append_assoc) simp
qed

lemma ref_writes:
  assumes us: "sd_usable ref_card_view s" and l: "unat lba < sd_room ref_card_view s" and src: "length src = 512"
  shows "fst (sd_card_write_block ref_bus lba src s)"
proof -
  let ?w = "(sd_hw s)\<lparr>sel := True, ph := Sd_Write (unat lba)\<rparr>"
  let ?done = "(sd_hw s)\<lparr>sel := False, ph := Sd_Ready, blocks := (blocks (sd_hw s))(unat lba := src)\<rparr>"
  have "(24 :: u8) \<noteq> 17" by simp
  then obtain e where c: "sd_command ref_bus 24 (block_address s lba) 0x01 0 False s = (0, e, s\<lparr>sd_hw := ?w\<rparr>)"
    using ref_command [OF us l, of 24] by auto
  have b: "send_bytes ref_bus ([0xFF, 0xFE] @ take (unat SD_BLOCK_SIZE) src @ [0xFF, 0xFF]) (s\<lparr>sd_hw := ?w\<rparr>) =
      s\<lparr>sd_hw := ?w\<lparr>ph := Sd_Answer, blocks := (blocks (sd_hw s))(unat lba := src)\<rparr>\<rparr>"
    using ref_send_block [of "s\<lparr>sd_hw := ?w\<rparr>" "unat lba" src] src by (simp add: SD_BLOCK_SIZE_def del: send_bytes.simps)
  let ?b = "s\<lparr>sd_hw := ?w\<lparr>ph := Sd_Answer, blocks := (blocks (sd_hw s))(unat lba := src)\<rparr>\<rparr>"
  have p: "poll_byte ref_bus (\<lambda>r. r \<noteq> 0xFF) 64 0xFF ?b = (0xE5, ?b\<lparr>sd_hw := (sd_hw ?b)\<lparr>ph := Sd_Busy\<rparr>\<rparr>)"
    by (simp add: ref_poll phase_ok_def ref_phase_def ref_answer_def)
  have "0 < SD_WRITE_TIMEOUT" by (simp add: SD_WRITE_TIMEOUT_def)
  then obtain t where t: "SD_WRITE_TIMEOUT = Suc t" by (cases SD_WRITE_TIMEOUT) auto
  have w: "sd_wait_ready ref_bus SD_WRITE_TIMEOUT (?b\<lparr>sd_hw := (sd_hw ?b)\<lparr>ph := Sd_Busy\<rparr>\<rparr>) = (True, ?b\<lparr>sd_hw := (sd_hw ?b)\<lparr>ph := Sd_Ready\<rparr>\<rparr>)"
    unfolding t by (simp add: ref_xfer phase_ok_def ref_phase_def ref_answer_def)
  have d: "sd_deselect ref_bus (?b\<lparr>sd_hw := (sd_hw ?b)\<lparr>ph := Sd_Ready\<rparr>\<rparr>) = s\<lparr>sd_hw := ?done\<rparr>"
    by (simp add: sd_deselect_def sd_spi_cs_high_def sd_spi_xfer_def ref_bus_def ref_card_view_def ref_phase_def released_def)
  have us': "sd_usable ref_card_view (s\<lparr>sd_hw := ?done\<rparr>)"
    using us src by (auto simp: sd_usable_def Let_def ref_card_view_def ref_phase_def)
  have l': "unat lba < sd_room ref_card_view (s\<lparr>sd_hw := ?done\<rparr>)" using l by (simp add: sd_room_def ref_card_view_def)
  obtain data s' where r: "sd_card_read_block ref_bus lba (s\<lparr>sd_hw := ?done\<rparr>) = (Some data, s')"
    using ref_reads [OF us' l'] by (metis option.exhaust prod.collapse)
  have "data = src" using ref_card.usable_read [OF r us' l'] by (simp add: sd_blk_def ref_card_view_def)
  then show ?thesis using c b p w d r src
    by (simp add: sd_card_write_block_def sd_write_block_checked_def SD_BLOCK_SIZE_def del: send_bytes.simps)
qed

lemma ref_durable: "no_write_fails (sd_card_ops ref_bus) (sd_usable ref_card_view) (sd_room ref_card_view)"
  unfolding no_write_fails_def using ref_writes by (simp add: sd_card_ops_def)

section \<open>Writing a block\<close>

text \<open>C12. A write that is reported as done has been done. For any card that keeps to the specification, one that
  may spoil or ignore a block it acknowledges included: when \<open>sd_card_write_block\<close> reports success the block on the card is
  the one that was to be written, because it was read back, and a later read that succeeds delivers it. Whatever the
  outcome no other block has changed and the driver is at rest.\<close>

theorem sd_card_write_block_stored:
  assumes "sd_device bus view" and "sd_usable view s" and "unat lba < sd_room view s" and "length src = 512"
  shows "\<exists>ok s'. sd_card_write_block bus lba src s = (ok, s') \<and> sd_usable view s' \<and> sd_room view s' = sd_room view s \<and>
    (\<forall>l. l \<noteq> unat lba \<longrightarrow> sd_blk view s' l = sd_blk view s l) \<and>
    (ok \<longrightarrow> sd_blk view s' (unat lba) = src \<and> (\<forall>r s''. sd_card_read_block bus lba s' = (r, s'') \<longrightarrow> r \<noteq> None \<longrightarrow> r = Some src))"
proof -
  obtain ok s' where r: "sd_card_write_block bus lba src s = (ok, s')" by (metis prod.collapse)
  then have w: "sd_write_block_checked bus lba src True s = (ok, s')" by (simp add: sd_card_write_block_def)
  note a = sd_device.usable_write [OF assms(1) w assms(2-4)]
  then have us: "sd_usable view s'" and l: "unat lba < sd_room view s'" using assms(3) by simp_all
  have "r = Some src" if ok "sd_card_read_block bus lba s' = (r, s'')" "r \<noteq> None" for r s''
    using sd_device.usable_read [OF assms(1) that(2) us l] that(1,3) a by auto
  then show ?thesis using r a by blast
qed

theorem sd_card_write_block_stored_witness:
  "\<exists>s'. sd_card_write_block ref_bus 1 (replicate 512 7) \<lparr>g_sd_present = True, g_sd_sdhc = False, g_sd_probe_silent = False, g_fat_mounted = False,
      g_sd_verify_sector = [], sd_hw = \<lparr>ph = Sd_Busy, sel = False, blocks = \<lambda>l. replicate 512 0, cap = 2, hc = False\<rparr>\<rparr> = (True, s') \<and>
    sd_blk ref_card_view s' 1 = replicate 512 7 \<and> sd_blk ref_card_view s' 0 = replicate 512 0"
proof -
  let ?s = "\<lparr>g_sd_present = True, g_sd_sdhc = False, g_sd_probe_silent = False, g_fat_mounted = False,
      g_sd_verify_sector = [], sd_hw = \<lparr>ph = Sd_Busy, sel = False, blocks = \<lambda>l. replicate 512 0, cap = 2, hc = False\<rparr>\<rparr>"
  have u: "sd_usable ref_card_view ?s" "unat (1 :: u32) < sd_room ref_card_view ?s" "length (replicate 512 (7 :: u8)) = 512"
    by (simp_all add: sd_usable_def sd_room_def ref_card_view_def ref_phase_def Let_def)
  have "fst (sd_card_write_block ref_bus 1 (replicate 512 7) ?s)" by (rule ref_writes [OF u])
  moreover have "sd_blk ref_card_view ?s 0 = replicate 512 0" by (simp add: sd_blk_def ref_card_view_def)
  ultimately show ?thesis using sd_card_write_block_stored [OF ref_card.sd_device_axioms u] by fastforce
qed

end
