(* ===== verification/Fat32_Dir.thy ===== *)
theory Fat32_Dir
  imports Fat32_File
begin

text \<open>
  \<open>storage/fat32_dir.c\<close>: free directory slots found (the directory grows by a cluster when there is none), entries
  written and marked deleted, and the 32 byte entries themselves. Walking a directory may not end when its chain is a
  cycle, so these routines are partial too.
\<close>

record fat_dir_slot =
  slot_cluster :: u32
  slot_sector :: u8
  slot_entry :: u8

text \<open>The scan of the 16 entries of a sector for \<open>needed\<close> free ones in a row: the first of the run.\<close>

fun find_run :: "u8 list \<Rightarrow> u8 \<Rightarrow> nat \<Rightarrow> u8 \<Rightarrow> u8 \<Rightarrow> nat \<Rightarrow> u8 option" where
  "find_run sector needed entry run run_start 0 = None"
| "find_run sector needed entry run run_start (Suc n) = (
     let first = sector ! (entry * 32)
     in if first = 0x00 \<or> first = 0xE5 then
          let start = (if run = 0 then of_nat entry else run_start)
          in if needed \<le> run + 1 then Some start else find_run sector needed (entry + 1) (run + 1) start n
        else find_run sector needed (entry + 1) 0 run_start n)"

text \<open>The sectors of one cluster of the directory: a result for the caller, or on to the next cluster.\<close>

fun find_in_cluster :: "'w sd_ops \<Rightarrow> u8 \<Rightarrow> u32 \<Rightarrow> u8 \<Rightarrow> nat \<Rightarrow> 'w fat_state \<Rightarrow> fat_dir_slot option option \<times> 'w fat_state" where
  "find_in_cluster ops needed current s 0 st = (None, st)"
| "find_in_cluster ops needed current s (Suc n) st = (case scratch_read ops (fat_cluster_lba current st + ucast s) st of
     (False, st1) \<Rightarrow> (Some None, st1)
   | (True, st1) \<Rightarrow> (case find_run (g_sd_sector st1) needed 0 0 0 16 of
       Some start \<Rightarrow> (Some (Some \<lparr>slot_cluster = current, slot_sector = s, slot_entry = start\<rparr>), st1)
     | None \<Rightarrow> find_in_cluster ops needed current (s + 1) n st1))"

text \<open>The walk over the clusters: the caller's result (with the slot, or none after an error), or the last cluster visited.\<close>

partial_function (option) find_walk :: "'w sd_ops \<Rightarrow> u8 \<Rightarrow> u32 \<Rightarrow> u32 \<Rightarrow> 'w fat_state \<Rightarrow> ((fat_dir_slot option + u32) \<times> 'w fat_state) option" where
  "find_walk ops needed previous current st = (
     if 2 \<le> current \<and> current < FAT32_EOC then
       (case find_in_cluster ops needed current 0 (unat (g_fat_sectors_per_cluster st)) st of (r, st1) \<Rightarrow>
          (case r of
             Some found \<Rightarrow> Some (Inl found, st1)
           | None \<Rightarrow> (case fat_next_cluster ops current st1 of (next, st2) \<Rightarrow> find_walk ops needed current next st2)))
     else Some (Inr previous, st))"

definition fat_dir_find_slots :: "'w sd_ops \<Rightarrow> u32 \<Rightarrow> u8 \<Rightarrow> 'w fat_state \<Rightarrow> (fat_dir_slot option \<times> 'w fat_state) option" where
  "fat_dir_find_slots ops dir_cluster needed st = (case find_walk ops needed 0 dir_cluster st of
     None \<Rightarrow> None
   | Some (Inl found, st1) \<Rightarrow> Some (found, st1)
   | Some (Inr previous, st1) \<Rightarrow>
       if 2 \<le> previous then
         (case fat_alloc_chain ops 1 st1 of
            None \<Rightarrow> None
          | Some (None, st2) \<Rightarrow> Some (None, st2)
          | Some (Some new_cluster, st2) \<Rightarrow>
              (case fat_zero_cluster ops new_cluster st2 of
                 (False, st3) \<Rightarrow> Some (None, st3)
               | (True, st3) \<Rightarrow>
                   (case fat_write_entry ops previous new_cluster st3 of
                      (False, st4) \<Rightarrow> Some (None, st4)
                    | (True, st4) \<Rightarrow> Some (Some \<lparr>slot_cluster = new_cluster, slot_sector = 0, slot_entry = 0\<rparr>, st4))))
       else Some (None, st1))"

definition fat_dir_write_slots :: "'w sd_ops \<Rightarrow> fat_dir_slot \<Rightarrow> u8 list \<Rightarrow> u8 \<Rightarrow> 'w fat_state \<Rightarrow> bool \<times> 'w fat_state" where
  "fat_dir_write_slots ops slot entries count st = (
     let sector = fat_cluster_lba (slot_cluster slot) st + ucast (slot_sector slot);
         offset = unat (slot_entry slot) * 32
     in if 512 < offset + unat count * 32 then (False, st)
        else case scratch_read ops sector st of
          (False, st1) \<Rightarrow> (False, st1)
        | (True, st1) \<Rightarrow>
            scratch_write ops sector (st1\<lparr>g_sd_sector := mem_write offset (take (unat count * 32) entries) (g_sd_sector st1)\<rparr>))"

text \<open>The 16 entries of a sector, \<open>ordinal\<close> being the number of the next one: those in \<open>start .. end\<close> get the mark.\<close>

fun mark_sector :: "u32 \<Rightarrow> u32 \<Rightarrow> nat \<Rightarrow> u32 \<Rightarrow> bool \<Rightarrow> u8 list \<Rightarrow> nat \<Rightarrow> u32 \<times> bool \<times> u8 list" where
  "mark_sector start last_entry entry ordinal dirty sector 0 = (ordinal, dirty, sector)"
| "mark_sector start last_entry entry ordinal dirty sector (Suc n) = (
     if last_entry < ordinal then (ordinal, dirty, sector)
     else if start \<le> ordinal then mark_sector start last_entry (entry + 1) (ordinal + 1) True (sector[entry * 32 := 0xE5]) n
     else mark_sector start last_entry (entry + 1) (ordinal + 1) dirty sector n)"

fun mark_in_cluster :: "'w sd_ops \<Rightarrow> u32 \<Rightarrow> u32 \<Rightarrow> u32 \<Rightarrow> u32 \<Rightarrow> u8 \<Rightarrow> nat \<Rightarrow> 'w fat_state \<Rightarrow> (bool + u32) \<times> 'w fat_state" where
  "mark_in_cluster ops start last_entry current ordinal s 0 st = (Inr ordinal, st)"
| "mark_in_cluster ops start last_entry current ordinal s (Suc n) st = (
     let lba = fat_cluster_lba current st + ucast s
     in case scratch_read ops lba st of
          (False, st1) \<Rightarrow> (Inl False, st1)
        | (True, st1) \<Rightarrow>
            (case mark_sector start last_entry 0 ordinal False (g_sd_sector st1) 16 of (ordinal', dirty, sector) \<Rightarrow>
              (case (if dirty then scratch_write ops lba (st1\<lparr>g_sd_sector := sector\<rparr>) else (True, st1\<lparr>g_sd_sector := sector\<rparr>)) of
                 (False, st2) \<Rightarrow> (Inl False, st2)
               | (True, st2) \<Rightarrow> if last_entry < ordinal' then (Inl True, st2)
                   else mark_in_cluster ops start last_entry current ordinal' (s + 1) n st2)))"

partial_function (option) mark_walk :: "'w sd_ops \<Rightarrow> u32 \<Rightarrow> u32 \<Rightarrow> u32 \<Rightarrow> u32 \<Rightarrow> 'w fat_state \<Rightarrow> (bool \<times> 'w fat_state) option" where
  "mark_walk ops start last_entry ordinal current st = (
     if 2 \<le> current \<and> current < FAT32_EOC then
       (case mark_in_cluster ops start last_entry current ordinal 0 (unat (g_fat_sectors_per_cluster st)) st of (r, st1) \<Rightarrow>
          (case r of
             Inl ok \<Rightarrow> Some (ok, st1)
           | Inr ordinal' \<Rightarrow> (case fat_next_cluster ops current st1 of (next, st2) \<Rightarrow> mark_walk ops start last_entry ordinal' next st2)))
     else Some (False, st))"

definition fat_dir_mark_deleted :: "'w sd_ops \<Rightarrow> u32 \<Rightarrow> u32 \<Rightarrow> u8 \<Rightarrow> 'w fat_state \<Rightarrow> (bool \<times> 'w fat_state) option" where
  "fat_dir_mark_deleted ops dir_cluster entry_ordinal lfn_count st =
     mark_walk ops (if ucast lfn_count \<le> entry_ordinal then entry_ordinal - ucast lfn_count else 0) entry_ordinal 0 dir_cluster st"

section \<open>Entries\<close>

text \<open>\<open>fat_make_short_name\<close>; \<open>base\<close> and \<open>ext\<close> are C strings, here without their terminator.\<close>

definition fat_make_short_name :: "u8 list \<Rightarrow> u8 list \<Rightarrow> u8 list" where
  "fat_make_short_name base ext = mem_write 8 (take 3 ext) (mem_write 0 (take 8 base) (replicate 11 0x20))"

definition lfn_step :: "u8 \<Rightarrow> u8 \<Rightarrow> u8" where
  "lfn_step acc b = (if acc AND 1 \<noteq> 0 then 0x80 else 0) + drop_bit 1 acc + b"

definition fat_lfn_checksum :: "u8 list \<Rightarrow> u8" where
  "fat_lfn_checksum short_name = foldl lfn_step 0 (take 11 short_name)"

definition lfn_positions :: "nat list" where
  "lfn_positions = [1, 3, 5, 7, 9, 14, 16, 18, 20, 22, 24, 28, 30]"

definition lfn_char :: "u8 list \<Rightarrow> u8 \<Rightarrow> nat \<Rightarrow> u16" where
  "lfn_char name seq i = (
     let name_index = unat ((ucast seq - 1) * 13 + of_nat i :: u32)
     in if name_index < length name then ucast (name ! name_index) else if name_index = length name then 0 else 0xFFFF)"

definition lfn_header :: "u8 \<Rightarrow> bool \<Rightarrow> u8 \<Rightarrow> u8 list" where
  "lfn_header seq is_last checksum = (replicate 32 0xFF)[0 := seq OR (if is_last then 0x40 else 0), 11 := 0x0F, 12 := 0, 13 := checksum, 26 := 0, 27 := 0]"

definition fat_make_lfn_entry :: "u8 list \<Rightarrow> u8 \<Rightarrow> bool \<Rightarrow> u8 \<Rightarrow> u8 list" where
  "fat_make_lfn_entry name seq is_last checksum =
     foldl (\<lambda>entry i. wr16 entry (lfn_positions ! i) (lfn_char name seq i)) (lfn_header seq is_last checksum) [0..<13]"

definition fat_make_short_entry :: "u8 list \<Rightarrow> u8 \<Rightarrow> u32 \<Rightarrow> u32 \<Rightarrow> u8 list" where
  "fat_make_short_entry short_name attr cluster fsize = (
     let e = (mem_write 0 (take 11 short_name) (replicate 32 0))[11 := attr]
     in wr32 (wr16 (wr16 e 20 (ucast (drop_bit 16 cluster))) 26 (ucast cluster)) 28 fsize)"

definition fat_init_directory_cluster :: "'w sd_ops \<Rightarrow> u32 \<Rightarrow> u32 \<Rightarrow> 'w fat_state \<Rightarrow> bool \<times> 'w fat_state" where
  "fat_init_directory_cluster ops cluster parent_cluster st = (case fat_zero_cluster ops cluster st of
     (False, st1) \<Rightarrow> (False, st1)
   | (True, st1) \<Rightarrow>
       let dot = (replicate 11 0x20)[0 := 0x2E];
           dotdot = (replicate 11 0x20)[0 := 0x2E, 1 := 0x2E];
           sector = mem_write 32 (fat_make_short_entry dotdot FAT_ATTR_DIR parent_cluster 0)
             (mem_write 0 (fat_make_short_entry dot FAT_ATTR_DIR cluster 0) (replicate (unat SD_BLOCK_SIZE) 0))
       in scratch_write ops (fat_cluster_lba cluster st1) (st1\<lparr>g_sd_sector := sector\<rparr>))"

section \<open>Free slots\<close>

definition slot_free :: "u8 list \<Rightarrow> nat \<Rightarrow> bool" where
  "slot_free sector e \<longleftrightarrow> sector ! (e * 32) = 0x00 \<or> sector ! (e * 32) = 0xE5"

text \<open>The run that is being counted ends just before the entry looked at, and is free.\<close>

definition run_ok :: "u8 list \<Rightarrow> nat \<Rightarrow> u8 \<Rightarrow> u8 \<Rightarrow> bool" where
  "run_ok sector entry run run_start \<longleftrightarrow> unat run \<le> entry \<and>
     (run \<noteq> 0 \<longrightarrow> unat run_start + unat run = entry \<and> (\<forall>e. unat run_start \<le> e \<and> e < entry \<longrightarrow> slot_free sector e))"

lemma run_ok_step:
  assumes ok: "run_ok sector entry run run_start" and b: "entry < 16" and free: "slot_free sector entry"
  defines "start \<equiv> (if run = 0 then of_nat entry else run_start)"
  shows "run_ok sector (entry + 1) (run + 1) start" and "unat (run + 1) = unat run + 1" and "unat start + (unat run + 1) = entry + 1"
    and "\<forall>e. unat start \<le> e \<and> e < entry + 1 \<longrightarrow> slot_free sector e"
proof -
  show u: "unat (run + 1) = unat run + 1" using ok b by (simp add: run_ok_def unat_word_ariths)
  have e: "unat (of_nat entry :: u8) = entry" using b by (simp add: unat_of_nat)
  show st: "unat start + (unat run + 1) = entry + 1" using ok e by (auto simp: run_ok_def start_def)
  show fr: "\<forall>e. unat start \<le> e \<and> e < entry + 1 \<longrightarrow> slot_free sector e"
    using ok free e by (auto simp: run_ok_def start_def less_Suc_eq)
  show "run_ok sector (entry + 1) (run + 1) start" using ok u st fr by (simp add: run_ok_def)
qed

lemma find_run_spec:
  "find_run sector needed entry run run_start n = Some start \<Longrightarrow> entry + n = 16 \<Longrightarrow> run_ok sector entry run run_start \<Longrightarrow> unat run < unat needed \<Longrightarrow>
    unat start + unat needed \<le> 16 \<and> (\<forall>e. unat start \<le> e \<and> e < unat start + unat needed \<longrightarrow> slot_free sector e)"
proof (induction sector needed entry run run_start n rule: find_run.induct)
  case (2 sector needed entry run run_start n)
  have b: "entry < 16" using 2(4) by simp
  show ?case
  proof (cases "slot_free sector entry")
    case False
    then have "find_run sector needed (entry + 1) 0 run_start n = Some start" using 2(3) by (simp add: slot_free_def Let_def)
    moreover have "unat (0 :: u8) < unat needed" using 2(6) by simp
    ultimately show ?thesis using 2(2) [OF refl] False 2(4) by (simp add: slot_free_def run_ok_def)
  next
    case True
    note st = run_ok_step [OF 2(5) b True]
    show ?thesis
    proof (cases "needed \<le> run + 1")
      case True
      then have s: "start = (if run = 0 then of_nat entry else run_start)" using 2(3) \<open>slot_free sector entry\<close> by (simp add: slot_free_def Let_def)
      have "unat needed = unat run + 1" using True 2(6) st(2) by (simp add: word_le_nat_alt)
      then show ?thesis using st(3,4) b s by simp
    next
      case False
      then have "find_run sector needed (entry + 1) (run + 1) (if run = 0 then of_nat entry else run_start) n = Some start"
        using 2(3) \<open>slot_free sector entry\<close> by (simp add: slot_free_def Let_def)
      then show ?thesis using 2(1) [OF refl _ refl False] \<open>slot_free sector entry\<close> 2(4) st(1,2) False
        by (simp add: slot_free_def word_le_nat_alt)
    qed
  qed
qed simp

text \<open>A slot in the directory: \<open>needed\<close> free entries in a row in a sector of one of its clusters.\<close>

definition slot_in :: "(nat \<Rightarrow> u8 list) \<Rightarrow> 'w fat_state \<Rightarrow> u32 \<Rightarrow> u8 \<Rightarrow> fat_dir_slot \<Rightarrow> bool" where
  "slot_in B s cluster needed slot \<longleftrightarrow> slot_cluster slot = cluster \<and> unat (slot_sector slot) < unat (g_fat_sectors_per_cluster s) \<and>
     unat (slot_entry slot) + unat needed \<le> 16 \<and>
     (\<forall>e. unat (slot_entry slot) \<le> e \<and> e < unat (slot_entry slot) + unat needed \<longrightarrow>
        slot_free (B (cluster_sector s cluster (unat (slot_sector slot)))) e)"

context block_store
begin

lemma find_in_cluster_spec:
  "find_in_cluster ops needed k i n s = (r, s') \<Longrightarrow> fat_ready usable room s \<Longrightarrow> is_cluster s k \<Longrightarrow>
    unat i + n = unat (g_fat_sectors_per_cluster s) \<Longrightarrow> 0 < needed \<Longrightarrow>
    looks s s' \<and> g_fat_alloc_hint s' = g_fat_alloc_hint s \<and> (\<forall>slot. r = Some (Some slot) \<longrightarrow> slot_in (blk (f_sd s)) s k needed slot)"
proof (induction n arbitrary: i s)
  case 0
  then show ?case by (auto simp: looks_refl)
next
  case (Suc n)
  have i: "unat i < unat (g_fat_sectors_per_cluster s)" using Suc.prems(4) by simp
  let ?lba = "fat_cluster_lba k s + ucast i"
  note vol = fat_readyD(2) [OF Suc.prems(2)]
  have ui: "(ucast i :: u32) = of_nat (unat i)" by (simp add: word_unat_eq_iff)
  have l: "unat ?lba = cluster_sector s k (unat i)" unfolding ui by (rule cluster_lba_unat [OF vol Suc.prems(3) i])
  have lt: "unat ?lba < room (f_sd s)" using cluster_sector_bound(1) [OF vol Suc.prems(3) i] l by simp
  obtain ok s1 where r: "scratch_read ops ?lba s = (ok, s1)" by (metis prod.collapse)
  note a = scratch_read_looks [OF r Suc.prems(2) lt]
  have g: "geometry s1 = geometry s" using a by (simp add: looks_geometry)
  show ?case
  proof (cases ok)
    case False
    then show ?thesis using Suc.prems(1) r a by auto
  next
    case True
    show ?thesis
    proof (cases "find_run (g_sd_sector s1) needed 0 0 0 16")
      case (Some start)
      have n0: "unat (0 :: u8) < unat needed" using Suc.prems(5) by (simp add: word_less_nat_alt)
      have "find_run (blk (f_sd s) (unat ?lba)) needed 0 0 0 16 = Some start" using Some a True by simp
      from find_run_spec [OF this _ _ n0] have "slot_in (blk (f_sd s)) s k needed \<lparr>slot_cluster = k, slot_sector = i, slot_entry = start\<rparr>"
        using i l by (simp add: slot_in_def run_ok_def)
      then show ?thesis using Suc.prems(1) r True Some a by auto
    next
      case None
      have rec: "find_in_cluster ops needed k (i + 1) n s1 = (r, s')" using Suc.prems(1) r True None by simp
      have "unat i < 255" using i unsigned_less [of "g_fat_sectors_per_cluster s", where ?'a = nat] by simp
      then have "unat (i + 1) = unat i + 1" by (simp add: unat_word_ariths)
      then have n: "unat (i + 1) + n = unat (g_fat_sectors_per_cluster s1)" using Suc.prems(4) by (simp add: same_geometry(8) [OF g])
      have "is_cluster s1 k" using Suc.prems(3) is_cluster_same [OF g] by simp
      from Suc.IH [OF rec looks_ready [OF conjunct1 [OF a]] this n Suc.prems(5)] a
      have ih: "looks s1 s'" "g_fat_alloc_hint s' = g_fat_alloc_hint s" "\<forall>slot. r = Some (Some slot) \<longrightarrow> slot_in (blk (f_sd s1)) s1 k needed slot" by auto
      have "slot_in (blk (f_sd s1)) s1 k needed slot = slot_in (blk (f_sd s)) s k needed slot" for slot
        using a by (simp add: slot_in_def cluster_sector_same [OF g] same_geometry(8) [OF g] looks_def)
      then show ?thesis using ih a looks_trans by blast
    qed
  qed
qed


text \<open>Where the walk has come from: the predecessor of the \<open>i\<close>-th cluster.\<close>

definition before :: "u32 list \<Rightarrow> nat \<Rightarrow> u32" where
  "before ks i = (if i = 0 then 0 else ks ! (i - 1))"

text \<open>What the walk over the directory \<open>ks\<close> finds.\<close>

definition walk_result :: "'w fat_state \<Rightarrow> u32 list \<Rightarrow> u8 \<Rightarrow> nat \<Rightarrow> fat_dir_slot option + u32 \<Rightarrow> bool" where
  "walk_result s ks needed i r \<longleftrightarrow> (case r of
     Inl found \<Rightarrow> (\<forall>slot. found = Some slot \<longrightarrow> (\<exists>k \<in> set ks. slot_in (blk (f_sd s)) s k needed slot))
   | Inr p \<Rightarrow> (\<exists>j \<ge> i. j \<le> length ks \<and> p = before ks j \<and> (reliable \<longrightarrow> j = length ks)))"

lemma walk_result_same:
  assumes "looks s s'"
  shows "walk_result s' = walk_result s"
  using assms unfolding walk_result_def slot_in_def cluster_sector_same [OF looks_geometry [OF assms]]
    same_geometry(8) [OF looks_geometry [OF assms]] by (simp add: looks_def)

lemma walk_result_less:
  assumes "walk_result s ks needed (Suc i) r"
  shows "walk_result s ks needed i r"
proof (cases r)
  case (Inr p)
  with assms obtain j where "Suc i \<le> j" "j \<le> length ks \<and> p = before ks j \<and> (reliable \<longrightarrow> j = length ks)"
    by (auto simp: walk_result_def)
  then have "i \<le> j \<and> j \<le> length ks \<and> p = before ks j \<and> (reliable \<longrightarrow> j = length ks)" by simp
  then show ?thesis unfolding walk_result_def Inr sum.case by blast
qed (use assms in \<open>simp add: walk_result_def\<close>)

lemma find_walk_spec:
  "fat_ready usable room s \<Longrightarrow> file_chain s ks \<Longrightarrow> reached ks i c \<Longrightarrow> i \<le> length ks \<Longrightarrow> 0 < needed \<Longrightarrow>
    \<exists>r s'. find_walk ops needed (before ks i) c s = Some (r, s') \<and> looks s s' \<and> g_fat_alloc_hint s' = g_fat_alloc_hint s \<and>
      walk_result s ks needed (if i < length ks \<and> c = ks ! i then Suc i else i) r"
proof (induction "length ks - i" arbitrary: i c s)
  case 0
  then have i: "i = length ks" by simp
  then have "\<not> in_chain c" using reached_out [OF 0(4)] by auto
  then have "find_walk ops needed (before ks i) c s = Some (Inr (before ks i), s)"
    by (subst find_walk.simps) (simp add: in_chain_def del: de_Morgan_conj)
  then show ?case using looks_refl [OF 0(2)] i by (auto simp: walk_result_def)
next
  case (Suc n)
  show ?case
  proof (cases "in_chain c")
    case False
    then have run: "find_walk ops needed (before ks i) c s = Some (Inr (before ks i), s)"
      by (subst find_walk.simps) (simp add: in_chain_def del: de_Morgan_conj)
    have nk: "\<not> (i < length ks \<and> c = ks ! i)" using False file_chain_in [OF Suc.prems(1,2), of i] by auto
    then have "\<not> reliable" using Suc.prems(3) Suc.hyps(2) by (auto simp: reached_def)
    then show ?thesis using looks_refl [OF Suc.prems(1)] run nk Suc.prems(4) by (auto simp: walk_result_def)
  next
    case True
    then have i: "i < length ks" "c = ks ! i" using reached_out [OF Suc.prems(3)] by simp_all
    have k: "is_cluster s c" using file_chain_in [OF Suc.prems(1,2) i(1)] i(2) by simp
    obtain r s1 where r: "find_in_cluster ops needed c 0 (unat (g_fat_sectors_per_cluster s)) s = (r, s1)" by (metis prod.collapse)
    have "unat (0 :: u8) + unat (g_fat_sectors_per_cluster s) = unat (g_fat_sectors_per_cluster s)" by simp
    note a = find_in_cluster_spec [OF r Suc.prems(1) k this Suc.prems(5)]
    have run: "find_walk ops needed (before ks i) c s = (case r of Some found \<Rightarrow> Some (Inl found, s1)
        | None \<Rightarrow> (case fat_next_cluster ops c s1 of (next, s2) \<Rightarrow> find_walk ops needed c next s2))"
      using True by (subst find_walk.simps) (simp only: r prod.case in_chain_def if_True simp_thms)
    show ?thesis
    proof (cases r)
      case (Some found)
      then have "walk_result s ks needed j (Inl found)" for j using a i by (auto simp: walk_result_def)
      then show ?thesis using run a Some by auto
    next
      case None
      obtain d s2 where d: "fat_next_cluster ops c s1 = (d, s2)" by (metis prod.collapse)
      have l1: "looks s s1" using a by simp
      have n: "looks s1 s2" "g_fat_alloc_hint s2 = g_fat_alloc_hint s1" "reached ks (Suc i) d"
        using next_reached [OF d [unfolded i(2)] looks_ready [OF l1] _ i(1)] file_chain_looks [OF l1] Suc.prems(2) by simp_all
      have l2: "looks s s2" by (rule looks_trans [OF l1 n(1)])
      have bf: "before ks (Suc i) = c" using i(2) by (simp add: before_def)
      have rec: "find_walk ops needed (before ks i) c s = find_walk ops needed (before ks (Suc i)) d s2" using run None d bf by simp
      have m: "n = length ks - Suc i" "file_chain s2 ks" using Suc.hyps(2) Suc.prems(2) file_chain_looks [OF l2] by simp_all
      from Suc.hyps(1) [OF m(1) looks_ready [OF l2] m(2) n(3) Suc_leI [OF i(1)] Suc.prems(5)]
      obtain r' s' where ih: "find_walk ops needed (before ks (Suc i)) d s2 = Some (r', s')" "looks s2 s'" "g_fat_alloc_hint s' = g_fat_alloc_hint s2"
        "walk_result s2 ks needed (if Suc i < length ks \<and> d = ks ! Suc i then Suc (Suc i) else Suc i) r'" by blast
      have "walk_result s ks needed (Suc i) r'" using ih(4) walk_result_less unfolding walk_result_same [OF l2] by (auto split: if_splits)
      then show ?thesis using rec ih(1-3) looks_trans [OF l2 ih(2)] n(2) a i by auto
    qed
  qed
qed


text \<open>A new cluster at the end of a directory: cleared, linked behind \<open>p\<close>.\<close>

definition grown :: "'w fat_state \<Rightarrow> u32 \<Rightarrow> u32 \<Rightarrow> 'w fat_state \<Rightarrow> bool" where
  "grown s p k s' \<longleftrightarrow> is_cluster s k \<and> table s 0 k = 0 \<and> entered s s' (\<lambda>t. t(k := FAT32_EOC, p := k)) \<and>
     cluster_data (blk (f_sd s')) s k = replicate (csize s) 0 \<and>
     (\<forall>l. l \<notin> fat_area s \<longrightarrow> (\<forall>i < unat (g_fat_sectors_per_cluster s). l \<noteq> cluster_sector s k i) \<longrightarrow> blk (f_sd s') l = blk (f_sd s) l)"

lemma table_outside:
  assumes same: "\<And>l. l \<in> fat_area s \<Longrightarrow> B' l = B l" and vol: "vol_ok n s" and j: "is_cluster s j" and c: "c < unat (g_fat_count s)"
  shows "fat_entry B' s c j = fat_entry B s c j"
  using same sector_unat(3) [OF vol j c] by (simp add: fat_entry_def fat_word_def)

lemma zeroed_data:
  assumes "\<And>i. i < unat (g_fat_sectors_per_cluster s) \<Longrightarrow> B (cluster_sector s k i) = replicate 512 0"
  shows "cluster_data B s k = replicate (csize s) 0"
proof -
  have "map (\<lambda>i. B (cluster_sector s k i)) [0..<n] = replicate n (replicate 512 0)" if "n \<le> unat (g_fat_sectors_per_cluster s)" for n
    using that assms by (induction n) (auto simp: replicate_append_same [symmetric])
  then have "cluster_data B s k = concat (replicate (unat (g_fat_sectors_per_cluster s)) (replicate 512 0))"
    by (simp add: cluster_data_def)
  moreover have "concat (replicate n (replicate 512 (0 :: u8))) = replicate (512 * n) 0" for n
    by (induction n) (simp_all add: replicate_add)
  ultimately show ?thesis by simp
qed

lemma grow_spec:
  assumes rd: "fat_ready usable room s" and h: "hint_ok s"
    and al: "fat_alloc_chain ops 1 s = Some (Some k, s1)" and z: "fat_zero_cluster ops k s1 = (ok1, s2)"
    and w: "fat_write_entry ops p k s2 = (ok2, s3)"
  shows "keeps s s2 \<and> hint_ok s2 \<and> keeps s s3 \<and> hint_ok s3 \<and> (ok1 \<longrightarrow> ok2 \<longrightarrow> grown s p k s3)"
proof -
  from fat_alloc_chain_spec [OF rd h, of 1] al obtain ks where a: "keeps s s1" "outside_same s s1" "hint_ok s1"
    and ks: "length ks = 1" "hd ks = k" "\<forall>k \<in> set ks. is_cluster s k \<and> table s 0 k = 0" "entered s s1 (relink ks)" by auto
  have ksk: "ks = [k]" using ks(1,2) by (cases ks) auto
  then have k: "is_cluster s k" "table s 0 k = 0" and e1: "entered s s1 (\<lambda>t. t(k := FAT32_EOC))"
    using ks by (auto simp: entered_def)
  have g1: "geometry s1 = geometry s" by (rule keeps_geometry [OF a(1)])
  have k1: "is_cluster s1 k" using k(1) by (simp add: is_cluster_same [OF g1])
  have b: "keeps s1 s2" "g_fat_alloc_hint s2 = g_fat_alloc_hint s1" "zeroed k 0 (unat (g_fat_sectors_per_cluster s1)) ok1 s1 s2"
    using fat_zero_cluster_spec [OF z keeps_ready [OF a(1)] k1] by simp_all
  have g2: "geometry s2 = geometry s1" by (rule keeps_geometry [OF b(1)])
  have c: "keeps s2 s3" "g_fat_alloc_hint s3 = g_fat_alloc_hint s2" "outside_same s2 s3" "ok2 \<longrightarrow> entered s2 s3 (\<lambda>t. t(p := k AND 0x0FFFFFFF))"
    using fat_write_entry_spec [OF w keeps_ready [OF b(1)]] by simp_all
  have g3: "geometry s3 = geometry s2" by (rule keeps_geometry [OF c(1)])
  have kp: "keeps s s2" "keeps s s3" using keeps_trans [OF a(1) b(1)] keeps_trans [OF _ c(1)] by simp_all
  have hs: "hint_ok s2" "hint_ok s3" using a(3)
    unfolding hint_ok_def same_geometry(7) [OF g3] same_geometry(7) [OF g2] b(2) c(2) by simp_all
  have "grown s p k s3" if ok1 ok2
  proof -
    note vol = fat_readyD(2) [OF rd]
    have zd: "zeroed k 0 (unat (g_fat_sectors_per_cluster s)) True s1 s2" using b(3) that(1) by (simp add: same_geometry(8) [OF g1])
    have bz: "\<And>l. \<forall>i < unat (g_fat_sectors_per_cluster s). l \<noteq> cluster_sector s k i \<Longrightarrow> blk (f_sd s2) l = blk (f_sd s1) l"
      and zz: "\<And>i. i < unat (g_fat_sectors_per_cluster s) \<Longrightarrow> blk (f_sd s2) (cluster_sector s k i) = replicate 512 0"
      using zd unfolding zeroed_def cluster_sector_same [OF g1] by (simp_all add: image_iff Ball_def)
    have z1: "blk (f_sd s2) l = blk (f_sd s1) l" if "l \<in> fat_area s" for l
      by (rule bz) (use cluster_sector_bound(2) [OF vol k(1)] that in metis)
    have "table s2 c j = table s1 c j" if "is_cluster s j" "c < unat (g_fat_count s)" for c j
      using table_outside [of s "blk (f_sd s2)" "blk (f_sd s1)", OF z1 vol that] by (simp add: fat_entry_same [OF g1] fat_entry_same [OF g2])
    then have e2: "entered s s2 (\<lambda>t. t(k := FAT32_EOC))" using e1 by (simp add: entered_def)
    have "k AND 0x0FFFFFFF = k"
    proof -
      have "unat k < 2 ^ 28" using is_cluster_bound [OF vol k(1)] by simp
      then have "take_bit 28 k = k" by (simp add: word_unat_eq_iff unsigned_take_bit_eq take_bit_nat_eq_self)
      then show ?thesis by (simp add: take_bit_eq_mask mask_eq_exp_minus_1)
    qed
    then have "entered s s3 (\<lambda>t. t(k := FAT32_EOC, p := k))"
      using entered_upd_trans [OF e2, of s3 p k] c(4) that g1 g2 by simp
    moreover have o3: "blk (f_sd s3) l = blk (f_sd s2) l" if "l \<notin> fat_area s" for l
      using c(3) that unfolding outside_same_def fat_area_same [OF g2] fat_area_same [OF g1] by blast
    then have "cluster_data (blk (f_sd s3)) s k = replicate (csize s) 0"
      using zz cluster_sector_bound(2) [OF vol k(1)] by (intro zeroed_data) simp
    moreover have "blk (f_sd s3) l = blk (f_sd s) l"
      if "l \<notin> fat_area s" "\<forall>i < unat (g_fat_sectors_per_cluster s). l \<noteq> cluster_sector s k i" for l
      using o3 [OF that(1)] bz [of l] that a(2) by (simp add: outside_same_def)
    ultimately show ?thesis using k by (simp add: grown_def)
  qed
  then show ?thesis using kp hs by simp
qed

lemma fat_dir_find_slots_spec:
  assumes rd: "fat_ready usable room s" and h: "hint_ok s" and ch: "file_chain s ks" and n: "0 < needed"
  shows "\<exists>r s'. fat_dir_find_slots ops (hd ks) needed s = Some (r, s') \<and> keeps s s' \<and> hint_ok s' \<and>
    (\<forall>slot. r = Some slot \<longrightarrow> looks s s' \<and> (\<exists>k \<in> set ks. slot_in (blk (f_sd s)) s k needed slot) \<or>
      slot_sector slot = 0 \<and> slot_entry slot = 0 \<and> (\<exists>p \<in> set ks. (reliable \<longrightarrow> p = last ks) \<and> grown s p (slot_cluster slot) s'))"
proof -
  have ne: "ks \<noteq> []" using ch by (auto simp: chain_in_def)
  have "0 < length ks \<and> hd ks = ks ! 0" using ne by (simp add: hd_conv_nth)
  then obtain r s1 where w: "find_walk ops needed 0 (hd ks) s = Some (r, s1)" "looks s s1" "g_fat_alloc_hint s1 = g_fat_alloc_hint s"
    "walk_result s ks needed 1 r"
    using find_walk_spec [OF rd ch reached_start [OF ch] _ n] by (auto simp: before_def)
  have g1: "geometry s1 = geometry s" by (rule looks_geometry [OF w(2)])
  have k1: "keeps s s1" using w(2) by (simp add: looks_def)
  have h1: "hint_ok s1" using h w(3) unfolding hint_ok_def same_geometry(7) [OF g1] by simp
  show ?thesis
  proof (cases r)
    case (Inl found)
    then show ?thesis using w k1 h1 by (auto simp: fat_dir_find_slots_def walk_result_def)
  next
    case (Inr p)
    then obtain j where j: "1 \<le> j" "j \<le> length ks" "p = before ks j" "reliable \<longrightarrow> j = length ks"
      using w(4) unfolding walk_result_def by auto
    then have pj: "p = ks ! (j - 1)" by (simp add: before_def)
    have pin: "p \<in> set ks" unfolding pj using j(1,2) by (intro nth_mem) simp
    have pl: "reliable \<longrightarrow> p = last ks" unfolding pj using j(4) ne by (simp add: last_conv_nth)
    have "is_cluster s p" using ch pin by (simp add: chain_in_def)
    then have p2: "2 \<le> p" using is_cluster_bound [OF fat_readyD(2) [OF rd]] by simp
    obtain r2 s2 where al: "fat_alloc_chain ops 1 s1 = Some (r2, s2)" "keeps s1 s2" "hint_ok s2"
      using fat_alloc_chain_spec [OF looks_ready [OF w(2)] h1, of 1] by blast
    have k2: "keeps s s2" by (rule keeps_trans [OF k1 al(2)])
    show ?thesis
    proof (cases r2)
      case None
      then have "fat_dir_find_slots ops (hd ks) needed s = Some (None, s2)" using w(1) Inr p2 al(1) by (simp add: fat_dir_find_slots_def)
      then show ?thesis using k2 al(3) by simp
    next
      case (Some k)
      obtain ok1 s3 where z: "fat_zero_cluster ops k s2 = (ok1, s3)" by (metis prod.collapse)
      obtain ok2 s4 where wr: "fat_write_entry ops p k s3 = (ok2, s4)" by (metis prod.collapse)
      note gr = grow_spec [OF looks_ready [OF w(2)] h1 al(1) [unfolded Some] z wr]
      define s' where "s' = (if ok1 then s4 else s3)"
      have "fat_dir_find_slots ops (hd ks) needed s =
        Some (if ok1 \<and> ok2 then Some \<lparr>slot_cluster = k, slot_sector = 0, slot_entry = 0\<rparr> else None, s')"
        using w(1) Inr p2 al(1) Some z wr by (auto simp: fat_dir_find_slots_def s'_def)
      moreover have "keeps s s'" "hint_ok s'" using gr k1 by (auto simp: s'_def intro: keeps_trans)
      moreover have "grown s p k s'" if "ok1 \<and> ok2"
      proof -
        have "grown s1 p k s4" using gr that by simp
        moreover have "blk (f_sd s1) = blk (f_sd s)" using w(2) by (simp add: looks_def)
        ultimately show ?thesis using that
          unfolding grown_def entered_def looks_table [OF w(2)] is_cluster_same [OF g1] fat_area_same [OF g1] same_geometry(8,9) [OF g1]
            cluster_sector_same [OF g1] cluster_data_same [OF g1] by (simp add: s'_def)
      qed
      ultimately show ?thesis using pin pl by auto
    qed
  qed
qed

end

end
