(* ===== verification/Fat32_Space.thy ===== *)
theory Fat32_Space
  imports Fat32_Alloc
begin

text \<open>
  Allocation over a card on which nothing fails: the search finds a free cluster whenever there is one, so a chain is
  allocated exactly when the volume has that many free clusters.
\<close>

definition free_clusters :: "(nat \<Rightarrow> u8 list) \<Rightarrow> 'w fat_state \<Rightarrow> u32 set" where
  "free_clusters B s = {k. is_cluster s k \<and> fat_entry B s 0 k = 0}"

lemma finite_free [simp]: "finite (free_clusters B s)"
  by (rule finite_subset [OF subset_UNIV]) simp

context block_store
begin

abbreviation durable :: bool where "durable \<equiv> no_write_fails ops usable room"

abbreviation free_in :: "'w fat_state \<Rightarrow> u32 set" where "free_in s \<equiv> free_clusters (blk (f_sd s)) s"

lemma scratch_write_durable:
  assumes "durable" and "scratch_write ops lba s = (ok, s')" and "usable (f_sd s)" and "unat lba < room (f_sd s)" and "length (g_sd_sector s) = 512"
  shows "ok"
proof -
  have "fst (sd_write ops lba (g_sd_sector s) (f_sd s))" using assms(1,3-5) unfolding no_write_fails_def by blast
  then show ?thesis using assms(2) by (auto simp: scratch_write_def split: prod.splits)
qed

lemma write_copies_durable:
  "write_copies ops (k * 4 div SD_BLOCK_SIZE) (k * 4 mod SD_BLOCK_SIZE) v (of_nat c) n s = (ok, s') \<Longrightarrow> fat_ready usable room s \<Longrightarrow>
    is_cluster s k \<Longrightarrow> c + n \<le> unat (g_fat_count s) \<Longrightarrow> reliable \<Longrightarrow> durable \<Longrightarrow> ok"
proof (induction n arbitrary: c s)
  case (Suc n)
  let ?lba = "g_fat_fat_begin s + of_nat c * g_fat_sectors_per_fat s + k * 4 div SD_BLOCK_SIZE"
  have c: "c < unat (g_fat_count s)" using Suc.prems(4) by simp
  have lt: "unat ?lba < room (f_sd s)" using sector_unat [OF fat_readyD(2) [OF Suc.prems(2)] Suc.prems(3) c] by simp
  obtain d w where r: "sd_read ops ?lba (f_sd s) = (Some d, w)"
    using Suc.prems(5) fat_readyD(1) [OF Suc.prems(2)] lt unfolding no_read_fails_def by (metis option.exhaust prod.collapse)
  define s1 where "s1 = s\<lparr>g_sd_sector := d, f_sd := w\<rparr>"
  have r1: "scratch_read ops ?lba s = (True, s1)" using r by (simp add: scratch_read_def s1_def)
  define s2 where "s2 = s1\<lparr>g_sd_sector := wr32 (g_sd_sector s1) (unat (k * 4 mod SD_BLOCK_SIZE))
     ((rd32 (g_sd_sector s1) (unat (k * 4 mod SD_BLOCK_SIZE)) AND 0xF0000000) OR (v AND 0x0FFFFFFF))\<rparr>"
  obtain ok2 s3 where w: "scratch_write ops ?lba s2 = (ok2, s3)" by (metis prod.collapse)
  note one = write_copy [OF Suc.prems(2,3) c refl r1 s2_def w]
  note rs = scratch_read_spec [OF r1 Suc.prems(2) lt]
  have "usable (f_sd s2)" "room (f_sd s2) = room (f_sd s)" "length (g_sd_sector s2) = 512"
    using rs fat_readyD [OF keeps_ready [OF conjunct1 [OF rs]]] by (simp_all add: s2_def keeps_def wr32_def)
  then have "ok2" using scratch_write_durable [OF Suc.prems(6) w] lt by simp
  then have w1: "scratch_write ops ?lba s2 = (True, s3)" using w by simp
  have "write_copies ops (k * 4 div SD_BLOCK_SIZE) (k * 4 mod SD_BLOCK_SIZE) v (of_nat c + 1) n s3 = (ok, s')"
    using Suc.prems(1) r1 w1 s2_def by (auto simp: Let_def)
  then have run: "write_copies ops (k * 4 div SD_BLOCK_SIZE) (k * 4 mod SD_BLOCK_SIZE) v (of_nat (Suc c)) n s3 = (ok, s')"
    by (simp add: add.commute)
  have k3: "keeps s s3" using one by blast
  note g = keeps_geometry [OF k3]
  have "is_cluster s3 k" "Suc c + n \<le> unat (g_fat_count s3)"
    using Suc.prems(3,4) by (simp_all add: is_cluster_same [OF g] same_geometry(9) [OF g])
  from Suc.IH [OF run keeps_ready [OF k3] this Suc.prems(5,6)] show ?case .
qed simp

lemma fat_write_entry_durable:
  assumes run: "fat_write_entry ops k v s = (ok, s')" and rd: "fat_ready usable room s" and k: "is_cluster s k" and rel: reliable durable
  shows "ok"
proof -
  have "write_copies ops (k * 4 div SD_BLOCK_SIZE) (k * 4 mod SD_BLOCK_SIZE) v (of_nat 0) (unat (g_fat_count s)) s = (ok, s')"
    using run guard_is_cluster [OF fat_readyD(2) [OF rd], of k] k by (simp add: fat_write_entry_def Let_def split: if_splits)
  then show ?thesis by (rule write_copies_durable [OF _ rd k _ rel]) simp
qed

lemma find_pass_complete:
  "find_pass ops cluster l s = Some (None, s') \<Longrightarrow> fat_ready usable room s \<Longrightarrow> unat l < 2 ^ 32 - 1 \<Longrightarrow>
    (\<And>k. cluster \<le> k \<Longrightarrow> k \<le> l \<Longrightarrow> is_cluster s k) \<Longrightarrow> reliable \<Longrightarrow> cluster \<le> k \<Longrightarrow> k \<le> l \<Longrightarrow> table s 0 k \<noteq> 0"
proof (induction "Suc (unat l) - unat cluster" arbitrary: cluster s)
  case 0
  then show ?case by (simp add: word_le_nat_alt)
next
  case (Suc n)
  have le: "cluster \<le> l" using Suc.prems(6,7) by simp
  have c: "is_cluster s cluster" using Suc.prems(4) le by simp
  obtain v s1 where v: "fat_next_cluster ops cluster s = (v, s1)" by (metis prod.collapse)
  have t: "v = table s 0 cluster" by (rule fat_next_cluster_reliable [OF Suc.prems(5) v Suc.prems(2) c])
  note sp = fat_next_cluster_spec [OF v Suc.prems(2) c]
  have nz: "v \<noteq> 0" using Suc.prems(1) v le by (auto simp: find_pass.simps [of ops cluster])
  then have run: "find_pass ops (cluster + 1) l s1 = Some (None, s')"
    using Suc.prems(1) v le by (simp add: find_pass.simps [of ops cluster])
  show ?case
  proof (cases "k = cluster")
    case True
    then show ?thesis using t nz by simp
  next
    case False
    have su: "unat (cluster + 1) = Suc (unat cluster)" using le Suc.prems(3) by (intro u32_unat_below) (simp add: word_le_nat_alt)
    have g: "geometry s1 = geometry s" using sp by (simp add: keeps_def)
    have k: "cluster + 1 \<le> k" using False Suc.prems(6) su by (simp add: word_le_nat_alt word_unat_eq_iff)
    have ic: "is_cluster s1 j" if "cluster + 1 \<le> j" "j \<le> l" for j
      using that su Suc.prems(4) unfolding is_cluster_same [OF g] by (simp add: word_le_nat_alt)
    have m: "n = Suc (unat l) - unat (cluster + 1)" using Suc.hyps(2) su by simp
    have "table s1 0 k \<noteq> 0"
      by (rule Suc.hyps(1) [OF m run keeps_ready [OF conjunct1 [OF sp]] Suc.prems(3) ic Suc.prems(5) k Suc.prems(7)])
    then show ?thesis using sp by (simp add: fat_entry_same [OF g])
  qed
qed

lemma find_free_complete:
  assumes run: "fat_find_free_cluster ops s = Some (None, s')" and rd: "fat_ready usable room s" and h: "hint_ok s" and rel: reliable
  shows "free_in s = {}"
proof -
  define start where "start = (if 2 \<le> g_fat_alloc_hint s then g_fat_alloc_hint s else 2)"
  let ?max = "g_fat_cluster_count s + 1"
  note vol = fat_readyD(2) [OF rd]
  have mx: "unat ?max = unat (g_fat_cluster_count s) + 1" "unat (g_fat_cluster_count s) + 2 < 2 ^ 31"
    using vol_okD(7) [OF vol] by (simp_all add: FAT32_EOC_def unat_word_ariths)
  have st: "2 \<le> unat start" "unat start \<le> unat (g_fat_cluster_count s) + 2"
    using h by (auto simp: start_def hint_ok_def word_le_nat_alt)
  have st1: "unat (start - 1) = unat start - 1" using unat_minus_one [of start] st(1) by fastforce
  have ic1: "is_cluster s k" if "start \<le> k" "k \<le> ?max" for k using st(1) mx(1) that by (simp add: is_cluster_def word_le_nat_alt)
  have lm: "unat ?max < 2 ^ 32 - 1" "unat (start - 1) < 2 ^ 32 - 1" using mx st st1 by simp_all
  from find_pass_spec [OF rd lm(1) ic1] obtain r1 s1 where p1: "find_pass ops start ?max s = Some (r1, s1)" "keeps s s1" "blk (f_sd s1) = blk (f_sd s)"
    by blast
  have n1: "r1 = None" and p2: "find_pass ops 2 (start - 1) s1 = Some (None, s')"
    using run p1(1) by (auto simp: fat_find_free_cluster_def Let_def start_def [symmetric] split: option.splits)
  have g1: "geometry s1 = geometry s" by (rule keeps_geometry [OF p1(2)])
  have ic2: "is_cluster s1 k" if "2 \<le> k" "k \<le> start - 1" for k
    using st st1 that unfolding is_cluster_same [OF g1] by (simp add: is_cluster_def word_le_nat_alt)
  have "table s 0 k \<noteq> 0" if k: "is_cluster s k" for k
  proof (cases "start \<le> k")
    case True
    moreover have "k \<le> ?max" using k mx(1) by (simp add: is_cluster_def word_le_nat_alt)
    ultimately show ?thesis using find_pass_complete [OF p1(1) [unfolded n1] rd lm(1) ic1 rel] by simp
  next
    case False
    then have "k \<le> start - 1" "2 \<le> k" using k st1 by (simp_all add: is_cluster_def word_le_nat_alt)
    then have "table s1 0 k \<noteq> 0" using find_pass_complete [OF p2 keeps_ready [OF p1(2)] lm(2) ic2 rel] by simp
    then show ?thesis using p1(3) by (simp add: fat_entry_same [OF g1])
  qed
  then show ?thesis by (auto simp: free_clusters_def)
qed

lemma alloc_loop_complete:
  "fat_ready usable room s \<Longrightarrow> hint_ok s \<Longrightarrow> (p \<noteq> 0 \<Longrightarrow> is_cluster s p \<and> table s 0 p = FAT32_EOC) \<Longrightarrow> reliable \<Longrightarrow> durable \<Longrightarrow>
    n \<le> Finite_Set.card (free_in s) \<Longrightarrow> \<exists>x s'. alloc_loop ops n f p s = Some (Some x, s')"
proof (induction n arbitrary: f p s)
  case (Suc n)
  from fat_find_free_cluster_spec [OF Suc.prems(1,2)] obtain r s1 where
    fr: "fat_find_free_cluster ops s = Some (r, s1)" "keeps s s1" "\<forall>k. r = Some k \<longrightarrow> is_cluster s k \<and> table s 0 k = 0" by blast
  have "r \<noteq> None" using find_free_complete [OF _ Suc.prems(1,2,4)] fr(1) Suc.prems(6) by fastforce
  then obtain k where k: "r = Some k" by blast
  obtain ok1 s2 where w1: "fat_write_entry ops k FAT32_EOC s1 = (ok1, s2)" by (metis prod.collapse)
  obtain ok2 s3 where w2: "(if p \<noteq> 0 then fat_write_entry ops p k s2 else (True, s2)) = (ok2, s3)" by (metis prod.collapse)
  note st = alloc_step [OF Suc.prems(1-3) fr(1) [unfolded k] w1 w2]
  have g1: "geometry s1 = geometry s" by (rule keeps_geometry [OF fr(2)])
  have k2: "keeps s s2" and k3: "keeps s s3" using st by blast+
  have kc: "is_cluster s k" "table s 0 k = 0" using fr(3) k by blast+
  have ok1: ok1 by (rule fat_write_entry_durable [OF w1 keeps_ready [OF fr(2)] _ Suc.prems(4,5)]) (simp add: kc is_cluster_same [OF g1])
  have ok2: ok2
  proof (cases "p = 0")
    case False
    then have "fat_write_entry ops p k s2 = (ok2, s3)" using w2 by simp
    then show ?thesis
      by (rule fat_write_entry_durable [OF _ keeps_ready [OF k2] _ Suc.prems(4,5)]) (simp add: Suc.prems(3) False is_cluster_same [OF keeps_geometry [OF k2]])
  qed (use w2 in simp)
  have run: "alloc_loop ops (Suc n) f p s = alloc_loop ops n (if f = 0 then k else f) k s3"
    using fr(1) k w1 w2 ok1 ok2 by simp
  let ?u = "\<lambda>t. if p = 0 then t(k := FAT32_EOC) else t(k := FAT32_EOC, p := k)"
  have e3: "entered s s3 ?u" using st ok1 ok2 by blast
  have fc: "0 < unat (g_fat_count s)" using vol_okD(2) [OF fat_readyD(2) [OF Suc.prems(1)]] by (simp add: word_less_nat_alt)
  have t3: "table s3 0 j = ?u (table s 0) j" if "is_cluster s j" for j
    using e3 fc that unfolding entered_def by (metis (no_types, lifting))
  note g3 = keeps_geometry [OF k3]
  have k0: "k \<noteq> 0" using kc by (auto simp: is_cluster_def)
  have pk: "p \<noteq> k" using st by blast
  have pe: "p = 0 \<or> table s 0 p \<noteq> 0" using Suc.prems(3) by (auto simp: FAT32_EOC_def)
  have "free_in s3 = free_in s - {k}"
    using t3 k0 pk pe unfolding free_clusters_def is_cluster_same [OF g3] by (auto simp: FAT32_EOC_def split: if_splits)
  moreover have "k \<in> free_in s" using kc by (simp add: free_clusters_def)
  ultimately have "n \<le> Finite_Set.card (free_in s3)" using Suc.prems(6) by simp
  moreover have "is_cluster s3 k \<and> table s3 0 k = FAT32_EOC" using kc pk t3 [OF kc(1)] by (simp add: is_cluster_same [OF g3])
  moreover have "hint_ok s3" using st by blast
  ultimately show ?case using Suc.IH [OF keeps_ready [OF k3] _ _ Suc.prems(4,5)] unfolding run by blast
qed simp

lemma fat_alloc_chain_complete:
  assumes rd: "fat_ready usable room s" and h: "hint_ok s" and rel: reliable durable and n: "n \<noteq> 0"
    and room: "unat n \<le> Finite_Set.card (free_in s)"
  shows "\<exists>x s'. fat_alloc_chain ops n s = Some (Some x, s')"
  using alloc_loop_complete [OF rd h _ rel room, of 0 0] n by (simp add: fat_alloc_chain_def)

lemma fat_alloc_chain_needs:
  assumes rd: "fat_ready usable room s" and h: "hint_ok s" and run: "fat_alloc_chain ops n s = Some (Some x, s')"
  shows "unat n \<le> Finite_Set.card (free_in s)"
proof -
  from fat_alloc_chain_spec [OF rd h, of n] run obtain ks where
    "length ks = unat n" "distinct ks" "\<forall>k \<in> set ks. is_cluster s k \<and> table s 0 k = 0" by auto
  then show ?thesis using card_mono [of "free_in s" "set ks"] by (auto simp: free_clusters_def distinct_card [symmetric])
qed

end

end
