(* ===== verification/Fat32_Volume.thy ===== *)
theory Fat32_Volume
  imports Sd_Card Fat32_File Fat32_Dir Fat32_Space
begin

text \<open>
  \<open>storage/fat32_sd.c\<close>, the rest of \<open>fat32_state.c\<close>, \<open>storage/file_mount.c\<close> and \<open>services/sd_service.c\<close>: the volume mounted
  on the card, the periodic health check, insertion and removal. Here the FAT routines run on the driver of \<open>Sd_Card\<close>,
  and the properties of the file system are stated for every card that keeps to the specification (\<open>sd_device\<close>).
\<close>

type_synonym 'c volume = "'c sd_state fat_state"

definition hk_sd_present :: "'c volume \<Rightarrow> bool" where "hk_sd_present s = g_sd_present (f_sd s)"
definition hk_fat_mounted :: "'c volume \<Rightarrow> bool" where "hk_fat_mounted s = g_fat_mounted (f_sd s)"
definition fat32_probe_silent :: "'c volume \<Rightarrow> bool" where "fat32_probe_silent s = g_sd_probe_silent (f_sd s)"

definition fat32_set_probe_silent :: "bool \<Rightarrow> 'c volume \<Rightarrow> 'c volume" where
  "fat32_set_probe_silent silent s = s\<lparr>f_sd := (f_sd s)\<lparr>g_sd_probe_silent := silent\<rparr>\<rparr>"

definition fat32_mark_removed :: "'c volume \<Rightarrow> 'c volume" where
  "fat32_mark_removed s = s\<lparr>f_sd := fat32_card_reset_state (f_sd s)\<rparr>"

record fat32_mount_info =
  mi_lba_begin :: u32
  mi_fat_begin :: u32
  mi_data_begin :: u32
  mi_root_cluster :: u32
  mi_sectors_per_fat :: u32
  mi_total_sectors :: u32
  mi_cluster_count :: u32
  mi_sectors_per_cluster :: u8
  mi_fat_count :: u8

definition fat32_set_mounted :: "fat32_mount_info \<Rightarrow> 'c volume \<Rightarrow> 'c volume" where
  "fat32_set_mounted mount s = s\<lparr>g_fat_lba_begin := mi_lba_begin mount, g_fat_fat_begin := mi_fat_begin mount,
     g_fat_data_begin := mi_data_begin mount, g_fat_root_cluster := mi_root_cluster mount,
     g_fat_sectors_per_fat := mi_sectors_per_fat mount, g_fat_total_sectors := mi_total_sectors mount,
     g_fat_cluster_count := mi_cluster_count mount, g_fat_sectors_per_cluster := mi_sectors_per_cluster mount,
     g_fat_count := mi_fat_count mount, g_fat_alloc_hint := 2, f_sd := (f_sd s)\<lparr>g_fat_mounted := True\<rparr>\<rparr>"

text \<open>What the boot sector says, and whether the code takes it.\<close>

definition mount_info :: "u32 \<Rightarrow> u8 list \<Rightarrow> fat32_mount_info option" where
  "mount_info bpb_lba sector = (
     let bytes_per_sector = rd16 sector 11;
         reserved = rd16 sector 14;
         fats = sector ! 16;
         sectors_per_cluster = sector ! 13;
         sectors_per_fat = rd32 sector 36;
         root_cluster = rd32 sector 44;
         total16 = ucast (rd16 sector 19);
         total_sectors = (if total16 = 0 then rd32 sector 32 else total16)
     in if ucast bytes_per_sector \<noteq> SD_BLOCK_SIZE \<or> sectors_per_cluster = 0 \<or> sectors_per_fat = 0 \<or> fats = 0 \<or> root_cluster < 2 \<or>
           total_sectors = 0 then None
        else
          let fat_begin = bpb_lba + ucast reserved;
              data_begin = fat_begin + ucast fats * sectors_per_fat;
              data_sectors = total_sectors - (data_begin - bpb_lba)
          in Some \<lparr>mi_lba_begin = bpb_lba, mi_fat_begin = fat_begin, mi_data_begin = data_begin, mi_root_cluster = root_cluster,
               mi_sectors_per_fat = sectors_per_fat, mi_total_sectors = total_sectors,
               mi_cluster_count = data_sectors div ucast sectors_per_cluster,
               mi_sectors_per_cluster = sectors_per_cluster, mi_fat_count = fats\<rparr>)"

definition fat32_mount :: "'c sd_bus \<Rightarrow> 'c volume \<Rightarrow> bool \<times> 'c volume" where
  "fat32_mount bus s = (case scratch_read (sd_card_ops bus) 0 s of
     (False, s1) \<Rightarrow> (False, s1)
   | (True, s1) \<Rightarrow>
       let sector = g_sd_sector s1
       in if sector ! 510 \<noteq> 0x55 \<or> sector ! 511 \<noteq> 0xAA then (False, s1)
          else
            let bpb_lba = (if sector ! 450 = 0x0B \<or> sector ! 450 = 0x0C then rd32 sector 454 else 0)
            in case (if bpb_lba \<noteq> 0 then scratch_read (sd_card_ops bus) bpb_lba s1 else (True, s1)) of
                 (False, s2) \<Rightarrow> (False, s2)
               | (True, s2) \<Rightarrow> (case mount_info bpb_lba (g_sd_sector s2) of
                   None \<Rightarrow> (False, s2)
                 | Some mount \<Rightarrow> (True, fat32_set_mounted mount s2)))"

definition fat32_health_check :: "'c sd_bus \<Rightarrow> 'c volume \<Rightarrow> bool \<times> 'c volume" where
  "fat32_health_check bus s = (
     if \<not> hk_sd_present s \<or> \<not> hk_fat_mounted s then (False, s)
     else case scratch_read (sd_card_ops bus) (g_fat_lba_begin s) s of
       (False, s1) \<Rightarrow> (False, s1)
     | (True, s1) \<Rightarrow>
         if g_sd_sector s1 ! 510 \<noteq> 0x55 \<or> g_sd_sector s1 ! 511 \<noteq> 0xAA then (False, s1)
         else (ucast (rd16 (g_sd_sector s1) 11) = SD_BLOCK_SIZE, s1))"

definition file_mount_if_needed :: "'c sd_bus \<Rightarrow> 'c volume \<Rightarrow> bool \<times> 'c volume" where
  "file_mount_if_needed bus s = (
     if hk_sd_present s \<and> hk_fat_mounted s then (True, s)
     else case sd_card_init bus (f_sd s) of
       (False, w) \<Rightarrow> (False, s\<lparr>f_sd := w\<rparr>)
     | (True, w) \<Rightarrow> fat32_mount bus (s\<lparr>f_sd := w\<rparr>))"

datatype hk_sd_event_t = HK_SD_EVENT_NONE | HK_SD_EVENT_INSERTED | HK_SD_EVENT_REMOVED | HK_SD_EVENT_MOUNTED | HK_SD_EVENT_ERROR

definition SD_POLL_MOUNTED_TICKS :: u8 where "SD_POLL_MOUNTED_TICKS = 50"
definition SD_POLL_UNMOUNTED_TICKS :: u8 where "SD_POLL_UNMOUNTED_TICKS = 100"

text \<open>The state of the service is its tick counter, \<open>g_sd_service_poll_ticks\<close>.\<close>

definition sd_service_tick :: "'c sd_bus \<Rightarrow> u8 \<times> 'c volume \<Rightarrow> hk_sd_event_t \<times> u8 \<times> 'c volume" where
  "sd_service_tick bus = (\<lambda>(ticks, s).
     if 0 < ticks then (HK_SD_EVENT_NONE, ticks - 1, s)
     else if hk_sd_present s \<and> hk_fat_mounted s then
       (case fat32_health_check bus s of
          (True, s1) \<Rightarrow> (HK_SD_EVENT_NONE, SD_POLL_MOUNTED_TICKS, s1)
        | (False, s1) \<Rightarrow> (HK_SD_EVENT_REMOVED, SD_POLL_MOUNTED_TICKS, fat32_mark_removed s1))
     else
       (case file_mount_if_needed bus (fat32_set_probe_silent True s) of (mounted, s1) \<Rightarrow>
          (if mounted then HK_SD_EVENT_MOUNTED else HK_SD_EVENT_NONE, SD_POLL_UNMOUNTED_TICKS, fat32_set_probe_silent False s1)))"

section \<open>Inserted and removed cards\<close>

definition volume_up :: "'c volume \<Rightarrow> bool" where
  "volume_up s \<longleftrightarrow> hk_sd_present s \<and> hk_fat_mounted s"

lemma only_hw_scratch: "scratch_read (sd_card_ops bus) lba s = (ok, s') \<Longrightarrow> only_hw (f_sd s) (f_sd s')"
  using only_hw_read [of "f_sd s" bus lba] by (auto simp: scratch_read_def sd_card_ops_def split: prod.splits option.splits)

lemma only_hw_up: "only_hw (f_sd s) (f_sd s') \<Longrightarrow> volume_up s' = volume_up s"
  by (simp add: only_hw_def volume_up_def hk_sd_present_def hk_fat_mounted_def)

lemma init_flags:
  assumes "sd_card_init bus w = (ok, w')"
  shows "g_sd_present w' = ok \<and> \<not> g_fat_mounted w'"
proof -
  define s0 where "s0 = send_bytes bus (replicate 12 0xFF) (sd_spi_board_init bus SD_INIT_CLK_HZ (fat32_card_reset_state w))"
  have o0: "only_hw (fat32_card_reset_state w) s0" unfolding s0_def sd_spi_board_init_def
    by (rule only_hw_trans [OF only_hw_trans [OF only_hw_cs(2) only_hw_cs(3)] only_hw_send])
  obtain r0 e0 s1 where c0: "sd_command bus 0 0 0x95 0 True s0 = (r0, e0, s1)" by (metis prod_cases3)
  have o1: "only_hw s0 s1" using only_hw_command [of s0 bus 0 0 "0x95" 0 True] c0 by simp
  obtain r8 e8 s2 where c8: "sd_command bus 8 0x000001AA 0x87 4 True s1 = (r8, e8, s2)" by (metis prod_cases3)
  have o2: "only_hw s1 s2" using only_hw_command [of s1 bus 8 "0x000001AA" "0x87" 4 True] c8 by simp
  define v2 where "v2 = (r8 = 0x01 \<and> (case e8 of Some e \<Rightarrow> e ! 2 = 0x01 \<and> e ! 3 = 0xAA | None \<Rightarrow> False))"
  obtain r41 s3 where c41: "leave_idle bus v2 1000 r8 s2 = (r41, s3)" by (metis prod.collapse)
  have o3: "only_hw s2 s3" using only_hw_leave [of s2 bus v2 1000 r8] c41 by simp
  obtain r58 e58 s4 where c58: "sd_command bus 58 0 0x01 4 True s3 = (r58, e58, s4)" by (metis prod_cases3)
  have o4: "only_hw s3 s4" using only_hw_command [of s3 bus 58 0 "0x01" 4 True] c58 by simp
  define s5 where "s5 = (if r58 = 0 \<and> (case e58 of Some e \<Rightarrow> e ! 0 AND 0x40 \<noteq> 0 | None \<Rightarrow> False) then s4\<lparr>g_sd_sdhc := True\<rparr> else s4)"
  define s6 where "s6 = (if g_sd_sdhc s5 then s5 else snd (snd (sd_command bus 16 SD_BLOCK_SIZE 0x01 0 True s5)))"
  have o6: "only_hw s5 s6" using only_hw_command [of s5 bus 16 SD_BLOCK_SIZE "0x01" 0 True] by (simp add: s6_def)
  have f: "\<not> g_fat_mounted (fat32_card_reset_state w)" "\<not> g_sd_present (fat32_card_reset_state w)" by (simp_all add: fat32_card_reset_state_def)
  have m: "\<not> g_fat_mounted s1 \<and> \<not> g_sd_present s1" "\<not> g_fat_mounted s3 \<and> \<not> g_sd_present s3" "\<not> g_fat_mounted s4"
    using f o0 o1 o2 o3 o4 by (simp_all add: only_hw_def)
  then have "\<not> g_fat_mounted (sd_spi_config bus SD_RUN_CLK_HZ s6)"
    using o6 only_hw_cs(3) [of s6 bus SD_RUN_CLK_HZ] by (simp add: only_hw_def s5_def split: if_splits)
  moreover have "(ok, w') = (if r0 \<noteq> 0x01 then (False, s1) else if r41 \<noteq> 0 then (False, s3)
      else (True, (sd_spi_config bus SD_RUN_CLK_HZ s6)\<lparr>g_sd_present := True\<rparr>))"
    using assms [symmetric] unfolding sd_card_init_def Let_def s0_def [symmetric] c0 prod.case c8 v2_def [symmetric] c41 c58
      s5_def [symmetric] s6_def [symmetric] .
  ultimately show ?thesis using m by (simp split: if_splits)
qed

lemma mount_flags:
  assumes "fat32_mount bus s = (ok, s')"
  shows "hk_sd_present s' = hk_sd_present s \<and> hk_fat_mounted s' = (ok \<or> hk_fat_mounted s)"
proof -
  have rd: "hk_sd_present s2 = hk_sd_present s1 \<and> hk_fat_mounted s2 = hk_fat_mounted s1" if "scratch_read (sd_card_ops bus) lba s1 = (r, s2)" for lba r s1 s2
    using only_hw_scratch [OF that] by (simp add: only_hw_def hk_sd_present_def hk_fat_mounted_def)
  show ?thesis
    using assms rd by (auto simp: fat32_mount_def Let_def fat32_set_mounted_def hk_sd_present_def hk_fat_mounted_def
        split: prod.splits bool.splits option.splits if_splits)
qed

lemma mount_needed_flags:
  assumes "file_mount_if_needed bus s = (ok, s')" and "\<not> volume_up s"
  shows "ok = volume_up s'"
proof -
  obtain r w where i: "sd_card_init bus (f_sd s) = (r, w)" by (metis prod.collapse)
  note f = init_flags [OF i]
  have n: "\<not> (hk_sd_present s \<and> hk_fat_mounted s)" using assms(2) by (simp add: volume_up_def)
  show ?thesis
  proof (cases r)
    case False
    then have "ok = False" "s' = s\<lparr>f_sd := w\<rparr>" using assms(1) i n by (auto simp: file_mount_if_needed_def split: if_splits)
    then show ?thesis using f False by (simp add: volume_up_def hk_sd_present_def)
  next
    case True
    then have "fat32_mount bus (s\<lparr>f_sd := w\<rparr>) = (ok, s')" using assms(1) i n by (auto simp: file_mount_if_needed_def split: if_splits)
    from mount_flags [OF this] f True show ?thesis by (simp add: volume_up_def hk_sd_present_def hk_fat_mounted_def)
  qed
qed

lemma health_flags: "fat32_health_check bus s = (ok, s') \<Longrightarrow> volume_up s' = volume_up s"
  using only_hw_up only_hw_scratch by (fastforce simp: fat32_health_check_def split: prod.splits bool.splits if_splits)

lemma health_silent: "fat32_health_check bus s = (ok, s') \<Longrightarrow> fat32_probe_silent s' = fat32_probe_silent s"
  using only_hw_scratch [of bus "g_fat_lba_begin s" s]
  by (auto simp: fat32_health_check_def fat32_probe_silent_def only_hw_def split: prod.splits bool.splits if_splits)

section \<open>A mounted volume\<close>

text \<open>The volume can be used: the driver can use the card, the geometry fits on it, the search hint is in range.\<close>

definition volume_ok :: "('c \<Rightarrow> sd_view) \<Rightarrow> 'c volume \<Rightarrow> bool" where
  "volume_ok view s \<longleftrightarrow> fat_ready (sd_usable view) (sd_room view) s \<and> hint_ok s"

text \<open>The contents of the card, the links of copy \<open>c\<close> of its table, the chain of a file and its bytes.\<close>

abbreviation disk :: "('c \<Rightarrow> sd_view) \<Rightarrow> 'c volume \<Rightarrow> nat \<Rightarrow> u8 list" where "disk view s \<equiv> sd_blk view (f_sd s)"
abbreviation links :: "('c \<Rightarrow> sd_view) \<Rightarrow> 'c volume \<Rightarrow> nat \<Rightarrow> u32 \<Rightarrow> u32" where "links view s \<equiv> fat_entry (disk view s) s"
abbreviation has_chain :: "('c \<Rightarrow> sd_view) \<Rightarrow> 'c volume \<Rightarrow> u32 list \<Rightarrow> bool" where "has_chain view s \<equiv> chain_in (disk view s) s"
abbreviation bytes_of :: "('c \<Rightarrow> sd_view) \<Rightarrow> 'c volume \<Rightarrow> u32 list \<Rightarrow> u8 list" where "bytes_of view s \<equiv> file_data (disk view s) s"

abbreviation card_reliable :: "'c sd_bus \<Rightarrow> ('c \<Rightarrow> sd_view) \<Rightarrow> bool" where
  "card_reliable bus view \<equiv> no_read_fails (sd_card_ops bus) (sd_usable view) (sd_room view)"

abbreviation card_durable :: "'c sd_bus \<Rightarrow> ('c \<Rightarrow> sd_view) \<Rightarrow> bool" where
  "card_durable bus view \<equiv> no_write_fails (sd_card_ops bus) (sd_usable view) (sd_room view)"

lemma chain_used:
  assumes "vol_ok n s" and "fat_chain t ks" and "\<forall>k \<in> set ks. is_cluster s k" and "j \<in> set ks"
  shows "t j \<noteq> 0"
proof -
  obtain i where i: "i < length ks" "j = ks ! i" using assms(4) by (auto simp: in_set_conv_nth)
  show ?thesis
  proof (cases "Suc i < length ks")
    case True
    then have "is_cluster s (ks ! Suc i)" using assms(3) by simp
    then show ?thesis using fat_chain_nth [OF assms(2) i(1)] i(2) True by (auto simp: is_cluster_def)
  next
    case False
    then show ?thesis using fat_chain_nth [OF assms(2) i(1)] i(2) by (auto simp: FAT32_EOC_def)
  qed
qed

lemma chain_snoc: "fat_chain t ks \<Longrightarrow> distinct ks \<Longrightarrow> k \<notin> set ks \<Longrightarrow> fat_chain (t(k := FAT32_EOC, last ks := k)) (ks @ [k])"
proof (induction t ks rule: fat_chain.induct)
  case (3 t j l ks)
  let ?t = "t(k := FAT32_EOC, last (l # ks) := k)"
  have "fat_chain ?t ((l # ks) @ [k])" using 3(2-4) by (intro 3(1)) auto
  moreover have "last (l # ks) \<noteq> j" "k \<noteq> j" "t j = l" using 3(2-4) last_in_set [of "l # ks"] by (auto simp del: last.simps)
  then have "?t j = l" by (simp del: last.simps)
  moreover have "last (j # l # ks) = last (l # ks)" by simp
  ultimately show ?case by (simp only: append_Cons fat_chain.simps)
qed auto

lemma set_mounted_fields [simp]:
  "g_fat_fat_begin (fat32_set_mounted m s) = mi_fat_begin m" "g_fat_data_begin (fat32_set_mounted m s) = mi_data_begin m"
  "g_fat_cluster_count (fat32_set_mounted m s) = mi_cluster_count m" "g_fat_root_cluster (fat32_set_mounted m s) = mi_root_cluster m"
  "g_fat_sectors_per_cluster (fat32_set_mounted m s) = mi_sectors_per_cluster m" "g_fat_count (fat32_set_mounted m s) = mi_fat_count m"
  by (simp_all add: fat32_set_mounted_def)

text \<open>Where the boot sector is looked for, and what the FAT32 specification demands of it on a card of \<open>n\<close> blocks; the
  numbers are those of the volume, without wrap-around.\<close>

definition boot_lba :: "u8 list \<Rightarrow> u32" where
  "boot_lba sector = (if sector ! 450 = 0x0B \<or> sector ! 450 = 0x0C then rd32 sector 454 else 0)"

definition bpb_total :: "u8 list \<Rightarrow> nat" where
  "bpb_total sector = (if rd16 sector 19 = 0 then unat (rd32 sector 32) else unat (rd16 sector 19))"

definition bpb_data :: "u8 list \<Rightarrow> nat" where
  "bpb_data sector = unat (rd16 sector 14) + unat (sector ! 16) * unat (rd32 sector 36)"

definition bpb_clusters :: "u8 list \<Rightarrow> nat" where
  "bpb_clusters sector = (bpb_total sector - bpb_data sector) div unat (sector ! 13)"

definition bpb_ok :: "nat \<Rightarrow> nat \<Rightarrow> u8 list \<Rightarrow> bool" where
  "bpb_ok n lba sector \<longleftrightarrow> rd16 sector 11 = 512 \<and> 0 < sector ! 13 \<and> 0 < sector ! 16 \<and> 0 < rd32 sector 36 \<and> 2 \<le> rd32 sector 44 \<and>
     bpb_data sector < bpb_total sector \<and> lba + bpb_total sector \<le> n \<and>
     bpb_clusters sector + 2 \<le> 128 * unat (rd32 sector 36) \<and> bpb_clusters sector + 2 \<le> unat FAT32_EOC"

lemma mount_info_ok:
  assumes ok: "bpb_ok n (unat lba) sector" and n: "n \<le> 2 ^ 32"
  obtains m where "mount_info lba sector = Some m" "mi_lba_begin m = lba" "mi_root_cluster m = rd32 sector 44"
    "unat (mi_fat_begin m) = unat lba + unat (rd16 sector 14)" "unat (mi_data_begin m) = unat lba + bpb_data sector"
    "unat (mi_cluster_count m) = bpb_clusters sector" "mi_sectors_per_fat m = rd32 sector 36"
    "mi_sectors_per_cluster m = sector ! 13" "mi_fat_count m = sector ! 16"
proof -
  define total :: u32 where "total = (if (ucast (rd16 sector 19) :: u32) = 0 then rd32 sector 32 else ucast (rd16 sector 19))"
  define fb where "fb = lba + ucast (rd16 sector 14)"
  define db where "db = fb + ucast (sector ! 16) * rd32 sector 36"
  have u16: "unat (ucast (x :: u16) :: u32) = unat x" for x
    using unsigned_less [of x, where ?'a = nat] by (simp add: unsigned_ucast_eq take_bit_nat_eq_self)
  have z: "(ucast (rd16 sector 19) :: u32) = 0 \<longleftrightarrow> rd16 sector 19 = 0" by (simp add: word_unat_eq_iff [where 'a = 32] u16 unat_eq_0)
  have t: "unat total = bpb_total sector" using z by (simp add: total_def bpb_total_def u16)
  have b: "bpb_data sector < bpb_total sector" "unat lba + bpb_total sector \<le> 2 ^ 32" using ok n by (simp_all add: bpb_ok_def)
  have "fb = of_nat (unat lba + unat (rd16 sector 14))" by (simp add: fb_def u16 [symmetric])
  then have fb: "unat fb = unat lba + unat (rd16 sector 14)"
    using b by (simp add: bpb_data_def unat_of_nat del: of_nat_add)
  have "db = of_nat (unat lba + bpb_data sector)" by (simp add: db_def fb_def bpb_data_def u16 [symmetric])
  then have db: "unat db = unat lba + bpb_data sector"
    using b by (simp add: unat_of_nat del: of_nat_add)
  have "lba \<le> db" using db by (simp add: word_le_nat_alt)
  then have "unat (db - lba) = bpb_data sector" using db by (simp add: unat_sub)
  then have "unat (total - (db - lba)) = bpb_total sector - bpb_data sector" using t b by (simp add: unat_sub word_le_nat_alt)
  then have cc: "unat ((total - (db - lba)) div ucast (sector ! 13)) = bpb_clusters sector" by (simp add: unat_div bpb_clusters_def)
  have "total \<noteq> 0" using t b by (auto simp: unat_eq_0 [symmetric])
  then have "mount_info lba sector = Some \<lparr>mi_lba_begin = lba, mi_fat_begin = fb, mi_data_begin = db, mi_root_cluster = rd32 sector 44,
      mi_sectors_per_fat = rd32 sector 36, mi_total_sectors = total, mi_cluster_count = (total - (db - lba)) div ucast (sector ! 13),
      mi_sectors_per_cluster = sector ! 13, mi_fat_count = sector ! 16\<rparr>"
    using ok by (simp add: mount_info_def Let_def bpb_ok_def SD_BLOCK_SIZE_def fb_def db_def total_def not_less word_gt_0)
  then show thesis by (rule that) (simp_all add: fb db cc)
qed

context sd_device
begin

lemma volume_keeps: "volume_ok view s \<Longrightarrow> store.keeps s s' \<Longrightarrow> hint_ok s' \<Longrightarrow> volume_ok view s' \<and> geometry s' = geometry s"
  by (simp add: volume_ok_def store.keeps_def)

lemma volume_looks: "volume_ok view s \<Longrightarrow> store.looks s s' \<Longrightarrow>
    volume_ok view s' \<and> geometry s' = geometry s \<and> disk view s' = disk view s"
  using volume_keeps [of s s'] same_geometry(7) [of s' s] by (simp add: store.looks_def hint_ok_def store.keeps_geometry volume_ok_def)

text \<open>A file is kept when the links of its clusters and the sectors outside the table are.\<close>

lemma file_kept:
  assumes v: "volume_ok view s" and g: "geometry s' = geometry s" and o: "store.outside_same s s'" and ch: "has_chain view s js"
    and same: "\<And>j. j \<in> set js \<Longrightarrow> links view s' 0 j = links view s 0 j"
  shows "has_chain view s' js \<and> bytes_of view s' js = bytes_of view s js"
proof -
  have vol: "vol_ok (sd_room view (f_sd s)) s" using v by (simp add: volume_ok_def fat_ready_def)
  have "fat_chain (links view s' 0) js = fat_chain (links view s 0) js" using same by (rule fat_chain_cong)
  then have c: "has_chain view s' js" using ch by (simp add: chain_in_def is_cluster_same [OF g])
  have "cluster_data (disk view s') s' k = cluster_data (disk view s) s k" if "k \<in> set js" for k
  proof -
    have "is_cluster s k" using ch that by (simp add: chain_in_def)
    then have "disk view s' (cluster_sector s k i) = disk view s (cluster_sector s k i)" if "i < unat (g_fat_sectors_per_cluster s)" for i
      using cluster_sector_bound(2) [OF vol _ that] o by (simp add: store.outside_same_def)
    then show ?thesis
      unfolding cluster_data_def cluster_sector_same [OF g] same_geometry(8) [OF g]
      by (intro arg_cong [where f = concat] map_cong) simp_all
  qed
  then show ?thesis using c by (simp add: file_data_def cong: map_cong)
qed

lemma alloc_links:
  assumes v: "volume_ok view s"
  shows "\<exists>r s'. fat_alloc_chain (sd_card_ops bus) count s = Some (r, s') \<and> volume_ok view s' \<and> geometry s' = geometry s \<and>
    (\<forall>l. l \<notin> fat_area s \<longrightarrow> disk view s' l = disk view s l) \<and>
    (\<forall>first. r = Some first \<longrightarrow> (\<exists>ks. length ks = unat count \<and> hd ks = first \<and> distinct ks \<and>
      (\<forall>k \<in> set ks. is_cluster s k \<and> links view s 0 k = 0) \<and>
      (\<forall>c < unat (g_fat_count s). fat_chain (links view s' c) ks \<and>
         (\<forall>j. is_cluster s j \<longrightarrow> j \<notin> set ks \<longrightarrow> links view s' c j = links view s c j)) \<and>
      (\<forall>js. has_chain view s js \<longrightarrow> has_chain view s' js \<and> bytes_of view s' js = bytes_of view s js)))"
proof -
  have rd: "fat_ready (sd_usable view) (sd_room view) s" and h: "hint_ok s" using v by (simp_all add: volume_ok_def)
  have fc: "0 < unat (g_fat_count s)" and vol: "vol_ok (sd_room view (f_sd s)) s"
    using vol_okD(2) [OF fat_readyD(2) [OF rd]] fat_readyD(2) [OF rd] by (simp_all add: word_less_nat_alt)
  from store.fat_alloc_chain_spec [OF rd h, of count] obtain r s' where
    a: "fat_alloc_chain (sd_card_ops bus) count s = Some (r, s')" "store.keeps s s'" "store.outside_same s s'" "hint_ok s'"
    and x: "\<forall>x. r = Some x \<longrightarrow> (\<exists>ks. length ks = unat count \<and> ks \<noteq> [] \<and> hd ks = x \<and> distinct ks \<and>
        (\<forall>k \<in> set ks. is_cluster s k \<and> links view s 0 k = 0) \<and> store.entered s s' (relink ks))" by blast
  note g = store.keeps_geometry [OF a(2)]
  have "\<exists>ks. length ks = unat count \<and> hd ks = first \<and> distinct ks \<and> (\<forall>k \<in> set ks. is_cluster s k \<and> links view s 0 k = 0) \<and>
      (\<forall>c < unat (g_fat_count s). fat_chain (links view s' c) ks \<and> (\<forall>j. is_cluster s j \<longrightarrow> j \<notin> set ks \<longrightarrow> links view s' c j = links view s c j)) \<and>
      (\<forall>js. has_chain view s js \<longrightarrow> has_chain view s' js \<and> bytes_of view s' js = bytes_of view s js)" if "r = Some first" for first
  proof -
    from x that obtain ks where ks: "length ks = unat count" "ks \<noteq> []" "hd ks = first" "distinct ks"
      "\<forall>k \<in> set ks. is_cluster s k \<and> links view s 0 k = 0" and e: "store.entered s s' (relink ks)" by blast
    have lk: "links view s' c j = relink ks (links view s c) j" if "c < unat (g_fat_count s)" "is_cluster s j" for c j
      using e that by (simp add: store.entered_def)
    have "fat_chain (links view s' c) ks" if "c < unat (g_fat_count s)" for c
      using fat_chain_cong [of ks "links view s' c" "relink ks (links view s c)"] lk [OF that] ks(5) fat_chain_relink [OF ks(2,4)] by simp
    moreover have other: "links view s' c j = links view s c j" if "c < unat (g_fat_count s)" "is_cluster s j" "j \<notin> set ks" for c j
      using lk [OF that(1,2)] relink_outside [OF that(3)] by simp
    moreover have "has_chain view s' js \<and> bytes_of view s' js = bytes_of view s js" if "has_chain view s js" for js
    proof (rule file_kept [OF v g a(3) that])
      fix j
      assume j: "j \<in> set js"
      have ic: "\<forall>k \<in> set js. is_cluster s k" and fch: "fat_chain (links view s 0) js" using that by (simp_all add: chain_in_def)
      have "links view s 0 j \<noteq> 0" by (rule chain_used [OF vol fch ic j])
      then show "links view s' 0 j = links view s 0 j" using other [OF fc] ic ks(5) j by blast
    qed
    ultimately show ?thesis using ks by blast
  qed
  then show ?thesis using a(1,3) volume_keeps [OF v a(2,4)] unfolding store.outside_same_def by blast
qed

text \<open>Freeing a chain: an initial part of it, the whole of it when no read fails.\<close>

lemma free_links:
  assumes v: "volume_ok view s" and ch: "has_chain view s ks" and d: "distinct ks"
  shows "\<exists>ok s'. fat_free_chain (sd_card_ops bus) (hd ks) s = Some (ok, s') \<and> volume_ok view s' \<and> geometry s' = geometry s \<and>
    (\<forall>l. l \<notin> fat_area s \<longrightarrow> disk view s' l = disk view s l) \<and>
    (ok \<longrightarrow> (\<exists>n. 0 < n \<and> n \<le> length ks \<and> (card_reliable bus view \<longrightarrow> n = length ks) \<and>
      (\<forall>c < unat (g_fat_count s). \<forall>j. is_cluster s j \<longrightarrow> links view s' c j = (if j \<in> set (take n ks) then 0 else links view s c j))))"
proof -
  have rd: "fat_ready (sd_usable view) (sd_room view) s" and h: "hint_ok s" using v by (simp_all add: volume_ok_def)
  obtain k js where ks: "ks = k # js" using ch by (cases ks) (auto simp: chain_in_def)
  have c: "fat_chain (links view s 0) (k # js)" "\<forall>j \<in> set (k # js). is_cluster s j" using ch by (simp_all add: chain_in_def ks)
  from store.fat_free_chain_spec [OF rd h c(1) d [unfolded ks] c(2)] obtain ok s' where
    a: "fat_free_chain (sd_card_ops bus) k s = Some (ok, s')" "store.keeps s s'" "store.outside_same s s'" "hint_ok s'"
    and n: "ok \<Longrightarrow> \<exists>n \<le> length js. store.entered s s' (store.freed (take (Suc n) (k # js))) \<and> (card_reliable bus view \<longrightarrow> n = length js)" by blast
  have "\<exists>n. 0 < n \<and> n \<le> length ks \<and> (card_reliable bus view \<longrightarrow> n = length ks) \<and>
      (\<forall>c < unat (g_fat_count s). \<forall>j. is_cluster s j \<longrightarrow> links view s' c j = (if j \<in> set (take n ks) then 0 else links view s c j))" if ok
  proof -
    from n [OF that] obtain n where "n \<le> length js" "store.entered s s' (store.freed (take (Suc n) ks))" "card_reliable bus view \<longrightarrow> n = length js"
      unfolding ks by blast
    then show ?thesis by (intro exI [of _ "Suc n"]) (simp add: ks store.entered_def store.freed_def del: take_Suc_Cons)
  qed
  then show ?thesis using a(1,3) volume_keeps [OF v a(2,4)] unfolding store.outside_same_def ks by auto
qed

lemma alloc_free:
  assumes v: "volume_ok view s" and rel: "card_reliable bus view" and al: "fat_alloc_chain (sd_card_ops bus) count s = Some (Some k, s1)"
  shows "\<exists>ok s2. fat_free_chain (sd_card_ops bus) k s1 = Some (ok, s2) \<and> volume_ok view s2 \<and>
    (\<forall>l. l \<notin> fat_area s \<longrightarrow> disk view s2 l = disk view s l) \<and> (ok \<longrightarrow> (\<forall>j. is_cluster s j \<longrightarrow> links view s2 0 j = links view s 0 j))"
proof -
  have fc: "0 < unat (g_fat_count s)" using v vol_okD(2) [of "sd_room view (f_sd s)" s] by (simp add: volume_ok_def fat_ready_def word_less_nat_alt)
  from alloc_links [OF v, of count] al have a: "volume_ok view s1" "geometry s1 = geometry s" "\<forall>l. l \<notin> fat_area s \<longrightarrow> disk view s1 l = disk view s l"
    by auto
  from alloc_links [OF v, of count] al obtain ks where ks: "hd ks = k" "distinct ks" "\<forall>k \<in> set ks. is_cluster s k \<and> links view s 0 k = 0"
    and lk: "\<forall>c < unat (g_fat_count s). fat_chain (links view s1 c) ks \<and> (\<forall>j. is_cluster s j \<longrightarrow> j \<notin> set ks \<longrightarrow> links view s1 c j = links view s c j)" by auto
  note g = a(2)
  have "has_chain view s1 ks" using lk fc ks(3) by (simp add: chain_in_def is_cluster_same [OF g])
  from free_links [OF a(1) this ks(2)] obtain ok s2 where f: "fat_free_chain (sd_card_ops bus) k s1 = Some (ok, s2)" "volume_ok view s2"
    "\<forall>l. l \<notin> fat_area s1 \<longrightarrow> disk view s2 l = disk view s1 l"
    and n: "ok \<longrightarrow> (\<exists>n. 0 < n \<and> n \<le> length ks \<and> (card_reliable bus view \<longrightarrow> n = length ks) \<and>
      (\<forall>c < unat (g_fat_count s1). \<forall>j. is_cluster s1 j \<longrightarrow> links view s2 c j = (if j \<in> set (take n ks) then 0 else links view s1 c j)))"
    unfolding ks(1) by blast
  have "links view s2 0 j = links view s 0 j" if ok "is_cluster s j" for j
  proof -
    from n that(1) rel have "links view s2 0 j = (if j \<in> set ks then 0 else links view s1 0 j)"
      using fc that(2) unfolding is_cluster_same [OF g] same_geometry(9) [OF g] by auto
    then show ?thesis using ks(3) lk fc that(2) by auto
  qed
  then show ?thesis using f a(3) by (auto simp: fat_area_same [OF g])
qed

lemma alloc_exactly:
  assumes v: "volume_ok view s" and rel: "card_reliable bus view" "card_durable bus view" and n: "count \<noteq> 0"
  shows "\<exists>r s'. fat_alloc_chain (sd_card_ops bus) count s = Some (r, s') \<and>
    (r \<noteq> None \<longleftrightarrow> unat count \<le> Finite_Set.card (free_clusters (disk view s) s))"
proof -
  have rd: "fat_ready (sd_usable view) (sd_room view) s" and h: "hint_ok s" using v by (simp_all add: volume_ok_def)
  obtain r s' where r: "fat_alloc_chain (sd_card_ops bus) count s = Some (r, s')" using store.fat_alloc_chain_spec [OF rd h, of count] by blast
  show ?thesis
  proof (cases r)
    case None
    then show ?thesis using r store.fat_alloc_chain_complete [OF rd h rel n] by fastforce
  next
    case (Some x)
    then show ?thesis using r store.fat_alloc_chain_needs [OF rd h r [unfolded Some]] by simp
  qed
qed

lemma bytes_same: "geometry s' = geometry s \<Longrightarrow> disk view s' = disk view s \<Longrightarrow> bytes_of view s' ks = bytes_of view s ks"
  by (simp add: store.file_data_same [of s' s])

lemma bytes_length: "volume_ok view s \<Longrightarrow> length (bytes_of view s ks) = length ks * (512 * unat (g_fat_sectors_per_cluster s))"
  by (simp add: store.length_file_data volume_ok_def fat_ready_def)

lemma read_file:
  assumes v: "volume_ok view s" and ch: "has_chain view s ks" and start: "fe_cluster entry = hd ks"
    and wrap: "unat offset + unat len < 2 ^ 32" and off: "offset < fe_size entry"
  shows "\<exists>ok bytes s'. fat_file_read_at (sd_card_ops bus) entry offset len s = Some (ok, bytes, s') \<and>
    volume_ok view s' \<and> geometry s' = geometry s \<and> disk view s' = disk view s \<and>
    (ok \<longrightarrow> bytes = slice (unat offset) (min (unat len) (unat (fe_size entry) - unat offset)) (bytes_of view s ks) \<and>
       length bytes = min (unat len) (unat (fe_size entry) - unat offset)) \<and>
    (card_reliable bus view \<longrightarrow> unat (fe_size entry) \<le> length (bytes_of view s ks) \<longrightarrow> ok)"
proof -
  have rd: "fat_ready (sd_usable view) (sd_room view) s" using v by (simp add: volume_ok_def)
  from store.fat_file_read_at_spec [OF rd ch start wrap off] obtain ok bytes s' where
    r: "fat_file_read_at (sd_card_ops bus) entry offset len s = Some (ok, bytes, s')" "store.looks s s'"
    "ok \<longrightarrow> bytes = slice (unat offset) (min (unat len) (unat (fe_size entry) - unat offset)) (bytes_of view s ks) \<and>
       length bytes = min (unat len) (unat (fe_size entry) - unat offset)"
    "card_reliable bus view \<longrightarrow> unat (fe_size entry) \<le> length ks * (512 * unat (g_fat_sectors_per_cluster s)) \<longrightarrow> ok" by blast
  show ?thesis using r volume_looks [OF v r(2)] unfolding bytes_length [OF v] by blast
qed

lemma stream_open_read:
  assumes v: "volume_ok view s" and ch: "has_chain view s ks" and start: "fe_cluster entry = hd ks" and off: "offset < fe_size entry"
    and fits: "unat (fe_size entry) \<le> length (bytes_of view s ks)"
    and op: "fat_stream_open (sd_card_ops bus) entry offset st0 s = (True, st, s1)"
    and r1: "fat_stream_read (sd_card_ops bus) st n s1 = (ok1, bytes1, st1, s2)"
    and v2: "volume_ok view s3" "geometry s3 = geometry s2" "has_chain view s3 ks" "bytes_of view s3 ks = bytes_of view s ks"
    and r2: "fat_stream_read (sd_card_ops bus) (st1\<lparr>st_cache_valid := False\<rparr>) m s3 = (ok2, bytes2, st2, s4)"
  shows "bytes1 @ bytes2 = slice (unat offset) (length bytes1 + length bytes2) (bytes_of view s ks) \<and>
    unat offset + length bytes1 + length bytes2 \<le> unat (fe_size entry) \<and>
    (ok1 \<longrightarrow> length bytes1 = n) \<and> (ok2 \<longrightarrow> length bytes2 = m) \<and> disk view s2 = disk view s \<and> disk view s4 = disk view s3 \<and>
    (card_reliable bus view \<longrightarrow> unat offset + n \<le> unat (fe_size entry) \<longrightarrow>
      ok1 \<and> (unat offset + n + m \<le> unat (fe_size entry) \<longrightarrow> ok2))"
proof -
  let ?D = "bytes_of view s ks" and ?R = "card_reliable bus view"
  have rd: "fat_ready (sd_usable view) (sd_room view) s" using v by (simp add: volume_ok_def)
  from store.fat_stream_open_spec [OF op rd ch start off]
  obtain i where o: "store.looks s s1" "store.stream_at s1 ks i st" "st_entry st = entry" "st_file_offset st = offset" by auto
  note a1 = volume_looks [OF v o(1)]
  have g1: "geometry s1 = geometry s" using a1 by simp
  have ch1: "has_chain view s1 ks" using ch store.file_chain_looks [OF o(1)] by simp
  have D1: "bytes_of view s1 ks = ?D" using a1 by (simp add: store.file_data_same [OF g1])
  have le1: "st_file_offset st \<le> fe_size (st_entry st)" using o(3,4) off by simp
  note b1 = store.fat_stream_read_spec [OF r1 store.looks_ready [OF o(1)] ch1 o(2) le1, unfolded o(3,4) D1]
  then obtain j where j: "store.stream_at s2 ks j st1" by blast
  have l2: "store.looks s1 s2" using b1 by blast
  have d2: "disk view s2 = disk view s" using a1 volume_looks [OF conjunct1 [OF a1] l2] by simp
  let ?st = "st1\<lparr>st_cache_valid := False\<rparr>"
  have rd3: "fat_ready (sd_usable view) (sd_room view) s3" using v2(1) by (simp add: volume_ok_def)
  have st: "unat (st_file_offset ?st) = unat offset + length bytes1" "st_entry ?st = entry" "st_file_offset ?st \<le> fe_size entry" using b1 by simp_all
  note b2 = store.fat_stream_read_spec [OF r2 rd3 v2(3) store.stream_at_uncached [OF j v2(2)] st(3) [folded st(2)], unfolded st(1,2) v2(4)]
  have d4: "disk view s4 = disk view s3" using volume_looks [OF v2(1)] b2 by blast
  have le: "unat offset + length bytes1 + length bytes2 \<le> unat (fe_size entry)"
    using b2 by (simp add: word_le_nat_alt)
  have sl: "bytes1 = slice (unat offset) (length bytes1) ?D" "bytes2 = slice (unat offset + length bytes1) (length bytes2) ?D"
    using b1 b2 by blast+
  have "bytes1 @ bytes2 = slice (unat offset) (length bytes1 + length bytes2) ?D"
    using slice_append_split [of "unat offset" "length bytes1" "length bytes2" ?D] sl by simp
  moreover have "g_fat_sectors_per_cluster s1 = g_fat_sectors_per_cluster s" by (rule same_geometry(8) [OF g1])
  then have r1: "?R \<longrightarrow> unat offset + n \<le> unat (fe_size entry) \<longrightarrow> ok1"
    using b1 fits unfolding bytes_length [OF v] by simp
  moreover have "?R \<longrightarrow> unat offset + n \<le> unat (fe_size entry) \<longrightarrow> unat offset + n + m \<le> unat (fe_size entry) \<longrightarrow> ok2"
  proof (intro impI)
    assume *: ?R "unat offset + n \<le> unat (fe_size entry)" "unat offset + n + m \<le> unat (fe_size entry)"
    then have n: "length bytes1 = n" using r1 b1 by blast
    have "unat (fe_size entry) \<le> length ks * (512 * unat (g_fat_sectors_per_cluster s3))"
      using fits v2(4) bytes_length [OF v2(1), of ks] by simp
    then show ok2 using b2 * n by simp
  qed
  moreover have "ok1 \<longrightarrow> length bytes1 = n" "ok2 \<longrightarrow> length bytes2 = m" using b1 b2 by blast+
  ultimately show ?thesis using d2 d4 le by blast
qed

lemma stream_starts:
  assumes v: "volume_ok view s" and ch: "has_chain view s ks" and start: "fe_cluster entry = hd ks" and off: "offset < fe_size entry"
    and fits: "unat (fe_size entry) \<le> length (bytes_of view s ks)" and rel: "card_reliable bus view"
  shows "\<exists>st s1. fat_stream_open (sd_card_ops bus) entry offset st0 s = (True, st, s1) \<and>
    (\<forall>n ok bytes st' s2. fat_stream_read (sd_card_ops bus) st n s1 = (ok, bytes, st', s2) \<longrightarrow>
       volume_ok view s2 \<and> geometry s2 = geometry s \<and> disk view s2 = disk view s)"
proof -
  have rd: "fat_ready (sd_usable view) (sd_room view) s" using v by (simp add: volume_ok_def)
  obtain ok st s1 where op: "fat_stream_open (sd_card_ops bus) entry offset st0 s = (ok, st, s1)" by (metis prod_cases3)
  note o = store.fat_stream_open_spec [OF op rd ch start off]
  have ok using o rel fits unfolding bytes_length [OF v] by blast
  then obtain i where i: "store.looks s s1" "store.stream_at s1 ks i st" "st_entry st = entry" "st_file_offset st = offset" using o by blast
  note a = volume_looks [OF v i(1)]
  have ch1: "has_chain view s1 ks" using ch store.file_chain_looks [OF i(1)] by simp
  have le1: "st_file_offset st \<le> fe_size (st_entry st)" using i(3,4) off by simp
  have "volume_ok view s2 \<and> geometry s2 = geometry s \<and> disk view s2 = disk view s"
    if "fat_stream_read (sd_card_ops bus) st n s1 = (ok, bytes, st', s2)" for n ok bytes st' s2
  proof -
    have "store.looks s1 s2" using store.fat_stream_read_spec [OF that store.looks_ready [OF i(1)] ch1 i(2) le1] by blast
    then show ?thesis using volume_looks [OF conjunct1 [OF a]] a by simp
  qed
  moreover have "fat_stream_open (sd_card_ops bus) entry offset st0 s = (True, st, s1)" using op \<open>ok\<close> by simp
  ultimately show ?thesis by blast
qed

lemma find_slots:
  assumes v: "volume_ok view s" and ch: "has_chain view s ks" and n: "0 < needed"
  shows "\<exists>r s'. fat_dir_find_slots (sd_card_ops bus) (hd ks) needed s = Some (r, s') \<and> volume_ok view s' \<and> geometry s' = geometry s \<and>
    (\<forall>slot. r = Some slot \<longrightarrow>
      disk view s' = disk view s \<and> (\<exists>k \<in> set ks. slot_in (disk view s) s k needed slot) \<or>
      slot_sector slot = 0 \<and> slot_entry slot = 0 \<and> is_cluster s (slot_cluster slot) \<and> links view s 0 (slot_cluster slot) = 0 \<and>
      bytes_of view s' [slot_cluster slot] = replicate (512 * unat (g_fat_sectors_per_cluster s)) 0 \<and>
      (card_reliable bus view \<longrightarrow> distinct ks \<longrightarrow> has_chain view s' (ks @ [slot_cluster slot]) \<and> bytes_of view s' ks = bytes_of view s ks))"
proof -
  let ?E = "\<lambda>k s'. is_cluster s k \<and> links view s 0 k = 0 \<and> bytes_of view s' [k] = replicate (512 * unat (g_fat_sectors_per_cluster s)) 0 \<and>
    (card_reliable bus view \<longrightarrow> distinct ks \<longrightarrow> has_chain view s' (ks @ [k]) \<and> bytes_of view s' ks = bytes_of view s ks)"
  have rd: "fat_ready (sd_usable view) (sd_room view) s" and h: "hint_ok s" using v by (simp_all add: volume_ok_def)
  have vol: "vol_ok (sd_room view (f_sd s)) s" and fc: "0 < unat (g_fat_count s)"
    using fat_readyD(2) [OF rd] vol_okD(2) [of "sd_room view (f_sd s)" s] by (simp_all add: word_less_nat_alt)
  from store.fat_dir_find_slots_spec [OF rd h ch n] obtain r s' where
    r: "fat_dir_find_slots (sd_card_ops bus) (hd ks) needed s = Some (r, s')" "store.keeps s s'" "hint_ok s'"
    and sl: "\<forall>slot. r = Some slot \<longrightarrow> store.looks s s' \<and> (\<exists>k \<in> set ks. slot_in (disk view s) s k needed slot) \<or>
      slot_sector slot = 0 \<and> slot_entry slot = 0 \<and> (\<exists>p \<in> set ks. (card_reliable bus view \<longrightarrow> p = last ks) \<and> store.grown s p (slot_cluster slot) s')" by blast
  note g = store.keeps_geometry [OF r(2)]
  have cl: "\<forall>j \<in> set ks. is_cluster s j" and fch: "fat_chain (links view s 0) ks" using ch by (simp_all add: chain_in_def)
  have grown: "?E k s'" if p: "p \<in> set ks" "card_reliable bus view \<longrightarrow> p = last ks" and gr: "store.grown s p k s'" for p k
  proof -
    have k: "is_cluster s k" "links view s 0 k = 0" and e: "store.entered s s' (\<lambda>t. t(k := FAT32_EOC, p := k))"
      and z: "cluster_data (disk view s') s k = replicate (512 * unat (g_fat_sectors_per_cluster s)) 0"
      and o: "\<forall>l. l \<notin> fat_area s \<longrightarrow> (\<forall>i < unat (g_fat_sectors_per_cluster s). l \<noteq> cluster_sector s k i) \<longrightarrow> disk view s' l = disk view s l"
      using gr by (simp_all add: store.grown_def)
    have nk: "k \<notin> set ks" using chain_used [OF vol fch cl] k(2) by blast
    have "bytes_of view s' [k] = replicate (512 * unat (g_fat_sectors_per_cluster s)) 0"
      using z by (simp add: file_data_def store.cluster_data_same [OF g])
    moreover have "has_chain view s' (ks @ [k])" if "card_reliable bus view" "distinct ks"
    proof -
      have "p = last ks" using p that by simp
      then have "links view s' 0 j = (if j = p then k else if j = k then FAT32_EOC else links view s 0 j)" if "is_cluster s j" for j
        using e fc that by (simp add: store.entered_def)
      then have "fat_chain (links view s' 0) (ks @ [k]) = fat_chain ((links view s 0)(k := FAT32_EOC, last ks := k)) (ks @ [k])"
        using cl k(1) \<open>p = last ks\<close> by (intro fat_chain_cong) auto
      then show ?thesis using chain_snoc [OF fch that(2) nk] cl k(1) by (simp add: chain_in_def is_cluster_same [OF g])
    qed
    moreover have "bytes_of view s' ks = bytes_of view s ks"
    proof -
      have "cluster_data (disk view s') s j = cluster_data (disk view s) s j" if "j \<in> set ks" for j
      proof -
        have j: "is_cluster s j" "j \<noteq> k" using cl nk that by auto
        have "disk view s' (cluster_sector s j i) = disk view s (cluster_sector s j i)" if i: "i < unat (g_fat_sectors_per_cluster s)" for i
          using o cluster_sector_bound(2) [OF vol j(1) i] cluster_sector_inj(1) [OF j(1) k(1) i] j(2) by metis
        then show ?thesis unfolding cluster_data_def by (intro arg_cong [where f = concat] map_cong) simp_all
      qed
      then show ?thesis by (simp add: file_data_def store.cluster_data_same [OF g] cong: map_cong)
    qed
    ultimately show ?thesis using k by blast
  qed
  have "disk view s' = disk view s \<and> (\<exists>k \<in> set ks. slot_in (disk view s) s k needed slot) \<or>
      slot_sector slot = 0 \<and> slot_entry slot = 0 \<and> ?E (slot_cluster slot) s'" if "r = Some slot" for slot
    using sl that grown volume_looks [OF v] by blast
  then show ?thesis using r(1) volume_keeps [OF v r(2,3)] by blast
qed

text \<open>Before a volume is mounted there is only the card.\<close>

definition same_card :: "'c volume \<Rightarrow> 'c volume \<Rightarrow> bool" where
  "same_card s s' \<longleftrightarrow> sd_usable view (f_sd s') \<and> disk view s' = disk view s \<and> sd_room view (f_sd s') = sd_room view (f_sd s) \<and>
     length (g_sd_sector s') = 512"

lemma scratch_read_card:
  assumes run: "scratch_read (sd_card_ops bus) lba s = (ok, s')" and us: "sd_usable view (f_sd s)" and l: "unat lba < sd_room view (f_sd s)"
    and len: "length (g_sd_sector s) = 512"
  shows "same_card s s' \<and> (ok \<longrightarrow> g_sd_sector s' = disk view s (unat lba)) \<and> (card_reliable bus view \<longrightarrow> ok)"
proof -
  obtain r w where r: "sd_read (sd_card_ops bus) lba (f_sd s) = (r, w)" by (metis prod.collapse)
  note k = store.read_keeps [OF r us l]
  have "r \<noteq> None" if "card_reliable bus view" using that us l r unfolding no_read_fails_def by (metis fst_conv)
  moreover have "d = disk view s (unat lba)" if "r = Some d" for d using store.read_ok [OF r [unfolded that] us l] .
  ultimately show ?thesis using run r k len store.blk_length [OF us]
    by (auto simp: scratch_read_def same_card_def split: option.splits)
qed

lemma mount_volume:
  assumes us: "sd_usable view (f_sd s)" and room: "0 < sd_room view (f_sd s)" and len: "length (g_sd_sector s) = 512"
    and part: "unat (boot_lba (disk view s 0)) < sd_room view (f_sd s)"
  defines "a \<equiv> boot_lba (disk view s 0)"
  defines "bpb \<equiv> disk view s (unat a)"
  shows "\<exists>ok s'. fat32_mount bus s = (ok, s') \<and> same_card s s' \<and>
    (ok \<longrightarrow> disk view s 0 ! 510 = 0x55 \<and> disk view s 0 ! 511 = 0xAA) \<and>
    (bpb_ok (sd_room view (f_sd s)) (unat a) bpb \<longrightarrow>
      (card_reliable bus view \<longrightarrow> disk view s 0 ! 510 = 0x55 \<longrightarrow> disk view s 0 ! 511 = 0xAA \<longrightarrow> ok) \<and>
      (ok \<longrightarrow> volume_ok view s' \<and> hk_fat_mounted s' \<and> unat (g_fat_fat_begin s') = unat a + unat (rd16 bpb 14) \<and>
        unat (g_fat_data_begin s') = unat a + bpb_data bpb \<and> unat (g_fat_cluster_count s') = bpb_clusters bpb \<and>
        g_fat_root_cluster s' = rd32 bpb 44 \<and> g_fat_sectors_per_cluster s' = bpb ! 13 \<and> g_fat_count s' = bpb ! 16))"
proof -
  obtain ok1 s1 where r1: "scratch_read (sd_card_ops bus) 0 s = (ok1, s1)" by (metis prod.collapse)
  have z: "unat (0 :: u32) < sd_room view (f_sd s)" using room by simp
  note c1 = scratch_read_card [OF r1 us z len, simplified]
  have n32: "sd_room view (f_sd s) \<le> 2 ^ 32" by (rule store.room_le [OF us])
  let ?sig = "disk view s 0 ! 510 = 0x55 \<and> disk view s 0 ! 511 = 0xAA"
  show ?thesis
  proof (cases "ok1 \<and> ?sig")
    case False
    then have "fat32_mount bus s = (False, s1)" using r1 c1 by (cases ok1) (auto simp: fat32_mount_def)
    then show ?thesis using c1 False by blast
  next
    case True
    have sec: "g_sd_sector s1 = disk view s 0" using c1 True by blast
    obtain ok2 s2 where r2: "(if a \<noteq> 0 then scratch_read (sd_card_ops bus) a s1 else (True, s1)) = (ok2, s2)" by (metis prod.collapse)
    have c2: "same_card s s2 \<and> (ok2 \<longrightarrow> g_sd_sector s2 = bpb) \<and> (card_reliable bus view \<longrightarrow> ok2)"
    proof (cases "a = 0")
      case True
      then show ?thesis using r2 c1 sec by (simp add: bpb_def)
    next
      case False
      then have r: "scratch_read (sd_card_ops bus) a s1 = (ok2, s2)" using r2 by simp
      have s1: "sd_usable view (f_sd s1)" "unat a < sd_room view (f_sd s1)" "length (g_sd_sector s1) = 512"
        using c1 part by (simp_all add: same_card_def a_def)
      show ?thesis using scratch_read_card [OF r s1] c1 by (simp add: same_card_def bpb_def)
    qed
    have run: "fat32_mount bus s = (case (ok2, s2) of (False, s2) \<Rightarrow> (False, s2)
        | (True, s2) \<Rightarrow> (case mount_info a (g_sd_sector s2) of None \<Rightarrow> (False, s2) | Some m \<Rightarrow> (True, fat32_set_mounted m s2)))"
    proof -
      have r1': "scratch_read (sd_card_ops bus) 0 s = (True, s1)" using r1 True by simp
      show ?thesis using True
        unfolding fat32_mount_def r1' prod.case bool.case Let_def boot_lba_def [symmetric] sec a_def [symmetric] r2 by simp
    qed
    have set: "same_card s (fat32_set_mounted m s2)" for m
    proof -
      have "sd_usable view ((f_sd s2)\<lparr>g_fat_mounted := True\<rparr>) = sd_usable view (f_sd s2)" by (simp add: sd_usable_def)
      then show ?thesis using c2 by (simp add: same_card_def fat32_set_mounted_def sd_blk_def sd_room_def)
    qed
    show ?thesis
    proof (cases "ok2 \<and> mount_info a bpb \<noteq> None")
      case False
      then have "fat32_mount bus s = (False, s2)" using run c2 by (cases ok2) (auto split: option.splits)
      moreover have "\<not> card_reliable bus view" if "bpb_ok (sd_room view (f_sd s)) (unat a) bpb"
        using mount_info_ok [OF that n32] False c2 by (metis option.distinct(1))
      ultimately show ?thesis using c2 by blast
    next
      case ok: True
      then obtain m where m: "mount_info a bpb = Some m" by blast
      then have res: "fat32_mount bus s = (True, fat32_set_mounted m s2)" using run ok c2 by simp
      have "volume_ok view (fat32_set_mounted m s2) \<and> hk_fat_mounted (fat32_set_mounted m s2) \<and>
          unat (mi_fat_begin m) = unat a + unat (rd16 bpb 14) \<and> unat (mi_data_begin m) = unat a + bpb_data bpb \<and>
          unat (mi_cluster_count m) = bpb_clusters bpb \<and> mi_root_cluster m = rd32 bpb 44 \<and>
          mi_sectors_per_cluster m = bpb ! 13 \<and> mi_fat_count m = bpb ! 16" if b: "bpb_ok (sd_room view (f_sd s)) (unat a) bpb"
      proof -
        have i: "unat (mi_fat_begin m) = unat a + unat (rd16 bpb 14)" "unat (mi_data_begin m) = unat a + bpb_data bpb"
          "unat (mi_cluster_count m) = bpb_clusters bpb" "mi_root_cluster m = rd32 bpb 44" "mi_sectors_per_fat m = rd32 bpb 36"
          "mi_sectors_per_cluster m = bpb ! 13" "mi_fat_count m = bpb ! 16"
          using mount_info_ok [OF b n32] m by (metis option.inject)+
        have "bpb_clusters bpb * unat (bpb ! 13) \<le> bpb_total bpb - bpb_data bpb" by (simp add: bpb_clusters_def)
        then have "unat a + bpb_data bpb + bpb_clusters bpb * unat (bpb ! 13) \<le> sd_room view (f_sd s)" using b unfolding bpb_ok_def by linarith
        then have "vol_ok (sd_room view (f_sd s)) (fat32_set_mounted m s2)"
          using b n32 c2 i by (simp add: vol_ok_def fat32_set_mounted_def bpb_ok_def bpb_data_def same_card_def)
        then show ?thesis using set [of m] i
          by (simp add: volume_ok_def fat_ready_def same_card_def hint_ok_def fat32_set_mounted_def hk_fat_mounted_def)
      qed
      then show ?thesis using res set [of m] True by (intro exI [of _ True] exI [of _ "fat32_set_mounted m s2"]) simp
    qed
  qed
qed

end

context block_store
begin

text \<open>On a reliable card a run of free entries in the first sector of the directory is found.\<close>

lemma find_first_sector:
  assumes rel: "reliable" and rd: "fat_ready usable room s" and ch: "file_chain s ks"
    and run: "find_run (blk (f_sd s) (cluster_sector s (hd ks) 0)) needed 0 0 0 16 = Some start"
  shows "\<exists>s'. fat_dir_find_slots ops (hd ks) needed s = Some (Some \<lparr>slot_cluster = hd ks, slot_sector = 0, slot_entry = start\<rparr>, s')"
proof -
  note vol = fat_readyD(2) [OF rd]
  have ne: "ks \<noteq> []" using ch by (auto simp: chain_in_def)
  then have k: "is_cluster s (hd ks)" using ch by (simp add: chain_in_def)
  have ic: "in_chain (hd ks)" using file_chain_in [OF rd ch, of 0] ne by (simp add: hd_conv_nth)
  obtain n where n: "unat (g_fat_sectors_per_cluster s) = Suc n" using vol_okD(1) [OF vol] by (metis not0_implies_Suc unat_eq_0 word_neq_0_conv)
  then have i: "0 < unat (g_fat_sectors_per_cluster s)" by simp
  let ?lba = "fat_cluster_lba (hd ks) s"
  have l: "unat ?lba = cluster_sector s (hd ks) 0" using cluster_lba_unat [OF vol k i] by simp
  have lt: "unat ?lba < room (f_sd s)" using cluster_sector_bound(1) [OF vol k i] l by simp
  obtain ok s1 where r: "scratch_read ops ?lba s = (ok, s1)" by (metis prod.collapse)
  have "ok" "g_sd_sector s1 = blk (f_sd s) (unat ?lba)" using scratch_read_looks [OF r rd lt] rel by simp_all
  then have "find_in_cluster ops needed (hd ks) 0 (Suc n) s = (Some (Some \<lparr>slot_cluster = hd ks, slot_sector = 0, slot_entry = start\<rparr>), s1)"
    using r run l by simp
  then have "find_walk ops needed 0 (hd ks) s = Some (Inl (Some \<lparr>slot_cluster = hd ks, slot_sector = 0, slot_entry = start\<rparr>), s1)"
    using ic n by (subst find_walk.simps) (simp add: in_chain_def)
  then show ?thesis by (simp add: fat_dir_find_slots_def)
qed

end

section \<open>A small volume\<close>

text \<open>A volume of four clusters of one sector on the reference card: the boot sector, one table of one sector, in which
  the clusters 2 and 3 form a file, and the clusters.\<close>

definition sample_boot :: "u8 list" where
  "sample_boot = ((wr32 (wr32 (wr16 (wr16 (wr16 (replicate 512 0) 11 512) 14 1) 19 6) 36 1) 44 2))[13 := 1, 16 := 1, 510 := 0x55, 511 := 0xAA]"

definition sample_table :: "u8 list" where
  "sample_table = wr32 (wr32 (replicate 512 0) 8 3) 12 0x0FFFFFFF"

definition sample_card :: sd_view where
  "sample_card = \<lparr>ph = Sd_Ready, sel = False,
     blocks = \<lambda>l. if l = 0 then sample_boot else if l = 1 then sample_table else replicate 512 (if l = 2 then 7 else if l = 3 then 9 else 0),
     cap = 6, hc = True\<rparr>"

definition sample_volume :: "sd_view volume" where
  "sample_volume = \<lparr>g_fat_lba_begin = 0, g_fat_fat_begin = 1, g_fat_data_begin = 2, g_fat_root_cluster = 2, g_fat_sectors_per_fat = 1,
     g_fat_total_sectors = 6, g_fat_cluster_count = 4, g_fat_alloc_hint = 2, g_fat_sectors_per_cluster = 1, g_fat_count = 1,
     g_sd_sector = replicate 512 0, f_sd = \<lparr>g_sd_present = True, g_sd_sdhc = True, g_sd_probe_silent = False, g_fat_mounted = True,
       g_sd_verify_sector = [], sd_hw = sample_card\<rparr>\<rparr>"

lemma sample_lengths [simp]: "length sample_boot = 512" "length sample_table = 512"
  by (simp_all add: sample_boot_def sample_table_def wr32_def wr16_def)

lemma sample_usable: "sd_usable ref_card_view (f_sd sample_volume)"
  by (simp add: sd_usable_def Let_def sample_volume_def sample_card_def ref_card_view_def ref_phase_def)

lemma sample_room: "sd_room ref_card_view (f_sd sample_volume) = 6"
  by (simp add: sd_room_def sample_volume_def sample_card_def ref_card_view_def)

lemma sample_ok: "volume_ok ref_card_view sample_volume"
  using sample_usable by (simp add: volume_ok_def fat_ready_def vol_ok_def hint_ok_def sample_room FAT32_EOC_def)
     (simp add: sample_volume_def)

lemma sample_disk: "disk ref_card_view sample_volume = blocks sample_card"
  by (simp add: sd_blk_def sample_volume_def ref_card_view_def)

lemma sample_links: "links ref_card_view sample_volume 0 2 = 3" "links ref_card_view sample_volume 0 3 = 0x0FFFFFFF"
  unfolding sample_disk by (simp_all add: fat_entry_def fat_word_def sample_volume_def sample_card_def sample_table_def wr32_def rd32_def nth_list_update)

lemma sample_file: "has_chain ref_card_view sample_volume [2, 3]"
  by (simp add: chain_in_def sample_links FAT32_EOC_def) (simp add: is_cluster_def sample_volume_def)

lemma sample_bpb: "bpb_ok 6 0 sample_boot" "boot_lba sample_boot = 0" "sample_boot ! 510 = 0x55" "sample_boot ! 511 = 0xAA"
  by (simp_all add: sample_boot_def boot_lba_def bpb_ok_def bpb_total_def bpb_data_def bpb_clusters_def wr32_def wr16_def rd32_def rd16_def
      nth_list_update FAT32_EOC_def)

lemma sample_data: "bpb_data sample_boot = 2"
  by (simp add: bpb_data_def sample_boot_def wr32_def wr16_def rd32_def rd16_def nth_list_update)

text \<open>The same volume with a directory whose first entry is in use.\<close>

definition root_card :: sd_view where
  "root_card = sample_card\<lparr>blocks := (blocks sample_card)(2 := replicate 32 7 @ replicate 480 0)\<rparr>"

definition root_volume :: "sd_view volume" where
  "root_volume = sample_volume\<lparr>f_sd := (f_sd sample_volume)\<lparr>sd_hw := root_card\<rparr>\<rparr>"

lemma root_usable: "sd_usable ref_card_view (f_sd root_volume)"
  by (simp add: sd_usable_def Let_def root_volume_def root_card_def sample_volume_def sample_card_def ref_card_view_def ref_phase_def
      del: replicate.simps)

lemma root_ok: "volume_ok ref_card_view root_volume"
  using root_usable by (simp add: volume_ok_def fat_ready_def vol_ok_def hint_ok_def FAT32_EOC_def sd_room_def ref_card_view_def root_volume_def
      root_card_def sample_card_def del: replicate.simps) (simp add: sample_volume_def)

lemma root_disk: "disk ref_card_view root_volume = blocks root_card"
  by (simp add: sd_blk_def sample_volume_def root_volume_def ref_card_view_def)

lemma root_links: "links ref_card_view root_volume 0 2 = 3" "links ref_card_view root_volume 0 3 = 0x0FFFFFFF"
  unfolding root_disk
  by (simp_all add: fat_entry_def fat_word_def root_volume_def sample_volume_def root_card_def sample_card_def sample_table_def wr32_def rd32_def nth_list_update)

lemma root_file: "has_chain ref_card_view root_volume [2, 3]"
  by (simp add: chain_in_def root_links FAT32_EOC_def) (simp add: is_cluster_def root_volume_def sample_volume_def)

lemma root_run: "find_run (disk ref_card_view root_volume (cluster_sector root_volume (hd [2, 3]) 0)) 3 0 0 0 16 = Some 1"
proof -
  have "disk ref_card_view root_volume (cluster_sector root_volume (hd [2, 3]) 0) = replicate 32 7 @ replicate 480 0"
    unfolding root_disk by (simp add: cluster_sector_def root_volume_def sample_volume_def root_card_def del: replicate.simps)
  moreover have "find_run b 3 0 0 0 16 = Some 1" if b: "b ! 0 = 7" "b ! 32 = 0" "b ! 64 = 0" "b ! 96 = 0" for b
  proof -
    have "(16 :: nat) = Suc (Suc (Suc (Suc 12)))" by simp
    then have "find_run b 3 0 0 0 16 = find_run b 3 0 0 0 (Suc (Suc (Suc (Suc 12))))" by argo
    also have "\<dots> = Some 1" by (simp only: find_run.simps) (simp add: b)
    finally show ?thesis .
  qed
  moreover have "(replicate 32 7 @ replicate 480 0) ! 0 = (7 :: u8)" "(replicate 32 7 @ replicate 480 0) ! 32 = (0 :: u8)"
    "(replicate 32 7 @ replicate 480 0) ! 64 = (0 :: u8)" "(replicate 32 7 @ replicate 480 0) ! 96 = (0 :: u8)"
    by (simp_all add: nth_append del: replicate.simps)
  ultimately show ?thesis by simp
qed

section \<open>Properties\<close>

text \<open>C32. Mounting gives a volume the file routines can work on. For any card that keeps to the specification and any
  boot sector that is a FAT32 one for this card: when \<open>fat32_mount\<close> reports success the geometry fits the card, with
  the numbers of the boot sector computed without wrap-around, the search hint is in range, and nothing was written.
  On a card whose reads do not fail the mount does succeed.\<close>

theorem fat32_mount_gives_volume:
  assumes "sd_device bus view" and "sd_usable view (f_sd s)" and "0 < sd_room view (f_sd s)" and "length (g_sd_sector s) = 512"
    and "unat (boot_lba (disk view s 0)) < sd_room view (f_sd s)"
    and "bpb = disk view s (unat (boot_lba (disk view s 0)))"
    and "bpb_ok (sd_room view (f_sd s)) (unat (boot_lba (disk view s 0))) bpb"
  shows "\<exists>ok s'. fat32_mount bus s = (ok, s') \<and> disk view s' = disk view s \<and>
    (ok \<longrightarrow> volume_ok view s' \<and> hk_fat_mounted s' \<and>
      unat (g_fat_fat_begin s') = unat (boot_lba (disk view s 0)) + unat (rd16 bpb 14) \<and>
      unat (g_fat_data_begin s') = unat (boot_lba (disk view s 0)) + bpb_data bpb \<and> unat (g_fat_cluster_count s') = bpb_clusters bpb \<and>
      g_fat_root_cluster s' = rd32 bpb 44 \<and> g_fat_sectors_per_cluster s' = bpb ! 13 \<and> g_fat_count s' = bpb ! 16) \<and>
    (ok \<longrightarrow> disk view s 0 ! 510 = 0x55 \<and> disk view s 0 ! 511 = 0xAA) \<and>
    (card_reliable bus view \<longrightarrow> disk view s 0 ! 510 = 0x55 \<longrightarrow> disk view s 0 ! 511 = 0xAA \<longrightarrow> ok)"
  using sd_device.mount_volume [OF assms(1-5)] assms(7) unfolding assms(6) sd_device.same_card_def [OF assms(1)] by blast

theorem fat32_mount_gives_volume_witness:
  "\<exists>s'. fat32_mount ref_bus (sample_volume\<lparr>g_fat_data_begin := 0\<rparr>) = (True, s') \<and> volume_ok ref_card_view s' \<and> unat (g_fat_data_begin s') = 2"
proof -
  let ?s = "sample_volume\<lparr>g_fat_data_begin := 0\<rparr>"
  have d: "disk ref_card_view ?s 0 = sample_boot" by (simp add: sd_blk_def sample_volume_def sample_card_def ref_card_view_def)
  have u: "sd_usable ref_card_view (f_sd ?s)" "sd_room ref_card_view (f_sd ?s) = 6" using sample_usable sample_room by simp_all
  have "length (g_sd_sector ?s) = 512" by (simp add: sample_volume_def)
  from fat32_mount_gives_volume [OF ref_card.sd_device_axioms u(1) _ this _ refl, unfolded d u(2) sample_bpb(2) unat_0 d]
  show ?thesis using ref_reliable by (auto simp: sample_bpb sample_data)
qed

text \<open>C5. Allocating clusters never damages a file, and succeeds exactly when there is room. For any card that keeps to
  the specification \<open>fat_alloc_chain\<close> returns, writes to nothing but the file allocation tables, and when it reports
  success it has linked \<open>count\<close> different clusters that were free, the last one marked as the end, in every copy of the
  table; all other links are as they were, and so are the chain and the bytes of every file that was on the volume. On a
  card on which no read and no write fails it succeeds if and only if the table has at least \<open>count\<close> free clusters: the
  search that starts at the hint and wraps around misses none.\<close>

theorem fat_alloc_chain_extends:
  assumes "sd_device bus view" and "volume_ok view s"
  shows "\<exists>r s'. fat_alloc_chain (sd_card_ops bus) count s = Some (r, s') \<and> volume_ok view s' \<and> geometry s' = geometry s \<and>
    (\<forall>l. l \<notin> fat_area s \<longrightarrow> disk view s' l = disk view s l) \<and>
    (\<forall>first. r = Some first \<longrightarrow> (\<exists>ks. length ks = unat count \<and> hd ks = first \<and> distinct ks \<and>
      (\<forall>k \<in> set ks. is_cluster s k \<and> links view s 0 k = 0) \<and>
      (\<forall>c < unat (g_fat_count s). fat_chain (links view s' c) ks \<and>
         (\<forall>j. is_cluster s j \<longrightarrow> j \<notin> set ks \<longrightarrow> links view s' c j = links view s c j)) \<and>
      (\<forall>js. has_chain view s js \<longrightarrow> has_chain view s' js \<and> bytes_of view s' js = bytes_of view s js))) \<and>
    (card_reliable bus view \<longrightarrow> card_durable bus view \<longrightarrow> count \<noteq> 0 \<longrightarrow>
      (r \<noteq> None \<longleftrightarrow> unat count \<le> Finite_Set.card (free_clusters (disk view s) s)))"
proof -
  have ex: "r \<noteq> None \<longleftrightarrow> unat count \<le> Finite_Set.card (free_clusters (disk view s) s)"
    if "fat_alloc_chain (sd_card_ops bus) count s = Some (r, s')" "card_reliable bus view" "card_durable bus view" "count \<noteq> 0" for r s'
    using sd_device.alloc_exactly [OF assms that(2-4)] that(1) by auto
  obtain r s' where a: "fat_alloc_chain (sd_card_ops bus) count s = Some (r, s')"
    using sd_device.alloc_links [OF assms, of count] by blast
  show ?thesis using sd_device.alloc_links [OF assms, of count] ex [OF a] unfolding a option.inject prod.inject
    by (intro exI [of _ r] exI [of _ s']) simp
qed

lemma sample_free: "free_clusters (disk ref_card_view sample_volume) sample_volume = {4, 5}"
proof -
  have "is_cluster sample_volume k \<longleftrightarrow> unat k \<in> {2, 3, 4, 5}" for k by (auto simp: is_cluster_def sample_volume_def)
  moreover have "unat k \<in> {2, 3, 4, 5} \<longleftrightarrow> k \<in> {2, 3, 4, 5}" for k :: u32 by (auto simp: word_unat_eq_iff)
  ultimately have c: "is_cluster sample_volume k \<longleftrightarrow> k \<in> {2, 3, 4, 5}" for k by simp
  have "links ref_card_view sample_volume 0 4 = 0" "links ref_card_view sample_volume 0 5 = 0"
    unfolding sample_disk by (simp_all add: fat_entry_def fat_word_def sample_volume_def sample_card_def sample_table_def wr32_def rd32_def nth_list_update)
  then show ?thesis using sample_links by (auto simp: free_clusters_def c)
qed

theorem fat_alloc_chain_extends_witness:
  "(\<exists>k s'. fat_alloc_chain (sd_card_ops ref_bus) 2 sample_volume = Some (Some k, s') \<and> links ref_card_view sample_volume 0 k = 0 \<and>
      bytes_of ref_card_view s' [2, 3] = bytes_of ref_card_view sample_volume [2, 3]) \<and>
   (\<exists>s'. fat_alloc_chain (sd_card_ops ref_bus) 3 sample_volume = Some (None, s'))"
proof -
  note t = fat_alloc_chain_extends [OF ref_card.sd_device_axioms sample_ok]
  from t [of 2] obtain r s' where r: "fat_alloc_chain (sd_card_ops ref_bus) 2 sample_volume = Some (r, s')" "r \<noteq> None"
    and ks: "\<forall>first. r = Some first \<longrightarrow> (\<exists>ks. length ks = unat (2 :: u32) \<and> hd ks = first \<and>
      (\<forall>k \<in> set ks. links ref_card_view sample_volume 0 k = 0) \<and> bytes_of ref_card_view s' [2, 3] = bytes_of ref_card_view sample_volume [2, 3])"
    using sample_file ref_reliable ref_durable by (fastforce simp: sample_free)
  from r(2) ks obtain k ks where "r = Some k" "length ks = 2" "hd ks = k" "\<forall>k \<in> set ks. links ref_card_view sample_volume 0 k = 0"
    "bytes_of ref_card_view s' [2, 3] = bytes_of ref_card_view sample_volume [2, 3]" by auto
  moreover from this have "k \<in> set ks" by (cases ks) auto
  moreover have "\<exists>s'. fat_alloc_chain (sd_card_ops ref_bus) 3 sample_volume = Some (None, s')"
    using t [of 3] ref_reliable ref_durable by (fastforce simp: sample_free)
  ultimately show ?thesis using r(1) by blast
qed

text \<open>Freeing what was allocated restores the volume. On a card whose reads do not fail, after a successful
  \<open>fat_alloc_chain\<close> the call of \<open>fat_free_chain\<close> on its first cluster returns, and when it reports success every link of
  the table that the code reads is what it was before, and so is everything outside the tables.\<close>

theorem fat_free_undoes_alloc:
  assumes "sd_device bus view" and "volume_ok view s" and "card_reliable bus view"
    and "fat_alloc_chain (sd_card_ops bus) count s = Some (Some k, s1)"
  shows "\<exists>ok s2. fat_free_chain (sd_card_ops bus) k s1 = Some (ok, s2) \<and> volume_ok view s2 \<and>
    (\<forall>l. l \<notin> fat_area s \<longrightarrow> disk view s2 l = disk view s l) \<and> (ok \<longrightarrow> (\<forall>j. is_cluster s j \<longrightarrow> links view s2 0 j = links view s 0 j))"
  by (rule sd_device.alloc_free [OF assms])

theorem fat_free_undoes_alloc_witness:
  "\<exists>k s1 ok s2. fat_alloc_chain (sd_card_ops ref_bus) 2 sample_volume = Some (Some k, s1) \<and>
     fat_free_chain (sd_card_ops ref_bus) k s1 = Some (ok, s2) \<and> (ok \<longrightarrow> links ref_card_view s2 0 4 = links ref_card_view sample_volume 0 4)"
proof -
  have "2 \<le> Finite_Set.card (free_clusters (disk ref_card_view sample_volume) sample_volume)" by (simp add: sample_free)
  then obtain k s1 where a: "fat_alloc_chain (sd_card_ops ref_bus) 2 sample_volume = Some (Some k, s1)"
    using ref_card.alloc_exactly [OF sample_ok ref_reliable ref_durable, of 2] by auto
  moreover have "is_cluster sample_volume 4" by (simp add: is_cluster_def sample_volume_def)
  ultimately show ?thesis using fat_free_undoes_alloc [OF ref_card.sd_device_axioms sample_ok ref_reliable a] by blast
qed

text \<open>C30. Reading a file gives the bytes of the file. For any card that keeps to the specification and any chain of
  clusters, \<open>fat_file_read_at\<close> returns without writing, and when it reports success the bytes are those of the file from
  \<open>offset\<close> on, \<open>len\<close> of them or as many as are left. It succeeds when no read fails.\<close>

theorem fat_file_read_at_slice:
  assumes "sd_device bus view" and "volume_ok view s" and "has_chain view s ks" and "fe_cluster entry = hd ks"
    and "unat offset + unat len < 2 ^ 32" and "offset < fe_size entry"
  shows "\<exists>ok bytes s'. fat_file_read_at (sd_card_ops bus) entry offset len s = Some (ok, bytes, s') \<and>
    volume_ok view s' \<and> geometry s' = geometry s \<and> disk view s' = disk view s \<and>
    (ok \<longrightarrow> bytes = slice (unat offset) (min (unat len) (unat (fe_size entry) - unat offset)) (bytes_of view s ks) \<and>
       length bytes = min (unat len) (unat (fe_size entry) - unat offset)) \<and>
    (card_reliable bus view \<longrightarrow> unat (fe_size entry) \<le> length (bytes_of view s ks) \<longrightarrow> ok)"
  by (rule sd_device.read_file [OF assms])

definition sample_entry :: fat_file_entry where
  "sample_entry = \<lparr>fe_name = [], fe_attr = 0x20, fe_cluster = 2, fe_size = 1000, fe_modified = 0, fe_dir_ordinal = 0, fe_lfn_count = 0\<rparr>"

lemma sample_bytes: "bytes_of ref_card_view sample_volume [2, 3] = replicate 512 7 @ replicate 512 9"
  unfolding sample_disk by (simp add: file_data_def cluster_data_def cluster_sector_def) (simp add: sample_volume_def sample_card_def)

theorem fat_file_read_at_slice_witness:
  "\<exists>s'. fat_file_read_at (sd_card_ops ref_bus) sample_entry 511 600 sample_volume = Some (True, 7 # replicate 488 9, s')"
proof -
  have "unat (fe_size sample_entry) \<le> length (bytes_of ref_card_view sample_volume [2, 3])" by (simp add: sample_bytes sample_entry_def)
  moreover have "slice 511 489 (replicate 512 (7 :: u8) @ replicate 512 9) = 7 # replicate 488 9" by (simp add: slice_def)
  ultimately show ?thesis
    using fat_file_read_at_slice [OF ref_card.sd_device_axioms sample_ok sample_file, of sample_entry 511 600] ref_reliable
    by (fastforce simp: sample_bytes sample_entry_def)
qed

text \<open>C11. A stream goes on where it stopped, provided that its user clears the cache flag of the stream before the second read,
  as \<open>files_gif_tick\<close> does before every picture: \<open>fat_stream_read\<close> itself does not notice that somebody else has used the shared
  sector buffer. Then, whatever the rest of the firmware did with that buffer and with the card between the two reads, as long as
  the file itself stays: what the second \<open>fat_stream_read\<close> delivers follows what the first one delivered, both together being one slice
  of the file from the offset of \<open>fat_stream_open\<close> on, and no read changes the card. On a card whose reads do not fail both deliver
  all they were asked for while the file lasts.\<close>

theorem fat_stream_read_resumes:
  assumes "sd_device bus view" and "volume_ok view s" and "has_chain view s ks" and "fe_cluster entry = hd ks" and "offset < fe_size entry"
    and "unat (fe_size entry) \<le> length (bytes_of view s ks)"
    and "fat_stream_open (sd_card_ops bus) entry offset st0 s = (True, st, s1)"
    and "fat_stream_read (sd_card_ops bus) st n s1 = (ok1, bytes1, st1, s2)"
    and "volume_ok view s3" and "geometry s3 = geometry s2" and "has_chain view s3 ks" and "bytes_of view s3 ks = bytes_of view s ks"
    and "fat_stream_read (sd_card_ops bus) (st1\<lparr>st_cache_valid := False\<rparr>) m s3 = (ok2, bytes2, st2, s4)"
  shows "bytes1 @ bytes2 = slice (unat offset) (length bytes1 + length bytes2) (bytes_of view s ks) \<and>
    unat offset + length bytes1 + length bytes2 \<le> unat (fe_size entry) \<and>
    (ok1 \<longrightarrow> length bytes1 = n) \<and> (ok2 \<longrightarrow> length bytes2 = m) \<and> disk view s2 = disk view s \<and> disk view s4 = disk view s3 \<and>
    (card_reliable bus view \<longrightarrow> unat offset + n \<le> unat (fe_size entry) \<longrightarrow>
      ok1 \<and> (unat offset + n + m \<le> unat (fe_size entry) \<longrightarrow> ok2))"
  by (rule sd_device.stream_open_read [OF assms])

theorem fat_stream_read_resumes_witness:
  "\<exists>st s1 bytes1 st1 s2 bytes2 st2 s4.
     fat_stream_open (sd_card_ops ref_bus) sample_entry 500 (\<lparr>st_entry = sample_entry, st_cluster = 0, st_file_offset = 0,
       st_cluster_offset = 0, st_cache_lba = 0, st_cache_valid = False\<rparr>) sample_volume = (True, st, s1) \<and>
     fat_stream_read (sd_card_ops ref_bus) st 10 s1 = (True, bytes1, st1, s2) \<and>
     fat_stream_read (sd_card_ops ref_bus) (st1\<lparr>st_cache_valid := False\<rparr>) 4 s2 = (True, bytes2, st2, s4) \<and> bytes1 @ bytes2 = replicate 12 7 @ replicate 2 9"
proof -
  let ?st0 = "\<lparr>st_entry = sample_entry, st_cluster = 0, st_file_offset = 0, st_cluster_offset = 0, st_cache_lba = 0, st_cache_valid = False\<rparr>"
  have e: "fe_cluster sample_entry = hd [2, 3]" "500 < fe_size sample_entry"
    "unat (fe_size sample_entry) \<le> length (bytes_of ref_card_view sample_volume [2, 3])" by (simp_all add: sample_entry_def sample_bytes)
  obtain st s1 where op: "fat_stream_open (sd_card_ops ref_bus) sample_entry 500 ?st0 sample_volume = (True, st, s1)"
    and after: "\<forall>n ok bytes st' s2. fat_stream_read (sd_card_ops ref_bus) st n s1 = (ok, bytes, st', s2) \<longrightarrow>
       volume_ok ref_card_view s2 \<and> geometry s2 = geometry sample_volume \<and> disk ref_card_view s2 = disk ref_card_view sample_volume"
    using ref_card.stream_starts [OF sample_ok sample_file e ref_reliable, of ?st0] by blast
  obtain ok1 bytes1 st1 s2 where r1: "fat_stream_read (sd_card_ops ref_bus) st 10 s1 = (ok1, bytes1, st1, s2)" by (metis prod_cases4)
  obtain ok2 bytes2 st2 s4 where r2: "fat_stream_read (sd_card_ops ref_bus) (st1\<lparr>st_cache_valid := False\<rparr>) 4 s2 = (ok2, bytes2, st2, s4)"
    by (metis prod_cases4)
  have v2: "volume_ok ref_card_view s2" and g2: "geometry s2 = geometry sample_volume"
    and d2: "disk ref_card_view s2 = disk ref_card_view sample_volume" using after r1 by blast+
  have c2: "has_chain ref_card_view s2 [2, 3]" using sample_file by (simp add: chain_in_def d2 fat_entry_same [OF g2] is_cluster_same [OF g2])
  have b2: "bytes_of ref_card_view s2 [2, 3] = bytes_of ref_card_view sample_volume [2, 3]" by (rule ref_card.bytes_same [OF g2 d2])
  note t = fat_stream_read_resumes [OF ref_card.sd_device_axioms sample_ok sample_file e op r1 v2 refl c2 b2 r2]
  then have k: "ok1 = True" "ok2 = True" and "length bytes1 = 10" "length bytes2 = 4" using ref_reliable by (simp_all add: sample_entry_def)
  moreover have "slice 500 14 (replicate 512 (7 :: u8) @ replicate 512 9) = replicate 12 7 @ replicate 2 9" by (simp add: slice_def)
  ultimately have "bytes1 @ bytes2 = replicate 12 7 @ replicate 2 9" using t by (simp add: sample_bytes)
  then show ?thesis using op r1 [unfolded k] r2 [unfolded k] by blast
qed

text \<open>C31. A directory gets its slots from free space only. For any card that keeps to the specification
  \<open>fat_dir_find_slots\<close> returns; when it reports a slot, either nothing was written and the slot is a run of entries, all
  of them free, in a sector of the directory, or the slot opens a cluster that was free and has been cleared. Under two
  conditions, that no read of the card fails and that the chain of the directory repeats no cluster, the opened cluster is linked
  to the end of the directory, whose entries are as they were; without them nothing is claimed of the link (after a failed read
  of the table it can be in the middle of the directory).\<close>

theorem fat_dir_find_slots_free:
  assumes "sd_device bus view" and "volume_ok view s" and "has_chain view s ks" and "0 < needed"
  shows "\<exists>r s'. fat_dir_find_slots (sd_card_ops bus) (hd ks) needed s = Some (r, s') \<and> volume_ok view s' \<and> geometry s' = geometry s \<and>
    (\<forall>slot. r = Some slot \<longrightarrow>
      disk view s' = disk view s \<and> (\<exists>k \<in> set ks. slot_in (disk view s) s k needed slot) \<or>
      slot_sector slot = 0 \<and> slot_entry slot = 0 \<and> is_cluster s (slot_cluster slot) \<and> links view s 0 (slot_cluster slot) = 0 \<and>
      bytes_of view s' [slot_cluster slot] = replicate (512 * unat (g_fat_sectors_per_cluster s)) 0 \<and>
      (card_reliable bus view \<longrightarrow> distinct ks \<longrightarrow> has_chain view s' (ks @ [slot_cluster slot]) \<and> bytes_of view s' ks = bytes_of view s ks))"
  by (rule sd_device.find_slots [OF assms])

theorem fat_dir_find_slots_free_witness:
  "\<exists>slot s'. fat_dir_find_slots (sd_card_ops ref_bus) 2 3 root_volume = Some (Some slot, s') \<and> slot_entry slot = 1 \<and>
     (disk ref_card_view s' = disk ref_card_view root_volume \<and>
        (\<exists>k \<in> set [2, 3]. slot_in (disk ref_card_view root_volume) root_volume k 3 slot) \<or>
      slot_sector slot = 0 \<and> slot_entry slot = 0)"
proof -
  have rd: "fat_ready (sd_usable ref_card_view) (sd_room ref_card_view) root_volume" using root_ok by (simp add: volume_ok_def)
  obtain s' where s': "fat_dir_find_slots (sd_card_ops ref_bus) 2 3 root_volume = Some (Some \<lparr>slot_cluster = 2, slot_sector = 0, slot_entry = 1\<rparr>, s')"
    using ref_card.store.find_first_sector [OF ref_reliable rd root_file root_run] by auto
  then show ?thesis using fat_dir_find_slots_free [OF ref_card.sd_device_axioms root_ok root_file, of 3] by auto
qed

text \<open>C33. The service reports what happens to the volume. Whatever the card answers, \<open>sd_service_tick\<close> reports
  \<open>HK_SD_EVENT_MOUNTED\<close> exactly in the tick in which the volume becomes usable (card present and file system mounted),
  \<open>HK_SD_EVENT_REMOVED\<close> exactly in the tick in which it stops being so, and never anything else; it does nothing while
  its counter runs, and probing is never left silent.\<close>

theorem sd_service_tick_events:
  assumes "sd_service_tick bus (ticks, s) = (event, ticks', s')"
  shows "(event = HK_SD_EVENT_MOUNTED \<longleftrightarrow> \<not> volume_up s \<and> volume_up s') \<and>
    (event = HK_SD_EVENT_REMOVED \<longleftrightarrow> volume_up s \<and> \<not> volume_up s') \<and>
    event \<in> {HK_SD_EVENT_NONE, HK_SD_EVENT_MOUNTED, HK_SD_EVENT_REMOVED} \<and>
    (0 < ticks \<longrightarrow> s' = s \<and> ticks' = ticks - 1) \<and> (ticks = 0 \<longrightarrow> ticks' = (if volume_up s then 50 else 100)) \<and>
    (\<not> fat32_probe_silent s \<longrightarrow> \<not> fat32_probe_silent s')"
proof (cases "0 < ticks")
  case True
  then show ?thesis using assms by (auto simp: sd_service_tick_def)
next
  case False
  then have t0: "ticks = 0" by (simp add: word_gt_0)
  show ?thesis
  proof (cases "volume_up s")
    case True
    obtain ok s1 where h: "fat32_health_check bus s = (ok, s1)" by (metis prod.collapse)
    have up: "volume_up s1" using health_flags [OF h] True by simp
    have q: "fat32_probe_silent s1 = fat32_probe_silent s" by (rule health_silent [OF h])
    have r: "\<not> volume_up (fat32_mark_removed s1)" "fat32_probe_silent (fat32_mark_removed s1) = fat32_probe_silent s1"
      by (simp_all add: volume_up_def hk_sd_present_def fat32_mark_removed_def fat32_card_reset_state_def fat32_probe_silent_def)
    have "(event, ticks', s') = (if ok then (HK_SD_EVENT_NONE, 50, s1) else (HK_SD_EVENT_REMOVED, 50, fat32_mark_removed s1))"
      using assms [symmetric] t0 True h by (auto simp: sd_service_tick_def volume_up_def SD_POLL_MOUNTED_TICKS_def)
    then show ?thesis using t0 True up r q by (auto split: if_splits)
  next
    case nup: False
    obtain m s1 where f: "file_mount_if_needed bus (fat32_set_probe_silent True s) = (m, s1)" by (metis prod.collapse)
    have same: "volume_up (fat32_set_probe_silent b x) = volume_up x" "\<not> fat32_probe_silent (fat32_set_probe_silent False x)" for b x
      by (simp_all add: volume_up_def hk_sd_present_def hk_fat_mounted_def fat32_set_probe_silent_def fat32_probe_silent_def)
    have m: "m = volume_up s1" by (rule mount_needed_flags [OF f]) (simp add: same nup)
    have "(event, ticks', s') = (if m then HK_SD_EVENT_MOUNTED else HK_SD_EVENT_NONE, 100, fat32_set_probe_silent False s1)"
      using assms [symmetric] t0 nup f by (auto simp: sd_service_tick_def volume_up_def SD_POLL_UNMOUNTED_TICKS_def)
    then show ?thesis using t0 nup m same by auto
  qed
qed

theorem sd_service_tick_events_witness:
  "\<exists>event ticks' s'. sd_service_tick ref_bus (0, sample_volume) = (event, ticks', s') \<and> (event = HK_SD_EVENT_REMOVED \<longleftrightarrow> \<not> volume_up s') \<and> ticks' = 50"
proof -
  obtain event ticks' s' where r: "sd_service_tick ref_bus (0, sample_volume) = (event, ticks', s')" by (metis prod_cases3)
  have "volume_up sample_volume" by (simp add: volume_up_def hk_sd_present_def hk_fat_mounted_def sample_volume_def)
  then show ?thesis using sd_service_tick_events [OF r] r by simp
qed

end
