(* ===== verification/File_Path.thy ===== *)
theory File_Path
  imports File_Scan Fat32_Volume
begin

text \<open>
  \<open>storage/file_path.c\<close>: a path followed from the root directory, component by component. The meaning is a look-up in a
  tree of directories (\<open>lookup_path\<close>), which the code is shown to compute.
\<close>

section \<open>\<open>file_path.c\<close>\<close>

datatype file_path_result = FILE_PATH_OK | FILE_PATH_NOT_FOUND | FILE_PATH_NOT_DIRECTORY | FILE_PATH_INVALID | FILE_PATH_IO

text \<open>The same scan; \<open>sc_ordinal\<close> is counted up at the top of the loop here. The result is the entry, or that the directory
  ended.\<close>

fun path_sector :: "u8 list \<Rightarrow> nat \<Rightarrow> nat \<Rightarrow> u8 list \<Rightarrow> scan \<times> fat_file_entry option \<Rightarrow> bool \<times> scan \<times> fat_file_entry option" where
  "path_sector wanted offset 0 sector (sc, found) = (False, sc, found)"
| "path_sector wanted offset (Suc n) sector (sc, found) = (
     let raw = slice offset 32 sector; attr = raw ! 11
     in if raw ! 0 = 0x00 then (True, sc, None)
        else if raw ! 0 = 0xE5 then path_sector wanted (offset + 32) n sector (skip_entry sc, found)
        else if attr = 0x0F then path_sector wanted (offset + 32) n sector (lfn_entry raw sc, found)
        else if attr AND 0x08 \<noteq> 0 \<or> raw ! 0 = 0x2E then path_sector wanted (offset + 32) n sector (skip_entry sc, found)
        else let entry = named_entry raw sc
             in if str_eq_ci (fe_name entry) wanted then (True, skip_entry sc, Some (entry\<lparr>fe_name := printed FILE_NAME_MAX (fe_name entry)\<rparr>))
                else path_sector wanted (offset + 32) n sector (skip_entry sc, found))"

definition file_path_find_in_directory :: "'w sd_ops \<Rightarrow> u32 \<Rightarrow> u8 list \<Rightarrow> 'w fat_state \<Rightarrow> (file_path_result \<times> fat_file_entry option \<times> 'w fat_state) option" where
  "file_path_find_in_directory ops directory_cluster wanted s = (case dir_walk ops (path_sector wanted 0 16) directory_cluster (scan_start, None) s of
       None \<Rightarrow> None
     | Some (r, (_, found), s') \<Rightarrow> Some (
         if r = Walk_Failed then FILE_PATH_IO else if found \<noteq> None then FILE_PATH_OK else FILE_PATH_NOT_FOUND, found, s'))"

text \<open>\<open>path_loop\<close>: the loop over the components; \<open>cursor\<close> is what is left of the path, without leading separators.\<close>

definition skip_slashes :: "u8 list \<Rightarrow> u8 list" where
  "skip_slashes path = dropWhile (\<lambda>b. b = 0x2F) path"

lemma path_shrinks: "dropWhile P cursor \<noteq> [] \<Longrightarrow> length (skip_slashes (tl (dropWhile P cursor))) < length cursor"
proof -
  assume "dropWhile P cursor \<noteq> []"
  then have "length (tl (dropWhile P cursor)) < length (dropWhile P cursor)" by (cases "dropWhile P cursor") auto
  also have "\<dots> \<le> length cursor" by (rule length_dropWhile_le)
  finally show ?thesis using length_dropWhile_le [of "\<lambda>b. b = 0x2F" "tl (dropWhile P cursor)"] by (simp add: skip_slashes_def)
qed

function path_loop :: "'w sd_ops \<Rightarrow> u8 list \<Rightarrow> u32 \<Rightarrow> 'w fat_state \<Rightarrow> (file_path_result \<times> fat_file_entry option \<times> 'w fat_state) option" where
  "path_loop ops cursor directory_cluster s = (
     if cursor = [] then Some (FILE_PATH_INVALID, None, s)
     else
       let component = takeWhile (\<lambda>b. b \<noteq> 0x2F) cursor;
           rest = dropWhile (\<lambda>b. b \<noteq> 0x2F) cursor
       in if component = [] \<or> FILE_NAME_MAX \<le> length component then Some (FILE_PATH_INVALID, None, s)
          else (case file_path_find_in_directory ops directory_cluster component s of
              None \<Rightarrow> None
            | Some (FILE_PATH_OK, Some current_entry, s1) \<Rightarrow>
                if rest = [] then Some (FILE_PATH_OK, Some current_entry, s1)
                else if \<not> is_dir current_entry then Some (FILE_PATH_NOT_DIRECTORY, None, s1)
                else if skip_slashes (tl rest) = [] then Some (FILE_PATH_OK, Some current_entry, s1)
                else path_loop ops (skip_slashes (tl rest)) (fe_cluster current_entry) s1
            | Some (result, _, s1) \<Rightarrow> Some (result, None, s1)))"
  by pat_completeness auto
termination by (relation "measure (\<lambda>(ops, cursor, cluster, s). length cursor)") (auto intro!: path_shrinks simp: dropWhile_eq_Nil_conv)

declare path_loop.simps [simp del]

text \<open>The pointers \<open>path\<close> and \<open>entry\<close> may be null; \<open>*entry\<close> is only written when the path was found.\<close>

definition file_path_find :: "'c sd_bus \<Rightarrow> u8 list option \<Rightarrow> fat_file_entry option \<Rightarrow> 'c volume \<Rightarrow> (file_path_result \<times> fat_file_entry option \<times> 'c volume) option" where
  "file_path_find bus path entry s = (
     case path of None \<Rightarrow> Some (FILE_PATH_INVALID, entry, s)
     | Some p \<Rightarrow>
         if entry = None \<or> \<not> hk_fat_mounted s then Some (FILE_PATH_INVALID, entry, s)
         else if skip_slashes p = [] then Some (FILE_PATH_INVALID, entry, s)
         else (case path_loop (sd_card_ops bus) (skip_slashes p) (g_fat_root_cluster s) s of
             None \<Rightarrow> None
           | Some (r, found, s') \<Rightarrow> Some (r, if r = FILE_PATH_OK then found else entry, s')))"

lemma path_sector_scan:
  "path_sector wanted offset n sector (sc, None) =
     scan_sector (\<lambda>e c. if str_eq_ci (fe_name e) wanted then (True, Some (e\<lparr>fe_name := printed FILE_NAME_MAX (fe_name e)\<rparr>)) else (False, c)) offset n sector (sc, None)"
  by (induction n arbitrary: offset sc) (simp_all add: Let_def scan_sector.simps(2))


section \<open>The tree of directories\<close>

text \<open>A set \<open>T\<close> of first clusters of directories that is closed under going to a subdirectory, with the entries of each.\<close>

definition dir_tree :: "(nat \<Rightarrow> u8 list) \<Rightarrow> 'w fat_state \<Rightarrow> u32 set \<Rightarrow> (u32 \<Rightarrow> fat_file_entry list) \<Rightarrow> bool" where
  "dir_tree B s T D \<longleftrightarrow> (\<forall>c \<in> T. (\<exists>ks. chain_in B s ks \<and> hd ks = c \<and> D c = dir_entries (file_data B s ks)) \<and>
     (\<forall>e \<in> set (D c). is_dir e \<longrightarrow> fe_cluster e \<in> T))"

fun split_path :: "u8 list \<Rightarrow> u8 list list" where
  "split_path [] = [[]]"
| "split_path (b # bs) = (if b = 0x2F then [] # split_path bs else (case split_path bs of [] \<Rightarrow> [[b]] | p # ps \<Rightarrow> (b # p) # ps))"

definition path_components :: "u8 list \<Rightarrow> u8 list list" where
  "path_components path = filter (\<lambda>c. c \<noteq> []) (split_path path)"

fun lookup_path :: "(u32 \<Rightarrow> fat_file_entry list) \<Rightarrow> bool \<Rightarrow> u32 \<Rightarrow> u8 list list \<Rightarrow> file_path_result \<times> fat_file_entry option" where
  "lookup_path D dir c [] = (FILE_PATH_INVALID, None)"
| "lookup_path D dir c (w # ws) = (
     if FILE_NAME_MAX \<le> length w then (FILE_PATH_INVALID, None)
     else (case find (\<lambda>e. str_eq_ci (fe_name e) w) (D c) of
         None \<Rightarrow> (FILE_PATH_NOT_FOUND, None)
       | Some e \<Rightarrow>
           if (ws \<noteq> [] \<or> dir) \<and> \<not> is_dir e then (FILE_PATH_NOT_DIRECTORY, None)
           else if ws = [] then (FILE_PATH_OK, Some e)
           else lookup_path D dir (fe_cluster e) ws))"

lemma split_path_while: "split_path xs = takeWhile (\<lambda>b. b \<noteq> 0x2F) xs # (case dropWhile (\<lambda>b. b \<noteq> 0x2F) xs of [] \<Rightarrow> [] | _ # ys \<Rightarrow> split_path ys)"
  by (induction xs) auto

lemma path_components_slash: "path_components (0x2F # bs) = path_components bs"
  by (simp add: path_components_def)

lemma path_components_skip: "path_components (skip_slashes bs) = path_components bs"
  by (induction bs) (simp_all add: skip_slashes_def path_components_slash)

lemma path_components_Nil [simp]: "path_components [] = []"
  by (simp add: path_components_def)

lemma path_components_cursor:
  "takeWhile (\<lambda>b. b \<noteq> 0x2F) cursor \<noteq> [] \<Longrightarrow> path_components cursor =
     takeWhile (\<lambda>b. b \<noteq> 0x2F) cursor # path_components (skip_slashes (tl (dropWhile (\<lambda>b. b \<noteq> 0x2F) cursor)))"
  unfolding path_components_skip
  by (cases "dropWhile (\<lambda>b. b \<noteq> 0x2F) cursor")
    (simp_all add: path_components_def split_path_while [of cursor] del: dropWhile_eq_Nil_conv takeWhile_eq_Nil_iff)

lemma skip_first: "hd (skip_slashes bs) \<noteq> 0x2F" if "skip_slashes bs \<noteq> []"
  using hd_dropWhile [OF that [unfolded skip_slashes_def]] by (simp add: skip_slashes_def)

lemma components_empty: "skip_slashes bs = [] \<longleftrightarrow> path_components bs = []"
proof (induction bs)
  case (Cons b bs)
  show ?case
  proof (cases "b = 0x2F")
    case True
    then show ?thesis using Cons by (simp add: skip_slashes_def path_components_slash)
  next
    case False
    then show ?thesis using path_components_cursor [of "b # bs"] by (simp add: skip_slashes_def)
  qed
qed (simp add: skip_slashes_def)

text \<open>A path that ends in a separator names a directory.\<close>

definition slash_ends :: "u8 list \<Rightarrow> bool" where
  "slash_ends path \<longleftrightarrow> path \<noteq> [] \<and> List.last path = 0x2F"

lemma slash_ends_append: "ys \<noteq> [] \<Longrightarrow> slash_ends (xs @ ys) = slash_ends ys"
  by (simp add: slash_ends_def)

lemma all_slashes: "hd d = 0x2F \<Longrightarrow> skip_slashes (tl d) = [] \<Longrightarrow> \<forall>x \<in> set d. x = 0x2F"
  by (cases d) (auto simp: skip_slashes_def)

lemma slash_ends_all: "\<forall>x \<in> set d. x = 0x2F \<Longrightarrow> d \<noteq> [] \<Longrightarrow> slash_ends d"
  by (simp add: slash_ends_def)

lemma no_slash_ends: "takeWhile (\<lambda>b. b \<noteq> 0x2F) d = d \<Longrightarrow> \<not> slash_ends d"
  unfolding slash_ends_def takeWhile_eq_all_conv using last_in_set by blast

lemma slash_ends_rest:
  assumes "takeWhile (\<lambda>b. b \<noteq> 0x2F) cursor \<noteq> []"
  shows "dropWhile (\<lambda>b. b \<noteq> 0x2F) cursor = [] \<Longrightarrow> \<not> slash_ends cursor"
    and "dropWhile (\<lambda>b. b \<noteq> 0x2F) cursor \<noteq> [] \<Longrightarrow> skip_slashes (tl (dropWhile (\<lambda>b. b \<noteq> 0x2F) cursor)) = [] \<Longrightarrow> slash_ends cursor"
    and "skip_slashes (tl (dropWhile (\<lambda>b. b \<noteq> 0x2F) cursor)) \<noteq> [] \<Longrightarrow>
      slash_ends (skip_slashes (tl (dropWhile (\<lambda>b. b \<noteq> 0x2F) cursor))) = slash_ends cursor"
proof -
  let ?d = "dropWhile (\<lambda>b. b \<noteq> 0x2F) cursor"
  show "\<not> slash_ends cursor" if "?d = []" by (rule no_slash_ends) (metis that append_Nil2 takeWhile_dropWhile_id)
  have e: "slash_ends cursor = slash_ends ?d" if "?d \<noteq> []" using slash_ends_append [OF that, of "takeWhile (\<lambda>b. b \<noteq> 0x2F) cursor"] by (simp only: takeWhile_dropWhile_id)
  have h: "hd ?d = 0x2F" if "?d \<noteq> []" using hd_dropWhile [OF that] by simp
  show "slash_ends cursor" if d: "?d \<noteq> []" and s: "skip_slashes (tl ?d) = []"
    unfolding e [OF d] by (rule slash_ends_all [OF all_slashes [OF h [OF d] s] d])
  show "slash_ends (skip_slashes (tl ?d)) = slash_ends cursor" if s: "skip_slashes (tl ?d) \<noteq> []"
  proof -
    have d: "?d \<noteq> []" using s by (metis dropWhile.simps(1) list.sel(2) skip_slashes_def)
    have "?d = [hd ?d] @ tl ?d" using d by simp
    moreover have "tl ?d \<noteq> []" using s by (auto simp: skip_slashes_def)
    ultimately have "slash_ends ?d = slash_ends (tl ?d)" by (metis slash_ends_append)
    also have "\<dots> = slash_ends (skip_slashes (tl ?d))"
      using slash_ends_append [OF s, of "takeWhile (\<lambda>b. b = 0x2F) (tl ?d)"] unfolding skip_slashes_def by (simp only: takeWhile_dropWhile_id)
    finally have "slash_ends ?d = slash_ends (skip_slashes (tl ?d))" .
    then show ?thesis using e [OF d] by simp
  qed
qed

section \<open>Following a path\<close>

lemma visit_first: "snd (visit (\<lambda>e c. if P e then (True, Some (f e)) else (False, c)) es c) = (case find P es of Some e \<Rightarrow> Some (f e) | None \<Rightarrow> c)"
  by (induction es) auto

lemma find_append_Some: "find P xs = Some e \<Longrightarrow> find P (xs @ ys) = Some e"
  by (induction xs) auto

lemma printed_name: "e \<in> set (listing sc raws) \<Longrightarrow> e\<lparr>fe_name := printed FILE_NAME_MAX (fe_name e)\<rparr> = e"
proof (induction sc raws rule: listing.induct)
  case (2 sc raw raws)
  have "printed FILE_NAME_MAX (entry_name raw sc) = entry_name raw sc" using entry_name_length [of raw sc] by (simp add: printed_def)
  then have "(named_entry raw sc)\<lparr>fe_name := printed FILE_NAME_MAX (fe_name (named_entry raw sc))\<rparr> = named_entry raw sc"
    by (simp add: named_entry_def)
  then show ?case using 2 by (auto simp: scan_raw_def split: if_splits)
qed simp

lemma find_printed: "find P (dir_entries bytes) = Some e \<Longrightarrow> e\<lparr>fe_name := printed FILE_NAME_MAX (fe_name e)\<rparr> = e"
  unfolding dir_entries_def by (metis find_Some_iff nth_mem printed_name)

abbreviation first_named :: "u8 list \<Rightarrow> fat_file_entry \<Rightarrow> fat_file_entry option \<Rightarrow> bool \<times> fat_file_entry option" where
  "first_named wanted \<equiv> \<lambda>e c. if str_eq_ci (fe_name e) wanted then (True, Some (e\<lparr>fe_name := printed FILE_NAME_MAX (fe_name e)\<rparr>)) else (False, c)"

lemma path_sector_found: "path_sector wanted offset n sector (sc, None) = (False, a) \<Longrightarrow> \<exists>sc'. a = (sc', None)"
proof (induction n arbitrary: offset sc)
  case (Suc n)
  then show ?case by (auto simp: Let_def split: if_splits)
qed auto

lemma consume_path: "consume (path_sector wanted 0 16) secs (sc, None) = consume (scan_sector (first_named wanted) 0 16) secs (sc, None)"
proof (induction secs arbitrary: sc)
  case (Cons sec secs)
  obtain f a where b: "path_sector wanted 0 16 sec (sc, None) = (f, a)" by (metis prod.collapse)
  show ?case
  proof (cases f)
    case False
    then have "path_sector wanted 0 16 sec (sc, None) = (False, a)" using b by simp
    then obtain sc' where "a = (sc', None)" using path_sector_found by blast
    then show ?thesis using b False Cons by (simp add: path_sector_scan [symmetric])
  qed (simp add: b path_sector_scan [symmetric])
qed simp

context block_store
begin

lemma file_data_prefix:
  fixes s :: "'w fat_state"
  shows "usable w \<Longrightarrow> \<exists>zs. dir_entries (file_data (blk w) s ks) = dir_entries (file_data (blk w) s (take n ks)) @ zs"
proof -
  assume us: "usable w"
  have "file_data (blk w) s ks = file_data (blk w) s (take n ks) @ file_data (blk w) s (drop n ks)"
    unfolding file_data_def map_append [symmetric] concat_append [symmetric] by simp
  moreover have "length (file_data (blk w) s (take n ks)) = 32 * (length (take n ks) * (16 * unat (g_fat_sectors_per_cluster s)))"
    unfolding length_file_data [OF us] by simp
  ultimately show ?thesis unfolding dir_entries_def using raw_entries_append listing_append by metis
qed

lemma find_in_directory_spec:
  assumes f: "fat_ready usable room s" and ch: "file_chain s ks" and start: "c = hd ks"
  shows "\<exists>r found s'. file_path_find_in_directory ops c wanted s = Some (r, found, s') \<and> looks s s' \<and>
    (r = FILE_PATH_OK \<and> found \<noteq> None \<or> r = FILE_PATH_NOT_FOUND \<and> found = None \<or> r = FILE_PATH_IO \<and> \<not> reliable) \<and>
    (r = FILE_PATH_OK \<or> reliable \<longrightarrow> found = find (\<lambda>e. str_eq_ci (fe_name e) wanted) (dir_entries (file_data (blk (f_sd s)) s ks)))"
proof -
  let ?es = "\<lambda>n. dir_entries (file_data (blk (f_sd s)) s (take n ks))"
  have us: "usable (f_sd s)" by (rule fat_readyD(1) [OF f])
  from dir_walk_spec [OF f ch reached_start [OF ch] le0, of "path_sector wanted 0 16" "(scan_start, None)"] obtain r a s' where
    w: "dir_walk ops (path_sector wanted 0 16) (hd ks) (scan_start, None) s = Some (r, a, s')" "looks s s'" "reliable \<longrightarrow> r \<noteq> Walk_Failed"
    and n: "r \<noteq> Walk_Failed \<longrightarrow> (\<exists>n. n \<le> length ks \<and> (reliable \<longrightarrow> n = length ks) \<and>
         consume (path_sector wanted 0 16) (dir_sectors (blk (f_sd s)) s (drop 0 (take n ks))) (scan_start, None) = (r = Walk_Finished, a))" by blast
  obtain sc found where a: "a = (sc, found)" by (cases a)
  have run: "file_path_find_in_directory ops c wanted s = Some (
         if r = Walk_Failed then FILE_PATH_IO else if found \<noteq> None then FILE_PATH_OK else FILE_PATH_NOT_FOUND, found, s')"
    unfolding file_path_find_in_directory_def start w a by simp
  show ?thesis
  proof (cases "r = Walk_Failed")
    case True
    then show ?thesis using run w by simp
  next
    case False
    then obtain n where k: "n \<le> length ks" "reliable \<longrightarrow> n = length ks"
      "consume (path_sector wanted 0 16) (dir_sectors (blk (f_sd s)) s (drop 0 (take n ks))) (scan_start, None) = (r = Walk_Finished, a)"
      using n by blast
    have "found = snd (visit (first_named wanted) (?es n) None)"
      using k(3) unfolding consume_path consume_scan [OF dir_sectors_length [OF us]] dir_sectors_data drop_0 a dir_entries_def
        scan_run_visit [of _ _ scan_start None, symmetric] by simp
    then have found: "found = find (\<lambda>e. str_eq_ci (fe_name e) wanted) (?es n)"
      by (simp add: visit_first find_printed split: option.split)
    obtain zs where "dir_entries (file_data (blk (f_sd s)) s ks) = ?es n @ zs" using file_data_prefix [OF us] by blast
    then have "found \<noteq> None \<longrightarrow> found = find (\<lambda>e. str_eq_ci (fe_name e) wanted) (dir_entries (file_data (blk (f_sd s)) s ks))"
      using found find_append_Some by (metis option.exhaust)
    then show ?thesis using run w False k(2) found by (cases found) auto
  qed
qed

lemma dir_tree_looks: "looks s s' \<Longrightarrow> dir_tree (blk (f_sd s')) s' T D = dir_tree (blk (f_sd s)) s T D"
  using file_chain_looks [of s s'] file_data_same [OF looks_geometry, of s s'] by (simp add: dir_tree_def looks_def)

lemma path_loop_spec:
  "fat_ready usable room s \<Longrightarrow> dir_tree (blk (f_sd s)) s T D \<Longrightarrow> c \<in> T \<Longrightarrow> cursor \<noteq> [] \<Longrightarrow> hd cursor \<noteq> 0x2F \<Longrightarrow>
    \<exists>r found s'. path_loop ops cursor c s = Some (r, found, s') \<and> looks s s' \<and> (r = FILE_PATH_OK \<longleftrightarrow> found \<noteq> None) \<and>
      (r \<notin> {FILE_PATH_IO, FILE_PATH_NOT_FOUND} \<or> reliable \<longrightarrow> (r, found) = lookup_path D (slash_ends cursor) c (path_components cursor))"
proof (induction cursor arbitrary: c s rule: length_induct)
  case (1 cursor)
  note f = 1(2) and tree = 1(3) and c = 1(4) and ne = 1(5) and first = 1(6)
  let ?w = "takeWhile (\<lambda>b. b \<noteq> 0x2F) cursor" and ?d = "dropWhile (\<lambda>b. b \<noteq> 0x2F) cursor"
  let ?rest = "skip_slashes (tl ?d)"
  have w: "?w \<noteq> []" using ne first by (cases cursor) auto
  note comps = path_components_cursor [OF w] and ends = slash_ends_rest [OF w]
  show ?case
  proof (cases "FILE_NAME_MAX \<le> length ?w")
    case True
    then have "path_loop ops cursor c s = Some (FILE_PATH_INVALID, None, s)" using ne w by (simp add: path_loop.simps [of ops cursor] Let_def)
    then show ?thesis using looks_refl [OF f] True unfolding comps by simp
  next
    case short: False
    obtain ks where ks: "file_chain s ks" "hd ks = c" "D c = dir_entries (file_data (blk (f_sd s)) s ks)"
      and sub: "\<forall>e \<in> set (D c). is_dir e \<longrightarrow> fe_cluster e \<in> T" using tree c by (auto simp: dir_tree_def)
    from find_in_directory_spec [OF f ks(1) ks(2) [symmetric], of ?w, folded ks(3)] obtain r found s1 where
      fd: "file_path_find_in_directory ops c ?w s = Some (r, found, s1)" "looks s s1"
      and r: "r = FILE_PATH_OK \<and> found \<noteq> None \<or> r = FILE_PATH_NOT_FOUND \<and> found = None \<or> r = FILE_PATH_IO \<and> \<not> reliable"
      and found: "r = FILE_PATH_OK \<or> reliable \<longrightarrow> found = find (\<lambda>e. str_eq_ci (fe_name e) ?w) (D c)" by blast
    have run: "path_loop ops cursor c s = (case (r, found) of
              (FILE_PATH_OK, Some current_entry) \<Rightarrow>
                if ?d = [] then Some (FILE_PATH_OK, Some current_entry, s1)
                else if \<not> is_dir current_entry then Some (FILE_PATH_NOT_DIRECTORY, None, s1)
                else if ?rest = [] then Some (FILE_PATH_OK, Some current_entry, s1)
                else path_loop ops ?rest (fe_cluster current_entry) s1
            | (result, _) \<Rightarrow> Some (result, None, s1))"
      using ne w short by (subst path_loop.simps) (simp add: Let_def fd split: file_path_result.split option.split)
    show ?thesis
    proof (cases "r = FILE_PATH_OK")
      case False
      then show ?thesis using r fd found short run unfolding comps by auto
    next
      case True
      then obtain e where e: "found = Some e" "find (\<lambda>e. str_eq_ci (fe_name e) ?w) (D c) = Some e" using r found by auto
      have run: "path_loop ops cursor c s = (if ?d = [] then Some (FILE_PATH_OK, Some e, s1)
                else if \<not> is_dir e then Some (FILE_PATH_NOT_DIRECTORY, None, s1)
                else if ?rest = [] then Some (FILE_PATH_OK, Some e, s1)
                else path_loop ops ?rest (fe_cluster e) s1)" using run True e by simp
      have nil: "path_components ?rest = [] \<longleftrightarrow> ?rest = []" unfolding path_components_skip components_empty ..
      show ?thesis
      proof (cases "?d = []")
        case True
        then have "?rest = []" by (metis dropWhile.simps(1) list.sel(2) skip_slashes_def)
        then have pc: "path_components ?rest = []" using nil by simp
        show ?thesis using run True fd(2) e ends(1) short unfolding comps pc by simp
      next
        case d: False
        show ?thesis
        proof (cases "is_dir e \<and> ?rest \<noteq> []")
          case False
          then show ?thesis using run d fd(2) e ends(2) [OF d] short nil unfolding comps by auto
        next
          case True
          have "e \<in> set (D c)" using e(2) by (metis find_Some_iff nth_mem)
          then have t: "fe_cluster e \<in> T" using sub True by blast
          have tree1: "dir_tree (blk (f_sd s1)) s1 T D" using tree dir_tree_looks [OF fd(2)] by simp
          from 1(1) [rule_format, OF path_shrinks [OF d] looks_ready [OF fd(2)] tree1 t conjunct2 [OF True] skip_first [OF conjunct2 [OF True]]]
          show ?thesis using run d True fd(2) e ends(3) [OF conjunct2 [OF True]] short nil looks_trans [OF fd(2)] unfolding comps by auto
        qed
      qed
    qed
  qed
qed

end

section \<open>Properties\<close>

lemma slash_ends_skip: "skip_slashes p \<noteq> [] \<Longrightarrow> slash_ends (skip_slashes p) = slash_ends p"
  unfolding skip_slashes_def by (metis slash_ends_append takeWhile_dropWhile_id)

context sd_device
begin

lemma find_path:
  assumes v: "volume_ok view s" and m: "hk_fat_mounted s" and tree: "dir_tree (disk view s) s T D" and root: "g_fat_root_cluster s \<in> T"
  shows "\<exists>r entry' s'. file_path_find bus (Some path) (Some entry) s = Some (r, entry', s') \<and>
    volume_ok view s' \<and> geometry s' = geometry s \<and> disk view s' = disk view s \<and> (r \<noteq> FILE_PATH_OK \<longrightarrow> entry' = Some entry) \<and>
    (r \<notin> {FILE_PATH_IO, FILE_PATH_NOT_FOUND} \<or> card_reliable bus view \<longrightarrow>
       (r, if r = FILE_PATH_OK then entry' else None) = lookup_path D (slash_ends path) (g_fat_root_cluster s) (path_components path))"
proof (cases "skip_slashes path = []")
  case True
  then show ?thesis using v m by (simp add: file_path_find_def components_empty)
next
  case False
  have rd: "fat_ready (sd_usable view) (sd_room view) s" using v by (simp add: volume_ok_def)
  from store.path_loop_spec [OF rd tree root False skip_first [OF False]] obtain r found s' where
    l: "path_loop (sd_card_ops bus) (skip_slashes path) (g_fat_root_cluster s) s = Some (r, found, s')" "store.looks s s'"
    "r = FILE_PATH_OK \<longleftrightarrow> found \<noteq> None" "r \<notin> {FILE_PATH_IO, FILE_PATH_NOT_FOUND} \<or> card_reliable bus view \<longrightarrow>
       (r, found) = lookup_path D (slash_ends path) (g_fat_root_cluster s) (path_components path)"
    unfolding slash_ends_skip [OF False] path_components_skip by blast
  then show ?thesis using m False volume_looks [OF v l(2)] by (auto simp: file_path_find_def)
qed

end

text \<open>A directory with one file on the small volume.\<close>

definition hello_raw :: "u8 list" where
  "hello_raw = [0x48, 0x45, 0x4C, 0x4C, 0x4F, 0x20, 0x20, 0x20, 0x54, 0x58, 0x54, 0x20, 0, 0, 0, 0, 0, 0, 0, 0, 0, 0, 0, 0, 0, 0, 4, 0, 5, 0, 0, 0]"

definition hello_entry :: fat_file_entry where
  "hello_entry = \<lparr>fe_name = [0x48, 0x45, 0x4C, 0x4C, 0x4F, 0x2E, 0x54, 0x58, 0x54], fe_attr = 0x20, fe_cluster = 4, fe_size = 5,
     fe_modified = 0, fe_dir_ordinal = 0, fe_lfn_count = 0\<rparr>"

definition dir_card :: sd_view where
  "dir_card = sample_card\<lparr>blocks := (blocks sample_card)(2 := hello_raw @ replicate 480 0)\<rparr>"

definition dir_volume :: "sd_view volume" where
  "dir_volume = sample_volume\<lparr>f_sd := (f_sd sample_volume)\<lparr>sd_hw := dir_card\<rparr>\<rparr>"

lemma dir_usable: "sd_usable ref_card_view (f_sd dir_volume)"
  by (simp add: sd_usable_def Let_def dir_volume_def dir_card_def sample_volume_def sample_card_def ref_card_view_def ref_phase_def hello_raw_def)

lemma dir_ok: "volume_ok ref_card_view dir_volume"
  using dir_usable by (simp add: volume_ok_def fat_ready_def vol_ok_def hint_ok_def FAT32_EOC_def sd_room_def ref_card_view_def dir_volume_def
      dir_card_def sample_card_def) (simp add: sample_volume_def)

lemma dir_disk: "disk ref_card_view dir_volume = blocks dir_card"
  by (simp add: sd_blk_def sample_volume_def dir_volume_def ref_card_view_def)

lemma dir_links: "links ref_card_view dir_volume 0 2 = 3" "links ref_card_view dir_volume 0 3 = 0x0FFFFFFF"
  unfolding dir_disk
  by (simp_all add: fat_entry_def fat_word_def dir_volume_def sample_volume_def dir_card_def sample_card_def sample_table_def wr32_def rd32_def nth_list_update)

lemma dir_file: "has_chain ref_card_view dir_volume [2, 3]"
  by (simp add: chain_in_def dir_links FAT32_EOC_def) (simp add: is_cluster_def dir_volume_def sample_volume_def)

lemma dir_bytes: "bytes_of ref_card_view dir_volume [2, 3] = hello_raw @ replicate 480 0 @ replicate 512 9"
  unfolding dir_disk by (simp add: file_data_def cluster_data_def cluster_sector_def)
     (simp add: dir_volume_def sample_volume_def dir_card_def sample_card_def)

lemma dir_listing: "dir_entries (hello_raw @ replicate 480 0 @ replicate 512 9) = [hello_entry]"
proof -
  let ?b = "hello_raw @ replicate 480 0 @ replicate 512 9"
  have l: "[0..<length ?b div 32] = 0 # 1 # [2..<32]" by (simp add: hello_raw_def upt_conv_Cons)
  have raws: "raw_entries ?b = hello_raw # replicate 32 0 # map (\<lambda>j. slice (32 * j) 32 ?b) [2..<32]"
    unfolding raw_entries_def l by (simp add: slice_def hello_raw_def)
  have one: "scan_raw hello_raw scan_start = Some (Some (named_entry hello_raw scan_start), skip_entry scan_start)"
    by (simp add: scan_raw_def hello_raw_def)
  have "named_entry hello_raw scan_start = hello_entry"
    by (simp add: named_entry_def hello_entry_def entry_name_def scan_start_def file_dir_short_name_def Let_def printed_def
        FILE_NAME_MAX_def FILE_LFN_MAX_UNITS_def c_string_def hello_raw_def rd16_def rd32_def)
  moreover have "scan_raw (replicate 32 0) sc = None" for sc by (simp add: scan_raw_def)
  ultimately show ?thesis unfolding dir_entries_def raws by (simp add: one)
qed

lemma dir_tree_sample: "dir_tree (disk ref_card_view dir_volume) dir_volume {2} (\<lambda>c. [hello_entry])"
  using dir_file dir_bytes dir_listing by (auto simp: dir_tree_def is_dir_def hello_entry_def FAT_ATTR_DIR_def intro!: exI [of _ "[2, 3]"])

text \<open>C34. A path leads to the entry it names. On a volume whose directories form a tree, \<open>file_path_find\<close> returns without
  writing to the card, and what it reports, the entry of the file or directory, \<open>FILE_PATH_NOT_DIRECTORY\<close> or
  \<open>FILE_PATH_INVALID\<close>, is the result of looking the components of the path up one after the other, case ignored, long
  names included. On a card whose reads do not fail \<open>FILE_PATH_NOT_FOUND\<close> is right as well, and \<open>FILE_PATH_IO\<close> does not occur.\<close>

theorem file_path_find_resolves:
  assumes "sd_device bus view" and "volume_ok view s" and "hk_fat_mounted s" and "dir_tree (disk view s) s T D" and "g_fat_root_cluster s \<in> T"
  shows "\<exists>r entry' s'. file_path_find bus (Some path) (Some entry) s = Some (r, entry', s') \<and>
    volume_ok view s' \<and> geometry s' = geometry s \<and> disk view s' = disk view s \<and> (r \<noteq> FILE_PATH_OK \<longrightarrow> entry' = Some entry) \<and>
    (r \<notin> {FILE_PATH_IO, FILE_PATH_NOT_FOUND} \<or> card_reliable bus view \<longrightarrow>
       (r, if r = FILE_PATH_OK then entry' else None) = lookup_path D (slash_ends path) (g_fat_root_cluster s) (path_components path))"
  by (rule sd_device.find_path [OF assms])

text \<open>The path \<open>/hello.txt\<close> on the card with the file \<open>HELLO.TXT\<close>.\<close>

theorem file_path_find_resolves_witness:
  "\<exists>s'. file_path_find ref_bus (Some [0x2F, 0x68, 0x65, 0x6C, 0x6C, 0x6F, 0x2E, 0x74, 0x78, 0x74]) (Some sample_entry) dir_volume =
     Some (FILE_PATH_OK, Some hello_entry, s')"
proof -
  let ?p = "[0x2F, 0x68, 0x65, 0x6C, 0x6C, 0x6F, 0x2E, 0x74, 0x78, 0x74] :: u8 list"
  have "lookup_path (\<lambda>c. [hello_entry]) (slash_ends ?p) 2 (path_components ?p) = (FILE_PATH_OK, Some hello_entry)"
    by (simp add: slash_ends_def path_components_def str_eq_ci_map ascii_lower_def hello_entry_def FILE_NAME_MAX_def)
  moreover have "hk_fat_mounted dir_volume" "g_fat_root_cluster dir_volume = 2" by (simp_all add: hk_fat_mounted_def dir_volume_def sample_volume_def)
  ultimately show ?thesis
    using file_path_find_resolves [OF ref_card.sd_device_axioms dir_ok _ dir_tree_sample, of ?p sample_entry] ref_reliable by force
qed

end
