(* ===== verification/File_Browser.thy ===== *)
theory File_Browser
  imports File_Path "HOL-Library.Multiset"
begin

text \<open>
  The file browser: its state (\<open>apps/files/file_browser_state.c\<close>), a directory loaded and sorted (\<open>file_dir.c\<close>), the
  preview of a text (\<open>file_preview.c\<close>), deletion (\<open>file_delete.c\<close>) and the actions of the user (\<open>files_actions.c\<close>,
  \<open>files_backend.c\<close>). What is drawn is left out, except that drawing the list moves the window; the image decoders are an
  argument \<open>decode\<close> (\<open>files_presenter_render_image\<close>), which gives the result and what it did to the volume.
\<close>

section \<open>State\<close>

definition FILES_MAX_ENTRIES :: nat where "FILES_MAX_ENTRIES = 64"
definition FILES_STACK_MAX :: u8 where "FILES_STACK_MAX = 8"
definition FILE_PREVIEW_MAX :: nat where "FILE_PREVIEW_MAX = 2048"
definition FILES_ROWS :: u8 where "FILES_ROWS = 5"

datatype file_browser_mode = FILES_MODE_LIST | FILES_MODE_TEXT | FILES_MODE_IMAGE | FILES_MODE_DELETE_CONFIRM

datatype file_result = FILE_RESULT_OK | FILE_RESULT_READ_ERROR | FILE_RESULT_UNSUPPORTED_FORMAT | FILE_RESULT_TOO_LARGE
  | FILE_RESULT_DELETE_FAILED | FILE_RESULT_NOT_FOUND

datatype file_item_kind = FILE_ITEM_REGULAR | FILE_ITEM_DIRECTORY

record file_list_item =
  it_name :: "u8 list"
  it_size :: u32
  it_kind :: file_item_kind

text \<open>The arrays \<open>g_files\<close> and \<open>g_file_list_items\<close> are the lists of their first \<open>g_files_count\<close> elements; the number is
  at most 64.\<close>

record browser =
  g_files_cluster :: u32
  g_files_stack :: "u32 list"
  g_files_depth :: u8
  g_files_index :: u8
  g_files_top :: u8
  g_files_preview_mode :: file_browser_mode
  g_files_preview_page :: u8
  g_files_preview_len :: u16
  g_files_preview :: "u8 list"
  g_files :: "fat_file_entry list"
  g_file_list_items :: "file_list_item list"
  g_files_delete_origin_mode :: file_browser_mode

definition files_count :: "browser \<Rightarrow> u8" where
  "files_count b = of_nat (length (g_files b))"

definition list_item :: "fat_file_entry \<Rightarrow> file_list_item" where
  "list_item e = \<lparr>it_name = fe_name e, it_size = fe_size e,
     it_kind = (if is_dir e then FILE_ITEM_DIRECTORY else FILE_ITEM_REGULAR)\<rparr>"

definition files_refresh_list_items :: "browser \<Rightarrow> browser" where
  "files_refresh_list_items b = b\<lparr>g_file_list_items := map list_item (g_files b)\<rparr>"

definition files_append_entry :: "fat_file_entry \<Rightarrow> browser \<Rightarrow> bool \<times> browser" where
  "files_append_entry e b = (
     if FILES_MAX_ENTRIES \<le> length (g_files b) then (False, b)
     else let entry = e\<lparr>fe_name := take (FILE_NAME_MAX - 1) (fe_name e)\<rparr>
          in (True, b\<lparr>g_files := g_files b @ [entry], g_file_list_items := g_file_list_items b @ [list_item entry]\<rparr>))"

text \<open>\<open>files_sort_newest_first\<close>: \<open>sort_shift\<close> is the inner loop, with the place to fill.\<close>

definition older :: "fat_file_entry \<Rightarrow> fat_file_entry \<Rightarrow> bool" where
  "older e key \<longleftrightarrow> fe_modified e < fe_modified key \<or> fe_modified e = fe_modified key \<and> fe_dir_ordinal e < fe_dir_ordinal key"

fun sort_shift :: "fat_file_entry \<Rightarrow> nat \<Rightarrow> fat_file_entry list \<Rightarrow> fat_file_entry list" where
  "sort_shift key 0 fs = fs[0 := key]"
| "sort_shift key (Suc i) fs = (if older (fs ! i) key then sort_shift key i (fs[Suc i := fs ! i]) else fs[Suc i := key])"

definition files_sort_newest_first :: "browser \<Rightarrow> browser" where
  "files_sort_newest_first b = files_refresh_list_items
     (b\<lparr>g_files := fold (\<lambda>i fs. sort_shift (fs ! i) i fs) [1..<length (g_files b)] (g_files b)\<rparr>)"

definition files_entry_at :: "u8 \<Rightarrow> browser \<Rightarrow> fat_file_entry option" where
  "files_entry_at index b = (if files_count b \<le> index then None else Some (g_files b ! unat index))"

definition files_selected_entry :: "browser \<Rightarrow> fat_file_entry option" where
  "files_selected_entry b = files_entry_at (g_files_index b) b"

definition files_reset_list :: "browser \<Rightarrow> browser" where
  "files_reset_list b = b\<lparr>g_files_index := 0, g_files_top := 0, g_files := [], g_file_list_items := []\<rparr>"

definition files_ensure_visible :: "browser \<Rightarrow> browser" where
  "files_ensure_visible b = (
     let top1 = (if g_files_index b < g_files_top b then g_files_index b else g_files_top b);
         top2 = (if unat top1 + unat FILES_ROWS \<le> unat (g_files_index b) then g_files_index b - FILES_ROWS + 1 else top1)
     in b\<lparr>g_files_top := top2\<rparr>)"

definition files_push_current_cluster :: "browser \<Rightarrow> bool \<times> browser" where
  "files_push_current_cluster b = (
     if FILES_STACK_MAX \<le> g_files_depth b then (False, b)
     else (True, b\<lparr>g_files_stack := (g_files_stack b)[unat (g_files_depth b) := g_files_cluster b], g_files_depth := g_files_depth b + 1\<rparr>))"

definition files_pop_cluster :: "browser \<Rightarrow> u32 option \<times> browser" where
  "files_pop_cluster b = (
     if g_files_depth b = 0 then (None, b)
     else (Some (g_files_stack b ! unat (g_files_depth b - 1)), b\<lparr>g_files_depth := g_files_depth b - 1\<rparr>))"

section \<open>Loading a directory\<close>

definition files_add_entry :: "fat_file_entry \<Rightarrow> browser \<Rightarrow> browser" where
  "files_add_entry e b = (if fe_name e = [] then b else snd (files_append_entry e b))"

text \<open>The entries of a sector from \<open>offset\<close> on, \<open>n\<close> of them left; the result says whether to go on.\<close>

fun files_parse_dir_sector :: "nat \<Rightarrow> nat \<Rightarrow> u8 list \<Rightarrow> scan \<times> browser \<Rightarrow> bool \<times> scan \<times> browser" where
  "files_parse_dir_sector off 0 sector (sc, b) = (True, sc, b)"
| "files_parse_dir_sector off (Suc n) sector (sc, b) = (
     let e = slice off 32 sector; attr = e ! 11
     in if e ! 0 = 0x00 then (False, sc, b)
        else if e ! 0 = 0xE5 then files_parse_dir_sector (off + 32) n sector (skip_entry sc, b)
        else if attr = 0x0F then files_parse_dir_sector (off + 32) n sector (lfn_entry e sc, b)
        else if attr AND 0x08 \<noteq> 0 then files_parse_dir_sector (off + 32) n sector (skip_entry sc, b)
        else if e ! 0 = 0x2E then files_parse_dir_sector (off + 32) n sector (skip_entry sc, b)
        else files_parse_dir_sector (off + 32) n sector (skip_entry sc, files_add_entry (named_entry e sc) b))"

definition load_sector :: "u8 list \<Rightarrow> scan \<times> browser \<Rightarrow> bool \<times> scan \<times> browser" where
  "load_sector sector a = (case files_parse_dir_sector 0 16 sector a of
     (keep_going, sc, b) \<Rightarrow> (\<not> keep_going \<or> FILES_MAX_ENTRIES \<le> length (g_files b), sc, b))"

definition files_load_dir :: "'w sd_ops \<Rightarrow> u32 \<Rightarrow> browser \<Rightarrow> 'w fat_state \<Rightarrow> (bool \<times> browser \<times> 'w fat_state) option" where
  "files_load_dir ops cluster b s = (case dir_walk ops load_sector cluster (scan_start, files_reset_list b) s of
       None \<Rightarrow> None
     | Some (r, (_, b'), s') \<Rightarrow> Some (if r = Walk_Failed then (False, b', s') else (True, files_sort_newest_first b', s')))"

section \<open>Preview\<close>

definition printable :: "u8 \<Rightarrow> u8" where
  "printable c = (if c < 0x20 \<or> 0x7E < c then 0x2E else c)"

text \<open>One sector, with what is left of the file and what was taken so far; the loops end when one of the two is used up.\<close>

definition preview_sector :: "u8 list \<Rightarrow> u32 \<times> u8 list \<Rightarrow> bool \<times> u32 \<times> u8 list" where
  "preview_sector sector a = (case a of (remaining, out) \<Rightarrow>
     let take0 = (if 512 < remaining then 512 else unat remaining);
         n = (if FILE_PREVIEW_MAX - length out < take0 then FILE_PREVIEW_MAX - length out else take0);
         out' = out @ map printable (take n sector);
         remaining' = remaining - of_nat n
     in (remaining' = 0 \<or> FILE_PREVIEW_MAX \<le> length out', remaining', out'))"

definition files_read_preview :: "'w sd_ops \<Rightarrow> fat_file_entry \<Rightarrow> browser \<Rightarrow> 'w fat_state \<Rightarrow> (bool \<times> browser \<times> 'w fat_state) option" where
  "files_read_preview ops entry b s = (
     case (if fe_size entry = 0 then Some (Walk_Through, (fe_size entry, []), s)
           else dir_walk ops preview_sector (fe_cluster entry) (fe_size entry, []) s) of
       None \<Rightarrow> None
     | Some (r, (_, out), s') \<Rightarrow>
         let b' = b\<lparr>g_files_preview := out @ replicate (FILE_PREVIEW_MAX + 1 - length out) 0\<rparr>
         in Some (if r = Walk_Failed then (False, b', s') else (True, b'\<lparr>g_files_preview_len := of_nat (length out)\<rparr>, s')))"

section \<open>Deletion\<close>

text \<open>\<open>files_delete_dir_contents\<close>, with the place it has come to as arguments: the cluster, the sector in it, and the
  entry in the sector, \<open>None\<close> when the sector has still to be read. The recursive call, \<open>fat_dir_mark_deleted\<close> and
  \<open>fat_free_chain\<close> use the same sector buffer, and the loop goes on with what they leave in it.\<close>

datatype delete_step = Del_End | Del_Skip u8 | Del_Entry u32 bool

text \<open>What an entry is to the loop: the end, one to pass with the new \<open>lfn_count\<close>, or a file or directory to delete.\<close>

definition delete_step_of :: "u8 list \<Rightarrow> u8 \<Rightarrow> delete_step" where
  "delete_step_of e lfn_count = (
     let attr = e ! 11
     in if e ! 0 = 0x00 then Del_End
        else if e ! 0 = 0xE5 then Del_Skip 0
        else if attr = 0x0F then Del_Skip (if lfn_count < 20 then lfn_count + 1 else lfn_count)
        else if attr AND 0x08 \<noteq> 0 then Del_Skip 0
        else if e ! 0 = 0x2E then Del_Skip 0
        else Del_Entry (push_bit 16 (ucast (rd16 e 20)) OR ucast (rd16 e 26)) (attr AND FAT_ATTR_DIR \<noteq> 0))"

definition delete_one :: "'w sd_ops \<Rightarrow> u32 \<Rightarrow> u32 \<Rightarrow> u8 \<Rightarrow> u32 \<Rightarrow> 'w fat_state \<Rightarrow> (bool \<times> 'w fat_state) option" where
  "delete_one ops dir_cluster ordinal lfn_count cluster s = (
     case fat_dir_mark_deleted ops dir_cluster ordinal lfn_count s of
       None \<Rightarrow> None
     | Some (False, s1) \<Rightarrow> Some (False, s1)
     | Some (True, s1) \<Rightarrow> if 2 \<le> cluster then fat_free_chain ops cluster s1 else Some (True, s1))"

partial_function (option) delete_from :: "'w sd_ops \<Rightarrow> u32 \<Rightarrow> u32 \<Rightarrow> nat \<Rightarrow> nat option \<Rightarrow> u32 \<Rightarrow> u8 \<Rightarrow> 'w fat_state \<Rightarrow> (bool \<times> 'w fat_state) option" where
  "delete_from ops dir_cluster current sec pos ordinal lfn_count s = (
     case pos of
       None \<Rightarrow>
         if sec = 0 \<and> \<not> in_chain current then Some (True, s)
         else if sec < unat (g_fat_sectors_per_cluster s) then
           (let r = scratch_read ops (fat_cluster_lba current s + of_nat sec) s
            in if \<not> fst r then Some (False, snd r) else delete_from ops dir_cluster current sec (Some 0) ordinal lfn_count (snd r))
         else (let r = fat_next_cluster ops current s in delete_from ops dir_cluster (fst r) 0 None ordinal lfn_count (snd r))
     | Some i \<Rightarrow>
         if 16 \<le> i then delete_from ops dir_cluster current (sec + 1) None ordinal lfn_count s
         else (case delete_step_of (slice (32 * i) 32 (g_sd_sector s)) lfn_count of
             Del_End \<Rightarrow> Some (True, s)
           | Del_Skip lfn_count' \<Rightarrow> delete_from ops dir_cluster current sec (Some (i + 1)) (ordinal + 1) lfn_count' s
           | Del_Entry cluster dir \<Rightarrow>
               Option.bind (if dir \<and> 2 \<le> cluster then delete_from ops cluster cluster 0 None 0 0 s else Some (True, s)) (\<lambda>r1.
                 if \<not> fst r1 then Some (False, snd r1)
                 else Option.bind (delete_one ops dir_cluster ordinal lfn_count cluster (snd r1)) (\<lambda>r2.
                   if \<not> fst r2 then Some (False, snd r2)
                   else delete_from ops dir_cluster current sec (Some (i + 1)) (ordinal + 1) 0 (snd r2)))))"

definition files_delete_dir_contents :: "'w sd_ops \<Rightarrow> u32 \<Rightarrow> 'w fat_state \<Rightarrow> (bool \<times> 'w fat_state) option" where
  "files_delete_dir_contents ops dir_cluster s = delete_from ops dir_cluster dir_cluster 0 None 0 0 s"

definition delete_files :: "'w sd_ops \<Rightarrow> u32 \<Rightarrow> fat_file_entry \<Rightarrow> 'w fat_state \<Rightarrow> (bool \<times> 'w fat_state) option" where
  "delete_files ops dir entry s = (
     if is_dir entry \<and> fe_cluster entry < 2 then Some (False, s)
     else Option.bind (if is_dir entry then files_delete_dir_contents ops (fe_cluster entry) s else Some (True, s)) (\<lambda>(ok, s1).
       if \<not> ok then Some (False, s1)
       else Option.bind (fat_dir_mark_deleted ops dir (fe_dir_ordinal entry) (fe_lfn_count entry) s1) (\<lambda>(ok, s2).
       if \<not> ok then Some (False, s2)
       else if 2 \<le> fe_cluster entry then fat_free_chain ops (fe_cluster entry) s2 else Some (True, s2))))"

definition files_delete_selected :: "'c sd_bus \<Rightarrow> browser \<Rightarrow> 'c volume \<Rightarrow> (file_result \<times> browser \<times> 'c volume) option" where
  "files_delete_selected bus b s = (
     if \<not> hk_fat_mounted s \<or> files_count b = 0 then Some (FILE_RESULT_NOT_FOUND, b, s)
     else (case files_selected_entry b of
         None \<Rightarrow> Some (FILE_RESULT_NOT_FOUND, b, s)
       | Some entry \<Rightarrow>
           (case delete_files (sd_card_ops bus) (g_files_cluster b) entry s of
              None \<Rightarrow> None
            | Some (False, s1) \<Rightarrow> Some (FILE_RESULT_DELETE_FAILED, b, s1)
            | Some (True, s1) \<Rightarrow>
                (case files_load_dir (sd_card_ops bus) (g_files_cluster b) b s1 of
                   None \<Rightarrow> None
                 | Some (False, b', s2) \<Rightarrow> Some (FILE_RESULT_READ_ERROR, b', s2)
                 | Some (True, b', s2) \<Rightarrow> Some (FILE_RESULT_OK,
                     if files_count b' \<noteq> 0 then
                       files_ensure_visible (b'\<lparr>g_files_index := (if files_count b' \<le> g_files_index b then files_count b' - 1 else g_files_index b)\<rparr>)
                     else b', s2)))))"

section \<open>Actions\<close>

text \<open>An image decoder: the result and the volume after it has read the file.\<close>

type_synonym 'c decoder = "fat_file_entry \<Rightarrow> 'c volume \<Rightarrow> file_result \<times> 'c volume"

definition files_presenter_render_list :: "browser \<Rightarrow> browser" where
  "files_presenter_render_list b = (if files_count b \<noteq> 0 then files_ensure_visible b else b)"

text \<open>The test of the last four characters of a name.\<close>

definition files_name_has_ext :: "u8 list \<Rightarrow> u8 list \<Rightarrow> bool" where
  "files_name_has_ext name ext = (
     let len = length name
     in if len < 4 \<or> name ! (len - 4) \<noteq> 0x2E then False
        else ascii_lower (name ! (len - 3)) = ascii_lower (ext ! 0) \<and> ascii_lower (name ! (len - 2)) = ascii_lower (ext ! 1) \<and>
          ascii_lower (name ! (len - 1)) = ascii_lower (ext ! 2))"

definition files_name_is_bmp :: "u8 list \<Rightarrow> bool" where
  "files_name_is_bmp name = (
     let len = length name
     in if len < 4 then False
        else name ! (len - 4) = 0x2E \<and> ascii_lower (name ! (len - 3)) = 0x62 \<and> ascii_lower (name ! (len - 2)) = 0x6D \<and>
          ascii_lower (name ! (len - 1)) = 0x70)"

definition files_entry_is_image :: "fat_file_entry \<Rightarrow> bool" where
  "files_entry_is_image entry = (
     if is_dir entry then False
     else files_name_is_bmp (fe_name entry) \<or> files_name_has_ext (fe_name entry) [0x52, 0x41, 0x57] \<or>
       files_name_has_ext (fe_name entry) [0x50, 0x50, 0x4D] \<or> files_name_has_ext (fe_name entry) [0x50, 0x4E, 0x47] \<or>
       files_name_has_ext (fe_name entry) [0x47, 0x49, 0x46])"

definition chars_per_page :: u16 where "chars_per_page = 22 * 5"

definition files_preview_page_delta :: "int \<Rightarrow> browser \<Rightarrow> browser" where
  "files_preview_page_delta delta b = (
     let page = g_files_preview_page b;
         max_page = (if g_files_preview_len b \<noteq> 0 then ucast ((g_files_preview_len b - 1) div chars_per_page) else 0)
     in if delta < 0 \<and> 0 < page then b\<lparr>g_files_preview_page := page - 1\<rparr>
        else if 0 < delta \<and> page < max_page then b\<lparr>g_files_preview_page := page + 1\<rparr>
        else b)"

definition wrapped_step :: "int \<Rightarrow> u8 \<Rightarrow> u8 \<Rightarrow> u8" where
  "wrapped_step delta index n = (if delta < 0 then (if index = 0 then n - 1 else index - 1) else of_nat ((unat index + 1) mod unat n))"

definition files_select_delta :: "int \<Rightarrow> browser \<Rightarrow> browser" where
  "files_select_delta delta b = (
     if files_count b = 0 then b
     else let index = (if delta = 0 then g_files_index b else wrapped_step delta (g_files_index b) (files_count b))
          in if g_files_index b \<noteq> index then
               (let b' = files_ensure_visible (b\<lparr>g_files_index := index\<rparr>)
                in if g_files_top b \<noteq> g_files_top b' then files_presenter_render_list b' else b')
             else b)"

definition files_open_image_at_index :: "'c decoder \<Rightarrow> u8 \<Rightarrow> browser \<Rightarrow> 'c volume \<Rightarrow> bool \<times> browser \<times> 'c volume" where
  "files_open_image_at_index decode index b s = (
     case files_entry_at index b of
       None \<Rightarrow> (False, b, s)
     | Some entry \<Rightarrow>
         if \<not> files_entry_is_image entry then (False, b, s)
         else (case decode entry s of (result, s') \<Rightarrow>
           if result \<noteq> FILE_RESULT_OK then (False, b, s')
           else (True, (files_ensure_visible (b\<lparr>g_files_index := index\<rparr>))\<lparr>g_files_preview_mode := FILES_MODE_IMAGE\<rparr>, s')))"

text \<open>The search for the next image; \<open>n\<close> tries are left.\<close>

fun image_search :: "'c decoder \<Rightarrow> int \<Rightarrow> u8 \<Rightarrow> nat \<Rightarrow> browser \<Rightarrow> 'c volume \<Rightarrow> bool \<times> browser \<times> 'c volume" where
  "image_search decode delta index 0 b s = (False, b, s)"
| "image_search decode delta index (Suc n) b s = (
     let index' = wrapped_step delta index (files_count b)
     in if files_entry_is_image (g_files b ! unat index') then files_open_image_at_index decode index' b s
        else image_search decode delta index' n b s)"

definition files_open_image_delta :: "'c decoder \<Rightarrow> int \<Rightarrow> browser \<Rightarrow> 'c volume \<Rightarrow> bool \<times> browser \<times> 'c volume" where
  "files_open_image_delta decode delta b s = (
     if files_count b = 0 then (False, b, s) else image_search decode delta (g_files_index b) (unat (files_count b)) b s)"

definition files_open_image_from_current_or_next :: "'c decoder \<Rightarrow> browser \<Rightarrow> 'c volume \<Rightarrow> bool \<times> browser \<times> 'c volume" where
  "files_open_image_from_current_or_next decode b s = (
     if files_count b = 0 then (False, b, s)
     else let b1 = (if files_count b \<le> g_files_index b then b\<lparr>g_files_index := files_count b - 1\<rparr> else b);
              (opened, b2, s2) = (if files_entry_is_image (g_files b1 ! unat (g_files_index b1))
                then files_open_image_at_index decode (g_files_index b1) b1 s else (False, b1, s))
          in if opened then (True, b2, s2) else files_open_image_delta decode 1 b2 s2)"

definition files_nav_delta :: "'c decoder \<Rightarrow> int \<Rightarrow> browser \<Rightarrow> 'c volume \<Rightarrow> browser \<times> 'c volume" where
  "files_nav_delta decode delta b s = (
     case g_files_preview_mode b of
       FILES_MODE_TEXT \<Rightarrow> (files_preview_page_delta delta b, s)
     | FILES_MODE_IMAGE \<Rightarrow> snd (files_open_image_delta decode delta b s)
     | FILES_MODE_LIST \<Rightarrow> (files_select_delta delta b, s)
     | FILES_MODE_DELETE_CONFIRM \<Rightarrow> (b, s))"

definition load_and_render :: "'c sd_bus \<Rightarrow> browser \<Rightarrow> 'c volume \<Rightarrow> (browser \<times> 'c volume) option" where
  "load_and_render bus b s = (case files_load_dir (sd_card_ops bus) (g_files_cluster b) b s of
     None \<Rightarrow> None | Some (ok, b', s') \<Rightarrow> Some (if ok then files_presenter_render_list b' else b', s'))"

definition files_open_selected :: "'c sd_bus \<Rightarrow> 'c decoder \<Rightarrow> browser \<Rightarrow> 'c volume \<Rightarrow> (browser \<times> 'c volume) option" where
  "files_open_selected bus decode b s = (
     if \<not> hk_fat_mounted s \<or> files_count b = 0 then Some (b, s)
     else (case files_selected_entry b of
         None \<Rightarrow> Some (b, s)
       | Some entry \<Rightarrow>
           if is_dir entry then
             (if fe_cluster entry < 2 then Some (b, s)
              else load_and_render bus ((snd (files_push_current_cluster b))\<lparr>g_files_cluster := fe_cluster entry\<rparr>) s)
           else if files_entry_is_image entry then
             (case decode entry s of (result, s') \<Rightarrow>
                Some (if result = FILE_RESULT_OK then b\<lparr>g_files_preview_mode := FILES_MODE_IMAGE\<rparr> else b, s'))
           else (case files_read_preview (sd_card_ops bus) entry b s of
               None \<Rightarrow> None
             | Some (ok, b', s') \<Rightarrow> Some (
                 if ok then b'\<lparr>g_files_preview_mode := FILES_MODE_TEXT, g_files_preview_page := 0\<rparr> else b', s'))))"

definition files_back_from_list :: "'c sd_bus \<Rightarrow> browser \<Rightarrow> 'c volume \<Rightarrow> (bool \<times> browser \<times> 'c volume) option" where
  "files_back_from_list bus b s = (
     if hk_fat_mounted s \<and> 0 < g_files_depth b then
       (case files_pop_cluster b of (cluster, b1) \<Rightarrow>
         map_option (\<lambda>(b2, s2). (False, b2, s2))
           (load_and_render bus (case cluster of None \<Rightarrow> b1 | Some c \<Rightarrow> b1\<lparr>g_files_cluster := c\<rparr>) s))
     else Some (True, b, s))"

definition files_delete_state_reset :: "browser \<Rightarrow> browser" where
  "files_delete_state_reset b = b\<lparr>g_files_delete_origin_mode := FILES_MODE_LIST\<rparr>"

definition files_delete_confirm_enter :: "browser \<Rightarrow> 'c volume \<Rightarrow> bool \<times> browser" where
  "files_delete_confirm_enter b s = (
     if \<not> hk_fat_mounted s \<or> files_count b = 0 then (False, b)
     else if files_selected_entry b = None then (False, b)
     else (True, b\<lparr>g_files_delete_origin_mode := g_files_preview_mode b, g_files_preview_mode := FILES_MODE_DELETE_CONFIRM\<rparr>))"

definition files_delete_cancel :: "'c decoder \<Rightarrow> browser \<Rightarrow> 'c volume \<Rightarrow> browser \<times> 'c volume" where
  "files_delete_cancel decode b s = (
     let origin = g_files_delete_origin_mode b;
         b1 = (files_delete_state_reset b)\<lparr>g_files_preview_mode := origin\<rparr>
     in if origin = FILES_MODE_IMAGE then
          (case files_open_image_at_index decode (g_files_index b1) b1 s of
             (True, b2, s2) \<Rightarrow> (b2, s2)
           | (False, b2, s2) \<Rightarrow> (files_presenter_render_list (b2\<lparr>g_files_preview_mode := FILES_MODE_LIST\<rparr>), s2))
        else if origin = FILES_MODE_TEXT then (b1, s)
        else (files_presenter_render_list (b1\<lparr>g_files_preview_mode := FILES_MODE_LIST\<rparr>), s))"

definition files_delete_confirmed :: "'c sd_bus \<Rightarrow> 'c decoder \<Rightarrow> browser \<Rightarrow> 'c volume \<Rightarrow> (browser \<times> 'c volume) option" where
  "files_delete_confirmed bus decode b s = (
     let origin = g_files_delete_origin_mode b
     in (case files_delete_selected bus ((files_delete_state_reset b)\<lparr>g_files_preview_mode := FILES_MODE_LIST\<rparr>) s of
         None \<Rightarrow> None
       | Some (result, b1, s1) \<Rightarrow> Some (
           if result \<noteq> FILE_RESULT_OK then (b1, s1)
           else (case (if origin = FILES_MODE_IMAGE then files_open_image_from_current_or_next decode b1 s1 else (False, b1, s1)) of
               (True, b2, s2) \<Rightarrow> (b2, s2)
             | (False, b2, s2) \<Rightarrow> (files_presenter_render_list b2, s2)))))"

definition files_on_sd_event :: "'c sd_bus \<Rightarrow> hk_sd_event_t \<Rightarrow> browser \<Rightarrow> 'c volume \<Rightarrow> (bool \<times> browser \<times> 'c volume) option" where
  "files_on_sd_event bus event b s = (
     let listing = files_delete_state_reset (b\<lparr>g_files_depth := 0, g_files_preview_mode := FILES_MODE_LIST\<rparr>)
     in if event = HK_SD_EVENT_REMOVED \<or> event = HK_SD_EVENT_ERROR then Some (False, files_reset_list listing, s)
        else if event \<noteq> HK_SD_EVENT_INSERTED \<and> event \<noteq> HK_SD_EVENT_MOUNTED then Some (hk_fat_mounted s, b, s)
        else let root = listing\<lparr>g_files_cluster := g_fat_root_cluster s\<rparr>
             in if \<not> hk_fat_mounted s then Some (False, root, s)
                else files_load_dir (sd_card_ops bus) (g_files_cluster root) root s)"

definition files_backend_enter :: "'c sd_bus \<Rightarrow> browser \<Rightarrow> 'c volume \<Rightarrow> (browser \<times> 'c volume) option" where
  "files_backend_enter bus b s = (
     let b1 = (files_delete_state_reset (b\<lparr>g_files_depth := 0, g_files_preview_mode := FILES_MODE_LIST\<rparr>))\<lparr>g_files_cluster := g_fat_root_cluster s\<rparr>
     in (case file_mount_if_needed bus s of
         (False, s1) \<Rightarrow> Some (b1, s1)
       | (True, s1) \<Rightarrow> load_and_render bus (b1\<lparr>g_files_cluster := g_fat_root_cluster s1\<rparr>) s1))"

section \<open>The order of the list\<close>

text \<open>Newest first, the later entry of the directory first among equals: the key descends.\<close>

definition age :: "fat_file_entry \<Rightarrow> nat" where
  "age e = unat (fe_modified e) * 2 ^ 32 + unat (fe_dir_ordinal e)"

lemma older_age: "older e key \<longleftrightarrow> age e < age key"
proof -
  have "unat (fe_dir_ordinal f) < 2 ^ LENGTH(32)" for f by (rule unsigned_less)
  then have lt: "unat (fe_dir_ordinal f) < 2 ^ 32" for f by simp
  have lex: "a * N + x < b * N + y \<longleftrightarrow> a < b \<or> a = b \<and> x < y" if "x < N" "y < N" for a b x y N :: nat
  proof -
    have up: "c * N + x < d * N + y" if "c < d" "x < N" for c d x y
    proof -
      have "c * N + x < Suc c * N" using that by simp
      also have "\<dots> \<le> d * N" using that by (intro mult_le_mono1) simp
      finally show ?thesis by simp
    qed
    show ?thesis using up [of a b x y] up [of b a y x] that by (cases a b rule: linorder_cases) auto
  qed
  have "fe_modified e = fe_modified key \<longleftrightarrow> unat (fe_modified e) = unat (fe_modified key)" by (rule word_unat_eq_iff)
  then show ?thesis unfolding older_def age_def lex [OF lt lt] word_less_nat_alt by simp
qed

abbreviation newest_first :: "fat_file_entry list \<Rightarrow> bool" where
  "newest_first \<equiv> sorted_wrt (\<lambda>e f. age f \<le> age e)"

text \<open>The inner loop inserts into the list read backwards.\<close>

fun insert_older :: "fat_file_entry \<Rightarrow> fat_file_entry list \<Rightarrow> fat_file_entry list" where
  "insert_older key [] = [key]"
| "insert_older key (x # xs) = (if older x key then x # insert_older key xs else key # x # xs)"

lemma insert_older_mset [simp]: "mset (insert_older key xs) = add_mset key (mset xs)"
  by (induction xs) auto

lemma insert_older_set: "set (insert_older key xs) = insert key (set xs)"
  by (induction xs) auto

lemma insert_older_length [simp]: "length (insert_older key xs) = Suc (length xs)"
  by (induction xs) auto

lemma insert_older_sorted: "sorted_wrt (\<lambda>e f. age e \<le> age f) xs \<Longrightarrow> sorted_wrt (\<lambda>e f. age e \<le> age f) (insert_older key xs)"
  by (induction xs) (auto simp: older_age insert_older_set)

lemma sort_shift_insert: "i < length fs \<Longrightarrow> sort_shift key i fs = rev (insert_older key (rev (take i fs))) @ drop (Suc i) fs"
proof (induction i arbitrary: fs)
  case 0
  then show ?case by (cases fs) auto
next
  case (Suc i)
  have t: "rev (take (Suc i) fs) = fs ! i # rev (take i fs)" using Suc.prems by (simp add: take_Suc_conv_app_nth)
  show ?case
  proof (cases "older (fs ! i) key")
    case True
    have "drop (Suc i) (fs[Suc i := fs ! i]) = fs ! i # drop (Suc (Suc i)) fs"
      using Suc.prems Cons_nth_drop_Suc [of "Suc i" "fs[Suc i := fs ! i]"] by (simp add: drop_update_cancel)
    then show ?thesis using Suc.IH [of "fs[Suc i := fs ! i]"] Suc.prems True by (simp add: t)
  next
    case False
    have "fs[Suc i := key] = take (Suc i) fs @ key # drop (Suc (Suc i)) fs" using Suc.prems by (rule upd_conv_take_nth_drop)
    then show ?thesis using False Suc.prems by (simp add: t take_Suc_conv_app_nth)
  qed
qed

lemma sort_shift_step:
  assumes "i < length fs" and "newest_first (take i fs)"
  shows "mset (sort_shift (fs ! i) i fs) = mset fs" and "newest_first (take (Suc i) (sort_shift (fs ! i) i fs))"
proof -
  note eq = sort_shift_insert [OF assms(1), of "fs ! i"]
  have fs: "fs = take i fs @ fs ! i # drop (Suc i) fs" using assms(1) by (rule id_take_nth_drop)
  have "mset fs = mset (take i fs) + add_mset (fs ! i) (mset (drop (Suc i) fs))" by (subst fs) simp
  then show "mset (sort_shift (fs ! i) i fs) = mset fs" unfolding eq by simp
  have "take (Suc i) (sort_shift (fs ! i) i fs) = rev (insert_older (fs ! i) (rev (take i fs)))" unfolding eq using assms(1) by simp
  moreover have "sorted_wrt (\<lambda>e f. age e \<le> age f) (rev (take i fs))" using assms(2) by (simp add: sorted_wrt_rev)
  ultimately show "newest_first (take (Suc i) (sort_shift (fs ! i) i fs))" using insert_older_sorted by (simp add: sorted_wrt_rev)
qed

lemma sort_outer:
  assumes "n \<le> length fs" and "1 \<le> n"
  shows "mset (fold (\<lambda>i fs. sort_shift (fs ! i) i fs) [1..<n] fs) = mset fs \<and>
    newest_first (take n (fold (\<lambda>i fs. sort_shift (fs ! i) i fs) [1..<n] fs))"
  using assms
proof (induction n)
  case (Suc n)
  show ?case
  proof (cases "n = 0")
    case True
    then show ?thesis using Suc.prems by (cases fs) auto
  next
    case False
    let ?gs = "fold (\<lambda>i fs. sort_shift (fs ! i) i fs) [1..<n] fs"
    have ih: "mset ?gs = mset fs" "newest_first (take n ?gs)" using Suc False by simp_all
    have l: "n < length ?gs" using mset_eq_length [OF ih(1)] Suc.prems by simp
    show ?thesis using sort_shift_step [OF l ih(2)] ih(1) False by simp
  qed
qed simp

lemma sort_files:
  shows "mset (g_files (files_sort_newest_first b)) = mset (g_files b)" and "newest_first (g_files (files_sort_newest_first b))"
proof -
  show "mset (g_files (files_sort_newest_first b)) = mset (g_files b)"
    using sort_outer [OF le_refl, of "g_files b"] by (cases "g_files b = []") (simp_all add: files_sort_newest_first_def files_refresh_list_items_def Suc_le_eq)
  then have "length (g_files (files_sort_newest_first b)) = length (g_files b)" by (rule mset_eq_length)
  then show "newest_first (g_files (files_sort_newest_first b))"
    using sort_outer [OF le_refl, of "g_files b"] by (cases "g_files b = []") (simp_all add: files_sort_newest_first_def files_refresh_list_items_def Suc_le_eq)
qed

section \<open>What is loaded\<close>

lemma parse_dir_scan: "files_parse_dir_sector off n sector (sc, b) = (case scan_sector (\<lambda>e b. (False, files_add_entry e b)) off n sector (sc, b) of
    (over, a) \<Rightarrow> (\<not> over, a))"
  by (induction n arbitrary: off sc b) (simp_all add: Let_def scan_sector.simps(2))

text \<open>What the list is after the entries \<open>es\<close> were added.\<close>

definition added :: "fat_file_entry list \<Rightarrow> browser \<Rightarrow> browser" where
  "added es b = snd (visit (\<lambda>e b. (False, files_add_entry e b)) es b)"

definition nameless :: "fat_file_entry \<Rightarrow> bool" where "nameless e \<longleftrightarrow> fe_name e = []"

lemma added_files:
  assumes "length (g_files b) \<le> FILES_MAX_ENTRIES" and "\<forall>e \<in> set es. length (fe_name e) < FILE_NAME_MAX"
  shows "added es b = b\<lparr>g_files := take FILES_MAX_ENTRIES (g_files b @ filter (\<lambda>e. \<not> nameless e) es),
    g_file_list_items := g_file_list_items b @ map list_item (drop (length (g_files b)) (take FILES_MAX_ENTRIES (g_files b @ filter (\<lambda>e. \<not> nameless e) es)))\<rparr>"
  using assms
proof (induction es arbitrary: b)
  case Nil
  then show ?case by (simp add: added_def)
next
  case (Cons e es)
  have step: "added (e # es) b = added es (files_add_entry e b)" by (simp add: added_def)
  have name: "e\<lparr>fe_name := take (FILE_NAME_MAX - 1) (fe_name e)\<rparr> = e" by (subst take_all) (use Cons.prems(2) in auto)
  show ?case
  proof (cases "nameless e \<or> FILES_MAX_ENTRIES \<le> length (g_files b)")
    case True
    then have same: "files_add_entry e b = b" by (auto simp: files_add_entry_def files_append_entry_def nameless_def)
    show ?thesis
    proof (cases "nameless e")
      case True
      then show ?thesis using Cons same step by simp
    next
      case False
      then have "length (g_files b) = FILES_MAX_ENTRIES" using \<open>nameless e \<or> _\<close> Cons.prems(1) by simp
      then show ?thesis using Cons same step by simp
    qed
  next
    case False
    let ?b = "b\<lparr>g_files := g_files b @ [e], g_file_list_items := g_file_list_items b @ [list_item e]\<rparr>"
    have add: "files_add_entry e b = ?b" using False name by (simp add: files_add_entry_def files_append_entry_def nameless_def Let_def)
    have l: "length (g_files ?b) \<le> FILES_MAX_ENTRIES" using False by simp
    have ih: "added es ?b = ?b\<lparr>g_files := take FILES_MAX_ENTRIES (g_files ?b @ filter (\<lambda>e. \<not> nameless e) es),
      g_file_list_items := g_file_list_items ?b @ map list_item (drop (length (g_files ?b)) (take FILES_MAX_ENTRIES (g_files ?b @ filter (\<lambda>e. \<not> nameless e) es)))\<rparr>"
      using Cons.prems by (intro Cons.IH [OF l]) simp
    have "FILES_MAX_ENTRIES - length (g_files b) = Suc (FILES_MAX_ENTRIES - Suc (length (g_files b)))" using False by (simp add: not_le Suc_diff_Suc)
    then show ?thesis using False ih unfolding step add by simp
  qed
qed

lemma listing_names: "e \<in> set (listing sc raws) \<Longrightarrow> length (fe_name e) < FILE_NAME_MAX"
proof (induction sc raws rule: listing.induct)
  case (2 sc raw raws)
  have "length (fe_name (named_entry raw sc)) < FILE_NAME_MAX" using entry_name_length [of raw sc] by (simp add: named_entry_def)
  then show ?case using 2 by (auto simp: scan_raw_def split: if_splits)
qed simp

abbreviation add_visitor :: "fat_file_entry \<Rightarrow> browser \<Rightarrow> bool \<times> browser" where
  "add_visitor \<equiv> \<lambda>e b. (False, files_add_entry e b)"

lemma full_add: "FILES_MAX_ENTRIES \<le> length (g_files b) \<Longrightarrow> files_add_entry e b = b"
  by (simp add: files_add_entry_def files_append_entry_def)

lemma full_visit: "FILES_MAX_ENTRIES \<le> length (g_files b) \<Longrightarrow> snd (visit add_visitor es b) = b"
  by (induction es) (auto simp: full_add)

lemma load_sector_scan: "load_sector sec a = (case scan_sector add_visitor 0 16 sec a of
    (over, sc, b) \<Rightarrow> (over \<or> FILES_MAX_ENTRIES \<le> length (g_files b), sc, b))"
  by (cases a) (auto simp: load_sector_def parse_dir_scan split: prod.split)

lemma consume_load:
  "\<forall>sec \<in> set secs. length sec = 512 \<Longrightarrow>
    snd (snd (consume load_sector secs (sc, b))) = snd (visit add_visitor (listing sc (raw_entries (concat secs))) b)"
proof (induction secs arbitrary: sc b)
  case Nil
  then show ?case by (simp add: raw_entries_def)
next
  case (Cons sec secs)
  have len: "length sec = 512" "\<forall>sec \<in> set secs. length sec = 512" using Cons.prems by simp_all
  have split: "raw_entries (concat (sec # secs)) = raw_entries sec @ raw_entries (concat secs)"
    using len raw_entries_append [of sec 16 "concat secs"] by simp
  obtain over sc1 b1 where one: "scan_run add_visitor (raw_entries sec) (sc, b) = (over, sc1, b1)" by (metis prod_cases3)
  have sect: "load_sector sec (sc, b) = (over \<or> FILES_MAX_ENTRIES \<le> length (g_files b1), sc1, b1)"
    unfolding load_sector_scan scan_sector_run raw_entries_sector [OF len(1), symmetric] one by simp
  have whole: "snd (visit add_visitor (listing sc (raw_entries (concat (sec # secs)))) b) =
      (if over then b1 else snd (visit add_visitor (listing sc1 (raw_entries (concat secs))) b1))"
    unfolding scan_run_visit [symmetric] split scan_run_append one by (simp split: bool.split)
  show ?case
  proof (cases "over \<or> FILES_MAX_ENTRIES \<le> length (g_files b1)")
    case True
    then show ?thesis unfolding whole using sect full_visit by auto
  next
    case False
    then show ?thesis unfolding whole using sect Cons.IH [OF len(2)] by simp
  qed
qed

definition listed :: "u8 list \<Rightarrow> fat_file_entry list" where
  "listed bytes = take FILES_MAX_ENTRIES (filter (\<lambda>e. \<not> nameless e) (dir_entries bytes))"

lemma consume_listed:
  assumes "\<forall>sec \<in> set secs. length sec = 512"
  shows "snd (snd (consume load_sector secs (scan_start, files_reset_list b))) =
    (files_reset_list b)\<lparr>g_files := listed (concat secs), g_file_list_items := map list_item (listed (concat secs))\<rparr>"
proof -
  have "\<forall>e \<in> set (dir_entries (concat secs)). length (fe_name e) < FILE_NAME_MAX"
    unfolding dir_entries_def using listing_names by blast
  from added_files [OF _ this, of "files_reset_list b"] show ?thesis
    unfolding consume_load [OF assms] dir_entries_def [symmetric] added_def [symmetric]
    by (simp add: listed_def files_reset_list_def)
qed

text \<open>The loaded list: the files of the directory made of its first \<open>n\<close> clusters.\<close>

definition shows_listing :: "fat_file_entry list \<Rightarrow> browser \<Rightarrow> bool" where
  "shows_listing es b \<longleftrightarrow> mset (g_files b) = mset es \<and> newest_first (g_files b) \<and> g_file_list_items b = map list_item (g_files b) \<and>
     g_files_index b = 0 \<and> g_files_top b = 0"

lemma sorted_listing: "shows_listing es (files_sort_newest_first ((files_reset_list b)\<lparr>g_files := es, g_file_list_items := items\<rparr>))"
  using sort_files [of "(files_reset_list b)\<lparr>g_files := es, g_file_list_items := items\<rparr>"]
  by (simp add: shows_listing_def) (simp add: files_sort_newest_first_def files_refresh_list_items_def files_reset_list_def)

context block_store
begin

lemma files_load_dir_spec:
  assumes f: "fat_ready usable room s" and ch: "file_chain s ks" and start: "c = hd ks"
  shows "\<exists>ok b' s'. files_load_dir ops c b s = Some (ok, b', s') \<and> looks s s' \<and> (reliable \<longrightarrow> ok) \<and>
    (ok \<longrightarrow> (\<exists>n. 0 < n \<and> n \<le> length ks \<and> (reliable \<longrightarrow> n = length ks) \<and> shows_listing (listed (file_data (blk (f_sd s)) s (take n ks))) b'))"
proof -
  have us: "usable (f_sd s)" by (rule fat_readyD(1) [OF f])
  from dir_walk_start [OF f ch, of load_sector "(scan_start, files_reset_list b)"] obtain r a s' where
    w: "dir_walk ops load_sector (hd ks) (scan_start, files_reset_list b) s = Some (r, a, s')" "looks s s'" "reliable \<longrightarrow> r \<noteq> Walk_Failed"
    and n: "r \<noteq> Walk_Failed \<longrightarrow> (\<exists>n. 0 < n \<and> n \<le> length ks \<and> (reliable \<longrightarrow> n = length ks) \<and>
         consume load_sector (dir_sectors (blk (f_sd s)) s (take n ks)) (scan_start, files_reset_list b) = (r = Walk_Finished, a))" by blast
  obtain sc b1 where a: "a = (sc, b1)" by (cases a)
  have run: "files_load_dir ops c b s = Some (if r = Walk_Failed then (False, b1, s') else (True, files_sort_newest_first b1, s'))"
    unfolding files_load_dir_def start w a by simp
  have "shows_listing (listed (file_data (blk (f_sd s)) s (take n ks))) (files_sort_newest_first b1)"
    if "consume load_sector (dir_sectors (blk (f_sd s)) s (take n ks)) (scan_start, files_reset_list b) = (r = Walk_Finished, a)" for n
  proof -
    have "b1 = (files_reset_list b)\<lparr>g_files := listed (file_data (blk (f_sd s)) s (take n ks)),
        g_file_list_items := map list_item (listed (file_data (blk (f_sd s)) s (take n ks)))\<rparr>"
      using consume_listed [OF dir_sectors_length [OF us], of s "take n ks" b] that unfolding dir_sectors_data a by simp
    then show ?thesis using sorted_listing by simp
  qed
  then show ?thesis using run w n by (cases "r = Walk_Failed") auto
qed

end

end
