(* ===== verification/Files_App.thy ===== *)
theory Files_App
  imports File_Browser
begin

text \<open>
  The file browser as an application: the buttons (\<open>apps/files/files_controller.c\<close>), insertion and removal of the card
  (\<open>files_app.c\<close>), the invariant of the browser's state, and the properties of the browser. The time and the screen that
  is shown come from outside (\<open>now_us\<close>, \<open>on_screen\<close>).
\<close>

section \<open>Buttons\<close>

definition BUTTON_LEFT :: u32 where "BUTTON_LEFT = 0x01"
definition BUTTON_OK :: u32 where "BUTTON_OK = 0x02"
definition BUTTON_RIGHT :: u32 where "BUTTON_RIGHT = 0x04"
definition BUTTON_BACK :: u32 where "BUTTON_BACK = 0x08"
definition FILES_REPEAT_INITIAL_TICKS :: u8 where "FILES_REPEAT_INITIAL_TICKS = 25"
definition FILES_REPEAT_NEXT_TICKS :: u8 where "FILES_REPEAT_NEXT_TICKS = 9"
definition FILES_OK_HOLD_US :: u64 where "FILES_OK_HOLD_US = 700000"

record hk_input_snapshot =
  in_state :: u32
  in_pressed :: u32
  in_changed :: u32

record files_input =
  g_files_repeat_button :: u32
  g_files_repeat_ticks :: u8
  g_files_ok_press_us :: u64
  g_files_ok_active :: bool
  g_files_ok_hold_fired :: bool

definition files_controller_reset_input :: "files_input \<Rightarrow> files_input" where
  "files_controller_reset_input c = \<lparr>g_files_repeat_button = 0, g_files_repeat_ticks = 0, g_files_ok_press_us = 0,
     g_files_ok_active = False, g_files_ok_hold_fired = False\<rparr>"

definition files_repeat_reset :: "files_input \<Rightarrow> files_input" where
  "files_repeat_reset c = c\<lparr>g_files_repeat_button := 0, g_files_repeat_ticks := 0\<rparr>"

definition files_repeat_start :: "u32 \<Rightarrow> files_input \<Rightarrow> files_input" where
  "files_repeat_start button c = c\<lparr>g_files_repeat_button := button, g_files_repeat_ticks := FILES_REPEAT_INITIAL_TICKS\<rparr>"

definition files_repeat_delay_active :: "files_input \<Rightarrow> bool \<times> files_input" where
  "files_repeat_delay_active c = (
     if g_files_repeat_ticks c = 0 then (False, c) else (True, c\<lparr>g_files_repeat_ticks := g_files_repeat_ticks c - 1\<rparr>))"

definition files_ok_reset :: "files_input \<Rightarrow> files_input" where
  "files_ok_reset c = c\<lparr>g_files_ok_press_us := 0, g_files_ok_active := False, g_files_ok_hold_fired := False\<rparr>"

definition files_ok_press :: "u64 \<Rightarrow> files_input \<Rightarrow> files_input" where
  "files_ok_press now_us c = c\<lparr>g_files_ok_press_us := now_us, g_files_ok_active := True, g_files_ok_hold_fired := False\<rparr>"

definition files_ok_release_should_open :: "files_input \<Rightarrow> bool" where
  "files_ok_release_should_open c \<longleftrightarrow> g_files_ok_active c \<and> \<not> g_files_ok_hold_fired c"

definition files_ok_hold_ready :: "u32 \<Rightarrow> u64 \<Rightarrow> files_input \<Rightarrow> bool \<times> files_input" where
  "files_ok_hold_ready input_state now_us c = (
     if \<not> g_files_ok_active c \<or> g_files_ok_press_us c = 0 \<or> now_us = 0 \<or> now_us < g_files_ok_press_us c \<or> g_files_ok_hold_fired c \<or>
        input_state AND BUTTON_OK = 0 \<or> now_us - g_files_ok_press_us c < FILES_OK_HOLD_US then (False, c)
     else (True, c\<lparr>g_files_ok_hold_fired := True, g_files_ok_active := False, g_files_ok_press_us := 0\<rparr>))"

section \<open>The controller\<close>

type_synonym 'c files_app = "files_input \<times> browser \<times> 'c volume"

definition files_controller_handle_nav_repeat :: "'c decoder \<Rightarrow> u32 \<Rightarrow> 'c files_app \<Rightarrow> 'c files_app" where
  "files_controller_handle_nav_repeat decode input_state a = (case a of (c, b, s) \<Rightarrow>
     if g_files_repeat_button c = 0 \<or> input_state AND g_files_repeat_button c = 0 then
       (if input_state AND BUTTON_LEFT \<noteq> 0 then files_repeat_start BUTTON_LEFT c
        else if input_state AND BUTTON_RIGHT \<noteq> 0 then files_repeat_start BUTTON_RIGHT c
        else files_repeat_reset c, b, s)
     else (case files_repeat_delay_active c of
         (True, c1) \<Rightarrow> (c1, b, s)
       | (False, c1) \<Rightarrow>
           (c1\<lparr>g_files_repeat_ticks := FILES_REPEAT_NEXT_TICKS\<rparr>,
            if g_files_repeat_button c1 = BUTTON_LEFT then files_nav_delta decode (- 1) b s
            else if g_files_repeat_button c1 = BUTTON_RIGHT then files_nav_delta decode 1 b s
            else (b, s))))"

definition files_controller_tick_delete :: "'c decoder \<Rightarrow> u32 \<Rightarrow> u64 \<Rightarrow> 'c files_app \<Rightarrow> 'c files_app" where
  "files_controller_tick_delete decode input_state now_us a = (case a of (c, b, s) \<Rightarrow>
     if g_files_preview_mode b = FILES_MODE_DELETE_CONFIRM then (files_repeat_reset c, b, s)
     else (case files_ok_hold_ready input_state now_us c of
         (True, c1) \<Rightarrow> (files_repeat_reset c1, snd (files_delete_confirm_enter b s), s)
       | (False, c1) \<Rightarrow> files_controller_handle_nav_repeat decode input_state (c1, b, s)))"

definition files_controller_handle_delete_confirm :: "'c sd_bus \<Rightarrow> 'c decoder \<Rightarrow> u32 \<Rightarrow> 'c files_app \<Rightarrow> 'c files_app option" where
  "files_controller_handle_delete_confirm bus decode pressed a = (case a of (c, b, s) \<Rightarrow>
     if pressed AND BUTTON_BACK \<noteq> 0 then Some (files_ok_reset (files_repeat_reset c), files_delete_cancel decode b s)
     else if pressed AND BUTTON_OK \<noteq> 0 then
       (case files_delete_confirmed bus decode b s of None \<Rightarrow> None | Some r \<Rightarrow> Some (files_ok_reset (files_repeat_reset c), r))
     else Some (c, b, s))"

text \<open>The common part of the two handlers below: one step for each button that was pressed.\<close>

definition nav_pressed :: "'c decoder \<Rightarrow> u32 \<Rightarrow> 'c files_app \<Rightarrow> 'c files_app" where
  "nav_pressed decode pressed a = (
     let a1 = (case a of (c, b, s) \<Rightarrow> if pressed AND BUTTON_LEFT \<noteq> 0 then (files_repeat_start BUTTON_LEFT c, files_nav_delta decode (- 1) b s) else a)
     in (case a1 of (c, b, s) \<Rightarrow> if pressed AND BUTTON_RIGHT \<noteq> 0 then (files_repeat_start BUTTON_RIGHT c, files_nav_delta decode 1 b s) else a1))"

definition files_controller_handle_preview_buttons :: "'c decoder \<Rightarrow> hk_input_snapshot \<Rightarrow> u64 \<Rightarrow> 'c files_app \<Rightarrow> 'c files_app" where
  "files_controller_handle_preview_buttons decode input now_us a = (
     if in_pressed input AND BUTTON_BACK \<noteq> 0 then
       (case a of (c, b, s) \<Rightarrow> (files_ok_reset (files_repeat_reset c), files_presenter_render_list (b\<lparr>g_files_preview_mode := FILES_MODE_LIST\<rparr>), s))
     else (case nav_pressed decode (in_pressed input) a of (c, b, s) \<Rightarrow>
       if in_pressed input AND BUTTON_OK \<noteq> 0 then (files_ok_press now_us (files_repeat_reset c), b, s)
       else if in_changed input AND BUTTON_OK \<noteq> 0 \<and> in_state input AND BUTTON_OK = 0 then (files_ok_reset c, b, s)
       else (c, b, s)))"

definition files_controller_handle_list_buttons :: "'c sd_bus \<Rightarrow> 'c decoder \<Rightarrow> hk_input_snapshot \<Rightarrow> u64 \<Rightarrow> 'c files_app \<Rightarrow> 'c files_app option" where
  "files_controller_handle_list_buttons bus decode input now_us a = (case nav_pressed decode (in_pressed input) a of (c, b, s) \<Rightarrow>
     if in_pressed input AND BUTTON_OK \<noteq> 0 then Some (files_ok_press now_us (files_repeat_reset c), b, s)
     else if in_changed input AND BUTTON_OK \<noteq> 0 \<and> in_state input AND BUTTON_OK = 0 then
       (case (if files_ok_release_should_open c then files_open_selected bus decode b s else Some (b, s)) of
          None \<Rightarrow> None | Some r \<Rightarrow> Some (files_ok_reset c, r))
     else Some (c, b, s))"

definition files_controller_enter :: "'c sd_bus \<Rightarrow> 'c files_app \<Rightarrow> 'c files_app option" where
  "files_controller_enter bus a = (case a of (c, b, s) \<Rightarrow> map_option (Pair (files_controller_reset_input c)) (files_backend_enter bus b s))"

text \<open>\<open>animate\<close> is the next frame of an animation, which reads from the card.\<close>

definition files_controller_tick :: "'c decoder \<Rightarrow> ('c volume \<Rightarrow> 'c volume) \<Rightarrow> bool \<Rightarrow> hk_input_snapshot \<Rightarrow> u64 \<Rightarrow> 'c files_app \<Rightarrow> 'c files_app" where
  "files_controller_tick decode animate on_screen input now_us a = (
     if \<not> on_screen then (case a of (c, b, s) \<Rightarrow> (files_repeat_reset c, b, s))
     else (case files_controller_tick_delete decode (in_state input) now_us a of (c, b, s) \<Rightarrow>
       (c, b, if g_files_preview_mode b = FILES_MODE_IMAGE then animate s else s)))"

text \<open>Whether the application is left for the menu, and the new state.\<close>

definition files_controller_handle_buttons :: "'c sd_bus \<Rightarrow> 'c decoder \<Rightarrow> hk_input_snapshot \<Rightarrow> u64 \<Rightarrow> 'c files_app \<Rightarrow> (bool \<times> 'c files_app) option" where
  "files_controller_handle_buttons bus decode input now_us a = (case a of (c, b, s) \<Rightarrow>
     if g_files_preview_mode b = FILES_MODE_DELETE_CONFIRM then
       map_option (Pair False) (files_controller_handle_delete_confirm bus decode (in_pressed input) a)
     else if g_files_preview_mode b \<noteq> FILES_MODE_LIST then
       Some (False, files_controller_handle_preview_buttons decode input now_us a)
     else if in_pressed input AND BUTTON_BACK \<noteq> 0 then
       (case files_back_from_list bus b s of
          None \<Rightarrow> None | Some (leave, r) \<Rightarrow> Some (leave, files_ok_reset (files_repeat_reset c), r))
     else map_option (Pair False) (files_controller_handle_list_buttons bus decode input now_us a))"

definition files_handle_sd_event :: "'c sd_bus \<Rightarrow> bool \<Rightarrow> hk_sd_event_t \<Rightarrow> 'c files_app \<Rightarrow> 'c files_app option" where
  "files_handle_sd_event bus on_screen event a = (case a of (c, b, s) \<Rightarrow>
     (case files_on_sd_event bus event b s of
        None \<Rightarrow> None
      | Some (ready, b1, s1) \<Rightarrow> Some (files_controller_reset_input c,
          if on_screen \<and> hk_sd_present s1 \<and> hk_fat_mounted s1 \<and> ready then files_presenter_render_list b1 else b1, s1)))"

section \<open>The invariant\<close>

text \<open>\<open>list_ok\<close> holds in between, when the window need not show the selected entry.\<close>

definition list_ok :: "browser \<Rightarrow> bool" where
  "list_ok b \<longleftrightarrow> length (g_files b) \<le> FILES_MAX_ENTRIES \<and> g_file_list_items b = map list_item (g_files b) \<and>
     (if g_files b = [] then g_files_index b = 0 \<and> g_files_top b = 0 else unat (g_files_index b) < length (g_files b)) \<and>
     g_files_depth b \<le> FILES_STACK_MAX \<and> length (g_files_stack b) = unat FILES_STACK_MAX \<and>
     length (g_files_preview b) = FILE_PREVIEW_MAX + 1 \<and> unat (g_files_preview_len b) \<le> FILE_PREVIEW_MAX"

definition shown :: "browser \<Rightarrow> bool" where
  "shown b \<longleftrightarrow> unat (g_files_top b) \<le> unat (g_files_index b) \<and> unat (g_files_index b) < unat (g_files_top b) + unat FILES_ROWS"

definition browser_ok :: "browser \<Rightarrow> bool" where
  "browser_ok b \<longleftrightarrow> list_ok b \<and> shown b"

lemma count_unat: "list_ok b \<Longrightarrow> unat (files_count b) = length (g_files b)"
  by (simp add: files_count_def list_ok_def FILES_MAX_ENTRIES_def unat_of_nat)

lemma index_bound: "list_ok b \<Longrightarrow> unat (g_files_index b) < 64"
  by (auto simp: list_ok_def FILES_MAX_ENTRIES_def split: if_splits)

lemma ensure_visible_fields [simp]:
  "g_files (files_ensure_visible b) = g_files b" "g_file_list_items (files_ensure_visible b) = g_file_list_items b"
  "g_files_index (files_ensure_visible b) = g_files_index b" "g_files_depth (files_ensure_visible b) = g_files_depth b"
  "g_files_stack (files_ensure_visible b) = g_files_stack b" "g_files_preview (files_ensure_visible b) = g_files_preview b"
  "g_files_preview_len (files_ensure_visible b) = g_files_preview_len b"
  by (simp_all add: files_ensure_visible_def Let_def)

lemma ensure_visible_shown: "list_ok b \<Longrightarrow> shown (files_ensure_visible b)"
proof -
  assume ok: "list_ok b"
  let ?i = "g_files_index b"
  have i: "unat ?i < 64" by (rule index_bound [OF ok])
  show ?thesis
  proof (cases "unat (if ?i < g_files_top b then ?i else g_files_top b) + 5 \<le> unat ?i")
    case True
    then have "5 \<le> unat ?i" by simp
    then have "unat (?i - 4) = unat ?i - 4" by (subst unat_sub) (simp_all add: word_le_nat_alt)
    moreover have "?i - 5 + 1 = ?i - 4" by simp
    ultimately have "unat (?i - 5 + 1) = unat ?i - 4" by metis
    then show ?thesis using True \<open>5 \<le> unat ?i\<close> by (simp add: shown_def files_ensure_visible_def Let_def FILES_ROWS_def)
  next
    case False
    then show ?thesis by (auto simp: shown_def files_ensure_visible_def Let_def FILES_ROWS_def word_less_nat_alt)
  qed
qed

lemma ensure_visible_ok: "list_ok b \<Longrightarrow> browser_ok (files_ensure_visible b)"
proof -
  assume ok: "list_ok b"
  have "g_files_top (files_ensure_visible b) = 0" if "g_files b = []"
    using ok that by (simp add: list_ok_def files_ensure_visible_def FILES_ROWS_def Let_def)
  then show ?thesis using ok ensure_visible_shown [OF ok] by (simp add: browser_ok_def list_ok_def)
qed

lemma render_list_ok: "list_ok b \<Longrightarrow> browser_ok (files_presenter_render_list b)"
proof (cases "g_files b = []")
  case True
  then show "list_ok b \<Longrightarrow> ?thesis" by (simp add: files_presenter_render_list_def files_count_def browser_ok_def list_ok_def shown_def FILES_ROWS_def)
next
  case False
  assume ok: "list_ok b"
  have "unat (files_count b) \<noteq> 0" using count_unat [OF ok] False by simp
  then have "files_count b \<noteq> 0" by auto
  then show ?thesis using ensure_visible_ok [OF ok] by (simp add: files_presenter_render_list_def)
qed

text \<open>Fields that do not matter to the invariant.\<close>

lemma ok_mode [simp]: "list_ok (b\<lparr>g_files_preview_mode := m\<rparr>) = list_ok b" "shown (b\<lparr>g_files_preview_mode := m\<rparr>) = shown b"
    "browser_ok (b\<lparr>g_files_preview_mode := m\<rparr>) = browser_ok b"
    "list_ok (b\<lparr>g_files_preview_page := p\<rparr>) = list_ok b" "shown (b\<lparr>g_files_preview_page := p\<rparr>) = shown b"
    "browser_ok (b\<lparr>g_files_preview_page := p\<rparr>) = browser_ok b"
    "list_ok (b\<lparr>g_files_delete_origin_mode := m\<rparr>) = list_ok b" "shown (b\<lparr>g_files_delete_origin_mode := m\<rparr>) = shown b"
    "browser_ok (b\<lparr>g_files_delete_origin_mode := m\<rparr>) = browser_ok b"
    "list_ok (b\<lparr>g_files_cluster := k\<rparr>) = list_ok b" "shown (b\<lparr>g_files_cluster := k\<rparr>) = shown b"
    "browser_ok (b\<lparr>g_files_cluster := k\<rparr>) = browser_ok b"
  by (simp_all add: list_ok_def shown_def browser_ok_def)

lemma ok_depth: "browser_ok b \<Longrightarrow> browser_ok (b\<lparr>g_files_depth := 0\<rparr>)"
  by (simp add: browser_ok_def list_ok_def shown_def)

lemma ok_list: "browser_ok b \<Longrightarrow> list_ok b"
  by (simp add: browser_ok_def)

lemma ok_index: "list_ok b \<Longrightarrow> unat i < length (g_files b) \<Longrightarrow> list_ok (b\<lparr>g_files_index := i\<rparr>)"
  by (auto simp: list_ok_def)

lemma reset_list_ok: "list_ok b \<Longrightarrow> browser_ok (files_reset_list b)"
  by (simp add: browser_ok_def list_ok_def shown_def files_reset_list_def FILES_ROWS_def)

section \<open>Every operation keeps the invariant\<close>

lemma walk_sectors_keeps:
  "walk_sectors ops body lba n acc s = (r, acc', s') \<Longrightarrow> (\<And>sec a f a'. P a \<Longrightarrow> body sec a = (f, a') \<Longrightarrow> P a') \<Longrightarrow> P acc \<Longrightarrow> P acc'"
proof (induction ops body lba n acc s rule: walk_sectors.induct)
  case (2 ops body lba n acc s)
  then show ?case by (auto split: prod.splits bool.splits)
qed simp

lemma dir_walk_keeps:
  assumes "dir_walk ops body c acc s = Some (r, acc', s')" and "\<And>sec a f a'. P a \<Longrightarrow> body sec a = (f, a') \<Longrightarrow> P a'" and "P acc"
  shows "P acc'"
proof -
  have "(\<forall>sec a f a'. P a \<longrightarrow> body sec a = (f, a') \<longrightarrow> P a') \<longrightarrow> P acc \<longrightarrow> P (fst (snd (r, acc', s')))"
  proof (rule dir_walk.raw_induct [where P = "\<lambda>ops body c acc s y. (\<forall>sec a f a'. P a \<longrightarrow> body sec a = (f, a') \<longrightarrow> P a') \<longrightarrow> P acc \<longrightarrow> P (fst (snd y))",
        OF _ assms(1)], goal_cases)
    case (1 dw ops body c acc s y)
    obtain r1 acc1 s1 where w: "walk_sectors ops body (fat_cluster_lba c s) (unat (g_fat_sectors_per_cluster s)) acc s = (r1, acc1, s1)" by (metis prod_cases3)
    obtain d s2 where n: "fat_next_cluster ops c s1 = (d, s2)" by (metis prod.collapse)
    show ?case
    proof (intro impI)
      assume b: "\<forall>sec a f a'. P a \<longrightarrow> body sec a = (f, a') \<longrightarrow> P a'" and p: "P acc"
      have p1: "P acc1" by (rule walk_sectors_keeps [where P = P, OF w _ p]) (use b in blast)
      show "P (fst (snd y))"
        using 1(2) 1(1) [of ops body d acc1 s2 y] b p p1 by (auto simp: w n split: if_splits)
    qed
  qed
  then show ?thesis using assms by fastforce
qed

definition loaded_from :: "browser \<Rightarrow> browser \<Rightarrow> bool" where
  "loaded_from b0 b \<longleftrightarrow> (\<exists>fs. length fs \<le> FILES_MAX_ENTRIES \<and> b = b0\<lparr>g_files := fs, g_file_list_items := map list_item fs\<rparr>)"

lemma add_loaded: "loaded_from b0 b \<Longrightarrow> loaded_from b0 (files_add_entry e b)"
proof -
  assume "loaded_from b0 b"
  then obtain fs where fs: "length fs \<le> FILES_MAX_ENTRIES" "b = b0\<lparr>g_files := fs, g_file_list_items := map list_item fs\<rparr>"
    unfolding loaded_from_def by blast
  let ?e = "e\<lparr>fe_name := take (FILE_NAME_MAX - 1) (fe_name e)\<rparr>"
  show ?thesis
  proof (cases "fe_name e = [] \<or> FILES_MAX_ENTRIES \<le> length fs")
    case True
    then have "files_add_entry e b = b" unfolding fs(2) by (auto simp: files_add_entry_def files_append_entry_def)
    then show ?thesis using fs unfolding loaded_from_def by metis
  next
    case False
    then have "files_add_entry e b = b0\<lparr>g_files := fs @ [?e], g_file_list_items := map list_item (fs @ [?e])\<rparr>"
      unfolding fs(2) by (simp add: files_add_entry_def files_append_entry_def Let_def)
    moreover have "length (fs @ [?e]) \<le> FILES_MAX_ENTRIES" using False by simp
    ultimately show ?thesis unfolding loaded_from_def by metis
  qed
qed

lemma parse_loaded: "loaded_from b0 b \<Longrightarrow> loaded_from b0 (snd (snd (files_parse_dir_sector off n sector (sc, b))))"
proof (induction n arbitrary: off sc b)
  case (Suc n)
  then show ?case using add_loaded by (simp add: Let_def)
qed simp

lemma load_keeps:
  assumes "files_load_dir ops c b s = Some (ok, b', s')"
  shows "loaded_from (files_reset_list b) b'"
proof -
  from assms obtain r sc b1 where w: "dir_walk ops load_sector c (scan_start, files_reset_list b) s = Some (r, (sc, b1), s')"
    and b': "b' = (if r = Walk_Failed then b1 else files_sort_newest_first b1)"
    by (auto simp: files_load_dir_def split: option.splits if_splits)
  have "loaded_from (files_reset_list b) (snd (sc, b1))"
  proof (rule dir_walk_keeps [OF w])
    fix sec a f and a' :: "scan \<times> browser"
    assume "loaded_from (files_reset_list b) (snd a)" and "load_sector sec a = (f, a')"
    then show "loaded_from (files_reset_list b) (snd a')"
      using parse_loaded [of "files_reset_list b" "snd a" 0 16 sec "fst a"] by (auto simp: load_sector_def split: prod.splits)
  next
    show "loaded_from (files_reset_list b) (snd (scan_start, files_reset_list b))"
      unfolding loaded_from_def by (intro exI [of _ "[]"]) (simp add: files_reset_list_def)
  qed
  then obtain fs where fs: "length fs \<le> FILES_MAX_ENTRIES" "b1 = (files_reset_list b)\<lparr>g_files := fs, g_file_list_items := map list_item fs\<rparr>"
    unfolding loaded_from_def by auto
  have "length (g_files (files_sort_newest_first b1)) \<le> FILES_MAX_ENTRIES" using mset_eq_length [OF sort_files(1) [of b1]] fs by simp
  moreover have "files_sort_newest_first b1 = (files_reset_list b)\<lparr>g_files := g_files (files_sort_newest_first b1),
      g_file_list_items := map list_item (g_files (files_sort_newest_first b1))\<rparr>"
    unfolding files_sort_newest_first_def files_refresh_list_items_def fs(2) by simp
  ultimately show ?thesis using fs b' unfolding loaded_from_def by metis
qed

lemma load_ok: "files_load_dir ops c b s = Some (ok, b', s') \<Longrightarrow> list_ok b \<Longrightarrow> browser_ok b'"
  by (drule load_keeps) (auto simp: loaded_from_def browser_ok_def list_ok_def shown_def files_reset_list_def FILES_ROWS_def)

lemma push_ok: "browser_ok b \<Longrightarrow> browser_ok (snd (files_push_current_cluster b))"
proof -
  assume ok: "browser_ok b"
  have "g_files_depth b + 1 \<le> FILES_STACK_MAX" if "\<not> FILES_STACK_MAX \<le> g_files_depth b" using that
    by (simp add: FILES_STACK_MAX_def inc_le)
  then show ?thesis using ok by (simp add: files_push_current_cluster_def browser_ok_def list_ok_def shown_def)
qed

lemma pop_ok: "browser_ok b \<Longrightarrow> browser_ok (snd (files_pop_cluster b))"
proof -
  assume ok: "browser_ok b"
  have "g_files_depth b - 1 \<le> FILES_STACK_MAX" if "g_files_depth b \<noteq> 0" "g_files_depth b \<le> FILES_STACK_MAX"
    using that by (simp add: word_le_nat_alt unat_minus_one)
  then show ?thesis using ok by (simp add: files_pop_cluster_def browser_ok_def list_ok_def shown_def)
qed

lemma preview_sector_bound:
  assumes "length (snd a) \<le> FILE_PREVIEW_MAX" and "preview_sector sec a = (f, a')"
  shows "length (snd a') \<le> FILE_PREVIEW_MAX"
  using assms by (auto simp: preview_sector_def Let_def split: prod.splits if_splits)

lemma read_preview_ok:
  assumes "files_read_preview ops entry b s = Some (ok, b', s')" and "browser_ok b"
  shows "browser_ok b'"
proof -
  from assms(1) obtain r rem out where w: "(if fe_size entry = 0 then Some (Walk_Through, (fe_size entry, []), s)
        else dir_walk ops preview_sector (fe_cluster entry) (fe_size entry, []) s) = Some (r, (rem, out), s')"
    and b': "b' = b\<lparr>g_files_preview := out @ replicate (FILE_PREVIEW_MAX + 1 - length out) 0\<rparr> \<or>
      b' = b\<lparr>g_files_preview := out @ replicate (FILE_PREVIEW_MAX + 1 - length out) 0, g_files_preview_len := of_nat (length out)\<rparr>"
    unfolding files_read_preview_def by (auto simp: Let_def split: option.splits prod.splits if_splits)
  have "length (snd (rem, out)) \<le> FILE_PREVIEW_MAX"
  proof (cases "fe_size entry = 0")
    case False
    then show ?thesis using w dir_walk_keeps [of ops preview_sector "fe_cluster entry" "(fe_size entry, [])" s r "(rem, out)" s'
        "\<lambda>a. length (snd a) \<le> FILE_PREVIEW_MAX"] preview_sector_bound by simp
  qed (use w in simp)
  then have "length out \<le> FILE_PREVIEW_MAX" by simp
  then have "unat (of_nat (length out) :: u16) \<le> FILE_PREVIEW_MAX" "length (out @ replicate (FILE_PREVIEW_MAX + 1 - length out) 0) = FILE_PREVIEW_MAX + 1"
    by (simp_all add: FILE_PREVIEW_MAX_def unat_of_nat)
  then show ?thesis using b' assms(2) by (auto simp: browser_ok_def list_ok_def shown_def)
qed

lemma read_preview_modes: "files_read_preview ops entry b s = Some (ok, b', s') \<Longrightarrow>
    g_files_preview_mode b' = g_files_preview_mode b \<and> g_files_delete_origin_mode b' = g_files_delete_origin_mode b"
  unfolding files_read_preview_def by (auto simp: Let_def split: option.splits prod.splits if_splits)

lemma count_pos: "files_count b \<noteq> 0 \<Longrightarrow> 0 < length (g_files b)"
  by (auto simp: files_count_def)

lemma wrapped_bound:
  assumes "list_ok b" and "g_files b \<noteq> []" and "unat index < length (g_files b)"
  shows "unat (wrapped_step delta index (files_count b)) < length (g_files b)"
proof -
  have n: "unat (files_count b) = length (g_files b)" "0 < length (g_files b)" "length (g_files b) \<le> 64"
    using count_unat [OF assms(1)] assms by (simp_all add: list_ok_def FILES_MAX_ENTRIES_def)
  then have "files_count b \<noteq> 0" by auto
  then have a: "unat (files_count b - 1) = length (g_files b) - 1" using n by (simp add: unat_minus_one)
  have b: "unat (index - 1) = unat index - 1" if "index \<noteq> 0" using that by (simp add: unat_minus_one)
  have "(unat index + 1) mod length (g_files b) < length (g_files b)" using n by simp
  then have c: "unat (of_nat ((unat index + 1) mod length (g_files b)) :: u8) < length (g_files b)" using n
    by (subst unat_of_nat) (rule le_less_trans [OF mod_less_eq_dividend])
  show ?thesis using a b c n assms(3) by (auto simp: wrapped_step_def)
qed

lemma count_zero: "list_ok b \<Longrightarrow> files_count b = 0 \<longleftrightarrow> g_files b = []"
  using count_unat [of b] by (auto simp: files_count_def)

lemma entry_at: "list_ok b \<Longrightarrow> files_entry_at index b = Some e \<Longrightarrow> unat index < length (g_files b)"
  using count_unat [of b] by (auto simp: files_entry_at_def word_le_nat_alt split: if_splits)

lemma select_ok: "browser_ok b \<Longrightarrow> browser_ok (files_select_delta delta b)"
proof -
  assume ok: "browser_ok b"
  then have l: "list_ok b" by (rule ok_list)
  show ?thesis
  proof (cases "files_count b = 0")
    case False
    then have ne: "g_files b \<noteq> []" using count_zero [OF l] by simp
    have "unat (g_files_index b) < length (g_files b)" using l ne by (simp add: list_ok_def)
    from wrapped_bound [OF l ne this, of delta]
    have v: "browser_ok (files_ensure_visible (b\<lparr>g_files_index := wrapped_step delta (g_files_index b) (files_count b)\<rparr>))"
      by (intro ensure_visible_ok ok_index [OF l])
    then show ?thesis using ok render_list_ok [OF ok_list [OF v]] by (auto simp: files_select_delta_def Let_def)
  qed (use ok in \<open>simp add: files_select_delta_def\<close>)
qed

text \<open>What a routine may do to the browser: the invariant stays, the question is not asked, the origin stays.\<close>

definition plain_step :: "browser \<Rightarrow> browser \<Rightarrow> bool" where
  "plain_step b b' \<longleftrightarrow> (browser_ok b \<longrightarrow> browser_ok b') \<and> (g_files_preview_mode b' = FILES_MODE_DELETE_CONFIRM \<longrightarrow> g_files_preview_mode b = FILES_MODE_DELETE_CONFIRM) \<and>
     g_files_delete_origin_mode b' = g_files_delete_origin_mode b"

lemma plain_refl: "plain_step b b"
  by (simp add: plain_step_def)

lemma plain_trans: "plain_step b b' \<Longrightarrow> plain_step b' b'' \<Longrightarrow> plain_step b b''"
  by (auto simp: plain_step_def)

lemma modes [simp]:
  "g_files_preview_mode (files_ensure_visible b) = g_files_preview_mode b"
  "g_files_delete_origin_mode (files_ensure_visible b) = g_files_delete_origin_mode b"
  "g_files_preview_mode (files_presenter_render_list b) = g_files_preview_mode b"
  "g_files_delete_origin_mode (files_presenter_render_list b) = g_files_delete_origin_mode b"
  "g_files_preview_mode (files_reset_list b) = g_files_preview_mode b"
  "g_files_delete_origin_mode (files_reset_list b) = g_files_delete_origin_mode b"
  "g_files_preview_mode (snd (files_push_current_cluster b)) = g_files_preview_mode b"
  "g_files_delete_origin_mode (snd (files_push_current_cluster b)) = g_files_delete_origin_mode b"
  "g_files_preview_mode (snd (files_pop_cluster b)) = g_files_preview_mode b"
  "g_files_delete_origin_mode (snd (files_pop_cluster b)) = g_files_delete_origin_mode b"
  by (simp_all add: files_ensure_visible_def files_presenter_render_list_def files_reset_list_def Let_def files_push_current_cluster_def
      files_pop_cluster_def)

lemma select_plain: "plain_step b (files_select_delta delta b)"
  using select_ok by (auto simp: plain_step_def files_select_delta_def Let_def)

lemma page_plain: "plain_step b (files_preview_page_delta delta b)"
  by (auto simp: plain_step_def files_preview_page_delta_def Let_def)

lemma image_at_plain:
  assumes "files_open_image_at_index decode index b s = (ok, b', s')"
  shows "plain_step b b'" and "ok \<Longrightarrow> list_ok b \<Longrightarrow> browser_ok b'" and "\<not> ok \<Longrightarrow> b' = b"
    and "ok \<Longrightarrow> g_files_preview_mode b' = FILES_MODE_IMAGE"
proof -
  have "browser_ok (files_ensure_visible (b\<lparr>g_files_index := index\<rparr>))" if "list_ok b" "files_entry_at index b = Some e" for e
    using ensure_visible_ok [OF ok_index [OF that(1) entry_at [OF that]]] .
  then show "plain_step b b'" "ok \<Longrightarrow> list_ok b \<Longrightarrow> browser_ok b'" "\<not> ok \<Longrightarrow> b' = b" "ok \<Longrightarrow> g_files_preview_mode b' = FILES_MODE_IMAGE"
    using assms ok_list by (auto simp: files_open_image_at_index_def plain_step_def split: option.splits if_splits prod.splits)
qed

lemma image_search_plain:
  "image_search decode delta index n b s = (ok, b', s') \<Longrightarrow> plain_step b b' \<and> (ok \<longrightarrow> list_ok b \<longrightarrow> browser_ok b') \<and> (\<not> ok \<longrightarrow> b' = b) \<and>
     (ok \<longrightarrow> g_files_preview_mode b' = FILES_MODE_IMAGE)"
proof (induction n arbitrary: index)
  case 0
  then show ?case by (simp add: plain_refl)
next
  case (Suc n)
  show ?case
  proof (cases "files_entry_is_image (g_files b ! unat (wrapped_step delta index (files_count b)))")
    case True
    then have "files_open_image_at_index decode (wrapped_step delta index (files_count b)) b s = (ok, b', s')" using Suc.prems by (simp add: Let_def)
    from image_at_plain [OF this] show ?thesis by blast
  qed (use Suc.prems Suc.IH [of "wrapped_step delta index (files_count b)"] in \<open>simp add: Let_def\<close>)
qed

lemma image_delta_plain:
  "files_open_image_delta decode delta b s = (ok, b', s') \<Longrightarrow> plain_step b b' \<and> (ok \<longrightarrow> list_ok b \<longrightarrow> browser_ok b') \<and> (\<not> ok \<longrightarrow> b' = b) \<and>
     (ok \<longrightarrow> g_files_preview_mode b' = FILES_MODE_IMAGE)"
  using image_search_plain [of decode delta "g_files_index b" "unat (files_count b)" b s] plain_refl
  by (auto simp: files_open_image_delta_def split: if_splits)

lemma nav_plain: "files_nav_delta decode delta b s = (b', s') \<Longrightarrow> plain_step b b'"
  using image_delta_plain [of decode delta b s] select_plain [of b delta] page_plain [of b delta] plain_refl [of b]
  by (cases "files_open_image_delta decode delta b s") (auto simp: files_nav_delta_def split: file_browser_mode.splits)

lemma load_modes: "files_load_dir ops c b s = Some (ok, b', s') \<Longrightarrow>
    g_files_preview_mode b' = g_files_preview_mode b \<and> g_files_delete_origin_mode b' = g_files_delete_origin_mode b"
  by (drule load_keeps) (auto simp: loaded_from_def files_reset_list_def)

lemma load_plain: "files_load_dir ops c b s = Some (ok, b', s') \<Longrightarrow> plain_step b b'"
  using load_modes [of ops c b s ok b' s'] load_ok [of ops c b s ok b' s'] ok_list by (auto simp: plain_step_def)

lemma render_plain: "plain_step b (files_presenter_render_list b)"
  using render_list_ok ok_list by (auto simp: plain_step_def)

lemma load_render_plain: "load_and_render bus b s = Some (b', s') \<Longrightarrow> plain_step b b'"
  using load_plain plain_trans [OF load_plain render_plain] by (auto simp: load_and_render_def split: option.splits if_splits)

lemma open_selected_plain: "files_open_selected bus decode b s = Some (b', s') \<Longrightarrow> plain_step b b'"
proof -
  assume run: "files_open_selected bus decode b s = Some (b', s')"
  show ?thesis
  proof (cases "\<not> hk_fat_mounted s \<or> files_count b = 0 \<or> files_selected_entry b = None")
    case True
    then show ?thesis using run plain_refl by (auto simp: files_open_selected_def split: if_splits)
  next
    case False
    then obtain e where e: "files_selected_entry b = Some e" by auto
    let ?d = "(snd (files_push_current_cluster b))\<lparr>g_files_cluster := fe_cluster e\<rparr>"
    have d: "plain_step b ?d" using push_ok [of b] by (simp add: plain_step_def)
    show ?thesis
    proof (cases "is_dir e")
      case True
      then have "b' = b \<or> load_and_render bus ?d s = Some (b', s')" using run False e by (auto simp: files_open_selected_def split: if_splits)
      then show ?thesis using plain_refl plain_trans [OF d load_render_plain] by blast
    next
      case regular: False
      show ?thesis
      proof (cases "files_entry_is_image e")
        case True
        then show ?thesis using run False e regular by (auto simp: files_open_selected_def plain_step_def split: prod.splits if_splits)
      next
        case preview: False
        then obtain ok b1 where "files_read_preview (sd_card_ops bus) e b s = Some (ok, b1, s')"
          "b' = (if ok then b1\<lparr>g_files_preview_mode := FILES_MODE_TEXT, g_files_preview_page := 0\<rparr> else b1)"
          using run False e regular preview by (auto simp: files_open_selected_def split: option.splits prod.splits)
        then show ?thesis using read_preview_ok [of "sd_card_ops bus" e b s ok b1 s'] read_preview_modes [of "sd_card_ops bus" e b s ok b1 s'] by (auto simp: plain_step_def)
      qed
    qed
  qed
qed

lemma back_plain: "files_back_from_list bus b s = Some (leave, b', s') \<Longrightarrow> plain_step b b'"
proof -
  assume run: "files_back_from_list bus b s = Some (leave, b', s')"
  let ?p = "case fst (files_pop_cluster b) of None \<Rightarrow> snd (files_pop_cluster b) | Some c \<Rightarrow> (snd (files_pop_cluster b))\<lparr>g_files_cluster := c\<rparr>"
  have p: "plain_step b ?p" using pop_ok [of b] by (auto simp: plain_step_def split: option.split)
  have "b' = b \<or> load_and_render bus ?p s = Some (b', s')" using run by (auto simp: files_back_from_list_def case_prod_unfold split: if_splits)
  then show ?thesis using plain_refl plain_trans [OF p load_render_plain] by blast
qed

lemma confirm_enter_cases: "snd (files_delete_confirm_enter b s) = b \<or>
    snd (files_delete_confirm_enter b s) = b\<lparr>g_files_delete_origin_mode := g_files_preview_mode b, g_files_preview_mode := FILES_MODE_DELETE_CONFIRM\<rparr>"
  by (simp add: files_delete_confirm_enter_def)

text \<open>Steps after which the question is not asked.\<close>

definition listing_step :: "browser \<Rightarrow> browser \<Rightarrow> bool" where
  "listing_step b b' \<longleftrightarrow> (browser_ok b \<longrightarrow> browser_ok b') \<and> g_files_preview_mode b' \<noteq> FILES_MODE_DELETE_CONFIRM \<and>
     g_files_delete_origin_mode b' \<noteq> FILES_MODE_DELETE_CONFIRM"

lemma cancel_step:
  assumes "files_delete_cancel decode b s = (b', s')" and "g_files_delete_origin_mode b \<noteq> FILES_MODE_DELETE_CONFIRM"
  shows "listing_step b b'"
proof -
  let ?b1 = "(files_delete_state_reset b)\<lparr>g_files_preview_mode := g_files_delete_origin_mode b\<rparr>"
  have b1: "browser_ok b \<longrightarrow> browser_ok ?b1" "g_files_delete_origin_mode ?b1 = FILES_MODE_LIST"
    by (simp_all add: files_delete_state_reset_def browser_ok_def list_ok_def shown_def)
  show ?thesis
  proof (cases "g_files_delete_origin_mode b = FILES_MODE_IMAGE")
    case True
    obtain ok b2 s2 where im: "files_open_image_at_index decode (g_files_index ?b1) ?b1 s = (ok, b2, s2)" by (metis prod_cases3)
    note a = image_at_plain [OF im]
    have "b' = (if ok then b2 else files_presenter_render_list (b2\<lparr>g_files_preview_mode := FILES_MODE_LIST\<rparr>))"
      using assms(1) True im by (cases ok) (simp_all add: files_delete_cancel_def Let_def)
    then show ?thesis using a b1 render_list_ok [of "b2\<lparr>g_files_preview_mode := FILES_MODE_LIST\<rparr>"] ok_list by (auto simp: listing_step_def plain_step_def)
  next
    case False
    then have "b' = (if g_files_delete_origin_mode b = FILES_MODE_TEXT then ?b1 else files_presenter_render_list (?b1\<lparr>g_files_preview_mode := FILES_MODE_LIST\<rparr>))"
      using assms(1) by (auto simp: files_delete_cancel_def Let_def)
    then show ?thesis using b1 render_list_ok [of "?b1\<lparr>g_files_preview_mode := FILES_MODE_LIST\<rparr>"] ok_list by (auto simp: listing_step_def)
  qed
qed

lemma delete_selected_plain: "files_delete_selected bus b s = Some (r, b', s') \<Longrightarrow> plain_step b b'"
proof -
  assume run: "files_delete_selected bus b s = Some (r, b', s')"
  show ?thesis
  proof (cases "b' = b")
    case False
    then obtain ok b1 s1 where l: "files_load_dir (sd_card_ops bus) (g_files_cluster b) b s1 = Some (ok, b1, s')"
      and b': "b' = b1 \<or> files_count b1 \<noteq> 0 \<and>
        b' = files_ensure_visible (b1\<lparr>g_files_index := (if files_count b1 \<le> g_files_index b then files_count b1 - 1 else g_files_index b)\<rparr>)"
      using run unfolding files_delete_selected_def by (auto split: if_splits option.splits prod.splits bool.splits)
    have "browser_ok b'" if "browser_ok b"
    proof -
      have ok1: "browser_ok b1" using load_ok [OF l] ok_list [OF that] .
      then have l1: "list_ok b1" by (rule ok_list)
      have "unat (if files_count b1 \<le> g_files_index b then files_count b1 - 1 else g_files_index b) < length (g_files b1)" if "files_count b1 \<noteq> 0"
        using that count_unat [OF l1] count_pos [OF that] by (auto simp: word_le_nat_alt unat_minus_one)
      then show ?thesis using b' ok1 ensure_visible_ok [OF ok_index [OF l1]] by blast
    qed
    then show ?thesis using load_modes [OF l] b' by (auto simp: plain_step_def)
  qed (simp add: plain_refl)
qed

lemma current_or_next_plain:
  assumes "files_open_image_from_current_or_next decode b s = (ok, b', s')"
  shows "(list_ok b \<longrightarrow> list_ok b' \<and> (ok \<longrightarrow> browser_ok b')) \<and> g_files_delete_origin_mode b' = g_files_delete_origin_mode b \<and>
    (g_files_preview_mode b' = FILES_MODE_DELETE_CONFIRM \<longrightarrow> g_files_preview_mode b = FILES_MODE_DELETE_CONFIRM)"
proof (cases "files_count b = 0")
  case True
  then show ?thesis using assms by (simp add: files_open_image_from_current_or_next_def)
next
  case False
  let ?b1 = "if files_count b \<le> g_files_index b then b\<lparr>g_files_index := files_count b - 1\<rparr> else b"
  have b1: "list_ok b \<longrightarrow> list_ok ?b1"
    using False count_unat [of b] ok_index [of b "files_count b - 1"] count_pos [OF False] by (auto simp: unat_minus_one)
  obtain ok2 b2 s2 where two: "(if files_entry_is_image (g_files ?b1 ! unat (g_files_index ?b1))
                then files_open_image_at_index decode (g_files_index ?b1) ?b1 s else (False, ?b1, s)) = (ok2, b2, s2)" by (metis prod_cases3)
  have a: "(ok2 \<longrightarrow> list_ok ?b1 \<longrightarrow> browser_ok b2) \<and> (\<not> ok2 \<longrightarrow> b2 = ?b1) \<and> plain_step ?b1 b2"
    using two image_at_plain [of decode "g_files_index ?b1" ?b1 s ok2 b2 s2] plain_refl by (auto split: if_splits)
  have run: "(ok, b', s') = (if ok2 then (True, b2, s2) else files_open_image_delta decode 1 b2 s2)"
    using assms False two unfolding files_open_image_from_current_or_next_def Let_def by simp
  have m: "g_files_delete_origin_mode ?b1 = g_files_delete_origin_mode b" "g_files_preview_mode ?b1 = g_files_preview_mode b" by simp_all
  show ?thesis
  proof (cases ok2)
    case True
    then show ?thesis using run a b1 m ok_list unfolding plain_step_def by (metis prod.inject)
  next
    case False
    then have "files_open_image_delta decode 1 ?b1 s2 = (ok, b', s')" using run a by simp
    from image_delta_plain [OF this] show ?thesis using b1 m ok_list unfolding plain_step_def by metis
  qed
qed

lemma confirmed_step:
  assumes "files_delete_confirmed bus decode b s = Some (b', s')"
  shows "listing_step b b'"
proof -
  let ?b1 = "(files_delete_state_reset b)\<lparr>g_files_preview_mode := FILES_MODE_LIST\<rparr>"
  have b1: "browser_ok b \<longrightarrow> browser_ok ?b1" "g_files_preview_mode ?b1 = FILES_MODE_LIST" "g_files_delete_origin_mode ?b1 = FILES_MODE_LIST"
    by (simp_all add: files_delete_state_reset_def)
  from assms obtain r b2 s2 where d: "files_delete_selected bus ?b1 s = Some (r, b2, s2)"
    unfolding files_delete_confirmed_def Let_def by (auto split: option.splits)
  have two: "plain_step ?b1 b2" by (rule delete_selected_plain [OF d])
  obtain ok b3 s3 where o: "(if g_files_delete_origin_mode b = FILES_MODE_IMAGE then files_open_image_from_current_or_next decode b2 s2 else (False, b2, s2)) =
      (ok, b3, s3)" by (metis prod_cases3)
  have three: "(list_ok b2 \<longrightarrow> list_ok b3 \<and> (ok \<longrightarrow> browser_ok b3)) \<and> g_files_delete_origin_mode b3 = g_files_delete_origin_mode b2 \<and>
    (g_files_preview_mode b3 = FILES_MODE_DELETE_CONFIRM \<longrightarrow> g_files_preview_mode b2 = FILES_MODE_DELETE_CONFIRM)"
    using o current_or_next_plain [of decode b2 s2 ok b3 s3] by (auto split: if_splits)
  have "b' = (if r \<noteq> FILE_RESULT_OK then b2 else if ok then b3 else files_presenter_render_list b3)"
    using assms unfolding files_delete_confirmed_def Let_def d option.case prod.case o by (auto split: if_splits bool.splits)
  then show ?thesis using b1 two three render_list_ok [of b3] ok_list [of b2] unfolding listing_step_def plain_step_def
    by (auto split: if_splits)
qed

section \<open>Histories\<close>

datatype files_event =
    Files_Enter
  | Files_Sd bool hk_sd_event_t
  | Files_Tick bool hk_input_snapshot u64
  | Files_Buttons hk_input_snapshot u64

definition files_step :: "'c sd_bus \<Rightarrow> 'c decoder \<Rightarrow> ('c volume \<Rightarrow> 'c volume) \<Rightarrow> files_event \<Rightarrow> 'c files_app \<Rightarrow> 'c files_app option" where
  "files_step bus decode animate ev a = (case ev of
     Files_Enter \<Rightarrow> files_controller_enter bus a
   | Files_Sd on_screen event \<Rightarrow> files_handle_sd_event bus on_screen event a
   | Files_Tick on_screen input now_us \<Rightarrow> Some (files_controller_tick decode animate on_screen input now_us a)
   | Files_Buttons input now_us \<Rightarrow> map_option snd (files_controller_handle_buttons bus decode input now_us a))"

definition browser_start :: browser where
  "browser_start = \<lparr>g_files_cluster = 0, g_files_stack = replicate 8 0, g_files_depth = 0, g_files_index = 0, g_files_top = 0,
     g_files_preview_mode = FILES_MODE_LIST, g_files_preview_page = 0, g_files_preview_len = 0, g_files_preview = replicate 2049 0,
     g_files = [], g_file_list_items = [], g_files_delete_origin_mode = FILES_MODE_LIST\<rparr>"

definition input_start :: files_input where
  "input_start = \<lparr>g_files_repeat_button = 0, g_files_repeat_ticks = 0, g_files_ok_press_us = 0, g_files_ok_active = False, g_files_ok_hold_fired = False\<rparr>"

text \<open>The events the browser has seen, the first one first, and its state; the volume is shared, anything may happen to it
  between two events.\<close>

inductive files_history :: "'c sd_bus \<Rightarrow> 'c decoder \<Rightarrow> ('c volume \<Rightarrow> 'c volume) \<Rightarrow> files_event list \<Rightarrow> 'c files_app \<Rightarrow> bool"
  for bus decode animate where
  start: "files_history bus decode animate [] (input_start, browser_start, s)"
| step: "files_history bus decode animate evs a \<Longrightarrow> files_step bus decode animate ev a = Some a' \<Longrightarrow> files_history bus decode animate (evs @ [ev]) a'"
| elsewhere: "files_history bus decode animate evs (c, b, s) \<Longrightarrow> files_history bus decode animate evs (c, b, s')"

lemma nav_pressed_plain: "nav_pressed decode pressed (c, b, s) = (c', b', s') \<Longrightarrow>
    plain_step b b' \<and> g_files_ok_press_us c' = g_files_ok_press_us c \<and> g_files_ok_active c' = g_files_ok_active c"
proof -
  assume run: "nav_pressed decode pressed (c, b, s) = (c', b', s')"
  obtain c1 b1 s1 where one: "(if pressed AND BUTTON_LEFT \<noteq> 0 then (files_repeat_start BUTTON_LEFT c, files_nav_delta decode (- 1) b s) else (c, b, s)) =
      (c1, b1, s1)" by (metis prod_cases3)
  have two: "(if pressed AND BUTTON_RIGHT \<noteq> 0 then (files_repeat_start BUTTON_RIGHT c1, files_nav_delta decode 1 b1 s1) else (c1, b1, s1)) = (c', b', s')"
    using run unfolding nav_pressed_def Let_def prod.case one .
  have "plain_step b b1 \<and> g_files_ok_press_us c1 = g_files_ok_press_us c \<and> g_files_ok_active c1 = g_files_ok_active c"
    using one nav_plain [of decode "- 1" b s b1 s1] plain_refl by (auto simp: files_repeat_start_def split: if_splits)
  moreover have "plain_step b1 b' \<and> g_files_ok_press_us c' = g_files_ok_press_us c1 \<and> g_files_ok_active c' = g_files_ok_active c1"
    using two nav_plain [of decode 1 b1 s1 b' s'] plain_refl by (auto simp: files_repeat_start_def split: if_splits)
  ultimately show ?thesis using plain_trans by auto
qed

text \<open>The press that is being held: when it was made, and that no release was seen since.\<close>

definition is_press :: "files_event \<Rightarrow> u64 \<Rightarrow> bool" where
  "is_press ev p \<longleftrightarrow> (\<exists>input. ev = Files_Buttons input p \<and> in_pressed input AND BUTTON_OK \<noteq> 0)"

definition is_release :: "files_event \<Rightarrow> bool" where
  "is_release ev \<longleftrightarrow> (\<exists>input t. ev = Files_Buttons input t \<and> in_changed input AND BUTTON_OK \<noteq> 0 \<and> in_state input AND BUTTON_OK = 0)"

definition held_since :: "files_event list \<Rightarrow> u64 \<Rightarrow> bool" where
  "held_since evs p \<longleftrightarrow> (\<exists>xs ev ys. evs = xs @ ev # ys \<and> is_press ev p \<and> (\<forall>e \<in> set ys. \<not> is_release e))"

text \<open>The question was asked on a tick that found the button held for 0.7 s, and neither OK nor BACK was pressed since.\<close>

definition answers :: "files_event \<Rightarrow> bool" where
  "answers ev \<longleftrightarrow> (\<exists>input t. ev = Files_Buttons input t \<and> in_pressed input AND (BUTTON_OK OR BUTTON_BACK) \<noteq> 0)"

definition asked :: "files_event list \<Rightarrow> bool" where
  "asked evs \<longleftrightarrow> (\<exists>xs p input t ys. evs = xs @ Files_Tick True input t # ys \<and> held_since xs p \<and> p \<noteq> 0 \<and>
     unat p + 700000 \<le> unat t \<and> in_state input AND BUTTON_OK \<noteq> 0 \<and> (\<forall>e \<in> set ys. \<not> answers e))"

definition history_ok :: "files_event list \<Rightarrow> files_input \<Rightarrow> browser \<Rightarrow> bool" where
  "history_ok evs c b \<longleftrightarrow> browser_ok b \<and> g_files_delete_origin_mode b \<noteq> FILES_MODE_DELETE_CONFIRM \<and>
     (g_files_ok_active c \<and> g_files_ok_press_us c \<noteq> 0 \<longrightarrow> held_since evs (g_files_ok_press_us c)) \<and>
     (g_files_preview_mode b = FILES_MODE_DELETE_CONFIRM \<longrightarrow> asked evs \<and> \<not> g_files_ok_active c)"

lemma held_snoc: "held_since evs p \<Longrightarrow> \<not> is_release ev \<Longrightarrow> held_since (evs @ [ev]) p"
  unfolding held_since_def by fastforce

lemma asked_snoc: "asked evs \<Longrightarrow> \<not> answers ev \<Longrightarrow> asked (evs @ [ev])"
  unfolding asked_def by fastforce

lemma held_now: "is_press ev p \<Longrightarrow> held_since (evs @ [ev]) p"
  unfolding held_since_def by (intro exI [of _ evs] exI [of _ ev] exI [of _ "[]"]) simp

lemma not_release [simp]: "\<not> is_release Files_Enter" "\<not> is_release (Files_Sd x e)" "\<not> is_release (Files_Tick x i t)"
  "\<not> answers Files_Enter" "\<not> answers (Files_Sd x e)" "\<not> answers (Files_Tick x i t)"
  by (simp_all add: is_release_def answers_def)

text \<open>A step that leaves the press alone, one that ends it, one that begins it.\<close>

lemma history_plain:
  assumes "history_ok evs c b" and "plain_step b b'" and "\<not> answers ev \<or> g_files_preview_mode b \<noteq> FILES_MODE_DELETE_CONFIRM"
    and "\<not> is_release ev \<or> \<not> g_files_ok_active c"
    and "g_files_ok_press_us c' = g_files_ok_press_us c" "g_files_ok_active c' = g_files_ok_active c"
  shows "history_ok (evs @ [ev]) c' b'"
  using assms held_snoc asked_snoc by (auto simp: history_ok_def plain_step_def)

lemma history_ended:
  assumes "history_ok evs c b" and "plain_step b b'" and "\<not> answers ev \<or> g_files_preview_mode b \<noteq> FILES_MODE_DELETE_CONFIRM" and "\<not> g_files_ok_active c'"
  shows "history_ok (evs @ [ev]) c' b'"
  using assms asked_snoc by (auto simp: history_ok_def plain_step_def)

lemma history_listing:
  assumes "history_ok evs c b" and "listing_step b b'" and "\<not> g_files_ok_active c'"
  shows "history_ok (evs @ [ev]) c' b'"
  using assms by (auto simp: history_ok_def listing_step_def)

lemma history_pressed:
  assumes "history_ok evs c b" and "plain_step b b'" and "is_press ev p" and "g_files_preview_mode b \<noteq> FILES_MODE_DELETE_CONFIRM" and "g_files_ok_press_us c' = p"
  shows "history_ok (evs @ [ev]) c' b'"
  using assms held_now by (auto simp: history_ok_def plain_step_def)

lemma tick_history:
  assumes h: "history_ok evs c b" and run: "files_controller_tick decode animate on_screen input now_us (c, b, s) = (c', b', s')"
  shows "history_ok (evs @ [Files_Tick on_screen input now_us]) c' b'"
proof (cases "on_screen \<and> g_files_preview_mode b \<noteq> FILES_MODE_DELETE_CONFIRM")
  case False
  then have "c' = files_repeat_reset c" "b' = b" using run by (auto simp: files_controller_tick_def files_controller_tick_delete_def split: if_splits)
  then show ?thesis using history_plain [OF h plain_refl] by (simp add: files_repeat_reset_def)
next
  case True
  obtain fire c1 where hold: "files_ok_hold_ready (in_state input) now_us c = (fire, c1)" by (metis prod.collapse)
  show ?thesis
  proof (cases fire)
    case True
    then have ready: "g_files_ok_active c" "g_files_ok_press_us c \<noteq> 0" "g_files_ok_press_us c \<le> now_us"
        "in_state input AND BUTTON_OK \<noteq> 0" "FILES_OK_HOLD_US \<le> now_us - g_files_ok_press_us c" "\<not> g_files_ok_active c1"
      using hold by (auto simp: files_ok_hold_ready_def split: if_splits)
    have "unat (now_us - g_files_ok_press_us c) = unat now_us - unat (g_files_ok_press_us c)" using ready(3) by (rule unat_sub)
    then have "unat (g_files_ok_press_us c) + 700000 \<le> unat now_us"
      using ready(3,5) by (simp add: word_le_nat_alt FILES_OK_HOLD_US_def)
    then have asked: "asked (evs @ [Files_Tick True input now_us])"
      unfolding asked_def using ready(1,2,4) h by (intro exI [of _ evs] exI [of _ "g_files_ok_press_us c"] exI [of _ input] exI [of _ now_us] exI [of _ "[]"])
        (simp add: history_ok_def)
    have c': "c' = files_repeat_reset c1" "b' = snd (files_delete_confirm_enter b s)"
      using run \<open>on_screen \<and> _\<close> hold True by (auto simp: files_controller_tick_def files_controller_tick_delete_def)
    have "\<not> g_files_ok_active c'" using c' ready(6) by (simp add: files_repeat_reset_def)
    then show ?thesis using confirm_enter_cases [of b s] h asked \<open>on_screen \<and> _\<close> unfolding c'(2) history_ok_def by auto
  next
    case False
    then have c1: "c1 = c" using hold by (auto simp: files_ok_hold_ready_def split: if_splits)
    obtain c2 b2 s2 where nav: "files_controller_handle_nav_repeat decode (in_state input) (c, b, s) = (c2, b2, s2)" by (metis prod_cases3)
    have "c' = c2" "b' = b2"
      using run \<open>on_screen \<and> _\<close> hold False c1 nav by (auto simp: files_controller_tick_def files_controller_tick_delete_def)
    moreover have "plain_step b b2 \<and> g_files_ok_press_us c2 = g_files_ok_press_us c \<and> g_files_ok_active c2 = g_files_ok_active c"
      using nav nav_plain [of decode "- 1" b s b2 s2] nav_plain [of decode 1 b s b2 s2] plain_refl [of b]
      by (auto simp: files_controller_handle_nav_repeat_def files_repeat_start_def files_repeat_reset_def files_repeat_delay_active_def
          split: if_splits prod.splits)
    ultimately show ?thesis using history_plain [OF h] by simp
  qed
qed

lemma confirm_history:
  assumes h: "history_ok evs c b" and run: "files_controller_handle_delete_confirm bus decode (in_pressed input) (c, b, s) = Some (c', b', s')"
    and m: "g_files_preview_mode b = FILES_MODE_DELETE_CONFIRM"
  shows "history_ok (evs @ [Files_Buttons input t]) c' b'"
proof (cases "in_pressed input AND BUTTON_BACK \<noteq> 0 \<or> in_pressed input AND BUTTON_OK \<noteq> 0")
  case True
  have o: "g_files_delete_origin_mode b \<noteq> FILES_MODE_DELETE_CONFIRM" using h by (simp add: history_ok_def)
  have "\<not> g_files_ok_active c' \<and> (files_delete_cancel decode b s = (b', s') \<or> files_delete_confirmed bus decode b s = Some (b', s'))"
    using run True by (auto simp: files_controller_handle_delete_confirm_def files_ok_reset_def split: if_splits option.splits)
  then show ?thesis using history_listing [OF h] cancel_step [OF _ o] confirmed_step by blast
next
  case False
  then have same: "c' = c" "b' = b" using run by (simp_all add: files_controller_handle_delete_confirm_def)
  have "in_pressed input AND (BUTTON_OK OR BUTTON_BACK) = 0" using False by (simp add: bit.conj_disj_distrib)
  then have "\<not> answers (Files_Buttons input t)" by (simp add: answers_def)
  moreover have "\<not> g_files_ok_active c" using h m by (simp add: history_ok_def)
  ultimately show ?thesis using history_plain [OF h plain_refl] same by simp
qed

text \<open>The end of the two handlers of a mode without a question.\<close>

lemma ok_button_history:
  assumes h: "history_ok evs c b" and m: "g_files_preview_mode b \<noteq> FILES_MODE_DELETE_CONFIRM" and n: "nav_pressed decode (in_pressed input) (c, b, s) = (c1, b1, s1)"
    and c': "c' = (if in_pressed input AND BUTTON_OK \<noteq> 0 then files_ok_press t (files_repeat_reset c1)
      else if in_changed input AND BUTTON_OK \<noteq> 0 \<and> in_state input AND BUTTON_OK = 0 then files_ok_reset c1 else c1)"
    and b': "plain_step b1 b'"
  shows "history_ok (evs @ [Files_Buttons input t]) c' b'"
proof -
  note one = nav_pressed_plain [OF n]
  have p: "plain_step b b'" using plain_trans one b' by blast
  consider (press) "in_pressed input AND BUTTON_OK \<noteq> 0"
    | (release) "in_pressed input AND BUTTON_OK = 0" "in_changed input AND BUTTON_OK \<noteq> 0 \<and> in_state input AND BUTTON_OK = 0"
    | (other) "in_pressed input AND BUTTON_OK = 0" "\<not> (in_changed input AND BUTTON_OK \<noteq> 0 \<and> in_state input AND BUTTON_OK = 0)" by blast
  then show ?thesis
  proof cases
    case press
    then have "is_press (Files_Buttons input t) t" by (simp add: is_press_def)
    then show ?thesis using history_pressed [OF h p _ m] c' press by (simp add: files_ok_press_def)
  next
    case release
    then show ?thesis using history_ended [OF h p] m c' by (simp add: files_ok_reset_def)
  next
    case other
    then have "\<not> is_release (Files_Buttons input t)" by (auto simp: is_release_def)
    moreover have "g_files_ok_press_us c' = g_files_ok_press_us c" "g_files_ok_active c' = g_files_ok_active c" using c' other one by auto
    ultimately show ?thesis using history_plain [OF h p] m by blast
  qed
qed

lemma preview_history:
  assumes h: "history_ok evs c b" and m: "g_files_preview_mode b \<noteq> FILES_MODE_DELETE_CONFIRM"
    and run: "files_controller_handle_preview_buttons decode input t (c, b, s) = (c', b', s')"
  shows "history_ok (evs @ [Files_Buttons input t]) c' b'"
proof (cases "in_pressed input AND BUTTON_BACK \<noteq> 0")
  case True
  then have r: "c' = files_ok_reset (files_repeat_reset c)" "b' = files_presenter_render_list (b\<lparr>g_files_preview_mode := FILES_MODE_LIST\<rparr>)"
    using run by (simp_all add: files_controller_handle_preview_buttons_def)
  have "listing_step b b'" using render_list_ok [of "b\<lparr>g_files_preview_mode := FILES_MODE_LIST\<rparr>"] ok_list [of b] h r(2)
    by (simp add: listing_step_def history_ok_def)
  then show ?thesis using history_listing [OF h] r(1) by (simp add: files_ok_reset_def)
next
  case False
  obtain c1 b1 s1 where n: "nav_pressed decode (in_pressed input) (c, b, s) = (c1, b1, s1)" by (metis prod_cases3)
  then show ?thesis using ok_button_history [OF h m n _ plain_refl] run False
    by (auto simp: files_controller_handle_preview_buttons_def split: if_splits)
qed

lemma list_history:
  assumes h: "history_ok evs c b" and m: "g_files_preview_mode b \<noteq> FILES_MODE_DELETE_CONFIRM"
    and run: "files_controller_handle_list_buttons bus decode input t (c, b, s) = Some (c', b', s')"
  shows "history_ok (evs @ [Files_Buttons input t]) c' b'"
proof -
  obtain c1 b1 s1 where n: "nav_pressed decode (in_pressed input) (c, b, s) = (c1, b1, s1)" by (metis prod_cases3)
  have "c' = (if in_pressed input AND BUTTON_OK \<noteq> 0 then files_ok_press t (files_repeat_reset c1)
      else if in_changed input AND BUTTON_OK \<noteq> 0 \<and> in_state input AND BUTTON_OK = 0 then files_ok_reset c1 else c1) \<and> plain_step b1 b'"
    using run n open_selected_plain [of bus decode b1 s1 b' s'] plain_refl [of b1]
    by (auto simp: files_controller_handle_list_buttons_def split: if_splits option.splits)
  then show ?thesis using ok_button_history [OF h m n] by blast
qed

lemma sd_history:
  assumes h: "history_ok evs c b" and run: "files_handle_sd_event bus on_screen event (c, b, s) = Some (c', b', s')"
  shows "history_ok (evs @ [Files_Sd on_screen event]) c' b'"
proof -
  let ?l = "files_delete_state_reset (b\<lparr>g_files_depth := 0, g_files_preview_mode := FILES_MODE_LIST\<rparr>)"
  have ok: "browser_ok b" using h by (simp add: history_ok_def)
  have l: "listing_step b ?l" using ok_depth by (simp add: listing_step_def files_delete_state_reset_def)
  have l2: "listing_step b (?l\<lparr>g_files_cluster := k\<rparr>)" for k using l by (simp add: listing_step_def)
  have r: "listing_step b (files_reset_list ?l)"
    using l reset_list_ok ok_list by (auto simp: listing_step_def)
  from run obtain ready b1 where ev: "files_on_sd_event bus event b s = Some (ready, b1, s')"
    and b': "b' = b1 \<or> b' = files_presenter_render_list b1" and c': "\<not> g_files_ok_active c'"
    by (auto simp: files_handle_sd_event_def files_controller_reset_input_def split: option.splits if_splits)
  have "b1 = b \<or> listing_step b b1"
  proof (cases "\<exists>k. files_load_dir (sd_card_ops bus) k (?l\<lparr>g_files_cluster := g_fat_root_cluster s\<rparr>) s = Some (ready, b1, s')")
    case True
    then have "plain_step (?l\<lparr>g_files_cluster := g_fat_root_cluster s\<rparr>) b1" using load_plain by blast
    then show ?thesis using l2 [of "g_fat_root_cluster s"] by (auto simp: plain_step_def listing_step_def)
  next
    case False
    then show ?thesis using ev r l2 [of "g_fat_root_cluster s"] by (auto simp: files_on_sd_event_def Let_def split: if_splits)
  qed
  moreover have "plain_step b1 b'" using b' plain_refl render_plain by blast
  ultimately have "plain_step b b' \<or> listing_step b b'" by (auto simp: plain_step_def listing_step_def)
  then show ?thesis using history_ended [OF h _ _ c'] history_listing [OF h _ c'] by auto
qed

lemma enter_history:
  assumes h: "history_ok evs c b" and run: "files_controller_enter bus (c, b, s) = Some (c', b', s')"
  shows "history_ok (evs @ [Files_Enter]) c' b'"
proof -
  let ?l = "files_delete_state_reset (b\<lparr>g_files_depth := 0, g_files_preview_mode := FILES_MODE_LIST\<rparr>)"
  have l: "listing_step b (?l\<lparr>g_files_cluster := k\<rparr>)" for k using ok_depth by (simp add: listing_step_def files_delete_state_reset_def)
  from run have c': "\<not> g_files_ok_active c'" and e: "files_backend_enter bus b s = Some (b', s')"
    by (auto simp: files_controller_enter_def files_controller_reset_input_def)
  from e obtain k where "b' = ?l\<lparr>g_files_cluster := k\<rparr> \<or> (\<exists>s1. load_and_render bus (?l\<lparr>g_files_cluster := k\<rparr>) s1 = Some (b', s'))"
    unfolding files_backend_enter_def Let_def by (auto split: prod.splits bool.splits)
  then have "listing_step b b'" using l [of k] load_render_plain [of bus "?l\<lparr>g_files_cluster := k\<rparr>"]
    by (auto simp: plain_step_def listing_step_def)
  then show ?thesis by (rule history_listing [OF h _ c'])
qed

lemma buttons_history:
  assumes h: "history_ok evs c b" and run: "files_controller_handle_buttons bus decode input t (c, b, s) = Some (leave, c', b', s')"
  shows "history_ok (evs @ [Files_Buttons input t]) c' b'"
proof -
  consider (confirm) "g_files_preview_mode b = FILES_MODE_DELETE_CONFIRM"
    | (preview) "g_files_preview_mode b \<noteq> FILES_MODE_DELETE_CONFIRM" "g_files_preview_mode b \<noteq> FILES_MODE_LIST"
    | (leaving) "g_files_preview_mode b = FILES_MODE_LIST" "in_pressed input AND BUTTON_BACK \<noteq> 0"
    | (listing) "g_files_preview_mode b = FILES_MODE_LIST" "in_pressed input AND BUTTON_BACK = 0" by blast
  then show ?thesis
  proof cases
    case confirm
    then show ?thesis using confirm_history [OF h] run by (auto simp: files_controller_handle_buttons_def)
  next
    case preview
    then show ?thesis using preview_history [OF h] run by (auto simp: files_controller_handle_buttons_def)
  next
    case leaving
    then have "\<not> g_files_ok_active c'" "files_back_from_list bus b s = Some (leave, b', s')"
      using run by (auto simp: files_controller_handle_buttons_def files_ok_reset_def split: option.splits)
    then show ?thesis using history_ended [OF h back_plain] leaving by auto
  next
    case listing
    then show ?thesis using list_history [OF h] run by (auto simp: files_controller_handle_buttons_def)
  qed
qed

lemma browser_start_ok: "browser_ok browser_start"
  by (simp add: browser_ok_def list_ok_def shown_def browser_start_def FILES_MAX_ENTRIES_def FILES_STACK_MAX_def FILE_PREVIEW_MAX_def FILES_ROWS_def)

lemma history_invariant: "files_history bus decode animate evs (c, b, s) \<Longrightarrow> history_ok evs c b"
proof (induction evs "(c, b, s)" arbitrary: c b s rule: files_history.induct)
  case (start s)
  show ?case using browser_start_ok by (simp add: history_ok_def input_start_def browser_start_def)
next
  case (step evs a ev)
  obtain c0 b0 s0 where a: "a = (c0, b0, s0)" by (metis prod_cases3)
  have h: "history_ok evs c0 b0" using step(2) a by simp
  show ?case
    using step(3) enter_history [OF h] sd_history [OF h] tick_history [OF h] buttons_history [OF h] unfolding a
    by (cases ev) (auto simp: files_step_def)
qed

section \<open>The preview\<close>

lemma preview_consume:
  "\<forall>sec \<in> set secs. length sec = 512 \<Longrightarrow> length out \<le> FILE_PREVIEW_MAX \<Longrightarrow> consume preview_sector secs (rem, out) = (f, rem', out') \<Longrightarrow>
    out' = out @ map printable (take (min (unat rem) (FILE_PREVIEW_MAX - length out)) (concat secs))"
proof (induction secs arbitrary: rem out)
  case (Cons sec secs)
  let ?n = "min (min 512 (unat rem)) (FILE_PREVIEW_MAX - length out)"
  define rem1 where "rem1 = rem - of_nat ?n"
  define out1 where "out1 = out @ map printable (take ?n sec)"
  have sec: "length sec = 512" using Cons.prems(1) by simp
  have n: "(if FILE_PREVIEW_MAX - length out < (if 512 < rem then 512 else unat rem) then FILE_PREVIEW_MAX - length out
      else (if 512 < rem then 512 else unat rem)) = ?n" by (auto simp: word_less_nat_alt)
  have body: "preview_sector sec (rem, out) = (rem1 = 0 \<or> FILE_PREVIEW_MAX \<le> length out1, rem1, out1)"
    unfolding preview_sector_def Let_def prod.case n rem1_def out1_def ..
  have l1: "length out1 = length out + ?n" using sec by (simp add: out1_def)
  have "(of_nat ?n :: u32) \<le> rem" by (simp add: word_le_nat_alt unat_of_nat)
  then have r1: "unat rem1 = unat rem - ?n" unfolding rem1_def by (subst unat_sub) (simp_all add: unat_of_nat FILE_PREVIEW_MAX_def)
  show ?case
  proof (cases "rem1 = 0 \<or> FILE_PREVIEW_MAX \<le> length out1")
    case True
    then have "min (unat rem) (FILE_PREVIEW_MAX - length out) \<le> ?n" using r1 l1 Cons.prems(2) by (auto simp: unat_eq_0 min_def split: if_splits)
    then have "min (unat rem) (FILE_PREVIEW_MAX - length out) = ?n" "?n \<le> 512" by simp_all
    then show ?thesis using Cons.prems(3) body True sec by (simp add: out1_def)
  next
    case False
    then have full: "?n = 512" using r1 l1 Cons.prems(2) by (auto simp: min_def unat_eq_0 split: if_splits)
    have "out' = out1 @ map printable (take (min (unat rem1) (FILE_PREVIEW_MAX - length out1)) (concat secs))"
      using Cons.IH [of out1 rem1] Cons.prems body False by simp
    moreover have "min (unat rem) (FILE_PREVIEW_MAX - length out) = 512 + min (unat rem1) (FILE_PREVIEW_MAX - length out1)"
      using r1 l1 full by simp
    ultimately show ?thesis using sec full by (simp add: out1_def)
  qed
qed simp

context block_store
begin

lemma files_read_preview_spec:
  assumes f: "fat_ready usable room s" and ch: "file_chain s ks" and start: "fe_cluster entry = hd ks"
  shows "\<exists>ok b' s'. files_read_preview ops entry b s = Some (ok, b', s') \<and> looks s s' \<and> (reliable \<longrightarrow> ok) \<and>
    (ok \<longrightarrow> (\<exists>n. 0 < n \<and> n \<le> length ks \<and> (reliable \<longrightarrow> n = length ks) \<and>
       (let shown = map printable (take (min (unat (fe_size entry)) FILE_PREVIEW_MAX) (file_data (blk (f_sd s)) s (take n ks)))
        in b' = b\<lparr>g_files_preview := shown @ replicate (FILE_PREVIEW_MAX + 1 - length shown) 0, g_files_preview_len := of_nat (length shown)\<rparr>)))"
proof -
  have ne: "ks \<noteq> []" using ch by (auto simp: chain_in_def)
  show ?thesis
proof (cases "fe_size entry = 0")
  case True
  then show ?thesis using looks_refl [OF f] ne by (auto simp: files_read_preview_def Let_def intro!: exI [of _ "length ks"])
next
  case False
  have us: "usable (f_sd s)" by (rule fat_readyD(1) [OF f])
  from dir_walk_start [OF f ch, of preview_sector "(fe_size entry, [])"] obtain r a s' where
    w: "dir_walk ops preview_sector (hd ks) (fe_size entry, []) s = Some (r, a, s')" "looks s s'" "reliable \<longrightarrow> r \<noteq> Walk_Failed"
    and n: "r \<noteq> Walk_Failed \<longrightarrow> (\<exists>n. 0 < n \<and> n \<le> length ks \<and> (reliable \<longrightarrow> n = length ks) \<and>
         consume preview_sector (dir_sectors (blk (f_sd s)) s (take n ks)) (fe_size entry, []) = (r = Walk_Finished, a))" by blast
  obtain rem out where a: "a = (rem, out)" by (cases a)
  let ?b = "b\<lparr>g_files_preview := out @ replicate (FILE_PREVIEW_MAX + 1 - length out) 0\<rparr>"
  have run: "files_read_preview ops entry b s = Some (if r = Walk_Failed then (False, ?b, s') else (True, ?b\<lparr>g_files_preview_len := of_nat (length out)\<rparr>, s'))"
    unfolding files_read_preview_def start w(1) a Let_def using False by simp
  have "out = map printable (take (min (unat (fe_size entry)) FILE_PREVIEW_MAX) (file_data (blk (f_sd s)) s (take n ks)))"
    if "consume preview_sector (dir_sectors (blk (f_sd s)) s (take n ks)) (fe_size entry, []) = (r = Walk_Finished, a)" for n
    using preview_consume [OF dir_sectors_length [OF us] _ that [unfolded a]] unfolding dir_sectors_data by simp
  note out = this
  show ?thesis
  proof (cases "r = Walk_Failed")
    case True
    then have "files_read_preview ops entry b s = Some (False, ?b, s')" "\<not> reliable" using run w(3) by simp_all
    then show ?thesis using w(2) by blast
  next
    case False
    then obtain n where k: "0 < n" "n \<le> length ks" "reliable \<longrightarrow> n = length ks"
      "consume preview_sector (dir_sectors (blk (f_sd s)) s (take n ks)) (fe_size entry, []) = (r = Walk_Finished, a)" using n by blast
    have "files_read_preview ops entry b s = Some (True, ?b\<lparr>g_files_preview_len := of_nat (length out)\<rparr>, s')" using run False by simp
    then show ?thesis unfolding Let_def using k(1-3) w(2) out [OF k(4), symmetric]
      by (intro exI [of _ True] exI [of _ "?b\<lparr>g_files_preview_len := of_nat (length out)\<rparr>"] exI [of _ s'] conjI impI exI [of _ n]) simp_all
  qed
qed
qed

end

section \<open>Properties\<close>

context sd_device
begin

lemma load_dir:
  assumes v: "volume_ok view s" and ch: "has_chain view s ks" and start: "c = hd ks"
  shows "\<exists>ok b' s'. files_load_dir (sd_card_ops bus) c b s = Some (ok, b', s') \<and> volume_ok view s' \<and> disk view s' = disk view s \<and>
    (card_reliable bus view \<longrightarrow> ok) \<and>
    (ok \<longrightarrow> (\<exists>n. 0 < n \<and> n \<le> length ks \<and> (card_reliable bus view \<longrightarrow> n = length ks) \<and>
       mset (g_files b') = mset (listed (bytes_of view s (take n ks))) \<and> newest_first (g_files b') \<and>
       g_file_list_items b' = map list_item (g_files b') \<and> g_files_index b' = 0 \<and> g_files_top b' = 0))"
proof -
  have rd: "fat_ready (sd_usable view) (sd_room view) s" using v by (simp add: volume_ok_def)
  from store.files_load_dir_spec [OF rd ch start, of b] obtain ok b' s' where
    l: "files_load_dir (sd_card_ops bus) c b s = Some (ok, b', s')" "store.looks s s'" "card_reliable bus view \<longrightarrow> ok"
    "ok \<longrightarrow> (\<exists>n. 0 < n \<and> n \<le> length ks \<and> (card_reliable bus view \<longrightarrow> n = length ks) \<and> shows_listing (listed (bytes_of view s (take n ks))) b')" by blast
  then show ?thesis using volume_looks [OF v l(2)] unfolding shows_listing_def by blast
qed

lemma read_preview:
  assumes v: "volume_ok view s" and ch: "has_chain view s ks" and start: "fe_cluster entry = hd ks"
  shows "\<exists>ok b' s'. files_read_preview (sd_card_ops bus) entry b s = Some (ok, b', s') \<and> volume_ok view s' \<and> disk view s' = disk view s \<and>
    (card_reliable bus view \<longrightarrow> ok) \<and>
    (ok \<longrightarrow> (\<exists>n. 0 < n \<and> n \<le> length ks \<and> (card_reliable bus view \<longrightarrow> n = length ks) \<and>
       (let shown = map printable (take (min (unat (fe_size entry)) 2048) (bytes_of view s (take n ks)))
        in g_files_preview b' = shown @ replicate (2049 - length shown) 0 \<and> g_files_preview_len b' = of_nat (length shown) \<and> length shown \<le> 2048)))"
proof -
  have rd: "fat_ready (sd_usable view) (sd_room view) s" using v by (simp add: volume_ok_def)
  from store.files_read_preview_spec [OF rd ch start, of b] obtain ok b' s' where
    l: "files_read_preview (sd_card_ops bus) entry b s = Some (ok, b', s')" "store.looks s s'" "card_reliable bus view \<longrightarrow> ok"
    "ok \<longrightarrow> (\<exists>n. 0 < n \<and> n \<le> length ks \<and> (card_reliable bus view \<longrightarrow> n = length ks) \<and>
       (let shown = map printable (take (min (unat (fe_size entry)) FILE_PREVIEW_MAX) (bytes_of view s (take n ks)))
        in b' = b\<lparr>g_files_preview := shown @ replicate (FILE_PREVIEW_MAX + 1 - length shown) 0, g_files_preview_len := of_nat (length shown)\<rparr>))" by blast
  then show ?thesis using volume_looks [OF v l(2)] by (fastforce simp: Let_def FILE_PREVIEW_MAX_def)
qed

end

text \<open>C35. A directory is listed newest first. For any card that keeps to the specification and any
  directory whose clusters form a chain, \<open>files_load_dir\<close> returns without writing, and when it reports success the list is,
  with multiplicity, the first 64 named entries of a beginning of the directory that consists of its first clusters, at least one, ordered by the
  time of their last change and, among equal times, the later entry first; the drawn items agree with it and the first one is
  selected. On a card whose reads do not fail it does succeed and that beginning is the whole directory; a failed read of
  the allocation table is taken for the end of the chain, so otherwise a success can carry a truncated list.\<close>

theorem files_load_dir_newest_first:
  assumes "sd_device bus view" and "volume_ok view s" and "has_chain view s ks" and "c = hd ks"
  shows "\<exists>ok b' s'. files_load_dir (sd_card_ops bus) c b s = Some (ok, b', s') \<and> volume_ok view s' \<and> disk view s' = disk view s \<and>
    (card_reliable bus view \<longrightarrow> ok) \<and>
    (ok \<longrightarrow> (\<exists>n. 0 < n \<and> n \<le> length ks \<and> (card_reliable bus view \<longrightarrow> n = length ks) \<and>
       mset (g_files b') = mset (listed (bytes_of view s (take n ks))) \<and> newest_first (g_files b') \<and>
       g_file_list_items b' = map list_item (g_files b') \<and> g_files_index b' = 0 \<and> g_files_top b' = 0))"
  by (rule sd_device.load_dir [OF assms])

theorem files_load_dir_newest_first_witness:
  "\<exists>b' s'. files_load_dir (sd_card_ops ref_bus) 2 browser_start dir_volume = Some (True, b', s') \<and> g_files b' = [hello_entry]"
proof -
  have "listed (bytes_of ref_card_view dir_volume [2, 3]) = [hello_entry]"
    unfolding dir_bytes listed_def dir_listing by (simp add: nameless_def hello_entry_def FILES_MAX_ENTRIES_def)
  then show ?thesis
    using files_load_dir_newest_first [OF ref_card.sd_device_axioms dir_ok dir_file, of 2 browser_start] ref_reliable by fastforce
qed

text \<open>C37. The preview shows the beginning of the file. For any card that keeps to the specification, \<open>files_read_preview\<close>
  returns without writing to the card. On a card whose reads do not fail it succeeds and the buffer holds the first bytes of the file,
  2048 of them or as many as the file has, with every byte outside the printable range replaced by a dot, ended by zero bytes.
  When it reports success on another card the same holds of the part of the file in its first clusters, at least one, only: a failed read of the
  allocation table is taken for the end of the chain, so the preview can be truncated there.\<close>

theorem files_read_preview_text:
  assumes "sd_device bus view" and "volume_ok view s" and "has_chain view s ks" and "fe_cluster entry = hd ks"
  shows "\<exists>ok b' s'. files_read_preview (sd_card_ops bus) entry b s = Some (ok, b', s') \<and> volume_ok view s' \<and> disk view s' = disk view s \<and>
    (card_reliable bus view \<longrightarrow> ok) \<and>
    (ok \<longrightarrow> (\<exists>n. 0 < n \<and> n \<le> length ks \<and> (card_reliable bus view \<longrightarrow> n = length ks) \<and>
       (let shown = map printable (take (min (unat (fe_size entry)) 2048) (bytes_of view s (take n ks)))
        in g_files_preview b' = shown @ replicate (2049 - length shown) 0 \<and> g_files_preview_len b' = of_nat (length shown) \<and> length shown \<le> 2048)))"
  by (rule sd_device.read_preview [OF assms])

theorem files_read_preview_text_witness:
  "\<exists>b' s'. files_read_preview (sd_card_ops ref_bus) sample_entry browser_start sample_volume = Some (True, b', s') \<and> g_files_preview_len b' = 1000"
proof -
  have "take (min (unat (fe_size sample_entry)) 2048) (bytes_of ref_card_view sample_volume [2, 3]) = replicate 512 7 @ replicate 488 9"
    unfolding sample_bytes by (simp add: sample_entry_def)
  then show ?thesis
    using files_read_preview_text [OF ref_card.sd_device_axioms sample_ok sample_file, of sample_entry browser_start] ref_reliable
    by (fastforce simp: sample_entry_def Let_def)
qed

text \<open>C36. The browser stays consistent and deletes nothing by accident. Whatever buttons are pressed, ticks pass and cards
  come and go, whatever the card and the image decoders answer and whatever the rest of the firmware does to the volume in
  between: the list has at most 64 entries which are the drawn items, the selected entry is one of them and inside the
  window of five rows, and the directory stack and the preview stay inside their arrays; and the question whether to delete
  is on the screen only when a tick has found the OK button held for 0.7 s since a press that the browser has seen, without
  a release in between, and neither OK nor BACK was pressed after that.\<close>

theorem files_browser_safe:
  assumes "files_history bus decode animate evs (c, b, s)"
  shows "browser_ok b \<and> (g_files_preview_mode b = FILES_MODE_DELETE_CONFIRM \<longrightarrow> asked evs)"
  using history_invariant [OF assms] by (simp_all add: history_ok_def)

text \<open>The browser is entered with the card of one file, OK is pressed and held.\<close>

theorem files_browser_safe_witness:
  defines "ok \<equiv> \<lparr>in_state = BUTTON_OK, in_pressed = BUTTON_OK, in_changed = BUTTON_OK\<rparr>"
  shows "\<exists>c b s. files_history ref_bus (\<lambda>e s. (FILE_RESULT_OK, s)) id [Files_Enter, Files_Buttons ok 1000, Files_Tick True ok 701000] (c, b, s) \<and>
    g_files_preview_mode b = FILES_MODE_DELETE_CONFIRM \<and> browser_ok b \<and> asked [Files_Enter, Files_Buttons ok 1000, Files_Tick True ok 701000]"
proof -
  let ?h = "files_history ref_bus (\<lambda>e s. (FILE_RESULT_OK, s)) id"
  have m: "hk_fat_mounted dir_volume" "hk_sd_present dir_volume" "g_fat_root_cluster dir_volume = 2"
    by (simp_all add: hk_fat_mounted_def hk_sd_present_def dir_volume_def sample_volume_def)
  let ?b0 = "(files_delete_state_reset (browser_start\<lparr>g_files_depth := 0, g_files_preview_mode := FILES_MODE_LIST\<rparr>))\<lparr>g_files_cluster := 2\<rparr>"
  have "listed (bytes_of ref_card_view dir_volume [2, 3]) = [hello_entry]"
    unfolding dir_bytes listed_def dir_listing by (simp add: nameless_def hello_entry_def FILES_MAX_ENTRIES_def)
  then obtain b1 s1 where l: "files_load_dir (sd_card_ops ref_bus) 2 ?b0 dir_volume = Some (True, b1, s1)" and f: "g_files b1 = [hello_entry]"
    using sd_device.load_dir [OF ref_card.sd_device_axioms dir_ok dir_file, of 2 ?b0] ref_reliable by fastforce
  let ?b2 = "files_presenter_render_list b1"
  have mode: "g_files_preview_mode b1 = FILES_MODE_LIST" using load_modes [OF l] by (simp add: files_delete_state_reset_def browser_start_def)
  have "files_step ref_bus (\<lambda>e s. (FILE_RESULT_OK, s)) id Files_Enter (input_start, browser_start, dir_volume) =
      Some (input_start, ?b2, s1)"
    using l m by (simp add: files_step_def files_controller_enter_def files_backend_enter_def Let_def file_mount_if_needed_def load_and_render_def
        files_controller_reset_input_def input_start_def)
  from files_history.step [OF files_history.start this] have "?h [Files_Enter] (input_start, ?b2, s1)" by simp
  from files_history.elsewhere [OF this, of dir_volume] have one: "?h [Files_Enter] (input_start, ?b2, dir_volume)" .
  let ?c = "files_ok_press 1000 (files_repeat_reset input_start)"
  have "files_step ref_bus (\<lambda>e s. (FILE_RESULT_OK, s)) id (Files_Buttons ok 1000) (input_start, ?b2, dir_volume) = Some (?c, ?b2, dir_volume)"
    by (simp add: files_step_def files_controller_handle_buttons_def mode files_controller_handle_list_buttons_def nav_pressed_def ok_def
        BUTTON_OK_def BUTTON_LEFT_def BUTTON_RIGHT_def BUTTON_BACK_def)
  from files_history.step [OF one this] have two: "?h [Files_Enter, Files_Buttons ok 1000] (?c, ?b2, dir_volume)" by simp
  have e: "files_count ?b2 \<noteq> 0" "files_selected_entry ?b2 \<noteq> None"
    using f load_keeps [OF l] by (auto simp: files_presenter_render_list_def files_count_def files_selected_entry_def files_entry_at_def
        loaded_from_def files_reset_list_def)
  obtain c3 b3 where t: "files_controller_tick (\<lambda>e s. (FILE_RESULT_OK, s)) id True ok 701000 (?c, ?b2, dir_volume) = (c3, b3, dir_volume)"
    and m3: "g_files_preview_mode b3 = FILES_MODE_DELETE_CONFIRM"
    using e m mode by (auto simp: files_controller_tick_def files_controller_tick_delete_def files_ok_hold_ready_def files_ok_press_def ok_def
        BUTTON_OK_def FILES_OK_HOLD_US_def files_delete_confirm_enter_def)
  have "files_step ref_bus (\<lambda>e s. (FILE_RESULT_OK, s)) id (Files_Tick True ok 701000) (?c, ?b2, dir_volume) = Some (c3, b3, dir_volume)"
    using t by (simp add: files_step_def)
  from files_history.step [OF two this] have "?h [Files_Enter, Files_Buttons ok 1000, Files_Tick True ok 701000] (c3, b3, dir_volume)" by simp
  then show ?thesis using files_browser_safe [of ref_bus "\<lambda>e s. (FILE_RESULT_OK, s)" id _ c3 b3 dir_volume] m3 by blast
qed

end
