(* ===== verification/Settings_Service.thy ===== *)
theory Settings_Service
  imports Settings_Store
begin

text \<open>
  The settings of the running firmware (\<open>services/settings_service.c\<close>, \<open>camera_settings_state.c\<close>), their coding into the
  payload of the store (\<open>settings_payload_codec.c\<close>) and when they are loaded and saved (\<open>settings_persistence.c\<close>), on the
  store of \<open>Settings_Store\<close>. The build enables the camera. Enumerations that are stored as numbers stay numbers; what the
  setters do to the lights and the sensor is left out.
\<close>

section \<open>Constants\<close>

definition SETTINGS_SAVE_DELAY_TICKS :: u8 where "SETTINGS_SAVE_DELAY_TICKS = 25"
definition SETTINGS_RGB_MARK :: u8 where "SETTINGS_RGB_MARK = 0xC3"
definition SETTINGS_FPS_MARK_LOW :: u8 where "SETTINGS_FPS_MARK_LOW = 0xF5 AND 0x0F"
definition SETTINGS_CAMERA_MARK_V1 :: u8 where "SETTINGS_CAMERA_MARK_V1 = 0xA5"
definition SETTINGS_CAMERA_MARK :: u8 where "SETTINGS_CAMERA_MARK = 0xA6"
definition SETTINGS_PAYLOAD_AUTO_SLEEP_MASK :: u8 where "SETTINGS_PAYLOAD_AUTO_SLEEP_MASK = 0x1F"
definition SETTINGS_FEATURE_FLAGS_MASK :: u8 where "SETTINGS_FEATURE_FLAGS_MASK = 0x07"
definition SETTINGS_EXTERNAL_LINK_I2C_FLAG :: u8 where "SETTINGS_EXTERNAL_LINK_I2C_FLAG = 0x02"
definition SETTINGS_UART_SPEED_MASK :: u8 where "SETTINGS_UART_SPEED_MASK = 0x06"
definition SETTINGS_UART_SPEED_MARK :: u8 where "SETTINGS_UART_SPEED_MARK = 0x08"
definition SETTINGS_QR_DECODE_RATE_DEFAULT :: u8 where "SETTINGS_QR_DECODE_RATE_DEFAULT = 5"
definition SETTINGS_QR_DECODE_RATE_MIN :: u8 where "SETTINGS_QR_DECODE_RATE_MIN = 1"
definition SETTINGS_QR_DECODE_RATE_MAX :: u8 where "SETTINGS_QR_DECODE_RATE_MAX = 5"

lemmas settings_consts = SETTINGS_RGB_MARK_def SETTINGS_FPS_MARK_LOW_def SETTINGS_CAMERA_MARK_V1_def SETTINGS_CAMERA_MARK_def
  SETTINGS_PAYLOAD_AUTO_SLEEP_MASK_def SETTINGS_FEATURE_FLAGS_MASK_def SETTINGS_EXTERNAL_LINK_I2C_FLAG_def SETTINGS_UART_SPEED_MASK_def
  SETTINGS_UART_SPEED_MARK_def SETTINGS_QR_DECODE_RATE_DEFAULT_def SETTINGS_QR_DECODE_RATE_MIN_def SETTINGS_QR_DECODE_RATE_MAX_def

definition PHOTO_FORMAT_RAW565 :: u8 where "PHOTO_FORMAT_RAW565 = 1"
definition PHOTO_FORMAT_COUNT :: u8 where "PHOTO_FORMAT_COUNT = 4"
definition CAMERA_SIZE_160X120 :: u8 where "CAMERA_SIZE_160X120 = 0"
definition CAMERA_SIZE_320X240 :: u8 where "CAMERA_SIZE_320X240 = 1"
definition CAMERA_SIZE_640X480 :: u8 where "CAMERA_SIZE_640X480 = 2"
definition CAMERA_SIZE_COUNT :: u8 where "CAMERA_SIZE_COUNT = 3"
definition CAMERA_LIGHT_LED :: u8 where "CAMERA_LIGHT_LED = 0"
definition CAMERA_LIGHT_RGB :: u8 where "CAMERA_LIGHT_RGB = 1"
definition EXTERNAL_LINK_UART_SPEED_9600 :: u8 where "EXTERNAL_LINK_UART_SPEED_9600 = 0"
definition EXTERNAL_LINK_UART_SPEED_115200 :: u8 where "EXTERNAL_LINK_UART_SPEED_115200 = 1"
definition EXTERNAL_LINK_UART_SPEED_1000000 :: u8 where "EXTERNAL_LINK_UART_SPEED_1000000 = 2"
definition EXTERNAL_LINK_UART_SPEED_COUNT :: u8 where "EXTERNAL_LINK_UART_SPEED_COUNT = 3"
definition HK_AUTOSTART_OFF :: u8 where "HK_AUTOSTART_OFF = 0"
definition HK_AUTOSTART_COUNT :: u8 where "HK_AUTOSTART_COUNT = 11"

lemmas settings_enums = PHOTO_FORMAT_RAW565_def PHOTO_FORMAT_COUNT_def CAMERA_SIZE_160X120_def CAMERA_SIZE_320X240_def CAMERA_SIZE_640X480_def
  CAMERA_SIZE_COUNT_def CAMERA_LIGHT_LED_def CAMERA_LIGHT_RGB_def EXTERNAL_LINK_UART_SPEED_9600_def EXTERNAL_LINK_UART_SPEED_115200_def
  EXTERNAL_LINK_UART_SPEED_1000000_def EXTERNAL_LINK_UART_SPEED_COUNT_def HK_AUTOSTART_OFF_def HK_AUTOSTART_COUNT_def

definition camera_size_is_safe :: "u8 \<Rightarrow> bool" where
  "camera_size_is_safe sz \<longleftrightarrow> sz \<in> set [CAMERA_SIZE_160X120, CAMERA_SIZE_320X240, CAMERA_SIZE_640X480]"

definition camera_size_next :: "u8 \<Rightarrow> u8" where
  "camera_size_next current = (
     if current = CAMERA_SIZE_160X120 then CAMERA_SIZE_320X240
     else if current = CAMERA_SIZE_320X240 then CAMERA_SIZE_640X480
     else CAMERA_SIZE_160X120)"

section \<open>Snapshots\<close>

record camera_persist_settings =
  cp_review_after_shot :: u8
  cp_fps_enabled :: u8
  cp_light_mode :: u8
  cp_rgb_red :: u8
  cp_rgb_green :: u8
  cp_rgb_blue :: u8
  cp_photo_format :: u8
  cp_size :: u8

record settings_snapshot =
  sn_led_enabled :: u8
  sn_led_brightness :: u8
  sn_rgb_enabled :: u8
  sn_rgb_red :: u8
  sn_rgb_green :: u8
  sn_rgb_blue :: u8
  sn_screen_brightness :: u8
  sn_auto_sleep_minutes :: u8
  sn_feature_flags :: u8
  sn_external_link_uart_speed :: u8
  sn_autostart_id :: u8
  sn_app_data :: "u8 list"
  sn_camera :: camera_persist_settings
  sn_qr_decode_rate :: u8

definition flag :: "u8 \<Rightarrow> u8" where
  "flag b = (if b \<noteq> 0 then 1 else 0)"

definition tens :: "u8 \<Rightarrow> u8" where
  "tens v = push_bit 4 (clamp_u8 v 0 100 div 10)"

definition settings_payload_encode :: "settings_snapshot option \<Rightarrow> settings_payload" where
  "settings_payload_encode snapshot = (case snapshot of None \<Rightarrow> payload_zero | Some s \<Rightarrow>
     let c = sn_camera s in
     \<lparr>led_enabled = flag (sn_led_enabled s),
      led_brightness = clamp_u8 (sn_led_brightness s) 0 100,
      rgb_enabled = flag (sn_rgb_enabled s),
      rgb_brightness = clamp_u8 (ucast ((ucast (sn_rgb_red s) + ucast (sn_rgb_green s) + ucast (sn_rgb_blue s) :: u16) div 3)) 0 100,
      screen_brightness = clamp_u8 (sn_screen_brightness s) 10 100,
      camera_review_after_shot = flag (cp_review_after_shot c),
      auto_sleep_minutes = clamp_u8 (sn_auto_sleep_minutes s) 1 30 OR push_bit 5 (sn_feature_flags s AND SETTINGS_FEATURE_FLAGS_MASK),
      camera_format_rgb_red = (if cp_photo_format c < PHOTO_FORMAT_COUNT then cp_photo_format c else PHOTO_FORMAT_RAW565) OR tens (cp_rgb_red c),
      camera_size_rgb_green = (if camera_size_is_safe (cp_size c) then cp_size c else CAMERA_SIZE_320X240) OR tens (cp_rgb_green c),
      camera_schema_mark = SETTINGS_CAMERA_MARK,
      rgb_red_light_mode = clamp_u8 (sn_rgb_red s) 0 100 OR (if cp_light_mode c = CAMERA_LIGHT_RGB then 0x80 else 0),
      rgb_green = clamp_u8 (sn_rgb_green s) 0 100,
      rgb_blue = clamp_u8 (sn_rgb_blue s) 0 100,
      rgb_schema_mark = SETTINGS_RGB_MARK,
      fps_rgb_blue = (SETTINGS_UART_SPEED_MARK OR (push_bit 1 (sn_external_link_uart_speed s) AND SETTINGS_UART_SPEED_MASK)) OR
        (flag (cp_fps_enabled c) OR tens (cp_rgb_blue c)),
      qr_rate_fps_mark = push_bit 4 (clamp_u8 (sn_qr_decode_rate s) SETTINGS_QR_DECODE_RATE_MIN SETTINGS_QR_DECODE_RATE_MAX) OR SETTINGS_FPS_MARK_LOW,
      app_data = sn_app_data s,
      autostart_id = (if sn_autostart_id s < HK_AUTOSTART_COUNT then sn_autostart_id s else HK_AUTOSTART_OFF)\<rparr>)"

definition untens :: "u8 \<Rightarrow> u8" where
  "untens b = clamp_u8 ((drop_bit 4 b AND 0x0F) * 10) 0 100"

definition decode_camera :: "settings_payload \<Rightarrow> camera_persist_settings" where
  "decode_camera p = (
     let format = camera_format_rgb_red p AND 0x0F;
         sz = camera_size_rgb_green p AND 0x0F;
         size' = (if sz < CAMERA_SIZE_COUNT then sz else CAMERA_SIZE_320X240);
         known = camera_schema_mark p = SETTINGS_CAMERA_MARK \<or> camera_schema_mark p = SETTINGS_CAMERA_MARK_V1;
         rgb = camera_schema_mark p = SETTINGS_CAMERA_MARK
     in \<lparr>cp_review_after_shot = flag (camera_review_after_shot p),
         cp_fps_enabled = (if qr_rate_fps_mark p AND 0x0F = SETTINGS_FPS_MARK_LOW then flag (fps_rgb_blue p AND 0x01) else 1),
         cp_light_mode = (if rgb \<and> rgb_red_light_mode p AND 0x80 \<noteq> 0 then CAMERA_LIGHT_RGB else CAMERA_LIGHT_LED),
         cp_rgb_red = (if rgb then untens (camera_format_rgb_red p) else 100),
         cp_rgb_green = (if rgb then untens (camera_size_rgb_green p) else 100),
         cp_rgb_blue = (if rgb then untens (fps_rgb_blue p) else 100),
         cp_photo_format = (if known \<and> format < PHOTO_FORMAT_COUNT then format else PHOTO_FORMAT_RAW565),
         cp_size = (if known \<and> camera_size_is_safe size' then size' else CAMERA_SIZE_320X240)\<rparr>)"

definition settings_payload_decode :: "settings_payload \<Rightarrow> settings_snapshot" where
  "settings_payload_decode p = (
     let rgb_mark = rgb_schema_mark p = SETTINGS_RGB_MARK;
         brightness = clamp_u8 (rgb_brightness p) 0 100;
         minutes = auto_sleep_minutes p AND SETTINGS_PAYLOAD_AUTO_SLEEP_MASK;
         speed = drop_bit 1 (fps_rgb_blue p AND SETTINGS_UART_SPEED_MASK);
         rate = drop_bit 4 (qr_rate_fps_mark p)
     in \<lparr>sn_led_enabled = flag (led_enabled p),
         sn_led_brightness = clamp_u8 (led_brightness p) 0 100,
         sn_rgb_enabled = flag (rgb_enabled p),
         sn_rgb_red = (if rgb_mark then clamp_u8 (rgb_red_light_mode p AND 0x7F) 0 100 else brightness),
         sn_rgb_green = (if rgb_mark then clamp_u8 (rgb_green p) 0 100 else brightness),
         sn_rgb_blue = (if rgb_mark then clamp_u8 (rgb_blue p) 0 100 else brightness),
         sn_screen_brightness = clamp_u8 (screen_brightness p) 10 100,
         sn_auto_sleep_minutes = (if 1 \<le> minutes \<and> minutes \<le> 30 then minutes else 1),
         sn_feature_flags = drop_bit 5 (auto_sleep_minutes p) AND SETTINGS_FEATURE_FLAGS_MASK,
         sn_external_link_uart_speed = (if fps_rgb_blue p AND SETTINGS_UART_SPEED_MARK \<noteq> 0 \<and> speed < EXTERNAL_LINK_UART_SPEED_COUNT then speed
           else EXTERNAL_LINK_UART_SPEED_115200),
         sn_autostart_id = (if autostart_id p < HK_AUTOSTART_COUNT then autostart_id p else HK_AUTOSTART_OFF),
         sn_app_data = app_data p,
         sn_camera = decode_camera p,
         sn_qr_decode_rate = (if qr_rate_fps_mark p AND 0x0F = SETTINGS_FPS_MARK_LOW \<and> SETTINGS_QR_DECODE_RATE_MIN \<le> rate \<and>
             rate \<le> SETTINGS_QR_DECODE_RATE_MAX then rate else SETTINGS_QR_DECODE_RATE_DEFAULT)\<rparr>)"

section \<open>State\<close>

record settings_state =
  g_led_enabled :: u8
  g_led_brightness :: u8
  g_rgb_enabled :: u8
  g_rgb_red :: u8
  g_rgb_green :: u8
  g_rgb_blue :: u8
  g_screen_brightness :: u8
  g_auto_sleep_minutes :: u8
  g_feature_flags :: u8
  g_external_link_uart_speed :: u8
  g_qr_decode_rate :: u8
  g_autostart_id :: u8
  g_app_data :: "u8 list"
  g_camera_review_after_shot :: u8
  g_camera_fps_enabled :: u8
  g_camera_light_mode :: u8
  g_camera_rgb_red :: u8
  g_camera_rgb_green :: u8
  g_camera_rgb_blue :: u8
  g_camera_photo_format :: u8
  g_camera_size :: u8
  g_camera_size_pending_reinit :: bool
  g_camera_w :: u16
  g_camera_h :: u16
  g_settings_dirty :: bool
  g_settings_save_ticks :: u8

definition settings_app_data_write :: "u8 list option \<Rightarrow> settings_state \<Rightarrow> settings_state" where
  "settings_app_data_write data s = (case data of None \<Rightarrow> s | Some d \<Rightarrow> s\<lparr>g_app_data := take SETTINGS_APP_DATA_SIZE d\<rparr>)"

definition settings_set_led_enabled :: "u8 \<Rightarrow> settings_state \<Rightarrow> settings_state" where
  "settings_set_led_enabled onoff s = s\<lparr>g_led_enabled := flag onoff\<rparr>"
definition settings_set_led_brightness :: "u8 \<Rightarrow> settings_state \<Rightarrow> settings_state" where
  "settings_set_led_brightness brightness s = s\<lparr>g_led_brightness := clamp_u8 brightness 0 100\<rparr>"
definition settings_set_rgb_enabled :: "u8 \<Rightarrow> settings_state \<Rightarrow> settings_state" where
  "settings_set_rgb_enabled onoff s = s\<lparr>g_rgb_enabled := flag onoff\<rparr>"
definition settings_set_rgb_red :: "u8 \<Rightarrow> settings_state \<Rightarrow> settings_state" where
  "settings_set_rgb_red red s = s\<lparr>g_rgb_red := clamp_u8 red 0 100\<rparr>"
definition settings_set_rgb_green :: "u8 \<Rightarrow> settings_state \<Rightarrow> settings_state" where
  "settings_set_rgb_green green s = s\<lparr>g_rgb_green := clamp_u8 green 0 100\<rparr>"
definition settings_set_rgb_blue :: "u8 \<Rightarrow> settings_state \<Rightarrow> settings_state" where
  "settings_set_rgb_blue blue s = s\<lparr>g_rgb_blue := clamp_u8 blue 0 100\<rparr>"
definition settings_set_screen_brightness :: "u8 \<Rightarrow> settings_state \<Rightarrow> settings_state" where
  "settings_set_screen_brightness brightness s = s\<lparr>g_screen_brightness := clamp_u8 brightness 10 100\<rparr>"
definition settings_set_auto_sleep_minutes :: "u8 \<Rightarrow> settings_state \<Rightarrow> settings_state" where
  "settings_set_auto_sleep_minutes minutes s = s\<lparr>g_auto_sleep_minutes := clamp_u8 minutes 1 30\<rparr>"
definition settings_set_feature_flags :: "u8 \<Rightarrow> settings_state \<Rightarrow> settings_state" where
  "settings_set_feature_flags flags s = s\<lparr>g_feature_flags := flags AND SETTINGS_FEATURE_FLAGS_MASK\<rparr>"

datatype external_link_transport = EXTERNAL_LINK_UART | EXTERNAL_LINK_I2C

definition settings_external_link_transport :: "settings_state \<Rightarrow> external_link_transport" where
  "settings_external_link_transport s = (if g_feature_flags s AND SETTINGS_EXTERNAL_LINK_I2C_FLAG \<noteq> 0 then EXTERNAL_LINK_I2C else EXTERNAL_LINK_UART)"

definition settings_set_external_link_transport :: "external_link_transport \<Rightarrow> settings_state \<Rightarrow> settings_state" where
  "settings_set_external_link_transport transport s = (
     if transport = EXTERNAL_LINK_I2C then s\<lparr>g_feature_flags := g_feature_flags s OR SETTINGS_EXTERNAL_LINK_I2C_FLAG\<rparr>
     else s\<lparr>g_feature_flags := g_feature_flags s AND NOT SETTINGS_EXTERNAL_LINK_I2C_FLAG\<rparr>)"

definition settings_external_link_uart_baud :: "settings_state \<Rightarrow> u32" where
  "settings_external_link_uart_baud s = (
     if g_external_link_uart_speed s = EXTERNAL_LINK_UART_SPEED_9600 then 9600
     else if g_external_link_uart_speed s = EXTERNAL_LINK_UART_SPEED_1000000 then 1000000 else 115200)"

definition settings_set_external_link_uart_speed :: "u8 \<Rightarrow> settings_state \<Rightarrow> settings_state" where
  "settings_set_external_link_uart_speed speed s =
     s\<lparr>g_external_link_uart_speed := (if speed < EXTERNAL_LINK_UART_SPEED_COUNT then speed else EXTERNAL_LINK_UART_SPEED_115200)\<rparr>"
definition settings_set_qr_decode_rate :: "u8 \<Rightarrow> settings_state \<Rightarrow> settings_state" where
  "settings_set_qr_decode_rate rate s = s\<lparr>g_qr_decode_rate := clamp_u8 rate SETTINGS_QR_DECODE_RATE_MIN SETTINGS_QR_DECODE_RATE_MAX\<rparr>"
definition settings_set_autostart_id :: "u8 \<Rightarrow> settings_state \<Rightarrow> settings_state" where
  "settings_set_autostart_id i s = s\<lparr>g_autostart_id := (if HK_AUTOSTART_OFF \<le> i \<and> i < HK_AUTOSTART_COUNT then i else HK_AUTOSTART_OFF)\<rparr>"

section \<open>The camera's settings\<close>

definition camera_settings_force_size :: "u8 \<Rightarrow> settings_state \<Rightarrow> settings_state" where
  "camera_settings_force_size sz s = s\<lparr>g_camera_size := (if camera_size_is_safe sz then sz else CAMERA_SIZE_320X240)\<rparr>"

definition camera_size_width :: "u8 \<Rightarrow> u16" where
  "camera_size_width sz = (if sz = CAMERA_SIZE_160X120 then 160 else if sz = CAMERA_SIZE_640X480 then 640 else 320)"

definition camera_size_height :: "u8 \<Rightarrow> u16" where
  "camera_size_height sz = (if sz = CAMERA_SIZE_160X120 then 120 else if sz = CAMERA_SIZE_640X480 then 480 else 240)"

definition camera_active_size_set :: "u8 \<Rightarrow> settings_state \<Rightarrow> settings_state" where
  "camera_active_size_set sz s = s\<lparr>g_camera_w := camera_size_width sz, g_camera_h := camera_size_height sz\<rparr>"

definition persist_apply :: "camera_persist_settings \<Rightarrow> settings_state \<Rightarrow> settings_state" where
  "persist_apply p s = (
     let s1 = s\<lparr>g_camera_review_after_shot := flag (cp_review_after_shot p), g_camera_fps_enabled := flag (cp_fps_enabled p),
           g_camera_light_mode := (if cp_light_mode p = CAMERA_LIGHT_RGB then CAMERA_LIGHT_RGB else CAMERA_LIGHT_LED),
           g_camera_rgb_red := clamp_u8 (cp_rgb_red p) 0 100, g_camera_rgb_green := clamp_u8 (cp_rgb_green p) 0 100,
           g_camera_rgb_blue := clamp_u8 (cp_rgb_blue p) 0 100,
           g_camera_photo_format := (if cp_photo_format p < PHOTO_FORMAT_COUNT then cp_photo_format p else PHOTO_FORMAT_RAW565)\<rparr>;
         s2 = camera_settings_force_size (cp_size p) s1
     in camera_active_size_set (g_camera_size s2) s2)"

definition camera_service_persist_defaults :: "settings_state \<Rightarrow> settings_state" where
  "camera_service_persist_defaults s = persist_apply
     \<lparr>cp_review_after_shot = 0, cp_fps_enabled = 1, cp_light_mode = CAMERA_LIGHT_LED, cp_rgb_red = 100, cp_rgb_green = 100, cp_rgb_blue = 100,
      cp_photo_format = PHOTO_FORMAT_RAW565, cp_size = CAMERA_SIZE_320X240\<rparr> s"

definition camera_service_persist_apply :: "camera_persist_settings option \<Rightarrow> settings_state \<Rightarrow> settings_state" where
  "camera_service_persist_apply settings s = (case settings of None \<Rightarrow> camera_service_persist_defaults s | Some p \<Rightarrow> persist_apply p s)"

definition camera_service_persist_get :: "settings_state \<Rightarrow> camera_persist_settings" where
  "camera_service_persist_get s = \<lparr>cp_review_after_shot = flag (g_camera_review_after_shot s), cp_fps_enabled = flag (g_camera_fps_enabled s),
     cp_light_mode = g_camera_light_mode s, cp_rgb_red = clamp_u8 (g_camera_rgb_red s) 0 100, cp_rgb_green = clamp_u8 (g_camera_rgb_green s) 0 100,
     cp_rgb_blue = clamp_u8 (g_camera_rgb_blue s) 0 100,
     cp_photo_format = (if g_camera_photo_format s < PHOTO_FORMAT_COUNT then g_camera_photo_format s else PHOTO_FORMAT_RAW565),
     cp_size = (if camera_size_is_safe (g_camera_size s) then g_camera_size s else CAMERA_SIZE_320X240)\<rparr>"

definition settings_mark_dirty :: "bool \<Rightarrow> settings_state \<Rightarrow> settings_state" where
  "settings_mark_dirty immediate s = s\<lparr>g_settings_dirty := True, g_settings_save_ticks := (if immediate then 1 else SETTINGS_SAVE_DELAY_TICKS)\<rparr>"

definition camera_service_toggle_review_after_shot :: "settings_state \<Rightarrow> settings_state" where
  "camera_service_toggle_review_after_shot s =
     settings_mark_dirty True (s\<lparr>g_camera_review_after_shot := (if g_camera_review_after_shot s \<noteq> 0 then 0 else 1)\<rparr>)"

definition camera_service_set_fps_enabled :: "u8 \<Rightarrow> settings_state \<Rightarrow> settings_state" where
  "camera_service_set_fps_enabled onoff s = settings_mark_dirty True (s\<lparr>g_camera_fps_enabled := flag onoff\<rparr>)"

definition camera_service_toggle_fps :: "settings_state \<Rightarrow> settings_state" where
  "camera_service_toggle_fps s = settings_mark_dirty True (s\<lparr>g_camera_fps_enabled := (if g_camera_fps_enabled s \<noteq> 0 then 0 else 1)\<rparr>)"

definition camera_service_toggle_light_mode :: "settings_state \<Rightarrow> settings_state" where
  "camera_service_toggle_light_mode s =
     settings_mark_dirty True (s\<lparr>g_camera_light_mode := (if g_camera_light_mode s = CAMERA_LIGHT_RGB then CAMERA_LIGHT_LED else CAMERA_LIGHT_RGB)\<rparr>)"

datatype camera_rgb_channel = CAMERA_RGB_RED | CAMERA_RGB_GREEN | CAMERA_RGB_BLUE

definition next_ten :: "u8 \<Rightarrow> u8" where
  "next_ten v = (if 100 \<le> v then 0 else v + 10)"

definition camera_service_cycle_rgb_channel :: "camera_rgb_channel \<Rightarrow> settings_state \<Rightarrow> settings_state" where
  "camera_service_cycle_rgb_channel channel s = settings_mark_dirty True (case channel of
     CAMERA_RGB_RED \<Rightarrow> s\<lparr>g_camera_rgb_red := next_ten (g_camera_rgb_red s)\<rparr>
   | CAMERA_RGB_GREEN \<Rightarrow> s\<lparr>g_camera_rgb_green := next_ten (g_camera_rgb_green s)\<rparr>
   | CAMERA_RGB_BLUE \<Rightarrow> s\<lparr>g_camera_rgb_blue := next_ten (g_camera_rgb_blue s)\<rparr>)"

definition camera_service_cycle_photo_format :: "settings_state \<Rightarrow> settings_state" where
  "camera_service_cycle_photo_format s = settings_mark_dirty True (s\<lparr>g_camera_photo_format := (g_camera_photo_format s + 1) mod PHOTO_FORMAT_COUNT\<rparr>)"

definition camera_service_cycle_size :: "settings_state \<Rightarrow> settings_state" where
  "camera_service_cycle_size s = settings_mark_dirty True (s\<lparr>g_camera_size := camera_size_next (g_camera_size s), g_camera_size_pending_reinit := True\<rparr>)"

definition camera_settings_consume_size_pending :: "settings_state \<Rightarrow> bool \<times> settings_state" where
  "camera_settings_consume_size_pending s = (g_camera_size_pending_reinit s, s\<lparr>g_camera_size_pending_reinit := False\<rparr>)"

section \<open>Defaults, capture and apply\<close>

definition settings_defaults :: "settings_state \<Rightarrow> settings_state" where
  "settings_defaults s = camera_service_persist_defaults
     (s\<lparr>g_led_enabled := 0, g_led_brightness := 20, g_rgb_enabled := 0, g_rgb_red := 20, g_rgb_green := 20, g_rgb_blue := 20,
        g_screen_brightness := 90, g_auto_sleep_minutes := 1, g_feature_flags := 0,
        g_external_link_uart_speed := EXTERNAL_LINK_UART_SPEED_115200, g_qr_decode_rate := SETTINGS_QR_DECODE_RATE_DEFAULT,
        g_autostart_id := HK_AUTOSTART_OFF, g_app_data := replicate SETTINGS_APP_DATA_SIZE 0\<rparr>)"

definition settings_snapshot_capture :: "settings_state \<Rightarrow> settings_snapshot" where
  "settings_snapshot_capture s =
     \<lparr>sn_led_enabled = flag (g_led_enabled s), sn_led_brightness = clamp_u8 (g_led_brightness s) 0 100, sn_rgb_enabled = flag (g_rgb_enabled s),
      sn_rgb_red = clamp_u8 (g_rgb_red s) 0 100, sn_rgb_green = clamp_u8 (g_rgb_green s) 0 100, sn_rgb_blue = clamp_u8 (g_rgb_blue s) 0 100,
      sn_screen_brightness = clamp_u8 (g_screen_brightness s) 10 100, sn_auto_sleep_minutes = clamp_u8 (g_auto_sleep_minutes s) 1 30,
      sn_feature_flags = g_feature_flags s AND SETTINGS_FEATURE_FLAGS_MASK, sn_external_link_uart_speed = g_external_link_uart_speed s,
      sn_autostart_id = g_autostart_id s, sn_app_data = g_app_data s, sn_camera = camera_service_persist_get s,
      sn_qr_decode_rate = g_qr_decode_rate s\<rparr>"

definition settings_snapshot_apply :: "settings_snapshot \<Rightarrow> settings_state \<Rightarrow> settings_state" where
  "settings_snapshot_apply sn s = fold (\<lambda>f s. f s)
     [settings_set_led_enabled (sn_led_enabled sn), settings_set_led_brightness (sn_led_brightness sn), settings_set_rgb_enabled (sn_rgb_enabled sn),
      settings_set_rgb_red (sn_rgb_red sn), settings_set_rgb_green (sn_rgb_green sn), settings_set_rgb_blue (sn_rgb_blue sn),
      settings_set_screen_brightness (sn_screen_brightness sn), settings_set_auto_sleep_minutes (sn_auto_sleep_minutes sn),
      settings_set_feature_flags (sn_feature_flags sn), settings_set_external_link_uart_speed (sn_external_link_uart_speed sn),
      settings_set_autostart_id (sn_autostart_id sn), (\<lambda>s. s\<lparr>g_app_data := sn_app_data sn\<rparr>),
      camera_service_persist_apply (Some (sn_camera sn)), settings_set_qr_decode_rate (sn_qr_decode_rate sn)] s"

section \<open>Loading and saving\<close>

definition settings_storage_init :: "'s flash_ops \<Rightarrow> settings_state \<times> settings_store \<times> 's \<Rightarrow> settings_state \<times> settings_store \<times> 's" where
  "settings_storage_init ops a = (case a of (s, st, w) \<Rightarrow>
     (case settings_store_init ops True st w of (loaded, st', w') \<Rightarrow>
       (case loaded of
          Some l \<Rightarrow> if has_payload l then (settings_snapshot_apply (settings_payload_decode (load_payload l)) (settings_defaults s), st', w')
            else (settings_defaults s, st', w')
        | None \<Rightarrow> (settings_defaults s, st', w'))))"

definition settings_storage_save_now :: "'s flash_ops \<Rightarrow> settings_state \<times> settings_store \<times> 's \<Rightarrow> settings_state \<times> settings_store \<times> 's" where
  "settings_storage_save_now ops a = (case a of (s, st, w) \<Rightarrow>
     if \<not> settings_store_enabled st then (s\<lparr>g_settings_dirty := False, g_settings_save_ticks := 0\<rparr>, st, w)
     else (case settings_store_save ops (Some (settings_payload_encode (Some (settings_snapshot_capture s)))) st w of
         (True, st', w') \<Rightarrow> (s\<lparr>g_settings_dirty := False, g_settings_save_ticks := 0\<rparr>, st', w')
       | (False, st', w') \<Rightarrow> (s, st', w')))"

definition settings_storage_tick :: "'s flash_ops \<Rightarrow> settings_state \<times> settings_store \<times> 's \<Rightarrow> settings_state \<times> settings_store \<times> 's" where
  "settings_storage_tick ops a = (case a of (s, st, w) \<Rightarrow>
     if \<not> g_settings_dirty s then a
     else if 0 < g_settings_save_ticks s then (s\<lparr>g_settings_save_ticks := g_settings_save_ticks s - 1\<rparr>, st, w)
     else settings_storage_save_now ops a)"

section \<open>Packing\<close>

lemma clamp_range: "lo \<le> hi \<Longrightarrow> lo \<le> clamp_u8 v lo hi \<and> clamp_u8 v lo hi \<le> hi"
  by (auto simp: clamp_u8_def)

lemma clamp_id [simp]: "lo \<le> v \<Longrightarrow> v \<le> hi \<Longrightarrow> clamp_u8 v lo hi = v"
  by (auto simp: clamp_u8_def)

lemma clamp_0_100: "clamp_u8 v 0 100 \<le> 100"
  using clamp_range [of 0 100 v] by simp

lemma flag_flag [simp]: "flag (flag b) = flag b" "flag 0 = 0" "flag 1 = 1"
  by (simp_all add: flag_def)

lemma flag_range: "flag b = 0 \<or> flag b = 1"
  by (simp add: flag_def)

lemma pack_low: "take_bit n (a :: u8) = a \<Longrightarrow> take_bit n (a OR push_bit n b) = a"
  by (simp add: take_bit_or take_bit_push_bit)

lemma pack_high: "take_bit n (a :: u8) = a \<Longrightarrow> drop_bit n (a OR push_bit n b) = drop_bit n (push_bit n b)"
proof -
  assume "take_bit n a = a"
  then have "drop_bit n a = drop_bit n (take_bit n a)" by simp
  then have "drop_bit n a = 0" by (simp add: drop_bit_take_bit)
  then show ?thesis by (simp add: drop_bit_or)
qed

lemma low_bits: "x AND 0x0F = take_bit 4 x" "x AND 0x1F = take_bit 5 x" "x AND 0x7F = take_bit 7 x" for x :: u8
  by (simp_all add: take_bit_eq_mask mask_eq_exp_minus_1)

lemma drop_push:
  assumes "unat (t :: u8) * 2 ^ n < 256"
  shows "drop_bit n (push_bit n t) = t"
proof -
  have "unat (push_bit n t) = take_bit 8 (unat t * 2 ^ n)"
    using unsigned_push_bit_eq [of n t, where ?'a = nat] by (simp add: push_bit_eq_mult [of n "unat t"])
  then have "unat (push_bit n t) = unat t * 2 ^ n" using assms by (simp only: take_bit_nat_eq_self_iff) simp
  moreover have "take_bit 8 (unat t * 2 ^ n) = unat t * 2 ^ n" using assms by (simp add: take_bit_nat_eq_self_iff)
  ultimately have "unat (drop_bit n (push_bit n t)) = unat t"
    unfolding unsigned_drop_bit_eq by (simp add: drop_bit_eq_div)
  then show ?thesis by (simp only: word_unat_eq_iff)
qed

lemma fits: "unat a < 2 ^ n \<Longrightarrow> take_bit n a = (a :: u8)"
  by (rule take_bit_of_lt)

lemma tens_packed:
  assumes "unat a < 16"
  shows "(a OR tens v) AND 0x0F = a" and "untens (a OR tens v) = clamp_u8 v 0 100 div 10 * 10"
proof -
  have c: "unat (clamp_u8 v 0 100) \<le> 100" using clamp_0_100 [of v] by (simp add: word_le_nat_alt)
  let ?t = "clamp_u8 v 0 100 div 10"
  have t: "unat ?t \<le> 10" using c by (simp add: unat_div)
  have a: "take_bit 4 a = a" using assms by (intro fits) (simp del: unat_numeral)
  show "(a OR tens v) AND 0x0F = a" unfolding low_bits tens_def by (rule pack_low [OF a])
  have "drop_bit 4 (a OR tens v) = ?t" unfolding tens_def pack_high [OF a] by (rule drop_push) (use t in simp)
  moreover have "take_bit 4 ?t = ?t" using t by (intro fits) simp
  moreover have "?t * 10 \<le> 100" using t by (simp add: word_le_nat_alt unat_word_ariths)
  ultimately show "untens (a OR tens v) = ?t * 10" unfolding untens_def low_bits by simp
qed

lemma minutes_packed:
  assumes "unat m \<le> 30"
  shows "(m OR push_bit 5 (f AND 7)) AND 0x1F = m" and "drop_bit 5 (m OR push_bit 5 (f AND 7)) AND 7 = f AND (7 :: u8)"
proof -
  have m: "take_bit 5 m = m" using assms by (intro fits) (simp del: unat_numeral)
  show "(m OR push_bit 5 (f AND 7)) AND 0x1F = m" unfolding low_bits by (rule pack_low [OF m])
  have "unat (f AND 7) \<le> 7" using word_and_le1 [of f 7] by (simp add: word_le_nat_alt)
  then have "drop_bit 5 (m OR push_bit 5 (f AND 7)) = f AND 7" unfolding pack_high [OF m] by (intro drop_push) simp
  then show "drop_bit 5 (m OR push_bit 5 (f AND 7)) AND 7 = f AND 7" by (simp add: and.assoc)
qed

lemma red_packed:
  assumes "unat (r :: u8) \<le> 100"
  shows "(r OR (if c then 0x80 else 0)) AND 0x7F = r" and "((r OR (if c then 0x80 else 0)) AND 0x80 \<noteq> 0) = c"
proof -
  have r: "take_bit 7 r = r" using assms by (intro fits) (simp del: unat_numeral)
  have p: "(if c then 0x80 else 0 :: u8) = push_bit 7 (if c then 1 else 0)" by (simp add: push_bit_eq_mult)
  show "(r OR (if c then 0x80 else 0)) AND 0x7F = r" unfolding low_bits p by (rule pack_low [OF r])
  have "r AND 0x80 = 0"
  proof -
    have "r AND 0x80 = take_bit 7 r AND 0x80" using r by simp
    also have "\<dots> = 0" by (simp add: take_bit_eq_mask mask_eq_exp_minus_1 and.assoc)
    finally show ?thesis .
  qed
  then show "((r OR (if c then 0x80 else 0)) AND 0x80 \<noteq> 0) = c" by (simp add: bit.conj_disj_distrib2)
qed

lemma and_low: "m AND 0x0F = m \<Longrightarrow> x AND m = take_bit 4 x AND (m :: u8)"
  unfolding low_bits [symmetric] by (metis and.assoc and.commute)

lemma fps_packed:
  fixes b :: u8
  assumes "sp < 3" and "fl = 0 \<or> fl = 1"
  defines "x \<equiv> (0x08 OR (push_bit 1 sp AND 0x06)) OR (fl OR tens b)"
  shows "(x AND 0x08 \<noteq> 0) = True" and "drop_bit 1 (x AND 0x06) = sp" and "x AND 0x01 = fl" and "untens x = clamp_u8 b 0 100 div 10 * 10"
proof -
  define l where "l = (0x08 OR (push_bit 1 sp AND 0x06)) OR fl"
  have "sp = 0 \<or> sp = 1 \<or> sp = 2" using assms(1) by (simp add: word_less_nat_alt word_unat_eq_iff) arith
  then have l: "unat l < 16" "l AND 0x08 \<noteq> 0" "drop_bit 1 (l AND 0x06) = sp" "l AND 0x01 = fl"
    unfolding l_def using assms(2) by (auto simp: push_bit_eq_mult drop_bit_eq_div)
  have x: "x = l OR tens b" by (simp add: x_def l_def or.assoc)
  have low: "take_bit 4 x = l" using tens_packed(1) [OF l(1), where v = b] unfolding x low_bits .
  show "(x AND 0x08 \<noteq> 0) = True" "drop_bit 1 (x AND 0x06) = sp" "x AND 0x01 = fl"
    using l and_low [where m = "0x08" and x = x] and_low [where m = "0x06" and x = x] and_low [where m = "0x01" and x = x] unfolding low by simp_all
  show "untens x = clamp_u8 b 0 100 div 10 * 10" unfolding x by (rule tens_packed(2) [OF l(1)])
qed

lemma rate_packed:
  assumes "1 \<le> r" and "r \<le> 5"
  shows "(push_bit 4 r OR 0x05) AND 0x0F = 0x05" and "drop_bit 4 (push_bit 4 r OR 0x05) = (r :: u8)"
proof -
  have five: "take_bit 4 5 = (5 :: u8)" by simp
  show "(push_bit 4 r OR 0x05) AND 0x0F = 0x05" unfolding low_bits using pack_low [OF five, of r] by (simp add: or.commute)
  have "unat r \<le> 5" using assms(2) by (simp add: word_le_nat_alt)
  then have "drop_bit 4 (push_bit 4 r) = r" by (intro drop_push) simp
  then show "drop_bit 4 (push_bit 4 r OR 0x05) = r" using pack_high [OF five, of r] by (simp add: or.commute)
qed

section \<open>The settings in range\<close>

definition camera_ok :: "camera_persist_settings \<Rightarrow> bool" where
  "camera_ok c \<longleftrightarrow> cp_review_after_shot c \<le> 1 \<and> cp_fps_enabled c \<le> 1 \<and> cp_light_mode c \<le> 1 \<and>
     cp_rgb_red c \<le> 100 \<and> cp_rgb_red c mod 10 = 0 \<and> cp_rgb_green c \<le> 100 \<and> cp_rgb_green c mod 10 = 0 \<and>
     cp_rgb_blue c \<le> 100 \<and> cp_rgb_blue c mod 10 = 0 \<and> cp_photo_format c < PHOTO_FORMAT_COUNT \<and> camera_size_is_safe (cp_size c)"

definition snapshot_ok :: "settings_snapshot \<Rightarrow> bool" where
  "snapshot_ok n \<longleftrightarrow> sn_led_enabled n \<le> 1 \<and> sn_led_brightness n \<le> 100 \<and> sn_rgb_enabled n \<le> 1 \<and> sn_rgb_red n \<le> 100 \<and>
     sn_rgb_green n \<le> 100 \<and> sn_rgb_blue n \<le> 100 \<and> 10 \<le> sn_screen_brightness n \<and> sn_screen_brightness n \<le> 100 \<and>
     1 \<le> sn_auto_sleep_minutes n \<and> sn_auto_sleep_minutes n \<le> 30 \<and> sn_feature_flags n AND SETTINGS_FEATURE_FLAGS_MASK = sn_feature_flags n \<and>
     sn_external_link_uart_speed n < EXTERNAL_LINK_UART_SPEED_COUNT \<and> sn_autostart_id n < HK_AUTOSTART_COUNT \<and>
     length (sn_app_data n) = SETTINGS_APP_DATA_SIZE \<and> camera_ok (sn_camera n) \<and>
     SETTINGS_QR_DECODE_RATE_MIN \<le> sn_qr_decode_rate n \<and> sn_qr_decode_rate n \<le> SETTINGS_QR_DECODE_RATE_MAX"

text \<open>The variables of the services as they are, without the clamping of the capture.\<close>

definition settings_now :: "settings_state \<Rightarrow> settings_snapshot" where
  "settings_now s = \<lparr>sn_led_enabled = g_led_enabled s, sn_led_brightness = g_led_brightness s, sn_rgb_enabled = g_rgb_enabled s,
     sn_rgb_red = g_rgb_red s, sn_rgb_green = g_rgb_green s, sn_rgb_blue = g_rgb_blue s, sn_screen_brightness = g_screen_brightness s,
     sn_auto_sleep_minutes = g_auto_sleep_minutes s, sn_feature_flags = g_feature_flags s, sn_external_link_uart_speed = g_external_link_uart_speed s,
     sn_autostart_id = g_autostart_id s, sn_app_data = g_app_data s,
     sn_camera = \<lparr>cp_review_after_shot = g_camera_review_after_shot s, cp_fps_enabled = g_camera_fps_enabled s,
       cp_light_mode = g_camera_light_mode s, cp_rgb_red = g_camera_rgb_red s, cp_rgb_green = g_camera_rgb_green s,
       cp_rgb_blue = g_camera_rgb_blue s, cp_photo_format = g_camera_photo_format s, cp_size = g_camera_size s\<rparr>,
     sn_qr_decode_rate = g_qr_decode_rate s\<rparr>"

definition settings_ok :: "settings_state \<Rightarrow> bool" where
  "settings_ok s \<longleftrightarrow> snapshot_ok (settings_now s)"

text \<open>What the user interface and the applications do to the settings.\<close>

inductive settings_step :: "settings_state \<Rightarrow> settings_state \<Rightarrow> bool" where
  step_led: "settings_step s (settings_set_led_enabled v s)"
| step_led_level: "settings_step s (settings_set_led_brightness v s)"
| step_rgb: "settings_step s (settings_set_rgb_enabled v s)"
| step_red: "settings_step s (settings_set_rgb_red v s)"
| step_green: "settings_step s (settings_set_rgb_green v s)"
| step_blue: "settings_step s (settings_set_rgb_blue v s)"
| step_screen: "settings_step s (settings_set_screen_brightness v s)"
| step_sleep: "settings_step s (settings_set_auto_sleep_minutes v s)"
| step_flags: "settings_step s (settings_set_feature_flags v s)"
| step_transport: "settings_step s (settings_set_external_link_transport t s)"
| step_speed: "settings_step s (settings_set_external_link_uart_speed v s)"
| step_rate: "settings_step s (settings_set_qr_decode_rate v s)"
| step_autostart: "settings_step s (settings_set_autostart_id v s)"
| step_app_data: "length d = SETTINGS_APP_DATA_SIZE \<Longrightarrow> settings_step s (settings_app_data_write (Some d) s)"
| step_review: "settings_step s (camera_service_toggle_review_after_shot s)"
| step_fps: "settings_step s (camera_service_set_fps_enabled v s)"
| step_fps_toggle: "settings_step s (camera_service_toggle_fps s)"
| step_light: "settings_step s (camera_service_toggle_light_mode s)"
| step_channel: "settings_step s (camera_service_cycle_rgb_channel c s)"
| step_format: "settings_step s (camera_service_cycle_photo_format s)"
| step_size: "settings_step s (camera_service_cycle_size s)"
| step_force_size: "settings_step s (camera_settings_force_size z s)"
| step_active_size: "settings_step s (camera_active_size_set z s)"
| step_consume: "settings_step s (snd (camera_settings_consume_size_pending s))"
| step_dirty: "settings_step s (settings_mark_dirty i s)"
| step_defaults: "settings_step s (settings_defaults s)"

lemmas setter_defs = settings_set_led_enabled_def settings_set_led_brightness_def settings_set_rgb_enabled_def settings_set_rgb_red_def
  settings_set_rgb_green_def settings_set_rgb_blue_def settings_set_screen_brightness_def settings_set_auto_sleep_minutes_def
  settings_set_feature_flags_def settings_set_external_link_uart_speed_def settings_set_qr_decode_rate_def
  settings_set_autostart_id_def settings_app_data_write_def

lemmas toggle_defs = camera_service_toggle_review_after_shot_def camera_service_set_fps_enabled_def camera_service_toggle_fps_def
  camera_service_toggle_light_mode_def camera_service_cycle_rgb_channel_def camera_service_cycle_photo_format_def
  camera_service_cycle_size_def camera_settings_force_size_def camera_settings_consume_size_pending_def settings_mark_dirty_def
  camera_active_size_set_def

lemma flag_le [simp]: "flag b \<le> 1"
  by (simp add: flag_def)

lemma clamp_le [simp]: "clamp_u8 v 0 100 \<le> 100" "10 \<le> clamp_u8 v 10 100" "clamp_u8 v 10 100 \<le> 100"
    "1 \<le> clamp_u8 v 1 30" "clamp_u8 v 1 30 \<le> 30" "1 \<le> clamp_u8 v 1 5" "clamp_u8 v 1 5 \<le> 5"
  by (auto simp: clamp_u8_def word_le_nat_alt word_less_nat_alt Suc_le_eq unat_gt_0)

lemma next_ten_ok: "v \<le> 100 \<Longrightarrow> v mod 10 = 0 \<Longrightarrow> next_ten v \<le> 100 \<and> next_ten v mod 10 = 0"
  by (simp add: next_ten_def word_le_nat_alt word_unat_eq_iff unat_mod unat_word_ariths) presburger

lemma transport_flags: "f AND 7 = f \<Longrightarrow> (f OR 2) AND 7 = f OR (2 :: u8)" "f AND 7 = f \<Longrightarrow> (f AND NOT 2) AND 7 = f AND NOT (2 :: u8)"
proof -
  show "f AND 7 = f \<Longrightarrow> (f OR 2) AND 7 = f OR 2" by (simp add: bit.conj_disj_distrib2)
  show "f AND 7 = f \<Longrightarrow> (f AND NOT 2) AND 7 = f AND NOT 2" by (metis and.assoc and.commute)
qed

lemma flag_01: "v \<le> 1 \<Longrightarrow> flag v = v"
  by (auto simp: flag_def word_le_nat_alt word_unat_eq_iff)

lemmas range_defs = settings_ok_def snapshot_ok_def camera_ok_def settings_now_def

lemma settings_step_ok:
  assumes "settings_step s s'" and ok: "settings_ok s"
  shows "settings_ok s'"
  using assms
proof (cases rule: settings_step.cases)
  case (step_transport t)
  then show ?thesis using ok transport_flags [of "g_feature_flags s"]
    by (simp add: settings_set_external_link_transport_def range_defs settings_consts settings_enums)
next
  case (step_channel c)
  then show ?thesis using ok by (cases c) (auto simp: toggle_defs range_defs next_ten_ok)
next
  case step_format
  have "unat ((g_camera_photo_format s + 1) mod 4) < 4" by (simp add: unat_mod)
  then have "(g_camera_photo_format s + 1) mod 4 < 4" by (simp add: word_less_nat_alt)
  then show ?thesis using ok step_format by (simp add: toggle_defs range_defs settings_enums)
next
  case step_defaults
  then show ?thesis by (simp add: settings_defaults_def camera_service_persist_defaults_def persist_apply_def range_defs settings_consts settings_enums
      camera_settings_force_size_def camera_active_size_set_def camera_size_is_safe_def)
qed (use ok in \<open>simp_all add: setter_defs toggle_defs range_defs settings_consts settings_enums camera_size_next_def camera_size_is_safe_def and.assoc\<close>)

section \<open>The coding is exact\<close>

lemma untens_ok: "untens b \<le> 100 \<and> untens b mod 10 = 0"
proof -
  let ?k = "drop_bit 4 b AND 0x0F"
  have "unat ?k \<le> 15" using word_and_le1 [of "drop_bit 4 b" "0x0F"] by (simp add: word_le_nat_alt)
  then have "unat (?k * 10) = unat ?k * 10" by (simp add: unat_word_ariths)
  then show ?thesis by (auto simp: untens_def clamp_u8_def word_le_nat_alt word_less_nat_alt word_unat_eq_iff unat_mod)
qed

lemma decode_ok:
  assumes "length (app_data p) = SETTINGS_APP_DATA_SIZE"
  shows "snapshot_ok (settings_payload_decode p)"
  using assms untens_ok by (auto simp: snapshot_ok_def camera_ok_def settings_payload_decode_def decode_camera_def Let_def settings_consts
      settings_enums camera_size_is_safe_def and.assoc)

lemma capture_now: "settings_ok s \<Longrightarrow> settings_snapshot_capture s = settings_now s"
  by (auto simp: settings_snapshot_capture_def camera_service_persist_get_def range_defs settings_consts flag_01)

lemma apply_now:
  assumes "snapshot_ok n"
  shows "settings_now (settings_snapshot_apply n s) = n"
proof -
  have "cp_light_mode (sn_camera n) = 0 \<or> cp_light_mode (sn_camera n) = 1"
    using assms by (auto simp: snapshot_ok_def camera_ok_def word_le_nat_alt word_unat_eq_iff)
  then show ?thesis using assms
    by (intro settings_snapshot.equality camera_persist_settings.equality)
      (auto simp: settings_snapshot_apply_def setter_defs camera_service_persist_apply_def persist_apply_def Let_def
        camera_settings_force_size_def camera_active_size_set_def settings_now_def snapshot_ok_def camera_ok_def settings_consts settings_enums flag_01 not_le)
qed

lemma tens_exact:
  assumes "v \<le> 100" and "v mod 10 = 0"
  shows "v div 10 * 10 = (v :: u8)"
  using div_mult_mod_eq [of v 10] assms(2) by simp

lemma encode_fields:
  assumes "snapshot_ok n"
  defines "p \<equiv> settings_payload_encode (Some n)" and "c \<equiv> sn_camera n"
  shows "camera_format_rgb_red p = cp_photo_format c OR tens (cp_rgb_red c)" "camera_size_rgb_green p = cp_size c OR tens (cp_rgb_green c)"
    "auto_sleep_minutes p = sn_auto_sleep_minutes n OR push_bit 5 (sn_feature_flags n AND 7)"
    "rgb_red_light_mode p = sn_rgb_red n OR (if cp_light_mode c = 1 then 0x80 else 0)"
    "fps_rgb_blue p = (0x08 OR (push_bit 1 (sn_external_link_uart_speed n) AND 0x06)) OR (cp_fps_enabled c OR tens (cp_rgb_blue c))"
    "qr_rate_fps_mark p = push_bit 4 (sn_qr_decode_rate n) OR 0x05"
  using assms(1) by (simp_all add: p_def c_def settings_payload_encode_def Let_def snapshot_ok_def camera_ok_def settings_consts settings_enums flag_01)

lemma encode_plain_fields:
  assumes "snapshot_ok n"
  defines "p \<equiv> settings_payload_encode (Some n)"
  shows "led_enabled p = sn_led_enabled n" "led_brightness p = sn_led_brightness n" "rgb_enabled p = sn_rgb_enabled n"
    "screen_brightness p = sn_screen_brightness n" "camera_review_after_shot p = cp_review_after_shot (sn_camera n)"
    "camera_schema_mark p = 0xA6" "rgb_green p = sn_rgb_green n" "rgb_blue p = sn_rgb_blue n" "rgb_schema_mark p = 0xC3"
    "app_data p = sn_app_data n" "autostart_id p = sn_autostart_id n"
  using assms(1) by (simp_all add: p_def settings_payload_encode_def Let_def snapshot_ok_def camera_ok_def settings_consts settings_enums flag_01)

lemma decode_camera_encode:
  assumes ok: "snapshot_ok n"
  shows "decode_camera (settings_payload_encode (Some n)) = sn_camera n"
proof -
  let ?c = "sn_camera n"
  have f: "unat (cp_photo_format ?c) < 16" "unat (cp_size ?c) < 16" "cp_fps_enabled ?c = 0 \<or> cp_fps_enabled ?c = 1"
      "cp_light_mode ?c = 0 \<or> cp_light_mode ?c = 1" "sn_external_link_uart_speed n < 3" "unat (sn_rgb_red n) \<le> 100"
      "1 \<le> sn_qr_decode_rate n" "sn_qr_decode_rate n \<le> 5"
    using ok by (auto simp: snapshot_ok_def camera_ok_def settings_enums settings_consts camera_size_is_safe_def word_less_nat_alt word_le_nat_alt word_unat_eq_iff)
  note pk = tens_packed [OF f(1)] tens_packed [OF f(2)] fps_packed [OF f(5,3)] red_packed [OF f(6)] rate_packed [OF f(7,8)]
  have t: "clamp_u8 v 0 100 div 10 * 10 = v" if "v \<le> 100" "v mod 10 = 0" for v
    using that tens_exact [OF that] by simp
  then have t3: "clamp_u8 (cp_rgb_red ?c) 0 100 div 10 * 10 = cp_rgb_red ?c" "clamp_u8 (cp_rgb_green ?c) 0 100 div 10 * 10 = cp_rgb_green ?c"
      "clamp_u8 (cp_rgb_blue ?c) 0 100 div 10 * 10 = cp_rgb_blue ?c"
    using ok by (simp_all add: snapshot_ok_def camera_ok_def)
  have five: "SETTINGS_FPS_MARK_LOW = 5" by (simp add: SETTINGS_FPS_MARK_LOW_def)
  show ?thesis
    unfolding decode_camera_def Let_def encode_fields [OF ok] five pk t3
    using ok f(4) by (intro camera_persist_settings.equality)
      (auto simp: encode_plain_fields [OF ok] settings_consts settings_enums snapshot_ok_def camera_ok_def flag_01 camera_size_is_safe_def)
qed

lemma decode_encode:
  assumes ok: "snapshot_ok n"
  shows "settings_payload_decode (settings_payload_encode (Some n)) = n"
proof -
  let ?c = "sn_camera n"
  have f: "unat (sn_auto_sleep_minutes n) \<le> 30" "cp_fps_enabled ?c = 0 \<or> cp_fps_enabled ?c = 1"
      "sn_external_link_uart_speed n < 3" "unat (sn_rgb_red n) \<le> 100"
      "1 \<le> sn_qr_decode_rate n" "sn_qr_decode_rate n \<le> 5"
    using ok by (auto simp: snapshot_ok_def camera_ok_def settings_enums settings_consts word_less_nat_alt word_le_nat_alt word_unat_eq_iff)
  have fl: "sn_feature_flags n AND 7 = sn_feature_flags n" using ok by (simp add: snapshot_ok_def settings_consts)
  note pk = minutes_packed [OF f(1), of "sn_feature_flags n", unfolded fl] fps_packed [OF f(3,2)] red_packed [OF f(4)] rate_packed [OF f(5,6)]
  have five: "SETTINGS_FPS_MARK_LOW = 5" by (simp add: SETTINGS_FPS_MARK_LOW_def)
  note masks = SETTINGS_PAYLOAD_AUTO_SLEEP_MASK_def SETTINGS_UART_SPEED_MARK_def SETTINGS_UART_SPEED_MASK_def SETTINGS_FEATURE_FLAGS_MASK_def
  show ?thesis
    unfolding settings_payload_decode_def Let_def encode_fields [OF ok] decode_camera_encode [OF ok] five masks fl pk
    using ok by (intro settings_snapshot.equality)
      (auto simp: encode_plain_fields [OF ok] settings_consts settings_enums snapshot_ok_def camera_ok_def flag_01)
qed

lemma encode_length: "snapshot_ok n \<Longrightarrow> length (app_data (settings_payload_encode (Some n))) = SETTINGS_APP_DATA_SIZE"
  by (simp add: encode_plain_fields) (simp add: snapshot_ok_def)

section \<open>The settings on their flash\<close>

lemma slot_payload_length: "length b = slot_size \<Longrightarrow> length (app_data (settings_slot_payload b)) = SETTINGS_APP_DATA_SIZE"
  using length_payload_zero
  by (auto simp: settings_slot_payload_def Let_def slot_current_def slot_v3_def slot_v2_def slot_legacy_def slot_as_def payload_of_bytes_def
      copy_v1_def settings_payload_v1.defs settings_payload.defs slice_def slot_size_def SETTINGS_APP_DATA_SIZE_def)

text \<open>Whatever the chip answers, a payload that is loaded has its full length: it comes from a buffer of the slot's size.\<close>

lemma store_init_length:
  assumes "settings_store_init (internal_flash_ops hw True) want st0 w = (Some ld, st, w')" and "has_payload ld"
    and wf: "boot_wf (iw_flash w)"
  shows "length (app_data (load_payload ld)) = SETTINGS_APP_DATA_SIZE"
proof -
  obtain r1 w1 where s1: "internal_flash_init hw True 10000000 w = (r1, w1)" by (metis prod.collapse)
  obtain inf2 w2 where s2: "internal_flash_get_info w1 = (inf2, w2)" by (metis prod.collapse)
  obtain r3 b0 w3 where s3: "internal_flash_read hw True INTERNAL_FLASH_PARTITION_SETTINGS_0 0 (Ptr (replicate slot_size 0)) w2 = (r3, b0, w3)"
    by (metis prod_cases3)
  obtain r4 b1 w4 where s4: "internal_flash_read hw True INTERNAL_FLASH_PARTITION_SETTINGS_1 0 (Ptr (replicate slot_size 0)) w3 = (r4, b1, w4)"
    by (metis prod_cases3)
  have "boot_wf (iw_flash w1)" using internal_flash_init_emits [OF s1 wf] by simp
  then have wf2: "boot_wf (iw_flash w2)" using s2 by (auto simp: internal_flash_get_info_def Let_def)
  note e3 = internal_flash_read_emits [OF s3 wf2]
  then have l: "length b0 = slot_size" "length b1 = slot_size" using internal_flash_read_emits [OF s4] by simp_all
  have "load_payload ld = settings_slot_payload b0 \<or> load_payload ld = settings_slot_payload b1"
    using assms(1,2) s1 s2 s3 s4 by (auto simp: settings_store_init_def internal_flash_ops_def Let_def split: if_splits)
  then show ?thesis using slot_payload_length l by auto
qed

text \<open>
  \<open>service_run hw good s st w\<close>: the firmware has reached the settings \<open>s\<close>, the variables \<open>st\<close> of the store and the flash
  state \<open>w\<close> since its last boot, whether that could read the flash or not: the settings are changed by \<open>settings_step\<close> and
  saved by the tick or at once, and other code uses the flash. \<open>good\<close> says that the boot has read the flash and that no
  save since has wrapped the sequence number.
\<close>

inductive service_run :: "spi_hw \<Rightarrow> bool \<Rightarrow> settings_state \<Rightarrow> settings_store \<Rightarrow> internal_world \<Rightarrow> bool" for hw where
  service_boot: "settings_storage_init (internal_flash_ops hw True) (s0, st0, reboot tr) = (s, st, w) \<Longrightarrow> service_run hw (ss_ok st) s st w"
| service_step: "service_run hw good s st w \<Longrightarrow> settings_step s s' \<Longrightarrow> service_run hw good s' st w"
| service_tick: "service_run hw good s st w \<Longrightarrow> settings_storage_tick (internal_flash_ops hw True) (s, st, w) = (s', st', w') \<Longrightarrow>
    service_run hw (good \<and> (ss_sequence st = 0xFFFFFFFF \<longrightarrow> ss_sequence st' = ss_sequence st)) s' st' w'"
| service_save: "service_run hw good s st w \<Longrightarrow> settings_storage_save_now (internal_flash_ops hw True) (s, st, w) = (s', st', w') \<Longrightarrow>
    service_run hw (good \<and> (ss_sequence st = 0xFFFFFFFF \<longrightarrow> ss_sequence st' = ss_sequence st)) s' st' w'"
| service_use: "service_run hw good s st w \<Longrightarrow> flash_use hw w w' \<Longrightarrow> service_run hw good s st w'"

lemma now_mark [simp]: "settings_now (s\<lparr>g_settings_dirty := d\<rparr>) = settings_now s" "settings_now (s\<lparr>g_settings_save_ticks := t\<rparr>) = settings_now s"
  by (simp_all add: settings_now_def)

lemma ok_mark [simp]: "settings_ok (s\<lparr>g_settings_dirty := d\<rparr>) = settings_ok s" "settings_ok (s\<lparr>g_settings_save_ticks := t\<rparr>) = settings_ok s"
  by (simp_all add: settings_ok_def)

lemma save_now_cases:
  assumes "settings_storage_save_now ops (s, st, w) = (s', st', w')" and "ss_ok st" and ok: "settings_ok s"
  defines "p \<equiv> settings_payload_encode (Some (settings_now s))"
  shows "settings_now s' = settings_now s"
    "(\<exists>fin. settings_store_save ops (Some p) st w = (fin, st', w') \<and> (fin \<longrightarrow> \<not> g_settings_dirty s') \<and> (\<not> fin \<longrightarrow> s' = s))"
  using assms(1,2) capture_now [OF ok] unfolding p_def
  by (auto simp: settings_storage_save_now_def settings_store_enabled_def split: prod.splits bool.splits)

lemma defaults_ok: "settings_ok (settings_defaults s)"
  by (simp add: settings_defaults_def camera_service_persist_defaults_def persist_apply_def range_defs settings_consts settings_enums
      camera_settings_force_size_def camera_active_size_set_def camera_size_is_safe_def)

lemma apply_decoded:
  assumes "length (app_data p) = SETTINGS_APP_DATA_SIZE"
  shows "settings_now (settings_snapshot_apply (settings_payload_decode p) s) = settings_payload_decode p"
  by (rule apply_now [OF decode_ok [OF assms]])

lemma save_now_keeps:
  "settings_storage_save_now ops (s, st, w) = (s', st', w') \<Longrightarrow> settings_now s' = settings_now s"
  by (auto simp: settings_storage_save_now_def split: prod.splits bool.splits if_splits)

lemma tick_keeps:
  "settings_storage_tick ops (s, st, w) = (s', st', w') \<Longrightarrow> settings_now s' = settings_now s"
  using save_now_keeps [of ops s st w s' st' w'] by (auto simp: settings_storage_tick_def split: if_splits)

lemma boot_in_range:
  assumes "settings_storage_init (internal_flash_ops hw True) (s0, st0, w0) = (s, st, w)" and "boot_wf (iw_flash w0)"
  shows "settings_ok s"
proof -
  obtain l st1 w1 where i: "settings_store_init (internal_flash_ops hw True) True st0 w0 = (l, st1, w1)" by (metis prod_cases3)
  show ?thesis
  proof (cases "\<exists>ld. l = Some ld \<and> has_payload ld")
    case True
    then obtain ld where ld: "l = Some ld" "has_payload ld" by blast
    then have "s = settings_snapshot_apply (settings_payload_decode (load_payload ld)) (settings_defaults s0)"
      using assms(1) i by (auto simp: settings_storage_init_def)
    then show ?thesis using apply_decoded decode_ok store_init_length [OF i [unfolded ld(1)] ld(2) assms(2)] by (simp add: settings_ok_def)
  next
    case False
    then have "s = settings_defaults s0" using assms(1) i by (auto simp: settings_storage_init_def split: option.splits if_splits)
    then show ?thesis using defaults_ok by simp
  qed
qed

lemma service_run_ok: "service_run hw good s st w \<Longrightarrow> settings_ok s"
proof (induction rule: service_run.induct)
  case (service_boot s0 st0 tr s st w)
  then show ?case by (rule boot_in_range) (rule reboot_ready(2))
next
  case (service_step good s st w s')
  then show ?case using settings_step_ok by blast
next
  case (service_tick good s st w s' st' w')
  then show ?case using tick_keeps [OF service_tick.hyps(2)] by (simp add: settings_ok_def)
next
  case (service_save good s st w s' st' w')
  then show ?case using save_now_keeps [OF service_save.hyps(2)] by (simp add: settings_ok_def)
qed simp

context nor_chip
begin

lemma boot_settings:
  assumes "settings_storage_init (internal_flash_ops hw True) (s0, st0, w0) = (s, st, w)" and "ss_ok st"
    and rd: "boot_ready hw (iw_flash w0)"
  shows "\<exists>ld. settings_store_init (internal_flash_ops hw True) True st0 w0 = (Some ld, st, w) \<and>
    (\<forall>p. load_result ld = Some p \<longrightarrow> settings_now s = settings_payload_decode p)"
proof -
  obtain l where i: "settings_store_init (internal_flash_ops hw True) True st0 w0 = (l, st, w)"
    using assms(1) by (auto simp: settings_storage_init_def split: prod.splits option.splits if_splits)
  then obtain ld where l: "l = Some ld" using store.init_spec(2) [OF i rd assms(2)] by auto
  have wf: "boot_wf (iw_flash w0)" using rd by (simp add: boot_ready_def)
  have "settings_now s = settings_payload_decode (load_payload ld)" if h: "has_payload ld"
    using assms(1) i l h apply_decoded [OF store_init_length [OF i [unfolded l] h wf]] by (auto simp: settings_storage_init_def)
  then show ?thesis using i l by (auto simp: load_result_def)
qed

lemma run_saved_payload:
  assumes "settings_run hw mem c old qs st w" and "settings_storage_save_now (internal_flash_ops hw True) (s, st, w) = (s', st', w')"
    and ok: "settings_ok s" and "ss_sequence st = 0xFFFFFFFF \<longrightarrow> ss_sequence st' = ss_sequence st"
  shows "\<exists>c old qs. settings_run hw mem c old qs st' w'"
proof -
  note inv = settings_run_inv [OF assms(1)]
  have n: "snapshot_ok (settings_now s)" using ok by (simp add: settings_ok_def)
  obtain fin where d: "settings_store_save (internal_flash_ops hw True) (Some (settings_payload_encode (Some (settings_now s)))) st w = (fin, st', w')"
    using save_now_cases(2) [OF assms(2) _ ok] inv by blast
  show ?thesis
  proof (cases fin)
    case True
    then have "ss_sequence st' = ss_sequence st + 1" using store.save_spec(3) [OF d _ encode_length [OF n]] inv by auto
    then have "ss_sequence st \<noteq> 0xFFFFFFFF" using assms(4) by auto
    then have "settings_run hw mem (Some (settings_payload_encode (Some (settings_now s)))) (spare_image (flash_contents hw mem w') st') {} st' w'"
      using run_saved [OF assms(1) _ encode_length [OF n]] d True by simp
    then show ?thesis by blast
  next
    case False
    then have "settings_run hw mem c old (insert (settings_payload_encode (Some (settings_now s))) qs) st' w'"
      using run_failed [OF assms(1) _ encode_length [OF n]] d by simp
    then show ?thesis by blast
  qed
qed

lemma service_run_good: "service_run hw good s st w \<Longrightarrow> good \<Longrightarrow> \<exists>c old qs. settings_run hw mem c old qs st w"
proof (induction rule: service_run.induct)
  case (service_boot s0 st0 tr s st w)
  from boot_settings [OF this reboot_ready(1)] service_boot(2) show ?case by (blast intro: run_boot)
next
  case (service_tick good s st w s' st' w')
  then obtain c old qs where c: "settings_run hw mem c old qs st w" by blast
  show ?case
  proof (cases "g_settings_dirty s \<and> g_settings_save_ticks s = 0")
    case True
    then have "settings_storage_save_now (internal_flash_ops hw True) (s, st, w) = (s', st', w')"
      using service_tick(2) by (simp add: settings_storage_tick_def)
    from run_saved_payload [OF c this service_run_ok [OF service_tick.hyps(1)]] service_tick.prems show ?thesis by blast
  next
    case False
    then have "st' = st" "w' = w" using service_tick(2) by (auto simp: settings_storage_tick_def word_neq_0_conv split: if_splits)
    then show ?thesis using c by blast
  qed
next
  case (service_save good s st w s' st' w')
  then obtain c old qs where c: "settings_run hw mem c old qs st w" by blast
  from run_saved_payload [OF c service_save(2) service_run_ok [OF service_save.hyps(1)]] service_save.prems show ?case by blast
qed (blast intro: run_use)+

lemma saved_settings_boot:
  assumes run: "service_run hw True s st w" and q: "ss_sequence st \<noteq> 0xFFFFFFFF" and "g_settings_dirty s"
    and save: "settings_storage_save_now (internal_flash_ops hw True) (s, st, w) = (s1, st1, w1)" and clean: "\<not> g_settings_dirty s1"
    and later: "settings_later hw w1 w2"
    and boot: "settings_storage_init (internal_flash_ops hw True) (s0, st0, w2) = (s2, st2, w3)" and "ss_ok st2"
  shows "settings_now s2 = settings_now s"
proof -
  obtain c old qs where c: "settings_run hw mem c old qs st w" using service_run_good [OF run] by blast
  have ok: "settings_ok s" by (rule service_run_ok [OF run])
  then have n: "snapshot_ok (settings_now s)" by (simp add: settings_ok_def)
  let ?p = "settings_payload_encode (Some (settings_now s))"
  have d: "settings_store_save (internal_flash_ops hw True) (Some ?p) st w = (True, st1, w1)"
    using save_now_cases(2) [OF save _ ok] settings_run_inv [OF c] clean assms(3) by (metis (full_types))
  have rd: "boot_ready hw (iw_flash w2)"
    using settings_later_keeps [OF later] settings_run_inv [OF run_saved [OF c d encode_length [OF n] q]] by blast
  obtain ld where ld: "settings_store_init (internal_flash_ops hw True) True st0 w2 = (Some ld, st2, w3)"
    "\<forall>p. load_result ld = Some p \<longrightarrow> settings_now s2 = settings_payload_decode p" using boot_settings [OF boot assms(8) rd] by blast
  from saved_boot [OF c d encode_length [OF n] q later ld(1) assms(8)] ld(2) show ?thesis by (simp add: decode_encode [OF n])
qed

end

text \<open>Once the settings are marked, the countdown runs out and the next tick saves.\<close>

lemma countdown:
  assumes "g_settings_dirty s" and "unat (g_settings_save_ticks s) = n"
  shows "(settings_storage_tick ops ^^ n) (s, st, w) = (s\<lparr>g_settings_save_ticks := 0\<rparr>, st, w)"
  using assms
proof (induction n arbitrary: s)
  case 0
  then show ?case by (simp add: unat_eq_0)
next
  case (Suc n)
  let ?s = "s\<lparr>g_settings_save_ticks := g_settings_save_ticks s - 1\<rparr>"
  have g: "g_settings_save_ticks s \<noteq> 0" using Suc.prems(2) by auto
  then have "unat (g_settings_save_ticks s - 1) = n" using Suc.prems(2) by (simp add: unat_minus_one)
  then have "(settings_storage_tick ops ^^ n) (?s, st, w) = (s\<lparr>g_settings_save_ticks := 0\<rparr>, st, w)"
    using Suc.IH [of ?s] Suc.prems(1) by simp
  moreover have "settings_storage_tick ops (s, st, w) = (?s, st, w)"
    using Suc.prems(1) g by (simp add: settings_storage_tick_def word_neq_0_conv)
  ultimately show ?case by (simp add: funpow_swap1)
qed

lemma service_countdown:
  assumes "service_run hw good s st w" and d: "g_settings_dirty s"
  shows "service_run hw good (s\<lparr>g_settings_save_ticks := 0\<rparr>) st w"
  using assms(1) d
proof (induction "unat (g_settings_save_ticks s)" arbitrary: s)
  case 0
  then have "s\<lparr>g_settings_save_ticks := 0\<rparr> = s" by (cases s) (simp add: unat_eq_0)
  then show ?case using 0 by simp
next
  case (Suc n)
  let ?s = "s\<lparr>g_settings_save_ticks := g_settings_save_ticks s - 1\<rparr>"
  have g: "g_settings_save_ticks s \<noteq> 0" using Suc.hyps(2) by auto
  then have n: "n = unat (g_settings_save_ticks ?s)" using Suc.hyps(2) by (simp add: unat_minus_one)
  have "settings_storage_tick (internal_flash_ops hw True) (s, st, w) = (?s, st, w)"
    using Suc.prems(2) g by (simp add: settings_storage_tick_def word_neq_0_conv)
  from service_tick [OF Suc.prems(1) this] have "service_run hw good ?s st w" by simp
  from Suc.hyps(1) [OF n this] Suc.prems(2) show ?case by simp
qed

lemma ticks_then_save:
  assumes "g_settings_dirty s"
  shows "(settings_storage_tick ops ^^ Suc (unat (g_settings_save_ticks s))) (s, st, w) =
    settings_storage_save_now ops (s\<lparr>g_settings_save_ticks := 0\<rparr>, st, w)"
  using countdown [OF assms refl, of ops st w] assms by (simp add: settings_storage_tick_def)

section \<open>Properties\<close>

text \<open>On the reference chip: a new board boots with the defaults, and the light mode is changed.\<close>

definition blank_settings :: settings_state where
  "blank_settings = \<lparr>g_led_enabled = 0, g_led_brightness = 20, g_rgb_enabled = 0, g_rgb_red = 20, g_rgb_green = 20, g_rgb_blue = 20,
     g_screen_brightness = 90, g_auto_sleep_minutes = 1, g_feature_flags = 0, g_external_link_uart_speed = 1, g_qr_decode_rate = 5,
     g_autostart_id = 0, g_app_data = replicate 88 0, g_camera_review_after_shot = 0, g_camera_fps_enabled = 1, g_camera_light_mode = 0,
     g_camera_rgb_red = 100, g_camera_rgb_green = 100, g_camera_rgb_blue = 100, g_camera_photo_format = 1, g_camera_size = 1,
     g_camera_size_pending_reinit = False, g_camera_w = 320, g_camera_h = 240, g_settings_dirty = False, g_settings_save_ticks = 0\<rparr>"

definition lit_settings :: settings_state where
  "lit_settings = camera_service_toggle_light_mode (settings_defaults blank_settings)"

lemma lit_run: "\<exists>st w. service_run ref_chip True lit_settings st w \<and> ref_usable w \<and> ss_sequence st = 0"
proof -
  obtain ld st w where b: "settings_store_init (internal_flash_ops ref_chip True) True \<lparr>ss_ok = False, ss_slot = 0xFF, ss_sequence = 0\<rparr> (reboot [])
      = (Some ld, st, w)" "ss_ok st" "ref_usable w" "ss_sequence st = 0" "\<not> has_payload ld" using ref_fresh_boot by blast
  then have "settings_storage_init (internal_flash_ops ref_chip True) (blank_settings, \<lparr>ss_ok = False, ss_slot = 0xFF, ss_sequence = 0\<rparr>, reboot [])
      = (settings_defaults blank_settings, st, w)" by (simp add: settings_storage_init_def)
  from service_boot [OF this] b(2) have "service_run ref_chip True (settings_defaults blank_settings) st w" by simp
  then have "service_run ref_chip True lit_settings st w" unfolding lit_settings_def by (rule service_step [OF _ step_light])
  then show ?thesis using b by blast
qed

text \<open>On a chip that answers nothing the firmware runs with the defaults.\<close>

definition dead_chip :: spi_hw where
  "dead_chip = \<lparr>hw_reply = (\<lambda>tr i. 0), hw_clock = (\<lambda>tr. 0)\<rparr>"

lemma dead_chip_run: "\<exists>st w. service_run dead_chip False (settings_defaults blank_settings) st w"
proof -
  let ?st = "\<lparr>ss_ok = False, ss_slot = 0xFF, ss_sequence = 0\<rparr>"
  obtain r w1 where i: "internal_flash_init dead_chip True 10000000 (reboot []) = (r, w1)" by (metis prod.collapse)
  have r: "r \<noteq> INTERNAL_FLASH_OK"
    using i by (auto simp: internal_flash_init_def boot_flash_init_def spi_receive_def Let_def dead_chip_def upt_rec)
  obtain inform w where g: "internal_flash_get_info w1 = (inform, w)" by (metis prod.collapse)
  let ?ld = "\<lparr>has_payload = False, load_payload = payload_zero\<rparr>"
  have "settings_store_init (internal_flash_ops dead_chip True) True ?st (reboot []) = (Some ?ld, ?st, w)"
    using i r g by (simp add: settings_store_init_def internal_flash_ops_def Let_def)
  then have "settings_storage_init (internal_flash_ops dead_chip True) (blank_settings, ?st, reboot []) = (settings_defaults blank_settings, ?st, w)"
    by (simp add: settings_storage_init_def)
  from service_boot [OF this] show ?thesis by auto
qed

lemma lit_saved:
  "\<exists>st w s1 st1 w1. service_run ref_chip True lit_settings st w \<and> ss_sequence st = 0 \<and>
     (settings_storage_tick (internal_flash_ops ref_chip True) ^^ Suc (unat (g_settings_save_ticks lit_settings))) (lit_settings, st, w) = (s1, st1, w1) \<and>
     \<not> g_settings_dirty s1"
proof -
  obtain st w where r: "service_run ref_chip True lit_settings st w" "ref_usable w" "ss_sequence st = 0" using lit_run by blast
  have d: "g_settings_dirty lit_settings" by (simp add: lit_settings_def toggle_defs)
  let ?s = "lit_settings\<lparr>g_settings_save_ticks := 0\<rparr>"
  have inv: "settings_ok lit_settings" "ss_ok st" "boot_ready ref_chip (iw_flash w)"
    using service_run_ok [OF r(1)] ref.service_run_good [OF r(1)] ref.settings_run_inv by blast+
  then have n: "snapshot_ok (settings_now lit_settings)" by (simp add: settings_ok_def)
  obtain w1 where "settings_store_save (internal_flash_ops ref_chip True) (Some (settings_payload_encode (Some (settings_snapshot_capture ?s)))) st w =
      (True, st\<lparr>ss_sequence := ss_sequence st + 1, ss_slot := save_target (ss_slot st)\<rparr>, w1)"
    using ref_save [OF r(2) inv(2) encode_length [OF n] inv(3)] capture_now [of ?s] inv(1) by auto
  then have "\<exists>st1. settings_storage_save_now (internal_flash_ops ref_chip True) (?s, st, w) =
      (?s\<lparr>g_settings_dirty := False, g_settings_save_ticks := 0\<rparr>, st1, w1)"
    using inv(2) by (simp add: settings_storage_save_now_def settings_store_enabled_def)
  then show ?thesis using r(1,3) ticks_then_save [OF d, of "internal_flash_ops ref_chip True" st w] by fastforce
qed

text \<open>C38. Settings survive a reboot: when changed settings are marked, the countdown has run out and the tick that follows
  has cleared the mark, every later boot that can read the flash brings back exactly the same settings, the camera's among
  them, until the next save: whatever was stored before, whichever settings were changed on the way, and whatever other code did on
  the flash, boots and losses of power in between included. The conditions are that the last boot had read the flash, and that the
  sequence number of the store has not wrapped since and was not 0xFFFFFFFF before the save.\<close>

theorem settings_survive_reboot:
  assumes "nor_chip hw mem" and "service_run hw True s st w" and "ss_sequence st \<noteq> 0xFFFFFFFF" and "g_settings_dirty s"
    and "(settings_storage_tick (internal_flash_ops hw True) ^^ Suc (unat (g_settings_save_ticks s))) (s, st, w) = (s1, st1, w1)"
    and "\<not> g_settings_dirty s1"
    and "settings_later hw w1 w2"
    and "settings_storage_init (internal_flash_ops hw True) (s0, st0, w2) = (s2, st2, w3)" and "ss_ok st2"
  shows "settings_now s2 = settings_now s"
proof -
  have run: "service_run hw True (s\<lparr>g_settings_save_ticks := 0\<rparr>) st w"
    using assms(2) by (rule service_countdown [OF _ assms(4)])
  from nor_chip.saved_settings_boot [OF assms(1) run assms(3) _ assms(5) [unfolded ticks_then_save [OF assms(4)]] assms(6-9)] assms(4)
  show ?thesis by simp
qed

theorem settings_survive_reboot_witness:
  "\<exists>st w s1 st1 w1 s2 st2 w2. service_run ref_chip True lit_settings st w \<and>
     (settings_storage_tick (internal_flash_ops ref_chip True) ^^ Suc (unat (g_settings_save_ticks lit_settings))) (lit_settings, st, w) = (s1, st1, w1) \<and>
     settings_storage_init (internal_flash_ops ref_chip True) (blank_settings, st1, reboot (spi_trace (iw_flash w1))) = (s2, st2, w2) \<and>
     g_camera_light_mode s2 = CAMERA_LIGHT_RGB"
proof -
  obtain st w s1 st1 w1 where r: "service_run ref_chip True lit_settings st w" "ss_sequence st = 0"
      "(settings_storage_tick (internal_flash_ops ref_chip True) ^^ Suc (unat (g_settings_save_ticks lit_settings))) (lit_settings, st, w) = (s1, st1, w1)"
      "\<not> g_settings_dirty s1" using lit_saved by blast
  then have q: "ss_sequence st \<noteq> 0xFFFFFFFF" by simp
  have d: "g_settings_dirty lit_settings" by (simp add: lit_settings_def toggle_defs)
  obtain ld st2 w2 where b: "settings_store_init (internal_flash_ops ref_chip True) True st1 (reboot (spi_trace (iw_flash w1))) = (Some ld, st2, w2)"
    "ss_ok st2" using ref_boot by blast
  then obtain s2 where i: "settings_storage_init (internal_flash_ops ref_chip True) (blank_settings, st1, reboot (spi_trace (iw_flash w1))) = (s2, st2, w2)"
    by (cases "has_payload ld") (auto simp: settings_storage_init_def)
  have "settings_now s2 = settings_now lit_settings"
    by (rule settings_survive_reboot [OF ref.nor_chip_axioms r(1) q d r(3,4) later_power [OF later_refl] i b(2)])
  then have "g_camera_light_mode s2 = g_camera_light_mode lit_settings" by (simp add: settings_now_def)
  also have "\<dots> = CAMERA_LIGHT_RGB"
    by (simp add: lit_settings_def toggle_defs settings_defaults_def camera_service_persist_defaults_def persist_apply_def settings_enums)
  finally show ?thesis using r(1,3) i by blast
qed

text \<open>C39. The settings stay in range, on any flash chip, broken ones included: whatever the user interface and the applications set,
  whether the boot could read the flash or not, whatever bytes it found there and however saving went, saves at the limit of the
  sequence number included, every setting is within its limits, so no stored or transmitted value can drive the lights, the screen
  or the camera out of range, and the camera's colours are multiples of ten.\<close>

theorem settings_stay_in_range:
  assumes "service_run hw good s st w"
  shows "settings_ok s"
  using service_run_ok [OF assms] .

theorem settings_stay_in_range_witness:
  "(\<exists>st w. service_run ref_chip True lit_settings st w) \<and> settings_ok lit_settings \<and>
   (\<exists>st w. service_run dead_chip False (settings_defaults blank_settings) st w) \<and> settings_ok (settings_defaults blank_settings)"
  using lit_run settings_stay_in_range dead_chip_run by blast

end
