(* ===== verification/User_Files.thy ===== *)
theory User_Files
  imports Internal_Flash Hk_Binary
begin

text \<open>
  \<open>firmware/src/storage/userfs.c\<close>: the user programs in internal flash, on littlefs. The callbacks that give littlefs
  its block device are modelled on \<open>Internal_Flash\<close>. littlefs itself is not part of the repository: its calls are an
  argument (\<open>lfs_ops\<close>), what its documentation promises is the locale \<open>littlefs\<close>. An upload goes to a hidden temporary
  file, which is read back, checked and only then renamed to its name.
\<close>

section \<open>Constants\<close>

definition USERFS_NAME_MAX :: nat where "USERFS_NAME_MAX = 63"
definition USERFS_FILE_MAX :: u32 where "USERFS_FILE_MAX = 256 * 1024"
definition USERFS_UPLOAD_CHUNK_MAX :: nat where "USERFS_UPLOAD_CHUNK_MAX = 1024"
definition USERFS_BLOCK_SIZE :: u32 where "USERFS_BLOCK_SIZE = 4096"
definition USERFS_CACHE_SIZE :: nat where "USERFS_CACHE_SIZE = 256"
definition USERFS_STARTUP_FILE :: "u8 list" where "USERFS_STARTUP_FILE = [0x2E, 0x73, 0x74, 0x61, 0x72, 0x74, 0x75, 0x70]"
definition USERFS_META_TEMP :: "u8 list" where
  "USERFS_META_TEMP = [0x2E, 0x6D, 0x65, 0x74, 0x61, 0x2D, 0x75, 0x70, 0x6C, 0x6F, 0x61, 0x64]"
definition USERFS_UPLOAD_PREFIX :: "u8 list" where "USERFS_UPLOAD_PREFIX = [0x2E, 0x75, 0x70, 0x6C, 0x6F, 0x61, 0x64, 0x2D]"

datatype userfs_state =
    USERFS_STATE_UNINITIALIZED | USERFS_STATE_UNSUPPORTED_FLASH | USERFS_STATE_UNFORMATTED | USERFS_STATE_CORRUPT
  | USERFS_STATE_IO_ERROR | USERFS_STATE_MOUNTED

datatype userfs_result =
    USERFS_OK | USERFS_ERROR_INVALID_ARGUMENT | USERFS_ERROR_NOT_MOUNTED | USERFS_ERROR_UNSUPPORTED_FLASH
  | USERFS_ERROR_UNFORMATTED | USERFS_ERROR_CORRUPT | USERFS_ERROR_IO | USERFS_ERROR_NOT_FOUND | USERFS_ERROR_EXISTS
  | USERFS_ERROR_NO_SPACE | USERFS_ERROR_BUSY | USERFS_ERROR_OUT_OF_ORDER | USERFS_ERROR_SIZE | USERFS_ERROR_CRC

section \<open>The calls of littlefs\<close>

text \<open>Its error codes, as its header documents them, and the structures and flags that cross the interface.\<close>

definition LFS_ERR_IO :: int where "LFS_ERR_IO = -5"
definition LFS_ERR_CORRUPT :: int where "LFS_ERR_CORRUPT = -84"
definition LFS_ERR_NOENT :: int where "LFS_ERR_NOENT = -2"
definition LFS_ERR_EXIST :: int where "LFS_ERR_EXIST = -17"
definition LFS_ERR_INVAL :: int where "LFS_ERR_INVAL = -22"
definition LFS_ERR_NOSPC :: int where "LFS_ERR_NOSPC = -28"
definition LFS_ERR_NAMETOOLONG :: int where "LFS_ERR_NAMETOOLONG = -36"

lemmas lfs_errors = LFS_ERR_IO_def LFS_ERR_CORRUPT_def LFS_ERR_NOENT_def LFS_ERR_EXIST_def LFS_ERR_INVAL_def LFS_ERR_NOSPC_def
  LFS_ERR_NAMETOOLONG_def

datatype lfs_type = LFS_TYPE_REG | LFS_TYPE_DIR
datatype lfs_flag = LFS_O_RDONLY | LFS_O_WRONLY | LFS_O_CREAT | LFS_O_EXCL

record lfs_info =
  li_type :: lfs_type
  li_size :: u32
  li_name :: "u8 list"

text \<open>The parts of \<open>struct lfs_config\<close> that depend on the partition or are read by this program.\<close>

record lfs_config =
  lc_block_size :: u32
  lc_block_count :: u32

text \<open>
  \<open>'f\<close> is \<open>lfs_file_t\<close>, \<open>'d\<close> is \<open>lfs_dir_t\<close>, \<open>'w\<close> is \<open>lfs_t\<close> with the flash and the file cache. \<open>lf_clear_cache\<close> is
  \<open>memset(g_file_cache, 0, sizeof(g_file_cache))\<close>: the one buffer that every file is opened with. A call that returns
  data returns the bytes it has put in the caller's buffer.
\<close>

record ('f, 'd, 'w) lfs_ops =
  lf_mount :: "lfs_config \<Rightarrow> 'w \<Rightarrow> int \<times> 'w"
  lf_unmount :: "'w \<Rightarrow> int \<times> 'w"
  lf_format :: "lfs_config \<Rightarrow> 'w \<Rightarrow> int \<times> 'w"
  lf_fs_size :: "'w \<Rightarrow> int \<times> 'w"
  lf_stat :: "u8 list \<Rightarrow> 'w \<Rightarrow> int \<times> lfs_info \<times> 'w"
  lf_remove :: "u8 list \<Rightarrow> 'w \<Rightarrow> int \<times> 'w"
  lf_rename :: "u8 list \<Rightarrow> u8 list \<Rightarrow> 'w \<Rightarrow> int \<times> 'w"
  lf_clear_cache :: "'w \<Rightarrow> 'w"
  lf_opencfg :: "u8 list \<Rightarrow> lfs_flag set \<Rightarrow> 'w \<Rightarrow> int \<times> 'f \<times> 'w"
  lf_close :: "'f \<Rightarrow> 'w \<Rightarrow> int \<times> 'w"
  lf_sync :: "'f \<Rightarrow> 'w \<Rightarrow> int \<times> 'f \<times> 'w"
  lf_read :: "'f \<Rightarrow> nat \<Rightarrow> 'w \<Rightarrow> int \<times> u8 list \<times> 'f \<times> 'w"
  lf_write :: "'f \<Rightarrow> u8 list \<Rightarrow> 'w \<Rightarrow> int \<times> 'f \<times> 'w"
  lf_seek :: "'f \<Rightarrow> u32 \<Rightarrow> 'w \<Rightarrow> int \<times> 'f \<times> 'w"
  lf_dir_open :: "'w \<Rightarrow> int \<times> 'd \<times> 'w"
  lf_dir_read :: "'d \<Rightarrow> 'w \<Rightarrow> int \<times> lfs_info \<times> 'd \<times> 'w"
  lf_dir_close :: "'d \<Rightarrow> 'w \<Rightarrow> 'w"

section \<open>The block device under it\<close>

definition userfs_block_read :: "'s flash_ops \<Rightarrow> lfs_config \<Rightarrow> u32 \<Rightarrow> u32 \<Rightarrow> nat \<Rightarrow> 's \<Rightarrow> int \<times> u8 list \<times> 's" where
  "userfs_block_read fo config block offset n s = (
     if block \<ge> lc_block_count config \<or> offset > USERFS_BLOCK_SIZE \<or> n > unat (USERFS_BLOCK_SIZE - offset)
     then (LFS_ERR_INVAL, replicate n 0, s)
     else case fo_read fo INTERNAL_FLASH_PARTITION_USERFS (block * USERFS_BLOCK_SIZE + offset) (Ptr (replicate n 0)) s of
       (result, bs, s') \<Rightarrow> (if result = INTERNAL_FLASH_OK then 0 else LFS_ERR_IO, bs, s'))"

definition userfs_block_program :: "'s flash_ops \<Rightarrow> lfs_config \<Rightarrow> u32 \<Rightarrow> u32 \<Rightarrow> u8 list \<Rightarrow> 's \<Rightarrow> int \<times> 's" where
  "userfs_block_program fo config block offset buffer s = (
     if block \<ge> lc_block_count config \<or> length buffer > USERFS_CACHE_SIZE \<or> offset > USERFS_BLOCK_SIZE \<or>
        length buffer > unat (USERFS_BLOCK_SIZE - offset) then (LFS_ERR_INVAL, s)
     else let address = block * USERFS_BLOCK_SIZE + offset in
       case fo_program fo INTERNAL_FLASH_PARTITION_USERFS address (Ptr buffer) s of (result, s1) \<Rightarrow>
         if result \<noteq> INTERNAL_FLASH_OK then (LFS_ERR_IO, s1)
         else case fo_read fo INTERNAL_FLASH_PARTITION_USERFS address (Ptr (replicate (length buffer) 0)) s1 of (result, verify, s2) \<Rightarrow>
           if result \<noteq> INTERNAL_FLASH_OK then (LFS_ERR_IO, s2)
           else (if verify = buffer then 0 else LFS_ERR_CORRUPT, s2))"

definition userfs_block_erase :: "'s flash_ops \<Rightarrow> lfs_config \<Rightarrow> u32 \<Rightarrow> 's \<Rightarrow> int \<times> 's" where
  "userfs_block_erase fo config block s = (
     if block \<ge> lc_block_count config then (LFS_ERR_INVAL, s)
     else case fo_erase fo INTERNAL_FLASH_PARTITION_USERFS (block * USERFS_BLOCK_SIZE) (unat USERFS_BLOCK_SIZE) s of
       (result, s') \<Rightarrow> (if result = INTERNAL_FLASH_OK then 0 else LFS_ERR_IO, s'))"

definition userfs_block_sync :: int where
  "userfs_block_sync = 0"

definition userfs_configure :: "u32 \<Rightarrow> lfs_config" where
  "userfs_configure partition_size = \<lparr>lc_block_size = USERFS_BLOCK_SIZE, lc_block_count = partition_size div USERFS_BLOCK_SIZE\<rparr>"

section \<open>Names\<close>

definition userfs_from_lfs :: "int \<Rightarrow> userfs_result" where
  "userfs_from_lfs e = (
     if 0 \<le> e then USERFS_OK
     else if e = LFS_ERR_NOENT then USERFS_ERROR_NOT_FOUND
     else if e = LFS_ERR_EXIST then USERFS_ERROR_EXISTS
     else if e = LFS_ERR_NOSPC then USERFS_ERROR_NO_SPACE
     else if e = LFS_ERR_INVAL \<or> e = LFS_ERR_NAMETOOLONG then USERFS_ERROR_INVALID_ARGUMENT
     else if e = LFS_ERR_CORRUPT then USERFS_ERROR_CORRUPT
     else USERFS_ERROR_IO)"

definition userfs_normal_name :: "u8 list \<Rightarrow> u8 list" where
  "userfs_normal_name name = (if name \<noteq> [] \<and> hd name = 0x2F then tl name else name)"

definition name_char :: "u8 \<Rightarrow> bool" where
  "name_char c \<longleftrightarrow> 0x61 \<le> c \<and> c \<le> 0x7A \<or> 0x41 \<le> c \<and> c \<le> 0x5A \<or> 0x30 \<le> c \<and> c \<le> 0x39 \<or> c = 0x2D \<or> c = 0x5F \<or> c = 0x2E"

text \<open>A name is a C string or NULL.\<close>

definition userfs_valid_name :: "u8 list option \<Rightarrow> bool \<Rightarrow> bool" where
  "userfs_valid_name name allow_hidden = (case name of None \<Rightarrow> False | Some name0 \<Rightarrow>
     let n = userfs_normal_name name0
     in if n = [] \<or> length n > USERFS_NAME_MAX \<or> (\<not> allow_hidden \<and> hd n = 0x2E) then False
        else if \<not> list_all name_char n then False
        else n \<noteq> [0x2E] \<and> n \<noteq> [0x2E, 0x2E])"

section \<open>State\<close>

record 'f userfs_upload =
  up_active :: bool
  up_file_open :: bool
  up_id :: u32
  up_expected_size :: u32
  up_expected_crc :: u32
  up_offset :: u32
  up_target :: "u8 list"
  up_temporary :: "u8 list"
  up_file :: "'f option"

record ('f, 'w) userfs =
  uf_config :: lfs_config
  uf_upload :: "'f userfs_upload"
  uf_state :: userfs_state
  uf_last_error :: userfs_result
  uf_next_upload_id :: u32
  uf_w :: 'w

type_synonym ('f, 'w) uf_call = "userfs_result \<times> ('f, 'w) userfs"

definition userfs_remember :: "userfs_result \<Rightarrow> ('f, 'w) userfs \<Rightarrow> ('f, 'w) uf_call" where
  "userfs_remember result s = (result, s\<lparr>uf_last_error := result\<rparr>)"

definition no_upload :: "'f userfs_upload" where
  "no_upload = \<lparr>up_active = False, up_file_open = False, up_id = 0, up_expected_size = 0, up_expected_crc = 0, up_offset = 0,
     up_target = [], up_temporary = [], up_file = None\<rparr>"

definition userfs_clear_upload :: "('f, 'w) userfs \<Rightarrow> ('f, 'w) userfs" where
  "userfs_clear_upload s = s\<lparr>uf_upload := no_upload\<rparr>"

definition userfs_file_open :: "('f, 'd, 'w) lfs_ops \<Rightarrow> u8 list \<Rightarrow> lfs_flag set \<Rightarrow> 'w \<Rightarrow> int \<times> 'f \<times> 'w" where
  "userfs_file_open L name flags w = lf_opencfg L name flags (lf_clear_cache L w)"

section \<open>Mounting\<close>

record 'w media_ops = "'w flash_ops" +
  fo_partition_info :: "nat \<Rightarrow> 'w \<Rightarrow> internal_flash_result \<times> internal_flash_partition_info_t option \<times> 'w"

fun blank_from :: "'w media_ops \<Rightarrow> u32 list \<Rightarrow> 'w \<Rightarrow> bool \<times> 'w" where
  "blank_from fo [] w = (True, w)"
| "blank_from fo (a # as) w = (case fo_read fo INTERNAL_FLASH_PARTITION_USERFS a (Ptr (replicate USERFS_CACHE_SIZE 0)) w of (result, data, w') \<Rightarrow>
     if result \<noteq> INTERNAL_FLASH_OK then (False, w') else if list_ex (\<lambda>b. b \<noteq> 0xFF) data then (False, w') else blank_from fo as w')"

definition userfs_blank_media :: "'w media_ops \<Rightarrow> 'w \<Rightarrow> bool \<times> 'w" where
  "userfs_blank_media fo w = blank_from fo (map (\<lambda>i. of_nat (i * USERFS_CACHE_SIZE)) [0..<32]) w"

definition stale_name :: "u8 list \<Rightarrow> bool" where
  "stale_name name \<longleftrightarrow> take (length USERFS_UPLOAD_PREFIX) name = USERFS_UPLOAD_PREFIX \<or> name = USERFS_META_TEMP"

partial_function (option) find_stale :: "('f, 'd, 'w) lfs_ops \<Rightarrow> 'd \<Rightarrow> 'w \<Rightarrow> (u8 list \<times> 'd \<times> 'w) option" where
  "find_stale L d w = (let r = lf_dir_read L d w in
     if \<not> 0 < fst r then Some ([], snd (snd r))
     else if stale_name (li_name (fst (snd r))) then Some (take USERFS_NAME_MAX (li_name (fst (snd r))), snd (snd r))
     else find_stale L (fst (snd (snd r))) (snd (snd (snd r))))"

partial_function (option) userfs_cleanup_uploads :: "('f, 'd, 'w) lfs_ops \<Rightarrow> 'w \<Rightarrow> 'w option" where
  "userfs_cleanup_uploads L w = (let r = lf_dir_open L w in
     if fst r < 0 then Some (snd (snd r))
     else Option.bind (find_stale L (fst (snd r)) (snd (snd r))) (\<lambda>f.
       let w' = lf_dir_close L (fst (snd f)) (snd (snd f)) in
       if fst f = [] then Some w'
       else if fst (lf_remove L (fst f) w') < 0 then Some (snd (lf_remove L (fst f) w'))
       else userfs_cleanup_uploads L (snd (lf_remove L (fst f) w'))))"

text \<open>The flash is there and has the size the layout asks for; \<open>exact\<close> is the comparison that only mounting makes.\<close>

definition userfs_media :: "'w media_ops \<Rightarrow> bool \<Rightarrow> ('f, 'w) userfs \<Rightarrow> ('f, 'w) uf_call + (u32 \<times> ('f, 'w) userfs)" where
  "userfs_media fo exact s = (case fo_get_info fo (uf_w s) of (flash, w1) \<Rightarrow>
     case (if if_initialized flash then (INTERNAL_FLASH_OK, flash, w1)
           else case fo_init fo 10000000 w1 of (result, w2) \<Rightarrow>
             if result \<noteq> INTERNAL_FLASH_OK then (result, flash, w2)
             else if exact then (result, fo_get_info fo w2) else (result, flash, w2)) of (flash_result, flash', w3) \<Rightarrow>
       if flash_result \<noteq> INTERNAL_FLASH_OK
       then Inl (userfs_remember USERFS_ERROR_IO (s\<lparr>uf_w := w3, uf_state := USERFS_STATE_IO_ERROR\<rparr>))
       else case fo_partition_info fo INTERNAL_FLASH_PARTITION_USERFS w3 of (flash_result, part, w4) \<Rightarrow>
         (case part of
            Some p \<Rightarrow> if flash_result \<noteq> INTERNAL_FLASH_OK \<or> \<not> pi_available p \<or> (exact \<and> if_capacity flash' \<noteq> pi_required_capacity p)
              then Inl (userfs_remember USERFS_ERROR_UNSUPPORTED_FLASH (s\<lparr>uf_w := w4, uf_state := USERFS_STATE_UNSUPPORTED_FLASH\<rparr>))
              else Inr (pi_size p, s\<lparr>uf_w := w4\<rparr>)
          | None \<Rightarrow> Inl (userfs_remember USERFS_ERROR_UNSUPPORTED_FLASH (s\<lparr>uf_w := w4, uf_state := USERFS_STATE_UNSUPPORTED_FLASH\<rparr>))))"

definition userfs_mount :: "('f, 'd, 'w) lfs_ops \<Rightarrow> 'w media_ops \<Rightarrow> ('f, 'w) userfs \<Rightarrow> ('f, 'w) uf_call option" where
  "userfs_mount L fo s = (
     if uf_state s = USERFS_STATE_MOUNTED then Some (userfs_remember USERFS_OK s)
     else case userfs_media fo True s of
       Inl failed \<Rightarrow> Some failed
     | Inr (psz, s1) \<Rightarrow>
         let s2 = s1\<lparr>uf_config := userfs_configure psz\<rparr> in
         case lf_mount L (uf_config s2) (uf_w s2) of (result, w) \<Rightarrow>
           if result = 0 then
             (case userfs_cleanup_uploads L w of None \<Rightarrow> None
              | Some w' \<Rightarrow> Some (userfs_remember USERFS_OK ((userfs_clear_upload s2)\<lparr>uf_state := USERFS_STATE_MOUNTED, uf_w := w'\<rparr>)))
           else case (if result = LFS_ERR_CORRUPT then userfs_blank_media fo w else (False, w)) of (blank, w') \<Rightarrow>
             if blank then Some (userfs_remember USERFS_ERROR_UNFORMATTED (s2\<lparr>uf_state := USERFS_STATE_UNFORMATTED, uf_w := w'\<rparr>))
             else Some (userfs_remember (if result = LFS_ERR_CORRUPT then USERFS_ERROR_CORRUPT else USERFS_ERROR_IO)
               (s2\<lparr>uf_state := (if result = LFS_ERR_CORRUPT then USERFS_STATE_CORRUPT else USERFS_STATE_IO_ERROR), uf_w := w'\<rparr>)))"

definition userfs_upload_abort :: "('f, 'd, 'w) lfs_ops \<Rightarrow> u32 \<Rightarrow> ('f, 'w) userfs \<Rightarrow> ('f, 'w) uf_call" where
  "userfs_upload_abort L upload_id s = (let u = uf_upload s in
     if \<not> up_active u \<or> upload_id \<noteq> up_id u then userfs_remember USERFS_ERROR_INVALID_ARGUMENT s
     else let w1 = (if up_file_open u then snd (lf_close L (the (up_file u)) (uf_w s)) else uf_w s);
              w2 = snd (lf_remove L (up_temporary u) w1)
          in userfs_remember USERFS_OK (userfs_clear_upload (s\<lparr>uf_w := w2\<rparr>)))"

definition userfs_unmount :: "('f, 'd, 'w) lfs_ops \<Rightarrow> ('f, 'w) userfs \<Rightarrow> ('f, 'w) uf_call" where
  "userfs_unmount L s = (
     if uf_state s \<noteq> USERFS_STATE_MOUNTED then userfs_remember USERFS_ERROR_NOT_MOUNTED s
     else let s1 = (if up_active (uf_upload s) then snd (userfs_upload_abort L (up_id (uf_upload s)) s) else s) in
       case lf_unmount L (uf_w s1) of (result, w) \<Rightarrow>
         userfs_remember (userfs_from_lfs result)
           (s1\<lparr>uf_w := w, uf_state := (if result = 0 then USERFS_STATE_UNINITIALIZED else USERFS_STATE_IO_ERROR)\<rparr>))"

definition userfs_format_explicit :: "('f, 'd, 'w) lfs_ops \<Rightarrow> 'w media_ops \<Rightarrow> ('f, 'w) userfs \<Rightarrow> ('f, 'w) uf_call option" where
  "userfs_format_explicit L fo s = (
     let s0 = (if uf_state s = USERFS_STATE_MOUNTED then snd (userfs_unmount L s) else s) in
     case userfs_media fo False s0 of
       Inl failed \<Rightarrow> Some failed
     | Inr (psz, s1) \<Rightarrow>
         let s2 = s1\<lparr>uf_config := userfs_configure psz\<rparr> in
         case lf_format L (uf_config s2) (uf_w s2) of (result, w) \<Rightarrow>
           if result < 0 then Some (userfs_remember (userfs_from_lfs result) (s2\<lparr>uf_w := w, uf_state := USERFS_STATE_IO_ERROR\<rparr>))
           else userfs_mount L fo (s2\<lparr>uf_w := w, uf_state := USERFS_STATE_UNINITIALIZED\<rparr>))"

section \<open>Looking at files\<close>

record userfs_status =
  us_state :: userfs_state
  us_last_error :: userfs_result
  us_total_bytes :: u32
  us_used_bytes :: u32
  us_upload_id :: u32
  us_upload_offset :: u32
  us_upload_size :: u32

definition userfs_get_status :: "('f, 'd, 'w) lfs_ops \<Rightarrow> ('f, 'w) userfs \<Rightarrow> userfs_status \<times> ('f, 'w) userfs" where
  "userfs_get_status L s = (
     let u = uf_upload s;
         status = \<lparr>us_state = uf_state s, us_last_error = uf_last_error s,
           us_total_bytes = lc_block_count (uf_config s) * lc_block_size (uf_config s), us_used_bytes = 0,
           us_upload_id = (if up_active u then up_id u else 0), us_upload_offset = (if up_active u then up_offset u else 0),
           us_upload_size = (if up_active u then up_expected_size u else 0)\<rparr>
     in if uf_state s = USERFS_STATE_MOUNTED then
          (case lf_fs_size L (uf_w s) of (blocks, w) \<Rightarrow>
             (if 0 < blocks then status\<lparr>us_used_bytes := of_int blocks * lc_block_size (uf_config s)\<rparr> else status, s\<lparr>uf_w := w\<rparr>))
        else (status, s))"

text \<open>The callback of \<open>userfs_list\<close> with its context, and whether to go on.\<close>

partial_function (option) list_loop :: "('f, 'd, 'w) lfs_ops \<Rightarrow> (u8 list \<Rightarrow> u32 \<Rightarrow> 'c \<Rightarrow> bool \<times> 'c) \<Rightarrow> 'd \<Rightarrow> 'c \<Rightarrow> 'w \<Rightarrow>
    (int \<times> 'd \<times> 'c \<times> 'w) option" where
  "list_loop L callback d ctx w = (let r = lf_dir_read L d w; i = fst (snd r); d' = fst (snd (snd r)); w' = snd (snd (snd r)) in
     if \<not> 0 < fst r then Some (fst r, d', ctx, w')
     else if li_type i \<noteq> LFS_TYPE_REG \<or> li_name i = [] \<or> hd (li_name i) = 0x2E then list_loop L callback d' ctx w'
     else if \<not> fst (callback (li_name i) (li_size i) ctx) then Some (fst r, d', snd (callback (li_name i) (li_size i) ctx), w')
     else list_loop L callback d' (snd (callback (li_name i) (li_size i) ctx)) w')"

definition userfs_list :: "('f, 'd, 'w) lfs_ops \<Rightarrow> (u8 list \<Rightarrow> u32 \<Rightarrow> 'c \<Rightarrow> bool \<times> 'c) option \<Rightarrow> 'c \<Rightarrow> ('f, 'w) userfs \<Rightarrow>
    ('c \<times> ('f, 'w) uf_call) option" where
  "userfs_list L callback ctx s = (
     if uf_state s \<noteq> USERFS_STATE_MOUNTED then Some (ctx, userfs_remember USERFS_ERROR_NOT_MOUNTED s)
     else if callback = None \<or> up_active (uf_upload s) then
       Some (ctx, userfs_remember (if up_active (uf_upload s) then USERFS_ERROR_BUSY else USERFS_ERROR_INVALID_ARGUMENT) s)
     else case lf_dir_open L (uf_w s) of (result, d, w) \<Rightarrow>
       if result < 0 then Some (ctx, userfs_remember (userfs_from_lfs result) (s\<lparr>uf_w := w\<rparr>))
       else case list_loop L (the callback) d ctx w of None \<Rightarrow> None
         | Some (result, d', ctx', w') \<Rightarrow> Some (ctx', userfs_remember (if result < 0 then userfs_from_lfs result else USERFS_OK)
             (s\<lparr>uf_w := lf_dir_close L d' w'\<rparr>)))"

text \<open>\<open>want\<close>: the caller passed a pointer for the size. The size is returned only on success.\<close>

definition userfs_stat :: "('f, 'd, 'w) lfs_ops \<Rightarrow> u8 list option \<Rightarrow> bool \<Rightarrow> ('f, 'w) userfs \<Rightarrow> u32 option \<times> ('f, 'w) uf_call" where
  "userfs_stat L name want s = (
     if uf_state s \<noteq> USERFS_STATE_MOUNTED then (None, userfs_remember USERFS_ERROR_NOT_MOUNTED s)
     else if \<not> want \<or> \<not> userfs_valid_name name False then (None, userfs_remember USERFS_ERROR_INVALID_ARGUMENT s)
     else case lf_stat L (userfs_normal_name (the name)) (uf_w s) of (r, info, w) \<Rightarrow>
       let result = (if r = 0 \<and> li_type info \<noteq> LFS_TYPE_REG then LFS_ERR_NOENT else r)
       in (if result = 0 then Some (li_size info) else None, userfs_remember (userfs_from_lfs result) (s\<lparr>uf_w := w\<rparr>)))"

text \<open>\<open>data\<close> is the caller's buffer and its capacity; the bytes read are returned.\<close>

definition userfs_read :: "('f, 'd, 'w) lfs_ops \<Rightarrow> u8 list option \<Rightarrow> u32 \<Rightarrow> u8 cptr \<Rightarrow> ('f, 'w) userfs \<Rightarrow> u8 list \<times> ('f, 'w) uf_call" where
  "userfs_read L name offset data s = (
     if uf_state s \<noteq> USERFS_STATE_MOUNTED then ([], userfs_remember USERFS_ERROR_NOT_MOUNTED s)
     else if up_active (uf_upload s) then ([], userfs_remember USERFS_ERROR_BUSY s)
     else if (plen data \<noteq> 0 \<and> is_null data) \<or> \<not> userfs_valid_name name False then ([], userfs_remember USERFS_ERROR_INVALID_ARGUMENT s)
     else case userfs_file_open L (userfs_normal_name (the name)) {LFS_O_RDONLY} (uf_w s) of (result, f, w1) \<Rightarrow>
       if result < 0 then ([], userfs_remember (userfs_from_lfs result) (s\<lparr>uf_w := w1\<rparr>))
       else case lf_seek L f offset w1 of (position, f, w2) \<Rightarrow>
         if position < 0 then ([], userfs_remember (userfs_from_lfs position) (s\<lparr>uf_w := snd (lf_close L f w2)\<rparr>))
         else case (if plen data \<noteq> 0 then lf_read L f (plen data) w2 else (0, [], f, w2)) of (cnt, bytes, f, w3) \<Rightarrow>
           let s' = s\<lparr>uf_w := snd (lf_close L f w3)\<rparr> in
           if cnt < 0 then ([], userfs_remember (userfs_from_lfs cnt) s') else (bytes, userfs_remember USERFS_OK s'))"

definition userfs_get_startup :: "('f, 'd, 'w) lfs_ops \<Rightarrow> nat \<Rightarrow> ('f, 'w) userfs \<Rightarrow> u8 list option \<times> ('f, 'w) uf_call" where
  "userfs_get_startup L capacity s = (
     if uf_state s \<noteq> USERFS_STATE_MOUNTED then (None, userfs_remember USERFS_ERROR_NOT_MOUNTED s)
     else if capacity < 2 then (None, userfs_remember USERFS_ERROR_INVALID_ARGUMENT s)
     else case userfs_file_open L USERFS_STARTUP_FILE {LFS_O_RDONLY} (uf_w s) of (result, f, w1) \<Rightarrow>
       if result < 0 then (None, userfs_remember (userfs_from_lfs result) (s\<lparr>uf_w := w1\<rparr>))
       else case lf_read L f (capacity - 1) w1 of (cnt, bytes, f, w2) \<Rightarrow>
         let s' = s\<lparr>uf_w := snd (lf_close L f w2)\<rparr> in
         if cnt < 0 then (None, userfs_remember (userfs_from_lfs cnt) s')
         else let name = takeWhile (\<lambda>b. b \<noteq> 0) bytes
              in (Some name, userfs_remember (if userfs_valid_name (Some name) False then USERFS_OK else USERFS_ERROR_CORRUPT) s'))"

section \<open>Changing files\<close>

definition userfs_remove :: "('f, 'd, 'w) lfs_ops \<Rightarrow> u8 list option \<Rightarrow> ('f, 'w) userfs \<Rightarrow> ('f, 'w) uf_call" where
  "userfs_remove L name s = (
     if uf_state s \<noteq> USERFS_STATE_MOUNTED then userfs_remember USERFS_ERROR_NOT_MOUNTED s
     else if up_active (uf_upload s) then userfs_remember USERFS_ERROR_BUSY s
     else if \<not> userfs_valid_name name False then userfs_remember USERFS_ERROR_INVALID_ARGUMENT s
     else case userfs_get_startup L (USERFS_NAME_MAX + 1) s of (startup, startup_result, s1) \<Rightarrow>
       case (if startup_result = USERFS_OK \<and> Some (userfs_normal_name (the name)) = startup
             then lf_remove L USERFS_STARTUP_FILE (uf_w s1) else (0, uf_w s1)) of (result, w) \<Rightarrow>
         if result < 0 \<and> result \<noteq> LFS_ERR_NOENT then userfs_remember (userfs_from_lfs result) (s1\<lparr>uf_w := w\<rparr>)
         else case lf_remove L (userfs_normal_name (the name)) w of (result, w') \<Rightarrow>
           userfs_remember (userfs_from_lfs result) (s1\<lparr>uf_w := w'\<rparr>))"

definition hex_digit :: "u32 \<Rightarrow> u8" where
  "hex_digit v = [0x30, 0x31, 0x32, 0x33, 0x34, 0x35, 0x36, 0x37, 0x38, 0x39, 0x61, 0x62, 0x63, 0x64, 0x65, 0x66] ! unat (v AND 0x0F)"

definition temporary_name :: "u32 \<Rightarrow> u8 list" where
  "temporary_name i = USERFS_UPLOAD_PREFIX @ map (\<lambda>k. hex_digit (drop_bit ((7 - k) * 4) i)) [0..<8]"

definition userfs_upload_begin :: "('f, 'd, 'w) lfs_ops \<Rightarrow> u8 list option \<Rightarrow> u32 \<Rightarrow> u32 \<Rightarrow> bool \<Rightarrow> ('f, 'w) userfs \<Rightarrow>
    u32 option \<times> ('f, 'w) uf_call" where
  "userfs_upload_begin L name sz crc want s = (
     if uf_state s \<noteq> USERFS_STATE_MOUNTED then (None, userfs_remember USERFS_ERROR_NOT_MOUNTED s)
     else if up_active (uf_upload s) then (None, userfs_remember USERFS_ERROR_BUSY s)
     else if \<not> want \<or> \<not> userfs_valid_name name False \<or> sz > USERFS_FILE_MAX then (None, userfs_remember USERFS_ERROR_INVALID_ARGUMENT s)
     else let next = (if uf_next_upload_id s + 1 = 0 then 1 else uf_next_upload_id s + 1);
              u = no_upload\<lparr>up_id := next, up_expected_size := sz, up_expected_crc := crc,
                up_target := take USERFS_NAME_MAX (userfs_normal_name (the name)), up_temporary := temporary_name next\<rparr>;
              w1 = snd (lf_remove L (up_temporary u) (uf_w s))
          in case userfs_file_open L (up_temporary u) {LFS_O_WRONLY, LFS_O_CREAT, LFS_O_EXCL} w1 of (result, f, w2) \<Rightarrow>
            let s' = s\<lparr>uf_next_upload_id := next, uf_w := w2\<rparr> in
            if result < 0 then (None, userfs_remember (userfs_from_lfs result) (userfs_clear_upload s'))
            else (Some next, userfs_remember USERFS_OK (s'\<lparr>uf_upload := u\<lparr>up_file := Some f, up_file_open := True, up_active := True\<rparr>\<rparr>)))"

definition userfs_upload_write :: "('f, 'd, 'w) lfs_ops \<Rightarrow> u32 \<Rightarrow> u32 \<Rightarrow> u8 cptr \<Rightarrow> ('f, 'w) userfs \<Rightarrow> ('f, 'w) uf_call" where
  "userfs_upload_write L upload_id offset data s = (let u = uf_upload s in
     if \<not> up_active u \<or> upload_id \<noteq> up_id u then userfs_remember USERFS_ERROR_INVALID_ARGUMENT s
     else if offset \<noteq> up_offset u then userfs_remember USERFS_ERROR_OUT_OF_ORDER s
     else if (plen data \<noteq> 0 \<and> is_null data) \<or> plen data > USERFS_UPLOAD_CHUNK_MAX \<or> plen data > unat (up_expected_size u - up_offset u)
     then userfs_remember USERFS_ERROR_SIZE s
     else case lf_write L (the (up_file u)) (pdata data) (uf_w s) of (written, f, w) \<Rightarrow>
       let s' = s\<lparr>uf_upload := u\<lparr>up_file := Some f\<rparr>, uf_w := w\<rparr> in
       if written < 0 \<or> nat written \<noteq> plen data
       then userfs_remember (if written = LFS_ERR_NOSPC then USERFS_ERROR_NO_SPACE else USERFS_ERROR_IO) s'
       else userfs_remember USERFS_OK (s'\<lparr>uf_upload := (uf_upload s')\<lparr>up_offset := up_offset u + of_nat (plen data)\<rparr>\<rparr>))"

partial_function (option) verify_loop :: "('f, 'd, 'w) lfs_ops \<Rightarrow> 'f \<Rightarrow> u32 \<Rightarrow> u32 \<Rightarrow> 'w \<Rightarrow> (int \<times> u32 \<times> u32 \<times> 'f \<times> 'w) option" where
  "verify_loop L f crc tot w = (let r = lf_read L f USERFS_CACHE_SIZE w in
     if \<not> 0 < fst r then Some (fst r, crc, tot, snd (snd r))
     else verify_loop L (fst (snd (snd r))) (crc32_update crc (fst (snd r))) (tot + of_int (fst r)) (snd (snd (snd r))))"

definition userfs_verify_upload :: "('f, 'd, 'w) lfs_ops \<Rightarrow> ('f, 'w) userfs \<Rightarrow> ('f, 'w) uf_call option" where
  "userfs_verify_upload L s = (case userfs_file_open L (up_temporary (uf_upload s)) {LFS_O_RDONLY} (uf_w s) of (result, f, w) \<Rightarrow>
     if result < 0 then Some (userfs_from_lfs result, s\<lparr>uf_w := w\<rparr>)
     else case verify_loop L f 0 0 w of None \<Rightarrow> None
       | Some (cnt, crc, tot, f', w') \<Rightarrow>
           let s' = s\<lparr>uf_w := snd (lf_close L f' w')\<rparr> in
           Some (if cnt < 0 then userfs_from_lfs cnt
                 else if tot \<noteq> up_expected_size (uf_upload s) then USERFS_ERROR_SIZE
                 else if crc = up_expected_crc (uf_upload s) then USERFS_OK else USERFS_ERROR_CRC, s'))"

definition userfs_upload_commit :: "('f, 'd, 'w) lfs_ops \<Rightarrow> u32 \<Rightarrow> ('f, 'w) userfs \<Rightarrow> ('f, 'w) uf_call option" where
  "userfs_upload_commit L upload_id s = (let u = uf_upload s in
     if \<not> up_active u \<or> upload_id \<noteq> up_id u then Some (userfs_remember USERFS_ERROR_INVALID_ARGUMENT s)
     else if up_offset u \<noteq> up_expected_size u then Some (userfs_remember USERFS_ERROR_SIZE s)
     else case lf_sync L (the (up_file u)) (uf_w s) of (result, f, w1) \<Rightarrow>
       case lf_close L f w1 of (close_result, w2) \<Rightarrow>
         let result = (if result = 0 then close_result else result);
             s1 = s\<lparr>uf_upload := u\<lparr>up_file := Some f, up_file_open := False\<rparr>, uf_w := w2\<rparr>
         in if result < 0 then Some (userfs_remember (userfs_from_lfs result) s1)
            else case userfs_verify_upload L s1 of None \<Rightarrow> None
              | Some (verify, s2) \<Rightarrow>
                  if verify \<noteq> USERFS_OK then Some (userfs_remember verify s2)
                  else case lf_rename L (up_temporary u) (up_target u) (uf_w s2) of (result, w3) \<Rightarrow>
                    if result < 0 then Some (userfs_remember (userfs_from_lfs result) (s2\<lparr>uf_w := w3\<rparr>))
                    else Some (userfs_remember USERFS_OK (userfs_clear_upload (s2\<lparr>uf_w := w3\<rparr>))))"

definition userfs_atomic_metadata :: "('f, 'd, 'w) lfs_ops \<Rightarrow> u8 list \<Rightarrow> 'w \<Rightarrow> userfs_result \<times> 'w" where
  "userfs_atomic_metadata L data w = (
     let w0 = snd (lf_remove L USERFS_META_TEMP w) in
     case userfs_file_open L USERFS_META_TEMP {LFS_O_WRONLY, LFS_O_CREAT, LFS_O_EXCL} w0 of (result, f, w1) \<Rightarrow>
       if result < 0 then (userfs_from_lfs result, w1)
       else case lf_write L f data w1 of (written, f, w2) \<Rightarrow>
         if written < 0 \<or> nat written \<noteq> length data then
           (if written = LFS_ERR_NOSPC then USERFS_ERROR_NO_SPACE else USERFS_ERROR_IO,
            snd (lf_remove L USERFS_META_TEMP (snd (lf_close L f w2))))
         else case lf_sync L f w2 of (result, f, w3) \<Rightarrow>
           case lf_close L f w3 of (close_result, w4) \<Rightarrow>
             let result = (if result = 0 then close_result else result) in
             case (if result = 0 then lf_rename L USERFS_META_TEMP USERFS_STARTUP_FILE w4 else (result, w4)) of (result, w5) \<Rightarrow>
               (userfs_from_lfs result, w5))"

definition userfs_set_startup :: "('f, 'd, 'w) lfs_ops \<Rightarrow> u8 list option \<Rightarrow> ('f, 'w) userfs \<Rightarrow> ('f, 'w) uf_call" where
  "userfs_set_startup L name s = (
     if uf_state s \<noteq> USERFS_STATE_MOUNTED then userfs_remember USERFS_ERROR_NOT_MOUNTED s
     else if up_active (uf_upload s) then userfs_remember USERFS_ERROR_BUSY s
     else if name = None \<or> name = Some [] then
       (case lf_remove L USERFS_STARTUP_FILE (uf_w s) of (r, w) \<Rightarrow>
          userfs_remember (userfs_from_lfs (if r = LFS_ERR_NOENT then 0 else r)) (s\<lparr>uf_w := w\<rparr>))
     else if \<not> userfs_valid_name name False then userfs_remember USERFS_ERROR_INVALID_ARGUMENT s
     else case lf_stat L (userfs_normal_name (the name)) (uf_w s) of (r, info, w) \<Rightarrow>
       if r < 0 \<or> li_type info \<noteq> LFS_TYPE_REG then userfs_remember USERFS_ERROR_NOT_FOUND (s\<lparr>uf_w := w\<rparr>)
       else case userfs_atomic_metadata L (userfs_normal_name (the name)) w of (result, w') \<Rightarrow> userfs_remember result (s\<lparr>uf_w := w'\<rparr>))"

section \<open>What littlefs promises\<close>

text \<open>
  The view of a littlefs world: whether it is mounted, the entries of the root directory, the file a handle is open for
  writing on with what it will hold once it is synced (unknown when another file was opened with the same cache), what a handle is open for reading
  on and where, and what a directory handle has still to deliver.
\<close>

datatype lfs_entry = Reg "u8 list" | Dir

record ('f, 'd, 'w) lfs_view =
  lv_mounted :: "'w \<Rightarrow> bool"
  lv_entries :: "'w \<Rightarrow> u8 list \<Rightarrow> lfs_entry option"
  lv_writer :: "'w \<Rightarrow> 'f \<Rightarrow> (u8 list \<times> u8 list option) option"
  lv_reader :: "'w \<Rightarrow> 'f \<Rightarrow> (u8 list \<times> nat) option"
  lv_listing :: "'w \<Rightarrow> 'd \<Rightarrow> lfs_info list option"

definition describes :: "lfs_info \<Rightarrow> lfs_entry \<Rightarrow> bool" where
  "describes i e \<longleftrightarrow> (case e of Reg b \<Rightarrow> li_type i = LFS_TYPE_REG \<and> unat (li_size i) = length b | Dir \<Rightarrow> li_type i = LFS_TYPE_DIR)"

text \<open>Nothing changed; only the entries \<open>ns\<close> changed; nothing changed but the file cache.\<close>

definition lfs_only :: "('f, 'd, 'w) lfs_view \<Rightarrow> u8 list set \<Rightarrow> 'w \<Rightarrow> 'w \<Rightarrow> bool" where
  "lfs_only V ns w w' \<longleftrightarrow> lv_mounted V w' \<and> (\<forall>m. m \<notin> ns \<longrightarrow> lv_entries V w' m = lv_entries V w m) \<and>
     (\<forall>f m c. m \<notin> ns \<longrightarrow> lv_writer V w f = Some (m, c) \<longrightarrow> lv_writer V w' f = Some (m, c))"

definition lfs_cache :: "('f, 'd, 'w) lfs_view \<Rightarrow> u8 list set \<Rightarrow> 'w \<Rightarrow> 'w \<Rightarrow> bool" where
  "lfs_cache V ns w w' \<longleftrightarrow> lv_mounted V w' \<and> (\<forall>m. m \<notin> ns \<longrightarrow> lv_entries V w' m = lv_entries V w m) \<and>
     (\<forall>f m c. m \<notin> ns \<longrightarrow> lv_writer V w f = Some (m, c) \<longrightarrow> (\<exists>c'. lv_writer V w' f = Some (m, c')))"

text \<open>
  The documented behaviour of littlefs on a mounted file system: a call touches the entry it names and no other, a removal
  or a renaming is done or not done, what was written and synced is what the file holds, and reading gives it back.
\<close>

locale littlefs =
  fixes L :: "('f, 'd, 'w) lfs_ops" and V :: "('f, 'd, 'w) lfs_view"
  assumes entry_name: "lv_mounted V w \<Longrightarrow> lv_entries V w n \<noteq> None \<Longrightarrow> n \<noteq> [] \<and> length n \<le> USERFS_NAME_MAX"
    and entry_size: "lv_mounted V w \<Longrightarrow> lv_entries V w n = Some (Reg b) \<Longrightarrow> length b < 2 ^ 31"
    and mount_law: "lf_mount L cfg w = (0, w') \<Longrightarrow> lv_mounted V w'"
    and size_law: "lf_fs_size L w = (r, w') \<Longrightarrow> lv_mounted V w \<Longrightarrow> lfs_only V {} w w'"
    and stat_law: "lf_stat L n w = (r, i, w') \<Longrightarrow> lv_mounted V w \<Longrightarrow> lfs_only V {} w w' \<and> r \<le> 0 \<and>
      (r = 0 \<longrightarrow> (\<exists>e. lv_entries V w n = Some e \<and> describes i e))"
    and remove_law: "lf_remove L n w = (r, w') \<Longrightarrow> lv_mounted V w \<Longrightarrow> lfs_only V {n} w w' \<and>
      lv_entries V w' n \<in> {lv_entries V w n, None} \<and> (0 \<le> r \<longrightarrow> lv_entries V w' n = None)"
    and rename_law: "lf_rename L a b w = (r, w') \<Longrightarrow> lv_mounted V w \<Longrightarrow> a \<noteq> b \<Longrightarrow> lfs_only V {a, b} w w' \<and>
      (0 \<le> r \<longrightarrow> lv_entries V w' a = None) \<and>
      (lv_entries V w' b = lv_entries V w a \<or> r < 0 \<and> lv_entries V w' b = lv_entries V w b)"
    and clear_law: "lv_mounted V w \<Longrightarrow> lfs_cache V {} w (lf_clear_cache L w)"
    and open_read: "lf_opencfg L n {LFS_O_RDONLY} w = (r, f, w') \<Longrightarrow> lv_mounted V w \<Longrightarrow> lfs_cache V {} w w' \<and>
      (0 \<le> r \<longrightarrow> (\<exists>b. lv_entries V w n = Some (Reg b) \<and> lv_reader V w' f = Some (b, 0)))"
    and open_write: "lf_opencfg L n {LFS_O_WRONLY, LFS_O_CREAT, LFS_O_EXCL} w = (r, f, w') \<Longrightarrow> lv_mounted V w \<Longrightarrow> lfs_cache V {n} w w' \<and>
      (0 \<le> r \<longrightarrow> lv_writer V w' f = Some (n, Some []))"
    and read_law: "lf_read L f k w = (r, d, f', w') \<Longrightarrow> lv_mounted V w \<Longrightarrow> lv_reader V w f = Some (b, p) \<Longrightarrow> lfs_only V {} w w' \<and>
      lv_reader V w' f' \<noteq> None \<and> (0 \<le> r \<longrightarrow> d = take k (drop p b) \<and> r = int (length d) \<and> lv_reader V w' f' = Some (b, p + length d))"
    and seek_law: "lf_seek L f off w = (r, f', w') \<Longrightarrow> lv_mounted V w \<Longrightarrow> lv_reader V w f = Some (b, p) \<Longrightarrow> lfs_only V {} w w' \<and>
      lv_reader V w' f' \<noteq> None \<and> (0 \<le> r \<longrightarrow> lv_reader V w' f' = Some (b, unat off))"
    and close_read: "lf_close L f w = (r, w') \<Longrightarrow> lv_mounted V w \<Longrightarrow> lv_reader V w f \<noteq> None \<Longrightarrow> lfs_only V {} w w'"
    and write_law: "lf_write L f d w = (r, f', w') \<Longrightarrow> lv_mounted V w \<Longrightarrow> lv_writer V w f = Some (n, c) \<Longrightarrow> lfs_only V {n} w w' \<and>
      (\<exists>c'. lv_writer V w' f' = Some (n, c')) \<and>
      (r = int (length d) \<and> c \<noteq> None \<longrightarrow> lv_writer V w' f' = Some (n, Some (the c @ d)))"
    and sync_law: "lf_sync L f w = (r, f', w') \<Longrightarrow> lv_mounted V w \<Longrightarrow> lv_writer V w f = Some (n, c) \<Longrightarrow> lfs_only V {n} w w' \<and>
      (\<exists>c'. lv_writer V w' f' = Some (n, c')) \<and> r \<le> 0 \<and> (r = 0 \<and> c \<noteq> None \<longrightarrow> lv_writer V w' f' = Some (n, c))"
    and close_write: "lf_close L f w = (r, w') \<Longrightarrow> lv_mounted V w \<Longrightarrow> lv_writer V w f = Some (n, c) \<Longrightarrow> lfs_only V {n} w w' \<and> r \<le> 0 \<and>
      (0 \<le> r \<and> c \<noteq> None \<longrightarrow> lv_entries V w' n = Some (Reg (the c)))"
    and dir_open_law: "lf_dir_open L w = (r, h, w') \<Longrightarrow> lv_mounted V w \<Longrightarrow> lfs_only V {} w w' \<and> (0 \<le> r \<longrightarrow>
      (\<exists>l. lv_listing V w' h = Some l \<and> distinct (map li_name l) \<and>
         (\<forall>i \<in> set l. li_name i \<in> {[0x2E], [0x2E, 0x2E]} \<or> (\<exists>e. lv_entries V w (li_name i) = Some e \<and> describes i e)) \<and>
         (\<forall>n. lv_entries V w n \<noteq> None \<longrightarrow> n \<in> li_name ` set l)))"
    and dir_read_law: "lf_dir_read L h w = (r, i, h', w') \<Longrightarrow> lv_mounted V w \<Longrightarrow> lv_listing V w h = Some l \<Longrightarrow> lfs_only V {} w w' \<and>
      (0 < r \<longrightarrow> l \<noteq> [] \<and> i = hd l \<and> lv_listing V w' h' = Some (tl l)) \<and> (r = 0 \<longrightarrow> l = [])"
    and dir_close_law: "lv_mounted V w \<Longrightarrow> lfs_only V {} w (lf_dir_close L h w)"

section \<open>Names\<close>

definition visible :: "u8 list \<Rightarrow> bool" where
  "visible n \<longleftrightarrow> n \<noteq> [] \<and> hd n \<noteq> 0x2E \<and> length n \<le> USERFS_NAME_MAX"

lemma valid_visible: "userfs_valid_name (Some n) False \<Longrightarrow> visible (userfs_normal_name n)"
  by (auto simp: userfs_valid_name_def visible_def Let_def split: if_splits)

lemma hidden_names: "\<not> visible (temporary_name i)" "\<not> visible USERFS_META_TEMP" "\<not> visible USERFS_STARTUP_FILE"
  by (simp_all add: visible_def temporary_name_def USERFS_UPLOAD_PREFIX_def USERFS_META_TEMP_def USERFS_STARTUP_FILE_def)

lemma stale_hidden: "stale_name n \<Longrightarrow> \<not> visible n"
  by (cases n) (auto simp: stale_name_def visible_def USERFS_UPLOAD_PREFIX_def USERFS_META_TEMP_def)

lemma temporary_other: "temporary_name i \<noteq> USERFS_META_TEMP" "temporary_name i \<noteq> USERFS_STARTUP_FILE" "USERFS_META_TEMP \<noteq> USERFS_STARTUP_FILE"
  by (simp_all add: temporary_name_def USERFS_UPLOAD_PREFIX_def USERFS_META_TEMP_def USERFS_STARTUP_FILE_def)

text \<open>How the laws combine.\<close>

lemma only_refl: "lv_mounted V w \<Longrightarrow> lfs_only V ns w w"
  by (simp add: lfs_only_def)

lemma only_trans: "lfs_only V a w w1 \<Longrightarrow> lfs_only V b w1 w2 \<Longrightarrow> lfs_only V (a \<union> b) w w2"
  by (auto simp: lfs_only_def)

lemma only_mono: "lfs_only V a w w' \<Longrightarrow> a \<subseteq> b \<Longrightarrow> lfs_only V b w w'"
  unfolding lfs_only_def by blast

lemma cache_trans: "lfs_cache V a w w1 \<Longrightarrow> lfs_cache V b w1 w2 \<Longrightarrow> lfs_cache V (a \<union> b) w w2"
  by (fastforce simp: lfs_cache_def)

lemma cache_mono: "lfs_cache V a w w' \<Longrightarrow> a \<subseteq> b \<Longrightarrow> lfs_cache V b w w'"
  unfolding lfs_cache_def by blast

lemma only_cache: "lfs_only V a w w' \<Longrightarrow> lfs_cache V a w w'"
  by (fastforce simp: lfs_only_def lfs_cache_def)

lemma cache_only: "lfs_cache V a w w1 \<Longrightarrow> lfs_only V a w1 w2 \<Longrightarrow> lfs_cache V a w w2"
  using cache_trans [of V a w w1 a w2] by (simp add: only_cache)

lemma only_only: "lfs_only V a w w1 \<Longrightarrow> lfs_only V a w1 w2 \<Longrightarrow> lfs_only V a w w2"
  using only_trans [of V a w w1 a w2] by simp

lemma cache_mounted: "lfs_cache V a w w' \<Longrightarrow> lv_mounted V w'" "lfs_only V a w w' \<Longrightarrow> lv_mounted V w'"
  by (simp_all add: lfs_only_def lfs_cache_def)

lemma cache_entry: "lfs_cache V a w w' \<Longrightarrow> n \<notin> a \<Longrightarrow> lv_entries V w' n = lv_entries V w n"
  by (simp add: lfs_cache_def)

lemma only_entry: "lfs_only V a w w' \<Longrightarrow> n \<notin> a \<Longrightarrow> lv_entries V w' n = lv_entries V w n"
  by (simp add: lfs_only_def)

lemma cache_writer: "lfs_cache V a w w' \<Longrightarrow> m \<notin> a \<Longrightarrow> lv_writer V w f = Some (m, c) \<Longrightarrow> \<exists>c'. lv_writer V w' f = Some (m, c')"
  by (simp add: lfs_cache_def)

context littlefs
begin

lemma file_open_read:
  assumes "userfs_file_open L n {LFS_O_RDONLY} w = (r, f, w')" and m: "lv_mounted V w"
  shows "lfs_cache V {} w w' \<and> (0 \<le> r \<longrightarrow> (\<exists>b. lv_entries V w n = Some (Reg b) \<and> lv_reader V w' f = Some (b, 0)))"
proof -
  note c = clear_law [OF m]
  note o = open_read [OF assms(1) [unfolded userfs_file_open_def] cache_mounted(1) [OF c]]
  show ?thesis using o cache_entry [OF c] cache_trans [OF c, of "{}" w'] by auto
qed

lemma file_open_write:
  assumes "userfs_file_open L n {LFS_O_WRONLY, LFS_O_CREAT, LFS_O_EXCL} w = (r, f, w')" and m: "lv_mounted V w"
  shows "lfs_cache V {n} w w' \<and> (0 \<le> r \<longrightarrow> lv_writer V w' f = Some (n, Some []))"
proof -
  note c = clear_law [OF m]
  note o = open_write [OF assms(1) [unfolded userfs_file_open_def] cache_mounted(1) [OF c]]
  show ?thesis using o cache_trans [OF c, of "{n}" w'] by auto
qed

lemma closed_read:
  assumes "lv_mounted V w" and "lv_reader V w f \<noteq> None"
  shows "lfs_only V {} w (snd (lf_close L f w))"
  using close_read [of f w] assms by (metis prod.collapse)

end

section \<open>Looking at files changes none\<close>

lemma from_lfs_ok [simp]: "userfs_from_lfs e = USERFS_OK \<longleftrightarrow> 0 \<le> e"
  by (simp add: userfs_from_lfs_def)

definition userfs_ok :: "('f, 'd, 'w) lfs_view \<Rightarrow> ('f, 'w) userfs \<Rightarrow> bool" where
  "userfs_ok V s \<longleftrightarrow> (uf_state s = USERFS_STATE_MOUNTED \<longrightarrow> lv_mounted V (uf_w s)) \<and> (let u = uf_upload s in up_active u \<longrightarrow>
     uf_state s = USERFS_STATE_MOUNTED \<and> up_temporary u = temporary_name (up_id u) \<and> visible (up_target u) \<and>
     up_offset u \<le> up_expected_size u \<and> up_expected_size u \<le> USERFS_FILE_MAX \<and>
     (\<exists>f. up_file u = Some f \<and> (up_file_open u \<longrightarrow> (\<exists>c. lv_writer V (uf_w s) f = Some (up_temporary u, c)))))"

definition looked :: "('f, 'd, 'w) lfs_view \<Rightarrow> ('f, 'w) userfs \<Rightarrow> ('f, 'w) userfs \<Rightarrow> bool" where
  "looked V s s' \<longleftrightarrow> uf_upload s' = uf_upload s \<and> uf_state s' = uf_state s \<and> uf_next_upload_id s' = uf_next_upload_id s \<and>
     (uf_state s = USERFS_STATE_MOUNTED \<longrightarrow> lfs_cache V {} (uf_w s) (uf_w s'))"

lemma remember_simps [simp]: "fst (userfs_remember r s) = r" "uf_w (snd (userfs_remember r s)) = uf_w s"
  "uf_upload (snd (userfs_remember r s)) = uf_upload s" "uf_state (snd (userfs_remember r s)) = uf_state s"
  "uf_next_upload_id (snd (userfs_remember r s)) = uf_next_upload_id s"
  by (simp_all add: userfs_remember_def)

lemma remember_eq: "userfs_remember r s = (r', s') \<longleftrightarrow> r' = r \<and> s' = s\<lparr>uf_last_error := r\<rparr>"
  by (auto simp: userfs_remember_def)

lemma ok_error [simp]: "userfs_ok V (s\<lparr>uf_last_error := r\<rparr>) = userfs_ok V s"
  by (simp add: userfs_ok_def)

lemma cache_refl: "lv_mounted V w \<Longrightarrow> lfs_cache V ns w w"
  by (auto simp: lfs_cache_def)

lemma looked_same: "userfs_ok V s \<Longrightarrow> looked V s (s\<lparr>uf_last_error := r\<rparr>)"
  by (auto simp: looked_def userfs_ok_def intro: cache_refl)

lemma looked_cache: "lfs_cache V {} (uf_w s) w \<Longrightarrow> looked V s (s\<lparr>uf_w := w, uf_last_error := r\<rparr>)"
  by (simp add: looked_def)

lemma looked_only: "lfs_only V {} (uf_w s) w \<Longrightarrow> looked V s (s\<lparr>uf_w := w, uf_last_error := r\<rparr>)"
  by (simp add: looked_def only_cache)

lemma looked_ok: "looked V s s' \<Longrightarrow> userfs_ok V s \<Longrightarrow> userfs_ok V s'"
  unfolding looked_def userfs_ok_def Let_def by (auto dest: cache_mounted(1)) (metis cache_writer empty_iff)

lemma looked_entries: "looked V s s' \<Longrightarrow> uf_state s = USERFS_STATE_MOUNTED \<Longrightarrow> lv_entries V (uf_w s') = lv_entries V (uf_w s)"
  by (auto simp: looked_def lfs_cache_def)

lemma ok_mounted: "userfs_ok V s \<Longrightarrow> uf_state s = USERFS_STATE_MOUNTED \<Longrightarrow> lv_mounted V (uf_w s)"
  by (simp add: userfs_ok_def)

context littlefs
begin

lemma status_looked: "userfs_get_status L s = (st, s') \<Longrightarrow> userfs_ok V s \<Longrightarrow> looked V s s'"
  using size_law [of "uf_w s"] ok_mounted [of V s]
  by (auto simp: userfs_get_status_def Let_def looked_def only_cache split: prod.splits if_splits)

lemma stat_looked:
  assumes "userfs_stat L n want s = (sz, r, s')" and ok: "userfs_ok V s"
  shows "looked V s s'"
proof (cases "uf_state s \<noteq> USERFS_STATE_MOUNTED \<or> \<not> want \<or> \<not> userfs_valid_name n False")
  case True
  then show ?thesis using assms(1) looked_same [OF ok] by (auto simp: userfs_stat_def remember_eq split: if_splits)
next
  case False
  obtain q i w where q: "lf_stat L (userfs_normal_name (the n)) (uf_w s) = (q, i, w)" by (metis prod_cases3)
  from False assms(1) q have "\<exists>e. s' = s\<lparr>uf_w := w, uf_last_error := e\<rparr>"
    by (auto simp: userfs_stat_def Let_def remember_eq split: if_splits)
  then show ?thesis using stat_law [OF q] ok_mounted [OF ok] False by (auto intro: looked_only)
qed

lemma read_looked:
  assumes "userfs_read L n off d s = (bs, r, s')" and ok: "userfs_ok V s"
  shows "looked V s s'"
proof (cases "uf_state s \<noteq> USERFS_STATE_MOUNTED \<or> up_active (uf_upload s) \<or> (plen d \<noteq> 0 \<and> is_null d) \<or> \<not> userfs_valid_name n False")
  case True
  then show ?thesis using assms(1) looked_same [OF ok] by (auto simp: userfs_read_def remember_eq split: if_splits)
next
  case False
  then have m: "lv_mounted V (uf_w s)" using ok_mounted [OF ok] by simp
  obtain r1 f1 w1 where o: "userfs_file_open L (userfs_normal_name (the n)) {LFS_O_RDONLY} (uf_w s) = (r1, f1, w1)" by (metis prod_cases3)
  note ol = file_open_read [OF o m]
  show ?thesis
  proof (cases "r1 < 0")
    case True
    then have "\<exists>e. s' = s\<lparr>uf_w := w1, uf_last_error := e\<rparr>" using False assms(1) o by (auto simp: userfs_read_def remember_eq)
    then show ?thesis using ol by (auto intro: looked_cache)
  next
    case opened: False
    then obtain b where b: "lv_reader V w1 f1 = Some (b, 0)" using ol by auto
    have m1: "lv_mounted V w1" using ol by (auto dest: cache_mounted)
    obtain r2 f2 w2 where k: "lf_seek L f1 off w1 = (r2, f2, w2)" by (metis prod_cases3)
    note kl = seek_law [OF k m1 b]
    have m2: "lv_mounted V w2" using kl by (auto dest: cache_mounted)
    obtain p where p: "lv_reader V w2 f2 = Some p" using kl by auto
    obtain r3 bs3 f3 w3 where rd: "(if plen d \<noteq> 0 then lf_read L f2 (plen d) w2 else (0, [], f2, w2)) = (r3, bs3, f3, w3)" by (metis prod_cases4)
    have rl: "lfs_only V {} w2 w3 \<and> lv_reader V w3 f3 \<noteq> None"
    proof (cases "plen d = 0")
      case True
      then show ?thesis using rd p only_refl [OF m2] by auto
    next
      case False
      then have "lf_read L f2 (plen d) w2 = (r3, bs3, f3, w3)" using rd by simp
      from read_law [OF this m2, of "fst p" "snd p"] p show ?thesis by simp
    qed
    then have m3: "lv_mounted V w3" by (simp add: lfs_only_def)
    let ?w = "if r2 < 0 then snd (lf_close L f2 w2) else snd (lf_close L f3 w3)"
    have "lfs_only V {} w2 ?w"
      using closed_read [OF m2, of f2] closed_read [OF m3, of f3] p rl by (auto elim: only_only)
    then have "lfs_cache V {} (uf_w s) ?w"
      using cache_only [OF _ only_only, of V "{}" "uf_w s" w1 w2 ?w] ol kl by blast
    moreover have "\<exists>e. s' = s\<lparr>uf_w := ?w, uf_last_error := e\<rparr>"
      using False opened assms(1) o k rd by (cases "r2 < 0"; cases "r3 < 0"; auto simp: userfs_read_def remember_eq Let_def)
    ultimately show ?thesis by (auto intro: looked_cache)
  qed
qed

lemma get_startup_looked:
  assumes "userfs_get_startup L cap s = (nm, r, s')" and ok: "userfs_ok V s"
  shows "looked V s s'"
proof (cases "uf_state s \<noteq> USERFS_STATE_MOUNTED \<or> cap < 2")
  case True
  then show ?thesis using assms(1) looked_same [OF ok] by (auto simp: userfs_get_startup_def remember_eq split: if_splits)
next
  case False
  then have m: "lv_mounted V (uf_w s)" using ok_mounted [OF ok] by simp
  obtain r1 f1 w1 where o: "userfs_file_open L USERFS_STARTUP_FILE {LFS_O_RDONLY} (uf_w s) = (r1, f1, w1)" by (metis prod_cases3)
  note ol = file_open_read [OF o m]
  show ?thesis
  proof (cases "r1 < 0")
    case True
    then have "\<exists>e. s' = s\<lparr>uf_w := w1, uf_last_error := e\<rparr>" using False assms(1) o by (auto simp: userfs_get_startup_def remember_eq)
    then show ?thesis using ol by (auto intro: looked_cache)
  next
    case opened: False
    then obtain b where b: "lv_reader V w1 f1 = Some (b, 0)" using ol by auto
    have m1: "lv_mounted V w1" using ol by (auto dest: cache_mounted)
    obtain r3 bs3 f3 w3 where rd: "lf_read L f1 (cap - 1) w1 = (r3, bs3, f3, w3)" by (metis prod_cases4)
    note rl = read_law [OF rd m1 b]
    then have m3: "lv_mounted V w3" by (simp add: lfs_only_def)
    have "lfs_only V {} w1 (snd (lf_close L f3 w3))" using closed_read [OF m3, of f3] rl by (auto elim: only_only)
    then have "lfs_cache V {} (uf_w s) (snd (lf_close L f3 w3))" using ol by (auto intro: cache_only)
    moreover have "\<exists>e. s' = s\<lparr>uf_w := snd (lf_close L f3 w3), uf_last_error := e\<rparr>"
      using False opened assms(1) o rd by (auto simp: userfs_get_startup_def remember_eq Let_def split: if_splits)
    ultimately show ?thesis by (auto intro: looked_cache)
  qed
qed

end

section \<open>Uploads\<close>

lemma add_fits:
  assumes "k \<le> unat (e - b)" and "b \<le> (e :: u32)"
  shows "b + of_nat k \<le> e" "unat (b + of_nat k) = unat b + k"
proof -
  have le: "unat b + k \<le> unat e" using assms by (simp add: unat_sub word_le_nat_alt)
  then have "unat b + k < 2 ^ 32" "k < 2 ^ 32" using unsigned_less [of e, where ?'a = nat] by auto
  then show u: "unat (b + of_nat k) = unat b + k" by (simp add: unat_word_ariths unat_of_nat)
  then show "b + of_nat k \<le> e" using le by (simp add: word_le_nat_alt)
qed

text \<open>The visible files are the same.\<close>

definition kept_files :: "('f, 'd, 'w) lfs_view \<Rightarrow> 'w \<Rightarrow> 'w \<Rightarrow> bool" where
  "kept_files V w w' \<longleftrightarrow> (\<forall>n. visible n \<longrightarrow> lv_entries V w' n = lv_entries V w n)"

lemma kept_refl: "kept_files V w w"
  by (simp add: kept_files_def)

lemma kept_trans: "kept_files V w w1 \<Longrightarrow> kept_files V w1 w2 \<Longrightarrow> kept_files V w w2"
  by (simp add: kept_files_def)

lemma cache_kept: "lfs_cache V ns w w' \<Longrightarrow> \<forall>n \<in> ns. \<not> visible n \<Longrightarrow> kept_files V w w'"
  by (auto simp: kept_files_def lfs_cache_def)

lemma only_kept: "lfs_only V ns w w' \<Longrightarrow> \<forall>n \<in> ns. \<not> visible n \<Longrightarrow> kept_files V w w'"
  by (auto simp: kept_files_def lfs_only_def)

lemma looked_kept: "looked V s s' \<Longrightarrow> uf_state s = USERFS_STATE_MOUNTED \<Longrightarrow> kept_files V (uf_w s) (uf_w s')"
  using cache_kept [of V "{}"] by (auto simp: looked_def)

text \<open>The file of an upload: open on its temporary name, with what it will hold.\<close>

definition uploading :: "('f, 'd, 'w) lfs_view \<Rightarrow> ('f, 'w) userfs \<Rightarrow> u8 list option \<Rightarrow> bool" where
  "uploading V s c \<longleftrightarrow> up_active (uf_upload s) \<and> up_file_open (uf_upload s) \<and>
     (\<exists>f. up_file (uf_upload s) = Some f \<and> lv_writer V (uf_w s) f = Some (up_temporary (uf_upload s), c))"

lemma ok_uploading: "userfs_ok V s \<Longrightarrow> up_active (uf_upload s) \<Longrightarrow> up_file_open (uf_upload s) \<Longrightarrow> \<exists>c. uploading V s c"
  by (auto simp: userfs_ok_def uploading_def Let_def)

lemma ok_inactive: "userfs_ok V s \<Longrightarrow> uf_state s \<noteq> USERFS_STATE_MOUNTED \<Longrightarrow> \<not> up_active (uf_upload s)"
  by (auto simp: userfs_ok_def Let_def)

lemma no_upload_simps [simp]: "\<not> up_active no_upload" "\<not> up_file_open no_upload"
  by (simp_all add: no_upload_def)

lemma cleared_ok: "lv_mounted V w \<Longrightarrow> userfs_ok V ((userfs_clear_upload (s\<lparr>uf_w := w\<rparr>))\<lparr>uf_last_error := e\<rparr>)"
  by (simp add: userfs_ok_def userfs_clear_upload_def)

lemma cleared_w [simp]: "uf_w (userfs_clear_upload s) = uf_w s" "uf_state (userfs_clear_upload s) = uf_state s"
    "uf_upload (userfs_clear_upload s) = no_upload"
  by (simp_all add: userfs_clear_upload_def)

definition verified :: "('f, 'd, 'w) lfs_view \<Rightarrow> 'f userfs_upload \<Rightarrow> 'w \<Rightarrow> u8 list \<Rightarrow> bool" where
  "verified V u w n \<longleftrightarrow> (\<exists>b. lv_entries V w n = Some (Reg b) \<and> length b = unat (up_expected_size u) \<and> crc32_update 0 b = up_expected_crc u)"

definition committed :: "('f, 'd, 'w) lfs_view \<Rightarrow> u8 list option \<Rightarrow> u32 \<Rightarrow> ('f, 'w) userfs \<Rightarrow> userfs_result \<Rightarrow> ('f, 'w) userfs \<Rightarrow> bool" where
  "committed V c i s r s' \<longleftrightarrow> userfs_ok V s' \<and> uf_state s' = uf_state s \<and>
     (\<forall>n. visible n \<longrightarrow> lv_entries V (uf_w s') n = lv_entries V (uf_w s) n \<or>
        n = up_target (uf_upload s) \<and> verified V (uf_upload s) (uf_w s') n) \<and>
     (r = USERFS_OK \<longrightarrow> \<not> up_active (uf_upload s') \<and> up_active (uf_upload s) \<and> i = up_id (uf_upload s) \<and>
        up_offset (uf_upload s) = up_expected_size (uf_upload s) \<and> verified V (uf_upload s) (uf_w s') (up_target (uf_upload s)) \<and>
        (c \<noteq> None \<longrightarrow> lv_entries V (uf_w s') (up_target (uf_upload s)) = Some (Reg (the c))))"

context littlefs
begin

lemma begin_effect:
  assumes run: "userfs_upload_begin L name sz crc want s = (i, r, s')" and ok: "userfs_ok V s"
  shows "userfs_ok V s' \<and> (uf_state s = USERFS_STATE_MOUNTED \<longrightarrow> kept_files V (uf_w s) (uf_w s')) \<and> uf_state s' = uf_state s \<and>
    (r = USERFS_OK \<longrightarrow> i = Some (up_id (uf_upload s')) \<and> name \<noteq> None \<and> visible (userfs_normal_name (the name)) \<and> uf_state s = USERFS_STATE_MOUNTED \<and>
      up_target (uf_upload s') = userfs_normal_name (the name) \<and> up_expected_size (uf_upload s') = sz \<and>
      up_expected_crc (uf_upload s') = crc \<and> up_offset (uf_upload s') = 0 \<and> uploading V s' (Some [])) \<and> (r \<noteq> USERFS_OK \<longrightarrow> i = None)"
proof (cases "uf_state s \<noteq> USERFS_STATE_MOUNTED \<or> up_active (uf_upload s) \<or> \<not> want \<or> \<not> userfs_valid_name name False \<or> sz > USERFS_FILE_MAX")
  case True
  then have "\<exists>e. r = e \<and> e \<noteq> USERFS_OK \<and> i = None \<and> s' = s\<lparr>uf_last_error := e\<rparr>"
    using run by (auto simp: userfs_upload_begin_def remember_eq split: if_splits)
  then show ?thesis using ok kept_refl by auto
next
  case False
  then have m: "lv_mounted V (uf_w s)" using ok_mounted [OF ok] by simp
  obtain nm where nm: "name = Some nm" using False by (cases name) (auto simp: userfs_valid_name_def)
  have vis: "visible (userfs_normal_name nm)" using False nm valid_visible by blast
  then have take: "take USERFS_NAME_MAX (userfs_normal_name nm) = userfs_normal_name nm" by (simp add: visible_def)
  define n where "n = (if uf_next_upload_id s + 1 = 0 then 1 else uf_next_upload_id s + 1)"
  obtain q w1 where rm: "lf_remove L (temporary_name n) (uf_w s) = (q, w1)" by (metis prod.collapse)
  note rl = remove_law [OF rm m]
  have m1: "lv_mounted V w1" using rl by (simp add: lfs_only_def)
  obtain r2 f2 w2 where op: "userfs_file_open L (temporary_name n) {LFS_O_WRONLY, LFS_O_CREAT, LFS_O_EXCL} w1 = (r2, f2, w2)" by (metis prod_cases3)
  note ol = file_open_write [OF op m1]
  have c: "lfs_cache V {temporary_name n} (uf_w s) w2" using cache_trans [OF only_cache] rl ol by fastforce
  have k: "kept_files V (uf_w s) w2" using c by (rule cache_kept) (simp add: hidden_names)
  have m2: "lv_mounted V w2" using c by (simp add: lfs_cache_def)
  show ?thesis
  proof (cases "r2 < 0")
    case True
    then have "r \<noteq> USERFS_OK \<and> i = None \<and> s' = (userfs_clear_upload (s\<lparr>uf_next_upload_id := n, uf_w := w2\<rparr>))\<lparr>uf_last_error := r\<rparr>"
      using False run rm op nm take by (auto simp: userfs_upload_begin_def Let_def n_def [symmetric] remember_eq userfs_from_lfs_def)
    then show ?thesis using k m2 by (simp add: userfs_ok_def)
  next
    case opened: False
    then have s': "r = USERFS_OK \<and> i = Some n \<and> s' = s\<lparr>uf_next_upload_id := n, uf_w := w2, uf_upload := no_upload\<lparr>up_id := n, up_expected_size := sz,
        up_expected_crc := crc, up_target := userfs_normal_name nm, up_temporary := temporary_name n, up_file := Some f2, up_file_open := True,
        up_active := True\<rparr>, uf_last_error := USERFS_OK\<rparr>"
      using False run rm op nm take by (auto simp: userfs_upload_begin_def Let_def n_def [symmetric] remember_eq)
    have "lv_writer V w2 f2 = Some (temporary_name n, Some [])" using ol opened by simp
    then show ?thesis using s' k m2 False vis nm by (auto simp: userfs_ok_def uploading_def no_upload_def Let_def)
  qed
qed

lemma write_effect:
  assumes run: "userfs_upload_write L i off data s = (r, s')" and ok: "userfs_ok V s" and up: "uploading V s c"
  shows "userfs_ok V s' \<and> kept_files V (uf_w s) (uf_w s') \<and> uf_state s' = uf_state s \<and> (\<exists>c'. uploading V s' c') \<and>
    up_target (uf_upload s') = up_target (uf_upload s) \<and> up_expected_size (uf_upload s') = up_expected_size (uf_upload s) \<and>
    up_expected_crc (uf_upload s') = up_expected_crc (uf_upload s) \<and> up_id (uf_upload s') = up_id (uf_upload s) \<and>
    (r = USERFS_OK \<longrightarrow> i = up_id (uf_upload s) \<and> off = up_offset (uf_upload s) \<and> up_offset (uf_upload s') = off + of_nat (plen data) \<and>
       plen data \<le> unat (up_expected_size (uf_upload s) - off) \<and> (c \<noteq> None \<longrightarrow> uploading V s' (Some (the c @ pdata data)))) \<and>
    (r \<in> {USERFS_ERROR_INVALID_ARGUMENT, USERFS_ERROR_OUT_OF_ORDER, USERFS_ERROR_SIZE} \<longrightarrow> s' = s\<lparr>uf_last_error := r\<rparr>)"
proof -
  let ?u = "uf_upload s"
  obtain f where f: "up_file ?u = Some f" "lv_writer V (uf_w s) f = Some (up_temporary ?u, c)" and act: "up_active ?u" "up_file_open ?u"
    using up by (auto simp: uploading_def)
  have inv: "uf_state s = USERFS_STATE_MOUNTED" "up_temporary ?u = temporary_name (up_id ?u)" "visible (up_target ?u)" "up_offset ?u \<le> up_expected_size ?u"
      "up_expected_size ?u \<le> USERFS_FILE_MAX"
    using ok act by (auto simp: userfs_ok_def Let_def)
  have m: "lv_mounted V (uf_w s)" using ok_mounted [OF ok inv(1)] .
  show ?thesis
  proof (cases "i \<noteq> up_id ?u \<or> off \<noteq> up_offset ?u \<or> (plen data \<noteq> 0 \<and> is_null data) \<or> plen data > USERFS_UPLOAD_CHUNK_MAX \<or>
      plen data > unat (up_expected_size ?u - up_offset ?u)")
    case True
    then have "r \<noteq> USERFS_OK \<and> s' = s\<lparr>uf_last_error := r\<rparr>" using run act by (auto simp: userfs_upload_write_def Let_def remember_eq split: if_splits)
    then show ?thesis using ok up kept_refl by (auto simp: uploading_def)
  next
    case False
    obtain wr f' w where w: "lf_write L f (pdata data) (uf_w s) = (wr, f', w)" by (metis prod_cases3)
    note wl = write_law [OF w m f(2)]
    have k: "kept_files V (uf_w s) w" "lv_mounted V w"
      using wl only_kept [of V "{up_temporary ?u}"] hidden_names inv(2) by (auto simp: lfs_only_def)
    have len: "length (pdata data) = plen data" using False by (cases data) auto
    let ?s = "s\<lparr>uf_upload := ?u\<lparr>up_file := Some f'\<rparr>, uf_w := w\<rparr>"
    show ?thesis
    proof (cases "wr < 0 \<or> nat wr \<noteq> plen data")
      case True
      then have "r \<in> {USERFS_ERROR_NO_SPACE, USERFS_ERROR_IO} \<and> s' = ?s\<lparr>uf_last_error := r\<rparr>"
        using run False act w f(1) by (auto simp: userfs_upload_write_def Let_def remember_eq split: if_splits)
      then show ?thesis using k wl inv act by (auto simp: userfs_ok_def uploading_def Let_def)
    next
      case good: False
      then have s': "r = USERFS_OK \<and> s' = ?s\<lparr>uf_upload := ?u\<lparr>up_file := Some f', up_offset := up_offset ?u + of_nat (plen data)\<rparr>, uf_last_error := r\<rparr>"
        using run False act w f(1) by (auto simp: userfs_upload_write_def Let_def remember_eq)
      have "wr = int (length (pdata data))" using good len by auto
      moreover have "up_offset ?u + of_nat (plen data) \<le> up_expected_size ?u"
        using False inv(4) by (intro add_fits) auto
      ultimately show ?thesis using s' k wl inv act False by (auto simp: userfs_ok_def uploading_def Let_def)
    qed
  qed
qed

lemma abort_effect:
  assumes run: "userfs_upload_abort L i s = (r, s')" and ok: "userfs_ok V s"
  shows "userfs_ok V s' \<and> (uf_state s = USERFS_STATE_MOUNTED \<longrightarrow> kept_files V (uf_w s) (uf_w s')) \<and> uf_state s' = uf_state s \<and>
    (r = USERFS_OK \<longrightarrow> \<not> up_active (uf_upload s')) \<and> (r \<noteq> USERFS_OK \<longrightarrow> s' = s\<lparr>uf_last_error := r\<rparr>) \<and>
    (up_active (uf_upload s) \<and> i = up_id (uf_upload s) \<longrightarrow> r = USERFS_OK)"
proof (cases "\<not> up_active (uf_upload s) \<or> i \<noteq> up_id (uf_upload s)")
  case True
  then have "r = USERFS_ERROR_INVALID_ARGUMENT \<and> s' = s\<lparr>uf_last_error := r\<rparr>" using run by (auto simp: userfs_upload_abort_def remember_eq)
  then show ?thesis using ok True kept_refl by auto
next
  case False
  let ?u = "uf_upload s"
  have inv: "uf_state s = USERFS_STATE_MOUNTED" "up_temporary ?u = temporary_name (up_id ?u)" using ok False by (auto simp: userfs_ok_def Let_def)
  have m: "lv_mounted V (uf_w s)" using ok_mounted [OF ok inv(1)] .
  define w1 where "w1 = (if up_file_open ?u then snd (lf_close L (the (up_file ?u)) (uf_w s)) else uf_w s)"
  have c1: "lfs_only V {up_temporary ?u} (uf_w s) w1"
  proof (cases "up_file_open ?u")
    case True
    then obtain f c where "up_file ?u = Some f" "lv_writer V (uf_w s) f = Some (up_temporary ?u, c)"
      using ok_uploading [OF ok] False by (auto simp: uploading_def)
    then show ?thesis using close_write [of f "uf_w s" "fst (lf_close L f (uf_w s))" w1 "up_temporary ?u" c] m True by (simp add: w1_def)
  next
    case False
    then show ?thesis using only_refl [OF m] by (simp add: w1_def)
  qed
  obtain q w2 where q: "lf_remove L (up_temporary ?u) w1 = (q, w2)" by (metis prod.collapse)
  have "lfs_only V {up_temporary ?u} (uf_w s) w2" using only_only [OF c1] remove_law [OF q cache_mounted(2) [OF c1]] by blast
  moreover have "r = USERFS_OK \<and> s' = (userfs_clear_upload (s\<lparr>uf_w := w2\<rparr>))\<lparr>uf_last_error := USERFS_OK\<rparr>"
    using run False q by (simp add: userfs_upload_abort_def Let_def w1_def [symmetric] remember_eq)
  moreover have "kept_files V (uf_w s) w2" if "lfs_only V {up_temporary ?u} (uf_w s) w2"
    using only_kept [OF that] inv(2) hidden_names(1) by simp
  ultimately show ?thesis using inv cleared_ok [of V w2 _ s] cache_mounted(2) [of V "{up_temporary ?u}" "uf_w s" w2] by auto
qed

lemma crc_step: "crc32_update (crc32_update c a) b = crc32_update c (a @ b)"
  by (simp add: crc32_update_def)

lemma verify_loop_reads:
  assumes "lv_mounted V w" and "lv_reader V w f = Some (b, p)"
  shows "\<exists>cnt crc' tot' f' w'. verify_loop L f crc tot w = Some (cnt, crc', tot', f', w') \<and> lfs_only V {} w w' \<and> lv_reader V w' f' \<noteq> None \<and>
    (0 \<le> cnt \<longrightarrow> crc' = crc32_update crc (drop p b) \<and> tot' = tot + of_nat (length b - p))"
  using assms
proof (induction "length b - p" arbitrary: p f w crc tot rule: less_induct)
  case less
  obtain r d f1 w1 where rd: "lf_read L f USERFS_CACHE_SIZE w = (r, d, f1, w1)" by (metis prod_cases4)
  note rl = read_law [OF rd less.prems]
  show ?case
  proof (cases "0 < r")
    case False
    then have "verify_loop L f crc tot w = Some (r, crc, tot, f1, w1)" using rd by (simp add: verify_loop.simps [of L f])
    moreover have "drop p b = []" if "0 \<le> r"
    proof -
      have "d = take USERFS_CACHE_SIZE (drop p b)" "d = []" using that False rl by auto
      then show ?thesis by (auto simp: USERFS_CACHE_SIZE_def)
    qed
    ultimately show ?thesis using rl by (auto simp: crc32_update_def)
  next
    case True
    then have d: "d = take USERFS_CACHE_SIZE (drop p b)" "r = int (length d)" "lv_reader V w1 f1 = Some (b, p + length d)" using rl by auto
    then have pos: "0 < length d" "length d \<le> length b - p" using True by auto
    have m1: "lv_mounted V w1" using rl by (simp add: lfs_only_def)
    have "length b - (p + length d) < length b - p" using pos by arith
    from less.hyps [OF this m1 d(3), of "crc32_update crc d" "tot + of_int r"] obtain cnt crc' tot' f' w' where
      h: "verify_loop L f1 (crc32_update crc d) (tot + of_int r) w1 = Some (cnt, crc', tot', f', w')" "lfs_only V {} w1 w'" "lv_reader V w' f' \<noteq> None"
        "0 \<le> cnt \<longrightarrow> crc' = crc32_update (crc32_update crc d) (drop (p + length d) b) \<and>
           tot' = tot + of_int r + of_nat (length b - (p + length d))" by blast
    have "take k xs @ drop (length (take k xs)) xs = xs" for k and xs :: "u8 list" by (cases "k \<le> length xs") auto
    from this [of USERFS_CACHE_SIZE "drop p b"] have "d @ drop (p + length d) b = drop p b" unfolding d(1) [symmetric] by (simp add: add.commute)
    moreover have "of_int r + of_nat (length b - (p + length d)) = (of_nat (length b - p) :: u32)"
    proof -
      have "length b - p = length d + (length b - (p + length d))" using pos by arith
      then show ?thesis using d(2) by (metis of_int_of_nat_eq of_nat_add)
    qed
    ultimately have "0 \<le> cnt \<longrightarrow> crc' = crc32_update crc (drop p b) \<and> tot' = tot + of_nat (length b - p)"
      using h(4) by (simp add: crc_step add.assoc)
    moreover have "verify_loop L f crc tot w = verify_loop L f1 (crc32_update crc d) (tot + of_int r) w1"
      using rd True by (subst verify_loop.simps) simp
    moreover have "lfs_only V {} w w'" using only_only [OF _ h(2)] rl by blast
    ultimately show ?thesis using h by auto
  qed
qed

lemma verify_effect:
  assumes m: "lv_mounted V (uf_w s)"
  shows "\<exists>r s'. userfs_verify_upload L s = Some (r, s') \<and> (\<exists>w'. s' = s\<lparr>uf_w := w'\<rparr>) \<and> lfs_cache V {} (uf_w s) (uf_w s') \<and>
    (r = USERFS_OK \<longrightarrow> (\<exists>b. lv_entries V (uf_w s) (up_temporary (uf_upload s)) = Some (Reg b) \<and>
       length b = unat (up_expected_size (uf_upload s)) \<and> crc32_update 0 b = up_expected_crc (uf_upload s)))"
proof -
  obtain q f w where o: "userfs_file_open L (up_temporary (uf_upload s)) {LFS_O_RDONLY} (uf_w s) = (q, f, w)" by (metis prod_cases3)
  note ol = file_open_read [OF o m]
  show ?thesis
  proof (cases "q < 0")
    case True
    then show ?thesis using o ol by (auto simp: userfs_verify_upload_def userfs_from_lfs_def)
  next
    case False
    then obtain b where b: "lv_entries V (uf_w s) (up_temporary (uf_upload s)) = Some (Reg b)" "lv_reader V w f = Some (b, 0)" using ol by auto
    have m1: "lv_mounted V w" using ol by (auto dest: cache_mounted)
    obtain cnt crc tot f' w' where v: "verify_loop L f 0 0 w = Some (cnt, crc, tot, f', w')" "lfs_only V {} w w'" "lv_reader V w' f' \<noteq> None"
      "0 \<le> cnt \<longrightarrow> crc = crc32_update 0 (drop 0 b) \<and> tot = 0 + of_nat (length b - 0)" using verify_loop_reads [OF m1 b(2)] by blast
    have "lfs_only V {} w (snd (lf_close L f' w'))" using only_only [OF v(2) closed_read [OF cache_mounted(2) [OF v(2)] v(3)]] .
    then have c: "lfs_cache V {} (uf_w s) (snd (lf_close L f' w'))" using ol by (auto intro: cache_only)
    have "unat (of_nat (length b) :: u32) = length b" using entry_size [OF m b(1)] by (simp add: unat_of_nat)
    then have "length b = unat (up_expected_size (uf_upload s))" if "of_nat (length b) = up_expected_size (uf_upload s)" using that by simp
    then show ?thesis using False o v(1,4) b c by (auto simp: userfs_verify_upload_def Let_def userfs_from_lfs_def)
  qed
qed

lemma commit_failed:
  assumes "userfs_upload_commit L i s = Some (r, s')" and "r \<noteq> USERFS_OK" and "userfs_ok V s'" and "uf_state s' = uf_state s"
    and "kept_files V (uf_w s) (uf_w s')"
  shows "\<exists>r s'. userfs_upload_commit L i s = Some (r, s') \<and> committed V c i s r s'"
  using assms by (auto simp: committed_def kept_files_def)

lemma commit_effect:
  assumes ok: "userfs_ok V s" and up: "up_active (uf_upload s) \<and> i = up_id (uf_upload s) \<longrightarrow> uploading V s c"
  shows "\<exists>r s'. userfs_upload_commit L i s = Some (r, s') \<and> committed V c i s r s'"
proof (cases "\<not> up_active (uf_upload s) \<or> i \<noteq> up_id (uf_upload s) \<or> up_offset (uf_upload s) \<noteq> up_expected_size (uf_upload s)")
  case True
  let ?r = "if \<not> up_active (uf_upload s) \<or> i \<noteq> up_id (uf_upload s) then USERFS_ERROR_INVALID_ARGUMENT else USERFS_ERROR_SIZE"
  have r: "userfs_upload_commit L i s = Some (?r, s\<lparr>uf_last_error := ?r\<rparr>)" "?r \<noteq> USERFS_OK"
    using True by (simp_all add: userfs_upload_commit_def Let_def userfs_remember_def)
  show ?thesis by (rule commit_failed [OF r]) (use ok kept_refl in simp_all)
next
  case False
  let ?u = "uf_upload s"
  let ?t = "up_temporary ?u"
  have act: "up_active ?u" "i = up_id ?u" "up_offset ?u = up_expected_size ?u" using False by auto
  have inv: "uf_state s = USERFS_STATE_MOUNTED" "?t = temporary_name (up_id ?u)" "visible (up_target ?u)" "up_expected_size ?u \<le> USERFS_FILE_MAX"
    using ok act(1) by (auto simp: userfs_ok_def Let_def)
  then have ne: "?t \<noteq> up_target ?u" using hidden_names(1) by metis
  have m: "lv_mounted V (uf_w s)" using ok_mounted [OF ok inv(1)] .
  obtain f where f: "up_file ?u = Some f" "lv_writer V (uf_w s) f = Some (?t, c)" "up_file_open ?u" using up act by (auto simp: uploading_def)
  obtain r1 f1 w1 where sy: "lf_sync L f (uf_w s) = (r1, f1, w1)" by (metis prod_cases3)
  note sl = sync_law [OF sy m f(2)]
  then obtain c1 where c1: "lv_writer V w1 f1 = Some (?t, c1)" by blast
  have m1: "lv_mounted V w1" using sl by (simp add: lfs_only_def)
  obtain r2 w2 where cl: "lf_close L f1 w1 = (r2, w2)" by (metis prod.collapse)
  note cw = close_write [OF cl m1 c1]
  have o2: "lfs_only V {?t} (uf_w s) w2" by (rule only_only [OF conjunct1 [OF sl] conjunct1 [OF cw]])
  have m2: "lv_mounted V w2" using o2 by (simp add: lfs_only_def)
  define q where "q = (if r1 = 0 then r2 else r1)"
  define s1 where "s1 = s\<lparr>uf_upload := ?u\<lparr>up_file := Some f1, up_file_open := False\<rparr>, uf_w := w2\<rparr>"
  have s1: "uf_w s1 = w2" "up_temporary (uf_upload s1) = ?t" "up_expected_size (uf_upload s1) = up_expected_size ?u"
    "up_expected_crc (uf_upload s1) = up_expected_crc ?u" "uf_state s1 = uf_state s" by (simp_all add: s1_def)
  have ok1: "userfs_ok V (s1\<lparr>uf_w := w\<rparr>)" if "lv_mounted V w" for w using ok act(1) that by (auto simp: userfs_ok_def s1_def Let_def)
  have k2: "kept_files V (uf_w s) w2" using o2 by (rule only_kept) (simp add: inv(2) hidden_names)
  have run: "userfs_upload_commit L i s = (if q < 0 then Some (userfs_remember (userfs_from_lfs q) s1)
      else case userfs_verify_upload L s1 of None \<Rightarrow> None
        | Some (v, s2) \<Rightarrow> if v \<noteq> USERFS_OK then Some (userfs_remember v s2)
            else case lf_rename L ?t (up_target ?u) (uf_w s2) of (r, w3) \<Rightarrow>
              if r < 0 then Some (userfs_remember (userfs_from_lfs r) (s2\<lparr>uf_w := w3\<rparr>))
              else Some (userfs_remember USERFS_OK (userfs_clear_upload (s2\<lparr>uf_w := w3\<rparr>))))"
    using act f(1) sy cl by (simp add: userfs_upload_commit_def Let_def q_def [symmetric] s1_def [symmetric])
  show ?thesis
  proof (cases "q < 0")
    case True
    show ?thesis
    proof (rule commit_failed)
      show "userfs_upload_commit L i s = Some (userfs_from_lfs q, s1\<lparr>uf_last_error := userfs_from_lfs q\<rparr>)"
        using run True by (simp add: userfs_remember_def)
      show "userfs_from_lfs q \<noteq> USERFS_OK" using True by simp
    qed (use ok1 [OF m2] k2 s1 in \<open>simp_all add: s1_def\<close>)
  next
    case synced: False
    have "lv_mounted V (uf_w s1)" using m2 s1(1) by simp
    from verify_effect [OF this] s1 obtain v w3 where v: "userfs_verify_upload L s1 = Some (v, s1\<lparr>uf_w := w3\<rparr>)" "lfs_cache V {} w2 w3"
      and vok: "v = USERFS_OK \<longrightarrow> verified V ?u w2 ?t" by (auto simp: verified_def)
    have m3: "lv_mounted V w3" using v(2) by (simp add: lfs_cache_def)
    have e3: "lv_entries V w3 = lv_entries V w2" using v(2) by (auto simp: lfs_cache_def)
    have k3: "kept_files V (uf_w s) w3" using k2 e3 by (simp add: kept_files_def)
    show ?thesis
    proof (cases "v = USERFS_OK")
      case False
      show ?thesis
      proof (rule commit_failed)
        show "userfs_upload_commit L i s = Some (v, s1\<lparr>uf_w := w3, uf_last_error := v\<rparr>)"
          using run synced v(1) False by (simp add: userfs_remember_def)
      qed (use False ok1 [OF m3] k3 s1 in simp_all)
    next
      case True
      obtain r4 w4 where rn: "lf_rename L ?t (up_target ?u) w3 = (r4, w4)" by (metis prod.collapse)
      note nl = rename_law [OF rn m3 ne]
      have m4: "lv_mounted V w4" by (rule cache_mounted(2) [OF conjunct1 [OF nl]])
      have other: "lv_entries V w4 n = lv_entries V (uf_w s) n" if "visible n" "n \<noteq> up_target ?u" for n
      proof -
        have "n \<noteq> ?t" using that(1) inv(2) hidden_names(1) by metis
        then show ?thesis using only_entry [OF conjunct1 [OF nl], of n] that k3 by (simp add: kept_files_def)
      qed
      have "lv_entries V w4 (up_target ?u) = lv_entries V w2 ?t \<or> r4 < 0 \<and> lv_entries V w4 (up_target ?u) = lv_entries V (uf_w s) (up_target ?u)"
        using conjunct2 [OF conjunct2 [OF nl]] e3 k3 inv(3) by (simp add: kept_files_def)
      then have target: "verified V ?u w4 (up_target ?u) \<or> r4 < 0 \<and> lv_entries V w4 (up_target ?u) = lv_entries V (uf_w s) (up_target ?u)"
        using vok True by (auto simp: verified_def)
      have all: "\<forall>n. visible n \<longrightarrow> lv_entries V w4 n = lv_entries V (uf_w s) n \<or> n = up_target ?u \<and> verified V ?u w4 n"
        using other target by metis
      show ?thesis
      proof (cases "r4 < 0")
        case True
        then have "userfs_upload_commit L i s = Some (userfs_from_lfs r4, s1\<lparr>uf_w := w4, uf_last_error := userfs_from_lfs r4\<rparr>)"
          using run synced v(1) \<open>v = USERFS_OK\<close> rn by (simp add: userfs_remember_def)
        moreover have "userfs_from_lfs r4 \<noteq> USERFS_OK" using True by simp
        moreover have "committed V c i s (userfs_from_lfs r4) (s1\<lparr>uf_w := w4, uf_last_error := userfs_from_lfs r4\<rparr>)" if "userfs_from_lfs r4 \<noteq> USERFS_OK"
          unfolding committed_def using ok1 [OF m4] all s1 that by simp
        ultimately show ?thesis by blast
      next
        case renamed: False
        have run4: "userfs_upload_commit L i s = Some (USERFS_OK, (userfs_clear_upload (s1\<lparr>uf_w := w4\<rparr>))\<lparr>uf_last_error := USERFS_OK\<rparr>)"
          using run synced v(1) True rn renamed by (simp add: userfs_remember_def)
        have "lv_entries V w4 (up_target ?u) = Some (Reg (the c))" if "c \<noteq> None"
        proof -
          have "r1 \<le> 0" using sl by simp
          then have z: "r1 = 0" "0 \<le> r2" using synced by (simp_all add: q_def split: if_splits)
          have "c1 = c" using sl z(1) that c1 by simp
          then have "lv_entries V w2 ?t = Some (Reg (the c))" using that cw z(2) by simp
          then show ?thesis using conjunct2 [OF conjunct2 [OF nl]] renamed e3 by simp
        qed
        moreover have "userfs_ok V ((userfs_clear_upload (s1\<lparr>uf_w := w4\<rparr>))\<lparr>uf_last_error := USERFS_OK\<rparr>)" using cleared_ok [OF m4] .
        ultimately have "committed V c i s USERFS_OK ((userfs_clear_upload (s1\<lparr>uf_w := w4\<rparr>))\<lparr>uf_last_error := USERFS_OK\<rparr>)"
          unfolding committed_def using all target renamed act s1 by simp
        with run4 show ?thesis by blast
      qed
    qed
  qed
qed

lemma remove_effect:
  assumes run: "userfs_remove L name s = (r, s')" and ok: "userfs_ok V s"
  shows "userfs_ok V s' \<and> uf_state s' = uf_state s \<and> uf_upload s' = uf_upload s \<and>
    (uf_state s = USERFS_STATE_MOUNTED \<longrightarrow> (\<forall>n. visible n \<longrightarrow> lv_entries V (uf_w s') n = lv_entries V (uf_w s) n \<or>
       name \<noteq> None \<and> n = userfs_normal_name (the name) \<and> lv_entries V (uf_w s') n = None)) \<and>
    (r = USERFS_OK \<longrightarrow> lv_entries V (uf_w s') (userfs_normal_name (the name)) = None)"
proof (cases "uf_state s \<noteq> USERFS_STATE_MOUNTED \<or> up_active (uf_upload s) \<or> \<not> userfs_valid_name name False")
  case True
  then have "r \<noteq> USERFS_OK \<and> s' = s\<lparr>uf_last_error := r\<rparr>" using run by (auto simp: userfs_remove_def remember_eq split: if_splits)
  then show ?thesis using ok by auto
next
  case False
  let ?n = "userfs_normal_name (the name)"
  have nm: "name = Some (the name)" using False by (cases name) (auto simp: userfs_valid_name_def)
  have m: "lv_mounted V (uf_w s)" using ok_mounted [OF ok] False by simp
  obtain st sr s1 where g: "userfs_get_startup L (USERFS_NAME_MAX + 1) s = (st, sr, s1)" by (metis prod_cases3)
  note gl = get_startup_looked [OF g ok]
  have ok1: "userfs_ok V s1" using looked_ok [OF gl ok] .
  have e1: "lv_entries V (uf_w s1) = lv_entries V (uf_w s)" using looked_entries [OF gl] False by simp
  have st1: "uf_state s1 = uf_state s" "uf_upload s1 = uf_upload s" using gl by (simp_all add: looked_def)
  have m1: "lv_mounted V (uf_w s1)" using ok_mounted [OF ok1] st1 False by simp
  obtain q w2 where q: "(if sr = USERFS_OK \<and> Some ?n = st then lf_remove L USERFS_STARTUP_FILE (uf_w s1) else (0, uf_w s1)) = (q, w2)" by (metis prod.collapse)
  have o2: "lfs_only V {USERFS_STARTUP_FILE} (uf_w s1) w2"
    using q remove_law [of USERFS_STARTUP_FILE "uf_w s1" q w2] m1 only_refl [OF m1] by (auto split: if_splits)
  note m2 = cache_mounted(2) [OF o2]
  have okw: "userfs_ok V (s1\<lparr>uf_w := w, uf_last_error := e\<rparr>)" if "lv_mounted V w" for w e
    using ok1 that st1 False by (auto simp: userfs_ok_def Let_def)
  have k2: "lv_entries V w2 n = lv_entries V (uf_w s) n" if "visible n" for n
    using only_entry [OF o2, of n] that hidden_names(3) e1 by auto
  show ?thesis
  proof (cases "q < 0 \<and> q \<noteq> LFS_ERR_NOENT")
    case True
    then have "r \<noteq> USERFS_OK \<and> s' = s1\<lparr>uf_w := w2, uf_last_error := r\<rparr>"
      using run False g q by (auto simp: userfs_remove_def remember_eq userfs_from_lfs_def)
    then show ?thesis using okw [OF m2] k2 st1 by auto
  next
    case go: False
    obtain q3 w3 where rm: "lf_remove L ?n w2 = (q3, w3)" by (metis prod.collapse)
    note rl = remove_law [OF rm m2]
    have m3: "lv_mounted V w3" using cache_mounted(2) [OF conjunct1 [OF rl]] .
    have k3: "lv_entries V w3 n = lv_entries V (uf_w s) n \<or> n = ?n \<and> lv_entries V w3 n = None" if "visible n" for n
      using only_entry [OF conjunct1 [OF rl], of n] conjunct2 [OF rl] k2 [OF that] by (cases "n = ?n") auto
    have "r = userfs_from_lfs q3 \<and> s' = s1\<lparr>uf_w := w3, uf_last_error := r\<rparr>"
      using run False g q go rm by (auto simp: userfs_remove_def remember_eq)
    moreover have "lv_entries V w3 ?n = None" if "userfs_from_lfs q3 = USERFS_OK"
      using conjunct2 [OF conjunct2 [OF rl]] that by (auto simp: userfs_from_lfs_def split: if_splits)
    ultimately show ?thesis using okw [OF m3] k3 st1 nm by auto
  qed
qed

lemma metadata_effect:
  assumes run: "userfs_atomic_metadata L d w = (r, w')" and m: "lv_mounted V w"
  shows "lv_mounted V w' \<and> kept_files V w w' \<and> (r = USERFS_OK \<longrightarrow> lv_entries V w' USERFS_STARTUP_FILE = Some (Reg d))"
proof -
  let ?t = USERFS_META_TEMP
  have hid: "\<forall>n \<in> {?t}. \<not> visible n" "\<forall>n \<in> {?t, USERFS_STARTUP_FILE}. \<not> visible n" by (simp_all add: hidden_names)
  obtain q0 w0 where r0: "lf_remove L ?t w = (q0, w0)" by (metis prod.collapse)
  note l0 = remove_law [OF r0 m]
  note m0 = cache_mounted(2) [OF conjunct1 [OF l0]]
  obtain q1 f1 w1 where o: "userfs_file_open L ?t {LFS_O_WRONLY, LFS_O_CREAT, LFS_O_EXCL} w0 = (q1, f1, w1)" by (metis prod_cases3)
  note ol = file_open_write [OF o m0]
  have k1: "kept_files V w w1" by (rule kept_trans [OF only_kept [OF conjunct1 [OF l0] hid(1)] cache_kept [OF conjunct1 [OF ol] hid(1)]])
  note m1 = cache_mounted(1) [OF conjunct1 [OF ol]]
  show ?thesis
  proof (cases "q1 < 0")
    case True
    then show ?thesis using run r0 o k1 m1 by (auto simp: userfs_atomic_metadata_def Let_def)
  next
    case False
    then have wr: "lv_writer V w1 f1 = Some (?t, Some [])" using ol by simp
    obtain q2 f2 w2 where w: "lf_write L f1 d w1 = (q2, f2, w2)" by (metis prod_cases3)
    note wl = write_law [OF w m1 wr]
    note m2 = cache_mounted(2) [OF conjunct1 [OF wl]]
    have k2: "kept_files V w w2" by (rule kept_trans [OF k1 only_kept [OF conjunct1 [OF wl] hid(1)]])
    obtain c2 where c2: "lv_writer V w2 f2 = Some (?t, c2)" using wl by blast
    show ?thesis
    proof (cases "q2 < 0 \<or> nat q2 \<noteq> length d")
      case True
      obtain q3 w3 where c: "lf_close L f2 w2 = (q3, w3)" by (metis prod.collapse)
      obtain q4 w4 where r4: "lf_remove L ?t w3 = (q4, w4)" by (metis prod.collapse)
      note cl = conjunct1 [OF close_write [OF c m2 c2]]
      note l4 = conjunct1 [OF remove_law [OF r4 cache_mounted(2) [OF cl]]]
      have "kept_files V w w4" by (rule kept_trans [OF k2 kept_trans [OF only_kept [OF cl hid(1)] only_kept [OF l4 hid(1)]]])
      moreover have "r \<noteq> USERFS_OK \<and> w' = w4" using run r0 o False w True c r4
        by (auto simp: userfs_atomic_metadata_def Let_def split: if_splits)
      ultimately show ?thesis using cache_mounted(2) [OF l4] by simp
    next
      case written: False
      then have "q2 = int (length d)" by auto
      then have c2: "lv_writer V w2 f2 = Some (?t, Some d)" using wl by simp
      obtain q3 f3 w3 where sy: "lf_sync L f2 w2 = (q3, f3, w3)" by (metis prod_cases3)
      note sl = sync_law [OF sy m2 c2]
      note m3 = cache_mounted(2) [OF conjunct1 [OF sl]]
      obtain c3 where c3: "lv_writer V w3 f3 = Some (?t, c3)" using sl by blast
      obtain q4 w4 where c: "lf_close L f3 w3 = (q4, w4)" by (metis prod.collapse)
      note cl = close_write [OF c m3 c3]
      note m4 = cache_mounted(2) [OF conjunct1 [OF cl]]
      have k4: "kept_files V w w4"
        by (rule kept_trans [OF k2 kept_trans [OF only_kept [OF conjunct1 [OF sl] hid(1)] only_kept [OF conjunct1 [OF cl] hid(1)]]])
      let ?q = "if q3 = 0 then q4 else q3"
      show ?thesis
      proof (cases "?q = 0")
        case False
        then have "r = userfs_from_lfs ?q \<and> w' = w4" using run r0 o \<open>\<not> q1 < 0\<close> w written sy c
          by (simp add: userfs_atomic_metadata_def Let_def del: if_cancel split del: if_split)
        moreover have "userfs_from_lfs ?q \<noteq> USERFS_OK" using False sl cl by auto
        ultimately show ?thesis using k4 m4 by simp
      next
        case True
        obtain q5 w5 where rn: "lf_rename L ?t USERFS_STARTUP_FILE w4 = (q5, w5)" by (metis prod.collapse)
        note nl = rename_law [OF rn m4 temporary_other(3)]
        have "kept_files V w w5" by (rule kept_trans [OF k4 only_kept [OF conjunct1 [OF nl] hid(2)]])
        moreover have "r = userfs_from_lfs q5 \<and> w' = w5" using run r0 o \<open>\<not> q1 < 0\<close> w written sy c True rn
          by (simp add: userfs_atomic_metadata_def Let_def split: if_splits)
        moreover have "lv_entries V w5 USERFS_STARTUP_FILE = Some (Reg d)" if "0 \<le> q5"
        proof -
          have z: "q3 = 0" "q4 = 0" using True by (auto split: if_splits)
          then have "c3 = Some d" using sl c3 by simp
          then have "lv_entries V w4 ?t = Some (Reg d)" using cl z by simp
          then show ?thesis using conjunct2 [OF conjunct2 [OF nl]] that by simp
        qed
        ultimately show ?thesis using cache_mounted(2) [OF conjunct1 [OF nl]] by (auto simp: userfs_from_lfs_def split: if_splits)
      qed
    qed
  qed
qed

lemma hidden_change_ok:
  assumes "userfs_ok V s" and "uf_state s = USERFS_STATE_MOUNTED" and "\<not> up_active (uf_upload s)" and "lv_mounted V w"
  shows "userfs_ok V (s\<lparr>uf_w := w, uf_last_error := e\<rparr>)"
  using assms by (simp add: userfs_ok_def Let_def)

lemma set_startup_effect:
  assumes run: "userfs_set_startup L name s = (r, s')" and ok: "userfs_ok V s"
  shows "userfs_ok V s' \<and> uf_state s' = uf_state s \<and> uf_upload s' = uf_upload s \<and>
    (uf_state s = USERFS_STATE_MOUNTED \<longrightarrow> kept_files V (uf_w s) (uf_w s'))"
proof (cases "uf_state s \<noteq> USERFS_STATE_MOUNTED \<or> up_active (uf_upload s) \<or> (name \<noteq> None \<and> name \<noteq> Some [] \<and> \<not> userfs_valid_name name False)")
  case True
  then have "s' = s\<lparr>uf_last_error := r\<rparr>" using run by (auto simp: userfs_set_startup_def remember_eq split: if_splits)
  then show ?thesis using ok kept_refl by auto
next
  case False
  then have m: "lv_mounted V (uf_w s)" using ok_mounted [OF ok] by simp
  show ?thesis
  proof (cases "name = None \<or> name = Some []")
    case True
    obtain q w where q: "lf_remove L USERFS_STARTUP_FILE (uf_w s) = (q, w)" by (metis prod.collapse)
    note ql = conjunct1 [OF remove_law [OF q m]]
    have "\<exists>e. s' = s\<lparr>uf_w := w, uf_last_error := e\<rparr>" using run False True q by (auto simp: userfs_set_startup_def remember_eq)
    then show ?thesis using False hidden_change_ok [OF ok _ _ cache_mounted(2) [OF ql]] only_kept [OF ql] hidden_names(3) by auto
  next
    case named: False
    obtain q i w where q: "lf_stat L (userfs_normal_name (the name)) (uf_w s) = (q, i, w)" by (metis prod_cases3)
    note ql = conjunct1 [OF stat_law [OF q m]]
    note mw = cache_mounted(2) [OF ql]
    have kw: "kept_files V (uf_w s) w" by (rule only_kept [OF ql]) simp
    show ?thesis
    proof (cases "q < 0 \<or> li_type i \<noteq> LFS_TYPE_REG")
      case True
      then have "\<exists>e. s' = s\<lparr>uf_w := w, uf_last_error := e\<rparr>" using run False named q by (auto simp: userfs_set_startup_def remember_eq)
      then show ?thesis using False hidden_change_ok [OF ok _ _ mw] kw by auto
    next
      case found: False
      obtain r2 w2 where a: "userfs_atomic_metadata L (userfs_normal_name (the name)) w = (r2, w2)" by (metis prod.collapse)
      note al = metadata_effect [OF a mw]
      have "\<exists>e. s' = s\<lparr>uf_w := w2, uf_last_error := e\<rparr>" using run False named q found a by (auto simp: userfs_set_startup_def remember_eq)
      then show ?thesis using False hidden_change_ok [OF ok _ _ conjunct1 [OF al]] kept_trans [OF kw] al by auto
    qed
  qed
qed

lemma list_loop_returns:
  assumes "lv_mounted V w" and "lv_listing V w h = Some l"
  shows "\<exists>r h' ctx' w'. list_loop L cb h ctx w = Some (r, h', ctx', w') \<and> lfs_only V {} w w'"
  using assms
proof (induction "length l" arbitrary: l h w ctx)
  case 0
  obtain r i h1 w1 where rd: "lf_dir_read L h w = (r, i, h1, w1)" by (metis prod_cases4)
  note rl = dir_read_law [OF rd 0(2,3)]
  then have "\<not> 0 < r" using 0(1) by auto
  then show ?case using rd rl by (subst list_loop.simps) (simp add: Let_def)
next
  case (Suc n)
  obtain r i h1 w1 where rd: "lf_dir_read L h w = (r, i, h1, w1)" by (metis prod_cases4)
  note rl = dir_read_law [OF rd Suc(3,4)]
  note m1 = cache_mounted(2) [OF conjunct1 [OF rl]]
  show ?case
  proof (cases "0 < r")
    case False
    then show ?thesis using rd rl by (subst list_loop.simps) (simp add: Let_def)
  next
    case True
    then have n: "n = length (tl l)" "lv_listing V w1 h1 = Some (tl l)" using rl Suc(2) by auto
    note ih = Suc(1) [OF n(1) m1 n(2)]
    have only: "lfs_only V {} w w2" if "lfs_only V {} w1 w2" for w2 by (rule only_only [OF conjunct1 [OF rl] that])
    let ?c = "cb (li_name i) (li_size i) ctx"
    have "list_loop L cb h ctx w = (if li_type i \<noteq> LFS_TYPE_REG \<or> li_name i = [] \<or> hd (li_name i) = 0x2E then list_loop L cb h1 ctx w1
      else if \<not> fst ?c then Some (r, h1, snd ?c, w1) else list_loop L cb h1 (snd ?c) w1)"
      using rd True by (subst list_loop.simps) (simp add: Let_def)
    then show ?thesis using ih [of ctx] ih [of "snd ?c"] only only_refl [OF m1] conjunct1 [OF rl] by (auto split: if_splits)
  qed
qed

lemma list_looked:
  assumes ok: "userfs_ok V s"
  shows "\<exists>ctx' r s'. userfs_list L cb ctx s = Some (ctx', r, s') \<and> looked V s s'"
proof (cases "uf_state s \<noteq> USERFS_STATE_MOUNTED \<or> cb = None \<or> up_active (uf_upload s)")
  case True
  then show ?thesis using looked_same [OF ok] by (auto simp: userfs_list_def userfs_remember_def)
next
  case False
  then have m: "lv_mounted V (uf_w s)" using ok_mounted [OF ok] by simp
  obtain q h w1 where o: "lf_dir_open L (uf_w s) = (q, h, w1)" by (metis prod_cases3)
  note ol = dir_open_law [OF o m]
  note m1 = cache_mounted(2) [OF conjunct1 [OF ol]]
  show ?thesis
  proof (cases "q < 0")
    case True
    then show ?thesis using False o ol by (auto simp: userfs_list_def userfs_remember_def intro: looked_only)
  next
    case opened: False
    then obtain l where "lv_listing V w1 h = Some l" using ol by auto
    from list_loop_returns [OF m1 this, of "the cb" ctx] obtain r h' ctx' w2 where
      l: "list_loop L (the cb) h ctx w1 = Some (r, h', ctx', w2)" "lfs_only V {} w1 w2" by blast
    have "lfs_only V {} (uf_w s) (lf_dir_close L h' w2)"
      by (rule only_only [OF conjunct1 [OF ol] only_only [OF l(2) dir_close_law [OF cache_mounted(2) [OF l(2)]]]])
    then show ?thesis using False opened o l(1) by (auto simp: userfs_list_def userfs_remember_def intro: looked_only)
  qed
qed

lemma find_stale_returns:
  assumes "lv_mounted V w" and "lv_listing V w h = Some l"
  shows "\<exists>nm h' w'. find_stale L h w = Some (nm, h', w') \<and> lfs_only V {} w w' \<and>
    (nm = [] \<or> (\<exists>i \<in> set l. stale_name (li_name i) \<and> nm = take USERFS_NAME_MAX (li_name i)))"
  using assms
proof (induction "length l" arbitrary: l h w)
  case 0
  obtain r i h1 w1 where rd: "lf_dir_read L h w = (r, i, h1, w1)" by (metis prod_cases4)
  note rl = dir_read_law [OF rd 0(2,3)]
  then have "\<not> 0 < r" using 0(1) by auto
  then show ?case using rd rl by (subst find_stale.simps) (simp add: Let_def)
next
  case (Suc n)
  obtain r i h1 w1 where rd: "lf_dir_read L h w = (r, i, h1, w1)" by (metis prod_cases4)
  note rl = dir_read_law [OF rd Suc(3,4)]
  note m1 = cache_mounted(2) [OF conjunct1 [OF rl]]
  show ?case
  proof (cases "0 < r")
    case False
    then show ?thesis using rd rl by (subst find_stale.simps) (simp add: Let_def)
  next
    case True
    then have n: "n = length (tl l)" "lv_listing V w1 h1 = Some (tl l)" and il: "l \<noteq> []" "i = hd l" using rl Suc(2) by auto
    then have mem: "i \<in> set l" "set (tl l) \<subseteq> set l" by (cases l; auto)+
    have run: "find_stale L h w = (if stale_name (li_name i) then Some (take USERFS_NAME_MAX (li_name i), h1, w1) else find_stale L h1 w1)"
      using rd True by (subst find_stale.simps) (simp add: Let_def)
    obtain nm h' w' where ih: "find_stale L h1 w1 = Some (nm, h', w')" "lfs_only V {} w1 w'"
      "nm = [] \<or> (\<exists>i \<in> set (tl l). stale_name (li_name i) \<and> nm = take USERFS_NAME_MAX (li_name i))" using Suc(1) [OF n(1) m1 n(2)] by blast
    have "lfs_only V {} w w'" by (rule only_only [OF conjunct1 [OF rl] ih(2)])
    then show ?thesis using run ih mem conjunct1 [OF rl] by auto
  qed
qed

definition stale_entries :: "'w \<Rightarrow> u8 list set" where
  "stale_entries w = {n. stale_name n \<and> lv_entries V w n \<noteq> None}"

lemma cleanup_returns:
  assumes "lv_mounted V w"
  shows "\<exists>w'. userfs_cleanup_uploads L w = Some w' \<and> lfs_only V {n. \<not> visible n} w w'"
  using assms
proof (induction "card (stale_entries w)" arbitrary: w rule: less_induct)
  case less
  let ?H = "{n. \<not> visible n}"
  obtain q h w1 where o: "lf_dir_open L w = (q, h, w1)" by (metis prod_cases3)
  note ol = dir_open_law [OF o less.prems]
  note m1 = cache_mounted(2) [OF conjunct1 [OF ol]]
  have up: "lfs_only V ?H a b" if "lfs_only V {} a b" for a b using only_mono [OF that] by simp
  show ?case
  proof (cases "q < 0")
    case True
    then show ?thesis using o up [OF conjunct1 [OF ol]] by (subst userfs_cleanup_uploads.simps) (simp add: Let_def)
  next
    case False
    then obtain l where l: "lv_listing V w1 h = Some l"
      "\<forall>i \<in> set l. li_name i \<in> {[0x2E], [0x2E, 0x2E]} \<or> (\<exists>e. lv_entries V w (li_name i) = Some e \<and> describes i e)"
      "\<forall>n. lv_entries V w n \<noteq> None \<longrightarrow> n \<in> li_name ` set l" using ol by auto
    obtain nm h' w2 where f: "find_stale L h w1 = Some (nm, h', w2)" "lfs_only V {} w1 w2"
      "nm = [] \<or> (\<exists>i \<in> set l. stale_name (li_name i) \<and> nm = take USERFS_NAME_MAX (li_name i))" using find_stale_returns [OF m1 l(1)] by blast
    let ?w3 = "lf_dir_close L h' w2"
    have o3: "lfs_only V {} w ?w3"
      by (rule only_only [OF conjunct1 [OF ol] only_only [OF f(2) dir_close_law [OF cache_mounted(2) [OF f(2)]]]])
    note m3 = cache_mounted(2) [OF o3]
    obtain q4 w4 where rm: "lf_remove L nm ?w3 = (q4, w4)" by (metis prod.collapse)
    have run: "userfs_cleanup_uploads L w = (if nm = [] then Some ?w3 else if q4 < 0 then Some w4 else userfs_cleanup_uploads L w4)"
      using o False f(1) rm by (subst userfs_cleanup_uploads.simps) (simp add: Let_def)
    show ?thesis
    proof (cases "nm = []")
      case True
      then show ?thesis using run up [OF o3] by simp
    next
      case named: False
      then obtain i where i: "i \<in> set l" "stale_name (li_name i)" "nm = take USERFS_NAME_MAX (li_name i)" using f(3) by blast
      have "li_name i \<notin> {[0x2E], [0x2E, 0x2E]}" using i(2) by (auto simp: stale_name_def USERFS_UPLOAD_PREFIX_def USERFS_META_TEMP_def)
      then have e: "lv_entries V w (li_name i) \<noteq> None" using l(2) i(1) by blast
      then have nm: "nm = li_name i" using entry_name [OF less.prems e] i(3) by simp
      note rl = remove_law [OF rm m3]
      have o4: "lfs_only V ?H w w4"
        using only_only [OF up [OF o3] only_mono [OF conjunct1 [OF rl], of ?H]] stale_hidden [OF i(2)] nm by auto
      show ?thesis
      proof (cases "q4 < 0")
        case True
        then show ?thesis using run named o4 by simp
      next
        case removed: False
        have e3: "lv_entries V ?w3 = lv_entries V w" using o3 by (auto simp: lfs_only_def)
        have "stale_entries w4 = stale_entries w - {nm}"
        proof -
          have "lv_entries V w4 nm = None" using rl removed by auto
          moreover have "lv_entries V w4 n = lv_entries V w n" if "n \<noteq> nm" for n using only_entry [OF conjunct1 [OF rl], of n] that e3 by simp
          ultimately have "n \<in> stale_entries w4 \<longleftrightarrow> n \<in> stale_entries w - {nm}" for n by (cases "n = nm") (auto simp: stale_entries_def)
          then show ?thesis by blast
        qed
        moreover have "finite (stale_entries w)" by (rule finite_subset [of _ "li_name ` set l"]) (use l(3) in \<open>auto simp: stale_entries_def\<close>)
        moreover have "nm \<in> stale_entries w" using nm i(2) e by (simp add: stale_entries_def)
        ultimately have "card (stale_entries w4) < card (stale_entries w)" by (metis card_Diff1_less)
        from less.hyps [OF this cache_mounted(2) [OF o4]] obtain w' where "userfs_cleanup_uploads L w4 = Some w'" "lfs_only V ?H w4 w'" by blast
        then show ?thesis using run named removed only_only [OF o4] by auto
      qed
    qed
  qed
qed

lemma media_effect:
  shows "userfs_media fo exact s = Inl (r, s') \<Longrightarrow> uf_upload s' = uf_upload s \<and> uf_state s' \<noteq> USERFS_STATE_MOUNTED \<and> r \<noteq> USERFS_OK"
    and "userfs_media fo exact s = Inr (psz, s') \<Longrightarrow> uf_upload s' = uf_upload s \<and> uf_state s' = uf_state s"
  by (auto simp: userfs_media_def remember_eq split: prod.splits if_splits option.splits)

lemma mount_effect:
  assumes ok: "userfs_ok V s"
  shows "\<exists>r s'. userfs_mount L fo s = Some (r, s') \<and> userfs_ok V s' \<and> (r = USERFS_OK \<longleftrightarrow> uf_state s' = USERFS_STATE_MOUNTED) \<and>
    (uf_state s = USERFS_STATE_MOUNTED \<longrightarrow> looked V s s')"
proof (cases "uf_state s = USERFS_STATE_MOUNTED")
  case True
  then show ?thesis using looked_same [OF ok] ok by (simp add: userfs_mount_def userfs_remember_def)
next
  case False
  then have no: "\<not> up_active (uf_upload s)" using ok_inactive [OF ok] by simp
  have okf: "userfs_ok V t" if "\<not> up_active (uf_upload t)" "uf_state t \<noteq> USERFS_STATE_MOUNTED" for t
    using that by (simp add: userfs_ok_def Let_def)
  show ?thesis
  proof (cases "userfs_media fo True s")
    case (Inl failed)
    obtain r s' where "failed = (r, s')" by (metis prod.collapse)
    then show ?thesis using False Inl media_effect(1) [of fo True s r s'] no okf [of s'] by (simp add: userfs_mount_def)
  next
    case (Inr res)
    obtain psz s1 where res: "res = (psz, s1)" by (metis prod.collapse)
    note me = media_effect(2) [OF Inr [unfolded res]]
    obtain q w where mt: "lf_mount L (userfs_configure psz) (uf_w s1) = (q, w)" by (metis prod.collapse)
    show ?thesis
    proof (cases "q = 0")
      case True
      have "lv_mounted V w" using mount_law mt True by blast
      from cleanup_returns [OF this] obtain w' where c: "userfs_cleanup_uploads L w = Some w'" "lfs_only V {n. \<not> visible n} w w'" by blast
      have "userfs_ok V ((userfs_clear_upload (s1\<lparr>uf_config := userfs_configure psz\<rparr>))\<lparr>uf_state := USERFS_STATE_MOUNTED, uf_w := w'\<rparr>)"
        using cache_mounted(2) [OF c(2)] by (simp add: userfs_ok_def)
      then show ?thesis using False Inr res mt True c(1) by (simp add: userfs_mount_def Let_def userfs_remember_def)
    next
      case bad: False
      obtain bl w' where b: "(if q = LFS_ERR_CORRUPT then userfs_blank_media fo w else (False, w)) = (bl, w')" by (metis prod.collapse)
      then show ?thesis using False Inr res mt bad me no
        by (cases bl) (auto simp: userfs_mount_def Let_def userfs_remember_def userfs_ok_def)
    qed
  qed
qed

lemma unmount_effect:
  assumes run: "userfs_unmount L s = (r, s')" and ok: "userfs_ok V s"
  shows "userfs_ok V s' \<and> uf_state s' \<noteq> USERFS_STATE_MOUNTED"
proof (cases "uf_state s = USERFS_STATE_MOUNTED")
  case False
  then show ?thesis using run ok by (auto simp: userfs_unmount_def remember_eq)
next
  case True
  define s1 where "s1 = (if up_active (uf_upload s) then snd (userfs_upload_abort L (up_id (uf_upload s)) s) else s)"
  have "\<not> up_active (uf_upload s1)"
    using abort_effect [of "up_id (uf_upload s)" s, OF _ ok] by (cases "userfs_upload_abort L (up_id (uf_upload s)) s") (auto simp: s1_def)
  moreover obtain q w where "lf_unmount L (uf_w s1) = (q, w)" by (metis prod.collapse)
  ultimately show ?thesis using run True s1_def [symmetric] by (auto simp: userfs_unmount_def Let_def remember_eq userfs_ok_def)
qed

lemma format_effect:
  assumes ok: "userfs_ok V s"
  shows "\<exists>r s'. userfs_format_explicit L fo s = Some (r, s') \<and> userfs_ok V s'"
proof -
  define s0 where "s0 = (if uf_state s = USERFS_STATE_MOUNTED then snd (userfs_unmount L s) else s)"
  have s0: "userfs_ok V s0" "uf_state s0 \<noteq> USERFS_STATE_MOUNTED"
    using unmount_effect [of s, OF _ ok] ok by (cases "userfs_unmount L s"; simp add: s0_def)+
  then have no: "\<not> up_active (uf_upload s0)" using ok_inactive by blast
  have okf: "userfs_ok V t" if "\<not> up_active (uf_upload t)" "uf_state t \<noteq> USERFS_STATE_MOUNTED" for t
    using that by (simp add: userfs_ok_def Let_def)
  show ?thesis
  proof (cases "userfs_media fo False s0")
    case (Inl failed)
    obtain r s' where f: "failed = (r, s')" by (metis prod.collapse)
    then show ?thesis using Inl media_effect(1) [of fo False s0 r s'] no okf [of s'] s0_def [symmetric]
      by (simp add: userfs_format_explicit_def Let_def)
  next
    case (Inr res)
    obtain psz s1 where res: "res = (psz, s1)" by (metis prod.collapse)
    note me = media_effect(2) [OF Inr [unfolded res]]
    obtain q w where fm: "lf_format L (userfs_configure psz) (uf_w s1) = (q, w)" by (metis prod.collapse)
    let ?t = "s1\<lparr>uf_config := userfs_configure psz, uf_w := w, uf_state := USERFS_STATE_UNINITIALIZED\<rparr>"
    have "userfs_format_explicit L fo s = (if q < 0
        then Some (userfs_from_lfs q, s1\<lparr>uf_config := userfs_configure psz, uf_w := w, uf_state := USERFS_STATE_IO_ERROR, uf_last_error := userfs_from_lfs q\<rparr>)
        else userfs_mount L fo ?t)"
      using Inr res fm s0_def [symmetric] by (simp add: userfs_format_explicit_def Let_def userfs_remember_def)
    moreover have "\<exists>r s'. userfs_mount L fo ?t = Some (r, s') \<and> userfs_ok V s'" using mount_effect [of ?t fo] okf [of ?t] me no by auto
    moreover have "userfs_ok V (s1\<lparr>uf_config := userfs_configure psz, uf_w := w, uf_state := USERFS_STATE_IO_ERROR, uf_last_error := userfs_from_lfs q\<rparr>)"
      using me no by (intro okf) auto
    ultimately show ?thesis by auto
  qed
qed

end

section \<open>Histories\<close>

text \<open>
  Any sequence of calls on a mounted file system; the list holds the uploads that were committed (or whose commit failed in
  the renaming, which may have been done) and the files that were removed. A second commit of an upload whose first commit
  has failed is left out: it syncs a file that is closed already, which littlefs does not define.
\<close>

datatype userfs_change = Committed "u8 list" u32 u32 | Removed "u8 list"

definition handle_open :: "u32 \<Rightarrow> ('f, 'w) userfs \<Rightarrow> bool" where
  "handle_open i s \<longleftrightarrow> (up_active (uf_upload s) \<and> i = up_id (uf_upload s) \<longrightarrow> up_file_open (uf_upload s))"

text \<open>The commit with the id \<open>i\<close> is one of the upload that is active, all of whose bytes have been accepted.\<close>

definition commits :: "u32 \<Rightarrow> ('f, 'w) userfs \<Rightarrow> userfs_change list" where
  "commits i s = (let u = uf_upload s in
     if up_active u \<and> i = up_id u \<and> up_offset u = up_expected_size u
     then [Committed (up_target u) (up_expected_size u) (up_expected_crc u)] else [])"

inductive userfs_run :: "('f, 'd, 'w) lfs_ops \<Rightarrow> 'w media_ops \<Rightarrow> userfs_change list \<Rightarrow> ('f, 'w) userfs \<Rightarrow> ('f, 'w) userfs \<Rightarrow> bool"
  for L fo where
  run_nil: "userfs_run L fo [] s s"
| run_mount: "userfs_run L fo cs s s1 \<Longrightarrow> userfs_mount L fo s1 = Some (r, s2) \<Longrightarrow> userfs_run L fo cs s s2"
| run_status: "userfs_run L fo cs s s1 \<Longrightarrow> userfs_get_status L s1 = (st, s2) \<Longrightarrow> userfs_run L fo cs s s2"
| run_list: "userfs_run L fo cs s s1 \<Longrightarrow> userfs_list L cb (ctx :: u8 list list) s1 = Some (ctx', r, s2) \<Longrightarrow> userfs_run L fo cs s s2"
| run_stat: "userfs_run L fo cs s s1 \<Longrightarrow> userfs_stat L n want s1 = (sz, r, s2) \<Longrightarrow> userfs_run L fo cs s s2"
| run_read: "userfs_run L fo cs s s1 \<Longrightarrow> userfs_read L n off d s1 = (bs, r, s2) \<Longrightarrow> userfs_run L fo cs s s2"
| run_get_startup: "userfs_run L fo cs s s1 \<Longrightarrow> userfs_get_startup L cap s1 = (nm, r, s2) \<Longrightarrow> userfs_run L fo cs s s2"
| run_set_startup: "userfs_run L fo cs s s1 \<Longrightarrow> userfs_set_startup L n s1 = (r, s2) \<Longrightarrow> userfs_run L fo cs s s2"
| run_begin: "userfs_run L fo cs s s1 \<Longrightarrow> userfs_upload_begin L n sz crc want s1 = (i, r, s2) \<Longrightarrow> userfs_run L fo cs s s2"
| run_write: "userfs_run L fo cs s s1 \<Longrightarrow> handle_open i s1 \<Longrightarrow> userfs_upload_write L i off d s1 = (r, s2) \<Longrightarrow> userfs_run L fo cs s s2"
| run_abort: "userfs_run L fo cs s s1 \<Longrightarrow> userfs_upload_abort L i s1 = (r, s2) \<Longrightarrow> userfs_run L fo cs s s2"
| run_commit: "userfs_run L fo cs s s1 \<Longrightarrow> handle_open i s1 \<Longrightarrow> userfs_upload_commit L i s1 = Some (r, s2) \<Longrightarrow>
    userfs_run L fo (commits i s1 @ cs) s s2"
| run_remove: "userfs_run L fo cs s s1 \<Longrightarrow> userfs_remove L (Some n) s1 = (r, s2) \<Longrightarrow>
    userfs_run L fo (Removed (userfs_normal_name n) # cs) s s2"

text \<open>What may have become of the file \<open>n\<close>.\<close>

definition file_story :: "('f, 'd, 'w) lfs_view \<Rightarrow> userfs_change list \<Rightarrow> u8 list \<Rightarrow> 'w \<Rightarrow> 'w \<Rightarrow> bool" where
  "file_story V cs n w w' \<longleftrightarrow> lv_entries V w' n = lv_entries V w n \<or> Removed n \<in> set cs \<and> lv_entries V w' n = None \<or>
     (\<exists>sz crc b. Committed n sz crc \<in> set cs \<and> lv_entries V w' n = Some (Reg b) \<and> length b = unat sz \<and> crc32_update 0 b = crc)"

lemma story_kept: "file_story V cs n w w1 \<Longrightarrow> kept_files V w1 w2 \<Longrightarrow> visible n \<Longrightarrow> file_story V cs n w w2"
  by (simp add: file_story_def kept_files_def)

text \<open>The writes between the begin and the commit of an upload; \<open>bs\<close> is what the accepted ones have sent.\<close>

inductive upload_writes :: "('f, 'd, 'w) lfs_ops \<Rightarrow> u32 \<Rightarrow> u8 list \<Rightarrow> ('f, 'w) userfs \<Rightarrow> ('f, 'w) userfs \<Rightarrow> bool" for L i where
  writes_none: "upload_writes L i [] s s"
| writes_accepted: "upload_writes L i bs s s1 \<Longrightarrow> userfs_upload_write L i off d s1 = (USERFS_OK, s2) \<Longrightarrow> upload_writes L i (bs @ pdata d) s s2"
| writes_refused: "upload_writes L i bs s s1 \<Longrightarrow> userfs_upload_write L i' off d s1 = (r, s2) \<Longrightarrow>
    r \<in> {USERFS_ERROR_INVALID_ARGUMENT, USERFS_ERROR_OUT_OF_ORDER, USERFS_ERROR_SIZE} \<Longrightarrow> upload_writes L i bs s s2"

context littlefs
begin

lemma write_inactive:
  assumes "userfs_upload_write L i off d s = (r, s')" and "\<not> (up_active (uf_upload s) \<and> i = up_id (uf_upload s))"
  shows "s' = s\<lparr>uf_last_error := r\<rparr>"
  using assms by (auto simp: userfs_upload_write_def Let_def remember_eq split: if_splits)

lemma write_kept:
  assumes "userfs_upload_write L i off d s = (r, s')" and ok: "userfs_ok V s" and "handle_open i s"
  shows "userfs_ok V s' \<and> uf_state s' = uf_state s \<and> kept_files V (uf_w s) (uf_w s')"
proof (cases "up_active (uf_upload s) \<and> i = up_id (uf_upload s)")
  case True
  then obtain c where "uploading V s c" using ok_uploading [OF ok] assms(3) by (auto simp: handle_open_def)
  from write_effect [OF assms(1) ok this] show ?thesis by simp
next
  case False
  then show ?thesis using write_inactive [OF assms(1)] ok kept_refl by auto
qed

lemma commit_refused:
  assumes "userfs_upload_commit L i s = Some (r, s')" and "commits i s = []"
  shows "s' = s\<lparr>uf_last_error := r\<rparr>"
  using assms by (auto simp: userfs_upload_commit_def commits_def Let_def remember_eq split: if_splits)

lemma looked_story:
  assumes "looked V s1 s2" and "userfs_ok V s1 \<and> uf_state s1 = USERFS_STATE_MOUNTED \<and> (\<forall>n. visible n \<longrightarrow> file_story V cs n w (uf_w s1))"
  shows "userfs_ok V s2 \<and> uf_state s2 = USERFS_STATE_MOUNTED \<and> (\<forall>n. visible n \<longrightarrow> file_story V cs n w (uf_w s2))"
  using looked_ok [OF assms(1)] looked_kept [OF assms(1)] assms by (auto simp: looked_def intro: story_kept)

lemma run_story:
  assumes "userfs_run L fo cs s s'" and "userfs_ok V s" and "uf_state s = USERFS_STATE_MOUNTED"
  shows "userfs_ok V s' \<and> uf_state s' = USERFS_STATE_MOUNTED \<and> (\<forall>n. visible n \<longrightarrow> file_story V cs n (uf_w s) (uf_w s'))"
  using assms
proof (induction rule: userfs_run.induct)
  case (run_nil s)
  then show ?case by (simp add: file_story_def)
next
  case (run_mount cs s s1 r s2)
  then have l: "looked V s1 s2" using mount_effect [of s1 fo] by auto
  show ?case by (rule looked_story [OF l]) (use run_mount in blast)
next
  case (run_status cs s s1 st s2)
  then have l: "looked V s1 s2" using status_looked by blast
  show ?case by (rule looked_story [OF l]) (use run_status in blast)
next
  case (run_list cs s s1 cb ctx ctx' r s2)
  then have l: "looked V s1 s2" using list_looked [of s1 cb ctx] by auto
  show ?case by (rule looked_story [OF l]) (use run_list in blast)
next
  case (run_stat cs s s1 n want sz r s2)
  then have l: "looked V s1 s2" using stat_looked by blast
  show ?case by (rule looked_story [OF l]) (use run_stat in blast)
next
  case (run_read cs s s1 n off d bs r s2)
  then have l: "looked V s1 s2" using read_looked by blast
  show ?case by (rule looked_story [OF l]) (use run_read in blast)
next
  case (run_get_startup cs s s1 cap nm r s2)
  then have l: "looked V s1 s2" using get_startup_looked by blast
  show ?case by (rule looked_story [OF l]) (use run_get_startup in blast)
next
  case (run_set_startup cs s s1 n r s2)
  then show ?case using set_startup_effect [OF run_set_startup.hyps(2)] by (auto intro: story_kept)
next
  case (run_begin cs s s1 n sz crc want i r s2)
  then show ?case using begin_effect [OF run_begin.hyps(2)] by (auto intro: story_kept)
next
  case (run_write cs s s1 i off d r s2)
  then show ?case using write_kept [OF run_write.hyps(3)] by (auto intro: story_kept)
next
  case (run_abort cs s s1 i r s2)
  then show ?case using abort_effect [OF run_abort.hyps(2)] by (auto intro: story_kept)
next
  case (run_commit cs s s1 i r s2)
  then have ok1: "userfs_ok V s1" and st1: "uf_state s1 = USERFS_STATE_MOUNTED" and story: "\<And>n. visible n \<Longrightarrow> file_story V cs n (uf_w s) (uf_w s1)" by auto
  obtain c where up: "up_active (uf_upload s1) \<and> i = up_id (uf_upload s1) \<longrightarrow> uploading V s1 c"
    using ok_uploading [OF ok1] run_commit.hyps(2) by (auto simp: handle_open_def)
  have c: "committed V c i s1 r s2" using commit_effect [OF ok1 up] run_commit.hyps(3) by auto
  have "file_story V (commits i s1 @ cs) n (uf_w s) (uf_w s2)" if v: "visible n" for n
  proof (cases "commits i s1 = []")
    case True
    then show ?thesis using commit_refused [OF run_commit.hyps(3) True] story [OF v] by simp
  next
    case False
    then have cm: "commits i s1 = [Committed (up_target (uf_upload s1)) (up_expected_size (uf_upload s1)) (up_expected_crc (uf_upload s1))]"
      by (auto simp: commits_def Let_def split: if_splits)
    from c v consider "lv_entries V (uf_w s2) n = lv_entries V (uf_w s1) n" | "n = up_target (uf_upload s1)" "verified V (uf_upload s1) (uf_w s2) n"
      by (auto simp: committed_def)
    then show ?thesis using story [OF v] by cases (auto simp: cm file_story_def verified_def)
  qed
  then show ?case using c st1 by (simp add: committed_def)
next
  case (run_remove cs s s1 n r s2)
  then have ok1: "userfs_ok V s1" and st1: "uf_state s1 = USERFS_STATE_MOUNTED" and story: "\<And>n. visible n \<Longrightarrow> file_story V cs n (uf_w s) (uf_w s1)" by auto
  note re = remove_effect [OF run_remove.hyps(2) ok1]
  have "file_story V (Removed (userfs_normal_name n) # cs) m (uf_w s) (uf_w s2)" if v: "visible m" for m
  proof -
    from re st1 v consider "lv_entries V (uf_w s2) m = lv_entries V (uf_w s1) m" | "m = userfs_normal_name n" "lv_entries V (uf_w s2) m = None"
      by auto
    then show ?thesis using story [OF v] by cases (auto simp: file_story_def)
  qed
  then show ?case using re st1 by simp
qed

lemma writes_content:
  assumes "upload_writes L i bs s s'" and "userfs_ok V s" and "uploading V s (Some [])" and "i = up_id (uf_upload s)"
  shows "userfs_ok V s' \<and> uploading V s' (Some bs) \<and> up_id (uf_upload s') = i \<and> up_target (uf_upload s') = up_target (uf_upload s) \<and>
    up_expected_size (uf_upload s') = up_expected_size (uf_upload s) \<and> up_expected_crc (uf_upload s') = up_expected_crc (uf_upload s) \<and>
    uf_state s' = uf_state s \<and> kept_files V (uf_w s) (uf_w s')"
  using assms
proof (induction rule: upload_writes.induct)
  case (writes_none s)
  then show ?case using kept_refl by auto
next
  case (writes_accepted bs s s1 off d s2)
  then have ih: "userfs_ok V s1" "uploading V s1 (Some bs)" by auto
  from write_effect [OF writes_accepted.hyps(2) ih] writes_accepted.IH writes_accepted.prems kept_trans show ?case by auto
next
  case (writes_refused bs s s1 i' off d r s2)
  then have ih: "userfs_ok V s1" "uploading V s1 (Some bs)" by auto
  have "s2 = s1\<lparr>uf_last_error := r\<rparr>" using write_effect [OF writes_refused.hyps(2) ih] writes_refused.hyps(3) by blast
  then show ?case using writes_refused.IH writes_refused.prems by (simp add: uploading_def)
qed

lemma upload_exact:
  assumes ok: "userfs_ok V s" and b: "userfs_upload_begin L name sz crc want s = (Some i, USERFS_OK, s1)" and w: "upload_writes L i bs s1 s2"
  shows "\<exists>r s3. userfs_upload_commit L i s2 = Some (r, s3) \<and> (r = USERFS_OK \<longrightarrow>
    lv_entries V (uf_w s3) (userfs_normal_name (the name)) = Some (Reg bs) \<and> length bs = unat sz \<and> crc32_update 0 bs = crc \<and>
    (\<forall>n. visible n \<and> n \<noteq> userfs_normal_name (the name) \<longrightarrow> lv_entries V (uf_w s3) n = lv_entries V (uf_w s) n))"
proof -
  note be = begin_effect [OF b ok]
  then have up: "uploading V s1 (Some [])" "i = up_id (uf_upload s1)" by auto
  from writes_content [OF w _ up] be have wc: "userfs_ok V s2" "uploading V s2 (Some bs)" "up_target (uf_upload s2) = userfs_normal_name (the name)"
    "up_expected_size (uf_upload s2) = sz" "up_expected_crc (uf_upload s2) = crc" "uf_state s2 = USERFS_STATE_MOUNTED" "kept_files V (uf_w s) (uf_w s2)"
    by (auto intro: kept_trans)
  obtain r s3 where c: "userfs_upload_commit L i s2 = Some (r, s3)" "committed V (Some bs) i s2 r s3"
    using commit_effect [OF wc(1), of i "Some bs"] wc(2) by blast
  then show ?thesis using wc(3-7) by (auto simp: committed_def verified_def kept_files_def)
qed

end

section \<open>The block device\<close>

context flash_device
begin

text \<open>A block that was programmed with success holds the bytes, and nothing else of the flash has changed.\<close>

lemma block_program_stored:
  assumes run: "userfs_block_program ops config block offset buf s = (r, s')" and rd: "ready s"
    and fits: "unat (block * USERFS_BLOCK_SIZE + offset) + length buf \<le> psize INTERNAL_FLASH_PARTITION_USERFS"
  shows "ready s' \<and> (\<forall>q i b. i < psize q \<longrightarrow> q \<noteq> INTERNAL_FLASH_PARTITION_USERFS \<or> i < unat (block * USERFS_BLOCK_SIZE + offset) \<or>
      unat (block * USERFS_BLOCK_SIZE + offset) + length buf \<le> i \<longrightarrow> contents s q i = Some b \<longrightarrow> contents s' q i = Some b) \<and>
    (r = 0 \<longrightarrow> (\<forall>i < length buf. contents s' INTERNAL_FLASH_PARTITION_USERFS (unat (block * USERFS_BLOCK_SIZE + offset) + i) = Some (buf ! i)))"
proof (cases "block \<ge> lc_block_count config \<or> length buf > USERFS_CACHE_SIZE \<or> offset > USERFS_BLOCK_SIZE \<or>
    length buf > unat (USERFS_BLOCK_SIZE - offset)")
  case True
  then have "r \<noteq> 0 \<and> s' = s" using run by (auto simp: userfs_block_program_def LFS_ERR_INVAL_def)
  then show ?thesis using rd by simp
next
  case False
  let ?a = "block * USERFS_BLOCK_SIZE + offset"
  let ?p = INTERNAL_FLASH_PARTITION_USERFS
  obtain r1 s1 where p: "fo_program ops ?p ?a (Ptr buf) s = (r1, s1)" by (metis prod.collapse)
  have rd1: "ready s1" by (rule program_ready [OF p rd])
  have other: "contents s1 q i = Some b"
    if "i < psize q" "q \<noteq> ?p \<or> i < unat ?a \<or> unat ?a + length buf \<le> i" "contents s q i = Some b" for q i b
    using program_other [OF p rd that(1)] that(2,3) by simp
  show ?thesis
  proof (cases "r1 = INTERNAL_FLASH_OK")
    case bad: False
    then have "r \<noteq> 0 \<and> s' = s1" using run False p by (auto simp: userfs_block_program_def Let_def LFS_ERR_IO_def)
    then show ?thesis using rd1 other by simp
  next
    case True
    obtain r2 v s2 where v: "fo_read ops ?p ?a (Ptr (replicate (length buf) 0)) s1 = (r2, v, s2)" by (metis prod_cases3)
    note rk = read_keeps [OF v rd1]
    have s': "s' = s2 \<and> r = (if r2 \<noteq> INTERNAL_FLASH_OK then LFS_ERR_IO else if v = buf then 0 else LFS_ERR_CORRUPT)"
      using run False p True v by (auto simp: userfs_block_program_def Let_def split: if_splits)
    have "contents s2 ?p (unat ?a + i) = Some (buf ! i)" if "r = 0" "i < length buf" for i
    proof -
      have "r2 = INTERNAL_FLASH_OK" "v = buf" using s' that(1) by (auto simp: lfs_errors split: if_splits)
      then have "map Some buf = map (\<lambda>i. contents s1 ?p (unat ?a + i)) [0..<length buf]" using read_ok [of ?p ?a "Ptr (replicate (length buf) 0)" s1 v s2] v rd1 by simp
      then have "map Some buf ! i = map (\<lambda>i. contents s1 ?p (unat ?a + i)) [0..<length buf] ! i" by simp
      then have "contents s1 ?p (unat ?a + i) = Some (buf ! i)" using that(2) by simp
      then show ?thesis by (rule keepsD [OF conjunct2 [OF rk]])
    qed
    then show ?thesis using s' rk other keepsD [OF conjunct2 [OF rk]] by simp
  qed
qed

lemma block_erase_blank:
  assumes run: "userfs_block_erase ops config block s = (r, s')" and rd: "ready s"
  shows "ready s' \<and> (\<forall>q i b. i < psize q \<longrightarrow> q \<noteq> INTERNAL_FLASH_PARTITION_USERFS \<or> i < unat (block * USERFS_BLOCK_SIZE) \<or>
      unat (block * USERFS_BLOCK_SIZE) + 4096 \<le> i \<longrightarrow> contents s q i = Some b \<longrightarrow> contents s' q i = Some b) \<and>
    (r = 0 \<longrightarrow> (\<forall>i < 4096. contents s' INTERNAL_FLASH_PARTITION_USERFS (unat (block * USERFS_BLOCK_SIZE) + i) = Some 0xFF))"
proof (cases "block \<ge> lc_block_count config")
  case True
  then have "r \<noteq> 0 \<and> s' = s" using run by (auto simp: userfs_block_erase_def LFS_ERR_INVAL_def)
  then show ?thesis using rd by simp
next
  case False
  obtain r1 where e: "fo_erase ops INTERNAL_FLASH_PARTITION_USERFS (block * USERFS_BLOCK_SIZE) 4096 s = (r1, s')"
    "r = (if r1 = INTERNAL_FLASH_OK then 0 else LFS_ERR_IO)"
    using run False by (auto simp: userfs_block_erase_def USERFS_BLOCK_SIZE_def split: prod.splits)
  then show ?thesis using erase_ready [OF e(1) rd] erase_other [OF e(1) rd] erase_ok [of INTERNAL_FLASH_PARTITION_USERFS "block * USERFS_BLOCK_SIZE" 4096 s s'] rd
    by (auto simp: LFS_ERR_IO_def split: if_splits)
qed

end

section \<open>A littlefs that never fails\<close>

text \<open>An executable instance of the laws: the root directory as an association list, and handles that hold the data of their file.\<close>

record ref_file =
  rf_name :: "u8 list"
  rf_data :: "u8 list"
  rf_pos :: nat
  rf_write :: bool

record ref_fs =
  fs_mounted :: bool
  fs_entries :: "(u8 list \<times> lfs_entry) list"

definition entry_ok :: "u8 list \<times> lfs_entry \<Rightarrow> bool" where
  "entry_ok ne \<longleftrightarrow> fst ne \<noteq> [] \<and> length (fst ne) \<le> USERFS_NAME_MAX \<and> (case snd ne of Reg b \<Rightarrow> length b < 2 ^ 31 | Dir \<Rightarrow> True)"

definition fs_ok :: "ref_fs \<Rightarrow> bool" where
  "fs_ok w \<longleftrightarrow> distinct (map fst (fs_entries w)) \<and> list_all entry_ok (fs_entries w)"

definition info_of :: "u8 list \<times> lfs_entry \<Rightarrow> lfs_info" where
  "info_of ne = \<lparr>li_type = (case snd ne of Reg b \<Rightarrow> LFS_TYPE_REG | Dir \<Rightarrow> LFS_TYPE_DIR),
     li_size = (case snd ne of Reg b \<Rightarrow> of_nat (length b) | Dir \<Rightarrow> 0), li_name = fst ne\<rparr>"

definition without :: "u8 list \<Rightarrow> (u8 list \<times> lfs_entry) list \<Rightarrow> (u8 list \<times> lfs_entry) list" where
  "without n es = filter (\<lambda>e. fst e \<noteq> n) es"

definition flush_file :: "ref_file \<Rightarrow> ref_fs \<Rightarrow> int \<times> ref_fs" where
  "flush_file f w = (if rf_write f \<and> entry_ok (rf_name f, Reg (rf_data f))
     then (0, w\<lparr>fs_entries := (rf_name f, Reg (rf_data f)) # without (rf_name f) (fs_entries w)\<rparr>) else (0, w))"

definition no_info :: lfs_info where
  "no_info = \<lparr>li_type = LFS_TYPE_DIR, li_size = 0, li_name = []\<rparr>"

definition no_file :: ref_file where
  "no_file = \<lparr>rf_name = [], rf_data = [], rf_pos = 0, rf_write = False\<rparr>"

definition ref_lfs :: "(ref_file, lfs_info list, ref_fs) lfs_ops" where
  "ref_lfs = \<lparr>
     lf_mount = (\<lambda>cfg w. if fs_ok w then (0, w\<lparr>fs_mounted := True\<rparr>) else (LFS_ERR_CORRUPT, w)),
     lf_unmount = (\<lambda>w. (0, w\<lparr>fs_mounted := False\<rparr>)),
     lf_format = (\<lambda>cfg w. (0, \<lparr>fs_mounted = False, fs_entries = []\<rparr>)),
     lf_fs_size = (\<lambda>w. (int (length (fs_entries w)), w)),
     lf_stat = (\<lambda>n w. case map_of (fs_entries w) n of None \<Rightarrow> (LFS_ERR_NOENT, no_info, w) | Some e \<Rightarrow> (0, info_of (n, e), w)),
     lf_remove = (\<lambda>n w. if map_of (fs_entries w) n = None then (LFS_ERR_NOENT, w) else (0, w\<lparr>fs_entries := without n (fs_entries w)\<rparr>)),
     lf_rename = (\<lambda>a b w. case map_of (fs_entries w) a of None \<Rightarrow> (LFS_ERR_NOENT, w) | Some e \<Rightarrow>
        if entry_ok (b, e) then (0, w\<lparr>fs_entries := (b, e) # without b (without a (fs_entries w))\<rparr>) else (LFS_ERR_INVAL, w)),
     lf_clear_cache = (\<lambda>w. w),
     lf_opencfg = (\<lambda>n flags w. if LFS_O_RDONLY \<in> flags
        then (case map_of (fs_entries w) n of Some (Reg b) \<Rightarrow> (0, \<lparr>rf_name = n, rf_data = b, rf_pos = 0, rf_write = False\<rparr>, w)
              | _ \<Rightarrow> (LFS_ERR_NOENT, no_file, w))
        else if map_of (fs_entries w) n = None \<and> entry_ok (n, Reg [])
        then (0, \<lparr>rf_name = n, rf_data = [], rf_pos = 0, rf_write = True\<rparr>, w\<lparr>fs_entries := (n, Reg []) # fs_entries w\<rparr>)
        else (LFS_ERR_EXIST, no_file, w)),
     lf_close = (\<lambda>f w. flush_file f w),
     lf_sync = (\<lambda>f w. (fst (flush_file f w), f, snd (flush_file f w))),
     lf_read = (\<lambda>f k w. let d = take k (drop (rf_pos f) (rf_data f)) in (int (length d), d, f\<lparr>rf_pos := rf_pos f + length d\<rparr>, w)),
     lf_write = (\<lambda>f d w. if length (rf_data f) + length d < 2 ^ 31 then (int (length d), f\<lparr>rf_data := rf_data f @ d\<rparr>, w) else (LFS_ERR_NOSPC, f, w)),
     lf_seek = (\<lambda>f off w. (int (unat off), f\<lparr>rf_pos := unat off\<rparr>, w)),
     lf_dir_open = (\<lambda>w. (0, map info_of (fs_entries w), w)),
     lf_dir_read = (\<lambda>h w. case h of [] \<Rightarrow> (0, no_info, [], w) | i # is \<Rightarrow> (1, i, is, w)),
     lf_dir_close = (\<lambda>h w. w)\<rparr>"

definition ref_view :: "(ref_file, lfs_info list, ref_fs) lfs_view" where
  "ref_view = \<lparr>lv_mounted = (\<lambda>w. fs_mounted w \<and> fs_ok w), lv_entries = (\<lambda>w. map_of (fs_entries w)),
     lv_writer = (\<lambda>w f. if rf_write f \<and> entry_ok (rf_name f, Reg (rf_data f)) then Some (rf_name f, Some (rf_data f)) else None),
     lv_reader = (\<lambda>w f. if rf_write f then None else Some (rf_data f, rf_pos f)), lv_listing = (\<lambda>w h. Some h)\<rparr>"

lemma map_of_without: "map_of (without n es) m = (if m = n then None else map_of es m)"
  by (induction es) (auto simp: without_def)

lemma without_ok: "distinct (map fst es) \<Longrightarrow> distinct (map fst (without n es))" "list_all entry_ok es \<Longrightarrow> list_all entry_ok (without n es)"
    "n \<notin> fst ` set (without n es)"
  by (auto simp: without_def distinct_map_filter list_all_iff)

lemma without_subset: "m \<in> fst ` set (without n es) \<Longrightarrow> m \<in> fst ` set es"
  by (auto simp: without_def)

lemma entry_ok_Reg_Nil: "entry_ok (n, e) \<Longrightarrow> entry_ok (n, Reg [])"
  by (simp add: entry_ok_def)

lemma fs_entry: "fs_ok w \<Longrightarrow> map_of (fs_entries w) n = Some e \<Longrightarrow> entry_ok (n, e)"
  by (auto simp: fs_ok_def list_all_iff dest: map_of_SomeD)

lemma info_describes: "entry_ok (n, e) \<Longrightarrow> describes (info_of (n, e)) e"
  by (auto simp: describes_def info_of_def entry_ok_def unat_of_nat split: lfs_entry.splits)

lemma flush_keeps:
  assumes "fs_mounted w" and "fs_ok w" and "rf_write f" and "entry_ok (rf_name f, Reg (rf_data f))"
  shows "fst (flush_file f w) = 0" "lfs_only ref_view {rf_name f} w (snd (flush_file f w))"
    "map_of (fs_entries (snd (flush_file f w))) (rf_name f) = Some (Reg (rf_data f))"
  using assms without_ok(1,2) [of "fs_entries w" "rf_name f"] without_ok(3) [of "rf_name f" "fs_entries w"]
  by (auto simp: flush_file_def lfs_only_def ref_view_def fs_ok_def map_of_without)

lemma ref_only_refl: "fs_mounted w \<Longrightarrow> fs_ok w \<Longrightarrow> lfs_only ref_view ns w w" "fs_mounted w \<Longrightarrow> fs_ok w \<Longrightarrow> lfs_cache ref_view ns w w"
  by (simp_all add: lfs_only_def lfs_cache_def ref_view_def)

lemma ref_only_change:
  assumes "fs_mounted w" and "fs_ok (w\<lparr>fs_entries := es\<rparr>)" and "\<And>m. m \<notin> ns \<Longrightarrow> map_of es m = map_of (fs_entries w) m"
  shows "lfs_only ref_view ns w (w\<lparr>fs_entries := es\<rparr>)" "lfs_cache ref_view ns w (w\<lparr>fs_entries := es\<rparr>)"
  using assms by (simp_all add: lfs_only_def lfs_cache_def ref_view_def)

interpretation ref_littlefs: littlefs ref_lfs ref_view
proof
  fix w :: ref_fs and n b
  assume m: "lv_mounted ref_view w"
  then have ok: "fs_mounted w" "fs_ok w" by (simp_all add: ref_view_def)
  show "lv_entries ref_view w n \<noteq> None \<Longrightarrow> n \<noteq> [] \<and> length n \<le> USERFS_NAME_MAX"
    using fs_entry [OF ok(2)] by (auto simp: ref_view_def entry_ok_def)
  show "lv_entries ref_view w n = Some (Reg b) \<Longrightarrow> length b < 2 ^ 31"
    using fs_entry [OF ok(2)] by (fastforce simp: ref_view_def entry_ok_def)
  show "lfs_cache ref_view {} w (lf_clear_cache ref_lfs w)" using ref_only_refl [OF ok] by (simp add: ref_lfs_def)
next
  show "lf_mount ref_lfs cfg w = (0, w') \<Longrightarrow> lv_mounted ref_view w'" for cfg w w'
    by (auto simp: ref_lfs_def ref_view_def fs_ok_def LFS_ERR_CORRUPT_def split: if_splits)
next
  show "lf_fs_size ref_lfs w = (r, w') \<Longrightarrow> lv_mounted ref_view w \<Longrightarrow> lfs_only ref_view {} w w'" for w w' r
    using ref_only_refl by (auto simp: ref_lfs_def ref_view_def)
next
  show "lf_stat ref_lfs n w = (r, i, w') \<Longrightarrow> lv_mounted ref_view w \<Longrightarrow> lfs_only ref_view {} w w' \<and> r \<le> 0 \<and>
      (r = 0 \<longrightarrow> (\<exists>e. lv_entries ref_view w n = Some e \<and> describes i e))" for n w r i w'
    using ref_only_refl [of w] fs_entry [of w n] info_describes by (auto simp: ref_lfs_def ref_view_def LFS_ERR_NOENT_def split: option.splits)
next
  fix n w r w'
  assume a: "lf_remove ref_lfs n w = (r, w')" and m: "lv_mounted ref_view w"
  then have ok: "fs_mounted w" "fs_ok w" by (simp_all add: ref_view_def)
  have "fs_ok (w\<lparr>fs_entries := without n (fs_entries w)\<rparr>)" using ok(2) without_ok by (simp add: fs_ok_def)
  from ref_only_change(1) [OF ok(1) this, of "{n}"] ref_only_refl [OF ok]
  show "lfs_only ref_view {n} w w' \<and> lv_entries ref_view w' n \<in> {lv_entries ref_view w n, None} \<and> (0 \<le> r \<longrightarrow> lv_entries ref_view w' n = None)"
    using a by (auto simp: ref_lfs_def map_of_without LFS_ERR_NOENT_def ref_view_def split: if_splits)
next
  fix a b w r w'
  assume run: "lf_rename ref_lfs a b w = (r, w')" and m: "lv_mounted ref_view w" and ne: "a \<noteq> b"
  then have ok: "fs_mounted w" "fs_ok w" by (simp_all add: ref_view_def)
  show "lfs_only ref_view {a, b} w w' \<and> (0 \<le> r \<longrightarrow> lv_entries ref_view w' a = None) \<and>
      (lv_entries ref_view w' b = lv_entries ref_view w a \<or> r < 0 \<and> lv_entries ref_view w' b = lv_entries ref_view w b)"
  proof (cases "\<exists>e. map_of (fs_entries w) a = Some e \<and> entry_ok (b, e)")
    case True
    then obtain e where e: "map_of (fs_entries w) a = Some e" "entry_ok (b, e)" by blast
    let ?es = "(b, e) # without b (without a (fs_entries w))"
    have "fs_ok (w\<lparr>fs_entries := ?es\<rparr>)" using ok(2) e(2) without_ok by (simp add: fs_ok_def)
    from ref_only_change(1) [OF ok(1) this, of "{a, b}"] show ?thesis
      using run e ne by (auto simp: ref_lfs_def map_of_without ref_view_def)
  next
    case False
    then have "r < 0 \<and> w' = w" using run by (auto simp: ref_lfs_def lfs_errors split: option.splits if_splits)
    then show ?thesis using ref_only_refl [OF ok] by simp
  qed
next
  show "lf_opencfg ref_lfs n {LFS_O_RDONLY} w = (r, f, w') \<Longrightarrow> lv_mounted ref_view w \<Longrightarrow> lfs_cache ref_view {} w w' \<and>
      (0 \<le> r \<longrightarrow> (\<exists>b. lv_entries ref_view w n = Some (Reg b) \<and> lv_reader ref_view w' f = Some (b, 0)))" for n w r f w'
    using ref_only_refl(2) [of w] by (auto simp: ref_lfs_def ref_view_def LFS_ERR_NOENT_def split: option.splits lfs_entry.splits)
next
  fix n w r f w'
  assume run: "lf_opencfg ref_lfs n {LFS_O_WRONLY, LFS_O_CREAT, LFS_O_EXCL} w = (r, f, w')" and m: "lv_mounted ref_view w"
  then have ok: "fs_mounted w" "fs_ok w" by (simp_all add: ref_view_def)
  show "lfs_cache ref_view {n} w w' \<and> (0 \<le> r \<longrightarrow> lv_writer ref_view w' f = Some (n, Some []))"
  proof (cases "map_of (fs_entries w) n = None \<and> entry_ok (n, Reg [])")
    case True
    then have "fs_ok (w\<lparr>fs_entries := (n, Reg []) # fs_entries w\<rparr>)" using ok(2) by (simp add: fs_ok_def map_of_eq_None_iff)
    from ref_only_change(2) [OF ok(1) this, of "{n}"] show ?thesis using run True by (auto simp: ref_lfs_def ref_view_def)
  next
    case False
    then show ?thesis using run ref_only_refl(2) [OF ok] by (auto simp: ref_lfs_def LFS_ERR_EXIST_def)
  qed
next
  show "lf_read ref_lfs f k w = (r, d, f', w') \<Longrightarrow> lv_mounted ref_view w \<Longrightarrow> lv_reader ref_view w f = Some (b, p) \<Longrightarrow> lfs_only ref_view {} w w' \<and>
      lv_reader ref_view w' f' \<noteq> None \<and> (0 \<le> r \<longrightarrow> d = take k (drop p b) \<and> r = int (length d) \<and> lv_reader ref_view w' f' = Some (b, p + length d))"
    for f k w r d f' w' b p
    using ref_only_refl(1) [of w] by (auto simp: ref_lfs_def ref_view_def Let_def split: if_splits)
next
  show "lf_seek ref_lfs f off w = (r, f', w') \<Longrightarrow> lv_mounted ref_view w \<Longrightarrow> lv_reader ref_view w f = Some (b, p) \<Longrightarrow> lfs_only ref_view {} w w' \<and>
      lv_reader ref_view w' f' \<noteq> None \<and> (0 \<le> r \<longrightarrow> lv_reader ref_view w' f' = Some (b, unat off))" for f off w r f' w' b p
    using ref_only_refl(1) [of w] by (auto simp: ref_lfs_def ref_view_def split: if_splits)
next
  show "lf_close ref_lfs f w = (r, w') \<Longrightarrow> lv_mounted ref_view w \<Longrightarrow> lv_reader ref_view w f \<noteq> None \<Longrightarrow> lfs_only ref_view {} w w'" for f w r w'
    using ref_only_refl(1) [of w] by (auto simp: ref_lfs_def ref_view_def flush_file_def split: if_splits)
next
  fix f d w r f' w' n c
  assume run: "lf_write ref_lfs f d w = (r, f', w')" and m: "lv_mounted ref_view w" and wr: "lv_writer ref_view w f = Some (n, c)"
  then show "lfs_only ref_view {n} w w' \<and> (\<exists>c'. lv_writer ref_view w' f' = Some (n, c')) \<and>
      (r = int (length d) \<and> c \<noteq> None \<longrightarrow> lv_writer ref_view w' f' = Some (n, Some (the c @ d)))"
    using ref_only_refl(1) [of w] by (auto simp: ref_lfs_def ref_view_def entry_ok_def LFS_ERR_NOSPC_def split: if_splits)
next
  fix f w r f' w' n c
  assume run: "lf_sync ref_lfs f w = (r, f', w')" and m: "lv_mounted ref_view w" and wr: "lv_writer ref_view w f = Some (n, c)"
  then have "rf_write f" "entry_ok (rf_name f, Reg (rf_data f))" "n = rf_name f" "fs_mounted w" "fs_ok w" by (auto simp: ref_view_def split: if_splits)
  then show "lfs_only ref_view {n} w w' \<and> (\<exists>c'. lv_writer ref_view w' f' = Some (n, c')) \<and> r \<le> 0 \<and>
      (r = 0 \<and> c \<noteq> None \<longrightarrow> lv_writer ref_view w' f' = Some (n, c))"
    using run wr flush_keeps [of w f] by (auto simp: ref_lfs_def ref_view_def)
next
  fix f w r w' n c
  assume run: "lf_close ref_lfs f w = (r, w')" and m: "lv_mounted ref_view w" and wr: "lv_writer ref_view w f = Some (n, c)"
  then have "rf_write f" "entry_ok (rf_name f, Reg (rf_data f))" "n = rf_name f" "fs_mounted w" "fs_ok w" "c = Some (rf_data f)"
    by (auto simp: ref_view_def split: if_splits)
  then show "lfs_only ref_view {n} w w' \<and> r \<le> 0 \<and> (0 \<le> r \<and> c \<noteq> None \<longrightarrow> lv_entries ref_view w' n = Some (Reg (the c)))"
    using run flush_keeps [of w f] by (auto simp: ref_lfs_def ref_view_def)
next
  fix w r h w'
  assume run: "lf_dir_open ref_lfs w = (r, h, w')" and m: "lv_mounted ref_view w"
  then have ok: "fs_mounted w" "fs_ok w" and h: "h = map info_of (fs_entries w)" "w' = w" by (auto simp: ref_view_def ref_lfs_def)
  have nm: "map li_name h = map fst (fs_entries w)" by (simp add: h info_of_def)
  have "\<exists>e. map_of (fs_entries w) (li_name i) = Some e \<and> describes i e" if i: "i \<in> set h" for i
  proof -
    obtain n e where ne: "(n, e) \<in> set (fs_entries w)" "i = info_of (n, e)" using i h by auto
    then have e: "map_of (fs_entries w) n = Some e" using ok(2) by (simp add: fs_ok_def)
    then show ?thesis using ne(2) info_describes [OF fs_entry [OF ok(2) e]] by (simp add: info_of_def)
  qed
  moreover have "n \<in> li_name ` set h" if "map_of (fs_entries w) n \<noteq> None" for n
    using that nm by (metis list.set_map map_of_eq_None_iff)
  moreover have "distinct (map li_name h)" unfolding nm using ok(2) by (simp add: fs_ok_def)
  ultimately show "lfs_only ref_view {} w w' \<and> (0 \<le> r \<longrightarrow> (\<exists>l. lv_listing ref_view w' h = Some l \<and> distinct (map li_name l) \<and>
         (\<forall>i \<in> set l. li_name i \<in> {[0x2E], [0x2E, 0x2E]} \<or> (\<exists>e. lv_entries ref_view w (li_name i) = Some e \<and> describes i e)) \<and>
         (\<forall>n. lv_entries ref_view w n \<noteq> None \<longrightarrow> n \<in> li_name ` set l)))"
    using ref_only_refl(1) [OF ok] h(2) by (auto simp: ref_view_def)
next
  show "lf_dir_read ref_lfs h w = (r, i, h', w') \<Longrightarrow> lv_mounted ref_view w \<Longrightarrow> lv_listing ref_view w h = Some l \<Longrightarrow> lfs_only ref_view {} w w' \<and>
      (0 < r \<longrightarrow> l \<noteq> [] \<and> i = hd l \<and> lv_listing ref_view w' h' = Some (tl l)) \<and> (r = 0 \<longrightarrow> l = [])" for h w r i h' w' l
    using ref_only_refl(1) [of w] by (auto simp: ref_lfs_def ref_view_def split: list.splits)
next
  show "lv_mounted ref_view w \<Longrightarrow> lfs_only ref_view {} w (lf_dir_close ref_lfs h w)" for w h
    using ref_only_refl(1) [of w] by (auto simp: ref_lfs_def ref_view_def)
qed

section \<open>Properties\<close>

text \<open>A flash that is ready, for the reference file system, and a file system that is mounted on it.\<close>

definition ref_media :: "ref_fs media_ops" where
  "ref_media = (let inform = \<lparr>if_jedec_id = [], if_capacity = 0x01000000, if_initialized = True, if_faulted = False\<rparr> in
     \<lparr>fo_init = (\<lambda>hz w. (INTERNAL_FLASH_OK, w)), fo_get_info = (\<lambda>w. (inform, w)),
      fo_read = (\<lambda>p off d w. (INTERNAL_FLASH_OK, replicate (plen d) 0, w)), fo_erase = (\<lambda>p off n w. (INTERNAL_FLASH_OK, w)),
      fo_program = (\<lambda>p off d w. (INTERNAL_FLASH_OK, w)),
      fo_partition_info = (\<lambda>p w. (INTERNAL_FLASH_OK, Some \<lparr>pi_name = ''userfs'', pi_offset = 0xC70000, pi_size = 0x390000,
        pi_required_capacity = 0x01000000, pi_erase_size = 4096, pi_program_size = 256, pi_runtime_writable = True, pi_available = True\<rparr>, w))\<rparr>)"

definition fresh_userfs :: "ref_fs \<Rightarrow> (ref_file, ref_fs) userfs" where
  "fresh_userfs w = \<lparr>uf_config = \<lparr>lc_block_size = 0, lc_block_count = 0\<rparr>, uf_upload = no_upload, uf_state = USERFS_STATE_UNINITIALIZED,
     uf_last_error = USERFS_OK, uf_next_upload_id = 0, uf_w = w\<rparr>"

text \<open>A board with the program \<open>a\<close> that holds the bytes 1, 2, 3, and the upload of \<open>b\<close> with the bytes 7, 8.\<close>

definition board_fs :: ref_fs where
  "board_fs = \<lparr>fs_mounted = True, fs_entries = [([0x61], Reg [1, 2, 3])]\<rparr>"

definition board :: "(ref_file, ref_fs) userfs" where
  "board = (fresh_userfs board_fs)\<lparr>uf_state := USERFS_STATE_MOUNTED, uf_config := userfs_configure 0x390000\<rparr>"

lemma board_ok: "userfs_ok ref_view board" "uf_state board = USERFS_STATE_MOUNTED"
  by (simp_all add: board_def fresh_userfs_def board_fs_def userfs_ok_def ref_view_def fs_ok_def entry_ok_def USERFS_NAME_MAX_def)

lemma temporary_entry: "entry_ok (temporary_name i, Reg b) \<longleftrightarrow> length b < 2 ^ 31" "temporary_name i \<noteq> [x]" "[x] \<noteq> temporary_name i"
    "entry_ok ([x], Reg b) \<longleftrightarrow> length b < 2 ^ 31"
  by (auto simp: entry_ok_def temporary_name_def USERFS_UPLOAD_PREFIX_def USERFS_NAME_MAX_def)

lemma valid_b: "userfs_valid_name (Some [0x62]) False" "userfs_normal_name [0x62] = [0x62]"
  by (simp_all add: userfs_valid_name_def userfs_normal_name_def name_char_def USERFS_NAME_MAX_def)

lemmas board_defs = board_def fresh_userfs_def board_fs_def ref_lfs_def userfs_file_open_def userfs_remember_def Let_def temporary_entry no_upload_def

lemma board_uploads:
  "\<exists>s1 s2 s3. userfs_upload_begin ref_lfs (Some [0x62]) 2 (crc32_update 0 [7, 8]) True board = (Some 1, USERFS_OK, s1) \<and>
     userfs_upload_write ref_lfs 1 0 (Ptr [7, 8]) s1 = (USERFS_OK, s2) \<and> userfs_upload_commit ref_lfs 1 s2 = Some (USERFS_OK, s3)"
  by (simp add: userfs_upload_begin_def valid_b USERFS_FILE_MAX_def USERFS_NAME_MAX_def board_defs LFS_ERR_NOENT_def
      userfs_upload_write_def USERFS_UPLOAD_CHUNK_MAX_def userfs_upload_commit_def flush_file_def without_def
      userfs_verify_upload_def verify_loop.simps USERFS_CACHE_SIZE_def)

lemma board_mounted: "userfs_mount ref_lfs ref_media (fresh_userfs (board_fs\<lparr>fs_mounted := False\<rparr>)) = Some (USERFS_OK, board)"
  by (simp add: userfs_mount_def userfs_media_def ref_media_def board_defs INTERNAL_FLASH_PARTITION_USERFS_def fs_ok_def
      userfs_cleanup_uploads.simps find_stale.simps info_of_def stale_name_def USERFS_UPLOAD_PREFIX_def USERFS_META_TEMP_def userfs_clear_upload_def)

text \<open>C40. Uploads are atomic: after a mount, and through every history of calls on the user file system that neither unmounts
  nor formats it and neither writes to nor commits again an upload whose first commit has failed, a file with a name that is
  not hidden is as it was when the file system was mounted, or was removed by a call for it, or holds as many bytes as
  were announced for an upload to its name, with the CRC-32 announced for them, and a commit of that upload was called after all its bytes
  had been accepted (a commit that reports a failure in its last step, the renaming, may have done it). A started, refused
  or aborted upload, a commit that is refused, and every other call change no such file. littlefs is assumed to behave as
  documented (\<open>littlefs\<close>), and the power to stay on.\<close>

theorem userfs_files_atomic:
  assumes "littlefs L V" and "\<not> up_active (uf_upload s0)" and "uf_state s0 \<noteq> USERFS_STATE_MOUNTED"
    and "userfs_mount L fo s0 = Some (USERFS_OK, s)" and "userfs_run L fo cs s s'" and "visible n"
  shows "file_story V cs n (uf_w s) (uf_w s')"
proof -
  have "userfs_ok V s0" using assms(2,3) by (simp add: userfs_ok_def Let_def)
  then have "userfs_ok V s" "uf_state s = USERFS_STATE_MOUNTED" using littlefs.mount_effect [OF assms(1), of s0 fo] assms(4) by auto
  then show ?thesis using littlefs.run_story [OF assms(1,5)] assms(6) by simp
qed

theorem userfs_files_atomic_witness:
  "\<exists>s'. userfs_run ref_lfs ref_media [Committed [0x62] 2 (crc32_update 0 [7, 8])] board s' \<and>
     file_story ref_view [Committed [0x62] 2 (crc32_update 0 [7, 8])] [0x61] (uf_w board) (uf_w s')"
proof -
  let ?c = "crc32_update 0 [7, 8]"
  obtain s1 s2 s3 where r: "userfs_upload_begin ref_lfs (Some [0x62]) 2 ?c True board = (Some 1, USERFS_OK, s1)"
    "userfs_upload_write ref_lfs 1 0 (Ptr [7, 8]) s1 = (USERFS_OK, s2)" "userfs_upload_commit ref_lfs 1 s2 = Some (USERFS_OK, s3)"
    using board_uploads by blast
  note be = ref_littlefs.begin_effect [OF r(1) board_ok(1)]
  then have up: "uploading ref_view s1 (Some [])" "userfs_ok ref_view s1" by auto
  note we = ref_littlefs.write_effect [OF r(2) up(2,1)]
  then have h: "handle_open 1 s1" "handle_open 1 s2" using up(1) by (auto simp: handle_open_def uploading_def)
  have t: "up_target (uf_upload s2) = [0x62]" "up_expected_size (uf_upload s2) = 2" "up_expected_crc (uf_upload s2) = ?c"
    using we be valid_b by simp_all
  have cm: "commits 1 s2 = [Committed [0x62] 2 ?c]" using t we be h(2) by (auto simp: commits_def uploading_def Let_def)
  have "userfs_run ref_lfs ref_media [] board s2" by (rule run_write [OF run_begin [OF run_nil r(1)] h(1) r(2)])
  from run_commit [OF this h(2) r(3)] have run: "userfs_run ref_lfs ref_media [Committed [0x62] 2 ?c] board s3" by (simp add: cm)
  have "file_story ref_view [Committed [0x62] 2 ?c] [0x61] (uf_w board) (uf_w s3)"
    by (rule userfs_files_atomic [OF ref_littlefs.littlefs_axioms _ _ board_mounted run])
      (simp_all add: fresh_userfs_def visible_def USERFS_NAME_MAX_def)
  then show ?thesis using run by blast
qed

text \<open>An upload stores exactly what was sent: the commit of an upload returns, and if it reports success the file holds
  the bytes of the accepted writes in their order, which have the announced length and checksum, and no other visible file
  has changed; writes that were refused, whatever their arguments, have no effect.\<close>

theorem userfs_upload_exact:
  assumes "littlefs L V" and "userfs_ok V s" and "userfs_upload_begin L name sz crc want s = (Some i, USERFS_OK, s1)"
    and "upload_writes L i bs s1 s2"
  shows "\<exists>r s3. userfs_upload_commit L i s2 = Some (r, s3) \<and> (r = USERFS_OK \<longrightarrow>
    lv_entries V (uf_w s3) (userfs_normal_name (the name)) = Some (Reg bs) \<and> length bs = unat sz \<and> crc32_update 0 bs = crc \<and>
    (\<forall>n. visible n \<and> n \<noteq> userfs_normal_name (the name) \<longrightarrow> lv_entries V (uf_w s3) n = lv_entries V (uf_w s) n))"
  by (rule littlefs.upload_exact [OF assms])

theorem userfs_upload_exact_witness:
  "\<exists>s1 s2 s3. userfs_upload_begin ref_lfs (Some [0x62]) 2 (crc32_update 0 [7, 8]) True board = (Some 1, USERFS_OK, s1) \<and>
     upload_writes ref_lfs 1 [7, 8] s1 s2 \<and> userfs_upload_commit ref_lfs 1 s2 = Some (USERFS_OK, s3) \<and>
     lv_entries ref_view (uf_w s3) [0x62] = Some (Reg [7, 8])"
proof -
  obtain s1 s2 s3 where r: "userfs_upload_begin ref_lfs (Some [0x62]) 2 (crc32_update 0 [7, 8]) True board = (Some 1, USERFS_OK, s1)"
    "userfs_upload_write ref_lfs 1 0 (Ptr [7, 8]) s1 = (USERFS_OK, s2)" "userfs_upload_commit ref_lfs 1 s2 = Some (USERFS_OK, s3)"
    using board_uploads by blast
  have w: "upload_writes ref_lfs 1 [7, 8] s1 s2" using writes_accepted [OF writes_none r(2)] by simp
  from userfs_upload_exact [OF ref_littlefs.littlefs_axioms board_ok(1) r(1) w] r(3)
  have "lv_entries ref_view (uf_w s3) [0x62] = Some (Reg [7, 8])" by (simp add: valid_b)
  then show ?thesis using r w by blast
qed

end
