(* ===== verification/Spec2Isabelle.thy ===== *)
theory Spec2Isabelle
  imports Hk_String Hmpy_Stream Ext_Link Uart_Bridge Settings_Store Dristy_Config Core1_Executor Frame_Pool Capability_Core Input_State
    Terminal_Buffer Files_App Settings_Service User_Files
begin

text \<open>
  Dristy is the firmware of a vision camera built on the Kendryte K210, a dual core RISC-V microcontroller. The C
  sources stand under \<open>src/dristy/firmware/k210/firmware/src\<close> (below: \<open>FW\<close>). This development models the parts
  of the firmware whose correctness does not depend on pixels: the byte protocols it speaks, the storage that has
  to survive a power cut, the hand-over of work between the two cores, the resource manager that arbitrates the
  peripherals between applications, and the bounded data structures those share. It is a shallow embedding: every
  C function is a HOL function over the same data, every theorem is about those functions.

  The parts and how they meet. A byte from the host arrives on the UART. \<open>Uart_Bridge\<close>
  (\<open>FW/dristy/dristy_uart_bridge.c\<close>) splits the stream between the DLP protocol, whose frames it assembles and
  dispatches, and a pass-through ring that feeds the HK external link, whose frames \<open>Ext_Link\<close>
  (\<open>FW/services/external_link_protocol.c\<close>) builds and parses. The programming session of MicroPython uses a third
  framing on the debug UART: \<open>Hmpy_Cobs\<close>, \<open>Hmpy_Frame\<close> and \<open>Hmpy_Stream\<close> (\<open>FW/services/hmpy_codec.c\<close>) are its COBS
  layer, its CRC-32 protected packets and the decoder that resynchronises on the delimiter. Both protocols use the field
  codecs and the checksum of \<open>Hk_Binary\<close> (\<open>FW/core/hk_binary.c\<close>), text that reaches the screen or a file name goes through
  \<open>Hk_String\<close> (\<open>FW/core/hk_string.c\<close>). Settings go down a stack of three: \<open>Settings_Store\<close>
  (\<open>FW/storage/settings_store.c\<close>, two slots written in turn) on \<open>Internal_Flash\<close> (\<open>FW/storage/internal_flash.c\<close>, the
  partition table and the checked access) on \<open>Boot_Flash\<close> (\<open>FW/drivers/boot_flash.c\<close>, the SPI NOR commands);
  \<open>Dristy_Config\<close> (\<open>FW/dristy/dristy_config.c\<close>) sits directly on the driver, and the user programs of \<open>User_Files\<close>
  (\<open>FW/storage/userfs.c\<close>) are kept by littlefs in a partition of the same flash. \<open>Core1_Executor\<close>
  (\<open>FW/services/core1_executor.c\<close>) is the mailbox through which core 0 lets core 1 run one job at a time;
  \<open>Frame_Pool\<close> (\<open>FW/services/frame_pool.c\<close>) owns the frame memory those jobs work on. \<open>Capability_Core\<close>
  (\<open>FW/capabilities/capability_core.c\<close>) opens owners, grants leases of providers to them and takes them back;
  \<open>Input_State\<close> (\<open>FW/capabilities/input_state.c\<close>) is the event queue behind one of those providers.
  \<open>Terminal_Buffer\<close> (\<open>FW/apps/terminal/terminal_buffer.c\<close>) is the scrollback of the terminal application.
  Photos, programs and models live on an SD card: \<open>Sd_Card\<close> turns the byte exchange with the card into blocks,
  \<open>Fat32_State\<close> to \<open>Fat32_Dir\<close> are the FAT32 file system over blocks, and \<open>Fat32_Volume\<close> mounts the one on the other.

  Conventions. \<open>uint8_t\<close>, \<open>uint16_t\<close>, \<open>uint32_t\<close> and \<open>uint64_t\<close> are words of that width wherever wrap-around can show;
  \<open>size_t\<close> and array indices are \<open>nat\<close>, C buffers are byte lists of the buffer's length (\<open>Dristy_Prelude\<close>:
  \<open>cptr\<close> is a pointer that may be NULL together with what it points to, \<open>mem_write\<close> writes a list in place,
  \<open>slice\<close> reads one). A \<open>static\<close> variable or a struct is a field of a record that the functions take and return;
  a C enum is a datatype or a word constant as the code compares it. C names are kept; a type that has the name of
  a function gets the suffix \<open>_t\<close>. Errors are the status values of the C functions, and every early return is a branch.

  Theories, states and operations.

  \<^item> \<open>Dristy_Prelude\<close>: machine types, pointers, in-place writes, the lemma collections (\<open>buf_simps\<close>,
    \<open>codec_simps\<close>, \<open>inv_intros\<close>, \<open>len_simps\<close>) and two interfaces: \<open>field_codec\<close> (what \<open>get\<close> returns after \<open>put\<close>) and
    \<open>byte_register\<close> (a checksum register fed byte by byte: equal-length data that differ in one burst of the
    register's width leave different registers). \<open>Hk_Binary\<close> interprets the first for \<open>rd16\<close>/\<open>wr16\<close> and \<open>rd32\<close>/\<open>wr32\<close> and
    the second for the CRC-32, \<open>Ext_Link\<close> the second for its CRC-16.
  \<^item> \<open>Hk_String\<close>: \<open>utf16_to_utf8\<close> and \<open>utf8_copy_glyphs\<close> store the longest prefix of whole characters that fits,
    terminated; \<open>utf8_next\<close> never reads past the terminator.
  \<^item> \<open>Hmpy_Cobs\<close>, \<open>Hmpy_Frame\<close>, \<open>Hmpy_Stream\<close>: encode then decode gives the frame back; decoding accepts exactly the
    encodings (raw layer), never writes outside its buffer and reports the status of the first failing check; any burst
    of at most 32 bits in a frame is refused. The stream decoder refines the abstract framing \<open>deframe_all\<close> of the
    locale \<open>packet_framing\<close> (split at delimiters, drop what is too long or does not decode), whose lemmas give
    resynchronisation after arbitrary noise; the interpretation \<open>hmpyf\<close> discharges it for the packets.
  \<^item> \<open>Ext_Link\<close>: the parser, byte by byte, reports only frames that end the bytes received so far, and reports every frame of
    a sequence of frames; a frame with one changed byte is refused.
  \<^item> \<open>Uart_Bridge\<close>: the polling loop is a bounded recursion over the bytes of one poll, the ISR rings are explicit lists.
    A well-formed frame is dispatched with its payload; a frame of the largest declared length is dropped; pass-through
    stops at the synchronisation byte (both findings).
  \<^item> \<open>Boot_Flash\<close>: the chip is hardware, a parameter \<open>hw\<close> that answers every SPI transfer from the whole trace of
    transfers so far. \<open>nor_chip\<close> states what the data sheet promises of such a chip. An erase or a program starts at its
    command and takes time: from then on the bytes of its sector or page are \<open>unsettled\<close> and may hold anything, until a
    status poll finds the chip ready; then an erase has set them all and a program has ANDed its data into them. The power can fail at any
    point of the trace (\<open>Power_Cycle\<close>) and leaves unsettled bytes as they happen to be. Bytes that no command touches
    keep their value. \<open>ref_chip\<close> is an executable chip that works after each command until it is polled, and whose sector is torn
    when the power fails meanwhile; it discharges the laws (\<open>interpretation ref\<close>). The busy wait is a recursion on the
    remaining time, so that it terminates whatever the chip answers (\<open>boot_flash_wait_terminates\<close>).
  \<^item> \<open>Internal_Flash\<close>: \<open>internal_flash_confined\<close> says no call, with any arguments, touches a byte outside the writable
    partitions. The operations its clients use form the locale \<open>flash_device\<close>, for which every \<open>nor_chip\<close> is a
    \<open>sublocale\<close>; its contents are \<open>None\<close> at the unsettled bytes.
  \<^item> \<open>Settings_Store\<close>: the locale \<open>settings_flash\<close> extends \<open>flash_device\<close>. A save that reports success is what every later
    initialisation loads until the next save, whatever else happened on the flash and to the power in between; if the power fails at
    any point of a save, later initialisations load the old payload, or the new one when its record is complete. Both hold as long
    as the sequence number does not wrap (a finding), the second if a torn record does not pass its CRC by chance. Payloads of
    every older version migrate.
  \<^item> \<open>Dristy_Config\<close>: a saved configuration is the one loaded; and its address lies inside the firmware partition
    (\<open>dristy_config_save_erases_firmware\<close>, a finding).
  \<^item> \<open>Core1_Executor\<close>: the two cores as an interleaving of their volatile accesses (an inductive step relation).
    Every job that core 1 runs was submitted with those arguments, each once and in order, and each is reported.
  \<^item> \<open>Frame_Pool\<close>: refines a pool with one owner per slot and numbered tokens; a token once released is refused for ever.
  \<^item> \<open>Capability_Core\<close>: the invariant ties the lease table, the owners' counters and the providers' counters and
    quarantine flags together; every operation keeps it. Handles that were closed stay invalid (generations
    that run out retire their slot); closing an owner releases all its leases; a failed cleanup quarantines the
    provider. The providers are callbacks and therefore parameters. \<open>hk_version_t\<close> is a \<open>linorder\<close>.
  \<^item> \<open>Input_State\<close>: every edge the debouncer accepts is delivered to every cursor once, in order, or counted as lost.
  \<^item> \<open>Terminal_Buffer\<close>: refines an unbounded history cut at 64 lines; the viewport shows the wrapped history and does
    not move while it is scrolled up and output arrives.
  \<^item> \<open>Fat32_State\<close>, \<open>Fat32_Alloc\<close>, \<open>Fat32_Space\<close>, \<open>Fat32_File\<close>, \<open>Fat32_Dir\<close> (\<open>FW/storage/fat32_state.c\<close>, \<open>fat32_alloc.c\<close>,
    \<open>fat32_file.c\<close>, \<open>fat32_dir.c\<close>): the FAT32 routines over any card with the laws of the locale \<open>block_store\<close> (a read that
    succeeds gives the block, a write that succeeds stores it, no call touches another block). The state has the one sector buffer
    all routines share. Every routine is shown to return on a well-formed volume, its failures included, and what it did to the
    table and the data area is stated in terms of chains of clusters and of the bytes of files.
  \<^item> \<open>Sd_Card\<close> (\<open>FW/storage/sd_card.c\<close>, \<open>FW/drivers/sd_spi.c\<close>): the block driver over a bus that exchanges bytes with
    the card. What the SD specification says of a card in SPI mode, byte by byte, is the inductive relation \<open>sd_allows\<close> and the
    locale \<open>sd_device\<close>; a \<open>sublocale\<close> makes every such card a \<open>block_store\<close>. \<open>ref_bus\<close> is an executable card with these laws,
    on which no transfer fails (\<open>interpretation ref_card\<close>).
  \<^item> \<open>Fat32_Volume\<close> (\<open>FW/storage/fat32_sd.c\<close>, \<open>file_mount.c\<close>, \<open>FW/services/sd_service.c\<close>): mount, health check, insertion and
    removal on that driver, and the properties of the file system for every card in \<open>sd_device\<close>. A volume that is
    mounted from a FAT32 boot sector is well formed (\<open>volume_ok\<close>), and every routine keeps it so.
  \<^item> \<open>File_Scan\<close>, \<open>File_Path\<close> (\<open>FW/storage/file_dir_scan.c\<close>, \<open>file_path.c\<close>): a directory is walked with one loop
    (\<open>dir_walk\<close>), whose meaning is the list of entries \<open>dir_entries\<close> of the bytes of the directory, long names put together;
    a path is looked up component by component, whose meaning is \<open>lookup_path\<close> in a tree of directories.
  \<^item> \<open>File_Browser\<close>, \<open>Files_App\<close> (\<open>FW/apps/files\<close>): the file browser. A directory is loaded, sorted and shown, a text
    previewed, a file or a directory deleted; the buttons and the events of the card drive it (\<open>files_step\<close>), and the
    invariant holds in every history of such events (\<open>files_history\<close>).
  \<^item> \<open>Settings_Service\<close> (\<open>FW/services/settings_service.c\<close>, \<open>settings_payload_codec.c\<close>, \<open>settings_persistence.c\<close>,
    \<open>camera_settings_state.c\<close>): the settings of the running firmware over the store, their packed coding, and the
    histories of boots, changes and saves (\<open>service_run\<close>), with boots that cannot read the flash and saves at the limit of the
    sequence number among them; its flag says that the last boot had read the flash and the number has not wrapped since.
  \<^item> \<open>User_Files\<close> (\<open>FW/storage/userfs.c\<close>): the user programs in internal flash. littlefs is third party code and a parameter
    (\<open>lfs_ops\<close>) with its documented behaviour as the locale \<open>littlefs\<close>; \<open>ref_lfs\<close> is an executable instance of it. The callbacks
    that give littlefs its blocks are modelled on \<open>Internal_Flash\<close>. The histories of calls are \<open>userfs_run\<close>, what may have become of a
    file in one is \<open>file_story\<close>; an upload is visible only once it has been read back and compared with the announced length and CRC.

  Bounds and fuel. Loops over a buffer recurse on the remaining input. \<open>boot_flash\<close> waits recurse on the
  remaining microseconds of the time-out. Where the code loops until a status changes, the model is an interleaving of steps
  and the theorems are about every reachable state. The walks over
  cluster chains and the search for a free cluster need not end (a chain on a damaged card may be a cycle): they are
  \<open>partial_function (option)\<close>, \<open>None\<close> is a call that does not return, and the theorems about them state that they return. The
  polls of the SD driver count down the time-outs of the code. All other functions are total.

  Not modelled. The camera, display, neural network and peripheral drivers and the platform adapters under
  \<open>platforms/k210\<close> (register programming, DMA, interrupts); the floating-point vision algorithms (the
  allowed libraries have no floating-point arithmetic); the vendored libraries (apriltag, quirc, littlefs, MicroPython) and
  the code that only calls them (the interpreter's bindings, the QR and AprilTag applications); the user interfaces,
  which only draw; generated bitmaps and fonts; host tools and tests. Of the file browser the image
  decoders (BMP, PNG, JPEG, GIF), which turn a file into pixels, are an argument of the model. Boards set up their pins through
  callbacks (\<open>sd_prepare\<close> in \<open>FW/drivers/sd_spi.c\<close>, \<open>internal_flash_prepare\<close>), which are left out. The
  timing of interrupts against the code they interrupt is modelled where the code has to cope with it
  (\<open>Core1_Executor\<close>, \<open>Uart_Bridge\<close>), elsewhere a function runs to its end.
\<close>

end
